(* ===== verification/HXBase.thy ===== *)
theory HXBase
  imports Main "HOL-Library.Word"
begin

unbundle bit_operations_syntax

text \<open>
  The prelude of the HX-421 development: the widths of the C integers, the byte-level
  list operations that stand for \<^verbatim>\<open>memcpy\<close>, and the generic lemmas the components share.

  Conventions.  An unsigned C integer whose wrap-around matters is a machine word or a
  \<^typ>\<open>nat\<close> with the reduction written out (\<open>u32\<close>, \<open>u16\<close>, \<open>u64\<close>); a \<^verbatim>\<open>size_t\<close> that
  only counts bytes or elements of an object in memory is a plain \<^typ>\<open>nat\<close>.  A signed
  C integer is an \<^typ>\<open>int\<close>, reduced with \<open>i16\<close>, \<open>i32\<close>, \<open>i64\<close> where the code stores or
  computes it at that width.  Signed division truncates (\<open>cdiv\<close>); the right shift of a
  signed value is arithmetic (\<open>asr\<close>), as on the two targets of the code.
\<close>

section \<open>Collections of facts\<close>

named_theorems inv_keep \<open>an operation of a component keeps its invariant\<close>
named_theorems mem_simps \<open>reads of a memory after a write\<close>

section \<open>Machine integers\<close>

type_synonym byte = "8 word"

definition u16 :: "nat \<Rightarrow> nat" where "u16 n = n mod 2 ^ 16"
definition u32 :: "nat \<Rightarrow> nat" where "u32 n = n mod 2 ^ 32"
definition u64 :: "nat \<Rightarrow> nat" where "u64 n = n mod 2 ^ 64"

definition i8 :: "int \<Rightarrow> int" where "i8 x = (x + 128) mod 256 - 128"
definition i16 :: "int \<Rightarrow> int" where "i16 x = (x + 32768) mod 65536 - 32768"
definition i32 :: "int \<Rightarrow> int" where
  "i32 x = (x + 2147483648) mod 4294967296 - 2147483648"
definition i64 :: "int \<Rightarrow> int" where
  "i64 x = (x + 9223372036854775808) mod 18446744073709551616 - 9223372036854775808"

definition asr :: "int \<Rightarrow> nat \<Rightarrow> int" where "asr x k = x div 2 ^ k"

definition cdiv :: "int \<Rightarrow> int \<Rightarrow> int" where
  "cdiv a b = sgn a * sgn b * (\<bar>a\<bar> div \<bar>b\<bar>)"

lemma u16_less [simp]: "u16 n < 65536"
  by (simp add: u16_def)

lemma u32_less [simp]: "u32 n < 4294967296"
  by (simp add: u32_def)

lemma u64_less [simp]: "u64 n < 18446744073709551616"
  by (simp add: u64_def)

lemma u32_id [simp]: "n < 4294967296 \<Longrightarrow> u32 n = n"
  by (simp add: u32_def)

lemma u64_id [simp]: "n < 18446744073709551616 \<Longrightarrow> u64 n = n"
  by (simp add: u64_def)

lemma u16_id [simp]: "n < 65536 \<Longrightarrow> u16 n = n"
  by (simp add: u16_def)

lemma i16_range: "- 32768 \<le> i16 x \<and> i16 x \<le> 32767"
proof -
  have "0 \<le> (x + 32768) mod 65536" and "(x + 32768) mod 65536 < 65536" by simp_all
  then show ?thesis unfolding i16_def by linarith
qed

lemma i32_range: "- 2147483648 \<le> i32 x \<and> i32 x \<le> 2147483647"
proof -
  have "0 \<le> (x + 2147483648) mod 4294967296" and "(x + 2147483648) mod 4294967296 < 4294967296"
    by simp_all
  then show ?thesis unfolding i32_def by linarith
qed

lemma i8_id [simp]: "- 128 \<le> x \<Longrightarrow> x \<le> 127 \<Longrightarrow> i8 x = x"
  by (simp add: i8_def)

lemma i16_id [simp]: "- 32768 \<le> x \<Longrightarrow> x \<le> 32767 \<Longrightarrow> i16 x = x"
  by (simp add: i16_def)

lemma i32_id [simp]: "- 2147483648 \<le> x \<Longrightarrow> x \<le> 2147483647 \<Longrightarrow> i32 x = x"
  by (simp add: i32_def)

lemma i64_id [simp]:
  "- 9223372036854775808 \<le> x \<Longrightarrow> x \<le> 9223372036854775807 \<Longrightarrow> i64 x = x"
  by (simp add: i64_def)

section \<open>Flat memory: slices and block copies\<close>

text \<open>
  \<open>seg off n m\<close> is the \<open>n\<close> elements at \<open>off\<close>; \<open>blit m off xs\<close> is \<open>m\<close> after the copy of
  \<open>xs\<close> to \<open>off\<close>.  Both are used inside the bounds of \<open>m\<close> only, which the invariants of the
  components guarantee.
\<close>

definition seg :: "nat \<Rightarrow> nat \<Rightarrow> 'a list \<Rightarrow> 'a list" where
  "seg off n m = take n (drop off m)"

definition blit :: "'a list \<Rightarrow> nat \<Rightarrow> 'a list \<Rightarrow> 'a list" where
  "blit m off xs = take off m @ xs @ drop (off + length xs) m"

lemma length_seg [simp]: "length (seg off n m) = min n (length m - off)"
  by (simp add: seg_def)

lemma length_blit [simp]: "off + length xs \<le> length m \<Longrightarrow> length (blit m off xs) = length m"
  by (simp add: blit_def)

lemma nth_seg: "i < n \<Longrightarrow> off + i < length m \<Longrightarrow> seg off n m ! i = m ! (off + i)"
  by (simp add: seg_def)

lemma nth_blit:
  "off + length xs \<le> length m \<Longrightarrow> i < length m \<Longrightarrow>
   blit m off xs ! i = (if off \<le> i \<and> i < off + length xs then xs ! (i - off) else m ! i)"
  by (auto simp: blit_def nth_append min_def)

lemma seg_blit_same [mem_simps]:
  "off + length xs \<le> length m \<Longrightarrow> seg off (length xs) (blit m off xs) = xs"
  by (simp add: seg_def blit_def)

lemma seg_blit_disjoint [mem_simps]:
  assumes "off + length xs \<le> length m" and "o' + n \<le> off \<or> off + length xs \<le> o'"
  shows "seg o' n (blit m off xs) = seg o' n m"
proof (rule nth_equalityI)
  show "length (seg o' n (blit m off xs)) = length (seg o' n m)"
    using assms(1) by simp
next
  fix i assume "i < length (seg o' n (blit m off xs))"
  then have "i < n" and "o' + i < length m" using assms(1) by auto
  then show "seg o' n (blit m off xs) ! i = seg o' n m ! i"
    using assms by (auto simp: nth_seg nth_blit)
qed

lemma blit_Nil [simp]: "blit m off [] = m"
  by (simp add: blit_def)

lemma seg_append_split:
  "seg off (n + k) m = seg off n m @ seg (off + n) k m"
  by (simp add: seg_def take_add add.commute [of off n])

lemma slot_disjoint:
  fixes i j es :: nat
  assumes "i \<noteq> j"
  shows "i * es + es \<le> j * es \<or> j * es + es \<le> i * es"
proof (cases "i < j")
  case True
  then have "Suc i * es \<le> j * es" by (intro mult_le_mono1) simp
  then show ?thesis by simp
next
  case False
  with assms have "Suc j * es \<le> i * es" by (intro mult_le_mono1) simp
  then show ?thesis by simp
qed

lemma slot_in_bounds: "i < c \<Longrightarrow> i * es + es \<le> c * (es :: nat)"
  using mult_le_mono1 [of "Suc i" c es] by simp

section \<open>Modular indices\<close>

lemma mod_add_inj:
  fixes t i j c :: nat
  assumes "i < c" and "j < c" and "(t + i) mod c = (t + j) mod c"
  shows "i = j"
  using assms
proof (induction i j rule: linorder_wlog)
  case (le i j)
  then have "c dvd (t + j) - (t + i)" by (metis mod_eq_dvd_iff_nat add_le_cancel_left)
  then have "c dvd j - i" by simp
  with le show ?case by (metis dvd_imp_le le_antisym less_imp_diff_less not_less zero_less_diff diff_is_0_eq)
next
  case (sym i j)
  then show ?case by metis
qed

lemma map_upt_snoc: "map f [0..<Suc n] = map f [0..<n] @ [f n]"
  by simp

lemma map_upt_tl: "tl (map f [0..<n]) = map (\<lambda>i. f (Suc i)) [0..<n - 1]"
proof (cases n)
  case 0
  then show ?thesis by simp
next
  case (Suc k)
  have "[0..<Suc k] = 0 # map Suc [0..<k]"
    by (simp add: upt_rec [of 0 "Suc k"] map_Suc_upt del: upt_Suc)
  with Suc show ?thesis by (simp add: comp_def del: upt_Suc)
qed

text \<open>How many elements of a list have a property, after an update of one of them.\<close>

lemma length_filter_update:
  assumes "i < length xs"
  shows "length (filter P (xs[i := x])) + (if P (xs ! i) then 1 else 0) =
         length (filter P xs) + (if P x then 1 else 0)"
proof -
  have "length (filter P xs) = length (filter P (take i xs @ xs ! i # drop (Suc i) xs))"
    using assms by (simp add: id_take_nth_drop [symmetric])
  then show ?thesis using assms by (simp add: upd_conv_take_nth_drop)
qed

lemma seg_seg: "o' + n \<le> L \<Longrightarrow> seg o' n (seg base L m) = seg (base + o') n m"
  by (simp add: seg_def drop_take min_def add.commute)

text \<open>Loops that store one element per step.\<close>

lemma foldl_store_length: "length (foldl (\<lambda>xs i. xs[f i := g i]) xs is) = length xs"
  by (induction "is" arbitrary: xs) auto

lemma foldl_store_other: "k \<notin> f ` set is \<Longrightarrow> foldl (\<lambda>xs i. xs[f i := g i]) xs is ! k = xs ! k"
  by (induction "is" arbitrary: xs) auto

lemma foldl_store_at:
  assumes "inj_on f {..<n}" and "i < n" and "f i < length xs"
  shows "foldl (\<lambda>xs i. xs[f i := g i]) xs [0..<n] ! f i = g i"
  using assms
proof (induction n)
  case (Suc n)
  let ?ys = "foldl (\<lambda>xs i. xs[f i := g i]) xs [0..<n]"
  have inj: "inj_on f {..<n}" using Suc.prems(1) by (rule inj_on_subset) auto
  show ?case
  proof (cases "i = n")
    case True
    then show ?thesis using Suc.prems(3) by (simp add: foldl_store_length)
  next
    case False
    then have "i < n" "f i \<noteq> f n" using Suc.prems(1,2) by (auto dest: inj_onD)
    then show ?thesis using Suc.IH [OF inj \<open>i < n\<close> Suc.prems(3)] by simp
  qed
qed simp

lemma foldl_store_run:
  assumes "b + n \<le> length xs"
  shows "foldl (\<lambda>xs i. xs[b + i := g i]) xs [0..<n] = blit xs b (map g [0..<n])"
proof (rule nth_equalityI)
  show "length (foldl (\<lambda>xs i. xs[b + i := g i]) xs [0..<n]) = length (blit xs b (map g [0..<n]))"
    using assms by (simp add: foldl_store_length)
next
  fix k assume "k < length (foldl (\<lambda>xs i. xs[b + i := g i]) xs [0..<n])"
  then have k: "k < length xs" by (simp add: foldl_store_length)
  show "foldl (\<lambda>xs i. xs[b + i := g i]) xs [0..<n] ! k = blit xs b (map g [0..<n]) ! k"
  proof (cases "b \<le> k \<and> k < b + n")
    case True
    then have "foldl (\<lambda>xs i. xs[b + i := g i]) xs [0..<n] ! (b + (k - b)) = g (k - b)"
      using k by (intro foldl_store_at) (auto simp: inj_on_def)
    moreover have "k - b < n" using True by auto
    ultimately show ?thesis using True k assms by (simp add: nth_blit)
  next
    case False
    then have "k \<notin> (\<lambda>i. b + i) ` set [0..<n]" by auto
    then have "foldl (\<lambda>xs i. xs[b + i := g i]) xs [0..<n] ! k = xs ! k" by (rule foldl_store_other)
    then show ?thesis using False k assms by (auto simp: nth_blit)
  qed
qed

text \<open>Linear interpolation stays between its two samples.\<close>

lemma lerp_between:
  fixes a b f d :: int
  assumes "0 \<le> f" and "f < d"
  shows "min a b \<le> a + (b - a) * f div d" and "a + (b - a) * f div d \<le> max a b"
proof -
  have d: "0 < d" using assms by linarith
  show "min a b \<le> a + (b - a) * f div d"
  proof (cases "a \<le> b")
    case True
    then show ?thesis using assms(1) d by (simp add: pos_imp_zdiv_nonneg_iff)
  next
    case False
    then have "(b - a) * d \<le> (b - a) * f" using assms by (intro mult_left_mono_neg) auto
    then have "(b - a) * d div d \<le> (b - a) * f div d" by (intro zdiv_mono1 d)
    then show ?thesis using False d by simp
  qed
  show "a + (b - a) * f div d \<le> max a b"
  proof (cases "a \<le> b")
    case True
    then have "(b - a) * f \<le> (b - a) * d" using assms by (intro mult_left_mono) auto
    then have "(b - a) * f div d \<le> (b - a) * d div d" by (intro zdiv_mono1 d)
    then show ?thesis using True d by simp
  next
    case False
    then have "(b - a) * f \<le> 0" using assms by (intro mult_nonpos_nonneg) auto
    then have "(b - a) * f div d \<le> 0 div d" by (intro zdiv_mono1 d)
    then show ?thesis using False by simp
  qed
qed

text \<open>A disjunction with bits below a shift is a sum.\<close>

lemma or_low:
  assumes "b < 2 ^ n"
  shows "push_bit n a OR b = push_bit n a + (b :: nat)"
proof -
  have "\<not> (bit (push_bit n a) k \<and> bit b k)" for k
  proof (cases "k < n")
    case False
    then have "(2 :: nat) ^ n \<le> 2 ^ k" by (intro power_increasing) auto
    then have "b < 2 ^ k" using assms by (rule less_le_trans [rotated])
    then have "\<not> bit b k" by (simp add: bit_iff_odd)
    then show ?thesis by simp
  qed (simp add: bit_push_bit_iff)
  then have "push_bit n a AND b = 0" by (auto simp: bit_eq_iff bit_and_iff)
  then show ?thesis by (rule disjunctive_add_eq_or [symmetric])
qed

end
