(* ===== verification/Bounded_Queue.thy ===== *)
theory Bounded_Queue
  imports HXBase
begin

text \<open>
  The contract of a bounded queue that overwrites its oldest element when it is full, and
  what a client may conclude from it about pushing a whole block and popping several
  elements.  The ring buffer of the engine provides it; the mixer's channels rely on it.
\<close>

locale bounded_queue =
  fixes items :: "'q \<Rightarrow> 'e list"
    and cap :: "'q \<Rightarrow> nat"
    and push :: "'q \<Rightarrow> 'e \<Rightarrow> 'q"
    and pop :: "'q \<Rightarrow> 'e option \<times> 'q"
    and ok :: "'q \<Rightarrow> bool"
    and elem :: "'q \<Rightarrow> 'e \<Rightarrow> bool"
  assumes items_le: "ok q \<Longrightarrow> length (items q) \<le> cap q"
    and cap_pos: "ok q \<Longrightarrow> 0 < cap q"
    and ok_push: "ok q \<Longrightarrow> elem q e \<Longrightarrow> ok (push q e)"
    and cap_push: "cap (push q e) = cap q"
    and elem_push: "elem (push q e) e' = elem q e'"
    and items_push: "ok q \<Longrightarrow> elem q e \<Longrightarrow>
          items (push q e) = (if length (items q) = cap q then tl (items q) else items q) @ [e]"
    and ok_pop: "ok q \<Longrightarrow> ok (snd (pop q))"
    and cap_pop: "cap (snd (pop q)) = cap q"
    and pop_hd: "ok q \<Longrightarrow> fst (pop q) = (case items q of [] \<Rightarrow> None | x # _ \<Rightarrow> Some x)"
    and items_pop: "ok q \<Longrightarrow> items (snd (pop q)) = tl (items q)"
begin

lemma cap_pushes [simp]: "cap (foldl push q es) = cap q"
  by (induction es arbitrary: q) (simp_all add: cap_push)

lemma elem_pushes [simp]: "elem (foldl push q es) e = elem q e"
  by (induction es arbitrary: q) (simp_all add: elem_push)

lemma ok_pushes: "ok q \<Longrightarrow> \<forall>e\<in>set es. elem q e \<Longrightarrow> ok (foldl push q es)"
  by (induction es arbitrary: q) (simp_all add: ok_push elem_push)

text \<open>Pushing a block keeps the newest \<open>cap\<close> elements, in order.\<close>

lemma items_pushes:
  "ok q \<Longrightarrow> \<forall>e\<in>set es. elem q e \<Longrightarrow>
   items (foldl push q es) = drop (length (items q) + length es - cap q) (items q @ es)"
proof (induction es arbitrary: q)
  case Nil
  then show ?case using items_le by simp
next
  case (Cons e es)
  let ?q = "push q e"
  have IH: "items (foldl push ?q es) = drop (length (items ?q) + length es - cap q) (items ?q @ es)"
    using Cons.IH [of ?q] Cons.prems by (simp add: ok_push elem_push cap_push)
  show ?case
  proof (cases "length (items q) = cap q")
    case True
    then obtain x xs where "items q = x # xs"
      using cap_pos [OF Cons.prems(1)] by (cases "items q") auto
    with True IH Cons.prems show ?thesis
      by (simp add: items_push flip: True)
  next
    case False
    with IH Cons.prems show ?thesis by (simp add: items_push)
  qed
qed

corollary items_pushes_fit:
  assumes "ok q" and "\<forall>e\<in>set es. elem q e" and "length (items q) + length es \<le> cap q"
  shows "items (foldl push q es) = items q @ es"
  using items_pushes [OF assms(1,2)] assms(3) by simp

lemma ok_pops: "ok q \<Longrightarrow> ok (((\<lambda>q. snd (pop q)) ^^ n) q)"
  by (induction n) (simp_all add: ok_pop)

lemma items_pops: "ok q \<Longrightarrow> items (((\<lambda>q. snd (pop q)) ^^ n) q) = drop n (items q)"
proof (induction n)
  case (Suc n)
  then show ?case by (simp add: items_pop ok_pops drop_Suc tl_drop)
qed simp

end

end
