(* ===== verification/Ring_Buffer.thy ===== *)
theory Ring_Buffer
  imports Bounded_Queue
begin

text \<open>
  \<^verbatim>\<open>engine/containers/ring_buffer.c\<close>: a fixed-capacity circular buffer over caller-provided
  bytes, with overwrite-on-full.  The storage is the byte list it is in the code, addressed
  by \<open>slot * element_size\<close>; \<open>rb_list\<close> is the queue of elements it stands for.
\<close>

section \<open>State and operations\<close>

record ring_buffer =
  rb_storage :: "byte list"
  rb_capacity :: nat
  rb_element_size :: nat
  rb_head :: nat
  rb_tail :: nat
  rb_count :: nat

definition slot_at :: "ring_buffer \<Rightarrow> nat \<Rightarrow> byte list" where
  "slot_at rb slot = seg (slot * rb_element_size rb) (rb_element_size rb) (rb_storage rb)"

definition rb_init :: "byte list \<Rightarrow> nat \<Rightarrow> nat \<Rightarrow> ring_buffer" where
  "rb_init storage capacity element_size =
     \<lparr>rb_storage = storage, rb_capacity = capacity, rb_element_size = element_size,
      rb_head = 0, rb_tail = 0, rb_count = 0\<rparr>"

definition rb_reset :: "ring_buffer \<Rightarrow> ring_buffer" where
  "rb_reset rb = rb\<lparr>rb_head := 0, rb_tail := 0, rb_count := 0\<rparr>"

definition rb_push :: "ring_buffer \<Rightarrow> byte list \<Rightarrow> ring_buffer" where
  "rb_push rb element =
     (let rb1 = rb\<lparr>rb_storage := blit (rb_storage rb) (rb_head rb * rb_element_size rb)
                                      (take (rb_element_size rb) element)\<rparr>;
          rb2 = rb1\<lparr>rb_head := (rb_head rb1 + 1) mod rb_capacity rb1\<rparr>
      in if rb_count rb2 = rb_capacity rb2
         then rb2\<lparr>rb_tail := (rb_tail rb2 + 1) mod rb_capacity rb2\<rparr>
         else rb2\<lparr>rb_count := rb_count rb2 + 1\<rparr>)"

definition rb_pop :: "ring_buffer \<Rightarrow> byte list option \<times> ring_buffer" where
  "rb_pop rb =
     (if rb_count rb = 0 then (None, rb)
      else (Some (slot_at rb (rb_tail rb)),
            rb\<lparr>rb_tail := (rb_tail rb + 1) mod rb_capacity rb, rb_count := rb_count rb - 1\<rparr>))"

definition rb_peek :: "ring_buffer \<Rightarrow> byte list option" where
  "rb_peek rb = (if rb_count rb = 0 then None else Some (slot_at rb (rb_tail rb)))"

definition rb_peek_at :: "ring_buffer \<Rightarrow> nat \<Rightarrow> byte list option" where
  "rb_peek_at rb offset =
     (if rb_count rb \<le> offset then None
      else let slot = (rb_tail rb + offset) mod rb_capacity rb in Some (slot_at rb slot))"

definition rb_empty :: "ring_buffer \<Rightarrow> bool" where
  "rb_empty rb \<longleftrightarrow> rb_count rb = 0"

definition rb_full :: "ring_buffer \<Rightarrow> bool" where
  "rb_full rb \<longleftrightarrow> rb_count rb = rb_capacity rb"

section \<open>Abstraction and invariant\<close>

definition rb_list :: "ring_buffer \<Rightarrow> byte list list" where
  "rb_list rb = map (\<lambda>i. slot_at rb ((rb_tail rb + i) mod rb_capacity rb)) [0..<rb_count rb]"

definition rb_inv :: "ring_buffer \<Rightarrow> bool" where
  "rb_inv rb \<longleftrightarrow>
     0 < rb_capacity rb \<and> length (rb_storage rb) = rb_capacity rb * rb_element_size rb \<and>
     rb_tail rb < rb_capacity rb \<and> rb_count rb \<le> rb_capacity rb \<and>
     rb_head rb = (rb_tail rb + rb_count rb) mod rb_capacity rb"

lemma rb_inv_head: "rb_inv rb \<Longrightarrow> rb_head rb < rb_capacity rb"
  by (simp add: rb_inv_def)

lemma length_rb_list [simp]: "length (rb_list rb) = rb_count rb"
  by (simp add: rb_list_def)

lemma nth_rb_list:
  "i < rb_count rb \<Longrightarrow> rb_list rb ! i = slot_at rb ((rb_tail rb + i) mod rb_capacity rb)"
  by (simp add: rb_list_def)

lemma slot_at_push_storage:
  assumes "rb_inv rb" and "length e = rb_element_size rb" and "k < rb_capacity rb"
  shows "seg (k * rb_element_size rb) (rb_element_size rb)
           (blit (rb_storage rb) (rb_head rb * rb_element_size rb) e) =
         (if k = rb_head rb then e else slot_at rb k)"
proof (cases "k = rb_head rb")
  case True
  have "rb_head rb * rb_element_size rb + length e \<le> length (rb_storage rb)"
    using assms slot_in_bounds [OF rb_inv_head [OF assms(1)]] by (simp add: rb_inv_def)
  with True assms(2) show ?thesis
    using seg_blit_same [of "rb_head rb * rb_element_size rb" e "rb_storage rb"] by simp
next
  case False
  have "rb_head rb * rb_element_size rb + length e \<le> length (rb_storage rb)"
    using assms slot_in_bounds [OF rb_inv_head [OF assms(1)]] by (simp add: rb_inv_def)
  with False assms(2) show ?thesis
    using slot_disjoint [OF False, of "rb_element_size rb"]
    by (simp add: seg_blit_disjoint slot_at_def)
qed

lemma rb_init_inv [inv_keep]:
  "0 < c \<Longrightarrow> length st = c * es \<Longrightarrow> rb_inv (rb_init st c es) \<and> rb_list (rb_init st c es) = []"
  by (simp add: rb_inv_def rb_init_def rb_list_def)

lemma rb_reset_inv [inv_keep]: "rb_inv rb \<Longrightarrow> rb_inv (rb_reset rb)"
  by (simp add: rb_inv_def rb_reset_def)

lemma rb_list_reset [simp]: "rb_list (rb_reset rb) = []"
  by (simp add: rb_list_def rb_reset_def)

lemma rb_push_sel [simp]:
  "rb_capacity (rb_push rb e) = rb_capacity rb"
  "rb_element_size (rb_push rb e) = rb_element_size rb"
  by (simp_all add: rb_push_def Let_def)

lemma rb_push_count:
  "rb_count (rb_push rb e) = (if rb_count rb = rb_capacity rb then rb_count rb else rb_count rb + 1)"
  by (simp add: rb_push_def Let_def)

lemma rb_push_inv [inv_keep]:
  assumes "rb_inv rb" and "length e = rb_element_size rb"
  shows "rb_inv (rb_push rb e)"
proof -
  have "rb_head rb * rb_element_size rb + length e \<le> length (rb_storage rb)"
    using assms slot_in_bounds [OF rb_inv_head [OF assms(1)]] by (simp add: rb_inv_def)
  with assms show ?thesis
    by (auto simp: rb_inv_def rb_push_def Let_def mod_Suc_eq mod_simps)
qed

lemma rb_list_push:
  assumes inv: "rb_inv rb" and len: "length e = rb_element_size rb"
  shows "rb_list (rb_push rb e) = (if rb_full rb then tl (rb_list rb) else rb_list rb) @ [e]"
proof (rule nth_equalityI)
  show "length (rb_list (rb_push rb e)) =
        length ((if rb_full rb then tl (rb_list rb) else rb_list rb) @ [e])"
    using inv by (auto simp: rb_push_count rb_full_def rb_inv_def)
next
  let ?c = "rb_capacity rb"
  fix i assume i: "i < length (rb_list (rb_push rb e))"
  have slot: "slot_at (rb_push rb e) k = (if k = rb_head rb then e else slot_at rb k)"
    if "k < ?c" for k
    using slot_at_push_storage [OF inv len that] len
    by (auto simp: rb_push_def Let_def slot_at_def)
  have head: "rb_head rb = (rb_tail rb + rb_count rb) mod ?c" and c: "0 < ?c"
    and cnt: "rb_count rb \<le> ?c"
    using inv by (simp_all add: rb_inv_def)
  show "rb_list (rb_push rb e) ! i =
        ((if rb_full rb then tl (rb_list rb) else rb_list rb) @ [e]) ! i"
  proof (cases "rb_full rb")
    case True
    have tail: "rb_tail (rb_push rb e) = (rb_tail rb + 1) mod ?c"
      using True by (simp add: rb_push_def Let_def rb_full_def)
    have i': "i < ?c" using i True by (simp add: rb_push_count rb_full_def)
    have lhs: "rb_list (rb_push rb e) ! i =
               (if (rb_tail rb + Suc i) mod ?c = rb_head rb then e
                else slot_at rb ((rb_tail rb + Suc i) mod ?c))"
      using i c by (simp add: nth_rb_list slot tail mod_simps)
    show ?thesis
    proof (cases "Suc i = ?c")
      case eq: True
      then have "(rb_tail rb + Suc i) mod ?c = rb_head rb"
        using head True by (simp add: rb_full_def)
      moreover have "i = ?c - Suc 0" using eq by simp
      ultimately show ?thesis unfolding lhs using True by (simp add: nth_append rb_full_def)
    next
      case neq: False
      with i' have "(rb_tail rb + Suc i) mod ?c \<noteq> (rb_tail rb + 0) mod ?c"
        using mod_add_inj [of "Suc i" ?c 0 "rb_tail rb"] c by auto
      then have "(rb_tail rb + Suc i) mod ?c \<noteq> rb_head rb"
        using head True by (simp add: rb_full_def)
      moreover have "i < ?c - Suc 0" using neq i' by linarith
      ultimately show ?thesis unfolding lhs using True
        by (simp add: nth_append nth_tl nth_rb_list rb_full_def)
    qed
  next
    case False
    then have lt: "rb_count rb < ?c" using cnt by (simp add: rb_full_def)
    have tail: "rb_tail (rb_push rb e) = rb_tail rb"
      using False by (simp add: rb_push_def Let_def rb_full_def)
    have i': "i \<le> rb_count rb" using i False by (simp add: rb_push_count rb_full_def)
    have lhs: "rb_list (rb_push rb e) ! i =
               (if (rb_tail rb + i) mod ?c = rb_head rb then e
                else slot_at rb ((rb_tail rb + i) mod ?c))"
      using i c by (simp add: nth_rb_list slot tail)
    show ?thesis
    proof (cases "i = rb_count rb")
      case True
      with False head show ?thesis unfolding lhs by (simp add: nth_append)
    next
      case neq: False
      with i' lt have "(rb_tail rb + i) mod ?c \<noteq> rb_head rb"
        unfolding head using mod_add_inj [of i ?c "rb_count rb" "rb_tail rb"] by auto
      with neq i' False show ?thesis unfolding lhs
        by (simp add: nth_append nth_rb_list)
    qed
  qed
qed

lemma rb_pop_inv [inv_keep]:
  assumes "rb_inv rb"
  shows "rb_inv (snd (rb_pop rb))"
proof (cases "rb_count rb")
  case 0
  with assms show ?thesis by (simp add: rb_pop_def)
next
  case (Suc n)
  then have "(Suc (rb_tail rb) mod rb_capacity rb + n) mod rb_capacity rb =
             (rb_tail rb + rb_count rb) mod rb_capacity rb"
    by (simp add: mod_simps)
  with assms Suc show ?thesis by (auto simp: rb_inv_def rb_pop_def)
qed

lemma rb_pop_spec:
  assumes "rb_inv rb"
  shows "fst (rb_pop rb) = (case rb_list rb of [] \<Rightarrow> None | x # _ \<Rightarrow> Some x)"
    and "rb_list (snd (rb_pop rb)) = tl (rb_list rb)"
proof -
  have c: "rb_tail rb < rb_capacity rb" using assms by (simp add: rb_inv_def)
  show "fst (rb_pop rb) = (case rb_list rb of [] \<Rightarrow> None | x # _ \<Rightarrow> Some x)"
  proof (cases "rb_count rb")
    case 0
    then show ?thesis by (simp add: rb_pop_def rb_list_def)
  next
    case (Suc n)
    then have "rb_list rb = slot_at rb (rb_tail rb) # tl (rb_list rb)"
      using c nth_rb_list [of 0 rb]
      by (metis add.right_neutral hd_Cons_tl hd_conv_nth length_0_conv length_rb_list
            mod_less nat.simps(3) zero_less_Suc)
    then obtain xs where "rb_list rb = slot_at rb (rb_tail rb) # xs" ..
    with Suc show ?thesis by (simp add: rb_pop_def)
  qed
  show "rb_list (snd (rb_pop rb)) = tl (rb_list rb)"
    by (simp add: rb_list_def rb_pop_def slot_at_def map_upt_tl mod_simps)
qed

lemma rb_peek_at_spec:
  "rb_peek_at rb off = (if off < length (rb_list rb) then Some (rb_list rb ! off) else None)"
  by (auto simp: rb_peek_at_def nth_rb_list Let_def)

lemma rb_peek_spec:
  "rb_inv rb \<Longrightarrow> rb_peek rb = (case rb_list rb of [] \<Rightarrow> None | x # _ \<Rightarrow> Some x)"
  using rb_pop_spec(1) [of rb] by (simp add: rb_peek_def rb_pop_def split: if_splits)

section \<open>The queue contract\<close>

lemma rb_inv_capacity: "rb_inv rb \<Longrightarrow> 0 < rb_capacity rb"
  by (simp add: rb_inv_def)

lemma rb_inv_count: "rb_inv rb \<Longrightarrow> rb_count rb \<le> rb_capacity rb"
  by (simp add: rb_inv_def)

lemma rb_pop_sel [simp]:
  "rb_capacity (snd (rb_pop rb)) = rb_capacity rb"
  "rb_element_size (snd (rb_pop rb)) = rb_element_size rb"
  by (simp_all add: rb_pop_def)

interpretation rbq: bounded_queue rb_list rb_capacity rb_push rb_pop rb_inv
  "\<lambda>rb e. length e = rb_element_size rb"
  by unfold_locales
    (simp_all add: rb_inv_capacity rb_inv_count rb_push_inv rb_pop_inv rb_pop_spec
      rb_list_push rb_full_def)

end
