(* ===== verification/Bits.thy ===== *)
theory Bits
  imports HXBase
begin

unbundle bit_operations_syntax

text \<open>
  \<^verbatim>\<open>engine/math/bits.h\<close>: count-leading-zeros, count-trailing-zeros and population count.
  The header has two bodies for each routine, chosen by \<^verbatim>\<open>GARBAGE_BITS_HAVE_BUILTINS\<close>.
  The plain names are the builtin path (the compiler builtin is the documented bit count,
  with the zero case defined by the header); the \<open>_soft\<close> names are the portable path.
  The lemmas show that both paths compute the same function.
\<close>

section \<open>The builtin path\<close>

definition bits_clz32 :: "32 word \<Rightarrow> nat" where
  "bits_clz32 x = (if x = 0 then 32 else length (takeWhile (\<lambda>i. \<not> bit x (31 - i)) [0..<32]))"

definition bits_ctz32 :: "32 word \<Rightarrow> nat" where
  "bits_ctz32 x = (if x = 0 then 32 else length (takeWhile (\<lambda>i. \<not> bit x i) [0..<32]))"

definition bits_popcount32 :: "32 word \<Rightarrow> nat" where
  "bits_popcount32 x = length (filter (bit x) [0..<32])"

definition bits_clz64 :: "64 word \<Rightarrow> nat" where
  "bits_clz64 x = (if x = 0 then 64 else length (takeWhile (\<lambda>i. \<not> bit x (63 - i)) [0..<64]))"

definition bits_ctz64 :: "64 word \<Rightarrow> nat" where
  "bits_ctz64 x = (if x = 0 then 64 else length (takeWhile (\<lambda>i. \<not> bit x i) [0..<64]))"

definition bits_popcount64 :: "64 word \<Rightarrow> nat" where
  "bits_popcount64 x = length (filter (bit x) [0..<64])"

section \<open>The portable path\<close>

text \<open>
  One line of the binary search: if none of the bits of the mask is set, count \<open>k\<close> and
  shift the word.  The last line of each routine only counts.
\<close>

definition clz_line :: "32 word \<Rightarrow> nat \<Rightarrow> nat \<times> 32 word \<Rightarrow> nat \<times> 32 word" where
  "clz_line m k s =
     (if snd s AND m = 0 then (fst s + k, push_bit k (snd s)) else s)"

definition bits_clz32_soft :: "32 word \<Rightarrow> nat" where
  "bits_clz32_soft x =
     (if x = 0 then 32 else
      let s = clz_line 0xC0000000 2 (clz_line 0xF0000000 4
                (clz_line 0xFF000000 8 (clz_line 0xFFFF0000 16 (0, x))))
      in if snd s AND 0x80000000 = 0 then fst s + 1 else fst s)"

definition ctz_line :: "32 word \<Rightarrow> nat \<Rightarrow> nat \<times> 32 word \<Rightarrow> nat \<times> 32 word" where
  "ctz_line m k s =
     (if snd s AND m = 0 then (fst s + k, drop_bit k (snd s)) else s)"

definition bits_ctz32_soft :: "32 word \<Rightarrow> nat" where
  "bits_ctz32_soft x =
     (if x = 0 then 32 else
      let s = ctz_line 0x00000003 2 (ctz_line 0x0000000F 4
                (ctz_line 0x000000FF 8 (ctz_line 0x0000FFFF 16 (0, x))))
      in if snd s AND 0x00000001 = 0 then fst s + 1 else fst s)"

definition bits_popcount32_soft :: "32 word \<Rightarrow> nat" where
  "bits_popcount32_soft x0 =
     (let x1 = x0 - (drop_bit 1 x0 AND 0x55555555);
          x2 = (x1 AND 0x33333333) + (drop_bit 2 x1 AND 0x33333333);
          x3 = (x2 + drop_bit 4 x2) AND 0x0F0F0F0F
      in unat (ucast (drop_bit 24 (x3 * 0x01010101)) :: 8 word))"

definition bits_clz64_soft :: "64 word \<Rightarrow> nat" where
  "bits_clz64_soft x =
     (if x = 0 then 64
      else if drop_bit 32 x = 0 then 32 + bits_clz32_soft (ucast x)
      else bits_clz32_soft (ucast (drop_bit 32 x)))"

definition bits_ctz64_soft :: "64 word \<Rightarrow> nat" where
  "bits_ctz64_soft x =
     (if x = 0 then 64
      else if x AND 0xFFFFFFFF = 0 then 32 + bits_ctz32_soft (ucast (drop_bit 32 x))
      else bits_ctz32_soft (ucast x))"

definition bits_popcount64_soft :: "64 word \<Rightarrow> nat" where
  "bits_popcount64_soft x =
     bits_popcount32_soft (ucast x) + bits_popcount32_soft (ucast (drop_bit 32 x))"

section \<open>What the scans return\<close>

text \<open>A scan stops at the first index that satisfies its test.\<close>

lemma takeWhile_upt_length:
  assumes "n < m" and "P n" and "\<And>i. i < n \<Longrightarrow> \<not> P i"
  shows "length (takeWhile (\<lambda>i. \<not> P i) [0..<m]) = n"
proof -
  have "[0..<m] = [0..<n] @ n # [Suc n..<m]"
    using assms(1) by (metis less_imp_le_nat upt_add_eq_append upt_conv_Cons le0 le_Suc_ex)
  moreover have "takeWhile (\<lambda>i. \<not> P i) ([0..<n] @ n # [Suc n..<m]) = [0..<n]"
    using assms(2,3) by (subst takeWhile_append2) auto
  ultimately show ?thesis by simp
qed

lemma word_nonzero_bit:
  assumes "x \<noteq> (0 :: 'a :: len word)"
  obtains i where "i < LENGTH('a)" and "bit x i"
  using assms by (metis bit_imp_le_length bit_eqI bit_0_eq bot_apply bot_bool_def)

lemma bits_ctz32_eqI:
  assumes "n < 32" and "bit x n" and "\<And>i. i < n \<Longrightarrow> \<not> bit x i"
  shows "bits_ctz32 x = n"
proof -
  have "x \<noteq> 0" using assms(2) by auto
  with assms show ?thesis
    unfolding bits_ctz32_def by (simp add: takeWhile_upt_length [where P = "bit x"])
qed

lemma bits_clz32_eqI:
  assumes "n < 32" and "bit x (31 - n)" and "\<And>i. i < n \<Longrightarrow> \<not> bit x (31 - i)"
  shows "bits_clz32 x = n"
proof -
  have "x \<noteq> 0" using assms(2) by auto
  with assms show ?thesis
    unfolding bits_clz32_def by (simp add: takeWhile_upt_length [where P = "\<lambda>i. bit x (31 - i)"])
qed

lemma bits_ctz32_spec:
  assumes "x \<noteq> 0"
  shows "bits_ctz32 x < 32" and "bit x (bits_ctz32 x)" and "i < bits_ctz32 x \<Longrightarrow> \<not> bit x i"
proof -
  obtain k where k: "k < 32" "bit x k"
    using word_nonzero_bit [OF assms] by auto
  define n where "n = (LEAST n. bit x n)"
  have n: "bit x n" "\<And>i. i < n \<Longrightarrow> \<not> bit x i" "n \<le> k"
    using k(2) unfolding n_def by (auto intro: LeastI dest: not_less_Least Least_le)
  then have "bits_ctz32 x = n"
    using k(1) by (intro bits_ctz32_eqI) auto
  with n k(1) show "bits_ctz32 x < 32" and "bit x (bits_ctz32 x)"
    and "i < bits_ctz32 x \<Longrightarrow> \<not> bit x i" by auto
qed

section \<open>Both paths agree\<close>

lemma ctz_line_fst: "fst (ctz_line m k s) = (if snd s AND m = 0 then fst s + k else fst s)"
  by (simp add: ctz_line_def)

lemma clz_line_fst: "fst (clz_line m k s) = (if snd s AND m = 0 then fst s + k else fst s)"
  by (simp add: clz_line_def)

lemma halve5:
  assumes "\<And>k s. P (k + k) s \<Longrightarrow> P k (f k s)" and "P (32 :: nat) s"
  shows "P 1 (f 1 (f 2 (f 4 (f 8 (f 16 s)))))"
proof -
  have "P 16 (f 16 s)" using assms(1) [of 16 s] assms(2) by simp
  then have "P 8 (f 8 (f 16 s))" using assms(1) [of 8] by simp
  then have "P 4 (f 4 (f 8 (f 16 s)))" using assms(1) [of 4] by simp
  then have "P 2 (f 2 (f 4 (f 8 (f 16 s))))" using assms(1) [of 2] by simp
  then show ?thesis using assms(1) [of 1] by (simp add: numeral_2_eq_2)
qed

text \<open>
  One step of a scan for the lowest set bit: \<open>n\<close> zeros are counted, \<open>x\<close> is what is left,
  and one of the low \<open>2 * k\<close> bits of \<open>x\<close> is set.
\<close>

definition ctz_at :: "32 word \<Rightarrow> nat \<Rightarrow> nat \<times> 32 word \<Rightarrow> bool" where
  "ctz_at x0 k s \<longleftrightarrow> snd s = drop_bit (fst s) x0 \<and> (\<forall>i < fst s. \<not> bit x0 i) \<and>
     (\<exists>i < k. bit (snd s) i) \<and> fst s + k \<le> 32"

lemma and_mask_zero_iff: "x AND mask k = 0 \<longleftrightarrow> (\<forall>i < k. \<not> bit (x :: 32 word) i)"
proof -
  have "bit x i \<Longrightarrow> i < 32" for i using bit_imp_le_length [of x i] by simp
  then show ?thesis by (auto simp: bit_eq_iff bit_and_iff bit_mask_iff)
qed

lemma ctz_at_step:
  assumes "ctz_at x0 (k + k) (n, x)"
  shows "ctz_at x0 k (if x AND mask k = 0 then (n + k, drop_bit k x) else (n, x))"
proof -
  from assms have x: "x = drop_bit n x0" and low: "\<forall>i<n. \<not> bit x0 i" and le: "n + (k + k) \<le> 32"
    by (auto simp: ctz_at_def)
  from assms obtain j where j: "j < k + k" "bit x j" by (auto simp: ctz_at_def)
  show ?thesis
  proof (cases "x AND mask k = 0")
    case True
    then have z: "\<not> bit x i" if "i < k" for i using that by (simp add: and_mask_zero_iff)
    then have "k \<le> j" using j(2) by (meson not_less)
    then have "\<exists>i<k. bit (drop_bit k x) i"
      using j by (intro exI [of _ "j - k"]) (auto simp: bit_drop_bit_eq)
    moreover have "\<not> bit x0 i" if "i < n + k" for i
    proof (cases "i < n")
      case False
      then show ?thesis using z [of "i - n"] that by (simp add: x bit_drop_bit_eq)
    qed (use low in simp)
    ultimately show ?thesis using True x le by (simp add: ctz_at_def add.commute)
  next
    case False
    with assms show ?thesis by (auto simp: ctz_at_def and_mask_zero_iff)
  qed
qed

lemma low_mask_values:
  "mask 16 = (0xFFFF :: 32 word)" "mask 8 = (0xFF :: 32 word)" "mask 4 = (0xF :: 32 word)"
  "mask 2 = (3 :: 32 word)" "mask (Suc 0) = (1 :: 32 word)"
  by (simp_all add: mask_eq_exp_minus_1)

lemma bits_ctz32_soft_eq: "bits_ctz32_soft x0 = bits_ctz32 x0"
proof (cases "x0 = 0")
  case True
  then show ?thesis by (simp add: bits_ctz32_soft_def bits_ctz32_def)
next
  case False
  define st where "st k = ctz_line (mask k) k" for k
  have step: "ctz_at x0 k (st k s)" if "ctz_at x0 (k + k) s" for k s
    using that by (cases s) (simp only: st_def ctz_line_def fst_conv snd_conv ctz_at_step)
  have "ctz_at x0 32 (0, x0)"
    using False word_nonzero_bit [of x0] by (auto simp: ctz_at_def)
  then have at: "ctz_at x0 1 (st 1 (st 2 (st 4 (st 8 (st 16 (0, x0))))))"
    using halve5 [where P = "ctz_at x0" and f = st and s = "(0, x0)"] step by blast
  define s4 where "s4 = st 2 (st 4 (st 8 (st 16 (0, x0))))"
  define n where "n = fst (st 1 s4)"
  have "bits_ctz32_soft x0 = (if snd s4 AND 1 = 0 then fst s4 + 1 else fst s4)"
    using False by (simp add: bits_ctz32_soft_def s4_def st_def low_mask_values Let_def)
  also have "\<dots> = n"
    by (simp add: n_def st_def ctz_line_fst low_mask_values)
  finally have "bits_ctz32_soft x0 = n" .
  moreover have "bits_ctz32 x0 = n"
    using at unfolding s4_def [symmetric]
    by (intro bits_ctz32_eqI) (auto simp: n_def ctz_at_def bit_drop_bit_eq)
  ultimately show ?thesis by simp
qed

text \<open>The same for the highest set bit: the word is shifted left past the zeros counted.\<close>

definition clz_at :: "32 word \<Rightarrow> nat \<Rightarrow> nat \<times> 32 word \<Rightarrow> bool" where
  "clz_at x0 k s \<longleftrightarrow> snd s = push_bit (fst s) x0 \<and> (\<forall>i < fst s. \<not> bit x0 (31 - i)) \<and>
     (\<exists>i < k. bit (snd s) (31 - i)) \<and> fst s + k \<le> 32"

definition top_mask :: "nat \<Rightarrow> 32 word" where "top_mask k = push_bit (32 - k) (mask k)"

lemma and_top_mask_zero_iff:
  assumes "k \<le> 32"
  shows "x AND top_mask k = 0 \<longleftrightarrow> (\<forall>i < k. \<not> bit x (31 - i))"
proof -
  have "x AND top_mask k = 0 \<longleftrightarrow> (\<forall>j < 32. 32 - k \<le> j \<longrightarrow> \<not> bit x j)"
    using assms by (auto simp: top_mask_def bit_eq_iff bit_and_iff bit_push_bit_iff bit_mask_iff)
  also have "\<dots> \<longleftrightarrow> (\<forall>i < k. \<not> bit x (31 - i))"
  proof (intro iffI allI impI)
    fix j assume *: "\<forall>i<k. \<not> bit x (31 - i)" and "j < 32" "32 - k \<le> j"
    with assms * [rule_format, of "31 - j"] show "\<not> bit x j" by simp
  next
    fix i assume *: "\<forall>j<32. 32 - k \<le> j \<longrightarrow> \<not> bit x j" and "i < k"
    with assms show "\<not> bit x (31 - i)" by auto
  qed
  finally show ?thesis .
qed

lemma bit_push31:
  "i + n < 32 \<Longrightarrow> bit (push_bit n (x :: 32 word)) (31 - i) \<longleftrightarrow> bit x (31 - (n + i))"
  by (auto simp: bit_push_bit_iff diff_diff_eq add.commute)

lemma clz_at_step:
  assumes "clz_at x0 (k + k) (n, x)"
  shows "clz_at x0 k (if x AND top_mask k = 0 then (n + k, push_bit k x) else (n, x))"
proof -
  from assms have x: "x = push_bit n x0" and low: "\<forall>i<n. \<not> bit x0 (31 - i)"
    and le: "n + (k + k) \<le> 32" by (auto simp: clz_at_def)
  from assms obtain j where j: "j < k + k" "bit x (31 - j)" by (auto simp: clz_at_def)
  have zero: "x AND top_mask k = 0 \<longleftrightarrow> (\<forall>i < k. \<not> bit x (31 - i))"
    using le by (intro and_top_mask_zero_iff) simp
  show ?thesis
  proof (cases "x AND top_mask k = 0")
    case True
    then have z: "\<not> bit x (31 - i)" if "i < k" for i using that zero by simp
    then have "k \<le> j" using j(2) by (meson not_less)
    then have "bit (push_bit k x) (31 - (j - k))"
      using bit_push31 [of "j - k" k x] j le by simp
    moreover have "j - k < k" using j(1) \<open>k \<le> j\<close> by simp
    ultimately have "\<exists>i<k. bit (push_bit k x) (31 - i)" by blast
    moreover have "\<not> bit x0 (31 - i)" if "i < n + k" for i
    proof (cases "i < n")
      case False
      then have "bit x (31 - (i - n)) = bit x0 (31 - i)"
        using bit_push31 [of "i - n" n x0] that le unfolding x by simp
      moreover have "\<not> bit x (31 - (i - n))" using False that by (intro z) simp
      ultimately show ?thesis by simp
    qed (use low in simp)
    moreover have "push_bit k x = push_bit (n + k) x0"
      by (simp add: x push_bit_push_bit add.commute)
    ultimately show ?thesis using True le by (simp add: clz_at_def)
  next
    case False
    with assms zero show ?thesis by (auto simp: clz_at_def)
  qed
qed

lemma top_mask_values:
  "top_mask 16 = 0xFFFF0000" "top_mask 8 = 0xFF000000" "top_mask 4 = 0xF0000000"
  "top_mask 2 = 0xC0000000" "top_mask (Suc 0) = 0x80000000"
  by (simp_all add: top_mask_def mask_eq_exp_minus_1)

lemma bits_clz32_soft_eq: "bits_clz32_soft x0 = bits_clz32 x0"
proof (cases "x0 = 0")
  case True
  then show ?thesis by (simp add: bits_clz32_soft_def bits_clz32_def)
next
  case False
  define st where "st k = clz_line (top_mask k) k" for k
  have step: "clz_at x0 k (st k s)" if "clz_at x0 (k + k) s" for k s
    using that by (cases s) (simp only: st_def clz_line_def fst_conv snd_conv clz_at_step)
  obtain i where "i < 32" "bit x0 i" using False word_nonzero_bit [of x0] by auto
  then have "\<exists>i<32. bit x0 (31 - i)" by (intro exI [of _ "31 - i"]) auto
  then have "clz_at x0 32 (0, x0)" by (simp add: clz_at_def)
  then have at: "clz_at x0 1 (st 1 (st 2 (st 4 (st 8 (st 16 (0, x0))))))"
    using halve5 [where P = "clz_at x0" and f = st and s = "(0, x0)"] step by blast
  define s4 where "s4 = st 2 (st 4 (st 8 (st 16 (0, x0))))"
  define n where "n = fst (st 1 s4)"
  have "bits_clz32_soft x0 = (if snd s4 AND 0x80000000 = 0 then fst s4 + 1 else fst s4)"
    using False by (simp add: bits_clz32_soft_def s4_def st_def top_mask_values Let_def)
  also have "\<dots> = n"
    by (simp add: n_def st_def clz_line_fst top_mask_values)
  finally have "bits_clz32_soft x0 = n" .
  moreover have "bits_clz32 x0 = n"
    using at unfolding s4_def [symmetric]
    by (intro bits_clz32_eqI) (auto simp: n_def clz_at_def bit_push31 [of 0, simplified])
  ultimately show ?thesis by simp
qed

end
