(* ===== verification/Slot_Map.thy ===== *)
theory Slot_Map
  imports HXBase
begin

text \<open>
  The contract of a free-slot map: \<open>n\<close> slots, each in use or free, with a search for a
  free one.  The bit set provides it; the block pool allocates through it.
\<close>

locale slot_map =
  fixes ok :: "'s \<Rightarrow> bool"
    and slots :: "'s \<Rightarrow> nat"
    and used :: "'s \<Rightarrow> nat \<Rightarrow> bool"
    and find_free :: "'s \<Rightarrow> nat option \<times> 's"
    and mark :: "'s \<Rightarrow> nat \<Rightarrow> 's"
    and unmark :: "'s \<Rightarrow> nat \<Rightarrow> 's"
  assumes used_less: "used s i \<Longrightarrow> i < slots s"
    and ok_find: "ok s \<Longrightarrow> ok (snd (find_free s))"
    and slots_find: "slots (snd (find_free s)) = slots s"
    and used_find: "ok s \<Longrightarrow> used (snd (find_free s)) i = used s i"
    and find_Some: "ok s \<Longrightarrow> fst (find_free s) = Some i \<Longrightarrow> i < slots s \<and> \<not> used s i"
    and find_None: "ok s \<Longrightarrow> fst (find_free s) = None \<Longrightarrow> i < slots s \<Longrightarrow> used s i"
    and ok_mark: "ok s \<Longrightarrow> ok (mark s i)"
    and slots_mark: "slots (mark s i) = slots s"
    and used_mark: "ok s \<Longrightarrow> i < slots s \<Longrightarrow> used (mark s i) j \<longleftrightarrow> j = i \<or> used s j"
    and ok_unmark: "ok s \<Longrightarrow> ok (unmark s i)"
    and slots_unmark: "slots (unmark s i) = slots s"
    and used_unmark: "ok s \<Longrightarrow> i < slots s \<Longrightarrow> used (unmark s i) j \<longleftrightarrow> j \<noteq> i \<and> used s j"
begin

lemma finite_free [simp]: "finite {i. i < slots s \<and> \<not> used s i}"
  by simp

lemma card_free_le: "card {i. i < slots s \<and> \<not> used s i} \<le> slots s"
  using card_mono [of "{..<slots s}" "{i. i < slots s \<and> \<not> used s i}"] by auto

text \<open>As long as a slot is free, the search succeeds.\<close>

lemma find_succeeds:
  assumes "ok s" and "0 < card {i. i < slots s \<and> \<not> used s i}"
  obtains i where "fst (find_free s) = Some i"
proof (cases "fst (find_free s)")
  case None
  then have "{i. i < slots s \<and> \<not> used s i} = {}"
    using find_None [OF assms(1)] by auto
  with assms(2) have False by simp
  then show ?thesis ..
qed (use that in blast)

text \<open>Taking a free slot lowers the number of free slots by one; releasing one raises it.\<close>

lemma card_free_mark:
  assumes "ok s" and "i < slots s" and "\<not> used s i"
  shows "card {j. j < slots (mark s i) \<and> \<not> used (mark s i) j} + 1 =
         card {j. j < slots s \<and> \<not> used s j}"
proof -
  have "{j. j < slots s \<and> \<not> used s j} =
        insert i {j. j < slots (mark s i) \<and> \<not> used (mark s i) j}"
    using assms by (auto simp: slots_mark used_mark)
  moreover have "i \<notin> {j. j < slots (mark s i) \<and> \<not> used (mark s i) j}"
    using assms by (simp add: used_mark)
  ultimately show ?thesis by simp
qed

lemma card_free_unmark:
  assumes "ok s" and "used s i"
  shows "card {j. j < slots (unmark s i) \<and> \<not> used (unmark s i) j} =
         card {j. j < slots s \<and> \<not> used s j} + 1"
proof -
  have "{j. j < slots (unmark s i) \<and> \<not> used (unmark s i) j} =
        insert i {j. j < slots s \<and> \<not> used s j}"
    using assms used_less [OF assms(2)] by (auto simp: slots_unmark used_unmark)
  moreover have "i \<notin> {j. j < slots s \<and> \<not> used s j}" using assms(2) by simp
  ultimately show ?thesis by simp
qed

end

end
