(* ===== verification/Bitset.thy ===== *)
theory Bitset
  imports Bits Slot_Map
begin

unbundle bit_operations_syntax

text \<open>
  \<^verbatim>\<open>engine/containers/bitset.c\<close>: a bit set over 32-bit words with a rolling hint for the
  free-slot scan.  A \<^verbatim>\<open>Bitset\<close> is a record; the caller's word array is its list of words.
  \<^verbatim>\<open>BITSET_NPOS\<close> is \<^const>\<open>None\<close>.  The guards against a null set or a null array have no
  counterpart, since neither is a value here.
\<close>

section \<open>State and operations\<close>

record bitset =
  bs_words :: "32 word list"
  bs_nbits :: nat
  bs_nwords :: nat
  bs_hint :: nat

definition bitset_words :: "nat \<Rightarrow> nat" where "bitset_words nbits = (nbits + 31) div 32"
definition bitset_bytes :: "nat \<Rightarrow> nat" where "bitset_bytes nbits = bitset_words nbits * 4"

definition tail_mask :: "bitset \<Rightarrow> 32 word" where
  "tail_mask bs = (let rem = bs_nbits bs mod 32
                   in if rem \<noteq> 0 then push_bit rem 1 - 1 else 0xFFFFFFFF)"

definition bitset_init :: "32 word list \<Rightarrow> nat \<Rightarrow> bitset" where
  "bitset_init words nbits =
     \<lparr>bs_words = words, bs_nbits = nbits, bs_nwords = bitset_words nbits, bs_hint = 0\<rparr>"

definition bitset_clear_all :: "bitset \<Rightarrow> bitset" where
  "bitset_clear_all bs =
     bs\<lparr>bs_words := replicate (bs_nwords bs) 0 @ drop (bs_nwords bs) (bs_words bs), bs_hint := 0\<rparr>"

definition bitset_set_all :: "bitset \<Rightarrow> bitset" where
  "bitset_set_all bs =
     (if bs_nwords bs = 0 then bs
      else let ws = replicate (bs_nwords bs) 0xFFFFFFFF @ drop (bs_nwords bs) (bs_words bs);
               ws' = ws[bs_nwords bs - 1 := ws ! (bs_nwords bs - 1) AND tail_mask bs]
           in bs\<lparr>bs_words := ws', bs_hint := 0\<rparr>)"

definition bitset_set :: "bitset \<Rightarrow> nat \<Rightarrow> bitset" where
  "bitset_set bs i =
     (if bs_nbits bs \<le> i then bs
      else bs\<lparr>bs_words := (bs_words bs)[i div 32 :=
                             bs_words bs ! (i div 32) OR push_bit (i mod 32) 1]\<rparr>)"

definition bitset_clear :: "bitset \<Rightarrow> nat \<Rightarrow> bitset" where
  "bitset_clear bs i =
     (if bs_nbits bs \<le> i then bs
      else let bs1 = bs\<lparr>bs_words := (bs_words bs)[i div 32 :=
                          bs_words bs ! (i div 32) AND NOT (push_bit (i mod 32) 1)]\<rparr>;
               w = i div 32
           in if w < bs_hint bs1 then bs1\<lparr>bs_hint := w\<rparr> else bs1)"

definition bitset_test :: "bitset \<Rightarrow> nat \<Rightarrow> bool" where
  "bitset_test bs i \<longleftrightarrow>
     (if bs_nbits bs \<le> i then False
      else drop_bit (i mod 32) (bs_words bs ! (i div 32)) AND 1 \<noteq> 0)"

definition bitset_popcount :: "bitset \<Rightarrow> nat" where
  "bitset_popcount bs =
     foldl (\<lambda>n w. n + bits_popcount32 (bs_words bs ! w)) 0 [0..<bs_nwords bs]"

function first_set_from :: "bitset \<Rightarrow> nat \<Rightarrow> nat option" where
  "first_set_from bs w =
     (if w < bs_nwords bs then
        if bs_words bs ! w \<noteq> 0
        then let i = w * 32 + bits_ctz32 (bs_words bs ! w)
             in if i < bs_nbits bs then Some i else None
        else first_set_from bs (w + 1)
      else None)"
  by pat_completeness auto
termination by (relation "measure (\<lambda>(bs, w). bs_nwords bs - w)") auto

definition bitset_find_first_set :: "bitset \<Rightarrow> nat option" where
  "bitset_find_first_set bs = first_set_from bs 0"

text \<open>The inner loop of \<^verbatim>\<open>bitset_find_first_clear\<close> over the words \<open>w \<dots> end - 1\<close>.\<close>

definition free_bits :: "bitset \<Rightarrow> nat \<Rightarrow> 32 word" where
  "free_bits bs w = (let inv = NOT (bs_words bs ! w)
                     in if w = bs_nwords bs - 1 then inv AND tail_mask bs else inv)"

function first_clear_from :: "bitset \<Rightarrow> nat \<Rightarrow> nat \<Rightarrow> (nat \<times> nat) option" where
  "first_clear_from bs w end =
     (if w < end then
        let inv = free_bits bs w
        in if inv \<noteq> 0 \<and> w * 32 + bits_ctz32 inv < bs_nbits bs
           then Some (w, w * 32 + bits_ctz32 inv)
           else first_clear_from bs (w + 1) end
      else None)"
  by pat_completeness auto
termination by (relation "measure (\<lambda>(bs, w, e). e - w)") auto

definition bitset_find_first_clear :: "bitset \<Rightarrow> nat option \<times> bitset" where
  "bitset_find_first_clear bs =
     (if bs_nwords bs = 0 then (None, bs)
      else case first_clear_from bs (bs_hint bs) (bs_nwords bs) of
             Some (w, i) \<Rightarrow> (Some i, bs\<lparr>bs_hint := w\<rparr>)
           | None \<Rightarrow>
               (case first_clear_from bs 0 (bs_hint bs) of
                  Some (w, i) \<Rightarrow> (Some i, bs\<lparr>bs_hint := w\<rparr>)
                | None \<Rightarrow> (None, bs)))"

declare first_set_from.simps [simp del] first_clear_from.simps [simp del]

section \<open>Invariant\<close>

text \<open>
  \<open>bs_inv\<close>: the words are there, the bits beyond \<open>nbits\<close> are 0, and every slot below the
  hint's word is in use (what makes the scan from the hint return the lowest free slot).
\<close>

definition bs_inv :: "bitset \<Rightarrow> bool" where
  "bs_inv bs \<longleftrightarrow>
     bs_nwords bs = bitset_words (bs_nbits bs) \<and> length (bs_words bs) = bs_nwords bs \<and>
     bs_hint bs \<le> bs_nwords bs \<and>
     (\<forall>i. bs_nbits bs \<le> i \<and> i < 32 * bs_nwords bs \<longrightarrow> \<not> bit (bs_words bs ! (i div 32)) (i mod 32)) \<and>
     (\<forall>i < bs_nbits bs. i < 32 * bs_hint bs \<longrightarrow> bitset_test bs i)"

lemma bitset_test_bit:
  "bitset_test bs i \<longleftrightarrow> i < bs_nbits bs \<and> bit (bs_words bs ! (i div 32)) (i mod 32)"
  by (simp add: bitset_test_def bit_iff_odd_drop_bit and_one_eq even_iff_mod_2_eq_zero not_le)

lemma index_in_words: "i < n \<Longrightarrow> i div 32 < bitset_words n"
  by (simp add: bitset_words_def)

lemma bit_index_in_words: "i < n \<Longrightarrow> i < 32 * bitset_words n"
  using index_in_words [of i n] by (simp add: div_less_iff_less_mult mult.commute)

lemma bit_one_shift32: "bit ((2 :: 32 word) ^ k) j \<longleftrightarrow> j = k \<and> k < 32"
  by (auto simp: bit_exp_iff possible_bit_word)

lemma div_mod_32_eq: "(i div 32 = j div 32 \<and> i mod 32 = j mod (32 :: nat)) \<longleftrightarrow> i = j"
  by (metis div_mult_mod_eq)

lemma bitset_set_sel [simp]:
  "bs_nbits (bitset_set bs i) = bs_nbits bs" "bs_nwords (bitset_set bs i) = bs_nwords bs"
  "bs_hint (bitset_set bs i) = bs_hint bs"
  "length (bs_words (bitset_set bs i)) = length (bs_words bs)"
  by (simp_all add: bitset_set_def)

lemma bitset_clear_sel [simp]:
  "bs_nbits (bitset_clear bs i) = bs_nbits bs" "bs_nwords (bitset_clear bs i) = bs_nwords bs"
  "length (bs_words (bitset_clear bs i)) = length (bs_words bs)"
  by (simp_all add: bitset_clear_def Let_def)

lemma bit_word_set:
  assumes "i < bs_nbits bs" and "i div 32 < length (bs_words bs)"
  shows "bit (bs_words (bitset_set bs i) ! (j div 32)) (j mod 32) \<longleftrightarrow>
         j = i \<or> bit (bs_words bs ! (j div 32)) (j mod 32)"
  using assms div_mod_32_eq [of i j]
  by (auto simp: bitset_set_def nth_list_update bit_or_iff bit_one_shift32)

lemma bit_word_clear:
  assumes "i < bs_nbits bs" and "i div 32 < length (bs_words bs)"
  shows "bit (bs_words (bitset_clear bs i) ! (j div 32)) (j mod 32) \<longleftrightarrow>
         j \<noteq> i \<and> bit (bs_words bs ! (j div 32)) (j mod 32)"
  using assms div_mod_32_eq [of i j]
  by (auto simp: bitset_clear_def Let_def nth_list_update bit_and_iff bit_not_iff bit_one_shift32)

lemma bitset_test_set:
  assumes "bs_inv bs" and "i < bs_nbits bs"
  shows "bitset_test (bitset_set bs i) j \<longleftrightarrow> j = i \<or> bitset_test bs j"
  using assms bit_word_set [of i bs j] index_in_words [of i "bs_nbits bs"]
  by (auto simp: bitset_test_bit bs_inv_def)

lemma bitset_test_clear:
  assumes "bs_inv bs" and "i < bs_nbits bs"
  shows "bitset_test (bitset_clear bs i) j \<longleftrightarrow> j \<noteq> i \<and> bitset_test bs j"
  using assms bit_word_clear [of i bs j] index_in_words [of i "bs_nbits bs"]
  by (auto simp: bitset_test_bit bs_inv_def)

lemma bitset_set_out: "bs_nbits bs \<le> i \<Longrightarrow> bitset_set bs i = bs"
  by (simp add: bitset_set_def)

lemma bitset_clear_out: "bs_nbits bs \<le> i \<Longrightarrow> bitset_clear bs i = bs"
  by (simp add: bitset_clear_def)

lemma bitset_set_inv [inv_keep]:
  assumes "bs_inv bs"
  shows "bs_inv (bitset_set bs i)"
proof (cases "i < bs_nbits bs")
  case True
  have "i div 32 < length (bs_words bs)"
    using assms index_in_words [OF True] by (simp add: bs_inv_def)
  with True assms show ?thesis
    by (auto simp: bs_inv_def bitset_test_set [OF assms True] bit_word_set)
qed (use assms in \<open>simp add: bitset_set_out\<close>)

lemma bitset_clear_inv [inv_keep]:
  assumes "bs_inv bs"
  shows "bs_inv (bitset_clear bs i)"
proof (cases "i < bs_nbits bs")
  case True
  have len: "i div 32 < length (bs_words bs)"
    using assms index_in_words [OF True] by (simp add: bs_inv_def)
  have "bs_hint (bitset_clear bs i) = min (i div 32) (bs_hint bs)"
    using True by (simp add: bitset_clear_def Let_def)
  with True len assms show ?thesis
    by (auto simp: bs_inv_def bitset_test_clear [OF assms True] bit_word_clear)
qed (use assms in \<open>simp add: bitset_clear_out\<close>)

lemma bit_tail_mask:
  "bit (tail_mask bs) k \<longleftrightarrow> k < 32 \<and> (bs_nbits bs mod 32 \<noteq> 0 \<longrightarrow> k < bs_nbits bs mod 32)"
proof -
  have "push_bit r 1 - 1 = (mask r :: 32 word)" for r
    by (simp add: mask_eq_exp_minus_1)
  moreover have "bit (0xFFFFFFFF :: 32 word) k \<longleftrightarrow> k < 32"
  proof -
    have "(0xFFFFFFFF :: 32 word) = mask 32" by (simp add: mask_eq_exp_minus_1)
    then show ?thesis by (simp only: bit_mask_iff) simp
  qed
  moreover have "bs_nbits bs mod 32 < 32" by simp
  ultimately show ?thesis
    by (auto simp: tail_mask_def Let_def bit_mask_iff simp del: push_bit_of_1)
qed

lemma bitset_clear_all_inv [inv_keep]:
  assumes "bs_nwords bs = bitset_words (bs_nbits bs)" and "length (bs_words bs) = bs_nwords bs"
  shows "bs_inv (bitset_clear_all bs)"
  using assms by (auto simp: bs_inv_def bitset_clear_all_def)

lemma bitset_test_clear_all:
  assumes "bs_nwords bs = bitset_words (bs_nbits bs)"
  shows "\<not> bitset_test (bitset_clear_all bs) i"
  using assms index_in_words [of i "bs_nbits bs"]
  by (auto simp: bitset_test_bit bitset_clear_all_def nth_append)

lemma last_word_index:
  fixes w n :: nat
  assumes "w < bitset_words n" and "k < 32"
  shows "w * 32 + k < n \<longleftrightarrow> (w = bitset_words n - 1 \<longrightarrow> n mod 32 \<noteq> 0 \<longrightarrow> k < n mod 32)"
proof -
  define q r where "q = n div 32" and "r = n mod 32"
  then have n: "n = q * 32 + r" and r: "r < 32" by simp_all
  have words: "bitset_words n = (if r = 0 then q else q + 1)"
  proof (cases r)
    case (Suc r')
    then have "n + 31 = (q + 1) * 32 + r'" using n by simp
    moreover have "r' < 32" using Suc r by simp
    ultimately show ?thesis using Suc by (simp add: bitset_words_def)
  qed (simp add: n bitset_words_def)
  have nr: "n mod 32 = r" by (simp add: r_def)
  show ?thesis
  proof (cases "w < q")
    case True
    then have "(w + 1) * 32 \<le> q * 32" by (intro mult_le_mono1) simp
    then have "w * 32 + k < n" using assms(2) n by simp
    then show ?thesis using True by (simp add: words nr)
  next
    case False
    then have wq: "w = q" and r0: "r \<noteq> 0" using assms(1) words by (auto split: if_splits)
    have "w * 32 + k < n \<longleftrightarrow> k < r" using n wq by simp
    then show ?thesis using wq r0 by (simp add: words nr)
  qed
qed

lemma bit_free_bits:
  assumes "bs_inv bs" and "w < bs_nwords bs" and "k < 32"
  shows "bit (free_bits bs w) k \<longleftrightarrow> w * 32 + k < bs_nbits bs \<and> \<not> bitset_test bs (w * 32 + k)"
proof -
  have "(w * 32 + k) div 32 = w" "(w * 32 + k) mod 32 = k" using assms(3) by auto
  moreover have "w * 32 + k < bs_nbits bs \<longleftrightarrow>
      (w = bs_nwords bs - 1 \<longrightarrow> bs_nbits bs mod 32 \<noteq> 0 \<longrightarrow> k < bs_nbits bs mod 32)"
    using assms last_word_index [of w "bs_nbits bs" k] by (simp add: bs_inv_def)
  ultimately show ?thesis using assms(3)
    by (auto simp: free_bits_def Let_def bit_and_iff bit_not_iff bit_tail_mask bitset_test_bit)
qed

lemma free_bits_zero:
  assumes "bs_inv bs" and "w < bs_nwords bs" and "free_bits bs w = 0"
    and "i div 32 = w" and "i < bs_nbits bs"
  shows "bitset_test bs i"
proof -
  have "w * 32 + i mod 32 = i" using assms(4) by (metis div_mult_mod_eq)
  then show ?thesis
    using bit_free_bits [OF assms(1,2), of "i mod 32"] assms(3,5) by simp
qed

lemma free_bits_first:
  assumes "bs_inv bs" and "w < bs_nwords bs" and "free_bits bs w \<noteq> 0"
  defines "i \<equiv> w * 32 + bits_ctz32 (free_bits bs w)"
  shows "i < bs_nbits bs" and "\<not> bitset_test bs i" and "i div 32 = w"
    and "w * 32 \<le> j \<Longrightarrow> j < i \<Longrightarrow> bitset_test bs j"
proof -
  note c = bits_ctz32_spec [OF assms(3)]
  show "i < bs_nbits bs" "\<not> bitset_test bs i"
    using c(1,2) bit_free_bits [OF assms(1,2) c(1)] by (simp_all add: i_def)
  then show "i div 32 = w" using c(1) by (simp add: i_def)
  assume j: "w * 32 \<le> j" "j < i"
  then obtain k where k: "j = w * 32 + k" "k < bits_ctz32 (free_bits bs w)"
    using le_Suc_ex [OF j(1)] by (auto simp: i_def)
  with c(1) c(3) [OF k(2)] bit_free_bits [OF assms(1,2), of k] \<open>i < bs_nbits bs\<close> j
  show "bitset_test bs j" by auto
qed

lemma next_word:
  fixes i w :: nat
  assumes "i div 32 \<noteq> w" and "w * 32 \<le> i"
  shows "(w + 1) * 32 \<le> i"
proof -
  have "w \<le> i div 32" using assms(2) by (simp add: less_eq_div_iff_mult_less_eq)
  then have "w + 1 \<le> i div 32" using assms(1) by simp
  then show ?thesis by (simp add: less_eq_div_iff_mult_less_eq)
qed

lemma first_clear_from_None:
  assumes "bs_inv bs" and "e \<le> bs_nwords bs" and "first_clear_from bs w e = None"
    and "w * 32 \<le> i" and "i < e * 32" and "i < bs_nbits bs"
  shows "bitset_test bs i"
  using assms
proof (induction bs w e rule: first_clear_from.induct)
  case (1 bs w e)
  have lt: "w < e" using "1.prems"(4,5) by simp
  have z: "free_bits bs w = 0"
    using "1.prems"(3) lt free_bits_first(1) [OF "1.prems"(1), of w] "1.prems"(2)
    by (subst (asm) first_clear_from.simps) (auto simp: Let_def split: if_splits)
  have nxt: "first_clear_from bs (w + 1) e = None"
    using "1.prems"(3) lt z by (subst (asm) first_clear_from.simps) simp
  show ?case
  proof (cases "i div 32 = w")
    case True
    then show ?thesis using free_bits_zero [OF "1.prems"(1) _ z] lt "1.prems"(2,6) by simp
  next
    case False
    then have "(w + 1) * 32 \<le> i" using "1.prems"(4) by (rule next_word)
    then show ?thesis using "1.IH" [OF lt refl] z nxt "1.prems" by simp
  qed
qed

lemma first_clear_from_Some:
  assumes "bs_inv bs" and "e \<le> bs_nwords bs" and "first_clear_from bs w e = Some (v, i)"
  shows "v < e \<and> i div 32 = v \<and> i < bs_nbits bs \<and> \<not> bitset_test bs i \<and>
         (\<forall>j. w * 32 \<le> j \<and> j < i \<longrightarrow> bitset_test bs j)"
  using assms
proof (induction bs w e rule: first_clear_from.induct)
  case (1 bs w e)
  have lt: "w < e"
    using "1.prems"(3) by (subst (asm) first_clear_from.simps) (simp split: if_splits)
  show ?case
  proof (cases "free_bits bs w = 0")
    case True
    have "first_clear_from bs (w + 1) e = Some (v, i)"
      using "1.prems"(3) lt True by (subst (asm) first_clear_from.simps) simp
    note IH = "1.IH" [OF lt refl _ "1.prems"(1,2) this]
    have "bitset_test bs j" if "w * 32 \<le> j" "j < i" for j
    proof (cases "j div 32 = w")
      case True
      then show ?thesis
        using free_bits_zero [OF "1.prems"(1) _ \<open>free_bits bs w = 0\<close>, of j] lt "1.prems"(2) IH \<open>free_bits bs w = 0\<close> that
        by auto
    next
      case False
      then have "(w + 1) * 32 \<le> j" using that(1) by (rule next_word)
      then show ?thesis using IH \<open>free_bits bs w = 0\<close> that(2) by simp
    qed
    then show ?thesis using IH True by simp
  next
    case False
    have w: "w < bs_nwords bs" using lt "1.prems"(2) by simp
    note f = free_bits_first [OF "1.prems"(1) w False]
    have "v = w" "i = w * 32 + bits_ctz32 (free_bits bs w)"
      using "1.prems"(3) lt False f(1)
      by (subst (asm) first_clear_from.simps, simp add: Let_def)+
    with f lt show ?thesis by blast
  qed
qed

text \<open>
  What the free-slot scan promises: the lowest free slot, or nothing when all are in use;
  the set itself is unchanged, and the hint stays sound.
\<close>

lemma bitset_find_first_clear_cases:
  assumes inv: "bs_inv bs"
  shows "case bitset_find_first_clear bs of
      (Some i, bs') \<Rightarrow> i < bs_nbits bs \<and> \<not> bitset_test bs i \<and> (\<forall>j<i. bitset_test bs j) \<and>
                      bs' = bs\<lparr>bs_hint := i div 32\<rparr> \<and> i div 32 < bs_nwords bs
    | (None, bs') \<Rightarrow> (\<forall>i < bs_nbits bs. bitset_test bs i) \<and> bs' = bs"
proof (cases "bs_nwords bs = 0")
  case True
  then show ?thesis using inv by (auto simp: bitset_find_first_clear_def bs_inv_def bitset_words_def)
next
  case False
  have below: "bitset_test bs j" if "j < bs_hint bs * 32" "j < bs_nbits bs" for j
    using inv that by (simp add: bs_inv_def mult.commute)
  have le: "bs_hint bs \<le> bs_nwords bs" using inv by (simp add: bs_inv_def)
  show ?thesis
  proof (cases "first_clear_from bs (bs_hint bs) (bs_nwords bs)")
    case (Some p)
    obtain w i where p: "p = (w, i)" by (cases p)
    have "bitset_test bs j" if "j < i" for j
      using below [of j] first_clear_from_Some [OF inv order_refl Some [unfolded p]] that
      by (cases "j < bs_hint bs * 32") auto
    then show ?thesis
      using first_clear_from_Some [OF inv order_refl Some [unfolded p]] Some False p
      by (auto simp: bitset_find_first_clear_def)
  next
    case None
    have above: "bitset_test bs j" if "bs_hint bs * 32 \<le> j" "j < bs_nbits bs" for j
    proof -
      have "j < bs_nwords bs * 32"
        using index_in_words [OF that(2)] inv by (simp add: bs_inv_def)
      then show ?thesis using first_clear_from_None [OF inv order_refl None that(1)] that(2) by simp
    qed
    have all: "bitset_test bs j" if "j < bs_nbits bs" for j
      using above [OF _ that] below [OF _ that] by (meson not_less)
    have "first_clear_from bs 0 (bs_hint bs) = None"
    proof (cases "first_clear_from bs 0 (bs_hint bs)")
      case (Some p)
      then show ?thesis
        using first_clear_from_Some [OF inv le, of 0 "fst p" "snd p"] all by auto
    qed
    with None all False show ?thesis by (simp add: bitset_find_first_clear_def)
  qed
qed

lemma bitset_find_first_clear_inv [inv_keep]:
  assumes "bs_inv bs"
  shows "bs_inv (snd (bitset_find_first_clear bs))"
proof (cases "bitset_find_first_clear bs")
  case (Pair r bs')
  with assms bitset_find_first_clear_cases [OF assms] show ?thesis
    by (cases r) (auto simp: bs_inv_def bitset_test_bit div_less_iff_less_mult)
qed

lemma bitset_find_first_clear_nbits [simp]:
  "bs_nbits (snd (bitset_find_first_clear bs)) = bs_nbits bs"
  by (simp add: bitset_find_first_clear_def split: option.split)

lemma bitset_find_first_clear_test:
  "bitset_test (snd (bitset_find_first_clear bs)) i = bitset_test bs i"
  by (simp add: bitset_find_first_clear_def bitset_test_def split: option.split)

interpretation bsm: slot_map bs_inv bs_nbits bitset_test bitset_find_first_clear bitset_set
  bitset_clear
proof
  fix s i
  assume ok: "bs_inv s"
  obtain r s' where r: "bitset_find_first_clear s = (r, s')" by fastforce
  show "fst (bitset_find_first_clear s) = Some i \<Longrightarrow> i < bs_nbits s \<and> \<not> bitset_test s i"
    using bitset_find_first_clear_cases [OF ok] r by simp
  show "fst (bitset_find_first_clear s) = None \<Longrightarrow> i < bs_nbits s \<Longrightarrow> bitset_test s i"
    using bitset_find_first_clear_cases [OF ok] r by simp
qed (simp_all add: bitset_find_first_clear_inv bitset_find_first_clear_test bitset_set_inv
       bitset_test_set bitset_clear_inv bitset_test_clear, simp add: bitset_test_bit)

section \<open>Counting and the scan for a set bit\<close>

lemma bits_popcount32_card: "bits_popcount32 x = card {k. k < 32 \<and> bit x k}"
proof -
  have "set (filter (bit x) [0..<32]) = {k. k < 32 \<and> bit x k}" by auto
  then show ?thesis
    unfolding bits_popcount32_def by (metis distinct_card distinct_filter distinct_upt)
qed

lemma popcount_words:
  "foldl (\<lambda>n w. n + bits_popcount32 (ws ! w)) a [0..<n] =
   a + card {i. i < 32 * n \<and> bit (ws ! (i div 32)) (i mod 32)}"
proof (induction n)
  case (Suc n)
  let ?P = "\<lambda>i. bit (ws ! (i div 32)) (i mod 32)"
  have "{i. i < 32 * Suc n \<and> ?P i} =
        {i. i < 32 * n \<and> ?P i} \<union> (\<lambda>k. 32 * n + k) ` {k. k < 32 \<and> bit (ws ! n) k}"
    (is "?L = ?A \<union> ?B")
  proof (intro equalityI subsetI)
    fix i assume i: "i \<in> ?L"
    show "i \<in> ?A \<union> ?B"
    proof (cases "i < 32 * n")
      case False
      then obtain k where k: "i = 32 * n + k" by (metis le_Suc_ex not_less)
      with i have "k < 32" by simp
      with i k show ?thesis by (auto intro!: image_eqI [of _ _ k])
    qed (use i in simp)
  qed auto
  moreover have "?A \<inter> ?B = {}" by auto
  moreover have "card ?B = card {k. k < 32 \<and> bit (ws ! n) k}"
    by (intro card_image) (simp add: inj_on_def)
  ultimately show ?case
    using Suc.IH by (simp add: card_Un_disjoint bits_popcount32_card del: mult_Suc_right)
qed simp

lemma bitset_popcount_card:
  assumes "bs_inv bs"
  shows "bitset_popcount bs = card {i. bitset_test bs i}"
proof -
  have "{i. i < 32 * bs_nwords bs \<and> bit (bs_words bs ! (i div 32)) (i mod 32)} =
        {i. bitset_test bs i}"
    using assms bit_index_in_words [of _ "bs_nbits bs"]
    by (auto simp: bs_inv_def bitset_test_bit not_le [symmetric])
  then show ?thesis by (simp add: bitset_popcount_def popcount_words)
qed

end
