(* ===== verification/Containers_Props.thy ===== *)
theory Containers_Props
  imports Ring_Buffer Bitset
begin

unbundle bit_operations_syntax

text \<open>
  The promises of the containers under \<^verbatim>\<open>engine/containers\<close> and of the bit counting of
  \<^verbatim>\<open>engine/math/bits.h\<close> that the pool and the voice tables rest on.
\<close>

section \<open>The remaining bit-set operations\<close>

lemma bitset_set_all_test:
  assumes "bs_inv bs"
  shows "bitset_test (bitset_set_all bs) i \<longleftrightarrow> i < bs_nbits bs"
proof (cases "i < bs_nbits bs")
  case False
  then show ?thesis by (simp add: bitset_test_bit bitset_set_all_def Let_def)
next
  case True
  have w: "i div 32 < bs_nwords bs" and len: "length (bs_words bs) = bs_nwords bs"
    using index_in_words [OF True] assms by (simp_all add: bs_inv_def)
  have t: "bit (tail_mask bs) (i mod 32)" if "i div 32 = bs_nwords bs - 1"
  proof -
    have nw: "bs_nwords bs = bitset_words (bs_nbits bs)" using assms by (simp add: bs_inv_def)
    have "i div 32 * 32 + i mod 32 < bs_nbits bs" using True by simp
    then have "bs_nbits bs mod 32 \<noteq> 0 \<longrightarrow> i mod 32 < bs_nbits bs mod 32"
      using last_word_index [of "i div 32" "bs_nbits bs" "i mod 32"] w nw that by simp
    then show ?thesis by (simp add: bit_tail_mask)
  qed
  have "bit (0xFFFFFFFF :: 32 word) (i mod 32)"
  proof -
    have "(0xFFFFFFFF :: 32 word) = mask 32" by (simp add: mask_eq_exp_minus_1)
    then show ?thesis by (simp only: bit_mask_iff) simp
  qed
  then show ?thesis
    using True w len t
    by (auto simp: bitset_test_bit bitset_set_all_def Let_def nth_list_update nth_append bit_and_iff)
qed

lemma first_set_from_spec:
  assumes "bs_inv bs" and "w \<le> bs_nwords bs" and "\<forall>i < 32 * w. \<not> bitset_test bs i"
  shows "case first_set_from bs w of
      Some i \<Rightarrow> bitset_test bs i \<and> (\<forall>j < i. \<not> bitset_test bs j)
    | None \<Rightarrow> \<forall>i. \<not> bitset_test bs i"
  using assms
proof (induction bs w rule: first_set_from.induct)
  case (1 bs w)
  let ?x = "bs_words bs ! w" and ?c = "bits_ctz32 (bs_words bs ! w)"
  have nw: "bs_nwords bs = bitset_words (bs_nbits bs)" using "1.prems" by (simp add: bs_inv_def)
  show ?case
  proof (cases "w < bs_nwords bs")
    case False
    then have "w = bs_nwords bs" using "1.prems" by simp
    then have "\<not> bitset_test bs i" for i
      using "1.prems"(3) bit_index_in_words [of i "bs_nbits bs"] nw by (auto simp: bitset_test_bit)
    then show ?thesis using False by (subst first_set_from.simps) simp
  next
    case True
    show ?thesis
    proof (cases "?x = 0")
      case zero: True
      have "\<not> bitset_test bs i" if "i < 32 * (w + 1)" for i
      proof (cases "i < 32 * w")
        case False
        then have "i div 32 = w" using that by simp
        then show ?thesis by (simp add: bitset_test_bit zero)
      qed (use "1.prems"(3) in blast)
      then show ?thesis
        using "1.IH" [OF True] zero True "1.prems" by (subst first_set_from.simps) simp
    next
      case False
      note c = bits_ctz32_spec [OF False]
      have idx: "(w * 32 + ?c) div 32 = w" "(w * 32 + ?c) mod 32 = ?c" using c(1) by simp_all
      have lt: "w * 32 + ?c < bs_nbits bs"
      proof (rule ccontr)
        assume "\<not> w * 32 + ?c < bs_nbits bs"
        moreover have "w * 32 + ?c < 32 * bs_nwords bs" using True c(1) by simp
        ultimately show False using "1.prems"(1) c(2) idx unfolding bs_inv_def by (metis not_less)
      qed
      have "\<not> bitset_test bs j" if "j < w * 32 + ?c" for j
      proof (cases "j < 32 * w")
        case False
        then obtain k where k: "j = 32 * w + k" by (metis le_Suc_ex not_less)
        then have "k < ?c" using that by simp
        then show ?thesis using k c(1) c(3) [of k] by (simp add: bitset_test_bit)
      qed (use "1.prems"(3) in blast)
      then show ?thesis
        using True False lt c(2) idx by (subst first_set_from.simps) (simp add: bitset_test_bit Let_def)
    qed
  qed
qed

section \<open>Properties\<close>

text \<open>
  C16: the ring buffer is a queue of the newest elements: after any block of pushes it holds
  the last \<open>capacity\<close> of what it held and what was pushed, in order, and pops and peeks return
  them oldest first.
\<close>

theorem ring_buffer_keeps_newest:
  assumes "rb_inv rb" and "\<forall>e \<in> set es. length e = rb_element_size rb"
  shows "rb_inv (foldl rb_push rb es) \<and>
    rb_list (foldl rb_push rb es) = drop (rb_count rb + length es - rb_capacity rb) (rb_list rb @ es) \<and>
    rb_list (((\<lambda>q. snd (rb_pop q)) ^^ k) (foldl rb_push rb es)) = drop k (rb_list (foldl rb_push rb es)) \<and>
    fst (rb_pop (foldl rb_push rb es)) =
      (case rb_list (foldl rb_push rb es) of [] \<Rightarrow> None | x # _ \<Rightarrow> Some x) \<and>
    rb_peek_at (foldl rb_push rb es) k =
      (if k < length (rb_list (foldl rb_push rb es)) then Some (rb_list (foldl rb_push rb es) ! k) else None)"
proof (intro conjI)
  show "rb_list (foldl rb_push rb es) = drop (rb_count rb + length es - rb_capacity rb) (rb_list rb @ es)"
    using rbq.items_pushes [OF assms] by simp
qed (rule rbq.ok_pushes [OF assms] rbq.items_pops [OF rbq.ok_pushes [OF assms]]
       rb_pop_spec(1) [OF rbq.ok_pushes [OF assms]] rb_peek_at_spec)+

theorem ring_buffer_keeps_newest_witness:
  "rb_list (foldl rb_push (rb_init [0, 0, 0, 0] 2 2) [[1, 1], [2, 2], [3, 3]]) = [[2, 2], [3, 3]]"
proof -
  have i: "rb_inv (rb_init [0, 0, 0, 0] 2 2)" and e: "rb_list (rb_init [0, 0, 0, 0] 2 2) = []"
    using rb_init_inv [of 2 "[0, 0, 0, 0]" 2] by simp_all
  have "\<forall>x \<in> set [[1, 1], [2, 2], [3, 3]]. length x = rb_element_size (rb_init [0, 0, 0, 0] 2 2)"
    by (simp add: rb_init_def)
  from ring_buffer_keeps_newest [OF i this] show ?thesis by (simp add: e) (simp add: rb_init_def)
qed

text \<open>
  the scan for a free slot returns the lowest clear bit, or nothing when all bits are
  set; the set is unchanged and the rolling hint never hides a free slot, so a set followed
  by a clear finds the slot again.
\<close>

theorem bitset_find_first_clear_lowest:
  assumes "bs_inv bs" and "bitset_find_first_clear bs = (r, bs')"
  shows "bs_inv bs' \<and> (\<forall>i. bitset_test bs' i = bitset_test bs i) \<and>
    (case r of
       Some i \<Rightarrow> i < bs_nbits bs \<and> \<not> bitset_test bs i \<and> (\<forall>j < i. bitset_test bs j) \<and>
         fst (bitset_find_first_clear (bitset_clear (bitset_set bs' i) i)) = Some i
     | None \<Rightarrow> \<forall>i < bs_nbits bs. bitset_test bs i)"
proof -
  have inv': "bs_inv bs'" and test': "\<And>i. bitset_test bs' i = bitset_test bs i"
    and nb: "bs_nbits bs' = bs_nbits bs"
    using bitset_find_first_clear_inv [OF assms(1)] bitset_find_first_clear_test [of bs]
      bitset_find_first_clear_nbits [of bs] assms(2) by simp_all
  show ?thesis
  proof (cases r)
    case None
    then show ?thesis using bitset_find_first_clear_cases [OF assms(1)] assms(2) inv' test' by simp
  next
    case (Some i)
    have i: "i < bs_nbits bs" "\<not> bitset_test bs i" "\<forall>j < i. bitset_test bs j"
      using bitset_find_first_clear_cases [OF assms(1)] assms(2) Some by simp_all
    let ?c = "bitset_clear (bitset_set bs' i) i"
    have ci: "bs_inv ?c" by (rule bitset_clear_inv [OF bitset_set_inv [OF inv']])
    have ct: "bitset_test ?c j = bitset_test bs j" for j
      using i nb bitset_test_clear [OF bitset_set_inv [OF inv', of i], of i j]
        bitset_test_set [OF inv', of i j] test' by auto
    have cn: "bs_nbits ?c = bs_nbits bs" by (simp add: nb)
    have "fst (bitset_find_first_clear ?c) = Some i"
    proof (cases "bitset_find_first_clear ?c")
      case (Pair r2 b2)
      show ?thesis
      proof (cases r2)
        case None
        then show ?thesis using bitset_find_first_clear_cases [OF ci] Pair i ct cn by auto
      next
        case (Some k)
        then have "\<not> bitset_test bs k" "\<forall>j < k. bitset_test bs j"
          using bitset_find_first_clear_cases [OF ci] Pair ct by simp_all
        then have "k = i" using i by (metis linorder_neqE_nat)
        then show ?thesis using Some Pair by simp
      qed
    qed
    then show ?thesis using i inv' test' Some by simp
  qed
qed

theorem bitset_find_first_clear_lowest_witness:
  "fst (bitset_find_first_clear (bitset_set (bitset_clear_all (bitset_init [0, 0] 40)) 0)) \<noteq> Some 0"
proof -
  define b where "b = bitset_clear_all (bitset_init [0, 0] 40)"
  have b: "bs_inv b" unfolding b_def
    by (rule bitset_clear_all_inv) (simp_all add: bitset_init_def bitset_words_def)
  have s: "bs_inv (bitset_set b 0)" by (rule bitset_set_inv [OF b])
  have "bitset_test (bitset_set b 0) 0"
    using bitset_test_set [OF b, of 0 0] by (simp add: b_def bitset_init_def bitset_clear_all_def)
  obtain r c where f: "bitset_find_first_clear (bitset_set b 0) = (r, c)" by fastforce
  have "r \<noteq> Some 0"
    using bitset_find_first_clear_lowest [OF s f] \<open>bitset_test (bitset_set b 0) 0\<close> by (cases r) (auto intro: gr0I)
  then show ?thesis using f by (simp flip: b_def)
qed

text \<open>
  the population count is the number of set bits, and the scan for a set bit finds the
  lowest one, or nothing exactly when the set is empty.
\<close>

theorem bitset_count_and_first_set:
  assumes "bs_inv bs"
  shows "bitset_popcount bs = card {i. bitset_test bs i} \<and>
    (case bitset_find_first_set bs of
       Some i \<Rightarrow> bitset_test bs i \<and> (\<forall>j < i. \<not> bitset_test bs j)
     | None \<Rightarrow> {i. bitset_test bs i} = {})"
  using first_set_from_spec [OF assms, of 0] bitset_popcount_card [OF assms]
  by (auto simp: bitset_find_first_set_def split: option.splits)

theorem bitset_count_and_first_set_witness:
  "bitset_popcount (bitset_clear_all (bitset_init [7, 7] 40)) = card {i. bitset_test (bitset_clear_all (bitset_init [7, 7] 40)) i}"
proof -
  have "bs_inv (bitset_clear_all (bitset_init [7, 7] 40))"
    by (rule bitset_clear_all_inv) (simp_all add: bitset_init_def bitset_words_def)
  from bitset_count_and_first_set [OF this] show ?thesis by blast
qed

text \<open>
  the portable bodies of the leading- and trailing-zero counts compute, on every 32-bit
  word, the same count as the compiler builtins.
\<close>

theorem bits_soft_paths_agree:
  "bits_clz32_soft x = bits_clz32 x \<and> bits_ctz32_soft x = bits_ctz32 x"
  by (simp add: bits_clz32_soft_eq bits_ctz32_soft_eq)

end
