(* ===== verification/Audio_Pool.thy ===== *)
theory Audio_Pool
  imports Bitset
begin

unbundle bit_operations_syntax

text \<open>
  \<^verbatim>\<open>engine/audio/audio_pool.c\<close>: the block pool of the sound memory.  The region is a byte
  list; the out-of-band tables \<^verbatim>\<open>owner\<close> and \<^verbatim>\<open>next\<close> are lists indexed by block, the object
  descriptors and generations lists indexed by slot.  The build-time tunables
  \<^verbatim>\<open>AUDIO_POOL_BLOCK_SIZE\<close> and \<^verbatim>\<open>AUDIO_POOL_MAX_OBJECTS\<close> are arguments of \<open>audio_pool_init\<close>:
  the first is the field \<open>ap_block_size\<close>, the second the length of \<open>ap_objects\<close>.  A
  \<^verbatim>\<open>uint32_t\<close> is a \<^typ>\<open>nat\<close> with \<open>u32\<close> where the code may wrap, \<^verbatim>\<open>0xFFFFFFFF\<close> is the
  sentinel \<open>NO_BLOCK\<close>; a handle is a 32-bit word, a generation a 16-bit word.
\<close>

section \<open>State\<close>

type_synonym obj_handle = "32 word"

abbreviation NO_BLOCK :: nat where "NO_BLOCK \<equiv> 4294967295"

datatype pool_result =
    AUDIO_POOL_OK
  | AUDIO_POOL_ERR_NO_SPACE
  | AUDIO_POOL_ERR_NO_OBJECTS
  | AUDIO_POOL_ERR_BAD_HANDLE
  | AUDIO_POOL_ERR_INVALID_ARG

record audio_object =
  ob_head_block :: nat
  ob_size :: nat
  ob_nblocks :: nat
  ob_refcount :: int
  ob_generation :: "16 word"
  ob_owner_vm :: nat
  ob_in_use :: bool
  ob_sample_rate :: nat

record audio_pool =
  ap_region :: "byte list"
  ap_region_size :: nat
  ap_block_size :: nat
  ap_block_count :: nat
  ap_free_blocks :: nat
  ap_owner :: "nat list"
  ap_next :: "nat list"
  ap_used_map :: bitset
  ap_objects :: "audio_object list"
  ap_generations :: "16 word list"

section \<open>Handles\<close>

definition pack_handle :: "nat \<Rightarrow> 16 word \<Rightarrow> obj_handle" where
  "pack_handle slot gen = push_bit 16 (ucast gen) OR of_nat (slot + 1)"

definition unpack_handle :: "obj_handle \<Rightarrow> (nat \<times> 16 word) option" where
  "unpack_handle h =
     (if h = 0 then None
      else let s = unat (h AND 0xFFFF)
           in if s = 0 then None else Some (s - 1, ucast (drop_bit 16 h)))"

definition resolve :: "audio_pool \<Rightarrow> obj_handle \<Rightarrow> nat option" where
  "resolve p h =
     (case unpack_handle h of
        None \<Rightarrow> None
      | Some (slot, gen) \<Rightarrow>
          if length (ap_objects p) \<le> slot then None
          else let obj = ap_objects p ! slot
               in if \<not> ob_in_use obj then None
                  else if ob_generation obj \<noteq> gen then None
                  else Some slot)"

section \<open>The block free map\<close>

definition alloc_one_block :: "audio_pool \<Rightarrow> nat \<times> audio_pool" where
  "alloc_one_block p =
     (if ap_free_blocks p = 0 then (NO_BLOCK, p)
      else let (r, m) = bitset_find_first_clear (ap_used_map p)
           in case r of
                None \<Rightarrow> (NO_BLOCK, p\<lparr>ap_used_map := m\<rparr>)
              | Some b \<Rightarrow> (b, p\<lparr>ap_used_map := bitset_set m b,
                              ap_free_blocks := ap_free_blocks p - 1\<rparr>))"

definition free_one_block :: "audio_pool \<Rightarrow> nat \<Rightarrow> audio_pool" where
  "free_one_block p b =
     (if ap_block_count p \<le> b then p
      else let p1 = (if bitset_test (ap_used_map p) b
                     then p\<lparr>ap_used_map := bitset_clear (ap_used_map p) b,
                            ap_free_blocks := ap_free_blocks p + 1\<rparr>
                     else p)
           in p1\<lparr>ap_owner := (ap_owner p1)[b := NO_BLOCK],
                 ap_next := (ap_next p1)[b := NO_BLOCK]\<rparr>)"

text \<open>
  \<^verbatim>\<open>free_chain\<close> reads the link before it frees the block and clears the link as it goes, so
  it stops on every table: the number of links left goes down with each further block.  A
  link outside the table (the code would read out of bounds) ends the loop here; the
  invariant of the pool excludes it.
\<close>

definition links_left :: "audio_pool \<Rightarrow> nat" where
  "links_left p = length (filter (\<lambda>n. n \<noteq> NO_BLOCK) (ap_next p))"

lemma filter_update_less:
  assumes "i < length xs" and "P (xs ! i)" and "\<not> P x"
  shows "length (filter P (xs[i := x])) < length (filter P xs)"
proof -
  have "length (filter P (xs[i := x])) = length (filter P (take i xs @ x # drop (Suc i) xs))"
    using assms(1) by (simp add: upd_conv_take_nth_drop)
  also have "\<dots> < length (filter P (take i xs @ xs ! i # drop (Suc i) xs))"
    using assms(2,3) by simp
  also have "take i xs @ xs ! i # drop (Suc i) xs = xs"
    using assms(1) by (rule id_take_nth_drop [symmetric])
  finally show ?thesis .
qed

lemma links_left_free_one:
  assumes "b < ap_block_count p" and "b < length (ap_next p)" and "ap_next p ! b \<noteq> NO_BLOCK"
  shows "links_left (free_one_block p b) < links_left p"
  using filter_update_less [OF assms(2), of "\<lambda>n. n \<noteq> NO_BLOCK" NO_BLOCK] assms
  by (simp add: links_left_def free_one_block_def Let_def)

function free_chain :: "audio_pool \<Rightarrow> nat \<Rightarrow> audio_pool" where
  "free_chain p b =
     (if b = NO_BLOCK then p
      else if b < length (ap_next p) \<and> b < ap_block_count p
      then let nxt = ap_next p ! b;
               p1 = free_one_block p b
           in if nxt = NO_BLOCK then p1 else free_chain p1 nxt
      else p)"
  by pat_completeness auto
termination
  by (relation "measure (\<lambda>(p, b). links_left p)") (auto intro: links_left_free_one)

declare free_chain.simps [simp del]

section \<open>Lifecycle\<close>

definition object_zero :: audio_object where
  "object_zero = \<lparr>ob_head_block = 0, ob_size = 0, ob_nblocks = 0, ob_refcount = 0,
     ob_generation = 0, ob_owner_vm = 0, ob_in_use = False, ob_sample_rate = 0\<rparr>"

definition audio_pool_init ::
    "nat \<Rightarrow> nat \<Rightarrow> byte list \<Rightarrow> bool \<Rightarrow> pool_result \<times> audio_pool option" where
  "audio_pool_init block_size max_objects region malloc_ok =
     (let region_size = length region;
          block_count = u32 (region_size div block_size)
      in if block_count = 0 then (AUDIO_POOL_ERR_INVALID_ARG, None)
         else if \<not> malloc_ok then (AUDIO_POOL_ERR_NO_SPACE, None)
         else (AUDIO_POOL_OK, Some
           \<lparr>ap_region = region, ap_region_size = region_size, ap_block_size = block_size,
            ap_block_count = block_count, ap_free_blocks = block_count,
            ap_owner = replicate block_count NO_BLOCK,
            ap_next = replicate block_count NO_BLOCK,
            ap_used_map = bitset_clear_all
              (bitset_init (replicate (bitset_words block_count) 0) block_count),
            ap_objects = replicate max_objects object_zero,
            ap_generations = replicate max_objects 1\<rparr>))"

section \<open>Allocation and release\<close>

fun find_free_slot_from :: "audio_object list \<Rightarrow> nat \<Rightarrow> nat" where
  "find_free_slot_from [] s = NO_BLOCK"
| "find_free_slot_from (obj # objs) s =
     (if \<not> ob_in_use obj then s else find_free_slot_from objs (s + 1))"

definition find_free_slot :: "audio_pool \<Rightarrow> nat" where
  "find_free_slot p = find_free_slot_from (ap_objects p) 0"

text \<open>The loop that builds the chain: \<open>Inl\<close> is the roll-back, \<open>Inr\<close> the head of the chain.\<close>

fun alloc_loop ::
    "nat \<Rightarrow> nat \<Rightarrow> nat \<Rightarrow> nat \<Rightarrow> audio_pool \<Rightarrow> audio_pool + nat \<times> audio_pool" where
  "alloc_loop 0 slot head prev p = Inr (head, p)"
| "alloc_loop (Suc n) slot head prev p =
     (let (b, p1) = alloc_one_block p
      in if b = NO_BLOCK then Inl (free_chain p1 head)
         else let p2 = p1\<lparr>ap_owner := (ap_owner p1)[b := slot],
                          ap_next := (ap_next p1)[b := NO_BLOCK]\<rparr>
              in if prev = NO_BLOCK then alloc_loop n slot b b p2
                 else alloc_loop n slot head b (p2\<lparr>ap_next := (ap_next p2)[prev := b]\<rparr>))"

definition blocks_needed :: "audio_pool \<Rightarrow> nat \<Rightarrow> nat" where
  "blocks_needed p sz =
     (let need = u32 (sz + ap_block_size p - 1) div ap_block_size p
      in if need = 0 then 1 else need)"

definition audio_pool_alloc ::
    "audio_pool \<Rightarrow> nat \<Rightarrow> nat \<Rightarrow> pool_result \<times> obj_handle \<times> audio_pool" where
  "audio_pool_alloc p sz owner_vm =
     (let need = blocks_needed p sz
      in if ap_free_blocks p < need then (AUDIO_POOL_ERR_NO_SPACE, 0, p)
         else let slot = find_free_slot p
         in if slot = NO_BLOCK then (AUDIO_POOL_ERR_NO_OBJECTS, 0, p)
            else case alloc_loop need slot NO_BLOCK NO_BLOCK p of
                   Inl p' \<Rightarrow> (AUDIO_POOL_ERR_NO_SPACE, 0, p')
                 | Inr (head, p') \<Rightarrow>
                     (let gen = ap_generations p' ! slot;
                          obj = \<lparr>ob_head_block = head, ob_size = sz, ob_nblocks = need,
                                 ob_refcount = 1, ob_generation = gen, ob_owner_vm = owner_vm,
                                 ob_in_use = True, ob_sample_rate = 0\<rparr>
                      in (AUDIO_POOL_OK, pack_handle slot gen,
                          p'\<lparr>ap_objects := (ap_objects p')[slot := obj]\<rparr>)))"

definition audio_pool_alloc_with_rate ::
    "audio_pool \<Rightarrow> nat \<Rightarrow> nat \<Rightarrow> nat \<Rightarrow> pool_result \<times> obj_handle \<times> audio_pool" where
  "audio_pool_alloc_with_rate p sz owner_vm sample_rate =
     (case audio_pool_alloc p sz owner_vm of
        (r, h, p1) \<Rightarrow>
          if r \<noteq> AUDIO_POOL_OK then (r, h, p1)
          else (case unpack_handle h of
                  Some (slot, gen) \<Rightarrow>
                    if slot < length (ap_objects p1) \<and> ob_in_use (ap_objects p1 ! slot)
                    then (AUDIO_POOL_OK, h, p1\<lparr>ap_objects := (ap_objects p1)
                            [slot := (ap_objects p1 ! slot)\<lparr>ob_sample_rate := sample_rate\<rparr>]\<rparr>)
                    else (AUDIO_POOL_OK, h, p1)
                | None \<Rightarrow> (AUDIO_POOL_OK, h, p1)))"

definition audio_pool_object_sample_rate :: "audio_pool \<Rightarrow> obj_handle \<Rightarrow> nat" where
  "audio_pool_object_sample_rate p h =
     (case unpack_handle h of
        None \<Rightarrow> 0
      | Some (slot, gen) \<Rightarrow>
          if length (ap_objects p) \<le> slot then 0
          else let obj = ap_objects p ! slot
               in if \<not> ob_in_use obj then 0
                  else if gen \<noteq> ob_generation obj then 0
                  else ob_sample_rate obj)"

definition bump_generation :: "16 word \<Rightarrow> 16 word" where
  "bump_generation g = (if g + 1 = 0 then 1 else g + 1)"

definition free_object :: "audio_pool \<Rightarrow> nat \<Rightarrow> audio_pool" where
  "free_object p slot =
     (let p1 = free_chain p (ob_head_block (ap_objects p ! slot))
      in p1\<lparr>ap_generations := (ap_generations p1)
               [slot := bump_generation (ap_generations p1 ! slot)],
            ap_objects := (ap_objects p1)[slot := object_zero\<lparr>ob_head_block := NO_BLOCK\<rparr>]\<rparr>)"

definition add_refcount :: "audio_pool \<Rightarrow> nat \<Rightarrow> int \<Rightarrow> audio_pool" where
  "add_refcount p slot d =
     p\<lparr>ap_objects := (ap_objects p)[slot := (ap_objects p ! slot)
         \<lparr>ob_refcount := i32 (ob_refcount (ap_objects p ! slot) + d)\<rparr>]\<rparr>"

definition audio_pool_ref :: "audio_pool \<Rightarrow> obj_handle \<Rightarrow> pool_result \<times> audio_pool" where
  "audio_pool_ref p h =
     (case resolve p h of
        None \<Rightarrow> (AUDIO_POOL_ERR_BAD_HANDLE, p)
      | Some slot \<Rightarrow> (AUDIO_POOL_OK, add_refcount p slot 1))"

text \<open>The decrement, and the release at zero, that \<^verbatim>\<open>unref\<close> and \<^verbatim>\<open>sweep_vm\<close> share.\<close>

definition drop_ref :: "audio_pool \<Rightarrow> nat \<Rightarrow> bool \<times> audio_pool" where
  "drop_ref p slot =
     (let p1 = add_refcount p slot (- 1)
      in if ob_refcount (ap_objects p1 ! slot) \<le> 0 then (True, free_object p1 slot)
         else (False, p1))"

definition audio_pool_unref ::
    "audio_pool \<Rightarrow> obj_handle \<Rightarrow> pool_result \<times> bool \<times> audio_pool" where
  "audio_pool_unref p h =
     (case unpack_handle h of
        None \<Rightarrow> (AUDIO_POOL_ERR_BAD_HANDLE, False, p)
      | Some (slot, gen) \<Rightarrow>
          (case resolve p h of
             None \<Rightarrow> (AUDIO_POOL_ERR_BAD_HANDLE, False, p)
           | Some _ \<Rightarrow> (AUDIO_POOL_OK, drop_ref p slot)))"

fun sweep_from :: "nat list \<Rightarrow> nat \<Rightarrow> nat \<times> audio_pool \<Rightarrow> nat \<times> audio_pool" where
  "sweep_from [] owner_vm s = s"
| "sweep_from (slot # slots) owner_vm (freed, p) =
     (if ob_in_use (ap_objects p ! slot) \<and> ob_owner_vm (ap_objects p ! slot) = owner_vm
      then let (f, p') = drop_ref p slot
           in sweep_from slots owner_vm (if f then freed + 1 else freed, p')
      else sweep_from slots owner_vm (freed, p))"

definition audio_pool_sweep_vm :: "audio_pool \<Rightarrow> nat \<Rightarrow> nat \<times> audio_pool" where
  "audio_pool_sweep_vm p owner_vm = sweep_from [0..<length (ap_objects p)] owner_vm (0, p)"

section \<open>Chained data access\<close>

fun skip_blocks :: "nat list \<Rightarrow> nat \<Rightarrow> nat \<Rightarrow> nat" where
  "skip_blocks nx 0 b = b"
| "skip_blocks nx (Suc skip) b = (if b = NO_BLOCK then b else skip_blocks nx skip (nx ! b))"

definition seek_block :: "audio_pool \<Rightarrow> nat \<Rightarrow> nat \<Rightarrow> nat \<times> nat" where
  "seek_block p head offset =
     (skip_blocks (ap_next p) (offset div ap_block_size p) head, offset mod ap_block_size p)"

text \<open>
  The copy loops, over the number of bytes still to move.  Each pass moves at least one
  byte, so \<open>n\<close> passes are enough; the first argument counts them.
\<close>

fun read_loop :: "nat \<Rightarrow> audio_pool \<Rightarrow> nat \<Rightarrow> nat \<Rightarrow> nat \<Rightarrow> byte list" where
  "read_loop 0 p b in_off n = []"
| "read_loop (Suc fuel) p b in_off n =
     (if 0 < n \<and> b \<noteq> NO_BLOCK
      then let chunk = min (ap_block_size p - in_off) n
           in seg (b * ap_block_size p + in_off) chunk (ap_region p) @
              read_loop fuel p (ap_next p ! b) 0 (n - chunk)
      else [])"

definition audio_pool_read ::
    "audio_pool \<Rightarrow> obj_handle \<Rightarrow> nat \<Rightarrow> nat \<Rightarrow> pool_result \<times> byte list" where
  "audio_pool_read p h offset n =
     (case resolve p h of
        None \<Rightarrow> (AUDIO_POOL_ERR_BAD_HANDLE, [])
      | Some slot \<Rightarrow>
          (let obj = ap_objects p ! slot
           in if ob_size obj \<le> offset then (AUDIO_POOL_OK, [])
              else let n' = min n (ob_size obj - offset);
                       (b, in_off) = seek_block p (ob_head_block obj) offset
                   in (AUDIO_POOL_OK, read_loop n' p b in_off n')))"

fun write_loop :: "nat \<Rightarrow> audio_pool \<Rightarrow> nat \<Rightarrow> nat \<Rightarrow> byte list \<Rightarrow> nat \<times> audio_pool" where
  "write_loop 0 p b in_off src = (0, p)"
| "write_loop (Suc fuel) p b in_off src =
     (if src \<noteq> [] \<and> b \<noteq> NO_BLOCK
      then let chunk = min (ap_block_size p - in_off) (length src);
               p1 = p\<lparr>ap_region := blit (ap_region p) (b * ap_block_size p + in_off) (take chunk src)\<rparr>;
               (k, p2) = write_loop fuel p1 (ap_next p ! b) 0 (drop chunk src)
           in (chunk + k, p2)
      else (0, p))"

definition audio_pool_write ::
    "audio_pool \<Rightarrow> obj_handle \<Rightarrow> nat \<Rightarrow> byte list \<Rightarrow> pool_result \<times> nat \<times> audio_pool" where
  "audio_pool_write p h offset src =
     (case resolve p h of
        None \<Rightarrow> (AUDIO_POOL_ERR_BAD_HANDLE, 0, p)
      | Some slot \<Rightarrow>
          (let obj = ap_objects p ! slot
           in if ob_size obj \<le> offset then (AUDIO_POOL_OK, 0, p)
              else let n = min (length src) (ob_size obj - offset);
                       (b, in_off) = seek_block p (ob_head_block obj) offset
                   in (AUDIO_POOL_OK, write_loop n p b in_off (take n src))))"

section \<open>Introspection\<close>

definition audio_pool_refcount :: "audio_pool \<Rightarrow> obj_handle \<Rightarrow> int" where
  "audio_pool_refcount p h =
     (case resolve p h of None \<Rightarrow> - 1 | Some slot \<Rightarrow> ob_refcount (ap_objects p ! slot))"

definition audio_pool_handle_valid :: "audio_pool \<Rightarrow> obj_handle \<Rightarrow> bool" where
  "audio_pool_handle_valid p h \<longleftrightarrow> resolve p h \<noteq> None"

definition audio_pool_object_size :: "audio_pool \<Rightarrow> obj_handle \<Rightarrow> nat" where
  "audio_pool_object_size p h =
     (case resolve p h of None \<Rightarrow> 0 | Some slot \<Rightarrow> ob_size (ap_objects p ! slot))"

end
