(* ===== verification/Audio_Pool_Inv.thy ===== *)
theory Audio_Pool_Inv
  imports Audio_Pool
begin

unbundle bit_operations_syntax

text \<open>
  The invariant of the block pool and its preservation: every live object owns a chain of
  blocks of its own, the free map marks exactly the blocks of the chains, and the free
  count is the number of unmarked blocks.  The chains are not stored by the code as lists;
  \<open>ch s\<close> is the chain of slot \<open>s\<close> as a ghost value.
\<close>

section \<open>Handles\<close>

lemma pack_fields:
  fixes g :: "16 word"
  assumes "n < 65536"
  shows "(push_bit 16 (ucast g) OR of_nat n) AND (0xFFFF :: 32 word) = of_nat n"
    and "ucast (drop_bit 16 (push_bit 16 (ucast g) OR (of_nat n :: 32 word))) = g"
proof -
  have small: "\<not> bit (of_nat n :: 32 word) i" if "16 \<le> i" for i
  proof -
    have "n < 2 ^ i" using assms that power_increasing [of 16 i "2 :: nat"] by simp
    then show ?thesis by (simp add: bit_of_nat_iff) (simp add: bit_iff_odd)
  qed
  have m: "(0xFFFF :: 32 word) = mask 16" by (simp add: mask_eq_exp_minus_1)
  show "(push_bit 16 (ucast g) OR of_nat n) AND (0xFFFF :: 32 word) = of_nat n"
    unfolding m
    by (rule bit_word_eqI) (use small in \<open>auto simp: bit_and_iff bit_or_iff bit_push_bit_iff
        bit_mask_iff not_le [symmetric]\<close>)
  show "ucast (drop_bit 16 (push_bit 16 (ucast g) OR (of_nat n :: 32 word))) = g"
    by (rule bit_word_eqI) (use small in \<open>auto simp: bit_ucast_iff bit_drop_bit_eq bit_or_iff
        bit_push_bit_iff\<close>)
qed

lemma unpack_pack:
  assumes "slot < 65535"
  shows "unpack_handle (pack_handle slot gen) = Some (slot, gen)"
proof -
  have f: "pack_handle slot gen AND 0xFFFF = of_nat (slot + 1)"
    "ucast (drop_bit 16 (pack_handle slot gen)) = gen"
    using pack_fields [of "slot + 1" gen] assms by (simp_all add: pack_handle_def)
  have u: "unat (of_nat (slot + 1) :: 32 word) = slot + 1"
    by (subst unat_of_nat) (use assms in simp)
  have "pack_handle slot gen \<noteq> 0"
  proof
    assume "pack_handle slot gen = 0"
    then have "of_nat (slot + 1) = (0 :: 32 word)" using f(1) by (simp del: of_nat_add of_nat_Suc)
    then show False using u by (metis add_is_0 unat_0 zero_neq_one)
  qed
  then show ?thesis
    using f u by (simp add: unpack_handle_def Let_def del: of_nat_add of_nat_Suc)
qed

lemma unpack_bound: "unpack_handle h = Some (slot, gen) \<Longrightarrow> slot < 65535"
proof -
  assume *: "unpack_handle h = Some (slot, gen)"
  have "unat (h AND 0xFFFF) \<le> 65535"
    using word_and_le1 [of h "0xFFFF"] by (simp add: word_le_nat_alt word_and_le1)
  with * show ?thesis by (auto simp: unpack_handle_def Let_def split: if_splits)
qed

lemma pack_unpack:
  assumes "unpack_handle h = Some (slot, gen)"
  shows "pack_handle slot gen = h"
proof -
  have s: "slot + 1 = unat (h AND 0xFFFF)" and g: "gen = ucast (drop_bit 16 h)"
    using assms by (auto simp: unpack_handle_def Let_def split: if_splits)
  have m: "(0xFFFF :: 32 word) = mask 16" by (simp add: mask_eq_exp_minus_1)
  have "pack_handle slot gen = push_bit 16 (ucast (ucast (drop_bit 16 h) :: 16 word)) OR (h AND 0xFFFF)"
    unfolding pack_handle_def s g by simp
  also have "\<dots> = h"
    unfolding m
  proof (rule bit_word_eqI)
    fix i assume "i < LENGTH(32)"
    then show "bit (push_bit 16 (ucast (ucast (drop_bit 16 h) :: 16 word)) OR (h AND mask 16)) i = bit h i"
      by (auto simp: bit_or_iff bit_push_bit_iff bit_ucast_iff bit_drop_bit_eq bit_and_iff bit_mask_iff)
  qed
  finally show ?thesis .
qed

section \<open>Chains of blocks\<close>

text \<open>\<open>chain nx h bs\<close>: following the links \<open>nx\<close> from \<open>h\<close> visits \<open>bs\<close> and ends at the sentinel.\<close>

fun chain :: "nat list \<Rightarrow> nat \<Rightarrow> nat list \<Rightarrow> bool" where
  "chain nx h [] \<longleftrightarrow> h = NO_BLOCK"
| "chain nx h (b # bs) \<longleftrightarrow> h = b \<and> b < length nx \<and> chain nx (nx ! b) bs"

lemma chain_less: "chain nx h bs \<Longrightarrow> b \<in> set bs \<Longrightarrow> b < length nx"
  by (induction bs arbitrary: h) auto

lemma chain_update: "i \<notin> set bs \<Longrightarrow> chain (nx[i := v]) h bs = chain nx h bs"
  by (induction bs arbitrary: h) auto

lemma chain_snoc:
  assumes "chain nx h bs" and "bs \<noteq> []" and "distinct bs"
    and "b \<notin> set bs" and "b < length nx"
  shows "chain ((nx[b := NO_BLOCK])[last bs := b]) h (bs @ [b])"
  using assms
proof (induction bs arbitrary: h)
  case (Cons x xs)
  show ?case
  proof (cases "xs = []")
    case True
    with Cons.prems show ?thesis by auto
  next
    case False
    then have "last xs \<noteq> x" using Cons.prems(3) by (metis distinct.simps(2) last_in_set)
    with False Cons show ?thesis by (auto simp: nth_list_update)
  qed
qed simp

section \<open>The core invariant\<close>

text \<open>
  \<open>pool_core p ch hds\<close>: slot \<open>s\<close> has the chain \<open>ch s\<close> that starts at \<open>hds s\<close>; the owner table
  makes the chains disjoint; the free map marks their blocks, and the free count counts the
  others.
\<close>

definition pool_core :: "audio_pool \<Rightarrow> (nat \<Rightarrow> nat list) \<Rightarrow> (nat \<Rightarrow> nat) \<Rightarrow> bool" where
  "pool_core p ch hds \<longleftrightarrow>
     bs_inv (ap_used_map p) \<and> bs_nbits (ap_used_map p) = ap_block_count p \<and>
     ap_block_count p < NO_BLOCK \<and>
     length (ap_owner p) = ap_block_count p \<and> length (ap_next p) = ap_block_count p \<and>
     (\<forall>s. chain (ap_next p) (hds s) (ch s)) \<and> (\<forall>s. distinct (ch s)) \<and>
     (\<forall>s. \<forall>b \<in> set (ch s). ap_owner p ! b = s) \<and>
     (\<forall>b. bitset_test (ap_used_map p) b \<longleftrightarrow> (\<exists>s. b \<in> set (ch s))) \<and>
     ap_free_blocks p =
       card {b. b < bs_nbits (ap_used_map p) \<and> \<not> bitset_test (ap_used_map p) b}"

lemma pool_core_used_less: "pool_core p ch hds \<Longrightarrow> b \<in> set (ch s) \<Longrightarrow> b < ap_block_count p"
  unfolding pool_core_def using bsm.used_less by metis

text \<open>What chain surgery leaves alone.\<close>

definition frame :: "audio_pool \<Rightarrow> audio_pool \<Rightarrow> bool" where
  "frame p p' \<longleftrightarrow> ap_region p' = ap_region p \<and> ap_region_size p' = ap_region_size p \<and>
     ap_block_size p' = ap_block_size p \<and> ap_block_count p' = ap_block_count p \<and>
     ap_objects p' = ap_objects p \<and> ap_generations p' = ap_generations p"

lemma frame_refl [simp]: "frame p p" by (simp add: frame_def)

lemma frame_trans: "frame p q \<Longrightarrow> frame q r \<Longrightarrow> frame p r" by (simp add: frame_def)

lemma frame_free_one [simp]: "frame p (free_one_block p b)"
  by (simp add: frame_def free_one_block_def Let_def)

text \<open>Releasing the first block of a chain.\<close>

lemma free_one_core:
  assumes core: "pool_core p (ch(s := b # bs)) (hds(s := b))"
  shows "pool_core (free_one_block p b) (ch(s := bs)) (hds(s := ap_next p ! b))"
    and "ap_free_blocks (free_one_block p b) = ap_free_blocks p + 1"
proof -
  let ?m = "ap_used_map p" and ?ch = "ch(s := b # bs)" and ?p = "free_one_block p b"
  have ok: "bs_inv ?m" and nb: "bs_nbits ?m = ap_block_count p" and nx: "length (ap_next p) = ap_block_count p"
    and own: "\<And>t x. x \<in> set (?ch t) \<Longrightarrow> ap_owner p ! x = t"
    and ch: "\<And>t. chain (ap_next p) ((hds(s := b)) t) (?ch t)"
    and d: "\<And>t. distinct (?ch t)"
    and us: "\<And>x. bitset_test ?m x \<longleftrightarrow> (\<exists>t. x \<in> set (?ch t))"
    and fr: "ap_free_blocks p = card {x. x < bs_nbits ?m \<and> \<not> bitset_test ?m x}"
    and big: "ap_block_count p < NO_BLOCK" and lo: "length (ap_owner p) = ap_block_count p"
    using core unfolding pool_core_def by blast+
  have used: "bitset_test ?m b" using us [of b] by (metis fun_upd_same list.set_intros(1))
  then have lt: "b < ap_block_count p" using bsm.used_less nb by metis
  have p': "ap_used_map ?p = bitset_clear ?m b" "ap_free_blocks ?p = ap_free_blocks p + 1"
    "ap_owner ?p = (ap_owner p)[b := NO_BLOCK]" "ap_next ?p = (ap_next p)[b := NO_BLOCK]"
    "ap_block_count ?p = ap_block_count p"
    using lt used by (simp_all add: free_one_block_def Let_def)
  show "ap_free_blocks ?p = ap_free_blocks p + 1" by (rule p'(2))
  have other: "b \<notin> set ((ch(s := bs)) t)" for t
    using own [of b t] own [of b s] d [of s] by (cases "t = s") auto
  have "chain (ap_next ?p) ((hds(s := ap_next p ! b)) t) ((ch(s := bs)) t)" for t
    using ch [of t] ch [of s] other [of t] unfolding p'
    by (cases "t = s") (auto simp: chain_update)
  moreover have "distinct ((ch(s := bs)) t)" for t
    using d [of t] d [of s] by auto
  moreover have "ap_owner ?p ! x = t" if "x \<in> set ((ch(s := bs)) t)" for x t
    using own [of x t] that other [of t] unfolding p' by (cases "x = b") (auto split: if_splits)
  moreover have "bitset_test (ap_used_map ?p) x \<longleftrightarrow> (\<exists>t. x \<in> set ((ch(s := bs)) t))" for x
  proof (cases "x = b")
    case True
    then show ?thesis using other unfolding p' by (simp add: bsm.used_unmark [OF ok lt [folded nb]])
  next
    case False
    then have "x \<in> set (?ch t) \<longleftrightarrow> x \<in> set ((ch(s := bs)) t)" for t by auto
    then show ?thesis using False us [of x] unfolding p'
      by (simp add: bsm.used_unmark [OF ok lt [folded nb]])
  qed
  ultimately show "pool_core ?p (ch(s := bs)) (hds(s := ap_next p ! b))"
    using ok nb nx big lo fr bsm.card_free_unmark [OF ok used]
    unfolding pool_core_def p' by (auto simp: bsm.ok_unmark)
qed

text \<open>\<^verbatim>\<open>free_chain\<close> gives back a whole chain.\<close>

lemma free_chain_core:
  assumes "pool_core p (ch(s := bs)) (hds(s := h))"
  shows "pool_core (free_chain p h) (ch(s := [])) (hds(s := NO_BLOCK)) \<and>
         ap_free_blocks (free_chain p h) = ap_free_blocks p + length bs \<and> frame p (free_chain p h)"
  using assms
proof (induction bs arbitrary: p h)
  case Nil
  then have "h = NO_BLOCK" unfolding pool_core_def by (metis chain.simps(1) fun_upd_same)
  with Nil show ?case by (simp add: free_chain.simps)
next
  case (Cons b bs)
  have "chain (ap_next p) h (b # bs)"
    using Cons.prems unfolding pool_core_def by (metis fun_upd_same)
  then have h: "h = b" and len: "b < length (ap_next p)" and tl: "chain (ap_next p) (ap_next p ! b) bs"
    by simp_all
  have lt: "b < ap_block_count p" "b \<noteq> NO_BLOCK"
    using len Cons.prems by (auto simp: pool_core_def)
  note step = free_one_core [OF Cons.prems [unfolded h]]
  note IH = Cons.IH [OF step(1)]
  show ?case
  proof (cases "ap_next p ! b = NO_BLOCK")
    case True
    then have "bs = []" using tl len by (cases bs) (use Cons.prems in \<open>auto simp: pool_core_def\<close>)
    moreover have "free_chain p h = free_one_block p b"
      using True lt len h by (subst free_chain.simps) (simp add: Let_def)
    ultimately show ?thesis using True step by (simp add: fun_upd_def)
  next
    case False
    then have "free_chain p h = free_chain (free_one_block p b) (ap_next p ! b)"
      using lt len h by (subst free_chain.simps) (simp add: Let_def)
    then show ?thesis
      using IH step(2) frame_trans [OF frame_free_one] by auto
  qed
qed

section \<open>Building a chain\<close>

lemma alloc_one_block_core:
  assumes core: "pool_core p ch hds" and free: "0 < ap_free_blocks p"
  obtains b m where
    "alloc_one_block p = (b, p\<lparr>ap_used_map := m, ap_free_blocks := ap_free_blocks p - 1\<rparr>)"
    and "b < ap_block_count p" and "\<not> bitset_test (ap_used_map p) b"
    and "bs_inv m" and "bs_nbits m = ap_block_count p"
    and "\<And>x. bitset_test m x \<longleftrightarrow> x = b \<or> bitset_test (ap_used_map p) x"
    and "ap_free_blocks p = card {x. x < bs_nbits m \<and> \<not> bitset_test m x} + 1"
proof -
  let ?m = "ap_used_map p"
  have ok: "bs_inv ?m" and nb: "bs_nbits ?m = ap_block_count p"
    and fr: "ap_free_blocks p = card {x. x < bs_nbits ?m \<and> \<not> bitset_test ?m x}"
    using core unfolding pool_core_def by blast+
  obtain b where b: "fst (bitset_find_first_clear ?m) = Some b"
    using bsm.find_succeeds [OF ok] free fr by metis
  define m0 where "m0 = snd (bitset_find_first_clear ?m)"
  have ok0: "bs_inv m0" and nb0: "bs_nbits m0 = ap_block_count p"
    and t0: "\<And>x. bitset_test m0 x = bitset_test ?m x"
    unfolding m0_def using bsm.ok_find [OF ok] bsm.slots_find [of ?m] nb bsm.used_find [OF ok]
    by simp_all
  have lt: "b < ap_block_count p" and clear: "\<not> bitset_test ?m b"
    using bsm.find_Some [OF ok b] nb by simp_all
  have "bitset_find_first_clear ?m = (Some b, m0)"
    using b unfolding m0_def by (metis prod.collapse)
  then have "alloc_one_block p =
      (b, p\<lparr>ap_used_map := bitset_set m0 b, ap_free_blocks := ap_free_blocks p - 1\<rparr>)"
    using free by (simp add: alloc_one_block_def)
  moreover have "card {x. x < bs_nbits (bitset_set m0 b) \<and> \<not> bitset_test (bitset_set m0 b) x} + 1 =
      ap_free_blocks p"
    using bsm.card_free_mark [OF ok0, of b] lt clear nb0 nb t0 fr by simp
  ultimately show ?thesis
    using lt clear bsm.ok_mark [OF ok0] bsm.slots_mark [of m0 b] nb0
      bsm.used_mark [OF ok0, of b] t0
    by (intro that [of b "bitset_set m0 b"]) simp_all
qed

text \<open>One pass of the allocation loop: the chain of the slot grows by one block.\<close>

definition chain_end :: "nat list \<Rightarrow> nat" where
  "chain_end bs = (if bs = [] then NO_BLOCK else last bs)"

lemma chain_end_Nil [simp]: "chain_end [] = NO_BLOCK"
  by (simp add: chain_end_def)

definition link_block :: "audio_pool \<Rightarrow> nat \<Rightarrow> nat \<Rightarrow> nat \<Rightarrow> audio_pool" where
  "link_block p slot prev b =
     (let p2 = p\<lparr>ap_owner := (ap_owner p)[b := slot], ap_next := (ap_next p)[b := NO_BLOCK]\<rparr>
      in if prev = NO_BLOCK then p2 else p2\<lparr>ap_next := (ap_next p2)[prev := b]\<rparr>)"

lemma link_block_sel [simp]:
  "ap_used_map (link_block p slot prev b) = ap_used_map p"
  "ap_free_blocks (link_block p slot prev b) = ap_free_blocks p"
  "ap_block_count (link_block p slot prev b) = ap_block_count p"
  "ap_owner (link_block p slot prev b) = (ap_owner p)[b := slot]"
  "frame q (link_block p slot prev b) = frame q p"
  by (simp_all add: link_block_def Let_def frame_def)

lemma alloc_loop_Suc:
  assumes "alloc_one_block p = (b, p1)" and "b \<noteq> NO_BLOCK"
  shows "alloc_loop (Suc n) slot head prev p =
         alloc_loop n slot (if prev = NO_BLOCK then b else head) b (link_block p1 slot prev b)"
  using assms by (simp add: link_block_def Let_def)

lemma alloc_step_core:
  assumes core: "pool_core p (ch(slot := bs)) (hds(slot := h))" and free: "0 < ap_free_blocks p"
  obtains b p1 where
    "alloc_one_block p = (b, p1)" and "b \<noteq> NO_BLOCK" and "frame p p1"
    and "ap_free_blocks p1 + 1 = ap_free_blocks p"
    and "pool_core (link_block p1 slot (chain_end bs) b) (ch(slot := bs @ [b]))
           (hds(slot := if chain_end bs = NO_BLOCK then b else h))"
proof -
  let ?ch = "ch(slot := bs)" and ?hds = "hds(slot := h)"
  obtain b m where one:
    "alloc_one_block p = (b, p\<lparr>ap_used_map := m, ap_free_blocks := ap_free_blocks p - 1\<rparr>)"
    and lt: "b < ap_block_count p" and clear: "\<not> bitset_test (ap_used_map p) b"
    and m: "bs_inv m" "bs_nbits m = ap_block_count p"
      "\<And>x. bitset_test m x \<longleftrightarrow> x = b \<or> bitset_test (ap_used_map p) x"
      "ap_free_blocks p = card {x. x < bs_nbits m \<and> \<not> bitset_test m x} + 1"
    using alloc_one_block_core [OF core free] by blast
  let ?p1 = "p\<lparr>ap_used_map := m, ap_free_blocks := ap_free_blocks p - 1\<rparr>"
  let ?p2 = "link_block ?p1 slot (chain_end bs) b"
  have nx: "length (ap_next p) = ap_block_count p" and lo: "length (ap_owner p) = ap_block_count p"
    and own: "\<And>t x. x \<in> set (?ch t) \<Longrightarrow> ap_owner p ! x = t"
    and ch: "\<And>t. chain (ap_next p) (?hds t) (?ch t)" and d: "\<And>t. distinct (?ch t)"
    and us: "\<And>x. bitset_test (ap_used_map p) x \<longleftrightarrow> (\<exists>t. x \<in> set (?ch t))"
    and big: "ap_block_count p < NO_BLOCK"
    using core unfolding pool_core_def by blast+
  have b_new: "b \<notin> set (?ch t)" for t using us [of b] clear by blast
  have bs_lt: "x < ap_block_count p" if "x \<in> set bs" for x
    using pool_core_used_less [OF core, of x slot] that by simp
  have end_no: "chain_end bs = NO_BLOCK \<longleftrightarrow> bs = []"
    using bs_lt [OF last_in_set] big by (auto simp: chain_end_def)
  let ?h = "if chain_end bs = NO_BLOCK then b else h"
  let ?ch' = "ch(slot := bs @ [b])" and ?hds' = "hds(slot := ?h)"
  have "chain (ap_next ?p2) (?hds' t) (?ch' t)" for t
  proof (cases "t = slot")
    case True
    show ?thesis
    proof (cases "bs = []")
      case True
      with \<open>t = slot\<close> lt nx show ?thesis by (simp add: end_no link_block_def)
    next
      case False
      then have "ap_next ?p2 = (ap_next p)[b := NO_BLOCK, last bs := b]"
        by (simp add: link_block_def end_no Let_def) (simp add: chain_end_def)
      with \<open>t = slot\<close> False lt nx ch [of slot] d [of slot] b_new [of slot] show ?thesis
        by (simp add: end_no chain_snoc)
    qed
  next
    case False
    have "chain_end bs \<notin> set (ch t)" if "bs \<noteq> []"
      using own [of "last bs" t] own [of "last bs" slot] False that by (auto simp: chain_end_def)
    with False ch [of t] b_new [of t] show ?thesis
      by (auto simp: link_block_def Let_def chain_update end_no)
  qed
  moreover have "distinct (?ch' t)" for t
    using d [of t] d [of slot] b_new [of slot] by auto
  moreover have "ap_owner ?p2 ! x = t" if "x \<in> set (?ch' t)" for x t
    using own [of x t] that b_new [of t] lt lo by (cases "x = b") (auto split: if_splits)
  moreover have "bitset_test m x \<longleftrightarrow> (\<exists>t. x \<in> set (?ch' t))" for x
  proof (cases "x = b")
    case True
    then have "x \<in> set (?ch' slot)" by simp
    with True show ?thesis unfolding m(3) by blast
  next
    case False
    then have "x \<in> set (?ch t) \<longleftrightarrow> x \<in> set (?ch' t)" for t by auto
    then show ?thesis using False us [of x] m(3) by simp
  qed
  ultimately have "pool_core ?p2 ?ch' ?hds'"
    using m(1,2,4) nx lo big unfolding pool_core_def
    by (auto simp: link_block_def Let_def)
  moreover have "b \<noteq> NO_BLOCK" using lt big by simp
  ultimately show ?thesis
    using one free by (intro that [of b ?p1]) (simp_all add: frame_def)
qed

lemma alloc_loop_core:
  assumes "pool_core p (ch(slot := bs)) (hds(slot := h))" and "n \<le> ap_free_blocks p"
  shows "\<exists>h' p' bs'. alloc_loop n slot h (chain_end bs) p = Inr (h', p') \<and> length bs' = n \<and>
           pool_core p' (ch(slot := bs @ bs')) (hds(slot := h')) \<and> frame p p' \<and>
           ap_free_blocks p' + n = ap_free_blocks p"
  using assms
proof (induction n arbitrary: p bs h)
  case 0
  then show ?case by (intro exI [of _ h] exI [of _ p] exI [of _ "[]"]) simp
next
  case (Suc n)
  then have "0 < ap_free_blocks p" by simp
  from alloc_step_core [OF Suc.prems(1) this] obtain b p1 where
    one: "alloc_one_block p = (b, p1)" "b \<noteq> NO_BLOCK" and fr: "frame p p1"
    and cnt: "ap_free_blocks p1 + 1 = ap_free_blocks p"
    and core: "pool_core (link_block p1 slot (chain_end bs) b) (ch(slot := bs @ [b]))
           (hds(slot := if chain_end bs = NO_BLOCK then b else h))" .
  have "chain_end (bs @ [b]) = b" by (simp add: chain_end_def)
  moreover have "n \<le> ap_free_blocks (link_block p1 slot (chain_end bs) b)"
    using cnt Suc.prems(2) by simp
  ultimately obtain h' p' bs' where
    rest: "alloc_loop n slot (if chain_end bs = NO_BLOCK then b else h) b
             (link_block p1 slot (chain_end bs) b) = Inr (h', p')" "length bs' = n"
      "pool_core p' (ch(slot := (bs @ [b]) @ bs')) (hds(slot := h'))"
      "frame (link_block p1 slot (chain_end bs) b) p'"
      "ap_free_blocks p' + n = ap_free_blocks (link_block p1 slot (chain_end bs) b)"
    using Suc.IH [OF core] by metis
  have "frame p p'"
    using fr rest(4) by (intro frame_trans [OF _ rest(4)]) simp
  with rest cnt show ?case
    unfolding alloc_loop_Suc [OF one]
    by (intro exI [of _ h'] exI [of _ p'] exI [of _ "b # bs'"]) (simp add: fun_upd_def)
qed

end
