(* ===== verification/Refcounted.thy ===== *)
theory Refcounted
  imports HXBase
begin

text \<open>
  The contract of a store of reference-counted objects: \<open>refs s h\<close> is the number of
  references to the object of handle \<open>h\<close>, 0 for a handle that is not valid.  The block pool
  provides it; the track arbiter takes one reference per playing voice and relies on it.
\<close>

locale refcounted =
  fixes ok :: "'s \<Rightarrow> bool"
    and refs :: "'s \<Rightarrow> 'h \<Rightarrow> int"
    and valid :: "'s \<Rightarrow> 'h \<Rightarrow> bool"
    and ref :: "'s \<Rightarrow> 'h \<Rightarrow> 's"
    and unref :: "'s \<Rightarrow> 'h \<Rightarrow> 's"
    and limit :: int
  assumes valid_iff: "ok s \<Longrightarrow> valid s h \<longleftrightarrow> 0 < refs s h"
    and refs_nonneg: "ok s \<Longrightarrow> 0 \<le> refs s h"
    and ok_ref: "ok s \<Longrightarrow> refs s h < limit \<Longrightarrow> ok (ref s h)"
    and refs_ref: "ok s \<Longrightarrow> valid s h \<Longrightarrow> refs s h < limit \<Longrightarrow>
          refs (ref s h) h' = refs s h' + (if h' = h then 1 else 0)"
    and ok_unref: "ok s \<Longrightarrow> ok (unref s h)"
    and refs_unref: "ok s \<Longrightarrow> valid s h \<Longrightarrow>
          refs (unref s h) h' = refs s h' - (if h' = h then 1 else 0)"
begin

text \<open>
  A reference taken by one client is not lost by what another client does: as long as the
  others drop only references of their own, the object stays valid.
\<close>

lemma valid_after_unref:
  "ok s \<Longrightarrow> valid s h \<Longrightarrow> h \<noteq> h' \<or> 1 < refs s h \<Longrightarrow> valid s h' \<Longrightarrow> valid (unref s h') h"
  using valid_iff [of s h] valid_iff [OF ok_unref, of s h' h] refs_unref [of s h' h] by auto

lemma ref_unref_refs:
  assumes "ok s" and "valid s h" and "refs s h < limit"
  shows "refs (unref (ref s h) h) h' = refs s h'"
proof -
  have "valid (ref s h) h"
    using valid_iff [OF ok_ref, of s h h] refs_ref [of s h h] valid_iff [of s h] assms by simp
  with assms show ?thesis by (simp add: refs_unref ok_ref refs_ref)
qed

lemma ref_keeps_valid:
  "ok s \<Longrightarrow> valid s h \<Longrightarrow> refs s h < limit \<Longrightarrow> valid s h' \<Longrightarrow> valid (ref s h) h'"
  using valid_iff [of s h'] valid_iff [OF ok_ref, of s h h'] refs_ref [of s h h'] by auto

end

end
