(* ===== verification/Audio_Pool_Ops.thy ===== *)
theory Audio_Pool_Ops
  imports Audio_Pool_Inv Refcounted
begin

text \<open>
  The operations of the block pool keep its invariant and count references as promised: a
  handle stays valid exactly as long as its reference count is positive, and the blocks of
  an object return to the free map with its last reference.
\<close>

section \<open>The invariant with the object table\<close>

definition pool_heads :: "audio_pool \<Rightarrow> nat \<Rightarrow> nat" where
  "pool_heads p s =
     (if s < length (ap_objects p) \<and> ob_in_use (ap_objects p ! s)
      then ob_head_block (ap_objects p ! s) else NO_BLOCK)"

definition object_ok :: "audio_pool \<Rightarrow> nat list \<Rightarrow> nat \<Rightarrow> bool" where
  "object_ok p bs s \<longleftrightarrow>
     (let obj = ap_objects p ! s
      in length bs = ob_nblocks obj \<and> 0 < ob_nblocks obj \<and>
         ob_size obj \<le> ob_nblocks obj * ap_block_size p \<and>
         0 < ob_refcount obj \<and> ob_refcount obj \<le> 2147483647 \<and>
         ob_generation obj = ap_generations p ! s)"

definition pool_inv :: "audio_pool \<Rightarrow> (nat \<Rightarrow> nat list) \<Rightarrow> bool" where
  "pool_inv p ch \<longleftrightarrow>
     pool_core p ch (pool_heads p) \<and> 0 < ap_block_size p \<and>
     length (ap_region p) = ap_region_size p \<and>
     ap_block_count p * ap_block_size p \<le> ap_region_size p \<and>
     length (ap_objects p) < 65536 \<and> length (ap_generations p) = length (ap_objects p) \<and>
     (\<forall>s < length (ap_objects p). ap_generations p ! s \<noteq> 0) \<and>
     (\<forall>s < length (ap_objects p). ob_in_use (ap_objects p ! s) \<longrightarrow> object_ok p (ch s) s)"

definition pool_ok :: "audio_pool \<Rightarrow> bool" where
  "pool_ok p \<longleftrightarrow> (\<exists>ch. pool_inv p ch)"

definition pool_refs :: "audio_pool \<Rightarrow> obj_handle \<Rightarrow> int" where
  "pool_refs p h =
     (case resolve p h of None \<Rightarrow> 0 | Some slot \<Rightarrow> ob_refcount (ap_objects p ! slot))"

lemma pool_inv_chain_free_slot:
  assumes "pool_inv p ch" and "pool_heads p s = NO_BLOCK"
  shows "ch s = []"
proof -
  have "chain (ap_next p) NO_BLOCK (ch s)" "length (ap_next p) < NO_BLOCK"
    using assms unfolding pool_inv_def pool_core_def by metis+
  then show ?thesis by (cases "ch s") auto
qed

lemma resolve_Some:
  "resolve p h = Some s \<longleftrightarrow>
     (\<exists>gen. unpack_handle h = Some (s, gen) \<and> s < length (ap_objects p) \<and>
            ob_in_use (ap_objects p ! s) \<and> ob_generation (ap_objects p ! s) = gen)"
  by (auto simp: resolve_def Let_def split: option.splits prod.splits if_splits)

lemma resolve_pack:
  assumes "s < length (ap_objects p)" and "length (ap_objects p) < 65536"
    and "ob_in_use (ap_objects p ! s)"
  shows "resolve p (pack_handle s (ob_generation (ap_objects p ! s))) = Some s"
  using assms unpack_pack [of s "ob_generation (ap_objects p ! s)"] by (auto simp: resolve_Some)

text \<open>Two valid handles of the same slot are the same handle.\<close>

lemma resolve_inj: "resolve p h = Some s \<Longrightarrow> resolve p h' = Some s \<Longrightarrow> h = h'"
  by (auto simp: resolve_Some dest!: pack_unpack)

text \<open>A change of one object that keeps the use flag and the generation resolves the same.\<close>

lemma resolve_update:
  assumes "ob_in_use x = ob_in_use (ap_objects p ! s)"
    and "ob_generation x = ob_generation (ap_objects p ! s)" and "s < length (ap_objects p)"
  shows "resolve (p\<lparr>ap_objects := (ap_objects p)[s := x]\<rparr>) h = resolve p h"
  using assms by (auto simp: resolve_def Let_def nth_list_update split: option.splits)

lemma resolve_object:
  assumes "pool_inv p ch" and "resolve p h = Some s"
  shows "s < length (ap_objects p)" and "ob_in_use (ap_objects p ! s)" and "object_ok p (ch s) s"
  using assms by (auto simp: resolve_Some pool_inv_def)

lemma pool_refs_resolve:
  assumes "pool_inv p ch" and "resolve p h = Some s"
  shows "0 < pool_refs p h" and "pool_refs p h \<le> 2147483647"
    and "pool_refs p h = ob_refcount (ap_objects p ! s)"
  using resolve_object(3) [OF assms] assms(2) by (simp_all add: pool_refs_def object_ok_def Let_def)

lemma pool_refs_None [simp]: "resolve p h = None \<Longrightarrow> pool_refs p h = 0"
  by (simp add: pool_refs_def)

lemma pool_refs_nonneg: "pool_inv p ch \<Longrightarrow> 0 \<le> pool_refs p h"
  using pool_refs_resolve(1) [of p ch h] by (cases "resolve p h") auto

lemma pool_refs_pos_iff: "pool_inv p ch \<Longrightarrow> 0 < pool_refs p h \<longleftrightarrow> audio_pool_handle_valid p h"
  using pool_refs_resolve(1) [of p ch h]
  by (cases "resolve p h") (auto simp: audio_pool_handle_valid_def)

section \<open>References\<close>

lemma pool_heads_update:
  assumes "ob_in_use x = ob_in_use (ap_objects p ! s)"
    and "ob_head_block x = ob_head_block (ap_objects p ! s)"
  shows "pool_heads (p\<lparr>ap_objects := (ap_objects p)[s := x]\<rparr>) = pool_heads p"
  using assms
  by (intro ext, cases "s < length (ap_objects p)") (auto simp: pool_heads_def nth_list_update)

lemma pool_core_objects [simp]:
  "pool_core (p\<lparr>ap_objects := os\<rparr>) ch hds = pool_core p ch hds"
  "pool_core (p\<lparr>ap_generations := gs\<rparr>) ch hds = pool_core p ch hds"
  "pool_core (p\<lparr>ap_region := r\<rparr>) ch hds = pool_core p ch hds"
  by (simp_all add: pool_core_def)

lemma add_refcount_inv:
  assumes inv: "pool_inv p ch" and s: "s < length (ap_objects p)" "ob_in_use (ap_objects p ! s)"
    and rng: "0 < ob_refcount (ap_objects p ! s) + d" "ob_refcount (ap_objects p ! s) + d \<le> 2147483647"
  shows "pool_inv (add_refcount p s d) ch"
  using assms pool_heads_update [of "(ap_objects p ! s)\<lparr>ob_refcount := _\<rparr>" p s]
  by (auto simp: pool_inv_def add_refcount_def object_ok_def Let_def nth_list_update)

lemma add_refcount_refs:
  assumes "s < length (ap_objects p)" and "resolve p h = Some s"
    and "- 2147483648 \<le> ob_refcount (ap_objects p ! s) + d"
    and "ob_refcount (ap_objects p ! s) + d \<le> 2147483647"
  shows "pool_refs (add_refcount p s d) h' = pool_refs p h' + (if h' = h then d else 0)"
proof -
  have r: "resolve (add_refcount p s d) h' = resolve p h'"
    unfolding add_refcount_def using assms(1) by (intro resolve_update) simp_all
  show ?thesis
  proof (cases "resolve p h'")
    case None
    with r assms(2) show ?thesis by (auto simp: pool_refs_def)
  next
    case (Some t)
    then have "t = s \<longleftrightarrow> h' = h" using assms(2) resolve_inj by auto
    with Some r assms show ?thesis
      by (auto simp: pool_refs_def add_refcount_def nth_list_update)
  qed
qed

lemma audio_pool_ref_inv:
  assumes "pool_inv p ch" and "pool_refs p h < 2147483647"
  shows "pool_inv (snd (audio_pool_ref p h)) ch"
proof (cases "resolve p h")
  case None
  with assms show ?thesis by (simp add: audio_pool_ref_def)
next
  case (Some s)
  then have s: "s < length (ap_objects p)" "ob_in_use (ap_objects p ! s)"
    by (auto simp: resolve_Some)
  then have "0 < ob_refcount (ap_objects p ! s)"
    using assms(1) by (simp add: pool_inv_def object_ok_def Let_def)
  then show ?thesis
    using Some assms s by (simp add: audio_pool_ref_def add_refcount_inv pool_refs_def)
qed

lemma audio_pool_ref_refs:
  assumes "pool_inv p ch" and "audio_pool_handle_valid p h" and "pool_refs p h < 2147483647"
  shows "pool_refs (snd (audio_pool_ref p h)) h' = pool_refs p h' + (if h' = h then 1 else 0)"
proof -
  obtain s where s: "resolve p h = Some s" using assms(2) by (auto simp: audio_pool_handle_valid_def)
  have "pool_refs (add_refcount p s 1) h' = pool_refs p h' + (if h' = h then 1 else 0)"
    using pool_refs_resolve [OF assms(1) s] assms(3)
    by (intro add_refcount_refs resolve_object(1) [OF assms(1) s] s) simp_all
  with s show ?thesis by (simp add: audio_pool_ref_def)
qed

section \<open>Releasing an object\<close>

lemma free_object_ok:
  assumes inv: "pool_core p ch (pool_heads p)" "0 < ap_block_size p"
      "length (ap_region p) = ap_region_size p"
      "ap_block_count p * ap_block_size p \<le> ap_region_size p"
      "length (ap_objects p) < 65536" "length (ap_generations p) = length (ap_objects p)"
      "\<forall>t < length (ap_objects p). ap_generations p ! t \<noteq> 0"
      "\<forall>t < length (ap_objects p). t \<noteq> s \<longrightarrow> ob_in_use (ap_objects p ! t) \<longrightarrow> object_ok p (ch t) t"
    and s: "s < length (ap_objects p)" "ob_in_use (ap_objects p ! s)"
  shows "pool_inv (free_object p s) (ch(s := []))"
    and "ap_free_blocks (free_object p s) = ap_free_blocks p + length (ch s)"
    and "resolve (free_object p s) h = (if resolve p h = Some s then None else resolve p h)"
    and "t \<noteq> s \<Longrightarrow> ap_objects (free_object p s) ! t = ap_objects p ! t"
proof -
  let ?h = "ob_head_block (ap_objects p ! s)" and ?q = "free_chain p (ob_head_block (ap_objects p ! s))"
  have "pool_core p (ch(s := ch s)) ((pool_heads p)(s := ?h))"
    using inv(1) s by (simp add: pool_heads_def fun_upd_idem)
  note fc = free_chain_core [OF this]
  have fr: "frame p ?q" and cnt: "ap_free_blocks ?q = ap_free_blocks p + length (ch s)"
    and core: "pool_core ?q (ch(s := [])) ((pool_heads p)(s := NO_BLOCK))"
    using fc by blast+
  have f: "ap_objects (free_object p s) = (ap_objects p)[s := object_zero\<lparr>ob_head_block := NO_BLOCK\<rparr>]"
    "ap_generations (free_object p s) = (ap_generations p)[s := bump_generation (ap_generations p ! s)]"
    "ap_free_blocks (free_object p s) = ap_free_blocks p + length (ch s)"
    "ap_block_size (free_object p s) = ap_block_size p" "ap_region (free_object p s) = ap_region p"
    "ap_region_size (free_object p s) = ap_region_size p"
    "ap_block_count (free_object p s) = ap_block_count p"
    using fr cnt by (simp_all add: free_object_def Let_def frame_def)
  show "ap_free_blocks (free_object p s) = ap_free_blocks p + length (ch s)" by (rule f(3))
  show "t \<noteq> s \<Longrightarrow> ap_objects (free_object p s) ! t = ap_objects p ! t" by (simp add: f)
  show "resolve (free_object p s) h = (if resolve p h = Some s then None else resolve p h)"
    using s by (auto simp: resolve_def Let_def f nth_list_update object_zero_def split: option.splits)
  have hds: "pool_heads (free_object p s) = (pool_heads p)(s := NO_BLOCK)"
    by (intro ext) (auto simp: pool_heads_def f nth_list_update object_zero_def)
  have "pool_core (free_object p s) (ch(s := [])) (pool_heads (free_object p s))"
    unfolding hds using core by (simp add: free_object_def Let_def)
  moreover have "bump_generation g \<noteq> 0" for g by (simp add: bump_generation_def)
  ultimately show "pool_inv (free_object p s) (ch(s := []))"
    using inv(2-7) inv(8) s unfolding pool_inv_def f object_ok_def Let_def
    by (auto simp: nth_list_update object_zero_def)
qed

lemma drop_ref_spec:
  assumes inv: "pool_inv p ch" and s: "resolve p h = Some s"
  shows "pool_inv (snd (drop_ref p s)) (if pool_refs p h = 1 then ch(s := []) else ch)"
    and "pool_refs (snd (drop_ref p s)) h' = pool_refs p h' - (if h' = h then 1 else 0)"
    and "fst (drop_ref p s) \<longleftrightarrow> pool_refs p h = 1"
    and "ap_free_blocks (snd (drop_ref p s)) =
         ap_free_blocks p + (if pool_refs p h = 1 then ob_nblocks (ap_objects p ! s) else 0)"
    and "length (ap_objects (snd (drop_ref p s))) = length (ap_objects p)"
    and "t \<noteq> s \<Longrightarrow> ap_objects (snd (drop_ref p s)) ! t = ap_objects p ! t"
proof -
  let ?q = "add_refcount p s (- 1)" and ?rc = "ob_refcount (ap_objects p ! s)"
  have sl: "s < length (ap_objects p)" and su: "ob_in_use (ap_objects p ! s)"
    using s by (auto simp: resolve_Some)
  have ok: "object_ok p (ch s) s" using inv sl su by (simp add: pool_inv_def)
  then have rc: "0 < ?rc" "?rc \<le> 2147483647" by (simp_all add: object_ok_def Let_def)
  have prc: "pool_refs p h = ?rc" using s by (simp add: pool_refs_def)
  have q: "ap_objects ?q ! t = (if t = s then (ap_objects p ! s)\<lparr>ob_refcount := ?rc - 1\<rparr>
             else ap_objects p ! t)" for t
    using sl rc by (simp add: add_refcount_def nth_list_update)
  have ql: "length (ap_objects ?q) = length (ap_objects p)" "ap_free_blocks ?q = ap_free_blocks p"
    by (simp_all add: add_refcount_def)
  have qr: "resolve ?q h'' = resolve p h''" for h''
    unfolding add_refcount_def using sl by (intro resolve_update) simp_all
  have refs_q: "pool_refs ?q h'' = pool_refs p h'' + (if h'' = h then - 1 else 0)" for h''
    using rc by (intro add_refcount_refs [OF sl s]) simp_all
  have fst: "fst (drop_ref p s) \<longleftrightarrow> ?rc = 1" using rc by (auto simp: drop_ref_def Let_def q)
  then show "fst (drop_ref p s) \<longleftrightarrow> pool_refs p h = 1" using prc by simp
  have "pool_inv (snd (drop_ref p s)) (if pool_refs p h = 1 then ch(s := []) else ch) \<and>
    pool_refs (snd (drop_ref p s)) h' = pool_refs p h' - (if h' = h then 1 else 0) \<and>
    ap_free_blocks (snd (drop_ref p s)) =
      ap_free_blocks p + (if pool_refs p h = 1 then ob_nblocks (ap_objects p ! s) else 0) \<and>
    length (ap_objects (snd (drop_ref p s))) = length (ap_objects p) \<and>
    (t \<noteq> s \<longrightarrow> ap_objects (snd (drop_ref p s)) ! t = ap_objects p ! t)"
  proof (cases "?rc = 1")
    case False
    then have "snd (drop_ref p s) = ?q" using rc by (simp add: drop_ref_def Let_def q)
    then show ?thesis
      using add_refcount_inv [OF inv sl su, of "- 1"] False rc refs_q prc q ql by auto
  next
    case True
    then have d: "snd (drop_ref p s) = free_object ?q s" by (simp add: drop_ref_def Let_def q)
    have heads: "pool_heads ?q = pool_heads p"
      unfolding add_refcount_def by (intro pool_heads_update) simp_all
    have "pool_core ?q ch (pool_heads ?q)"
      unfolding heads using inv by (simp add: pool_inv_def add_refcount_def)
    moreover have "\<forall>t < length (ap_objects ?q). t \<noteq> s \<longrightarrow> ob_in_use (ap_objects ?q ! t) \<longrightarrow>
        object_ok ?q (ch t) t"
      using inv unfolding pool_inv_def ql
      by (auto simp: object_ok_def Let_def q) (simp_all add: add_refcount_def)
    ultimately have fo: "pool_inv (free_object ?q s) (ch(s := []))"
      "ap_free_blocks (free_object ?q s) = ap_free_blocks ?q + length (ch s)"
      "\<And>h. resolve (free_object ?q s) h = (if resolve ?q h = Some s then None else resolve ?q h)"
      "\<And>t. t \<noteq> s \<Longrightarrow> ap_objects (free_object ?q s) ! t = ap_objects ?q ! t"
      using inv sl su free_object_ok [of ?q ch s]
      unfolding pool_inv_def ql by (simp_all add: q add_refcount_def)
    have "pool_refs (free_object ?q s) h' = pool_refs p h' - (if h' = h then 1 else 0)"
    proof (cases "resolve p h' = Some s")
      case res: True
      then have "h' = h" using s by (rule resolve_inj)
      with res True show ?thesis by (simp add: pool_refs_def fo(3) qr)
    next
      case False
      then have "h' \<noteq> h" using s by auto
      with False show ?thesis
        by (auto simp: pool_refs_def fo(3) qr fo(4) q split: option.splits)
    qed
    moreover have "length (ap_objects (free_object ?q s)) = length (ap_objects p)"
    proof -
      have "pool_core ?q (ch(s := ch s)) ((pool_heads ?q)(s := ob_head_block (ap_objects ?q ! s)))"
        using \<open>pool_core ?q ch (pool_heads ?q)\<close> sl su by (simp add: pool_heads_def q ql fun_upd_idem)
      from free_chain_core [OF this] show ?thesis
        by (simp add: free_object_def Let_def frame_def ql)
    qed
    ultimately show ?thesis
      using fo(1,2,4) d True prc ql q ok by (auto simp: object_ok_def Let_def)
  qed
  then show "pool_inv (snd (drop_ref p s)) (if pool_refs p h = 1 then ch(s := []) else ch)"
    and "pool_refs (snd (drop_ref p s)) h' = pool_refs p h' - (if h' = h then 1 else 0)"
    and "ap_free_blocks (snd (drop_ref p s)) =
      ap_free_blocks p + (if pool_refs p h = 1 then ob_nblocks (ap_objects p ! s) else 0)"
    and "length (ap_objects (snd (drop_ref p s))) = length (ap_objects p)"
    and "t \<noteq> s \<Longrightarrow> ap_objects (snd (drop_ref p s)) ! t = ap_objects p ! t" by auto
qed

lemma drop_ref_region:
  assumes "pool_inv p ch" and "resolve p h = Some s"
  shows "ap_region (snd (drop_ref p s)) = ap_region p"
    and "ap_block_size (snd (drop_ref p s)) = ap_block_size p"
proof -
  let ?q = "add_refcount p s (- 1)"
  have sl: "s < length (ap_objects p)" "ob_in_use (ap_objects p ! s)"
    using resolve_object [OF assms] by blast+
  have heads: "pool_heads ?q = pool_heads p"
    unfolding add_refcount_def by (intro pool_heads_update) simp_all
  have "ob_head_block (ap_objects ?q ! s) = pool_heads p s"
    using sl by (simp add: add_refcount_def pool_heads_def)
  then have "pool_core ?q (ch(s := ch s)) ((pool_heads p)(s := ob_head_block (ap_objects ?q ! s)))"
    using assms(1) by (simp add: pool_inv_def add_refcount_def)
  then have "frame ?q (free_chain ?q (ob_head_block (ap_objects ?q ! s)))"
    using free_chain_core by blast
  then show "ap_region (snd (drop_ref p s)) = ap_region p"
    and "ap_block_size (snd (drop_ref p s)) = ap_block_size p"
    by (simp_all add: drop_ref_def Let_def free_object_def frame_def)
      (simp_all add: add_refcount_def)
qed

end
