(* ===== verification/Audio_Pool_Spec.thy ===== *)
theory Audio_Pool_Spec
  imports Audio_Pool_Ops
begin

text \<open>
  What the block pool promises: a fresh pool satisfies the invariant and is empty, an
  allocation succeeds exactly when there is room and yields a handle of its own, releases
  give the blocks back, and the sweep of a dead owner drops one reference of each of its
  objects.  The pool is an instance of the reference-count contract.
\<close>

section \<open>Initialisation\<close>

lemma card_all_free: "card {x. x < n \<and> \<not> P x} = n" if "\<And>x. \<not> P x" for n :: nat
  using that by simp

lemma audio_pool_init_inv:
  assumes "audio_pool_init bsz maxo region mok = (AUDIO_POOL_OK, Some p)"
    and "0 < bsz" and "maxo < 65536" and "length region div bsz < NO_BLOCK"
  shows "pool_inv p (\<lambda>_. [])" and "ap_free_blocks p = length region div bsz"
    and "resolve p h = None"
proof -
  have cnt: "u32 (length region div bsz) = length region div bsz"
    using assms(4) by simp
  let ?n = "length region div bsz"
  define m where "m = bitset_clear_all (bitset_init (replicate (bitset_words ?n) 0) ?n)"
  have p: "p = \<lparr>ap_region = region, ap_region_size = length region, ap_block_size = bsz,
            ap_block_count = ?n, ap_free_blocks = ?n, ap_owner = replicate ?n NO_BLOCK,
            ap_next = replicate ?n NO_BLOCK, ap_used_map = m,
            ap_objects = replicate maxo object_zero, ap_generations = replicate maxo 1\<rparr>"
    using assms(1) cnt by (auto simp: audio_pool_init_def Let_def m_def split: if_splits)
  have ok: "bs_inv m" "bs_nbits m = ?n"
    unfolding m_def by (rule bitset_clear_all_inv) (simp_all add: bitset_init_def bitset_clear_all_def)
  have clear: "\<not> bitset_test m i" for i
    unfolding m_def by (rule bitset_test_clear_all) (simp add: bitset_init_def)
  show "ap_free_blocks p = ?n" by (simp add: p)
  show "resolve p h = None"
    by (auto simp: resolve_def p object_zero_def split: option.split)
  have "pool_heads p = (\<lambda>_. NO_BLOCK)"
    by (intro ext) (simp add: pool_heads_def p object_zero_def)
  then have "pool_core p (\<lambda>_. []) (pool_heads p)"
    using ok clear assms(4) by (simp add: pool_core_def p)
  then show "pool_inv p (\<lambda>_. [])"
    using assms(2,3) by (simp add: pool_inv_def p object_zero_def)
qed

section \<open>Allocation\<close>

lemma find_free_slot_from_spec:
  "find_free_slot_from objs s = (case filter (\<lambda>i. \<not> ob_in_use (objs ! i)) [0..<length objs] of
     [] \<Rightarrow> NO_BLOCK | i # _ \<Rightarrow> s + i)"
proof (induction objs arbitrary: s)
  case (Cons x xs)
  have "filter (\<lambda>i. \<not> ob_in_use ((x # xs) ! i)) [0..<length (x # xs)] =
        (if ob_in_use x then [] else [0]) @
        map Suc (filter (\<lambda>i. \<not> ob_in_use (xs ! i)) [0..<length xs])"
    by (simp add: upt_conv_Cons filter_map comp_def flip: map_Suc_upt del: upt_Suc)
  with Cons.IH [of "s + 1"] show ?case by (simp split: list.split)
qed simp

lemma find_free_slot_spec:
  assumes "length (ap_objects p) < 65536"
  shows "find_free_slot p = NO_BLOCK \<longleftrightarrow> (\<forall>s < length (ap_objects p). ob_in_use (ap_objects p ! s))"
    and "find_free_slot p \<noteq> NO_BLOCK \<Longrightarrow>
           find_free_slot p < length (ap_objects p) \<and> \<not> ob_in_use (ap_objects p ! find_free_slot p)"
proof -
  let ?f = "filter (\<lambda>i. \<not> ob_in_use (ap_objects p ! i)) [0..<length (ap_objects p)]"
  have set: "set ?f = {i. i < length (ap_objects p) \<and> \<not> ob_in_use (ap_objects p ! i)}" by auto
  have "(find_free_slot p = NO_BLOCK \<longleftrightarrow> (\<forall>s < length (ap_objects p). ob_in_use (ap_objects p ! s))) \<and>
    (find_free_slot p \<noteq> NO_BLOCK \<longrightarrow>
           find_free_slot p < length (ap_objects p) \<and> \<not> ob_in_use (ap_objects p ! find_free_slot p))"
  proof (cases ?f)
    case Nil
    then have "\<forall>s < length (ap_objects p). ob_in_use (ap_objects p ! s)"
      using set by (auto simp: filter_empty_conv)
    with Nil show ?thesis by (simp add: find_free_slot_def find_free_slot_from_spec)
  next
    case (Cons i ks)
    then have "i \<in> {i. i < length (ap_objects p) \<and> \<not> ob_in_use (ap_objects p ! i)}"
      using set by (metis list.set_intros(1))
    with Cons assms show ?thesis by (auto simp: find_free_slot_def find_free_slot_from_spec)
  qed
  then show "find_free_slot p = NO_BLOCK \<longleftrightarrow> (\<forall>s < length (ap_objects p). ob_in_use (ap_objects p ! s))"
    and "find_free_slot p \<noteq> NO_BLOCK \<Longrightarrow>
           find_free_slot p < length (ap_objects p) \<and> \<not> ob_in_use (ap_objects p ! find_free_slot p)"
    by blast+
qed

lemma blocks_needed_pos: "0 < blocks_needed p sz"
  by (simp add: blocks_needed_def Let_def)

text \<open>Without wrap-around in the rounding, the blocks asked for hold the whole object.\<close>

lemma blocks_needed_enough:
  assumes "sz + ap_block_size p \<le> 4294967296" and "0 < ap_block_size p"
  shows "sz \<le> blocks_needed p sz * ap_block_size p"
proof -
  let ?b = "ap_block_size p"
  have u: "u32 (sz + ?b - 1) = sz + ?b - 1" using assms by (intro u32_id) linarith
  have "sz + ?b - 1 < Suc ((sz + ?b - 1) div ?b) * ?b"
    using assms(2) by (metis dividend_less_div_times add.commute mult_Suc)
  then have "sz \<le> (sz + ?b - 1) div ?b * ?b" by simp
  then show ?thesis using assms(2) unfolding blocks_needed_def Let_def u by auto
qed

lemma alloc_ok_shape:
  assumes inv: "pool_inv p ch" and fit: "blocks_needed p sz \<le> ap_free_blocks p"
    and slot: "find_free_slot p = s" "s \<noteq> NO_BLOCK"
  obtains h p' bs where
    "audio_pool_alloc p sz vm = (AUDIO_POOL_OK, pack_handle s (ap_generations p ! s),
       p'\<lparr>ap_objects := (ap_objects p)[s := \<lparr>ob_head_block = h, ob_size = sz,
           ob_nblocks = blocks_needed p sz, ob_refcount = 1, ob_generation = ap_generations p ! s,
           ob_owner_vm = vm, ob_in_use = True, ob_sample_rate = 0\<rparr>]\<rparr>)"
    and "length bs = blocks_needed p sz" and "pool_core p' (ch(s := bs)) ((pool_heads p)(s := h))"
    and "frame p p'" and "ap_free_blocks p' + blocks_needed p sz = ap_free_blocks p"
proof -
  have len: "length (ap_objects p) < 65536" using inv by (simp add: pool_inv_def)
  have free: "\<not> ob_in_use (ap_objects p ! s)"
    using find_free_slot_spec(2) [OF len] slot by simp
  then have "pool_heads p s = NO_BLOCK" by (simp add: pool_heads_def)
  then have "pool_core p (ch(s := [])) ((pool_heads p)(s := NO_BLOCK))"
    using pool_inv_chain_free_slot [OF inv, of s] inv
    by (simp add: pool_inv_def fun_upd_idem)
  from alloc_loop_core [OF this fit] obtain h p' bs where
    a: "alloc_loop (blocks_needed p sz) s NO_BLOCK NO_BLOCK p = Inr (h, p')"
      "length bs = blocks_needed p sz" "pool_core p' (ch(s := bs)) ((pool_heads p)(s := h))"
      "frame p p'" "ap_free_blocks p' + blocks_needed p sz = ap_free_blocks p" by auto
  then show ?thesis
    using fit slot by (intro that [OF _ a(2-5)]) (simp add: audio_pool_alloc_def Let_def frame_def)
qed

lemma audio_pool_alloc_errors:
  assumes "pool_inv p ch"
  shows "fst (audio_pool_alloc p sz vm) =
      (if ap_free_blocks p < blocks_needed p sz then AUDIO_POOL_ERR_NO_SPACE
       else if \<forall>s < length (ap_objects p). ob_in_use (ap_objects p ! s)
       then AUDIO_POOL_ERR_NO_OBJECTS else AUDIO_POOL_OK)"
    and "fst (audio_pool_alloc p sz vm) \<noteq> AUDIO_POOL_OK \<Longrightarrow>
         snd (audio_pool_alloc p sz vm) = (0, p)"
proof -
  have len: "length (ap_objects p) < 65536" using assms by (simp add: pool_inv_def)
  have "fst (audio_pool_alloc p sz vm) =
      (if ap_free_blocks p < blocks_needed p sz then AUDIO_POOL_ERR_NO_SPACE
       else if \<forall>s < length (ap_objects p). ob_in_use (ap_objects p ! s)
       then AUDIO_POOL_ERR_NO_OBJECTS else AUDIO_POOL_OK) \<and>
     (fst (audio_pool_alloc p sz vm) \<noteq> AUDIO_POOL_OK \<longrightarrow> snd (audio_pool_alloc p sz vm) = (0, p))"
  proof (cases "ap_free_blocks p < blocks_needed p sz \<or> find_free_slot p = NO_BLOCK")
    case True
    with find_free_slot_spec(1) [OF len] show ?thesis
      by (auto simp: audio_pool_alloc_def Let_def)
  next
    case False
    then have f: "blocks_needed p sz \<le> ap_free_blocks p" and s: "find_free_slot p \<noteq> NO_BLOCK"
      by auto
    from alloc_ok_shape [OF assms f refl s, of vm]
    have "fst (audio_pool_alloc p sz vm) = AUDIO_POOL_OK" by (metis fst_conv)
    moreover have "\<not> (\<forall>s < length (ap_objects p). ob_in_use (ap_objects p ! s))"
      using find_free_slot_spec(1) [OF len] s by blast
    ultimately show ?thesis using False by auto
  qed
  then show "fst (audio_pool_alloc p sz vm) =
      (if ap_free_blocks p < blocks_needed p sz then AUDIO_POOL_ERR_NO_SPACE
       else if \<forall>s < length (ap_objects p). ob_in_use (ap_objects p ! s)
       then AUDIO_POOL_ERR_NO_OBJECTS else AUDIO_POOL_OK)"
    and "fst (audio_pool_alloc p sz vm) \<noteq> AUDIO_POOL_OK \<Longrightarrow>
         snd (audio_pool_alloc p sz vm) = (0, p)" by blast+
qed

lemma audio_pool_alloc_ok:
  assumes inv: "pool_inv p ch" and sz: "sz + ap_block_size p \<le> 4294967296"
    and ok: "audio_pool_alloc p sz vm = (AUDIO_POOL_OK, h, q)"
  shows "pool_ok q"
    and "pool_refs p h = 0"
    and "pool_refs q h' = (if h' = h then 1 else pool_refs p h')"
    and "audio_pool_object_size q h = sz"
    and "ap_free_blocks q + blocks_needed p sz = ap_free_blocks p"
    and "resolve p h' = Some t \<Longrightarrow> resolve q h' = Some t \<and> ap_objects q ! t = ap_objects p ! t"
    and "\<exists>bs. pool_inv q (ch(find_free_slot p := bs)) \<and> resolve q h = Some (find_free_slot p)"
    and "ap_region q = ap_region p" and "ap_block_size q = ap_block_size p"
proof -
  let ?s = "find_free_slot p" and ?g = "ap_generations p ! find_free_slot p"
  have len: "length (ap_objects p) < 65536" using inv by (simp add: pool_inv_def)
  have fit: "blocks_needed p sz \<le> ap_free_blocks p" and sn: "?s \<noteq> NO_BLOCK"
    using ok by (auto simp: audio_pool_alloc_def Let_def split: if_splits)
  from alloc_ok_shape [OF inv fit refl sn, of vm] obtain hb p' bs where
    al: "audio_pool_alloc p sz vm = (AUDIO_POOL_OK, pack_handle ?s ?g,
       p'\<lparr>ap_objects := (ap_objects p)[?s := \<lparr>ob_head_block = hb, ob_size = sz,
           ob_nblocks = blocks_needed p sz, ob_refcount = 1, ob_generation = ?g,
           ob_owner_vm = vm, ob_in_use = True, ob_sample_rate = 0\<rparr>]\<rparr>)" (is "_ = (_, _, ?q)")
    and bs: "length bs = blocks_needed p sz"
    and core: "pool_core p' (ch(?s := bs)) ((pool_heads p)(?s := hb))"
    and fr: "frame p p'" and cnt: "ap_free_blocks p' + blocks_needed p sz = ap_free_blocks p"
    by blast
  have h: "h = pack_handle ?s ?g" and q: "q = ?q" using ok al by simp_all
  have sl: "?s < length (ap_objects p)" "\<not> ob_in_use (ap_objects p ! ?s)"
    using find_free_slot_spec(2) [OF len sn] by blast+
  have unp: "unpack_handle h = Some (?s, ?g)" using sl(1) len by (simp add: h unpack_pack)
  show "pool_refs p h = 0"
    using unp sl by (simp add: pool_refs_def resolve_def)
  have res: "resolve q h' = (if h' = h then Some ?s else resolve p h')" for h'
  proof (cases "h' = h")
    case True
    then show ?thesis using unp sl(1) by (simp add: resolve_def q)
  next
    case False
    show ?thesis
    proof (cases "unpack_handle h'")
      case None
      with False show ?thesis by (simp add: resolve_def)
    next
      case (Some sg)
      then obtain t g where sg: "unpack_handle h' = Some (t, g)" by (cases sg) auto
      have "t \<noteq> ?s \<or> g \<noteq> ?g" using pack_unpack [OF sg] False h by auto
      with False sg sl show ?thesis by (auto simp: resolve_def q nth_list_update)
    qed
  qed
  have obj: "ap_objects q ! t = ap_objects p ! t" if "t \<noteq> ?s" for t
    using that by (simp add: q)
  show "pool_refs q h' = (if h' = h then 1 else pool_refs p h')"
  proof (cases "h' = h")
    case True
    then show ?thesis using res [of h] sl(1) by (simp add: pool_refs_def q)
  next
    case False
    have "ap_objects q ! t = ap_objects p ! t" if "resolve p h' = Some t" for t
      using that sl(2) by (intro obj) (auto simp: resolve_Some)
    with False show ?thesis using res [of h'] by (simp add: pool_refs_def split: option.split)
  qed
  show "audio_pool_object_size q h = sz"
    using res [of h] sl(1) by (simp add: audio_pool_object_size_def q)
  show "ap_free_blocks q + blocks_needed p sz = ap_free_blocks p" using cnt by (simp add: q)
  show "resolve p h' = Some t \<Longrightarrow> resolve q h' = Some t \<and> ap_objects q ! t = ap_objects p ! t"
    using res [of h'] sl(2) unp obj [of t] by (auto simp: resolve_Some)
  have hds: "pool_heads q = (pool_heads p)(?s := hb)"
    using sl(1) by (intro ext) (simp add: pool_heads_def q nth_list_update)
  have "pool_core q (ch(?s := bs)) (pool_heads q)" unfolding hds using core by (simp add: q)
  moreover have "object_ok q ((ch(?s := bs)) t) t"
    if "t < length (ap_objects q)" "ob_in_use (ap_objects q ! t)" for t
  proof (cases "t = ?s")
    case True
    then show ?thesis
      using sl(1) bs blocks_needed_pos [of p sz] blocks_needed_enough [OF sz] inv fr
      by (simp add: object_ok_def q frame_def pool_inv_def)
  next
    case False
    then show ?thesis
      using that inv fr by (auto simp: q object_ok_def Let_def pool_inv_def frame_def nth_list_update)
  qed
  ultimately have "pool_inv q (ch(?s := bs))"
    using inv fr unfolding pool_inv_def by (simp add: q frame_def)
  then show "pool_ok q" and "\<exists>bs. pool_inv q (ch(?s := bs)) \<and> resolve q h = Some ?s"
    using res [of h] unfolding pool_ok_def by auto
  show "ap_region q = ap_region p" and "ap_block_size q = ap_block_size p"
    using fr by (simp_all add: q frame_def)
qed

section \<open>The reference-count contract\<close>

lemma audio_pool_unref_spec:
  assumes "pool_ok p"
  shows "pool_ok (snd (snd (audio_pool_unref p h)))"
    and "audio_pool_handle_valid p h \<Longrightarrow>
         pool_refs (snd (snd (audio_pool_unref p h))) h' = pool_refs p h' - (if h' = h then 1 else 0)"
proof -
  obtain ch where inv: "pool_inv p ch" using assms by (auto simp: pool_ok_def)
  have "pool_ok (snd (snd (audio_pool_unref p h))) \<and> (audio_pool_handle_valid p h \<longrightarrow>
         pool_refs (snd (snd (audio_pool_unref p h))) h' = pool_refs p h' - (if h' = h then 1 else 0))"
  proof (cases "resolve p h")
    case None
    then have "snd (snd (audio_pool_unref p h)) = p"
      by (simp add: audio_pool_unref_def split: option.splits)
    with None assms show ?thesis by (simp add: audio_pool_handle_valid_def)
  next
    case (Some s)
    then obtain g where "unpack_handle h = Some (s, g)" by (auto simp: resolve_Some)
    with Some have "audio_pool_unref p h = (AUDIO_POOL_OK, drop_ref p s)"
      by (simp add: audio_pool_unref_def)
    then show ?thesis using drop_ref_spec(1,2) [OF inv Some] by (auto simp: pool_ok_def)
  qed
  then show "pool_ok (snd (snd (audio_pool_unref p h)))"
    and "audio_pool_handle_valid p h \<Longrightarrow>
         pool_refs (snd (snd (audio_pool_unref p h))) h' = pool_refs p h' - (if h' = h then 1 else 0)"
    by blast+
qed

interpretation prc: refcounted pool_ok pool_refs audio_pool_handle_valid
  "\<lambda>p h. snd (audio_pool_ref p h)" "\<lambda>p h. snd (snd (audio_pool_unref p h))" 2147483647
proof
  fix p h h'
  assume ok: "pool_ok p"
  then obtain ch where inv: "pool_inv p ch" by (auto simp: pool_ok_def)
  show "audio_pool_handle_valid p h = (0 < pool_refs p h)" using pool_refs_pos_iff [OF inv] by simp
  show "0 \<le> pool_refs p h" by (rule pool_refs_nonneg [OF inv])
  show "pool_refs p h < 2147483647 \<Longrightarrow> pool_ok (snd (audio_pool_ref p h))"
    using audio_pool_ref_inv [OF inv] by (auto simp: pool_ok_def)
  show "audio_pool_handle_valid p h \<Longrightarrow> pool_refs p h < 2147483647 \<Longrightarrow>
        pool_refs (snd (audio_pool_ref p h)) h' = pool_refs p h' + (if h' = h then 1 else 0)"
    by (rule audio_pool_ref_refs [OF inv])
  show "pool_ok (snd (snd (audio_pool_unref p h)))" by (rule audio_pool_unref_spec(1) [OF ok])
  show "audio_pool_handle_valid p h \<Longrightarrow>
        pool_refs (snd (snd (audio_pool_unref p h))) h' = pool_refs p h' - (if h' = h then 1 else 0)"
    by (rule audio_pool_unref_spec(2) [OF ok])
qed

end
