(* ===== verification/Audio_Pool_Data.thy ===== *)
theory Audio_Pool_Data
  imports Audio_Pool_Spec
begin

text \<open>
  The data access of the block pool refines a store of byte strings: an object is a flat
  string of its size, whatever blocks its chain visits; a read is a slice of it, a write a
  copy into it, and neither a write, an allocation nor a release touches another object.
\<close>

section \<open>The bytes of a chain\<close>

definition block_bytes :: "audio_pool \<Rightarrow> nat \<Rightarrow> byte list" where
  "block_bytes p b = seg (b * ap_block_size p) (ap_block_size p) (ap_region p)"

definition chain_bytes :: "audio_pool \<Rightarrow> nat list \<Rightarrow> byte list" where
  "chain_bytes p bs = concat (map (block_bytes p) bs)"

definition block_in :: "audio_pool \<Rightarrow> nat \<Rightarrow> bool" where
  "block_in p b \<longleftrightarrow> b * ap_block_size p + ap_block_size p \<le> length (ap_region p)"

lemma length_block_bytes: "block_in p b \<Longrightarrow> length (block_bytes p b) = ap_block_size p"
  by (simp add: block_bytes_def block_in_def)

lemma length_chain_bytes:
  "\<forall>b \<in> set bs. block_in p b \<Longrightarrow> length (chain_bytes p bs) = length bs * ap_block_size p"
  by (induction bs) (simp_all add: chain_bytes_def length_block_bytes)

lemma chain_bytes_Cons [simp]: "chain_bytes p (b # bs) = block_bytes p b @ chain_bytes p bs"
  by (simp add: chain_bytes_def)

lemma seg_append:
  "off \<le> length xs \<Longrightarrow>
   seg off n (xs @ ys) = seg off (min n (length xs - off)) xs @ seg 0 (n - (length xs - off)) ys"
  by (simp add: seg_def min_def)

lemma blit_append:
  "off \<le> length xs \<Longrightarrow> off + length zs \<le> length xs + length ys \<Longrightarrow>
   blit (xs @ ys) off zs =
     blit xs off (take (length xs - off) zs) @ blit ys 0 (drop (length xs - off) zs)"
  by (auto simp: blit_def min_def not_le) (metis add.commute append.assoc append_take_drop_id)

lemma seg_blit_inside:
  assumes "base + L \<le> length m" and "o' + length xs \<le> L"
  shows "seg base L (blit m (base + o') xs) = blit (seg base L m) o' xs"
  using assms by (intro nth_equalityI) (auto simp: nth_seg nth_blit)

lemma seek_chain:
  "chain nx h bs \<Longrightarrow> NO_BLOCK \<notin> set bs \<Longrightarrow> k \<le> length bs \<Longrightarrow> chain nx (skip_blocks nx k h) (drop k bs)"
proof (induction k arbitrary: h bs)
  case (Suc k)
  then show ?case by (cases bs) auto
qed simp

lemma drop_chain_bytes:
  "\<forall>b \<in> set bs. block_in p b \<Longrightarrow> k \<le> length bs \<Longrightarrow>
   drop (k * ap_block_size p) (chain_bytes p bs) = chain_bytes p (drop k bs)"
proof (induction k arbitrary: bs)
  case (Suc k)
  then show ?case
    by (cases bs) (simp_all add: length_block_bytes flip: drop_drop)
qed simp

section \<open>The copy loops\<close>

lemma read_loop_seg:
  assumes "chain (ap_next p) b bs" and "\<forall>x \<in> set bs. block_in p x" and "NO_BLOCK \<notin> set bs"
    and "in_off < ap_block_size p" and "in_off + n \<le> length bs * ap_block_size p" and "n \<le> fuel"
  shows "read_loop fuel p b in_off n = seg in_off n (chain_bytes p bs)"
  using assms
proof (induction fuel arbitrary: b bs in_off n)
  case 0
  then show ?case by (simp add: seg_def)
next
  case (Suc fuel)
  show ?case
  proof (cases "n = 0")
    case True
    then show ?thesis by (simp add: seg_def)
  next
    case False
    let ?B = "ap_block_size p"
    obtain bs' where bs: "bs = b # bs'" "b \<noteq> NO_BLOCK" "chain (ap_next p) (ap_next p ! b) bs'"
      using Suc.prems False by (cases bs) auto
    define chunk where "chunk = min (?B - in_off) n"
    have c: "0 < chunk" "chunk \<le> n" using False Suc.prems(4) by (simp_all add: chunk_def)
    have len: "length (block_bytes p b) = ?B" using Suc.prems(2) bs by (simp add: length_block_bytes)
    have head: "seg (b * ?B + in_off) chunk (ap_region p) = seg in_off chunk (block_bytes p b)"
      unfolding block_bytes_def using Suc.prems(4) by (subst seg_seg) (auto simp: chunk_def)
    have "n - chunk \<le> length bs' * ?B"
      using Suc.prems(5) bs(1) by (auto simp: chunk_def min_def)
    then have tail: "read_loop fuel p (ap_next p ! b) 0 (n - chunk) = seg 0 (n - chunk) (chain_bytes p bs')"
      using Suc.prems bs c by (intro Suc.IH) auto
    have "read_loop (Suc fuel) p b in_off n =
        seg (b * ?B + in_off) chunk (ap_region p) @ read_loop fuel p (ap_next p ! b) 0 (n - chunk)"
      using False bs(2) by (simp add: chunk_def Let_def)
    also have "\<dots> = seg in_off n (chain_bytes p bs)"
    proof -
      have e: "chunk = min n (?B - in_off)" "n - chunk = n - (?B - in_off)"
        by (simp_all add: chunk_def min_def)
      have "seg in_off n (block_bytes p b @ chain_bytes p bs') =
          seg in_off chunk (block_bytes p b) @ seg 0 (n - chunk) (chain_bytes p bs')"
        using seg_append [of in_off "block_bytes p b" n "chain_bytes p bs'"] Suc.prems(4) len
        unfolding e(2) by (simp only: e(1) less_imp_le)
      then show ?thesis unfolding head tail bs(1) by simp
    qed
    finally show ?thesis .
  qed
qed

lemma write_loop_blit:
  assumes "chain (ap_next p) b bs" and "\<forall>x \<in> set bs. block_in p x" and "NO_BLOCK \<notin> set bs"
    and "distinct bs" and "in_off < ap_block_size p"
    and "in_off + length src \<le> length bs * ap_block_size p" and "length src \<le> fuel"
  shows "\<exists>r. write_loop fuel p b in_off src = (length src, p\<lparr>ap_region := r\<rparr>) \<and>
           length r = length (ap_region p) \<and>
           chain_bytes (p\<lparr>ap_region := r\<rparr>) bs = blit (chain_bytes p bs) in_off src \<and>
           (\<forall>x. x \<notin> set bs \<longrightarrow> block_bytes (p\<lparr>ap_region := r\<rparr>) x = block_bytes p x)"
  using assms
proof (induction fuel arbitrary: p b bs in_off src)
  case 0
  then show ?case by (intro exI [of _ "ap_region p"]) simp
next
  case (Suc fuel)
  show ?case
  proof (cases "src = []")
    case True
    then show ?thesis by (intro exI [of _ "ap_region p"]) simp
  next
    case False
    let ?B = "ap_block_size p"
    obtain bs' where bs: "bs = b # bs'" "b \<noteq> NO_BLOCK" "chain (ap_next p) (ap_next p ! b) bs'"
      using Suc.prems False by (cases bs) auto
    define chunk where "chunk = min (?B - in_off) (length src)"
    have c: "0 < chunk" "chunk \<le> length src" "in_off + chunk \<le> ?B"
      using False Suc.prems(5) by (auto simp: chunk_def)
    define p1 where
      "p1 = p\<lparr>ap_region := blit (ap_region p) (b * ?B + in_off) (take chunk src)\<rparr>"
    have inb: "b * ?B + ?B \<le> length (ap_region p)"
      using Suc.prems(2) bs(1) by (simp add: block_in_def)
    then have len1: "length (ap_region p1) = length (ap_region p)"
      using c by (simp add: p1_def)
    have head1: "block_bytes p1 b = blit (block_bytes p b) in_off (take chunk src)"
      using inb c by (simp add: block_bytes_def p1_def seg_blit_inside)
    have oth1: "block_bytes p1 x = block_bytes p x" if "x \<noteq> b" for x
    proof -
      have "x * ?B + ?B \<le> b * ?B + in_off \<or> b * ?B + in_off + length (take chunk src) \<le> x * ?B"
        using slot_disjoint [OF that, of ?B] c by auto
      then show ?thesis using inb c by (simp add: block_bytes_def p1_def seg_blit_disjoint)
    qed
    have "\<exists>r. write_loop fuel p1 (ap_next p1 ! b) 0 (drop chunk src) =
             (length (drop chunk src), p1\<lparr>ap_region := r\<rparr>) \<and> length r = length (ap_region p1) \<and>
           chain_bytes (p1\<lparr>ap_region := r\<rparr>) bs' = blit (chain_bytes p1 bs') 0 (drop chunk src) \<and>
           (\<forall>x. x \<notin> set bs' \<longrightarrow> block_bytes (p1\<lparr>ap_region := r\<rparr>) x = block_bytes p1 x)"
    proof (rule Suc.IH)
      show "chain (ap_next p1) (ap_next p1 ! b) bs'" using bs(3) by (simp add: p1_def)
      show "\<forall>x\<in>set bs'. block_in p1 x"
        using Suc.prems(2) bs(1) len1 by (auto simp: block_in_def p1_def)
      show "0 < ap_block_size p1" using Suc.prems(5) by (simp add: p1_def)
      show "0 + length (drop chunk src) \<le> length bs' * ap_block_size p1"
        using Suc.prems(6) bs(1) by (auto simp: p1_def chunk_def min_def)
    qed (use Suc.prems bs(1) c in auto)
    then obtain r where r: "write_loop fuel p1 (ap_next p ! b) 0 (drop chunk src) =
             (length src - chunk, p\<lparr>ap_region := r\<rparr>)" "length r = length (ap_region p)"
      "chain_bytes (p\<lparr>ap_region := r\<rparr>) bs' = blit (chain_bytes p1 bs') 0 (drop chunk src)"
      "\<And>x. x \<notin> set bs' \<Longrightarrow> block_bytes (p\<lparr>ap_region := r\<rparr>) x = block_bytes p1 x"
      using len1 by (auto simp: p1_def)
    have "b \<notin> set bs'" using Suc.prems(4) bs(1) by simp
    then have same: "chain_bytes p1 bs' = chain_bytes p bs'"
      using oth1 unfolding chain_bytes_def by (metis (mono_tags, lifting) map_eq_conv)
    have lenb: "length (block_bytes p b) = ?B" using inb by (simp add: length_block_bytes block_in_def)
    have lens: "length (chain_bytes p bs') = length bs' * ?B"
      using Suc.prems(2) bs(1) by (simp add: length_chain_bytes)
    have "chain_bytes (p\<lparr>ap_region := r\<rparr>) bs =
        blit (block_bytes p b) in_off (take chunk src) @ blit (chain_bytes p bs') 0 (drop chunk src)"
      using r(3) r(4) [OF \<open>b \<notin> set bs'\<close>] by (simp add: bs(1) head1 same)
    also have "\<dots> = blit (chain_bytes p bs) in_off src"
      using Suc.prems(5,6) lenb lens bs(1)
      by (cases "?B - in_off \<le> length src") (simp_all add: blit_append chunk_def min_def)
    finally have "chain_bytes (p\<lparr>ap_region := r\<rparr>) bs = blit (chain_bytes p bs) in_off src" .
    moreover have "write_loop (Suc fuel) p b in_off src = (length src, p\<lparr>ap_region := r\<rparr>)"
      using False bs(2) r(1) c by (simp add: p1_def chunk_def [symmetric] Let_def)
    moreover have "block_bytes (p\<lparr>ap_region := r\<rparr>) x = block_bytes p x" if "x \<notin> set bs" for x
      using that r(4) oth1 bs(1) by simp
    ultimately show ?thesis using r(2) by blast
  qed
qed

section \<open>Objects as byte strings\<close>

text \<open>The contents of an object, as a client reads them.\<close>

definition object_bytes :: "audio_pool \<Rightarrow> obj_handle \<Rightarrow> byte list" where
  "object_bytes p h = snd (audio_pool_read p h 0 (audio_pool_object_size p h))"

text \<open>The facts about the chain of a live object that both directions need.\<close>

lemma object_chain:
  assumes inv: "pool_inv p ch" and res: "resolve p h = Some s"
  defines "obj \<equiv> ap_objects p ! s"
  shows "chain (ap_next p) (ob_head_block obj) (ch s)" and "distinct (ch s)"
    and "\<forall>x \<in> set (ch s). block_in p x" and "NO_BLOCK \<notin> set (ch s)"
    and "ob_size obj \<le> length (ch s) * ap_block_size p" and "0 < ap_block_size p"
proof -
  note r = resolve_object [OF inv res]
  have core: "pool_core p ch (pool_heads p)" using inv by (simp add: pool_inv_def)
  show "chain (ap_next p) (ob_head_block obj) (ch s)"
    using core r(1,2) by (auto simp: pool_core_def obj_def pool_heads_def dest: spec [of _ s])
  show "distinct (ch s)" using core by (simp add: pool_core_def)
  have lt: "x < ap_block_count p" if "x \<in> set (ch s)" for x
    using pool_core_used_less [OF core that] .
  show "\<forall>x \<in> set (ch s). block_in p x"
  proof
    fix x assume "x \<in> set (ch s)"
    from slot_in_bounds [OF lt [OF this], of "ap_block_size p"] inv show "block_in p x"
      by (simp add: block_in_def pool_inv_def)
  qed
  have "ap_block_count p < NO_BLOCK" using core unfolding pool_core_def by blast
  then show "NO_BLOCK \<notin> set (ch s)" using lt by (meson less_asym)
  show "ob_size obj \<le> length (ch s) * ap_block_size p" and "0 < ap_block_size p"
    using r(3) inv by (simp_all add: object_ok_def Let_def obj_def pool_inv_def)
qed

text \<open>Seeking to a byte offset and copying from there, in terms of the flat bytes.\<close>

lemma seek_block_chain:
  assumes "chain (ap_next p) hb bs" and "\<forall>x \<in> set bs. block_in p x" and "NO_BLOCK \<notin> set bs"
    and "0 < ap_block_size p" and "off < length bs * ap_block_size p"
  defines "k \<equiv> off div ap_block_size p"
  shows "chain (ap_next p) (fst (seek_block p hb off)) (drop k bs)" and "k < length bs"
    and "snd (seek_block p hb off) < ap_block_size p"
    and "snd (seek_block p hb off) + n \<le> length (drop k bs) * ap_block_size p \<longleftrightarrow>
         off + n \<le> length bs * ap_block_size p"
    and "seg (snd (seek_block p hb off)) n (chain_bytes p (drop k bs)) = seg off n (chain_bytes p bs)"
proof -
  let ?B = "ap_block_size p"
  show k: "k < length bs" using assms(4,5) by (simp add: k_def div_less_iff_less_mult)
  show "chain (ap_next p) (fst (seek_block p hb off)) (drop k bs)"
    using seek_chain [OF assms(1,3), of k] k by (simp add: seek_block_def k_def)
  show "snd (seek_block p hb off) < ?B" using assms(4) by (simp add: seek_block_def)
  have off: "off = k * ?B + off mod ?B" by (simp add: k_def)
  have "length bs * ?B = k * ?B + length (drop k bs) * ?B"
    using k by (simp flip: add_mult_distrib)
  then have "off mod ?B + n \<le> length (drop k bs) * ?B \<longleftrightarrow> k * ?B + off mod ?B + n \<le> length bs * ?B"
    by linarith
  then show "snd (seek_block p hb off) + n \<le> length (drop k bs) * ?B \<longleftrightarrow>
      off + n \<le> length bs * ?B"
    using off by (simp add: seek_block_def)
  have "seg (off mod ?B) n (drop (k * ?B) (chain_bytes p bs)) = seg off n (chain_bytes p bs)"
    by (simp add: seg_def k_def)
  then show "seg (snd (seek_block p hb off)) n (chain_bytes p (drop k bs)) = seg off n (chain_bytes p bs)"
    using drop_chain_bytes [OF assms(2), of k] k by (simp add: seek_block_def)
qed

lemma audio_pool_read_chain:
  assumes inv: "pool_inv p ch" and res: "resolve p h = Some s"
  shows "audio_pool_read p h off n =
    (AUDIO_POOL_OK, seg off n (take (ob_size (ap_objects p ! s)) (chain_bytes p (ch s))))"
proof -
  let ?obj = "ap_objects p ! s" and ?B = "ap_block_size p"
  note oc = object_chain [OF inv res]
  show ?thesis
  proof (cases "ob_size ?obj \<le> off")
    case True
    then show ?thesis using res by (simp add: audio_pool_read_def seg_def Let_def)
  next
    case False
    define m where "m = min n (ob_size ?obj - off)"
    have lt: "off < length (ch s) * ?B" and le: "off + m \<le> length (ch s) * ?B"
      using False oc(5) by (auto simp: m_def)
    note sk = seek_block_chain [OF oc(1,3,4,6) lt]
    obtain b i where bi: "seek_block p (ob_head_block ?obj) off = (b, i)" by fastforce
    have sub: "set (drop (off div ?B) (ch s)) \<subseteq> set (ch s)" by (rule set_drop_subset)
    have "read_loop m p b i m = seg i m (chain_bytes p (drop (off div ?B) (ch s)))"
      using sk oc(3,4) sub le bi by (intro read_loop_seg) auto
    also have "\<dots> = seg off m (chain_bytes p (ch s))" using sk(5) [of m] bi by simp
    also have "\<dots> = seg off n (take (ob_size ?obj) (chain_bytes p (ch s)))"
      using False by (simp add: seg_def m_def drop_take min.commute)
    finally show ?thesis
      using False res bi by (simp add: audio_pool_read_def Let_def m_def)
  qed
qed

lemma object_bytes_chain:
  assumes "pool_inv p ch" and "resolve p h = Some s"
  shows "object_bytes p h = take (ob_size (ap_objects p ! s)) (chain_bytes p (ch s))"
    and "length (object_bytes p h) = audio_pool_object_size p h"
proof -
  show *: "object_bytes p h = take (ob_size (ap_objects p ! s)) (chain_bytes p (ch s))"
    unfolding object_bytes_def audio_pool_read_chain [OF assms]
    using assms(2) by (simp add: audio_pool_object_size_def seg_def)
  show "length (object_bytes p h) = audio_pool_object_size p h"
    using object_chain(3,5) [OF assms] assms(2)
    by (simp add: * length_chain_bytes audio_pool_object_size_def)
qed

lemma pool_inv_region:
  "length r = length (ap_region p) \<Longrightarrow> pool_inv (p\<lparr>ap_region := r\<rparr>) ch = pool_inv p ch"
  by (simp add: pool_inv_def pool_core_def pool_heads_def object_ok_def Let_def)

lemma resolve_region [simp]: "resolve (p\<lparr>ap_region := r\<rparr>) h = resolve p h"
  by (auto simp: resolve_def Let_def split: option.split)

lemma audio_pool_write_spec:
  assumes inv: "pool_inv p ch" and res: "resolve p h = Some s"
  shows "\<exists>k q. audio_pool_write p h off src = (AUDIO_POOL_OK, k, q) \<and>
      k = min (length src) (audio_pool_object_size p h - off) \<and> pool_inv q ch \<and>
      (\<forall>h'. resolve q h' = resolve p h') \<and>
      object_bytes q h = blit (object_bytes p h) off (take k src) \<and>
      (\<forall>h'. h' \<noteq> h \<longrightarrow> resolve p h' \<noteq> None \<longrightarrow> object_bytes q h' = object_bytes p h')"
proof -
  let ?obj = "ap_objects p ! s" and ?B = "ap_block_size p"
  note oc = object_chain [OF inv res]
  have size: "audio_pool_object_size p h = ob_size ?obj"
    using res by (simp add: audio_pool_object_size_def)
  show ?thesis
  proof (cases "ob_size ?obj \<le> off")
    case True
    then show ?thesis using res inv size
      by (intro exI [of _ 0] exI [of _ p]) (simp add: audio_pool_write_def Let_def)
  next
    case False
    define k where "k = min (length src) (ob_size ?obj - off)"
    have lt: "off < length (ch s) * ?B" and le: "off + length (take k src) \<le> length (ch s) * ?B"
      using False oc(5) by (auto simp: k_def)
    note sk = seek_block_chain [OF oc(1,3,4,6) lt]
    obtain b i where bi: "seek_block p (ob_head_block ?obj) off = (b, i)" by fastforce
    define d where "d = off div ?B"
    note sk = sk [folded d_def]
    have sub: "set (drop d (ch s)) \<subseteq> set (ch s)" by (rule set_drop_subset)
    have "\<exists>r. write_loop k p b i (take k src) = (length (take k src), p\<lparr>ap_region := r\<rparr>) \<and>
           length r = length (ap_region p) \<and>
           chain_bytes (p\<lparr>ap_region := r\<rparr>) (drop d (ch s)) =
             blit (chain_bytes p (drop d (ch s))) i (take k src) \<and>
           (\<forall>x. x \<notin> set (drop d (ch s)) \<longrightarrow> block_bytes (p\<lparr>ap_region := r\<rparr>) x = block_bytes p x)"
      using sk oc(2,3,4) sub le bi by (intro write_loop_blit) auto
    then obtain r where r: "write_loop k p b i (take k src) = (k, p\<lparr>ap_region := r\<rparr>)"
      "length r = length (ap_region p)"
      "chain_bytes (p\<lparr>ap_region := r\<rparr>) (drop d (ch s)) =
             blit (chain_bytes p (drop d (ch s))) i (take k src)"
      "\<And>x. x \<notin> set (drop d (ch s)) \<Longrightarrow> block_bytes (p\<lparr>ap_region := r\<rparr>) x = block_bytes p x"
      by (auto simp: k_def)
    let ?q = "p\<lparr>ap_region := r\<rparr>"
    have invq: "pool_inv ?q ch" using inv r(2) by (simp add: pool_inv_region)
    have disj: "set (take d (ch s)) \<inter> set (drop d (ch s)) = {}"
      using oc(2) by (rule set_take_disj_set_drop_if_distinct) simp
    have pre: "chain_bytes ?q (take d (ch s)) = chain_bytes p (take d (ch s))"
      unfolding chain_bytes_def using disj r(4)
      by (intro arg_cong [where f = concat] map_cong) auto
    have split: "chain_bytes x (ch s) = chain_bytes x (take d (ch s)) @ chain_bytes x (drop d (ch s))"
      for x by (simp add: chain_bytes_def flip: concat_append map_append)
    have lpre: "length (chain_bytes p (take d (ch s))) = d * ?B"
      using sk(2) oc(3) set_take_subset [of d "ch s"] by (subst length_chain_bytes) auto
    have i: "off = d * ?B + i" using bi by (auto simp: seek_block_def d_def)
    have "chain_bytes ?q (ch s) = blit (chain_bytes p (ch s)) off (take k src)"
      unfolding split [of ?q] split [of p] pre r(3) i
      using lpre by (simp add: blit_def add.assoc)
    then have own: "object_bytes ?q h = blit (object_bytes p h) off (take k src)"
      using object_bytes_chain(1) [OF invq, of h s] object_bytes_chain(1) [OF inv res] res
        length_chain_bytes [OF oc(3)] oc(5) False
      by (simp add: blit_def take_append k_def drop_take min_def split: if_splits)
    have other: "object_bytes ?q h' = object_bytes p h'" if "h' \<noteq> h" "resolve p h' = Some t" for h' t
    proof -
      have "t \<noteq> s" using that res resolve_inj by auto
      then have "set (ch t) \<inter> set (ch s) = {}"
        using inv unfolding pool_inv_def pool_core_def by (metis disjoint_iff)
      then have "chain_bytes ?q (ch t) = chain_bytes p (ch t)"
        unfolding chain_bytes_def using sub r(4)
        by (intro arg_cong [where f = concat] map_cong) auto
      then show ?thesis
        using object_bytes_chain(1) [OF invq, of h' t] object_bytes_chain(1) [OF inv that(2)] that(2)
        by simp
    qed
    have "audio_pool_write p h off src = (AUDIO_POOL_OK, k, ?q)"
      using False res bi r(1) by (simp add: audio_pool_write_def Let_def k_def)
    then show ?thesis using invq own other size
      by (intro exI [of _ k] exI [of _ ?q]) (auto simp: k_def)
  qed
qed

end
