(* ===== verification/Audio_Pool_Props.thy ===== *)
theory Audio_Pool_Props
  imports Audio_Pool_Data
begin

text \<open>
  The promises of \<^verbatim>\<open>engine/audio/audio_pool.c\<close> to its clients, over the whole operations:
  allocation, release, the sweep of a stopped VM, reads and writes.
\<close>

section \<open>The sweep of a VM\<close>

text \<open>The handle that resolves to a slot in use.\<close>

definition slot_handle :: "audio_pool \<Rightarrow> nat \<Rightarrow> obj_handle" where
  "slot_handle p s = pack_handle s (ob_generation (ap_objects p ! s))"

lemma resolve_slot_handle:
  "pool_inv p ch \<Longrightarrow> s < length (ap_objects p) \<Longrightarrow> ob_in_use (ap_objects p ! s) \<Longrightarrow>
   resolve p (slot_handle p s) = Some s"
  unfolding slot_handle_def by (rule resolve_pack) (simp_all add: pool_inv_def)

text \<open>What one sweep takes from an object: a reference when its slot is visited and its VM matches.\<close>

definition swept :: "audio_pool \<Rightarrow> nat set \<Rightarrow> nat \<Rightarrow> obj_handle \<Rightarrow> bool" where
  "swept p S vm h \<longleftrightarrow>
     (\<exists>s \<in> S. resolve p h = Some s \<and> ob_owner_vm (ap_objects p ! s) = vm)"

lemma drop_ref_other:
  assumes inv: "pool_inv p ch" and s: "resolve p h = Some s" and t: "t \<noteq> s"
  shows "resolve (snd (drop_ref p s)) h' = Some t \<longleftrightarrow> resolve p h' = Some t"
  using drop_ref_spec(5,6) [OF inv s] t by (simp add: resolve_Some)

lemma sweep_from_spec:
  assumes "pool_ok p" and "distinct slots" and "\<forall>s \<in> set slots. s < length (ap_objects p)"
  shows "pool_ok (snd (sweep_from slots vm (k, p))) \<and>
    pool_refs (snd (sweep_from slots vm (k, p))) h =
      pool_refs p h - (if swept p (set slots) vm h then 1 else 0)"
  using assms
proof (induction slots arbitrary: k p)
  case Nil
  then show ?case by (simp add: swept_def)
next
  case (Cons s ss)
  obtain ch where inv: "pool_inv p ch" using Cons.prems(1) by (auto simp: pool_ok_def)
  show ?case
  proof (cases "ob_in_use (ap_objects p ! s) \<and> ob_owner_vm (ap_objects p ! s) = vm")
    case False
    then have "swept p (set (s # ss)) vm h = swept p (set ss) vm h"
      by (auto simp: swept_def resolve_Some)
    moreover have "sweep_from (s # ss) vm (k, p) = sweep_from ss vm (k, p)"
      by (simp only: sweep_from.simps False if_False)
    ultimately show ?thesis using Cons.IH [OF Cons.prems(1), of k] Cons.prems by simp
  next
    case True
    define q where "q = snd (drop_ref p s)"
    have r: "resolve p (slot_handle p s) = Some s"
      using True Cons.prems(3) by (intro resolve_slot_handle [OF inv]) auto
    note d = drop_ref_spec [OF inv r, folded q_def]
    have "pool_ok q" using d(1) by (auto simp: pool_ok_def)
    moreover have "\<forall>t \<in> set ss. t < length (ap_objects q)" using Cons.prems(3) d(5) by simp
    ultimately have IH: "pool_ok (snd (sweep_from ss vm (k', q))) \<and>
        pool_refs (snd (sweep_from ss vm (k', q))) h = pool_refs q h - (if swept q (set ss) vm h then 1 else 0)"
      for k' using Cons.IH Cons.prems(2) by simp
    have notin: "s \<notin> set ss" using Cons.prems(2) by simp
    have sw: "swept q (set ss) vm h = swept p (set ss) vm h"
    proof -
      have "resolve q h = Some t \<and> ob_owner_vm (ap_objects q ! t) = vm \<longleftrightarrow>
          resolve p h = Some t \<and> ob_owner_vm (ap_objects p ! t) = vm" if "t \<in> set ss" for t
        using that notin d(6) drop_ref_other [OF inv r, of t h, folded q_def] by (metis)
      then show ?thesis by (auto simp: swept_def)
    qed
    have "swept p (set (s # ss)) vm h \<longleftrightarrow> h = slot_handle p s \<or> swept p (set ss) vm h"
      using True r resolve_inj [of p h s "slot_handle p s"] by (auto simp: swept_def)
    moreover have "\<not> (h = slot_handle p s \<and> swept p (set ss) vm h)"
      using r notin by (auto simp: swept_def)
    ultimately show ?thesis
      using True IH [of "if fst (drop_ref p s) then k + 1 else k"] d(2) [of h] sw
      by (auto simp: q_def split: prod.split)
  qed
qed

lemma swept_all:
  assumes "pool_inv p ch"
  shows "swept p (set [0..<length (ap_objects p)]) vm h \<longleftrightarrow>
    (\<exists>s. resolve p h = Some s \<and> ob_owner_vm (ap_objects p ! s) = vm)"
  using resolve_object(1) [OF assms] by (auto simp: swept_def)

section \<open>Allocation and the other objects\<close>

lemma chain_bytes_region:
  "ap_region q = ap_region p \<Longrightarrow> ap_block_size q = ap_block_size p \<Longrightarrow> chain_bytes q bs = chain_bytes p bs"
  by (simp add: chain_bytes_def block_bytes_def [abs_def])

lemma alloc_keeps_bytes:
  assumes inv: "pool_inv p ch" and sz: "sz + ap_block_size p \<le> 4294967296"
    and ok: "audio_pool_alloc p sz vm = (AUDIO_POOL_OK, h, q)" and res: "resolve p h' = Some t"
  shows "audio_pool_object_size q h' = audio_pool_object_size p h'"
    and "object_bytes q h' = object_bytes p h'"
proof -
  note a = audio_pool_alloc_ok [OF inv sz ok]
  have resq: "resolve q h' = Some t" and obj: "ap_objects q ! t = ap_objects p ! t"
    using a(6) [OF res] by blast+
  show "audio_pool_object_size q h' = audio_pool_object_size p h'"
    using res resq obj by (simp add: audio_pool_object_size_def)
  obtain bs where inv': "pool_inv q (ch(find_free_slot p := bs))"
    and new: "resolve q h = Some (find_free_slot p)" using a(7) by blast
  have "h' \<noteq> h" using a(2) res pool_refs_resolve(1) [OF inv res] by auto
  then have "t \<noteq> find_free_slot p" using resolve_inj [OF resq, of h] new by auto
  then show "object_bytes q h' = object_bytes p h'"
    using object_bytes_chain(1) [OF inv' resq] object_bytes_chain(1) [OF inv res]
    by (simp add: obj chain_bytes_region [OF a(8,9)])
qed

lemma drop_ref_bytes:
  assumes inv: "pool_inv p ch" and s: "resolve p h = Some s"
    and v: "audio_pool_handle_valid (snd (drop_ref p s)) h'"
  shows "object_bytes (snd (drop_ref p s)) h' = object_bytes p h'"
proof -
  let ?q = "snd (drop_ref p s)" and ?ch = "if pool_refs p h = 1 then ch(s := []) else ch"
  note d = drop_ref_spec [OF inv s] and reg = drop_ref_region [OF inv s]
  obtain t where rq: "resolve ?q h' = Some t" using v by (auto simp: audio_pool_handle_valid_def)
  have "0 < pool_refs p h'"
    using d(2) [of h'] pool_refs_resolve(1) [OF d(1) rq] by (auto split: if_splits)
  then have "audio_pool_handle_valid p h'" using pool_refs_pos_iff [OF inv] by blast
  then obtain t' where rp: "resolve p h' = Some t'" by (auto simp: audio_pool_handle_valid_def)
  have tt: "t' = t" using rp rq by (auto simp: resolve_Some)
  have "?ch t = ch t \<and> ob_size (ap_objects ?q ! t) = ob_size (ap_objects p ! t)"
  proof (cases "t = s")
    case True
    then have h': "h' = h" using rp s tt by (auto intro: resolve_inj)
    have "pool_refs p h \<noteq> 1"
      using d(2) [of h'] pool_refs_resolve(1) [OF d(1) rq] h' by auto
    moreover from this have "?q = add_refcount p s (- 1)"
      using d(3) by (auto simp: drop_ref_def Let_def split: if_splits)
    ultimately show ?thesis
      using True resolve_object(1) [OF inv s] by (simp add: add_refcount_def)
  next
    case False
    then show ?thesis using d(6) [of t] by simp
  qed
  then show ?thesis
    using object_bytes_chain(1) [OF d(1) rq] object_bytes_chain(1) [OF inv rp] tt
    by (simp add: chain_bytes_region [OF reg])
qed

section \<open>A small pool\<close>

text \<open>Six blocks of four bytes and three object slots: the inputs of the examples.\<close>

definition small_pool :: audio_pool where
  "small_pool = the (snd (audio_pool_init 4 3 (replicate 24 0) True))"

lemma small_pool_init: "audio_pool_init 4 3 (replicate 24 0) True = (AUDIO_POOL_OK, Some small_pool)"
  by (simp add: small_pool_def audio_pool_init_def Let_def)

lemma small_pool_inv: "pool_inv small_pool (\<lambda>_. [])"
  by (rule audio_pool_init_inv(1) [OF small_pool_init]) simp_all

lemma small_pool_ok: "pool_ok small_pool"
  using small_pool_inv by (auto simp: pool_ok_def)

lemma small_pool_refs: "pool_refs small_pool h = 0"
  using audio_pool_init_inv(3) [OF small_pool_init] by (simp add: pool_refs_def)

lemma small_pool_sel:
  "ap_block_size small_pool = 4" "ap_free_blocks small_pool = 6" "length (ap_objects small_pool) = 3"
  "ap_objects small_pool ! 0 = object_zero"
  by (simp_all add: small_pool_def audio_pool_init_def Let_def)

text \<open>One object of five bytes in it.\<close>

definition small_handle :: obj_handle where "small_handle = fst (snd (audio_pool_alloc small_pool 5 7))"
definition small_pool1 :: audio_pool where "small_pool1 = snd (snd (audio_pool_alloc small_pool 5 7))"

lemma small_alloc: "audio_pool_alloc small_pool 5 7 = (AUDIO_POOL_OK, small_handle, small_pool1)"
proof -
  have "fst (audio_pool_alloc small_pool 5 7) = AUDIO_POOL_OK"
    using audio_pool_alloc_errors(1) [OF small_pool_inv, of 5 7] small_pool_sel
    by (auto simp: blocks_needed_def intro!: exI [of _ 0]) (auto simp: object_zero_def)
  then show ?thesis by (simp add: small_handle_def small_pool1_def prod_eq_iff)
qed

lemma small_pool1_ok: "pool_ok small_pool1" and small_refs: "pool_refs small_pool1 small_handle = 1"
  and small_size: "audio_pool_object_size small_pool1 small_handle = 5"
  using audio_pool_alloc_ok(1,3,4) [OF small_pool_inv _ small_alloc] by (simp_all add: small_pool_sel)

lemma small_valid: "audio_pool_handle_valid small_pool1 small_handle"
  using prc.valid_iff [OF small_pool1_ok] small_refs by simp

section \<open>Properties\<close>

text \<open>
  C9: an allocation that is in range for the 32-bit rounding fails exactly when there are
  too few free blocks or no free slot, and then changes nothing; when it succeeds the
  invariant holds again, the new handle was not valid before and has one reference, the
  object has the asked size, the free count went down by the blocks of the object, and
  every other object keeps its references and its bytes.
\<close>

theorem audio_pool_alloc_correct:
  assumes "pool_ok p" and "sz + ap_block_size p \<le> 4294967296"
    and "audio_pool_alloc p sz vm = (r, h, q)"
  shows "(r = AUDIO_POOL_OK \<longleftrightarrow> blocks_needed p sz \<le> ap_free_blocks p \<and>
            (\<exists>s < length (ap_objects p). \<not> ob_in_use (ap_objects p ! s))) \<and>
    (r \<noteq> AUDIO_POOL_OK \<longrightarrow> h = 0 \<and> q = p) \<and>
    (r = AUDIO_POOL_OK \<longrightarrow>
       pool_ok q \<and> sz \<le> blocks_needed p sz * ap_block_size p \<and>
       ap_free_blocks q + blocks_needed p sz = ap_free_blocks p \<and>
       \<not> audio_pool_handle_valid p h \<and> audio_pool_object_size q h = sz \<and>
       (\<forall>h'. pool_refs q h' = (if h' = h then 1 else pool_refs p h')) \<and>
       (\<forall>h'. audio_pool_handle_valid p h' \<longrightarrow>
             audio_pool_object_size q h' = audio_pool_object_size p h' \<and>
             object_bytes q h' = object_bytes p h'))"
proof -
  obtain ch where inv: "pool_inv p ch" using assms(1) by (auto simp: pool_ok_def)
  have e: "r = fst (audio_pool_alloc p sz vm)" "(h, q) = snd (audio_pool_alloc p sz vm)"
    using assms(3) by simp_all
  have iff: "r = AUDIO_POOL_OK \<longleftrightarrow> blocks_needed p sz \<le> ap_free_blocks p \<and>
            (\<exists>s < length (ap_objects p). \<not> ob_in_use (ap_objects p ! s))"
    unfolding e(1) audio_pool_alloc_errors(1) [OF inv] by auto
  have err: "r \<noteq> AUDIO_POOL_OK \<longrightarrow> h = 0 \<and> q = p"
    using audio_pool_alloc_errors(2) [OF inv, of sz vm] e by auto
  have ok: "pool_ok q \<and> sz \<le> blocks_needed p sz * ap_block_size p \<and>
       ap_free_blocks q + blocks_needed p sz = ap_free_blocks p \<and>
       \<not> audio_pool_handle_valid p h \<and> audio_pool_object_size q h = sz \<and>
       (\<forall>h'. pool_refs q h' = (if h' = h then 1 else pool_refs p h')) \<and>
       (\<forall>h'. audio_pool_handle_valid p h' \<longrightarrow>
             audio_pool_object_size q h' = audio_pool_object_size p h' \<and>
             object_bytes q h' = object_bytes p h')" if r: "r = AUDIO_POOL_OK"
  proof -
    note a = audio_pool_alloc_ok [OF inv assms(2) assms(3) [unfolded r]]
    have "0 < ap_block_size p" using inv by (simp add: pool_inv_def)
    moreover have "\<not> audio_pool_handle_valid p h" using prc.valid_iff [OF assms(1)] a(2) by simp
    moreover have "audio_pool_object_size q h' = audio_pool_object_size p h' \<and>
             object_bytes q h' = object_bytes p h'" if "audio_pool_handle_valid p h'" for h'
      using that alloc_keeps_bytes [OF inv assms(2) assms(3) [unfolded r]]
      by (auto simp: audio_pool_handle_valid_def)
    ultimately show ?thesis using a(1,3,4,5) blocks_needed_enough [OF assms(2)] by blast
  qed
  show ?thesis using iff err ok by blast
qed

theorem audio_pool_alloc_correct_witness:
  "pool_ok small_pool1 \<and> audio_pool_object_size small_pool1 small_handle = 5"
  using audio_pool_alloc_correct [OF small_pool_ok _ small_alloc] by (simp add: small_pool_sel)

text \<open>
  C10: a block of bytes written into an object and read back comes back unchanged, clipped
  at the end of the object, whatever blocks the chain of the object visits; the bytes
  outside the range and all other objects keep their contents.
\<close>

theorem audio_pool_write_read:
  assumes "pool_ok p" and "audio_pool_handle_valid p h"
    and "audio_pool_write p h off src = (r, k, q)"
  shows "r = AUDIO_POOL_OK \<and> k = min (length src) (audio_pool_object_size p h - off) \<and> pool_ok q \<and>
    audio_pool_read q h off k = (AUDIO_POOL_OK, take k src) \<and>
    object_bytes q h = blit (object_bytes p h) off (take k src) \<and>
    audio_pool_object_size q h = audio_pool_object_size p h \<and>
    (\<forall>h'. audio_pool_handle_valid q h' = audio_pool_handle_valid p h') \<and>
    (\<forall>h'. h' \<noteq> h \<and> audio_pool_handle_valid p h' \<longrightarrow> object_bytes q h' = object_bytes p h')"
proof -
  obtain ch where inv: "pool_inv p ch" using assms(1) by (auto simp: pool_ok_def)
  obtain s where res: "resolve p h = Some s" using assms(2) by (auto simp: audio_pool_handle_valid_def)
  from audio_pool_write_spec [OF inv res, of off src] assms(3)
  have w: "r = AUDIO_POOL_OK" "k = min (length src) (audio_pool_object_size p h - off)" "pool_inv q ch"
    "\<forall>h'. resolve q h' = resolve p h'" "object_bytes q h = blit (object_bytes p h) off (take k src)"
    "\<forall>h'. h' \<noteq> h \<longrightarrow> resolve p h' \<noteq> None \<longrightarrow> object_bytes q h' = object_bytes p h'" by auto
  have resq: "resolve q h = Some s" using w(4) res by simp
  have len: "length (object_bytes p h) = audio_pool_object_size p h"
    by (rule object_bytes_chain(2) [OF inv res])
  have size: "audio_pool_object_size q h = audio_pool_object_size p h"
    using object_bytes_chain(2) [OF w(3) resq] len w(2,5)
    by (cases "k = 0") (auto simp: length_blit)
  have "audio_pool_read q h off k = (AUDIO_POOL_OK, seg off k (object_bytes q h))"
    unfolding audio_pool_read_chain [OF w(3) resq] object_bytes_chain(1) [OF w(3) resq] ..
  also have "seg off k (object_bytes q h) = take k src"
    unfolding w(5) using len w(2) seg_blit_same [of off "take k src" "object_bytes p h"]
    by (cases "k = 0") (auto simp: seg_def)
  finally show ?thesis using w size by (auto simp: pool_ok_def audio_pool_handle_valid_def)
qed

theorem audio_pool_write_read_witness:
  "\<exists>q. audio_pool_read q small_handle 3 2 = (AUDIO_POOL_OK, [10, 20])"
proof -
  obtain r k q where "audio_pool_write small_pool1 small_handle 3 [10, 20, 30] = (r, k, q)"
    by (cases "audio_pool_write small_pool1 small_handle 3 [10, 20, 30]") auto
  from audio_pool_write_read [OF small_pool1_ok small_valid this]
  have "k = 2" and "audio_pool_read q small_handle 3 k = (AUDIO_POOL_OK, take k [10, 20, 30])"
    by (auto simp: small_size)
  then show ?thesis by auto
qed

text \<open>
  C11: releasing a reference of a valid handle takes exactly one reference from that object
  and from no other, keeps the bytes of all objects that stay, and with the last reference
  reports the release, gives the blocks back, and makes the handle stale: every further
  operation on it answers with the bad-handle error.
\<close>

theorem audio_pool_unref_correct:
  assumes "pool_ok p" and "audio_pool_handle_valid p h" and "audio_pool_unref p h = (r, freed, q)"
  shows "r = AUDIO_POOL_OK \<and> pool_ok q \<and> (freed \<longleftrightarrow> audio_pool_refcount p h = 1) \<and>
    (\<forall>h'. pool_refs q h' = pool_refs p h' - (if h' = h then 1 else 0)) \<and>
    (\<forall>h'. audio_pool_handle_valid q h' \<longrightarrow> object_bytes q h' = object_bytes p h') \<and>
    (if freed then ap_free_blocks p < ap_free_blocks q else ap_free_blocks q = ap_free_blocks p) \<and>
    (freed \<longrightarrow> \<not> audio_pool_handle_valid q h \<and>
       fst (audio_pool_ref q h) = AUDIO_POOL_ERR_BAD_HANDLE \<and>
       audio_pool_unref q h = (AUDIO_POOL_ERR_BAD_HANDLE, False, q) \<and>
       audio_pool_read q h 0 n = (AUDIO_POOL_ERR_BAD_HANDLE, []) \<and>
       audio_pool_write q h 0 src = (AUDIO_POOL_ERR_BAD_HANDLE, 0, q))"
proof -
  obtain ch where inv: "pool_inv p ch" using assms(1) by (auto simp: pool_ok_def)
  obtain s where res: "resolve p h = Some s" using assms(2) by (auto simp: audio_pool_handle_valid_def)
  then obtain g where "unpack_handle h = Some (s, g)" by (auto simp: resolve_Some)
  with res assms(3) have eq: "r = AUDIO_POOL_OK" "drop_ref p s = (freed, q)"
    by (simp_all add: audio_pool_unref_def)
  note d = drop_ref_spec [OF inv res, unfolded eq(2) fst_conv snd_conv]
  have refs1: "pool_refs p h = 1 \<longleftrightarrow> audio_pool_refcount p h = 1"
    using res by (simp add: pool_refs_def audio_pool_refcount_def)
  have ok: "pool_ok q" using d(1) by (auto simp: pool_ok_def)
  have blocks: "0 < ob_nblocks (ap_objects p ! s)"
    using resolve_object(3) [OF inv res] by (simp add: object_ok_def Let_def)
  have stale: "resolve q h = None" if freed
    using that d(2) [of h] d(3) prc.valid_iff [OF ok, of h] by (simp add: audio_pool_handle_valid_def)
  have bytes: "object_bytes q h' = object_bytes p h'" if "audio_pool_handle_valid q h'" for h'
    using drop_ref_bytes [OF inv res, of h'] that eq(2) by simp
  show ?thesis
    using eq(1) ok d(2,3,4) refs1 bytes blocks stale
    by (auto simp: audio_pool_handle_valid_def audio_pool_ref_def audio_pool_unref_def
        audio_pool_read_def audio_pool_write_def split: option.splits)
qed

theorem audio_pool_unref_correct_witness:
  "\<exists>q. audio_pool_unref small_pool1 small_handle = (AUDIO_POOL_OK, True, q) \<and>
       \<not> audio_pool_handle_valid q small_handle"
proof -
  obtain r f q where u: "audio_pool_unref small_pool1 small_handle = (r, f, q)"
    by (cases "audio_pool_unref small_pool1 small_handle") auto
  have "audio_pool_refcount small_pool1 small_handle = 1"
    using small_refs small_valid
    by (auto simp: audio_pool_refcount_def pool_refs_def audio_pool_handle_valid_def)
  with audio_pool_unref_correct [OF small_pool1_ok small_valid u] u show ?thesis by auto
qed

text \<open>
  the sweep of a stopped VM takes exactly one reference from each object that the VM
  owns and none from any other object, and keeps the invariant of the pool.
\<close>

theorem audio_pool_sweep_vm_correct:
  assumes "pool_ok p"
  shows "pool_ok (snd (audio_pool_sweep_vm p vm)) \<and>
    pool_refs (snd (audio_pool_sweep_vm p vm)) h =
      pool_refs p h -
        (if \<exists>s. resolve p h = Some s \<and> ob_owner_vm (ap_objects p ! s) = vm then 1 else 0)"
proof -
  obtain ch where inv: "pool_inv p ch" using assms(1) by (auto simp: pool_ok_def)
  show ?thesis
    using sweep_from_spec [OF assms, of "[0..<length (ap_objects p)]" vm 0 h]
    unfolding swept_all [OF inv] audio_pool_sweep_vm_def by simp
qed

theorem audio_pool_sweep_vm_correct_witness:
  "pool_ok small_pool1 \<and> pool_ok (snd (audio_pool_sweep_vm small_pool1 7))"
  using audio_pool_sweep_vm_correct [OF small_pool1_ok] small_pool1_ok by blast

text \<open>
  the rounding \<^verbatim>\<open>size + block_size - 1\<close> wraps at 32 bits, so an allocation of
  \<^verbatim>\<open>0xFFFFFFFF\<close> bytes, which no pool can hold, asks for one block only; the small pool
  grants it and reports an object of that size.
\<close>

theorem audio_pool_alloc_wraps:
  "blocks_needed small_pool 4294967295 = 1 \<and>
   fst (audio_pool_alloc small_pool 4294967295 vm) = AUDIO_POOL_OK \<and>
   length (ap_region small_pool) = 24"
proof -
  have b: "blocks_needed small_pool 4294967295 = 1"
    by (simp add: blocks_needed_def small_pool_sel u32_def)
  have "\<not> (\<forall>s < length (ap_objects small_pool). ob_in_use (ap_objects small_pool ! s))"
    by (auto simp: small_pool_sel object_zero_def intro!: exI [of _ 0])
  then have "fst (audio_pool_alloc small_pool 4294967295 vm) = AUDIO_POOL_OK"
    unfolding audio_pool_alloc_errors(1) [OF small_pool_inv] b by (simp add: small_pool_sel)
  moreover have "length (ap_region small_pool) = 24"
    by (simp add: small_pool_def audio_pool_init_def Let_def)
  ultimately show ?thesis using b by simp
qed

end
