(* ===== verification/Audio_Arbiter.thy ===== *)
theory Audio_Arbiter
  imports Audio_Pool_Spec
begin

unbundle bit_operations_syntax

text \<open>
  \<^verbatim>\<open>engine/audio/audio_arbiter.c\<close>: the arbitration of the mixer tracks among voices.  The sink
  that the arbiter drives is a record of functions over a state \<^verbatim>\<open>ctx\<close> of its own, as in
  the code; the pool that the C struct points to is a field.  \<^verbatim>\<open>AUDIO_ARBITER_MAX_TRACKS\<close>
  is the first argument of \<open>audio_arbiter_init\<close>.
\<close>

section \<open>State\<close>

type_synonym voice_handle = "32 word"

datatype arb_result =
    AUDIO_ARB_OK | AUDIO_ARB_REJECTED | AUDIO_ARB_BAD_OBJECT | AUDIO_ARB_BAD_VOICE
  | AUDIO_ARB_INVALID_ARG

datatype voice_kind = AUDIO_VOICE_SFX | AUDIO_VOICE_MUSIC

record voice_params =
  vp_gain :: int
  vp_pan :: int
  vp_priority :: nat
  vp_loop :: nat

record 'c arbiter_sink =
  sk_start :: "'c \<Rightarrow> nat \<Rightarrow> voice_kind \<Rightarrow> obj_handle \<Rightarrow> voice_params \<Rightarrow> bool \<times> 'c"
  sk_stop :: "'c \<Rightarrow> nat \<Rightarrow> 'c"
  sk_is_done :: "('c \<Rightarrow> nat \<Rightarrow> bool \<times> 'c) option"

record audio_track =
  tk_active :: bool
  tk_object :: obj_handle
  tk_kind :: voice_kind
  tk_owner_vm :: nat
  tk_generation :: "16 word"

record 'c audio_arbiter =
  aa_pool :: audio_pool
  aa_ctx :: 'c
  aa_tracks :: "audio_track list"
  aa_generations :: "16 word list"
  aa_track_count :: nat
  aa_active_count :: nat

section \<open>Handles\<close>

definition pack_voice :: "nat \<Rightarrow> 16 word \<Rightarrow> voice_handle" where
  "pack_voice track gen = push_bit 16 (ucast gen) OR of_nat (track + 1)"

definition unpack_voice :: "voice_handle \<Rightarrow> (nat \<times> 16 word) option" where
  "unpack_voice v =
     (if v = 0 then None
      else let t = unat (v AND 0xFFFF)
           in if t = 0 then None else Some (t - 1, ucast (drop_bit 16 v)))"

definition resolve_voice :: "'c audio_arbiter \<Rightarrow> voice_handle \<Rightarrow> nat option" where
  "resolve_voice a v =
     (case unpack_voice v of
        None \<Rightarrow> None
      | Some (track, gen) \<Rightarrow>
          if aa_track_count a \<le> track then None
          else let t = aa_tracks a ! track
               in if \<not> tk_active t then None
                  else if tk_generation t \<noteq> gen then None
                  else Some track)"

section \<open>Lifecycle\<close>

definition track_zero :: audio_track where
  "track_zero = \<lparr>tk_active = False, tk_object = 0, tk_kind = AUDIO_VOICE_SFX, tk_owner_vm = 0,
     tk_generation = 0\<rparr>"

definition audio_arbiter_init ::
    "nat \<Rightarrow> nat \<Rightarrow> audio_pool \<Rightarrow> 'c \<Rightarrow> 'c audio_arbiter option" where
  "audio_arbiter_init max_tracks track_count pool ctx =
     (if track_count = 0 then None
      else Some \<lparr>aa_pool = pool, aa_ctx = ctx,
             aa_tracks = replicate max_tracks track_zero,
             aa_generations = replicate max_tracks 1,
             aa_track_count = (if max_tracks < track_count then max_tracks else track_count),
             aa_active_count = 0\<rparr>)"

section \<open>Play\<close>

fun find_free_track_from :: "audio_track list \<Rightarrow> nat \<Rightarrow> nat \<Rightarrow> nat option" where
  "find_free_track_from ts t 0 = None"
| "find_free_track_from ts t (Suc n) =
     (if \<not> tk_active (ts ! t) then Some t else find_free_track_from ts (t + 1) n)"

definition find_free_track :: "'c audio_arbiter \<Rightarrow> nat" where
  "find_free_track a =
     (case find_free_track_from (aa_tracks a) 0 (aa_track_count a) of
        Some t \<Rightarrow> t | None \<Rightarrow> length (aa_tracks a))"

definition default_params :: voice_params where
  "default_params = \<lparr>vp_gain = 0, vp_pan = 0, vp_priority = 0, vp_loop = 0\<rparr>"

text \<open>The claim of a track, the tail that both forms of play share.\<close>

definition claim_track ::
    "'c audio_arbiter \<Rightarrow> nat \<Rightarrow> obj_handle \<Rightarrow> voice_kind \<Rightarrow> nat \<Rightarrow> voice_handle \<times> 'c audio_arbiter" where
  "claim_track a track object kind owner_vm =
     (let gen = aa_generations a ! track
      in (pack_voice track gen,
          a\<lparr>aa_tracks := (aa_tracks a)[track := \<lparr>tk_active = True, tk_object = object,
              tk_kind = kind, tk_owner_vm = owner_vm, tk_generation = gen\<rparr>],
            aa_active_count := aa_active_count a + 1\<rparr>))"

definition audio_arbiter_play ::
    "'c arbiter_sink \<Rightarrow> 'c audio_arbiter \<Rightarrow> obj_handle \<Rightarrow> voice_kind \<Rightarrow> voice_params option \<Rightarrow> nat \<Rightarrow>
     arb_result \<times> voice_handle \<times> 'c audio_arbiter" where
  "audio_arbiter_play sk a object kind params owner_vm =
     (if \<not> audio_pool_handle_valid (aa_pool a) object then (AUDIO_ARB_BAD_OBJECT, 0, a)
      else let track = find_free_track a
      in if aa_track_count a \<le> track then (AUDIO_ARB_REJECTED, 0, a)
         else let (r, pool1) = audio_pool_ref (aa_pool a) object;
                  a1 = a\<lparr>aa_pool := pool1\<rparr>
         in if r \<noteq> AUDIO_POOL_OK then (AUDIO_ARB_BAD_OBJECT, 0, a1)
            else let p = (case params of Some q \<Rightarrow> q | None \<Rightarrow> default_params);
                     (started, ctx1) = sk_start sk (aa_ctx a1) track kind object p;
                     a2 = a1\<lparr>aa_ctx := ctx1\<rparr>
            in if \<not> started
               then (AUDIO_ARB_REJECTED, 0,
                     a2\<lparr>aa_pool := snd (snd (audio_pool_unref (aa_pool a2) object))\<rparr>)
               else (AUDIO_ARB_OK, claim_track a2 track object kind owner_vm))"

definition audio_arbiter_play_external ::
    "'c arbiter_sink \<Rightarrow> 'c audio_arbiter \<Rightarrow> voice_params option \<Rightarrow> nat \<Rightarrow>
     arb_result \<times> voice_handle \<times> 'c audio_arbiter" where
  "audio_arbiter_play_external sk a params owner_vm =
     (let track = find_free_track a
      in if aa_track_count a \<le> track then (AUDIO_ARB_REJECTED, 0, a)
         else let p = (case params of Some q \<Rightarrow> q | None \<Rightarrow> default_params);
                  (started, ctx1) = sk_start sk (aa_ctx a) track AUDIO_VOICE_MUSIC 0 p;
                  a1 = a\<lparr>aa_ctx := ctx1\<rparr>
         in if \<not> started then (AUDIO_ARB_REJECTED, 0, a1)
            else (AUDIO_ARB_OK, claim_track a1 track 0 AUDIO_VOICE_MUSIC owner_vm))"

section \<open>Stop, finish, sweep and reap\<close>

definition stop_track :: "'c arbiter_sink \<Rightarrow> 'c audio_arbiter \<Rightarrow> nat \<Rightarrow> 'c audio_arbiter" where
  "stop_track sk a track =
     (let t = aa_tracks a ! track
      in if \<not> tk_active t then a
         else let a1 = a\<lparr>aa_ctx := sk_stop sk (aa_ctx a) track\<rparr>;
                  a2 = (if tk_object t \<noteq> 0
                        then a1\<lparr>aa_pool := snd (snd (audio_pool_unref (aa_pool a1) (tk_object t)))\<rparr>
                        else a1)
              in a2\<lparr>aa_generations := (aa_generations a2)
                      [track := bump_generation (aa_generations a2 ! track)],
                    aa_tracks := (aa_tracks a2)[track := track_zero],
                    aa_active_count := aa_active_count a2 - 1\<rparr>)"

definition audio_arbiter_stop ::
    "'c arbiter_sink \<Rightarrow> 'c audio_arbiter \<Rightarrow> voice_handle \<Rightarrow> arb_result \<times> 'c audio_arbiter" where
  "audio_arbiter_stop sk a voice =
     (case unpack_voice voice of
        None \<Rightarrow> (AUDIO_ARB_BAD_VOICE, a)
      | Some (track, gen) \<Rightarrow>
          (case resolve_voice a voice of
             None \<Rightarrow> (AUDIO_ARB_BAD_VOICE, a)
           | Some _ \<Rightarrow> (AUDIO_ARB_OK, stop_track sk a track)))"

definition audio_arbiter_voice_finished ::
    "'c arbiter_sink \<Rightarrow> 'c audio_arbiter \<Rightarrow> voice_handle \<Rightarrow> arb_result \<times> 'c audio_arbiter" where
  "audio_arbiter_voice_finished sk a voice = audio_arbiter_stop sk a voice"

fun reap_from ::
    "'c arbiter_sink \<Rightarrow> ('c \<Rightarrow> nat \<Rightarrow> bool \<times> 'c) \<Rightarrow> nat list \<Rightarrow> nat \<times> 'c audio_arbiter \<Rightarrow>
     nat \<times> 'c audio_arbiter" where
  "reap_from sk done [] s = s"
| "reap_from sk done (t # ts) (reaped, a) =
     (let tr = aa_tracks a ! t
      in if \<not> tk_active tr \<or> tk_kind tr \<noteq> AUDIO_VOICE_SFX then reap_from sk done ts (reaped, a)
         else let (d, ctx1) = done (aa_ctx a) t;
                  a1 = a\<lparr>aa_ctx := ctx1\<rparr>
              in if d then reap_from sk done ts (reaped + 1, stop_track sk a1 t)
                 else reap_from sk done ts (reaped, a1))"

definition audio_arbiter_reap :: "'c arbiter_sink \<Rightarrow> 'c audio_arbiter \<Rightarrow> nat \<times> 'c audio_arbiter" where
  "audio_arbiter_reap sk a =
     (case sk_is_done sk of
        None \<Rightarrow> (0, a)
      | Some done \<Rightarrow> reap_from sk done [0..<aa_track_count a] (0, a))"

fun sweep_tracks ::
    "'c arbiter_sink \<Rightarrow> nat list \<Rightarrow> nat \<Rightarrow> nat \<times> 'c audio_arbiter \<Rightarrow> nat \<times> 'c audio_arbiter" where
  "sweep_tracks sk [] owner_vm s = s"
| "sweep_tracks sk (t # ts) owner_vm (stopped, a) =
     (if tk_active (aa_tracks a ! t) \<and> tk_owner_vm (aa_tracks a ! t) = owner_vm
      then sweep_tracks sk ts owner_vm (stopped + 1, stop_track sk a t)
      else sweep_tracks sk ts owner_vm (stopped, a))"

definition audio_arbiter_sweep_vm ::
    "'c arbiter_sink \<Rightarrow> 'c audio_arbiter \<Rightarrow> nat \<Rightarrow> nat \<times> 'c audio_arbiter" where
  "audio_arbiter_sweep_vm sk a owner_vm =
     sweep_tracks sk [0..<aa_track_count a] owner_vm (0, a)"

section \<open>Introspection\<close>

definition audio_arbiter_voice_valid :: "'c audio_arbiter \<Rightarrow> voice_handle \<Rightarrow> bool" where
  "audio_arbiter_voice_valid a v \<longleftrightarrow> resolve_voice a v \<noteq> None"

definition audio_arbiter_free_tracks :: "'c audio_arbiter \<Rightarrow> nat" where
  "audio_arbiter_free_tracks a = aa_track_count a - aa_active_count a"

definition audio_arbiter_voice_object :: "'c audio_arbiter \<Rightarrow> voice_handle \<Rightarrow> obj_handle" where
  "audio_arbiter_voice_object a v =
     (case resolve_voice a v of None \<Rightarrow> 0 | Some t \<Rightarrow> tk_object (aa_tracks a ! t))"

section \<open>Voices and references\<close>

text \<open>The number of voices that play an object, and the references of it that voices do not hold.\<close>

definition plays :: "obj_handle \<Rightarrow> audio_track \<Rightarrow> bool" where
  "plays h t \<longleftrightarrow> tk_active t \<and> tk_object t = h"

definition voices :: "'c audio_arbiter \<Rightarrow> obj_handle \<Rightarrow> nat" where
  "voices a h = length (filter (plays h) (aa_tracks a))"

definition held :: "'c audio_arbiter \<Rightarrow> obj_handle \<Rightarrow> int" where
  "held a h = pool_refs (aa_pool a) h - int (voices a h)"

definition arb_inv :: "'c audio_arbiter \<Rightarrow> bool" where
  "arb_inv a \<longleftrightarrow>
     pool_ok (aa_pool a) \<and> length (aa_tracks a) < 65535 \<and>
     length (aa_generations a) = length (aa_tracks a) \<and>
     aa_track_count a \<le> length (aa_tracks a) \<and>
     (\<forall>t < length (aa_tracks a). tk_active (aa_tracks a ! t) \<longrightarrow>
        t < aa_track_count a \<and> tk_generation (aa_tracks a ! t) = aa_generations a ! t) \<and>
     aa_active_count a = length (filter tk_active (aa_tracks a)) \<and>
     (\<forall>h. h \<noteq> 0 \<longrightarrow> 0 \<le> held a h)"

lemma pool_refs_zero: "pool_refs p 0 = 0"
  by (simp add: pool_refs_def resolve_def unpack_handle_def)

lemma pack_voice_eq: "pack_voice = pack_handle"
  by (intro ext) (simp add: pack_voice_def pack_handle_def)

lemma unpack_voice_eq: "unpack_voice = unpack_handle"
  by (intro ext) (simp add: unpack_voice_def unpack_handle_def)

lemma resolve_voice_Some:
  "resolve_voice a v = Some t \<longleftrightarrow>
     (\<exists>gen. unpack_voice v = Some (t, gen) \<and> t < aa_track_count a \<and>
            tk_active (aa_tracks a ! t) \<and> tk_generation (aa_tracks a ! t) = gen)"
  by (auto simp: resolve_voice_def Let_def split: option.splits prod.splits if_splits)

lemma resolve_voice_inj: "resolve_voice a v = Some t \<Longrightarrow> resolve_voice a v' = Some t \<Longrightarrow> v = v'"
  by (auto simp: resolve_voice_Some unpack_voice_eq dest!: pack_unpack)

lemma find_free_track_from_None:
  "find_free_track_from ts k n = None \<longleftrightarrow> (\<forall>i. k \<le> i \<and> i < k + n \<longrightarrow> tk_active (ts ! i))"
proof (induction n arbitrary: k)
  case (Suc n)
  have "(\<forall>i. k \<le> i \<and> i < k + Suc n \<longrightarrow> tk_active (ts ! i)) \<longleftrightarrow>
      tk_active (ts ! k) \<and> (\<forall>i. k + 1 \<le> i \<and> i < k + 1 + n \<longrightarrow> tk_active (ts ! i))"
    by (auto simp: Suc_le_eq) (metis add_Suc_right le_neq_implies_less)
  then show ?case using Suc.IH [of "k + 1"] by simp
qed auto

lemma find_free_track_from_Some:
  "find_free_track_from ts k n = Some t \<Longrightarrow> k \<le> t \<and> t < k + n \<and> \<not> tk_active (ts ! t)"
  by (induction n arbitrary: k) (force split: if_splits)+

lemma find_free_track_cases:
  assumes "arb_inv a"
  shows "aa_track_count a \<le> find_free_track a \<longleftrightarrow> (\<forall>t < aa_track_count a. tk_active (aa_tracks a ! t))"
    and "find_free_track a < aa_track_count a \<Longrightarrow> \<not> tk_active (aa_tracks a ! find_free_track a)"
proof -
  have "aa_track_count a \<le> length (aa_tracks a)" using assms by (simp add: arb_inv_def)
  then show "aa_track_count a \<le> find_free_track a \<longleftrightarrow> (\<forall>t < aa_track_count a. tk_active (aa_tracks a ! t))"
    and "find_free_track a < aa_track_count a \<Longrightarrow> \<not> tk_active (aa_tracks a ! find_free_track a)"
    using find_free_track_from_None [of "aa_tracks a" 0 "aa_track_count a"]
      find_free_track_from_Some [of "aa_tracks a" 0 "aa_track_count a"]
    by (auto simp: find_free_track_def split: option.splits)
qed

end
