(* ===== verification/Audio_Arbiter_Spec.thy ===== *)
theory Audio_Arbiter_Spec
  imports Audio_Arbiter Audio_Pool_Props
begin

text \<open>
  What the arbiter promises: every operation keeps its invariant and the references that
  others hold on the pool's objects, a voice handle is valid from its play to its stop and
  stale afterwards, and no interleaving of the arbiter's operations with the clients' own
  pool operations frees an object that a voice plays.
\<close>

section \<open>The two state changes\<close>

lemma option_eqI: "(\<And>s. x = Some s \<longleftrightarrow> y = Some s) \<Longrightarrow> x = y"
  by (cases x; cases y) auto

lemma option_without:
  assumes "\<And>s. x = Some s \<longleftrightarrow> s \<noteq> t \<and> y = Some s"
  shows "x = (if y = Some t then None else y)"
proof (rule option_eqI)
  fix s
  show "x = Some s \<longleftrightarrow> (if y = Some t then None else y) = Some s" using assms [of s] by auto
qed

lemma voices_update:
  assumes "s < length (aa_tracks a)"
  shows "length (filter (plays h) ((aa_tracks a)[s := x])) + (if plays h (aa_tracks a ! s) then 1 else 0) =
         voices a h + (if plays h x then 1 else 0)"
  using length_filter_update [OF assms, of "plays h"] by (simp add: voices_def)

lemma arb_inv_pool_ok: "arb_inv a \<Longrightarrow> pool_ok (aa_pool a)"
  by (simp add: arb_inv_def)

text \<open>An active voice holds a reference, so its object is valid.\<close>

lemma playing_object_valid:
  assumes "arb_inv a" and "t < length (aa_tracks a)" and "tk_active (aa_tracks a ! t)"
    and "tk_object (aa_tracks a ! t) \<noteq> 0"
  shows "audio_pool_handle_valid (aa_pool a) (tk_object (aa_tracks a ! t))"
proof -
  let ?h = "tk_object (aa_tracks a ! t)"
  have "plays ?h (aa_tracks a ! t)" using assms(3) by (simp add: plays_def)
  then have "aa_tracks a ! t \<in> set (filter (plays ?h) (aa_tracks a))"
    using assms(2) by simp
  then have "0 < voices a ?h" unfolding voices_def by (metis length_pos_if_in_set)
  moreover have "0 \<le> held a ?h" using assms(1,4) by (simp add: arb_inv_def)
  ultimately have "0 < pool_refs (aa_pool a) ?h" by (simp add: held_def)
  then show ?thesis using prc.valid_iff [OF arb_inv_pool_ok [OF assms(1)]] by simp
qed

lemma claim_track_spec:
  assumes inv: "arb_inv (a\<lparr>aa_pool := p\<rparr>)" and pool: "pool_ok (aa_pool a)"
    and refs: "\<And>h. h \<noteq> 0 \<Longrightarrow> pool_refs (aa_pool a) h = pool_refs p h + (if h = object then 1 else 0)"
    and t: "t < aa_track_count a" "\<not> tk_active (aa_tracks a ! t)"
    and c: "claim_track a t object kind vm = (v, a')"
  shows "arb_inv a'" and "h \<noteq> 0 \<Longrightarrow> held a' h = pool_refs p h - int (voices a h)"
    and "resolve_voice a' v' = (if v' = v then Some t else resolve_voice a v')"
    and "resolve_voice a v = None" and "aa_active_count a' = aa_active_count a + 1"
    and "audio_arbiter_voice_object a' v = object"
proof -
  let ?g = "aa_generations a ! t"
  define x where "x = \<lparr>tk_active = True, tk_object = object, tk_kind = kind, tk_owner_vm = vm,
    tk_generation = ?g\<rparr>"
  have lt: "t < length (aa_tracks a)" "t < 65535" using inv t(1) by (auto simp: arb_inv_def)
  have a': "a' = a\<lparr>aa_tracks := (aa_tracks a)[t := x], aa_active_count := aa_active_count a + 1\<rparr>"
    and v: "v = pack_voice t ?g" using c by (simp_all add: claim_track_def Let_def x_def)
  have pa: "aa_pool a' = aa_pool a" by (simp add: a')
  have voi: "voices a' h = voices a h + (if h = object then 1 else 0)" for h
    using voices_update [OF lt(1), of h x] t(2) unfolding a'
    by (simp add: voices_def plays_def x_def eq_commute [of h])
  have cnt: "length (filter tk_active ((aa_tracks a)[t := x])) = length (filter tk_active (aa_tracks a)) + 1"
    using length_filter_update [OF lt(1), of tk_active x] t(2) by (simp add: x_def)
  show held: "h \<noteq> 0 \<Longrightarrow> held a' h = pool_refs p h - int (voices a h)" for h
    using refs [of h] voi [of h] pa by (simp add: held_def)
  have "0 \<le> held a' h" if "h \<noteq> 0" for h
    using held [OF that] inv that by (simp add: arb_inv_def held_def voices_def)
  then show "arb_inv a'"
    using inv pool cnt t(1) unfolding a' arb_inv_def by (auto simp: x_def nth_list_update)
  have unp: "unpack_voice v = Some (t, ?g)"
    using lt(2) by (simp add: v unpack_voice_eq pack_voice_eq unpack_pack)
  show new: "resolve_voice a v = None" using unp t(2) by (simp add: resolve_voice_def)
  show "resolve_voice a' v' = (if v' = v then Some t else resolve_voice a v')" for v'
  proof (cases "v' = v")
    case True
    then show ?thesis using unp lt(1) t(1) by (simp add: resolve_voice_Some) (simp add: a' x_def)
  next
    case False
    have "resolve_voice a' v' = Some s \<longleftrightarrow> resolve_voice a v' = Some s" for s
    proof (cases "s = t")
      case True
      have "unpack_voice v' \<noteq> Some (t, ?g)"
        using False v by (auto simp: unpack_voice_eq pack_voice_eq dest: pack_unpack)
      with True lt(1) t show ?thesis by (simp add: resolve_voice_Some) (simp add: a' x_def)
    qed (simp add: resolve_voice_Some a')
    with False show ?thesis by (auto intro: option_eqI)
  qed
  then show "audio_arbiter_voice_object a' v = object"
    using lt(1) by (simp add: audio_arbiter_voice_object_def) (simp add: a' x_def)
  show "aa_active_count a' = aa_active_count a + 1" by (simp add: a')
qed

lemma stop_track_spec:
  assumes inv: "arb_inv a" and t: "t < length (aa_tracks a)"
  shows "arb_inv (stop_track sk a t)" and "h \<noteq> 0 \<Longrightarrow> held (stop_track sk a t) h = held a h"
    and "resolve_voice (stop_track sk a t) v =
           (if resolve_voice a v = Some t then None else resolve_voice a v)"
    and "aa_tracks (stop_track sk a t) =
           (if tk_active (aa_tracks a ! t) then (aa_tracks a)[t := track_zero] else aa_tracks a)"
    and "aa_track_count (stop_track sk a t) = aa_track_count a"
proof -
  have "arb_inv (stop_track sk a t) \<and> (h \<noteq> 0 \<longrightarrow> held (stop_track sk a t) h = held a h) \<and>
    resolve_voice (stop_track sk a t) v =
           (if resolve_voice a v = Some t then None else resolve_voice a v) \<and>
    aa_tracks (stop_track sk a t) =
           (if tk_active (aa_tracks a ! t) then (aa_tracks a)[t := track_zero] else aa_tracks a) \<and>
    aa_track_count (stop_track sk a t) = aa_track_count a"
  proof (cases "tk_active (aa_tracks a ! t)")
    case False
    then have "stop_track sk a t = a" by (simp add: stop_track_def)
    with inv False show ?thesis by (auto simp: resolve_voice_Some)
  next
    case True
    let ?o = "tk_object (aa_tracks a ! t)"
    define q where "q = (if ?o \<noteq> 0 then snd (snd (audio_pool_unref (aa_pool a) ?o)) else aa_pool a)"
    have ok: "pool_ok q"
      using prc.ok_unref [OF arb_inv_pool_ok [OF inv]] arb_inv_pool_ok [OF inv] by (simp add: q_def)
    have refs: "pool_refs q h = pool_refs (aa_pool a) h - (if h = ?o then 1 else 0)" if "h \<noteq> 0" for h
      using prc.refs_unref [OF arb_inv_pool_ok [OF inv] playing_object_valid [OF inv t True]] that
      by (auto simp: q_def)
    define b where "b = stop_track sk a t"
    have b: "aa_pool b = q" "aa_tracks b = (aa_tracks a)[t := track_zero]"
      "aa_generations b = (aa_generations a)[t := bump_generation (aa_generations a ! t)]"
      "aa_track_count b = aa_track_count a" "aa_active_count b = aa_active_count a - 1"
      using True by (simp_all add: b_def stop_track_def Let_def q_def)
    have inact: "\<not> tk_active track_zero" by (simp add: track_zero_def)
    have voi: "voices b h + (if h = ?o then 1 else 0) = voices a h" for h
      using voices_update [OF t, of h track_zero] True inact
      by (simp add: voices_def b plays_def eq_commute [of h])
    have held: "held b h = held a h" if "h \<noteq> 0" for h
      using refs [OF that] voi [of h] by (auto simp: held_def b)
    have cnt: "length (filter tk_active (aa_tracks b)) + 1 = length (filter tk_active (aa_tracks a))"
      using length_filter_update [OF t, of tk_active track_zero] True inact by (simp add: b)
    have act: "s \<noteq> t \<and> tk_active (aa_tracks a ! s)"
      if "tk_active ((aa_tracks a)[t := track_zero] ! s)" for s
      using that t inact by (cases "s = t") simp_all
    have "arb_inv b"
      using inv ok held cnt unfolding arb_inv_def b by (auto dest: act)
    moreover have "resolve_voice b v = (if resolve_voice a v = Some t then None else resolve_voice a v)"
    proof -
      have "resolve_voice b v = Some s \<longleftrightarrow> s \<noteq> t \<and> resolve_voice a v = Some s" for s
        using t inact by (cases "s = t") (simp_all add: resolve_voice_Some b)
      then show ?thesis by (rule option_without)
    qed
    ultimately show ?thesis using held b(2,4) True by (simp add: b_def [symmetric])
  qed
  then show "arb_inv (stop_track sk a t)" and "h \<noteq> 0 \<Longrightarrow> held (stop_track sk a t) h = held a h"
    and "resolve_voice (stop_track sk a t) v =
           (if resolve_voice a v = Some t then None else resolve_voice a v)"
    and "aa_tracks (stop_track sk a t) =
           (if tk_active (aa_tracks a ! t) then (aa_tracks a)[t := track_zero] else aa_tracks a)"
    and "aa_track_count (stop_track sk a t) = aa_track_count a" by auto
qed

section \<open>Play\<close>

lemma arb_inv_pool:
  assumes "arb_inv a" and "pool_ok p" and "\<And>h. pool_refs p h = pool_refs (aa_pool a) h"
  shows "arb_inv (a\<lparr>aa_pool := p, aa_ctx := c\<rparr>)"
    and "held (a\<lparr>aa_pool := p, aa_ctx := c\<rparr>) h = held a h"
proof -
  have h: "held (a\<lparr>aa_pool := p, aa_ctx := c\<rparr>) h = held a h" for h
    using assms(3) by (simp add: held_def voices_def)
  then show "held (a\<lparr>aa_pool := p, aa_ctx := c\<rparr>) h = held a h" .
  show "arb_inv (a\<lparr>aa_pool := p, aa_ctx := c\<rparr>)"
    using assms(1,2) h unfolding arb_inv_def by simp
qed

lemma resolve_voice_pool [simp]:
  "resolve_voice (a\<lparr>aa_pool := p\<rparr>) = resolve_voice a" "resolve_voice (a\<lparr>aa_ctx := c\<rparr>) = resolve_voice a"
  by (intro ext option_eqI, simp add: resolve_voice_Some)+

lemma audio_arbiter_play_spec:
  assumes inv: "arb_inv a" and lim: "pool_refs (aa_pool a) object < 2147483647"
    and p: "audio_arbiter_play sk a object kind params vm = (r, v, a')"
  shows "arb_inv a'" and "h \<noteq> 0 \<Longrightarrow> held a' h = held a h"
    and "r = AUDIO_ARB_OK \<Longrightarrow> \<not> audio_arbiter_voice_valid a v \<and> audio_arbiter_voice_valid a' v \<and>
           audio_arbiter_voice_object a' v = object \<and>
           (\<forall>v'. v' \<noteq> v \<longrightarrow> audio_arbiter_voice_valid a' v' = audio_arbiter_voice_valid a v')"
    and "r \<noteq> AUDIO_ARB_OK \<Longrightarrow> v = 0 \<and> (\<forall>v'. resolve_voice a' v' = resolve_voice a v') \<and>
           aa_tracks a' = aa_tracks a"
proof -
  let ?t = "find_free_track a"
  define q where "q = snd (audio_pool_ref (aa_pool a) object)"
  obtain b c where sk: "sk_start sk (aa_ctx a) ?t kind object
      (case params of Some q \<Rightarrow> q | None \<Rightarrow> default_params) = (b, c)" by fastforce
  note pok = arb_inv_pool_ok [OF inv]
  consider (bad) "\<not> audio_pool_handle_valid (aa_pool a) object"
    | (full) "aa_track_count a \<le> ?t" "audio_pool_handle_valid (aa_pool a) object"
    | (go) "?t < aa_track_count a" "audio_pool_handle_valid (aa_pool a) object"
    by linarith
  then have "arb_inv a' \<and> (h \<noteq> 0 \<longrightarrow> held a' h = held a h) \<and>
     (r = AUDIO_ARB_OK \<longrightarrow> \<not> audio_arbiter_voice_valid a v \<and> audio_arbiter_voice_valid a' v \<and>
           audio_arbiter_voice_object a' v = object \<and>
           (\<forall>v'. v' \<noteq> v \<longrightarrow> audio_arbiter_voice_valid a' v' = audio_arbiter_voice_valid a v')) \<and>
     (r \<noteq> AUDIO_ARB_OK \<longrightarrow> v = 0 \<and> (\<forall>v'. resolve_voice a' v' = resolve_voice a v') \<and>
        aa_tracks a' = aa_tracks a)"
  proof cases
    case bad
    with p inv show ?thesis by (auto simp: audio_arbiter_play_def)
  next
    case full
    with p inv show ?thesis by (auto simp: audio_arbiter_play_def Let_def)
  next
    case go
    have ref: "audio_pool_ref (aa_pool a) object = (AUDIO_POOL_OK, q)"
      using go(2) by (auto simp: q_def audio_pool_ref_def audio_pool_handle_valid_def)
    have qok: "pool_ok q" and qrefs: "pool_refs q h = pool_refs (aa_pool a) h + (if h = object then 1 else 0)" for h
      using prc.ok_ref [OF pok lim] prc.refs_ref [OF pok go(2) lim] by (simp_all add: q_def)
    have qv: "audio_pool_handle_valid q object"
      using prc.ref_keeps_valid [OF pok go(2) lim go(2)] by (simp add: q_def)
    show ?thesis
    proof (cases b)
      case False
      define p' where "p' = snd (snd (audio_pool_unref q object))"
      have "pool_ok p'" and "pool_refs p' h = pool_refs (aa_pool a) h" for h
        using prc.ok_unref [OF qok] prc.refs_unref [OF qok qv] qrefs by (simp_all add: p'_def)
      have "r = AUDIO_ARB_REJECTED \<and> v = 0 \<and> a' = a\<lparr>aa_pool := p', aa_ctx := c\<rparr>"
        using p go ref sk False by (auto simp: audio_arbiter_play_def Let_def p'_def)
      then show ?thesis
        using arb_inv_pool [OF inv \<open>pool_ok p'\<close> \<open>\<And>h. pool_refs p' h = pool_refs (aa_pool a) h\<close>]
        by simp
    next
      case True
      let ?a2 = "a\<lparr>aa_pool := q, aa_ctx := c\<rparr>"
      have r: "r = AUDIO_ARB_OK" and cl: "claim_track ?a2 ?t object kind vm = (v, a')"
        using p go ref sk True by (simp_all add: audio_arbiter_play_def Let_def)
      have "arb_inv (?a2\<lparr>aa_pool := aa_pool a\<rparr>)"
        using arb_inv_pool(1) [OF inv pok, of c] by simp
      from claim_track_spec [OF this _ _ _ _ cl] show ?thesis
        using r qok qrefs go(1) find_free_track_cases(2) [OF inv]
        by (simp add: held_def voices_def audio_arbiter_voice_valid_def)
    qed
  qed
  then show "arb_inv a'" and "h \<noteq> 0 \<Longrightarrow> held a' h = held a h"
    and "r = AUDIO_ARB_OK \<Longrightarrow> \<not> audio_arbiter_voice_valid a v \<and> audio_arbiter_voice_valid a' v \<and>
           audio_arbiter_voice_object a' v = object \<and>
           (\<forall>v'. v' \<noteq> v \<longrightarrow> audio_arbiter_voice_valid a' v' = audio_arbiter_voice_valid a v')"
    and "r \<noteq> AUDIO_ARB_OK \<Longrightarrow> v = 0 \<and> (\<forall>v'. resolve_voice a' v' = resolve_voice a v') \<and>
           aa_tracks a' = aa_tracks a"
    by blast+
qed

lemma audio_arbiter_play_external_spec:
  assumes inv: "arb_inv a" and p: "audio_arbiter_play_external sk a params vm = (r, v, a')"
  shows "arb_inv a' \<and> (\<forall>h. h \<noteq> 0 \<longrightarrow> held a' h = held a h) \<and>
    (r = AUDIO_ARB_OK \<longrightarrow> \<not> audio_arbiter_voice_valid a v \<and> audio_arbiter_voice_valid a' v) \<and>
    (r \<noteq> AUDIO_ARB_OK \<longrightarrow> r = AUDIO_ARB_REJECTED \<and> v = 0 \<and> aa_tracks a' = aa_tracks a)"
proof -
  let ?t = "find_free_track a"
  obtain b c where sk: "sk_start sk (aa_ctx a) ?t AUDIO_VOICE_MUSIC 0
      (case params of Some q \<Rightarrow> q | None \<Rightarrow> default_params) = (b, c)" by fastforce
  note pok = arb_inv_pool_ok [OF inv]
  have ctx: "a\<lparr>aa_ctx := c\<rparr> = a\<lparr>aa_pool := aa_pool a, aa_ctx := c\<rparr>" by simp
  have inv1: "arb_inv (a\<lparr>aa_ctx := c\<rparr>)" "\<And>h. held (a\<lparr>aa_ctx := c\<rparr>) h = held a h"
    unfolding ctx using arb_inv_pool [OF inv pok] by simp_all
  show ?thesis
  proof (cases "aa_track_count a \<le> ?t \<or> \<not> b")
    case True
    then have "r = AUDIO_ARB_REJECTED \<and> v = 0 \<and> (a' = a \<or> a' = a\<lparr>aa_ctx := c\<rparr>)"
      using p sk by (auto simp: audio_arbiter_play_external_def Let_def split: if_splits)
    then show ?thesis using inv inv1 by auto
  next
    case False
    let ?a1 = "a\<lparr>aa_ctx := c\<rparr>"
    have r: "r = AUDIO_ARB_OK" and cl: "claim_track ?a1 ?t 0 AUDIO_VOICE_MUSIC vm = (v, a')"
      using p sk False by (simp_all add: audio_arbiter_play_external_def Let_def)
    have "arb_inv (?a1\<lparr>aa_pool := aa_pool a\<rparr>)" using inv1(1) by simp
    from claim_track_spec [OF this _ _ _ _ cl] show ?thesis
      using r pok False find_free_track_cases(2) [OF inv]
      by (simp add: held_def voices_def audio_arbiter_voice_valid_def)
  qed
qed

section \<open>Stop\<close>

lemma audio_arbiter_stop_spec:
  assumes inv: "arb_inv a" and s: "audio_arbiter_stop sk a v = (r, a')"
  shows "arb_inv a'" and "h \<noteq> 0 \<Longrightarrow> held a' h = held a h"
    and "r = (if audio_arbiter_voice_valid a v then AUDIO_ARB_OK else AUDIO_ARB_BAD_VOICE)"
    and "audio_arbiter_voice_valid a' v' \<longleftrightarrow> v' \<noteq> v \<and> audio_arbiter_voice_valid a v'"
    and "\<not> audio_arbiter_voice_valid a v \<Longrightarrow> a' = a"
proof -
  have "arb_inv a' \<and> (h \<noteq> 0 \<longrightarrow> held a' h = held a h) \<and>
    r = (if audio_arbiter_voice_valid a v then AUDIO_ARB_OK else AUDIO_ARB_BAD_VOICE) \<and>
    (audio_arbiter_voice_valid a' v' \<longleftrightarrow> v' \<noteq> v \<and> audio_arbiter_voice_valid a v') \<and>
    (\<not> audio_arbiter_voice_valid a v \<longrightarrow> a' = a)"
  proof (cases "resolve_voice a v")
    case None
    then have "r = AUDIO_ARB_BAD_VOICE \<and> a' = a"
      using s by (auto simp: audio_arbiter_stop_def split: option.splits)
    then show ?thesis using inv None by (auto simp: audio_arbiter_voice_valid_def)
  next
    case (Some t)
    then obtain g where u: "unpack_voice v = Some (t, g)" and t: "t < aa_track_count a"
      by (auto simp: resolve_voice_Some)
    then have "t < length (aa_tracks a)" using inv by (simp add: arb_inv_def)
    note st = stop_track_spec [OF inv this]
    have iff: "resolve_voice a v' = Some t \<longleftrightarrow> v' = v" using Some resolve_voice_inj by metis
    have "r = AUDIO_ARB_OK" "a' = stop_track sk a t"
      using s u Some by (simp_all add: audio_arbiter_stop_def)
    then show ?thesis
      using st(1) st(2) st(3) [of sk v'] Some iff by (simp add: audio_arbiter_voice_valid_def)
  qed
  then show "arb_inv a'" and "h \<noteq> 0 \<Longrightarrow> held a' h = held a h"
    and "r = (if audio_arbiter_voice_valid a v then AUDIO_ARB_OK else AUDIO_ARB_BAD_VOICE)"
    and "audio_arbiter_voice_valid a' v' \<longleftrightarrow> v' \<noteq> v \<and> audio_arbiter_voice_valid a v'"
    and "\<not> audio_arbiter_voice_valid a v \<Longrightarrow> a' = a"
    by blast+
qed

section \<open>Sweep and reap\<close>

lemma sweep_tracks_spec:
  assumes "arb_inv a" and "\<forall>t \<in> set ts. t < length (aa_tracks a)"
  shows "arb_inv (snd (sweep_tracks sk ts vm (k, a))) \<and>
    (\<forall>h. h \<noteq> 0 \<longrightarrow> held (snd (sweep_tracks sk ts vm (k, a))) h = held a h) \<and>
    aa_track_count (snd (sweep_tracks sk ts vm (k, a))) = aa_track_count a \<and>
    aa_tracks (snd (sweep_tracks sk ts vm (k, a))) =
      map (\<lambda>i. if i \<in> set ts \<and> tk_active (aa_tracks a ! i) \<and> tk_owner_vm (aa_tracks a ! i) = vm
               then track_zero else aa_tracks a ! i) [0..<length (aa_tracks a)]"
  using assms
proof (induction ts arbitrary: k a)
  case Nil
  then show ?case by (simp add: map_nth)
next
  case (Cons t ts)
  show ?case
  proof (cases "tk_active (aa_tracks a ! t) \<and> tk_owner_vm (aa_tracks a ! t) = vm")
    case False
    then have "sweep_tracks sk (t # ts) vm (k, a) = sweep_tracks sk ts vm (k, a)"
      by (simp only: sweep_tracks.simps False if_False)
    moreover have "(i \<in> set (t # ts) \<and> tk_active (aa_tracks a ! i) \<and> tk_owner_vm (aa_tracks a ! i) = vm)
        = (i \<in> set ts \<and> tk_active (aa_tracks a ! i) \<and> tk_owner_vm (aa_tracks a ! i) = vm)" for i
      using False by auto
    ultimately show ?thesis using Cons.IH [of a k] Cons.prems by simp
  next
    case True
    have t: "t < length (aa_tracks a)" using Cons.prems(2) by simp
    let ?b = "stop_track sk a t"
    note st = stop_track_spec [OF Cons.prems(1) t, where sk = sk]
    have b: "aa_tracks ?b = (aa_tracks a)[t := track_zero]" using st(4) True by simp
    have "sweep_tracks sk (t # ts) vm (k, a) = sweep_tracks sk ts vm (k + 1, ?b)"
      using True by simp
    moreover have "\<forall>t' \<in> set ts. t' < length (aa_tracks ?b)" using Cons.prems(2) b by simp
    note Cons.IH [OF st(1) this, of "k + 1"]
    moreover have "map (\<lambda>i. if i \<in> set ts \<and> tk_active (aa_tracks ?b ! i) \<and> tk_owner_vm (aa_tracks ?b ! i) = vm
               then track_zero else aa_tracks ?b ! i) [0..<length (aa_tracks ?b)] =
        map (\<lambda>i. if i \<in> set (t # ts) \<and> tk_active (aa_tracks a ! i) \<and> tk_owner_vm (aa_tracks a ! i) = vm
               then track_zero else aa_tracks a ! i) [0..<length (aa_tracks a)]"
      unfolding b using True t by (intro map_cong) (auto simp: nth_list_update)
    ultimately show ?thesis using st(2,5) by simp
  qed
qed

lemma arb_inv_ctx: "arb_inv (a\<lparr>aa_ctx := c\<rparr>) = arb_inv a" "held (a\<lparr>aa_ctx := c\<rparr>) h = held a h"
  by (simp_all add: arb_inv_def held_def voices_def)

lemma reap_from_spec:
  assumes "arb_inv a" and "\<forall>t \<in> set ts. t < length (aa_tracks a)"
  shows "arb_inv (snd (reap_from sk done ts (k, a))) \<and>
    (\<forall>h. h \<noteq> 0 \<longrightarrow> held (snd (reap_from sk done ts (k, a))) h = held a h) \<and>
    length (aa_tracks (snd (reap_from sk done ts (k, a)))) = length (aa_tracks a) \<and>
    (\<forall>i < length (aa_tracks a). tk_kind (aa_tracks a ! i) = AUDIO_VOICE_MUSIC \<longrightarrow>
       aa_tracks (snd (reap_from sk done ts (k, a))) ! i = aa_tracks a ! i)"
  using assms
proof (induction ts arbitrary: k a)
  case Nil
  then show ?case by simp
next
  case (Cons t ts)
  obtain d c where dn: "done (aa_ctx a) t = (d, c)" by fastforce
  let ?a1 = "a\<lparr>aa_ctx := c\<rparr>"
  have t: "t < length (aa_tracks ?a1)" and ts: "\<forall>t' \<in> set ts. t' < length (aa_tracks ?a1)"
    using Cons.prems(2) by auto
  have inv1: "arb_inv ?a1" using Cons.prems(1) by (simp add: arb_inv_ctx)
  consider (skip) "\<not> tk_active (aa_tracks a ! t) \<or> tk_kind (aa_tracks a ! t) \<noteq> AUDIO_VOICE_SFX"
    | (keep) "tk_active (aa_tracks a ! t)" "tk_kind (aa_tracks a ! t) = AUDIO_VOICE_SFX" "\<not> d"
    | (stop) "tk_active (aa_tracks a ! t)" "tk_kind (aa_tracks a ! t) = AUDIO_VOICE_SFX" "d"
    by blast
  then show ?case
  proof cases
    case skip
    then have "reap_from sk done (t # ts) (k, a) = reap_from sk done ts (k, a)"
      by (simp only: reap_from.simps Let_def if_True)
    then show ?thesis using Cons.IH [of a k] Cons.prems by simp
  next
    case keep
    then have "reap_from sk done (t # ts) (k, a) = reap_from sk done ts (k, ?a1)"
      using dn by (simp add: Let_def)
    then show ?thesis using Cons.IH [OF inv1 ts, of k] by (simp add: arb_inv_ctx)
  next
    case stop
    let ?b = "stop_track sk ?a1 t"
    note st = stop_track_spec [OF inv1 t, where sk = sk]
    have b: "aa_tracks ?b = (aa_tracks a)[t := track_zero]" using st(4) stop by simp
    have "reap_from sk done (t # ts) (k, a) = reap_from sk done ts (k + 1, ?b)"
      using stop dn by (simp add: Let_def)
    moreover have "\<forall>t' \<in> set ts. t' < length (aa_tracks ?b)" using ts b by simp
    note Cons.IH [OF st(1) this, of "k + 1"]
    moreover have "aa_tracks ?b ! i = aa_tracks a ! i"
      if "tk_kind (aa_tracks a ! i) = AUDIO_VOICE_MUSIC" for i
      using that stop b by (cases "i = t") simp_all
    ultimately show ?thesis using st(2) b by (simp add: arb_inv_ctx)
  qed
qed

section \<open>The arbiter and its clients\<close>

text \<open>
  The engine interleaves the arbiter's operations with its own use of the pool.  A client
  may take and drop only references of its own, which the ghost function \<open>hold\<close> counts.
\<close>

inductive arb_step ::
    "'c arbiter_sink \<Rightarrow> 'c audio_arbiter \<times> (obj_handle \<Rightarrow> int) \<Rightarrow>
     'c audio_arbiter \<times> (obj_handle \<Rightarrow> int) \<Rightarrow> bool" for sk where
  play: "audio_arbiter_play sk a object kind params vm = (r, v, a') \<Longrightarrow>
         pool_refs (aa_pool a) object < 2147483647 \<Longrightarrow> arb_step sk (a, hold) (a', hold)"
| play_external: "audio_arbiter_play_external sk a params vm = (r, v, a') \<Longrightarrow>
         arb_step sk (a, hold) (a', hold)"
| stop: "audio_arbiter_stop sk a v = (r, a') \<Longrightarrow> arb_step sk (a, hold) (a', hold)"
| finished: "audio_arbiter_voice_finished sk a v = (r, a') \<Longrightarrow> arb_step sk (a, hold) (a', hold)"
| reap: "audio_arbiter_reap sk a = (n, a') \<Longrightarrow> arb_step sk (a, hold) (a', hold)"
| sweep: "audio_arbiter_sweep_vm sk a vm = (n, a') \<Longrightarrow> arb_step sk (a, hold) (a', hold)"
| client_alloc: "audio_pool_alloc (aa_pool a) sz vm = (AUDIO_POOL_OK, h, p) \<Longrightarrow>
         sz + ap_block_size (aa_pool a) \<le> 4294967296 \<Longrightarrow>
         arb_step sk (a, hold) (a\<lparr>aa_pool := p\<rparr>, hold(h := 1))"
| client_ref: "audio_pool_ref (aa_pool a) h = (AUDIO_POOL_OK, p) \<Longrightarrow>
         pool_refs (aa_pool a) h < 2147483647 \<Longrightarrow>
         arb_step sk (a, hold) (a\<lparr>aa_pool := p\<rparr>, hold(h := hold h + 1))"
| client_unref: "audio_pool_unref (aa_pool a) h = (r, f, p) \<Longrightarrow> 0 < hold h \<Longrightarrow>
         arb_step sk (a, hold) (a\<lparr>aa_pool := p\<rparr>, hold(h := hold h - 1))"
| client_write: "audio_pool_write (aa_pool a) h off src = (r, k, p) \<Longrightarrow>
         arb_step sk (a, hold) (a\<lparr>aa_pool := p\<rparr>, hold)"

inductive_cases arb_stepE: "arb_step sk s s'"

definition arb_init :: "'c audio_arbiter \<times> (obj_handle \<Rightarrow> int) \<Rightarrow> bool" where
  "arb_init s \<longleftrightarrow> pool_ok (aa_pool (fst s)) \<and> (\<forall>h. pool_refs (aa_pool (fst s)) h = 0) \<and>
     (\<exists>m n c. m < 65535 \<and> audio_arbiter_init m n (aa_pool (fst s)) c = Some (fst s)) \<and>
     snd s = (\<lambda>_. 0)"

inductive arb_reach for sk where
  init: "arb_init s \<Longrightarrow> arb_reach sk s"
| step: "arb_reach sk s \<Longrightarrow> arb_step sk s s' \<Longrightarrow> arb_reach sk s'"

definition arb_safe :: "'c audio_arbiter \<times> (obj_handle \<Rightarrow> int) \<Rightarrow> bool" where
  "arb_safe s \<longleftrightarrow> arb_inv (fst s) \<and> (\<forall>h. h \<noteq> 0 \<longrightarrow> held (fst s) h = snd s h) \<and>
     (\<forall>h. 0 \<le> snd s h) \<and> snd s 0 = 0"

lemma arb_init_sel:
  assumes "audio_arbiter_init m n p c = Some a"
  shows "aa_tracks a = replicate m track_zero" and "aa_generations a = replicate m 1"
    and "aa_track_count a \<le> m" and "aa_active_count a = 0" and "aa_pool a = p"
  using assms by (auto simp: audio_arbiter_init_def split: if_splits)

lemma arb_init_safe:
  assumes "arb_init s" shows "arb_safe s"
proof -
  obtain m n c where m: "m < 65535" "audio_arbiter_init m n (aa_pool (fst s)) c = Some (fst s)"
    using assms by (auto simp: arb_init_def)
  define a where "a = fst s"
  have a: "aa_tracks a = replicate m track_zero" "aa_generations a = replicate m 1"
    "aa_track_count a \<le> m" "aa_active_count a = 0"
    using arb_init_sel [OF m(2)] by (simp_all add: a_def)
  have z: "\<not> tk_active track_zero" by (simp add: track_zero_def)
  have "voices a h = 0" for h using z by (simp add: voices_def a plays_def)
  then have "held a h = 0" for h using assms by (simp add: held_def arb_init_def a_def)
  then show ?thesis
    using assms m(1) a z by (auto simp: arb_safe_def arb_inv_def arb_init_def simp flip: a_def)
qed

text \<open>A write changes no object descriptor.\<close>

lemma write_loop_objects: "ap_objects (snd (write_loop n p b i src)) = ap_objects p"
  by (induction n arbitrary: p b i src) (simp_all add: Let_def split_beta)

lemma write_keeps_refs:
  assumes inv: "pool_inv p ch"
  shows "pool_ok (snd (snd (audio_pool_write p h off src)))"
    and "pool_refs (snd (snd (audio_pool_write p h off src))) h' = pool_refs p h'"
proof -
  have obj: "ap_objects (snd (snd (audio_pool_write p h off src))) = ap_objects p"
    by (simp add: audio_pool_write_def Let_def write_loop_objects split: option.split prod.split)
  then show "pool_refs (snd (snd (audio_pool_write p h off src))) h' = pool_refs p h'"
    by (simp only: pool_refs_def resolve_def)
  show "pool_ok (snd (snd (audio_pool_write p h off src)))"
  proof (cases "resolve p h")
    case None
    with inv show ?thesis by (auto simp: audio_pool_write_def pool_ok_def)
  next
    case (Some s)
    from audio_pool_write_spec [OF inv this, of off src] show ?thesis by (auto simp: pool_ok_def)
  qed
qed

text \<open>A pool operation of a client that keeps at least the references the voices hold.\<close>

lemma client_pool_safe:
  assumes "arb_safe (a, hold)" and "pool_ok p"
    and "\<And>h. h \<noteq> 0 \<Longrightarrow> pool_refs p h - pool_refs (aa_pool a) h = hold' h - hold h"
    and "\<And>h. 0 \<le> hold' h" and "hold' 0 = 0"
  shows "arb_safe (a\<lparr>aa_pool := p\<rparr>, hold')"
proof -
  have "held (a\<lparr>aa_pool := p\<rparr>) h = hold' h" if "h \<noteq> 0" for h
    using assms(1) assms(3) [OF that] that by (auto simp: arb_safe_def held_def voices_def)
  then show ?thesis using assms(1,2,4,5) by (auto simp: arb_safe_def arb_inv_def)
qed

lemma arb_step_safe:
  assumes "arb_step sk s s'" and "arb_safe s"
  shows "arb_safe s'"
  using assms
proof (induction rule: arb_step.induct)
  case (play a object kind params vm r v a' hold)
  then show ?case
    using audio_arbiter_play_spec(1,2) [of a object sk kind params vm r v a']
    by (simp add: arb_safe_def)
next
  case (play_external a params vm r v a' hold)
  then show ?case
    using audio_arbiter_play_external_spec [of a sk params vm r v a'] by (simp add: arb_safe_def)
next
  case (stop a v r a' hold)
  then show ?case
    using audio_arbiter_stop_spec(1,2) [of a sk v r a'] by (simp add: arb_safe_def)
next
  case (finished a v r a' hold)
  then show ?case
    using audio_arbiter_stop_spec(1,2) [of a sk v r a']
    by (simp add: arb_safe_def audio_arbiter_voice_finished_def)
next
  case (reap a n a' hold)
  then have "\<forall>t \<in> set [0..<aa_track_count a]. t < length (aa_tracks a)"
    by (auto simp: arb_safe_def arb_inv_def)
  with reap show ?case
    using reap_from_spec [of a "[0..<aa_track_count a]" sk _ 0]
    by (auto simp: arb_safe_def audio_arbiter_reap_def split: option.splits) (metis snd_conv)+
next
  case (sweep a vm n a' hold)
  then have "\<forall>t \<in> set [0..<aa_track_count a]. t < length (aa_tracks a)"
    by (auto simp: arb_safe_def arb_inv_def)
  with sweep show ?case
    using sweep_tracks_spec [of a "[0..<aa_track_count a]" sk vm 0]
    by (auto simp: arb_safe_def audio_arbiter_sweep_vm_def)
next
  case (client_alloc a sz vm h p hold)
  obtain ch where inv: "pool_inv (aa_pool a) ch"
    using client_alloc.prems by (auto simp: arb_safe_def arb_inv_def pool_ok_def)
  note al = audio_pool_alloc_ok [OF inv client_alloc.hyps(2,1)]
  have h0: "h \<noteq> 0" using al(3) [of 0] pool_refs_zero [of p] by (auto split: if_splits)
  have "hold h = 0"
  proof -
    have "held (fst (a, hold)) h = hold h" "0 \<le> hold h"
      using client_alloc.prems h0 unfolding arb_safe_def by auto
    then show ?thesis using al(2) by (simp add: held_def)
  qed
  then show ?case
    using client_alloc.prems al(1,2,3) h0
    by (intro client_pool_safe) (auto simp: arb_safe_def)
next
  case (client_ref a h p hold)
  have pok: "pool_ok (aa_pool a)" using client_ref.prems by (auto simp: arb_safe_def arb_inv_def)
  have v: "audio_pool_handle_valid (aa_pool a) h" and p: "p = snd (audio_pool_ref (aa_pool a) h)"
    using client_ref.hyps(1)
    by (auto simp: audio_pool_ref_def audio_pool_handle_valid_def split: option.splits)
  have "h \<noteq> 0" using v prc.valid_iff [OF pok] pool_refs_zero by auto
  then show ?case
    using client_ref.prems prc.ok_ref [OF pok client_ref.hyps(2)]
      prc.refs_ref [OF pok v client_ref.hyps(2)]
    by (intro client_pool_safe) (auto simp: arb_safe_def p add_nonneg_nonneg)
next
  case (client_unref a h r f p hold)
  have pok: "pool_ok (aa_pool a)" using client_unref.prems by (auto simp: arb_safe_def arb_inv_def)
  have h0: "h \<noteq> 0" using client_unref by (auto simp: arb_safe_def)
  have "held a h = hold h" using client_unref.prems h0 by (simp add: arb_safe_def)
  then have "0 < pool_refs (aa_pool a) h" using client_unref.hyps(2) by (simp add: held_def)
  then have v: "audio_pool_handle_valid (aa_pool a) h" using prc.valid_iff [OF pok] by simp
  have p: "p = snd (snd (audio_pool_unref (aa_pool a) h))" using client_unref.hyps(1) by simp
  show ?case
    using client_unref h0 prc.ok_unref [OF pok] prc.refs_unref [OF pok v]
    by (intro client_pool_safe) (auto simp: arb_safe_def p)
next
  case (client_write a h off src r k p hold)
  have pok: "pool_ok (aa_pool a)" using client_write.prems by (auto simp: arb_safe_def arb_inv_def)
  then obtain ch where inv: "pool_inv (aa_pool a) ch" by (auto simp: pool_ok_def)
  have "pool_ok p \<and> (\<forall>h. pool_refs p h = pool_refs (aa_pool a) h)"
    using write_keeps_refs [OF inv, of h off src] client_write.hyps by simp
  then show ?case
    using client_write.prems by (intro client_pool_safe) (auto simp: arb_safe_def)
qed

lemma arb_reach_arb_safe: "arb_reach sk s \<Longrightarrow> arb_safe s"
  by (induction rule: arb_reach.induct) (auto intro: arb_init_safe arb_step_safe)

section \<open>A small arbiter\<close>

text \<open>Two tracks over the small pool, with a sink that accepts every voice.\<close>

definition yes_sink :: "nat arbiter_sink" where
  "yes_sink = \<lparr>sk_start = (\<lambda>c t k h p. (True, c + 1)), sk_stop = (\<lambda>c t. c), sk_is_done = None\<rparr>"

definition small_arb :: "nat audio_arbiter" where
  "small_arb = the (audio_arbiter_init 2 2 small_pool 0)"

definition small_arb1 :: "nat audio_arbiter" where
  "small_arb1 = small_arb\<lparr>aa_pool := small_pool1\<rparr>"

definition small_play :: "arb_result \<times> voice_handle \<times> nat audio_arbiter" where
  "small_play = audio_arbiter_play yes_sink small_arb1 small_handle AUDIO_VOICE_SFX None 7"

definition small_voice :: voice_handle where "small_voice = fst (snd small_play)"
definition small_arb2 :: "nat audio_arbiter" where "small_arb2 = snd (snd small_play)"

lemma small_arb_init: "arb_init (small_arb, \<lambda>_. 0)"
proof -
  have "audio_arbiter_init 2 2 small_pool (0 :: nat) = Some small_arb"
    by (simp add: small_arb_def audio_arbiter_init_def)
  moreover from arb_init_sel(5) [OF this] have "aa_pool small_arb = small_pool" .
  moreover have "(2 :: nat) < 65535" by simp
  ultimately have "\<exists>m n c. m < 65535 \<and> audio_arbiter_init m n (aa_pool small_arb) c = Some small_arb"
    by metis
  then show ?thesis
    using \<open>aa_pool small_arb = small_pool\<close> by (simp add: arb_init_def small_pool_ok small_pool_refs)
qed

lemma small_arb_sel:
  "aa_pool small_arb = small_pool" "aa_tracks small_arb1 = [track_zero, track_zero]"
  "aa_track_count small_arb1 = 2" "aa_pool small_arb1 = small_pool1"
  by (simp_all add: small_arb1_def small_arb_def audio_arbiter_init_def numeral_2_eq_2)

lemma small_arb1_reach: "arb_reach yes_sink (small_arb1, (\<lambda>_. 0)(small_handle := 1))"
  unfolding small_arb1_def
  by (rule arb_reach.step [OF arb_reach.init [OF small_arb_init]], rule client_alloc [where sz = 5 and vm = 7])
    (simp_all add: small_arb_sel small_alloc small_pool_sel)

lemma small_arb1_inv: "arb_inv small_arb1"
  using arb_reach_arb_safe [OF small_arb1_reach] by (simp add: arb_safe_def)

lemma small_play_ok: "small_play = (AUDIO_ARB_OK, small_voice, small_arb2)"
proof -
  have "fst small_play = AUDIO_ARB_OK"
    using small_valid
    by (auto simp: small_play_def audio_arbiter_play_def small_arb_sel Let_def yes_sink_def
        find_free_track_def numeral_2_eq_2 track_zero_def audio_pool_ref_def
        audio_pool_handle_valid_def split: prod.split)
  then show ?thesis by (simp add: small_voice_def small_arb2_def prod_eq_iff)
qed

lemma small_arb2_reach: "arb_reach yes_sink (small_arb2, (\<lambda>_. 0)(small_handle := 1))"
  by (rule arb_reach.step [OF small_arb1_reach],
      rule arb_step.play [OF small_play_ok [unfolded small_play_def]])
    (simp add: small_arb_sel small_refs)

section \<open>Properties\<close>

text \<open>
  C12: however plays, stops, ends, reaps and sweeps interleave with the engine's own
  allocations, references, releases and writes, the object of every active pool voice is
  valid in the pool, its reference count is the engine's own references plus the voices
  that play it, and the counter of active tracks is exact.
\<close>

theorem arbiter_never_plays_freed_object:
  assumes "arb_reach sk (a, hold)"
  shows "pool_ok (aa_pool a) \<and>
    aa_active_count a = length (filter tk_active (aa_tracks a)) \<and>
    (\<forall>t < length (aa_tracks a). tk_active (aa_tracks a ! t) \<and> tk_object (aa_tracks a ! t) \<noteq> 0 \<longrightarrow>
       audio_pool_handle_valid (aa_pool a) (tk_object (aa_tracks a ! t))) \<and>
    (\<forall>h. h \<noteq> 0 \<longrightarrow> pool_refs (aa_pool a) h = hold h + int (voices a h))"
proof -
  have s: "arb_safe (a, hold)" by (rule arb_reach_arb_safe [OF assms])
  then have inv: "arb_inv a" by (simp add: arb_safe_def)
  have "pool_refs (aa_pool a) h = hold h + int (voices a h)" if "h \<noteq> 0" for h
    using s that by (auto simp: arb_safe_def held_def)
  then show ?thesis using inv playing_object_valid [OF inv] by (simp add: arb_inv_def)
qed

theorem arbiter_never_plays_freed_object_witness:
  "pool_refs (aa_pool small_arb2) small_handle = 1 + int (voices small_arb2 small_handle)"
proof -
  have "small_handle \<noteq> 0" using small_refs pool_refs_zero by auto
  with arbiter_never_plays_freed_object [OF small_arb2_reach] show ?thesis by simp
qed

text \<open>
  a play takes a reference of a valid object and a free track and returns a voice
  handle that was not valid before; on an invalid object, a full arbiter or a sink that
  declines it changes neither tracks, voices nor references.  A stop of the voice succeeds
  once, gives the reference back, and leaves the handle stale.
\<close>

theorem audio_arbiter_voice_lifecycle:
  assumes "arb_inv a" and "pool_refs (aa_pool a) object < 2147483647"
    and "audio_arbiter_play sk a object kind params vm = (r, v, b)"
    and "audio_arbiter_stop sk b v = (r', c)"
  shows "arb_inv b \<and> arb_inv c \<and>
    (r = AUDIO_ARB_OK \<longrightarrow> audio_pool_handle_valid (aa_pool a) object \<and>
       (\<exists>t < aa_track_count a. \<not> tk_active (aa_tracks a ! t)) \<and>
       \<not> audio_arbiter_voice_valid a v \<and> audio_arbiter_voice_valid b v \<and>
       audio_arbiter_voice_object b v = object \<and>
       r' = AUDIO_ARB_OK \<and> \<not> audio_arbiter_voice_valid c v \<and>
       audio_arbiter_stop sk c v = (AUDIO_ARB_BAD_VOICE, c) \<and>
       (\<forall>w. audio_arbiter_voice_valid c w = audio_arbiter_voice_valid a w)) \<and>
    (r \<noteq> AUDIO_ARB_OK \<longrightarrow> v = 0 \<and> aa_tracks b = aa_tracks a \<and> r' = AUDIO_ARB_BAD_VOICE \<and> c = b) \<and>
    (\<forall>h. h \<noteq> 0 \<longrightarrow> held b h = held a h \<and> held c h = held a h)"
proof -
  note p = audio_arbiter_play_spec [OF assms(1-3)]
  note s = audio_arbiter_stop_spec [OF p(1) assms(4)]
  have ok: "audio_pool_handle_valid (aa_pool a) object \<and>
       (\<exists>t < aa_track_count a. \<not> tk_active (aa_tracks a ! t))" if "r = AUDIO_ARB_OK"
    using assms(3) that find_free_track_cases(2) [OF assms(1)]
    by (auto simp: audio_arbiter_play_def Let_def not_le split: if_splits)
  have again: "audio_arbiter_stop sk c v = (AUDIO_ARB_BAD_VOICE, c)" if "r = AUDIO_ARB_OK"
  proof (cases "audio_arbiter_stop sk c v")
    case (Pair r2 d)
    from audio_arbiter_stop_spec(3,5) [OF s(1) this] s(4) [of v] Pair show ?thesis by auto
  qed
  have bad: "r' = AUDIO_ARB_BAD_VOICE \<and> c = b" if "r \<noteq> AUDIO_ARB_OK"
  proof -
    have "\<not> audio_arbiter_voice_valid b v"
      using p(4) [OF that]
      by (auto simp: audio_arbiter_voice_valid_def resolve_voice_def unpack_voice_def)
    then show ?thesis using s(3,5) by simp
  qed
  have held: "held b h = held a h \<and> held c h = held a h" if "h \<noteq> 0" for h
    using p(2) [OF that] s(2) [OF that] by simp
  have voices: "audio_arbiter_voice_valid c w = audio_arbiter_voice_valid a w" if "r = AUDIO_ARB_OK" for w
    using p(3) [OF that] s(4) [of w] by auto
  show ?thesis using p(1,3,4) s(1,3) s(4) [of v] ok again bad held voices by simp
qed

theorem audio_arbiter_voice_lifecycle_witness:
  "audio_arbiter_voice_valid small_arb2 small_voice \<and>
   \<not> audio_arbiter_voice_valid (snd (audio_arbiter_stop yes_sink small_arb2 small_voice)) small_voice"
proof -
  obtain r c where st: "audio_arbiter_stop yes_sink small_arb2 small_voice = (r, c)" by fastforce
  have "pool_refs (aa_pool small_arb1) small_handle < 2147483647"
    by (simp add: small_arb_sel small_refs)
  from audio_arbiter_voice_lifecycle [OF small_arb1_inv this small_play_ok [unfolded small_play_def] st] st
  show ?thesis by simp
qed

text \<open>
  the sweep of a VM stops exactly the active tracks that the VM owns: afterwards none
  of its voices is active, every other track is as it was, and the references that others
  hold are untouched.
\<close>

theorem audio_arbiter_sweep_vm_correct:
  assumes "arb_inv a" and "audio_arbiter_sweep_vm sk a vm = (n, b)"
  shows "arb_inv b \<and> (\<forall>h. h \<noteq> 0 \<longrightarrow> held b h = held a h) \<and>
    length (aa_tracks b) = length (aa_tracks a) \<and>
    (\<forall>t < length (aa_tracks a). aa_tracks b ! t =
       (if tk_active (aa_tracks a ! t) \<and> tk_owner_vm (aa_tracks a ! t) = vm then track_zero
        else aa_tracks a ! t))"
proof -
  have "\<forall>t \<in> set [0..<aa_track_count a]. t < length (aa_tracks a)"
    using assms(1) by (auto simp: arb_inv_def)
  note sw = sweep_tracks_spec [OF assms(1) this, of sk vm 0]
  have b: "b = snd (sweep_tracks sk [0..<aa_track_count a] vm (0, a))"
    using assms(2) by (simp add: audio_arbiter_sweep_vm_def)
  have "aa_tracks b ! t =
       (if tk_active (aa_tracks a ! t) \<and> tk_owner_vm (aa_tracks a ! t) = vm then track_zero
        else aa_tracks a ! t)" if "t < length (aa_tracks a)" for t
    using sw that assms(1) by (auto simp: arb_inv_def simp flip: b)
  then show ?thesis using sw by (simp flip: b)
qed

theorem audio_arbiter_sweep_vm_correct_witness:
  "arb_inv small_arb1 \<and> arb_inv (snd (audio_arbiter_sweep_vm yes_sink small_arb1 3))"
proof -
  obtain n b where "audio_arbiter_sweep_vm yes_sink small_arb1 3 = (n, b)" by fastforce
  with audio_arbiter_sweep_vm_correct [OF small_arb1_inv this] small_arb1_inv show ?thesis by simp
qed

end
