(* ===== verification/Ring_Stream.thy ===== *)
theory Ring_Stream
  imports HXBase
begin

unbundle bit_operations_syntax

text \<open>
  \<^verbatim>\<open>engine/audio/audio_ring_stream.c\<close>: the single-producer single-consumer ring between the
  video decoder and the mixer.  A frame is a pair of samples; the buffer of
  \<^verbatim>\<open>AUDIO_RING_STREAM_FRAMES\<close> frames is a list whose length is that constant, a power of
  two as the static assertion of the code demands.  The cursors are free-running 32-bit
  counters and the fill is their wrapped difference.  The first part models each call as one
  step; the second the interleaving of the two sides at the granularity of single memory
  accesses.
\<close>

section \<open>State\<close>

type_synonym frame = "int \<times> int"

record ring_stream =
  rs_buf :: "frame list"
  rs_w :: nat
  rs_r :: nat
  rs_eof :: bool
  rs_underruns :: nat
  rs_overflows :: nat
  rs_external_clock :: nat

definition sub32 :: "nat \<Rightarrow> nat \<Rightarrow> nat" where
  "sub32 a b = u32 (a + 4294967296 - b)"

definition rs_mask :: "'a list \<Rightarrow> nat" where
  "rs_mask buf = length buf - 1"

section \<open>Operations\<close>

definition audio_ring_stream_reset :: "ring_stream \<Rightarrow> ring_stream" where
  "audio_ring_stream_reset s =
     s\<lparr>rs_w := 0, rs_r := 0, rs_underruns := 0, rs_overflows := 0, rs_eof := False\<rparr>"

definition audio_ring_stream_free :: "ring_stream \<Rightarrow> nat" where
  "audio_ring_stream_free s = sub32 (length (rs_buf s)) (sub32 (rs_w s) (rs_r s))"

text \<open>The copy loop, from the \<open>i\<close>-th frame on.\<close>

fun push_loop :: "frame list \<Rightarrow> nat \<Rightarrow> nat \<Rightarrow> frame list \<Rightarrow> frame list" where
  "push_loop buf w i [] = buf"
| "push_loop buf w i (f # fs) = push_loop (buf[u32 (w + i) AND rs_mask buf := f]) w (i + 1) fs"

definition audio_ring_stream_push :: "ring_stream \<Rightarrow> frame list \<Rightarrow> nat \<times> ring_stream" where
  "audio_ring_stream_push s frames =
     (let n = length frames
      in if n = 0 then (0, s)
         else let w = rs_w s; r = rs_r s;
                  freef = sub32 (length (rs_buf s)) (sub32 w r);
                  s1 = (if freef < n then s\<lparr>rs_overflows := u32 (rs_overflows s + u32 (n - freef))\<rparr> else s);
                  n1 = (if freef < n then freef else n)
              in (n1, s1\<lparr>rs_buf := push_loop (rs_buf s) w 0 (take n1 frames), rs_w := u32 (w + n1)\<rparr>))"

definition audio_ring_stream_set_eof :: "ring_stream \<Rightarrow> ring_stream" where
  "audio_ring_stream_set_eof s = s\<lparr>rs_eof := True\<rparr>"

definition audio_ring_stream_set_external_clock :: "ring_stream \<Rightarrow> nat \<Rightarrow> ring_stream" where
  "audio_ring_stream_set_external_clock s ticks = s\<lparr>rs_external_clock := ticks\<rparr>"

definition audio_ring_stream_avail :: "ring_stream \<Rightarrow> nat" where
  "audio_ring_stream_avail s = sub32 (rs_w s) (rs_r s)"

definition read_frames :: "frame list \<Rightarrow> nat \<Rightarrow> nat \<Rightarrow> frame list" where
  "read_frames buf r n = map (\<lambda>i. buf ! (u32 (r + i) AND rs_mask buf)) [0..<n]"

text \<open>The frames delivered to the destination; the value the code returns is their number.\<close>

definition audio_ring_stream_read :: "ring_stream \<Rightarrow> nat \<Rightarrow> frame list \<times> ring_stream" where
  "audio_ring_stream_read s requested =
     (if requested = 0 then ([], s)
      else let r = rs_r s; w = rs_w s;
               avail = sub32 w r;
               n = (if avail < requested then avail else requested);
               out = read_frames (rs_buf s) r n;
               s1 = s\<lparr>rs_r := u32 (r + n)\<rparr>
           in if n < requested \<and> \<not> rs_eof s1
              then (out @ replicate (requested - n) (0, 0), s1\<lparr>rs_underruns := u32 (rs_underruns s1 + 1)\<rparr>)
              else (out, s1))"

section \<open>What a ring buffer holds\<close>

text \<open>From stream position \<open>k\<close> on the buffer holds the frames \<open>xs\<close>.\<close>

definition holds :: "'a list \<Rightarrow> nat \<Rightarrow> 'a list \<Rightarrow> bool" where
  "holds buf k xs \<longleftrightarrow>
     length xs \<le> length buf \<and> (\<forall>j < length xs. buf ! ((k + j) mod length buf) = xs ! j)"

definition pow2_len :: "'a list \<Rightarrow> bool" where
  "pow2_len buf \<longleftrightarrow> (\<exists>k \<le> 31. length buf = 2 ^ k)"

lemma pow2_len_pos: "pow2_len buf \<Longrightarrow> 0 < length buf \<and> length buf \<le> 2147483648"
proof -
  assume "pow2_len buf"
  then obtain k where k: "k \<le> 31" "length buf = 2 ^ k" by (auto simp: pow2_len_def)
  have "(2 :: nat) ^ k \<le> 2 ^ 31" by (rule power_increasing) (use k in auto)
  with k show ?thesis by simp
qed

lemma rs_index: "pow2_len buf \<Longrightarrow> u32 x AND rs_mask buf = x mod length buf"
proof -
  assume "pow2_len buf"
  then obtain k where k: "k \<le> 31" "length buf = 2 ^ k" by (auto simp: pow2_len_def)
  then have "rs_mask buf = mask k" by (simp add: rs_mask_def mask_eq_exp_minus_1)
  then have "u32 x AND rs_mask buf = u32 x mod 2 ^ k" by (simp add: take_bit_eq_mod flip: take_bit_eq_mask)
  moreover have "(2 :: nat) ^ k dvd 2 ^ 32" using k(1) by (intro le_imp_power_dvd) simp
  then have "u32 x mod 2 ^ k = x mod 2 ^ k" unfolding u32_def by (rule mod_mod_cancel)
  ultimately show ?thesis using k by simp
qed

lemma u32_mod_len: "pow2_len buf \<Longrightarrow> u32 x mod length buf = x mod length buf"
proof -
  assume p: "pow2_len buf"
  then obtain k where k: "k \<le> 31" "length buf = 2 ^ k" by (auto simp: pow2_len_def)
  then have "length buf dvd 2 ^ 32" using le_imp_power_dvd [of k 32 2] by simp
  then show ?thesis unfolding u32_def by (rule mod_mod_cancel)
qed

lemma sub32_u32: "b \<le> a \<Longrightarrow> a - b < 4294967296 \<Longrightarrow> sub32 (u32 a) (u32 b) = a - b"
proof -
  assume le: "b \<le> a" "a - b < 4294967296"
  obtain d where a: "a = b + d" using le(1) by (metis le_add_diff_inverse)
  have "(b + d) mod 4294967296 + 4294967296 - b mod 4294967296 =
      (4294967296 - b mod 4294967296) + (b + d) mod 4294967296"
    by (simp add: mod_less_divisor less_imp_le)
  also have "\<dots> mod 4294967296 = (4294967296 - b mod 4294967296 + b mod 4294967296 + d) mod 4294967296"
    by (metis (no_types, lifting) add.assoc mod_add_left_eq mod_add_right_eq)
  also have "\<dots> = d mod 4294967296"
    by (subst le_add_diff_inverse2) (simp_all add: less_imp_le)
  finally show ?thesis using le a by (simp add: sub32_def u32_def)
qed

lemma holds_Nil [simp]: "holds buf k []"
  by (simp add: holds_def)

lemma holds_mod: "k mod length buf = k' mod length buf \<Longrightarrow> holds buf k xs = holds buf k' xs"
  unfolding holds_def by (metis mod_add_left_eq)

lemma holds_snoc:
  assumes "holds buf k xs" and "length xs < length buf"
  shows "holds (buf[(k + length xs) mod length buf := x]) k (xs @ [x])"
proof -
  have "buf[(k + length xs) mod length buf := x] ! ((k + j) mod length buf) = (xs @ [x]) ! j"
    if "j < Suc (length xs)" for j
  proof (cases "j = length xs")
    case True
    moreover have "(k + length xs) mod length buf < length buf" using assms(2) by (intro mod_less_divisor) auto
    ultimately show ?thesis by simp
  next
    case False
    then have "(k + length xs) mod length buf \<noteq> (k + j) mod length buf"
      using mod_add_inj [of "length xs" "length buf" j k] that assms(2) by auto
    then show ?thesis using False that assms(1) by (simp add: holds_def nth_append)
  qed
  then show ?thesis using assms by (simp add: holds_def)
qed

lemma holds_drop: "holds buf k xs \<Longrightarrow> n \<le> length xs \<Longrightarrow> holds buf (k + n) (drop n xs)"
  by (auto simp: holds_def add.assoc)

lemma holds_take: "holds buf k xs \<Longrightarrow> holds buf k (take n xs)"
  by (auto simp: holds_def)

lemma holds_unique: "holds buf k xs \<Longrightarrow> holds buf k ys \<Longrightarrow> length xs = length ys \<Longrightarrow> xs = ys"
  by (auto simp: holds_def intro: nth_equalityI)

lemma length_push_loop [simp]: "length (push_loop buf w i fs) = length buf"
  by (induction fs arbitrary: buf i) simp_all

lemma push_loop_holds:
  assumes "pow2_len buf" and "holds buf k xs" and "length xs + length fs \<le> length buf"
    and "(w + i) mod length buf = (k + length xs) mod length buf"
  shows "holds (push_loop buf w i fs) k (xs @ fs)"
  using assms
proof (induction fs arbitrary: buf i xs)
  case (Cons f fs)
  let ?b = "buf[(k + length xs) mod length buf := f]"
  have "u32 (w + i) AND rs_mask buf = (k + length xs) mod length buf"
    using Cons.prems(4) by (simp add: rs_index [OF Cons.prems(1)])
  then have "push_loop buf w i (f # fs) = push_loop ?b w (i + 1) fs" by simp
  moreover have "holds (push_loop ?b w (i + 1) fs) k ((xs @ [f]) @ fs)"
  proof (rule Cons.IH)
    show "pow2_len ?b" using Cons.prems(1) by (simp add: pow2_len_def)
    show "holds ?b k (xs @ [f])" using Cons.prems(2,3) by (intro holds_snoc) simp_all
    show "length (xs @ [f]) + length fs \<le> length ?b" using Cons.prems(3) by simp
    show "(w + (i + 1)) mod length ?b = (k + length (xs @ [f])) mod length ?b"
      using Cons.prems(4) by simp (metis mod_Suc_eq)
  qed
  ultimately show ?case by simp
qed simp

lemma holds_read:
  assumes "pow2_len buf" and "holds buf k xs" and "n \<le> length xs" and "r mod length buf = k mod length buf"
  shows "read_frames buf r n = take n xs"
proof (rule nth_equalityI)
  show "length (read_frames buf r n) = length (take n xs)" using assms(3) by (simp add: read_frames_def)
  fix i assume "i < length (read_frames buf r n)"
  then have i: "i < n" by (simp add: read_frames_def)
  then have "read_frames buf r n ! i = buf ! ((r + i) mod length buf)"
    by (simp add: read_frames_def rs_index [OF assms(1)])
  also have "(r + i) mod length buf = (k + i) mod length buf"
    using assms(4) by (metis mod_add_left_eq)
  also have "buf ! \<dots> = xs ! i" using assms(2,3) i by (simp add: holds_def)
  finally show "read_frames buf r n ! i = take n xs ! i" using i by simp
qed

section \<open>The ring as a bounded FIFO\<close>

definition rs_inv :: "ring_stream \<Rightarrow> bool" where
  "rs_inv s \<longleftrightarrow> pow2_len (rs_buf s) \<and> rs_w s < 4294967296 \<and> rs_r s < 4294967296 \<and>
     sub32 (rs_w s) (rs_r s) \<le> length (rs_buf s)"

definition rs_list :: "ring_stream \<Rightarrow> frame list" where
  "rs_list s = read_frames (rs_buf s) (rs_r s) (sub32 (rs_w s) (rs_r s))"

lemma length_rs_list [simp]: "length (rs_list s) = audio_ring_stream_avail s"
  by (simp add: rs_list_def read_frames_def audio_ring_stream_avail_def)

lemma rs_list_holds: "rs_inv s \<Longrightarrow> holds (rs_buf s) (rs_r s) (rs_list s)"
  by (auto simp: rs_inv_def holds_def rs_list_def read_frames_def rs_index)

text \<open>The unwrapped write position that belongs to two wrapped cursors.\<close>

lemma unwrap_cursor:
  assumes "w < 4294967296" and "r < 4294967296"
  obtains a where "r \<le> a" and "a - r < 4294967296" and "\<And>n. u32 (a + n) = u32 (w + n)"
    and "sub32 w r = a - r"
proof -
  define a where "a = (if r \<le> w then w else w + 4294967296)"
  have le: "r \<le> a" "a - r < 4294967296" using assms unfolding a_def by presburger+
  have u: "u32 (a + n) = u32 (w + n)" for n
  proof -
    have "w + 4294967296 + n = w + n + 4294967296" by simp
    then show ?thesis by (simp only: a_def u32_def split: if_split) simp
  qed
  have "sub32 (u32 a) (u32 r) = a - r" by (rule sub32_u32 [OF le])
  then have "sub32 w r = a - r" using u [of 0] assms by simp
  then show ?thesis using that le u by blast
qed

lemma sub32_advance:
  assumes "w < 4294967296" and "r < 4294967296" and "sub32 w r + n < 4294967296"
  shows "sub32 (u32 (w + n)) r = sub32 w r + n"
proof -
  obtain a where a: "r \<le> a" "\<And>n. u32 (a + n) = u32 (w + n)" "sub32 w r = a - r"
    using unwrap_cursor [OF assms(1,2)] by metis
  have "sub32 (u32 (a + n)) (u32 r) = a + n - r"
    using a(1,3) assms(3) by (intro sub32_u32) auto
  then show ?thesis using a assms(2) by simp
qed

lemma sub32_consume:
  assumes "w < 4294967296" and "r < 4294967296" and "n \<le> sub32 w r"
  shows "sub32 w (u32 (r + n)) = sub32 w r - n"
proof -
  obtain a where a: "r \<le> a" "a - r < 4294967296" "\<And>n. u32 (a + n) = u32 (w + n)" "sub32 w r = a - r"
    using unwrap_cursor [OF assms(1,2)] by metis
  have "sub32 (u32 a) (u32 (r + n)) = a - (r + n)"
    using a assms(3) by (intro sub32_u32) auto
  then show ?thesis using a(4) a(3) [of 0] assms(1) by simp
qed

lemma rs_free:
  assumes "rs_inv s"
  shows "audio_ring_stream_free s = length (rs_buf s) - audio_ring_stream_avail s"
proof -
  let ?N = "length (rs_buf s)" and ?c = "sub32 (rs_w s) (rs_r s)"
  have le: "?c \<le> ?N" "?N \<le> 2147483648" using assms pow2_len_pos by (auto simp: rs_inv_def)
  then have "sub32 (u32 ?N) (u32 ?c) = ?N - ?c" by (intro sub32_u32) auto
  then show ?thesis using le by (simp add: audio_ring_stream_free_def audio_ring_stream_avail_def)
qed

lemma audio_ring_stream_push_spec:
  assumes inv: "rs_inv s" and p: "audio_ring_stream_push s fs = (n, s')"
  shows "n = min (length fs) (length (rs_buf s) - audio_ring_stream_avail s)" and "rs_inv s'"
    and "rs_list s' = rs_list s @ take n fs" and "length (rs_buf s') = length (rs_buf s)"
    and "rs_overflows s' = (if n < length fs then u32 (rs_overflows s + u32 (length fs - n)) else rs_overflows s)"
    and "rs_eof s' = rs_eof s" and "rs_underruns s' = rs_underruns s" and "rs_r s' = rs_r s"
proof -
  let ?N = "length (rs_buf s)" and ?c = "audio_ring_stream_avail s"
  have free: "sub32 ?N (sub32 (rs_w s) (rs_r s)) = ?N - ?c"
    using rs_free [OF inv] by (simp add: audio_ring_stream_free_def)
  have c: "?c \<le> ?N" and N: "?N \<le> 2147483648" "pow2_len (rs_buf s)"
    using inv pow2_len_pos [of "rs_buf s"] by (simp_all add: rs_inv_def audio_ring_stream_avail_def)
  show n: "n = min (length fs) (?N - ?c)"
    using p free by (auto simp: audio_ring_stream_push_def Let_def min_def split: if_splits)
  have s': "rs_buf s' = push_loop (rs_buf s) (rs_w s) 0 (take n fs)" "rs_w s' = u32 (rs_w s + n)"
    "rs_r s' = rs_r s" "rs_eof s' = rs_eof s" "rs_underruns s' = rs_underruns s"
    using p inv by (auto simp: audio_ring_stream_push_def Let_def free rs_inv_def split: if_splits)
  show "rs_overflows s' = (if n < length fs then u32 (rs_overflows s + u32 (length fs - n)) else rs_overflows s)"
    using p n by (auto simp: audio_ring_stream_push_def Let_def free split: if_splits)
  show "length (rs_buf s') = ?N" "rs_eof s' = rs_eof s" "rs_underruns s' = rs_underruns s"
    "rs_r s' = rs_r s" using s' by simp_all
  have cnt: "sub32 (rs_w s') (rs_r s') = ?c + n"
    using inv n c N(1) unfolding s' audio_ring_stream_avail_def
    by (intro sub32_advance) (auto simp: rs_inv_def)
  show inv': "rs_inv s'"
    using inv cnt n c N(2) by (auto simp: rs_inv_def s' pow2_len_def)
  have w: "(rs_w s + 0) mod ?N = (rs_r s + length (rs_list s)) mod ?N"
  proof -
    have "u32 (rs_r s + ?c) = rs_w s"
      using inv by (auto simp: rs_inv_def audio_ring_stream_avail_def sub32_def u32_def mod_simps)
    then show ?thesis using u32_mod_len [OF N(2), of "rs_r s + ?c"] by simp
  qed
  have "holds (rs_buf s') (rs_r s) (rs_list s @ take n fs)"
    unfolding s' using n c by (intro push_loop_holds N(2) rs_list_holds inv w) auto
  then show "rs_list s' = rs_list s @ take n fs"
    using rs_list_holds [OF inv'] cnt n s'(3)
    by (intro holds_unique) (auto simp: audio_ring_stream_avail_def)
qed

lemma audio_ring_stream_read_spec:
  assumes inv: "rs_inv s" and p: "audio_ring_stream_read s req = (out, s')"
  defines "n \<equiv> min req (audio_ring_stream_avail s)"
  shows "out = take n (rs_list s) @ (if rs_eof s then [] else replicate (req - n) (0, 0))"
    and "rs_inv s'" and "rs_list s' = drop n (rs_list s)" and "rs_buf s' = rs_buf s"
    and "rs_underruns s' = (if n < req \<and> \<not> rs_eof s then u32 (rs_underruns s + 1) else rs_underruns s)"
    and "rs_eof s' = rs_eof s" and "rs_overflows s' = rs_overflows s"
proof -
  let ?N = "length (rs_buf s)" and ?c = "audio_ring_stream_avail s"
  have N: "pow2_len (rs_buf s)" using inv by (simp add: rs_inv_def)
  have s': "rs_buf s' = rs_buf s" "rs_r s' = u32 (rs_r s + n)" "rs_w s' = rs_w s"
    and out: "out = read_frames (rs_buf s) (rs_r s) n @ (if rs_eof s then [] else replicate (req - n) (0, 0))"
    using p inv
    by (auto simp: audio_ring_stream_read_def Let_def n_def min_def audio_ring_stream_avail_def
        rs_inv_def read_frames_def split: if_splits)
  show "rs_underruns s' = (if n < req \<and> \<not> rs_eof s then u32 (rs_underruns s + 1) else rs_underruns s)"
    and "rs_eof s' = rs_eof s" and "rs_overflows s' = rs_overflows s"
    using p by (auto simp: audio_ring_stream_read_def Let_def n_def min_def audio_ring_stream_avail_def
        split: if_splits)
  show "rs_buf s' = rs_buf s" by (rule s')
  have "read_frames (rs_buf s) (rs_r s) n = take n (rs_list s)"
    by (rule holds_read [OF N rs_list_holds [OF inv]]) (simp_all add: n_def)
  then show "out = take n (rs_list s) @ (if rs_eof s then [] else replicate (req - n) (0, 0))"
    using out by simp
  have cnt: "sub32 (rs_w s') (rs_r s') = ?c - n"
    using inv unfolding s' audio_ring_stream_avail_def
    by (intro sub32_consume) (auto simp: rs_inv_def n_def audio_ring_stream_avail_def)
  show inv': "rs_inv s'" using inv cnt by (auto simp: rs_inv_def s' audio_ring_stream_avail_def)
  have "holds (rs_buf s') (rs_r s + n) (drop n (rs_list s))"
    unfolding s' by (rule holds_drop [OF rs_list_holds [OF inv]]) (simp add: n_def)
  then have "holds (rs_buf s') (rs_r s') (drop n (rs_list s))"
    unfolding s' using holds_mod [of "u32 (rs_r s + n)" "rs_buf s" "rs_r s + n"] u32_mod_len [OF N] by simp
  then show "rs_list s' = drop n (rs_list s)"
    using rs_list_holds [OF inv'] cnt by (intro holds_unique) (auto simp: audio_ring_stream_avail_def)
qed

section \<open>Producer and consumer interleaved\<close>

text \<open>
  The two sides run concurrently; each reads its own cursor, loads the other's with acquire
  order, copies frame by frame and publishes its cursor with release order.  A step is one of
  these accesses; \<open>Prod_Copy fs i\<close> is the producer with \<open>i\<close> of the frames \<open>fs\<close> copied,
  \<open>Cons_Copy n out\<close> the consumer with \<open>out\<close> of \<open>n\<close> frames copied.  The ghost lists are all
  frames ever accepted and ever delivered.
\<close>

datatype producer_pc = Prod_Idle | Prod_Copy "frame list" nat
datatype consumer_pc = Cons_Idle | Cons_Copy nat "frame list"

record spsc =
  sp_ring :: ring_stream
  sp_prod :: producer_pc
  sp_cons :: consumer_pc
  sp_pushed :: "frame list"
  sp_popped :: "frame list"

definition accept :: "ring_stream \<Rightarrow> frame list \<Rightarrow> frame list" where
  "accept s fs = take (min (length fs) (audio_ring_stream_free s)) fs"

definition put_frame :: "ring_stream \<Rightarrow> nat \<Rightarrow> frame \<Rightarrow> ring_stream" where
  "put_frame s i f = s\<lparr>rs_buf := (rs_buf s)[u32 (rs_w s + i) AND rs_mask (rs_buf s) := f]\<rparr>"

definition get_frame :: "ring_stream \<Rightarrow> nat \<Rightarrow> frame" where
  "get_frame s i = rs_buf s ! (u32 (rs_r s + i) AND rs_mask (rs_buf s))"

inductive spsc_step :: "spsc \<Rightarrow> spsc \<Rightarrow> bool" where
  push_load: "sp_prod c = Prod_Idle \<Longrightarrow>
     spsc_step c (c\<lparr>sp_prod := Prod_Copy (accept (sp_ring c) fs) 0\<rparr>)"
| push_copy: "sp_prod c = Prod_Copy fs i \<Longrightarrow> i < length fs \<Longrightarrow>
     spsc_step c (c\<lparr>sp_ring := put_frame (sp_ring c) i (fs ! i), sp_prod := Prod_Copy fs (i + 1)\<rparr>)"
| push_publish: "sp_prod c = Prod_Copy fs i \<Longrightarrow> i = length fs \<Longrightarrow>
     spsc_step c (c\<lparr>sp_ring := (sp_ring c)\<lparr>rs_w := u32 (rs_w (sp_ring c) + length fs)\<rparr>,
                    sp_prod := Prod_Idle, sp_pushed := sp_pushed c @ fs\<rparr>)"
| read_load: "sp_cons c = Cons_Idle \<Longrightarrow>
     spsc_step c (c\<lparr>sp_cons := Cons_Copy (min req (audio_ring_stream_avail (sp_ring c))) []\<rparr>)"
| read_copy: "sp_cons c = Cons_Copy n out \<Longrightarrow> length out < n \<Longrightarrow>
     spsc_step c (c\<lparr>sp_cons := Cons_Copy n (out @ [get_frame (sp_ring c) (length out)])\<rparr>)"
| read_publish: "sp_cons c = Cons_Copy n out \<Longrightarrow> length out = n \<Longrightarrow>
     spsc_step c (c\<lparr>sp_ring := (sp_ring c)\<lparr>rs_r := u32 (rs_r (sp_ring c) + n)\<rparr>,
                    sp_cons := Cons_Idle, sp_popped := sp_popped c @ out\<rparr>)"

inductive_cases spsc_stepE: "spsc_step c c'"

definition spsc_init :: "spsc \<Rightarrow> bool" where
  "spsc_init c \<longleftrightarrow> pow2_len (rs_buf (sp_ring c)) \<and> rs_w (sp_ring c) = 0 \<and> rs_r (sp_ring c) = 0 \<and>
     sp_prod c = Prod_Idle \<and> sp_cons c = Cons_Idle \<and> sp_pushed c = [] \<and> sp_popped c = []"

inductive spsc_reach :: "spsc \<Rightarrow> bool" where
  init: "spsc_init c \<Longrightarrow> spsc_reach c"
| step: "spsc_reach c \<Longrightarrow> spsc_step c c' \<Longrightarrow> spsc_reach c'"

text \<open>
  The frames in flight: those published and not yet delivered, and those the producer has
  copied but not published.
\<close>

definition in_flight :: "spsc \<Rightarrow> frame list" where
  "in_flight c = drop (length (sp_popped c)) (sp_pushed c)"

definition copied :: "producer_pc \<Rightarrow> frame list" where
  "copied pc = (case pc of Prod_Idle \<Rightarrow> [] | Prod_Copy fs i \<Rightarrow> take i fs)"

definition claimed :: "producer_pc \<Rightarrow> nat" where
  "claimed pc = (case pc of Prod_Idle \<Rightarrow> 0 | Prod_Copy fs i \<Rightarrow> length fs)"

definition prod_ok :: "producer_pc \<Rightarrow> bool" where
  "prod_ok pc \<longleftrightarrow> (case pc of Prod_Idle \<Rightarrow> True | Prod_Copy fs i \<Rightarrow> i \<le> length fs)"

definition cons_ok :: "spsc \<Rightarrow> bool" where
  "cons_ok c \<longleftrightarrow> (case sp_cons c of Cons_Idle \<Rightarrow> True
     | Cons_Copy n out \<Rightarrow> n \<le> length (in_flight c) \<and> length out \<le> n \<and> take (length out) (in_flight c) = out)"

definition spsc_inv :: "spsc \<Rightarrow> bool" where
  "spsc_inv c \<longleftrightarrow>
     pow2_len (rs_buf (sp_ring c)) \<and>
     rs_w (sp_ring c) = u32 (length (sp_pushed c)) \<and>
     rs_r (sp_ring c) = u32 (length (sp_popped c)) \<and>
     take (length (sp_popped c)) (sp_pushed c) = sp_popped c \<and>
     length (in_flight c) + claimed (sp_prod c) \<le> length (rs_buf (sp_ring c)) \<and>
     holds (rs_buf (sp_ring c)) (length (sp_popped c)) (in_flight c @ copied (sp_prod c)) \<and>
     prod_ok (sp_prod c) \<and> cons_ok c"

lemma popped_le: "spsc_inv c \<Longrightarrow> length (sp_popped c) \<le> length (sp_pushed c)"
  unfolding spsc_inv_def by (metis length_take min.cobounded2 min.commute)

lemma spsc_avail:
  assumes "spsc_inv c" shows "audio_ring_stream_avail (sp_ring c) = length (in_flight c)"
proof -
  have le: "length (sp_popped c) \<le> length (sp_pushed c)" by (rule popped_le [OF assms])
  have "length (in_flight c) \<le> 2147483648"
    using assms pow2_len_pos [of "rs_buf (sp_ring c)"] by (auto simp: spsc_inv_def)
  then show ?thesis
    using assms sub32_u32 [OF le] by (simp add: spsc_inv_def audio_ring_stream_avail_def in_flight_def)
qed

lemma spsc_free:
  assumes "spsc_inv c"
  shows "audio_ring_stream_free (sp_ring c) = length (rs_buf (sp_ring c)) - length (in_flight c)"
proof -
  have "rs_inv (sp_ring c)"
    using assms spsc_avail [OF assms] by (simp add: rs_inv_def spsc_inv_def audio_ring_stream_avail_def)
  from rs_free [OF this] show ?thesis by (simp add: spsc_avail [OF assms])
qed

lemma spsc_step_inv:
  assumes "spsc_step c c'" and "spsc_inv c"
  shows "spsc_inv c'"
  using assms
proof (induction rule: spsc_step.induct)
  case (push_load c fs)
  then have "length (accept (sp_ring c) fs) + length (in_flight c) \<le> length (rs_buf (sp_ring c))"
    using spsc_free [OF push_load.prems]
    by (auto simp: accept_def spsc_inv_def min_def holds_def)
  with push_load show ?case
    by (simp add: spsc_inv_def claimed_def copied_def prod_ok_def cons_ok_def in_flight_def
        split: consumer_pc.splits)
next
  case (push_copy c fs i)
  let ?b = "rs_buf (sp_ring c)" and ?Q = "length (sp_popped c)" and ?P = "length (sp_pushed c)"
  have p2: "pow2_len ?b" and h: "holds ?b ?Q (in_flight c @ take i fs)"
    and len: "length (in_flight c) + length fs \<le> length ?b"
    and w: "rs_w (sp_ring c) = u32 ?P"
    using push_copy by (simp_all add: spsc_inv_def copied_def claimed_def)
  have PQ: "?Q + length (in_flight c @ take i fs) = ?P + i"
    using popped_le [OF push_copy.prems] push_copy(2) by (simp add: in_flight_def)
  have "u32 (rs_w (sp_ring c) + i) AND rs_mask ?b = (?P + i) mod length ?b"
    using u32_mod_len [OF p2, of ?P] unfolding w by (metis rs_index [OF p2] mod_add_left_eq)
  then have "rs_buf (put_frame (sp_ring c) i (fs ! i)) =
      ?b[(?Q + length (in_flight c @ take i fs)) mod length ?b := fs ! i]"
    unfolding PQ by (simp add: put_frame_def)
  moreover have "holds (?b[(?Q + length (in_flight c @ take i fs)) mod length ?b := fs ! i]) ?Q
      ((in_flight c @ take i fs) @ [fs ! i])"
    using h len push_copy(2) by (intro holds_snoc) auto
  ultimately have h': "holds (rs_buf (put_frame (sp_ring c) i (fs ! i))) ?Q (in_flight c @ take (Suc i) fs)"
    using push_copy(2) by (simp add: take_Suc_conv_app_nth)
  have len': "length (rs_buf (put_frame (sp_ring c) i (fs ! i))) = length ?b"
    "rs_w (put_frame (sp_ring c) i (fs ! i)) = rs_w (sp_ring c)"
    "rs_r (put_frame (sp_ring c) i (fs ! i)) = rs_r (sp_ring c)"
    by (simp_all add: put_frame_def)
  show ?case
    using push_copy h' len' p2
    by (simp add: spsc_inv_def claimed_def copied_def prod_ok_def cons_ok_def in_flight_def
        pow2_len_def split: consumer_pc.splits)
next
  case (push_publish c fs i)
  have le: "length (sp_popped c) \<le> length (sp_pushed c)" by (rule popped_le [OF push_publish.prems])
  let ?c' = "c\<lparr>sp_ring := (sp_ring c)\<lparr>rs_w := u32 (rs_w (sp_ring c) + length fs)\<rparr>,
                    sp_prod := Prod_Idle, sp_pushed := sp_pushed c @ fs\<rparr>"
  have fl: "in_flight ?c' = in_flight c @ fs" using le by (simp add: in_flight_def)
  have "u32 (u32 (length (sp_pushed c)) + length fs) = u32 (length (sp_pushed c) + length fs)"
    by (simp add: u32_def mod_simps)
  moreover have "cons_ok c" using push_publish.prems by (simp add: spsc_inv_def)
  then have "cons_ok ?c'" unfolding cons_ok_def fl by (auto split: consumer_pc.splits)
  ultimately show ?case
    using push_publish le fl
    by (simp add: spsc_inv_def claimed_def copied_def prod_ok_def)
next
  case (read_load c req)
  then show ?case
    using spsc_avail [OF read_load.prems]
    by (simp add: spsc_inv_def cons_ok_def in_flight_def)
next
  case (read_copy c n out)
  let ?b = "rs_buf (sp_ring c)"
  have p2: "pow2_len ?b" and h: "holds ?b (length (sp_popped c)) (in_flight c @ copied (sp_prod c))"
    and r: "rs_r (sp_ring c) = u32 (length (sp_popped c))"
    and o: "n \<le> length (in_flight c)" "take (length out) (in_flight c) = out"
    using read_copy by (simp_all add: spsc_inv_def cons_ok_def)
  have "u32 (rs_r (sp_ring c) + length out) AND rs_mask ?b = (length (sp_popped c) + length out) mod length ?b"
    using u32_mod_len [OF p2, of "length (sp_popped c)"] unfolding r
    by (metis rs_index [OF p2] mod_add_left_eq)
  then have "get_frame (sp_ring c) (length out) = in_flight c ! length out"
    using h o(1) read_copy(2) by (simp add: get_frame_def holds_def nth_append)
  then have "take (Suc (length out)) (in_flight c) = out @ [get_frame (sp_ring c) (length out)]"
    using o read_copy(2) by (simp add: take_Suc_conv_app_nth)
  then show ?case
    using read_copy o by (simp add: spsc_inv_def cons_ok_def in_flight_def)
next
  case (read_publish c n out)
  have le: "length (sp_popped c) \<le> length (sp_pushed c)" by (rule popped_le [OF read_publish.prems])
  have o: "n \<le> length (in_flight c)" "take n (in_flight c) = out"
    using read_publish by (auto simp: spsc_inv_def cons_ok_def)
  let ?c' = "c\<lparr>sp_ring := (sp_ring c)\<lparr>rs_r := u32 (rs_r (sp_ring c) + n)\<rparr>,
                    sp_cons := Cons_Idle, sp_popped := sp_popped c @ out\<rparr>"
  have fl: "in_flight ?c' = drop n (in_flight c)"
    using read_publish(2) by (simp add: in_flight_def add.commute)
  have "take (length (sp_popped c) + n) (sp_pushed c) = sp_popped c @ out"
    using read_publish.prems o(2) by (simp add: take_add spsc_inv_def in_flight_def)
  moreover have "length out = n" by (rule read_publish(2))
  moreover have "holds (rs_buf (sp_ring c)) (length (sp_popped c) + n)
      (drop n (in_flight c @ copied (sp_prod c)))"
    using read_publish.prems o(1) by (intro holds_drop) (auto simp: spsc_inv_def)
  moreover have "u32 (u32 (length (sp_popped c)) + n) = u32 (length (sp_popped c) + n)"
    by (simp add: u32_def mod_simps)
  ultimately show ?case
    using read_publish o fl by (simp add: spsc_inv_def cons_ok_def le_diff_conv)
qed

lemma spsc_reach_inv: "spsc_reach c \<Longrightarrow> spsc_inv c"
proof (induction rule: spsc_reach.induct)
  case (init c)
  then show ?case
    by (simp add: spsc_init_def spsc_inv_def in_flight_def claimed_def copied_def prod_ok_def cons_ok_def)
qed (rule spsc_step_inv)

section \<open>Properties\<close>

text \<open>
  in sequence the ring is a bounded FIFO: a push appends what fits and counts the frames
  it drops; a read delivers the oldest frames and removes them, and while the stream has not
  ended pads the rest with silence and counts an underrun, so a short read means end of
  stream.
\<close>

theorem audio_ring_stream_fifo:
  assumes "rs_inv s" and "audio_ring_stream_push s fs = (n, s1)"
    and "audio_ring_stream_read s1 req = (out, s2)"
  shows "rs_inv s1 \<and> rs_inv s2 \<and> n = min (length fs) (audio_ring_stream_free s) \<and>
    rs_list s1 = rs_list s @ take n fs \<and>
    rs_overflows s1 = (if n < length fs then u32 (rs_overflows s + u32 (length fs - n)) else rs_overflows s) \<and>
    (let m = min req (length (rs_list s1))
     in rs_list s2 = drop m (rs_list s1) \<and>
        out = take m (rs_list s1) @ (if rs_eof s then [] else replicate (req - m) (0, 0)) \<and>
        length out = (if rs_eof s then m else req) \<and>
        rs_underruns s2 = (if m < req \<and> \<not> rs_eof s then u32 (rs_underruns s + 1) else rs_underruns s))"
proof -
  note p = audio_ring_stream_push_spec [OF assms(1,2)]
  note r = audio_ring_stream_read_spec [OF p(2) assms(3)]
  define m where "m = min req (length (rs_list s1))"
  have m: "min req (audio_ring_stream_avail s1) = m" by (simp add: m_def)
  note r' = r [unfolded m p(6,7)]
  have out: "length out = (if rs_eof s then m else req)"
    unfolding r'(1) by (simp add: m_def)
  have n: "n = min (length fs) (audio_ring_stream_free s)"
    using p(1) rs_free [OF assms(1)] by simp
  show ?thesis
    unfolding Let_def m_def [symmetric]
    by (intro conjI) (rule p(2) r'(2) n p(3) p(5) r'(3) r'(1) out r'(5))+
qed

definition wrap_ring :: ring_stream where
  "wrap_ring = \<lparr>rs_buf = [(1, 1), (2, 2), (3, 3), (4, 4)], rs_w = 1, rs_r = 4294967295, rs_eof = False,
     rs_underruns = 0, rs_overflows = 0, rs_external_clock = 0\<rparr>"

lemma wrap_ring_inv: "rs_inv wrap_ring"
  by (auto simp: rs_inv_def wrap_ring_def pow2_len_def sub32_def u32_def intro!: exI [of _ 2])

theorem audio_ring_stream_fifo_witness:
  "length (fst (audio_ring_stream_read (snd (audio_ring_stream_push wrap_ring [(9, 9)])) 5)) = 5"
proof -
  obtain n s1 where p: "audio_ring_stream_push wrap_ring [(9, 9)] = (n, s1)" by fastforce
  obtain out s2 where r: "audio_ring_stream_read s1 5 = (out, s2)" by fastforce
  have eof: "rs_eof wrap_ring = False" by (simp add: wrap_ring_def)
  have "length out = (if rs_eof wrap_ring then min 5 (length (rs_list s1)) else 5)"
    using audio_ring_stream_fifo [OF wrap_ring_inv p r] unfolding Let_def by blast
  then have "length out = 5" using eof by (simp only: if_False)
  then show ?thesis by (simp only: p r fst_conv snd_conv)
qed

text \<open>
  C13: under every interleaving of the single accesses of the two threads the delivered
  frames are a prefix of the accepted ones, in order and unmixed: at most one buffer of
  frames is in flight, and what the consumer has copied before it publishes its cursor is
  the front of what is in flight, whatever the producer writes meanwhile.
\<close>

theorem ring_stream_spsc_fifo:
  assumes "spsc_reach c"
  shows "\<exists>rest. sp_pushed c = sp_popped c @ rest \<and> length rest \<le> length (rs_buf (sp_ring c)) \<and>
    audio_ring_stream_avail (sp_ring c) = length rest \<and>
    (\<forall>n out. sp_cons c = Cons_Copy n out \<longrightarrow> (\<exists>more. rest = out @ more))"
proof -
  have inv: "spsc_inv c" by (rule spsc_reach_inv [OF assms])
  have "sp_pushed c = sp_popped c @ in_flight c"
    using inv unfolding spsc_inv_def in_flight_def by (metis append_take_drop_id)
  moreover have "length (in_flight c) \<le> length (rs_buf (sp_ring c))" using inv by (simp add: spsc_inv_def)
  moreover have "\<exists>more. in_flight c = out @ more" if "sp_cons c = Cons_Copy n out" for n out
  proof -
    have "take (length out) (in_flight c) = out" using inv that by (simp add: spsc_inv_def cons_ok_def)
    then have "in_flight c = out @ drop (length out) (in_flight c)" by (metis append_take_drop_id)
    then show ?thesis ..
  qed
  ultimately show ?thesis using spsc_avail [OF inv] by blast
qed

theorem ring_stream_spsc_fifo_witness:
  "\<exists>(c :: spsc) more. sp_cons c = Cons_Copy 1 [(7, 8)] \<and> sp_pushed c = [(7, 8)] \<and> sp_pushed c = sp_popped c @ [(7, 8)] @ more"
proof -
  define c0 where "c0 = \<lparr>sp_ring = wrap_ring\<lparr>rs_w := 0, rs_r := 0\<rparr>, sp_prod = Prod_Idle,
    sp_cons = Cons_Idle, sp_pushed = [], sp_popped = []\<rparr>"
  have p2: "pow2_len (rs_buf wrap_ring)" using wrap_ring_inv by (simp add: rs_inv_def)
  have acc: "accept (wrap_ring\<lparr>rs_w := 0, rs_r := 0\<rparr>) [(7, 8)] = [(7, 8)]"
    by (simp add: accept_def audio_ring_stream_free_def wrap_ring_def sub32_def u32_def)
  have "spsc_reach c0" by (rule spsc_reach.init) (simp add: spsc_init_def c0_def p2)
  from spsc_reach.step [OF this push_load [of c0 "[(7, 8)]"]]
  have "spsc_reach (c0\<lparr>sp_prod := Prod_Copy [(7, 8)] 0\<rparr>)" by (simp add: c0_def acc)
  from spsc_reach.step [OF this push_copy [of _ "[(7, 8)]" 0]]
  have "spsc_reach (c0\<lparr>sp_ring := put_frame (sp_ring c0) 0 (7, 8), sp_prod := Prod_Copy [(7, 8)] 1\<rparr>)"
    by simp
  from spsc_reach.step [OF this push_publish [of _ "[(7, 8)]" 1]]
  have "spsc_reach (c0\<lparr>sp_ring := (put_frame (sp_ring c0) 0 (7, 8))\<lparr>rs_w := 1\<rparr>,
      sp_pushed := [(7, 8)]\<rparr>)" by (simp add: c0_def put_frame_def)
  from spsc_reach.step [OF this read_load [of _ 1]]
  have "spsc_reach (c0\<lparr>sp_ring := (put_frame (sp_ring c0) 0 (7, 8))\<lparr>rs_w := 1\<rparr>,
      sp_cons := Cons_Copy 1 [], sp_pushed := [(7, 8)]\<rparr>)" (is "spsc_reach ?c4")
    by (simp add: c0_def put_frame_def audio_ring_stream_avail_def sub32_def u32_def)
  from spsc_reach.step [OF this read_copy [of _ 1 "[]"]]
  have r: "spsc_reach (?c4\<lparr>sp_cons := Cons_Copy 1 [(7, 8)]\<rparr>)"
    by (simp add: get_frame_def put_frame_def c0_def wrap_ring_def rs_mask_def)
  let ?c = "?c4\<lparr>sp_cons := Cons_Copy 1 [(7, 8)]\<rparr>"
  have sel: "sp_cons ?c = Cons_Copy 1 [(7, 8)]" "sp_pushed ?c = [(7, 8)]" by (simp_all add: c0_def)
  from ring_stream_spsc_fifo [OF r] obtain rest where rest: "sp_pushed ?c = sp_popped ?c @ rest"
    "\<forall>n out. sp_cons ?c = Cons_Copy n out \<longrightarrow> (\<exists>more. rest = out @ more)" by blast
  from rest(2) sel(1) obtain more where "rest = [(7, 8)] @ more" by blast
  with rest(1) have more: "sp_pushed ?c = sp_popped ?c @ [(7, 8)] @ more" by simp
  show ?thesis by (intro exI conjI) (rule sel(1), rule sel(2), rule more)
qed

end
