(* ===== verification/Wav.thy ===== *)
theory Wav
  imports HXBase
begin

unbundle bit_operations_syntax

text \<open>
  \<^verbatim>\<open>engine/audio/audio_wav_read.c\<close> and the file backend of \<^verbatim>\<open>engine/audio/audio_sink_wav.c\<close>:
  the RIFF parser, the sample conversions, and the writer that patches its sizes on close.
  A pointer into a byte buffer is the buffer with an offset.  The chunk walk of the parser
  advances by 32-bit arithmetic and may stand still, so it is a partial function: \<^term>\<open>None\<close>
  means that the call does not return.  A stdio stream is its contents and its position.
\<close>

section \<open>Little-endian fields\<close>

definition rd_u16le :: "byte list \<Rightarrow> nat \<Rightarrow> nat" where
  "rd_u16le b p = unat (b ! p) + 256 * unat (b ! (p + 1))"

definition rd_u32le :: "byte list \<Rightarrow> nat \<Rightarrow> nat" where
  "rd_u32le b p = unat (b ! p) + 256 * unat (b ! (p + 1)) + 65536 * unat (b ! (p + 2)) +
     16777216 * unat (b ! (p + 3))"

definition put_u16le :: "nat \<Rightarrow> byte list" where
  "put_u16le v = [of_nat v, of_nat (v div 256)]"

definition put_u32le :: "nat \<Rightarrow> byte list" where
  "put_u32le v = [of_nat v, of_nat (v div 256), of_nat (v div 65536), of_nat (v div 16777216)]"

text \<open>A string constant of the code as bytes.\<close>

definition ascii :: "string \<Rightarrow> byte list" where
  "ascii s = map (\<lambda>c. of_nat (of_char c)) s"

section \<open>The parser\<close>

datatype wav_result = WAV_OK | WAV_ERR_TOO_SMALL | WAV_ERR_BAD_MAGIC | WAV_ERR_NOT_PCM
  | WAV_ERR_UNSUPPORTED | WAV_ERR_NO_DATA

record wav_info =
  wi_format :: nat
  wi_channels :: nat
  wi_sample_rate :: nat
  wi_bits :: nat
  wi_data :: "(byte list \<times> nat) option"
  wi_data_bytes :: nat

definition wav_info_zero :: wav_info where
  "wav_info_zero = \<lparr>wi_format = 0, wi_channels = 0, wi_sample_rate = 0, wi_bits = 0,
     wi_data = None, wi_data_bytes = 0\<rparr>"

text \<open>One pass of the chunk loop: the fields it fills and the flags it sets.\<close>

definition chunk_size :: "byte list \<Rightarrow> nat \<Rightarrow> nat" where
  "chunk_size buf pos = rd_u32le buf (pos + 4)"

definition chunk_advance :: "byte list \<Rightarrow> nat \<Rightarrow> nat" where
  "chunk_advance buf pos = u32 (8 + chunk_size buf pos + (chunk_size buf pos) mod 2)"

definition wav_chunk ::
    "byte list \<Rightarrow> nat \<Rightarrow> wav_info \<times> bool \<times> bool \<Rightarrow> wav_info \<times> bool \<times> bool" where
  "wav_chunk buf pos s =
     (case s of (info, have_fmt, have_data) \<Rightarrow>
        let ck_size = chunk_size buf pos;
            body = pos + 8;
            avail = length buf - (pos + 8);
            use = (if ck_size \<le> avail then ck_size else u32 avail)
        in if seg pos 4 buf = ascii ''fmt '' \<and> 16 \<le> use
           then (info\<lparr>wi_format := rd_u16le buf body, wi_channels := rd_u16le buf (body + 2),
                      wi_sample_rate := rd_u32le buf (body + 4), wi_bits := rd_u16le buf (body + 14)\<rparr>,
                 True, have_data)
           else if seg pos 4 buf = ascii ''data''
           then (info\<lparr>wi_data := Some (buf, body), wi_data_bytes := use\<rparr>, have_fmt, True)
           else (info, have_fmt, have_data))"

text \<open>
  The position is a \<^verbatim>\<open>size_t\<close>, of \<open>w\<close> bits: 64 on a host, 32 on the microcontroller.  Both the sum in
  the test of the loop and the step can wrap; a position whose test wraps passes it although the
  chunk lies outside the buffer, which is \<^term>\<open>None\<close> here like a walk that does not end.
\<close>

partial_function (option) wav_loop ::
    "nat \<Rightarrow> byte list \<Rightarrow> nat \<Rightarrow> wav_info \<times> bool \<times> bool \<Rightarrow> (wav_info \<times> bool \<times> bool) option" where
  [code]: "wav_loop w buf pos s =
     (if length buf < (pos + 8) mod 2 ^ w then Some s
      else if length buf < pos + 8 then None
      else wav_loop w buf ((pos + chunk_advance buf pos) mod 2 ^ w) (wav_chunk buf pos s))"

definition wav_parse :: "nat \<Rightarrow> byte list \<Rightarrow> (wav_result \<times> wav_info) option" where
  "wav_parse w buf =
     (if length buf < 12 then Some (WAV_ERR_TOO_SMALL, wav_info_zero)
      else if seg 0 4 buf \<noteq> ascii ''RIFF'' then Some (WAV_ERR_BAD_MAGIC, wav_info_zero)
      else if seg 8 4 buf \<noteq> ascii ''WAVE'' then Some (WAV_ERR_BAD_MAGIC, wav_info_zero)
      else case wav_loop w buf 12 (wav_info_zero, False, False) of
             None \<Rightarrow> None
           | Some (info, have_fmt, have_data) \<Rightarrow>
               Some (if \<not> have_fmt then WAV_ERR_NO_DATA
                     else if wi_format info \<noteq> 1 then WAV_ERR_NOT_PCM
                     else if \<not> have_data then WAV_ERR_NO_DATA
                     else if wi_channels info < 1 \<or> 2 < wi_channels info then WAV_ERR_UNSUPPORTED
                     else if wi_bits info \<noteq> 8 \<and> wi_bits info \<noteq> 16 then WAV_ERR_UNSUPPORTED
                     else WAV_OK, info))"

section \<open>Conversions\<close>

definition sample16 :: "byte list \<Rightarrow> nat \<Rightarrow> int" where
  "sample16 d p = i16 (int (rd_u16le d p))"

definition sample8 :: "byte list \<Rightarrow> nat \<Rightarrow> int" where
  "sample8 d p = (int (unat (d ! p)) - 128) * 256"

definition frame_bytes :: "wav_info \<Rightarrow> nat" where
  "frame_bytes info = wi_channels info * (wi_bits info div 8)"

text \<open>One source frame, downmixed: the truncated mean of its channels.\<close>

definition mono_frame :: "wav_info \<Rightarrow> byte list \<Rightarrow> nat \<Rightarrow> nat \<Rightarrow> int" where
  "mono_frame info d off i =
     (let ch = wi_channels info; bps = wi_bits info div 8;
          at = (\<lambda>c. off + i * frame_bytes info + c * bps);
          v = (\<lambda>c. if wi_bits info = 16 then sample16 d (at c) else sample8 d (at c))
      in cdiv (sum_list (map v [0..<ch])) (int ch))"

definition wav_to_mono_pcm16 :: "wav_info \<Rightarrow> nat \<Rightarrow> int list" where
  "wav_to_mono_pcm16 info max_frames =
     (case wi_data info of
        None \<Rightarrow> []
      | Some (d, off) \<Rightarrow>
          let fb = frame_bytes info
          in if fb = 0 then []
             else let avail = wi_data_bytes info div fb;
                      n = (if avail < max_frames then avail else max_frames)
                  in map (\<lambda>i. i16 (mono_frame info d off i)) [0..<n])"

definition resample_step :: "nat \<Rightarrow> nat \<Rightarrow> nat" where
  "resample_step src_rate dst_rate = (src_rate * 4294967296) div dst_rate"

definition resample_count :: "nat \<Rightarrow> nat \<Rightarrow> nat \<Rightarrow> nat \<Rightarrow> nat" where
  "resample_count src_frames src_rate dst_rate max_dst_frames =
     (let producible = ((src_frames - 1) * dst_rate) div src_rate
      in if max_dst_frames < producible then max_dst_frames else producible)"

text \<open>The phase of the \<open>i\<close>-th output frame, the sum of \<open>i\<close> steps at 64 bits.\<close>

definition resample_phase :: "nat \<Rightarrow> nat \<Rightarrow> nat" where
  "resample_phase step i = u64 (i * step)"

definition resample_frame :: "wav_info \<Rightarrow> byte list \<Rightarrow> nat \<Rightarrow> nat \<Rightarrow> nat \<Rightarrow> int" where
  "resample_frame info d off src_frames phase =
     (let idx = u32 (phase div 4294967296); frac = u32 phase
      in if src_frames \<le> u32 (idx + 1) then i16 (mono_frame info d off (src_frames - 1))
         else let a = mono_frame info d off idx; b = mono_frame info d off (u32 (idx + 1))
              in i16 (a + asr ((b - a) * int frac) 32))"

definition wav_to_mono_pcm16_resample :: "wav_info \<Rightarrow> nat \<Rightarrow> nat \<Rightarrow> int list" where
  "wav_to_mono_pcm16_resample info max_dst_frames dst_rate =
     (case wi_data info of
        None \<Rightarrow> []
      | Some (d, off) \<Rightarrow>
          if dst_rate = 0 then []
          else let src_rate = (if wi_sample_rate info \<noteq> 0 then wi_sample_rate info else dst_rate)
          in if src_rate = dst_rate then wav_to_mono_pcm16 info max_dst_frames
             else let fb = frame_bytes info
             in if fb = 0 then []
                else let src_frames = wi_data_bytes info div fb
                in if src_frames < 2 then []
                   else let step = resample_step src_rate dst_rate;
                            n_out = resample_count src_frames src_rate dst_rate max_dst_frames
                        in map (\<lambda>i. resample_frame info d off src_frames (resample_phase step i))
                             [0..<n_out])"

definition stereo_frame :: "wav_info \<Rightarrow> byte list \<Rightarrow> nat \<Rightarrow> nat \<Rightarrow> int \<times> int" where
  "stereo_frame info d off i =
     (let ch = wi_channels info; s = off + i * frame_bytes info
      in if wi_bits info = 16
         then (let l = sample16 d s in (l, if ch = 2 then sample16 d (s + 2) else l))
         else (let l = i16 (sample8 d s) in (l, if ch = 2 then i16 (sample8 d (s + 1)) else l)))"

definition wav_to_stereo_pcm16 :: "wav_info \<Rightarrow> nat \<Rightarrow> (int \<times> int) list" where
  "wav_to_stereo_pcm16 info max_frames =
     (case wi_data info of
        None \<Rightarrow> []
      | Some (d, off) \<Rightarrow>
          let fb = frame_bytes info
          in if fb = 0 then []
             else let avail = wi_data_bytes info div fb;
                      n = (if avail < max_frames then avail else max_frames)
                  in map (stereo_frame info d off) [0..<n])"

section \<open>The file writer\<close>

record wav_ctx =
  wc_file :: "byte list"
  wc_pos :: nat
  wc_sample_rate :: nat
  wc_frames_written :: nat

definition AUDIO_SINK_CHANNELS :: nat where [simp]: "AUDIO_SINK_CHANNELS = 2"
definition AUDIO_SINK_BITS :: nat where [simp]: "AUDIO_SINK_BITS = 16"

text \<open>\<^verbatim>\<open>fwrite\<close> at the stream position, and \<^verbatim>\<open>fseek\<close> from the start.\<close>

definition fwrite :: "wav_ctx \<Rightarrow> byte list \<Rightarrow> wav_ctx" where
  "fwrite c bs = c\<lparr>wc_file := blit (wc_file c) (wc_pos c) bs, wc_pos := wc_pos c + length bs\<rparr>"

definition fseek :: "wav_ctx \<Rightarrow> nat \<Rightarrow> wav_ctx" where
  "fseek c p = c\<lparr>wc_pos := p\<rparr>"

definition wav_header :: "nat \<Rightarrow> nat \<Rightarrow> byte list" where
  "wav_header sample_rate data_bytes =
     (let channels = AUDIO_SINK_CHANNELS; bits = AUDIO_SINK_BITS;
          block_align = u16 (channels * (bits div 8));
          byte_rate = u32 (sample_rate * block_align)
      in ascii ''RIFF'' @ put_u32le (u32 (36 + data_bytes)) @ ascii ''WAVE'' @ ascii ''fmt '' @
         put_u32le 16 @ put_u16le 1 @ put_u16le channels @ put_u32le sample_rate @
         put_u32le byte_rate @ put_u16le block_align @ put_u16le bits @
         ascii ''data'' @ put_u32le data_bytes)"

definition wav_open :: "nat \<Rightarrow> wav_ctx" where
  "wav_open sample_rate =
     fwrite \<lparr>wc_file = [], wc_pos = 0, wc_sample_rate = sample_rate, wc_frames_written = 0\<rparr>
       (wav_header sample_rate 0)"

definition put_s16le :: "int \<Rightarrow> byte list" where
  "put_s16le v = put_u16le (nat (v mod 65536))"

text \<open>
  \<^verbatim>\<open>wav_write\<close> of an interleaved buffer; \<open>items\<close> is the number of samples that \<^verbatim>\<open>fwrite\<close>
  reports as written.
\<close>

definition wav_write :: "wav_ctx \<Rightarrow> int list \<Rightarrow> nat \<Rightarrow> nat \<times> wav_ctx" where
  "wav_write c interleaved items =
     (let c1 = fwrite c (concat (map put_s16le (take items interleaved)));
          got = u32 (items div AUDIO_SINK_CHANNELS)
      in (got, c1\<lparr>wc_frames_written := u32 (wc_frames_written c1 + got)\<rparr>))"

definition wav_close :: "wav_ctx \<Rightarrow> wav_ctx" where
  "wav_close c =
     (let data_bytes = u32 (wc_frames_written c * AUDIO_SINK_CHANNELS * (AUDIO_SINK_BITS div 8));
          c1 = fwrite (fseek c 4) (put_u32le (u32 (36 + data_bytes)))
      in fwrite (fseek c1 40) (put_u32le data_bytes))"

end
