(* ===== verification/Wav_Spec.thy ===== *)
theory Wav_Spec
  imports Wav
begin

text \<open>
  The promises of the WAV code: the parser returns whenever every chunk moves it forward and
  then never points outside the buffer, the writer and the parser are inverse, the conversions
  keep to the 16-bit range, and the resampler reads only frames of the source.
\<close>

section \<open>Little-endian round trips\<close>

lemma unat_byte: "unat (of_nat v :: byte) = v mod 256"
  by (simp add: unat_of_nat)

lemma byte_less: "unat (x :: byte) < 256"
proof -
  have "unat x = unat x mod 256" using unat_byte [of "unat x"] by simp
  then show ?thesis by (metis mod_less_divisor zero_less_numeral)
qed

lemma rd_put_u16: "rd_u16le (xs @ put_u16le v @ ys) (length xs) = v mod 65536"
proof -
  have "v mod (256 * 256) = 256 * (v div 256 mod 256) + v mod 256" by (rule mod_mult2_eq)
  then show ?thesis by (simp add: rd_u16le_def put_u16le_def nth_append unat_byte)
qed

lemma rd_put_u32: "rd_u32le (xs @ put_u32le v @ ys) (length xs) = v mod 4294967296"
proof -
  have a: "v mod (256 * 16777216) = 256 * (v div 256 mod 16777216) + v mod 256" by (rule mod_mult2_eq)
  have b: "v div 256 mod (256 * 65536) = 256 * (v div 256 div 256 mod 65536) + v div 256 mod 256"
    by (rule mod_mult2_eq)
  have c: "v div 256 div 256 mod (256 * 256) =
      256 * (v div 256 div 256 div 256 mod 256) + v div 256 div 256 mod 256" by (rule mod_mult2_eq)
  show ?thesis using a b c
    by (simp add: rd_u32le_def put_u32le_def nth_append unat_byte div_mult2_eq [symmetric])
qed

lemma length_put [simp]: "length (put_u16le v) = 2" "length (put_u32le v) = 4" "length (put_s16le x) = 2"
  "length (ascii s) = length s"
  by (simp_all add: put_u16le_def put_u32le_def put_s16le_def ascii_def)

lemma rd_u32le_less: "rd_u32le b p < 4294967296"
proof -
  have "unat (b ! k) < 256" for k by (rule byte_less)
  from this [of p] this [of "p + 1"] this [of "p + 2"] this [of "p + 3"]
  show ?thesis by (simp add: rd_u32le_def)
qed

lemma rd_u16le_less: "rd_u16le b p < 65536"
proof -
  have "unat (b ! k) < 256" for k by (rule byte_less)
  from this [of p] this [of "p + 1"] show ?thesis by (simp add: rd_u16le_def)
qed

lemma i16_mod: "- 32768 \<le> v \<Longrightarrow> v \<le> 32767 \<Longrightarrow> i16 (v mod 65536) = v"
  by (simp add: i16_def mod_simps)

lemma sample16_put:
  assumes "- 32768 \<le> v" and "v \<le> 32767"
  shows "sample16 (xs @ put_s16le v @ ys) (length xs) = v"
proof -
  have "nat (v mod 65536) mod 65536 = nat (v mod 65536)" by (simp add: nat_mod_distrib)
  then show ?thesis
    using i16_mod [OF assms] by (simp add: sample16_def put_s16le_def rd_put_u16)
qed

section \<open>The chunk walk\<close>

text \<open>The two sizes with which the 32-bit advance is zero.\<close>

lemma mod_once: "x < 2 * m \<Longrightarrow> x mod m = (if x < m then x else x - m)" for x m :: nat
  by (simp add: not_less le_mod_geq)

lemma chunk_advance_zero:
  "chunk_advance buf pos = 0 \<longleftrightarrow> chunk_size buf pos = 4294967288 \<or> chunk_size buf pos = 4294967287"
proof -
  let ?s = "chunk_size buf pos"
  have "?s < 4294967296" by (simp add: chunk_size_def rd_u32le_less)
  then have "8 + ?s + ?s mod 2 < 2 * 4294967296" by linarith
  from mod_once [OF this] have "(8 + ?s + ?s mod 2) mod 4294967296 =
      (if 8 + ?s + ?s mod 2 < 4294967296 then 8 + ?s + ?s mod 2 else 8 + ?s + ?s mod 2 - 4294967296)" .
  then have "chunk_advance buf pos =
      (if 8 + ?s + ?s mod 2 < 4294967296 then 8 + ?s + ?s mod 2 else 8 + ?s + ?s mod 2 - 4294967296)"
    by (simp add: chunk_advance_def u32_def)
  then show ?thesis using \<open>?s < 4294967296\<close> by presburger
qed

lemma wav_loop_stuck:
  assumes "pos + 8 \<le> length buf" and "chunk_advance buf pos = 0" and "pos + 8 < 2 ^ w"
  shows "wav_loop w buf pos s = None"
proof -
  have "\<not> (v = w \<and> b = buf \<and> p = pos)" if loop: "wav_loop v b p t = Some y" for v b p t y
  proof (rule wav_loop.raw_induct [where P = "\<lambda>v b p t y. \<not> (v = w \<and> b = buf \<and> p = pos)", OF _ loop], rule notI)
    fix wl v b p t y
    assume IH: "\<And>v p b t y. wl v p b t = Some y \<Longrightarrow> \<not> (v = w \<and> p = buf \<and> b = pos)"
      and eq: "(if length b < (p + 8) mod 2 ^ v then Some t else if length b < p + 8 then None
        else wl v b ((p + chunk_advance b p) mod 2 ^ v) (wav_chunk b p t)) = Some y"
      and bp: "v = w \<and> b = buf \<and> p = pos"
    have "pos mod 2 ^ w = pos" "(pos + 8) mod 2 ^ w = pos + 8" using assms(3) by simp_all
    with eq bp assms(1,2) have "wl w buf pos (wav_chunk buf pos t) = Some y" by (auto split: if_splits)
    from IH [OF this] show False by simp
  qed
  then show ?thesis by (metis option.exhaust)
qed

text \<open>The places of the chunks, as the sizes in the buffer give them.\<close>

inductive chunk_at :: "byte list \<Rightarrow> nat \<Rightarrow> bool" for buf where
  first: "chunk_at buf 12"
| later: "chunk_at buf p \<Longrightarrow> p + 8 \<le> length buf \<Longrightarrow> chunk_at buf (p + chunk_advance buf p)"

lemma wav_loop_returns:
  assumes "\<And>p. chunk_at buf p \<Longrightarrow> p + 8 \<le> length buf \<Longrightarrow> chunk_advance buf p \<noteq> 0 \<and> p + chunk_advance buf p + 8 < 2 ^ w"
    and "chunk_at buf pos" and "pos + 8 < 2 ^ w"
  shows "\<exists>t. wav_loop w buf pos s = Some t"
  using assms(2,3)
proof (induction "length buf + 8 - pos" arbitrary: pos s rule: less_induct)
  case less
  have m: "(pos + 8) mod 2 ^ w = pos + 8" using less.prems(2) by simp
  show ?case
  proof (cases "pos + 8 \<le> length buf")
    case False
    then have "wav_loop w buf pos s = Some s" using m by (subst wav_loop.simps) simp
    then show ?thesis by (rule exI)
  next
    case True
    have a: "0 < chunk_advance buf pos" "pos + chunk_advance buf pos + 8 < 2 ^ w"
      using assms(1) [OF less.prems(1) True] by simp_all
    then have "(pos + chunk_advance buf pos) mod 2 ^ w = pos + chunk_advance buf pos" by simp
    moreover have "\<exists>t. wav_loop w buf (pos + chunk_advance buf pos) (wav_chunk buf pos s) = Some t"
      using True a by (intro less.hyps chunk_at.later [OF less.prems(1) True]) auto
    ultimately show ?thesis using True m by (subst wav_loop.simps) simp
  qed
qed

text \<open>What the loop found lies inside the buffer.\<close>

definition data_inside :: "byte list \<Rightarrow> wav_info \<times> bool \<times> bool \<Rightarrow> bool" where
  "data_inside buf s \<longleftrightarrow> (case s of (info, f, d) \<Rightarrow>
     (d \<longrightarrow> (\<exists>off. wi_data info = Some (buf, off) \<and> off + wi_data_bytes info \<le> length buf)))"

lemma wav_chunk_inside:
  assumes "data_inside buf s" and "pos + 8 \<le> length buf"
  shows "data_inside buf (wav_chunk buf pos s)"
proof -
  have "u32 n \<le> n" for n by (simp add: u32_def)
  then have "pos + 8 + u32 (length buf - (pos + 8)) \<le> length buf"
    using assms(2) by (metis le_add_diff_inverse add_left_mono)
  with assms show ?thesis
    by (auto simp: data_inside_def wav_chunk_def Let_def split: prod.splits)
qed

lemma wav_loop_inside:
  assumes "wav_loop w buf pos s = Some t"
  shows "data_inside buf s \<longrightarrow> data_inside buf t"
proof (rule wav_loop.raw_induct [where P = "\<lambda>w b p s t. data_inside b s \<longrightarrow> data_inside b t", OF _ assms])
  fix wl w b p s t
  assume IH: "\<And>w b p s t. wl w b p s = Some t \<Longrightarrow> data_inside b s \<longrightarrow> data_inside b t"
    and eq: "(if length b < (p + 8) mod 2 ^ w then Some s else if length b < p + 8 then None
      else wl w b ((p + chunk_advance b p) mod 2 ^ w) (wav_chunk b p s)) = Some t"
  show "data_inside b s \<longrightarrow> data_inside b t"
  proof (cases "length b < (p + 8) mod 2 ^ w")
    case False
    with eq have p: "p + 8 \<le> length b" "wl w b ((p + chunk_advance b p) mod 2 ^ w) (wav_chunk b p s) = Some t"
      by (auto split: if_splits)
    from IH [OF p(2)] show ?thesis using wav_chunk_inside [of b s p] p(1) by blast
  qed (use eq in simp)
qed

section \<open>The writer\<close>

definition header_mid :: "nat \<Rightarrow> byte list" where
  "header_mid rate = ascii ''WAVE'' @ ascii ''fmt '' @ put_u32le 16 @ put_u16le 1 @ put_u16le 2 @
     put_u32le rate @ put_u32le (u32 (rate * 4)) @ put_u16le 4 @ put_u16le 16 @ ascii ''data''"

lemma length_header_mid [simp]: "length (header_mid rate) = 32"
  by (simp add: header_mid_def)

lemma wav_header_split:
  "wav_header rate n = ascii ''RIFF'' @ put_u32le (u32 (36 + n)) @ header_mid rate @ put_u32le n"
  by (simp add: wav_header_def header_mid_def Let_def)

lemma length_wav_header [simp]: "length (wav_header rate n) = 44"
  by (simp add: wav_header_split)

lemma blit_at: "length xs = p \<Longrightarrow> length ys = length zs \<Longrightarrow> blit (xs @ ys @ ws) p zs = xs @ zs @ ws"
  by (simp add: blit_def)

lemma patch_header:
  "blit (blit (wav_header rate 0 @ ds) 4 (put_u32le (u32 (36 + n)))) 40 (put_u32le n) = wav_header rate n @ ds"
proof -
  let ?R = "ascii ''RIFF''" and ?new = "put_u32le (u32 (36 + n))" and ?M = "header_mid rate"
  have "blit (wav_header rate 0 @ ds) 4 ?new = ?R @ ?new @ ?M @ put_u32le 0 @ ds"
    using blit_at [of ?R 4 "put_u32le (u32 (36 + 0))" ?new "?M @ put_u32le 0 @ ds"]
    by (simp add: wav_header_split)
  moreover have "blit (?R @ ?new @ ?M @ put_u32le 0 @ ds) 40 (put_u32le n) = ?R @ ?new @ ?M @ put_u32le n @ ds"
    using blit_at [of "?R @ ?new @ ?M" 40 "put_u32le 0" "put_u32le n" ds] by simp
  ultimately show ?thesis by (simp add: wav_header_split)
qed

definition interleave :: "(int \<times> int) list \<Rightarrow> int list" where
  "interleave fs = concat (map (\<lambda>(l, r). [l, r]) fs)"

definition pcm_bytes :: "(int \<times> int) list \<Rightarrow> byte list" where
  "pcm_bytes fs = concat (map put_s16le (interleave fs))"

lemma length_interleave [simp]: "length (interleave fs) = 2 * length fs"
  by (induction fs) (auto simp: interleave_def)

lemma length_pcm_bytes [simp]: "length (pcm_bytes fs) = 4 * length fs"
  by (induction fs) (auto simp: pcm_bytes_def interleave_def)

lemma pcm_bytes_append: "pcm_bytes (fs @ gs) = pcm_bytes fs @ pcm_bytes gs"
  by (simp add: pcm_bytes_def interleave_def)

text \<open>A whole buffer of frames, every sample written.\<close>

definition write_all :: "wav_ctx \<Rightarrow> (int \<times> int) list \<Rightarrow> wav_ctx" where
  "write_all c fs = snd (wav_write c (interleave fs) (2 * length fs))"

definition written :: "nat \<Rightarrow> (int \<times> int) list \<Rightarrow> wav_ctx \<Rightarrow> bool" where
  "written rate fs c \<longleftrightarrow> wc_file c = wav_header rate 0 @ pcm_bytes fs \<and>
     wc_pos c = length (wc_file c) \<and> wc_frames_written c = u32 (length fs)"

lemma wav_open_written: "written rate [] (wav_open rate)"
  by (simp add: written_def wav_open_def fwrite_def blit_def pcm_bytes_def interleave_def u32_def)

lemma write_all_written:
  assumes "written rate fs c" shows "written rate (fs @ gs) (write_all c gs)"
proof -
  have "u32 (u32 (length fs) + u32 (length gs)) = u32 (length fs + length gs)"
    by (simp add: u32_def mod_simps)
  then show ?thesis
    using assms
    by (simp add: written_def write_all_def wav_write_def fwrite_def blit_def pcm_bytes_append
        Let_def) (simp add: pcm_bytes_def)
qed

lemma write_many_written:
  "written rate fs c \<Longrightarrow> written rate (fs @ concat gss) (foldl write_all c gss)"
proof (induction gss arbitrary: fs c)
  case (Cons gs gss)
  from Cons.IH [OF write_all_written [OF Cons.prems]] show ?case by simp
qed simp

lemma wav_close_file:
  assumes "written rate fs c" and "4 * length fs < 4294967296"
  shows "wc_file (wav_close c) = wav_header rate (4 * length fs) @ pcm_bytes fs"
proof -
  have "u32 (u32 (length fs) * 2 * 2) = 4 * length fs" using assms(2) by (simp add: u32_def)
  then show ?thesis
    using assms(1) patch_header [of rate "pcm_bytes fs" "4 * length fs"]
    by (simp add: written_def wav_close_def fwrite_def fseek_def Let_def)
qed

section \<open>Parsing what was written\<close>

definition header_prefix :: "nat \<Rightarrow> nat \<Rightarrow> byte list" where
  "header_prefix rate n = ascii ''RIFF'' @ put_u32le (u32 (36 + n)) @ ascii ''WAVE''"

lemma seg_at: "length xs = p \<Longrightarrow> length ys = n \<Longrightarrow> seg p n (xs @ ys @ zs) = ys"
  by (simp add: seg_def)

lemma rd_u32_at: "length xs = p \<Longrightarrow> v < 4294967296 \<Longrightarrow> rd_u32le (xs @ put_u32le v @ ys) p = v"
  using rd_put_u32 [of xs v ys] by simp

lemma rd_u16_at: "length xs = p \<Longrightarrow> v < 65536 \<Longrightarrow> rd_u16le (xs @ put_u16le v @ ys) p = v"
  using rd_put_u16 [of xs v ys] by simp

lemma header_fields:
  fixes rate n :: nat and ds :: "byte list"
  assumes "rate < 4294967296" and "n < 4294967296"
  defines "buf \<equiv> wav_header rate n @ ds"
  shows "seg 0 4 buf = ascii ''RIFF''" and "seg 8 4 buf = ascii ''WAVE''"
    and "seg 12 4 buf = ascii ''fmt ''" and "rd_u32le buf 16 = 16"
    and "rd_u16le buf 20 = 1" and "rd_u16le buf 22 = 2" and "rd_u32le buf 24 = rate"
    and "rd_u16le buf 34 = 16" and "seg 36 4 buf = ascii ''data''" and "rd_u32le buf 40 = n"
proof -
  let ?s = "u32 (36 + n)" and ?b = "u32 (rate * 4)"
  have f: "buf = ascii ''RIFF'' @ put_u32le ?s @ ascii ''WAVE'' @ ascii ''fmt '' @ put_u32le 16 @
     put_u16le 1 @ put_u16le 2 @ put_u32le rate @ put_u32le ?b @ put_u16le 4 @ put_u16le 16 @
     ascii ''data'' @ put_u32le n @ ds"
    by (simp add: buf_def wav_header_split header_mid_def)
  show "seg 0 4 buf = ascii ''RIFF''" unfolding f by (simp add: seg_def)
  show "seg 8 4 buf = ascii ''WAVE''"
    using seg_at [of "ascii ''RIFF'' @ put_u32le ?s" 8 "ascii ''WAVE''" 4] unfolding f by simp
  show "seg 12 4 buf = ascii ''fmt ''"
    using seg_at [of "ascii ''RIFF'' @ put_u32le ?s @ ascii ''WAVE''" 12 "ascii ''fmt ''" 4]
    unfolding f by simp
  show "rd_u32le buf 16 = 16"
    using rd_u32_at [of "ascii ''RIFF'' @ put_u32le ?s @ ascii ''WAVE'' @ ascii ''fmt ''" 16 16]
    unfolding f by simp
  show "rd_u16le buf 20 = 1"
    using rd_u16_at [of "ascii ''RIFF'' @ put_u32le ?s @ ascii ''WAVE'' @ ascii ''fmt '' @ put_u32le 16" 20 1]
    unfolding f by simp
  show "rd_u16le buf 22 = 2"
    using rd_u16_at [of "ascii ''RIFF'' @ put_u32le ?s @ ascii ''WAVE'' @ ascii ''fmt '' @ put_u32le 16 @
       put_u16le 1" 22 2] unfolding f by simp
  show "rd_u32le buf 24 = rate"
    using rd_u32_at [of "ascii ''RIFF'' @ put_u32le ?s @ ascii ''WAVE'' @ ascii ''fmt '' @ put_u32le 16 @
       put_u16le 1 @ put_u16le 2" 24 rate] assms(1) unfolding f by simp
  show "rd_u16le buf 34 = 16"
    using rd_u16_at [of "ascii ''RIFF'' @ put_u32le ?s @ ascii ''WAVE'' @ ascii ''fmt '' @ put_u32le 16 @
       put_u16le 1 @ put_u16le 2 @ put_u32le rate @ put_u32le ?b @ put_u16le 4" 34 16] unfolding f by simp
  show "seg 36 4 buf = ascii ''data''"
    using seg_at [of "ascii ''RIFF'' @ put_u32le ?s @ ascii ''WAVE'' @ ascii ''fmt '' @ put_u32le 16 @
       put_u16le 1 @ put_u16le 2 @ put_u32le rate @ put_u32le ?b @ put_u16le 4 @ put_u16le 16"
       36 "ascii ''data''" 4] unfolding f by simp
  show "rd_u32le buf 40 = n"
    using rd_u32_at [of "ascii ''RIFF'' @ put_u32le ?s @ ascii ''WAVE'' @ ascii ''fmt '' @ put_u32le 16 @
       put_u16le 1 @ put_u16le 2 @ put_u32le rate @ put_u32le ?b @ put_u16le 4 @ put_u16le 16 @
       ascii ''data''" 40 n] assms(2) unfolding f by simp
qed

lemma ascii_distinct: "ascii ''data'' \<noteq> ascii ''fmt ''" "ascii ''fmt '' \<noteq> ascii ''data''"
  by (simp_all add: ascii_def)

text \<open>The header of a file of \<open>n\<close> bytes of data, with all of them or with a first part.\<close>

lemma wav_parse_written:
  assumes rate: "rate < 4294967296" and n: "length ds \<le> n" "8 + n < 4294967296" "even n" and w: "52 + n < 2 ^ w"
  defines "buf \<equiv> wav_header rate n @ ds"
  shows "wav_parse w buf = Some (WAV_OK, \<lparr>wi_format = 1, wi_channels = 2, wi_sample_rate = rate,
           wi_bits = 16, wi_data = Some (buf, 44), wi_data_bytes = length ds\<rparr>)"
proof -
  have "n < 4294967296" using n(2) by simp
  note hf = header_fields [OF rate this, of ds, folded buf_def]
  have len: "length buf = 44 + length ds" by (simp add: buf_def)
  let ?i1 = "wav_info_zero\<lparr>wi_format := 1, wi_channels := 2, wi_sample_rate := rate, wi_bits := 16\<rparr>"
  let ?i2 = "?i1\<lparr>wi_data := Some (buf, 44), wi_data_bytes := length ds\<rparr>"
  have a1: "chunk_advance buf 12 = 24" using hf(4) by (simp add: chunk_advance_def chunk_size_def)
  have a2: "chunk_advance buf 36 = 8 + n"
    using hf(10) n(2,3) by (simp add: chunk_advance_def chunk_size_def even_iff_mod_2_eq_zero)
  have s1: "wav_chunk buf 12 (wav_info_zero, False, False) = (?i1, True, False)"
    using hf len n(2) by (simp add: wav_chunk_def chunk_size_def Let_def)
  have s2: "wav_chunk buf 36 (?i1, True, False) = (?i2, True, True)"
    using hf len n(1,2) ascii_distinct(1) by (simp add: wav_chunk_def chunk_size_def Let_def)
  have m: "(12 + 8) mod 2 ^ w = (20 :: nat)" "(12 + 24) mod 2 ^ w = (36 :: nat)" "(36 + 8) mod 2 ^ w = (44 :: nat)"
    "(44 + n) mod 2 ^ w = 44 + n" "(44 + n + 8) mod 2 ^ w = 44 + n + 8"
    using w by (auto intro!: mod_less)
  have "wav_loop w buf (44 + n) (?i2, True, True) = Some (?i2, True, True)"
    using len n(1) m(5) by (subst wav_loop.simps) simp
  then have "wav_loop w buf 36 (?i1, True, False) = Some (?i2, True, True)"
    using len a2 s2 m(3,4) by (subst wav_loop.simps) (simp add: add.assoc [symmetric])
  then have "wav_loop w buf 12 (wav_info_zero, False, False) = Some (?i2, True, True)"
    using len a1 s1 m(1,2) by (subst wav_loop.simps) simp
  then show ?thesis
    using hf(1,2) len by (simp add: wav_parse_def wav_info_zero_def)
qed

lemma pcm_sample:
  assumes "i < length fs" and "\<forall>(l, r) \<in> set fs. - 32768 \<le> l \<and> l \<le> 32767 \<and> - 32768 \<le> r \<and> r \<le> 32767"
  shows "sample16 (hd' @ pcm_bytes fs) (length hd' + 4 * i) = fst (fs ! i)"
    and "sample16 (hd' @ pcm_bytes fs) (length hd' + 4 * i + 2) = snd (fs ! i)"
proof -
  obtain l r where lr: "fs ! i = (l, r)" by fastforce
  have "(l, r) \<in> set fs" using assms(1) lr by (metis nth_mem)
  then have b: "- 32768 \<le> l" "l \<le> 32767" "- 32768 \<le> r" "r \<le> 32767" using assms(2) by auto
  have "fs = take i fs @ (l, r) # drop (Suc i) fs" using assms(1) lr by (metis id_take_nth_drop)
  then have "pcm_bytes fs = pcm_bytes (take i fs @ (l, r) # drop (Suc i) fs)" by (rule arg_cong)
  also have "\<dots> = pcm_bytes (take i fs) @ put_s16le l @ put_s16le r @ pcm_bytes (drop (Suc i) fs)"
    by (simp add: pcm_bytes_def interleave_def)
  finally have "pcm_bytes fs = \<dots>" .
  then have e: "hd' @ pcm_bytes fs = (hd' @ pcm_bytes (take i fs)) @ put_s16le l @
      (put_s16le r @ pcm_bytes (drop (Suc i) fs))"
    and e': "hd' @ pcm_bytes fs = (hd' @ pcm_bytes (take i fs) @ put_s16le l) @ put_s16le r @
      pcm_bytes (drop (Suc i) fs)" by simp_all
  have len: "length (pcm_bytes (take i fs)) = 4 * i" using assms(1) by simp
  show "sample16 (hd' @ pcm_bytes fs) (length hd' + 4 * i) = fst (fs ! i)"
    unfolding e using sample16_put [OF b(1,2), of "hd' @ pcm_bytes (take i fs)"] len lr by simp
  show "sample16 (hd' @ pcm_bytes fs) (length hd' + 4 * i + 2) = snd (fs ! i)"
    unfolding e' using sample16_put [OF b(3,4), of "hd' @ pcm_bytes (take i fs) @ put_s16le l"] len lr
    by (simp add: add.assoc)
qed

section \<open>Conversions\<close>

lemma sample16_range: "- 32768 \<le> sample16 d p \<and> sample16 d p \<le> 32767"
  unfolding sample16_def by (rule i16_range)

lemma sample8_range: "- 32768 \<le> sample8 d p \<and> sample8 d p \<le> 32767"
proof -
  obtain n where n: "unat (d ! p) = n" by simp
  then have "n < 256" using byte_less [of "d ! p"] by simp
  then show ?thesis unfolding sample8_def n by auto
qed

lemma cdiv_mean_range:
  assumes "\<forall>x \<in> set xs. - m - 1 \<le> x \<and> x \<le> m" and "0 \<le> m" and "xs \<noteq> []"
  shows "- m - 1 \<le> cdiv (sum_list xs) (int (length xs))" and "cdiv (sum_list xs) (int (length xs)) \<le> m"
proof -
  let ?n = "int (length xs)" and ?s = "sum_list xs"
  have n: "0 < ?n" using assms(3) by simp
  have up: "?s \<le> ?n * m" using assms(1) by (induction xs) (auto simp: algebra_simps)
  have lo: "?n * (- m - 1) \<le> ?s" using assms(1) by (induction xs) (auto simp: algebra_simps)
  have pos: "?s div ?n \<le> m" using up n by (metis div_le_mono less_imp_le nonzero_mult_div_cancel_left order_less_irrefl zdiv_mono1)
  have neg: "(- ?s) div ?n \<le> m + 1"
  proof -
    have "- ?s \<le> ?n * (m + 1)" using lo by (simp add: algebra_simps)
    then have "(- ?s) div ?n \<le> (?n * (m + 1)) div ?n" using n by (intro zdiv_mono1)
    then show ?thesis using n by simp
  qed
  have "0 \<le> \<bar>?s\<bar> div ?n" using n by (intro pos_imp_zdiv_nonneg_iff [THEN iffD2]) auto
  then have "- m - 1 \<le> cdiv ?s ?n \<and> cdiv ?s ?n \<le> m"
    using pos neg n assms(2) by (auto simp: cdiv_def sgn_if abs_if split: if_splits)
  then show "- m - 1 \<le> cdiv ?s ?n" and "cdiv ?s ?n \<le> m" by blast+
qed

lemma mono_frame_range:
  assumes "0 < wi_channels info"
  shows "- 32768 \<le> mono_frame info d off i" and "mono_frame info d off i \<le> 32767"
proof -
  define xs where "xs = map (\<lambda>c. if wi_bits info = 16
      then sample16 d (off + i * frame_bytes info + c * (wi_bits info div 8))
      else sample8 d (off + i * frame_bytes info + c * (wi_bits info div 8))) [0..<wi_channels info]"
  have "\<forall>x \<in> set xs. - 32767 - 1 \<le> x \<and> x \<le> 32767" using sample16_range sample8_range by (auto simp: xs_def)
  from cdiv_mean_range [OF this] assms
  have "- 32768 \<le> cdiv (sum_list xs) (int (length xs)) \<and> cdiv (sum_list xs) (int (length xs)) \<le> 32767"
    by (simp add: xs_def)
  then show "- 32768 \<le> mono_frame info d off i" and "mono_frame info d off i \<le> 32767"
    by (simp_all add: mono_frame_def Let_def xs_def)
qed

lemma lerp_asr:
  assumes "0 \<le> frac" and "frac < 4294967296"
  shows "min a b \<le> a + asr ((b - a) * frac) 32" and "a + asr ((b - a) * frac) 32 \<le> max a b"
  using lerp_between [OF assms, of a b] by (simp_all add: asr_def)

text \<open>
  The phase of every output frame stays at least one frame before the end of the source, so
  the clamp at the edge is never needed and both frames of the interpolation exist.
\<close>

lemma resample_index:
  assumes S: "2 \<le> S" and R: "0 < R" and D: "0 < D" and i: "i < resample_count S R D m"
    and b: "S < 4294967296"
  shows "resample_phase (resample_step R D) i div 4294967296 + 1 < S"
    and "resample_phase (resample_step R D) i < 18446744073709551616"
proof -
  let ?q = "((S - 1) * D) div R"
  have "i < ?q" using i by (auto simp: resample_count_def Let_def split: if_splits)
  then have "(i + 1) * R \<le> ?q * R" by (intro mult_right_mono) auto
  also have "\<dots> \<le> (S - 1) * D" by (metis div_times_less_eq_dividend)
  finally have a: "i * R < (S - 1) * D" using R by simp
  have "i * resample_step R D \<le> (i * (R * 4294967296)) div D"
  proof -
    have "resample_step R D * D \<le> R * 4294967296" by (simp add: resample_step_def)
    then have "i * resample_step R D * D \<le> i * (R * 4294967296)" by simp
    then show ?thesis using D by (simp add: less_eq_div_iff_mult_less_eq)
  qed
  also have "i * (R * 4294967296) = (i * R) * 4294967296" by simp
  finally have le: "i * resample_step R D \<le> (i * R) * 4294967296 div D" .
  have "(i * R) * 4294967296 < ((S - 1) * D) * 4294967296" using a by simp
  then have "(i * R) * 4294967296 div D < (S - 1) * 4294967296"
    using D by (simp add: div_less_iff_less_mult mult.commute mult.left_commute)
  with le have lt: "i * resample_step R D < (S - 1) * 4294967296" by linarith
  also have "\<dots> < 18446744073709551616" using b S by simp
  finally have "i * resample_step R D < 18446744073709551616" .
  then have ph: "resample_phase (resample_step R D) i = i * resample_step R D"
    by (simp add: resample_phase_def)
  show "resample_phase (resample_step R D) i < 18446744073709551616" by (simp add: resample_phase_def)
  have "i * resample_step R D div 4294967296 < S - 1" using lt by (simp add: div_less_iff_less_mult)
  then show "resample_phase (resample_step R D) i div 4294967296 + 1 < S" unfolding ph using S by linarith
qed

section \<open>Properties\<close>


text \<open>A file of one frame, whose samples -9 and -1 are the bytes of one of the two sizes.\<close>

definition tiny_wav :: "byte list" where "tiny_wav = wav_header 8000 4 @ [0xF7, 0xFF, 0xFF, 0xFF]"

lemma tiny_chunks: "chunk_at tiny_wav p \<Longrightarrow> p \<in> {12, 36, 48}"
proof (induction rule: chunk_at.induct)
  case (later p)
  have f: "rd_u32le tiny_wav 16 = 16" "rd_u32le tiny_wav 40 = 4"
    using header_fields(4,10) [of 8000 4 "[0xF7, 0xFF, 0xFF, 0xFF]"] by (simp_all add: tiny_wav_def)
  have "length tiny_wav = 48" by (simp add: tiny_wav_def)
  then have "p = 12 \<or> p = 36" using later by auto
  then show ?case by (elim disjE) (simp_all add: chunk_advance_def chunk_size_def f)
qed simp


text \<open>
  the advance of the chunk walk is computed at 32 bits, so a file whose first
  chunk claims the size \<^verbatim>\<open>0xFFFFFFF8\<close> moves it by zero: the parser never returns.
\<close>

theorem wav_parse_hangs:
  assumes "w = 32 \<or> w = 64"
  shows "wav_parse w (ascii ''RIFF'' @ put_u32le n @ ascii ''WAVE'' @ ascii ''LIST'' @ put_u32le 4294967288 @ ds) = None"
proof -
  define buf where "buf = ascii ''RIFF'' @ put_u32le n @ ascii ''WAVE'' @ ascii ''LIST'' @ put_u32le 4294967288 @ ds"
  have "rd_u32le buf 16 = 4294967288"
    using rd_u32_at [of "ascii ''RIFF'' @ put_u32le n @ ascii ''WAVE'' @ ascii ''LIST''" 16 4294967288 ds]
    by (simp add: buf_def)
  then have "chunk_advance buf 12 = 0" by (simp add: chunk_advance_zero chunk_size_def)
  moreover have len: "20 \<le> length buf" by (simp add: buf_def)
  ultimately have "wav_loop w buf 12 (wav_info_zero, False, False) = None" using assms by (intro wav_loop_stuck) auto
  moreover have "seg 0 4 buf = ascii ''RIFF''" by (simp add: buf_def seg_def)
  moreover have "seg 8 4 buf = ascii ''WAVE''"
    using seg_at [of "ascii ''RIFF'' @ put_u32le n" 8 "ascii ''WAVE''" 4] by (simp add: buf_def)
  ultimately show ?thesis using len by (simp add: wav_parse_def flip: buf_def)
qed

text \<open>
  C14: what the file writer writes, the parser and the stereo converter read back: after any
  sequence of complete writes and the close that patches the sizes, the file parses as
  16-bit stereo PCM at the rate of the stream and decodes to exactly the frames written.
\<close>

theorem wav_file_roundtrip:
  assumes "rate < 4294967296" and "4 * length (concat gss) + 8 < 4294967296"
    and "\<forall>(l, r) \<in> set (concat gss). - 32768 \<le> l \<and> l \<le> 32767 \<and> - 32768 \<le> r \<and> r \<le> 32767"
  shows "\<exists>info. wav_parse 64 (wc_file (wav_close (foldl write_all (wav_open rate) gss))) = Some (WAV_OK, info) \<and>
    wi_sample_rate info = rate \<and> wi_channels info = 2 \<and> wi_bits info = 16 \<and>
    wi_data_bytes info = 4 * length (concat gss) \<and>
    wav_to_stereo_pcm16 info (length (concat gss)) = concat gss"
proof -
  define fs where "fs = concat gss"
  define buf where "buf = wav_header rate (4 * length fs) @ pcm_bytes fs"
  have small: "8 + 4 * length fs < 4294967296" using assms(2) by (simp add: fs_def add.commute)
  have "written rate ([] @ concat gss) (foldl write_all (wav_open rate) gss)"
    by (rule write_many_written [OF wav_open_written])
  then have "wc_file (wav_close (foldl write_all (wav_open rate) gss)) = buf"
    using wav_close_file [of rate fs] small by (simp add: fs_def buf_def)
  moreover define info where "info = \<lparr>wi_format = 1, wi_channels = 2, wi_sample_rate = rate,
           wi_bits = 16, wi_data = Some (buf, 44), wi_data_bytes = 4 * length fs\<rparr>"
  then have "wav_parse 64 buf = Some (WAV_OK, info)"
    using wav_parse_written [OF assms(1) _ small, of "pcm_bytes fs" 64] small by (simp add: buf_def)
  moreover have "wav_to_stereo_pcm16 info (length fs) = fs"
  proof (rule nth_equalityI)
    have fb: "frame_bytes info = 4" by (simp add: frame_bytes_def info_def)
    then show "length (wav_to_stereo_pcm16 info (length fs)) = length fs"
      by (simp add: wav_to_stereo_pcm16_def info_def Let_def)
    fix i assume "i < length (wav_to_stereo_pcm16 info (length fs))"
    then have i: "i < length fs" using fb by (simp add: wav_to_stereo_pcm16_def info_def Let_def)
    have "wav_to_stereo_pcm16 info (length fs) ! i = stereo_frame info buf 44 i"
      using i fb by (simp add: wav_to_stereo_pcm16_def info_def Let_def)
    also have "\<dots> = (sample16 buf (44 + 4 * i), sample16 buf (44 + 4 * i + 2))"
      using fb by (simp add: stereo_frame_def info_def Let_def mult.commute)
    also have "\<dots> = fs ! i"
      using pcm_sample [OF i assms(3) [folded fs_def], of "wav_header rate (4 * length fs)"]
      by (simp add: buf_def)
    finally show "wav_to_stereo_pcm16 info (length fs) ! i = fs ! i" .
  qed
  ultimately show ?thesis
    by (intro exI [of _ info]) (simp add: info_def fs_def)
qed

theorem wav_file_roundtrip_witness:
  "\<exists>info. wav_parse 64 (wc_file (wav_close (foldl write_all (wav_open 48000) [[(1, - 2)], [(3, - 32768)]]))) =
     Some (WAV_OK, info) \<and> wav_to_stereo_pcm16 info 2 = [(1, - 2), (3, - 32768)]"
  using wav_file_roundtrip [of 48000 "[[(1, - 2)], [(3, - 32768)]]"] by (auto simp: numeral_2_eq_2)

text \<open>
  the resampling converter never overruns: it writes at most the frames asked for,
  every output frame interpolates two frames that exist in the source (the clamp at the edge
  is never reached), and lies between them, so the 16-bit conversion is exact.
\<close>

theorem wav_resample_inside:
  assumes "wi_data info = Some (d, off)" and "wi_channels info \<in> {1, 2}" and "wi_bits info \<in> {8, 16}"
    and "wi_data_bytes info < 4294967296" and "wi_sample_rate info \<noteq> 0"
    and "dst_rate \<noteq> 0" and "wi_sample_rate info \<noteq> dst_rate"
  shows "length (wav_to_mono_pcm16_resample info m dst_rate) \<le> m \<and>
    (\<forall>i < length (wav_to_mono_pcm16_resample info m dst_rate).
       \<exists>k. k + 1 < wi_data_bytes info div frame_bytes info \<and>
         (let a = mono_frame info d off k; b = mono_frame info d off (k + 1);
              y = wav_to_mono_pcm16_resample info m dst_rate ! i
          in min a b \<le> y \<and> y \<le> max a b))"
proof -
  let ?S = "wi_data_bytes info div frame_bytes info" and ?R = "wi_sample_rate info"
  let ?out = "wav_to_mono_pcm16_resample info m dst_rate"
  have fb: "0 < frame_bytes info" using assms(2,3) by (auto simp: frame_bytes_def)
  have S: "?S < 4294967296" using assms(4) by (meson div_le_dividend le_less_trans)
  show ?thesis
  proof (cases "?S < 2")
    case True
    then have "?out = []" using assms fb by (simp add: wav_to_mono_pcm16_resample_def Let_def)
    then show ?thesis by simp
  next
    case False
    define ph where "ph = resample_phase (resample_step ?R dst_rate)"
    have out: "?out = map (\<lambda>i. resample_frame info d off ?S (ph i)) [0..<resample_count ?S ?R dst_rate m]"
      using assms fb False by (simp add: wav_to_mono_pcm16_resample_def Let_def ph_def)
    have "resample_count ?S ?R dst_rate m \<le> m" by (simp add: resample_count_def Let_def)
    moreover have "\<exists>k. k + 1 < ?S \<and>
         (let a = mono_frame info d off k; b = mono_frame info d off (k + 1); y = ?out ! i
          in min a b \<le> y \<and> y \<le> max a b)" if "i < length ?out" for i
    proof -
      have i: "i < resample_count ?S ?R dst_rate m" using that by (simp add: out)
      define k where "k = ph i div 4294967296"
      have k: "k + 1 < ?S"
        using resample_index(1) [OF _ _ _ i S] False assms(5,6) by (simp add: k_def ph_def)
      then have u: "u32 k = k" "u32 (k + 1) = k + 1" using S by simp_all
      let ?a = "mono_frame info d off k" and ?b = "mono_frame info d off (k + 1)"
      let ?y = "?a + asr ((?b - ?a) * int (u32 (ph i))) 32"
      have lb: "min ?a ?b \<le> ?y" "?y \<le> max ?a ?b"
        by (rule lerp_asr; use u32_less [of "ph i"] in simp)+
      have ch: "0 < wi_channels info" using assms(2) by auto
      have "i16 ?y = ?y"
        using lb mono_frame_range [OF ch, of d off k] mono_frame_range [OF ch, of d off "k + 1"]
        by (intro i16_id) linarith+
      then have "?out ! i = ?y"
        using i k u by (simp add: out resample_frame_def Let_def k_def [symmetric])
      then show ?thesis using k lb by (intro exI [of _ k]) (simp add: Let_def)
    qed
    ultimately show ?thesis using out by simp
  qed
qed

theorem wav_resample_inside_witness:
  "length (wav_to_mono_pcm16_resample \<lparr>wi_format = 1, wi_channels = 1, wi_sample_rate = 4, wi_bits = 8,
     wi_data = Some ([0, 100, 200], 0), wi_data_bytes = 3\<rparr> 4 8) \<le> 4"
  using wav_resample_inside [of "\<lparr>wi_format = 1, wi_channels = 1, wi_sample_rate = 4, wi_bits = 8,
     wi_data = Some ([0, 100, 200], 0), wi_data_bytes = 3\<rparr>" "[0, 100, 200]" 0 8 4] by simp

end
