(* ===== verification/Fixed_Point.thy ===== *)
theory Fixed_Point
  imports HXBase
begin

unbundle bit_operations_syntax

text \<open>
  \<^verbatim>\<open>engine/math/fixed_point.h\<close>: the Q formats of the engine.  A value is the \<^typ>\<open>int\<close> of its
  C integer; every operation reduces its result to the width of the C expression (two's
  complement, as on the two targets), so overflow is visible.  The conversions from and to
  floating point are not modelled.
\<close>

section \<open>Constants and saturation\<close>

definition Q15_ONE :: int where "Q15_ONE = 32767"
definition Q31_ONE :: int where "Q31_ONE = 2147483647"
definition Q16_ONE :: int where "Q16_ONE = 65536"
definition Q32_ONE :: int where "Q32_ONE = 4294967296"
definition Q48_ONE :: int where "Q48_ONE = 65536"

definition Q15_MAX :: int where "Q15_MAX = 32767"
definition Q15_MIN :: int where "Q15_MIN = - 32768"
definition Q31_MAX :: int where "Q31_MAX = 2147483647"
definition Q31_MIN :: int where "Q31_MIN = - 2147483648"
definition Q16_MAX :: int where "Q16_MAX = 2147483647"
definition Q16_MIN :: int where "Q16_MIN = - 2147483648"
definition Q32_MAX :: int where "Q32_MAX = 9223372036854775807"
definition Q32_MIN :: int where "Q32_MIN = - 9223372036854775808"
definition Q48_MAX :: int where "Q48_MAX = 9223372036854775807"
definition Q48_MIN :: int where "Q48_MIN = - 9223372036854775808"

definition fx_sat32 :: "int \<Rightarrow> int" where
  "fx_sat32 v = (if v > 2147483647 then 2147483647 else if v < - 2147483648 then - 2147483648 else i32 v)"

definition fx_sat16 :: "int \<Rightarrow> int" where
  "fx_sat16 v = (if v > 32767 then 32767 else if v < - 32768 then - 32768 else i16 v)"

section \<open>Integer square root\<close>

function isqrt_top :: "nat \<Rightarrow> nat \<Rightarrow> nat" where
  "isqrt_top b x = (if x < b then isqrt_top (b div 4) x else b)"
  by pat_completeness auto
termination by (relation "measure fst") auto

function isqrt_loop :: "nat \<Rightarrow> nat \<Rightarrow> nat \<Rightarrow> nat" where
  "isqrt_loop x res b =
     (if b = 0 then res
      else if res + b \<le> x then isqrt_loop (x - (res + b)) (res div 2 + b) (b div 4)
      else isqrt_loop x (res div 2) (b div 4))"
  by pat_completeness auto
termination by (relation "measure (\<lambda>(x, res, b). b)") auto

declare isqrt_top.simps [simp del] isqrt_loop.simps [simp del]

definition fx_isqrt64 :: "nat \<Rightarrow> nat" where
  "fx_isqrt64 x = u32 (isqrt_loop x 0 (isqrt_top (2 ^ 62) x))"

section \<open>Q15\<close>

definition q15_from_int :: "int \<Rightarrow> int" where
  "q15_from_int x = i16 (i32 (x * 2 ^ 15))"

definition q15_to_int :: "int \<Rightarrow> int" where
  "q15_to_int x = asr x 15"

definition q15_add :: "int \<Rightarrow> int \<Rightarrow> int" where
  "q15_add a b = i16 (a + b)"

definition q15_sub :: "int \<Rightarrow> int \<Rightarrow> int" where
  "q15_sub a b = i16 (a - b)"

definition q15_neg :: "int \<Rightarrow> int" where
  "q15_neg a = i16 (- a)"

definition q15_abs :: "int \<Rightarrow> int" where
  "q15_abs a = i16 (if a < 0 then - a else a)"

definition q15_mul :: "int \<Rightarrow> int \<Rightarrow> int" where
  "q15_mul a b = i16 (asr (i32 (a * b)) 15)"

definition q15_div :: "int \<Rightarrow> int \<Rightarrow> int" where
  "q15_div a b = i16 (cdiv (i32 (a * 2 ^ 15)) b)"

definition q15_mac :: "int \<Rightarrow> int \<Rightarrow> int \<Rightarrow> int" where
  "q15_mac a b c = i16 (a + i16 (asr (i32 (b * c)) 15))"

definition q15_reciprocal :: "int \<Rightarrow> int" where
  "q15_reciprocal x = i16 (cdiv (i32 (Q15_ONE * 2 ^ 15)) x)"

definition q15_sat_add :: "int \<Rightarrow> int \<Rightarrow> int" where
  "q15_sat_add a b = fx_sat16 (a + b)"

definition q15_sat_sub :: "int \<Rightarrow> int \<Rightarrow> int" where
  "q15_sat_sub a b = fx_sat16 (a - b)"

definition q15_sat_neg :: "int \<Rightarrow> int" where
  "q15_sat_neg a = (if a = Q15_MIN then Q15_MAX else i16 (- a))"

definition q15_sat_abs :: "int \<Rightarrow> int" where
  "q15_sat_abs a = (if a = Q15_MIN then Q15_MAX else i16 (if a < 0 then - a else a))"

definition q15_sat_mul :: "int \<Rightarrow> int \<Rightarrow> int" where
  "q15_sat_mul a b = fx_sat16 (asr (i32 (a * b)) 15)"

section \<open>Q31\<close>

definition q31_from_int :: "int \<Rightarrow> int" where
  "q31_from_int x = i32 (x * 2 ^ 31)"

definition q31_to_int :: "int \<Rightarrow> int" where
  "q31_to_int x = asr x 31"

definition q31_add :: "int \<Rightarrow> int \<Rightarrow> int" where
  "q31_add a b = i32 (a + b)"

definition q31_sub :: "int \<Rightarrow> int \<Rightarrow> int" where
  "q31_sub a b = i32 (a - b)"

definition q31_neg :: "int \<Rightarrow> int" where
  "q31_neg a = i32 (- a)"

definition q31_abs :: "int \<Rightarrow> int" where
  "q31_abs a = i32 (if a < 0 then - a else a)"

definition q31_mul :: "int \<Rightarrow> int \<Rightarrow> int" where
  "q31_mul a b = i32 (asr (i64 (a * b)) 31)"

definition q31_div :: "int \<Rightarrow> int \<Rightarrow> int" where
  "q31_div a b = i32 (cdiv (i64 (a * 2 ^ 31)) b)"

definition q31_mac :: "int \<Rightarrow> int \<Rightarrow> int \<Rightarrow> int" where
  "q31_mac a b c = i32 (a + i32 (asr (i64 (b * c)) 31))"

definition q31_reciprocal :: "int \<Rightarrow> int" where
  "q31_reciprocal x = i32 (cdiv (i64 (Q31_ONE * 2 ^ 31)) x)"

definition q31_sat_add :: "int \<Rightarrow> int \<Rightarrow> int" where
  "q31_sat_add a b = fx_sat32 (a + b)"

definition q31_sat_sub :: "int \<Rightarrow> int \<Rightarrow> int" where
  "q31_sat_sub a b = fx_sat32 (a - b)"

definition q31_sat_neg :: "int \<Rightarrow> int" where
  "q31_sat_neg a = (if a = Q31_MIN then Q31_MAX else i32 (- a))"

definition q31_sat_abs :: "int \<Rightarrow> int" where
  "q31_sat_abs a = (if a = Q31_MIN then Q31_MAX else i32 (if a < 0 then - a else a))"

definition q31_sat_mul :: "int \<Rightarrow> int \<Rightarrow> int" where
  "q31_sat_mul a b = fx_sat32 (asr (i64 (a * b)) 31)"

section \<open>Q16\<close>

definition q16_from_int :: "int \<Rightarrow> int" where
  "q16_from_int x = i32 (x * 2 ^ 16)"

definition q16_to_int :: "int \<Rightarrow> int" where
  "q16_to_int x = asr x 16"

definition q16_to_int_round :: "int \<Rightarrow> int" where
  "q16_to_int_round x = asr (i32 (x + asr Q16_ONE 1)) 16"

definition q16_add :: "int \<Rightarrow> int \<Rightarrow> int" where
  "q16_add a b = i32 (a + b)"

definition q16_sub :: "int \<Rightarrow> int \<Rightarrow> int" where
  "q16_sub a b = i32 (a - b)"

definition q16_neg :: "int \<Rightarrow> int" where
  "q16_neg a = i32 (- a)"

definition q16_abs :: "int \<Rightarrow> int" where
  "q16_abs a = i32 (if a < 0 then - a else a)"

definition q16_mul :: "int \<Rightarrow> int \<Rightarrow> int" where
  "q16_mul a b = i32 (asr (i64 (a * b)) 16)"

definition q16_div :: "int \<Rightarrow> int \<Rightarrow> int" where
  "q16_div a b = i32 (cdiv (i64 (a * 2 ^ 16)) b)"

definition q16_mac :: "int \<Rightarrow> int \<Rightarrow> int \<Rightarrow> int" where
  "q16_mac a b c = i32 (a + i32 (asr (i64 (b * c)) 16))"

definition q16_reciprocal :: "int \<Rightarrow> int" where
  "q16_reciprocal x = i32 (cdiv (i64 (Q16_ONE * 2 ^ 16)) x)"

definition q16_sqrt :: "int \<Rightarrow> int" where
  "q16_sqrt x = (if x \<le> 0 then 0 else i32 (int (fx_isqrt64 (u32 (nat x) * 2 ^ 16))))"

definition q16_rsqrt :: "int \<Rightarrow> int" where
  "q16_rsqrt x = (if x \<le> 0 then Q16_MAX else i32 (int (fx_isqrt64 (2 ^ 48 div u32 (nat x)))))"

definition q16_sat_add :: "int \<Rightarrow> int \<Rightarrow> int" where
  "q16_sat_add a b = fx_sat32 (a + b)"

definition q16_sat_sub :: "int \<Rightarrow> int \<Rightarrow> int" where
  "q16_sat_sub a b = fx_sat32 (a - b)"

definition q16_sat_neg :: "int \<Rightarrow> int" where
  "q16_sat_neg a = (if a = Q16_MIN then Q16_MAX else i32 (- a))"

definition q16_sat_abs :: "int \<Rightarrow> int" where
  "q16_sat_abs a = (if a = Q16_MIN then Q16_MAX else i32 (if a < 0 then - a else a))"

definition q16_sat_mul :: "int \<Rightarrow> int \<Rightarrow> int" where
  "q16_sat_mul a b = fx_sat32 (asr (i64 (a * b)) 16)"

section \<open>Q32\<close>

definition q32_from_int :: "int \<Rightarrow> int" where
  "q32_from_int x =
     i64 (x * 2 ^ 32)"

definition q32_to_int :: "int \<Rightarrow> int" where
  "q32_to_int x =
     asr x 32"

definition q32_add :: "int \<Rightarrow> int \<Rightarrow> int" where
  "q32_add a b =
     i64 (a + b)"

definition q32_sub :: "int \<Rightarrow> int \<Rightarrow> int" where
  "q32_sub a b =
     i64 (a - b)"

definition q32_neg :: "int \<Rightarrow> int" where
  "q32_neg a =
     i64 (- a)"

definition q32_abs :: "int \<Rightarrow> int" where
  "q32_abs a =
     i64 (if a < 0 then - a else a)"

definition q32_mul :: "int \<Rightarrow> int \<Rightarrow> int" where
  "q32_mul a b =
     (let a_hi = asr a 32; a_lo = a mod 2 ^ 32; b_hi = asr b 32; b_lo = b mod 2 ^ 32;
          hi_hi = i64 (a_hi * b_hi); hi_lo = i64 (a_hi * b_lo); lo_hi = i64 (a_lo * b_hi);
          lo_lo = (a_lo * b_lo) mod 2 ^ 64
      in i64 (i64 (i64 (i64 (hi_hi * 2 ^ 32) + hi_lo) + lo_hi) + asr lo_lo 32))"

definition q32_scale_q16 :: "int \<Rightarrow> int \<Rightarrow> int" where
  "q32_scale_q16 a scale =
     (let a_hi = asr a 32; a_lo = a mod 2 ^ 32; s = scale;
          hi_part = i64 (a_hi * s);
          lo0 = i64 (asr ((a_lo * (if scale < 0 then - s else s)) mod 2 ^ 64) 16);
          lo_part = (if scale < 0 then i64 (- lo0) else lo0)
      in i64 (i64 (hi_part * 2 ^ (32 - 16)) + lo_part))"

definition q32_div :: "int \<Rightarrow> int \<Rightarrow> int" where
  "q32_div a b =
     (let q = i64 (cdiv a b * 2 ^ 32); r = a - cdiv a b * b
      in i64 (q + cdiv (i64 (r * 2 ^ 32)) b))"

definition q32_mac :: "int \<Rightarrow> int \<Rightarrow> int \<Rightarrow> int" where
  "q32_mac a b c =
     i64 (a + q32_mul b c)"

definition q32_reciprocal :: "int \<Rightarrow> int" where
  "q32_reciprocal x =
     q32_div Q32_ONE x"

definition q32_sat_add :: "int \<Rightarrow> int \<Rightarrow> int" where
  "q32_sat_add a b =
     (let r = i64 (a + b)
      in if (a XOR b) \<ge> 0 \<and> (a XOR r) < 0 then (if a < 0 then Q32_MIN else Q32_MAX) else r)"

definition q32_sat_sub :: "int \<Rightarrow> int \<Rightarrow> int" where
  "q32_sat_sub a b =
     (let r = i64 (a - b)
      in if (a XOR b) < 0 \<and> (a XOR r) < 0 then (if a < 0 then Q32_MIN else Q32_MAX) else r)"

definition q32_sat_neg :: "int \<Rightarrow> int" where
  "q32_sat_neg a =
     (if a = Q32_MIN then Q32_MAX else i64 (- a))"

definition q32_sat_abs :: "int \<Rightarrow> int" where
  "q32_sat_abs a =
     (if a = Q32_MIN then Q32_MAX else i64 (if a < 0 then - a else a))"

section \<open>Q48\<close>

definition q48_from_int :: "int \<Rightarrow> int" where
  "q48_from_int x =
     i64 (x * 2 ^ 16)"

definition q48_to_int :: "int \<Rightarrow> int" where
  "q48_to_int x =
     asr x 16"

definition q48_add :: "int \<Rightarrow> int \<Rightarrow> int" where
  "q48_add a b =
     i64 (a + b)"

definition q48_sub :: "int \<Rightarrow> int \<Rightarrow> int" where
  "q48_sub a b =
     i64 (a - b)"

definition q48_neg :: "int \<Rightarrow> int" where
  "q48_neg a =
     i64 (- a)"

definition q48_abs :: "int \<Rightarrow> int" where
  "q48_abs a =
     i64 (if a < 0 then - a else a)"

definition q48_mul :: "int \<Rightarrow> int \<Rightarrow> int" where
  "q48_mul a b =
     (let a_hi = asr a 32; a_lo = a mod 2 ^ 32; b_hi = asr b 32; b_lo = b mod 2 ^ 32;
          hi_hi = i64 (a_hi * b_hi); hi_lo = i64 (a_hi * b_lo); lo_hi = i64 (a_lo * b_hi);
          lo_lo = (a_lo * b_lo) mod 2 ^ 64
      in i64 (i64 (i64 (hi_hi * 2 ^ (64 - 16)) + i64 (i64 (hi_lo + lo_hi) * 2 ^ (32 - 16))) + asr lo_lo 16))"

definition q48_div :: "int \<Rightarrow> int \<Rightarrow> int" where
  "q48_div a b =
     (let q = i64 (cdiv a b * 2 ^ 16); r = a - cdiv a b * b
      in i64 (q + cdiv (i64 (r * 2 ^ 16)) b))"

definition q48_mac :: "int \<Rightarrow> int \<Rightarrow> int \<Rightarrow> int" where
  "q48_mac a b c =
     i64 (a + q48_mul b c)"

definition q48_reciprocal :: "int \<Rightarrow> int" where
  "q48_reciprocal x =
     q48_div Q48_ONE x"

definition q48_sat_add :: "int \<Rightarrow> int \<Rightarrow> int" where
  "q48_sat_add a b =
     (let r = i64 (a + b)
      in if (a XOR b) \<ge> 0 \<and> (a XOR r) < 0 then (if a < 0 then Q48_MIN else Q48_MAX) else r)"

definition q48_sat_sub :: "int \<Rightarrow> int \<Rightarrow> int" where
  "q48_sat_sub a b =
     (let r = i64 (a - b)
      in if (a XOR b) < 0 \<and> (a XOR r) < 0 then (if a < 0 then Q48_MIN else Q48_MAX) else r)"

definition q48_sat_neg :: "int \<Rightarrow> int" where
  "q48_sat_neg a =
     (if a = Q48_MIN then Q48_MAX else i64 (- a))"

definition q48_sat_abs :: "int \<Rightarrow> int" where
  "q48_sat_abs a =
     (if a = Q48_MIN then Q48_MAX else i64 (if a < 0 then - a else a))"

section \<open>Conversions between the formats\<close>

definition q15_to_q31 :: "int \<Rightarrow> int" where "q15_to_q31 x = i32 (x * 2 ^ 16)"
definition q31_to_q15 :: "int \<Rightarrow> int" where "q31_to_q15 x = i16 (asr x 16)"
definition q15_to_q16 :: "int \<Rightarrow> int" where "q15_to_q16 x = i32 (x * 2)"
definition q16_to_q15 :: "int \<Rightarrow> int" where "q16_to_q15 x = fx_sat16 (asr x 1)"
definition q16_to_q32 :: "int \<Rightarrow> int" where "q16_to_q32 x = i64 (x * 2 ^ 16)"
definition q32_to_q16 :: "int \<Rightarrow> int" where "q32_to_q16 x = fx_sat32 (asr x 16)"
definition q16_to_q48 :: "int \<Rightarrow> int" where "q16_to_q48 x = x"
definition q48_to_q16 :: "int \<Rightarrow> int" where "q48_to_q16 x = fx_sat32 x"

end
