(* ===== verification/Fixed_Point_Spec.thy ===== *)
theory Fixed_Point_Spec
  imports Fixed_Point
begin

unbundle bit_operations_syntax

text \<open>
  What the fixed-point routines compute: the integer square root is the floor of the root, the
  64-bit products built from partial products are the exact shifted product, and the
  saturating operations are the exact result clamped to the format.
\<close>

section \<open>The integer square root\<close>

lemma four_power: "(4 :: nat) ^ k = 2 ^ k * 2 ^ k"
  by (induction k) simp_all

text \<open>
  The restoring method at the bit \<open>4 ^ k\<close>: with the root \<open>r\<close> found so far, \<open>x\<close> is the
  remainder \<open>X - r\<^sup>2\<close> and \<open>res\<close> is \<open>2 r 2 ^ k\<close>.
\<close>

lemma isqrt_loop_step:
  fixes X r :: nat
  assumes "r * r \<le> X" and "X < (r + 2 * 2 ^ k) * (r + 2 * 2 ^ k)"
  shows "isqrt_loop (X - r * r) (2 * r * 2 ^ k) (4 ^ k) * isqrt_loop (X - r * r) (2 * r * 2 ^ k) (4 ^ k) \<le> X \<and>
    X < (isqrt_loop (X - r * r) (2 * r * 2 ^ k) (4 ^ k) + 1) * (isqrt_loop (X - r * r) (2 * r * 2 ^ k) (4 ^ k) + 1)"
  using assms
proof (induction k arbitrary: r)
  case 0
  have z: "isqrt_loop y q 0 = q" for y q by (subst isqrt_loop.simps) simp
  show ?case
  proof (cases "(r + 1) * (r + 1) \<le> X")
    case True
    then have "2 * r + 1 \<le> X - r * r" by (simp add: algebra_simps)
    then have "isqrt_loop (X - r * r) (2 * r * 2 ^ 0) (4 ^ 0) = r + 1"
      by (subst isqrt_loop.simps) (simp add: z)
    with True 0 show ?thesis by (simp add: algebra_simps)
  next
    case False
    then have "\<not> 2 * r + 1 \<le> X - r * r" using 0 by (simp add: algebra_simps)
    then have "isqrt_loop (X - r * r) (2 * r * 2 ^ 0) (4 ^ 0) = r"
      by (subst isqrt_loop.simps) (simp add: z)
    with False 0 show ?thesis by (simp add: not_le)
  qed
next
  case (Suc k)
  let ?p = "2 ^ Suc k :: nat" and ?s = "r + 2 ^ Suc k"
  have p4: "(4 :: nat) ^ Suc k = ?p * ?p"
    by (rule four_power)
  have half: "2 * r * ?p div 2 = 2 * r * 2 ^ k" by simp
  have d4: "(4 :: nat) ^ Suc k div 4 = 4 ^ k" by simp
  have sq: "?s * ?s = r * r + (2 * r * ?p + ?p * ?p)" by (simp add: algebra_simps)
  show ?case
  proof (cases "?s * ?s \<le> X")
    case True
    then have le: "2 * r * ?p + 4 ^ Suc k \<le> X - r * r" unfolding p4 sq by simp
    have x: "X - r * r - (2 * r * ?p + 4 ^ Suc k) = X - ?s * ?s" unfolding p4 sq by simp
    have res: "2 * r * ?p div 2 + 4 ^ Suc k = 2 * ?s * 2 ^ k" unfolding p4 half by (simp add: algebra_simps)
    have "isqrt_loop (X - r * r) (2 * r * ?p) (4 ^ Suc k) = isqrt_loop (X - ?s * ?s) (2 * ?s * 2 ^ k) (4 ^ k)"
      using le by (subst isqrt_loop.simps) (simp only: x res d4 if_True, simp)
    moreover have "X < (?s + 2 * 2 ^ k) * (?s + 2 * 2 ^ k)" using Suc.prems(2) by (simp add: algebra_simps)
    ultimately show ?thesis using Suc.IH [OF True] by simp
  next
    case False
    then have nle: "\<not> 2 * r * ?p + 4 ^ Suc k \<le> X - r * r" using Suc.prems(1) unfolding p4 sq by simp
    have "isqrt_loop (X - r * r) (2 * r * ?p) (4 ^ Suc k) = isqrt_loop (X - r * r) (2 * r * 2 ^ k) (4 ^ k)"
      using nle by (subst isqrt_loop.simps) (simp only: half d4 if_False, simp)
    moreover have "X < (r + 2 * 2 ^ k) * (r + 2 * 2 ^ k)" using False by simp
    ultimately show ?thesis using Suc.IH [OF Suc.prems(1)] by simp
  qed
qed

lemma isqrt_top_spec: "X < 4 * 4 ^ k \<Longrightarrow>
    isqrt_top (4 ^ k) X = 0 \<and> X = 0 \<or> (\<exists>j \<le> k. isqrt_top (4 ^ k) X = 4 ^ j \<and> X < 4 * 4 ^ j)"
proof (induction k)
  case 0
  show ?case
  proof (cases "X = 0")
    case True
    have "isqrt_top 0 0 = 0" by (subst isqrt_top.simps) simp
    then have "isqrt_top (4 ^ 0) X = 0" using True by (subst isqrt_top.simps) simp
    with True show ?thesis by simp
  next
    case False
    then have "isqrt_top (4 ^ 0) X = 4 ^ 0" by (subst isqrt_top.simps) simp
    with 0 show ?thesis by auto
  qed
next
  case (Suc k)
  show ?case
  proof (cases "X < 4 ^ Suc k")
    case True
    then have "isqrt_top (4 ^ Suc k) X = isqrt_top (4 ^ k) X" by (subst isqrt_top.simps) simp
    then show ?thesis using Suc.IH True by (auto intro: le_SucI)
  next
    case False
    then have "isqrt_top (4 ^ Suc k) X = 4 ^ Suc k" by (subst isqrt_top.simps) simp
    with Suc.prems show ?thesis by blast
  qed
qed

lemma fx_isqrt64_floor:
  assumes "x < 18446744073709551616"
  shows "fx_isqrt64 x * fx_isqrt64 x \<le> x" and "x < (fx_isqrt64 x + 1) * (fx_isqrt64 x + 1)"
proof -
  define R where "R = isqrt_loop x 0 (isqrt_top (2 ^ 62) x)"
  have top: "(2 :: nat) ^ 62 = 4 ^ 31" by simp
  have "x < 4 * 4 ^ 31" using assms by simp
  from isqrt_top_spec [OF this] have "R * R \<le> x \<and> x < (R + 1) * (R + 1)"
  proof (elim disjE exE conjE)
    assume "isqrt_top (4 ^ 31) x = 0" and "x = 0"
    moreover have "isqrt_loop 0 0 0 = 0" by (subst isqrt_loop.simps) simp
    ultimately show ?thesis by (simp add: R_def top del: power_numeral)
  next
    fix j assume j: "isqrt_top (4 ^ 31) x = 4 ^ j" "x < 4 * 4 ^ j"
    have "(4 :: nat) ^ j = 2 ^ j * 2 ^ j" by (rule four_power)
    then have "x < (0 + 2 * 2 ^ j) * (0 + 2 * 2 ^ j)" using j(2) by (simp add: algebra_simps)
    from isqrt_loop_step [of 0 x j, OF _ this] show ?thesis
      by (simp add: R_def top j(1) del: power_numeral)
  qed
  moreover have "R < 4294967296"
  proof (rule ccontr)
    assume "\<not> R < 4294967296"
    then have "4294967296 * 4294967296 \<le> R * R" by (intro mult_le_mono) simp_all
    then show False using assms \<open>R * R \<le> x \<and> _\<close> by simp
  qed
  ultimately show "fx_isqrt64 x * fx_isqrt64 x \<le> x" and "x < (fx_isqrt64 x + 1) * (fx_isqrt64 x + 1)"
    by (simp_all add: fx_isqrt64_def R_def)
qed

section \<open>Reduction to the width\<close>

lemma i64_cong:
  assumes "x mod 18446744073709551616 = y mod 18446744073709551616"
  shows "i64 x = i64 y"
proof -
  have "(x + 9223372036854775808) mod 18446744073709551616 = (y + 9223372036854775808) mod 18446744073709551616"
    using assms by (rule mod_add_cong) (rule refl)
  then show ?thesis unfolding i64_def by (rule arg_cong)
qed

lemma i64_mod: "i64 x mod 18446744073709551616 = x mod 18446744073709551616"
proof -
  let ?M = "18446744073709551616 :: int" and ?h = "9223372036854775808 :: int"
  have "i64 x mod ?M = ((x + ?h) mod ?M - ?h) mod ?M" by (simp only: i64_def)
  also have "\<dots> = (x + ?h - ?h) mod ?M" by (rule mod_diff_left_eq)
  finally show ?thesis by simp
qed

lemma i64_add [simp]: "i64 (i64 x + y) = i64 (x + y)" "i64 (x + i64 y) = i64 (x + y)"
proof -
  have *: "i64 (i64 u + v) = i64 (u + v)" for u v
    by (rule i64_cong) (rule mod_add_cong [OF i64_mod refl])
  show "i64 (i64 x + y) = i64 (x + y)" by (rule *)
  have "i64 (i64 y + x) = i64 (y + x)" by (rule *)
  then show "i64 (x + i64 y) = i64 (x + y)" by (simp only: add.commute)
qed

lemma i64_mult [simp]: "i64 (i64 x * y) = i64 (x * y)"
proof (rule i64_cong)
  let ?M = "18446744073709551616 :: int"
  have "i64 x * y mod ?M = (i64 x mod ?M) * y mod ?M" by (rule mod_mult_left_eq [symmetric])
  also have "\<dots> = (x mod ?M) * y mod ?M" by (simp only: i64_mod)
  also have "\<dots> = x * y mod ?M" by (rule mod_mult_left_eq)
  finally show "i64 x * y mod ?M = x * y mod ?M" .
qed

lemma i64_range: "- 9223372036854775808 \<le> i64 x \<and> i64 x \<le> 9223372036854775807"
proof -
  have "0 \<le> (x + 9223372036854775808) mod 18446744073709551616"
    and "(x + 9223372036854775808) mod 18446744073709551616 < 18446744073709551616" by simp_all
  then show ?thesis unfolding i64_def by linarith
qed

lemma shift_product:
  fixes a b :: int
  shows "a * b div 4294967296 =
    (a div 4294967296) * (b div 4294967296) * 4294967296 + (a div 4294967296) * (b mod 4294967296) +
    (a mod 4294967296) * (b div 4294967296) + (a mod 4294967296) * (b mod 4294967296) div 4294967296"
proof -
  let ?M = "4294967296 :: int"
  define ah al bh bl where "ah = a div ?M" and "al = a mod ?M" and "bh = b div ?M" and "bl = b mod ?M"
  have "a = ah * ?M + al" "b = bh * ?M + bl" by (simp_all add: ah_def al_def bh_def bl_def)
  then have "a * b = (ah * bh * ?M + ah * bl + al * bh) * ?M + al * bl" by (simp add: algebra_simps)
  then have "a * b div ?M = ah * bh * ?M + ah * bl + al * bh + al * bl div ?M"
    by (simp add: div_mult_self3)
  then show ?thesis by (simp add: ah_def al_def bh_def bl_def)
qed

lemma low_product_less:
  fixes a b :: int
  shows "0 \<le> (a mod 4294967296) * (b mod 4294967296)"
    and "(a mod 4294967296) * (b mod 4294967296) < 18446744073709551616"
proof -
  show "0 \<le> (a mod 4294967296) * (b mod 4294967296)" by simp
  have "(a mod 4294967296) * (b mod 4294967296) \<le> 4294967295 * 4294967295"
  proof (rule mult_mono)
    have "a mod 4294967296 < 4294967296" "b mod 4294967296 < 4294967296" by simp_all
    then show "a mod 4294967296 \<le> 4294967295" "b mod 4294967296 \<le> 4294967295" by linarith+
  qed simp_all
  then show "(a mod 4294967296) * (b mod 4294967296) < 18446744073709551616" by simp
qed

lemma q32_mul_exact: "q32_mul a b = i64 (a * b div 2 ^ 32)"
proof -
  have "(a mod 4294967296) * (b mod 4294967296) mod 18446744073709551616 =
      (a mod 4294967296) * (b mod 4294967296)"
    using low_product_less [of a b] by (rule mod_pos_pos_trivial)
  then have "q32_mul a b = i64 ((a div 4294967296) * (b div 4294967296) * 4294967296 +
      (a div 4294967296) * (b mod 4294967296) + (a mod 4294967296) * (b div 4294967296) +
      (a mod 4294967296) * (b mod 4294967296) div 4294967296)"
    by (simp add: q32_mul_def asr_def Let_def)
      (intro i64_cong mod_add_cong mod_mult_cong i64_mod refl)
  then show ?thesis by (simp add: shift_product [of a b])
qed

lemma q48_mul_exact: "q48_mul a b = i64 (a * b div 2 ^ 16)"
proof -
  let ?M = "4294967296 :: int"
  define ah al bh bl where "ah = a div ?M" and "al = a mod ?M" and "bh = b div ?M" and "bl = b mod ?M"
  have ab: "a = ah * ?M + al" "b = bh * ?M + bl" by (simp_all add: ah_def al_def bh_def bl_def)
  have "a * b = (ah * bh * 281474976710656 + (ah * bl + al * bh) * 65536) * 65536 + al * bl"
    unfolding ab by (simp add: algebra_simps)
  then have p: "a * b div 65536 = ah * bh * 281474976710656 + (ah * bl + al * bh) * 65536 + al * bl div 65536"
    by (simp add: div_mult_self3)
  have "al * bl mod 18446744073709551616 = al * bl"
    unfolding al_def bl_def using low_product_less [of a b] by (rule mod_pos_pos_trivial)
  then have "q48_mul a b = i64 (ah * bh * 281474976710656 + (ah * bl + al * bh) * 65536 + al * bl div 65536)"
    by (simp add: q48_mul_def asr_def Let_def ah_def al_def bh_def bl_def distrib_right)
      (intro i64_cong mod_add_cong mod_mult_cong i64_mod refl)
  with p show ?thesis by simp
qed

section \<open>Saturation\<close>

definition clamp :: "int \<Rightarrow> int \<Rightarrow> int \<Rightarrow> int" where
  "clamp lo hi v = max lo (min hi v)"

lemma fx_sat32_clamp: "fx_sat32 v = clamp (- 2147483648) 2147483647 v"
  by (auto simp: fx_sat32_def clamp_def)

lemma fx_sat16_clamp: "fx_sat16 v = clamp (- 32768) 32767 v"
  by (auto simp: fx_sat16_def clamp_def)

definition in64 :: "int \<Rightarrow> bool" where
  "in64 v \<longleftrightarrow> - 9223372036854775808 \<le> v \<and> v \<le> 9223372036854775807"

lemma i64_high: "9223372036854775807 < v \<Longrightarrow> v \<le> 18446744073709551615 \<Longrightarrow> i64 v = v - 18446744073709551616"
proof -
  assume v: "9223372036854775807 < v" "v \<le> 18446744073709551615"
  define w where "w = v - 18446744073709551616"
  have "i64 (w + 18446744073709551616) = i64 w" by (rule i64_cong) simp
  moreover have "i64 w = w" using v by (simp add: w_def)
  ultimately show ?thesis by (simp add: w_def)
qed

lemma i64_low: "v < - 9223372036854775808 \<Longrightarrow> - 18446744073709551616 \<le> v \<Longrightarrow> i64 v = v + 18446744073709551616"
proof -
  assume v: "v < - 9223372036854775808" "- 18446744073709551616 \<le> v"
  define w where "w = v + 18446744073709551616"
  have "i64 (w - 18446744073709551616) = i64 w" by (rule i64_cong) simp
  moreover have "i64 w = w" using v by (simp add: w_def)
  ultimately show ?thesis by (simp add: w_def)
qed

lemma q32_sat_add_clamp:
  assumes "in64 a" and "in64 b"
  shows "q32_sat_add a b = clamp Q32_MIN Q32_MAX (a + b)"
proof -
  consider (ok) "in64 (a + b)" | (high) "9223372036854775807 < a + b" | (low) "a + b < - 9223372036854775808"
    unfolding in64_def by linarith
  then show ?thesis
  proof cases
    case ok
    then show ?thesis
      by (auto simp: q32_sat_add_def in64_def clamp_def Q32_MIN_def Q32_MAX_def Let_def)
  next
    case high
    then have "i64 (a + b) = a + b - 18446744073709551616"
      using assms by (intro i64_high) (simp_all add: in64_def)
    with high assms show ?thesis
      by (auto simp: q32_sat_add_def in64_def clamp_def Q32_MIN_def Q32_MAX_def Let_def)
  next
    case low
    then have "i64 (a + b) = a + b + 18446744073709551616"
      using assms by (intro i64_low) (simp_all add: in64_def)
    with low assms show ?thesis
      by (auto simp: q32_sat_add_def in64_def clamp_def Q32_MIN_def Q32_MAX_def Let_def)
  qed
qed

lemma q32_sat_sub_clamp:
  assumes "in64 a" and "in64 b"
  shows "q32_sat_sub a b = clamp Q32_MIN Q32_MAX (a - b)"
proof -
  consider (ok) "in64 (a - b)" | (high) "9223372036854775807 < a - b" | (low) "a - b < - 9223372036854775808"
    unfolding in64_def by linarith
  then show ?thesis
  proof cases
    case ok
    then show ?thesis
      by (auto simp: q32_sat_sub_def in64_def clamp_def Q32_MIN_def Q32_MAX_def Let_def)
  next
    case high
    then have "i64 (a - b) = a - b - 18446744073709551616"
      using assms by (intro i64_high) (simp_all add: in64_def)
    with high assms show ?thesis
      by (auto simp: q32_sat_sub_def in64_def clamp_def Q32_MIN_def Q32_MAX_def Let_def)
  next
    case low
    then have "i64 (a - b) = a - b + 18446744073709551616"
      using assms by (intro i64_low) (simp_all add: in64_def)
    with low assms show ?thesis
      by (auto simp: q32_sat_sub_def in64_def clamp_def Q32_MIN_def Q32_MAX_def Let_def)
  qed
qed

lemma q15_sat_mul_value:
  assumes "- 32768 \<le> a" "a \<le> 32767" "- 32768 \<le> b" "b \<le> 32767"
  shows "q15_sat_mul a b = (if a = - 32768 \<and> b = - 32768 then 32767 else a * b div 32768)"
proof -
  have ab: "\<bar>a\<bar> \<le> 32768" "\<bar>b\<bar> \<le> 32768" using assms by auto
  then have "\<bar>a * b\<bar> \<le> 32768 * 32768" unfolding abs_mult by (intro mult_mono) auto
  then have i: "i32 (a * b) = a * b" by simp
  show ?thesis
  proof (cases "a = - 32768 \<and> b = - 32768")
    case True
    then show ?thesis by (simp add: q15_sat_mul_def fx_sat16_def asr_def i32_def)
  next
    case False
    then have "\<bar>a\<bar> \<le> 32767 \<or> \<bar>b\<bar> \<le> 32767" using assms by auto
    then have "\<bar>a\<bar> * \<bar>b\<bar> \<le> 32767 * 32768"
    proof
      assume "\<bar>a\<bar> \<le> 32767"
      then show ?thesis using ab by (intro mult_mono) auto
    next
      assume "\<bar>b\<bar> \<le> 32767"
      then have "\<bar>a\<bar> * \<bar>b\<bar> \<le> 32768 * 32767" using ab by (intro mult_mono) auto
      then show ?thesis by simp
    qed
    then have "\<bar>a * b\<bar> \<le> 32767 * 32768" by (simp add: abs_mult)
    then have "- 32768 \<le> a * b div 32768" "a * b div 32768 \<le> 32767"
      by (auto simp: abs_le_iff)
    then show ?thesis unfolding q15_sat_mul_def i fx_sat16_def asr_def if_not_P [OF False] by simp
  qed
qed

section \<open>Properties\<close>

text \<open>
  C22: the bit-by-bit integer square root of any 64-bit value is the floor of its root.
\<close>

theorem fx_isqrt64_is_floor_sqrt:
  assumes "x < 18446744073709551616"
  shows "fx_isqrt64 x * fx_isqrt64 x \<le> x \<and> x < (fx_isqrt64 x + 1) * (fx_isqrt64 x + 1) \<and>
    (\<forall>n. fx_isqrt64 (n * n) = n \<or> n \<ge> 4294967296)"
proof (intro conjI allI)
  fix n
  show "fx_isqrt64 (n * n) = n \<or> n \<ge> 4294967296"
  proof (cases "n \<ge> 4294967296")
    case False
    then have "n * n \<le> 4294967295 * 4294967295" by (intro mult_le_mono) auto
    then have lt: "n * n < 18446744073709551616" by simp
    note r = fx_isqrt64_floor [OF lt]
    have "\<not> n < fx_isqrt64 (n * n)"
    proof
      assume "n < fx_isqrt64 (n * n)"
      then have "n * n < fx_isqrt64 (n * n) * fx_isqrt64 (n * n)" by (intro mult_strict_mono') simp_all
      with r(1) show False by simp
    qed
    moreover have "\<not> fx_isqrt64 (n * n) < n"
      using r(2) by (metis Suc_eq_plus1 Suc_leI mult_le_mono not_less)
    ultimately show ?thesis by simp
  qed simp
qed (rule fx_isqrt64_floor [OF assms])+

theorem fx_isqrt64_is_floor_sqrt_witness: "fx_isqrt64 99 * fx_isqrt64 99 \<le> 99"
  using fx_isqrt64_is_floor_sqrt [of 99] by simp

text \<open>
  the 64-bit products that the code builds from four partial products are the product
  shifted to the format, reduced to 64 bits, and so exact whenever the result fits.
\<close>

theorem wide_products_exact:
  "q32_mul a b = i64 (a * b div 2 ^ 32) \<and> q48_mul a b = i64 (a * b div 2 ^ 16) \<and>
   (in64 (a * b div 2 ^ 32) \<longrightarrow> q32_mul a b = a * b div 2 ^ 32)"
  by (simp add: q32_mul_exact q48_mul_exact in64_def)

theorem wide_products_exact_witness: "q32_mul (3 * 2 ^ 32) (- (2 ^ 31)) = - 3 * 2 ^ 31"
  using wide_products_exact [of "3 * 2 ^ 32" "- (2 ^ 31)"] by (simp add: in64_def)

text \<open>
  the saturating operations return the exact result clamped to the format: additions and
  subtractions in all four widths (at 64 bits by the sign test on the wrapped sum), and the
  16-bit product, which saturates only for \<open>-1\<close> times \<open>-1\<close>.
\<close>

theorem saturation_clamps:
  "q15_sat_add a b = clamp Q15_MIN Q15_MAX (a + b) \<and> q15_sat_sub a b = clamp Q15_MIN Q15_MAX (a - b) \<and>
   q16_sat_add a b = clamp Q16_MIN Q16_MAX (a + b) \<and> q31_sat_add a b = clamp Q31_MIN Q31_MAX (a + b) \<and>
   (in64 c \<and> in64 d \<longrightarrow> q32_sat_add c d = clamp Q32_MIN Q32_MAX (c + d) \<and>
      q32_sat_sub c d = clamp Q32_MIN Q32_MAX (c - d)) \<and>
   (Q15_MIN \<le> a \<and> a \<le> Q15_MAX \<and> Q15_MIN \<le> b \<and> b \<le> Q15_MAX \<longrightarrow>
      q15_sat_mul a b = (if a = Q15_MIN \<and> b = Q15_MIN then Q15_MAX else a * b div 2 ^ 15))"
  using q15_sat_mul_value [of a b]
  by (simp add: q15_sat_add_def q15_sat_sub_def q16_sat_add_def q31_sat_add_def fx_sat16_clamp
      fx_sat32_clamp q32_sat_add_clamp q32_sat_sub_clamp Q15_MIN_def Q15_MAX_def Q16_MIN_def
      Q16_MAX_def Q31_MIN_def Q31_MAX_def)

theorem saturation_clamps_witness:
  "q15_sat_mul (- 32768) (- 32768) = 32767 \<and> q32_sat_add 9223372036854775807 1 = 9223372036854775807"
  using saturation_clamps [of "- 32768" "- 32768" 9223372036854775807 1]
  by (simp add: Q15_MIN_def Q15_MAX_def in64_def clamp_def Q32_MIN_def Q32_MAX_def)

end
