(* ===== verification/Mixer.thy ===== *)
theory Mixer
  imports Ring_Buffer Fixed_Point Wav
begin

unbundle bit_operations_syntax

text \<open>
  \<^verbatim>\<open>engine/audio/audio_mixer.c\<close>: the multi-channel mixer.  Every channel owns a ring buffer of
  source frames; the renderer converts, resamples, scales, pans, sums and quantises one
  output frame at a time.  Samples are Q15 integers, the phase and the step of a channel are
  unsigned Q32.32 (\<^typ>\<open>nat\<close>, reduced to 64 bits where they are computed), accumulators are
  reduced to 32 bits.  A \<^verbatim>\<open>NULL\<close> mixer is not an argument here.
\<close>

section \<open>Data\<close>

datatype mixer_src = MIXER_SRC_PCM16_MONO | MIXER_SRC_PCM8S_MONO | MIXER_SRC_PCM8U_MONO
  | MIXER_SRC_PCM16_STEREO | MIXER_SRC_PCM8S_STEREO | MIXER_SRC_PCM8U_STEREO

datatype mixer_interp = MIXER_INTERP_LINEAR | MIXER_INTERP_CUBIC

record mixer_out_format =
  of_bits :: nat
  of_signed :: bool
  of_storage_bits :: nat
  of_channels :: nat

record mixer_config =
  cc_format :: mixer_src
  cc_buffer_samples :: nat
  cc_volume :: int
  cc_source_rate :: int
  cc_pan :: int
  cc_loop :: bool
  cc_interp :: mixer_interp

record mixer_sync_config =
  sc_ticks_per_second :: nat
  sc_smoothing :: int
  sc_max_correction :: int

definition MIXER_TAPS_MAX :: nat where "MIXER_TAPS_MAX = 4"

record mixer_channel =
  ch_rb :: ring_buffer
  ch_format :: mixer_src
  ch_volume :: int
  ch_pan :: int
  ch_pan_gain_l :: int
  ch_pan_gain_r :: int
  ch_muted :: bool
  ch_active :: bool
  ch_loop :: bool
  ch_needs_resample :: bool
  ch_interp :: mixer_interp
  ch_phase :: nat
  ch_base_step :: nat
  ch_step :: nat
  ch_tap_l :: "int list"
  ch_tap_r :: "int list"
  ch_tap_primed :: bool
  ch_loop_read_pos :: nat

text \<open>
  The mixer keeps the identities of the blocks it owns, for \<open>mixer_destroy\<close>; the number of
  channels is the length of the channel list.
\<close>

record audio_mixer =
  mx_block :: nat
  mx_channels_block :: "nat option"
  mx_buffers_block :: "nat option"
  mx_channel_buffers :: "nat list"
  mx_channels :: "mixer_channel list"
  mx_sample_rate :: int
  mx_out_format :: mixer_out_format
  mx_headroom_bits :: nat
  mx_out_shift :: nat
  mx_out_offset :: int
  mx_out_min :: int
  mx_out_max :: int
  mx_sync_enabled :: bool
  mx_sync_correction :: int
  mx_sync_corr_acc :: int
  mx_sync_smoothing :: int
  mx_sync_max_correction :: int
  mx_sync_ticks :: nat
  mx_sync_have_last_obs :: bool
  mx_sync_last_internal :: nat
  mx_sync_last_external :: nat

section \<open>Source formats\<close>

fun source_channels :: "mixer_src \<Rightarrow> nat" where
  "source_channels MIXER_SRC_PCM16_MONO = 1"
| "source_channels MIXER_SRC_PCM8S_MONO = 1"
| "source_channels MIXER_SRC_PCM8U_MONO = 1"
| "source_channels MIXER_SRC_PCM16_STEREO = 2"
| "source_channels MIXER_SRC_PCM8S_STEREO = 2"
| "source_channels MIXER_SRC_PCM8U_STEREO = 2"

fun source_bytes_per_sample :: "mixer_src \<Rightarrow> nat" where
  "source_bytes_per_sample MIXER_SRC_PCM16_MONO = 2"
| "source_bytes_per_sample MIXER_SRC_PCM16_STEREO = 2"
| "source_bytes_per_sample MIXER_SRC_PCM8S_MONO = 1"
| "source_bytes_per_sample MIXER_SRC_PCM8U_MONO = 1"
| "source_bytes_per_sample MIXER_SRC_PCM8S_STEREO = 1"
| "source_bytes_per_sample MIXER_SRC_PCM8U_STEREO = 1"

definition source_bytes_per_frame :: "mixer_src \<Rightarrow> nat" where
  "source_bytes_per_frame fmt = source_bytes_per_sample fmt * source_channels fmt"

definition pcm8s :: "byte list \<Rightarrow> nat \<Rightarrow> int" where
  "pcm8s b p = i16 (i8 (int (unat (b ! p))) * 2 ^ 8)"

definition pcm8u :: "byte list \<Rightarrow> nat \<Rightarrow> int" where
  "pcm8u b p = i16 ((int (unat (b ! p)) - 128) * 2 ^ 8)"

fun convert_bytes_to_q15 :: "mixer_src \<Rightarrow> byte list \<Rightarrow> int \<times> int" where
  "convert_bytes_to_q15 MIXER_SRC_PCM16_MONO b = (sample16 b 0, sample16 b 0)"
| "convert_bytes_to_q15 MIXER_SRC_PCM8S_MONO b = (pcm8s b 0, pcm8s b 0)"
| "convert_bytes_to_q15 MIXER_SRC_PCM8U_MONO b = (pcm8u b 0, pcm8u b 0)"
| "convert_bytes_to_q15 MIXER_SRC_PCM16_STEREO b = (sample16 b 0, sample16 b 2)"
| "convert_bytes_to_q15 MIXER_SRC_PCM8S_STEREO b = (pcm8s b 0, pcm8s b 1)"
| "convert_bytes_to_q15 MIXER_SRC_PCM8U_STEREO b = (pcm8u b 0, pcm8u b 1)"

definition pop_source_frame_q15 :: "mixer_channel \<Rightarrow> bool \<times> int \<times> int \<times> mixer_channel" where
  "pop_source_frame_q15 c =
     (case rb_pop (ch_rb c) of
        (None, rb) \<Rightarrow> (False, 0, 0, c\<lparr>ch_rb := rb\<rparr>)
      | (Some b, rb) \<Rightarrow>
          (case convert_bytes_to_q15 (ch_format c) b of (l, r) \<Rightarrow> (True, l, r, c\<lparr>ch_rb := rb\<rparr>)))"

definition peek_source_frame_q15_at :: "mixer_channel \<Rightarrow> nat \<Rightarrow> (int \<times> int) option" where
  "peek_source_frame_q15_at c off =
     map_option (convert_bytes_to_q15 (ch_format c)) (rb_peek_at (ch_rb c) off)"

definition read_loop_frame_q15 :: "mixer_channel \<Rightarrow> nat \<Rightarrow> int \<times> int" where
  "read_loop_frame_q15 c loop_pos =
     (let rb = ch_rb c in
      if rb_count rb = 0 then (0, 0)
      else let pos = loop_pos mod rb_count rb; slot = (rb_tail rb + pos) mod rb_capacity rb
           in convert_bytes_to_q15 (ch_format c)
                (seg (slot * rb_element_size rb) (rb_element_size rb) (rb_storage rb)))"

section \<open>Output format\<close>

text \<open>Shift, offset, minimum and maximum; \<^term>\<open>None\<close> is the error return.\<close>

definition compute_output_params :: "mixer_out_format \<Rightarrow> (nat \<times> int \<times> int \<times> int) option" where
  "compute_output_params fmt =
     (if of_bits fmt < 1 \<or> 16 < of_bits fmt then None
      else if of_storage_bits fmt \<noteq> 8 \<and> of_storage_bits fmt \<noteq> 16 then None
      else if of_storage_bits fmt = 8 \<and> 8 < of_bits fmt then None
      else if of_channels fmt \<noteq> 1 \<and> of_channels fmt \<noteq> 2 then None
      else let sh = 16 - of_bits fmt
           in if of_signed fmt
              then Some (sh, 0, - (2 ^ (of_bits fmt - 1)), 2 ^ (of_bits fmt - 1) - 1)
              else Some (sh, 2 ^ (of_bits fmt - 1), 0, 2 ^ of_bits fmt - 1))"

definition finalize_output :: "int \<Rightarrow> nat \<Rightarrow> nat \<Rightarrow> int \<Rightarrow> int \<Rightarrow> int \<Rightarrow> int" where
  "finalize_output accum headroom sh off lo hi =
     (let v = asr accum headroom;
          v = (if v > 32767 then 32767 else v);
          v = (if v < - 32768 then - 32768 else v);
          v = asr v sh + off;
          v = (if v > hi then hi else v);
          v = (if v < lo then lo else v)
      in v)"

definition compute_pan_gains :: "int \<Rightarrow> int \<times> int" where
  "compute_pan_gains pan =
     (if pan \<ge> 0 then (i16 (Q15_ONE - pan), Q15_ONE) else (Q15_ONE, i16 (Q15_ONE + pan)))"

text \<open>
  The rates are signed integers of the code, converted to 64-bit unsigned ones.  The code divides by
  the output rate without a check; for a rate of zero, where it has no defined value, this is 0.
\<close>

definition compute_step_q32_32 :: "int \<Rightarrow> int \<Rightarrow> nat" where
  "compute_step_q32_32 source_rate output_rate =
     u64 (nat (source_rate mod 2 ^ 64) * 2 ^ 32) div nat (output_rate mod 2 ^ 64)"

section \<open>Lifecycle\<close>

text \<open>
  The allocator is a parameter: it answers the \<open>n\<close>-th request with the contents of a block of
  the requested kind, or with \<^term>\<open>None\<close>.  The heap records the blocks that are live, and
  whether a block that is not live was freed.
\<close>

datatype mixer_request = Mixer_Struct | Channel_Array nat | Buffer_Array nat | Sample_Buffer nat

type_synonym mixer_alloc = "nat \<Rightarrow> mixer_request \<Rightarrow> byte list option"

record mixer_heap =
  mh_next :: nat
  mh_live :: "nat list"
  mh_bad_free :: bool

definition heap_alloc ::
    "mixer_alloc \<Rightarrow> mixer_request \<Rightarrow> mixer_heap \<Rightarrow> (nat \<times> byte list) option \<times> mixer_heap" where
  "heap_alloc alloc req h =
     (let n = mh_next h in
      case alloc n req of
        None \<Rightarrow> (None, h\<lparr>mh_next := Suc n\<rparr>)
      | Some b \<Rightarrow> (Some (n, b), h\<lparr>mh_next := Suc n, mh_live := n # mh_live h\<rparr>))"

definition heap_free :: "nat \<Rightarrow> mixer_heap \<Rightarrow> mixer_heap" where
  "heap_free n h =
     (if n \<in> set (mh_live h) then h\<lparr>mh_live := remove1 n (mh_live h)\<rparr> else h\<lparr>mh_bad_free := True\<rparr>)"

definition channel_init :: "mixer_config \<Rightarrow> byte list \<Rightarrow> bool \<Rightarrow> int \<Rightarrow> mixer_channel" where
  "channel_init cfg buf sync rate =
     (let (gl, gr) = compute_pan_gains (cc_pan cfg);
          src = cc_source_rate cfg;
          nr = (if sync then True else \<not> (src \<le> 0 \<or> src = rate));
          bs = (if sync
                then (if 0 < src \<and> src \<noteq> rate then compute_step_q32_32 src rate else 2 ^ 32)
                else if src \<le> 0 \<or> src = rate then 0 else compute_step_q32_32 src rate)
      in \<lparr>ch_rb = rb_init buf (cc_buffer_samples cfg) (source_bytes_per_frame (cc_format cfg)),
          ch_format = cc_format cfg, ch_volume = cc_volume cfg, ch_pan = cc_pan cfg,
          ch_pan_gain_l = gl, ch_pan_gain_r = gr, ch_muted = False, ch_active = False,
          ch_loop = cc_loop cfg, ch_needs_resample = nr, ch_interp = cc_interp cfg,
          ch_phase = 0, ch_base_step = bs, ch_step = bs,
          ch_tap_l = replicate MIXER_TAPS_MAX 0, ch_tap_r = replicate MIXER_TAPS_MAX 0,
          ch_tap_primed = False, ch_loop_read_pos = 0\<rparr>)"

text \<open>The loop that allocates the buffers; on failure it frees the ones it has.\<close>

fun create_channels :: "mixer_alloc \<Rightarrow> bool \<Rightarrow> int \<Rightarrow> mixer_config list \<Rightarrow> nat list \<Rightarrow>
    mixer_channel list \<Rightarrow> mixer_heap \<Rightarrow> (nat list \<times> mixer_channel list) option \<times> mixer_heap" where
  "create_channels alloc sync rate [] bufs chans h = (Some (bufs, chans), h)"
| "create_channels alloc sync rate (cfg # cfgs) bufs chans h =
     (let frame_bytes = source_bytes_per_frame (cc_format cfg);
          buf_bytes = cc_buffer_samples cfg * frame_bytes
      in case heap_alloc alloc (Sample_Buffer buf_bytes) h of
           (None, h1) \<Rightarrow> (None, foldl (\<lambda>h b. heap_free b h) h1 bufs)
         | (Some (n, b), h1) \<Rightarrow>
             create_channels alloc sync rate cfgs (bufs @ [n]) (chans @ [channel_init cfg b sync rate]) h1)"

definition mixer_zero :: "nat \<Rightarrow> int \<Rightarrow> mixer_out_format \<Rightarrow> nat \<Rightarrow> nat \<Rightarrow> int \<Rightarrow> int \<Rightarrow> int \<Rightarrow>
    mixer_sync_config option \<Rightarrow> audio_mixer" where
  "mixer_zero n rate fmt headroom sh off lo hi sync =
     \<lparr>mx_block = n, mx_channels_block = None, mx_buffers_block = None, mx_channel_buffers = [],
      mx_channels = [], mx_sample_rate = rate, mx_out_format = fmt, mx_headroom_bits = headroom,
      mx_out_shift = sh, mx_out_offset = off, mx_out_min = lo, mx_out_max = hi,
      mx_sync_enabled = (sync \<noteq> None), mx_sync_correction = 0, mx_sync_corr_acc = 0,
      mx_sync_smoothing = (case sync of None \<Rightarrow> 0 | Some s \<Rightarrow> sc_smoothing s),
      mx_sync_max_correction = (case sync of None \<Rightarrow> 0 | Some s \<Rightarrow> sc_max_correction s),
      mx_sync_ticks = (case sync of None \<Rightarrow> 0 | Some s \<Rightarrow> sc_ticks_per_second s),
      mx_sync_have_last_obs = False, mx_sync_last_internal = 0, mx_sync_last_external = 0\<rparr>"

definition mixer_create_internal :: "mixer_alloc \<Rightarrow> mixer_config list \<Rightarrow> int \<Rightarrow> mixer_out_format \<Rightarrow>
    nat \<Rightarrow> mixer_sync_config option \<Rightarrow> mixer_alloc option \<Rightarrow> mixer_heap \<Rightarrow>
    audio_mixer option \<times> mixer_heap" where
  "mixer_create_internal malloc cfgs rate fmt headroom sync alloc0 h =
     (let alloc = (case alloc0 of None \<Rightarrow> malloc | Some a \<Rightarrow> a) in
      case compute_output_params fmt of
        None \<Rightarrow> (None, h)
      | Some (sh, off, lo, hi) \<Rightarrow>
          if (case sync of None \<Rightarrow> False
              | Some s \<Rightarrow> sc_ticks_per_second s = 0 \<or> sc_smoothing s < 0 \<or> sc_max_correction s < 0)
          then (None, h)
          else case heap_alloc alloc Mixer_Struct h of
            (None, h1) \<Rightarrow> (None, h1)
          | (Some (m, _), h1) \<Rightarrow>
              let mx = mixer_zero m rate fmt headroom sh off lo hi sync in
              if cfgs = [] then (Some mx, h1)
              else case heap_alloc alloc (Channel_Array (length cfgs)) h1 of
                (None, h2) \<Rightarrow> (None, heap_free m h2)
              | (Some (cs, _), h2) \<Rightarrow>
                  (case heap_alloc alloc (Buffer_Array (length cfgs)) h2 of
                     (None, h3) \<Rightarrow> (None, heap_free m (heap_free cs h3))
                   | (Some (bs, _), h3) \<Rightarrow>
                       (case create_channels alloc (sync \<noteq> None) rate cfgs [] [] h3 of
                          (None, h4) \<Rightarrow> (None, heap_free m (heap_free cs (heap_free bs h4)))
                        | (Some (bufs, chans), h4) \<Rightarrow>
                            (Some (mx\<lparr>mx_channels_block := Some cs, mx_buffers_block := Some bs,
                                      mx_channel_buffers := bufs, mx_channels := chans\<rparr>), h4))))"

definition mixer_create where
  "mixer_create malloc cfgs rate fmt headroom h =
     mixer_create_internal malloc cfgs rate fmt headroom None (Some malloc) h"

definition mixer_create_with_allocator where
  "mixer_create_with_allocator malloc cfgs rate fmt headroom alloc h =
     mixer_create_internal malloc cfgs rate fmt headroom None alloc h"

definition mixer_create_with_sync where
  "mixer_create_with_sync malloc cfgs rate fmt headroom sync alloc h =
     (case sync of None \<Rightarrow> (None, h)
      | Some s \<Rightarrow> mixer_create_internal malloc cfgs rate fmt headroom (Some s) alloc h)"

definition mixer_destroy :: "audio_mixer \<Rightarrow> mixer_heap \<Rightarrow> mixer_heap" where
  "mixer_destroy m h =
     (let h1 = (case mx_buffers_block m of
                  None \<Rightarrow> h
                | Some bs \<Rightarrow> heap_free bs (foldl (\<lambda>h b. heap_free b h) h (mx_channel_buffers m)));
          h2 = (case mx_channels_block m of None \<Rightarrow> h1 | Some cs \<Rightarrow> heap_free cs h1)
      in heap_free (mx_block m) h2)"

section \<open>Channel control\<close>

definition at_channel :: "audio_mixer \<Rightarrow> nat \<Rightarrow> (mixer_channel \<Rightarrow> mixer_channel) \<Rightarrow> audio_mixer" where
  "at_channel m i f = m\<lparr>mx_channels := (mx_channels m)[i := f (mx_channels m ! i)]\<rparr>"

definition mixer_set_volume :: "audio_mixer \<Rightarrow> nat \<Rightarrow> int \<Rightarrow> audio_mixer" where
  "mixer_set_volume m i vol =
     (if length (mx_channels m) \<le> i then m else at_channel m i (\<lambda>c. c\<lparr>ch_volume := vol\<rparr>))"

definition mixer_set_pan :: "audio_mixer \<Rightarrow> nat \<Rightarrow> int \<Rightarrow> audio_mixer" where
  "mixer_set_pan m i pan =
     (if length (mx_channels m) \<le> i then m
      else at_channel m i (\<lambda>c. case compute_pan_gains pan of
             (gl, gr) \<Rightarrow> c\<lparr>ch_pan := pan, ch_pan_gain_l := gl, ch_pan_gain_r := gr\<rparr>))"

definition mixer_mute :: "audio_mixer \<Rightarrow> nat \<Rightarrow> bool \<Rightarrow> audio_mixer" where
  "mixer_mute m i muted =
     (if length (mx_channels m) \<le> i then m else at_channel m i (\<lambda>c. c\<lparr>ch_muted := muted\<rparr>))"

definition mixer_set_source_rate :: "audio_mixer \<Rightarrow> nat \<Rightarrow> nat \<Rightarrow> audio_mixer" where
  "mixer_set_source_rate m i source_rate =
     (if length (mx_channels m) \<le> i then m
      else let native = (source_rate = 0 \<or> i32 (int source_rate) = mx_sample_rate m);
               stp = compute_step_q32_32 (i32 (int source_rate)) (mx_sample_rate m);
               nr = (if mx_sync_enabled m then True else \<not> native);
               bs = (if mx_sync_enabled m then (if native then 2 ^ 32 else stp)
                     else if native then 0 else stp)
           in at_channel m i (\<lambda>c. c\<lparr>ch_needs_resample := nr, ch_base_step := bs, ch_step := bs,
                ch_phase := 0, ch_tap_l := replicate MIXER_TAPS_MAX 0,
                ch_tap_r := replicate MIXER_TAPS_MAX 0, ch_tap_primed := False\<rparr>))"

definition mixer_channel_start :: "audio_mixer \<Rightarrow> nat \<Rightarrow> audio_mixer" where
  "mixer_channel_start m i =
     (if length (mx_channels m) \<le> i then m
      else at_channel m i (\<lambda>c. c\<lparr>ch_active := True, ch_phase := 0, ch_tap_primed := False,
             ch_loop_read_pos := 0\<rparr>))"

definition mixer_channel_stop :: "audio_mixer \<Rightarrow> nat \<Rightarrow> audio_mixer" where
  "mixer_channel_stop m i =
     (if length (mx_channels m) \<le> i then m else at_channel m i (\<lambda>c. c\<lparr>ch_active := False\<rparr>))"

definition mixer_channel_reset :: "audio_mixer \<Rightarrow> nat \<Rightarrow> audio_mixer" where
  "mixer_channel_reset m i =
     (if length (mx_channels m) \<le> i then m
      else at_channel m i (\<lambda>c. c\<lparr>ch_active := False, ch_rb := rb_reset (ch_rb c), ch_phase := 0,
             ch_tap_primed := False, ch_loop_read_pos := 0\<rparr>))"

text \<open>The source bytes of \<open>count\<close> frames are pushed one frame at a time.\<close>

fun push_frames :: "nat \<Rightarrow> nat \<Rightarrow> byte list \<Rightarrow> ring_buffer \<Rightarrow> ring_buffer" where
  "push_frames fb 0 b rb = rb"
| "push_frames fb (Suc n) b rb = push_frames fb n (drop fb b) (rb_push rb (take fb b))"

definition mixer_write_channel :: "audio_mixer \<Rightarrow> nat \<Rightarrow> byte list \<Rightarrow> nat \<Rightarrow> nat \<times> audio_mixer" where
  "mixer_write_channel m i samples n =
     (if length (mx_channels m) \<le> i then (0, m)
      else (n, at_channel m i (\<lambda>c. c\<lparr>ch_rb := push_frames (source_bytes_per_frame (ch_format c)) n
                                              samples (ch_rb c)\<rparr>)))"

definition mixer_channel_free_frames :: "audio_mixer \<Rightarrow> nat \<Rightarrow> nat" where
  "mixer_channel_free_frames m i =
     (if length (mx_channels m) \<le> i then 0
      else let rb = ch_rb (mx_channels m ! i)
           in if rb_capacity rb = 0 then 0
              else if rb_capacity rb \<le> rb_count rb then 0
              else rb_capacity rb - rb_count rb)"

definition mixer_channel_buffered :: "audio_mixer \<Rightarrow> nat \<Rightarrow> nat" where
  "mixer_channel_buffered m i =
     (if length (mx_channels m) \<le> i then 0 else rb_count (ch_rb (mx_channels m ! i)))"

definition mixer_channel_capacity :: "audio_mixer \<Rightarrow> nat \<Rightarrow> nat" where
  "mixer_channel_capacity m i =
     (if length (mx_channels m) \<le> i then 0 else rb_capacity (ch_rb (mx_channels m ! i)))"

section \<open>Interpolation window\<close>

text \<open>
  Offsets and the loop position are \<^verbatim>\<open>size_t\<close> values of 64 bits.  The tap before the current
  one is loaded from the offset \<open>-1\<close>, which is the largest \<^verbatim>\<open>size_t\<close>.
\<close>

definition tap_offset :: "nat \<Rightarrow> nat \<Rightarrow> nat" where
  "tap_offset t cur = u64 (t + 2 ^ 64 - cur)"

definition taps_for_interp :: "mixer_interp \<Rightarrow> nat" where
  "taps_for_interp k = (if k = MIXER_INTERP_CUBIC then 4 else 2)"

definition current_tap_index :: "mixer_interp \<Rightarrow> nat" where
  "current_tap_index k = (if k = MIXER_INTERP_CUBIC then 1 else 0)"

definition load_tap :: "mixer_channel \<Rightarrow> nat \<Rightarrow> nat \<Rightarrow> mixer_channel" where
  "load_tap c t src_off =
     (let (l, r) = (if ch_loop c then read_loop_frame_q15 c (u64 (ch_loop_read_pos c + src_off))
                    else case peek_source_frame_q15_at c src_off of None \<Rightarrow> (0, 0) | Some lr \<Rightarrow> lr)
      in c\<lparr>ch_tap_l := (ch_tap_l c)[t := l], ch_tap_r := (ch_tap_r c)[t := r]\<rparr>)"

definition load_taps :: "nat \<Rightarrow> nat \<Rightarrow> nat \<Rightarrow> mixer_channel \<Rightarrow> mixer_channel" where
  "load_taps cur from_t n_taps c = foldl (\<lambda>c t. load_tap c t (tap_offset t cur)) c [from_t..<n_taps]"

definition prime_tap_window :: "mixer_channel \<Rightarrow> mixer_channel" where
  "prime_tap_window c =
     (let n_taps = taps_for_interp (ch_interp c); cur = current_tap_index (ch_interp c);
          c1 = c\<lparr>ch_tap_l := replicate MIXER_TAPS_MAX 0, ch_tap_r := replicate MIXER_TAPS_MAX 0\<rparr>
      in (load_taps cur cur n_taps c1)\<lparr>ch_tap_primed := True\<rparr>)"

definition shift_taps :: "nat \<Rightarrow> nat \<Rightarrow> int list \<Rightarrow> int list" where
  "shift_taps n k taps = foldl (\<lambda>xs t. xs[t := xs ! (t + n)]) taps [0..<k]"

fun pop_frames :: "nat \<Rightarrow> ring_buffer \<Rightarrow> ring_buffer" where
  "pop_frames 0 rb = rb"
| "pop_frames (Suc n) rb = pop_frames n (snd (rb_pop rb))"

definition advance_tap_window :: "mixer_channel \<Rightarrow> int \<Rightarrow> mixer_channel" where
  "advance_tap_window c n_advance =
     (let n_taps = taps_for_interp (ch_interp c); cur = current_tap_index (ch_interp c) in
      if n_advance \<le> 0 then c
      else let n = (if int n_taps \<le> n_advance then n_taps else nat n_advance);
               c1 = c\<lparr>ch_tap_l := shift_taps n (n_taps - n) (ch_tap_l c),
                      ch_tap_r := shift_taps n (n_taps - n) (ch_tap_r c)\<rparr>;
               c2 = (if ch_loop c1 then c1\<lparr>ch_loop_read_pos := u64 (ch_loop_read_pos c1 + n)\<rparr>
                     else c1\<lparr>ch_rb := pop_frames n (ch_rb c1)\<rparr>)
           in load_taps cur (n_taps - n) n_taps c2)"

definition interp_linear_q15 :: "int \<Rightarrow> int \<Rightarrow> nat \<Rightarrow> int" where
  "interp_linear_q15 a b frac_q32 =
     (let f = int (frac_q32 div 2 ^ 16);
          diff = i32 (b - a);
          scaled = asr (i32 (diff * f)) 16
      in i16 (i32 (a + scaled)))"

definition interp_cubic_q15 :: "int \<Rightarrow> int \<Rightarrow> int \<Rightarrow> int \<Rightarrow> nat \<Rightarrow> int" where
  "interp_cubic_q15 p0 p1 p2 p3 frac_q32 =
     (let t = int (frac_q32 div 2 ^ 17);
          t2 = asr (i32 (t * t)) 15;
          t3 = asr (i32 (t2 * t)) 15;
          a = - p0 + 3 * p1 - 3 * p2 + p3;
          b = 2 * p0 - 5 * p1 + 4 * p2 - p3;
          c = - p0 + p2;
          d = 2 * p1;
          v = asr (i32 (a * t3)) 15;
          v = i32 (v + asr (i32 (b * t2)) 15);
          v = i32 (v + asr (i32 (c * t)) 15);
          v = i32 (v + d);
          v = asr v 1;
          v = (if v > 32767 then 32767 else v);
          v = (if v < - 32768 then - 32768 else v)
      in v)"

section \<open>Rendering\<close>

definition interp_side :: "mixer_interp \<Rightarrow> int list \<Rightarrow> nat \<Rightarrow> int" where
  "interp_side k taps frac =
     (let cur = current_tap_index k in
      if k = MIXER_INTERP_CUBIC
      then interp_cubic_q15 (taps ! 0) (taps ! 1) (taps ! 2) (taps ! 3) frac
      else interp_linear_q15 (taps ! cur) (taps ! (cur + 1)) frac)"

definition advance_phase :: "mixer_channel \<Rightarrow> mixer_channel" where
  "advance_phase c =
     (let stp = (if ch_needs_resample c then ch_step c else 2 ^ 32);
          old_phase = ch_phase c;
          new_phase = u64 (old_phase + stp);
          c1 = c\<lparr>ch_phase := new_phase\<rparr>;
          old_int = int (u32 (old_phase div 2 ^ 32));
          new_int = int (u32 (new_phase div 2 ^ 32));
          n_advance = i32 (new_int - old_int)
      in if 0 < n_advance
         then let c2 = advance_tap_window c1 n_advance
              in c2\<lparr>ch_phase := u64 (ch_phase c2 + 2 ^ 64 - nat n_advance * 2 ^ 32)\<rparr>
         else c1)"

definition produce_channel_sample :: "mixer_channel \<Rightarrow> bool \<times> int \<times> int \<times> mixer_channel" where
  "produce_channel_sample c =
     (if \<not> ch_needs_resample c \<and> \<not> ch_loop c then pop_source_frame_q15 c
      else if rb_count (ch_rb c) = 0 \<and> \<not> ch_tap_primed c then (False, 0, 0, c)
      else let c1 = (if ch_tap_primed c then c else prime_tap_window c);
               frac = ch_phase c1 mod 2 ^ 32
           in (True, interp_side (ch_interp c1) (ch_tap_l c1) frac,
               interp_side (ch_interp c1) (ch_tap_r c1) frac, advance_phase c1))"

definition apply_gains :: "mixer_channel \<Rightarrow> int \<Rightarrow> int \<Rightarrow> int \<times> int" where
  "apply_gains c l r =
     (let l = (if ch_volume c \<noteq> Q15_ONE then q15_sat_mul l (ch_volume c) else l);
          r = (if ch_volume c \<noteq> Q15_ONE then q15_sat_mul r (ch_volume c) else r)
      in (if ch_pan_gain_l c \<noteq> Q15_ONE then q15_sat_mul l (ch_pan_gain_l c) else l,
          if ch_pan_gain_r c \<noteq> Q15_ONE then q15_sat_mul r (ch_pan_gain_r c) else r))"

fun mix_channels :: "mixer_channel list \<Rightarrow> int \<Rightarrow> int \<Rightarrow> int \<times> int \<times> mixer_channel list" where
  "mix_channels [] al ar = (al, ar, [])"
| "mix_channels (c # cs) al ar =
     (if \<not> ch_active c
      then (case mix_channels cs al ar of (l, r, cs') \<Rightarrow> (l, r, c # cs'))
      else case produce_channel_sample c of (got, l, r, c') \<Rightarrow>
        if ch_muted c' \<or> \<not> got
        then (case mix_channels cs al ar of (l, r, cs') \<Rightarrow> (l, r, c' # cs'))
        else case apply_gains c' l r of (l, r) \<Rightarrow>
          (case mix_channels cs (i32 (al + l)) (i32 (ar + r)) of (l, r, cs') \<Rightarrow> (l, r, c' # cs')))"

definition finalize :: "audio_mixer \<Rightarrow> int \<Rightarrow> int" where
  "finalize m v = finalize_output v (mx_headroom_bits m) (mx_out_shift m) (mx_out_offset m)
                    (mx_out_min m) (mx_out_max m)"

text \<open>
  One output frame: the values written, in order, each reduced to its storage width.
\<close>

definition mixer_render_frame :: "audio_mixer \<Rightarrow> nat list \<times> audio_mixer" where
  "mixer_render_frame m =
     (case mix_channels (mx_channels m) 0 0 of (al, ar, cs) \<Rightarrow>
        let fmt = mx_out_format m;
            store = (\<lambda>v. nat (v mod 2 ^ (if of_storage_bits fmt = 8 then 8 else 16)));
            v0 = (if of_channels fmt = 1 then finalize m (cdiv (i32 (al + ar)) 2) else finalize m al);
            v1 = (if of_channels fmt = 1 then 0 else finalize m ar)
        in (store v0 # (if of_channels fmt = 2 then [store v1] else []), m\<lparr>mx_channels := cs\<rparr>))"

fun mixer_render :: "audio_mixer \<Rightarrow> nat \<Rightarrow> nat list \<times> audio_mixer" where
  "mixer_render m 0 = ([], m)"
| "mixer_render m (Suc n) =
     (case mixer_render_frame m of (out, m1) \<Rightarrow>
        (case mixer_render m1 n of (rest, m2) \<Rightarrow> (out @ rest, m2)))"

section \<open>Drift correction\<close>

definition SYNC_ACC_BITS :: nat where "SYNC_ACC_BITS = 16"
definition SYNC_ACC_ONE :: int where "SYNC_ACC_ONE = 32767 * 65536"

definition channel_step :: "int \<Rightarrow> mixer_channel \<Rightarrow> mixer_channel" where
  "channel_step acc c =
     (if \<not> ch_needs_resample c then c
      else let bs = i64 (int (ch_base_step c));
               delta = cdiv (i64 (bs * acc)) SYNC_ACC_ONE;
               new_step = i64 (bs + delta)
           in c\<lparr>ch_step := nat (if new_step < 1 then 1 else new_step)\<rparr>)"

definition update_channel_steps :: "audio_mixer \<Rightarrow> audio_mixer" where
  "update_channel_steps m =
     m\<lparr>mx_channels := map (channel_step (mx_sync_corr_acc m)) (mx_channels m)\<rparr>"

definition sync_ppm :: "audio_mixer \<Rightarrow> int" where
  "sync_ppm m = i32 (cdiv (i64 (mx_sync_corr_acc m * 1000000)) SYNC_ACC_ONE)"

definition set_correction :: "audio_mixer \<Rightarrow> int \<Rightarrow> audio_mixer" where
  "set_correction m acc =
     (let max_acc = mx_sync_max_correction m * 2 ^ SYNC_ACC_BITS;
          acc = (if acc > max_acc then max_acc else acc);
          acc = (if acc < - max_acc then - max_acc else acc)
      in update_channel_steps (m\<lparr>mx_sync_corr_acc := acc,
           mx_sync_correction := i16 (asr acc SYNC_ACC_BITS)\<rparr>))"

definition mixer_observe_sync :: "audio_mixer \<Rightarrow> nat \<Rightarrow> nat \<Rightarrow> int \<times> audio_mixer" where
  "mixer_observe_sync m internal external =
     (if \<not> mx_sync_enabled m then (0, m)
      else if \<not> mx_sync_have_last_obs m
      then (0, m\<lparr>mx_sync_last_internal := internal, mx_sync_last_external := external,
                 mx_sync_have_last_obs := True\<rparr>)
      else let d_int = i64 (int internal - int (mx_sync_last_internal m));
               d_ext = i64 (int external - int (mx_sync_last_external m));
               m1 = m\<lparr>mx_sync_last_internal := internal, mx_sync_last_external := external\<rparr>
           in if d_int \<le> 0 then (0, m1)
              else let expected = cdiv (i64 (d_int * i64 (int (mx_sync_ticks m)))) (mx_sample_rate m)
                   in if expected \<le> 0 then (0, m1)
                      else let drift = i64 (d_ext - expected);
                               reject = cdiv expected 16
                           in if drift > reject \<or> drift < - reject then (sync_ppm m1, m1)
                              else let raw = cdiv (i64 (drift * SYNC_ACC_ONE)) expected;
                                       error = i64 (raw - mx_sync_corr_acc m1);
                                       stp = cdiv (i64 (error * mx_sync_smoothing m1)) Q15_ONE;
                                       m2 = set_correction m1 (i64 (mx_sync_corr_acc m1 + stp))
                                   in (sync_ppm m2, m2))"

definition mixer_reset_sync :: "audio_mixer \<Rightarrow> audio_mixer" where
  "mixer_reset_sync m =
     (if \<not> mx_sync_enabled m then m
      else update_channel_steps (m\<lparr>mx_sync_correction := 0, mx_sync_corr_acc := 0,
             mx_sync_have_last_obs := False, mx_sync_last_internal := 0, mx_sync_last_external := 0\<rparr>))"

definition mixer_set_drift_ppm :: "audio_mixer \<Rightarrow> int \<Rightarrow> audio_mixer" where
  "mixer_set_drift_ppm m ppm =
     (if \<not> mx_sync_enabled m then m
      else set_correction m (cdiv (i64 (ppm * SYNC_ACC_ONE)) 1000000))"

end
