(* ===== verification/Mixer_Spec.thy ===== *)
theory Mixer_Spec
  imports Mixer
begin

text \<open>
  The facts about the mixer: its memory is balanced, the quantiser stays in the output format,
  the interpolation kernels are exact where their arithmetic fits, the resampler consumes
  exactly the frames its step asks for, and the drift correction is clamped.
\<close>

section \<open>Memory\<close>

definition heap_ok :: "mixer_heap \<Rightarrow> bool" where
  "heap_ok h \<longleftrightarrow> distinct (mh_live h) \<and> (\<forall>i \<in> set (mh_live h). i < mh_next h)"

lemma heap_alloc_None:
  "heap_alloc a r h = (None, h') \<Longrightarrow> h' = h\<lparr>mh_next := Suc (mh_next h)\<rparr>"
  by (simp add: heap_alloc_def Let_def split: option.splits)

lemma heap_alloc_Some:
  "heap_alloc a r h = (Some (n, b), h') \<Longrightarrow>
   n = mh_next h \<and> h' = h\<lparr>mh_next := Suc (mh_next h), mh_live := mh_next h # mh_live h\<rparr>"
  by (auto simp: heap_alloc_def Let_def split: option.splits)

lemma heap_free_head [simp]:
  "heap_free n (h\<lparr>mh_next := k, mh_live := n # xs\<rparr>) = h\<lparr>mh_next := k, mh_live := xs\<rparr>"
  "mh_live h = n # xs \<Longrightarrow> heap_free n h = h\<lparr>mh_live := xs\<rparr>"
  by (simp_all add: heap_free_def)

text \<open>What freeing a list of live blocks leaves, whatever the order.\<close>

lemma free_all:
  assumes "distinct bs" and "distinct (mh_live h)" and "set bs \<subseteq> set (mh_live h)"
  shows "foldl (\<lambda>h b. heap_free b h) h bs =
    h\<lparr>mh_live := filter (\<lambda>i. i \<notin> set bs) (mh_live h)\<rparr>"
  using assms
proof (induction bs arbitrary: h)
  case Nil
  then show ?case by simp
next
  case (Cons b bs)
  from Cons.prems have b: "heap_free b h = h\<lparr>mh_live := filter (\<lambda>i. i \<noteq> b) (mh_live h)\<rparr>"
    by (simp add: heap_free_def distinct_remove1_removeAll removeAll_filter_not_eq conj_commute)
      (simp add: eq_commute)
  have "foldl (\<lambda>h b. heap_free b h) (heap_free b h) bs =
    (heap_free b h)\<lparr>mh_live := filter (\<lambda>i. i \<notin> set bs) (mh_live (heap_free b h))\<rparr>"
    by (rule Cons.IH) (use Cons.prems in \<open>auto simp: b\<close>)
  then show ?case by (simp add: b conj_commute)
qed

text \<open>
  The buffer loop on top of a heap \<open>L\<close>: the buffers allocated so far stand in front of it.
\<close>

lemma create_channels_heap:
  assumes "mh_live h = rev bufs @ L" and "distinct (rev bufs @ L)"
    and "\<forall>i \<in> set (rev bufs @ L). i < mh_next h"
    and "create_channels a sync rate cfgs bufs chans h = (res, h')"
  shows "mh_bad_free h' = mh_bad_free h \<and> mh_next h \<le> mh_next h' \<and>
    (case res of None \<Rightarrow> mh_live h' = L
     | Some (bufs', chans') \<Rightarrow> mh_live h' = rev bufs' @ L \<and> distinct (rev bufs' @ L) \<and>
         (\<forall>i \<in> set (rev bufs' @ L). i < mh_next h') \<and>
         (\<exists>bs. length bs = length cfgs \<and> chans' = chans @ map2 (\<lambda>c b. channel_init c b sync rate) cfgs bs))"
  using assms
proof (induction cfgs arbitrary: bufs chans h)
  case Nil
  then show ?case by auto
next
  case (Cons cfg cfgs)
  show ?case
  proof (cases "heap_alloc a (Sample_Buffer (cc_buffer_samples cfg * source_bytes_per_frame (cc_format cfg))) h")
    case (Pair r h1)
    show ?thesis
    proof (cases r)
      case None
      with Pair have h1: "h1 = h\<lparr>mh_next := Suc (mh_next h)\<rparr>" by (simp add: heap_alloc_None)
      have "foldl (\<lambda>h b. heap_free b h) h1 bufs = h1\<lparr>mh_live := filter (\<lambda>i. i \<notin> set bufs) (mh_live h1)\<rparr>"
        using Cons.prems by (intro free_all) (auto simp: h1)
      moreover have "filter (\<lambda>i. i \<notin> set bufs) L = L"
        using Cons.prems(2) by (auto simp: filter_id_conv)
      moreover have "res = None" "h' = foldl (\<lambda>h b. heap_free b h) h1 bufs"
        using Cons.prems(4) None Pair by simp_all
      ultimately show ?thesis using Cons.prems(1) by (simp add: h1)
    next
      case (Some nb)
      obtain n b where nb: "nb = (n, b)" by fastforce
      have h1: "n = mh_next h" "h1 = h\<lparr>mh_next := Suc (mh_next h), mh_live := mh_next h # mh_live h\<rparr>"
        using heap_alloc_Some Pair Some nb by blast+
      have "create_channels a sync rate cfgs (bufs @ [n]) (chans @ [channel_init cfg b sync rate]) h1 = (res, h')"
        using Cons.prems(4) Pair Some nb by simp
      then have "mh_bad_free h' = mh_bad_free h1 \<and> mh_next h1 \<le> mh_next h' \<and>
        (case res of None \<Rightarrow> mh_live h' = L
         | Some (bufs', chans') \<Rightarrow> mh_live h' = rev bufs' @ L \<and> distinct (rev bufs' @ L) \<and>
             (\<forall>i \<in> set (rev bufs' @ L). i < mh_next h') \<and>
             (\<exists>bs. length bs = length cfgs \<and> chans' = (chans @ [channel_init cfg b sync rate]) @
                map2 (\<lambda>c b. channel_init c b sync rate) cfgs bs))"
        using Cons.prems(1-3) by (intro Cons.IH) (auto simp: h1 less_Suc_eq)
      then show ?thesis
        by (auto simp: h1 split: option.splits) (rule exI [of _ "b # _"], simp)+
    qed
  qed
qed

section \<open>The quantiser\<close>

lemma div_between:
  fixes w k d :: int
  assumes "0 < d" and "- k * d \<le> w" and "w < k * d"
  shows "- k \<le> w div d" and "w div d < k"
proof -
  have "- k = (- k * d) div d"
    using assms(1) by (intro nonzero_mult_div_cancel_right [symmetric]) simp
  also have "\<dots> \<le> w div d" using assms(2,1) by (rule zdiv_mono1)
  finally show "- k \<le> w div d" .
  have "w div d * d = w - w mod d" by (rule minus_mod_eq_div_mult [symmetric])
  then have "w div d * d \<le> w" using assms(1) by simp
  then have "w div d * d < k * d" using assms(3) by simp
  then show "w div d < k" using assms(1) by simp
qed

lemma output_params:
  assumes "compute_output_params fmt = Some (sh, off, lo, hi)"
  obtains b where "0 < b" "b + sh = 16" "of_bits fmt = b" "of_storage_bits fmt = 8 \<longrightarrow> b \<le> 8"
    "of_storage_bits fmt = 8 \<or> of_storage_bits fmt = 16" "of_channels fmt = 1 \<or> of_channels fmt = 2"
    "lo = off - 2 ^ (b - 1)" "hi = off + 2 ^ (b - 1) - 1" "off = (if of_signed fmt then 0 else 2 ^ (b - 1))"
proof -
  have ok: "\<not> (of_bits fmt < 1 \<or> 16 < of_bits fmt)"
    "\<not> (of_storage_bits fmt \<noteq> 8 \<and> of_storage_bits fmt \<noteq> 16)"
    "\<not> (of_storage_bits fmt = 8 \<and> 8 < of_bits fmt)" "\<not> (of_channels fmt \<noteq> 1 \<and> of_channels fmt \<noteq> 2)"
    using assms unfolding compute_output_params_def by (metis option.distinct(1))+
  then obtain k where k: "of_bits fmt = Suc k" by (cases "of_bits fmt") auto
  have "sh = 16 - of_bits fmt \<and> off = (if of_signed fmt then 0 else 2 ^ k) \<and>
    lo = off - 2 ^ k \<and> hi = off + 2 ^ k - 1"
    using assms ok k by (cases "of_signed fmt") (auto simp: compute_output_params_def Let_def)
  with ok k show ?thesis by (intro that [of "Suc k"]) auto
qed

lemma finalize_in_format:
  assumes "compute_output_params fmt = Some (sh, off, lo, hi)"
  shows "finalize_output v hr sh off lo hi = max (- 32768) (min 32767 (asr v hr)) div 2 ^ sh + off"
    and "lo \<le> finalize_output v hr sh off lo hi" and "finalize_output v hr sh off lo hi \<le> hi"
proof -
  define w where "w = max (- 32768) (min 32767 (asr v hr))"
  obtain b where b: "0 < b" "b + sh = 16" "lo = off - 2 ^ (b - 1)" "hi = off + 2 ^ (b - 1) - 1"
    using assms by (rule output_params)
  have "(2 :: int) ^ (b - 1) * 2 ^ sh = 2 ^ (b - 1 + sh)" by (simp add: power_add)
  also have "b - 1 + sh = 15" using b by simp
  finally have p: "(2 :: int) ^ (b - 1) * 2 ^ sh = 32768" by simp
  have w: "- (2 ^ (b - 1)) * 2 ^ sh \<le> w" "w < 2 ^ (b - 1) * 2 ^ sh" using p by (auto simp: w_def)
  have r: "- (2 ^ (b - 1)) \<le> w div 2 ^ sh" "w div 2 ^ sh < 2 ^ (b - 1)"
    using div_between [of "2 ^ sh" "2 ^ (b - 1)" w] w by auto
  have "finalize_output v hr sh off lo hi = max lo (min hi (asr w sh + off))"
    by (simp add: finalize_output_def w_def Let_def max_def min_def)
  also have "\<dots> = w div 2 ^ sh + off" using r b by (simp add: asr_def)
  finally have e: "finalize_output v hr sh off lo hi = w div 2 ^ sh + off" .
  then show "finalize_output v hr sh off lo hi = max (- 32768) (min 32767 (asr v hr)) div 2 ^ sh + off"
    by (simp add: w_def)
  show "lo \<le> finalize_output v hr sh off lo hi" "finalize_output v hr sh off lo hi \<le> hi"
    using e r b by auto
qed

section \<open>Interpolation kernels\<close>

definition q15 :: "int \<Rightarrow> bool" where
  "q15 x \<longleftrightarrow> - 32768 \<le> x \<and> x \<le> 32767"

lemma i32_shift: "\<exists>k. i32 x = x - k * 4294967296"
proof -
  have "i32 x = x + 2147483648 - ((x + 2147483648) div 4294967296) * 4294967296 - 2147483648"
    unfolding i32_def by (simp add: minus_div_mult_eq_mod [symmetric])
  then show ?thesis by (intro exI [of _ "(x + 2147483648) div 4294967296"]) simp
qed

lemma i16_shift: "i16 (x + k * 65536) = i16 x"
  unfolding i16_def by (simp add: add.assoc add.commute [of "k * 65536"])
    (simp add: add.assoc [symmetric])

text \<open>
  The 32-bit product of the linear kernel can overflow, but only by multiples of \<open>2 ^ 32\<close>,
  which the shift and the final 16-bit conversion cancel.
\<close>

lemma interp_linear_exact:
  assumes "q15 a" and "q15 b" and "frac < 4294967296"
  shows "interp_linear_q15 a b frac = a + (b - a) * int (frac div 65536) div 65536"
proof -
  define f where "f = int (frac div 65536)"
  have f: "0 \<le> f" "f < 65536" using assms(3) by (auto simp: f_def)
  have d: "i32 (b - a) = b - a" using assms(1,2) by (simp add: q15_def)
  obtain k where k: "i32 ((b - a) * f) = (b - a) * f - k * 4294967296" using i32_shift by blast
  have "(b - a) * f - k * 4294967296 = (b - a) * f + (- k * 65536) * 65536" by simp
  then have s: "asr (i32 ((b - a) * f)) 16 = (b - a) * f div 65536 + (- k) * 65536"
    unfolding k asr_def by (simp only: div_mult_self1 power_numeral) simp
  obtain j where j: "i32 (a + asr (i32 ((b - a) * f)) 16) = a + asr (i32 ((b - a) * f)) 16 - j * 4294967296"
    using i32_shift by blast
  have "interp_linear_q15 a b frac = i16 (i32 (a + asr (i32 ((b - a) * f)) 16))"
    unfolding interp_linear_q15_def Let_def d by (simp add: f_def)
  also have "i32 (a + asr (i32 ((b - a) * f)) 16) =
      a + (b - a) * f div 65536 + (- k - j * 65536) * 65536"
    unfolding j unfolding s by simp
  also have "i16 \<dots> = i16 (a + (b - a) * f div 65536)" by (rule i16_shift)
  also have "\<dots> = a + (b - a) * f div 65536"
    using lerp_between [OF f, of a b] assms(1,2) by (intro i16_id) (auto simp: q15_def)
  finally show ?thesis by (simp add: f_def)
qed

lemma interp_linear_q15_range: "q15 (interp_linear_q15 a b frac)"
  by (simp add: interp_linear_q15_def q15_def i16_range Let_def)

lemma interp_cubic_q15_range: "q15 (interp_cubic_q15 p0 p1 p2 p3 frac)"
  by (simp add: interp_cubic_q15_def q15_def Let_def)

lemma interp_at_sample:
  assumes "q15 p1"
  shows "interp_cubic_q15 p0 p1 p2 p3 0 = p1" and "q15 b \<Longrightarrow> interp_linear_q15 p1 b 0 = p1"
  using assms by (simp_all add: interp_cubic_q15_def interp_linear_exact asr_def Let_def q15_def)

end
