(* ===== verification/Mixer_Resample.thy ===== *)
theory Mixer_Resample
  imports Mixer_Spec
begin

text \<open>
  The channels of the mixer: what the tap window holds, what one produced sample consumes, and
  the invariant of a channel.
\<close>

section \<open>Loops over the taps\<close>

lemma foldl_update:
  "length (foldl (\<lambda>xs t. xs[t := f t]) xs [a..<b]) = length xs"
  "i < length xs \<Longrightarrow>
    foldl (\<lambda>xs t. xs[t := f t]) xs [a..<b] ! i = (if a \<le> i \<and> i < b then f i else xs ! i)"
  by (induction b) (auto simp: nth_list_update less_Suc_eq)

lemma shift_taps_nth:
  assumes "0 < n" and "k + n \<le> length xs"
  shows "length (shift_taps n k xs) = length xs \<and>
    (\<forall>i < length xs. shift_taps n k xs ! i = (if i < k then xs ! (i + n) else xs ! i))"
  using assms(2)
proof (induction k)
  case 0
  then show ?case by (simp add: shift_taps_def)
next
  case (Suc k)
  then have "shift_taps n (Suc k) xs = (shift_taps n k xs)[k := shift_taps n k xs ! (k + n)]"
    by (simp add: shift_taps_def)
  with Suc assms(1) show ?case by (auto simp: nth_list_update less_Suc_eq)
qed

definition tap_value :: "mixer_channel \<Rightarrow> nat \<Rightarrow> int \<times> int" where
  "tap_value c off =
     (if ch_loop c then read_loop_frame_q15 c (u64 (ch_loop_read_pos c + off))
      else case peek_source_frame_q15_at c off of None \<Rightarrow> (0, 0) | Some lr \<Rightarrow> lr)"

lemma tap_value_taps [simp]:
  "tap_value (c\<lparr>ch_tap_l := x\<rparr>) off = tap_value c off"
  "tap_value (c\<lparr>ch_tap_r := x\<rparr>) off = tap_value c off"
  "tap_value (c\<lparr>ch_tap_primed := p\<rparr>) off = tap_value c off"
  "tap_value (c\<lparr>ch_phase := q\<rparr>) off = tap_value c off"
  by (simp_all add: tap_value_def read_loop_frame_q15_def peek_source_frame_q15_at_def Let_def)

lemma load_taps_eq:
  "load_taps cur a b c =
    c\<lparr>ch_tap_l := foldl (\<lambda>xs t. xs[t := fst (tap_value c (tap_offset t cur))]) (ch_tap_l c) [a..<b],
      ch_tap_r := foldl (\<lambda>xs t. xs[t := snd (tap_value c (tap_offset t cur))]) (ch_tap_r c) [a..<b]\<rparr>"
proof (induction b)
  case 0
  then show ?case by (simp add: load_taps_def)
next
  case (Suc b)
  have tap: "load_tap d t off = d\<lparr>ch_tap_l := (ch_tap_l d)[t := fst (tap_value d off)],
      ch_tap_r := (ch_tap_r d)[t := snd (tap_value d off)]\<rparr>" for d t off
    by (simp add: load_tap_def tap_value_def split: prod.splits)
  show ?case
  proof (cases "a \<le> b")
    case True
    then have "load_taps cur a (Suc b) c = load_tap (load_taps cur a b c) b (tap_offset b cur)"
      by (simp add: load_taps_def)
    with True show ?thesis by (simp add: Suc.IH tap)
  next
    case False
    then show ?thesis by (simp add: load_taps_def)
  qed
qed

section \<open>Ranges of the samples\<close>

lemma q15_i16 [simp]: "q15 (i16 x)"
  by (simp add: q15_def i16_range)

lemma q15_0 [simp]: "q15 0"
  by (simp add: q15_def)

lemma convert_q15 [simp]:
  "q15 (fst (convert_bytes_to_q15 fmt b))" "q15 (snd (convert_bytes_to_q15 fmt b))"
  by (cases fmt; simp add: sample16_def pcm8s_def pcm8u_def)+

lemma tap_value_q15 [simp]: "q15 (fst (tap_value c off))" "q15 (snd (tap_value c off))"
  by (auto simp: tap_value_def read_loop_frame_q15_def peek_source_frame_q15_at_def Let_def
      split: option.splits)

lemma q15_sat_mul_q15 [simp]: "q15 (q15_sat_mul a b)"
  by (simp add: q15_sat_mul_def fx_sat16_def q15_def)

section \<open>The invariant of a channel\<close>

definition taps_ok :: "int list \<Rightarrow> bool" where
  "taps_ok xs \<longleftrightarrow> length xs = 4 \<and> (\<forall>i < 4. q15 (xs ! i))"

definition channel_inv :: "mixer_channel \<Rightarrow> bool" where
  "channel_inv c \<longleftrightarrow> rb_inv (ch_rb c) \<and>
     rb_element_size (ch_rb c) = source_bytes_per_frame (ch_format c) \<and>
     taps_ok (ch_tap_l c) \<and> taps_ok (ch_tap_r c)"

lemma taps_ok_zero [simp]: "taps_ok (replicate MIXER_TAPS_MAX 0)"
  by (simp add: taps_ok_def MIXER_TAPS_MAX_def)

lemma taps_ok_load: "taps_ok xs \<Longrightarrow> (\<And>t. q15 (f t)) \<Longrightarrow> taps_ok (foldl (\<lambda>xs t. xs[t := f t]) xs [a..<b])"
  by (simp add: taps_ok_def foldl_update)

lemma taps_ok_shift: "taps_ok xs \<Longrightarrow> 0 < n \<Longrightarrow> k + n \<le> 4 \<Longrightarrow> taps_ok (shift_taps n k xs)"
  using shift_taps_nth [of n k xs] by (auto simp: taps_ok_def)

lemma taps_for_interp_le [simp]:
  "taps_for_interp k \<le> 4" "2 \<le> taps_for_interp k" "0 < taps_for_interp k"
  by (simp_all add: taps_for_interp_def)

lemma channel_inv_load [inv_keep]: "channel_inv c \<Longrightarrow> channel_inv (load_taps cur a b c)"
  by (simp add: channel_inv_def load_taps_eq taps_ok_load)

lemma channel_inv_prime [inv_keep]: "channel_inv c \<Longrightarrow> channel_inv (prime_tap_window c)"
  by (simp add: channel_inv_def prime_tap_window_def Let_def load_taps_eq taps_ok_load)

lemma pop_frames_inv [inv_keep]: "rb_inv rb \<Longrightarrow> rb_inv (pop_frames n rb)"
  by (induction n arbitrary: rb) (simp_all add: rb_pop_inv)

lemma pop_frames_sel [simp]:
  "rb_element_size (pop_frames n rb) = rb_element_size rb"
  "rb_capacity (pop_frames n rb) = rb_capacity rb"
  by (induction n arbitrary: rb) simp_all

lemma rb_list_pop_frames: "rb_inv rb \<Longrightarrow> rb_list (pop_frames n rb) = drop n (rb_list rb)"
  by (induction n arbitrary: rb) (simp_all add: rb_pop_inv rb_pop_spec drop_Suc)

lemma channel_inv_advance [inv_keep]:
  assumes "channel_inv c"
  shows "channel_inv (advance_tap_window c k)"
proof (cases "k \<le> 0")
  case False
  define nt where "nt = taps_for_interp (ch_interp c)"
  define n where "n = (if int nt \<le> k then nt else nat k)"
  have n: "0 < n" "nt - n + n \<le> 4" using False by (auto simp: n_def nt_def)
  have "taps_ok (shift_taps n (nt - n) (ch_tap_l c))" "taps_ok (shift_taps n (nt - n) (ch_tap_r c))"
    using assms n by (auto simp: channel_inv_def intro: taps_ok_shift)
  with assms False show ?thesis
    unfolding advance_tap_window_def Let_def nt_def [symmetric] n_def [symmetric]
    by (simp add: inv_keep) (simp add: channel_inv_def load_taps_eq taps_ok_load pop_frames_inv)
qed (simp add: advance_tap_window_def assms)

lemma channel_inv_phase [simp]: "channel_inv (c\<lparr>ch_phase := p\<rparr>) = channel_inv c"
  by (simp add: channel_inv_def)

lemma channel_inv_advance_phase [inv_keep]: "channel_inv c \<Longrightarrow> channel_inv (advance_phase c)"
  by (simp add: advance_phase_def Let_def channel_inv_advance)

lemma interp_side_q15 [simp]: "q15 (interp_side k taps f)"
  by (simp add: interp_side_def Let_def interp_linear_q15_range interp_cubic_q15_range)

lemma produce_inv:
  assumes "channel_inv c" and "produce_channel_sample c = (got, l, r, c')"
  shows "channel_inv c' \<and> q15 l \<and> q15 r"
proof (cases "\<not> ch_needs_resample c \<and> \<not> ch_loop c")
  case True
  then have pop: "pop_source_frame_q15 c = (got, l, r, c')"
    using assms(2) by (simp add: produce_channel_sample_def)
  obtain b rb where rb: "rb_pop (ch_rb c) = (b, rb)" by fastforce
  then have "rb_inv rb" "rb_element_size rb = rb_element_size (ch_rb c)"
    using rb_pop_inv [of "ch_rb c"] rb_pop_sel [of "ch_rb c"] assms(1) by (simp_all add: channel_inv_def)
  moreover have "c' = c\<lparr>ch_rb := rb\<rparr> \<and> q15 l \<and> q15 r"
  proof (cases b)
    case None
    then show ?thesis using pop rb by (auto simp: pop_source_frame_q15_def)
  next
    case (Some x)
    then show ?thesis using pop rb convert_q15 [of "ch_format c" x]
      by (cases "convert_bytes_to_q15 (ch_format c) x") (auto simp: pop_source_frame_q15_def)
  qed
  ultimately show ?thesis using assms(1) by (simp add: channel_inv_def)
next
  case False
  show ?thesis
  proof (cases "rb_count (ch_rb c) = 0 \<and> \<not> ch_tap_primed c")
    case True
    then show ?thesis using assms False by (auto simp: produce_channel_sample_def)
  next
    case run: False
    let ?c1 = "if ch_tap_primed c then c else prime_tap_window c"
    have "c' = advance_phase ?c1 \<and> q15 l \<and> q15 r"
      using assms(2) False run by (auto simp: produce_channel_sample_def Let_def)
    then show ?thesis using assms(1) by (auto intro!: inv_keep)
  qed
qed

section \<open>Consumption and phase\<close>

lemma advance_tap_window_sel [simp]:
  "ch_phase (advance_tap_window c k) = ch_phase c"
  "ch_interp (advance_tap_window c k) = ch_interp c"
  "ch_loop (advance_tap_window c k) = ch_loop c"
  "ch_step (advance_tap_window c k) = ch_step c"
  "ch_format (advance_tap_window c k) = ch_format c"
  "ch_needs_resample (advance_tap_window c k) = ch_needs_resample c"
  "ch_tap_primed (advance_tap_window c k) = ch_tap_primed c"
  by (simp_all add: advance_tap_window_def Let_def load_taps_eq)

lemma advance_tap_window_list:
  assumes "rb_inv (ch_rb c)" and "\<not> ch_loop c"
  shows "rb_list (ch_rb (advance_tap_window c (int n))) =
    drop (min n (taps_for_interp (ch_interp c))) (rb_list (ch_rb c))"
  using assms by (auto simp: advance_tap_window_def Let_def load_taps_eq rb_list_pop_frames min_def)

text \<open>The integer positions the next sample moves by, and the phase that stays.\<close>

definition channel_rate :: "mixer_channel \<Rightarrow> nat" where
  "channel_rate c = (if ch_needs_resample c then ch_step c else 4294967296)"

definition rate_ok :: "mixer_channel \<Rightarrow> bool" where
  "rate_ok c \<longleftrightarrow> channel_rate c \<le> 9223372032559808512"

lemma advance_phase_split:
  assumes "u64 (ch_phase c + channel_rate c) = p"
    and "i32 (int (u32 (p div 4294967296)) - int (u32 (ch_phase c div 4294967296))) = n"
  shows "advance_phase c =
    (if 0 < n then (advance_tap_window (c\<lparr>ch_phase := p\<rparr>) n)
                     \<lparr>ch_phase := u64 (p + 18446744073709551616 - nat n * 4294967296)\<rparr>
     else c\<lparr>ch_phase := p\<rparr>)"
  using assms by (cases "ch_needs_resample c") (simp_all add: advance_phase_def channel_rate_def Let_def)

lemma advance_phase_eq:
  assumes "ch_phase c < 4294967296" and "rate_ok c"
  defines "p \<equiv> ch_phase c + channel_rate c"
  shows "advance_phase c = (advance_tap_window (c\<lparr>ch_phase := p\<rparr>) (int (p div 4294967296)))
    \<lparr>ch_phase := p mod 4294967296\<rparr>"
proof -
  have p: "p < 9223372036854775808" using assms by (simp add: rate_ok_def)
  then have d: "p div 4294967296 < 2147483648" by (simp add: less_mult_imp_div_less)
  have z: "ch_phase c div 4294967296 = 0" using assms(1) by simp
  have u: "u64 (ch_phase c + channel_rate c) = p" unfolding p_def [symmetric] using p by simp
  have n: "i32 (int (u32 (p div 4294967296)) - int (u32 (ch_phase c div 4294967296))) =
      int (p div 4294967296)"
    unfolding z using d by simp
  have "p + 18446744073709551616 - p div 4294967296 * 4294967296 =
      p mod 4294967296 + 18446744073709551616"
    by (simp add: minus_div_mult_eq_mod [symmetric])
  then have w: "u64 (p + 18446744073709551616 - nat (int (p div 4294967296)) * 4294967296) = p mod 4294967296"
    by (simp add: u64_def)
  show ?thesis
  proof (cases "p div 4294967296 = 0")
    case True
    then have "p mod 4294967296 = p" by (simp add: div_eq_0_iff)
    with True show ?thesis unfolding advance_phase_split [OF u n]
      by (simp add: advance_tap_window_def)
  next
    case False
    then show ?thesis unfolding advance_phase_split [OF u n] w by simp
  qed
qed

text \<open>
  The frames of a channel that consumes its buffer, with silence after the last one, and a
  window that holds what the buffer holds.
\<close>

definition src_frame :: "mixer_channel \<Rightarrow> nat \<Rightarrow> int \<times> int" where
  "src_frame c i = (if i < length (rb_list (ch_rb c))
     then convert_bytes_to_q15 (ch_format c) (rb_list (ch_rb c) ! i) else (0, 0))"

definition taps_fresh :: "mixer_channel \<Rightarrow> bool" where
  "taps_fresh c \<longleftrightarrow> (\<forall>t. current_tap_index (ch_interp c) \<le> t \<and> t < taps_for_interp (ch_interp c) \<longrightarrow>
     (ch_tap_l c ! t, ch_tap_r c ! t) = src_frame c (t - current_tap_index (ch_interp c)))"

lemma tap_value_src: "\<not> ch_loop c \<Longrightarrow> tap_value c off = src_frame c off"
  by (simp add: tap_value_def src_frame_def peek_source_frame_q15_at_def rb_peek_at_spec)

lemma tap_offset_id [simp]: "cur \<le> t \<Longrightarrow> t < 18446744073709551616 \<Longrightarrow> tap_offset t cur = t - cur"
proof -
  assume "cur \<le> t" "t < 18446744073709551616"
  then obtain d where "t = cur + d" "d < 18446744073709551616" by (auto simp: le_iff_add)
  then show ?thesis by (simp add: tap_offset_def u64_def)
qed

lemma tap_window_bounds [simp]:
  "current_tap_index k < taps_for_interp k" "t < taps_for_interp k \<Longrightarrow> t < 4"
  "t < taps_for_interp k \<Longrightarrow> t < 18446744073709551616"
  by (auto simp: current_tap_index_def taps_for_interp_def split: if_splits)

lemma src_frame_sel [simp]:
  "src_frame (c\<lparr>ch_tap_l := x\<rparr>) = src_frame c" "src_frame (c\<lparr>ch_tap_r := x\<rparr>) = src_frame c"
  "src_frame (c\<lparr>ch_phase := q\<rparr>) = src_frame c" "src_frame (c\<lparr>ch_tap_primed := p\<rparr>) = src_frame c"
  by (simp_all add: src_frame_def fun_eq_iff)

lemma taps_fresh_phase [simp]: "taps_fresh (c\<lparr>ch_phase := q\<rparr>) = taps_fresh c"
  by (simp add: taps_fresh_def)

lemma taps_fresh_load:
  assumes "channel_inv c" and "\<not> ch_loop c"
    and "\<And>t. current_tap_index (ch_interp c) \<le> t \<Longrightarrow> t < a \<Longrightarrow> t < taps_for_interp (ch_interp c) \<Longrightarrow>
      (ch_tap_l c ! t, ch_tap_r c ! t) = src_frame c (t - current_tap_index (ch_interp c))"
  shows "taps_fresh (load_taps (current_tap_index (ch_interp c)) a (taps_for_interp (ch_interp c)) c)"
  using assms
  by (auto simp: taps_fresh_def load_taps_eq foldl_update channel_inv_def taps_ok_def tap_value_src)

lemma taps_fresh_prime:
  assumes "channel_inv c" and "\<not> ch_loop c"
  shows "taps_fresh (prime_tap_window c)"
proof -
  let ?c = "c\<lparr>ch_tap_l := replicate MIXER_TAPS_MAX 0, ch_tap_r := replicate MIXER_TAPS_MAX 0\<rparr>"
  have "channel_inv ?c" using assms(1) by (simp add: channel_inv_def)
  from taps_fresh_load [OF this, of "current_tap_index (ch_interp c)"] assms(2)
  have "taps_fresh (load_taps (current_tap_index (ch_interp c)) (current_tap_index (ch_interp c))
      (taps_for_interp (ch_interp c)) ?c)" by simp
  then show ?thesis by (simp add: prime_tap_window_def Let_def taps_fresh_def)
qed

lemma taps_fresh_advance:
  assumes c: "channel_inv c" "\<not> ch_loop c" "taps_fresh c" and n: "n \<le> taps_for_interp (ch_interp c)"
  shows "taps_fresh (advance_tap_window c (int n))"
proof (cases "n = 0")
  case True
  with c(3) show ?thesis by (simp add: advance_tap_window_def)
next
  case False
  define nt cur where "nt = taps_for_interp (ch_interp c)" and "cur = current_tap_index (ch_interp c)"
  define d where "d = c\<lparr>ch_tap_l := shift_taps n (nt - n) (ch_tap_l c),
    ch_tap_r := shift_taps n (nt - n) (ch_tap_r c), ch_rb := pop_frames n (ch_rb c)\<rparr>"
  have len: "length (ch_tap_l c) = 4" "length (ch_tap_r c) = 4" "rb_inv (ch_rb c)"
    using c(1) by (auto simp: channel_inv_def taps_ok_def)
  have nt: "n \<le> nt" "nt \<le> 4" using n by (simp_all add: nt_def)
  have e: "advance_tap_window c (int n) = load_taps cur (nt - n) nt d"
    using False n c(2) by (auto simp: advance_tap_window_def Let_def nt_def cur_def d_def)
  have sh: "shift_taps n (nt - n) xs ! t = xs ! (t + n)" if "t < nt - n" "length xs = 4" for xs t
    using shift_taps_nth [of n "nt - n" xs] False nt that by auto
  have inv: "channel_inv d"
    using c(1) False nt by (auto simp: channel_inv_def d_def pop_frames_inv intro!: taps_ok_shift)
  have src: "src_frame d i = src_frame c (i + n)" for i
    using len(3) by (auto simp: src_frame_def d_def rb_list_pop_frames add.commute simp flip: length_rb_list)
  have d: "ch_interp d = ch_interp c" "\<not> ch_loop d" using c(2) by (simp_all add: d_def)
  have "taps_fresh (load_taps (current_tap_index (ch_interp d)) (nt - n) (taps_for_interp (ch_interp d)) d)"
  proof (rule taps_fresh_load [OF inv d(2)])
    fix t
    assume t: "current_tap_index (ch_interp d) \<le> t" "t < nt - n"
    then have "cur \<le> t + n" "t + n < nt" by (auto simp: d(1) cur_def)
    then have "(ch_tap_l c ! (t + n), ch_tap_r c ! (t + n)) = src_frame c (t + n - cur)"
      using c(3) by (simp add: taps_fresh_def nt_def cur_def)
    moreover have "t + n - cur = t - cur + n" using t by (simp add: d(1) cur_def)
    ultimately show "(ch_tap_l d ! t, ch_tap_r d ! t) = src_frame d (t - current_tap_index (ch_interp d))"
      using sh [OF t(2) len(1)] sh [OF t(2) len(2)] by (simp add: src) (simp add: d_def cur_def)
  qed
  then show ?thesis by (simp add: e d(1) nt_def cur_def)
qed

section \<open>A run of the resampler\<close>

fun produce_n :: "nat \<Rightarrow> mixer_channel \<Rightarrow> (int \<times> int) list \<times> mixer_channel" where
  "produce_n 0 c = ([], c)"
| "produce_n (Suc n) c = (case produce_channel_sample c of (_, l, r, c1) \<Rightarrow>
     ((l, r) # fst (produce_n n c1), snd (produce_n n c1)))"

lemma length_produce_n [simp]: "length (fst (produce_n n c)) = n"
  by (induction n arbitrary: c) (simp_all split: prod.splits)

definition resampling :: "mixer_channel \<Rightarrow> bool" where
  "resampling c \<longleftrightarrow> channel_inv c \<and> ch_tap_primed c \<and> taps_fresh c \<and> ch_needs_resample c \<and> \<not> ch_loop c \<and>
     ch_phase c < 4294967296 \<and> ch_step c \<le> taps_for_interp (ch_interp c) * 4294967296"

lemma resampling_rate: "resampling c \<Longrightarrow> rate_ok c"
  by (auto simp: resampling_def rate_ok_def channel_rate_def taps_for_interp_def split: if_splits)

lemma resampling_produce:
  assumes "resampling c"
  shows "produce_channel_sample c =
    (True, interp_side (ch_interp c) (ch_tap_l c) (ch_phase c),
     interp_side (ch_interp c) (ch_tap_r c) (ch_phase c), advance_phase c)"
  using assms by (simp add: resampling_def produce_channel_sample_def Let_def)

lemma resampling_step:
  assumes "resampling c"
  defines "p \<equiv> ch_phase c + ch_step c"
  shows "resampling (advance_phase c)" and "ch_phase (advance_phase c) = p mod 4294967296"
    and "rb_list (ch_rb (advance_phase c)) = drop (p div 4294967296) (rb_list (ch_rb c))"
    and "ch_step (advance_phase c) = ch_step c" and "ch_interp (advance_phase c) = ch_interp c"
    and "ch_format (advance_phase c) = ch_format c"
proof -
  have c: "channel_inv c" "ch_tap_primed c" "taps_fresh c" "ch_needs_resample c" "\<not> ch_loop c"
    "ch_phase c < 4294967296" "ch_step c \<le> taps_for_interp (ch_interp c) * 4294967296"
    using assms(1) by (simp_all add: resampling_def)
  have e: "advance_phase c = (advance_tap_window (c\<lparr>ch_phase := p\<rparr>) (int (p div 4294967296)))
      \<lparr>ch_phase := p mod 4294967296\<rparr>"
    using advance_phase_eq [OF c(6) resampling_rate [OF assms(1)]] c(4) by (simp add: channel_rate_def p_def)
  have "p < Suc (taps_for_interp (ch_interp c)) * 4294967296" using c(6,7) by (simp add: p_def)
  then have n: "p div 4294967296 \<le> taps_for_interp (ch_interp c)"
    by (metis less_Suc_eq_le less_mult_imp_div_less)
  have fresh: "taps_fresh (advance_tap_window (c\<lparr>ch_phase := p\<rparr>) (int (p div 4294967296)))"
    by (rule taps_fresh_advance) (use c n in simp_all)
  show "resampling (advance_phase c)"
    using c fresh by (simp add: resampling_def e channel_inv_advance)
  show "rb_list (ch_rb (advance_phase c)) = drop (p div 4294967296) (rb_list (ch_rb c))"
    using advance_tap_window_list [of "c\<lparr>ch_phase := p\<rparr>"] c n
    by (simp add: e channel_inv_def min_def)
  show "ch_phase (advance_phase c) = p mod 4294967296" "ch_step (advance_phase c) = ch_step c"
    "ch_interp (advance_phase c) = ch_interp c" "ch_format (advance_phase c) = ch_format c"
    by (simp_all add: e)
qed

lemma resampling_frames:
  assumes "resampling c"
  shows "src_frame (advance_phase c) i = src_frame c (i + (ch_phase c + ch_step c) div 4294967296)"
  using resampling_step(3,6) [OF assms]
  by (auto simp: src_frame_def add.commute simp flip: length_rb_list)

lemma produce_n_run:
  assumes "resampling c"
  shows "resampling (snd (produce_n n c)) \<and>
    ch_phase (snd (produce_n n c)) = (ch_phase c + n * ch_step c) mod 4294967296 \<and>
    ch_interp (snd (produce_n n c)) = ch_interp c \<and> ch_step (snd (produce_n n c)) = ch_step c \<and>
    rb_list (ch_rb (snd (produce_n n c))) =
      drop ((ch_phase c + n * ch_step c) div 4294967296) (rb_list (ch_rb c)) \<and>
    (\<forall>i. src_frame (snd (produce_n n c)) i =
      src_frame c (i + (ch_phase c + n * ch_step c) div 4294967296))"
  using assms
proof (induction n arbitrary: c)
  case 0
  then show ?case by (simp add: resampling_def)
next
  case (Suc n)
  let ?M = "4294967296 :: nat"
  define p where "p = ch_phase c + ch_step c"
  note step = resampling_step [OF Suc.prems, folded p_def]
  have run: "snd (produce_n (Suc n) c) = snd (produce_n n (advance_phase c))"
    by (simp add: resampling_produce [OF Suc.prems] split: prod.splits)
  have total: "ch_phase c + Suc n * ch_step c = p mod ?M + n * ch_step c + p div ?M * ?M"
    by (simp add: p_def)
  have m: "(ch_phase c + Suc n * ch_step c) mod ?M = (p mod ?M + n * ch_step c) mod ?M"
    unfolding total by (rule mod_mult_self1)
  have d: "(ch_phase c + Suc n * ch_step c) div ?M = (p mod ?M + n * ch_step c) div ?M + p div ?M"
    unfolding total by (subst div_mult_self1, simp, rule add.commute)
  show ?case unfolding run m d using Suc.IH [OF step(1)] step resampling_frames [OF Suc.prems]
    by (simp add: p_def [symmetric] add.assoc)
qed

lemma produce_n_nth:
  assumes "k < n"
  shows "fst (produce_n n c) ! k = (case produce_channel_sample (snd (produce_n k c)) of (_, l, r, _) \<Rightarrow> (l, r))"
  using assms
proof (induction n arbitrary: c k)
  case (Suc n)
  then show ?case by (cases k) (auto split: prod.splits simp: nth_Cons')
qed simp

end
