(* ===== verification/Mixer_Props.thy ===== *)
theory Mixer_Props
  imports Mixer_Resample
begin

text \<open>
  The mixer as a whole: the states that the operations reach, and the properties of the mixer.
\<close>

section \<open>Reachable mixers\<close>

definition mixer_inv :: "audio_mixer \<Rightarrow> bool" where
  "mixer_inv m \<longleftrightarrow> (\<forall>c \<in> set (mx_channels m). channel_inv c) \<and>
     compute_output_params (mx_out_format m) =
       Some (mx_out_shift m, mx_out_offset m, mx_out_min m, mx_out_max m) \<and>
     0 \<le> mx_sync_max_correction m \<and>
     \<bar>mx_sync_corr_acc m\<bar> \<le> mx_sync_max_correction m * 65536"

lemma mixer_inv_at [inv_keep]:
  assumes "mixer_inv m" and "\<And>c. channel_inv c \<Longrightarrow> channel_inv (f c)"
  shows "mixer_inv (at_channel m i f)"
proof (cases "i < length (mx_channels m)")
  case True
  then show ?thesis using assms set_update_subset_insert [of "mx_channels m" i "f (mx_channels m ! i)"]
    by (auto simp: mixer_inv_def at_channel_def dest!: subsetD)
next
  case False
  then have "(mx_channels m)[i := f (mx_channels m ! i)] = mx_channels m"
    using False by (intro list_update_beyond) simp
  then show ?thesis using assms(1) by (simp add: at_channel_def mixer_inv_def)
qed

lemma push_frames_inv:
  assumes "rb_inv rb" and "rb_element_size rb = fb" and "n * fb \<le> length b"
  shows "rb_inv (push_frames fb n b rb) \<and> rb_element_size (push_frames fb n b rb) = fb"
  using assms by (induction fb n b rb rule: push_frames.induct) (simp_all add: rb_push_inv)

lemma source_bytes_per_frame_pos [simp]: "0 < source_bytes_per_frame fmt"
  by (cases fmt) (simp_all add: source_bytes_per_frame_def)

lemma channel_inv_init:
  assumes "0 < cc_buffer_samples cfg"
    and "length b = cc_buffer_samples cfg * source_bytes_per_frame (cc_format cfg)"
  shows "channel_inv (channel_init cfg b sync rate)"
  using assms rb_init_inv [of "cc_buffer_samples cfg" b "source_bytes_per_frame (cc_format cfg)"]
  by (cases "compute_pan_gains (cc_pan cfg)")
    (simp add: channel_inv_def channel_init_def Let_def rb_init_def)

lemma mix_channels_inv:
  assumes "\<forall>c \<in> set cs. channel_inv c" and "mix_channels cs al ar = (l, r, cs')"
  shows "(\<forall>c \<in> set cs'. channel_inv c) \<and> length cs' = length cs"
  using assms
proof (induction cs arbitrary: al ar l r cs')
  case (Cons c cs)
  obtain got x y c1 where p: "produce_channel_sample c = (got, x, y, c1)" by (metis prod_cases4)
  have c1: "channel_inv c1" using produce_inv [OF _ p] Cons.prems(1) by simp
  have IH: "mix_channels cs al ar = (l, r, ds) \<Longrightarrow> (\<forall>c \<in> set ds. channel_inv c) \<and> length ds = length cs"
    for al ar l r ds using Cons.IH Cons.prems(1) by simp
  consider (silent) ds where "cs' = c # ds" "mix_channels cs al ar = (l, r, ds)"
    | (skipped) ds where "cs' = c1 # ds" "mix_channels cs al ar = (l, r, ds)"
    | (mixed) ds al' ar' where "cs' = c1 # ds" "mix_channels cs al' ar' = (l, r, ds)"
    using Cons.prems(2) p by (auto split: prod.splits if_splits)
  then show ?case using IH c1 Cons.prems(1) by cases auto
qed simp

text \<open>A frame keeps the invariant, and its values are samples of the output format.\<close>

definition stored_sample :: "mixer_out_format \<Rightarrow> int \<Rightarrow> nat" where
  "stored_sample fmt v = nat (v mod 2 ^ (if of_storage_bits fmt = 8 then 8 else 16))"

definition in_format :: "mixer_out_format \<Rightarrow> nat \<Rightarrow> bool" where
  "in_format fmt x \<longleftrightarrow> (\<exists>v. x = stored_sample fmt v \<and>
     (if of_signed fmt then - (2 ^ (of_bits fmt - 1)) \<le> v \<and> v < 2 ^ (of_bits fmt - 1)
      else 0 \<le> v \<and> v < 2 ^ of_bits fmt))"

lemma finalize_stored:
  assumes "mixer_inv m"
  shows "in_format (mx_out_format m) (stored_sample (mx_out_format m) (finalize m v))"
proof -
  have p: "compute_output_params (mx_out_format m) =
      Some (mx_out_shift m, mx_out_offset m, mx_out_min m, mx_out_max m)"
    using assms by (simp add: mixer_inv_def)
  obtain b where b: "0 < b" "of_bits (mx_out_format m) = b"
      "mx_out_min m = mx_out_offset m - 2 ^ (b - 1)" "mx_out_max m = mx_out_offset m + 2 ^ (b - 1) - 1"
      "mx_out_offset m = (if of_signed (mx_out_format m) then 0 else 2 ^ (b - 1))"
    using p by (rule output_params) blast
  then obtain k where k: "b = Suc k" by (cases b) auto
  have "mx_out_min m \<le> finalize m v" "finalize m v \<le> mx_out_max m"
    using finalize_in_format(2,3) [OF p] by (simp_all add: finalize_def)
  then show ?thesis unfolding in_format_def using b k
    by (intro exI [of _ "finalize m v"]) auto
qed

lemma render_frame_ok:
  assumes "mixer_inv m"
  shows "mixer_inv (snd (mixer_render_frame m)) \<and>
    mx_out_format (snd (mixer_render_frame m)) = mx_out_format m \<and>
    length (fst (mixer_render_frame m)) = of_channels (mx_out_format m) \<and>
    list_all (in_format (mx_out_format m)) (fst (mixer_render_frame m))"
proof -
  obtain al ar cs where mix: "mix_channels (mx_channels m) 0 0 = (al, ar, cs)" by (metis prod_cases3)
  have "\<forall>c \<in> set cs. channel_inv c"
    using mix_channels_inv [OF _ mix] assms by (simp add: mixer_inv_def)
  then have inv: "mixer_inv (m\<lparr>mx_channels := cs\<rparr>)" using assms by (simp add: mixer_inv_def)
  have ch: "of_channels (mx_out_format m) = 1 \<or> of_channels (mx_out_format m) = 2"
    using assms output_params unfolding mixer_inv_def by blast
  have "in_format (mx_out_format m) (nat (finalize m v mod
      2 ^ (if of_storage_bits (mx_out_format m) = 8 then 8 else 16)))" for v
    using finalize_stored [OF assms] by (simp add: stored_sample_def)
  with inv ch show ?thesis
    unfolding mixer_render_frame_def mix prod.case Let_def by auto
qed

lemma mixer_render_Suc:
  "mixer_render m (Suc n) =
    (fst (mixer_render_frame m) @ fst (mixer_render (snd (mixer_render_frame m)) n),
     snd (mixer_render (snd (mixer_render_frame m)) n))"
  by (cases "mixer_render_frame m", cases "mixer_render (snd (mixer_render_frame m)) n") simp

declare mixer_render.simps(2) [simp del]

lemma mixer_render_ok:
  assumes "mixer_inv m"
  shows "mixer_inv (snd (mixer_render m n)) \<and>
    length (fst (mixer_render m n)) = n * of_channels (mx_out_format m) \<and>
    list_all (in_format (mx_out_format m)) (fst (mixer_render m n))"
  using assms
proof (induction n arbitrary: m)
  case (Suc n)
  note f = render_frame_ok [OF Suc.prems]
  then show ?case using Suc.IH [of "snd (mixer_render_frame m)"] by (simp add: mixer_render_Suc)
qed simp

section \<open>Every operation keeps the invariant\<close>

lemma channel_inv_control [simp]:
  "channel_inv (c\<lparr>ch_volume := v\<rparr>) = channel_inv c"
  "channel_inv (c\<lparr>ch_pan := p\<rparr>) = channel_inv c" "channel_inv (c\<lparr>ch_pan_gain_l := g\<rparr>) = channel_inv c"
  "channel_inv (c\<lparr>ch_pan_gain_r := g\<rparr>) = channel_inv c" "channel_inv (c\<lparr>ch_muted := b\<rparr>) = channel_inv c"
  "channel_inv (c\<lparr>ch_active := b\<rparr>) = channel_inv c" "channel_inv (c\<lparr>ch_tap_primed := b\<rparr>) = channel_inv c"
  "channel_inv (c\<lparr>ch_loop_read_pos := n\<rparr>) = channel_inv c" "channel_inv (c\<lparr>ch_step := n\<rparr>) = channel_inv c"
  "channel_inv (c\<lparr>ch_base_step := n\<rparr>) = channel_inv c"
  "channel_inv (c\<lparr>ch_needs_resample := b\<rparr>) = channel_inv c"
  by (simp_all add: channel_inv_def)

lemma channel_inv_taps_zero:
  "channel_inv c \<Longrightarrow> channel_inv (c\<lparr>ch_tap_l := replicate MIXER_TAPS_MAX 0, ch_tap_r := replicate MIXER_TAPS_MAX 0\<rparr>)"
  by (simp add: channel_inv_def)

lemma rb_reset_size [simp]: "rb_element_size (rb_reset rb) = rb_element_size rb"
  by (simp add: rb_reset_def)

lemma mixer_control_inv [inv_keep]:
  assumes "mixer_inv m"
  shows "mixer_inv (mixer_set_volume m i v)" "mixer_inv (mixer_set_pan m i p)"
    "mixer_inv (mixer_mute m i b)" "mixer_inv (mixer_set_source_rate m i n)"
    "mixer_inv (mixer_channel_start m i)" "mixer_inv (mixer_channel_stop m i)"
    "mixer_inv (mixer_channel_reset m i)"
proof -
  note at = mixer_inv_at [OF assms]
  show "mixer_inv (mixer_set_volume m i v)" using assms by (simp add: mixer_set_volume_def at)
  show "mixer_inv (mixer_set_pan m i p)"
    using assms by (auto simp: mixer_set_pan_def split: prod.splits intro!: at)
  show "mixer_inv (mixer_mute m i b)" using assms by (simp add: mixer_mute_def at)
  show "mixer_inv (mixer_set_source_rate m i n)"
    using assms by (auto simp: mixer_set_source_rate_def Let_def channel_inv_def intro!: at)
  show "mixer_inv (mixer_channel_start m i)" using assms by (simp add: mixer_channel_start_def at)
  show "mixer_inv (mixer_channel_stop m i)" using assms by (simp add: mixer_channel_stop_def at)
  show "mixer_inv (mixer_channel_reset m i)"
    using assms by (auto simp: mixer_channel_reset_def channel_inv_def rb_reset_inv intro!: at)
qed

lemma mixer_write_inv [inv_keep]:
  assumes "mixer_inv m"
    and "n * source_bytes_per_frame (ch_format (mx_channels m ! i)) \<le> length b"
  shows "mixer_inv (snd (mixer_write_channel m i b n))"
proof (cases "length (mx_channels m) \<le> i")
  case True
  then show ?thesis using assms by (simp add: mixer_write_channel_def)
next
  case False
  let ?c = "mx_channels m ! i"
  let ?c' = "?c\<lparr>ch_rb := push_frames (source_bytes_per_frame (ch_format ?c)) n b (ch_rb ?c)\<rparr>"
  have c: "channel_inv ?c" using assms(1) False by (simp add: mixer_inv_def)
  then have "channel_inv ?c'"
    using push_frames_inv [of "ch_rb ?c" "source_bytes_per_frame (ch_format ?c)" n b] assms(2)
    by (simp add: channel_inv_def)
  then have "mixer_inv (at_channel m i (\<lambda>_. ?c'))" using mixer_inv_at [OF assms(1), of "\<lambda>_. ?c'"] by simp
  then show ?thesis using False by (simp add: mixer_write_channel_def at_channel_def)
qed

lemma channel_inv_step [simp]: "channel_inv (channel_step acc c) = channel_inv c"
  by (simp add: channel_step_def Let_def)

lemma set_correction_inv [inv_keep]: "mixer_inv m \<Longrightarrow> mixer_inv (set_correction m acc)"
  by (auto simp: mixer_inv_def set_correction_def update_channel_steps_def Let_def SYNC_ACC_BITS_def)

lemma mixer_inv_sync [simp]:
  "mixer_inv (m\<lparr>mx_sync_last_internal := x\<rparr>) = mixer_inv m"
  "mixer_inv (m\<lparr>mx_sync_last_external := x\<rparr>) = mixer_inv m"
  "mixer_inv (m\<lparr>mx_sync_have_last_obs := b\<rparr>) = mixer_inv m"
  by (simp_all add: mixer_inv_def)

lemma mixer_observe_inv [inv_keep]: "mixer_inv m \<Longrightarrow> mixer_inv (snd (mixer_observe_sync m x y))"
  by (simp add: mixer_observe_sync_def Let_def set_correction_inv)

lemma mixer_reset_sync_inv [inv_keep]: "mixer_inv m \<Longrightarrow> mixer_inv (mixer_reset_sync m)"
  by (auto simp: mixer_reset_sync_def mixer_inv_def update_channel_steps_def)

lemma mixer_drift_inv [inv_keep]: "mixer_inv m \<Longrightarrow> mixer_inv (mixer_set_drift_ppm m ppm)"
  by (simp add: mixer_set_drift_ppm_def set_correction_inv)

text \<open>Creation: an allocator returns a block of the size that was asked for.\<close>

definition alloc_sized :: "mixer_alloc \<Rightarrow> bool" where
  "alloc_sized a \<longleftrightarrow> (\<forall>n s b. a n (Sample_Buffer s) = Some b \<longrightarrow> length b = s)"

lemma create_channels_inv:
  assumes "create_channels a sync rate cfgs bufs chans h = (Some (bufs', chans'), h')"
    and "alloc_sized a" and "\<forall>cfg \<in> set cfgs. 0 < cc_buffer_samples cfg"
    and "\<forall>c \<in> set chans. channel_inv c"
  shows "\<forall>c \<in> set chans'. channel_inv c"
  using assms
proof (induction cfgs arbitrary: bufs chans h)
  case (Cons cfg cfgs)
  obtain n b h1 where al: "heap_alloc a (Sample_Buffer (cc_buffer_samples cfg *
      source_bytes_per_frame (cc_format cfg))) h = (Some (n, b), h1)"
    using Cons.prems(1) by (auto split: prod.splits option.splits)
  then have "length b = cc_buffer_samples cfg * source_bytes_per_frame (cc_format cfg)"
    using Cons.prems(2) by (auto simp: heap_alloc_def alloc_sized_def Let_def split: option.splits)
  then have "channel_inv (channel_init cfg b sync rate)" using Cons.prems(3) by (intro channel_inv_init) auto
  then have chans: "\<forall>c \<in> set (chans @ [channel_init cfg b sync rate]). channel_inv c"
    using Cons.prems(4) by simp
  have "create_channels a sync rate cfgs (bufs @ [n]) (chans @ [channel_init cfg b sync rate]) h1 =
      (Some (bufs', chans'), h')"
    using Cons.prems(1) al by simp
  then show ?case by (rule Cons.IH) (use Cons.prems(2,3) chans in simp_all)
qed simp

lemma mixer_created_inv:
  assumes created: "mixer_create_internal malloc cfgs rate fmt hr sync al h = (Some m, h')"
    and "alloc_sized malloc" and "\<forall>a. al = Some a \<longrightarrow> alloc_sized a"
    and bufs: "\<forall>cfg \<in> set cfgs. 0 < cc_buffer_samples cfg"
  shows "mixer_inv m"
proof -
  define a where "a = (case al of None \<Rightarrow> malloc | Some a \<Rightarrow> a)"
  have a: "alloc_sized a" using assms(2,3) by (simp add: a_def split: option.splits)
  obtain sh off lo hi where p: "compute_output_params fmt = Some (sh, off, lo, hi)"
    using created by (cases "compute_output_params fmt") (auto simp: mixer_create_internal_def Let_def)
  have s: "\<not> (case sync of None \<Rightarrow> False
      | Some s \<Rightarrow> sc_ticks_per_second s = 0 \<or> sc_smoothing s < 0 \<or> sc_max_correction s < 0)"
    using created by (auto simp: mixer_create_internal_def Let_def p split: if_splits)
  note c = created [unfolded mixer_create_internal_def Let_def a_def [symmetric], unfolded p prod.case
      option.case if_not_P [OF s]]
  obtain mb x h1 where h1: "heap_alloc a Mixer_Struct h = (Some (mb, x), h1)"
    using c by (auto split: prod.splits option.splits)
  define mx where "mx = mixer_zero mb rate fmt hr sh off lo hi sync"
  have zero: "mixer_inv (mx\<lparr>mx_channels_block := u, mx_buffers_block := v, mx_channel_buffers := w,
      mx_channels := chans\<rparr>)" if "\<forall>c \<in> set chans. channel_inv c" for u v w chans
    using that s p by (auto simp: mixer_inv_def mx_def mixer_zero_def split: option.splits)
  show ?thesis
  proof (cases "cfgs = []")
    case True
    then have "m = mx" using c by (simp add: h1 mx_def)
    then show ?thesis using zero [where u = None and v = None and w = "[]" and chans = "[]"] by (simp add: mx_def mixer_zero_def)
  next
    case False
    note c2 = c [unfolded h1 prod.case option.case if_not_P [OF False], folded mx_def]
    obtain cb y h2 where h2: "heap_alloc a (Channel_Array (length cfgs)) h1 = (Some (cb, y), h2)"
      using c2 by (auto split: prod.splits option.splits)
    obtain bb z h3 where h3: "heap_alloc a (Buffer_Array (length cfgs)) h2 = (Some (bb, z), h3)"
      using c2 h2 by (auto split: prod.splits option.splits)
    obtain bufs' chans' h4 where
        h4: "create_channels a (sync \<noteq> None) rate cfgs [] [] h3 = (Some (bufs', chans'), h4)"
      using c2 h2 h3 by (auto split: prod.splits option.splits)
    have "\<forall>c \<in> set chans'. channel_inv c"
      by (rule create_channels_inv [OF h4 a bufs]) simp
    moreover have "m = mx\<lparr>mx_channels_block := Some cb, mx_buffers_block := Some bb,
        mx_channel_buffers := bufs', mx_channels := chans'\<rparr>"
      using c2 h2 h3 h4 by simp
    ultimately show ?thesis using zero by simp
  qed
qed

section \<open>The states a mixer can reach\<close>

text \<open>
  Creation does not refuse an output rate of zero or a channel without a buffer, but later calls then
  divide by zero: the step of a channel and the drift correction by the rate, a push by the capacity.
  The relation is about the mixers for which the code is defined.
\<close>

inductive mixer_reach :: "audio_mixer \<Rightarrow> bool" where
  created: "mixer_create_internal malloc cfgs rate fmt hr sync al h = (Some m, h') \<Longrightarrow>
    alloc_sized malloc \<Longrightarrow> \<forall>a. al = Some a \<longrightarrow> alloc_sized a \<Longrightarrow>
    rate \<noteq> 0 \<Longrightarrow> \<forall>cfg \<in> set cfgs. 0 < cc_buffer_samples cfg \<Longrightarrow> mixer_reach m"
| volume: "mixer_reach m \<Longrightarrow> mixer_reach (mixer_set_volume m i v)"
| pan: "mixer_reach m \<Longrightarrow> mixer_reach (mixer_set_pan m i p)"
| mute: "mixer_reach m \<Longrightarrow> mixer_reach (mixer_mute m i b)"
| source_rate: "mixer_reach m \<Longrightarrow> mixer_reach (mixer_set_source_rate m i n)"
| start: "mixer_reach m \<Longrightarrow> mixer_reach (mixer_channel_start m i)"
| stop: "mixer_reach m \<Longrightarrow> mixer_reach (mixer_channel_stop m i)"
| reset: "mixer_reach m \<Longrightarrow> mixer_reach (mixer_channel_reset m i)"
| write_frames: "mixer_reach m \<Longrightarrow>
    n * source_bytes_per_frame (ch_format (mx_channels m ! i)) \<le> length b \<Longrightarrow>
    mixer_reach (snd (mixer_write_channel m i b n))"
| render: "mixer_reach m \<Longrightarrow> mixer_reach (snd (mixer_render m n))"
| observe: "mixer_reach m \<Longrightarrow> mixer_reach (snd (mixer_observe_sync m x y))"
| reset_sync: "mixer_reach m \<Longrightarrow> mixer_reach (mixer_reset_sync m)"
| drift: "mixer_reach m \<Longrightarrow> mixer_reach (mixer_set_drift_ppm m ppm)"

lemma mixer_reach_inv: "mixer_reach m \<Longrightarrow> mixer_inv m"
proof (induction rule: mixer_reach.induct)
  case (created malloc cfgs rate fmt hr sync al h m h')
  from mixer_created_inv [OF created(1-3,5)] show ?case .
next
  case (render m n)
  then show ?case by (simp add: mixer_render_ok)
qed (simp_all add: inv_keep)

section \<open>Memory of creation and destruction\<close>

lemma heap_free_at:
  "n \<in> set (mh_live h) \<Longrightarrow> heap_free n h = h\<lparr>mh_live := remove1 n (mh_live h)\<rparr>"
  by (simp add: heap_free_def)

lemma remove1_middle: "n \<notin> set xs \<Longrightarrow> remove1 n (xs @ n # ys) = xs @ ys"
  by (induction xs) auto

lemma free_rev_prefix:
  assumes "mh_live h = rev bs @ L" and "distinct (rev bs @ L)"
  shows "foldl (\<lambda>h b. heap_free b h) h bs = h\<lparr>mh_live := L\<rparr>"
proof -
  have "filter (\<lambda>i. i \<notin> set bs) (mh_live h) = L"
    using assms by (auto simp: filter_id_conv)
  then show ?thesis using assms by (subst free_all) auto
qed

text \<open>The part of creation after the mixer block, where it has channels.\<close>

lemma create_arrays_heap:
  assumes ok: "heap_ok h"
    and h1: "mb = mh_next h \<and> h1 = h\<lparr>mh_next := Suc (mh_next h), mh_live := mh_next h # mh_live h\<rparr>"
    and c: "(case heap_alloc a (Channel_Array n) h1 of
        (None, h2) \<Rightarrow> (None, heap_free mb h2)
      | (Some (cs, _), h2) \<Rightarrow>
          (case heap_alloc a (Buffer_Array n) h2 of
             (None, h3) \<Rightarrow> (None, heap_free mb (heap_free cs h3))
           | (Some (bs, _), h3) \<Rightarrow>
               (case create_channels a sy rate cfgs [] [] h3 of
                  (None, h4) \<Rightarrow> (None, heap_free mb (heap_free cs (heap_free bs h4)))
                | (Some (bufs, chans), h4) \<Rightarrow>
                    (Some (mx\<lparr>mx_channels_block := Some cs, mx_buffers_block := Some bs,
                              mx_channel_buffers := bufs, mx_channels := chans\<rparr>), h4)))) = (res, h')"
    and mx: "mx_block mx = mb"
  shows "case res of None \<Rightarrow> mh_live h' = mh_live h \<and> mh_bad_free h' = mh_bad_free h
    | Some m \<Rightarrow> mh_live (mixer_destroy m h') = mh_live h \<and>
        mh_bad_free (mixer_destroy m h') = mh_bad_free h"
proof -
  obtain r2 h2 where a2: "heap_alloc a (Channel_Array n) h1 = (r2, h2)" by fastforce
  show ?thesis
  proof (cases r2)
    case None
    note h2 = heap_alloc_None [OF a2 [unfolded None]]
    have "res = None \<and> h' = heap_free mb h2" using c a2 None by simp
    then show ?thesis using h1 h2 by simp
  next
    case (Some nb)
    obtain cs y where a2: "heap_alloc a (Channel_Array n) h1 = (Some (cs, y), h2)"
      using a2 Some by (cases nb) auto
    note h2 = heap_alloc_Some [OF a2]
    obtain r3 h3 where a3: "heap_alloc a (Buffer_Array n) h2 = (r3, h3)" by fastforce
    show ?thesis
    proof (cases r3)
      case None
      note h3 = heap_alloc_None [OF a3 [unfolded None]]
      have "res = None \<and> h' = heap_free mb (heap_free cs h3)" using c a2 a3 None by simp
      then show ?thesis using h1 h2 h3 by simp
    next
      case (Some nb)
      obtain bs z where a3: "heap_alloc a (Buffer_Array n) h2 = (Some (bs, z), h3)"
        using a3 Some by (cases nb) auto
      note h3 = heap_alloc_Some [OF a3]
      have live: "mh_live h3 = bs # cs # mb # mh_live h" "mh_bad_free h3 = mh_bad_free h"
        using h1 h2 h3 by simp_all
      have dist: "distinct (bs # cs # mb # mh_live h)" "\<forall>i \<in> set (bs # cs # mb # mh_live h). i < mh_next h3"
        using ok h1 h2 h3 by (auto simp: heap_ok_def)
      obtain r4 h4 where a4: "create_channels a sy rate cfgs [] [] h3 = (r4, h4)" by fastforce
      note k = create_channels_heap [OF _ _ _ a4, of "bs # cs # mb # mh_live h", simplified, OF live(1)]
      show ?thesis
      proof (cases r4)
        case None
        then have "res = None \<and> h' = heap_free mb (heap_free cs (heap_free bs h4))"
          using c a2 a3 a4 by simp
        moreover have "mh_live h4 = bs # cs # mb # mh_live h" "mh_bad_free h4 = mh_bad_free h"
          using k dist live None by auto
        ultimately show ?thesis by simp
      next
        case (Some bc)
        obtain bufs chans where a4: "create_channels a sy rate cfgs [] [] h3 = (Some (bufs, chans), h4)"
          using a4 Some by (cases bc) auto
        have l4: "mh_live h4 = rev bufs @ bs # cs # mb # mh_live h"
            "distinct (rev bufs @ bs # cs # mb # mh_live h)" "mh_bad_free h4 = mh_bad_free h"
          using create_channels_heap [OF _ _ _ a4, of "bs # cs # mb # mh_live h"] live dist by auto
        have "res = Some (mx\<lparr>mx_channels_block := Some cs, mx_buffers_block := Some bs,
            mx_channel_buffers := bufs, mx_channels := chans\<rparr>) \<and> h' = h4"
          using c a2 a3 a4 by simp
        then show ?thesis
          using free_rev_prefix [OF l4(1,2)] l4(3) by (simp add: mixer_destroy_def Let_def mx)
      qed
    qed
  qed
qed

lemma mixer_create_heap:
  assumes ok: "heap_ok h" and created: "mixer_create_internal malloc cfgs rate fmt hr sync al h = (res, h')"
  shows "case res of None \<Rightarrow> mh_live h' = mh_live h \<and> mh_bad_free h' = mh_bad_free h
    | Some m \<Rightarrow> mh_live (mixer_destroy m h') = mh_live h \<and>
        mh_bad_free (mixer_destroy m h') = mh_bad_free h"
proof -
  define a where "a = (case al of None \<Rightarrow> malloc | Some a \<Rightarrow> a)"
  show ?thesis
  proof (cases "compute_output_params fmt")
    case None
    then show ?thesis using created by (auto simp: mixer_create_internal_def Let_def)
  next
    case (Some ps)
    obtain sh off lo hi where p: "compute_output_params fmt = Some (sh, off, lo, hi)"
      using Some by (cases ps) auto
    let ?bad = "case sync of None \<Rightarrow> False
      | Some s \<Rightarrow> sc_ticks_per_second s = 0 \<or> sc_smoothing s < 0 \<or> sc_max_correction s < 0"
    note c = created [unfolded mixer_create_internal_def Let_def a_def [symmetric], unfolded p prod.case option.case]
    show ?thesis
    proof (cases ?bad)
      case True
      then have "res = None \<and> h' = h" using c by simp
      then show ?thesis by simp
    next
      case False
      note c = c [unfolded if_not_P [OF False]]
      obtain r1 h1 where a1: "heap_alloc a Mixer_Struct h = (r1, h1)" by fastforce
      show ?thesis
      proof (cases r1)
        case None
        then have "res = None \<and> h' = h1" using c a1 by simp
        then show ?thesis using None a1 by (auto dest!: heap_alloc_None)
      next
        case (Some nb)
        obtain mb x where a1: "heap_alloc a Mixer_Struct h = (Some (mb, x), h1)"
          using a1 Some by (cases nb) auto
        note h1 = heap_alloc_Some [OF a1]
        define mx where "mx = mixer_zero mb rate fmt hr sh off lo hi sync"
        have mx: "mx_block mx = mb" "mx_buffers_block mx = None" "mx_channels_block mx = None"
          by (simp_all add: mx_def mixer_zero_def)
        show ?thesis
        proof (cases "cfgs = []")
          case True
          then have "res = Some mx \<and> h' = h1" using c by (simp add: a1 mx_def)
          then show ?thesis using h1 by (simp add: mixer_destroy_def Let_def mx)
        next
          case False
          note c2 = c [unfolded a1 prod.case option.case if_not_P [OF False], folded mx_def]
          show ?thesis using create_arrays_heap [OF ok h1 c2 mx(1)] by simp
        qed
      qed
    qed
  qed
qed

section \<open>The fast path\<close>

text \<open>A 16-bit stereo mixer without headroom, and a channel that passes its source through.\<close>

definition cd_format :: mixer_out_format where
  "cd_format = \<lparr>of_bits = 16, of_signed = True, of_storage_bits = 16, of_channels = 2\<rparr>"

definition passthrough :: "mixer_channel \<Rightarrow> bool" where
  "passthrough c \<longleftrightarrow> channel_inv c \<and> ch_active c \<and> \<not> ch_muted c \<and> \<not> ch_needs_resample c \<and> \<not> ch_loop c \<and>
     ch_volume c = Q15_ONE \<and> ch_pan_gain_l c = Q15_ONE \<and> ch_pan_gain_r c = Q15_ONE"

definition plain_mixer :: "audio_mixer \<Rightarrow> bool" where
  "plain_mixer m \<longleftrightarrow> mixer_inv m \<and> mx_out_format m = cd_format \<and> mx_headroom_bits m = 0"

lemma plain_mixer_finalize:
  assumes "plain_mixer m" and "q15 v"
  shows "finalize m v = v"
proof -
  have "compute_output_params cd_format = Some (0, 0, - 32768, 32767)"
    by (simp add: compute_output_params_def cd_format_def Let_def)
  then have "mx_out_shift m = 0 \<and> mx_out_offset m = 0 \<and> mx_out_min m = - 32768 \<and> mx_out_max m = 32767"
    using assms(1) by (auto simp: plain_mixer_def mixer_inv_def)
  then show ?thesis using assms
    by (simp add: finalize_def finalize_output_def plain_mixer_def q15_def asr_def Let_def)
qed

lemma passthrough_step:
  assumes m: "plain_mixer m" "mx_channels m = [c]" and c: "passthrough c"
  obtains c' where "passthrough c'" "plain_mixer (m\<lparr>mx_channels := [c']\<rparr>)"
    "\<And>i. src_frame c' i = src_frame c (Suc i)"
    "mixer_render_frame m = ([nat (fst (src_frame c 0) mod 65536), nat (snd (src_frame c 0) mod 65536)],
       m\<lparr>mx_channels := [c']\<rparr>)"
proof -
  define c' where "c' = c\<lparr>ch_rb := snd (rb_pop (ch_rb c))\<rparr>"
  have inv: "rb_inv (ch_rb c)" using c by (simp add: passthrough_def channel_inv_def)
  note pop = rb_pop_spec [OF inv]
  have p: "produce_channel_sample c = (rb_count (ch_rb c) \<noteq> 0, fst (src_frame c 0), snd (src_frame c 0), c')"
  proof (cases "rb_list (ch_rb c)")
    case Nil
    then have "rb_count (ch_rb c) = 0" by (simp flip: length_rb_list)
    then show ?thesis using c by (simp add: produce_channel_sample_def passthrough_def
        pop_source_frame_q15_def rb_pop_def src_frame_def c'_def)
  next
    case (Cons x xs)
    then have "rb_count (ch_rb c) \<noteq> 0" by (simp flip: length_rb_list)
    moreover obtain rb where "rb_pop (ch_rb c) = (Some x, rb)"
      using pop(1) Cons by (cases "rb_pop (ch_rb c)") auto
    ultimately show ?thesis using c Cons
      by (cases "convert_bytes_to_q15 (ch_format c) x")
        (simp add: produce_channel_sample_def passthrough_def pop_source_frame_q15_def src_frame_def c'_def)
  qed
  have ci: "channel_inv c'" using produce_inv [OF _ p] c by (simp add: passthrough_def)
  have q: "q15 (fst (src_frame c 0))" "q15 (snd (src_frame c 0))" by (simp_all add: src_frame_def)
  have z: "rb_count (ch_rb c) = 0 \<Longrightarrow> src_frame c 0 = (0, 0)" by (simp add: src_frame_def)
  have mix: "mix_channels (mx_channels m) 0 0 = (fst (src_frame c 0), snd (src_frame c 0), [c'])"
    using c q z by (auto simp: m(2) p passthrough_def apply_gains_def Let_def c'_def q15_def case_prod_beta)
  show ?thesis
  proof (rule that [of c'])
    show "passthrough c'" using c ci by (simp add: passthrough_def c'_def)
    show "plain_mixer (m\<lparr>mx_channels := [c']\<rparr>)" using m(1) ci by (auto simp: plain_mixer_def mixer_inv_def)
    show "src_frame c' i = src_frame c (Suc i)" for i
      by (auto simp: src_frame_def c'_def pop(2) nth_tl simp flip: length_rb_list)
    show "mixer_render_frame m = ([nat (fst (src_frame c 0) mod 65536), nat (snd (src_frame c 0) mod 65536)],
       m\<lparr>mx_channels := [c']\<rparr>)"
      using m(1) plain_mixer_finalize [OF m(1) q(1)] plain_mixer_finalize [OF m(1) q(2)]
      by (simp add: mixer_render_frame_def mix Let_def plain_mixer_def cd_format_def)
  qed
qed

lemma passthrough_render:
  assumes "plain_mixer m" and "mx_channels m = [c]" and "passthrough c"
  shows "fst (mixer_render m n) = concat (map (\<lambda>i. [nat (fst (src_frame c i) mod 65536),
    nat (snd (src_frame c i) mod 65536)]) [0..<n])"
  using assms
proof (induction n arbitrary: m c)
  case (Suc n)
  obtain c' where s: "passthrough c'" "plain_mixer (m\<lparr>mx_channels := [c']\<rparr>)"
    "\<And>i. src_frame c' i = src_frame c (Suc i)"
    "mixer_render_frame m = ([nat (fst (src_frame c 0) mod 65536), nat (snd (src_frame c 0) mod 65536)],
       m\<lparr>mx_channels := [c']\<rparr>)"
    using passthrough_step [OF Suc.prems] by blast
  have u: "[0..<Suc n] = 0 # map Suc [0..<n]" by (simp add: upt_rec [of 0 "Suc n"] map_Suc_upt del: upt_Suc)
  show ?case using Suc.IH [OF s(2) _ s(1)] by (simp add: mixer_render_Suc s(3,4) u comp_def del: upt_Suc)
qed simp

section \<open>A run of a linear channel\<close>

lemma linear_side:
  assumes "xs ! 0 = x" and "xs ! 1 = y" and "q15 x" and "q15 y"
  shows "interp_side MIXER_INTERP_LINEAR xs (p mod 4294967296) = x + (y - x) * int (p mod 4294967296 div 65536) div 65536"
  using interp_linear_exact [OF assms(3,4), of "p mod 4294967296"] assms(1,2)
  by (simp add: interp_side_def current_tap_index_def Let_def)

lemma linear_run:
  assumes c: "resampling c" and k: "k < n" and lin: "ch_interp c = MIXER_INTERP_LINEAR"
  defines "p \<equiv> ch_phase c + k * ch_step c"
  defines "a \<equiv> src_frame c (p div 4294967296)" and "b \<equiv> src_frame c (p div 4294967296 + 1)"
  shows "fst (produce_n n c) ! k =
      (fst a + (fst b - fst a) * int (p mod 4294967296 div 65536) div 65536,
       snd a + (snd b - snd a) * int (p mod 4294967296 div 65536) div 65536)"
proof -
  define d where "d = snd (produce_n k c)"
  note run = produce_n_run [OF c, of k, folded d_def p_def]
  have fresh: "(ch_tap_l d ! t, ch_tap_r d ! t) = src_frame d t" if "t < 2" for t
    using run lin that by (auto simp: resampling_def taps_fresh_def current_tap_index_def taps_for_interp_def)
  have "(ch_tap_l d ! t, ch_tap_r d ! t) = src_frame c (t + p div 4294967296)" if "t < 2" for t
    using fresh [OF that] run by metis
  from this [of 0] this [of 1] have t: "ch_tap_l d ! 0 = fst a" "ch_tap_r d ! 0 = snd a" "ch_tap_l d ! 1 = fst b" "ch_tap_r d ! 1 = snd b"
    by (simp_all add: a_def b_def prod_eq_iff)
  have q: "q15 (fst (src_frame c i))" "q15 (snd (src_frame c i))" for i by (simp_all add: src_frame_def)
  have "fst (produce_n n c) ! k = (interp_side MIXER_INTERP_LINEAR (ch_tap_l d) (p mod 4294967296),
      interp_side MIXER_INTERP_LINEAR (ch_tap_r d) (p mod 4294967296))"
    using run lin by (simp add: produce_n_nth [OF k] d_def [symmetric] resampling_produce)
  then show ?thesis
    using linear_side [OF t(1,3)] linear_side [OF t(2,4)] q by (simp add: a_def b_def)
qed

section \<open>Drift correction\<close>

text \<open>
  A channel whose nominal step is small enough for the 64-bit product, and the step that the
  correction \<open>acc\<close> gives it.
\<close>

definition nominal_channel :: "mixer_channel \<Rightarrow> bool" where
  "nominal_channel c \<longleftrightarrow> ch_needs_resample c \<and> 0 < ch_base_step c \<and> ch_base_step c \<le> 2 ^ 32"

definition correction_applied :: "audio_mixer \<Rightarrow> audio_mixer \<Rightarrow> bool" where
  "correction_applied m m' \<longleftrightarrow>
     (let acc = mx_sync_corr_acc m' in
      \<bar>acc\<bar> \<le> mx_sync_max_correction m * 2 ^ SYNC_ACC_BITS \<and>
      list_all2 (\<lambda>c c'. (\<not> ch_needs_resample c \<longrightarrow> c' = c) \<and>
        (ch_needs_resample c \<longrightarrow> 0 < ch_step c') \<and>
        (nominal_channel c \<and> \<bar>acc\<bar> < 2 ^ 31 \<longrightarrow>
           int (ch_step c') = max 1 (int (ch_base_step c) + cdiv (int (ch_base_step c) * acc) SYNC_ACC_ONE)))
        (mx_channels m) (mx_channels m'))"

lemma nominal_product:
  assumes "0 \<le> bs" and "bs \<le> 4294967296" and "\<bar>acc\<bar> < 2147483648"
  shows "\<bar>bs * acc\<bar> \<le> 9223372032559808512"
    and "\<bar>cdiv (bs * acc) SYNC_ACC_ONE\<bar> \<le> 4295098370"
proof -
  have "\<bar>bs * acc\<bar> = bs * \<bar>acc\<bar>" using assms(1) by (simp add: abs_mult)
  also have "\<dots> \<le> 4294967296 * 2147483647" using assms by (intro mult_mono) auto
  finally show p: "\<bar>bs * acc\<bar> \<le> 9223372032559808512" by simp
  then have "\<bar>bs * acc\<bar> div 2147418112 \<le> 9223372032559808512 div 2147418112" by (intro zdiv_mono1) auto
  then have q: "\<bar>bs * acc\<bar> div 2147418112 \<le> 4295098370" by simp
  have "\<bar>cdiv (bs * acc) SYNC_ACC_ONE\<bar> \<le> \<bar>bs * acc\<bar> div 2147418112"
    by (simp add: cdiv_def SYNC_ACC_ONE_def abs_mult abs_sgn_eq pos_imp_zdiv_nonneg_iff)
  with q show "\<bar>cdiv (bs * acc) SYNC_ACC_ONE\<bar> \<le> 4295098370" by linarith
qed

lemma channel_step_facts:
  "\<not> ch_needs_resample c \<Longrightarrow> channel_step acc c = c"
  "ch_needs_resample c \<Longrightarrow> 0 < ch_step (channel_step acc c)"
  by (simp_all add: channel_step_def Let_def)

lemma channel_step_nominal:
  assumes c: "nominal_channel c" and acc: "\<bar>acc\<bar> < 2147483648"
  shows "channel_step acc c = c\<lparr>ch_step :=
    nat (max 1 (int (ch_base_step c) + cdiv (int (ch_base_step c) * acc) SYNC_ACC_ONE))\<rparr>"
proof -
  define bs where "bs = int (ch_base_step c)"
  have b: "0 \<le> bs" "bs \<le> 4294967296" "ch_needs_resample c"
    using c by (simp_all add: nominal_channel_def bs_def)
  note p = nominal_product [OF b(1,2) acc]
  have "i64 bs = bs" "i64 (bs * acc) = bs * acc" using b p(1) by (simp_all add: abs_le_iff)
  moreover have "i64 (bs + cdiv (bs * acc) SYNC_ACC_ONE) = bs + cdiv (bs * acc) SYNC_ACC_ONE"
    using b p(2) by (intro i64_id) linarith+
  ultimately show ?thesis using b(3)
    unfolding channel_step_def bs_def [symmetric] Let_def by (simp add: max_def)
qed

lemma set_correction_applied:
  assumes "0 \<le> mx_sync_max_correction m"
  shows "correction_applied m (set_correction m acc)"
proof -
  define b where "b = mx_sync_corr_acc (set_correction m acc)"
  have m': "mx_channels (set_correction m acc) = map (channel_step b) (mx_channels m)"
    by (simp add: b_def set_correction_def update_channel_steps_def Let_def)
  have "\<bar>b\<bar> \<le> mx_sync_max_correction m * 65536"
    using assms by (auto simp: b_def set_correction_def update_channel_steps_def Let_def SYNC_ACC_BITS_def)
  moreover have "int (ch_step (channel_step b c)) =
      max 1 (int (ch_base_step c) + cdiv (int (ch_base_step c) * b) SYNC_ACC_ONE)"
    if "nominal_channel c" "\<bar>b\<bar> < 2147483648" for c
    using channel_step_nominal [OF that] by simp
  ultimately show ?thesis
    unfolding correction_applied_def b_def [symmetric] Let_def m'
    by (simp add: list_all2_map2 list_all2_same SYNC_ACC_BITS_def channel_step_facts)
qed

lemma correction_applied_cong:
  "mx_channels m1 = mx_channels m \<Longrightarrow> mx_sync_max_correction m1 = mx_sync_max_correction m \<Longrightarrow>
   correction_applied m1 = correction_applied m"
  by (simp add: correction_applied_def fun_eq_iff)

lemma drift_applied:
  assumes "mx_sync_enabled m" and "0 \<le> mx_sync_max_correction m"
  shows "correction_applied m (mixer_set_drift_ppm m ppm)"
  using assms by (simp add: mixer_set_drift_ppm_def set_correction_applied)

lemma observe_applied:
  assumes "0 \<le> mx_sync_max_correction m"
  shows "mx_channels (snd (mixer_observe_sync m x y)) = mx_channels m \<or>
    correction_applied m (snd (mixer_observe_sync m x y))"
proof -
  let ?m1 = "m\<lparr>mx_sync_last_internal := x, mx_sync_last_external := y\<rparr>"
  have "correction_applied m (set_correction ?m1 acc)" for acc
    using set_correction_applied [of ?m1 acc] assms
    by (simp add: correction_applied_cong [of ?m1 m])
  then show ?thesis by (simp add: mixer_observe_sync_def Let_def)
qed

lemma reset_nominal:
  assumes "mx_sync_enabled m"
  shows "list_all2 (\<lambda>c c'. nominal_channel c \<longrightarrow> c' = c\<lparr>ch_step := ch_base_step c\<rparr>)
    (mx_channels m) (mx_channels (mixer_reset_sync m))"
proof -
  have "channel_step 0 c = c\<lparr>ch_step := ch_base_step c\<rparr>" if "nominal_channel c" for c
    using channel_step_nominal [OF that, of 0] that by (simp add: cdiv_def nominal_channel_def max_def)
  then show ?thesis using assms
    by (simp add: mixer_reset_sync_def update_channel_steps_def list_all2_map2 list_all2_same)
qed

section \<open>Properties\<close>


definition ample_alloc :: mixer_alloc where
  "ample_alloc n r = Some (case r of Sample_Buffer s \<Rightarrow> replicate s 0 | _ \<Rightarrow> [])"

definition empty_heap :: mixer_heap where
  "empty_heap = \<lparr>mh_next = 0, mh_live = [], mh_bad_free = False\<rparr>"

definition tone_config :: mixer_config where
  "tone_config = \<lparr>cc_format = MIXER_SRC_PCM16_STEREO, cc_buffer_samples = 8, cc_volume = 32767,
     cc_source_rate = 0, cc_pan = 0, cc_loop = False, cc_interp = MIXER_INTERP_LINEAR\<rparr>"

definition tone_mixer :: audio_mixer where
  "tone_mixer = the (fst (mixer_create ample_alloc [tone_config] 44100 cd_format 0 empty_heap))"

lemma ample_alloc_sized: "alloc_sized ample_alloc"
  by (simp add: alloc_sized_def ample_alloc_def)

lemma tone_mixer_created:
  "\<exists>h. mixer_create_internal ample_alloc [tone_config] 44100 cd_format 0 None (Some ample_alloc) empty_heap =
    (Some tone_mixer, h)"
  unfolding tone_mixer_def mixer_create_def
  by (simp add: mixer_create_internal_def heap_alloc_def ample_alloc_def Let_def cd_format_def
      compute_output_params_def empty_heap_def split: prod.splits)

lemma tone_mixer_reach: "mixer_reach tone_mixer"
  using tone_mixer_created mixer_reach.created [of ample_alloc "[tone_config]"] ample_alloc_sized
  by (fastforce simp: tone_config_def)


text \<open>
  C18: creation allocates and frees in balance: a creation that fails, at whichever
  allocation, leaves exactly the blocks that were live before; after one that succeeds,
  \<open>mixer_destroy\<close> does; and no block is freed twice.
\<close>

theorem mixer_memory_balanced:
  assumes "heap_ok h" and "mixer_create_internal malloc cfgs rate fmt hr sync al h = (res, h')"
  shows "case res of None \<Rightarrow> mh_live h' = mh_live h \<and> mh_bad_free h' = mh_bad_free h
    | Some m \<Rightarrow> mh_live (mixer_destroy m h') = mh_live h \<and>
        mh_bad_free (mixer_destroy m h') = mh_bad_free h"
  using assms by (rule mixer_create_heap)

theorem mixer_memory_balanced_witness:
  "\<exists>h. mh_live (mixer_destroy tone_mixer h) = [] \<and> \<not> mh_bad_free (mixer_destroy tone_mixer h)"
proof -
  obtain h where "mixer_create_internal ample_alloc [tone_config] 44100 cd_format 0 None (Some ample_alloc)
      empty_heap = (Some tone_mixer, h)"
    using tone_mixer_created by blast
  from mixer_memory_balanced [OF _ this] show ?thesis
    by (auto simp: heap_ok_def empty_heap_def)
qed

text \<open>
  C19: a resampling channel is exact over any run, on both sides: the \<open>k\<close>-th frame of a linear channel
  is the linear interpolation of the source frames at position \<open>phase + k * step\<close> (silence past its
  end), the left value between left values and the right one between right ones, the phase never
  accumulates an error, and the channel has consumed exactly the whole frames before that position.
  The 32-bit overflow in the kernel does not show.  This holds for steps up to the size of the
  window, as \<open>resampling\<close> demands.
\<close>

theorem linear_resampler_exact:
  assumes "resampling c" and "k < n" and "ch_interp c = MIXER_INTERP_LINEAR"
  shows "(let p = ch_phase c + k * ch_step c; q = ch_phase c + n * ch_step c;
              a = src_frame c (p div 2 ^ 32); b = src_frame c (p div 2 ^ 32 + 1);
              mix = (\<lambda>x y. x + (y - x) * int (p mod 2 ^ 32 div 2 ^ 16) div 2 ^ 16)
          in fst (produce_n n c) ! k = (mix (fst a) (fst b), mix (snd a) (snd b)) \<and>
             ch_phase (snd (produce_n n c)) = q mod 2 ^ 32 \<and>
             rb_list (ch_rb (snd (produce_n n c))) = drop (q div 2 ^ 32) (rb_list (ch_rb c)))"
  using linear_run [OF assms] produce_n_run [OF assms(1), of n] by (simp add: Let_def)

definition half_config :: mixer_config where
  "half_config = tone_config\<lparr>cc_source_rate := 22050\<rparr>"

definition half_channel :: mixer_channel where
  "half_channel = prime_tap_window
     (let c = channel_init half_config (replicate 32 0) False 44100
      in c\<lparr>ch_rb := push_frames 4 2 [1, 0, 2, 0, 3, 0, 4, 0] (ch_rb c)\<rparr>)"

lemma half_channel_resampling:
  "resampling half_channel \<and> ch_interp half_channel = MIXER_INTERP_LINEAR \<and>
   ch_phase half_channel = 0 \<and> ch_step half_channel = 2147483648"
proof -
  define c where "c = channel_init half_config (replicate 32 0) False 44100"
  define d where "d = c\<lparr>ch_rb := push_frames 4 2 [1, 0, 2, 0, 3, 0, 4, 0] (ch_rb c)\<rparr>"
  have "channel_inv c" unfolding c_def
    by (rule channel_inv_init) (simp_all add: half_config_def tone_config_def source_bytes_per_frame_def)
  moreover have c: "ch_format c = MIXER_SRC_PCM16_STEREO" "ch_interp c = MIXER_INTERP_LINEAR" "\<not> ch_loop c"
      "ch_needs_resample c" "ch_phase c = 0" "ch_step c = 2147483648"
    by (simp_all add: c_def channel_init_def half_config_def tone_config_def Let_def
        compute_pan_gains_def compute_step_q32_32_def u64_def)
  ultimately have d: "channel_inv d" "\<not> ch_loop d"
    using push_frames_inv [of "ch_rb c" 4 2 "[1, 0, 2, 0, 3, 0, 4, 0]"]
    by (simp_all add: d_def channel_inv_def source_bytes_per_frame_def)
  have h: "half_channel = prime_tap_window d"
    by (simp add: half_channel_def c_def d_def Let_def)
  have sel: "ch_interp half_channel = MIXER_INTERP_LINEAR" "ch_phase half_channel = 0"
      "ch_step half_channel = 2147483648" "ch_tap_primed half_channel" "ch_needs_resample half_channel"
      "\<not> ch_loop half_channel"
    using c by (simp_all add: h prime_tap_window_def Let_def load_taps_eq d_def)
  moreover have "channel_inv half_channel" "taps_fresh half_channel"
    using d by (simp_all add: h channel_inv_prime taps_fresh_prime)
  ultimately show ?thesis by (simp add: resampling_def taps_for_interp_def)
qed

theorem linear_resampler_exact_witness: "ch_phase (snd (produce_n 3 half_channel)) = 2 ^ 31"
  using linear_resampler_exact [of half_channel 1 3] half_channel_resampling by (simp add: Let_def)

text \<open>
  the path without resampling is a wire: a 16-bit stereo mixer without headroom, with one
  active channel at unity gain and centre pan, renders exactly the queued source frames, in
  order, and silence once the queue is empty.
\<close>

theorem mixer_passthrough:
  assumes "plain_mixer m" and "mx_channels m = [c]" and "passthrough c"
  shows "fst (mixer_render m n) = concat (map (\<lambda>i. [nat (fst (src_frame c i) mod 65536),
    nat (snd (src_frame c i) mod 65536)]) [0..<n])"
  using assms by (rule passthrough_render)

definition started_mixer :: audio_mixer where
  "started_mixer = mixer_channel_start tone_mixer 0"

theorem mixer_passthrough_witness: "fst (mixer_render started_mixer 2) = [0, 0, 0, 0]"
proof -
  define c where "c = hd (mx_channels started_mixer)"
  have m: "mx_channels started_mixer = [c]" "mx_out_format started_mixer = cd_format"
      "mx_headroom_bits started_mixer = 0" "ch_active c" "\<not> ch_muted c" "\<not> ch_needs_resample c"
      "\<not> ch_loop c" "ch_volume c = Q15_ONE" "ch_pan_gain_l c = Q15_ONE" "ch_pan_gain_r c = Q15_ONE"
      "rb_count (ch_rb c) = 0"
    by (simp_all add: c_def started_mixer_def tone_mixer_def mixer_create_def mixer_create_internal_def
        heap_alloc_def ample_alloc_def Let_def cd_format_def compute_output_params_def empty_heap_def
        mixer_channel_start_def at_channel_def channel_init_def tone_config_def compute_pan_gains_def
        rb_init_def mixer_zero_def Q15_ONE_def)
  have inv: "mixer_inv started_mixer"
    using mixer_reach_inv [OF tone_mixer_reach] by (simp add: started_mixer_def mixer_control_inv)
  then have p: "plain_mixer started_mixer" "passthrough c"
    using m by (simp_all add: plain_mixer_def passthrough_def mixer_inv_def)
  have "src_frame c i = (0, 0)" for i using m(11) by (simp add: src_frame_def)
  then show ?thesis using mixer_passthrough [OF p(1) m(1) p(2), of 2] by (simp add: numeral_2_eq_2)
qed

text \<open>
  the interpolation kernels return the current source sample at fraction zero; the linear
  kernel always returns a value between its two samples although its 32-bit product can
  overflow.
\<close>

theorem interpolation_between_samples:
  assumes "q15 a" and "q15 b" and "frac < 2 ^ 32"
  shows "min a b \<le> interp_linear_q15 a b frac \<and> interp_linear_q15 a b frac \<le> max a b \<and>
    interp_linear_q15 a b 0 = a \<and> interp_cubic_q15 p0 a b p3 0 = a"
proof -
  have f: "0 \<le> int (frac div 65536)" "int (frac div 65536) < 65536" using assms(3) by auto
  show ?thesis using lerp_between [OF f, of a b] interp_linear_exact [of a b frac] assms
      interp_at_sample [OF assms(1)] by simp
qed

theorem interpolation_between_samples_witness:
  "- 32768 \<le> interp_linear_q15 (- 32768) 32767 4294967295"
  using interpolation_between_samples [of "- 32768" 32767 4294967295] by (simp add: q15_def)

text \<open>
  the cubic kernel does overflow at high amplitude: on a full-scale alternating signal,
  just before the sample at negative full scale, its 32-bit products wrap and it returns
  positive full scale.
\<close>

theorem interp_cubic_overflows:
  "interp_cubic_q15 (- 32768) 32767 (- 32768) 32767 4294967295 = 32767"
proof -
  have t: "int (4294967295 div 2 ^ 17) = 32767" "asr (i32 (32767 * 32767)) 15 = 32766"
      "asr (i32 (32766 * 32767)) 15 = 32765" "asr (i32 (262140 * 32765)) 15 = - 28"
      "asr (i32 (- 393210 * 32766)) 15 = 29"
    by (simp_all add: asr_def i32_def)
  show ?thesis
    unfolding interp_cubic_q15_def Let_def t(1) unfolding t(2) unfolding t(3)
    using t(4,5) by (simp add: asr_def)
qed

text \<open>
  drift correction.  An observation either leaves every channel as it was, or applies a
  correction that is clamped to the configured maximum; the direct setting always does.  With a
  correction applied every resampling channel steps by its nominal step scaled by the
  correction, and never by less than one; a reset restores the nominal steps.
\<close>

theorem mixer_sync_correct:
  assumes "mx_sync_enabled m" and "0 \<le> mx_sync_max_correction m"
  shows "(mx_channels (snd (mixer_observe_sync m x y)) = mx_channels m \<or>
      correction_applied m (snd (mixer_observe_sync m x y))) \<and>
    correction_applied m (mixer_set_drift_ppm m ppm) \<and>
    list_all2 (\<lambda>c c'. nominal_channel c \<longrightarrow> c' = c\<lparr>ch_step := ch_base_step c\<rparr>)
      (mx_channels m) (mx_channels (mixer_reset_sync m))"
  using observe_applied [OF assms(2)] drift_applied [OF assms] reset_nominal [OF assms(1)] by blast

theorem mixer_sync_correct_witness:
  "correction_applied (tone_mixer\<lparr>mx_sync_enabled := True, mx_sync_max_correction := 300\<rparr>)
     (mixer_set_drift_ppm (tone_mixer\<lparr>mx_sync_enabled := True, mx_sync_max_correction := 300\<rparr>) 5000)"
  using mixer_sync_correct [of "tone_mixer\<lparr>mx_sync_enabled := True, mx_sync_max_correction := 300\<rparr>" 0 0 5000]
  by simp

end
