(* ===== verification/Music_Player.thy ===== *)
theory Music_Player
  imports Mixer_Props
begin

text \<open>
  \<^verbatim>\<open>engine/audio/music_player.c\<close>: the intro-and-loop player that pulls frames from a stream
  callback into its streaming buffer and pushes them into one channel of the mixer.  The
  callback is a parameter: it gets its own state, the stream, the number of frames wanted and
  the offset, and returns the number of frames, the bytes it wrote to the destination and its
  new state.  An operation works on the player, the mixer and the state of the callback; the
  buffers that the configuration points to are part of the player.
\<close>

section \<open>Configuration and state\<close>

definition MUSIC_STREAM_NONE :: int where "MUSIC_STREAM_NONE = - 1"

datatype music_state = MUSIC_STOPPED | MUSIC_PLAYING_INTRO | MUSIC_PLAYING_LOOP | MUSIC_PAUSED

datatype current_segment = SEG_NONE | SEG_INTRO | SEG_LOOP

record music_config =
  mc_mixer_channel :: nat
  mc_format :: mixer_src
  mc_intro_stream_id :: int
  mc_loop_stream_id :: int
  mc_streaming_buffer_samples :: nat
  mc_max_channel_fill :: nat
  mc_has_intro_head :: bool
  mc_intro_head_samples :: nat
  mc_has_loop_head :: bool
  mc_loop_head_samples :: nat

record music_player =
  mp_cfg :: music_config
  mp_streaming_buffer :: "byte list"
  mp_intro_head :: "byte list"
  mp_loop_head :: "byte list"
  mp_state :: music_state
  mp_segment :: current_segment
  mp_segment_offset :: nat
  mp_pinned_remaining :: nat
  mp_streaming_count :: nat
  mp_streaming_read_pos :: nat
  mp_bytes_per_frame :: nat

type_synonym 'u stream_fn = "'u \<Rightarrow> int \<Rightarrow> nat \<Rightarrow> nat \<Rightarrow> nat \<times> byte list \<times> 'u"
type_synonym 'u music = "music_player \<times> audio_mixer \<times> 'u"

fun fmt_bytes_per_frame :: "mixer_src \<Rightarrow> nat" where
  "fmt_bytes_per_frame MIXER_SRC_PCM16_MONO = 2"
| "fmt_bytes_per_frame MIXER_SRC_PCM8S_MONO = 1"
| "fmt_bytes_per_frame MIXER_SRC_PCM8U_MONO = 1"
| "fmt_bytes_per_frame MIXER_SRC_PCM16_STEREO = 4"
| "fmt_bytes_per_frame MIXER_SRC_PCM8S_STEREO = 2"
| "fmt_bytes_per_frame MIXER_SRC_PCM8U_STEREO = 2"

section \<open>Lifecycle\<close>

definition validate_config :: "music_config \<Rightarrow> bool" where
  "validate_config cfg \<longleftrightarrow>
     (if mc_streaming_buffer_samples cfg = 0 then False
      else if mc_intro_stream_id cfg = MUSIC_STREAM_NONE \<and> mc_loop_stream_id cfg = MUSIC_STREAM_NONE then False
      else if mc_has_intro_head cfg \<and> mc_intro_head_samples cfg = 0 then False
      else if mc_has_loop_head cfg \<and> mc_loop_head_samples cfg = 0 then False
      else if mc_intro_head_samples cfg > mc_streaming_buffer_samples cfg then False
      else if mc_loop_head_samples cfg > mc_streaming_buffer_samples cfg then False
      else True)"

text \<open>The flag says whether the allocator had a block for the player.\<close>

definition music_create_with_allocator ::
    "music_config \<Rightarrow> byte list \<Rightarrow> byte list \<Rightarrow> byte list \<Rightarrow> bool \<Rightarrow> music_player option" where
  "music_create_with_allocator cfg sbuf ihead lhead alloc_ok =
     (if \<not> validate_config cfg then None
      else if \<not> alloc_ok then None
      else Some \<lparr>mp_cfg = cfg, mp_streaming_buffer = sbuf, mp_intro_head = ihead, mp_loop_head = lhead,
                 mp_state = MUSIC_STOPPED, mp_segment = SEG_NONE, mp_segment_offset = 0,
                 mp_pinned_remaining = 0, mp_streaming_count = 0, mp_streaming_read_pos = 0,
                 mp_bytes_per_frame = fmt_bytes_per_frame (mc_format cfg)\<rparr>)"

definition music_destroy :: "music_player \<Rightarrow> audio_mixer \<Rightarrow> audio_mixer" where
  "music_destroy mp mx =
     mixer_channel_reset (mixer_channel_stop mx (mc_mixer_channel (mp_cfg mp))) (mc_mixer_channel (mp_cfg mp))"

section \<open>Pinned heads\<close>

text \<open>The result is the new contents of the head, whether the call succeeded, and the callback's state.\<close>

definition prime_head ::
    "'u stream_fn \<Rightarrow> int \<Rightarrow> bool \<Rightarrow> byte list \<Rightarrow> nat \<Rightarrow> 'u \<Rightarrow> byte list \<times> bool \<times> 'u" where
  "prime_head f stream_id has_head head samples u =
     (if \<not> has_head \<or> samples = 0 then (head, True, u)
      else if stream_id = MUSIC_STREAM_NONE then (head, True, u)
      else case f u stream_id samples 0 of (got, bytes, u') \<Rightarrow> (blit head 0 bytes, got = samples, u'))"

definition music_prime_intro :: "'u stream_fn \<Rightarrow> music_player \<Rightarrow> 'u \<Rightarrow> bool \<times> music_player \<times> 'u" where
  "music_prime_intro f mp u =
     (case prime_head f (mc_intro_stream_id (mp_cfg mp)) (mc_has_intro_head (mp_cfg mp)) (mp_intro_head mp)
             (mc_intro_head_samples (mp_cfg mp)) u of
        (head, ok, u') \<Rightarrow> (ok, mp\<lparr>mp_intro_head := head\<rparr>, u'))"

definition music_prime_loop :: "'u stream_fn \<Rightarrow> music_player \<Rightarrow> 'u \<Rightarrow> bool \<times> music_player \<times> 'u" where
  "music_prime_loop f mp u =
     (case prime_head f (mc_loop_stream_id (mp_cfg mp)) (mc_has_loop_head (mp_cfg mp)) (mp_loop_head mp)
             (mc_loop_head_samples (mp_cfg mp)) u of
        (head, ok, u') \<Rightarrow> (ok, mp\<lparr>mp_loop_head := head\<rparr>, u'))"

section \<open>Segments\<close>

definition enter_segment :: "music_player \<Rightarrow> current_segment \<Rightarrow> music_player" where
  "enter_segment mp sg =
     mp\<lparr>mp_segment := sg, mp_segment_offset := 0, mp_streaming_count := 0, mp_streaming_read_pos := 0,
        mp_pinned_remaining :=
          (if sg = SEG_INTRO then (if mc_has_intro_head (mp_cfg mp) then mc_intro_head_samples (mp_cfg mp) else 0)
           else if sg = SEG_LOOP then (if mc_has_loop_head (mp_cfg mp) then mc_loop_head_samples (mp_cfg mp) else 0)
           else 0)\<rparr>"

definition current_segment_stream_id :: "music_player \<Rightarrow> int" where
  "current_segment_stream_id mp =
     (if mp_segment mp = SEG_INTRO then mc_intro_stream_id (mp_cfg mp)
      else if mp_segment mp = SEG_LOOP then mc_loop_stream_id (mp_cfg mp)
      else MUSIC_STREAM_NONE)"

definition current_pinned_buffer :: "music_player \<Rightarrow> byte list" where
  "current_pinned_buffer mp =
     (if mp_segment mp = SEG_INTRO then mp_intro_head mp
      else if mp_segment mp = SEG_LOOP then mp_loop_head mp
      else [])"

definition current_pinned_size :: "music_player \<Rightarrow> nat" where
  "current_pinned_size mp =
     (if mp_segment mp = SEG_INTRO then mc_intro_head_samples (mp_cfg mp)
      else if mp_segment mp = SEG_LOOP then mc_loop_head_samples (mp_cfg mp)
      else 0)"

section \<open>Playback control\<close>

definition music_resume :: "music_player \<Rightarrow> audio_mixer \<Rightarrow> music_player \<times> audio_mixer" where
  "music_resume mp mx =
     (if mp_state mp \<noteq> MUSIC_PAUSED then (mp, mx)
      else let st = (if mp_segment mp = SEG_INTRO then MUSIC_PLAYING_INTRO
                     else if mp_segment mp = SEG_LOOP then MUSIC_PLAYING_LOOP
                     else MUSIC_STOPPED);
               mp1 = mp\<lparr>mp_state := st\<rparr>
           in if st \<noteq> MUSIC_STOPPED then (mp1, mixer_channel_start mx (mc_mixer_channel (mp_cfg mp))) else (mp1, mx))"

definition music_play :: "music_player \<Rightarrow> audio_mixer \<Rightarrow> music_player \<times> audio_mixer" where
  "music_play mp mx =
     (if mp_state mp = MUSIC_PAUSED then music_resume mp mx
      else if mp_state mp = MUSIC_PLAYING_INTRO \<or> mp_state mp = MUSIC_PLAYING_LOOP then (mp, mx)
      else let ch = mc_mixer_channel (mp_cfg mp); mx1 = mixer_channel_start (mixer_channel_reset mx ch) ch
           in if mc_intro_stream_id (mp_cfg mp) \<noteq> MUSIC_STREAM_NONE
              then ((enter_segment mp SEG_INTRO)\<lparr>mp_state := MUSIC_PLAYING_INTRO\<rparr>, mx1)
              else if mc_loop_stream_id (mp_cfg mp) \<noteq> MUSIC_STREAM_NONE
              then ((enter_segment mp SEG_LOOP)\<lparr>mp_state := MUSIC_PLAYING_LOOP\<rparr>, mx1)
              else (mp, mx))"

definition music_stop :: "music_player \<Rightarrow> audio_mixer \<Rightarrow> music_player \<times> audio_mixer" where
  "music_stop mp mx =
     (mp\<lparr>mp_state := MUSIC_STOPPED, mp_segment := SEG_NONE, mp_segment_offset := 0,
         mp_pinned_remaining := 0, mp_streaming_count := 0, mp_streaming_read_pos := 0\<rparr>,
      mixer_channel_reset (mixer_channel_stop mx (mc_mixer_channel (mp_cfg mp))) (mc_mixer_channel (mp_cfg mp)))"

definition music_pause :: "music_player \<Rightarrow> audio_mixer \<Rightarrow> music_player \<times> audio_mixer" where
  "music_pause mp mx =
     (if mp_state mp \<noteq> MUSIC_PLAYING_INTRO \<and> mp_state mp \<noteq> MUSIC_PLAYING_LOOP then (mp, mx)
      else (mp\<lparr>mp_state := MUSIC_PAUSED\<rparr>, mixer_channel_stop mx (mc_mixer_channel (mp_cfg mp))))"

section \<open>The update\<close>

definition compact_buffer :: "music_player \<Rightarrow> music_player" where
  "compact_buffer mp =
     (let bpf = mp_bytes_per_frame mp;
          mp1 = (if 0 < mp_streaming_read_pos mp \<and> 0 < mp_streaming_count mp
                 then mp\<lparr>mp_streaming_buffer := blit (mp_streaming_buffer mp) 0
                           (seg (mp_streaming_read_pos mp * bpf) (mp_streaming_count mp * bpf)
                              (mp_streaming_buffer mp))\<rparr>
                 else mp)
      in mp1\<lparr>mp_streaming_read_pos := 0\<rparr>)"

definition refill_streaming_buffer :: "'u stream_fn \<Rightarrow> music_player \<Rightarrow> 'u \<Rightarrow> nat \<times> music_player \<times> 'u" where
  "refill_streaming_buffer f mp u =
     (let mp1 = compact_buffer mp;
          room = mc_streaming_buffer_samples (mp_cfg mp1) - mp_streaming_count mp1;
          sid = current_segment_stream_id mp1
      in if room = 0 then (0, mp1, u)
         else if sid = MUSIC_STREAM_NONE then (0, mp1, u)
         else let off = mp_segment_offset mp1 + mp_pinned_remaining mp1 + mp_streaming_count mp1
              in case f u sid room off of
                   (got, bytes, u') \<Rightarrow>
                     (got, mp1\<lparr>mp_streaming_buffer := blit (mp_streaming_buffer mp1)
                                 (mp_streaming_count mp1 * mp_bytes_per_frame mp1) bytes,
                               mp_streaming_count := mp_streaming_count mp1 + got\<rparr>, u'))"

definition push_to_mixer :: "music_player \<Rightarrow> audio_mixer \<Rightarrow> byte list \<Rightarrow> nat \<Rightarrow> nat \<times> audio_mixer" where
  "push_to_mixer mp mx src n = mixer_write_channel mx (mc_mixer_channel (mp_cfg mp)) src n"

lemma push_to_mixer_le: "fst (push_to_mixer mp mx src n) \<le> n"
  by (simp add: push_to_mixer_def mixer_write_channel_def)

function pump_stream :: "nat \<Rightarrow> nat \<Rightarrow> music_player \<Rightarrow> audio_mixer \<Rightarrow> nat \<times> music_player \<times> audio_mixer" where
  "pump_stream lim done_n mp mx =
     (if done_n < lim \<and> 0 < mp_streaming_count mp
      then let take_n = min (mp_streaming_count mp) (lim - done_n);
               src = drop (mp_streaming_read_pos mp * mp_bytes_per_frame mp) (mp_streaming_buffer mp);
               pushed = fst (push_to_mixer mp mx src take_n);
               mx1 = snd (push_to_mixer mp mx src take_n);
               mp1 = mp\<lparr>mp_streaming_read_pos := mp_streaming_read_pos mp + pushed,
                        mp_streaming_count := mp_streaming_count mp - pushed,
                        mp_segment_offset := mp_segment_offset mp + pushed\<rparr>
           in if pushed < take_n then (done_n + pushed, mp1, mx1)
              else pump_stream lim (done_n + pushed) mp1 mx1
      else (done_n, mp, mx))"
  by pat_completeness auto
termination
  by (relation "measure (\<lambda>(lim, done_n, mp, mx). mp_streaming_count mp)") auto

declare pump_stream.simps [simp del]

definition pump_to_mixer ::
    "music_player \<Rightarrow> audio_mixer \<Rightarrow> nat \<Rightarrow> nat \<times> music_player \<times> audio_mixer" where
  "pump_to_mixer mp mx lim =
     (if 0 < mp_pinned_remaining mp
      then let start = current_pinned_size mp - mp_pinned_remaining mp;
               take_n = min (mp_pinned_remaining mp) lim;
               src = drop (start * mp_bytes_per_frame mp) (current_pinned_buffer mp)
           in case push_to_mixer mp mx src take_n of
                (pushed, mx1) \<Rightarrow>
                  let mp1 = mp\<lparr>mp_pinned_remaining := mp_pinned_remaining mp - pushed\<rparr>
                  in if pushed < take_n then (pushed, mp1, mx1) else pump_stream lim pushed mp1 mx1
      else pump_stream lim 0 mp mx)"

definition segment_exhausted :: "music_player \<Rightarrow> bool \<Rightarrow> bool" where
  "segment_exhausted mp last_refill_was_zero \<longleftrightarrow>
     last_refill_was_zero \<and> mp_streaming_count mp = 0 \<and> mp_pinned_remaining mp = 0"

text \<open>The refill at the head of a pass, and whether it reported the end of the stream.\<close>

definition refill_pass :: "'u stream_fn \<Rightarrow> music_player \<Rightarrow> 'u \<Rightarrow> bool \<times> music_player \<times> 'u" where
  "refill_pass f mp u =
     (let half = mc_streaming_buffer_samples (mp_cfg mp) div 2 in
      if mp_streaming_count mp < half
      then let prev = mp_streaming_count mp in
           case refill_streaming_buffer f mp u of
             (_, mp1, u1) \<Rightarrow>
               let got = mp_streaming_count mp1 - prev; want = mc_streaming_buffer_samples (mp_cfg mp1) - prev
               in (if got < want then got = 0 else False, mp1, u1)
      else (False, mp, u))"

fun update_passes :: "nat \<Rightarrow> 'u stream_fn \<Rightarrow> nat \<Rightarrow> 'u music \<Rightarrow> 'u music" where
  "update_passes 0 f target s = s"
| "update_passes (Suc n) f target (mp, mx, u) =
     (case refill_pass f mp u of
        (zero, mp1, u1) \<Rightarrow>
          (case pump_to_mixer mp1 mx target of
             (_, mp2, mx2) \<Rightarrow>
               if segment_exhausted mp2 zero
               then if mp_segment mp2 = SEG_INTRO \<and> mc_loop_stream_id (mp_cfg mp2) \<noteq> MUSIC_STREAM_NONE
                    then update_passes n f target
                           ((enter_segment mp2 SEG_LOOP)\<lparr>mp_state := MUSIC_PLAYING_LOOP\<rparr>, mx2, u1)
                    else if mp_segment mp2 = SEG_LOOP
                    then update_passes n f target (enter_segment mp2 SEG_LOOP, mx2, u1)
                    else (case music_stop mp2 mx2 of (mp3, mx3) \<Rightarrow> (mp3, mx3, u1))
               else (mp2, mx2, u1)))"

text \<open>The number of frames an update may move.\<close>

definition update_target :: "music_player \<Rightarrow> audio_mixer \<Rightarrow> nat" where
  "update_target mp mx =
     (let cap = mixer_channel_capacity mx (mc_mixer_channel (mp_cfg mp));
          cap = (if mc_max_channel_fill (mp_cfg mp) \<noteq> 0 \<and> mc_max_channel_fill (mp_cfg mp) < cap
                 then mc_max_channel_fill (mp_cfg mp) else cap);
          fill = mixer_channel_buffered mx (mc_mixer_channel (mp_cfg mp));
          target = (if fill < cap then cap - fill else 0)
      in if mc_streaming_buffer_samples (mp_cfg mp) < target then mc_streaming_buffer_samples (mp_cfg mp)
         else target)"

definition music_update :: "'u stream_fn \<Rightarrow> 'u music \<Rightarrow> 'u music" where
  "music_update f s =
     (case s of (mp, mx, u) \<Rightarrow>
        if mp_state mp \<noteq> MUSIC_PLAYING_INTRO \<and> mp_state mp \<noteq> MUSIC_PLAYING_LOOP then s
        else let target = update_target mp mx
             in if target = 0 then s else update_passes 2 f target s)"

end
