(* ===== verification/Music_Spec.thy ===== *)
theory Music_Spec
  imports Music_Player
begin

text \<open>
  The music player: the invariant of its buffers and its state machine, the order in which it
  delivers the frames of a segment, and what happens at the end of a segment.
\<close>

section \<open>Invariant\<close>

definition pinned_present :: "music_player \<Rightarrow> bool" where
  "pinned_present mp \<longleftrightarrow>
     (mp_segment mp = SEG_INTRO \<and> mc_has_intro_head (mp_cfg mp)) \<or> (mp_segment mp = SEG_LOOP \<and> mc_has_loop_head (mp_cfg mp))"

definition player_ok :: "music_player \<Rightarrow> bool" where
  "player_ok mp \<longleftrightarrow> validate_config (mp_cfg mp) \<and>
     mp_bytes_per_frame mp = source_bytes_per_frame (mc_format (mp_cfg mp)) \<and>
     length (mp_streaming_buffer mp) = mc_streaming_buffer_samples (mp_cfg mp) * mp_bytes_per_frame mp \<and>
     (mc_has_intro_head (mp_cfg mp) \<longrightarrow>
        length (mp_intro_head mp) = mc_intro_head_samples (mp_cfg mp) * mp_bytes_per_frame mp) \<and>
     (mc_has_loop_head (mp_cfg mp) \<longrightarrow>
        length (mp_loop_head mp) = mc_loop_head_samples (mp_cfg mp) * mp_bytes_per_frame mp) \<and>
     mp_streaming_read_pos mp + mp_streaming_count mp \<le> mc_streaming_buffer_samples (mp_cfg mp) \<and>
     (0 < mp_pinned_remaining mp \<longrightarrow> mp_pinned_remaining mp \<le> current_pinned_size mp \<and> pinned_present mp)"

fun state_ok :: "music_state \<Rightarrow> current_segment \<Rightarrow> bool" where
  "state_ok MUSIC_STOPPED sg \<longleftrightarrow> sg = SEG_NONE"
| "state_ok MUSIC_PLAYING_INTRO sg \<longleftrightarrow> sg = SEG_INTRO"
| "state_ok MUSIC_PLAYING_LOOP sg \<longleftrightarrow> sg = SEG_LOOP"
| "state_ok MUSIC_PAUSED sg \<longleftrightarrow> sg \<noteq> SEG_NONE"

definition music_inv :: "music_player \<Rightarrow> bool" where
  "music_inv mp \<longleftrightarrow> player_ok mp \<and> state_ok (mp_state mp) (mp_segment mp)"

text \<open>What a stream callback promises: at most the frames asked for, and their bytes.\<close>

definition stream_ok :: "'u stream_fn \<Rightarrow> nat \<Rightarrow> bool" where
  "stream_ok f bpf \<longleftrightarrow> (\<forall>u sid n off. fst (f u sid n off) \<le> n \<and>
     length (fst (snd (f u sid n off))) = fst (f u sid n off) * bpf)"

lemma stream_okD:
  assumes "stream_ok f bpf" and "f u sid n off = (k, b, u')"
  shows "k \<le> n \<and> length b = k * bpf"
  using assms unfolding stream_ok_def by (metis fst_conv snd_conv)

lemma fmt_bytes: "fmt_bytes_per_frame fmt = source_bytes_per_frame fmt"
  by (cases fmt) (simp_all add: source_bytes_per_frame_def)

lemma current_pinned_sel [simp]:
  "current_pinned_size (mp\<lparr>mp_pinned_remaining := n\<rparr>) = current_pinned_size mp"
  "current_pinned_size (mp\<lparr>mp_streaming_read_pos := n\<rparr>) = current_pinned_size mp"
  "current_pinned_size (mp\<lparr>mp_streaming_count := n\<rparr>) = current_pinned_size mp"
  "current_pinned_size (mp\<lparr>mp_streaming_buffer := b\<rparr>) = current_pinned_size mp"
  "current_pinned_size (mp\<lparr>mp_segment_offset := n\<rparr>) = current_pinned_size mp"
  "current_pinned_size (mp\<lparr>mp_state := st\<rparr>) = current_pinned_size mp"
  "current_pinned_buffer (mp\<lparr>mp_pinned_remaining := n\<rparr>) = current_pinned_buffer mp"
  "current_pinned_buffer (mp\<lparr>mp_streaming_read_pos := n\<rparr>) = current_pinned_buffer mp"
  "current_pinned_buffer (mp\<lparr>mp_streaming_count := n\<rparr>) = current_pinned_buffer mp"
  "current_pinned_buffer (mp\<lparr>mp_streaming_buffer := b\<rparr>) = current_pinned_buffer mp"
  "current_pinned_buffer (mp\<lparr>mp_segment_offset := n\<rparr>) = current_pinned_buffer mp"
  "current_pinned_buffer (mp\<lparr>mp_state := st\<rparr>) = current_pinned_buffer mp"
  by (simp_all add: current_pinned_size_def current_pinned_buffer_def)

lemma pinned_present_sel [simp]:
  "pinned_present (mp\<lparr>mp_pinned_remaining := n\<rparr>) = pinned_present mp"
  "pinned_present (mp\<lparr>mp_streaming_read_pos := n\<rparr>) = pinned_present mp"
  "pinned_present (mp\<lparr>mp_streaming_count := n\<rparr>) = pinned_present mp"
  "pinned_present (mp\<lparr>mp_streaming_buffer := b\<rparr>) = pinned_present mp"
  "pinned_present (mp\<lparr>mp_segment_offset := n\<rparr>) = pinned_present mp"
  "pinned_present (mp\<lparr>mp_state := st\<rparr>) = pinned_present mp"
  "pinned_present (mp\<lparr>mp_intro_head := b\<rparr>) = pinned_present mp"
  "pinned_present (mp\<lparr>mp_loop_head := b\<rparr>) = pinned_present mp"
  by (simp_all add: pinned_present_def)

text \<open>The bytes of the head that are still to be delivered lie in its buffer.\<close>

lemma pinned_in_bounds:
  assumes "player_ok mp" and "0 < mp_pinned_remaining mp"
  shows "mp_pinned_remaining mp \<le> current_pinned_size mp"
    and "length (current_pinned_buffer mp) = current_pinned_size mp * mp_bytes_per_frame mp"
  using assms by (auto simp: player_ok_def pinned_present_def current_pinned_size_def current_pinned_buffer_def)

lemma player_ok_state [simp]: "player_ok (mp\<lparr>mp_state := st\<rparr>) = player_ok mp"
  by (simp add: player_ok_def)

lemma player_ok_enter: "player_ok mp \<Longrightarrow> player_ok (enter_segment mp sg)"
  by (auto simp: player_ok_def enter_segment_def current_pinned_size_def pinned_present_def)

lemma player_ok_compact:
  assumes "player_ok mp"
  shows "player_ok (compact_buffer mp)"
proof -
  have "(mp_streaming_read_pos mp + mp_streaming_count mp) * mp_bytes_per_frame mp
      \<le> mc_streaming_buffer_samples (mp_cfg mp) * mp_bytes_per_frame mp"
    using assms by (intro mult_le_mono1) (simp add: player_ok_def)
  with assms show ?thesis
    by (simp add: player_ok_def compact_buffer_def Let_def distrib_right)
qed

lemma compact_buffer_sel [simp]:
  "mp_cfg (compact_buffer mp) = mp_cfg mp" "mp_segment (compact_buffer mp) = mp_segment mp"
  "mp_streaming_count (compact_buffer mp) = mp_streaming_count mp"
  "mp_streaming_read_pos (compact_buffer mp) = 0" "mp_state (compact_buffer mp) = mp_state mp"
  "mp_segment_offset (compact_buffer mp) = mp_segment_offset mp"
  "mp_pinned_remaining (compact_buffer mp) = mp_pinned_remaining mp"
  "mp_bytes_per_frame (compact_buffer mp) = mp_bytes_per_frame mp"
  "mp_intro_head (compact_buffer mp) = mp_intro_head mp" "mp_loop_head (compact_buffer mp) = mp_loop_head mp"
  by (simp_all add: compact_buffer_def Let_def)

lemma player_ok_refill:
  assumes "player_ok mp" and "stream_ok f (mp_bytes_per_frame mp)"
    and "refill_streaming_buffer f mp u = (got, mp1, u1)"
  shows "player_ok mp1 \<and> mp_state mp1 = mp_state mp \<and> mp_segment mp1 = mp_segment mp \<and>
    mp_cfg mp1 = mp_cfg mp \<and> mp_bytes_per_frame mp1 = mp_bytes_per_frame mp \<and>
    mp_segment_offset mp1 = mp_segment_offset mp \<and> mp_pinned_remaining mp1 = mp_pinned_remaining mp"
proof -
  define c where "c = compact_buffer mp"
  have c: "player_ok c" using player_ok_compact [OF assms(1)] by (simp add: c_def)
  let ?room = "mc_streaming_buffer_samples (mp_cfg c) - mp_streaming_count c"
  show ?thesis
  proof (cases "?room = 0 \<or> current_segment_stream_id c = MUSIC_STREAM_NONE")
    case True
    then have "mp1 = c" using assms(3)
      by (cases "?room = 0") (simp_all add: refill_streaming_buffer_def Let_def c_def)
    with c show ?thesis by (simp add: c_def)
  next
    case False
    obtain k b u' where f: "f u (current_segment_stream_id c) ?room
        (mp_segment_offset c + mp_pinned_remaining c + mp_streaming_count c) = (k, b, u')"
      by (metis prod_cases3)
    have e: "mp1 = c\<lparr>mp_streaming_buffer := blit (mp_streaming_buffer c)
        (mp_streaming_count c * mp_bytes_per_frame c) b, mp_streaming_count := mp_streaming_count c + k\<rparr>"
      using assms(3) False f by (auto simp: refill_streaming_buffer_def Let_def c_def)
    have kb: "k \<le> ?room" "length b = k * mp_bytes_per_frame c"
      using stream_okD [OF assms(2) f] by (simp_all add: c_def)
    then have "(mp_streaming_count c + k) * mp_bytes_per_frame c
        \<le> mc_streaming_buffer_samples (mp_cfg c) * mp_bytes_per_frame c"
      using False by (intro mult_le_mono1) auto
    then have "length (blit (mp_streaming_buffer c) (mp_streaming_count c * mp_bytes_per_frame c) b) =
        length (mp_streaming_buffer c)"
      using c kb by (intro length_blit) (simp add: player_ok_def distrib_right)
    moreover have "mp_streaming_count c + k \<le> mc_streaming_buffer_samples (mp_cfg c)" using kb False by auto
    ultimately show ?thesis using c unfolding e by (simp add: player_ok_def) (simp add: c_def)
  qed
qed

lemma refill_pass_ok:
  assumes "player_ok mp" and "stream_ok f (mp_bytes_per_frame mp)"
    and "refill_pass f mp u = (z, mp1, u1)"
  shows "player_ok mp1 \<and> mp_state mp1 = mp_state mp \<and> mp_segment mp1 = mp_segment mp \<and>
    mp_cfg mp1 = mp_cfg mp \<and> mp_bytes_per_frame mp1 = mp_bytes_per_frame mp"
proof (cases "mp_streaming_count mp < mc_streaming_buffer_samples (mp_cfg mp) div 2")
  case True
  obtain g mp' u' where r: "refill_streaming_buffer f mp u = (g, mp', u')" by (metis prod_cases3)
  then have "mp1 = mp'" using assms(3) True by (simp add: refill_pass_def Let_def)
  with player_ok_refill [OF assms(1,2) r] show ?thesis by simp
next
  case False
  then show ?thesis using assms by (simp add: refill_pass_def Let_def)
qed

section \<open>The pump\<close>

text \<open>The loop over the streaming buffer makes one pass on a channel that exists.\<close>

lemma push_to_mixer_all:
  "mc_mixer_channel (mp_cfg mp) < length (mx_channels mx) \<Longrightarrow> fst (push_to_mixer mp mx src n) = n"
  by (simp add: push_to_mixer_def mixer_write_channel_def)

lemma pump_stream_done: "\<not> (d < lim \<and> 0 < mp_streaming_count mp) \<Longrightarrow> pump_stream lim d mp mx = (d, mp, mx)"
  by (subst pump_stream.simps) (simp only: if_False)

lemma write_no_frames: "snd (mixer_write_channel mx i src 0) = mx"
proof (cases "i < length (mx_channels mx)")
  case True
  have "(mx_channels mx)[i := (mx_channels mx ! i)\<lparr>ch_rb := ch_rb (mx_channels mx ! i)\<rparr>] = mx_channels mx"
    using True by (simp add: list_update_same_conv)
  then show ?thesis by (simp add: mixer_write_channel_def at_channel_def)
qed (simp add: mixer_write_channel_def)

lemma pump_stream_once:
  fixes lim d :: nat
  assumes "mc_mixer_channel (mp_cfg mp) < length (mx_channels mx)"
  defines "n \<equiv> min (mp_streaming_count mp) (lim - d)"
  shows "pump_stream lim d mp mx = (d + n,
    mp\<lparr>mp_streaming_read_pos := mp_streaming_read_pos mp + n,
       mp_streaming_count := mp_streaming_count mp - n, mp_segment_offset := mp_segment_offset mp + n\<rparr>,
    snd (mixer_write_channel mx (mc_mixer_channel (mp_cfg mp))
           (drop (mp_streaming_read_pos mp * mp_bytes_per_frame mp) (mp_streaming_buffer mp)) n))"
proof (cases "d < lim \<and> 0 < mp_streaming_count mp")
  case True
  let ?mp = "mp\<lparr>mp_streaming_read_pos := mp_streaming_read_pos mp + n,
       mp_streaming_count := mp_streaming_count mp - n, mp_segment_offset := mp_segment_offset mp + n\<rparr>"
  have stop: "\<not> (d + n < lim \<and> 0 < mp_streaming_count ?mp)" using True by (auto simp: n_def)
  show ?thesis
    by (subst pump_stream.simps)
      (simp add: True push_to_mixer_all [OF assms(1)] n_def [symmetric] pump_stream_done [OF stop],
       simp add: push_to_mixer_def)
next
  case False
  then have "n = 0" by (auto simp: n_def)
  then show ?thesis using pump_stream_done [OF False, of mx] by (simp add: write_no_frames)
qed

text \<open>Whatever the channel accepts, the pump keeps the invariant and the mixer's invariant.\<close>

lemma pump_stream_ok:
  assumes "player_ok mp"
  shows "player_ok (fst (snd (pump_stream lim d mp mx))) \<and>
    mp_state (fst (snd (pump_stream lim d mp mx))) = mp_state mp \<and>
    mp_segment (fst (snd (pump_stream lim d mp mx))) = mp_segment mp \<and>
    mp_cfg (fst (snd (pump_stream lim d mp mx))) = mp_cfg mp \<and>
    mp_bytes_per_frame (fst (snd (pump_stream lim d mp mx))) = mp_bytes_per_frame mp"
  using assms
proof (induction lim d mp mx rule: pump_stream.induct)
  case (1 lim d mp mx)
  define n where "n = min (mp_streaming_count mp) (lim - d)"
  define src where "src = drop (mp_streaming_read_pos mp * mp_bytes_per_frame mp) (mp_streaming_buffer mp)"
  define p where "p = fst (push_to_mixer mp mx src n)"
  define mp1 where "mp1 = mp\<lparr>mp_streaming_read_pos := mp_streaming_read_pos mp + p,
    mp_streaming_count := mp_streaming_count mp - p, mp_segment_offset := mp_segment_offset mp + p\<rparr>"
  have "p \<le> n" unfolding p_def by (rule push_to_mixer_le)
  then have p: "p \<le> n" "n \<le> mp_streaming_count mp" by (simp_all add: n_def)
  then have ok: "player_ok mp1" using 1(2) by (simp add: player_ok_def mp1_def)
  have sel: "mp_state mp1 = mp_state mp" "mp_segment mp1 = mp_segment mp" "mp_cfg mp1 = mp_cfg mp"
    "mp_bytes_per_frame mp1 = mp_bytes_per_frame mp" by (simp_all add: mp1_def)
  show ?case
  proof (cases "d < lim \<and> 0 < mp_streaming_count mp")
    case False
    then show ?thesis using 1(2) by (simp add: pump_stream_done)
  next
    case True
    show ?thesis
    proof (cases "p < n")
      case less: True
      then have "pump_stream lim d mp mx = (d + p, mp1, snd (push_to_mixer mp mx src n))"
        by (subst pump_stream.simps)
          (simp add: True Let_def n_def [symmetric] src_def [symmetric] p_def [symmetric] mp1_def)
      then show ?thesis using ok sel by simp
    next
      case ge: False
      then have "pump_stream lim d mp mx = pump_stream lim (d + p) mp1 (snd (push_to_mixer mp mx src n))"
        by (subst pump_stream.simps)
          (simp add: True Let_def n_def [symmetric] src_def [symmetric] p_def [symmetric] mp1_def)
      moreover note 1(1) [OF True n_def src_def p_def refl mp1_def _ ok] ge
      ultimately show ?thesis using sel by simp
    qed
  qed
qed

lemma pump_to_mixer_ok:
  assumes "player_ok mp" and "pump_to_mixer mp mx lim = (k, mp1, mx1)"
  shows "player_ok mp1 \<and> mp_state mp1 = mp_state mp \<and> mp_segment mp1 = mp_segment mp \<and>
    mp_cfg mp1 = mp_cfg mp \<and> mp_bytes_per_frame mp1 = mp_bytes_per_frame mp"
proof (cases "0 < mp_pinned_remaining mp")
  case True
  define n where "n = min (mp_pinned_remaining mp) lim"
  define src where "src = drop ((current_pinned_size mp - mp_pinned_remaining mp) * mp_bytes_per_frame mp)
    (current_pinned_buffer mp)"
  obtain q mx2 where q: "push_to_mixer mp mx src n = (q, mx2)" by fastforce
  have "q \<le> n" using push_to_mixer_le [of mp mx src n] q by simp
  define mp2 where "mp2 = mp\<lparr>mp_pinned_remaining := mp_pinned_remaining mp - q\<rparr>"
  have mp2: "player_ok mp2" using assms(1) by (auto simp: player_ok_def mp2_def)
  have e: "pump_to_mixer mp mx lim = (if q < n then (q, mp2, mx2) else pump_stream lim q mp2 mx2)"
    using True q by (simp add: pump_to_mixer_def Let_def n_def src_def mp2_def)
  show ?thesis
  proof (cases "q < n")
    case True
    then show ?thesis using e assms(2) mp2 by (simp add: mp2_def)
  next
    case False
    then have "pump_stream lim q mp2 mx2 = (k, mp1, mx1)" using e assms(2) by simp
    then show ?thesis using pump_stream_ok [OF mp2, of lim q mx2] by (simp add: mp2_def)
  qed
next
  case False
  then show ?thesis using assms pump_stream_ok [OF assms(1), of lim 0 mx] by (simp add: pump_to_mixer_def)
qed

section \<open>Every operation keeps the invariant\<close>

lemma music_inv_enter_loop:
  "player_ok mp \<Longrightarrow> music_inv ((enter_segment mp SEG_LOOP)\<lparr>mp_state := MUSIC_PLAYING_LOOP\<rparr>)"
  by (simp add: music_inv_def player_ok_enter) (simp add: enter_segment_def)

lemma player_ok_stop: "player_ok mp \<Longrightarrow> music_inv (fst (music_stop mp mx))"
  by (simp add: music_inv_def music_stop_def player_ok_def)

lemma update_passes_ok:
  assumes "music_inv mp" and "mp_segment mp \<noteq> SEG_NONE" and "mp_state mp \<noteq> MUSIC_PAUSED"
    and "stream_ok f (mp_bytes_per_frame mp)"
  shows "music_inv (fst (update_passes n f target (mp, mx, u))) \<and>
    mp_cfg (fst (update_passes n f target (mp, mx, u))) = mp_cfg mp \<and>
    mp_bytes_per_frame (fst (update_passes n f target (mp, mx, u))) = mp_bytes_per_frame mp"
  using assms
proof (induction n arbitrary: mp mx u)
  case 0
  then show ?case by simp
next
  case (Suc n)
  have ok: "player_ok mp" and st: "state_ok (mp_state mp) (mp_segment mp)"
    using Suc.prems(1) by (simp_all add: music_inv_def)
  obtain z mp1 u1 where r: "refill_pass f mp u = (z, mp1, u1)" by (metis prod_cases3)
  note mp1 = refill_pass_ok [OF ok Suc.prems(4) r]
  obtain k mp2 mx2 where q: "pump_to_mixer mp1 mx target = (k, mp2, mx2)" by (metis prod_cases3)
  have "player_ok mp1" using mp1 by simp
  note mp2 = pump_to_mixer_ok [OF this q]
  have e: "update_passes (Suc n) f target (mp, mx, u) =
    (if segment_exhausted mp2 z
     then if mp_segment mp2 = SEG_INTRO \<and> mc_loop_stream_id (mp_cfg mp2) \<noteq> MUSIC_STREAM_NONE
          then update_passes n f target
                 ((enter_segment mp2 SEG_LOOP)\<lparr>mp_state := MUSIC_PLAYING_LOOP\<rparr>, mx2, u1)
          else if mp_segment mp2 = SEG_LOOP
          then update_passes n f target (enter_segment mp2 SEG_LOOP, mx2, u1)
          else (case music_stop mp2 mx2 of (mp3, mx3) \<Rightarrow> (mp3, mx3, u1))
     else (mp2, mx2, u1))"
    by (simp add: r q)
  have enter: "mp_segment (enter_segment mp2 SEG_LOOP) = SEG_LOOP"
    "mp_cfg (enter_segment mp2 SEG_LOOP) = mp_cfg mp2" "mp_state (enter_segment mp2 SEG_LOOP) = mp_state mp2"
    "mp_bytes_per_frame (enter_segment mp2 SEG_LOOP) = mp_bytes_per_frame mp2"
    by (simp_all add: enter_segment_def)
  consider (stay) "\<not> segment_exhausted mp2 z"
    | (loop) "segment_exhausted mp2 z" "mp_segment mp2 = SEG_INTRO \<and> mc_loop_stream_id (mp_cfg mp2) \<noteq> MUSIC_STREAM_NONE"
    | (wrap) "segment_exhausted mp2 z" "mp_segment mp2 = SEG_LOOP"
    | (stop) "segment_exhausted mp2 z" "\<not> (mp_segment mp2 = SEG_INTRO \<and> mc_loop_stream_id (mp_cfg mp2) \<noteq> MUSIC_STREAM_NONE)"
        "mp_segment mp2 \<noteq> SEG_LOOP"
    by blast
  then show ?case
  proof cases
    case stay
    then show ?thesis using mp1 mp2 st unfolding e by (simp add: music_inv_def)
  next
    case loop
    have "player_ok mp2" using mp2 by simp
    note i = music_inv_enter_loop [OF this]
    show ?thesis using Suc.IH [OF i, of mx2 u1] loop mp1 mp2 enter Suc.prems(4) unfolding e by simp
  next
    case wrap
    have ply: "mp_state mp2 = MUSIC_PLAYING_LOOP"
      using wrap mp1 mp2 st Suc.prems(3) by (cases "mp_state mp") auto
    have "music_inv (enter_segment mp2 SEG_LOOP)" using mp2 enter ply by (simp add: music_inv_def player_ok_enter)
    note Suc.IH [OF this, of mx2 u1]
    then show ?thesis using wrap mp1 mp2 enter ply Suc.prems(4) unfolding e by simp
  next
    case stop
    have "player_ok mp2" using mp2 by simp
    note i = player_ok_stop [OF this, of mx2]
    then show ?thesis using stop mp1 mp2 unfolding e by (auto simp: music_stop_def)
  qed
qed

lemma music_update_ok:
  assumes "music_inv mp" and "stream_ok f (mp_bytes_per_frame mp)"
  shows "music_inv (fst (music_update f (mp, mx, u)))"
proof (cases "(mp_state mp \<noteq> MUSIC_PLAYING_INTRO \<and> mp_state mp \<noteq> MUSIC_PLAYING_LOOP) \<or> update_target mp mx = 0")
  case True
  then show ?thesis using assms(1) by (auto simp: music_update_def Let_def)
next
  case False
  then have "mp_segment mp \<noteq> SEG_NONE" "mp_state mp \<noteq> MUSIC_PAUSED"
    using assms(1) by (cases "mp_state mp"; simp add: music_inv_def)+
  note update_passes_ok [OF assms(1) this assms(2), of 2 "update_target mp mx" mx u]
  moreover have "music_update f (mp, mx, u) = update_passes 2 f (update_target mp mx) (mp, mx, u)"
    using False by (auto simp: music_update_def Let_def)
  ultimately show ?thesis by simp
qed

lemma music_control_ok:
  assumes "music_inv mp"
  shows "music_inv (fst (music_play mp mx))" "music_inv (fst (music_stop mp mx))"
    "music_inv (fst (music_pause mp mx))" "music_inv (fst (music_resume mp mx))"
proof -
  have ok: "player_ok mp" and st: "state_ok (mp_state mp) (mp_segment mp)"
    using assms by (simp_all add: music_inv_def)
  show resume: "music_inv (fst (music_resume mp mx))"
    using assms by (cases "mp_segment mp") (auto simp: music_resume_def music_inv_def Let_def)
  show "music_inv (fst (music_stop mp mx))" by (rule player_ok_stop [OF ok])
  show "music_inv (fst (music_pause mp mx))"
    using ok st by (cases "mp_state mp") (auto simp: music_pause_def music_inv_def)
  have "music_inv ((enter_segment mp SEG_INTRO)\<lparr>mp_state := MUSIC_PLAYING_INTRO\<rparr>)"
    using ok by (simp add: music_inv_def player_ok_enter) (simp add: enter_segment_def)
  then show "music_inv (fst (music_play mp mx))"
    using resume assms music_inv_enter_loop [OF ok] by (simp add: music_play_def Let_def)
qed

lemma music_created_ok:
  assumes "music_create_with_allocator cfg sbuf ihead lhead ok = Some mp"
    and "length sbuf = mc_streaming_buffer_samples cfg * source_bytes_per_frame (mc_format cfg)"
    and "mc_has_intro_head cfg \<longrightarrow> length ihead = mc_intro_head_samples cfg * source_bytes_per_frame (mc_format cfg)"
    and "mc_has_loop_head cfg \<longrightarrow> length lhead = mc_loop_head_samples cfg * source_bytes_per_frame (mc_format cfg)"
  shows "music_inv mp"
  using assms by (auto simp: music_create_with_allocator_def music_inv_def player_ok_def fmt_bytes split: if_splits)

lemma prime_head_length:
  assumes "prime_head f sid has hd0 n u = (hd1, ok, u1)" and "stream_ok f bpf"
    and "has \<longrightarrow> length hd0 = n * bpf"
  shows "has \<longrightarrow> length hd1 = n * bpf"
proof (cases "\<not> has \<or> n = 0 \<or> sid = MUSIC_STREAM_NONE")
  case True
  then have "hd1 = hd0" using assms(1) by (auto simp: prime_head_def split: if_splits)
  with assms(3) show ?thesis by simp
next
  case False
  obtain k b u' where f: "f u sid n 0 = (k, b, u')" by (metis prod_cases3)
  then have "hd1 = blit hd0 0 b" using False assms(1) by (auto simp: prime_head_def)
  moreover have "length b \<le> length hd0"
    using stream_okD [OF assms(2) f] assms(3) False by (simp add: mult_le_mono1)
  ultimately show ?thesis using assms(3) False by simp
qed

lemma music_prime_ok:
  assumes "music_inv mp" and "stream_ok f (mp_bytes_per_frame mp)"
  shows "music_inv (fst (snd (music_prime_intro f mp u)))" "music_inv (fst (snd (music_prime_loop f mp u)))"
proof -
  obtain h ok u1 where h: "prime_head f (mc_intro_stream_id (mp_cfg mp)) (mc_has_intro_head (mp_cfg mp))
      (mp_intro_head mp) (mc_intro_head_samples (mp_cfg mp)) u = (h, ok, u1)" by (metis prod_cases3)
  have "mc_has_intro_head (mp_cfg mp) \<longrightarrow> length h = mc_intro_head_samples (mp_cfg mp) * mp_bytes_per_frame mp"
    using assms(1) by (intro prime_head_length [OF h assms(2)]) (simp add: music_inv_def player_ok_def)
  then show "music_inv (fst (snd (music_prime_intro f mp u)))"
    using assms(1) by (auto simp: music_prime_intro_def h music_inv_def player_ok_def current_pinned_buffer_def
        current_pinned_size_def)
  obtain h ok u1 where h: "prime_head f (mc_loop_stream_id (mp_cfg mp)) (mc_has_loop_head (mp_cfg mp))
      (mp_loop_head mp) (mc_loop_head_samples (mp_cfg mp)) u = (h, ok, u1)" by (metis prod_cases3)
  have "mc_has_loop_head (mp_cfg mp) \<longrightarrow> length h = mc_loop_head_samples (mp_cfg mp) * mp_bytes_per_frame mp"
    using assms(1) by (intro prime_head_length [OF h assms(2)]) (simp add: music_inv_def player_ok_def)
  then show "music_inv (fst (snd (music_prime_loop f mp u)))"
    using assms(1) by (auto simp: music_prime_loop_def h music_inv_def player_ok_def current_pinned_buffer_def
        current_pinned_size_def)
qed

end
