(* ===== verification/Music_Props.thy ===== *)
theory Music_Props
  imports Music_Spec
begin

text \<open>
  The order in which the player delivers a segment, the end of a segment, and the properties
  of the player.
\<close>

section \<open>Frames of a byte list\<close>

definition frames_of :: "nat \<Rightarrow> nat \<Rightarrow> nat \<Rightarrow> byte list \<Rightarrow> byte list list" where
  "frames_of fb start n b = map (\<lambda>i. seg ((start + i) * fb) fb b) [0..<n]"

lemma frames_of_drop: "frames_of fb 0 n (drop (k * fb) b) = frames_of fb k n b"
  by (simp add: frames_of_def seg_def distrib_right add.commute)

lemma frames_of_cong:
  assumes "seg (r * fb) (c * fb) b = seg (s * fb) (c * fb) b'" and "n \<le> c"
  shows "frames_of fb r n b = frames_of fb s n b'"
proof -
  have "seg ((r + i) * fb) fb b = seg ((s + i) * fb) fb b'" if "i < n" for i
  proof -
    have "i * fb + fb \<le> c * fb" using that assms(2) by (intro slot_in_bounds) simp
    from seg_seg [OF this, of "r * fb" b] seg_seg [OF this, of "s * fb" b'] assms(1)
    show ?thesis by (simp add: distrib_right)
  qed
  then show ?thesis by (simp add: frames_of_def)
qed

lemma length_frames_of [simp]: "length (frames_of fb s n b) = n"
  by (simp add: frames_of_def)

lemma frames_of_append: "frames_of fb s (m + n) b = frames_of fb s m b @ frames_of fb (s + m) n b"
  by (rule nth_equalityI) (auto simp: frames_of_def nth_append)

lemma push_frames_foldl:
  "push_frames fb n b rb = foldl rb_push rb (frames_of fb 0 n b)"
proof (induction n arbitrary: b rb)
  case 0
  then show ?case by (simp add: frames_of_def)
next
  case (Suc n)
  have "frames_of fb 0 (Suc n) b = take fb b # frames_of fb 0 n (drop fb b)"
    using frames_of_append [of fb 0 1 n b] frames_of_drop [of fb n 1 b]
    by (simp add: frames_of_def seg_def)
  with Suc show ?case by simp
qed

definition channel_items :: "audio_mixer \<Rightarrow> nat \<Rightarrow> byte list list" where
  "channel_items mx i = rb_list (ch_rb (mx_channels mx ! i))"

definition channel_cap :: "audio_mixer \<Rightarrow> nat \<Rightarrow> nat" where
  "channel_cap mx i = rb_capacity (ch_rb (mx_channels mx ! i))"

text \<open>A mixer whose channel \<open>i\<close> takes frames of \<open>fb\<close> bytes.\<close>

definition channel_ready :: "audio_mixer \<Rightarrow> nat \<Rightarrow> nat \<Rightarrow> bool" where
  "channel_ready mx i fb \<longleftrightarrow> mixer_inv mx \<and> i < length (mx_channels mx) \<and>
     source_bytes_per_frame (ch_format (mx_channels mx ! i)) = fb"

lemma write_channel_items:
  assumes mx: "channel_ready mx i fb" and b: "n * fb \<le> length b"
  defines "mx1 \<equiv> snd (mixer_write_channel mx i b n)"
  shows "channel_ready mx1 i fb" and "channel_cap mx1 i = channel_cap mx i"
    and "channel_items mx1 i = drop (length (channel_items mx i) + n - channel_cap mx i)
      (channel_items mx i @ frames_of fb 0 n b)"
proof -
  let ?c = "mx_channels mx ! i"
  have i: "i < length (mx_channels mx)" and inv: "mixer_inv mx"
    and fb: "source_bytes_per_frame (ch_format ?c) = fb"
    using mx by (simp_all add: channel_ready_def)
  have c: "rb_inv (ch_rb ?c)" "rb_element_size (ch_rb ?c) = fb"
    using inv i fb by (auto simp: mixer_inv_def channel_inv_def)
  have c1: "mx_channels mx1 ! i = ?c\<lparr>ch_rb := push_frames fb n b (ch_rb ?c)\<rparr>" "length (mx_channels mx1) = length (mx_channels mx)"
    using i fb by (simp_all add: mx1_def mixer_write_channel_def at_channel_def)
  have el: "\<forall>e \<in> set (frames_of fb 0 n b). length e = rb_element_size (ch_rb ?c)"
  proof
    fix e assume "e \<in> set (frames_of fb 0 n b)"
    then obtain k where k: "k < n" "e = seg (k * fb) fb b" by (auto simp: frames_of_def)
    have "k * fb + fb \<le> n * fb" using k(1) by (rule slot_in_bounds)
    with k b c(2) show "length e = rb_element_size (ch_rb ?c)" by simp
  qed
  have "mixer_inv mx1" unfolding mx1_def using inv fb b by (intro mixer_write_inv) simp_all
  then show "channel_ready mx1 i fb" using i fb by (simp add: channel_ready_def c1)
  show "channel_cap mx1 i = channel_cap mx i"
    by (simp add: channel_cap_def c1 push_frames_foldl)
  show "channel_items mx1 i = drop (length (channel_items mx i) + n - channel_cap mx i)
      (channel_items mx i @ frames_of fb 0 n b)"
    using rbq.items_pushes [OF c(1) el]
    by (simp add: channel_items_def channel_cap_def c1 push_frames_foldl)
qed

section \<open>A faithful stream\<close>

text \<open>The callback serves the bytes of a fixed source per stream, and is short only at its end.\<close>

definition stream_frames :: "(int \<Rightarrow> byte list) \<Rightarrow> nat \<Rightarrow> int \<Rightarrow> nat" where
  "stream_frames src fb sid = length (src sid) div fb"

definition serves :: "'u stream_fn \<Rightarrow> (int \<Rightarrow> byte list) \<Rightarrow> nat \<Rightarrow> bool" where
  "serves f src fb \<longleftrightarrow> (\<forall>u sid n off. let k = min n (stream_frames src fb sid - off) in
     \<exists>u'. f u sid n off = (k, seg (off * fb) (k * fb) (src sid), u'))"

definition buffered_ok :: "(int \<Rightarrow> byte list) \<Rightarrow> music_player \<Rightarrow> bool" where
  "buffered_ok src mp \<longleftrightarrow> player_ok mp \<and> mp_pinned_remaining mp = 0 \<and>
     current_segment_stream_id mp \<noteq> MUSIC_STREAM_NONE \<and>
     (let fb = mp_bytes_per_frame mp; sid = current_segment_stream_id mp in
      mp_segment_offset mp + mp_streaming_count mp \<le> stream_frames src fb sid \<and>
      seg (mp_streaming_read_pos mp * fb) (mp_streaming_count mp * fb) (mp_streaming_buffer mp) =
        seg (mp_segment_offset mp * fb) (mp_streaming_count mp * fb) (src sid))"

lemma serves_ok:
  assumes "serves f src fb" and "0 < fb"
  shows "stream_ok f fb"
  unfolding stream_ok_def
proof (intro allI)
  fix u sid n off
  define k where "k = min n (stream_frames src fb sid - off)"
  obtain u' where "f u sid n off = (k, seg (off * fb) (k * fb) (src sid), u')"
    using assms(1) unfolding serves_def Let_def k_def by blast
  moreover have "k * fb \<le> length (src sid) - off * fb"
  proof -
    have "k * fb \<le> (length (src sid) div fb - off) * fb"
      by (intro mult_le_mono1) (simp add: k_def stream_frames_def)
    also have "\<dots> = length (src sid) div fb * fb - off * fb" by (simp add: diff_mult_distrib)
    also have "\<dots> \<le> length (src sid) - off * fb" by (intro diff_le_mono) simp
    finally show ?thesis .
  qed
  ultimately show "fst (f u sid n off) \<le> n \<and> length (fst (snd (f u sid n off))) = fst (f u sid n off) * fb"
    by (simp add: k_def)
qed

lemma compact_prefix:
  assumes "player_ok mp"
  shows "seg 0 (mp_streaming_count mp * mp_bytes_per_frame mp) (mp_streaming_buffer (compact_buffer mp)) =
    seg (mp_streaming_read_pos mp * mp_bytes_per_frame mp) (mp_streaming_count mp * mp_bytes_per_frame mp)
      (mp_streaming_buffer mp)"
proof -
  let ?fb = "mp_bytes_per_frame mp" and ?r = "mp_streaming_read_pos mp" and ?c = "mp_streaming_count mp"
  let ?b = "mp_streaming_buffer mp"
  have "(?r + ?c) * ?fb \<le> length ?b"
    using assms by (simp add: player_ok_def)
  then have len: "length (seg (?r * ?fb) (?c * ?fb) ?b) = ?c * ?fb" "?c * ?fb \<le> length ?b"
    by (simp_all add: distrib_right)
  show ?thesis
  proof (cases "0 < ?r \<and> 0 < ?c")
    case True
    then show ?thesis
      using len seg_blit_same [of 0 "seg (?r * ?fb) (?c * ?fb) ?b" ?b] by (simp add: compact_buffer_def Let_def)
  next
    case False
    then show ?thesis by (auto simp: compact_buffer_def Let_def seg_def)
  qed
qed

lemma refill_pass_serves:
  assumes ok: "buffered_ok src mp" and srv: "serves f src (mp_bytes_per_frame mp)"
    and r: "refill_pass f mp u = (z, mp1, u1)"
  defines "tot \<equiv> stream_frames src (mp_bytes_per_frame mp) (current_segment_stream_id mp)"
    and "S \<equiv> mc_streaming_buffer_samples (mp_cfg mp)"
  shows "buffered_ok src mp1" and "mp_segment_offset mp1 = mp_segment_offset mp"
    and "mp_streaming_count mp1 = (if mp_streaming_count mp < S div 2
      then min S (tot - mp_segment_offset mp) else mp_streaming_count mp)"
    and "z \<longleftrightarrow> mp_streaming_count mp < S div 2 \<and> mp_segment_offset mp + mp_streaming_count mp = tot"
    and "mp_cfg mp1 = mp_cfg mp \<and> mp_state mp1 = mp_state mp \<and> mp_segment mp1 = mp_segment mp \<and>
      mp_bytes_per_frame mp1 = mp_bytes_per_frame mp"
proof -
  define fb where "fb = mp_bytes_per_frame mp"
  define sid where "sid = current_segment_stream_id mp"
  define off where "off = mp_segment_offset mp"
  define cnt where "cnt = mp_streaming_count mp"
  have p: "player_ok mp" "mp_pinned_remaining mp = 0" "sid \<noteq> MUSIC_STREAM_NONE" "off + cnt \<le> tot"
    "seg (mp_streaming_read_pos mp * fb) (cnt * fb) (mp_streaming_buffer mp) = seg (off * fb) (cnt * fb) (src sid)"
    using ok by (simp_all add: buffered_ok_def Let_def fb_def sid_def off_def cnt_def tot_def)
  have fbpos: "0 < fb" using p(1) by (simp add: player_ok_def fb_def)
  note sel = refill_pass_ok [OF p(1) serves_ok [OF srv fbpos [unfolded fb_def]] r]
  show "mp_cfg mp1 = mp_cfg mp \<and> mp_state mp1 = mp_state mp \<and> mp_segment mp1 = mp_segment mp \<and>
      mp_bytes_per_frame mp1 = mp_bytes_per_frame mp" using sel by simp
  have main: "buffered_ok src mp1 \<and> mp_segment_offset mp1 = off \<and>
    mp_streaming_count mp1 = (if cnt < S div 2 then min S (tot - off) else cnt) \<and>
    (z \<longleftrightarrow> cnt < S div 2 \<and> off + cnt = tot)"
  proof (cases "cnt < S div 2")
    case False
    then have "mp1 = mp \<and> \<not> z" using r by (simp add: refill_pass_def Let_def cnt_def S_def)
    with False ok show ?thesis by (simp add: off_def cnt_def)
  next
    case True
    define c where "c = compact_buffer mp"
    have cok: "player_ok c" using player_ok_compact [OF p(1)] by (simp add: c_def)
    have csid: "current_segment_stream_id c = sid" by (simp add: c_def sid_def current_segment_stream_id_def)
    have room: "S - cnt \<noteq> 0" "cnt < S" using True by auto
    define k where "k = min (S - cnt) (tot - (off + cnt))"
    obtain u' where f: "f u sid (S - cnt) (off + cnt) = (k, seg ((off + cnt) * fb) (k * fb) (src sid), u')"
      using srv unfolding serves_def Let_def k_def tot_def sid_def fb_def by blast
    define b where "b = seg ((off + cnt) * fb) (k * fb) (src sid)"
    define mp' where "mp' = c\<lparr>mp_streaming_buffer := blit (mp_streaming_buffer c) (cnt * fb) b,
      mp_streaming_count := cnt + k\<rparr>"
    have ref: "refill_streaming_buffer f mp u = (k, mp', u')"
      using room p(2,3) csid f
      by (simp add: refill_streaming_buffer_def Let_def c_def [symmetric] S_def [symmetric] mp'_def b_def)
        (simp add: c_def cnt_def off_def fb_def S_def b_def)
    have selm: "mp_streaming_count mp' = cnt + k" "mp_cfg mp' = mp_cfg mp" by (simp_all add: mp'_def c_def)
    have "refill_pass f mp u = (k < S - cnt \<and> k = 0, mp', u')"
      using True by (auto simp: refill_pass_def ref selm Let_def cnt_def [symmetric] S_def [symmetric])
    then have mp1: "mp1 = mp'" and z: "z \<longleftrightarrow> k < S - cnt \<and> k = 0"
      using r by simp_all
    have ok1: "player_ok mp'"
      using player_ok_refill [OF p(1) serves_ok [OF srv fbpos [unfolded fb_def]] ref] by simp
    have lb: "length b = k * fb"
      using stream_okD [OF serves_ok [OF srv [folded fb_def] fbpos] f] by (simp add: b_def)
    have "(cnt + k) * fb \<le> S * fb" using room by (intro mult_le_mono1) (simp add: k_def)
    then have fit: "cnt * fb + length b \<le> length (mp_streaming_buffer c)"
      using cok lb by (simp add: player_ok_def c_def S_def fb_def distrib_right)
    have "seg 0 ((cnt + k) * fb) (mp_streaming_buffer mp') =
        seg 0 (cnt * fb) (mp_streaming_buffer mp') @ seg (cnt * fb) (k * fb) (mp_streaming_buffer mp')"
      by (simp add: distrib_right seg_append_split)
    also have "seg (cnt * fb) (k * fb) (mp_streaming_buffer mp') = b"
      using seg_blit_same [OF fit] lb by (simp add: mp'_def)
    also have "seg 0 (cnt * fb) (mp_streaming_buffer mp') = seg 0 (cnt * fb) (mp_streaming_buffer c)"
      using seg_blit_disjoint [OF fit, of 0 "cnt * fb"] by (simp add: mp'_def)
    also have "\<dots> = seg (off * fb) (cnt * fb) (src sid)"
      using compact_prefix [OF p(1)] p(5) by (simp add: c_def cnt_def fb_def)
    finally have content: "seg 0 ((cnt + k) * fb) (mp_streaming_buffer mp') = seg (off * fb) ((cnt + k) * fb) (src sid)"
      by (simp add: b_def distrib_right seg_append_split add.commute)
    have sel': "mp_segment_offset mp' = off" "mp_pinned_remaining mp' = 0" "mp_streaming_count mp' = cnt + k"
      "mp_streaming_read_pos mp' = 0" "mp_bytes_per_frame mp' = fb" "current_segment_stream_id mp' = sid"
      using p(2) by (simp_all add: mp'_def c_def off_def fb_def sid_def current_segment_stream_id_def)
    have "off + (cnt + k) \<le> tot" using p(4) by (simp add: k_def)
    then have "buffered_ok src mp'"
      using ok1 content p(3) sel' by (simp add: buffered_ok_def Let_def tot_def sid_def fb_def)
    moreover have "cnt + k = min S (tot - off)" using room p(4) by (auto simp: k_def)
    moreover have "(k < S - cnt \<and> k = 0) \<longleftrightarrow> off + cnt = tot" using room p(4) by (auto simp: k_def)
    ultimately show ?thesis using sel' True by (simp add: mp1 z)
  qed
  then show "buffered_ok src mp1" "mp_segment_offset mp1 = mp_segment_offset mp"
    "mp_streaming_count mp1 = (if mp_streaming_count mp < S div 2
      then min S (tot - mp_segment_offset mp) else mp_streaming_count mp)"
    "z \<longleftrightarrow> mp_streaming_count mp < S div 2 \<and> mp_segment_offset mp + mp_streaming_count mp = tot"
    by (simp_all add: off_def cnt_def)
qed

lemma pump_serves:
  assumes ok: "buffered_ok src mp"
    and mx: "channel_ready mx i (mp_bytes_per_frame mp)" "i = mc_mixer_channel (mp_cfg mp)"
    and p: "pump_to_mixer mp mx lim = (k, mp1, mx1)"
  shows "k = min (mp_streaming_count mp) lim" and "buffered_ok src mp1"
    and "mp_segment_offset mp1 = mp_segment_offset mp + k" and "mp_streaming_count mp1 = mp_streaming_count mp - k"
    and "channel_ready mx1 i (mp_bytes_per_frame mp)" and "channel_cap mx1 i = channel_cap mx i"
    and "channel_items mx1 i = drop (length (channel_items mx i) + k - channel_cap mx i)
      (channel_items mx i @ frames_of (mp_bytes_per_frame mp) (mp_segment_offset mp) k (src (current_segment_stream_id mp)))"
    and "mp_cfg mp1 = mp_cfg mp \<and> mp_state mp1 = mp_state mp \<and> mp_segment mp1 = mp_segment mp \<and>
      mp_bytes_per_frame mp1 = mp_bytes_per_frame mp"
proof -
  define fb where "fb = mp_bytes_per_frame mp"
  define sid where "sid = current_segment_stream_id mp"
  define n where "n = min (mp_streaming_count mp) lim"
  have b: "player_ok mp" "mp_pinned_remaining mp = 0" "sid \<noteq> MUSIC_STREAM_NONE"
    "mp_segment_offset mp + mp_streaming_count mp \<le> stream_frames src fb sid"
    "seg (mp_streaming_read_pos mp * fb) (mp_streaming_count mp * fb) (mp_streaming_buffer mp) =
       seg (mp_segment_offset mp * fb) (mp_streaming_count mp * fb) (src sid)"
    using ok by (simp_all add: buffered_ok_def Let_def fb_def sid_def)
  have nn: "n \<le> mp_streaming_count mp" by (simp add: n_def)
  let ?src = "drop (mp_streaming_read_pos mp * fb) (mp_streaming_buffer mp)"
  have i: "mc_mixer_channel (mp_cfg mp) < length (mx_channels mx)" using mx by (simp add: channel_ready_def)
  have e: "k = n" "mp1 = mp\<lparr>mp_streaming_read_pos := mp_streaming_read_pos mp + n,
      mp_streaming_count := mp_streaming_count mp - n, mp_segment_offset := mp_segment_offset mp + n\<rparr>"
    "mx1 = snd (mixer_write_channel mx i ?src n)"
  proof -
    have "pump_stream lim 0 mp mx = (k, mp1, mx1)" using p b(2) by (simp add: pump_to_mixer_def)
    note this [unfolded pump_stream_once [OF i]]
    then show "k = n" "mp1 = mp\<lparr>mp_streaming_read_pos := mp_streaming_read_pos mp + n,
        mp_streaming_count := mp_streaming_count mp - n, mp_segment_offset := mp_segment_offset mp + n\<rparr>"
      "mx1 = snd (mixer_write_channel mx i ?src n)"
      by (auto simp: n_def fb_def mx(2))
  qed
  show "k = min (mp_streaming_count mp) lim" using e by (simp add: n_def)
  show "mp_segment_offset mp1 = mp_segment_offset mp + k" "mp_streaming_count mp1 = mp_streaming_count mp - k"
    "mp_cfg mp1 = mp_cfg mp \<and> mp_state mp1 = mp_state mp \<and> mp_segment mp1 = mp_segment mp \<and>
      mp_bytes_per_frame mp1 = mp_bytes_per_frame mp"
    by (simp_all add: e)
  have "(mp_streaming_read_pos mp + mp_streaming_count mp) * fb \<le> length (mp_streaming_buffer mp)"
    using b(1) by (simp add: player_ok_def fb_def)
  moreover have "(mp_streaming_read_pos mp + n) * fb \<le> (mp_streaming_read_pos mp + mp_streaming_count mp) * fb"
    using nn by (intro mult_le_mono1) simp
  ultimately have "(mp_streaming_read_pos mp + n) * fb \<le> length (mp_streaming_buffer mp)" by (rule le_trans [rotated])
  then have len: "n * fb \<le> length ?src" by (simp add: distrib_right)
  note w = write_channel_items [OF mx(1) [folded fb_def] len]
  show "channel_ready mx1 i (mp_bytes_per_frame mp)" "channel_cap mx1 i = channel_cap mx i"
    using w by (simp_all add: e fb_def)
  have "frames_of fb 0 n ?src = frames_of fb (mp_streaming_read_pos mp) n (mp_streaming_buffer mp)"
    by (rule frames_of_drop)
  also have "\<dots> = frames_of fb (mp_segment_offset mp) n (src sid)" using b(5) nn by (rule frames_of_cong)
  finally show "channel_items mx1 i = drop (length (channel_items mx i) + k - channel_cap mx i)
      (channel_items mx i @ frames_of (mp_bytes_per_frame mp) (mp_segment_offset mp) k (src (current_segment_stream_id mp)))"
    using w(3) by (simp add: e fb_def sid_def)
  have "seg ((mp_streaming_read_pos mp + n) * fb) ((mp_streaming_count mp - n) * fb) (mp_streaming_buffer mp) =
      seg ((mp_segment_offset mp + n) * fb) ((mp_streaming_count mp - n) * fb) (src sid)"
  proof -
    have le: "n * fb + (mp_streaming_count mp - n) * fb \<le> mp_streaming_count mp * fb"
      using nn by (simp flip: add_mult_distrib)
    from seg_seg [OF le, of "mp_streaming_read_pos mp * fb" "mp_streaming_buffer mp"]
      seg_seg [OF le, of "mp_segment_offset mp * fb" "src sid"] b(5)
    show ?thesis by (simp add: distrib_right)
  qed
  moreover have "player_ok mp1" using b(1) nn by (simp add: player_ok_def e)
  moreover have "current_segment_stream_id mp1 = sid" by (simp add: e sid_def current_segment_stream_id_def)
  moreover have "mp_pinned_remaining mp1 = 0" "mp_bytes_per_frame mp1 = fb"
    "mp_segment_offset mp1 = mp_segment_offset mp + n" "mp_streaming_count mp1 = mp_streaming_count mp - n"
    "mp_streaming_read_pos mp1 = mp_streaming_read_pos mp + n" "mp_streaming_buffer mp1 = mp_streaming_buffer mp"
    using b(2) by (simp_all add: e fb_def)
  ultimately show "buffered_ok src mp1"
    using b(3,4) nn by (simp add: buffered_ok_def Let_def)
qed

section \<open>One update\<close>

lemma update_target_le:
  assumes "i = mc_mixer_channel (mp_cfg mp)" and "i < length (mx_channels mx)"
  shows "update_target mp mx \<le> channel_cap mx i - length (channel_items mx i)"
    and "update_target mp mx \<le> mc_streaming_buffer_samples (mp_cfg mp)"
proof -
  have c: "mixer_channel_capacity mx (mc_mixer_channel (mp_cfg mp)) = channel_cap mx i"
      "mixer_channel_buffered mx (mc_mixer_channel (mp_cfg mp)) = length (channel_items mx i)"
    using assms by (simp_all add: mixer_channel_capacity_def mixer_channel_buffered_def channel_cap_def
        channel_items_def)
  show "update_target mp mx \<le> channel_cap mx i - length (channel_items mx i)"
    "update_target mp mx \<le> mc_streaming_buffer_samples (mp_cfg mp)"
    unfolding update_target_def Let_def c by auto
qed

lemma first_pass:
  assumes ok: "buffered_ok src mp" and srv: "serves f src (mp_bytes_per_frame mp)"
    and mx: "channel_ready mx i (mp_bytes_per_frame mp)" "i = mc_mixer_channel (mp_cfg mp)"
  defines "tot \<equiv> stream_frames src (mp_bytes_per_frame mp) (current_segment_stream_id mp)"
    and "S \<equiv> mc_streaming_buffer_samples (mp_cfg mp)"
  obtains z mp1 u1 k mp2 mx2 where
    "refill_pass f mp u = (z, mp1, u1)" "pump_to_mixer mp1 mx target = (k, mp2, mx2)"
    "buffered_ok src mp2" "mp_segment_offset mp2 = mp_segment_offset mp + k"
    "k = min (if mp_streaming_count mp < S div 2 then min S (tot - mp_segment_offset mp) else mp_streaming_count mp) target"
    "mp_streaming_count mp2 = (if mp_streaming_count mp < S div 2 then min S (tot - mp_segment_offset mp)
       else mp_streaming_count mp) - k"
    "z \<longleftrightarrow> mp_streaming_count mp < S div 2 \<and> mp_segment_offset mp + mp_streaming_count mp = tot"
    "channel_ready mx2 i (mp_bytes_per_frame mp)" "channel_cap mx2 i = channel_cap mx i"
    "channel_items mx2 i = drop (length (channel_items mx i) + k - channel_cap mx i)
      (channel_items mx i @ frames_of (mp_bytes_per_frame mp) (mp_segment_offset mp) k (src (current_segment_stream_id mp)))"
    "mp_cfg mp2 = mp_cfg mp" "mp_state mp2 = mp_state mp" "mp_segment mp2 = mp_segment mp"
    "mp_bytes_per_frame mp2 = mp_bytes_per_frame mp"
proof -
  obtain z mp1 u1 where r: "refill_pass f mp u = (z, mp1, u1)" by (metis prod_cases3)
  note r1 = refill_pass_serves [OF ok srv r, folded tot_def S_def]
  obtain k mp2 mx2 where q: "pump_to_mixer mp1 mx target = (k, mp2, mx2)" by (metis prod_cases3)
  have mx1: "channel_ready mx i (mp_bytes_per_frame mp1)" "i = mc_mixer_channel (mp_cfg mp1)"
    and sid: "current_segment_stream_id mp1 = current_segment_stream_id mp"
    using mx r1(5) by (simp_all add: current_segment_stream_id_def)
  note p1 = pump_serves [OF r1(1) mx1 q]
  have bpf: "mp_bytes_per_frame mp1 = mp_bytes_per_frame mp" using r1(5) by (elim conjE)
  show ?thesis
  proof (rule that [OF r q p1(2)])
    show "mp_segment_offset mp2 = mp_segment_offset mp + k" using p1(3) unfolding r1(2) .
    show "k = min (if mp_streaming_count mp < S div 2 then min S (tot - mp_segment_offset mp) else mp_streaming_count mp) target"
      using p1(1) unfolding r1(3) .
    show "mp_streaming_count mp2 = (if mp_streaming_count mp < S div 2 then min S (tot - mp_segment_offset mp)
       else mp_streaming_count mp) - k" using p1(4) unfolding r1(3) .
    show "z \<longleftrightarrow> mp_streaming_count mp < S div 2 \<and> mp_segment_offset mp + mp_streaming_count mp = tot" by (rule r1(4))
    show "channel_ready mx2 i (mp_bytes_per_frame mp)" using p1(5) unfolding bpf .
    show "channel_cap mx2 i = channel_cap mx i" by (rule p1(6))
    show "channel_items mx2 i = drop (length (channel_items mx i) + k - channel_cap mx i)
      (channel_items mx i @ frames_of (mp_bytes_per_frame mp) (mp_segment_offset mp) k (src (current_segment_stream_id mp)))"
      using p1(7) unfolding bpf sid r1(2) .
    show "mp_cfg mp2 = mp_cfg mp" "mp_state mp2 = mp_state mp" "mp_segment mp2 = mp_segment mp"
      "mp_bytes_per_frame mp2 = mp_bytes_per_frame mp"
      using r1(5) p1(8) by (metis)+
  qed
qed

lemma update_plays:
  assumes "mp_state mp = MUSIC_PLAYING_INTRO \<or> mp_state mp = MUSIC_PLAYING_LOOP"
  shows "music_update f (mp, mx, u) =
    (if update_target mp mx = 0 then (mp, mx, u) else update_passes 2 f (update_target mp mx) (mp, mx, u))"
  using assms by (auto simp: music_update_def Let_def)

text \<open>Far from the end of the segment, an update appends the next frames of it.\<close>

lemma update_appends:
  assumes ok: "buffered_ok src mp" and srv: "serves f src (mp_bytes_per_frame mp)"
    and mx: "channel_ready mx i (mp_bytes_per_frame mp)" "i = mc_mixer_channel (mp_cfg mp)"
    and ply: "mp_state mp = MUSIC_PLAYING_INTRO \<or> mp_state mp = MUSIC_PLAYING_LOOP"
    and far: "mp_segment_offset mp + mc_streaming_buffer_samples (mp_cfg mp)
      < stream_frames src (mp_bytes_per_frame mp) (current_segment_stream_id mp)"
    and upd: "music_update f (mp, mx, u) = (mp', mx', u')"
  shows "\<exists>k. mp_segment_offset mp' = mp_segment_offset mp + k \<and> buffered_ok src mp' \<and>
      mp_state mp' = mp_state mp \<and> mp_segment mp' = mp_segment mp \<and>
      channel_items mx' i = channel_items mx i @
        frames_of (mp_bytes_per_frame mp) (mp_segment_offset mp) k (src (current_segment_stream_id mp)) \<and>
      length (channel_items mx' i) \<le> channel_cap mx' i \<and> channel_ready mx' i (mp_bytes_per_frame mp') \<and>
      k = min (if mp_streaming_count mp < mc_streaming_buffer_samples (mp_cfg mp) div 2
               then mc_streaming_buffer_samples (mp_cfg mp) else mp_streaming_count mp) (update_target mp mx) \<and>
      (1 < mc_streaming_buffer_samples (mp_cfg mp) \<and> 0 < update_target mp mx \<longrightarrow> 0 < k)"
proof (cases "update_target mp mx = 0")
  case True
  then have "mp' = mp" "mx' = mx" using upd ply by (simp_all add: update_plays)
  moreover have "length (channel_items mx i) \<le> channel_cap mx i"
    using mx(1) by (auto simp: channel_ready_def mixer_inv_def channel_inv_def rb_inv_def channel_items_def channel_cap_def)
  ultimately show ?thesis using ok mx(1) True by (intro exI [of _ 0]) (simp add: frames_of_def)
next
  case False
  define t where "t = update_target mp mx"
  define S where "S = mc_streaming_buffer_samples (mp_cfg mp)"
  have i: "i < length (mx_channels mx)" using mx(1) by (simp add: channel_ready_def)
  note tl = update_target_le [OF mx(2) i, folded t_def S_def]
  have e: "update_passes 2 f t (mp, mx, u) = (mp', mx', u')" using upd ply False by (simp add: update_plays t_def)
  obtain z mp1 u1 k mp2 mx2 where f1: "refill_pass f mp u = (z, mp1, u1)" "pump_to_mixer mp1 mx t = (k, mp2, mx2)"
    "buffered_ok src mp2" "mp_segment_offset mp2 = mp_segment_offset mp + k"
    "k = min (if mp_streaming_count mp < S div 2 then min S (stream_frames src (mp_bytes_per_frame mp)
        (current_segment_stream_id mp) - mp_segment_offset mp) else mp_streaming_count mp) t"
    "mp_streaming_count mp2 = (if mp_streaming_count mp < S div 2 then min S (stream_frames src (mp_bytes_per_frame mp)
        (current_segment_stream_id mp) - mp_segment_offset mp) else mp_streaming_count mp) - k"
    "z \<longleftrightarrow> mp_streaming_count mp < S div 2 \<and> mp_segment_offset mp + mp_streaming_count mp =
       stream_frames src (mp_bytes_per_frame mp) (current_segment_stream_id mp)"
    "channel_ready mx2 i (mp_bytes_per_frame mp)" "channel_cap mx2 i = channel_cap mx i"
    "channel_items mx2 i = drop (length (channel_items mx i) + k - channel_cap mx i)
      (channel_items mx i @ frames_of (mp_bytes_per_frame mp) (mp_segment_offset mp) k (src (current_segment_stream_id mp)))"
    "mp_cfg mp2 = mp_cfg mp" "mp_state mp2 = mp_state mp" "mp_segment mp2 = mp_segment mp"
    "mp_bytes_per_frame mp2 = mp_bytes_per_frame mp"
    using first_pass [OF ok srv mx, folded S_def, of u t] by metis
  have "mp_streaming_count mp \<le> S" using ok by (simp add: buffered_ok_def player_ok_def S_def)
  then have "\<not> z" using f1(7) far by (auto simp: S_def)
  then have r: "mp' = mp2" "mx' = mx2"
    using e f1(1,2) by (simp_all add: numeral_2_eq_2 segment_exhausted_def)
  have kt: "k \<le> t" using f1(5) by simp
  then have fit: "length (channel_items mx i) + k - channel_cap mx i = 0"
    using tl(1) False by (simp add: t_def)
  have "0 < k" if "1 < S"
  proof -
    have "0 < t" using False by (simp add: t_def)
    moreover have "0 < stream_frames src (mp_bytes_per_frame mp) (current_segment_stream_id mp) - mp_segment_offset mp"
      using far by simp
    ultimately show ?thesis using that f1(5) by auto
  qed
  moreover have "length (channel_items mx2 i) \<le> channel_cap mx2 i"
    using f1(8) by (auto simp: channel_ready_def mixer_inv_def channel_inv_def rb_inv_def channel_items_def channel_cap_def)
  moreover have "k = min (if mp_streaming_count mp < S div 2 then S else mp_streaming_count mp) t"
    using f1(5) far by (simp add: S_def)
  ultimately show ?thesis using f1(3,4,8,10,12,13,14) fit by (intro exI [of _ k]) (simp add: r S_def t_def)
qed

text \<open>
  With a staging buffer of one frame, which the configuration check accepts, half of the buffer is
  nothing: it is never refilled, and an update moves nothing however much room the channel has.
\<close>

lemma one_frame_buffer_starves:
  assumes "buffered_ok src mp" and "serves f src (mp_bytes_per_frame mp)"
    and "channel_ready mx (mc_mixer_channel (mp_cfg mp)) (mp_bytes_per_frame mp)"
    and "mp_state mp = MUSIC_PLAYING_INTRO \<or> mp_state mp = MUSIC_PLAYING_LOOP"
    and "mp_segment_offset mp + 1 < stream_frames src (mp_bytes_per_frame mp) (current_segment_stream_id mp)"
    and "mc_streaming_buffer_samples (mp_cfg mp) = 1" and "mp_streaming_count mp = 0"
    and "music_update f (mp, mx, u) = (mp', mx', u')"
  shows "mp_segment_offset mp' = mp_segment_offset mp \<and>
    channel_items mx' (mc_mixer_channel (mp_cfg mp)) = channel_items mx (mc_mixer_channel (mp_cfg mp))"
  using update_appends [OF assms(1-3) refl assms(4) _ assms(8)] assms(5-7) by (auto simp: frames_of_def)

text \<open>
  At the end of the loop: when the last \<open>k\<close> buffered frames of it are moved in the same update
  that starts it again, the update moves \<open>k\<close> frames more than the channel has room for.
\<close>

lemma update_wraps:
  assumes ok: "buffered_ok src mp" and srv: "serves f src (mp_bytes_per_frame mp)"
    and mx: "channel_ready mx i (mp_bytes_per_frame mp)" "i = mc_mixer_channel (mp_cfg mp)"
    and st: "mp_state mp = MUSIC_PLAYING_LOOP" "mp_segment mp = SEG_LOOP" "\<not> mc_has_loop_head (mp_cfg mp)"
    and k: "0 < mp_streaming_count mp" "mp_streaming_count mp < mc_streaming_buffer_samples (mp_cfg mp) div 2"
      "mp_segment_offset mp + mp_streaming_count mp =
        stream_frames src (mp_bytes_per_frame mp) (mc_loop_stream_id (mp_cfg mp))"
    and t: "update_target mp mx = channel_cap mx i - length (channel_items mx i)"
      "mp_streaming_count mp \<le> update_target mp mx"
      "update_target mp mx \<le> stream_frames src (mp_bytes_per_frame mp) (mc_loop_stream_id (mp_cfg mp))"
    and upd: "music_update f (mp, mx, u) = (mp', mx', u')"
  shows "channel_items mx' i = drop (mp_streaming_count mp) (channel_items mx i @
      frames_of (mp_bytes_per_frame mp) (mp_segment_offset mp) (mp_streaming_count mp) (src (mc_loop_stream_id (mp_cfg mp))) @
      frames_of (mp_bytes_per_frame mp) 0 (update_target mp mx) (src (mc_loop_stream_id (mp_cfg mp))))"
proof -
  define fb where "fb = mp_bytes_per_frame mp"
  define sid where "sid = mc_loop_stream_id (mp_cfg mp)"
  define c where "c = mp_streaming_count mp"
  define tgt where "tgt = update_target mp mx"
  define S where "S = mc_streaming_buffer_samples (mp_cfg mp)"
  have cur: "current_segment_stream_id mp = sid" using st by (simp add: current_segment_stream_id_def sid_def)
  have i: "i < length (mx_channels mx)" using mx(1) by (simp add: channel_ready_def)
  note tl = update_target_le [OF mx(2) i, folded tgt_def S_def]
  have tpos: "tgt \<noteq> 0" using t(2) k(1) by (simp add: tgt_def)
  have e: "update_passes 2 f tgt (mp, mx, u) = (mp', mx', u')"
    using upd st(1) tpos by (simp add: update_plays tgt_def)
  have kk: "0 < c" "c < S div 2" "mp_segment_offset mp + c = stream_frames src fb sid" "c \<le> tgt"
    "tgt \<le> stream_frames src fb sid" "tgt \<le> S"
    using k t tl by (simp_all add: c_def S_def fb_def sid_def tgt_def)
  have full: "length (channel_items mx i) \<le> channel_cap mx i"
    using mx(1) by (auto simp: channel_ready_def mixer_inv_def channel_inv_def rb_inv_def channel_items_def channel_cap_def)
  obtain z mp1 u1 n mp2 mx2 where f1: "refill_pass f mp u = (z, mp1, u1)" "pump_to_mixer mp1 mx tgt = (n, mp2, mx2)"
    "buffered_ok src mp2" "mp_segment_offset mp2 = mp_segment_offset mp + n"
    "n = min (if c < S div 2 then min S (stream_frames src fb sid - mp_segment_offset mp) else c) tgt"
    "mp_streaming_count mp2 = (if c < S div 2 then min S (stream_frames src fb sid - mp_segment_offset mp) else c) - n"
    "z \<longleftrightarrow> c < S div 2 \<and> mp_segment_offset mp + c = stream_frames src fb sid"
    "channel_ready mx2 i fb" "channel_cap mx2 i = channel_cap mx i"
    "channel_items mx2 i = drop (length (channel_items mx i) + n - channel_cap mx i)
      (channel_items mx i @ frames_of fb (mp_segment_offset mp) n (src sid))"
    "mp_cfg mp2 = mp_cfg mp" "mp_state mp2 = mp_state mp" "mp_segment mp2 = mp_segment mp"
    "mp_bytes_per_frame mp2 = fb"
    using first_pass [OF ok srv mx, folded S_def c_def fb_def, unfolded cur, of u tgt] by metis
  have sc: "stream_frames src fb sid - mp_segment_offset mp = c" using kk(3) by simp
  have n: "n = c" "mp_streaming_count mp2 = 0" "z" using f1(5,6,7) kk sc by auto
  have pin: "mp_pinned_remaining mp2 = 0" using f1(3) by (simp add: buffered_ok_def)
  define mp3 where "mp3 = enter_segment mp2 SEG_LOOP"
  have e2: "update_passes (Suc 0) f tgt (mp3, mx2, u1) = (mp', mx', u')"
    using e f1(1,2,13) n pin st by (simp add: numeral_2_eq_2 segment_exhausted_def mp3_def)
  have m3: "mp_cfg mp3 = mp_cfg mp" "mp_bytes_per_frame mp3 = fb" "mp_segment mp3 = SEG_LOOP"
    "mp_segment_offset mp3 = 0" "mp_streaming_count mp3 = 0" "mp_pinned_remaining mp3 = 0"
    using st(3) f1(11,14) by (simp_all add: mp3_def enter_segment_def)
  then have cur3: "current_segment_stream_id mp3 = sid" by (simp add: current_segment_stream_id_def sid_def)
  have "sid \<noteq> MUSIC_STREAM_NONE" using ok by (simp add: buffered_ok_def cur)
  then have ok3: "buffered_ok src mp3"
    using f1(3) m3 cur3 player_ok_enter [of mp2 SEG_LOOP]
    by (simp add: buffered_ok_def mp3_def [symmetric] Let_def seg_def)
  have i3: "i = mc_mixer_channel (mp_cfg mp3)" using mx(2) m3(1) by simp
  obtain z' mp4 u4 n' mp5 mx5 where f2: "refill_pass f mp3 u1 = (z', mp4, u4)" "pump_to_mixer mp4 mx2 tgt = (n', mp5, mx5)"
    "n' = min (if mp_streaming_count mp3 < S div 2 then min S (stream_frames src fb sid - mp_segment_offset mp3)
       else mp_streaming_count mp3) tgt"
    "z' \<longleftrightarrow> mp_streaming_count mp3 < S div 2 \<and> mp_segment_offset mp3 + mp_streaming_count mp3 = stream_frames src fb sid"
    "channel_items mx5 i = drop (length (channel_items mx2 i) + n' - channel_cap mx2 i)
      (channel_items mx2 i @ frames_of fb (mp_segment_offset mp3) n' (src sid))"
    using first_pass [OF ok3 srv [folded fb_def, folded m3(2)] f1(8) [folded m3(2)] i3, of u1 tgt,
        unfolded m3(1,2) cur3, folded S_def] by metis
  have n': "n' = tgt" "\<not> z'" using f2(3,4) kk m3(4,5) by auto
  have mx': "mx' = mx5" using e2 f2(1,2) n'(2) by (simp add: segment_exhausted_def)
  have room: "tgt = channel_cap mx i - length (channel_items mx i)" using t(1) by (simp add: tgt_def)
  have it2: "channel_items mx2 i = channel_items mx i @ frames_of fb (mp_segment_offset mp) c (src sid)"
    using f1(10) n(1) kk(4) room full by simp
  have "length (channel_items mx2 i) + tgt - channel_cap mx2 i = c"
    using it2 room full f1(9) tpos by simp
  then show ?thesis
    using f2(5) n' m3(4) it2 by (simp add: mx' c_def fb_def sid_def tgt_def)
qed

section \<open>Reachable players\<close>

inductive music_reach :: "'u stream_fn \<Rightarrow> music_player \<Rightarrow> audio_mixer \<Rightarrow> 'u \<Rightarrow> bool" for f where
  created: "music_create_with_allocator cfg sbuf ihead lhead ok = Some mp \<Longrightarrow>
    length sbuf = mc_streaming_buffer_samples cfg * source_bytes_per_frame (mc_format cfg) \<Longrightarrow>
    (mc_has_intro_head cfg \<longrightarrow> length ihead = mc_intro_head_samples cfg * source_bytes_per_frame (mc_format cfg)) \<Longrightarrow>
    (mc_has_loop_head cfg \<longrightarrow> length lhead = mc_loop_head_samples cfg * source_bytes_per_frame (mc_format cfg)) \<Longrightarrow>
    stream_ok f (source_bytes_per_frame (mc_format cfg)) \<Longrightarrow> music_reach f mp mx u"
| prime_intro: "music_reach f mp mx u \<Longrightarrow> music_prime_intro f mp u = (ok, mp', u') \<Longrightarrow> music_reach f mp' mx u'"
| prime_loop: "music_reach f mp mx u \<Longrightarrow> music_prime_loop f mp u = (ok, mp', u') \<Longrightarrow> music_reach f mp' mx u'"
| play: "music_reach f mp mx u \<Longrightarrow> music_play mp mx = (mp', mx') \<Longrightarrow> music_reach f mp' mx' u"
| stop: "music_reach f mp mx u \<Longrightarrow> music_stop mp mx = (mp', mx') \<Longrightarrow> music_reach f mp' mx' u"
| pause: "music_reach f mp mx u \<Longrightarrow> music_pause mp mx = (mp', mx') \<Longrightarrow> music_reach f mp' mx' u"
| resume: "music_reach f mp mx u \<Longrightarrow> music_resume mp mx = (mp', mx') \<Longrightarrow> music_reach f mp' mx' u"
| update: "music_reach f mp mx u \<Longrightarrow> music_update f (mp, mx, u) = (mp', mx', u') \<Longrightarrow> music_reach f mp' mx' u'"
| mixer_moves: "music_reach f mp mx u \<Longrightarrow> music_reach f mp mx' u"

lemma control_bpf:
  "mp_bytes_per_frame (fst (music_play mp mx)) = mp_bytes_per_frame mp"
  "mp_bytes_per_frame (fst (music_stop mp mx)) = mp_bytes_per_frame mp"
  "mp_bytes_per_frame (fst (music_pause mp mx)) = mp_bytes_per_frame mp"
  "mp_bytes_per_frame (fst (music_resume mp mx)) = mp_bytes_per_frame mp"
  by (simp_all add: music_play_def music_stop_def music_pause_def music_resume_def enter_segment_def Let_def)

lemma prime_bpf:
  "mp_bytes_per_frame (fst (snd (music_prime_intro f mp u))) = mp_bytes_per_frame mp"
  "mp_bytes_per_frame (fst (snd (music_prime_loop f mp u))) = mp_bytes_per_frame mp"
  by (simp_all add: music_prime_intro_def music_prime_loop_def split: prod.splits)

lemma update_bpf:
  assumes "music_inv mp" and "stream_ok f (mp_bytes_per_frame mp)"
  shows "mp_bytes_per_frame (fst (music_update f (mp, mx, u))) = mp_bytes_per_frame mp"
proof (cases "mp_state mp = MUSIC_PLAYING_INTRO \<or> mp_state mp = MUSIC_PLAYING_LOOP")
  case True
  then have "mp_segment mp \<noteq> SEG_NONE" "mp_state mp \<noteq> MUSIC_PAUSED"
    using assms(1) by (auto simp: music_inv_def)
  from update_passes_ok [OF assms(1) this assms(2)] True show ?thesis by (simp add: update_plays)
next
  case False
  then show ?thesis by (simp add: music_update_def)
qed

lemma music_reach_ok:
  assumes "music_reach f mp mx u"
  shows "music_inv mp \<and> stream_ok f (mp_bytes_per_frame mp)"
  using assms
proof (induction rule: music_reach.induct)
  case (created cfg sbuf ihead lhead ok mp mx u)
  moreover from this have "mp_bytes_per_frame mp = source_bytes_per_frame (mc_format cfg)"
    by (auto simp: music_create_with_allocator_def fmt_bytes split: if_splits)
  ultimately show ?case using music_created_ok by simp
next
  case (prime_intro mp mx u ok mp' u')
  then show ?case using music_prime_ok(1) [of mp f u] prime_bpf(1) [of f mp u] by simp
next
  case (prime_loop mp mx u ok mp' u')
  then show ?case using music_prime_ok(2) [of mp f u] prime_bpf(2) [of f mp u] by simp
next
  case (play mp mx u mp' mx')
  then show ?case using music_control_ok(1) [of mp mx] control_bpf(1) [of mp mx] by simp
next
  case (stop mp mx u mp' mx')
  then show ?case using music_control_ok(2) [of mp mx] control_bpf(2) [of mp mx] by simp
next
  case (pause mp mx u mp' mx')
  then show ?case using music_control_ok(3) [of mp mx] control_bpf(3) [of mp mx] by simp
next
  case (resume mp mx u mp' mx')
  then show ?case using music_control_ok(4) [of mp mx] control_bpf(4) [of mp mx] by simp
next
  case (update mp mx u mp' mx' u')
  then show ?case using music_update_ok [of mp f mx u] update_bpf [of mp f mx u] by simp
qed simp

section \<open>Properties\<close>

text \<open>
  C20: in every reachable state the player's state and segment agree, and the frames that the
  next update may push, of the streaming buffer and of a pinned head, lie inside their
  buffers, whatever the stream callback returns within its contract.
\<close>

theorem music_buffers_in_bounds:
  assumes "music_reach f mp mx u"
  shows "state_ok (mp_state mp) (mp_segment mp) \<and>
    (mp_streaming_read_pos mp + mp_streaming_count mp) * mp_bytes_per_frame mp \<le> length (mp_streaming_buffer mp) \<and>
    (0 < mp_pinned_remaining mp \<longrightarrow> mp_pinned_remaining mp \<le> current_pinned_size mp \<and>
       current_pinned_size mp * mp_bytes_per_frame mp \<le> length (current_pinned_buffer mp))"
proof -
  have m: "player_ok mp" "state_ok (mp_state mp) (mp_segment mp)"
    using music_reach_ok [OF assms] by (simp_all add: music_inv_def)
  then have "(mp_streaming_read_pos mp + mp_streaming_count mp) * mp_bytes_per_frame mp \<le> length (mp_streaming_buffer mp)"
    by (simp add: player_ok_def)
  with m pinned_in_bounds [OF m(1)] show ?thesis by auto
qed

definition loop_config :: music_config where
  "loop_config = \<lparr>mc_mixer_channel = 0, mc_format = MIXER_SRC_PCM16_STEREO, mc_intro_stream_id = MUSIC_STREAM_NONE,
     mc_loop_stream_id = 7, mc_streaming_buffer_samples = 8, mc_max_channel_fill = 0,
     mc_has_intro_head = False, mc_intro_head_samples = 0, mc_has_loop_head = False, mc_loop_head_samples = 0\<rparr>"

definition loop_bytes :: "int \<Rightarrow> byte list" where "loop_bytes sid = replicate 80 0"

definition loop_stream :: "unit stream_fn" where
  "loop_stream u sid n off = (let k = min n (20 - off) in (k, replicate (k * 4) 0, ()))"

definition loop_player :: music_player where
  "loop_player = the (music_create_with_allocator loop_config (replicate 32 0) [] [] True)"

lemma loop_stream_serves: "serves loop_stream loop_bytes 4"
  by (auto simp: serves_def loop_stream_def loop_bytes_def stream_frames_def seg_def Let_def min_def)

lemma loop_player_created:
  "music_create_with_allocator loop_config (replicate 32 0) [] [] True = Some loop_player"
  by (simp add: loop_player_def music_create_with_allocator_def validate_config_def loop_config_def
      MUSIC_STREAM_NONE_def)

lemma loop_player_reach: "music_reach loop_stream loop_player started_mixer ()"
  using serves_ok [OF loop_stream_serves]
  by (intro music_reach.created [OF loop_player_created])
    (simp_all add: loop_config_def source_bytes_per_frame_def)

theorem music_buffers_in_bounds_witness: "state_ok (mp_state loop_player) (mp_segment loop_player)"
  using music_buffers_in_bounds [OF loop_player_reach] by simp

definition loop_playing :: music_player where
  "loop_playing = fst (music_play loop_player started_mixer)"

lemma loop_playing_sel:
  "mp_cfg loop_playing = loop_config" "mp_segment_offset loop_playing = 0" "mp_streaming_count loop_playing = 0"
  "mp_pinned_remaining loop_playing = 0" "mp_segment loop_playing = SEG_LOOP"
  "mp_state loop_playing = MUSIC_PLAYING_LOOP" "mp_bytes_per_frame loop_playing = 4"
  "mp_streaming_read_pos loop_playing = 0" "mp_streaming_buffer loop_playing = replicate 32 0"
  by (simp_all add: loop_playing_def music_play_def loop_player_def music_create_with_allocator_def
      validate_config_def loop_config_def MUSIC_STREAM_NONE_def enter_segment_def Let_def)

lemma loop_playing_player_ok: "player_ok loop_playing"
  by (simp add: player_ok_def loop_playing_sel)
    (simp add: loop_config_def validate_config_def MUSIC_STREAM_NONE_def source_bytes_per_frame_def)

lemma loop_playing_sid: "current_segment_stream_id loop_playing = 7"
  by (simp add: current_segment_stream_id_def loop_playing_sel) (simp add: loop_config_def)

lemma loop_playing_ok: "buffered_ok loop_bytes loop_playing"
  by (simp add: buffered_ok_def loop_playing_player_ok loop_playing_sid loop_playing_sel Let_def
      MUSIC_STREAM_NONE_def seg_def)

lemma started_mixer_ready: "channel_ready started_mixer 0 4"
proof -
  have "mixer_inv started_mixer"
    using mixer_reach_inv [OF tone_mixer_reach] by (simp add: started_mixer_def mixer_control_inv)
  moreover have "length (mx_channels started_mixer) = 1 \<and>
      ch_format (mx_channels started_mixer ! 0) = MIXER_SRC_PCM16_STEREO"
    by (simp add: started_mixer_def tone_mixer_def mixer_create_def mixer_create_internal_def
        heap_alloc_def ample_alloc_def Let_def cd_format_def compute_output_params_def empty_heap_def
        mixer_channel_start_def at_channel_def channel_init_def tone_config_def compute_pan_gains_def
        rb_init_def mixer_zero_def Q15_ONE_def)
  ultimately show ?thesis by (simp add: channel_ready_def source_bytes_per_frame_def)
qed



definition refill_position :: "music_player \<Rightarrow> nat" where
  "refill_position mp = mp_segment_offset mp + mp_pinned_remaining mp + mp_streaming_count mp"

text \<open>
  a pinned head breaks the order: the position from which the next refill reads is moved
  back by one frame for every frame that the pump takes from the head, so that the frames
  after the head are fetched twice; without a head it stays.
\<close>

theorem music_head_moves_refill_back:
  assumes "mc_mixer_channel (mp_cfg mp) < length (mx_channels mx)"
    and "pump_to_mixer mp mx lim = (k, mp', mx')"
  shows "refill_position mp' + min (mp_pinned_remaining mp) lim = refill_position mp \<and>
    k = min (mp_pinned_remaining mp + mp_streaming_count mp) lim"
proof (cases "0 < mp_pinned_remaining mp")
  case False
  have p: "pump_stream lim 0 mp mx = (k, mp', mx')" using False assms(2) by (simp add: pump_to_mixer_def)
  note p [unfolded pump_stream_once [OF assms(1)]]
  then show ?thesis using False by (auto simp: refill_position_def)
next
  case True
  define n where "n = min (mp_pinned_remaining mp) lim"
  define b where "b = drop ((current_pinned_size mp - mp_pinned_remaining mp) * mp_bytes_per_frame mp) (current_pinned_buffer mp)"
  define mp1 where "mp1 = mp\<lparr>mp_pinned_remaining := mp_pinned_remaining mp - n\<rparr>"
  define mx1 where "mx1 = snd (push_to_mixer mp mx b n)"
  have q: "push_to_mixer mp mx b n = (n, mx1)"
    using push_to_mixer_all [OF assms(1), of b n] by (simp add: mx1_def prod_eq_iff)
  have len: "mc_mixer_channel (mp_cfg mp1) < length (mx_channels mx1)"
    using assms(1) by (simp add: mp1_def mx1_def push_to_mixer_def mixer_write_channel_def at_channel_def)
  have p: "pump_stream lim n mp1 mx1 = (k, mp', mx')"
    using True assms(2) q by (simp add: pump_to_mixer_def Let_def n_def [symmetric] b_def [symmetric] mp1_def)
  note p [unfolded pump_stream_once [OF len]]
  then show ?thesis by (auto simp: refill_position_def mp1_def n_def)
qed

theorem music_head_moves_refill_back_witness:
  "refill_position (fst (snd (pump_to_mixer (loop_playing\<lparr>mp_pinned_remaining := 5\<rparr>) started_mixer 3))) + 3 = 5"
proof -
  have c: "mc_mixer_channel (mp_cfg (loop_playing\<lparr>mp_pinned_remaining := 5\<rparr>)) < length (mx_channels started_mixer)"
    using started_mixer_ready by (simp add: channel_ready_def loop_playing_sel) (simp add: loop_config_def)
  obtain k mp' mx' where p: "pump_to_mixer (loop_playing\<lparr>mp_pinned_remaining := 5\<rparr>) started_mixer 3 = (k, mp', mx')"
    by (metis prod_cases3)
  from music_head_moves_refill_back [OF c p] show ?thesis
    by (simp add: p) (simp add: refill_position_def loop_playing_sel)
qed

text \<open>
  at the end of the loop the player overruns the channel: when the last \<open>c\<close> buffered
  frames are moved by the update that starts the loop again, the second pass moves the full
  target once more, and the \<open>c\<close> oldest unplayed frames of the channel are overwritten.
\<close>

theorem music_loop_end_drops_frames:
  assumes "buffered_ok src mp" and "serves f src (mp_bytes_per_frame mp)"
    and "channel_ready mx (mc_mixer_channel (mp_cfg mp)) (mp_bytes_per_frame mp)"
    and "mp_state mp = MUSIC_PLAYING_LOOP" "mp_segment mp = SEG_LOOP" "\<not> mc_has_loop_head (mp_cfg mp)"
    and "0 < mp_streaming_count mp" "mp_streaming_count mp < mc_streaming_buffer_samples (mp_cfg mp) div 2"
    and "mp_segment_offset mp + mp_streaming_count mp =
        stream_frames src (mp_bytes_per_frame mp) (mc_loop_stream_id (mp_cfg mp))"
    and "update_target mp mx = channel_cap mx (mc_mixer_channel (mp_cfg mp)) - length (channel_items mx (mc_mixer_channel (mp_cfg mp)))"
    and "mp_streaming_count mp \<le> update_target mp mx"
    and "update_target mp mx \<le> stream_frames src (mp_bytes_per_frame mp) (mc_loop_stream_id (mp_cfg mp))"
    and "music_update f (mp, mx, u) = (mp', mx', u')"
  shows "channel_items mx' (mc_mixer_channel (mp_cfg mp)) = drop (mp_streaming_count mp)
      (channel_items mx (mc_mixer_channel (mp_cfg mp)) @
       frames_of (mp_bytes_per_frame mp) (mp_segment_offset mp) (mp_streaming_count mp) (src (mc_loop_stream_id (mp_cfg mp))) @
       frames_of (mp_bytes_per_frame mp) 0 (update_target mp mx) (src (mc_loop_stream_id (mp_cfg mp))))"
  by (rule update_wraps [OF assms(1-3) refl assms(4-13)])

definition loop_ending :: music_player where
  "loop_ending = loop_playing\<lparr>mp_segment_offset := 18, mp_streaming_count := 2\<rparr>"

theorem music_loop_end_drops_frames_witness:
  "length (channel_items (fst (snd (music_update loop_stream (loop_ending, started_mixer, ())))) 0) = 8"
proof -
  obtain mp' mx' u' where u: "music_update loop_stream (loop_ending, started_mixer, ()) = (mp', mx', u')"
    by (metis prod_cases3)
  have c: "mc_mixer_channel loop_config = 0" "mc_streaming_buffer_samples loop_config = 8"
    "mc_loop_stream_id loop_config = 7" "\<not> mc_has_loop_head loop_config" "mc_max_channel_fill loop_config = 0"
    by (simp_all add: loop_config_def)
  have m: "channel_cap started_mixer 0 = 8" "channel_items started_mixer 0 = []"
    by (simp_all add: channel_cap_def channel_items_def started_mixer_def tone_mixer_def mixer_create_def
        mixer_create_internal_def heap_alloc_def ample_alloc_def Let_def cd_format_def
        compute_output_params_def empty_heap_def mixer_channel_start_def at_channel_def channel_init_def
        tone_config_def compute_pan_gains_def rb_init_def mixer_zero_def Q15_ONE_def rb_list_def)
  have sel: "mp_cfg loop_ending = loop_config" "mp_bytes_per_frame loop_ending = 4"
    "mp_streaming_count loop_ending = 2" "mp_segment_offset loop_ending = 18"
    "mp_state loop_ending = MUSIC_PLAYING_LOOP" "mp_segment loop_ending = SEG_LOOP"
    "current_segment_stream_id loop_ending = 7"
    by (simp_all add: loop_ending_def loop_playing_sel current_segment_stream_id_def c)
  have t: "update_target loop_ending started_mixer = 8"
    using started_mixer_ready m
    by (simp add: update_target_def sel c mixer_channel_capacity_def mixer_channel_buffered_def
        channel_cap_def channel_items_def channel_ready_def Let_def flip: length_rb_list)
  have ok: "buffered_ok loop_bytes loop_ending"
    using loop_playing_player_ok
    by (simp add: buffered_ok_def sel Let_def MUSIC_STREAM_NONE_def)
      (simp add: loop_ending_def loop_playing_sel player_ok_def c stream_frames_def loop_bytes_def seg_def)
  have sf: "stream_frames loop_bytes 4 7 = 20" by (simp add: stream_frames_def loop_bytes_def)
  from music_loop_end_drops_frames [OF ok _ _ _ _ _ _ _ _ _ _ _ u] show ?thesis
    using loop_stream_serves started_mixer_ready by (simp add: u sel c m t sf)
qed

text \<open>
  pausing keeps the position and stops the channel, and resuming restores the very state
  that was paused; stopping forgets the position, and playing after it starts from the first
  configured segment with a cleared, started channel.
\<close>

theorem music_pause_resume_roundtrip:
  assumes "music_reach f mp mx u" and "mp_state mp = MUSIC_PLAYING_INTRO \<or> mp_state mp = MUSIC_PLAYING_LOOP"
    and "mc_mixer_channel (mp_cfg mp) < length (mx_channels mx)"
  shows "(let ch = mc_mixer_channel (mp_cfg mp); (pp, px) = music_pause mp mx; (rp, rx) = music_resume pp px;
              (sp, sx) = music_stop mp mx; (qp, qx) = music_play sp sx
          in mp_state pp = MUSIC_PAUSED \<and> \<not> ch_active (mx_channels px ! ch) \<and>
             channel_items px ch = channel_items mx ch \<and>
             rp = mp \<and> ch_active (mx_channels rx ! ch) \<and> channel_items rx ch = channel_items mx ch \<and>
             qp = (enter_segment mp (if mc_intro_stream_id (mp_cfg mp) \<noteq> MUSIC_STREAM_NONE then SEG_INTRO else SEG_LOOP))
               \<lparr>mp_state := (if mc_intro_stream_id (mp_cfg mp) \<noteq> MUSIC_STREAM_NONE then MUSIC_PLAYING_INTRO else MUSIC_PLAYING_LOOP)\<rparr> \<and>
             ch_active (mx_channels qx ! ch) \<and> channel_items qx ch = [])"
proof -
  have m: "music_inv mp" using music_reach_ok [OF assms(1)] by simp
  have cfg: "mc_intro_stream_id (mp_cfg mp) \<noteq> MUSIC_STREAM_NONE \<or> mc_loop_stream_id (mp_cfg mp) \<noteq> MUSIC_STREAM_NONE"
    using m by (auto simp: music_inv_def player_ok_def validate_config_def split: if_splits)
  have st: "mp_state mp = MUSIC_PLAYING_INTRO \<and> mp_segment mp = SEG_INTRO \<or>
      mp_state mp = MUSIC_PLAYING_LOOP \<and> mp_segment mp = SEG_LOOP"
    using assms(2) m by (auto simp: music_inv_def)
  have same: "mp\<lparr>mp_state := mp_state mp\<rparr> = mp" by simp
  show ?thesis using st cfg assms(3) same
    by (auto simp: music_pause_def music_resume_def music_stop_def music_play_def Let_def enter_segment_def
        mixer_channel_stop_def mixer_channel_start_def mixer_channel_reset_def at_channel_def channel_items_def)
qed

theorem music_pause_resume_roundtrip_witness:
  "fst (music_resume (fst (music_pause loop_playing started_mixer)) (snd (music_pause loop_playing started_mixer))) = loop_playing"
proof -
  have "music_reach loop_stream loop_playing started_mixer ()"
    using music_reach.play [OF loop_player_reach] music_reach.mixer_moves
    unfolding loop_playing_def by (metis prod.collapse)
  moreover have "mc_mixer_channel (mp_cfg loop_playing) < length (mx_channels started_mixer)"
    using started_mixer_ready by (simp add: channel_ready_def loop_playing_sel) (simp add: loop_config_def)
  ultimately show ?thesis
    using music_pause_resume_roundtrip [of loop_stream loop_playing started_mixer "()"]
    by (simp add: loop_playing_sel Let_def case_prod_beta)
qed

end
