(* ===== verification/Sprite_Mask.thy ===== *)
theory Sprite_Mask
  imports HXBase
begin

unbundle bit_operations_syntax

text \<open>
  \<^verbatim>\<open>runtime/hx421_mask.c\<close>: 1-bit sprite masks, their derivation from tile data and the
  per-pixel overlap test.  A mask row is a run of bytes, leftmost pixel in the top bit; the
  overlap test loads a row into a 64-bit word with pixel 0 at bit 63.  Coordinates are C
  integers that do not overflow on a screen, modelled as \<^typ>\<open>int\<close>; null pointers have no
  counterpart, except for a sprite part without tile data.
\<close>

section \<open>Data\<close>

record sprite_mask =
  mk_w :: nat
  mk_h :: nat
  mk_stride :: nat
  mk_bits :: "byte list"

record sprite_part =
  sp_chr :: "byte list option"
  sp_tiles_w :: nat
  sp_tiles_h :: nat
  sp_row_stride :: nat
  sp_ox :: int
  sp_oy :: int

datatype scan_order = HX421_SCAN_TOPLEFT | HX421_SCAN_TOPRIGHT | HX421_SCAN_BOTTOMLEFT | HX421_SCAN_BOTTOMRIGHT

definition HX421_MASK_MAX_W :: nat where "HX421_MASK_MAX_W = 64"
definition HX421_MASK_MAX_H :: nat where "HX421_MASK_MAX_H = 64"

section \<open>Pixel access\<close>

definition hx421_mask_get :: "sprite_mask \<Rightarrow> int \<Rightarrow> int \<Rightarrow> bool" where
  "hx421_mask_get m x y =
     (if x < 0 \<or> y < 0 \<or> int (mk_w m) \<le> x \<or> int (mk_h m) \<le> y then False
      else drop_bit (7 - nat x mod 8) (mk_bits m ! (nat y * mk_stride m + nat x div 8)) AND 1 \<noteq> 0)"

definition mask_set :: "byte list \<Rightarrow> nat \<Rightarrow> nat \<Rightarrow> nat \<Rightarrow> byte list" where
  "mask_set bits stride x y =
     (let i = y * stride + x div 8 in bits[i := bits ! i OR drop_bit (x mod 8) 0x80])"

section \<open>Derivation\<close>

definition tile_row_nonzero :: "byte list \<Rightarrow> nat \<Rightarrow> byte" where
  "tile_row_nonzero tile row =
     tile ! (row * 2) OR tile ! (row * 2 + 1) OR tile ! (16 + row * 2) OR tile ! (16 + row * 2 + 1)"

definition derive_pixel :: "nat \<Rightarrow> nat \<Rightarrow> byte \<Rightarrow> int \<Rightarrow> nat \<Rightarrow> byte list \<Rightarrow> nat \<Rightarrow> byte list" where
  "derive_pixel w stride nz x0 y bits col =
     (if drop_bit (7 - col) nz AND 1 = 0 then bits
      else let x = x0 + int col
           in if x < 0 \<or> int w \<le> x then bits else mask_set bits stride (nat x) y)"

definition derive_row :: "nat \<Rightarrow> nat \<Rightarrow> nat \<Rightarrow> byte list \<Rightarrow> int \<Rightarrow> int \<Rightarrow> byte list \<Rightarrow> nat \<Rightarrow> byte list" where
  "derive_row w h stride tile x0 y0 bits row =
     (let nz = tile_row_nonzero tile row in
      if nz = 0 then bits
      else let y = y0 + int row
           in if y < 0 \<or> int h \<le> y then bits
              else foldl (derive_pixel w stride nz x0 (nat y)) bits [0..<8])"

definition derive_tile :: "nat \<Rightarrow> nat \<Rightarrow> nat \<Rightarrow> sprite_part \<Rightarrow> byte list \<Rightarrow> byte list \<Rightarrow> nat \<times> nat \<Rightarrow> byte list" where
  "derive_tile w h stride sp chr bits t =
     (case t of (ty, tx) \<Rightarrow>
        let rs = (if sp_row_stride sp \<noteq> 0 then sp_row_stride sp else sp_tiles_w sp);
            tile = drop ((ty * rs + tx) * 32) chr
        in foldl (derive_row w h stride tile (sp_ox sp + int (tx * 8)) (sp_oy sp + int (ty * 8))) bits [0..<8])"

definition derive_part :: "nat \<Rightarrow> nat \<Rightarrow> nat \<Rightarrow> byte list \<Rightarrow> sprite_part \<Rightarrow> byte list" where
  "derive_part w h stride bits sp =
     (case sp_chr sp of
        None \<Rightarrow> bits
      | Some chr \<Rightarrow>
          if sp_tiles_w sp = 0 \<or> sp_tiles_h sp = 0 then bits
          else foldl (derive_tile w h stride sp chr) bits
                 (List.product [0..<sp_tiles_h sp] [0..<sp_tiles_w sp]))"

text \<open>The number of bytes written, 0 on error, and the mask bits.\<close>

definition hx421_derive_mask :: "sprite_part list \<Rightarrow> nat \<Rightarrow> nat \<Rightarrow> byte list \<Rightarrow> nat \<Rightarrow> nat \<times> byte list" where
  "hx421_derive_mask parts w h bits cap =
     (if w = 0 \<or> h = 0 then (0, bits)
      else if HX421_MASK_MAX_W < w \<or> HX421_MASK_MAX_H < h then (0, bits)
      else let stride = (w + 7) div 8; n = stride * h
           in if cap < n then (0, bits)
              else (n, foldl (derive_part w h stride) (replicate n 0 @ drop n bits) parts))"

section \<open>Overlap\<close>

definition hx421_mask_aabb :: "sprite_mask \<Rightarrow> int \<Rightarrow> int \<Rightarrow> sprite_mask \<Rightarrow> int \<Rightarrow> int \<Rightarrow> bool" where
  "hx421_mask_aabb ma ax ay mb bx by' =
     (if ax + int (mk_w ma) \<le> bx \<or> bx + int (mk_w mb) \<le> ax then False
      else if ay + int (mk_h ma) \<le> by' \<or> by' + int (mk_h mb) \<le> ay then False
      else True)"

definition row_word :: "sprite_mask \<Rightarrow> nat \<Rightarrow> 64 word" where
  "row_word m y =
     (let acc = foldl (\<lambda>acc i. acc OR push_bit (56 - 8 * i) (ucast (mk_bits m ! (y * mk_stride m + i))))
                  0 [0..<min (mk_stride m) 8]
      in if mk_w m < 64 then acc AND push_bit (64 - mk_w m) (- 1) else acc)"

text \<open>One halving step of the two bit scans: the count and the shifted word.\<close>

definition left_line :: "64 word \<Rightarrow> nat \<Rightarrow> nat \<times> 64 word \<Rightarrow> nat \<times> 64 word" where
  "left_line m k s = (case s of (n, v) \<Rightarrow> if v AND m = 0 then (n + k, push_bit k v) else (n, v))"

definition right_line :: "64 word \<Rightarrow> nat \<Rightarrow> nat \<times> 64 word \<Rightarrow> nat \<times> 64 word" where
  "right_line m k s = (case s of (n, v) \<Rightarrow> if v AND m = 0 then (n - k, drop_bit k v) else (n, v))"

definition first_left :: "64 word \<Rightarrow> nat" where
  "first_left v =
     (let s = left_line 0xFFFFFFFF00000000 32 (0, v);
          s = left_line 0xFFFF000000000000 16 s;
          s = left_line 0xFF00000000000000 8 s;
          s = left_line 0xF000000000000000 4 s;
          s = left_line 0xC000000000000000 2 s
      in if snd s AND 0x8000000000000000 = 0 then fst s + 1 else fst s)"

definition first_right :: "64 word \<Rightarrow> nat" where
  "first_right v =
     (let s = right_line 0xFFFFFFFF 32 (63, v);
          s = right_line 0xFFFF 16 s;
          s = right_line 0xFF 8 s;
          s = right_line 0xF 4 s;
          s = right_line 0x3 2 s
      in if snd s AND 0x1 = 0 then fst s - 1 else fst s)"

definition align_row :: "int \<Rightarrow> 64 word \<Rightarrow> 64 word" where
  "align_row dx wb =
     (if 0 \<le> dx then (if 64 \<le> dx then 0 else drop_bit (nat dx) wb)
      else if 64 \<le> - dx then 0 else push_bit (nat (- dx)) wb)"

text \<open>The common pixels of row \<open>y\<close> of the first mask, in its columns.\<close>

definition both_rows :: "sprite_mask \<Rightarrow> sprite_mask \<Rightarrow> int \<Rightarrow> int \<Rightarrow> int \<Rightarrow> 64 word" where
  "both_rows ma mb dx dy y =
     (let wa = row_word ma (nat y); wb = row_word mb (nat (y - dy))
      in if wa = 0 \<or> wb = 0 then 0 else wa AND align_row dx wb)"

fun overlap_rows :: "sprite_mask \<Rightarrow> int \<Rightarrow> int \<Rightarrow> sprite_mask \<Rightarrow> int \<Rightarrow> int \<Rightarrow> bool \<Rightarrow> int list \<Rightarrow> (int \<times> int) option" where
  "overlap_rows ma ax ay mb dx dy left [] = None"
| "overlap_rows ma ax ay mb dx dy left (y # ys) =
     (let both = both_rows ma mb dx dy y in
      if both = 0 then overlap_rows ma ax ay mb dx dy left ys
      else let col = (if left then first_left both else first_right both)
           in Some (i16 (ax + int col), i16 (ay + y)))"

text \<open>The contact point, or \<^term>\<open>None\<close> when the masks do not touch.\<close>

definition hx421_mask_overlap ::
    "sprite_mask \<Rightarrow> int \<Rightarrow> int \<Rightarrow> sprite_mask \<Rightarrow> int \<Rightarrow> int \<Rightarrow> scan_order \<Rightarrow> (int \<times> int) option" where
  "hx421_mask_overlap ma ax ay mb bx by' order =
     (if HX421_MASK_MAX_W < mk_w ma \<or> HX421_MASK_MAX_W < mk_w mb then None
      else if \<not> hx421_mask_aabb ma ax ay mb bx by' then None
      else let dx = bx - ax; dy = by' - ay;
               y0 = (if 0 < dy then dy else 0);
               y1 = (if int (mk_h ma) < dy + int (mk_h mb) then int (mk_h ma) else dy + int (mk_h mb));
               down = (order = HX421_SCAN_TOPLEFT \<or> order = HX421_SCAN_TOPRIGHT);
               left = (order = HX421_SCAN_TOPLEFT \<or> order = HX421_SCAN_BOTTOMLEFT)
           in overlap_rows ma ax ay mb dx dy left
                (map (\<lambda>k. if down then k else y1 - 1 - (k - y0)) [y0..y1 - 1]))"

end
