(* ===== verification/Sprite_Mask_Spec.thy ===== *)
theory Sprite_Mask_Spec
  imports Sprite_Mask
begin

unbundle bit_operations_syntax

text \<open>
  The pixel-level meaning of the mask operations: what derivation sets, and that the word-wise
  overlap test finds exactly a common pixel, the first one of the scan.
\<close>

section \<open>The bit scans\<close>

text \<open>A scan over positions: the first \<open>n\<close> are clear and one of the next \<open>k\<close> is set.\<close>

definition scan_at :: "(nat \<Rightarrow> bool) \<Rightarrow> nat \<Rightarrow> nat \<Rightarrow> bool" where
  "scan_at p k n \<longleftrightarrow> (\<forall>i < n. \<not> p i) \<and> (\<exists>i. n \<le> i \<and> i < n + k \<and> p i) \<and> n + k \<le> 64"

lemma scan_at_step:
  assumes "scan_at p (k + k) n" and "t \<longleftrightarrow> (\<forall>i < k. \<not> p (n + i))"
  shows "scan_at p k (if t then n + k else n)"
proof (cases t)
  case True
  then have c: "\<not> p i" if "n \<le> i" "i < n + k" for i
    using assms(2) that by (metis le_add_diff_inverse less_diff_conv2 add.commute)
  obtain i where i: "n \<le> i" "i < n + (k + k)" "p i" using assms(1) by (auto simp: scan_at_def)
  then have "n + k \<le> i" using c by (meson not_less)
  then show ?thesis using True assms(1) i c by (auto simp: scan_at_def) (meson not_less)
next
  case False
  then obtain i where "i < k" "p (n + i)" using assms(2) by blast
  then have "\<exists>j. n \<le> j \<and> j < n + k \<and> p j" by (intro exI [of _ "n + i"]) simp
  then show ?thesis using False assms(1) by (simp add: scan_at_def)
qed

lemma scan_at_start: "p i \<Longrightarrow> i < 64 \<Longrightarrow> scan_at p 64 0"
  by (auto simp: scan_at_def)

lemma scan_at_end: "scan_at p 1 n \<Longrightarrow> p n \<and> (\<forall>i < n. \<not> p i) \<and> n < 64"
  by (auto simp: scan_at_def less_Suc_eq_le le_antisym dest: le_antisym)

definition top64 :: "nat \<Rightarrow> 64 word" where "top64 k = push_bit (64 - k) (mask k)"

lemma top64_test:
  assumes "n + k \<le> 64"
  shows "push_bit n v AND top64 k = 0 \<longleftrightarrow> (\<forall>i < k. \<not> bit (v :: 64 word) (63 - (n + i)))"
proof -
  have "push_bit n v AND top64 k = 0 \<longleftrightarrow> (\<forall>j < 64. 64 - k \<le> j \<and> n \<le> j \<longrightarrow> \<not> bit v (j - n))"
    using assms by (auto simp: top64_def bit_eq_iff bit_and_iff bit_push_bit_iff bit_mask_iff)
  also have "\<dots> \<longleftrightarrow> (\<forall>i < k. \<not> bit v (63 - (n + i)))"
  proof (intro iffI allI impI)
    fix i assume *: "\<forall>j<64. 64 - k \<le> j \<and> n \<le> j \<longrightarrow> \<not> bit v (j - n)" and "i < k"
    then have "63 - i < 64" "64 - k \<le> 63 - i \<and> n \<le> 63 - i" using assms by auto
    then have "\<not> bit v (63 - i - n)" using * by blast
    then show "\<not> bit v (63 - (n + i))" by (simp add: diff_diff_eq add.commute)
  next
    fix j assume *: "\<forall>i<k. \<not> bit v (63 - (n + i))" and "j < 64" "64 - k \<le> j \<and> n \<le> j"
    then have "63 - j < k" "63 - (n + (63 - j)) = j - n" using assms by auto
    then show "\<not> bit v (j - n)" using * by metis
  qed
  finally show ?thesis .
qed

lemma low64_test:
  "drop_bit n v AND mask k = 0 \<longleftrightarrow> (\<forall>i < k. \<not> bit (v :: 64 word) (n + i))"
proof -
  have lt: "bit v (n + i) \<Longrightarrow> i < 64" for i using bit_imp_le_length [of v "n + i"] by simp
  have "drop_bit n v AND mask k = 0 \<longleftrightarrow> (\<forall>i < 64. bit v (n + i) \<longrightarrow> \<not> i < k)"
    by (auto simp: bit_eq_iff bit_and_iff bit_drop_bit_eq bit_mask_iff)
  then show ?thesis using lt by blast
qed

text \<open>The words of the scans are determined by their counts.\<close>

lemma left_line_at:
  assumes "scan_at (\<lambda>i. bit v (63 - i)) (k + k) n"
  shows "\<exists>n'. left_line (top64 k) k (n, push_bit n v) = (n', push_bit n' v) \<and>
    scan_at (\<lambda>i. bit v (63 - i)) k n'"
proof -
  have "n + k \<le> 64" using assms by (simp add: scan_at_def)
  note t = top64_test [OF this, of v]
  let ?n = "if push_bit n v AND top64 k = 0 then n + k else n"
  have "left_line (top64 k) k (n, push_bit n v) = (?n, push_bit ?n v)"
    by (simp add: left_line_def push_bit_push_bit add.commute)
  moreover have "scan_at (\<lambda>i. bit v (63 - i)) k ?n" using assms t by (rule scan_at_step)
  ultimately show ?thesis by blast
qed

lemma right_line_at:
  assumes "scan_at (bit v) (k + k) n"
  shows "\<exists>n'. right_line (mask k) k (63 - n, drop_bit n v) = (63 - n', drop_bit n' v) \<and> scan_at (bit v) k n'"
proof -
  note t = low64_test [of n v k]
  let ?n = "if drop_bit n v AND mask k = 0 then n + k else n"
  have "n + k \<le> 64" using assms by (simp add: scan_at_def)
  then have "right_line (mask k) k (63 - n, drop_bit n v) = (63 - ?n, drop_bit ?n v)"
    by (simp add: right_line_def add.commute)
  moreover have "scan_at (bit v) k ?n" using assms t by (rule scan_at_step)
  ultimately show ?thesis by blast
qed

lemma top64_values:
  "0xFFFFFFFF00000000 = top64 32" "0xFFFF000000000000 = top64 16" "0xFF00000000000000 = top64 8"
  "0xF000000000000000 = top64 4" "0xC000000000000000 = top64 2" "0x8000000000000000 = top64 1"
  by (simp_all add: top64_def mask_eq_exp_minus_1)

lemma low64_values:
  "0xFFFFFFFF = (mask 32 :: 64 word)" "0xFFFF = (mask 16 :: 64 word)" "0xFF = (mask 8 :: 64 word)"
  "0xF = (mask 4 :: 64 word)" "0x3 = (mask 2 :: 64 word)" "0x1 = (mask 1 :: 64 word)"
  by (simp_all add: mask_eq_exp_minus_1)

lemma first_left_spec:
  assumes "v \<noteq> 0"
  shows "first_left v < 64 \<and> bit v (63 - first_left v) \<and> (\<forall>i < first_left v. \<not> bit v (63 - i))"
proof -
  let ?p = "\<lambda>i. bit v (63 - i)"
  obtain j where j: "bit v j" "j < 64"
    using assms bit_imp_le_length [of v] by (auto simp: bit_eq_iff)
  have s0: "scan_at ?p (32 + 32) 0" using scan_at_start [of ?p "63 - j"] j by simp
  obtain n1 where n1: "left_line (top64 32) 32 (0, v) = (n1, push_bit n1 v)" "scan_at ?p (16 + 16) n1"
    using left_line_at [OF s0] by auto
  obtain n2 where n2: "left_line (top64 16) 16 (n1, push_bit n1 v) = (n2, push_bit n2 v)" "scan_at ?p (8 + 8) n2"
    using left_line_at [OF n1(2)] by auto
  obtain n3 where n3: "left_line (top64 8) 8 (n2, push_bit n2 v) = (n3, push_bit n3 v)" "scan_at ?p (4 + 4) n3"
    using left_line_at [OF n2(2)] by auto
  obtain n4 where n4: "left_line (top64 4) 4 (n3, push_bit n3 v) = (n4, push_bit n4 v)" "scan_at ?p (2 + 2) n4"
    using left_line_at [OF n3(2)] by auto
  obtain n5 where n5: "left_line (top64 2) 2 (n4, push_bit n4 v) = (n5, push_bit n5 v)" "scan_at ?p 2 n5"
    using left_line_at [OF n4(2)] by auto
  have le: "n5 + 1 \<le> 64" using n5(2) by (simp add: scan_at_def)
  let ?n = "if push_bit n5 v AND top64 1 = 0 then n5 + 1 else n5"
  have "first_left v = ?n"
    unfolding first_left_def top64_values Let_def n1(1) n2(1) n3(1) n4(1) n5(1) by simp
  moreover have "scan_at ?p 1 ?n"
    using n5(2) [folded one_add_one] top64_test [OF le, of v] by (rule scan_at_step)
  then have "?p ?n \<and> (\<forall>i < ?n. \<not> ?p i) \<and> ?n < 64" by (rule scan_at_end)
  ultimately show ?thesis by (simp only:) blast
qed

lemma first_right_spec:
  assumes "v \<noteq> 0"
  shows "first_right v < 64 \<and> bit v (63 - first_right v) \<and>
    (\<forall>i. first_right v < i \<and> i < 64 \<longrightarrow> \<not> bit v (63 - i))"
proof -
  obtain j where j: "bit v j" "j < 64"
    using assms bit_imp_le_length [of v] by (auto simp: bit_eq_iff)
  have s0: "scan_at (bit v) (32 + 32) 0" using scan_at_start [of "bit v" j] j by simp
  obtain n1 where n1: "right_line (mask 32) 32 (63, v) = (63 - n1, drop_bit n1 v)" "scan_at (bit v) (16 + 16) n1"
    using right_line_at [OF s0] by auto
  obtain n2 where n2: "right_line (mask 16) 16 (63 - n1, drop_bit n1 v) = (63 - n2, drop_bit n2 v)" "scan_at (bit v) (8 + 8) n2"
    using right_line_at [OF n1(2)] by auto
  obtain n3 where n3: "right_line (mask 8) 8 (63 - n2, drop_bit n2 v) = (63 - n3, drop_bit n3 v)" "scan_at (bit v) (4 + 4) n3"
    using right_line_at [OF n2(2)] by auto
  obtain n4 where n4: "right_line (mask 4) 4 (63 - n3, drop_bit n3 v) = (63 - n4, drop_bit n4 v)" "scan_at (bit v) (2 + 2) n4"
    using right_line_at [OF n3(2)] by auto
  obtain n5 where n5: "right_line (mask 2) 2 (63 - n4, drop_bit n4 v) = (63 - n5, drop_bit n5 v)" "scan_at (bit v) 2 n5"
    using right_line_at [OF n4(2)] by auto
  let ?n = "if drop_bit n5 v AND mask 1 = 0 then n5 + 1 else n5"
  have "first_right v = 63 - ?n"
    unfolding first_right_def low64_values Let_def n1(1) n2(1) n3(1) n4(1) n5(1) by simp
  moreover have "scan_at (bit v) 1 ?n"
    using n5(2) [folded one_add_one] low64_test [of n5 v 1] by (rule scan_at_step)
  then have "bit v ?n \<and> (\<forall>i < ?n. \<not> bit v i) \<and> ?n < 64" by (rule scan_at_end)
  ultimately show ?thesis by auto
qed

section \<open>Rows and pixels\<close>

definition mask_ok :: "sprite_mask \<Rightarrow> bool" where
  "mask_ok m \<longleftrightarrow> 0 < mk_w m \<and> mk_w m \<le> 64 \<and> mk_stride m = (mk_w m + 7) div 8 \<and>
     mk_h m * mk_stride m \<le> length (mk_bits m)"

lemma and_one_bit: "drop_bit k (b :: 'a :: len word) AND 1 \<noteq> 0 \<longleftrightarrow> bit b k"
  by (simp add: and_one_eq bit_iff_odd_drop_bit odd_iff_mod_2_eq_one)

lemma mask_get_bit:
  assumes "0 \<le> x" "x < int (mk_w m)" "0 \<le> y" "y < int (mk_h m)"
  shows "hx421_mask_get m x y \<longleftrightarrow> bit (mk_bits m ! (nat y * mk_stride m + nat x div 8)) (7 - nat x mod 8)"
  using assms by (simp add: hx421_mask_get_def and_one_bit)

lemma mask_get_inside: "hx421_mask_get m x y \<Longrightarrow> 0 \<le> x \<and> x < int (mk_w m) \<and> 0 \<le> y \<and> y < int (mk_h m)"
  by (simp add: hx421_mask_get_def split: if_splits)

lemma foldl_or_bit:
  "bit (foldl (\<lambda>a i. a OR f i) (0 :: 'a :: len word) [0..<n]) j \<longleftrightarrow> (\<exists>i < n. bit (f i) j)"
  by (induction n) (auto simp: bit_or_iff less_Suc_eq)

lemma byte_in_row:
  assumes "i < 8" and "x < 64"
  shows "bit (push_bit (56 - 8 * i) (ucast (b :: byte)) :: 64 word) (63 - x) \<longleftrightarrow> i = x div 8 \<and> bit b (7 - x mod 8)"
proof -
  have b8: "bit b k \<Longrightarrow> k < 8" for k using bit_imp_le_length [of b k] by simp
  have "bit (push_bit (56 - 8 * i) (ucast b) :: 64 word) (63 - x) \<longleftrightarrow>
      56 - 8 * i \<le> 63 - x \<and> bit b (63 - x - (56 - 8 * i))"
    using assms by (auto simp: bit_push_bit_iff bit_ucast_iff)
  also have "\<dots> \<longleftrightarrow> i = x div 8 \<and> bit b (7 - x mod 8)"
  proof (cases "i = x div 8")
    case True
    then have x: "x = 8 * i + x mod 8" by simp
    have "x mod 8 \<le> 7" by simp
    then have "63 - x - (56 - 8 * i) = 7 - x mod 8" "56 - 8 * i \<le> 63 - x" using x assms(1) by linarith+
    then show ?thesis using True by simp
  next
    case False
    then consider "x < 8 * i" | "8 * i + 8 \<le> x" by linarith
    then show ?thesis
    proof cases
      case 1
      then have "\<not> 63 - x - (56 - 8 * i) < 8" using assms by linarith
      then show ?thesis using False b8 by blast
    next
      case 2
      then have "\<not> 56 - 8 * i \<le> 63 - x" using assms by linarith
      then show ?thesis using False by blast
    qed
  qed
  finally show ?thesis .
qed

lemma row_word_bit:
  assumes "mask_ok m" and "x < 64"
  shows "bit (row_word m y) (63 - x) \<longleftrightarrow>
    x < mk_w m \<and> bit (mk_bits m ! (y * mk_stride m + x div 8)) (7 - x mod 8)"
proof -
  have st: "mk_stride m \<le> 8" "\<And>x. x < mk_w m \<Longrightarrow> x div 8 < mk_stride m"
    using assms(1) by (auto simp: mask_ok_def)
  define acc where "acc = foldl (\<lambda>acc i. acc OR push_bit (56 - 8 * i) (ucast (mk_bits m ! (y * mk_stride m + i))))
      (0 :: 64 word) [0..<min (mk_stride m) 8]"
  have "bit acc (63 - x) \<longleftrightarrow> (\<exists>i < mk_stride m. i = x div 8 \<and> bit (mk_bits m ! (y * mk_stride m + i)) (7 - x mod 8))"
    unfolding acc_def foldl_or_bit using st(1) byte_in_row [OF _ assms(2)] by (auto simp: min_def)
  then have acc: "x < mk_w m \<Longrightarrow> bit acc (63 - x) \<longleftrightarrow> bit (mk_bits m ! (y * mk_stride m + x div 8)) (7 - x mod 8)"
    using st(2) [of x] by auto
  show ?thesis
  proof (cases "mk_w m < 64")
    case True
    have "bit (NOT (Bit_Operations.mask (64 - mk_w m)) :: 64 word) (63 - x) \<longleftrightarrow> x < mk_w m"
      using assms True by (auto simp: bit_not_iff bit_mask_iff mask_ok_def)
    then show ?thesis using acc True
      by (auto simp: row_word_def acc_def [symmetric] bit_and_iff Let_def)
  next
    case False
    then have "x < mk_w m" using assms(2) by simp
    then show ?thesis using acc False by (simp add: row_word_def acc_def [symmetric] Let_def)
  qed
qed

lemma align_row_bit:
  assumes "0 \<le> x" and "x < 64"
  shows "bit (align_row dx w) (63 - nat x) \<longleftrightarrow> 0 \<le> x - dx \<and> x - dx < 64 \<and> bit w (63 - nat (x - dx))"
proof -
  have w64: "bit w k \<Longrightarrow> k < 64" for k using bit_imp_le_length [of w k] by simp
  show ?thesis
  proof (cases "0 \<le> dx")
    case True
    show ?thesis
    proof (cases "dx \<le> x")
      case le: True
      then have "nat dx + (63 - nat x) = 63 - nat (x - dx)" using True assms by linarith
      then show ?thesis using True le assms by (simp add: align_row_def bit_drop_bit_eq)
    next
      case gt: False
      have "\<not> nat dx + (63 - nat x) < 64" using gt True assms by linarith
      then have "\<not> bit (drop_bit (nat dx) w) (63 - nat x)" using w64 bit_drop_bit_eq [of "nat dx" w] by auto
      then show ?thesis using True gt by (simp add: align_row_def del: bit_drop_bit_eq)
    qed
  next
    case False
    show ?thesis
    proof (cases "x - dx < 64")
      case le: True
      then have "nat (- dx) \<le> 63 - nat x" "63 - nat x - nat (- dx) = 63 - nat (x - dx)"
        using False assms by linarith+
      then show ?thesis using False le assms by (simp add: align_row_def bit_push_bit_iff less_imp_diff_less)
    next
      case gt: False
      then have "\<not> nat (- dx) \<le> 63 - nat x" using False assms by linarith
      then show ?thesis using False gt by (simp add: align_row_def bit_push_bit_iff)
    qed
  qed
qed

lemma both_rows_bit:
  assumes m: "mask_ok ma" "mask_ok mb" and x: "0 \<le> x" "x < 64"
    and y: "0 \<le> y" "y < int (mk_h ma)" "0 \<le> y - dy" "y - dy < int (mk_h mb)"
  shows "bit (both_rows ma mb dx dy y) (63 - nat x) \<longleftrightarrow>
    hx421_mask_get ma x y \<and> hx421_mask_get mb (x - dx) (y - dy)"
proof -
  have a: "bit (row_word ma (nat y)) (63 - nat x) \<longleftrightarrow> hx421_mask_get ma x y"
  proof (cases "x < int (mk_w ma)")
    case True
    then show ?thesis using row_word_bit [OF m(1), of "nat x" "nat y"] x y by (auto simp: mask_get_bit)
  next
    case False
    then show ?thesis using row_word_bit [OF m(1), of "nat x" "nat y"] x mask_get_inside by force
  qed
  have b: "0 \<le> x - dx \<and> x - dx < 64 \<and> bit (row_word mb (nat (y - dy))) (63 - nat (x - dx)) \<longleftrightarrow>
      hx421_mask_get mb (x - dx) (y - dy)"
  proof (cases "0 \<le> x - dx \<and> x - dx < int (mk_w mb)")
    case True
    moreover have "mk_w mb \<le> 64" using m(2) by (simp add: mask_ok_def)
    ultimately have "nat (x - dx) < 64" "x - dx < 64" by linarith+
    then show ?thesis using True row_word_bit [OF m(2), of "nat (x - dx)" "nat (y - dy)"] y
      by (auto simp: mask_get_bit)
  next
    case False
    then show ?thesis using row_word_bit [OF m(2), of "nat (x - dx)" "nat (y - dy)"] mask_get_inside
      by force
  qed
  have "bit (both_rows ma mb dx dy y) (63 - nat x) \<longleftrightarrow>
      bit (row_word ma (nat y)) (63 - nat x) \<and> bit (align_row dx (row_word mb (nat (y - dy)))) (63 - nat x)"
    by (auto simp: both_rows_def Let_def bit_and_iff align_row_def)
  then show ?thesis using a b align_row_bit [OF x, of dx "row_word mb (nat (y - dy))"] by simp
qed

section \<open>The scan over the rows\<close>

text \<open>The pixels two placed masks have in common, and the order of a scan.\<close>

definition common_pixel :: "sprite_mask \<Rightarrow> int \<Rightarrow> int \<Rightarrow> sprite_mask \<Rightarrow> int \<Rightarrow> int \<Rightarrow> int \<Rightarrow> int \<Rightarrow> bool" where
  "common_pixel ma ax ay mb bx by' x y \<longleftrightarrow>
     hx421_mask_get ma (x - ax) (y - ay) \<and> hx421_mask_get mb (x - bx) (y - by')"

definition scan_left :: "scan_order \<Rightarrow> bool" where
  "scan_left order \<longleftrightarrow> order = HX421_SCAN_TOPLEFT \<or> order = HX421_SCAN_BOTTOMLEFT"

definition scan_down :: "scan_order \<Rightarrow> bool" where
  "scan_down order \<longleftrightarrow> order = HX421_SCAN_TOPLEFT \<or> order = HX421_SCAN_TOPRIGHT"

definition scan_before :: "scan_order \<Rightarrow> int \<times> int \<Rightarrow> int \<times> int \<Rightarrow> bool" where
  "scan_before order p q \<longleftrightarrow>
     (if scan_down order then snd p < snd q else snd q < snd p) \<or>
     snd p = snd q \<and> (if scan_left order then fst p \<le> fst q else fst q \<le> fst p)"

lemma both_rows_zero:
  assumes m: "mask_ok ma" "mask_ok mb"
    and y: "0 \<le> y" "y < int (mk_h ma)" "0 \<le> y - dy" "y - dy < int (mk_h mb)"
  shows "both_rows ma mb dx dy y = 0 \<longleftrightarrow> (\<forall>x. \<not> (hx421_mask_get ma x y \<and> hx421_mask_get mb (x - dx) (y - dy)))"
proof
  assume z: "both_rows ma mb dx dy y = 0"
  show "\<forall>x. \<not> (hx421_mask_get ma x y \<and> hx421_mask_get mb (x - dx) (y - dy))"
  proof (intro allI notI)
    fix x assume g: "hx421_mask_get ma x y \<and> hx421_mask_get mb (x - dx) (y - dy)"
    then have "0 \<le> x" "x < 64" using mask_get_inside [of ma x y] m(1) by (auto simp: mask_ok_def)
    from both_rows_bit [OF m this y, of dx] g z show False by simp
  qed
next
  assume n: "\<forall>x. \<not> (hx421_mask_get ma x y \<and> hx421_mask_get mb (x - dx) (y - dy))"
  show "both_rows ma mb dx dy y = 0"
  proof (rule bit_word_eqI)
    fix k assume "k < LENGTH(64)"
    then have "0 \<le> int (63 - k)" "int (63 - k) < 64" "63 - nat (int (63 - k)) = k" by auto
    with both_rows_bit [OF m this(1,2) y, of dx] n
    show "bit (both_rows ma mb dx dy y) k = bit (0 :: 64 word) k" by simp
  qed
qed

lemma both_rows_first:
  fixes left :: bool
  assumes m: "mask_ok ma" "mask_ok mb"
    and y: "0 \<le> y" "y < int (mk_h ma)" "0 \<le> y - dy" "y - dy < int (mk_h mb)"
    and nz: "both_rows ma mb dx dy y \<noteq> 0"
  defines "c \<equiv> int (if left then first_left (both_rows ma mb dx dy y) else first_right (both_rows ma mb dx dy y))"
  shows "hx421_mask_get ma c y \<and> hx421_mask_get mb (c - dx) (y - dy)"
    and "hx421_mask_get ma x y \<Longrightarrow> hx421_mask_get mb (x - dx) (y - dy) \<Longrightarrow> (if left then c \<le> x else x \<le> c)"
proof -
  have c: "0 \<le> c" "c < 64" "bit (both_rows ma mb dx dy y) (63 - nat c)"
    using first_left_spec [OF nz] first_right_spec [OF nz] by (auto simp: c_def)
  then show "hx421_mask_get ma c y \<and> hx421_mask_get mb (c - dx) (y - dy)"
    using both_rows_bit [OF m c(1,2) y] by simp
  assume g: "hx421_mask_get ma x y" "hx421_mask_get mb (x - dx) (y - dy)"
  then have x: "0 \<le> x" "x < 64" using mask_get_inside [of ma x y] m(1) by (auto simp: mask_ok_def)
  then have b: "bit (both_rows ma mb dx dy y) (63 - nat x)" using both_rows_bit [OF m x y] g by simp
  show "if left then c \<le> x else x \<le> c"
  proof (rule ccontr)
    assume no: "\<not> (if left then c \<le> x else x \<le> c)"
    then show False
      using first_left_spec [OF nz] first_right_spec [OF nz] b x
      by (cases left) (auto simp: c_def dest: spec [of _ "nat x"])
  qed
qed

lemma overlap_rows_None:
  "overlap_rows ma ax ay mb dx dy left ys = None \<longleftrightarrow> (\<forall>y \<in> set ys. both_rows ma mb dx dy y = 0)"
  by (induction ys) (auto simp: Let_def)

lemma overlap_rows_Some:
  assumes "overlap_rows ma ax ay mb dx dy left ys = Some p"
  obtains us y vs where "ys = us @ y # vs" "\<forall>u \<in> set us. both_rows ma mb dx dy u = 0"
    "both_rows ma mb dx dy y \<noteq> 0"
    "p = (i16 (ax + int (if left then first_left (both_rows ma mb dx dy y)
                         else first_right (both_rows ma mb dx dy y))), i16 (ay + y))"
  using assms
proof (induction ys arbitrary: thesis)
  case (Cons a ys)
  show ?case
  proof (cases "both_rows ma mb dx dy a = 0")
    case True
    then have "overlap_rows ma ax ay mb dx dy left ys = Some p" using Cons.prems(2) by simp
    from Cons.IH [OF _ this] obtain us y vs where h: "ys = us @ y # vs" "\<forall>u \<in> set us. both_rows ma mb dx dy u = 0"
      "both_rows ma mb dx dy y \<noteq> 0"
      "p = (i16 (ax + int (if left then first_left (both_rows ma mb dx dy y)
                         else first_right (both_rows ma mb dx dy y))), i16 (ay + y))" by metis
    show ?thesis by (rule Cons.prems(1) [of "a # us" y vs]) (use True h in simp_all)
  next
    case False
    show ?thesis by (rule Cons.prems(1) [of "[]" a ys]) (use False Cons.prems(2) in \<open>simp_all add: Let_def\<close>)
  qed
qed simp

text \<open>The rows the code visits: the overlapping band, in the order of the scan.\<close>

definition band_rows :: "sprite_mask \<Rightarrow> sprite_mask \<Rightarrow> int \<Rightarrow> scan_order \<Rightarrow> int list" where
  "band_rows ma mb dy order =
     (let y0 = (if 0 < dy then dy else 0);
          y1 = (if int (mk_h ma) < dy + int (mk_h mb) then int (mk_h ma) else dy + int (mk_h mb))
      in map (\<lambda>k. if scan_down order then k else y1 - 1 - (k - y0)) [y0..y1 - 1])"

lemma band_rows_set:
  "set (band_rows ma mb dy order) = {y. 0 \<le> y \<and> y < int (mk_h ma) \<and> 0 \<le> y - dy \<and> y - dy < int (mk_h mb)}"
proof -
  define y0 where "y0 = (if 0 < dy then dy else 0)"
  define y1 where "y1 = (if int (mk_h ma) < dy + int (mk_h mb) then int (mk_h ma) else dy + int (mk_h mb))"
  have "(\<lambda>k. y1 - 1 - (k - y0)) ` {y0..y1 - 1} = {y0..y1 - 1}"
  proof (intro equalityI subsetI)
    fix y assume "y \<in> {y0..y1 - 1}"
    then show "y \<in> (\<lambda>k. y1 - 1 - (k - y0)) ` {y0..y1 - 1}"
      by (intro image_eqI [of _ _ "y1 - 1 - (y - y0)"]) auto
  qed auto
  then have "set (band_rows ma mb dy order) = {y0..y1 - 1}"
    by (simp add: band_rows_def y0_def [symmetric] y1_def [symmetric] Let_def)
  also have "\<dots> = {y. 0 \<le> y \<and> y < int (mk_h ma) \<and> 0 \<le> y - dy \<and> y - dy < int (mk_h mb)}"
    by (auto simp: y0_def y1_def)
  finally show ?thesis .
qed

lemma band_rows_sorted:
  "sorted_wrt (\<lambda>y y'. if scan_down order then y < y' else y' < y) (band_rows ma mb dy order)"
  by (cases "scan_down order")
    (simp_all add: band_rows_def Let_def sorted_wrt_map sorted_wrt_upto)

lemma mask_overlap_rows:
  assumes "mask_ok ma" and "mask_ok mb"
  shows "hx421_mask_overlap ma ax ay mb bx by' order =
    (if hx421_mask_aabb ma ax ay mb bx by'
     then overlap_rows ma ax ay mb (bx - ax) (by' - ay) (scan_left order) (band_rows ma mb (by' - ay) order)
     else None)"
  using assms by (simp add: hx421_mask_overlap_def mask_ok_def HX421_MASK_MAX_W_def band_rows_def
      scan_left_def scan_down_def Let_def)

lemma common_pixel_row:
  "common_pixel ma ax ay mb bx by' x y \<longleftrightarrow>
     hx421_mask_get ma (x - ax) (y - ay) \<and> hx421_mask_get mb (x - ax - (bx - ax)) (y - ay - (by' - ay))"
  by (simp add: common_pixel_def)

lemma common_pixel_band:
  assumes "common_pixel ma ax ay mb bx by' x y"
  shows "hx421_mask_aabb ma ax ay mb bx by'" and "y - ay \<in> set (band_rows ma mb (by' - ay) order)"
  using assms mask_get_inside [of ma "x - ax" "y - ay"] mask_get_inside [of mb "x - bx" "y - by'"]
  by (auto simp: common_pixel_def hx421_mask_aabb_def band_rows_set)

section \<open>The contact point\<close>

text \<open>A row the scan reports holds the contact; the rows before it hold none.\<close>

lemma overlap_rows_contact:
  assumes m: "mask_ok ma" "mask_ok mb"
    and o: "overlap_rows ma ax ay mb (bx - ax) (by' - ay) (scan_left order) (band_rows ma mb (by' - ay) order) = Some p"
  shows "\<exists>x y. common_pixel ma ax ay mb bx by' x y \<and> p = (i16 x, i16 y) \<and>
    (\<forall>x' y'. common_pixel ma ax ay mb bx by' x' y' \<longrightarrow> scan_before order (x, y) (x', y'))"
proof -
  let ?dx = "bx - ax" and ?dy = "by' - ay"
  obtain us y vs where s: "band_rows ma mb ?dy order = us @ y # vs"
    and us: "\<forall>u \<in> set us. both_rows ma mb ?dx ?dy u = 0" and nz: "both_rows ma mb ?dx ?dy y \<noteq> 0"
    and p: "p = (i16 (ax + int (if scan_left order then first_left (both_rows ma mb ?dx ?dy y)
                         else first_right (both_rows ma mb ?dx ?dy y))), i16 (ay + y))"
    using o by (rule overlap_rows_Some)
  define c where "c = int (if scan_left order then first_left (both_rows ma mb ?dx ?dy y)
      else first_right (both_rows ma mb ?dx ?dy y))"
  have iny: "y \<in> set (band_rows ma mb ?dy order)" using s by simp
  then have y: "0 \<le> y" "y < int (mk_h ma)" "0 \<le> y - ?dy" "y - ?dy < int (mk_h mb)"
    by (auto simp: band_rows_set)
  note first = both_rows_first [OF m y nz, where left = "scan_left order", folded c_def]
  have hit: "common_pixel ma ax ay mb bx by' (ax + c) (ay + y)"
    using first(1) by (simp add: common_pixel_row)
  have before: "scan_before order (ax + c, ay + y) (x', y')" if g: "common_pixel ma ax ay mb bx by' x' y'" for x' y'
  proof -
    have g': "hx421_mask_get ma (x' - ax) (y' - ay)" "hx421_mask_get mb (x' - ax - ?dx) (y' - ay - ?dy)"
      using g by (simp_all add: common_pixel_row)
    have inb: "y' - ay \<in> set (band_rows ma mb ?dy order)" using common_pixel_band(2) [OF g] .
    then have b: "0 \<le> y' - ay" "y' - ay < int (mk_h ma)" "0 \<le> y' - ay - ?dy" "y' - ay - ?dy < int (mk_h mb)"
      by (auto simp: band_rows_set)
    have "y' - ay \<notin> set us" using us both_rows_zero [OF m b, of ?dx] g' by blast
    then consider "y' - ay = y" | "y' - ay \<in> set vs" using inb s by auto
    then show ?thesis
    proof cases
      case 1
      then have "if scan_left order then c \<le> x' - ax else x' - ax \<le> c" using first(2) [of "x' - ax"] g' by simp
      then show ?thesis using 1 by (auto simp: scan_before_def split: if_splits)
    next
      case 2
      have "if scan_down order then y < y' - ay else y' - ay < y"
        using band_rows_sorted [of order ma mb ?dy] s 2 by (simp add: sorted_wrt_append)
      then show ?thesis by (auto simp: scan_before_def split: if_splits)
    qed
  qed
  show ?thesis using hit before p by (intro exI [of _ "ax + c"] exI [of _ "ay + y"]) (simp add: c_def)
qed

text \<open>
  C23: The word-wise overlap test of two sprite masks is the per-pixel test: no contact is
  reported exactly when the placed masks share no set pixel, and a reported contact is a shared
  pixel, the first one in the scan order asked for (as 16-bit coordinates).
\<close>
theorem mask_overlap_first_contact:
  assumes "mask_ok ma" and "mask_ok mb"
  shows "case hx421_mask_overlap ma ax ay mb bx by' order of
      None \<Rightarrow> (\<forall>x y. \<not> common_pixel ma ax ay mb bx by' x y)
    | Some p \<Rightarrow> \<exists>x y. common_pixel ma ax ay mb bx by' x y \<and> p = (i16 x, i16 y) \<and>
        (\<forall>x' y'. common_pixel ma ax ay mb bx by' x' y' \<longrightarrow> scan_before order (x, y) (x', y'))"
proof (cases "hx421_mask_overlap ma ax ay mb bx by' order")
  case (Some p)
  then have "overlap_rows ma ax ay mb (bx - ax) (by' - ay) (scan_left order) (band_rows ma mb (by' - ay) order) = Some p"
    using mask_overlap_rows [OF assms] by (simp split: if_splits)
  from overlap_rows_contact [OF assms this] show ?thesis by (simp only: Some option.case)
next
  case None
  have False if g: "common_pixel ma ax ay mb bx by' x y" for x y
  proof -
    have z: "both_rows ma mb (bx - ax) (by' - ay) (y - ay) = 0"
      using None mask_overlap_rows [OF assms, where ax = ax and ay = ay and bx = bx and by' = by' and order = order]
        common_pixel_band(1) [OF g] common_pixel_band(2) [OF g, of order]
      by (simp add: overlap_rows_None)
    have "y - ay \<in> set (band_rows ma mb (by' - ay) order)" using g by (rule common_pixel_band)
    then have "0 \<le> y - ay" "y - ay < int (mk_h ma)" "0 \<le> y - ay - (by' - ay)" "y - ay - (by' - ay) < int (mk_h mb)"
      by (auto simp: band_rows_set)
    from both_rows_zero [OF assms this, of "bx - ax"] z g show False
      unfolding common_pixel_row by blast
  qed
  then show ?thesis using None by auto
qed

theorem mask_overlap_first_contact_witness:
  "let m = \<lparr>mk_w = 3, mk_h = 2, mk_stride = 1, mk_bits = [0x60, 0xA0]\<rparr> in
   hx421_mask_overlap m 10 20 m 11 21 HX421_SCAN_BOTTOMLEFT = Some (12, 21) \<and>
   (case hx421_mask_overlap m 10 20 m 11 21 HX421_SCAN_BOTTOMLEFT of
      None \<Rightarrow> (\<forall>x y. \<not> common_pixel m 10 20 m 11 21 x y)
    | Some p \<Rightarrow> \<exists>x y. common_pixel m 10 20 m 11 21 x y \<and> p = (i16 x, i16 y) \<and>
        (\<forall>x' y'. common_pixel m 10 20 m 11 21 x' y' \<longrightarrow> scan_before HX421_SCAN_BOTTOMLEFT (x, y) (x', y')))"
proof -
  let ?m = "\<lparr>mk_w = 3, mk_h = 2, mk_stride = 1, mk_bits = [0x60, 0xA0]\<rparr> :: sprite_mask"
  have "hx421_mask_overlap ?m 10 20 ?m 11 21 HX421_SCAN_BOTTOMLEFT = Some (12, 21)" by code_simp
  moreover have "mask_ok ?m" by (simp add: mask_ok_def)
  ultimately show ?thesis
    unfolding Let_def using mask_overlap_first_contact [of ?m ?m 10 20 11 21 HX421_SCAN_BOTTOMLEFT] by blast
qed

section \<open>Derivation\<close>

definition px_at :: "nat \<Rightarrow> byte list \<Rightarrow> nat \<Rightarrow> nat \<Rightarrow> bool" where
  "px_at stride bits x y \<longleftrightarrow> bit (bits ! (y * stride + x div 8)) (7 - x mod 8)"

text \<open>A step that adds a set of pixels to the mask and touches nothing behind it.\<close>

definition adds_pixels :: "nat \<Rightarrow> nat \<Rightarrow> (byte list \<Rightarrow> byte list) \<Rightarrow> (nat \<times> nat \<Rightarrow> bool) \<Rightarrow> bool" where
  "adds_pixels w h f S \<longleftrightarrow> (let stride = (w + 7) div 8 in
     \<forall>bits. stride * h \<le> length bits \<longrightarrow>
       length (f bits) = length bits \<and> drop (stride * h) (f bits) = drop (stride * h) bits \<and>
       (\<forall>x < w. \<forall>y < h. px_at stride (f bits) x y \<longleftrightarrow> px_at stride bits x y \<or> S (x, y)))"

lemma adds_none: "(\<And>x y. x < w \<Longrightarrow> y < h \<Longrightarrow> \<not> S (x, y)) \<Longrightarrow> adds_pixels w h (\<lambda>b. b) S"
  by (auto simp: adds_pixels_def Let_def)

lemma adds_cong:
  "adds_pixels w h f S \<Longrightarrow> (\<And>x y. x < w \<Longrightarrow> y < h \<Longrightarrow> S (x, y) = S' (x, y)) \<Longrightarrow> adds_pixels w h f S'"
  by (simp add: adds_pixels_def Let_def)

lemma adds_foldl:
  assumes "\<And>t. t \<in> set ts \<Longrightarrow> adds_pixels w h (\<lambda>b. f b t) (S t)"
  shows "adds_pixels w h (\<lambda>b. foldl f b ts) (\<lambda>p. \<exists>t \<in> set ts. S t p)"
  using assms by (induction ts rule: rev_induct) (auto simp: adds_pixels_def Let_def)

lemma row_column_unique:
  assumes "y * s + a = y' * s + a'" and "a < s" and "a' < (s :: nat)"
  shows "y = y' \<and> a = a'"
proof -
  have "(y * s + a) div s = y" "(y' * s + a') div s = y'" using assms(2,3) by auto
  then have "y = y'" using assms(1) by simp
  then show ?thesis using assms(1) by simp
qed

lemma top_bit_shift:
  assumes "r < 8"
  shows "bit (drop_bit r (0x80 :: byte)) k \<longleftrightarrow> k = 7 - r"
proof -
  have e: "(0x80 :: byte) = 2 ^ 7" by simp
  have "bit (0x80 :: byte) (r + k) \<longleftrightarrow> r + k = 7" unfolding e bit_exp_iff by auto
  then show ?thesis unfolding bit_drop_bit_eq o_apply using assms by linarith
qed

lemma adds_mask_set:
  assumes "x0 < w" and "y0 < h"
  shows "adds_pixels w h (\<lambda>b. mask_set b ((w + 7) div 8) x0 y0) (\<lambda>p. p = (x0, y0))"
proof -
  define s where "s = (w + 7) div 8"
  define i where "i = y0 * s + x0 div 8"
  have d: "x div 8 < s" if "x < w" for x using that by (auto simp: s_def)
  have "i < y0 * s + s" using d [OF assms(1)] by (simp add: i_def)
  also have "\<dots> = Suc y0 * s" by simp
  also have "\<dots> \<le> h * s" using assms(2) by (intro mult_le_mono1) simp
  finally have i: "i < s * h" by (simp add: mult.commute)
  have px: "px_at s (b[i := b ! i OR drop_bit (x0 mod 8) 0x80]) x y \<longleftrightarrow> px_at s b x y \<or> x = x0 \<and> y = y0"
    if "s * h \<le> length b" "x < w" for b x y
  proof (cases "y * s + x div 8 = i")
    case True
    then have u: "y = y0 \<and> x div 8 = x0 div 8"
      unfolding i_def using d [OF that(2)] d [OF assms(1)] by (intro row_column_unique)
    have "7 - x mod 8 = 7 - x0 mod 8 \<longleftrightarrow> x mod 8 = x0 mod 8"
      using mod_less_divisor [of 8 x] mod_less_divisor [of 8 x0] by linarith
    also have "\<dots> \<longleftrightarrow> x = x0" using u by (metis div_mod_decomp)
    finally show ?thesis
      using True u i that top_bit_shift [of "x0 mod 8" "7 - x mod 8"] by (auto simp: px_at_def bit_or_iff)
  next
    case False
    then have "\<not> (x = x0 \<and> y = y0)" by (auto simp: i_def)
    then show ?thesis using False by (auto simp: px_at_def)
  qed
  show ?thesis
    using px i by (auto simp: adds_pixels_def Let_def mask_set_def s_def [symmetric] i_def [symmetric])
qed

definition part_pixel :: "sprite_part \<Rightarrow> int \<Rightarrow> int \<Rightarrow> bool" where
  "part_pixel sp x y \<longleftrightarrow> (\<exists>chr ty tx row col. sp_chr sp = Some chr \<and>
     ty < sp_tiles_h sp \<and> tx < sp_tiles_w sp \<and> row < 8 \<and> col < 8 \<and>
     x = sp_ox sp + int (tx * 8) + int col \<and> y = sp_oy sp + int (ty * 8) + int row \<and>
     bit (tile_row_nonzero (drop ((ty * (if sp_row_stride sp \<noteq> 0 then sp_row_stride sp else sp_tiles_w sp) + tx) * 32) chr) row)
       (7 - col))"

lemma derive_pixel_adds:
  assumes "y0 < h"
  shows "adds_pixels w h (\<lambda>b. derive_pixel w ((w + 7) div 8) nz x0 y0 b col)
    (\<lambda>p. bit nz (7 - col) \<and> int (fst p) = x0 + int col \<and> snd p = y0)"
proof (cases "bit nz (7 - col) \<and> 0 \<le> x0 + int col \<and> x0 + int col < int w")
  case True
  then have "adds_pixels w h (\<lambda>b. mask_set b ((w + 7) div 8) (nat (x0 + int col)) y0) (\<lambda>p. p = (nat (x0 + int col), y0))"
    using assms by (intro adds_mask_set) auto
  moreover have "derive_pixel w ((w + 7) div 8) nz x0 y0 b col = mask_set b ((w + 7) div 8) (nat (x0 + int col)) y0" for b
    using True and_one_bit [of "7 - col" nz] by (simp add: derive_pixel_def Let_def)
  ultimately show ?thesis using True by (auto elim!: adds_cong)
next
  case False
  then have "derive_pixel w ((w + 7) div 8) nz x0 y0 b col = b" for b
    using and_one_bit [of "7 - col" nz] by (auto simp: derive_pixel_def Let_def)
  then show ?thesis using False by (auto intro!: adds_none)
qed

definition row_pixel :: "byte list \<Rightarrow> int \<Rightarrow> int \<Rightarrow> nat \<Rightarrow> nat \<times> nat \<Rightarrow> bool" where
  "row_pixel tile x0 y0 row p \<longleftrightarrow> int (snd p) = y0 + int row \<and>
     (\<exists>col < 8. bit (tile_row_nonzero tile row) (7 - col) \<and> int (fst p) = x0 + int col)"

lemma derive_row_adds:
  "adds_pixels w h (\<lambda>b. derive_row w h ((w + 7) div 8) tile x0 y0 b row) (row_pixel tile x0 y0 row)"
proof (cases "tile_row_nonzero tile row = 0 \<or> y0 + int row < 0 \<or> int h \<le> y0 + int row")
  case True
  then have "derive_row w h ((w + 7) div 8) tile x0 y0 b row = b" for b
    by (auto simp: derive_row_def Let_def)
  then show ?thesis using True by (auto intro!: adds_none simp: row_pixel_def)
next
  case False
  let ?nz = "tile_row_nonzero tile row" and ?y = "nat (y0 + int row)"
  have e: "derive_row w h ((w + 7) div 8) tile x0 y0 b row =
      foldl (derive_pixel w ((w + 7) div 8) ?nz x0 ?y) b [0..<8]" for b
    using False by (simp add: derive_row_def Let_def)
  have "?y < h" using False by linarith
  then have "adds_pixels w h (\<lambda>b. foldl (derive_pixel w ((w + 7) div 8) ?nz x0 ?y) b [0..<8])
      (\<lambda>p. \<exists>col \<in> set [0..<8]. bit ?nz (7 - col) \<and> int (fst p) = x0 + int col \<and> snd p = ?y)"
    by (intro adds_foldl derive_pixel_adds)
  then show ?thesis using False unfolding e by (elim adds_cong) (auto simp: row_pixel_def)
qed

definition tile_of :: "sprite_part \<Rightarrow> byte list \<Rightarrow> nat \<Rightarrow> nat \<Rightarrow> byte list" where
  "tile_of sp chr ty tx =
     drop ((ty * (if sp_row_stride sp \<noteq> 0 then sp_row_stride sp else sp_tiles_w sp) + tx) * 32) chr"

lemma derive_tile_adds:
  "adds_pixels w h (\<lambda>b. derive_tile w h ((w + 7) div 8) sp chr b t)
     (\<lambda>p. \<exists>row \<in> {..<8}. row_pixel (tile_of sp chr (fst t) (snd t)) (sp_ox sp + int (snd t * 8))
        (sp_oy sp + int (fst t * 8)) row p)"
proof -
  have "derive_tile w h ((w + 7) div 8) sp chr b t =
      foldl (derive_row w h ((w + 7) div 8) (tile_of sp chr (fst t) (snd t)) (sp_ox sp + int (snd t * 8))
        (sp_oy sp + int (fst t * 8))) b [0..<8]" for b
    by (simp add: derive_tile_def tile_of_def Let_def split: prod.splits)
  then show ?thesis
    unfolding lessThan_atLeast0 atLeastLessThan_upt by (auto simp only: intro!: adds_foldl derive_row_adds)
qed

lemma derive_part_adds:
  "adds_pixels w h (\<lambda>b. derive_part w h ((w + 7) div 8) b sp) (\<lambda>p. part_pixel sp (int (fst p)) (int (snd p)))"
proof (cases "sp_chr sp")
  case None
  then show ?thesis by (auto simp: derive_part_def part_pixel_def intro!: adds_none)
next
  case (Some chr)
  show ?thesis
  proof (cases "sp_tiles_w sp = 0 \<or> sp_tiles_h sp = 0")
    case True
    then have "derive_part w h ((w + 7) div 8) b sp = b" for b by (auto simp: derive_part_def Some)
    then show ?thesis using True by (auto simp: part_pixel_def intro!: adds_none)
  next
    case False
    let ?ts = "List.product [0..<sp_tiles_h sp] [0..<sp_tiles_w sp]"
    have e: "derive_part w h ((w + 7) div 8) b sp = foldl (derive_tile w h ((w + 7) div 8) sp chr) b ?ts" for b
      using False by (simp add: derive_part_def Some)
    have p: "part_pixel sp x y \<longleftrightarrow> (\<exists>ty < sp_tiles_h sp. \<exists>tx < sp_tiles_w sp. \<exists>row < 8. \<exists>col < 8.
        x = sp_ox sp + int (tx * 8) + int col \<and> y = sp_oy sp + int (ty * 8) + int row \<and>
        bit (tile_row_nonzero (tile_of sp chr ty tx) row) (7 - col))" for x y
      unfolding part_pixel_def Some tile_of_def [symmetric] by (simp only: option.inject) blast
    have "adds_pixels w h (\<lambda>b. foldl (derive_tile w h ((w + 7) div 8) sp chr) b ?ts)
      (\<lambda>p. \<exists>t \<in> set ?ts. \<exists>row \<in> {..<8}. row_pixel (tile_of sp chr (fst t) (snd t)) (sp_ox sp + int (snd t * 8))
        (sp_oy sp + int (fst t * 8)) row p)"
      by (intro adds_foldl derive_tile_adds)
    then show ?thesis unfolding e by (elim adds_cong) (force simp: p row_pixel_def)
  qed
qed

text \<open>
  C24: Deriving a mask from an actor's sprite parts sets exactly the pixels at which some part
  has a tile pixel with a non-zero colour index, clears every other pixel of the mask, writes
  \<open>stride * h\<close> bytes and leaves the caller's buffer behind them alone.
\<close>
theorem derive_mask_exact:
  assumes "0 < w" and "w \<le> HX421_MASK_MAX_W" and "0 < h" and "h \<le> HX421_MASK_MAX_H"
    and "(w + 7) div 8 * h \<le> cap" and "cap \<le> length bits"
  shows "let r = hx421_derive_mask parts w h bits cap; stride = (w + 7) div 8;
      m = \<lparr>mk_w = w, mk_h = h, mk_stride = stride, mk_bits = snd r\<rparr>
    in fst r = stride * h \<and> drop (stride * h) (snd r) = drop (stride * h) bits \<and>
      (\<forall>x y. hx421_mask_get m x y \<longleftrightarrow>
         0 \<le> x \<and> x < int w \<and> 0 \<le> y \<and> y < int h \<and> (\<exists>sp \<in> set parts. part_pixel sp x y))"
proof -
  define s where "s = (w + 7) div 8"
  define z where "z = replicate (s * h) (0 :: byte) @ drop (s * h) bits"
  have n: "s * h \<le> length bits" "length z = length bits" using assms(5,6) by (simp_all add: s_def z_def)
  define r where "r = foldl (derive_part w h s) z parts"
  have run: "hx421_derive_mask parts w h bits cap = (s * h, r)"
    using assms by (simp add: hx421_derive_mask_def s_def z_def r_def Let_def)
  have clear: "\<not> px_at s z x y" if "x < w" "y < h" for x y
  proof -
    have "x div 8 < s" using that(1) by (auto simp: s_def)
    then have "y * s + x div 8 < Suc y * s" by simp
    also have "\<dots> \<le> h * s" using that(2) by (intro mult_le_mono1) simp
    finally show ?thesis by (simp add: px_at_def z_def nth_append mult.commute)
  qed
  have part: "adds_pixels w h (\<lambda>b. foldl (derive_part w h ((w + 7) div 8)) b parts)
      (\<lambda>p. \<exists>sp \<in> set parts. part_pixel sp (int (fst p)) (int (snd p)))"
    by (intro adds_foldl derive_part_adds)
  have add: "drop (s * h) r = drop (s * h) z" "\<forall>x < w. \<forall>y < h. px_at s r x y \<longleftrightarrow>
      px_at s z x y \<or> (\<exists>sp \<in> set parts. part_pixel sp (int x) (int y))"
    using part n by (simp_all add: adds_pixels_def Let_def s_def [symmetric] r_def)
  have get: "hx421_mask_get \<lparr>mk_w = w, mk_h = h, mk_stride = s, mk_bits = r\<rparr> x y \<longleftrightarrow>
      0 \<le> x \<and> x < int w \<and> 0 \<le> y \<and> y < int h \<and> (\<exists>sp \<in> set parts. part_pixel sp x y)" for x y
  proof (cases "0 \<le> x \<and> x < int w \<and> 0 \<le> y \<and> y < int h")
    case True
    then have "nat x < w" "nat y < h" by auto
    then have "px_at s r (nat x) (nat y) \<longleftrightarrow> (\<exists>sp \<in> set parts. part_pixel sp x y)"
      using add(2) clear True by auto
    then show ?thesis using True by (simp add: mask_get_bit px_at_def)
  next
    case False
    then show ?thesis by (auto simp: hx421_mask_get_def)
  qed
  show ?thesis using get add(1) by (simp add: run s_def [symmetric] Let_def z_def)
qed

theorem derive_mask_exact_witness:
  "let sp = \<lparr>sp_chr = Some (replicate 17 0 @ [0xC0] @ replicate 14 0), sp_tiles_w = 1, sp_tiles_h = 1,
       sp_row_stride = 0, sp_ox = - 1, sp_oy = 2\<rparr>;
     r = hx421_derive_mask [sp] 10 4 (replicate 9 7) 8;
     m = \<lparr>mk_w = 10, mk_h = 4, mk_stride = 2, mk_bits = snd r\<rparr>
   in snd r = [0, 0, 0, 0, 0x80, 0, 0, 0, 7] \<and> hx421_mask_get m 0 2 \<and> part_pixel sp 0 2"
proof -
  let ?sp = "\<lparr>sp_chr = Some (replicate 17 0 @ [0xC0] @ replicate 14 0), sp_tiles_w = 1, sp_tiles_h = 1,
       sp_row_stride = 0, sp_ox = - 1, sp_oy = 2\<rparr> :: sprite_part"
  have r: "hx421_derive_mask [?sp] 10 4 (replicate 9 7) 8 = (8, [0, 0, 0, 0, 0x80, 0, 0, 0, 7])" by code_simp
  have g: "hx421_mask_get \<lparr>mk_w = 10, mk_h = 4, mk_stride = 2, mk_bits = [0, 0, 0, 0, 0x80, 0, 0, 0, 7]\<rparr> 0 2"
    by code_simp
  have "part_pixel ?sp 0 2"
    using derive_mask_exact [of 10 4 8 "replicate 9 7" "[?sp]"] g unfolding r
    by (simp add: HX421_MASK_MAX_W_def HX421_MASK_MAX_H_def Let_def)
  then show ?thesis unfolding Let_def using r g by simp
qed

end
