(* ===== verification/Raster.thy ===== *)
theory Raster
  imports HXBase
begin

text \<open>
  \<^verbatim>\<open>runtime/hx421_raster.c\<close>: the tile rasteriser.  A tile is 8 by 8 pixels with a colour
  index and a depth each; triangles are flat-shaded and tested against the tile's depths.
  Screen coordinates carry 8 fractional bits.  The coordinate differences are 32-bit and reduced with
  \<^const>\<open>i32\<close>; the edge and depth arithmetic is 64-bit and reduced with \<^const>\<open>i64\<close> wherever a result
  can leave that range (the code has no defined value there).
\<close>

section \<open>Data\<close>

definition HX421_TILE :: nat where "HX421_TILE = 8"
definition HX421_TPIX :: nat where "HX421_TPIX = 64"
definition HX421_ONE :: int where "HX421_ONE = 256"
definition HX421_ZFAR :: nat where "HX421_ZFAR = 0xFFFF"
definition HX421_SOLID_BASE :: nat where "HX421_SOLID_BASE = 0"
definition HX421_DYN_BASE :: nat where "HX421_DYN_BASE = 16"
definition HX421_DYN_SLOTS :: nat where "HX421_DYN_SLOTS = 750"
definition HX421_MAP_W :: nat where "HX421_MAP_W = 32"
definition HX421_MAP_H :: nat where "HX421_MAP_H = 32"

record vtx =
  vt_x :: int
  vt_y :: int
  vt_z :: nat

record tri =
  tr_v0 :: vtx
  tr_v1 :: vtx
  tr_v2 :: vtx
  tr_color :: nat

datatype tile_kind = HX421_TILE_EMPTY | HX421_TILE_SOLID | HX421_TILE_MIXED

record render_out =
  ro_tilemap :: "nat list"
  ro_chr :: "byte list"
  ro_used :: nat
  ro_n_empty :: nat
  ro_n_solid :: nat
  ro_n_mixed :: nat
  ro_n_degraded :: nat

section \<open>One tile\<close>

definition hx421_tile_clear :: "nat list \<times> nat list" where
  "hx421_tile_clear = (replicate HX421_TPIX 0, replicate HX421_TPIX HX421_ZFAR)"

definition lowest :: "int \<Rightarrow> int \<Rightarrow> int \<Rightarrow> int" where
  "lowest a b c = (let m = (if b < a then b else a) in if c < m then c else m)"

definition highest :: "int \<Rightarrow> int \<Rightarrow> int \<Rightarrow> int" where
  "highest a b c = (let m = (if a < b then b else a) in if m < c then c else m)"

definition hx421_tri_touches_tile :: "tri \<Rightarrow> int \<Rightarrow> int \<Rightarrow> bool" where
  "hx421_tri_touches_tile t tx ty =
     (let minx = lowest (vt_x (tr_v0 t)) (vt_x (tr_v1 t)) (vt_x (tr_v2 t));
          maxx = highest (vt_x (tr_v0 t)) (vt_x (tr_v1 t)) (vt_x (tr_v2 t));
          miny = lowest (vt_y (tr_v0 t)) (vt_y (tr_v1 t)) (vt_y (tr_v2 t));
          maxy = highest (vt_y (tr_v0 t)) (vt_y (tr_v1 t)) (vt_y (tr_v2 t));
          x0 = tx * 8 * HX421_ONE; y0 = ty * 8 * HX421_ONE;
          x1 = x0 + 8 * HX421_ONE; y1 = y0 + 8 * HX421_ONE
      in \<not> (maxx < x0 \<or> x1 \<le> minx \<or> maxy < y0 \<or> y1 \<le> miny))"

text \<open>
  The setup of a triangle: vertex 0, the edge coefficients, the edge values at the first pixel
  centre, the depth numerators and the area.
\<close>

record edges =
  ed_A :: "int \<times> int \<times> int"
  ed_B :: "int \<times> int \<times> int"
  ed_area :: int
  ed_zdx :: int
  ed_zdy :: int

definition tri_setup :: "tri \<Rightarrow> edges" where
  "tri_setup t =
     (let x0 = vt_x (tr_v0 t); y0 = vt_y (tr_v0 t); x1 = vt_x (tr_v1 t); y1 = vt_y (tr_v1 t);
          x2 = vt_x (tr_v2 t); y2 = vt_y (tr_v2 t);
          dz1 = int (vt_z (tr_v1 t)) - int (vt_z (tr_v0 t)); dz2 = int (vt_z (tr_v2 t)) - int (vt_z (tr_v0 t))
      in \<lparr>ed_A = (i32 (- (y1 - y0)), i32 (- (y2 - y1)), i32 (- (y0 - y2))),
          ed_B = (i32 (x1 - x0), i32 (x2 - x1), i32 (x0 - x2)),
          ed_area = i64 (i32 (x1 - x0) * i32 (y2 - y0) - i32 (y1 - y0) * i32 (x2 - x0)),
          ed_zdx = dz1 * i32 (y2 - y0) - dz2 * i32 (y1 - y0),
          ed_zdy = dz2 * i32 (x1 - x0) - dz1 * i32 (x2 - x0)\<rparr>)"

definition edges_at :: "tri \<Rightarrow> edges \<Rightarrow> int \<Rightarrow> int \<Rightarrow> int \<times> int \<times> int" where
  "edges_at t ed ox oy =
     (case ed_A ed of (a0, a1, a2) \<Rightarrow> case ed_B ed of (b0, b1, b2) \<Rightarrow>
        (i64 (a0 * i32 (ox - vt_x (tr_v0 t)) + b0 * i32 (oy - vt_y (tr_v0 t))),
         i64 (a1 * i32 (ox - vt_x (tr_v1 t)) + b1 * i32 (oy - vt_y (tr_v1 t))),
         i64 (a2 * i32 (ox - vt_x (tr_v2 t)) + b2 * i32 (oy - vt_y (tr_v2 t)))))"

definition step3 :: "int \<times> int \<times> int \<Rightarrow> int \<times> int \<times> int \<Rightarrow> int \<times> int \<times> int" where
  "step3 c e = (case c of (c0, c1, c2) \<Rightarrow> case e of (e0, e1, e2) \<Rightarrow>
     (i64 (e0 + c0 * HX421_ONE), i64 (e1 + c1 * HX421_ONE), i64 (e2 + c2 * HX421_ONE)))"

definition inside3 :: "int \<times> int \<times> int \<Rightarrow> bool" where
  "inside3 r = (case r of (r0, r1, r2) \<Rightarrow> 0 \<le> r0 OR r1 OR r2)"

definition pixel_depth :: "tri \<Rightarrow> edges \<Rightarrow> int \<Rightarrow> int \<Rightarrow> nat \<Rightarrow> nat \<Rightarrow> nat" where
  "pixel_depth t ed ox oy px py =
     (let dx = ox + int px * HX421_ONE - vt_x (tr_v0 t);
          dy = oy + int py * HX421_ONE - vt_y (tr_v0 t);
          zz = int (vt_z (tr_v0 t)) + cdiv (i64 (i64 (ed_zdx ed * dx) + i64 (ed_zdy ed * dy))) (ed_area ed);
          zz = (if zz < 0 then 0 else zz);
          zz = (if int HX421_ZFAR < zz then int HX421_ZFAR else zz)
      in u16 (nat zz))"

text \<open>The tile while it is drawn: the colour indices, the depths, the pixels written.\<close>

type_synonym tile = "nat list \<times> nat list \<times> nat"

definition plot :: "tri \<Rightarrow> nat \<Rightarrow> nat \<Rightarrow> tile \<Rightarrow> tile" where
  "plot t o' zz s =
     (case s of (idx, zbuf, written) \<Rightarrow>
        if zz < zbuf ! o' then (idx[o' := tr_color t], zbuf[o' := zz], written + 1) else s)"

text \<open>The two pixel loops, with the edge values stepped as the code steps them.\<close>

fun raster_row :: "tri \<Rightarrow> edges \<Rightarrow> int \<Rightarrow> int \<Rightarrow> nat \<Rightarrow> nat list \<Rightarrow> int \<times> int \<times> int \<Rightarrow> tile \<Rightarrow> tile" where
  "raster_row t ed ox oy py [] r s = s"
| "raster_row t ed ox oy py (px # pxs) r s =
     raster_row t ed ox oy py pxs (step3 (ed_A ed) r)
       (if inside3 r then plot t (py * 8 + px) (pixel_depth t ed ox oy px py) s else s)"

fun raster_rows :: "tri \<Rightarrow> edges \<Rightarrow> int \<Rightarrow> int \<Rightarrow> nat list \<Rightarrow> int \<times> int \<times> int \<Rightarrow> tile \<Rightarrow> tile" where
  "raster_rows t ed ox oy [] e s = s"
| "raster_rows t ed ox oy (py # pys) e s =
     raster_rows t ed ox oy pys (step3 (ed_B ed) e) (raster_row t ed ox oy py [0..<8] e s)"

definition raster_tri :: "int \<Rightarrow> int \<Rightarrow> tile \<Rightarrow> tri \<Rightarrow> tile" where
  "raster_tri tx ty s t =
     (let ox = tx * 8 * HX421_ONE + HX421_ONE div 2; oy = ty * 8 * HX421_ONE + HX421_ONE div 2;
          ed = tri_setup t
      in if tr_color t = 0 then s
         else if \<not> hx421_tri_touches_tile t tx ty then s
         else if ed_area ed \<le> 0 then s
         else raster_rows t ed ox oy [0..<8] (edges_at t ed ox oy) s)"

definition hx421_raster_tile :: "tri list \<Rightarrow> int \<Rightarrow> int \<Rightarrow> nat list \<Rightarrow> nat list \<Rightarrow> tile" where
  "hx421_raster_tile tris tx ty idx zbuf = foldl (raster_tri tx ty) (idx, zbuf, 0) tris"

definition hx421_tile_classify :: "nat list \<Rightarrow> tile_kind \<times> nat option" where
  "hx421_tile_classify idx =
     (let first = idx ! 0 in
      if \<exists>i \<in> set [1..<HX421_TPIX]. idx ! i \<noteq> first then (HX421_TILE_MIXED, None)
      else if first = 0 then (HX421_TILE_EMPTY, None)
      else (HX421_TILE_SOLID, Some first))"

section \<open>Packing\<close>

definition pack_plane :: "nat list \<Rightarrow> nat \<Rightarrow> nat \<Rightarrow> byte" where
  "pack_plane idx k y =
     foldl (\<lambda>p x. if (idx ! (y * 8 + x) mod 16) div 2 ^ k mod 2 = 1 then p OR drop_bit x 0x80 else p) 0 [0..<8]"

definition pack_row :: "nat list \<Rightarrow> byte list \<Rightarrow> nat \<Rightarrow> byte list" where
  "pack_row idx out y =
     out[2 * y := pack_plane idx 0 y, 2 * y + 1 := pack_plane idx 1 y,
         16 + 2 * y := pack_plane idx 2 y, 16 + 2 * y + 1 := pack_plane idx 3 y]"

definition hx421_tile_pack4bpp :: "nat list \<Rightarrow> byte list" where
  "hx421_tile_pack4bpp idx = foldl (pack_row idx) (replicate 32 0) [0..<8]"

definition hx421_build_solid_tiles :: "byte list" where
  "hx421_build_solid_tiles = concat (map (\<lambda>c. hx421_tile_pack4bpp (replicate HX421_TPIX c)) [0..<16])"

section \<open>Frames\<close>

definition dominant_index :: "nat list \<Rightarrow> nat" where
  "dominant_index idx =
     (let hist = foldl (\<lambda>h i. h[idx ! i mod 16 := h ! (idx ! i mod 16) + 1]) (replicate 16 (0 :: nat)) [0..<HX421_TPIX];
          (best, bestn) = foldl (\<lambda>(best, bestn) c. if bestn < hist ! c then (c, hist ! c) else (best, bestn)) (1, 0) [1..<16]
      in if bestn \<noteq> 0 then best else 0)"

text \<open>The switch over the kind of a tile: the census, the character data and the tile number.\<close>

definition place_tile :: "render_out \<Rightarrow> nat list \<Rightarrow> render_out \<times> nat" where
  "place_tile out idx =
     (case hx421_tile_classify idx of
        (HX421_TILE_EMPTY, _) \<Rightarrow> (out\<lparr>ro_n_empty := u16 (ro_n_empty out + 1)\<rparr>, HX421_SOLID_BASE)
      | (HX421_TILE_SOLID, c) \<Rightarrow>
          (out\<lparr>ro_n_solid := u16 (ro_n_solid out + 1)\<rparr>,
           HX421_SOLID_BASE + (case c of Some solid \<Rightarrow> solid | None \<Rightarrow> 0))
      | (HX421_TILE_MIXED, _) \<Rightarrow>
          let out = out\<lparr>ro_n_mixed := u16 (ro_n_mixed out + 1)\<rparr> in
          if ro_used out < HX421_DYN_SLOTS
          then (out\<lparr>ro_chr := blit (ro_chr out) (ro_used out * 32) (hx421_tile_pack4bpp idx),
                    ro_used := ro_used out + 1\<rparr>,
                HX421_DYN_BASE + ro_used out)
          else (out\<lparr>ro_n_degraded := u16 (ro_n_degraded out + 1)\<rparr>,
                HX421_SOLID_BASE + dominant_index idx))"

definition frame_tile :: "tri list \<Rightarrow> nat \<Rightarrow> render_out \<Rightarrow> nat \<times> nat \<Rightarrow> render_out" where
  "frame_tile tris attr out p =
     (case p of (ty, tx) \<Rightarrow>
        let idx = fst (hx421_raster_tile tris (int tx) (int ty) (fst hx421_tile_clear) (snd hx421_tile_clear));
            (out, tile) = place_tile out idx
        in out\<lparr>ro_tilemap := (ro_tilemap out)[ty * HX421_MAP_W + tx := u16 (tile OR attr)]\<rparr>)"

definition hx421_render_frame :: "tri list \<Rightarrow> int \<Rightarrow> int \<Rightarrow> nat \<Rightarrow> render_out \<Rightarrow> render_out" where
  "hx421_render_frame tris tiles_w tiles_h palette out =
     (let out = out\<lparr>ro_used := 0, ro_n_empty := 0, ro_n_solid := 0, ro_n_mixed := 0, ro_n_degraded := 0,
                    ro_tilemap := replicate (HX421_MAP_W * HX421_MAP_H) 0\<rparr>
      in if tris = [] \<or> tiles_w \<le> 0 \<or> tiles_h \<le> 0 then out
         else let w = (if int HX421_MAP_W < tiles_w then HX421_MAP_W else nat tiles_w);
                  h = (if int HX421_MAP_H < tiles_h then HX421_MAP_H else nat tiles_h);
                  attr = u16 (palette mod 8 * 1024)
              in foldl (frame_tile tris attr) out (List.product [0..<h] [0..<w]))"

definition hx421_frame_subframes :: "render_out \<Rightarrow> nat \<Rightarrow> nat" where
  "hx421_frame_subframes out bytes_per_burst =
     (if bytes_per_burst = 0 then 1
      else let bytes = u32 (ro_used out * 32) in
           if bytes = 0 then 1
           else u32 (u32 (u32 (bytes + bytes_per_burst) + (2 ^ 32 - 1)) div bytes_per_burst))"

definition hx421_frame_chunk :: "render_out \<Rightarrow> nat \<Rightarrow> nat \<Rightarrow> (nat \<times> nat) option" where
  "hx421_frame_chunk out bytes_per_burst i =
     (if bytes_per_burst = 0 then None
      else let bytes = u32 (ro_used out * 32); start = u32 (i * bytes_per_burst) in
           if bytes \<le> start then None
           else let n = bytes - start in Some (start, if bytes_per_burst < n then bytes_per_burst else n))"

end
