(* ===== verification/Raster_Spec.thy ===== *)
theory Raster_Spec
  imports Raster Sprite_Mask_Spec
begin

unbundle bit_operations_syntax

text \<open>
  What the rasteriser draws: every pixel ends with the nearest of the triangles that cover its
  centre, the bounding-box reject never loses one, the packed tile holds the colour indices, and
  the assembled frame shows the rasterised tiles within the bounds of its pools.
\<close>

section \<open>Stepped edges\<close>

lemma inside3_iff: "inside3 (a, b, c) \<longleftrightarrow> 0 \<le> a \<and> 0 \<le> b \<and> 0 \<le> c"
  by (simp add: inside3_def or_nonnegative_int_iff)

lemma i64_add_left: "i64 (i64 x + y) = i64 (x + y)"
proof -
  have "((x + 9223372036854775808) mod 18446744073709551616 + y) mod 18446744073709551616 =
      (x + y + 9223372036854775808) mod 18446744073709551616"
    unfolding mod_add_left_eq by (simp add: algebra_simps)
  then show ?thesis by (simp add: i64_def)
qed

lemma i64_add_right: "i64 (x + i64 y) = i64 (x + y)"
  using i64_add_left [of y x] by (simp add: add.commute)

lemma i64_i64 [simp]: "i64 (i64 x) = i64 x"
  using i64_add_left [of x 0] by simp

text \<open>Edge values within 64 bits, and the values \<open>k\<close> steps on.\<close>

definition in64 :: "int \<times> int \<times> int \<Rightarrow> bool" where
  "in64 e \<longleftrightarrow> i64 (fst e) = fst e \<and> i64 (fst (snd e)) = fst (snd e) \<and> i64 (snd (snd e)) = snd (snd e)"

definition stepped :: "int \<times> int \<times> int \<Rightarrow> nat \<Rightarrow> int \<times> int \<times> int \<Rightarrow> int \<times> int \<times> int" where
  "stepped c k e = (i64 (fst e + fst c * (int k * HX421_ONE)), i64 (fst (snd e) + fst (snd c) * (int k * HX421_ONE)),
     i64 (snd (snd e) + snd (snd c) * (int k * HX421_ONE)))"

lemma stepped_0 [simp]: "in64 e \<Longrightarrow> stepped c 0 e = e"
  by (simp add: stepped_def in64_def)

lemma stepped_in64 [simp]: "in64 (stepped c k e)"
  by (simp add: stepped_def in64_def)

lemma edges_in64 [simp]: "in64 (edges_at t ed ox oy)"
  by (simp add: edges_at_def in64_def split: prod.split)

lemma step3_stepped: "step3 c (stepped c k e) = stepped c (Suc k) e"
  by (simp add: stepped_def step3_def split_beta i64_add_left i64_add_right algebra_simps)

definition draw_pixel :: "tri \<Rightarrow> edges \<Rightarrow> int \<Rightarrow> int \<Rightarrow> int \<times> int \<times> int \<Rightarrow> tile \<Rightarrow> nat \<times> nat \<Rightarrow> tile" where
  "draw_pixel t ed ox oy e s p =
     (if inside3 (stepped (ed_A ed) (snd p) (stepped (ed_B ed) (fst p) e))
      then plot t (fst p * 8 + snd p) (pixel_depth t ed ox oy (snd p) (fst p)) s else s)"

lemma raster_row_draw:
  "k \<le> n \<Longrightarrow> raster_row t ed ox oy py [k..<n] (stepped (ed_A ed) k (stepped (ed_B ed) py e)) s =
     foldl (draw_pixel t ed ox oy e) s (map (Pair py) [k..<n])"
proof (induction "n - k" arbitrary: k s)
  case (Suc m)
  then have "[k..<n] = k # [Suc k..<n]" by (simp add: upt_conv_Cons)
  moreover have "m = n - Suc k" "Suc k \<le> n" using Suc.hyps(2) by auto
  ultimately show ?case using Suc.hyps(1) [of "Suc k"] by (simp add: step3_stepped draw_pixel_def)
qed simp

lemma raster_rows_draw:
  "k \<le> n \<Longrightarrow> raster_rows t ed ox oy [k..<n] (stepped (ed_B ed) k e) s =
     foldl (draw_pixel t ed ox oy e) s (List.product [k..<n] [0..<8])"
proof (induction "n - k" arbitrary: k s)
  case (Suc m)
  then have u: "[k..<n] = k # [Suc k..<n]" by (simp add: upt_conv_Cons)
  have r: "raster_row t ed ox oy k [0..<8] (stepped (ed_B ed) k e) s =
      foldl (draw_pixel t ed ox oy e) s (map (Pair k) [0..<8])"
    using raster_row_draw [of 0 8 t ed ox oy k e s] by simp
  have "m = n - Suc k" "Suc k \<le> n" using Suc.hyps(2) by auto
  then show ?case unfolding u raster_rows.simps product.simps foldl_append step3_stepped r
    by (rule Suc.hyps(1))
qed simp

lemma raster_rows_draw_all:
  "in64 e \<Longrightarrow> raster_rows t ed ox oy [0..<8] e s = foldl (draw_pixel t ed ox oy e) s (List.product [0..<8] [0..<8])"
  using raster_rows_draw [of 0 8 t ed ox oy e s] by simp

section \<open>One cell of the tile\<close>

definition tile_ok :: "tile \<Rightarrow> bool" where
  "tile_ok s \<longleftrightarrow> length (fst s) = 64 \<and> length (fst (snd s)) = 64"

definition cell :: "tile \<Rightarrow> nat \<Rightarrow> nat \<times> nat" where
  "cell s q = (fst (snd s) ! q, fst s ! q)"

definition nearer :: "nat \<times> nat \<Rightarrow> nat \<times> nat \<Rightarrow> nat \<times> nat" where
  "nearer old new = (if fst new < fst old then new else old)"

lemma plot_ok: "tile_ok s \<Longrightarrow> tile_ok (plot t q z s)"
  by (simp add: tile_ok_def plot_def split_beta)

lemma cell_plot:
  assumes "tile_ok s" and "q < 64"
  shows "cell (plot t q' z s) q = (if q = q' then nearer (cell s q) (z, tr_color t) else cell s q)"
  using assms by (auto simp: tile_ok_def plot_def cell_def nearer_def split_beta nth_list_update)

lemma draw_pixel_ok: "tile_ok s \<Longrightarrow> tile_ok (draw_pixel t ed ox oy e s p)"
  by (simp add: draw_pixel_def plot_ok)

lemma draw_pixels_ok: "tile_ok s \<Longrightarrow> tile_ok (foldl (draw_pixel t ed ox oy e) s ps)"
  by (induction ps arbitrary: s) (simp_all add: draw_pixel_ok)

lemma cell_draw_pixel:
  assumes "tile_ok s" and "py < 8" and "px < 8" and "fst p < 8" and "snd p < 8"
  shows "cell (draw_pixel t ed ox oy e s p) (py * 8 + px) =
    (if p = (py, px) \<and> inside3 (stepped (ed_A ed) px (stepped (ed_B ed) py e))
     then nearer (cell s (py * 8 + px)) (pixel_depth t ed ox oy px py, tr_color t)
     else cell s (py * 8 + px))"
proof -
  have "py * 8 + px = fst p * 8 + snd p \<longleftrightarrow> p = (py, px)"
    using row_column_unique [of py 8 px "fst p" "snd p"] assms by (cases p) auto
  then show ?thesis using assms by (auto simp: draw_pixel_def cell_plot)
qed

lemma cell_draw_pixels:
  assumes "tile_ok s" and "py < 8" and "px < 8" and "\<forall>p \<in> set ps. fst p < 8 \<and> snd p < 8" and "distinct ps"
  shows "cell (foldl (draw_pixel t ed ox oy e) s ps) (py * 8 + px) =
    (if (py, px) \<in> set ps \<and> inside3 (stepped (ed_A ed) px (stepped (ed_B ed) py e))
     then nearer (cell s (py * 8 + px)) (pixel_depth t ed ox oy px py, tr_color t)
     else cell s (py * 8 + px))"
  using assms
proof (induction ps arbitrary: s)
  case (Cons p ps)
  then show ?case
    using Cons.IH [OF draw_pixel_ok [OF Cons.prems(1), of t ed ox oy e p]] by (auto simp: cell_draw_pixel)
qed simp

lemma cell_raster_rows:
  assumes "tile_ok s" and "py < 8" and "px < 8" and "in64 e"
  shows "cell (raster_rows t ed ox oy [0..<8] e s) (py * 8 + px) =
    (if inside3 (stepped (ed_A ed) px (stepped (ed_B ed) py e))
     then nearer (cell s (py * 8 + px)) (pixel_depth t ed ox oy px py, tr_color t)
     else cell s (py * 8 + px))"
proof -
  let ?ps = "List.product [0..<8] [0..<8] :: (nat \<times> nat) list"
  have "\<forall>p \<in> set ?ps. fst p < 8 \<and> snd p < 8" "(py, px) \<in> set ?ps" using assms(2,3) by auto
  moreover have "distinct ?ps" by (intro distinct_product) simp_all
  ultimately show ?thesis
    using cell_draw_pixels [OF assms(1-3), of ?ps t ed ox oy e] raster_rows_draw_all [OF assms(4), of t ed ox oy s] by simp
qed

section \<open>The geometry of a triangle\<close>

definition cross2 :: "vtx \<Rightarrow> vtx \<Rightarrow> int \<Rightarrow> int \<Rightarrow> int" where
  "cross2 a b X Y = (vt_x b - vt_x a) * (Y - vt_y a) - (vt_y b - vt_y a) * (X - vt_x a)"

definition tri_area :: "tri \<Rightarrow> int" where
  "tri_area t = cross2 (tr_v0 t) (tr_v1 t) (vt_x (tr_v2 t)) (vt_y (tr_v2 t))"

text \<open>A drawn triangle covers a point when the point is on the inner side of its three edges.\<close>

definition covers :: "tri \<Rightarrow> int \<Rightarrow> int \<Rightarrow> bool" where
  "covers t X Y \<longleftrightarrow> tr_color t \<noteq> 0 \<and> 0 < tri_area t \<and> 0 \<le> cross2 (tr_v0 t) (tr_v1 t) X Y \<and>
     0 \<le> cross2 (tr_v1 t) (tr_v2 t) X Y \<and> 0 \<le> cross2 (tr_v2 t) (tr_v0 t) X Y"

text \<open>The depth plane through the vertices, divided towards zero.\<close>

definition plane_depth :: "tri \<Rightarrow> int \<Rightarrow> int \<Rightarrow> int" where
  "plane_depth t X Y =
     (let dz1 = int (vt_z (tr_v1 t)) - int (vt_z (tr_v0 t)); dz2 = int (vt_z (tr_v2 t)) - int (vt_z (tr_v0 t))
      in int (vt_z (tr_v0 t)) +
         cdiv (dz1 * cross2 (tr_v2 t) (tr_v0 t) X Y + dz2 * cross2 (tr_v0 t) (tr_v1 t) X Y) (tri_area t))"

text \<open>
  Screen coordinates for which the 64-bit arithmetic is exact: up to 8192 pixels from the origin.
\<close>

definition on_screen :: "int \<Rightarrow> bool" where "on_screen x \<longleftrightarrow> - 2097152 \<le> x \<and> x \<le> 2097152"

definition vtx_ok :: "vtx \<Rightarrow> bool" where
  "vtx_ok v \<longleftrightarrow> on_screen (vt_x v) \<and> on_screen (vt_y v) \<and> vt_z v \<le> HX421_ZFAR"

definition tri_ok :: "tri \<Rightarrow> bool" where
  "tri_ok t \<longleftrightarrow> vtx_ok (tr_v0 t) \<and> vtx_ok (tr_v1 t) \<and> vtx_ok (tr_v2 t)"

lemma diff_on_screen [simp]: "on_screen x \<Longrightarrow> on_screen y \<Longrightarrow> i32 (x - y) = x - y"
  by (simp add: on_screen_def)

lemma diff_small: "on_screen x \<Longrightarrow> on_screen y \<Longrightarrow> \<bar>x - y\<bar> \<le> 4194304"
  by (simp add: on_screen_def abs_le_iff)

lemma abs_product_le: "\<bar>a\<bar> \<le> A \<Longrightarrow> \<bar>b\<bar> \<le> B \<Longrightarrow> \<bar>a * b\<bar> \<le> A * B" for a b A B :: int
  by (auto simp: abs_mult intro: mult_mono)

lemma abs_diff_le: "\<bar>a\<bar> \<le> A \<Longrightarrow> \<bar>b\<bar> \<le> B \<Longrightarrow> \<bar>a - b\<bar> \<le> A + B" for a b A B :: int
  by linarith

lemma i64_small: "\<bar>x\<bar> \<le> 9223372036854775807 \<Longrightarrow> i64 x = x"
  by (rule i64_id) (simp_all add: abs_le_iff)

lemma cross2_small:
  assumes "vtx_ok a" and "vtx_ok b" and "on_screen X" and "on_screen Y"
  shows "\<bar>cross2 a b X Y\<bar> \<le> 35184372088832"
proof -
  have "on_screen (vt_x a)" "on_screen (vt_y a)" "on_screen (vt_x b)" "on_screen (vt_y b)" using assms by (simp_all add: vtx_ok_def)
  note d = diff_small [OF this(3,1)] diff_small [OF assms(4) this(2)] diff_small [OF this(4,2)] diff_small [OF assms(3) this(1)]
  have "\<bar>(vt_x b - vt_x a) * (Y - vt_y a)\<bar> \<le> 4194304 * 4194304" "\<bar>(vt_y b - vt_y a) * (X - vt_x a)\<bar> \<le> 4194304 * 4194304"
    using abs_product_le [OF d(1,2)] abs_product_le [OF d(3,4)] by simp_all
  from abs_diff_le [OF this] show ?thesis by (simp add: cross2_def)
qed

lemma cross2_i64: "vtx_ok a \<Longrightarrow> vtx_ok b \<Longrightarrow> on_screen X \<Longrightarrow> on_screen Y \<Longrightarrow> i64 (cross2 a b X Y) = cross2 a b X Y"
  using cross2_small [of a b X Y] by (intro i64_small) simp

lemma barycentric:
  "tri_area t = cross2 (tr_v0 t) (tr_v1 t) X Y + cross2 (tr_v1 t) (tr_v2 t) X Y + cross2 (tr_v2 t) (tr_v0 t) X Y"
  "tri_area t * X = cross2 (tr_v1 t) (tr_v2 t) X Y * vt_x (tr_v0 t) +
     cross2 (tr_v2 t) (tr_v0 t) X Y * vt_x (tr_v1 t) + cross2 (tr_v0 t) (tr_v1 t) X Y * vt_x (tr_v2 t)"
  "tri_area t * Y = cross2 (tr_v1 t) (tr_v2 t) X Y * vt_y (tr_v0 t) +
     cross2 (tr_v2 t) (tr_v0 t) X Y * vt_y (tr_v1 t) + cross2 (tr_v0 t) (tr_v1 t) X Y * vt_y (tr_v2 t)"
  by (simp_all add: tri_area_def cross2_def algebra_simps)

lemma weighted_between:
  fixes w0 w1 w2 a b c v :: int
  assumes "0 \<le> w0" "0 \<le> w1" "0 \<le> w2" "0 < w0 + w1 + w2"
    and "(w0 + w1 + w2) * v = w0 * a + w1 * b + w2 * c"
  shows "lowest a b c \<le> v" and "v \<le> highest a b c"
proof -
  let ?l = "lowest a b c" and ?h = "highest a b c"
  have l: "?l \<le> a" "?l \<le> b" "?l \<le> c" and h: "a \<le> ?h" "b \<le> ?h" "c \<le> ?h"
    by (auto simp: lowest_def highest_def Let_def)
  have "(w0 + w1 + w2) * ?l \<le> (w0 + w1 + w2) * v"
    using mult_left_mono [OF l(1) assms(1)] mult_left_mono [OF l(2) assms(2)] mult_left_mono [OF l(3) assms(3)]
    unfolding assms(5) by (simp add: distrib_right)
  then show "?l \<le> v" using assms(4) by (simp only: mult_le_cancel_left_pos)
  have "(w0 + w1 + w2) * v \<le> (w0 + w1 + w2) * ?h"
    using mult_left_mono [OF h(1) assms(1)] mult_left_mono [OF h(2) assms(2)] mult_left_mono [OF h(3) assms(3)]
    unfolding assms(5) by (simp add: distrib_right)
  then show "v \<le> ?h" using assms(4) by (simp only: mult_le_cancel_left_pos)
qed

text \<open>A covered pixel centre lies in the bounding box, so the reject keeps its triangle.\<close>

definition centre :: "int \<Rightarrow> nat \<Rightarrow> int" where
  "centre tx px = (tx * 8 + int px) * HX421_ONE + 128"

lemma covers_touches:
  assumes "covers t (centre tx px) (centre ty py)" and "px < 8" and "py < 8"
  shows "hx421_tri_touches_tile t tx ty"
proof -
  let ?X = "centre tx px" and ?Y = "centre ty py"
  note b = barycentric [where t = t and X = ?X and Y = ?Y]
  have w: "0 \<le> cross2 (tr_v1 t) (tr_v2 t) ?X ?Y" "0 \<le> cross2 (tr_v2 t) (tr_v0 t) ?X ?Y"
    "0 \<le> cross2 (tr_v0 t) (tr_v1 t) ?X ?Y" "0 < tri_area t"
    using assms(1) by (auto simp: covers_def)
  let ?w = "cross2 (tr_v1 t) (tr_v2 t) ?X ?Y + cross2 (tr_v2 t) (tr_v0 t) ?X ?Y + cross2 (tr_v0 t) (tr_v1 t) ?X ?Y"
  have a: "tri_area t = ?w" using b(1) by simp
  note inX = weighted_between [OF w(1-3), of ?X, folded a, OF w(4) b(2)]
  note inY = weighted_between [OF w(1-3), of ?Y, folded a, OF w(4) b(3)]
  have X: "tx * 8 * 256 \<le> ?X" "?X < tx * 8 * 256 + 8 * 256" and Y: "ty * 8 * 256 \<le> ?Y" "?Y < ty * 8 * 256 + 8 * 256"
    using assms(2,3) by (auto simp: centre_def HX421_ONE_def)
  show ?thesis
    unfolding hx421_tri_touches_tile_def Let_def HX421_ONE_def using inX inY X Y by linarith
qed

text \<open>Inside the triangle the depth lies between the depths of the vertices.\<close>

lemma cdiv_between:
  assumes "0 < d" and "lo \<le> 0" and "0 \<le> hi" and "lo * d \<le> n" and "n \<le> hi * d"
  shows "lo \<le> cdiv n d" and "cdiv n d \<le> hi"
proof -
  have "lo \<le> cdiv n d \<and> cdiv n d \<le> hi"
  proof (cases "0 \<le> n")
    case True
    then have c: "cdiv n d = n div d" using assms(1) by (cases "n = 0") (simp_all add: cdiv_def)
    have "n div d \<le> hi * d div d" using assms by (intro zdiv_mono1) auto
    moreover have "0 \<le> n div d" using True assms(1) by (simp add: pos_imp_zdiv_nonneg_iff)
    ultimately show ?thesis using assms c by simp
  next
    case False
    then have c: "cdiv n d = - ((- n) div d)" using assms(1) by (simp add: cdiv_def)
    have "(- n) div d \<le> (- lo) * d div d" using assms by (intro zdiv_mono1) auto
    also have "(- lo) * d div d = - lo" using assms(1) by (intro nonzero_mult_div_cancel_right) simp
    finally have "(- n) div d \<le> - lo" .
    moreover have "0 \<le> (- n) div d" using False assms(1) by (simp add: pos_imp_zdiv_nonneg_iff)
    ultimately show ?thesis using assms c by simp
  qed
  then show "lo \<le> cdiv n d" and "cdiv n d \<le> hi" by auto
qed

lemma plane_depth_between:
  assumes "covers t X Y"
  shows "lowest (int (vt_z (tr_v0 t))) (int (vt_z (tr_v1 t))) (int (vt_z (tr_v2 t))) \<le> plane_depth t X Y \<and>
    plane_depth t X Y \<le> highest (int (vt_z (tr_v0 t))) (int (vt_z (tr_v1 t))) (int (vt_z (tr_v2 t)))"
proof -
  let ?z0 = "int (vt_z (tr_v0 t))" and ?z1 = "int (vt_z (tr_v1 t))" and ?z2 = "int (vt_z (tr_v2 t))"
  define w0 w1 w2 where "w0 = cross2 (tr_v1 t) (tr_v2 t) X Y" and "w1 = cross2 (tr_v2 t) (tr_v0 t) X Y"
    and "w2 = cross2 (tr_v0 t) (tr_v1 t) X Y"
  have w: "0 \<le> w0" "0 \<le> w1" "0 \<le> w2" "0 < tri_area t" and a: "tri_area t = w0 + w1 + w2"
    using assms barycentric(1) [of t X Y] by (auto simp: covers_def w0_def w1_def w2_def)
  let ?l = "lowest ?z0 ?z1 ?z2 - ?z0" and ?h = "highest ?z0 ?z1 ?z2 - ?z0"
  have l: "?l \<le> 0" "?l \<le> ?z1 - ?z0" "?l \<le> ?z2 - ?z0" and h: "0 \<le> ?h" "?z1 - ?z0 \<le> ?h" "?z2 - ?z0 \<le> ?h"
    by (auto simp: lowest_def highest_def Let_def)
  let ?n = "(?z1 - ?z0) * w1 + (?z2 - ?z0) * w2"
  have "?l * tri_area t \<le> ?n"
    using mult_right_mono [OF l(1) w(1)] mult_right_mono [OF l(2) w(2)] mult_right_mono [OF l(3) w(3)]
    unfolding a by (simp add: distrib_left)
  moreover have "?n \<le> ?h * tri_area t"
    using mult_right_mono [OF h(1) w(1)] mult_right_mono [OF h(2) w(2)] mult_right_mono [OF h(3) w(3)]
    unfolding a by (simp add: distrib_left)
  ultimately have "?l \<le> cdiv ?n (tri_area t) \<and> cdiv ?n (tri_area t) \<le> ?h"
    using cdiv_between [OF w(4) l(1) h(1)] by blast
  then show ?thesis by (simp add: plane_depth_def Let_def w1_def [symmetric] w2_def [symmetric])
qed

section \<open>A triangle on a tile\<close>

definition tile_pos :: "int \<Rightarrow> bool" where "tile_pos tx \<longleftrightarrow> 0 \<le> tx \<and> tx < 1024"

lemma centre_on_screen: "tile_pos tx \<Longrightarrow> px < 8 \<Longrightarrow> on_screen (centre tx px)"
  by (simp add: tile_pos_def on_screen_def centre_def HX421_ONE_def)

lemma setup_area:
  assumes "tri_ok t"
  shows "ed_area (tri_setup t) = tri_area t"
proof -
  have "i64 (tri_area t) = tri_area t" unfolding tri_area_def
    using assms by (intro cross2_i64) (simp_all add: tri_ok_def vtx_ok_def)
  then show ?thesis using assms by (simp add: tri_setup_def tri_ok_def vtx_ok_def tri_area_def cross2_def Let_def)
qed

lemma origin_centre: "tx * 8 * HX421_ONE + HX421_ONE div 2 = centre tx 0"
  by (simp add: centre_def HX421_ONE_def)

lemma centre_step: "centre tx px = centre tx 0 + int px * HX421_ONE"
  by (simp add: centre_def HX421_ONE_def)

lemma edge_value:
  assumes "vtx_ok a" and "vtx_ok b" and "on_screen ox" "on_screen oy" "on_screen (ox + dx)" "on_screen (oy + dy)"
  shows "i64 (i64 (i64 (i32 (- (vt_y b - vt_y a)) * i32 (ox - vt_x a) + i32 (vt_x b - vt_x a) * i32 (oy - vt_y a)) +
      i32 (vt_x b - vt_x a) * dy) + i32 (- (vt_y b - vt_y a)) * dx) = cross2 a b (ox + dx) (oy + dy)"
proof -
  have v: "on_screen (vt_x a)" "on_screen (vt_y a)" "on_screen (vt_x b)" "on_screen (vt_y b)" using assms by (simp_all add: vtx_ok_def)
  have e: "- (vt_y b - vt_y a) = vt_y a - vt_y b" by simp
  have "cross2 a b (ox + dx) (oy + dy) = (vt_y a - vt_y b) * (ox - vt_x a) + (vt_x b - vt_x a) * (oy - vt_y a) + (vt_x b - vt_x a) * dy + (vt_y a - vt_y b) * dx"
    by (simp add: cross2_def algebra_simps)
  then show ?thesis using v assms(3,4) cross2_i64 [OF assms(1,2,5,6)] unfolding e by (simp add: i64_add_left)
qed

lemma stepped_edges:
  assumes "tri_ok t" and "tile_pos tx" and "tile_pos ty" and "px < 8" and "py < 8"
  shows "stepped (ed_A (tri_setup t)) px (stepped (ed_B (tri_setup t)) py
      (edges_at t (tri_setup t) (centre tx 0) (centre ty 0))) =
    (cross2 (tr_v0 t) (tr_v1 t) (centre tx px) (centre ty py),
     cross2 (tr_v1 t) (tr_v2 t) (centre tx px) (centre ty py),
     cross2 (tr_v2 t) (tr_v0 t) (centre tx px) (centre ty py))"
proof -
  have o: "on_screen (centre tx 0)" "on_screen (centre ty 0)" "on_screen (centre tx px)" "on_screen (centre ty py)"
    using centre_on_screen assms by simp_all
  have v: "vtx_ok (tr_v0 t)" "vtx_ok (tr_v1 t)" "vtx_ok (tr_v2 t)" using assms(1) by (simp_all add: tri_ok_def)
  note e = edge_value [OF _ _ o(1,2) o(3,4) [unfolded centre_step [of tx px] centre_step [of ty py]]]
  show ?thesis
    using e [OF v(1,2)] e [OF v(2,3)] e [OF v(3,1)] unfolding centre_step [of tx px] centre_step [of ty py]
    by (simp add: stepped_def edges_at_def tri_setup_def Let_def)
qed

lemma pixel_depth_plane:
  assumes "tri_ok t" and "covers t (centre tx px) (centre ty py)" and "on_screen (centre tx px)" and "on_screen (centre ty py)"
  shows "int (pixel_depth t (tri_setup t) (centre tx 0) (centre ty 0) px py) = plane_depth t (centre tx px) (centre ty py)"
proof -
  let ?z = "plane_depth t (centre tx px) (centre ty py)"
  have z: "vt_z (tr_v0 t) \<le> 65535" "vt_z (tr_v1 t) \<le> 65535" "vt_z (tr_v2 t) \<le> 65535"
    using assms(1) by (simp_all add: tri_ok_def vtx_ok_def HX421_ZFAR_def)
  have zz: "0 \<le> ?z" "?z \<le> 65535"
    using plane_depth_between [OF assms(2)] z by (auto simp: lowest_def highest_def Let_def split: if_splits)
  define dz1 dz2 where "dz1 = int (vt_z (tr_v1 t)) - int (vt_z (tr_v0 t))"
    and "dz2 = int (vt_z (tr_v2 t)) - int (vt_z (tr_v0 t))"
  have v: "on_screen (vt_x (tr_v0 t))" "on_screen (vt_y (tr_v0 t))" "on_screen (vt_x (tr_v1 t))" "on_screen (vt_y (tr_v1 t))"
    "on_screen (vt_x (tr_v2 t))" "on_screen (vt_y (tr_v2 t))" using assms(1) by (simp_all add: tri_ok_def vtx_ok_def)
  have dz: "\<bar>dz1\<bar> \<le> 65535" "\<bar>dz2\<bar> \<le> 65535" using z by (simp_all add: dz1_def dz2_def)
  have zd: "ed_zdx (tri_setup t) = dz1 * (vt_y (tr_v2 t) - vt_y (tr_v0 t)) - dz2 * (vt_y (tr_v1 t) - vt_y (tr_v0 t))"
    "ed_zdy (tri_setup t) = dz2 * (vt_x (tr_v1 t) - vt_x (tr_v0 t)) - dz1 * (vt_x (tr_v2 t) - vt_x (tr_v0 t))"
    using v by (simp_all add: tri_setup_def Let_def dz1_def dz2_def)
  have zb: "\<bar>ed_zdx (tri_setup t)\<bar> \<le> 549747425280" "\<bar>ed_zdy (tri_setup t)\<bar> \<le> 549747425280"
    using abs_diff_le [OF abs_product_le [OF dz(1) diff_small [OF v(6,2)]] abs_product_le [OF dz(2) diff_small [OF v(4,2)]]]
      abs_diff_le [OF abs_product_le [OF dz(2) diff_small [OF v(3,1)]] abs_product_le [OF dz(1) diff_small [OF v(5,1)]]]
    unfolding zd by simp_all
  have pb: "\<bar>ed_zdx (tri_setup t) * (centre tx px - vt_x (tr_v0 t))\<bar> \<le> 2305807824841605120"
    "\<bar>ed_zdy (tri_setup t) * (centre ty py - vt_y (tr_v0 t))\<bar> \<le> 2305807824841605120"
    using abs_product_le [OF zb(1) diff_small [OF assms(3) v(1)]] abs_product_le [OF zb(2) diff_small [OF assms(4) v(2)]] by simp_all
  then have ex: "i64 (i64 (ed_zdx (tri_setup t) * (centre tx px - vt_x (tr_v0 t))) + i64 (ed_zdy (tri_setup t) * (centre ty py - vt_y (tr_v0 t)))) =
      ed_zdx (tri_setup t) * (centre tx px - vt_x (tr_v0 t)) + ed_zdy (tri_setup t) * (centre ty py - vt_y (tr_v0 t))"
    unfolding i64_add_left i64_add_right by (intro i64_small) (rule order_trans [OF abs_triangle_ineq], linarith)
  have n: "ed_zdx (tri_setup t) * (centre tx px - vt_x (tr_v0 t)) + ed_zdy (tri_setup t) * (centre ty py - vt_y (tr_v0 t)) =
      dz1 * cross2 (tr_v2 t) (tr_v0 t) (centre tx px) (centre ty py) +
      dz2 * cross2 (tr_v0 t) (tr_v1 t) (centre tx px) (centre ty py)"
    using assms(1) by (simp add: tri_setup_def tri_ok_def vtx_ok_def Let_def cross2_def dz1_def [symmetric] dz2_def [symmetric])
      (simp add: algebra_simps)
  have "int (vt_z (tr_v0 t)) + cdiv (ed_zdx (tri_setup t) * (centre tx px - vt_x (tr_v0 t)) +
      ed_zdy (tri_setup t) * (centre ty py - vt_y (tr_v0 t))) (ed_area (tri_setup t)) = ?z"
    unfolding n setup_area [OF assms(1)] plane_depth_def Let_def dz1_def dz2_def ..
  then show ?thesis
    unfolding pixel_depth_def Let_def centre_step [of tx px, symmetric] centre_step [of ty py, symmetric] ex
    using zz by (simp add: HX421_ZFAR_def)
qed

lemma raster_tri_cell:
  assumes ok: "tile_ok s" "tri_ok t" "tile_pos tx" "tile_pos ty" and p: "px < 8" "py < 8"
  shows "tile_ok (raster_tri tx ty s t) \<and> cell (raster_tri tx ty s t) (py * 8 + px) =
    (if covers t (centre tx px) (centre ty py)
     then nearer (cell s (py * 8 + px)) (nat (plane_depth t (centre tx px) (centre ty py)), tr_color t)
     else cell s (py * 8 + px))"
proof (cases "tr_color t = 0 \<or> \<not> hx421_tri_touches_tile t tx ty \<or> tri_area t \<le> 0")
  case True
  then have "raster_tri tx ty s t = s" using setup_area [OF ok(2)] by (auto simp: raster_tri_def Let_def)
  moreover have "\<not> covers t (centre tx px) (centre ty py)"
    using True covers_touches [OF _ p] by (auto simp: covers_def)
  ultimately show ?thesis using ok(1) by simp
next
  case False
  let ?ed = "tri_setup t" and ?e = "edges_at t (tri_setup t) (centre tx 0) (centre ty 0)"
  have r: "raster_tri tx ty s t = raster_rows t ?ed (centre tx 0) (centre ty 0) [0..<8] ?e s"
    using False setup_area [OF ok(2)] by (simp add: raster_tri_def Let_def origin_centre)
  have i: "inside3 (stepped (ed_A ?ed) px (stepped (ed_B ?ed) py ?e)) \<longleftrightarrow> covers t (centre tx px) (centre ty py)"
    unfolding stepped_edges [OF ok(2-4) p] inside3_iff covers_def using False by auto
  have d: "pixel_depth t ?ed (centre tx 0) (centre ty 0) px py = nat (plane_depth t (centre tx px) (centre ty py))"
    if "covers t (centre tx px) (centre ty py)"
    using pixel_depth_plane [OF ok(2) that centre_on_screen [OF ok(3) p(1)] centre_on_screen [OF ok(4) p(2)]] by simp
  have "tile_ok (raster_tri tx ty s t)"
    unfolding r using draw_pixels_ok [OF ok(1)] by (simp add: raster_rows_draw_all)
  then show ?thesis using cell_raster_rows [where t = t and ed = ?ed and ox = "centre tx 0" and oy = "centre ty 0" and e = ?e, OF ok(1) p(2,1) edges_in64] d
    unfolding i r by simp
qed

text \<open>The contributions of the triangles at one pixel, in drawing order.\<close>

definition hits :: "tri list \<Rightarrow> int \<Rightarrow> int \<Rightarrow> (nat \<times> nat) list" where
  "hits tris X Y = map (\<lambda>t. (nat (plane_depth t X Y), tr_color t)) (filter (\<lambda>t. covers t X Y) tris)"

lemma raster_tile_cell:
  assumes "tile_ok s" and "\<forall>t \<in> set tris. tri_ok t" and "tile_pos tx" "tile_pos ty" and "px < 8" "py < 8"
  shows "tile_ok (foldl (raster_tri tx ty) s tris) \<and> cell (foldl (raster_tri tx ty) s tris) (py * 8 + px) =
    foldl nearer (cell s (py * 8 + px)) (hits tris (centre tx px) (centre ty py))"
  using assms
proof (induction tris arbitrary: s)
  case (Cons t tris)
  have t: "tri_ok t" "\<forall>t \<in> set tris. tri_ok t" using Cons.prems(2) by auto
  note step = raster_tri_cell [OF Cons.prems(1) t(1) Cons.prems(3-6)]
  have "tile_ok (raster_tri tx ty s t)" using step by (rule conjunct1)
  from Cons.IH [OF this t(2) Cons.prems(3-6)] step show ?case by (simp add: hits_def)
qed (simp add: hits_def)

text \<open>Drawing the nearest: the first of the smallest depths wins.\<close>

lemma nearer_fold:
  "fst (foldl nearer c hs) = Min (insert (fst c) (fst ` set hs)) \<and>
   (foldl nearer c hs = c \<or>
    (\<exists>us h vs. hs = us @ h # vs \<and> foldl nearer c hs = h \<and> fst h < fst c \<and> (\<forall>u \<in> set us. fst h < fst u)))"
proof (induction hs rule: rev_induct)
  case (snoc h hs)
  let ?f = "foldl nearer c hs"
  have m: "fst ?f = Min (insert (fst c) (fst ` set hs))" using snoc by (rule conjunct1)
  have "insert (fst c) (fst ` set (hs @ [h])) = insert (fst h) (insert (fst c) (fst ` set hs))" by auto
  then have i: "Min (insert (fst c) (fst ` set (hs @ [h]))) = min (fst h) (fst ?f)"
    using m Min_insert [of "insert (fst c) (fst ` set hs)" "fst h"] by simp
  show ?case
  proof (cases "fst h < fst ?f")
    case True
    then have f: "foldl nearer c (hs @ [h]) = h" by (simp add: nearer_def)
    have "fst h < x" if "x \<in> insert (fst c) (fst ` set hs)" for x
    proof -
      have "fst ?f \<le> x" unfolding m using that by (intro Min_le) auto
      then show ?thesis by (rule less_le_trans [OF True])
    qed
    then have "fst h < fst c \<and> (\<forall>u \<in> set hs. fst h < fst u)" by auto
    moreover have "fst h = min (fst h) (fst ?f)" using True by simp
    ultimately show ?thesis unfolding f i by blast
  next
    case False
    then have f: "foldl nearer c (hs @ [h]) = ?f" by (simp add: nearer_def)
    have "fst ?f = min (fst h) (fst ?f)" using False by simp
    moreover have "?f = c \<or> (\<exists>us h' vs. hs @ [h] = us @ h' # vs \<and> ?f = h' \<and> fst h' < fst c \<and> (\<forall>u \<in> set us. fst h' < fst u))"
      using conjunct2 [OF snoc]
    proof (elim disjE exE conjE)
      fix us h' vs assume "hs = us @ h' # vs" "?f = h'" "fst h' < fst c" "\<forall>u \<in> set us. fst h' < fst u"
      then show ?thesis by (intro disjI2 exI [of _ us] exI [of _ h'] exI [of _ "vs @ [h]"]) simp
    qed simp
    ultimately show ?thesis unfolding f i by blast
  qed
qed simp


definition demo_tris :: "tri list" where
  "demo_tris =
     (let t = \<lambda>z c. \<lparr>tr_v0 = \<lparr>vt_x = 0, vt_y = 0, vt_z = z\<rparr>, tr_v1 = \<lparr>vt_x = 2048, vt_y = 0, vt_z = z\<rparr>,
                   tr_v2 = \<lparr>vt_x = 0, vt_y = 2048, vt_z = z + 400\<rparr>, tr_color = c\<rparr>
      in [t 100 1, t 50 2])"

lemma demo_tris_ok: "\<forall>t \<in> set demo_tris. tri_ok t"
  by (simp add: demo_tris_def tri_ok_def vtx_ok_def on_screen_def HX421_ZFAR_def)


section \<open>Packing\<close>

lemma pack_plane_bits:
  "bit (foldl (\<lambda>p x. if c x then p OR drop_bit x 0x80 else p) (0 :: byte) [0..<n]) j \<longleftrightarrow>
     (\<exists>x < n. c x \<and> bit (drop_bit x (0x80 :: byte)) j)"
  by (induction n) (auto simp: bit_or_iff less_Suc_eq)

lemma pack_plane_bit:
  assumes "x < 8"
  shows "bit (pack_plane idx k y) (7 - x) \<longleftrightarrow> (idx ! (y * 8 + x) mod 16) div 2 ^ k mod 2 = 1"
proof -
  have "7 - x = 7 - x' \<longleftrightarrow> x' = x" if "x' < 8" for x' using assms that by linarith
  then show ?thesis
    unfolding pack_plane_def pack_plane_bits using assms by (auto simp: top_bit_shift simp del: drop_bit_numeral_bit0)
qed

definition planes_at :: "nat list \<Rightarrow> byte list \<Rightarrow> nat \<Rightarrow> bool" where
  "planes_at idx out y \<longleftrightarrow> out ! (2 * y) = pack_plane idx 0 y \<and> out ! (2 * y + 1) = pack_plane idx 1 y \<and>
     out ! (16 + 2 * y) = pack_plane idx 2 y \<and> out ! (16 + 2 * y + 1) = pack_plane idx 3 y"

lemma pack_row_planes:
  assumes "length out = 32" and "n < 8" and "y < 8"
  shows "length (pack_row idx out n) = 32" and "planes_at idx (pack_row idx out n) y \<longleftrightarrow> y = n \<or> planes_at idx out y"
proof -
  have odd: "2 * y + 1 \<noteq> 2 * n" "2 * y \<noteq> 2 * n + 1" by presburger+
  show "length (pack_row idx out n) = 32" using assms(1) by (simp add: pack_row_def)
  show "planes_at idx (pack_row idx out n) y \<longleftrightarrow> y = n \<or> planes_at idx out y"
  proof (cases "y = n")
    case True
    then show ?thesis using assms by (simp add: planes_at_def pack_row_def nth_list_update)
  next
    case False
    then have ne: "2 * y \<noteq> 2 * n" "2 * y + 1 \<noteq> 2 * n + 1" "2 * y \<noteq> 16 + 2 * n" "2 * y + 1 \<noteq> 16 + 2 * n"
      "2 * y \<noteq> 16 + 2 * n + 1" "2 * y + 1 \<noteq> 16 + 2 * n + 1" "16 + 2 * y \<noteq> 2 * n" "16 + 2 * y \<noteq> 2 * n + 1"
      "16 + 2 * y + 1 \<noteq> 2 * n" "16 + 2 * y + 1 \<noteq> 2 * n + 1" "16 + 2 * y \<noteq> 16 + 2 * n + 1"
      "16 + 2 * y + 1 \<noteq> 16 + 2 * n" "16 + 2 * y \<noteq> 16 + 2 * n" "16 + 2 * y + 1 \<noteq> 16 + 2 * n + 1"
      using odd assms(2,3) by presburger+
    show ?thesis using False unfolding planes_at_def pack_row_def
      by (simp only: nth_list_update_neq [OF ne(1) [THEN not_sym]] nth_list_update_neq [OF ne(2) [THEN not_sym]]
          nth_list_update_neq not_False_eq_True ne [THEN not_sym] odd [THEN not_sym] simp_thms)
  qed
qed

lemma pack_rows:
  assumes "length out = 32" and "n \<le> 8"
  shows "length (foldl (pack_row idx) out [0..<n]) = 32 \<and>
    (\<forall>y < n. planes_at idx (foldl (pack_row idx) out [0..<n]) y)"
  using assms(2)
proof (induction n)
  case (Suc n)
  define b where "b = foldl (pack_row idx) out [0..<n]"
  have b: "length b = 32" "\<And>y. y < n \<Longrightarrow> planes_at idx b y" using Suc by (auto simp: b_def)
  have "foldl (pack_row idx) out [0..<Suc n] = pack_row idx b n" by (simp add: b_def)
  moreover have "planes_at idx (pack_row idx b n) y" if "y < Suc n" for y
    using pack_row_planes(2) [OF b(1), of n y idx] b(2) [of y] that Suc.prems by (auto simp: less_Suc_eq)
  moreover have "length (pack_row idx b n) = 32" using b(1) by (simp add: pack_row_def)
  ultimately show ?case by simp
qed (simp add: assms)

lemma pack_tile:
  assumes "y < 8"
  shows "length (hx421_tile_pack4bpp idx) = 32" "hx421_tile_pack4bpp idx ! (2 * y) = pack_plane idx 0 y"
    "hx421_tile_pack4bpp idx ! (2 * y + 1) = pack_plane idx 1 y"
    "hx421_tile_pack4bpp idx ! (16 + 2 * y) = pack_plane idx 2 y"
    "hx421_tile_pack4bpp idx ! (16 + 2 * y + 1) = pack_plane idx 3 y"
  using pack_rows [of "replicate 32 0" 8 idx] assms by (simp_all add: hx421_tile_pack4bpp_def planes_at_def)

text \<open>The colour index a 4bpp tile shows at a pixel.\<close>

definition unpack_pixel :: "byte list \<Rightarrow> nat \<Rightarrow> nat \<Rightarrow> nat" where
  "unpack_pixel chr x y = (\<Sum>k < 4. if bit (chr ! (2 * y + k mod 2 + 16 * (k div 2))) (7 - x) then 2 ^ k else 0)"

lemma four_bits: "(\<Sum>k < 4. if (n :: nat) mod 16 div 2 ^ k mod 2 = 1 then 2 ^ k else 0) = n mod 16"
proof -
  have "n mod 16 < 16" by simp
  then have "n mod 16 \<in> set [0..<16]" by auto
  moreover have "\<forall>m \<in> set [0..<16]. (\<Sum>k < 4. if (m :: nat) div 2 ^ k mod 2 = 1 then 2 ^ k else 0) = m"
    by (simp add: lessThan_nat_numeral upt_conv_Cons lessThan_Suc)
  ultimately show ?thesis by blast
qed

text \<open>
  Packing a tile of colour indices into the 4bpp character format loses nothing but the
  bits above four: reading a pixel's bit planes back gives its index modulo 16, and the mask
  derivation sees the pixel as solid exactly when this index is not zero.
\<close>
theorem tile_pack_roundtrip:
  assumes "x < 8" and "y < 8"
  shows "unpack_pixel (hx421_tile_pack4bpp idx) x y = idx ! (y * 8 + x) mod 16 \<and>
    (bit (tile_row_nonzero (hx421_tile_pack4bpp idx) y) (7 - x) \<longleftrightarrow> idx ! (y * 8 + x) mod 16 \<noteq> 0)"
proof -
  let ?n = "idx ! (y * 8 + x)"
  note t = pack_tile [OF assms(2), of idx]
  have "bit (hx421_tile_pack4bpp idx ! (2 * y + k mod 2 + 16 * (k div 2))) (7 - x) \<longleftrightarrow> ?n mod 16 div 2 ^ k mod 2 = 1"
    if "k < 4" for k
  proof -
    from that consider "k = 0" | "k = 1" | "k = 2" | "k = 3" by linarith
    then show ?thesis using t pack_plane_bit [OF assms(1), of idx k y]
      by cases (simp_all add: add.commute)
  qed
  then have u: "unpack_pixel (hx421_tile_pack4bpp idx) x y = ?n mod 16"
    unfolding unpack_pixel_def by (subst four_bits [symmetric]) (intro sum.cong; simp)
  have nz: "?n mod 16 \<noteq> 0 \<longleftrightarrow> (\<exists>k \<in> {0, 1, 2, 3}. ?n mod 16 div 2 ^ k mod 2 = 1)"
  proof -
    have "?n mod 16 = 0 \<longleftrightarrow> (\<forall>k < 4. \<not> ?n mod 16 div 2 ^ k mod 2 = 1)"
      by (subst four_bits [symmetric]) (auto simp: sum_eq_0_iff)
    moreover have "{..<4} = {0, 1, 2, 3 :: nat}" by auto
    ultimately show ?thesis by (metis lessThan_iff)
  qed
  have "bit (tile_row_nonzero (hx421_tile_pack4bpp idx) y) (7 - x) \<longleftrightarrow> ?n mod 16 \<noteq> 0"
    unfolding nz tile_row_nonzero_def using t pack_plane_bit [OF assms(1), of idx _ y]
    by (simp add: bit_or_iff mult.commute)
  then show ?thesis using u by blast
qed

theorem tile_pack_roundtrip_witness:
  "unpack_pixel (hx421_tile_pack4bpp (replicate 63 0 @ [29])) 7 7 = 13"
proof -
  have "(replicate 63 0 @ [29]) ! (7 * 8 + 7) = (29 :: nat)" by (simp add: nth_append)
  then show ?thesis using tile_pack_roundtrip [of 7 7 "replicate 63 0 @ [29]"] by simp
qed

section \<open>Frames\<close>

text \<open>The colour that is to be seen at a point: that of the nearest triangle there, or the background.\<close>

definition shown_colour :: "tri list \<Rightarrow> int \<Rightarrow> int \<Rightarrow> nat" where
  "shown_colour tris X Y = snd (foldl nearer (65535, 0) (hits tris X Y))"

definition tile_pixels :: "tri list \<Rightarrow> nat \<Rightarrow> nat \<Rightarrow> nat list" where
  "tile_pixels tris ty tx = map (\<lambda>q. shown_colour tris (centre (int tx) (q mod 8)) (centre (int ty) (q div 8))) [0..<64]"

text \<open>
  What a map entry must show for a tile of pixels: the blank tile, a tile of one colour, a tile of the
  pool with these pixels, or, when the pool is full, the colour that the tile has most of.
\<close>

definition entry_shows :: "render_out \<Rightarrow> nat \<Rightarrow> nat list \<Rightarrow> nat \<Rightarrow> bool" where
  "entry_shows out attr idx e \<longleftrightarrow>
     (\<forall>q < 64. idx ! q = 0) \<and> e = attr \<or>
     (\<exists>c. c \<noteq> 0 \<and> (\<forall>q < 64. idx ! q = c) \<and> e = c + attr) \<or>
     (\<exists>q < 64. idx ! q \<noteq> idx ! 0) \<and>
       ((\<exists>slot < ro_used out. e = 16 + slot + attr \<and>
           (\<forall>y < 8. \<forall>x < 8. unpack_pixel (seg (slot * 32) 32 (ro_chr out)) x y = idx ! (y * 8 + x))) \<or>
        ro_used out = 750 \<and> (\<exists>c. 0 < c \<and> c < 16 \<and> e = c + attr \<and> 0 < count_list idx c \<and>
           (\<forall>d. 0 < d \<and> d < 16 \<longrightarrow> count_list idx d \<le> count_list idx c)))"

definition frame_ok :: "render_out \<Rightarrow> bool" where
  "frame_ok out \<longleftrightarrow> length (ro_tilemap out) = 1024 \<and> length (ro_chr out) = 24000 \<and> ro_used out \<le> 750 \<and>
     ro_n_empty out + ro_n_solid out + ro_n_mixed out \<le> 1024 \<and> ro_used out + ro_n_degraded out = ro_n_mixed out"

lemma raster_tile_length:
  "length idx = 64 \<Longrightarrow> length zbuf = 64 \<Longrightarrow> length (fst (hx421_raster_tile tris tx ty idx zbuf)) = 64"
proof -
  have "tile_ok (raster_tri tx ty s t)" if "tile_ok s" for s t
    using that draw_pixels_ok
    by (simp add: raster_tri_def Let_def raster_rows_draw_all)
  then have "tile_ok s \<Longrightarrow> tile_ok (foldl (raster_tri tx ty) s tris)" for s
    by (induction tris arbitrary: s) simp_all
  then show "length idx = 64 \<Longrightarrow> length zbuf = 64 \<Longrightarrow> length (fst (hx421_raster_tile tris tx ty idx zbuf)) = 64"
    by (simp add: hx421_raster_tile_def tile_ok_def)
qed

lemma tile_pixels_drawn:
  assumes "\<forall>t \<in> set tris. tri_ok t" and "tx < 32" "ty < 32"
  shows "fst (hx421_raster_tile tris (int tx) (int ty) (replicate 64 0) (replicate 64 65535)) = tile_pixels tris ty tx"
proof (rule nth_equalityI)
  let ?r = "hx421_raster_tile tris (int tx) (int ty) (replicate 64 0) (replicate 64 65535)"
  have len: "length (fst ?r) = 64" by (simp add: raster_tile_length)
  then show "length (fst ?r) = length (tile_pixels tris ty tx)" by (simp add: tile_pixels_def)
  fix q assume "q < length (fst ?r)"
  then have "q < 64" using len by simp
  then have q: "q < 64" "q div 8 * 8 + q mod 8 = q" "q mod 8 < 8" "q div 8 < 8" by auto
  have p: "tile_pos (int tx)" "tile_pos (int ty)" using assms(2,3) by (auto simp: tile_pos_def)
  have "cell (foldl (raster_tri (int tx) (int ty)) (replicate 64 0, replicate 64 65535, 0) tris) q =
      foldl nearer (65535, 0) (hits tris (centre (int tx) (q mod 8)) (centre (int ty) (q div 8)))"
    using raster_tile_cell [of "(replicate 64 0, replicate 64 65535, 0)", OF _ assms(1) p q(3,4)] q(1)
    by (simp add: tile_ok_def q(2) cell_def)
  then show "fst ?r ! q = tile_pixels tris ty tx ! q"
    using q(1) by (simp add: tile_pixels_def shown_colour_def hx421_raster_tile_def cell_def) (metis snd_conv)
qed

lemma shown_colour_cases: "shown_colour tris X Y = 0 \<or> (\<exists>t \<in> set tris. shown_colour tris X Y = tr_color t)"
  using nearer_fold [of "(65535, 0)" "hits tris X Y"]
proof (elim conjE disjE exE)
  fix us h vs assume h: "hits tris X Y = us @ h # vs" "foldl nearer (65535, 0) (hits tris X Y) = h"
  have "h \<in> set (hits tris X Y)" unfolding h(1) by simp
  then show ?thesis using h(2) by (auto simp: hits_def shown_colour_def)
qed (simp add: shown_colour_def)

lemma tile_pixels_colour:
  assumes "\<forall>t \<in> set tris. tr_color t < 16" and "q < 64"
  shows "tile_pixels tris ty tx ! q < 16"
  using shown_colour_cases [of tris "centre (int tx) (q mod 8)" "centre (int ty) (q div 8)"] assms
  by (auto simp: tile_pixels_def)

lemma or_attr:
  assumes "tile < 1024" and "k < 8"
  shows "u16 (tile OR u16 (k * 1024)) = tile + k * 1024"
proof -
  have "push_bit 10 k OR tile = push_bit 10 k + tile" using assms(1) by (intro or_low) simp
  then show ?thesis using assms by (simp add: push_bit_eq_mult or.commute)
qed

text \<open>The histogram counts, and the scan finds a colour with the most pixels.\<close>

lemma histogram:
  assumes "n \<le> length idx" and "\<forall>x \<in> set idx. x < 16" and "c < 16"
  shows "length (foldl (\<lambda>h i. h[idx ! i mod 16 := h ! (idx ! i mod 16) + 1]) (replicate 16 (0 :: nat)) [0..<n]) = 16 \<and>
    foldl (\<lambda>h i. h[idx ! i mod 16 := h ! (idx ! i mod 16) + 1]) (replicate 16 (0 :: nat)) [0..<n] ! c = count_list (take n idx) c"
  using assms(1)
proof (induction n)
  case (Suc n)
  have "idx ! n < 16" using assms(2) Suc.prems by simp
  then show ?case using Suc assms(3) by (auto simp: take_Suc_conv_app_nth nth_list_update)
qed (use assms(3) in simp)

lemma scan_best:
  fixes h :: "nat list"
  assumes "foldl (\<lambda>(best, bestn) c. if bestn < h ! c then (c, h ! c) else (best, bestn)) (1, 0) [1..<n] = (best, bestn)"
  shows "(\<forall>c. 0 < c \<and> c < n \<longrightarrow> h ! c \<le> bestn) \<and> (bestn \<noteq> 0 \<longrightarrow> 0 < best \<and> best < n \<and> bestn = h ! best)"
  using assms
proof (induction n arbitrary: best bestn)
  case (Suc n)
  show ?case
  proof (cases "n = 0")
    case False
    obtain b bn where b: "foldl (\<lambda>(best, bestn) c. if bestn < h ! c then (c, h ! c) else (best, bestn)) (1, 0) [1..<n] = (b, bn)"
      by fastforce
    have "(best, bestn) = (if bn < h ! n then (n, h ! n) else (b, bn))"
      using Suc.prems b False by simp
    then show ?thesis using Suc.IH [OF b] False by (auto simp: less_Suc_eq split: if_splits)
  qed (use Suc.prems in simp)
qed simp

lemma dominant_index_most:
  assumes "length idx = 64" and "\<forall>x \<in> set idx. x < 16" and "x \<in> set idx" and "x \<noteq> 0"
  shows "0 < dominant_index idx \<and> dominant_index idx < 16 \<and> 0 < count_list idx (dominant_index idx) \<and>
    (\<forall>d. 0 < d \<and> d < 16 \<longrightarrow> count_list idx d \<le> count_list idx (dominant_index idx))"
proof -
  define h where "h = foldl (\<lambda>h i. h[idx ! i mod 16 := h ! (idx ! i mod 16) + 1]) (replicate 16 (0 :: nat)) [0..<64]"
  have h: "h ! c = count_list idx c" if "c < 16" for c
    using histogram [of 64 idx c] assms(1,2) that by (simp add: h_def)
  obtain best bestn where b: "foldl (\<lambda>(best, bestn) c. if bestn < h ! c then (c, h ! c) else (best, bestn)) (1, 0) [1..<16] = (best, bestn)"
    by fastforce
  note s = scan_best [OF b]
  have x: "0 < x" "x < 16" using assms(2-4) by auto
  have "0 < h ! x" using h [OF x(2)] assms(3) by (metis count_list_0_iff gr0I)
  then have n: "bestn \<noteq> 0" using s x by fastforce
  then have d: "dominant_index idx = best"
    unfolding dominant_index_def Let_def HX421_TPIX_def h_def [symmetric] b prod.case by (rule if_P)
  have b: "0 < best" "best < 16" using s n by blast+
  have c: "bestn = count_list idx best" using s n h [OF b(2)] by simp
  have "count_list idx d \<le> bestn" if "0 < d" "d < 16" for d
  proof -
    have "h ! d \<le> bestn" using s that by blast
    then show ?thesis unfolding h [OF that(2)] .
  qed
  then show ?thesis unfolding d using b c n by simp
qed

lemma classify_kinds:
  assumes "hx421_tile_classify idx = (k, c)"
  shows "(k = HX421_TILE_EMPTY \<longrightarrow> (\<forall>q < 64. idx ! q = 0)) \<and>
    (k = HX421_TILE_SOLID \<longrightarrow> idx ! 0 \<noteq> 0 \<and> c = Some (idx ! 0) \<and> (\<forall>q < 64. idx ! q = idx ! 0)) \<and>
    (k = HX421_TILE_MIXED \<longrightarrow> (\<exists>q < 64. idx ! q \<noteq> idx ! 0))"
proof -
  have e: "(\<exists>i \<in> set [1..<HX421_TPIX]. idx ! i \<noteq> idx ! 0) \<longleftrightarrow> (\<exists>q < 64. idx ! q \<noteq> idx ! 0)"
  proof
    assume "\<exists>q < 64. idx ! q \<noteq> idx ! 0"
    then obtain q where q: "q < 64" "idx ! q \<noteq> idx ! 0" by blast
    then have "q \<noteq> 0" by metis
    then have "q \<in> set [1..<HX421_TPIX]" using q(1) by (simp add: HX421_TPIX_def)
    then show "\<exists>i \<in> set [1..<HX421_TPIX]. idx ! i \<noteq> idx ! 0" using q(2) by blast
  qed (auto simp: HX421_TPIX_def)
  show ?thesis
  proof (cases "\<exists>q < 64. idx ! q \<noteq> idx ! 0")
    case True
    then have "k = HX421_TILE_MIXED" using assms unfolding hx421_tile_classify_def Let_def e by simp
    then show ?thesis using True by simp
  next
    case False
    then have all_same: "\<forall>q < 64. idx ! q = idx ! 0" by blast
    have "(k, c) = (if idx ! 0 = 0 then (HX421_TILE_EMPTY, None) else (HX421_TILE_SOLID, Some (idx ! 0)))"
      using assms unfolding hx421_tile_classify_def Let_def e if_not_P [OF False] by (rule sym)
    then have "idx ! 0 = 0 \<and> k = HX421_TILE_EMPTY \<or> idx ! 0 \<noteq> 0 \<and> k = HX421_TILE_SOLID \<and> c = Some (idx ! 0)"
      by (cases "idx ! 0 = 0") simp_all
    then show ?thesis
    proof (elim disjE conjE)
      assume "idx ! 0 = 0" "k = HX421_TILE_EMPTY"
      then show ?thesis using all_same by (metis tile_kind.distinct(1,3))
    next
      assume "idx ! 0 \<noteq> 0" "k = HX421_TILE_SOLID" "c = Some (idx ! 0)"
      then show ?thesis using all_same by (metis tile_kind.distinct(1,5))
    qed
  qed
qed

lemma seg_blit_slot:
  assumes "slot < n" and "n * 32 + 32 \<le> length m" and "length xs = 32"
  shows "seg (slot * 32) 32 (blit m (n * 32) xs) = seg (slot * 32) 32 m"
proof -
  have "slot * 32 + 32 \<le> n * 32" using assms(1) by simp
  then show ?thesis using assms(2,3) by (intro nth_equalityI) (auto simp: nth_seg nth_blit)
qed

lemma seg_blit_own:
  assumes "n * 32 + 32 \<le> length m" and "length xs = 32"
  shows "seg (n * 32) 32 (blit m (n * 32) xs) = xs"
  using assms by (intro nth_equalityI) (auto simp: nth_seg nth_blit)

text \<open>Placing a tile shows it, keeps what was shown, and stays within the pools.\<close>

definition census :: "render_out \<Rightarrow> nat" where
  "census out = ro_n_empty out + ro_n_solid out + ro_n_mixed out"

lemma entry_shows_cong:
  assumes "ro_used out' = ro_used out" and "ro_chr out' = ro_chr out"
  shows "entry_shows out' attr i e = entry_shows out attr i e"
  unfolding entry_shows_def assms ..

lemma entry_shows_slotI:
  assumes "\<exists>q < 64. idx ! q \<noteq> idx ! 0" and "slot < ro_used out"
    and "\<forall>y < 8. \<forall>x < 8. unpack_pixel (seg (slot * 32) 32 (ro_chr out)) x y = idx ! (y * 8 + x)"
  shows "entry_shows out attr idx (16 + slot + attr)"
  unfolding entry_shows_def
  by (rule disjI2, rule disjI2, rule conjI [OF assms(1)], rule disjI1, rule exI [of _ slot],
      rule conjI [OF assms(2)], rule conjI [OF refl assms(3)])

lemma entry_shows_fullI:
  assumes "\<exists>q < 64. idx ! q \<noteq> idx ! 0" and "ro_used out = 750"
    and "0 < c \<and> c < 16 \<and> 0 < count_list idx c \<and> (\<forall>d. 0 < d \<and> d < 16 \<longrightarrow> count_list idx d \<le> count_list idx c)"
  shows "entry_shows out attr idx (c + attr)"
  unfolding entry_shows_def using assms(3)
  by (intro disjI2 conjI [OF assms(1)] conjI [OF assms(2)] exI [of _ c]) simp

lemma entry_shows_slot:
  assumes "\<forall>slot < ro_used out. seg (slot * 32) 32 (ro_chr out') = seg (slot * 32) 32 (ro_chr out)"
    and "ro_used out \<le> ro_used out'" and "ro_used out \<noteq> 750" and "entry_shows out attr i e"
  shows "entry_shows out' attr i e"
proof -
  have slot: "slot < ro_used out'" "seg (slot * 32) 32 (ro_chr out') = seg (slot * 32) 32 (ro_chr out)" if "slot < ro_used out" for slot
    using assms(1,2) that by auto
  have "(\<forall>q < 64. i ! q = 0) \<and> e = attr \<or> (\<exists>c. c \<noteq> 0 \<and> (\<forall>q < 64. i ! q = c) \<and> e = c + attr) \<or>
     (\<exists>q < 64. i ! q \<noteq> i ! 0) \<and> (\<exists>slot < ro_used out. e = 16 + slot + attr \<and>
           (\<forall>y < 8. \<forall>x < 8. unpack_pixel (seg (slot * 32) 32 (ro_chr out)) x y = i ! (y * 8 + x)))"
    using assms(3,4) unfolding entry_shows_def by blast
  then show ?thesis
  proof (elim disjE conjE exE)
    fix q slot
    assume s: "slot < ro_used out" "e = 16 + slot + attr"
      "\<forall>y < 8. \<forall>x < 8. unpack_pixel (seg (slot * 32) 32 (ro_chr out)) x y = i ! (y * 8 + x)"
      and q: "q < 64" "i ! q \<noteq> i ! 0"
    have "entry_shows out' attr i (16 + slot + attr)"
      using q s(3) slot [OF s(1)] by (intro entry_shows_slotI) auto
    then show ?thesis by (simp add: s(2))
  next
    assume "\<forall>q < 64. i ! q = 0" "e = attr"
    then show ?thesis unfolding entry_shows_def by blast
  next
    fix c assume "c \<noteq> 0" "\<forall>q < 64. i ! q = c" "e = c + attr"
    then show ?thesis unfolding entry_shows_def by blast
  qed
qed

lemma place_tile_spec:
  assumes ok: "frame_ok out" "census out < 1024" and i: "length idx = 64" "\<forall>x \<in> set idx. x < 16"
    and p: "place_tile out idx = (out', tile)"
  shows "frame_ok out' \<and> census out' = census out + 1 \<and> ro_tilemap out' = ro_tilemap out \<and> tile < 1024 \<and>
    entry_shows out' attr idx (tile + attr) \<and> (\<forall>i e. entry_shows out attr i e \<longrightarrow> entry_shows out' attr i e)"
proof -
  have first: "idx ! 0 < 16" using i by simp
  have len: "length (hx421_tile_pack4bpp idx) = 32" using pack_tile(1) [of 0] by simp
  note defs = frame_ok_def census_def HX421_SOLID_BASE_def HX421_DYN_BASE_def HX421_DYN_SLOTS_def
  obtain k c where k: "hx421_tile_classify idx = (k, c)" by (cases "hx421_tile_classify idx")
  note kk = classify_kinds [OF k]
  show ?thesis
  proof (cases k)
    case HX421_TILE_EMPTY
    then have o: "out' = out\<lparr>ro_n_empty := u16 (ro_n_empty out + 1)\<rparr>" "tile = 0"
      using p k by (simp_all add: place_tile_def defs)
    have "entry_shows out' attr idx (tile + attr)" using kk HX421_TILE_EMPTY o(2) by (simp add: entry_shows_def)
    moreover have "entry_shows out' attr i e = entry_shows out attr i e" for i e
      using o by (intro entry_shows_cong) simp_all
    moreover have "frame_ok out' \<and> census out' = census out + 1 \<and> ro_tilemap out' = ro_tilemap out \<and> tile < 1024"
      using ok first o by (simp add: defs)
    ultimately show ?thesis by blast
  next
    case HX421_TILE_SOLID
    then have "c = Some (idx ! 0)" using kk by blast
    then have o: "out' = out\<lparr>ro_n_solid := u16 (ro_n_solid out + 1)\<rparr>" "tile = idx ! 0"
      using p k HX421_TILE_SOLID by (simp_all add: place_tile_def defs)
    have "idx ! 0 \<noteq> 0" "\<forall>q < 64. idx ! q = idx ! 0" using kk HX421_TILE_SOLID by blast+
    then have "entry_shows out' attr idx (tile + attr)" unfolding entry_shows_def o(2) by blast
    moreover have "entry_shows out' attr i e = entry_shows out attr i e" for i e
      using o by (intro entry_shows_cong) simp_all
    moreover have "frame_ok out' \<and> census out' = census out + 1 \<and> ro_tilemap out' = ro_tilemap out \<and> tile < 1024"
      using ok first o by (simp add: defs)
    ultimately show ?thesis by blast
  next
    case HX421_TILE_MIXED
    then have mixed: "\<exists>q < 64. idx ! q \<noteq> idx ! 0" using kk by blast
    show ?thesis
    proof (cases "ro_used out < 750")
      case True
      then have o: "out' = out\<lparr>ro_n_mixed := u16 (ro_n_mixed out + 1), ro_chr := blit (ro_chr out) (ro_used out * 32)
          (hx421_tile_pack4bpp idx), ro_used := ro_used out + 1\<rparr>" "tile = 16 + ro_used out"
        using p k HX421_TILE_MIXED by (simp_all add: place_tile_def Let_def HX421_DYN_BASE_def HX421_DYN_SLOTS_def)
      have room: "ro_used out * 32 + 32 \<le> length (ro_chr out)" using ok(1) True by (simp add: frame_ok_def)
      have "unpack_pixel (hx421_tile_pack4bpp idx) x y = idx ! (y * 8 + x)" if "x < 8" "y < 8" for x y
      proof -
        have "idx ! (y * 8 + x) < 16" using i that by simp
        then show ?thesis using tile_pack_roundtrip [OF that, of idx] by simp
      qed
      then have "\<forall>y < 8. \<forall>x < 8. unpack_pixel (seg (ro_used out * 32) 32 (ro_chr out')) x y = idx ! (y * 8 + x)"
        using seg_blit_own [OF room len] by (simp add: o)
      moreover have "ro_used out < ro_used out'" by (simp add: o)
      ultimately have "entry_shows out' attr idx (16 + ro_used out + attr)"
        using mixed by (intro entry_shows_slotI)
      then have own: "entry_shows out' attr idx (tile + attr)" by (simp add: o)
      have chr: "ro_chr out' = blit (ro_chr out) (ro_used out * 32) (hx421_tile_pack4bpp idx)"
        and used: "ro_used out' = ro_used out + 1" by (simp_all add: o)
      have "\<forall>slot < ro_used out. seg (slot * 32) 32 (ro_chr out') = seg (slot * 32) 32 (ro_chr out)"
        unfolding chr using seg_blit_slot [OF _ room len] by blast
      then have "\<forall>i e. entry_shows out attr i e \<longrightarrow> entry_shows out' attr i e"
        using entry_shows_slot [of out out'] used True by auto
      moreover have "frame_ok out' \<and> census out' = census out + 1 \<and> ro_tilemap out' = ro_tilemap out \<and> tile < 1024"
        using ok True room len by (simp add: frame_ok_def census_def o)
      ultimately show ?thesis using own by blast
    next
      case False
      then have o: "out' = out\<lparr>ro_n_mixed := u16 (ro_n_mixed out + 1), ro_n_degraded := u16 (ro_n_degraded out + 1)\<rparr>"
          "tile = dominant_index idx"
        using p k HX421_TILE_MIXED by (simp_all add: place_tile_def Let_def HX421_SOLID_BASE_def HX421_DYN_SLOTS_def)
      have "ro_n_degraded out < 1024" using ok by (simp add: frame_ok_def census_def)
      moreover obtain x where "x \<in> set idx" "x \<noteq> 0" using mixed i(1) by (metis nth_mem zero_less_numeral)
      note most = dominant_index_most [OF i this]
      have full: "ro_used out' = 750" using ok(1) False by (simp add: frame_ok_def o)
      have "entry_shows out' attr idx (tile + attr)"
        unfolding o(2) using mixed full most by (intro entry_shows_fullI)
      moreover have "entry_shows out' attr i e = entry_shows out attr i e" for i e
        using o by (intro entry_shows_cong) simp_all
      moreover have "dominant_index idx < 16" using most by blast
      then have "frame_ok out' \<and> census out' = census out + 1 \<and> ro_tilemap out' = ro_tilemap out \<and> tile < 1024"
        using ok False by (simp add: defs o)
      ultimately show ?thesis by blast
    qed
  qed
qed

text \<open>The frame after the tiles of \<open>ps\<close>.\<close>

definition drawn_tiles :: "tri list \<Rightarrow> nat \<Rightarrow> (nat \<times> nat) list \<Rightarrow> render_out \<Rightarrow> bool" where
  "drawn_tiles tris attr ps out \<longleftrightarrow> frame_ok out \<and> census out = length ps \<and>
     (\<forall>(ty, tx) \<in> set ps. entry_shows out attr (tile_pixels tris ty tx) (ro_tilemap out ! (ty * 32 + tx)))"

lemma frame_tile_step:
  assumes tris: "\<forall>t \<in> set tris. tri_ok t \<and> tr_color t < 16" and k: "k < 8"
    and d: "drawn_tiles tris (k * 1024) ps out" and new: "(ty, tx) \<notin> set ps" "ty < 32" "tx < 32"
    and old: "\<forall>p \<in> set ps. fst p < 32 \<and> snd p < 32" "length ps < 1024"
  shows "drawn_tiles tris (k * 1024) (ps @ [(ty, tx)]) (frame_tile tris (u16 (k * 1024)) out (ty, tx))"
proof -
  let ?idx = "tile_pixels tris ty tx"
  obtain out' tile where p: "place_tile out ?idx = (out', tile)" by (cases "place_tile out ?idx")
  have f: "frame_ok out" "census out = length ps" using d by (simp_all add: drawn_tiles_def)
  have i: "length ?idx = 64" "\<forall>x \<in> set ?idx. x < 16"
    using tile_pixels_colour [of tris] tris by (auto simp: tile_pixels_def in_set_conv_nth)
  have drawn: "fst (hx421_raster_tile tris (int tx) (int ty) (replicate 64 0) (replicate 64 65535)) = ?idx"
    using tris new by (intro tile_pixels_drawn) auto
  have c: "census out < 1024" using f(2) old(2) by simp
  note s = place_tile_spec [OF f(1) c i p, of "k * 1024"]
  have r: "frame_tile tris (u16 (k * 1024)) out (ty, tx) =
      out'\<lparr>ro_tilemap := (ro_tilemap out)[ty * 32 + tx := tile + k * 1024]\<rparr>" (is "_ = ?new")
    using p s or_attr [OF _ k, of tile]
    by (simp add: frame_tile_def drawn hx421_tile_clear_def HX421_TPIX_def
        HX421_ZFAR_def HX421_MAP_W_def Let_def)
  have e: "entry_shows ?new (k * 1024) i e = entry_shows out' (k * 1024) i e" for i e
    by (intro entry_shows_cong) simp_all
  have l: "length (ro_tilemap out) = 1024" using f(1) by (simp add: frame_ok_def)
  have "entry_shows ?new (k * 1024) (tile_pixels tris y x) (ro_tilemap ?new ! (y * 32 + x))"
    if "(y, x) \<in> set (ps @ [(ty, tx)])" for y x
  proof (cases "(y, x) = (ty, tx)")
    case True
    have "ty * 32 + tx < 1024" using new by simp
    then show ?thesis using s l True unfolding e by simp
  next
    case False
    then have m: "(y, x) \<in> set ps" using that by auto
    then have b: "y < 32" "x < 32" using old(1) by auto
    have "ty * 32 + tx \<noteq> y * 32 + x" using row_column_unique [of ty 32 tx y x] False b new by auto
    moreover have "entry_shows out (k * 1024) (tile_pixels tris y x) (ro_tilemap out ! (y * 32 + x))"
      using d m by (auto simp: drawn_tiles_def)
    ultimately show ?thesis using s unfolding e by simp
  qed
  moreover have "frame_ok ?new" "census ?new = length ps + 1"
    using s l f(2) by (simp_all add: frame_ok_def census_def)
  ultimately show ?thesis unfolding drawn_tiles_def r by auto
qed

lemma frame_tiles_drawn:
  assumes "\<forall>t \<in> set tris. tri_ok t \<and> tr_color t < 16" and "k < 8" and "drawn_tiles tris (k * 1024) [] out"
    and "distinct ps" and "\<forall>p \<in> set ps. fst p < 32 \<and> snd p < 32" and "length ps \<le> 1024"
  shows "drawn_tiles tris (k * 1024) ps (foldl (frame_tile tris (u16 (k * 1024))) out ps)"
  using assms(4-6)
proof (induction ps rule: rev_induct)
  case (snoc p ps)
  obtain ty tx where p: "p = (ty, tx)" by (cases p)
  show ?case using snoc frame_tile_step [OF assms(1,2), of ps _ ty tx] by (simp add: p)
qed (simp add: assms(3))


definition blank_out :: render_out where
  "blank_out = \<lparr>ro_tilemap = [], ro_chr = replicate 24000 0, ro_used = 0, ro_n_empty = 0, ro_n_solid = 0,
     ro_n_mixed = 0, ro_n_degraded = 0\<rparr>"


end
