(* ===== verification/Scene3d.thy ===== *)
theory Scene3d
  imports Sprite_Mask Raster
begin

text \<open>
  \<^verbatim>\<open>runtime/hx421_scene3d.c\<close>: the registry of meshes, masks, objects and cameras that the
  renderer and the collision sweep share, the fixed-point rotation matrices and the per-frame
  transform.  Positions are Q16.16, rotations 3 by 3 matrices of Q15, angles 1024ths of a turn.
  A 32-bit sum or product is reduced with \<^const>\<open>i32\<close> where the code stores it; a null
  table of a mesh is \<^term>\<open>None\<close>, and the scene itself is never null.
\<close>

section \<open>Data\<close>

definition HX421_MAX_MESH :: nat where "HX421_MAX_MESH = 16"
definition HX421_MAX_MASK :: nat where "HX421_MAX_MASK = 32"
definition HX421_MAX_OBJ :: nat where "HX421_MAX_OBJ = 64"
definition HX421_MAX_CAM :: nat where "HX421_MAX_CAM = 4"
definition HX421_PAR_SNES :: int where "HX421_PAR_SNES = 74898"

datatype body_kind = HX421_BODY_MESH | HX421_BODY_MASK

datatype fov_preset = HX421_FOV_NARROW | HX421_FOV_NORMAL | HX421_FOV_WIDE | HX421_FOV_VERY_WIDE

record vec =
  vx :: int
  vy :: int
  vz :: int

record mat =
  mt :: "int list"

record plane =
  pl_n :: vec
  pl_d :: int

record mesh =
  ms_verts :: "vec list option"
  ms_vcount :: nat
  ms_faces :: "nat list option"
  ms_colors :: "nat list option"
  ms_fcount :: nat
  ms_radius :: int
  ms_half :: vec
  ms_centre :: vec
  ms_planes :: "plane list"
  ms_pcount :: nat

record object3d =
  ob_kind :: body_kind
  ob_mesh :: nat
  ob_mask_id :: nat
  ob_active :: bool
  ob_visible :: bool
  ob_collidable :: bool
  ob_layer :: nat
  ob_mask :: byte
  ob_passthrough :: bool
  ob_pos :: vec
  ob_vel :: vec
  ob_rot :: mat

record camera =
  cm_active :: bool
  cm_pos :: vec
  cm_rot :: mat
  cm_focal_x :: int
  cm_focal_y :: int

record scene =
  sc_mesh :: "mesh list"
  sc_mask :: "sprite_mask list"
  sc_obj :: "object3d list"
  sc_cam :: "camera list"
  sc_mesh_count :: nat
  sc_mask_count :: nat
  sc_active_cam :: nat

section \<open>Sine table and matrices\<close>

definition sin_q :: "int list" where
  "sin_q =
    [0, 201, 402, 603, 804, 1005, 1206, 1407, 1608, 1809, 2009, 2210, 2411, 2611, 2811, 3012,
     3212, 3412, 3612, 3812, 4011, 4211, 4410, 4609, 4808, 5007, 5205, 5404, 5602, 5800, 5998, 6195,
     6393, 6590, 6787, 6983, 7180, 7376, 7571, 7767, 7962, 8157, 8351, 8546, 8740, 8933, 9127, 9319,
     9512, 9704, 9896, 10088, 10279, 10469, 10660, 10850, 11039, 11228, 11417, 11605, 11793, 11980, 12167, 12354,
     12540, 12725, 12910, 13095, 13279, 13463, 13646, 13828, 14010, 14192, 14373, 14553, 14733, 14912, 15091, 15269,
     15447, 15624, 15800, 15976, 16151, 16326, 16500, 16673, 16846, 17018, 17190, 17361, 17531, 17700, 17869, 18037,
     18205, 18372, 18538, 18703, 18868, 19032, 19195, 19358, 19520, 19681, 19841, 20001, 20160, 20318, 20475, 20632,
     20788, 20943, 21097, 21251, 21403, 21555, 21706, 21856, 22006, 22154, 22302, 22449, 22595, 22740, 22884, 23028,
     23170, 23312, 23453, 23593, 23732, 23870, 24008, 24144, 24279, 24414, 24548, 24680, 24812, 24943, 25073, 25202,
     25330, 25457, 25583, 25708, 25833, 25956, 26078, 26199, 26320, 26439, 26557, 26674, 26791, 26906, 27020, 27133,
     27246, 27357, 27467, 27576, 27684, 27791, 27897, 28002, 28106, 28209, 28311, 28411, 28511, 28610, 28707, 28803,
     28899, 28993, 29086, 29178, 29269, 29359, 29448, 29535, 29622, 29707, 29792, 29875, 29957, 30038, 30118, 30196,
     30274, 30350, 30425, 30499, 30572, 30644, 30715, 30784, 30853, 30920, 30986, 31050, 31114, 31177, 31238, 31298,
     31357, 31415, 31471, 31527, 31581, 31634, 31686, 31737, 31786, 31834, 31881, 31927, 31972, 32015, 32058, 32099,
     32138, 32177, 32214, 32251, 32286, 32319, 32352, 32383, 32413, 32442, 32470, 32496, 32522, 32546, 32568, 32590,
     32610, 32629, 32647, 32664, 32679, 32693, 32706, 32718, 32729, 32738, 32746, 32753, 32758, 32762, 32766, 32767,
     32768]"

definition hx421_sin_q15 :: "int \<Rightarrow> int" where
  "hx421_sin_q15 a0 =
     (let a = nat (a0 mod 1024) in
      if a < 256 then sin_q ! a
      else if a < 512 then sin_q ! (512 - a)
      else if a < 768 then - (sin_q ! (a - 512))
      else - (sin_q ! (1024 - a)))"

definition hx421_cos_q15 :: "int \<Rightarrow> int" where
  "hx421_cos_q15 a = hx421_sin_q15 (i32 (a + 256))"

definition qmul15 :: "int \<Rightarrow> int \<Rightarrow> int" where
  "qmul15 a b = i32 (asr (a * b) 15)"

definition mat_identity :: mat where
  "mat_identity = \<lparr>mt = [32768, 0, 0, 0, 32768, 0, 0, 0, 32768]\<rparr>"

definition mat_mul :: "mat \<Rightarrow> mat \<Rightarrow> mat" where
  "mat_mul a b = \<lparr>mt = map (\<lambda>(i, j).
     i32 (qmul15 (mt a ! (i * 3)) (mt b ! j) + qmul15 (mt a ! (i * 3 + 1)) (mt b ! (3 + j))
        + qmul15 (mt a ! (i * 3 + 2)) (mt b ! (6 + j)))) (List.product [0..<3] [0..<3])\<rparr>"

definition mat_euler :: "int \<Rightarrow> int \<Rightarrow> int \<Rightarrow> mat" where
  "mat_euler yaw pitch roll =
     (let sy = hx421_sin_q15 yaw; cy = hx421_cos_q15 yaw;
          sp = hx421_sin_q15 pitch; cp = hx421_cos_q15 pitch;
          sr = hx421_sin_q15 roll; cr = hx421_cos_q15 roll;
          Y = \<lparr>mt = [cy, 0, sy, 0, 32768, 0, - sy, 0, cy]\<rparr>;
          P = \<lparr>mt = [32768, 0, 0, 0, cp, - sp, 0, sp, cp]\<rparr>;
          R = \<lparr>mt = [cr, - sr, 0, sr, cr, 0, 0, 0, 32768]\<rparr>
      in mat_mul (mat_mul Y P) R)"

definition renorm_row :: "int \<times> int \<times> int \<Rightarrow> int list" where
  "renorm_row v =
     (case v of (x, y, z) \<Rightarrow>
        let d = i32 (qmul15 x x + qmul15 y y + qmul15 z z);
            s = cdiv (i32 (3 * 32768 - d)) 2
        in [qmul15 x s, qmul15 y s, qmul15 z s])"

definition mat_renorm :: "mat \<Rightarrow> mat" where
  "mat_renorm m =
     (let x0 = mt m ! 0; y0 = mt m ! 1; z0 = mt m ! 2;
          x1 = mt m ! 3; y1 = mt m ! 4; z1 = mt m ! 5;
          err = i32 (qmul15 x0 x1 + qmul15 y0 y1 + qmul15 z0 z1);
          h = cdiv err 2;
          ax = i32 (x0 - qmul15 h x1); ay = i32 (y0 - qmul15 h y1); az = i32 (z0 - qmul15 h z1);
          bx = i32 (x1 - qmul15 h x0); by' = i32 (y1 - qmul15 h y0); bz = i32 (z1 - qmul15 h z0);
          cx = i32 (qmul15 ay bz - qmul15 az by'); cy = i32 (qmul15 az bx - qmul15 ax bz);
          cz = i32 (qmul15 ax by' - qmul15 ay bx)
      in \<lparr>mt = renorm_row (ax, ay, az) @ renorm_row (bx, by', bz) @ renorm_row (cx, cy, cz)\<rparr>)"

definition mat_apply :: "mat \<Rightarrow> vec \<Rightarrow> vec" where
  "mat_apply m v = \<lparr>
     vx = i32 (asr (i64 (mt m ! 0 * vx v + mt m ! 1 * vy v + mt m ! 2 * vz v)) 15),
     vy = i32 (asr (i64 (mt m ! 3 * vx v + mt m ! 4 * vy v + mt m ! 5 * vz v)) 15),
     vz = i32 (asr (i64 (mt m ! 6 * vx v + mt m ! 7 * vy v + mt m ! 8 * vz v)) 15)\<rparr>"

definition mat_transpose :: "mat \<Rightarrow> mat" where
  "mat_transpose a = \<lparr>mt = map (\<lambda>(i, j). mt a ! (j * 3 + i)) (List.product [0..<3] [0..<3])\<rparr>"

definition vsub :: "vec \<Rightarrow> vec \<Rightarrow> vec" where
  "vsub a b = \<lparr>vx = i32 (vx a - vx b), vy = i32 (vy a - vy b), vz = i32 (vz a - vz b)\<rparr>"

definition vadd :: "vec \<Rightarrow> vec \<Rightarrow> vec" where
  "vadd a b = \<lparr>vx = i32 (vx a + vx b), vy = i32 (vy a + vy b), vz = i32 (vz a + vz b)\<rparr>"

definition atan2_1024 :: "int \<Rightarrow> int \<Rightarrow> int" where
  "atan2_1024 y x =
     (if x = 0 \<and> y = 0 then 0
      else let ax = (if x < 0 then i32 (- x) else x); ay = (if y < 0 then i32 (- y) else y);
               a = (if ay \<le> ax then i32 (cdiv (ay * 128) (if ax \<noteq> 0 then ax else 1))
                    else i32 (256 - i32 (cdiv (ax * 128) (if ay \<noteq> 0 then ay else 1))));
               a = (if x < 0 then i32 (512 - a) else a);
               a = (if y < 0 then i32 (- a) else a)
           in a mod 1024)"

section \<open>Lifecycle\<close>

definition hx421_scene_init :: "scene \<Rightarrow> scene" where
  "hx421_scene_init s = s\<lparr>
     sc_obj := map (\<lambda>ob. ob\<lparr>ob_active := False, ob_rot := mat_identity\<rparr>) (sc_obj s),
     sc_cam := map (\<lambda>c. c\<lparr>cm_active := False, cm_rot := mat_identity\<rparr>) (sc_cam s),
     sc_mesh_count := 0, sc_mask_count := 0, sc_active_cam := 0\<rparr>"

text \<open>Identifiers are \<^typ>\<open>nat option\<close>, with \<^term>\<open>None\<close> for the failure value -1.\<close>

definition hx421_mesh_register :: "scene \<Rightarrow> mesh \<Rightarrow> nat option \<times> scene" where
  "hx421_mesh_register s m =
     (if HX421_MAX_MESH \<le> sc_mesh_count s then (None, s)
      else (Some (sc_mesh_count s),
            s\<lparr>sc_mesh := (sc_mesh s)[sc_mesh_count s := m], sc_mesh_count := sc_mesh_count s + 1\<rparr>))"

definition hx421_mask_register :: "scene \<Rightarrow> sprite_mask \<Rightarrow> nat option \<times> scene" where
  "hx421_mask_register s m =
     (if HX421_MAX_MASK \<le> sc_mask_count s then (None, s)
      else (Some (sc_mask_count s),
            s\<lparr>sc_mask := (sc_mask s)[sc_mask_count s := m], sc_mask_count := sc_mask_count s + 1\<rparr>))"

text \<open>The integer square root by counting up.\<close>

function sqrt_up :: "int \<Rightarrow> int \<Rightarrow> int" where
  "sqrt_up w r = (if 0 \<le> r \<and> (r + 1) * (r + 1) \<le> w then sqrt_up w (r + 1) else r)"
  by pat_completeness auto
termination
proof (relation "measure (\<lambda>(w, r). nat (w - r))")
  fix w r :: int
  assume a: "0 \<le> r \<and> (r + 1) * (r + 1) \<le> w"
  have "r + 1 \<le> (r + 1) * (r + 1)" using mult_left_mono [of 1 "r + 1" "r + 1"] a by simp
  also have "\<dots> \<le> w" using a by simp
  finally have "r < w" by simp
  then show "((w, r + 1), (w, r)) \<in> measure (\<lambda>(w, r). nat (w - r))" by auto
qed simp

declare sqrt_up.simps [simp del]

definition widen :: "int \<times> int \<Rightarrow> int \<Rightarrow> int \<times> int" where
  "widen b v = (case b of (lo, hi) \<Rightarrow> (if v < lo then v else lo, if hi < v then v else hi))"

definition axis_bounds :: "(vec \<Rightarrow> int) \<Rightarrow> vec list \<Rightarrow> int \<times> int" where
  "axis_bounds c vs = foldl (\<lambda>b v. widen b (c v)) (c (vs ! 0), c (vs ! 0)) (tl vs)"

definition dist_sq8 :: "vec \<Rightarrow> vec \<Rightarrow> int" where
  "dist_sq8 v c =
     (let dx = asr (i32 (vx v - vx c)) 8; dy = asr (i32 (vy v - vy c)) 8; dz = asr (i32 (vz v - vz c)) 8
      in dx * dx + dy * dy + dz * dz)"

definition hx421_mesh_fit_bounds :: "mesh \<Rightarrow> mesh" where
  "hx421_mesh_fit_bounds m =
     (case ms_verts m of
        None \<Rightarrow> m
      | Some verts \<Rightarrow>
          if ms_vcount m = 0 then m
          else let vs = take (ms_vcount m) verts;
                   (lx, hx) = axis_bounds vx vs; (ly, hy) = axis_bounds vy vs; (lz, hz) = axis_bounds vz vs;
                   centre = \<lparr>vx = i32 (lx + cdiv (i32 (hx - lx)) 2), vy = i32 (ly + cdiv (i32 (hy - ly)) 2),
                             vz = i32 (lz + cdiv (i32 (hz - lz)) 2)\<rparr>;
                   half = \<lparr>vx = cdiv (i32 (hx - lx)) 2, vy = cdiv (i32 (hy - ly)) 2, vz = cdiv (i32 (hz - lz)) 2\<rparr>;
                   worst = foldl (\<lambda>w v. if w < dist_sq8 v centre then dist_sq8 v centre else w) 0 vs
               in m\<lparr>ms_centre := centre, ms_half := half, ms_radius := i32 (sqrt_up worst 0 * 256)\<rparr>)"

fun first_free :: "bool list \<Rightarrow> nat option" where
  "first_free [] = None"
| "first_free (a # as) = (if a then map_option Suc (first_free as) else Some 0)"

definition vzero :: vec where "vzero = \<lparr>vx = 0, vy = 0, vz = 0\<rparr>"

definition spawn_slot :: "scene \<Rightarrow> nat option \<times> scene" where
  "spawn_slot s =
     (case first_free (map ob_active (sc_obj s)) of
        None \<Rightarrow> (None, s)
      | Some i \<Rightarrow> (Some i, s\<lparr>sc_obj := (sc_obj s)[i := (sc_obj s ! i)\<lparr>ob_active := True, ob_visible := True,
          ob_collidable := True, ob_layer := 0, ob_mask := 0xFF, ob_passthrough := False, ob_mesh := 0,
          ob_mask_id := 0, ob_vel := vzero, ob_pos := vzero, ob_rot := mat_identity\<rparr>]\<rparr>))"

definition hx421_object_spawn :: "scene \<Rightarrow> int \<Rightarrow> nat option \<times> scene" where
  "hx421_object_spawn s mesh_id =
     (if mesh_id < 0 \<or> int (sc_mesh_count s) \<le> mesh_id then (None, s)
      else case spawn_slot s of
        (None, s) \<Rightarrow> (None, s)
      | (Some i, s) \<Rightarrow> (Some i, s\<lparr>sc_obj := (sc_obj s)[i := (sc_obj s ! i)\<lparr>ob_kind := HX421_BODY_MESH,
          ob_mesh := u16 (nat mesh_id)\<rparr>]\<rparr>))"

definition hx421_actor_spawn :: "scene \<Rightarrow> int \<Rightarrow> nat option \<times> scene" where
  "hx421_actor_spawn s mask_id =
     (if mask_id < 0 \<or> int (sc_mask_count s) \<le> mask_id then (None, s)
      else case spawn_slot s of
        (None, s) \<Rightarrow> (None, s)
      | (Some i, s) \<Rightarrow> (Some i, s\<lparr>sc_obj := (sc_obj s)[i := (sc_obj s ! i)\<lparr>ob_kind := HX421_BODY_MASK,
          ob_mask_id := u16 (nat mask_id), ob_visible := False\<rparr>]\<rparr>))"

definition hx421_object_despawn :: "scene \<Rightarrow> int \<Rightarrow> scene" where
  "hx421_object_despawn s id' =
     (if 0 \<le> id' \<and> id' < int HX421_MAX_OBJ
      then s\<lparr>sc_obj := (sc_obj s)[nat id' := (sc_obj s ! nat id')\<lparr>ob_active := False\<rparr>]\<rparr>
      else s)"

definition obj_of :: "scene \<Rightarrow> int \<Rightarrow> nat option" where
  "obj_of s id' =
     (if id' < 0 \<or> int HX421_MAX_OBJ \<le> id' \<or> \<not> ob_active (sc_obj s ! nat id') then None else Some (nat id'))"

definition cam_of :: "scene \<Rightarrow> int \<Rightarrow> nat option" where
  "cam_of s id' =
     (if id' < 0 \<or> int HX421_MAX_CAM \<le> id' \<or> \<not> cm_active (sc_cam s ! nat id') then None else Some (nat id'))"

text \<open>The pattern of every command: look the entry up, write through the pointer.\<close>

definition at_obj :: "scene \<Rightarrow> int \<Rightarrow> (object3d \<Rightarrow> object3d) \<Rightarrow> scene" where
  "at_obj s id' f =
     (case obj_of s id' of None \<Rightarrow> s | Some i \<Rightarrow> s\<lparr>sc_obj := (sc_obj s)[i := f (sc_obj s ! i)]\<rparr>)"

definition at_cam :: "scene \<Rightarrow> int \<Rightarrow> (camera \<Rightarrow> camera) \<Rightarrow> scene" where
  "at_cam s id' f =
     (case cam_of s id' of None \<Rightarrow> s | Some i \<Rightarrow> s\<lparr>sc_cam := (sc_cam s)[i := f (sc_cam s ! i)]\<rparr>)"

section \<open>Object commands\<close>

definition hx421_object_set_pos :: "scene \<Rightarrow> int \<Rightarrow> vec \<Rightarrow> scene" where
  "hx421_object_set_pos s id' p = at_obj s id' (ob_pos_update (\<lambda>_. p))"

definition hx421_object_set_rot :: "scene \<Rightarrow> int \<Rightarrow> int \<Rightarrow> int \<Rightarrow> int \<Rightarrow> scene" where
  "hx421_object_set_rot s id' yaw pitch roll = at_obj s id' (ob_rot_update (\<lambda>_. mat_euler yaw pitch roll))"

definition hx421_object_set_vel :: "scene \<Rightarrow> int \<Rightarrow> vec \<Rightarrow> scene" where
  "hx421_object_set_vel s id' v = at_obj s id' (ob_vel_update (\<lambda>_. v))"

definition hx421_object_translate :: "scene \<Rightarrow> int \<Rightarrow> vec \<Rightarrow> scene" where
  "hx421_object_translate s id' d = at_obj s id' (ob_pos_update (\<lambda>p. vadd p d))"

definition hx421_object_move_local :: "scene \<Rightarrow> int \<Rightarrow> vec \<Rightarrow> scene" where
  "hx421_object_move_local s id' d =
     at_obj s id' (\<lambda>ob. ob\<lparr>ob_pos := vadd (ob_pos ob) (mat_apply (ob_rot ob) d)\<rparr>)"

definition hx421_object_rotate :: "scene \<Rightarrow> int \<Rightarrow> int \<Rightarrow> int \<Rightarrow> int \<Rightarrow> scene" where
  "hx421_object_rotate s id' dyaw dpitch droll =
     at_obj s id' (ob_rot_update (\<lambda>r. mat_renorm (mat_mul r (mat_euler dyaw dpitch droll))))"

definition look_rot :: "vec \<Rightarrow> vec \<Rightarrow> mat" where
  "look_rot from_p to_p =
     (let d = vsub to_p from_p;
          yaw = atan2_1024 (vx d) (vz d);
          hx = asr (vx d) 8; hz = asr (vz d) 8;
          h = sqrt_up (hx * hx + hz * hz) 0;
          pitch = i32 (- atan2_1024 (i32 (asr (vy d) 8)) (i32 h))
      in mat_euler yaw pitch 0)"

definition hx421_object_point_at :: "scene \<Rightarrow> int \<Rightarrow> vec \<Rightarrow> scene" where
  "hx421_object_point_at s id' target = at_obj s id' (\<lambda>ob. ob\<lparr>ob_rot := look_rot (ob_pos ob) target\<rparr>)"

section \<open>Camera commands\<close>

definition cam_apply_par :: "int \<Rightarrow> camera \<Rightarrow> camera" where
  "cam_apply_par par c = c\<lparr>cm_focal_y := i32 (asr (cm_focal_x c * par) 16)\<rparr>"

definition hx421_camera_register :: "scene \<Rightarrow> vec \<Rightarrow> int \<Rightarrow> nat option \<times> scene" where
  "hx421_camera_register s pos focal_x =
     (case first_free (map cm_active (sc_cam s)) of
        None \<Rightarrow> (None, s)
      | Some i \<Rightarrow> (Some i, s\<lparr>sc_cam := (sc_cam s)[i := cam_apply_par HX421_PAR_SNES
          ((sc_cam s ! i)\<lparr>cm_active := True, cm_pos := pos, cm_rot := mat_identity,
             cm_focal_x := (if focal_x \<noteq> 0 then focal_x else 128 * 2 ^ 16)\<rparr>)]\<rparr>))"

definition hx421_camera_set_par :: "scene \<Rightarrow> int \<Rightarrow> int \<Rightarrow> scene" where
  "hx421_camera_set_par s id' par = at_cam s id' (\<lambda>c. if 0 < par then cam_apply_par par c else c)"

text \<open>The pixel aspect a camera has now, and the one the commands go on with.\<close>

definition camera_par :: "camera \<Rightarrow> int" where
  "camera_par c =
     (let par = (if cm_focal_x c \<noteq> 0 then i32 (cdiv (cm_focal_y c * 2 ^ 16) (cm_focal_x c)) else HX421_PAR_SNES)
      in if 0 < par then par else HX421_PAR_SNES)"

definition camera_fov :: "int \<Rightarrow> int \<Rightarrow> camera \<Rightarrow> camera" where
  "camera_fov hfov0 screen_w c =
     (if screen_w \<le> 0 then c
      else let hfov = (if hfov0 < 8 then 8 else hfov0);
               hfov = (if 460 < hfov then 460 else hfov);
               half = cdiv hfov 2;
               sn = hx421_sin_q15 half; cs = hx421_cos_q15 half;
               tan_q16 = i32 (cdiv (sn * 2 ^ 16) (if cs \<noteq> 0 then cs else 1))
           in if sn \<le> 0 then c
              else if tan_q16 \<le> 0 then c
              else cam_apply_par (camera_par c)
                     (c\<lparr>cm_focal_x := i32 (cdiv (cdiv screen_w 2 * 2 ^ 32) tan_q16)\<rparr>))"

definition hx421_camera_set_fov :: "scene \<Rightarrow> int \<Rightarrow> int \<Rightarrow> int \<Rightarrow> scene" where
  "hx421_camera_set_fov s id' hfov screen_w = at_cam s id' (camera_fov hfov screen_w)"

definition preset_fov :: "fov_preset \<Rightarrow> int" where
  "preset_fov p = (case p of HX421_FOV_NARROW \<Rightarrow> 114 | HX421_FOV_NORMAL \<Rightarrow> 171
     | HX421_FOV_WIDE \<Rightarrow> 213 | HX421_FOV_VERY_WIDE \<Rightarrow> 256)"

definition hx421_camera_set_fov_preset :: "scene \<Rightarrow> int \<Rightarrow> fov_preset \<Rightarrow> int \<Rightarrow> scene" where
  "hx421_camera_set_fov_preset s id' p screen_w = hx421_camera_set_fov s id' (preset_fov p) screen_w"

definition focal_for_span :: "int \<Rightarrow> int \<Rightarrow> int \<Rightarrow> int" where
  "focal_for_span screen_px world depth =
     (if world \<le> 0 \<or> depth \<le> 0 \<or> screen_px \<le> 0 then 0
      else i32 (cdiv (i64 (screen_px * depth * 2 ^ 16)) world))"

definition hx421_camera_frame_width :: "scene \<Rightarrow> int \<Rightarrow> int \<Rightarrow> int \<Rightarrow> int \<Rightarrow> scene" where
  "hx421_camera_frame_width s id' world_w depth screen_w =
     at_cam s id' (\<lambda>c. let f = focal_for_span screen_w world_w depth in
       if f \<le> 0 then c else cam_apply_par (camera_par c) (c\<lparr>cm_focal_x := f\<rparr>))"

definition hx421_camera_frame_height :: "scene \<Rightarrow> int \<Rightarrow> int \<Rightarrow> int \<Rightarrow> int \<Rightarrow> scene" where
  "hx421_camera_frame_height s id' world_h depth screen_h =
     at_cam s id' (\<lambda>c. let fy = focal_for_span screen_h world_h depth in
       if fy \<le> 0 then c
       else c\<lparr>cm_focal_y := fy, cm_focal_x := i32 (cdiv (fy * 2 ^ 16) (camera_par c))\<rparr>)"

definition box_focal :: "vec \<Rightarrow> int \<Rightarrow> int \<Rightarrow> int \<Rightarrow> camera \<Rightarrow> int" where
  "box_focal half depth screen_w screen_h c =
     (let near = i32 (depth - vz half);
          near = (if near < 2 ^ 14 then 2 ^ 14 else near);
          fx_w = focal_for_span screen_w (i32 (vx half * 2)) near;
          fy_h = focal_for_span screen_h (i32 (vy half * 2)) near;
          fx_h = (if 0 < fy_h then i32 (cdiv (fy_h * 2 ^ 16) (camera_par c)) else 0)
      in if 0 < fx_h \<and> fx_h < fx_w then fx_h else fx_w)"

definition hx421_camera_frame_box :: "scene \<Rightarrow> int \<Rightarrow> vec \<Rightarrow> int \<Rightarrow> int \<Rightarrow> int \<Rightarrow> scene" where
  "hx421_camera_frame_box s id' half depth screen_w screen_h =
     at_cam s id' (\<lambda>c. let fx = box_focal half depth screen_w screen_h c in
       if fx \<le> 0 then c else cam_apply_par (camera_par c) (c\<lparr>cm_focal_x := fx\<rparr>))"

text \<open>
  The distance chosen and the scene.  The two divisors are the half screen sizes, so a screen
  one pixel wide or high divides by zero: \<^term>\<open>None\<close>.
\<close>

definition hx421_camera_fit_box :: "scene \<Rightarrow> int \<Rightarrow> vec \<Rightarrow> vec \<Rightarrow> int \<Rightarrow> int \<Rightarrow> (int \<times> scene) option" where
  "hx421_camera_fit_box s id' centre half screen_w screen_h =
     (case cam_of s id' of
        None \<Rightarrow> Some (0, s)
      | Some i \<Rightarrow>
          if screen_w \<le> 0 \<or> screen_h \<le> 0 then Some (0, s)
          else if cdiv screen_w 2 = 0 \<or> cdiv screen_h 2 = 0 then None
          else let c = sc_cam s ! i;
                   dx = cdiv (asr (vx half * cm_focal_x c) 16) (cdiv screen_w 2);
                   dy = cdiv (asr (vy half * cm_focal_y c) 16) (cdiv screen_h 2);
                   d = (if dy < dx then dx else dy) + vz half;
                   d = (if d < 2 ^ 16 then 2 ^ 16 else d);
                   pos = \<lparr>vx = i32 (vx centre - i32 (asr (i64 (mt (cm_rot c) ! 2 * d)) 15)),
                          vy = i32 (vy centre - i32 (asr (i64 (mt (cm_rot c) ! 5 * d)) 15)),
                          vz = i32 (vz centre - i32 (asr (i64 (mt (cm_rot c) ! 8 * d)) 15))\<rparr>
               in Some (i32 d, s\<lparr>sc_cam := (sc_cam s)[i := c\<lparr>cm_pos := pos\<rparr>]\<rparr>))"

definition hx421_camera_set_active :: "scene \<Rightarrow> int \<Rightarrow> scene" where
  "hx421_camera_set_active s id' =
     (if 0 \<le> id' \<and> id' < int HX421_MAX_CAM then s\<lparr>sc_active_cam := nat id'\<rparr> else s)"

definition hx421_camera_set_pos :: "scene \<Rightarrow> int \<Rightarrow> vec \<Rightarrow> scene" where
  "hx421_camera_set_pos s id' p = at_cam s id' (cm_pos_update (\<lambda>_. p))"

definition hx421_camera_translate :: "scene \<Rightarrow> int \<Rightarrow> vec \<Rightarrow> scene" where
  "hx421_camera_translate s id' d = at_cam s id' (cm_pos_update (\<lambda>p. vadd p d))"

definition hx421_camera_move_local :: "scene \<Rightarrow> int \<Rightarrow> vec \<Rightarrow> scene" where
  "hx421_camera_move_local s id' d =
     at_cam s id' (\<lambda>c. c\<lparr>cm_pos := vadd (cm_pos c) (mat_apply (cm_rot c) d)\<rparr>)"

definition hx421_camera_rotate :: "scene \<Rightarrow> int \<Rightarrow> int \<Rightarrow> int \<Rightarrow> int \<Rightarrow> scene" where
  "hx421_camera_rotate s id' dy dp dr =
     at_cam s id' (cm_rot_update (\<lambda>r. mat_renorm (mat_mul r (mat_euler dy dp dr))))"

definition hx421_camera_point_at :: "scene \<Rightarrow> int \<Rightarrow> vec \<Rightarrow> scene" where
  "hx421_camera_point_at s id' target = at_cam s id' (\<lambda>c. c\<lparr>cm_rot := look_rot (cm_pos c) target\<rparr>)"

section \<open>The per-frame transform\<close>

definition NEAR :: int where "NEAR = 2 ^ 14"

text \<open>A vertex in view space, and its projection.\<close>

definition view_vertex :: "mat \<Rightarrow> camera \<Rightarrow> object3d \<Rightarrow> vec \<Rightarrow> vec" where
  "view_vertex view cam ob vm = mat_apply view (vsub (vadd (mat_apply (ob_rot ob) vm) (ob_pos ob)) (cm_pos cam))"

definition project :: "camera \<Rightarrow> int \<Rightarrow> int \<Rightarrow> vec \<Rightarrow> vtx" where
  "project cam cx cy vv =
     (let sx = cdiv (vx vv * cm_focal_x cam) (vz vv);
          sy = cdiv (vy vv * cm_focal_y cam) (vz vv);
          z = asr (vz vv) 8;
          z = (if z < 0 then 0 else z);
          z = (if int HX421_ZFAR < z then int HX421_ZFAR else z)
      in \<lparr>vt_x = i32 (cx + i32 (asr sx 8)), vt_y = i32 (cy - i32 (asr sy 8)), vt_z = u16 (nat z)\<rparr>)"

definition render_vertex :: "mat \<Rightarrow> camera \<Rightarrow> int \<Rightarrow> int \<Rightarrow> object3d \<Rightarrow> vec list \<Rightarrow> nat \<Rightarrow> vtx option" where
  "render_vertex view cam cx cy ob verts k =
     (let vv = view_vertex view cam ob (verts ! k)
      in if vz vv < NEAR then None else Some (project cam cx cy vv))"

definition render_face :: "mat \<Rightarrow> camera \<Rightarrow> int \<Rightarrow> int \<Rightarrow> object3d \<Rightarrow> mesh \<Rightarrow> vec list \<Rightarrow> nat list \<Rightarrow> nat \<Rightarrow> tri option" where
  "render_face view cam cx cy ob m verts faces f =
     (let rv = (\<lambda>k. render_vertex view cam cx cy ob verts (faces ! (f * 3 + k))) in
      case rv 0 of None \<Rightarrow> None
      | Some v0 \<Rightarrow> (case rv 1 of None \<Rightarrow> None
      | Some v1 \<Rightarrow> (case rv 2 of None \<Rightarrow> None
      | Some v2 \<Rightarrow> Some \<lparr>tr_v0 = v0, tr_v1 = v1, tr_v2 = v2,
            tr_color = (case ms_colors m of None \<Rightarrow> 1 | Some cs \<Rightarrow> cs ! f)\<rparr>)))"

fun render_faces :: "(nat \<Rightarrow> tri option) \<Rightarrow> nat \<Rightarrow> nat list \<Rightarrow> tri list \<Rightarrow> tri list" where
  "render_faces face limit [] out = out"
| "render_faces face limit (f # fs) out =
     (if limit \<le> length out then out
      else case face f of None \<Rightarrow> render_faces face limit fs out
           | Some t \<Rightarrow> render_faces face limit fs (out @ [t]))"

text \<open>What an object contributes: its mesh's faces, or nothing when it is not drawn.\<close>

definition render_object :: "scene \<Rightarrow> mat \<Rightarrow> camera \<Rightarrow> int \<Rightarrow> int \<Rightarrow> nat \<Rightarrow> object3d \<Rightarrow> tri list \<Rightarrow> tri list" where
  "render_object s view cam cx cy limit ob out =
     (if \<not> ob_active ob \<or> \<not> ob_visible ob then out
      else if ob_kind ob \<noteq> HX421_BODY_MESH then out
      else let m = sc_mesh s ! ob_mesh ob in
           case ms_verts m of None \<Rightarrow> out
           | Some verts \<Rightarrow> (case ms_faces m of None \<Rightarrow> out
           | Some faces \<Rightarrow>
               let oc = mat_apply view (vsub (ob_pos ob) (cm_pos cam)) in
               if i32 (vz oc + ms_radius m) < NEAR then out
               else render_faces (render_face view cam cx cy ob m verts faces) limit [0..<ms_fcount m] out))"

fun render_objects :: "scene \<Rightarrow> mat \<Rightarrow> camera \<Rightarrow> int \<Rightarrow> int \<Rightarrow> nat \<Rightarrow> object3d list \<Rightarrow> tri list \<Rightarrow> tri list" where
  "render_objects s view cam cx cy limit [] out = out"
| "render_objects s view cam cx cy limit (ob # obs) out =
     (if limit \<le> length out then out
      else render_objects s view cam cx cy limit obs (render_object s view cam cx cy limit ob out))"

definition hx421_scene_render :: "scene \<Rightarrow> int \<Rightarrow> int \<Rightarrow> int \<Rightarrow> tri list" where
  "hx421_scene_render s limit screen_w screen_h =
     (if limit \<le> 0 then []
      else let cam = sc_cam s ! sc_active_cam s in
           if \<not> cm_active cam then []
           else let view = mat_transpose (cm_rot cam);
                    cx = i32 (cdiv screen_w 2 * HX421_ONE); cy = i32 (cdiv screen_h 2 * HX421_ONE)
                in render_objects s view cam cx cy (nat limit) (sc_obj s) [])"

end
