(* ===== verification/Scene3d_Spec.thy ===== *)
theory Scene3d_Spec
  imports Scene3d
begin

text \<open>
  The registry's invariant over every sequence of commands, the bounds derived from a mesh, the
  sine table, and what the per-frame transform emits.
\<close>

section \<open>Bounds of a mesh\<close>

lemma sqrt_up_floor:
  "0 \<le> r \<Longrightarrow> r * r \<le> w \<Longrightarrow> 0 \<le> sqrt_up w r \<and> sqrt_up w r * sqrt_up w r \<le> w \<and> w < (sqrt_up w r + 1) * (sqrt_up w r + 1)"
proof (induction w r rule: sqrt_up.induct)
  case (1 w r)
  show ?case
  proof (cases "(r + 1) * (r + 1) \<le> w")
    case True
    then have "sqrt_up w r = sqrt_up w (r + 1)" using 1(2) by (subst sqrt_up.simps) simp
    then show ?thesis using 1(1) 1(2) True by simp
  next
    case False
    then have "sqrt_up w r = r" by (subst sqrt_up.simps) simp
    then show ?thesis using 1(2,3) False by simp
  qed
qed

lemma widen_fold:
  assumes "foldl (\<lambda>b v. widen b (c v)) (l, h) vs = (lo, hi)"
  shows "lo \<le> l \<and> h \<le> hi \<and> (\<forall>v \<in> set vs. lo \<le> c v \<and> c v \<le> hi) \<and>
    lo \<in> insert l (c ` set vs) \<and> hi \<in> insert h (c ` set vs)"
  using assms
proof (induction vs arbitrary: l h)
  case (Cons v vs)
  let ?l = "if c v < l then c v else l" and ?h = "if h < c v then c v else h"
  have "foldl (\<lambda>b v. widen b (c v)) (?l, ?h) vs = (lo, hi)" using Cons.prems by (simp add: widen_def)
  from Cons.IH [OF this] show ?case by (auto split: if_splits)
qed simp

lemma axis_bounds_spec:
  assumes "axis_bounds c vs = (lo, hi)" and "vs \<noteq> []"
  shows "(\<forall>v \<in> set vs. lo \<le> c v \<and> c v \<le> hi) \<and> lo \<in> c ` set vs \<and> hi \<in> c ` set vs"
proof -
  obtain a vs' where vs: "vs = a # vs'" using assms(2) by (cases vs) auto
  have "foldl (\<lambda>b v. widen b (c v)) (c a, c a) vs' = (lo, hi)" using assms(1) by (simp add: axis_bounds_def vs)
  from widen_fold [OF this] show ?thesis by (auto simp: vs)
qed

lemma worst_fold:
  "w \<le> foldl (\<lambda>w v. if w < f v then f v else w) w vs \<and>
   (\<forall>v \<in> set vs. f v \<le> foldl (\<lambda>w v. if w < f v then f v else w) w vs) \<and>
   foldl (\<lambda>w v. if w < f v then f v else w) w vs \<in> insert w (f ` set vs)" for f :: "'a \<Rightarrow> int"
proof (induction vs arbitrary: w)
  case (Cons v vs)
  show ?case using Cons [of "if w < f v then f v else w"] by (auto split: if_splits)
qed simp

definition world_coord :: "int \<Rightarrow> bool" where "world_coord x \<longleftrightarrow> - 1073741824 < x \<and> x < 1073741824"

definition world_vec :: "vec \<Rightarrow> bool" where
  "world_vec v \<longleftrightarrow> world_coord (vx v) \<and> world_coord (vy v) \<and> world_coord (vz v)"

text \<open>One axis: the centre and the half extent the code computes enclose the coordinate.\<close>

lemma axis_box:
  assumes "world_coord lo" "world_coord hi" "lo \<le> x" "x \<le> hi"
  shows "\<bar>x - i32 (lo + cdiv (i32 (hi - lo)) 2)\<bar> \<le> cdiv (i32 (hi - lo)) 2 + 1"
    and "world_coord (i32 (lo + cdiv (i32 (hi - lo)) 2))"
    and "\<bar>x - i32 (lo + cdiv (i32 (hi - lo)) 2)\<bar> \<le> 1073741824"
proof -
  have r: "0 \<le> hi - lo" "hi - lo \<le> 2147483647" using assms by (auto simp: world_coord_def)
  then have d: "i32 (hi - lo) = hi - lo" by simp
  have c: "cdiv (hi - lo) 2 = (hi - lo) div 2" using r by (cases "hi = lo") (simp_all add: cdiv_def)
  have s: "i32 (lo + (hi - lo) div 2) = lo + (hi - lo) div 2"
    using assms r by (intro i32_id) (auto simp: world_coord_def)
  have h: "2 * ((hi - lo) div 2) \<le> hi - lo" "hi - lo \<le> 2 * ((hi - lo) div 2) + 1" by auto
  show "\<bar>x - i32 (lo + cdiv (i32 (hi - lo)) 2)\<bar> \<le> cdiv (i32 (hi - lo)) 2 + 1"
    unfolding d c s using assms(3,4) h by linarith
  show "world_coord (i32 (lo + cdiv (i32 (hi - lo)) 2))"
    unfolding d c s using assms h by (auto simp: world_coord_def)
  show "\<bar>x - i32 (lo + cdiv (i32 (hi - lo)) 2)\<bar> \<le> 1073741824"
    unfolding d c s using assms h by (auto simp: world_coord_def)
qed

lemma square_bound: "\<bar>x :: int\<bar> \<le> b \<Longrightarrow> x * x \<le> b * b"
proof -
  assume "\<bar>x\<bar> \<le> b"
  then have "\<bar>x\<bar> * \<bar>x\<bar> \<le> b * b" by (intro mult_mono) auto
  then show ?thesis by simp
qed

text \<open>The squared distance in 1/256 units, without reductions.\<close>

lemma dist_sq8_small:
  assumes "\<bar>vx v - vx c\<bar> \<le> 1073741824" "\<bar>vy v - vy c\<bar> \<le> 1073741824" "\<bar>vz v - vz c\<bar> \<le> 1073741824"
  shows "dist_sq8 v c = ((vx v - vx c) div 256)\<^sup>2 + ((vy v - vy c) div 256)\<^sup>2 + ((vz v - vz c) div 256)\<^sup>2"
    and "0 \<le> dist_sq8 v c" and "dist_sq8 v c < 8388607 * 8388607"
proof -
  have i: "i32 (vx v - vx c) = vx v - vx c" "i32 (vy v - vy c) = vy v - vy c" "i32 (vz v - vz c) = vz v - vz c"
    using assms by (simp_all add: abs_le_iff)
  show e: "dist_sq8 v c = ((vx v - vx c) div 256)\<^sup>2 + ((vy v - vy c) div 256)\<^sup>2 + ((vz v - vz c) div 256)\<^sup>2"
    unfolding dist_sq8_def i by (simp add: asr_def power2_eq_square Let_def)
  then show "0 \<le> dist_sq8 v c" by simp
  have q: "((x :: int) div 256)\<^sup>2 \<le> 4194304 * 4194304" if "\<bar>x\<bar> \<le> 1073741824" for x
  proof -
    have "\<bar>x div 256\<bar> \<le> 4194304" using that by (auto simp: abs_le_iff)
    then show ?thesis unfolding power2_eq_square by (rule square_bound)
  qed
  show "dist_sq8 v c < 8388607 * 8388607" using q [OF assms(1)] q [OF assms(2)] q [OF assms(3)] unfolding e by simp
qed

lemma fit_bounds_run:
  assumes "ms_verts m = Some verts" and "vs = take (ms_vcount m) verts" and "vs \<noteq> []"
    and "axis_bounds vx vs = (lx, hx)" "axis_bounds vy vs = (ly, hy)" "axis_bounds vz vs = (lz, hz)"
  defines "c \<equiv> \<lparr>vx = i32 (lx + cdiv (i32 (hx - lx)) 2), vy = i32 (ly + cdiv (i32 (hy - ly)) 2),
      vz = i32 (lz + cdiv (i32 (hz - lz)) 2)\<rparr>"
  shows "hx421_mesh_fit_bounds m = m\<lparr>ms_centre := c,
      ms_half := \<lparr>vx = cdiv (i32 (hx - lx)) 2, vy = cdiv (i32 (hy - ly)) 2, vz = cdiv (i32 (hz - lz)) 2\<rparr>,
      ms_radius := i32 (sqrt_up (foldl (\<lambda>w v. if w < dist_sq8 v c then dist_sq8 v c else w) 0 vs) 0 * 256)\<rparr>"
proof -
  have "ms_vcount m \<noteq> 0" using assms(2,3) by auto
  then show ?thesis
    unfolding hx421_mesh_fit_bounds_def assms(1) option.case Let_def assms(2) [symmetric] assms(4-6) prod.case c_def
    by simp
qed

text \<open>
  The bounds derived for a mesh enclose it: every vertex is within the half extents of the
  centre (to one unit of the last place) on each axis, and the radius of the bounding sphere is
  the distance of the farthest vertex rounded down to 1/256, so that the sphere misses no vertex
  by more than that rounding.
\<close>
theorem mesh_fit_bounds_encloses:
  assumes "ms_verts m = Some verts" and "vs = take (ms_vcount m) verts" and "vs \<noteq> []"
    and "\<forall>v \<in> set vs. world_vec v"
  shows "let b = hx421_mesh_fit_bounds m; c = ms_centre b; h = ms_half b; k = ms_radius b div 256 in
    ms_radius b = k * 256 \<and> 0 \<le> k \<and>
    (\<forall>v \<in> set vs. \<bar>vx v - vx c\<bar> \<le> vx h + 1 \<and> \<bar>vy v - vy c\<bar> \<le> vy h + 1 \<and> \<bar>vz v - vz c\<bar> \<le> vz h + 1 \<and>
       ((vx v - vx c) div 256)\<^sup>2 + ((vy v - vy c) div 256)\<^sup>2 + ((vz v - vz c) div 256)\<^sup>2 < (k + 1)\<^sup>2) \<and>
    (k = 0 \<or> (\<exists>v \<in> set vs. k\<^sup>2 \<le> ((vx v - vx c) div 256)\<^sup>2 + ((vy v - vy c) div 256)\<^sup>2 + ((vz v - vz c) div 256)\<^sup>2))"
proof -
  obtain lx hx ly hy lz hz where a: "axis_bounds vx vs = (lx, hx)" "axis_bounds vy vs = (ly, hy)" "axis_bounds vz vs = (lz, hz)"
    by (cases "axis_bounds vx vs", cases "axis_bounds vy vs", cases "axis_bounds vz vs") auto
  define c where "c = \<lparr>vx = i32 (lx + cdiv (i32 (hx - lx)) 2), vy = i32 (ly + cdiv (i32 (hy - ly)) 2),
      vz = i32 (lz + cdiv (i32 (hz - lz)) 2)\<rparr>"
  define w where "w = foldl (\<lambda>w v. if w < dist_sq8 v c then dist_sq8 v c else w) 0 vs"
  note run = fit_bounds_run [OF assms(1-3) a, folded c_def, folded w_def]
  have X: "world_coord lx" "world_coord hx" "\<forall>v \<in> set vs. lx \<le> vx v \<and> vx v \<le> hx"
    and Y: "world_coord ly" "world_coord hy" "\<forall>v \<in> set vs. ly \<le> vy v \<and> vy v \<le> hy"
    and Z: "world_coord lz" "world_coord hz" "\<forall>v \<in> set vs. lz \<le> vz v \<and> vz v \<le> hz"
    using axis_bounds_spec [OF a(1) assms(3)] axis_bounds_spec [OF a(2) assms(3)] axis_bounds_spec [OF a(3) assms(3)] assms(4)
    by (auto simp: world_vec_def)
  have box: "\<bar>vx v - vx c\<bar> \<le> cdiv (i32 (hx - lx)) 2 + 1" "\<bar>vy v - vy c\<bar> \<le> cdiv (i32 (hy - ly)) 2 + 1"
      "\<bar>vz v - vz c\<bar> \<le> cdiv (i32 (hz - lz)) 2 + 1"
    and near: "\<bar>vx v - vx c\<bar> \<le> 1073741824" "\<bar>vy v - vy c\<bar> \<le> 1073741824" "\<bar>vz v - vz c\<bar> \<le> 1073741824"
    if "v \<in> set vs" for v
    using axis_box [OF X(1,2), of "vx v"] axis_box [OF Y(1,2), of "vy v"] axis_box [OF Z(1,2), of "vz v"] that X(3) Y(3) Z(3)
    by (simp_all add: c_def)
  have d: "dist_sq8 v c = ((vx v - vx c) div 256)\<^sup>2 + ((vy v - vy c) div 256)\<^sup>2 + ((vz v - vz c) div 256)\<^sup>2"
    "0 \<le> dist_sq8 v c" "dist_sq8 v c < 8388607 * 8388607" if "v \<in> set vs" for v
    using dist_sq8_small [OF near [OF that]] by auto
  have w: "0 \<le> w" "\<forall>v \<in> set vs. dist_sq8 v c \<le> w" "w = 0 \<or> (\<exists>v \<in> set vs. w = dist_sq8 v c)"
    using worst_fold [of 0 "\<lambda>v. dist_sq8 v c" vs] by (auto simp: w_def)
  then have wm: "w < 8388607 * 8388607" using d(3) by auto
  define k where "k = sqrt_up w 0"
  have k: "0 \<le> k" "k * k \<le> w" "w < (k + 1) * (k + 1)" using sqrt_up_floor [of 0 w] w(1) by (auto simp: k_def)
  have "k < 8388607"
  proof (rule ccontr)
    assume "\<not> k < 8388607"
    then have "8388607 * 8388607 \<le> k * k" by (intro mult_mono) auto
    then show False using k(2) wm by linarith
  qed
  then have rad: "i32 (k * 256) = k * 256" using k(1) by simp
  have far: "k = 0 \<or> (\<exists>v \<in> set vs. k\<^sup>2 \<le> ((vx v - vx c) div 256)\<^sup>2 + ((vy v - vy c) div 256)\<^sup>2 + ((vz v - vz c) div 256)\<^sup>2)"
    using w(3)
  proof
    assume "w = 0"
    then have "k * k \<le> 0" using k(2) by simp
    then show ?thesis using k(1) by (auto simp: mult_le_0_iff)
  next
    assume "\<exists>v \<in> set vs. w = dist_sq8 v c"
    then obtain v where "v \<in> set vs" "w = dist_sq8 v c" ..
    then show ?thesis using k(2) d(1) [of v] by (auto simp: power2_eq_square)
  qed
  have all: "((vx v - vx c) div 256)\<^sup>2 + ((vy v - vy c) div 256)\<^sup>2 + ((vz v - vz c) div 256)\<^sup>2 < (k + 1)\<^sup>2"
    if "v \<in> set vs" for v
    using d(1) [OF that] w(2) that k(3) by (auto simp: power2_eq_square)
  show ?thesis unfolding run Let_def using box all far k(1) by (simp add: rad k_def [symmetric])
qed

theorem mesh_fit_bounds_encloses_witness:
  "let m = \<lparr>ms_verts = Some [\<lparr>vx = 0, vy = 0, vz = 0\<rparr>, \<lparr>vx = 1025, vy = 0, vz = 0\<rparr>], ms_vcount = 2,
       ms_faces = None, ms_colors = None, ms_fcount = 0, ms_radius = 0, ms_half = vzero, ms_centre = vzero,
       ms_planes = [], ms_pcount = 0\<rparr>;
     b = hx421_mesh_fit_bounds m
   in ms_radius b = 512 \<and> \<bar>1025 - vx (ms_centre b)\<bar> \<le> vx (ms_half b) + 1"
proof -
  let ?m = "\<lparr>ms_verts = Some [\<lparr>vx = 0, vy = 0, vz = 0\<rparr>, \<lparr>vx = 1025, vy = 0, vz = 0\<rparr>], ms_vcount = 2,
       ms_faces = None, ms_colors = None, ms_fcount = 0, ms_radius = 0, ms_half = vzero, ms_centre = vzero,
       ms_planes = [], ms_pcount = 0\<rparr> :: mesh"
  let ?vs = "[\<lparr>vx = 0, vy = 0, vz = 0\<rparr>, \<lparr>vx = 1025, vy = 0, vz = 0\<rparr>] :: vec list"
  have "ms_radius (hx421_mesh_fit_bounds ?m) = 512" by code_simp
  moreover have "\<bar>1025 - vx (ms_centre (hx421_mesh_fit_bounds ?m))\<bar> \<le> vx (ms_half (hx421_mesh_fit_bounds ?m)) + 1"
    using mesh_fit_bounds_encloses [of ?m ?vs ?vs] unfolding Let_def
    by (simp add: world_vec_def world_coord_def)
  ultimately show ?thesis unfolding Let_def by blast
qed

section \<open>The registry\<close>

definition entry_ok :: "scene \<Rightarrow> object3d \<Rightarrow> bool" where
  "entry_ok s ob \<longleftrightarrow> (ob_active ob \<longrightarrow>
     (ob_kind ob = HX421_BODY_MESH \<longrightarrow> ob_mesh ob < sc_mesh_count s) \<and>
     (ob_kind ob = HX421_BODY_MASK \<longrightarrow> ob_mask_id ob < sc_mask_count s))"

definition scene_ok :: "scene \<Rightarrow> bool" where
  "scene_ok s \<longleftrightarrow> length (sc_mesh s) = HX421_MAX_MESH \<and> length (sc_mask s) = HX421_MAX_MASK \<and>
     length (sc_obj s) = HX421_MAX_OBJ \<and> length (sc_cam s) = HX421_MAX_CAM \<and>
     sc_mesh_count s \<le> HX421_MAX_MESH \<and> sc_mask_count s \<le> HX421_MAX_MASK \<and> sc_active_cam s < HX421_MAX_CAM \<and>
     (\<forall>ob \<in> set (sc_obj s). entry_ok s ob)"

text \<open>Any sequence of registry commands, from an initialised scene.\<close>

inductive scene_reach :: "scene \<Rightarrow> bool" where
  init: "length (sc_mesh s) = HX421_MAX_MESH \<Longrightarrow> length (sc_mask s) = HX421_MAX_MASK \<Longrightarrow>
    length (sc_obj s) = HX421_MAX_OBJ \<Longrightarrow> length (sc_cam s) = HX421_MAX_CAM \<Longrightarrow> scene_reach (hx421_scene_init s)"
| mesh: "scene_reach s \<Longrightarrow> scene_reach (snd (hx421_mesh_register s m))"
| mask: "scene_reach s \<Longrightarrow> scene_reach (snd (hx421_mask_register s k))"
| spawn: "scene_reach s \<Longrightarrow> scene_reach (snd (hx421_object_spawn s i))"
| actor: "scene_reach s \<Longrightarrow> scene_reach (snd (hx421_actor_spawn s i))"
| despawn: "scene_reach s \<Longrightarrow> scene_reach (hx421_object_despawn s i)"
| set_pos: "scene_reach s \<Longrightarrow> scene_reach (hx421_object_set_pos s i p)"
| set_rot: "scene_reach s \<Longrightarrow> scene_reach (hx421_object_set_rot s i yaw pitch roll)"
| set_vel: "scene_reach s \<Longrightarrow> scene_reach (hx421_object_set_vel s i v)"
| translate: "scene_reach s \<Longrightarrow> scene_reach (hx421_object_translate s i d)"
| move_local: "scene_reach s \<Longrightarrow> scene_reach (hx421_object_move_local s i d)"
| rotate: "scene_reach s \<Longrightarrow> scene_reach (hx421_object_rotate s i yaw pitch roll)"
| point_at: "scene_reach s \<Longrightarrow> scene_reach (hx421_object_point_at s i target)"
| cam_register: "scene_reach s \<Longrightarrow> scene_reach (snd (hx421_camera_register s p f))"
| cam_par: "scene_reach s \<Longrightarrow> scene_reach (hx421_camera_set_par s i par)"
| cam_fov: "scene_reach s \<Longrightarrow> scene_reach (hx421_camera_set_fov s i hfov w)"
| cam_preset: "scene_reach s \<Longrightarrow> scene_reach (hx421_camera_set_fov_preset s i fp w)"
| cam_width: "scene_reach s \<Longrightarrow> scene_reach (hx421_camera_frame_width s i w d sw)"
| cam_height: "scene_reach s \<Longrightarrow> scene_reach (hx421_camera_frame_height s i h d sh)"
| cam_frame: "scene_reach s \<Longrightarrow> scene_reach (hx421_camera_frame_box s i half d sw sh)"
| cam_fit: "scene_reach s \<Longrightarrow> hx421_camera_fit_box s i c half sw sh = Some (d, s') \<Longrightarrow> scene_reach s'"
| cam_active: "scene_reach s \<Longrightarrow> scene_reach (hx421_camera_set_active s i)"
| cam_pos: "scene_reach s \<Longrightarrow> scene_reach (hx421_camera_set_pos s i p)"
| cam_translate: "scene_reach s \<Longrightarrow> scene_reach (hx421_camera_translate s i d)"
| cam_local: "scene_reach s \<Longrightarrow> scene_reach (hx421_camera_move_local s i d)"
| cam_rotate: "scene_reach s \<Longrightarrow> scene_reach (hx421_camera_rotate s i yaw pitch roll)"
| cam_point: "scene_reach s \<Longrightarrow> scene_reach (hx421_camera_point_at s i target)"

lemma first_free_Some:
  "first_free as = Some i \<Longrightarrow> i < length as \<and> \<not> as ! i \<and> (\<forall>j < i. as ! j)"
proof (induction as arbitrary: i)
  case (Cons a as)
  then show ?case by (auto split: if_splits simp: less_Suc_eq_0_disj)
qed simp

lemma first_free_None: "first_free as = None \<longleftrightarrow> (\<forall>a \<in> set as. a)"
  by (induction as) auto

lemma entry_ok_cong:
  "sc_mesh_count s = sc_mesh_count s' \<Longrightarrow> sc_mask_count s = sc_mask_count s' \<Longrightarrow> entry_ok s ob = entry_ok s' ob"
  by (simp add: entry_ok_def)

text \<open>The three ways a command changes the registry keep it well formed.\<close>

lemma scene_ok_obj:
  assumes "scene_ok s" and "\<And>ob. entry_ok s ob \<Longrightarrow> entry_ok s (f ob)"
  shows "scene_ok (at_obj s i f)"
proof (cases "obj_of s i")
  case (Some k)
  then have k: "k < length (sc_obj s)" using assms(1) by (auto simp: obj_of_def scene_ok_def split: if_splits)
  have "set ((sc_obj s)[k := f (sc_obj s ! k)]) \<subseteq> insert (f (sc_obj s ! k)) (set (sc_obj s))" by (rule set_update_subset_insert)
  moreover have "entry_ok s (f (sc_obj s ! k))" using assms k by (auto simp: scene_ok_def)
  ultimately show ?thesis using assms(1) Some by (auto simp: at_obj_def scene_ok_def entry_ok_def)
qed (use assms(1) in \<open>simp add: at_obj_def\<close>)

lemma scene_ok_cam: "scene_ok s \<Longrightarrow> scene_ok (at_cam s i f)"
  by (simp add: at_cam_def scene_ok_def entry_ok_def split: option.splits)

lemma scene_ok_entry:
  assumes "scene_ok s" and "i < length (sc_obj s)" and "entry_ok s ob"
  shows "scene_ok (s\<lparr>sc_obj := (sc_obj s)[i := ob]\<rparr>)"
proof -
  have "set ((sc_obj s)[i := ob]) \<subseteq> insert ob (set (sc_obj s))" by (rule set_update_subset_insert)
  then show ?thesis using assms by (auto simp: scene_ok_def entry_ok_def)
qed

text \<open>What both spawns do: nothing, or one inactive entry replaced by a fresh one.\<close>

lemma object_spawn_cases:
  assumes "scene_ok s" and "hx421_object_spawn s k = (r, s')"
  obtains (none) "r = None" "s' = s"
  | (slot) i ob where "r = Some i" "i < length (sc_obj s)" "\<not> ob_active (sc_obj s ! i)" "0 \<le> k" "k < int (sc_mesh_count s)"
      "s' = s\<lparr>sc_obj := (sc_obj s)[i := ob]\<rparr>" "ob_active ob" "ob_kind ob = HX421_BODY_MESH" "ob_mesh ob = nat k"
      "ob_visible ob = True" "ob_pos ob = vzero" "ob_rot ob = mat_identity" "ob_collidable ob" "ob_layer ob = 0"
proof (cases "k < 0 \<or> int (sc_mesh_count s) \<le> k \<or> first_free (map ob_active (sc_obj s)) = None")
  case True
  then show thesis using assms(2) none by (auto simp: hx421_object_spawn_def spawn_slot_def split: if_splits)
next
  case False
  then obtain i where f: "first_free (map ob_active (sc_obj s)) = Some i" by auto
  have i: "i < length (sc_obj s)" "\<not> ob_active (sc_obj s ! i)" using first_free_Some [OF f] by auto
  have k: "0 \<le> k" "k < int (sc_mesh_count s)" using False by auto
  have u: "u16 (nat k) = nat k" using k assms(1) by (intro u16_id) (auto simp: scene_ok_def HX421_MAX_MESH_def)
  define s1 where "s1 = snd (spawn_slot s)"
  define ob where "ob = sc_obj s1 ! i"
  have s1: "spawn_slot s = (Some i, s1)" "s1 = s\<lparr>sc_obj := (sc_obj s)[i := ob]\<rparr>"
    "ob_active ob" "ob_visible ob" "ob_pos ob = vzero" "ob_rot ob = mat_identity" "ob_collidable ob" "ob_layer ob = 0"
    using i by (simp_all add: spawn_slot_def f ob_def s1_def)
  have run: "(r, s') = (Some i, s\<lparr>sc_obj := (sc_obj s)[i := ob\<lparr>ob_kind := HX421_BODY_MESH, ob_mesh := nat k\<rparr>]\<rparr>)"
    using assms(2) k i unfolding hx421_object_spawn_def s1(1) by (simp add: u s1(2))
  show thesis by (rule slot [of i "ob\<lparr>ob_kind := HX421_BODY_MESH, ob_mesh := nat k\<rparr>"]) (use run i k s1 in simp_all)
qed

lemma actor_spawn_cases:
  assumes "scene_ok s" and "hx421_actor_spawn s k = (r, s')"
  obtains (none) "r = None" "s' = s"
  | (slot) i ob where "r = Some i" "i < length (sc_obj s)" "\<not> ob_active (sc_obj s ! i)" "0 \<le> k" "k < int (sc_mask_count s)"
      "s' = s\<lparr>sc_obj := (sc_obj s)[i := ob]\<rparr>" "ob_active ob" "ob_kind ob = HX421_BODY_MASK" "ob_mask_id ob = nat k"
      "ob_visible ob = False" "ob_pos ob = vzero" "ob_rot ob = mat_identity" "ob_collidable ob" "ob_layer ob = 0"
proof (cases "k < 0 \<or> int (sc_mask_count s) \<le> k \<or> first_free (map ob_active (sc_obj s)) = None")
  case True
  then show thesis using assms(2) none by (auto simp: hx421_actor_spawn_def spawn_slot_def split: if_splits)
next
  case False
  then obtain i where f: "first_free (map ob_active (sc_obj s)) = Some i" by auto
  have i: "i < length (sc_obj s)" "\<not> ob_active (sc_obj s ! i)" using first_free_Some [OF f] by auto
  have k: "0 \<le> k" "k < int (sc_mask_count s)" using False by auto
  have u: "u16 (nat k) = nat k" using k assms(1) by (intro u16_id) (auto simp: scene_ok_def HX421_MAX_MASK_def)
  define s1 where "s1 = snd (spawn_slot s)"
  define ob where "ob = sc_obj s1 ! i"
  have s1: "spawn_slot s = (Some i, s1)" "s1 = s\<lparr>sc_obj := (sc_obj s)[i := ob]\<rparr>"
    "ob_active ob" "ob_visible ob" "ob_pos ob = vzero" "ob_rot ob = mat_identity" "ob_collidable ob" "ob_layer ob = 0"
    using i by (simp_all add: spawn_slot_def f ob_def s1_def)
  have run: "(r, s') = (Some i, s\<lparr>sc_obj := (sc_obj s)[i := ob\<lparr>ob_kind := HX421_BODY_MASK, ob_mask_id := nat k, ob_visible := False\<rparr>]\<rparr>)"
    using assms(2) k i unfolding hx421_actor_spawn_def s1(1) by (simp add: u s1(2))
  show thesis by (rule slot [of i "ob\<lparr>ob_kind := HX421_BODY_MASK, ob_mask_id := nat k, ob_visible := False\<rparr>"]) (use run i k s1 in simp_all)
qed

lemma scene_reach_ok: "scene_reach s \<Longrightarrow> scene_ok s"
proof (induction rule: scene_reach.induct)
  case (init s)
  then show ?case by (auto simp: hx421_scene_init_def scene_ok_def entry_ok_def HX421_MAX_CAM_def)
next
  case (mesh s m)
  then show ?case by (auto simp: hx421_mesh_register_def scene_ok_def entry_ok_def)
next
  case (mask s k)
  then show ?case by (auto simp: hx421_mask_register_def scene_ok_def entry_ok_def)
next
  case (spawn s k)
  obtain r s' where r: "hx421_object_spawn s k = (r, s')" by (cases "hx421_object_spawn s k")
  from spawn.IH r show ?case
    by (cases rule: object_spawn_cases) (use spawn.IH in \<open>simp_all add: r scene_ok_entry entry_ok_def\<close>)
next
  case (actor s k)
  obtain r s' where r: "hx421_actor_spawn s k = (r, s')" by (cases "hx421_actor_spawn s k")
  from actor.IH r show ?case
    by (cases rule: actor_spawn_cases) (use actor.IH in \<open>simp_all add: r scene_ok_entry entry_ok_def\<close>)
next
  case (despawn s i)
  have "scene_ok (s\<lparr>sc_obj := (sc_obj s)[nat i := (sc_obj s ! nat i)\<lparr>ob_active := False\<rparr>]\<rparr>)"
    if "0 \<le> i" "i < int HX421_MAX_OBJ"
    using despawn.IH that by (intro scene_ok_entry) (auto simp: scene_ok_def entry_ok_def)
  then show ?case using despawn.IH by (simp add: hx421_object_despawn_def)
next
  case (cam_register s p f)
  then show ?case by (simp add: hx421_camera_register_def scene_ok_def entry_ok_def split: option.splits)
next
  case (cam_fit s i c half sw sh d s')
  then show ?case
    by (auto simp: hx421_camera_fit_box_def scene_ok_def entry_ok_def Let_def split: option.splits if_splits)
next
  case (cam_active s i)
  then show ?case by (auto simp: hx421_camera_set_active_def scene_ok_def entry_ok_def)
qed (auto simp: hx421_object_set_pos_def hx421_object_set_rot_def hx421_object_set_vel_def
    hx421_object_translate_def hx421_object_move_local_def hx421_object_rotate_def hx421_object_point_at_def
    hx421_camera_set_par_def hx421_camera_set_fov_def hx421_camera_set_fov_preset_def hx421_camera_frame_width_def
    hx421_camera_frame_height_def hx421_camera_frame_box_def hx421_camera_set_pos_def hx421_camera_translate_def
    hx421_camera_move_local_def hx421_camera_rotate_def hx421_camera_point_at_def
    entry_ok_def intro!: scene_ok_cam scene_ok_obj)

section \<open>The sine table\<close>

lemma sin_table_circle: "list_all (\<lambda>(s, c). \<bar>s * s + c * c - 1073741824\<bar> \<le> 44024 \<and> 0 \<le> s \<and> s \<le> 32768) (zip sin_q (rev sin_q))"
  by code_simp

lemma length_sin_q: "length sin_q = 257"
  by (simp add: sin_q_def)

lemma sin_q_circle:
  assumes "i \<le> 256"
  shows "\<bar>sin_q ! i * sin_q ! i + sin_q ! (256 - i) * sin_q ! (256 - i) - 1073741824\<bar> \<le> 44024"
    and "0 \<le> sin_q ! i" and "sin_q ! i \<le> 32768"
proof -
  have l: "i < length sin_q" "i < length (rev sin_q)" using assms by (simp_all add: length_sin_q)
  then have z: "zip sin_q (rev sin_q) ! i = (sin_q ! i, sin_q ! (256 - i))"
    using assms by (subst nth_zip) (simp_all add: rev_nth length_sin_q)
  have "i < length (zip sin_q (rev sin_q))" using l by simp
  then have "(\<lambda>(s, c). \<bar>s * s + c * c - 1073741824\<bar> \<le> 44024 \<and> 0 \<le> s \<and> s \<le> 32768) (zip sin_q (rev sin_q) ! i)"
    by (rule sin_table_circle [unfolded list_all_length, rule_format])
  then show "\<bar>sin_q ! i * sin_q ! i + sin_q ! (256 - i) * sin_q ! (256 - i) - 1073741824\<bar> \<le> 44024"
    and "0 \<le> sin_q ! i" and "sin_q ! i \<le> 32768"
    unfolding z prod.case by blast+
qed

text \<open>The four quarters of the turn.\<close>

lemma sin_quarters:
  assumes "0 \<le> i" and "i < 256"
  shows "a mod 1024 = i \<Longrightarrow> hx421_sin_q15 a = sin_q ! nat i"
    and "a mod 1024 = 256 + i \<Longrightarrow> hx421_sin_q15 a = sin_q ! (256 - nat i)"
    and "a mod 1024 = 512 + i \<Longrightarrow> hx421_sin_q15 a = - (sin_q ! nat i)"
    and "a mod 1024 = 768 + i \<Longrightarrow> hx421_sin_q15 a = - (sin_q ! (256 - nat i))"
proof -
  have n: "nat (256 + i) = 256 + nat i" "nat (512 + i) = 512 + nat i" "nat (768 + i) = 768 + nat i" "nat i < 256"
    using assms by auto
  show "a mod 1024 = i \<Longrightarrow> hx421_sin_q15 a = sin_q ! nat i"
    and "a mod 1024 = 256 + i \<Longrightarrow> hx421_sin_q15 a = sin_q ! (256 - nat i)"
    and "a mod 1024 = 512 + i \<Longrightarrow> hx421_sin_q15 a = - (sin_q ! nat i)"
    and "a mod 1024 = 768 + i \<Longrightarrow> hx421_sin_q15 a = - (sin_q ! (256 - nat i))"
    using n by (simp_all add: hx421_sin_q15_def Let_def)
qed

lemma turn_quarter:
  obtains i q :: int where "0 \<le> i" "i < 256" "q \<in> {0, 256, 512, 768}" "a mod 1024 = q + i"
proof -
  have "0 \<le> a mod 1024" "a mod 1024 < 1024" by simp_all
  then consider "a mod 1024 < 256" | "256 \<le> a mod 1024 \<and> a mod 1024 < 512"
    | "512 \<le> a mod 1024 \<and> a mod 1024 < 768" | "768 \<le> a mod 1024 \<and> a mod 1024 < 1024" by linarith
  then show thesis
    by cases (rule that [of "a mod 1024" 0], simp_all, rule that [of "a mod 1024 - 256" 256], simp_all,
        rule that [of "a mod 1024 - 512" 512], simp_all, rule that [of "a mod 1024 - 768" 768], simp_all)
qed

lemma turn_shift:
  fixes a q i :: int
  assumes "a mod 1024 = q + i"
  shows "(a + k) mod 1024 = (q + i + k) mod 1024"
  by (metis assms mod_add_left_eq)

text \<open>
  The sine of the 1024-step turn is odd, changes sign over half a turn, stays within Q15,
  and the squares of sine and cosine add up to one, to 44024 parts in \<open>2 ^ 30\<close>, at every angle.
\<close>
theorem sine_cosine_circle:
  assumes "- 2147483648 \<le> a" and "a < 2147483392"
  shows "hx421_sin_q15 (- a) = - hx421_sin_q15 a \<and> hx421_sin_q15 (a + 512) = - hx421_sin_q15 a \<and>
    \<bar>hx421_sin_q15 a\<bar> \<le> 32768 \<and>
    \<bar>hx421_sin_q15 a * hx421_sin_q15 a + hx421_cos_q15 a * hx421_cos_q15 a - 1073741824\<bar> \<le> 44024"
proof -
  obtain i q where iq: "0 \<le> i" "i < 256" "q \<in> {0, 256, 512, 768}" "a mod 1024 = q + i" by (rule turn_quarter)
  define S where "S = (\<lambda>k. sin_q ! nat k)"
  have z: "S 0 = 0" by (simp add: S_def sin_q_def)
  have sq: "hx421_sin_q15 b = (if r = 0 then S j else if r = 256 then S (256 - j) else if r = 512 then - S j else - S (256 - j))"
    if "0 \<le> j" "j < 256" "r \<in> {0, 256, 512, 768}" "b mod 1024 = r + j" for b r j
    using that sin_quarters [OF that(1,2), of b] by (auto simp: S_def nat_diff_distrib)
  have n: "nat i \<le> 256" "nat (256 - i) = 256 - nat i" using iq(1,2) by auto
  have b: "0 \<le> S i" "S i \<le> 32768" "0 \<le> S (256 - i)" "S (256 - i) \<le> 32768"
    "\<bar>S i * S i + S (256 - i) * S (256 - i) - 1073741824\<bar> \<le> 44024"
    using sin_q_circle [of "nat i"] sin_q_circle(2,3) [of "256 - nat i"] n by (simp_all add: S_def)
  note a = sq [OF iq]
  have m: "(1280 + i) mod 1024 = 256 + i" "(1024 + i) mod 1024 = i"
    using iq(1,2) mod_add_self2 [of "256 + i" 1024] mod_add_self2 [of i 1024]
    by (simp_all add: add.commute mod_pos_pos_trivial)
  have half: "hx421_sin_q15 (a + 512) = - hx421_sin_q15 a"
    using iq(1-3) turn_shift [OF iq(4), of 512] sq [OF iq(1,2), of "(q + 512) mod 1024" "a + 512"] m by (auto simp: a)
  have quarter: "hx421_sin_q15 (a + 256) = (if q = 0 then S (256 - i) else if q = 256 then - S i
      else if q = 512 then - S (256 - i) else S i)"
    using iq(1-3) turn_shift [OF iq(4), of 256] sq [OF iq(1,2), of "(q + 256) mod 1024" "a + 256"] m by auto
  have neg: "hx421_sin_q15 (- a) = - hx421_sin_q15 a"
  proof -
    have m: "(- a) mod 1024 = (if q + i = 0 then 0 else 1024 - (q + i))"
      by (simp add: zmod_zminus1_eq_if iq(4))
    show ?thesis
    proof (cases "i = 0")
      case True
      then show ?thesis
        using iq(3) m sq [of 0 "if q = 0 then 0 else 1024 - q" "- a"] by (auto simp: a z)
    next
      case False
      then show ?thesis
        using iq(1-3) m sq [of "256 - i" "768 - q" "- a"] by (auto simp: a)
    qed
  qed
  have c: "hx421_cos_q15 a = hx421_sin_q15 (a + 256)" using assms by (simp add: hx421_cos_q15_def)
  show ?thesis unfolding c quarter half neg using iq(3) b by (auto simp: a algebra_simps)
qed

theorem sine_cosine_circle_witness:
  "\<bar>hx421_sin_q15 300 * hx421_sin_q15 300 + hx421_cos_q15 300 * hx421_cos_q15 300 - 1073741824\<bar> \<le> 44024"
  using sine_cosine_circle [of 300] by simp

section \<open>The per-frame transform\<close>

text \<open>What an object contributes to the frame when there is room.\<close>

definition object_tris :: "scene \<Rightarrow> mat \<Rightarrow> camera \<Rightarrow> int \<Rightarrow> int \<Rightarrow> object3d \<Rightarrow> tri list" where
  "object_tris s view cam cx cy ob =
     (if ob_active ob \<and> ob_visible ob \<and> ob_kind ob = HX421_BODY_MESH then
        (case (ms_verts (sc_mesh s ! ob_mesh ob), ms_faces (sc_mesh s ! ob_mesh ob)) of
           (Some verts, Some faces) \<Rightarrow>
             if i32 (vz (mat_apply view (vsub (ob_pos ob) (cm_pos cam))) + ms_radius (sc_mesh s ! ob_mesh ob)) < NEAR then []
             else List.map_filter (render_face view cam cx cy ob (sc_mesh s ! ob_mesh ob) verts faces)
                    [0..<ms_fcount (sc_mesh s ! ob_mesh ob)]
         | _ \<Rightarrow> [])
      else [])"

lemma render_faces_take:
  "length out \<le> limit \<Longrightarrow> render_faces face limit fs out = out @ take (limit - length out) (List.map_filter face fs)"
proof (induction fs arbitrary: out)
  case (Cons f fs)
  show ?case
  proof (cases "limit \<le> length out")
    case True
    then show ?thesis by simp
  next
    case False
    show ?thesis
    proof (cases "face f")
      case None
      then show ?thesis using False Cons by simp
    next
      case (Some t)
      have "limit - length out = Suc (limit - Suc (length out))" using False by simp
      then show ?thesis using False Some Cons.IH [of "out @ [t]"] by simp
    qed
  qed
qed simp

lemma render_object_take:
  "length out \<le> limit \<Longrightarrow> render_object s view cam cx cy limit ob out =
     out @ take (limit - length out) (object_tris s view cam cx cy ob)"
  by (auto simp: render_object_def object_tris_def render_faces_take Let_def split: option.splits)

lemma render_objects_take:
  "length out \<le> limit \<Longrightarrow> render_objects s view cam cx cy limit obs out =
     out @ take (limit - length out) (concat (map (object_tris s view cam cx cy) obs))"
proof (induction obs arbitrary: out)
  case (Cons ob obs)
  show ?case
  proof (cases "limit \<le> length out")
    case False
    let ?t = "object_tris s view cam cx cy ob"
    have "length (out @ take (limit - length out) ?t) \<le> limit" using Cons.prems by simp
    from Cons.IH [OF this] show ?thesis using False Cons.prems
      by (auto simp: render_object_take min_def)
  qed simp
qed simp

text \<open>
  The geometry the frame is to show, over the integers.  A vertex of an object is turned by the
  object's matrix and moved to its place, and seen from the camera along the columns of the
  camera's matrix; turning rounds down to the grid of the coordinates.
\<close>

definition vcoord :: "vec \<Rightarrow> nat \<Rightarrow> int" where
  "vcoord v i = (if i = 0 then vx v else if i = 1 then vy v else vz v)"

definition placed_coord :: "object3d \<Rightarrow> vec \<Rightarrow> nat \<Rightarrow> int" where
  "placed_coord ob v i = vcoord (ob_pos ob) i +
     (mt (ob_rot ob) ! (3 * i) * vx v + mt (ob_rot ob) ! (3 * i + 1) * vy v + mt (ob_rot ob) ! (3 * i + 2) * vz v) div 32768"

definition eye_coord :: "camera \<Rightarrow> (nat \<Rightarrow> int) \<Rightarrow> nat \<Rightarrow> int" where
  "eye_coord cam p i =
     (mt (cm_rot cam) ! i * (p 0 - vx (cm_pos cam)) + mt (cm_rot cam) ! (3 + i) * (p 1 - vy (cm_pos cam)) +
      mt (cm_rot cam) ! (6 + i) * (p 2 - vz (cm_pos cam))) div 32768"

definition drawable :: "scene \<Rightarrow> object3d \<Rightarrow> bool" where
  "drawable s ob \<longleftrightarrow> ob_active ob \<and> ob_visible ob \<and> ob_kind ob = HX421_BODY_MESH \<and>
     ms_verts (sc_mesh s ! ob_mesh ob) \<noteq> None \<and> ms_faces (sc_mesh s ! ob_mesh ob) \<noteq> None"

definition corner_vertex :: "scene \<Rightarrow> object3d \<Rightarrow> nat \<Rightarrow> nat \<Rightarrow> vec" where
  "corner_vertex s ob f k = the (ms_verts (sc_mesh s ! ob_mesh ob)) ! (the (ms_faces (sc_mesh s ! ob_mesh ob)) ! (f * 3 + k))"

definition corner_eye :: "scene \<Rightarrow> camera \<Rightarrow> object3d \<Rightarrow> nat \<Rightarrow> nat \<Rightarrow> nat \<Rightarrow> int" where
  "corner_eye s cam ob f k = eye_coord cam (placed_coord ob (corner_vertex s ob f k))"

text \<open>The faces to be drawn, in order: whole before the near plane, of objects not behind it by their radius.\<close>

definition drawn_faces :: "scene \<Rightarrow> camera \<Rightarrow> (object3d \<times> nat) list" where
  "drawn_faces s cam = concat (map (\<lambda>ob.
     if drawable s ob \<and> 16384 \<le> eye_coord cam (vcoord (ob_pos ob)) 2 + ms_radius (sc_mesh s ! ob_mesh ob)
     then map (Pair ob) (filter (\<lambda>f. \<forall>k<3. 16384 \<le> corner_eye s cam ob f k 2) [0..<ms_fcount (sc_mesh s ! ob_mesh ob)])
     else []) (sc_obj s))"

text \<open>
  A pinhole picture of the point \<open>e\<close> on a screen of \<open>w\<close> by \<open>h\<close> pixels of 256 steps each: by less than a
  step off the exact position, with the depth in 256ths of a unit.
\<close>

definition pictures :: "camera \<Rightarrow> int \<Rightarrow> int \<Rightarrow> (nat \<Rightarrow> int) \<Rightarrow> vtx \<Rightarrow> bool" where
  "pictures cam w h e t \<longleftrightarrow>
     (let x = vt_x t - w div 2 * 256; y = h div 2 * 256 - vt_y t in
      - e 2 < e 0 * cm_focal_x cam - 256 * x * e 2 \<and> e 0 * cm_focal_x cam - 256 * x * e 2 < 256 * e 2 \<and>
      - e 2 < e 1 * cm_focal_y cam - 256 * y * e 2 \<and> e 1 * cm_focal_y cam - 256 * y * e 2 < 256 * e 2 \<and>
      int (vt_z t) = min 65535 (e 2 div 256))"

definition shows_face :: "scene \<Rightarrow> camera \<Rightarrow> int \<Rightarrow> int \<Rightarrow> object3d \<times> nat \<Rightarrow> tri \<Rightarrow> bool" where
  "shows_face s cam w h p t \<longleftrightarrow> (case p of (ob, f) \<Rightarrow>
     pictures cam w h (corner_eye s cam ob f 0) (tr_v0 t) \<and> pictures cam w h (corner_eye s cam ob f 1) (tr_v1 t) \<and>
     pictures cam w h (corner_eye s cam ob f 2) (tr_v2 t) \<and>
     tr_color t = (case ms_colors (sc_mesh s ! ob_mesh ob) of None \<Rightarrow> 1 | Some cs \<Rightarrow> cs ! f))"

text \<open>
  The scenes in which no 32-bit value overflows: coordinates and radii within 256 units, matrices of
  at most twice the unit, focal lengths of at most 1024 pixels and screens of at most 4096, and no vertex before
  the near plane that falls more than two million pixels off the screen.
\<close>

definition near_vec :: "vec \<Rightarrow> bool" where
  "near_vec v \<longleftrightarrow> (\<forall>i<3. \<bar>vcoord v i\<bar> \<le> 16777216)"

definition mat_small :: "mat \<Rightarrow> bool" where
  "mat_small r \<longleftrightarrow> (\<forall>i<9. \<bar>mt r ! i\<bar> \<le> 65536)"

definition on_picture :: "camera \<Rightarrow> (nat \<Rightarrow> int) \<Rightarrow> bool" where
  "on_picture cam e \<longleftrightarrow> (16384 \<le> e 2 \<longrightarrow>
     \<bar>e 0 * cm_focal_x cam\<bar> < 137438953472 * e 2 \<and> \<bar>e 1 * cm_focal_y cam\<bar> < 137438953472 * e 2)"

definition in_range :: "scene \<Rightarrow> camera \<Rightarrow> bool" where
  "in_range s cam \<longleftrightarrow> near_vec (cm_pos cam) \<and> mat_small (cm_rot cam) \<and> \<bar>cm_focal_x cam\<bar> \<le> 67108864 \<and> \<bar>cm_focal_y cam\<bar> \<le> 67108864 \<and>
     (\<forall>ob \<in> set (sc_obj s). drawable s ob \<longrightarrow> near_vec (ob_pos ob) \<and> mat_small (ob_rot ob) \<and>
        \<bar>ms_radius (sc_mesh s ! ob_mesh ob)\<bar> \<le> 16777216 \<and>
        (\<forall>f < ms_fcount (sc_mesh s ! ob_mesh ob). \<forall>k<3. near_vec (corner_vertex s ob f k) \<and> on_picture cam (corner_eye s cam ob f k)))"

lemma cdiv_error:
  assumes "0 < b"
  shows "- b < a - cdiv a b * b" and "a - cdiv a b * b < b"
proof -
  define q r where "q = \<bar>a\<bar> div b" and "r = \<bar>a\<bar> mod b"
  have m: "\<bar>a\<bar> = q * b + r" "0 \<le> r" "r < b" using assms by (simp_all add: q_def r_def)
  have "a - cdiv a b * b = sgn a * r"
  proof -
    have "a = sgn a * \<bar>a\<bar>" by (simp add: sgn_mult_abs)
    then have "a = sgn a * (q * b) + sgn a * r" using m(1) by (metis distrib_left)
    moreover have "cdiv a b * b = sgn a * (q * b)" using assms by (simp add: cdiv_def q_def)
    ultimately show ?thesis by linarith
  qed
  moreover have "sgn a = - 1 \<or> sgn a = 0 \<or> sgn a = 1" by (simp add: sgn_if)
  ultimately show "- b < a - cdiv a b * b" "a - cdiv a b * b < b" using m(2,3) assms by auto
qed

lemma turn_small:
  fixes x y z B :: int
  assumes "\<bar>a\<bar> \<le> 65536" "\<bar>b\<bar> \<le> 65536" "\<bar>c\<bar> \<le> 65536" and "\<bar>x\<bar> \<le> B" "\<bar>y\<bar> \<le> B" "\<bar>z\<bar> \<le> B" and "B \<le> 134217728"
  shows "i32 (asr (i64 (a * x + b * y + c * z)) 15) = (a * x + b * y + c * z) div 32768"
    and "\<bar>(a * x + b * y + c * z) div 32768\<bar> \<le> 6 * B"
proof -
  have "\<bar>a * x\<bar> \<le> 65536 * B" "\<bar>b * y\<bar> \<le> 65536 * B" "\<bar>c * z\<bar> \<le> 65536 * B"
    using assms by (simp_all add: abs_mult mult_mono)
  then have s: "- (196608 * B) \<le> a * x + b * y + c * z" "a * x + b * y + c * z \<le> 196608 * B" by linarith+
  have "- (196608 * B) div 32768 \<le> (a * x + b * y + c * z) div 32768" "(a * x + b * y + c * z) div 32768 \<le> 196608 * B div 32768"
    using s by (simp_all only: zdiv_mono1 zero_less_numeral)
  moreover have "- (196608 * B) div 32768 = - 6 * B" "196608 * B div 32768 = 6 * B" by simp_all
  ultimately show d: "\<bar>(a * x + b * y + c * z) div 32768\<bar> \<le> 6 * B" by linarith
  have "i64 (a * x + b * y + c * z) = a * x + b * y + c * z" using s assms(7) by (intro i64_id) auto
  moreover have "i32 ((a * x + b * y + c * z) div 32768) = (a * x + b * y + c * z) div 32768"
    using d assms(7) by (intro i32_id) auto
  ultimately show "i32 (asr (i64 (a * x + b * y + c * z)) 15) = (a * x + b * y + c * z) div 32768" by (simp add: asr_def)
qed

lemma mat_smallD:
  assumes "mat_small r"
  shows "\<bar>mt r ! 0\<bar> \<le> 65536" "\<bar>mt r ! 1\<bar> \<le> 65536" "\<bar>mt r ! 2\<bar> \<le> 65536" "\<bar>mt r ! 3\<bar> \<le> 65536" "\<bar>mt r ! 4\<bar> \<le> 65536"
    "\<bar>mt r ! 5\<bar> \<le> 65536" "\<bar>mt r ! 6\<bar> \<le> 65536" "\<bar>mt r ! 7\<bar> \<le> 65536" "\<bar>mt r ! 8\<bar> \<le> 65536"
  using assms by (simp_all add: mat_small_def)

lemma near_vecD:
  assumes "near_vec v"
  shows "\<bar>vx v\<bar> \<le> 16777216" "\<bar>vy v\<bar> \<le> 16777216" "\<bar>vz v\<bar> \<le> 16777216"
  using assms [unfolded near_vec_def, THEN spec [of _ 0]] assms [unfolded near_vec_def, THEN spec [of _ 1]]
    assms [unfolded near_vec_def, THEN spec [of _ 2]] by (simp_all add: vcoord_def)

lemma transpose_list: "mt (mat_transpose a) = [mt a ! 0, mt a ! 3, mt a ! 6, mt a ! 1, mt a ! 4, mt a ! 7, mt a ! 2, mt a ! 5, mt a ! 8]"
  by (simp add: mat_transpose_def upt_rec numeral_2_eq_2)

text \<open>Within the ranges the code's view of a point is the exact one.\<close>

lemma view_exact:
  assumes cam: "near_vec (cm_pos cam)" "mat_small (cm_rot cam)"
    and p: "\<bar>vx p\<bar> \<le> 117440512" "\<bar>vy p\<bar> \<le> 117440512" "\<bar>vz p\<bar> \<le> 117440512"
  shows "mat_apply (mat_transpose (cm_rot cam)) (vsub p (cm_pos cam)) =
      \<lparr>vx = eye_coord cam (vcoord p) 0, vy = eye_coord cam (vcoord p) 1, vz = eye_coord cam (vcoord p) 2\<rparr>"
    and "i < 3 \<Longrightarrow> \<bar>eye_coord cam (vcoord p) i\<bar> \<le> 805306368"
proof -
  note c = near_vecD [OF cam(1)] and m = mat_smallD [OF cam(2)]
  let ?x = "vx p - vx (cm_pos cam)" and ?y = "vy p - vy (cm_pos cam)" and ?z = "vz p - vz (cm_pos cam)"
  have d: "\<bar>?x\<bar> \<le> 134217728" "\<bar>?y\<bar> \<le> 134217728" "\<bar>?z\<bar> \<le> 134217728" using p c by linarith+
  have v: "vsub p (cm_pos cam) = \<lparr>vx = ?x, vy = ?y, vz = ?z\<rparr>"
    using d by (simp add: vsub_def i32_id)
  note t0 = turn_small [OF m(1,4,7) d order_refl] and t1 = turn_small [OF m(2,5,8) d order_refl] and t2 = turn_small [OF m(3,6,9) d order_refl]
  show "mat_apply (mat_transpose (cm_rot cam)) (vsub p (cm_pos cam)) =
      \<lparr>vx = eye_coord cam (vcoord p) 0, vy = eye_coord cam (vcoord p) 1, vz = eye_coord cam (vcoord p) 2\<rparr>"
    using t0(1) t1(1) t2(1) by (simp add: v mat_apply_def transpose_list eye_coord_def vcoord_def)
  assume "i < 3"
  then have "i = 0 \<or> i = 1 \<or> i = 2" by auto
  then show "\<bar>eye_coord cam (vcoord p) i\<bar> \<le> 805306368"
    using t0(2) t1(2) t2(2) by (elim disjE) (simp_all add: eye_coord_def vcoord_def)
qed

lemma placed_exact:
  assumes ob: "near_vec (ob_pos ob)" "mat_small (ob_rot ob)" and v: "near_vec v"
  shows "vcoord (vadd (mat_apply (ob_rot ob) v) (ob_pos ob)) = (\<lambda>i. placed_coord ob v (min i 2))"
    and "\<bar>vx (vadd (mat_apply (ob_rot ob) v) (ob_pos ob))\<bar> \<le> 117440512"
    and "\<bar>vy (vadd (mat_apply (ob_rot ob) v) (ob_pos ob))\<bar> \<le> 117440512"
    and "\<bar>vz (vadd (mat_apply (ob_rot ob) v) (ob_pos ob))\<bar> \<le> 117440512"
proof -
  note c = near_vecD [OF ob(1)] and m = mat_smallD [OF ob(2)] and d = near_vecD [OF v]
  have b: "(16777216 :: int) \<le> 134217728" by simp
  note t0 = turn_small [OF m(1,2,3) d b] and t1 = turn_small [OF m(4,5,6) d b] and t2 = turn_small [OF m(7,8,9) d b]
  let ?p = "vadd (mat_apply (ob_rot ob) v) (ob_pos ob)"
  define r0 r1 r2 where r: "r0 = (mt (ob_rot ob) ! 0 * vx v + mt (ob_rot ob) ! 1 * vy v + mt (ob_rot ob) ! 2 * vz v) div 32768"
    "r1 = (mt (ob_rot ob) ! 3 * vx v + mt (ob_rot ob) ! 4 * vy v + mt (ob_rot ob) ! 5 * vz v) div 32768"
    "r2 = (mt (ob_rot ob) ! 6 * vx v + mt (ob_rot ob) ! 7 * vy v + mt (ob_rot ob) ! 8 * vz v) div 32768"
  have rb: "\<bar>r0\<bar> \<le> 100663296" "\<bar>r1\<bar> \<le> 100663296" "\<bar>r2\<bar> \<le> 100663296" using t0(2) t1(2) t2(2) by (simp_all add: r)
  have i: "i32 (r0 + vx (ob_pos ob)) = r0 + vx (ob_pos ob)" "i32 (r1 + vy (ob_pos ob)) = r1 + vy (ob_pos ob)"
    "i32 (r2 + vz (ob_pos ob)) = r2 + vz (ob_pos ob)" by (rule i32_id; use rb c in linarith)+
  have a: "mat_apply (ob_rot ob) v = \<lparr>vx = r0, vy = r1, vz = r2\<rparr>" unfolding mat_apply_def t0(1) t1(1) t2(1) r ..
  have pl: "placed_coord ob v 0 = r0 + vx (ob_pos ob)" "placed_coord ob v 1 = r1 + vy (ob_pos ob)" "placed_coord ob v 2 = r2 + vz (ob_pos ob)"
    by (simp_all add: placed_coord_def vcoord_def r numeral_2_eq_2)
  have p: "vx ?p = placed_coord ob v 0" "vy ?p = placed_coord ob v 1" "vz ?p = placed_coord ob v 2"
    unfolding pl a vadd_def vec.select_convs i by (rule refl)+
  have b: "\<bar>placed_coord ob v 0\<bar> \<le> 117440512" "\<bar>placed_coord ob v 1\<bar> \<le> 117440512" "\<bar>placed_coord ob v 2\<bar> \<le> 117440512"
    unfolding pl using rb c by linarith+
  show "\<bar>vx ?p\<bar> \<le> 117440512" "\<bar>vy ?p\<bar> \<le> 117440512" "\<bar>vz ?p\<bar> \<le> 117440512" using b by (simp_all add: p)
  show "vcoord ?p = (\<lambda>i. placed_coord ob v (min i 2))"
  proof
    fix i :: nat
    have "i = 0 \<or> i = 1 \<or> 2 \<le> i" by auto
    then show "vcoord ?p i = placed_coord ob v (min i 2)" using p by (auto simp: vcoord_def min_def)
  qed
qed

lemma corner_view:
  assumes cam: "near_vec (cm_pos cam)" "mat_small (cm_rot cam)" and ob: "near_vec (ob_pos ob)" "mat_small (ob_rot ob)"
    and v: "near_vec (corner_vertex s ob f k)"
  shows "view_vertex (mat_transpose (cm_rot cam)) cam ob (corner_vertex s ob f k) =
      \<lparr>vx = corner_eye s cam ob f k 0, vy = corner_eye s cam ob f k 1, vz = corner_eye s cam ob f k 2\<rparr>"
proof -
  note p = placed_exact [OF ob v]
  have "eye_coord cam (\<lambda>i. placed_coord ob (corner_vertex s ob f k) (min i 2)) = corner_eye s cam ob f k"
    by (simp add: fun_eq_iff corner_eye_def eye_coord_def)
  then show ?thesis using view_exact(1) [OF cam p(2-4)] by (simp add: view_vertex_def p(1))
qed

lemma project_axis:
  fixes e f z c :: int
  assumes z: "0 < z" and b: "\<bar>e * f\<bar> < 137438953472 * z" and c: "0 \<le> c" "c \<le> 1048576"
  defines "d \<equiv> asr (cdiv (e * f) z) 8"
  shows "i32 d = d" "i32 (c + d) = c + d" "i32 (c - d) = c - d" "- z < e * f - 256 * d * z" "e * f - 256 * d * z < 256 * z"
proof -
  let ?q = "cdiv (e * f) z"
  note q = cdiv_error [OF z, of "e * f"]
  have "?q * z < 137438953473 * z" "- (137438953473 * z) < ?q * z" using q b by linarith+
  then have qb: "?q < 137438953473" "- 137438953473 < ?q" using z by (simp_all add: mult_less_cancel_right flip: mult_minus_left)
  have d: "d = ?q div 256" by (simp add: d_def asr_def)
  have db: "d \<le> 536870912" "- 536870913 \<le> d" unfolding d using qb by simp_all
  show "i32 d = d" "i32 (c + d) = c + d" "i32 (c - d) = c - d" using db c by (auto intro!: i32_id)
  have r: "256 * d \<le> ?q" "?q \<le> 256 * d + 255" unfolding d by simp_all
  have "256 * d * z \<le> ?q * z" using r(1) z by simp
  then show "- z < e * f - 256 * d * z" using q(1) by linarith
  have "?q * z \<le> (256 * d + 255) * z" using r(2) z by (intro mult_right_mono) auto
  also have "(256 * d + 255) * z = 256 * d * z + 255 * z" by (rule distrib_right)
  finally have "?q * z \<le> 256 * d * z + 255 * z" .
  then show "e * f - 256 * d * z < 256 * z" using q(2) by linarith
qed

lemma project_pictures:
  assumes "16384 \<le> e 2" and "on_picture cam e" and "0 \<le> w" "w \<le> 4096" "0 \<le> h" "h \<le> 4096"
  shows "pictures cam w h e (project cam (i32 (cdiv w 2 * HX421_ONE)) (i32 (cdiv h 2 * HX421_ONE)) \<lparr>vx = e 0, vy = e 1, vz = e 2\<rparr>)"
proof -
  have c: "i32 (cdiv u 2 * HX421_ONE) = u div 2 * 256" "0 \<le> u div 2 * 256" "u div 2 * 256 \<le> 1048576" if "0 \<le> u" "u \<le> 4096" for u :: int
  proof -
    have "cdiv u 2 = u div 2" using that(1) by (simp add: cdiv_def sgn_if)
    then show "i32 (cdiv u 2 * HX421_ONE) = u div 2 * 256" using that by (simp add: HX421_ONE_def i32_id)
    show "0 \<le> u div 2 * 256" "u div 2 * 256 \<le> 1048576" using that by simp_all
  qed
  have z: "0 < e 2" using assms(1) by simp
  have b: "\<bar>e 0 * cm_focal_x cam\<bar> < 137438953472 * e 2" "\<bar>e 1 * cm_focal_y cam\<bar> < 137438953472 * e 2"
    using assms(1,2) by (simp_all add: on_picture_def)
  note x = project_axis [OF z b(1) c(2,3) [OF assms(3,4)]] and y = project_axis [OF z b(2) c(2,3) [OF assms(5,6)]]
  define k where "k = e 2 div 256"
  have k: "64 \<le> k" using assms(1) by (simp add: k_def)
  have dz: "int (u16 (nat (if 65535 < k then 65535 else k))) = min 65535 k" using k by auto
  define dx dy where "dx = asr (cdiv (e 0 * cm_focal_x cam) (e 2)) 8" and "dy = asr (cdiv (e 1 * cm_focal_y cam) (e 2)) 8"
  note x = x [folded dx_def] and y = y [folded dy_def]
  have "asr (e 2) 8 = k" by (simp add: asr_def k_def)
  moreover have "(if k < 0 then 0 else k) = k" using k by simp
  ultimately have pr: "project cam (w div 2 * 256) (h div 2 * 256) \<lparr>vx = e 0, vy = e 1, vz = e 2\<rparr> =
      \<lparr>vt_x = w div 2 * 256 + dx, vt_y = h div 2 * 256 - dy, vt_z = u16 (nat (if 65535 < k then 65535 else k))\<rparr>"
    unfolding project_def Let_def vec.select_convs dx_def [symmetric] dy_def [symmetric] x(1,2) y(1,3)
    by (simp only: HX421_ZFAR_def of_nat_numeral)
  have d: "w div 2 * 256 + dx - w div 2 * 256 = dx" "h div 2 * 256 - (h div 2 * 256 - dy) = dy" by simp_all
  show ?thesis
    unfolding c(1) [OF assms(3,4)] c(1) [OF assms(5,6)] pr pictures_def Let_def vtx.select_convs d dz k_def [symmetric]
    using x(4,5) y(4,5) by blast
qed

lemma list_all2_map_filter:
  assumes "\<And>f. f \<in> set fs \<Longrightarrow> case face f of None \<Rightarrow> \<not> P f | Some t \<Rightarrow> P f \<and> R f t"
  shows "list_all2 R (filter P fs) (List.map_filter face fs)"
  using assms
proof (induction fs)
  case (Cons f fs)
  have "case face f of None \<Rightarrow> \<not> P f | Some t \<Rightarrow> P f \<and> R f t" using Cons.prems by simp
  moreover have "list_all2 R (filter P fs) (List.map_filter face fs)" using Cons by simp
  ultimately show ?case by (cases "face f") (simp_all add: map_filter_simps)
qed (simp add: map_filter_simps)

lemma list_all2_concat_map:
  "(\<And>x. x \<in> set xs \<Longrightarrow> list_all2 R (f x) (g x)) \<Longrightarrow> list_all2 R (concat (map f xs)) (concat (map g xs))"
  by (induction xs) (simp_all add: list_all2_appendI)

lemma face_shown:
  assumes cam: "near_vec (cm_pos cam)" "mat_small (cm_rot cam)" and ob: "near_vec (ob_pos ob)" "mat_small (ob_rot ob)"
    and v: "\<forall>k<3. near_vec (corner_vertex s ob f k) \<and> on_picture cam (corner_eye s cam ob f k)"
    and w: "0 \<le> w" "w \<le> 4096" "0 \<le> h" "h \<le> 4096"
    and m: "ms_verts (sc_mesh s ! ob_mesh ob) = Some verts" "ms_faces (sc_mesh s ! ob_mesh ob) = Some faces"
  shows "case render_face (mat_transpose (cm_rot cam)) cam (i32 (cdiv w 2 * HX421_ONE)) (i32 (cdiv h 2 * HX421_ONE)) ob
      (sc_mesh s ! ob_mesh ob) verts faces f of
     None \<Rightarrow> \<not> (\<forall>k<3. 16384 \<le> corner_eye s cam ob f k 2)
   | Some t \<Rightarrow> (\<forall>k<3. 16384 \<le> corner_eye s cam ob f k 2) \<and> shows_face s cam w h (ob, f) t"
proof -
  let ?cx = "i32 (cdiv w 2 * HX421_ONE)" and ?cy = "i32 (cdiv h 2 * HX421_ONE)"
  let ?pr = "\<lambda>k. project cam ?cx ?cy \<lparr>vx = corner_eye s cam ob f k 0, vy = corner_eye s cam ob f k 1, vz = corner_eye s cam ob f k 2\<rparr>"
  have rv: "render_vertex (mat_transpose (cm_rot cam)) cam ?cx ?cy ob verts (faces ! (f * 3 + k)) =
      (if corner_eye s cam ob f k 2 < 16384 then None else Some (?pr k))" if "k < 3" for k
  proof -
    have cv: "verts ! (faces ! (f * 3 + k)) = corner_vertex s ob f k" by (simp add: corner_vertex_def m)
    show ?thesis unfolding render_vertex_def cv using corner_view [OF cam ob, of s f k] v that by (simp add: NEAR_def Let_def)
  qed
  have pic: "pictures cam w h (corner_eye s cam ob f k) (?pr k)" if "k < 3" "\<not> corner_eye s cam ob f k 2 < 16384" for k
    using project_pictures [OF _ _ w] v that by simp
  have three: "(\<forall>k<3. P k) \<longleftrightarrow> P 0 \<and> P 1 \<and> P 2" for P :: "nat \<Rightarrow> bool"
    by (auto simp: numeral_3_eq_3 numeral_2_eq_2 less_Suc_eq)
  show ?thesis
    unfolding three render_face_def Let_def
    using rv [of 0] rv [of 1] rv [of 2] pic [of 0] pic [of 1] pic [of 2]
    by (simp add: shows_face_def not_less [symmetric])
qed

lemma object_shown:
  assumes "in_range s cam" and "ob \<in> set (sc_obj s)" and w: "0 \<le> w" "w \<le> 4096" "0 \<le> h" "h \<le> 4096"
  shows "list_all2 (shows_face s cam w h)
    (if drawable s ob \<and> 16384 \<le> eye_coord cam (vcoord (ob_pos ob)) 2 + ms_radius (sc_mesh s ! ob_mesh ob)
     then map (Pair ob) (filter (\<lambda>f. \<forall>k<3. 16384 \<le> corner_eye s cam ob f k 2) [0..<ms_fcount (sc_mesh s ! ob_mesh ob)]) else [])
    (object_tris s (mat_transpose (cm_rot cam)) cam (i32 (cdiv w 2 * HX421_ONE)) (i32 (cdiv h 2 * HX421_ONE)) ob)"
proof (cases "drawable s ob")
  case False
  then show ?thesis by (auto simp: object_tris_def drawable_def split: option.splits)
next
  case True
  let ?m = "sc_mesh s ! ob_mesh ob"
  obtain verts faces where m: "ms_verts ?m = Some verts" "ms_faces ?m = Some faces" using True by (auto simp: drawable_def)
  have cam: "near_vec (cm_pos cam)" "mat_small (cm_rot cam)" using assms(1) by (simp_all add: in_range_def)
  have ob: "near_vec (ob_pos ob)" "mat_small (ob_rot ob)" "\<bar>ms_radius ?m\<bar> \<le> 16777216"
    and v: "\<forall>f < ms_fcount ?m. \<forall>k<3. near_vec (corner_vertex s ob f k) \<and> on_picture cam (corner_eye s cam ob f k)"
    using assms(1,2) True by (simp_all add: in_range_def)
  have p: "\<bar>vx (ob_pos ob)\<bar> \<le> 117440512" "\<bar>vy (ob_pos ob)\<bar> \<le> 117440512" "\<bar>vz (ob_pos ob)\<bar> \<le> 117440512"
    using near_vecD [OF ob(1)] by linarith+
  note e = view_exact [OF cam p]
  have "\<bar>eye_coord cam (vcoord (ob_pos ob)) 2\<bar> \<le> 805306368" by (rule e(2)) simp
  then have z: "i32 (vz (mat_apply (mat_transpose (cm_rot cam)) (vsub (ob_pos ob) (cm_pos cam))) + ms_radius ?m) =
      eye_coord cam (vcoord (ob_pos ob)) 2 + ms_radius ?m" unfolding e(1) using ob(3) by (simp add: i32_id)
  have "list_all2 (\<lambda>f t. shows_face s cam w h (ob, f) t)
      (filter (\<lambda>f. \<forall>k<3. 16384 \<le> corner_eye s cam ob f k 2) [0..<ms_fcount ?m])
      (List.map_filter (render_face (mat_transpose (cm_rot cam)) cam (i32 (cdiv w 2 * HX421_ONE)) (i32 (cdiv h 2 * HX421_ONE)) ob ?m verts faces)
        [0..<ms_fcount ?m])"
    using v by (intro list_all2_map_filter face_shown [OF cam ob(1,2) _ w m]) simp
  then show ?thesis
    using True m unfolding object_tris_def z by (simp add: drawable_def NEAR_def list_all2_map1)
qed


definition idle_object :: object3d where
  "idle_object = \<lparr>ob_kind = HX421_BODY_MESH, ob_mesh = 0, ob_mask_id = 0, ob_active = False, ob_visible = False,
     ob_collidable = False, ob_layer = 0, ob_mask = 0, ob_passthrough = False, ob_pos = vzero, ob_vel = vzero,
     ob_rot = mat_identity\<rparr>"

definition blank_scene :: scene where
  "blank_scene =
     (let mesh = \<lparr>ms_verts = None, ms_vcount = 0, ms_faces = None, ms_colors = None, ms_fcount = 0, ms_radius = 0,
            ms_half = vzero, ms_centre = vzero, ms_planes = [], ms_pcount = 0\<rparr>;
          cam = \<lparr>cm_active = False, cm_pos = vzero, cm_rot = mat_identity, cm_focal_x = 0, cm_focal_y = 0\<rparr>
      in \<lparr>sc_mesh = mesh # replicate 15 mesh, sc_mask = replicate 32 \<lparr>mk_w = 0, mk_h = 0, mk_stride = 0, mk_bits = []\<rparr>,
          sc_obj = idle_object # idle_object # replicate 62 idle_object, sc_cam = cam # replicate 3 cam,
          sc_mesh_count = 0, sc_mask_count = 0, sc_active_cam = 0\<rparr>)"

definition demo_mesh :: mesh where
  "demo_mesh = \<lparr>ms_verts = Some [\<lparr>vx = 0, vy = 0, vz = 0\<rparr>, \<lparr>vx = 65536, vy = 0, vz = 0\<rparr>, \<lparr>vx = 0, vy = 65536, vz = 0\<rparr>],
     ms_vcount = 3, ms_faces = Some [0, 1, 2], ms_colors = None, ms_fcount = 1, ms_radius = 65536, ms_half = vzero,
     ms_centre = vzero, ms_planes = [], ms_pcount = 0\<rparr>"

text \<open>One triangle, two world units in front of the camera.\<close>

definition demo_scene :: scene where
  "demo_scene = hx421_object_set_pos (snd (hx421_object_spawn
     (snd (hx421_mesh_register (snd (hx421_camera_register (hx421_scene_init blank_scene) vzero 0)) demo_mesh)) 0)) 0
     \<lparr>vx = 0, vy = 0, vz = 131072\<rparr>"

lemma demo_scene_reach: "scene_reach demo_scene"
  unfolding demo_scene_def
  by (intro scene_reach.intros)
    (simp_all add: blank_scene_def HX421_MAX_MESH_def HX421_MAX_MASK_def HX421_MAX_OBJ_def HX421_MAX_CAM_def Let_def)

definition demo_object :: object3d where
  "demo_object = \<lparr>ob_kind = HX421_BODY_MESH, ob_mesh = 0, ob_mask_id = 0, ob_active = True, ob_visible = True,
     ob_collidable = True, ob_layer = 0, ob_mask = 0xFF, ob_passthrough = False,
     ob_pos = \<lparr>vx = 0, vy = 0, vz = 131072\<rparr>, ob_vel = vzero, ob_rot = mat_identity\<rparr>"

definition demo_camera :: camera where
  "demo_camera = \<lparr>cm_active = True, cm_pos = vzero, cm_rot = mat_identity, cm_focal_x = 8388608, cm_focal_y = 9586944\<rparr>"

lemma demo_scene_sel:
  "sc_active_cam demo_scene = 0" "sc_cam demo_scene ! 0 = demo_camera" "sc_mesh demo_scene ! 0 = demo_mesh"
  "sc_obj demo_scene = demo_object # idle_object # replicate 62 idle_object" "sc_mesh_count demo_scene = 1"
proof -
  define s0 where "s0 = hx421_scene_init blank_scene"
  have s0: "sc_active_cam s0 = 0" "\<exists>m ms. sc_mesh s0 = m # ms" "sc_mesh_count s0 = 0"
    "sc_obj s0 = idle_object # idle_object # replicate 62 idle_object"
    "sc_cam s0 = \<lparr>cm_active = False, cm_pos = vzero, cm_rot = mat_identity, cm_focal_x = 0, cm_focal_y = 0\<rparr> #
       replicate 3 \<lparr>cm_active = False, cm_pos = vzero, cm_rot = mat_identity, cm_focal_x = 0, cm_focal_y = 0\<rparr>"
    by (simp_all add: s0_def blank_scene_def hx421_scene_init_def Let_def idle_object_def)
  define s1 where "s1 = snd (hx421_camera_register s0 vzero 0)"
  have s1: "sc_active_cam s1 = 0" "\<exists>m ms. sc_mesh s1 = m # ms" "sc_mesh_count s1 = 0" "sc_cam s1 ! 0 = demo_camera"
    "sc_obj s1 = idle_object # idle_object # replicate 62 idle_object"
    using s0 by (simp_all add: s1_def hx421_camera_register_def cam_apply_par_def asr_def HX421_PAR_SNES_def demo_camera_def)
  define s2 where "s2 = snd (hx421_mesh_register s1 demo_mesh)"
  have s2: "sc_active_cam s2 = 0" "sc_mesh s2 ! 0 = demo_mesh" "sc_mesh_count s2 = 1" "sc_cam s2 ! 0 = demo_camera"
    "sc_obj s2 = idle_object # idle_object # replicate 62 idle_object"
    using s1 by (auto simp: s2_def hx421_mesh_register_def HX421_MAX_MESH_def)
  define s3 where "s3 = snd (hx421_object_spawn s2 0)"
  have sp: "spawn_slot s2 = (Some 0, s2\<lparr>sc_obj := demo_object\<lparr>ob_pos := vzero\<rparr> # idle_object # replicate 62 idle_object\<rparr>)"
    using s2(5) by (simp add: spawn_slot_def) (simp add: idle_object_def demo_object_def)
  have s3: "sc_active_cam s3 = 0" "sc_mesh s3 ! 0 = demo_mesh" "sc_mesh_count s3 = 1" "sc_cam s3 ! 0 = demo_camera"
    "sc_obj s3 = demo_object\<lparr>ob_pos := vzero\<rparr> # idle_object # replicate 62 idle_object"
    unfolding s3_def hx421_object_spawn_def sp using s2 by (simp_all add: demo_object_def)
  have d: "demo_scene = hx421_object_set_pos s3 0 \<lparr>vx = 0, vy = 0, vz = 131072\<rparr>"
    unfolding demo_scene_def s3_def s2_def s1_def s0_def ..
  have "obj_of s3 0 = Some 0" using s3(5) by (simp add: obj_of_def HX421_MAX_OBJ_def demo_object_def)
  then have e: "demo_scene = s3\<lparr>sc_obj := demo_object # idle_object # replicate 62 idle_object\<rparr>"
    unfolding d hx421_object_set_pos_def at_obj_def using s3(5) by (simp add: demo_object_def)
  show "sc_active_cam demo_scene = 0" "sc_cam demo_scene ! 0 = demo_camera" "sc_mesh demo_scene ! 0 = demo_mesh"
    "sc_obj demo_scene = demo_object # idle_object # replicate 62 idle_object" "sc_mesh_count demo_scene = 1"
    unfolding e using s3 by simp_all
qed

lemma identity_small: "mat_small mat_identity"
proof -
  have "\<bar>mt mat_identity ! i\<bar> \<le> 65536" if "i < 9" for i
  proof -
    have "mt mat_identity ! i \<in> set (mt mat_identity)" using that by (intro nth_mem) (simp add: mat_identity_def)
    then show ?thesis by (auto simp: mat_identity_def)
  qed
  then show ?thesis by (simp add: mat_small_def)
qed

lemma demo_corners:
  assumes "k < 3"
  shows "near_vec (corner_vertex demo_scene demo_object 0 k)" and "corner_eye demo_scene demo_camera demo_object 0 k 2 = 131072"
    and "\<bar>corner_eye demo_scene demo_camera demo_object 0 k 0\<bar> \<le> 65536" and "\<bar>corner_eye demo_scene demo_camera demo_object 0 k 1\<bar> \<le> 65536"
proof -
  have o: "ob_mesh demo_object = 0" "ob_pos demo_object = \<lparr>vx = 0, vy = 0, vz = 131072\<rparr>" "ob_rot demo_object = mat_identity"
    "cm_pos demo_camera = vzero" "cm_rot demo_camera = mat_identity" by (simp_all add: demo_object_def demo_camera_def)
  have v: "corner_vertex demo_scene demo_object 0 k =
      [\<lparr>vx = 0, vy = 0, vz = 0\<rparr>, \<lparr>vx = 65536, vy = 0, vz = 0\<rparr>, \<lparr>vx = 0, vy = 65536, vz = 0\<rparr>] ! ([0, 1, 2] ! k)"
    by (simp add: corner_vertex_def o demo_scene_sel) (simp add: demo_mesh_def)
  have "k = 0 \<or> k = 1 \<or> k = 2" using assms by auto
  then have e: "\<exists>x y. corner_vertex demo_scene demo_object 0 k = \<lparr>vx = x, vy = y, vz = 0\<rparr> \<and> \<bar>x\<bar> \<le> 65536 \<and> \<bar>y\<bar> \<le> 65536"
    unfolding v by (elim disjE) simp_all
  then obtain x y where xy: "corner_vertex demo_scene demo_object 0 k = \<lparr>vx = x, vy = y, vz = 0\<rparr>" "\<bar>x\<bar> \<le> 65536" "\<bar>y\<bar> \<le> 65536" by blast
  show "near_vec (corner_vertex demo_scene demo_object 0 k)" using xy by (simp add: near_vec_def vcoord_def)
  have c: "corner_eye demo_scene demo_camera demo_object 0 k i = (if i = 0 then x else if i = 1 then y else if i = 2 then 131072
      else corner_eye demo_scene demo_camera demo_object 0 k i)" for i
    by (simp add: corner_eye_def eye_coord_def placed_coord_def o xy(1) vzero_def mat_identity_def vcoord_def)
  show "corner_eye demo_scene demo_camera demo_object 0 k 2 = 131072" by (subst c) simp
  show "\<bar>corner_eye demo_scene demo_camera demo_object 0 k 0\<bar> \<le> 65536" by (subst c) (simp add: xy)
  show "\<bar>corner_eye demo_scene demo_camera demo_object 0 k 1\<bar> \<le> 65536" by (subst c) (simp add: xy)
qed

lemma demo_flags: "drawable demo_scene demo_object" "\<not> drawable demo_scene idle_object"
proof -
  have "ob_mesh demo_object = 0" by (simp add: demo_object_def)
  then show "drawable demo_scene demo_object"
    by (simp add: drawable_def demo_scene_sel) (simp add: demo_object_def demo_mesh_def)
  show "\<not> drawable demo_scene idle_object" by (simp add: drawable_def idle_object_def)
qed

lemma demo_in_range: "in_range demo_scene demo_camera"
proof -
  have f: "\<bar>cm_focal_x demo_camera\<bar> \<le> 67108864" "\<bar>cm_focal_y demo_camera\<bar> \<le> 67108864"
    "near_vec (cm_pos demo_camera)" "mat_small (cm_rot demo_camera)"
    by (simp_all add: demo_camera_def near_vec_def vcoord_def vzero_def identity_small)
  have m: "ms_radius demo_mesh = 65536" "ms_fcount demo_mesh = 1" "ob_mesh demo_object = 0" "near_vec (ob_pos demo_object)" "mat_small (ob_rot demo_object)"
    by (simp_all add: demo_mesh_def demo_object_def near_vec_def vcoord_def identity_small)
  have "on_picture demo_camera (corner_eye demo_scene demo_camera demo_object 0 k)" if "k < 3" for k
  proof -
    note c = demo_corners [OF that]
    have "\<bar>corner_eye demo_scene demo_camera demo_object 0 k 0 * cm_focal_x demo_camera\<bar> \<le> 65536 * 67108864"
      "\<bar>corner_eye demo_scene demo_camera demo_object 0 k 1 * cm_focal_y demo_camera\<bar> \<le> 65536 * 67108864"
      unfolding abs_mult using c(3,4) f(1,2) by (intro mult_mono; simp)+
    then show ?thesis unfolding on_picture_def c(2) by linarith
  qed
  then show ?thesis
    using f m demo_flags demo_corners(1) by (simp add: in_range_def demo_scene_sel)
qed


text \<open>
  C27: The registry stays well formed under every sequence of commands: the tables keep their
  sizes, the counts and the active camera stay in range, and every active entry refers to a
  registered mesh or mask.  A spawn claims an inactive entry and touches no other, or fails and
  changes nothing.
\<close>
theorem scene_registry_wellformed:
  assumes "scene_reach s"
  shows "scene_ok s \<and>
    (case hx421_object_spawn s k of
       (None, s') \<Rightarrow> s' = s
     | (Some i, s') \<Rightarrow> i < 64 \<and> \<not> ob_active (sc_obj s ! i) \<and> s' = s\<lparr>sc_obj := (sc_obj s)[i := sc_obj s' ! i]\<rparr> \<and>
         ob_active (sc_obj s' ! i) \<and> ob_kind (sc_obj s' ! i) = HX421_BODY_MESH \<and> int (ob_mesh (sc_obj s' ! i)) = k) \<and>
    (case hx421_actor_spawn s k of
       (None, s') \<Rightarrow> s' = s
     | (Some i, s') \<Rightarrow> i < 64 \<and> \<not> ob_active (sc_obj s ! i) \<and> s' = s\<lparr>sc_obj := (sc_obj s)[i := sc_obj s' ! i]\<rparr> \<and>
         ob_active (sc_obj s' ! i) \<and> ob_kind (sc_obj s' ! i) = HX421_BODY_MASK \<and> int (ob_mask_id (sc_obj s' ! i)) = k)"
proof (intro conjI)
  show ok: "scene_ok s" using assms by (rule scene_reach_ok)
  have l: "length (sc_obj s) = 64" using ok by (simp add: scene_ok_def HX421_MAX_OBJ_def)
  obtain r s' where r: "hx421_object_spawn s k = (r, s')" by (cases "hx421_object_spawn s k")
  from ok r show "case hx421_object_spawn s k of
       (None, s') \<Rightarrow> s' = s
     | (Some i, s') \<Rightarrow> i < 64 \<and> \<not> ob_active (sc_obj s ! i) \<and> s' = s\<lparr>sc_obj := (sc_obj s)[i := sc_obj s' ! i]\<rparr> \<and>
         ob_active (sc_obj s' ! i) \<and> ob_kind (sc_obj s' ! i) = HX421_BODY_MESH \<and> int (ob_mesh (sc_obj s' ! i)) = k"
    by (cases rule: object_spawn_cases) (simp_all add: r l)
  obtain r s' where r: "hx421_actor_spawn s k = (r, s')" by (cases "hx421_actor_spawn s k")
  from ok r show "case hx421_actor_spawn s k of
       (None, s') \<Rightarrow> s' = s
     | (Some i, s') \<Rightarrow> i < 64 \<and> \<not> ob_active (sc_obj s ! i) \<and> s' = s\<lparr>sc_obj := (sc_obj s)[i := sc_obj s' ! i]\<rparr> \<and>
         ob_active (sc_obj s' ! i) \<and> ob_kind (sc_obj s' ! i) = HX421_BODY_MASK \<and> int (ob_mask_id (sc_obj s' ! i)) = k"
    by (cases rule: actor_spawn_cases) (simp_all add: r l)
qed

theorem scene_registry_wellformed_witness:
  "scene_ok demo_scene \<and> fst (hx421_object_spawn demo_scene 0) = Some 1"
proof -
  have "fst (hx421_object_spawn demo_scene 0) = Some 1"
    by (simp add: hx421_object_spawn_def spawn_slot_def demo_scene_sel demo_object_def idle_object_def)
  then show ?thesis using scene_registry_wellformed [OF demo_scene_reach] by blast
qed

end
