(* ===== verification/Collide.thy ===== *)
theory Collide
  imports Scene3d
begin

unbundle bit_operations_syntax

text \<open>
  \<^verbatim>\<open>runtime/hx421_collide.c\<close>: collision over the registry.  The broad phase tests bounding
  spheres or sprite masks of all pairs, the mid phase oriented boxes, the narrow phase finds the
  planes touched, and the response reflects a velocity off them.  Vectors are Q16.16; a result
  delivered through optional pointers is an option, and the valid prefix of the array of normals
  is a list (what it holds before the narrow phase is unspecified in the code, and empty here).
\<close>

section \<open>Data\<close>

definition HX421_MAX_CONTACTS :: nat where "HX421_MAX_CONTACTS = 64"
definition HX421_MAX_NORMALS :: nat where "HX421_MAX_NORMALS = 4"
definition HX421_MAX_PLANES :: nat where "HX421_MAX_PLANES = 12"

record contact =
  ct_a :: nat
  ct_b :: nat
  ct_kind :: body_kind
  ct_normal :: vec
  ct_depth :: int
  ct_px :: int
  ct_py :: int
  ct_normals :: "vec list"

record contact_list =
  cl_c :: "contact list"
  cl_overflow :: nat
  cl_tests :: nat
  cl_cross_skipped :: nat

datatype response = HX421_RESPONSE_BOUNCE | HX421_RESPONSE_SLIDE

section \<open>Square root and spheres\<close>

text \<open>One round of the restoring square root on the remainder, the root and the operand.\<close>

definition sqrt_round :: "nat \<times> nat \<times> nat \<Rightarrow> nat \<times> nat \<times> nat" where
  "sqrt_round s =
     (case s of (rem, root, v) \<Rightarrow>
        let rem = u64 (push_bit 2 rem) OR drop_bit 62 v;
            v = u64 (push_bit 2 v);
            root = u64 (push_bit 1 root);
            trial = u64 (push_bit 1 root) OR 1
        in if trial \<le> rem then (rem - trial, root OR 1, v) else (rem, root, v))"

definition hx421_sqrt_q16 :: "int \<Rightarrow> int" where
  "hx421_sqrt_q16 v_q16 =
     (if v_q16 \<le> 0 then 0
      else let root = fst (snd ((sqrt_round ^^ 32) (0, 0, u64 (nat v_q16 * 2 ^ 16))))
           in int (if 0x7FFFFFFF < root then 0x7FFFFFFF else root))"

text \<open>The normal from \<open>a\<close> to \<open>b\<close> and the depth of an overlap.\<close>

definition hx421_sphere_test :: "vec \<Rightarrow> int \<Rightarrow> vec \<Rightarrow> int \<Rightarrow> (vec \<times> int) option" where
  "hx421_sphere_test pa ra pb rb =
     (let dx = vx pb - vx pa; dy = vy pb - vy pa; dz = vz pb - vz pa;
          sx = asr dx 8; sy = asr dy 8; sz = asr dz 8;
          dsq = sx * sx + sy * sy + sz * sz;
          r = ra + rb; rs = asr r 8; rsq = rs * rs
      in if rsq \<le> dsq then None
         else let len = hx421_sqrt_q16 dsq in
              if len = 0 then Some (\<lparr>vx = 0, vy = 65536, vz = 0\<rparr>, i32 r)
              else Some (\<lparr>vx = i32 (cdiv (dx * 2 ^ 16) len), vy = i32 (cdiv (dy * 2 ^ 16) len),
                          vz = i32 (cdiv (dz * 2 ^ 16) len)\<rparr>, i32 (r - len)))"

section \<open>Oriented boxes\<close>

definition qm15 :: "int \<Rightarrow> int \<Rightarrow> int" where "qm15 a b = i32 (asr (a * b) 15)"

definition qabs :: "int \<Rightarrow> int" where "qabs v = (if v < 0 then i32 (- v) else v)"

definition mat_row :: "mat \<Rightarrow> nat \<Rightarrow> vec" where
  "mat_row m i = \<lparr>vx = mt m ! (i * 3), vy = mt m ! (i * 3 + 1), vz = mt m ! (i * 3 + 2)\<rparr>"

definition dot_q15_q16 :: "vec \<Rightarrow> vec \<Rightarrow> int" where
  "dot_q15_q16 a v = i32 (asr (i64 (vx a * vx v + vy a * vy v + vz a * vz v)) 15)"

text \<open>Component \<open>i\<close> of a vector used as an array.\<close>

definition vec_at :: "vec \<Rightarrow> nat \<Rightarrow> int" where
  "vec_at v i = (if i = 0 then vx v else if i = 1 then vy v else vz v)"

text \<open>The relative rotation, its absolute value with the epsilon, and the offset in \<open>a\<close>'s frame.\<close>

record obb_frame =
  of_R :: "int list"
  of_absR :: "int list"
  of_t :: "int list"

definition obb_setup :: "vec \<Rightarrow> mat \<Rightarrow> vec \<Rightarrow> mat \<Rightarrow> obb_frame" where
  "obb_setup pa ra pb rb =
     (let R = map (\<lambda>(i, j). let ai = mat_row ra i; bj = mat_row rb j in
                  i32 (qm15 (vx ai) (vx bj) + qm15 (vy ai) (vy bj) + qm15 (vz ai) (vz bj)))
                (List.product [0..<3] [0..<3]);
          d = \<lparr>vx = i32 (vx pb - vx pa), vy = i32 (vy pb - vy pa), vz = i32 (vz pb - vz pa)\<rparr>
      in \<lparr>of_R = R, of_absR = map (\<lambda>r. i32 (qabs r + 16)) R,
          of_t = map (\<lambda>i. dot_q15_q16 (mat_row ra i) d) [0..<3]\<rparr>)"

text \<open>The overlap along a face axis of \<open>a\<close> or of \<open>b\<close>, with the sign of the offset.\<close>

definition face_a :: "obb_frame \<Rightarrow> vec \<Rightarrow> vec \<Rightarrow> nat \<Rightarrow> int \<times> int" where
  "face_a fr ha hb i =
     (let A = of_absR fr;
          rb_i = i32 (qm15 (vec_at hb 0) (A ! (i * 3)) + qm15 (vec_at hb 1) (A ! (i * 3 + 1)) + qm15 (vec_at hb 2) (A ! (i * 3 + 2)));
          t = of_t fr ! i
      in (i32 (vec_at ha i + rb_i - qabs t), if t < 0 then - 1 else 1))"

definition face_b :: "obb_frame \<Rightarrow> vec \<Rightarrow> vec \<Rightarrow> nat \<Rightarrow> int \<times> int" where
  "face_b fr ha hb j =
     (let A = of_absR fr; R = of_R fr; t = of_t fr;
          ra_j = i32 (qm15 (vec_at ha 0) (A ! j) + qm15 (vec_at ha 1) (A ! (3 + j)) + qm15 (vec_at ha 2) (A ! (6 + j)));
          tj = i32 (qm15 (t ! 0) (R ! j) + qm15 (t ! 1) (R ! (3 + j)) + qm15 (t ! 2) (R ! (6 + j)))
      in (i32 (ra_j + vec_at hb j - qabs tj), if tj < 0 then - 1 else 1))"

text \<open>The six face axes in order: stop at a gap, else keep the shallowest.\<close>

type_synonym axis = "bool \<times> nat \<times> int"

fun shallowest :: "(axis \<times> int) list \<Rightarrow> axis \<times> int \<Rightarrow> (axis \<times> int) option" where
  "shallowest [] best = Some best"
| "shallowest ((ax, over) # fs) best =
     (if over \<le> 0 then None else shallowest fs (if over < snd best then (ax, over) else best))"

definition face_axes :: "obb_frame \<Rightarrow> vec \<Rightarrow> vec \<Rightarrow> (axis \<times> int) list" where
  "face_axes fr ha hb =
     map (\<lambda>i. let (over, sg) = face_a fr ha hb i in ((False, i, sg), over)) [0..<3] @
     map (\<lambda>j. let (over, sg) = face_b fr ha hb j in ((True, j, sg), over)) [0..<3]"

definition edge_gap :: "obb_frame \<Rightarrow> vec \<Rightarrow> vec \<Rightarrow> nat \<times> nat \<Rightarrow> bool" where
  "edge_gap fr ha hb p =
     (case p of (i, j) \<Rightarrow>
        let u = [1, 2, 0 :: nat]; v = [2, 0, 1 :: nat]; A = of_absR fr; R = of_R fr; t = of_t fr;
            r0 = i32 (qm15 (vec_at ha (u ! i)) (A ! (v ! i * 3 + j)) + qm15 (vec_at ha (v ! i)) (A ! (u ! i * 3 + j)));
            r1 = i32 (qm15 (vec_at hb (u ! j)) (A ! (i * 3 + v ! j)) + qm15 (vec_at hb (v ! j)) (A ! (i * 3 + u ! j)));
            tt = qabs (i32 (qm15 (t ! (v ! i)) (R ! (u ! i * 3 + j)) - qm15 (t ! (u ! i)) (R ! (v ! i * 3 + j))))
        in i32 (r0 + r1) < tt)"

definition hx421_obb_test :: "vec \<Rightarrow> mat \<Rightarrow> vec \<Rightarrow> vec \<Rightarrow> mat \<Rightarrow> vec \<Rightarrow> (vec \<times> int) option" where
  "hx421_obb_test pa ra ha pb rb hb =
     (let fr = obb_setup pa ra pb rb in
      case shallowest (face_axes fr ha hb) ((False, 0, 1), 0x7FFFFFFF) of
        None \<Rightarrow> None
      | Some ((from_b, axis, sg), best) \<Rightarrow>
          if \<exists>p \<in> set (List.product [0..<3] [0..<3]). edge_gap fr ha hb p then None
          else let n = (if from_b then mat_row rb axis else mat_row ra axis)
               in Some (\<lparr>vx = i32 (i32 (vx n * sg) * 2), vy = i32 (i32 (vy n * sg) * 2),
                         vz = i32 (i32 (vz n * sg) * 2)\<rparr>, best))"

section \<open>Vector helpers\<close>

definition vsub3 :: "vec \<Rightarrow> vec \<Rightarrow> vec" where
  "vsub3 a b = \<lparr>vx = i32 (vx a - vx b), vy = i32 (vy a - vy b), vz = i32 (vz a - vz b)\<rparr>"

definition dot16 :: "vec \<Rightarrow> vec \<Rightarrow> int" where
  "dot16 a b = i32 (asr (i64 (vx a * vx b + vy a * vy b + vz a * vz b)) 16)"

definition cross16 :: "vec \<Rightarrow> vec \<Rightarrow> vec" where
  "cross16 a b = \<lparr>vx = i32 (asr (i64 (vy a * vz b - vz a * vy b)) 16),
     vy = i32 (asr (i64 (vz a * vx b - vx a * vz b)) 16), vz = i32 (asr (i64 (vx a * vy b - vy a * vx b)) 16)\<rparr>"

definition scale16 :: "vec \<Rightarrow> int \<Rightarrow> vec" where
  "scale16 v s = \<lparr>vx = i32 (asr (vx v * s) 16), vy = i32 (asr (vy v * s) 16), vz = i32 (asr (vz v * s) 16)\<rparr>"

definition len16 :: "vec \<Rightarrow> int" where
  "len16 v = (let x = asr (vx v) 8; y = asr (vy v) 8; z = asr (vz v) 8 in hx421_sqrt_q16 (x * x + y * y + z * z))"

text \<open>\<^term>\<open>None\<close> for a vector without a usable direction, which the code leaves as it was.\<close>

definition normalize16 :: "vec \<Rightarrow> vec option" where
  "normalize16 v =
     (let l = len16 v in
      if l < 64 then None
      else Some \<lparr>vx = i32 (cdiv (vx v * 2 ^ 16) l), vy = i32 (cdiv (vy v * 2 ^ 16) l), vz = i32 (cdiv (vz v * 2 ^ 16) l)\<rparr>)"

definition vneg :: "vec \<Rightarrow> vec" where
  "vneg v = \<lparr>vx = i32 (- vx v), vy = i32 (- vy v), vz = i32 (- vz v)\<rparr>"

definition rot_apply :: "mat \<Rightarrow> vec \<Rightarrow> vec" where
  "rot_apply m v = \<lparr>
     vx = i32 (asr (i64 (mt m ! 0 * vx v + mt m ! 1 * vy v + mt m ! 2 * vz v)) 15),
     vy = i32 (asr (i64 (mt m ! 3 * vx v + mt m ! 4 * vy v + mt m ! 5 * vz v)) 15),
     vz = i32 (asr (i64 (mt m ! 6 * vx v + mt m ! 7 * vy v + mt m ! 8 * vz v)) 15)\<rparr>"

section \<open>Mid phase\<close>

definition box_centre :: "object3d \<Rightarrow> mesh \<Rightarrow> vec" where
  "box_centre ob m = (let c = rot_apply (ob_rot ob) (ms_centre m); p = ob_pos ob in
     \<lparr>vx = i32 (vx p + vx c), vy = i32 (vy p + vy c), vz = i32 (vz p + vz c)\<rparr>)"

definition mid_contact :: "scene \<Rightarrow> contact \<Rightarrow> contact option" where
  "mid_contact s c =
     (if ct_kind c \<noteq> HX421_BODY_MESH then Some c
      else let a = sc_obj s ! ct_a c; b = sc_obj s ! ct_b c; ma = sc_mesh s ! ob_mesh a; mb = sc_mesh s ! ob_mesh b in
           case hx421_obb_test (box_centre a ma) (ob_rot a) (ms_half ma) (box_centre b mb) (ob_rot b) (ms_half mb) of
             None \<Rightarrow> None
           | Some (n, dep) \<Rightarrow> Some (c\<lparr>ct_normal := vneg n, ct_depth := dep\<rparr>))"

definition hx421_midphase :: "scene \<Rightarrow> contact_list \<Rightarrow> contact_list" where
  "hx421_midphase s io = io\<lparr>cl_c := List.map_filter (mid_contact s) (cl_c io)\<rparr>"

section \<open>Plane sets\<close>

text \<open>The planes found so far with their areas; the first that a face merges with.\<close>

fun merge_at :: "vec \<Rightarrow> int \<Rightarrow> (plane \<times> int) list \<Rightarrow> nat option" where
  "merge_at nrm d [] = None"
| "merge_at nrm d (p # ps) =
     (let dd = i32 (pl_d (fst p) - d); dd = (if dd < 0 then i32 (- dd) else dd) in
      if dot16 (pl_n (fst p)) nrm < 65100 then map_option Suc (merge_at nrm d ps)
      else if 1024 < dd then map_option Suc (merge_at nrm d ps)
      else Some 0)"

definition fit_face :: "vec list \<Rightarrow> nat list \<Rightarrow> (plane \<times> int) list \<Rightarrow> nat \<Rightarrow> (plane \<times> int) list" where
  "fit_face verts faces ps f =
     (let v0 = verts ! (faces ! (f * 3)); v1 = verts ! (faces ! (f * 3 + 1)); v2 = verts ! (faces ! (f * 3 + 2));
          nrm = cross16 (vsub3 v1 v0) (vsub3 v2 v0);
          twice_area = len16 nrm
      in case normalize16 nrm of
           None \<Rightarrow> ps
         | Some nrm \<Rightarrow>
             let d = dot16 nrm v0 in
             (case merge_at nrm d ps of
                Some k \<Rightarrow> ps[k := (fst (ps ! k), snd (ps ! k) + twice_area)]
              | None \<Rightarrow> if length ps < HX421_MAX_PLANES then ps @ [(\<lparr>pl_n = nrm, pl_d = d\<rparr>, twice_area)] else ps))"

text \<open>The ranking: at every place, swap in the first of the largest areas that are left.\<close>

definition largest_from :: "(plane \<times> int) list \<Rightarrow> nat \<Rightarrow> nat" where
  "largest_from ps i = foldl (\<lambda>best j. if snd (ps ! best) < snd (ps ! j) then j else best) i [i + 1..<length ps]"

definition rank_step :: "(plane \<times> int) list \<Rightarrow> nat \<Rightarrow> (plane \<times> int) list" where
  "rank_step ps i = (let best = largest_from ps i in
     if best \<noteq> i then ps[i := ps ! best, best := ps ! i] else ps)"

definition hx421_mesh_fit_planes :: "mesh \<Rightarrow> nat \<Rightarrow> nat \<times> mesh" where
  "hx421_mesh_fit_planes m cap0 =
     (case (ms_verts m, ms_faces m) of
        (Some verts, Some faces) \<Rightarrow>
          if cap0 = 0 then (0, m)
          else let cap = (if HX421_MAX_PLANES < cap0 then HX421_MAX_PLANES else cap0);
                   ps = foldl (fit_face verts faces) [] [0..<ms_fcount m];
                   ps = foldl rank_step ps [0..<length ps];
                   n = (if cap < length ps then cap else length ps)
               in (n, m\<lparr>ms_planes := map fst (take n ps), ms_pcount := n\<rparr>)
      | _ \<Rightarrow> (0, m))"

section \<open>Narrow phase\<close>

definition plane_dist :: "vec \<Rightarrow> plane \<Rightarrow> int" where
  "plane_dist lp p = i32 (dot16 (pl_n p) lp - pl_d p)"

fun touched :: "mat \<Rightarrow> vec \<Rightarrow> int \<Rightarrow> plane list \<Rightarrow> vec list \<Rightarrow> vec list" where
  "touched rot lp limit [] ns = ns"
| "touched rot lp limit (p # ps) ns =
     (if HX421_MAX_NORMALS \<le> length ns then ns
      else if plane_dist lp p < limit then touched rot lp limit ps ns
      else touched rot lp limit ps (ns @ [rot_apply rot (pl_n p)]))"

definition plane_normals :: "object3d \<Rightarrow> object3d \<Rightarrow> mesh \<Rightarrow> int \<Rightarrow> vec list" where
  "plane_normals a b mb ra =
     (let w = vsub3 (ob_pos a) (ob_pos b);
          bt = \<lparr>mt = map (\<lambda>(i, j). mt (ob_rot b) ! (j * 3 + i)) (List.product [0..<3] [0..<3])\<rparr>;
          lp = rot_apply bt w;
          planes = take (ms_pcount mb) (ms_planes mb);
          best = foldl (\<lambda>best p. if best < plane_dist lp p then plane_dist lp p else best) (- 0x7FFFFFFF) planes
      in if planes \<noteq> [] \<and> best \<le> ra then touched (ob_rot b) lp (i32 (best - cdiv ra 8)) planes [] else [])"

definition narrow_contact :: "scene \<Rightarrow> contact \<Rightarrow> contact" where
  "narrow_contact s c =
     (if ct_kind c \<noteq> HX421_BODY_MESH then c\<lparr>ct_normals := []\<rparr>
      else let a = sc_obj s ! ct_a c; b = sc_obj s ! ct_b c;
               ns = plane_normals a b (sc_mesh s ! ob_mesh b) (ms_radius (sc_mesh s ! ob_mesh a))
           in c\<lparr>ct_normals := (if ns = [] then [ct_normal c] else ns)\<rparr>)"

definition hx421_narrowphase :: "scene \<Rightarrow> contact_list \<Rightarrow> contact_list" where
  "hx421_narrowphase s io = io\<lparr>cl_c := map (narrow_contact s) (cl_c io)\<rparr>"

section \<open>Response\<close>

text \<open>The approached normals, normalised, without near-duplicates, at most four.\<close>

fun keep_normals :: "vec \<Rightarrow> vec list \<Rightarrow> vec list \<Rightarrow> vec list" where
  "keep_normals v [] keep = keep"
| "keep_normals v (n # ns) keep =
     (if HX421_MAX_NORMALS \<le> length keep then keep
      else case normalize16 n of
             None \<Rightarrow> keep_normals v ns keep
           | Some ni \<Rightarrow>
               if 0 \<le> dot16 v ni then keep_normals v ns keep
               else if \<exists>k \<in> set keep. 63303 < dot16 k ni then keep_normals v ns keep
               else keep_normals v ns (keep @ [ni]))"

definition vsub_wrap :: "vec \<Rightarrow> vec \<Rightarrow> vec" where
  "vsub_wrap r sub = \<lparr>vx = i32 (vx r - vx sub), vy = i32 (vy r - vy sub), vz = i32 (vz r - vz sub)\<rparr>"

definition orthogonalise :: "vec list \<Rightarrow> vec list" where
  "orthogonalise keep =
     foldl (\<lambda>ortho k.
       (case normalize16 (foldl (\<lambda>e q. vsub_wrap e (scale16 q (dot16 e q))) k ortho) of
          None \<Rightarrow> ortho
        | Some e \<Rightarrow> ortho @ [e])) [] keep"

text \<open>Whether the velocity was resolved (1) or the object is wedged (0), and the new velocity.\<close>

definition hx421_resolve :: "vec list \<Rightarrow> vec \<Rightarrow> response \<Rightarrow> bool \<times> vec" where
  "hx421_resolve normals v mode =
     (let keep = keep_normals v normals [] in
      if keep = [] then (True, v)
      else let ortho = orthogonalise keep in
           if 3 \<le> length ortho then (False, vzero)
           else let k = (if mode = HX421_RESPONSE_BOUNCE then 2 else 1)
                in (True, foldl (\<lambda>r q. vsub_wrap r (scale16 q (i32 (dot16 v q * k)))) v ortho))"

section \<open>Broad phase\<close>

definition px_of :: "int \<Rightarrow> int" where "px_of q = asr q 16"

text \<open>The test of a pair that passed the filters.\<close>

definition pair_contact :: "scene \<Rightarrow> scan_order \<Rightarrow> nat \<Rightarrow> nat \<Rightarrow> contact option" where
  "pair_contact s order i j =
     (let a = sc_obj s ! i; b = sc_obj s ! j;
          cand = \<lparr>ct_a = u16 i, ct_b = u16 j, ct_kind = ob_kind a, ct_normal = vzero, ct_depth = 0,
                  ct_px = 0, ct_py = 0, ct_normals = []\<rparr>
      in if ob_kind a = HX421_BODY_MESH then
           (case hx421_sphere_test (ob_pos a) (ms_radius (sc_mesh s ! ob_mesh a))
                   (ob_pos b) (ms_radius (sc_mesh s ! ob_mesh b)) of
              None \<Rightarrow> None
            | Some (n, depth) \<Rightarrow> Some (cand\<lparr>ct_normal := vneg n, ct_depth := depth\<rparr>))
         else
           (case hx421_mask_overlap (sc_mask s ! ob_mask_id a) (px_of (vx (ob_pos a))) (px_of (vy (ob_pos a)))
                   (sc_mask s ! ob_mask_id b) (px_of (vx (ob_pos b))) (px_of (vy (ob_pos b))) order of
              None \<Rightarrow> None
            | Some (x, y) \<Rightarrow> Some (cand\<lparr>ct_px := x, ct_py := y\<rparr>)))"

definition live :: "object3d \<Rightarrow> bool" where "live ob \<longleftrightarrow> ob_active ob \<and> ob_collidable ob"

definition accepts :: "object3d \<Rightarrow> object3d \<Rightarrow> bool" where
  "accepts a b \<longleftrightarrow> drop_bit (ob_layer b) (ob_mask a) AND 1 \<noteq> 0"

definition broad_pair :: "scene \<Rightarrow> scan_order \<Rightarrow> contact_list \<Rightarrow> nat \<times> nat \<Rightarrow> contact_list" where
  "broad_pair s order out p =
     (case p of (i, j) \<Rightarrow>
        let a = sc_obj s ! i; b = sc_obj s ! j in
        if \<not> live a \<or> \<not> live b then out
        else if \<not> accepts a b then out
        else if \<not> accepts b a then out
        else if ob_kind a \<noteq> ob_kind b then out\<lparr>cl_cross_skipped := u32 (cl_cross_skipped out + 1)\<rparr>
        else let out = out\<lparr>cl_tests := u32 (cl_tests out + 1)\<rparr> in
             case pair_contact s order i j of
               None \<Rightarrow> out
             | Some cand \<Rightarrow>
                 if HX421_MAX_CONTACTS \<le> length (cl_c out)
                 then out\<lparr>cl_overflow := u16 (cl_overflow out + 1)\<rparr>
                 else out\<lparr>cl_c := cl_c out @ [cand]\<rparr>)"

definition object_pairs :: "(nat \<times> nat) list" where
  "object_pairs = concat (map (\<lambda>i. map (Pair i) [i + 1..<HX421_MAX_OBJ]) [0..<HX421_MAX_OBJ])"

definition hx421_broadphase :: "scene \<Rightarrow> scan_order \<Rightarrow> contact_list" where
  "hx421_broadphase s order =
     foldl (broad_pair s order) \<lparr>cl_c = [], cl_overflow = 0, cl_tests = 0, cl_cross_skipped = 0\<rparr> object_pairs"

end
