(* ===== verification/Collide_Spec.thy ===== *)
theory Collide_Spec
  imports Collide Scene3d_Spec "HOL-Library.Sublist"
begin

unbundle bit_operations_syntax

text \<open>
  What the phases of the collision sweep guarantee: the restoring square root is the floor of
  the root, a sphere overlap is reported with a positive depth, the broad phase reports every
  overlapping pair once and in order, the refinements keep the contacts usable, and the response
  stops, keeps or reflects a velocity as it promises.
\<close>

section \<open>The square root\<close>

text \<open>A round on numbers that do not overflow.\<close>

lemma sqrt_round_arith:
  assumes "rem \<le> 2 * root" and "root < 2 ^ 32" and "v < 2 ^ 64"
  shows "sqrt_round (rem, root, v) =
    (if 4 * root + 1 \<le> 4 * rem + v div 2 ^ 62
     then (4 * rem + v div 2 ^ 62 - (4 * root + 1), 2 * root + 1, (4 * v) mod 2 ^ 64)
     else (4 * rem + v div 2 ^ 62, 2 * root, (4 * v) mod 2 ^ 64))"
proof -
  have b: "v div 2 ^ 62 < 2 ^ 2" using assms(3) by (simp add: less_mult_imp_div_less)
  have e1: "u64 (push_bit 2 rem) OR drop_bit 62 v = 4 * rem + v div 2 ^ 62"
  proof -
    have "u64 (push_bit 2 rem) = push_bit 2 rem" using assms(1,2) by (intro u64_id) (simp add: push_bit_eq_mult)
    then show ?thesis using or_low [OF b, of rem] by (simp add: push_bit_eq_mult drop_bit_eq_div)
  qed
  have e2: "u64 (push_bit 1 root) = 2 * root" using assms(2) by (simp add: push_bit_eq_mult)
  have e3: "u64 (push_bit 1 (2 * root)) OR 1 = 4 * root + 1"
  proof -
    have "u64 (push_bit 1 (2 * root)) = push_bit 1 (2 * root)"
      using assms(2) by (intro u64_id) (simp add: push_bit_eq_mult)
    then show ?thesis using or_low [of 1 1 "2 * root"] by (simp add: push_bit_eq_mult)
  qed
  have e4: "2 * root OR 1 = 2 * root + 1" using or_low [of 1 1 root] by (simp add: push_bit_eq_mult mult.commute)
  have e5: "u64 (push_bit 2 v) = (4 * v) mod 2 ^ 64" by (simp add: push_bit_eq_mult u64_def mult.commute)
  show ?thesis unfolding sqrt_round_def prod.case Let_def e1 e2 e3 e4 e5 ..
qed

text \<open>The next two bits of the operand.\<close>

lemma next_pair:
  fixes V :: nat
  assumes "k < 32"
  shows "V div 4 ^ (31 - k) = 4 * (V div 4 ^ (32 - k)) + (V * 4 ^ k mod 2 ^ 64) div 2 ^ 62"
proof -
  define q :: nat where "q = 4 ^ (31 - k)"
  have "32 - k = Suc (31 - k)" using assms by simp
  then have p: "(4 :: nat) ^ (32 - k) = q * 4" by (simp add: q_def)
  have e: "(2 :: nat) ^ 64 = q * 4 * 4 ^ k" "(2 :: nat) ^ 62 = q * 4 ^ k"
  proof -
    have "(2 :: nat) ^ 64 = 4 ^ 32" "(2 :: nat) ^ 62 = 4 ^ 31" by simp_all
    moreover have "(4 :: nat) ^ 31 = q * 4 ^ k" using assms by (simp add: q_def flip: power_add)
    ultimately show "(2 :: nat) ^ 64 = q * 4 * 4 ^ k" "(2 :: nat) ^ 62 = q * 4 ^ k" by simp_all
  qed
  have "V * 4 ^ k mod 2 ^ 64 = V mod (q * 4) * 4 ^ k" unfolding e by (simp add: mult_mod_left)
  then have "(V * 4 ^ k mod 2 ^ 64) div 2 ^ 62 = V mod (q * 4) div q" unfolding e by simp
  also have "\<dots> = V div q mod 4"
    by (simp add: mod_mult2_eq q_def)
  finally show ?thesis unfolding p q_def [symmetric] by (simp add: div_mult2_eq)
qed

lemma sqrt_rounds:
  assumes "V < 2 ^ 64" and "k \<le> 32"
  shows "\<exists>r. (sqrt_round ^^ k) (0, 0, V) = (V div 4 ^ (32 - k) - r * r, r, V * 4 ^ k mod 2 ^ 64) \<and>
    r * r \<le> V div 4 ^ (32 - k) \<and> V div 4 ^ (32 - k) < (r + 1) * (r + 1)"
  using assms(2)
proof (induction k)
  case 0
  have "(4 :: nat) ^ 32 = 2 ^ 64" by simp
  then show ?case using assms(1) by (intro exI [of _ 0]) simp
next
  case (Suc k)
  then have k: "k < 32" by simp
  define T where "T = V div 4 ^ (32 - k)"
  define b where "b = (V * 4 ^ k mod 2 ^ 64) div 2 ^ 62"
  obtain r where r: "(sqrt_round ^^ k) (0, 0, V) = (T - r * r, r, V * 4 ^ k mod 2 ^ 64)"
    "r * r \<le> T" "T < (r + 1) * (r + 1)"
    using Suc by (auto simp: T_def)
  have T': "V div 4 ^ (31 - k) = 4 * T + b" using next_pair [OF k] by (simp add: T_def b_def)
  have "r < 2 ^ 32"
  proof (rule ccontr)
    assume "\<not> r < 2 ^ 32"
    then have "2 ^ 32 * 2 ^ 32 \<le> r * r" by (intro mult_le_mono) auto
    also have "\<dots> \<le> V" using r(2) by (simp add: T_def) (meson div_le_dividend order_trans)
    finally show False using assms(1) by simp
  qed
  moreover have "T - r * r \<le> 2 * r" using r(3) by simp
  ultimately have s: "(sqrt_round ^^ Suc k) (0, 0, V) =
    (if 4 * r + 1 \<le> 4 * (T - r * r) + b
     then (4 * (T - r * r) + b - (4 * r + 1), 2 * r + 1, (4 * (V * 4 ^ k mod 2 ^ 64)) mod 2 ^ 64)
     else (4 * (T - r * r) + b, 2 * r, (4 * (V * 4 ^ k mod 2 ^ 64)) mod 2 ^ 64))"
    unfolding funpow.simps o_apply r(1) b_def by (intro sqrt_round_arith) simp_all
  have v: "(4 * (V * 4 ^ k mod 2 ^ 64)) mod 2 ^ 64 = V * 4 ^ Suc k mod 2 ^ 64"
    by (simp add: mod_mult_right_eq mult.left_commute mult.commute)
  have i: "32 - Suc k = 31 - k" by simp
  have b4: "b < 4" by (simp add: b_def less_mult_imp_div_less)
  show ?case
  proof (cases "4 * r + 1 \<le> 4 * (T - r * r) + b")
    case True
    then have "(2 * r + 1) * (2 * r + 1) \<le> 4 * T + b" "4 * (T - r * r) + b - (4 * r + 1) = 4 * T + b - (2 * r + 1) * (2 * r + 1)"
      using r(2) by (simp_all add: algebra_simps)
    moreover have "4 * T + b < (2 * r + 1 + 1) * (2 * r + 1 + 1)" using r(3) b4 by (simp add: algebra_simps)
    ultimately show ?thesis unfolding s i T' v using True by (intro exI [of _ "2 * r + 1"]) simp
  next
    case False
    then have "4 * T + b < (2 * r + 1) * (2 * r + 1)" using r(2) by (simp add: algebra_simps)
    moreover have "(2 * r) * (2 * r) \<le> 4 * T + b" "4 * (T - r * r) + b = 4 * T + b - (2 * r) * (2 * r)"
      using r(2) by (simp_all add: algebra_simps)
    ultimately show ?thesis unfolding s i T' v using False by (intro exI [of _ "2 * r"]) simp
  qed
qed

lemma sqrt_q16_floor:
  assumes "0 \<le> v" and "v < 2 ^ 46"
  shows "0 \<le> hx421_sqrt_q16 v \<and> hx421_sqrt_q16 v * hx421_sqrt_q16 v \<le> v * 65536 \<and>
    v * 65536 < (hx421_sqrt_q16 v + 1) * (hx421_sqrt_q16 v + 1)"
proof (cases "v = 0")
  case False
  define V where "V = nat v * 65536"
  have V: "V < 2 ^ 62" "int V = v * 65536" using assms by (auto simp: V_def)
  obtain r where r: "(sqrt_round ^^ 32) (0, 0, V) = (V - r * r, r, V * 4 ^ 32 mod 2 ^ 64)"
    "r * r \<le> V" "V < (r + 1) * (r + 1)"
    using sqrt_rounds [of V 32] V(1) by auto
  have "r < 2 ^ 31"
  proof (rule ccontr)
    assume "\<not> r < 2 ^ 31"
    then have "2 ^ 31 * 2 ^ 31 \<le> r * r" by (intro mult_le_mono) auto
    then show False using r(2) V(1) by simp
  qed
  then have q: "hx421_sqrt_q16 v = int r"
    using False assms(1) r(1) V(1) by (simp add: hx421_sqrt_q16_def V_def)
  have "int (r * r) \<le> int V" "int V < int ((r + 1) * (r + 1))" using r(2,3) by (simp_all only: of_nat_le_iff of_nat_less_iff)
  then show ?thesis unfolding q V(2) [symmetric] by (simp add: algebra_simps)
qed (simp add: hx421_sqrt_q16_def)

section \<open>Spheres\<close>

lemma square_le_imp:
  fixes a b :: int
  assumes "a * a < b * b" and "0 \<le> b"
  shows "a < b"
proof (rule ccontr)
  assume "\<not> a < b"
  then have "b * b \<le> a * a" using assms(2) by (intro mult_mono) auto
  then show False using assms(1) by simp
qed

text \<open>A component of the difference is at most twice the length, so the normal does not overflow.\<close>

lemma normal_component:
  fixes x len dsq :: int
  assumes "(x div 256) * (x div 256) \<le> dsq" and "0 < dsq" and "0 \<le> len" and "dsq * 65536 < (len + 1) * (len + 1)"
  shows "0 < len" and "i32 (cdiv (x * 2 ^ 16) len) = cdiv (x * 65536) len"
proof -
  have "256 * 256 < (len + 1) * (len + 1)" using assms(2,4) by linarith
  then have l: "256 \<le> len" using square_le_imp [of 256 "len + 1"] assms(3) by simp
  then show "0 < len" by simp
  have "(256 * \<bar>x div 256\<bar>) * (256 * \<bar>x div 256\<bar>) = (x div 256) * (x div 256) * 65536"
    by (simp add: abs_mult_self_eq flip: mult.assoc)
  also have "\<dots> < (len + 1) * (len + 1)" using assms(1,4) by linarith
  finally have "256 * \<bar>x div 256\<bar> < len + 1" using square_le_imp assms(3) by (metis add_increasing zero_le_one)
  moreover have "\<bar>x\<bar> \<le> 256 * \<bar>x div 256\<bar> + 256" by linarith
  ultimately have x: "\<bar>x\<bar> \<le> 2 * len" using l by linarith
  have "- 131072 \<le> cdiv (x * 65536) len \<and> cdiv (x * 65536) len \<le> 131072"
    unfolding cdiv_def
  proof -
    have "\<bar>x * 65536\<bar> \<le> 131072 * len" using x by (simp add: abs_mult)
    then have "\<bar>x * 65536\<bar> div len \<le> 131072 * len div len" using l by (intro zdiv_mono1) auto
    then have q: "\<bar>x * 65536\<bar> div \<bar>len\<bar> \<le> 131072" using l by simp
    have "0 \<le> \<bar>x * 65536\<bar> div \<bar>len\<bar>" using l by (simp add: pos_imp_zdiv_nonneg_iff)
    then show "- 131072 \<le> sgn (x * 65536) * sgn len * (\<bar>x * 65536\<bar> div \<bar>len\<bar>) \<and>
        sgn (x * 65536) * sgn len * (\<bar>x * 65536\<bar> div \<bar>len\<bar>) \<le> 131072"
      using q l by (cases "x = 0"; cases "0 < x") (auto simp: sgn_if)
  qed
  then show "i32 (cdiv (x * 2 ^ 16) len) = cdiv (x * 65536) len" by simp
qed

text \<open>
  Two bounding spheres overlap when the squared distance of their centres, in 1/256 units,
  is below the squared sum of the radii; the depth reported is then positive and is this sum less
  the distance rounded down, and the normal is the offset of the centres divided by the distance
  on each axis, or straight up for concentric spheres; nothing overflows.
\<close>
theorem sphere_test_correct:
  assumes "world_vec pa" and "world_vec pb" and "0 \<le> ra" and "ra < 2 ^ 30" and "0 \<le> rb" and "rb < 2 ^ 30"
  shows "let dx = vx pb - vx pa; dy = vy pb - vy pa; dz = vz pb - vz pa; rs = (ra + rb) div 256;
      dsq = (dx div 256)\<^sup>2 + (dy div 256)\<^sup>2 + (dz div 256)\<^sup>2
    in case hx421_sphere_test pa ra pb rb of
         None \<Rightarrow> rs\<^sup>2 \<le> dsq
       | Some (n, depth) \<Rightarrow> dsq < rs\<^sup>2 \<and>
           (\<exists>len \<ge> 0. len\<^sup>2 \<le> dsq * 65536 \<and> dsq * 65536 < (len + 1)\<^sup>2 \<and> depth = ra + rb - len \<and> 0 < depth \<and>
             n = (if len = 0 then \<lparr>vx = 0, vy = 65536, vz = 0\<rparr>
                  else \<lparr>vx = cdiv (dx * 65536) len, vy = cdiv (dy * 65536) len, vz = cdiv (dz * 65536) len\<rparr>))"
proof -
  define dx dy dz where "dx = vx pb - vx pa" and "dy = vy pb - vy pa" and "dz = vz pb - vz pa"
  define rs where "rs = (ra + rb) div 256"
  define dsq where "dsq = dx div 256 * (dx div 256) + dy div 256 * (dy div 256) + dz div 256 * (dz div 256)"
  define len where "len = hx421_sqrt_q16 dsq"
  have rs: "0 \<le> rs" "rs \<le> 2 ^ 23" "256 * rs \<le> ra + rb" using assms(3-6) by (auto simp: rs_def)
  have parts: "dx div 256 * (dx div 256) \<le> dsq" "dy div 256 * (dy div 256) \<le> dsq" "dz div 256 * (dz div 256) \<le> dsq" "0 \<le> dsq"
    by (simp_all add: dsq_def)
  have test: "hx421_sphere_test pa ra pb rb =
     (if rs * rs \<le> dsq then None
      else if len = 0 then Some (\<lparr>vx = 0, vy = 65536, vz = 0\<rparr>, i32 (ra + rb))
      else Some (\<lparr>vx = i32 (cdiv (dx * 2 ^ 16) len), vy = i32 (cdiv (dy * 2 ^ 16) len),
                  vz = i32 (cdiv (dz * 2 ^ 16) len)\<rparr>, i32 (ra + rb - len)))"
    by (simp add: hx421_sphere_test_def Let_def asr_def dx_def dy_def dz_def rs_def dsq_def len_def)
  show ?thesis
  proof (cases "rs * rs \<le> dsq")
    case True
    then show ?thesis
      unfolding Let_def dx_def [symmetric] dy_def [symmetric] dz_def [symmetric] rs_def [symmetric] test
      by (simp add: power2_eq_square dsq_def)
  next
    case False
    have "rs * rs \<le> 2 ^ 23 * 2 ^ 23" using rs by (intro mult_mono) auto
    then have "dsq < 2 ^ 46" using False by simp
    note l = sqrt_q16_floor [OF parts(4) this, folded len_def]
    have "len * len < (256 * rs) * (256 * rs)" using l False by (simp add: algebra_simps)
    then have lr: "len < ra + rb" using square_le_imp [of len "256 * rs"] rs by simp
    have i: "i32 (ra + rb - len) = ra + rb - len" "i32 (ra + rb) = ra + rb" using lr l assms(3-6) by simp_all
    have n: "i32 (cdiv (dx * 2 ^ 16) len) = cdiv (dx * 65536) len" "i32 (cdiv (dy * 2 ^ 16) len) = cdiv (dy * 65536) len"
      "i32 (cdiv (dz * 2 ^ 16) len) = cdiv (dz * 65536) len" if "len \<noteq> 0"
    proof -
      have d: "0 < dsq" using that l parts(4) by (cases "dsq = 0") (auto simp: mult_le_0_iff)
      have e: "dsq * 65536 < (len + 1) * (len + 1)" "0 \<le> len" using l by auto
      show "i32 (cdiv (dx * 2 ^ 16) len) = cdiv (dx * 65536) len" "i32 (cdiv (dy * 2 ^ 16) len) = cdiv (dy * 65536) len"
        "i32 (cdiv (dz * 2 ^ 16) len) = cdiv (dz * 65536) len"
        by (rule normal_component(2) [OF parts(1) d e(2,1)], rule normal_component(2) [OF parts(2) d e(2,1)],
            rule normal_component(2) [OF parts(3) d e(2,1)])
    qed
    have sq: "(dx div 256)\<^sup>2 + (dy div 256)\<^sup>2 + (dz div 256)\<^sup>2 = dsq" by (simp add: dsq_def power2_eq_square)
    have w: "0 \<le> len" "len\<^sup>2 \<le> dsq * 65536" "dsq * 65536 < (len + 1)\<^sup>2" "0 < ra + rb - len"
      using l lr by (simp_all add: power2_eq_square)
    have res: "hx421_sphere_test pa ra pb rb = Some (if len = 0 then \<lparr>vx = 0, vy = 65536, vz = 0\<rparr>
        else \<lparr>vx = cdiv (dx * 65536) len, vy = cdiv (dy * 65536) len, vz = cdiv (dz * 65536) len\<rparr>, ra + rb - len)"
      unfolding test using False i n by simp
    have "dsq < rs\<^sup>2" using False by (simp add: power2_eq_square)
    then show ?thesis
      unfolding Let_def dx_def [symmetric] dy_def [symmetric] dz_def [symmetric] rs_def [symmetric] sq res option.case prod.case
      using w by blast
  qed
qed

theorem sphere_test_correct_witness:
  "\<exists>n. hx421_sphere_test \<lparr>vx = 0, vy = 0, vz = 0\<rparr> 65536 \<lparr>vx = 98304, vy = 0, vz = 0\<rparr> 65536 = Some (n, 32768)"
proof -
  have w: "world_vec \<lparr>vx = 0, vy = 0, vz = 0\<rparr>" "world_vec \<lparr>vx = 98304, vy = 0, vz = 0\<rparr>"
    by (simp_all add: world_vec_def world_coord_def)
  note c = sphere_test_correct [OF w, of 65536 65536]
  have len: "len = 98304" if "0 \<le> len" "len * len \<le> 9663676416" "9663676416 < (len + 1) * (len + 1)" for len :: int
    using square_le_imp [of len 98305] square_le_imp [of 98304 "len + 1"] that by simp
  show ?thesis using c by (auto simp: Let_def power2_eq_square dest: len split: option.splits prod.splits)
qed

section \<open>The broad phase\<close>

text \<open>The filter of a pair, and the pairs that are tested.\<close>

definition passes :: "scene \<Rightarrow> nat \<times> nat \<Rightarrow> bool" where
  "passes s p \<longleftrightarrow> live (sc_obj s ! fst p) \<and> live (sc_obj s ! snd p) \<and>
     accepts (sc_obj s ! fst p) (sc_obj s ! snd p) \<and> accepts (sc_obj s ! snd p) (sc_obj s ! fst p)"

definition same_kind :: "scene \<Rightarrow> nat \<times> nat \<Rightarrow> bool" where
  "same_kind s p \<longleftrightarrow> ob_kind (sc_obj s ! fst p) = ob_kind (sc_obj s ! snd p)"

definition tested :: "scene \<Rightarrow> (nat \<times> nat) list \<Rightarrow> (nat \<times> nat) list" where
  "tested s ps = filter (\<lambda>p. passes s p \<and> same_kind s p) ps"

definition overlaps :: "scene \<Rightarrow> scan_order \<Rightarrow> (nat \<times> nat) list \<Rightarrow> contact list" where
  "overlaps s order ps = List.map_filter (\<lambda>p. pair_contact s order (fst p) (snd p)) (tested s ps)"

lemma overlaps_snoc:
  "overlaps s order (ps @ [p]) = overlaps s order ps @
     (if passes s p \<and> same_kind s p
      then (case pair_contact s order (fst p) (snd p) of None \<Rightarrow> [] | Some c \<Rightarrow> [c]) else [])"
  by (simp add: overlaps_def tested_def map_filter_def split: option.splits)

lemma length_overlaps: "length (overlaps s order ps) \<le> length ps"
proof -
  have "length (overlaps s order ps) \<le> length (tested s ps)" by (simp add: overlaps_def map_filter_def)
  also have "\<dots> \<le> length ps" by (simp add: tested_def)
  finally show ?thesis .
qed

lemma broad_fold:
  assumes "length ps \<le> 4096"
  shows "foldl (broad_pair s order) \<lparr>cl_c = [], cl_overflow = 0, cl_tests = 0, cl_cross_skipped = 0\<rparr> ps =
    \<lparr>cl_c = take 64 (overlaps s order ps), cl_overflow = length (overlaps s order ps) - 64,
     cl_tests = length (tested s ps), cl_cross_skipped = length (filter (\<lambda>p. passes s p \<and> \<not> same_kind s p) ps)\<rparr>"
  using assms
proof (induction ps rule: rev_induct)
  case Nil
  show ?case by (simp add: overlaps_def tested_def map_filter_def)
next
  case (snoc p ps)
  have le: "length (tested s ps) \<le> length ps" "length (filter (\<lambda>p. passes s p \<and> \<not> same_kind s p) ps) \<le> length ps"
    by (simp_all add: tested_def)
  have l4: "length ps \<le> 4095" using snoc.prems by simp
  define st where "st = foldl (broad_pair s order) \<lparr>cl_c = [], cl_overflow = 0, cl_tests = 0, cl_cross_skipped = 0\<rparr> ps"
  have st: "st = \<lparr>cl_c = take 64 (overlaps s order ps), cl_overflow = length (overlaps s order ps) - 64,
     cl_tests = length (tested s ps), cl_cross_skipped = length (filter (\<lambda>p. passes s p \<and> \<not> same_kind s p) ps)\<rparr>"
    using snoc by (simp add: st_def)
  have fold: "foldl (broad_pair s order) \<lparr>cl_c = [], cl_overflow = 0, cl_tests = 0, cl_cross_skipped = 0\<rparr> (ps @ [p]) =
      broad_pair s order st p" by (simp add: st_def)
  have u: "u16 (length (overlaps s order ps) - 64 + 1) = length (overlaps s order ps) - 64 + 1"
    using length_overlaps [of s order ps] snoc.prems by (intro u16_id) simp
  show ?case
  proof (cases "passes s p")
    case False
    then have "broad_pair s order st p = st" by (auto simp: broad_pair_def passes_def Let_def split: prod.splits)
    then show ?thesis unfolding fold using False by (simp add: st overlaps_snoc tested_def)
  next
    case True
    show ?thesis
    proof (cases "same_kind s p")
      case False
      then have "broad_pair s order st p = st\<lparr>cl_cross_skipped := u32 (cl_cross_skipped st + 1)\<rparr>"
        using True by (auto simp: broad_pair_def passes_def same_kind_def Let_def split: prod.splits)
      moreover have "u32 (length (filter (\<lambda>p. passes s p \<and> \<not> same_kind s p) ps) + 1) =
          length (filter (\<lambda>p. passes s p \<and> \<not> same_kind s p) ps) + 1"
        using le(2) l4 by (intro u32_id) linarith
      ultimately show ?thesis unfolding fold using True False by (simp add: st overlaps_snoc tested_def)
    next
      case same: True
      define st1 where "st1 = st\<lparr>cl_tests := u32 (cl_tests st + 1)\<rparr>"
      have b: "broad_pair s order st p =
         (case pair_contact s order (fst p) (snd p) of None \<Rightarrow> st1
          | Some cand \<Rightarrow> if 64 \<le> length (cl_c st) then st1\<lparr>cl_overflow := u16 (cl_overflow st + 1)\<rparr>
              else st1\<lparr>cl_c := cl_c st @ [cand]\<rparr>)"
        using True same by (cases p) (simp add: broad_pair_def passes_def same_kind_def st1_def HX421_MAX_CONTACTS_def Let_def
            split: option.splits)
      have "u32 (length (tested s ps) + 1) = length (tested s ps) + 1"
        using le(1) l4 by (intro u32_id) linarith
      then have st1: "st1 = st\<lparr>cl_tests := length (tested s (ps @ [p]))\<rparr>"
        using True same by (simp add: st1_def st tested_def)
      show ?thesis
      proof (cases "pair_contact s order (fst p) (snd p)")
        case None
        then show ?thesis unfolding fold b st1 using True same by (simp add: st overlaps_snoc)
      next
        case (Some c)
        show ?thesis
        proof (cases "64 \<le> length (overlaps s order ps)")
          case full: True
          then have "Suc (length (overlaps s order ps) - 64) = length (overlaps s order ps) - 63" by simp
          then show ?thesis unfolding fold b st1 using True same Some u full
            by (simp add: st overlaps_snoc min_def)
        next
          case False
          then show ?thesis unfolding fold b st1 using True same Some
            by (simp add: st overlaps_snoc min_def)
        qed
      qed
    qed
  qed
qed

lemma length_object_pairs: "length object_pairs \<le> 4096"
proof -
  have "sum_list (map (\<lambda>i. 64 - Suc i) xs) \<le> length xs * 64" for xs
    by (induction xs) auto
  from this [of "[0..<64]"] show ?thesis
    by (simp add: object_pairs_def HX421_MAX_OBJ_def length_concat o_def)
qed

lemma set_object_pairs: "set object_pairs = {(i, j). i < j \<and> j < 64}"
  by (auto simp: object_pairs_def HX421_MAX_OBJ_def image_iff)

lemma distinct_object_pairs: "distinct object_pairs"
  unfolding object_pairs_def
proof (rule distinct_concat)
  have "inj_on (\<lambda>i. map (Pair i) [i + 1..<HX421_MAX_OBJ]) (set [0..<HX421_MAX_OBJ])"
    by (rule inj_onI) (auto simp: HX421_MAX_OBJ_def dest!: arg_cong [where f = length])
  then show "distinct (map (\<lambda>i. map (Pair i) [i + 1..<HX421_MAX_OBJ]) [0..<HX421_MAX_OBJ])"
    by (simp add: distinct_map)
qed (auto simp: distinct_map inj_on_def)

text \<open>
  C29: The broad phase reports exactly the pairs of active, collidable objects that accept each
  other's layer, are of one kind and overlap by the test of that kind, each pair once, in the
  order of their identifiers, up to 64; those past the cap are counted as overflow, the tests and
  the pairs of different kinds are counted too.
\<close>
theorem broadphase_exact:
  "hx421_broadphase s order =
     \<lparr>cl_c = take 64 (overlaps s order object_pairs), cl_overflow = length (overlaps s order object_pairs) - 64,
      cl_tests = length (tested s object_pairs),
      cl_cross_skipped = length (filter (\<lambda>p. passes s p \<and> \<not> same_kind s p) object_pairs)\<rparr> \<and>
   set object_pairs = {(i, j). i < j \<and> j < 64} \<and> distinct object_pairs"
  using broad_fold [OF length_object_pairs, of s order] set_object_pairs distinct_object_pairs
  by (simp add: hx421_broadphase_def)

section \<open>Boxes and the refining phases\<close>

lemma shallowest_spec:
  "shallowest fs best = Some r \<Longrightarrow> (\<forall>f \<in> set fs. 0 < snd f \<and> snd r \<le> snd f) \<and> snd r \<le> snd best \<and> r \<in> insert best (set fs)"
proof (induction fs best rule: shallowest.induct)
  case (2 ax over fs best)
  then show ?case by (auto split: if_splits)
qed simp

text \<open>
  The depth of a box overlap is the smallest of the six face overlaps, all of them positive.
\<close>

lemma obb_depth:
  assumes "hx421_obb_test pa ra ha pb rb hb = Some (n, depth)"
  defines "fs \<equiv> map snd (face_axes (obb_setup pa ra pb rb) ha hb)"
  shows "0 < depth" and "\<forall>f \<in> set fs. depth \<le> f" and "depth = 0x7FFFFFFF \<or> depth \<in> set fs"
proof -
  obtain r where r: "shallowest (face_axes (obb_setup pa ra pb rb) ha hb) ((False, 0, 1), 0x7FFFFFFF) = Some r" "depth = snd r"
    using assms(1) by (auto simp: hx421_obb_test_def Let_def split: option.splits prod.splits if_splits)
  note s = shallowest_spec [OF r(1)]
  then show "\<forall>f \<in> set fs. depth \<le> f" and "depth = 0x7FFFFFFF \<or> depth \<in> set fs" by (auto simp: fs_def r(2))
  then show "0 < depth" using s by (auto simp: fs_def)
qed

definition pair_of :: "contact \<Rightarrow> nat \<times> nat" where "pair_of c = (ct_a c, ct_b c)"

text \<open>The face overlaps of the boxes of two objects.\<close>

definition box_overlaps :: "scene \<Rightarrow> contact \<Rightarrow> int list" where
  "box_overlaps s c =
     (let a = sc_obj s ! ct_a c; b = sc_obj s ! ct_b c; ma = sc_mesh s ! ob_mesh a; mb = sc_mesh s ! ob_mesh b
      in map snd (face_axes (obb_setup (box_centre a ma) (ob_rot a) (box_centre b mb) (ob_rot b)) (ms_half ma) (ms_half mb)))"

lemma mid_contact_spec:
  assumes "mid_contact s c = Some c'"
  shows "pair_of c' = pair_of c" and "ct_kind c' = ct_kind c"
    and "ct_kind c = HX421_BODY_MASK \<Longrightarrow> c' = c"
    and "ct_kind c = HX421_BODY_MESH \<Longrightarrow> 0 < ct_depth c' \<and> (\<forall>f \<in> set (box_overlaps s c'). ct_depth c' \<le> f)"
proof -
  have "pair_of c' = pair_of c \<and> ct_kind c' = ct_kind c \<and> (ct_kind c = HX421_BODY_MASK \<longrightarrow> c' = c) \<and>
    (ct_kind c = HX421_BODY_MESH \<longrightarrow> 0 < ct_depth c' \<and> (\<forall>f \<in> set (box_overlaps s c'). ct_depth c' \<le> f))"
  proof (cases "ct_kind c")
    case HX421_BODY_MASK
    then show ?thesis using assms by (simp add: mid_contact_def)
  next
    case HX421_BODY_MESH
    let ?a = "sc_obj s ! ct_a c" and ?b = "sc_obj s ! ct_b c"
    obtain n dep where o: "hx421_obb_test (box_centre ?a (sc_mesh s ! ob_mesh ?a)) (ob_rot ?a) (ms_half (sc_mesh s ! ob_mesh ?a))
        (box_centre ?b (sc_mesh s ! ob_mesh ?b)) (ob_rot ?b) (ms_half (sc_mesh s ! ob_mesh ?b)) = Some (n, dep)"
      and c': "c' = c\<lparr>ct_normal := vneg n, ct_depth := dep\<rparr>"
      using assms HX421_BODY_MESH by (auto simp: mid_contact_def Let_def split: option.splits)
    show ?thesis using obb_depth(1,2) [OF o] HX421_BODY_MESH
      by (simp add: c' pair_of_def box_overlaps_def Let_def)
  qed
  then show "pair_of c' = pair_of c" and "ct_kind c' = ct_kind c" and "ct_kind c = HX421_BODY_MASK \<Longrightarrow> c' = c"
    and "ct_kind c = HX421_BODY_MESH \<Longrightarrow> 0 < ct_depth c' \<and> (\<forall>f \<in> set (box_overlaps s c'). ct_depth c' \<le> f)" by auto
qed

lemma midphase_subseq: "subseq (map pair_of (List.map_filter (mid_contact s) cs)) (map pair_of cs)"
proof (induction cs)
  case (Cons c cs)
  then show ?case
  proof (cases "mid_contact s c")
    case (Some c')
    then show ?thesis using Cons mid_contact_spec(1) [OF Some] by simp
  qed (simp add: list_emb_Cons)
qed simp

lemma touched_length: "length ns \<le> 4 \<Longrightarrow> length (touched rot lp limit ps ns) \<le> 4"
  by (induction rot lp limit ps ns rule: touched.induct) (simp_all add: HX421_MAX_NORMALS_def)

lemma narrow_contact_spec:
  "pair_of (narrow_contact s c) = pair_of c" "ct_kind (narrow_contact s c) = ct_kind c"
  "ct_depth (narrow_contact s c) = ct_depth c" "box_overlaps s (narrow_contact s c) = box_overlaps s c"
  "ct_kind c = HX421_BODY_MASK \<Longrightarrow> narrow_contact s c = c\<lparr>ct_normals := []\<rparr>"
  "ct_kind c = HX421_BODY_MESH \<Longrightarrow> 1 \<le> length (ct_normals (narrow_contact s c)) \<and> length (ct_normals (narrow_contact s c)) \<le> 4"
proof -
  obtain ns where n: "narrow_contact s c = c\<lparr>ct_normals := ns\<rparr>"
    and m: "ct_kind c = HX421_BODY_MESH \<Longrightarrow> 1 \<le> length ns \<and> length ns \<le> 4" and k: "ct_kind c = HX421_BODY_MASK \<Longrightarrow> ns = []"
  proof (cases "ct_kind c")
    case HX421_BODY_MESH
    let ?ns = "plane_normals (sc_obj s ! ct_a c) (sc_obj s ! ct_b c) (sc_mesh s ! ob_mesh (sc_obj s ! ct_b c))
        (ms_radius (sc_mesh s ! ob_mesh (sc_obj s ! ct_a c)))"
    have "narrow_contact s c = c\<lparr>ct_normals := if ?ns = [] then [ct_normal c] else ?ns\<rparr>"
      using HX421_BODY_MESH by (simp add: narrow_contact_def Let_def)
    moreover have "length ?ns \<le> 4" by (simp add: plane_normals_def Let_def touched_length)
    ultimately show thesis using that HX421_BODY_MESH by (auto simp: Suc_le_eq)
  next
    case HX421_BODY_MASK
    then show thesis by (intro that [of "[]"]) (simp_all add: narrow_contact_def Let_def)
  qed
  show "pair_of (narrow_contact s c) = pair_of c" "ct_kind (narrow_contact s c) = ct_kind c"
    "ct_depth (narrow_contact s c) = ct_depth c" "box_overlaps s (narrow_contact s c) = box_overlaps s c"
    "ct_kind c = HX421_BODY_MASK \<Longrightarrow> narrow_contact s c = c\<lparr>ct_normals := []\<rparr>"
    "ct_kind c = HX421_BODY_MESH \<Longrightarrow> 1 \<le> length (ct_normals (narrow_contact s c)) \<and> length (ct_normals (narrow_contact s c)) \<le> 4"
    using m k by (simp_all add: n pair_of_def box_overlaps_def)
qed

text \<open>What a contact of the broad phase says about its two objects.\<close>

lemma pair_contact_spec:
  assumes "pair_contact s order i j = Some c" and "i < 64" and "j < 64"
  shows "pair_of c = (i, j)" and "ct_kind c = ob_kind (sc_obj s ! i)"
proof -
  have "pair_of c = (i, j) \<and> ct_kind c = ob_kind (sc_obj s ! i)"
    using assms by (auto simp: pair_contact_def pair_of_def Let_def split: if_splits option.splits)
  then show "pair_of c = (i, j)" and "ct_kind c = ob_kind (sc_obj s ! i)" by auto
qed

lemma broad_contact:
  assumes "c \<in> set (cl_c (hx421_broadphase s order))"
  shows "ct_a c < ct_b c" "ct_b c < 64" "passes s (pair_of c)" "ob_kind (sc_obj s ! ct_a c) = ct_kind c"
    "ob_kind (sc_obj s ! ct_b c) = ct_kind c"
proof -
  have "c \<in> set (overlaps s order object_pairs)"
    using assms broad_fold [OF length_object_pairs, of s order] by (auto simp: hx421_broadphase_def dest: in_set_takeD)
  then obtain p where p: "p \<in> set object_pairs" "passes s p" "same_kind s p" "pair_contact s order (fst p) (snd p) = Some c"
    by (auto simp: overlaps_def tested_def map_filter_def)
  then have b: "fst p < snd p" "snd p < 64" "fst p < 64" by (auto simp: set_object_pairs)
  note c = pair_contact_spec [OF p(4) b(3,2)]
  have ab: "fst p = ct_a c" "snd p = ct_b c" using c(1) by (auto simp: pair_of_def)
  have pass: "passes s (pair_of c)" using p(2) c(1) by simp
  show "ct_a c < ct_b c" "ct_b c < 64" "passes s (pair_of c)" "ob_kind (sc_obj s ! ct_a c) = ct_kind c"
    "ob_kind (sc_obj s ! ct_b c) = ct_kind c"
    using b c(2) p(3) ab pass by (simp_all add: same_kind_def)
qed

text \<open>
  C30: In a scene built by registry commands, the three phases in sequence deliver usable
  contacts: they are, in order, some of the broad phase's pairs; each names two different live
  objects of its kind that accept each other and whose meshes or masks are registered; a mesh
  contact has a positive depth, no greater than any of the six face overlaps of the two boxes,
  and between one and four normals; a mask contact is the broad phase's.
\<close>
theorem contact_pipeline:
  assumes "scene_reach s"
  shows "let b = hx421_broadphase s order; n = hx421_narrowphase s (hx421_midphase s b) in
    subseq (map pair_of (cl_c n)) (map pair_of (cl_c b)) \<and>
    (\<forall>c \<in> set (cl_c n). ct_a c < ct_b c \<and> ct_b c < 64 \<and> passes s (pair_of c) \<and>
       (\<forall>ob \<in> {sc_obj s ! ct_a c, sc_obj s ! ct_b c}. ob_kind ob = ct_kind c \<and>
          (case ct_kind c of HX421_BODY_MESH \<Rightarrow> ob_mesh ob < sc_mesh_count s
                           | HX421_BODY_MASK \<Rightarrow> ob_mask_id ob < sc_mask_count s)) \<and>
       (case ct_kind c of
          HX421_BODY_MESH \<Rightarrow> 0 < ct_depth c \<and> (\<forall>f \<in> set (box_overlaps s c). ct_depth c \<le> f) \<and>
            1 \<le> length (ct_normals c) \<and> length (ct_normals c) \<le> 4
        | HX421_BODY_MASK \<Rightarrow> \<exists>c0 \<in> set (cl_c b). c = c0\<lparr>ct_normals := []\<rparr>))"
proof -
  define b where "b = hx421_broadphase s order"
  define n where "n = hx421_narrowphase s (hx421_midphase s b)"
  have cs: "cl_c n = map (narrow_contact s) (List.map_filter (mid_contact s) (cl_c b))"
    by (simp add: n_def hx421_narrowphase_def hx421_midphase_def)
  have "map pair_of (cl_c n) = map pair_of (List.map_filter (mid_contact s) (cl_c b))"
    by (simp add: cs narrow_contact_spec(1))
  then have sub: "subseq (map pair_of (cl_c n)) (map pair_of (cl_c b))" using midphase_subseq by simp
  have ok: "scene_ok s" using assms by (rule scene_reach_ok)
  have each: "ct_a c < ct_b c \<and> ct_b c < 64 \<and> passes s (pair_of c) \<and>
       (\<forall>ob \<in> {sc_obj s ! ct_a c, sc_obj s ! ct_b c}. ob_kind ob = ct_kind c \<and>
          (case ct_kind c of HX421_BODY_MESH \<Rightarrow> ob_mesh ob < sc_mesh_count s
                           | HX421_BODY_MASK \<Rightarrow> ob_mask_id ob < sc_mask_count s)) \<and>
       (case ct_kind c of
          HX421_BODY_MESH \<Rightarrow> 0 < ct_depth c \<and> (\<forall>f \<in> set (box_overlaps s c). ct_depth c \<le> f) \<and>
            1 \<le> length (ct_normals c) \<and> length (ct_normals c) \<le> 4
        | HX421_BODY_MASK \<Rightarrow> \<exists>c0 \<in> set (cl_c b). c = c0\<lparr>ct_normals := []\<rparr>)"
    if "c \<in> set (cl_c n)" for c
  proof -
    from that obtain c0 c1 where c0: "c0 \<in> set (cl_c b)" "mid_contact s c0 = Some c1" "c = narrow_contact s c1"
      by (auto simp: cs map_filter_def)
    have p: "pair_of c = pair_of c0" "ct_kind c = ct_kind c0"
      using mid_contact_spec(1,2) [OF c0(2)] by (simp_all add: c0(3) narrow_contact_spec)
    then have ab: "ct_a c = ct_a c0" "ct_b c = ct_b c0" by (simp_all add: pair_of_def)
    note bc = broad_contact [OF c0(1) [unfolded b_def]]
    have mem: "sc_obj s ! ct_a c0 \<in> set (sc_obj s)" "sc_obj s ! ct_b c0 \<in> set (sc_obj s)"
      using bc(1,2) ok by (simp_all add: scene_ok_def HX421_MAX_OBJ_def)
    then have e: "entry_ok s (sc_obj s ! ct_a c0)" "entry_ok s (sc_obj s ! ct_b c0)" using ok by (auto simp: scene_ok_def)
    have live: "ob_active (sc_obj s ! ct_a c0)" "ob_active (sc_obj s ! ct_b c0)"
      using bc(3) by (simp_all add: passes_def live_def pair_of_def)
    show ?thesis
    proof (cases "ct_kind c")
      case HX421_BODY_MESH
      then have k: "ct_kind c0 = HX421_BODY_MESH" "ct_kind c1 = HX421_BODY_MESH"
        using p(2) mid_contact_spec(2) [OF c0(2)] by simp_all
      have "0 < ct_depth c \<and> (\<forall>f \<in> set (box_overlaps s c). ct_depth c \<le> f)"
        using mid_contact_spec(4) [OF c0(2) k(1)] by (simp add: c0(3) narrow_contact_spec)
      moreover have "1 \<le> length (ct_normals c) \<and> length (ct_normals c) \<le> 4"
        using narrow_contact_spec(6) [OF k(2)] by (simp add: c0(3))
      ultimately show ?thesis using bc e live p k by (simp add: ab HX421_BODY_MESH entry_ok_def)
    next
      case HX421_BODY_MASK
      then have k: "ct_kind c0 = HX421_BODY_MASK" "ct_kind c1 = HX421_BODY_MASK"
        using p(2) mid_contact_spec(2) [OF c0(2)] by simp_all
      then have "c = c0\<lparr>ct_normals := []\<rparr>"
        using mid_contact_spec(3) [OF c0(2) k(1)] narrow_contact_spec(5) [OF k(2)] by (simp add: c0(3))
      then have "\<exists>c0 \<in> set (cl_c b). c = c0\<lparr>ct_normals := []\<rparr>" using c0(1) by blast
      then show ?thesis using bc e live p k by (simp add: ab HX421_BODY_MASK entry_ok_def)
    qed
  qed
  show ?thesis unfolding Let_def b_def [symmetric] n_def [symmetric] using sub each by blast
qed

definition duo_half :: vec where "duo_half = \<lparr>vx = 65536, vy = 65536, vz = 65536\<rparr>"

definition duo_mesh :: mesh where
  "duo_mesh = demo_mesh\<lparr>ms_half := duo_half\<rparr>"

text \<open>Two boxes at the same place.\<close>

definition duo_scene :: scene where
  "duo_scene = snd (hx421_object_spawn (snd (hx421_object_spawn
     (snd (hx421_mesh_register (hx421_scene_init blank_scene) duo_mesh)) 0)) 0)"

lemma duo_scene_reach: "scene_reach duo_scene"
  unfolding duo_scene_def
  by (intro scene_reach.intros)
    (simp_all add: blank_scene_def HX421_MAX_MESH_def HX421_MAX_MASK_def HX421_MAX_OBJ_def HX421_MAX_CAM_def Let_def)

lemma duo_scene_sel:
  "sc_mesh duo_scene ! 0 = duo_mesh"
  "sc_obj duo_scene = demo_object\<lparr>ob_pos := vzero\<rparr> # demo_object\<lparr>ob_pos := vzero\<rparr> # replicate 62 idle_object"
proof -
  define s0 where "s0 = snd (hx421_mesh_register (hx421_scene_init blank_scene) duo_mesh)"
  have s0: "sc_mesh s0 ! 0 = duo_mesh" "sc_mesh_count s0 = 1"
    "sc_obj s0 = idle_object # idle_object # replicate 62 idle_object"
    by (simp_all add: s0_def blank_scene_def hx421_scene_init_def hx421_mesh_register_def HX421_MAX_MESH_def
        Let_def idle_object_def)
  have sp0: "spawn_slot s0 = (Some 0, s0\<lparr>sc_obj := demo_object\<lparr>ob_pos := vzero\<rparr> # idle_object # replicate 62 idle_object\<rparr>)"
    using s0(3) by (simp add: spawn_slot_def) (simp add: idle_object_def demo_object_def)
  define s1 where "s1 = snd (hx421_object_spawn s0 0)"
  have s1: "sc_mesh s1 ! 0 = duo_mesh" "sc_mesh_count s1 = 1"
    "sc_obj s1 = demo_object\<lparr>ob_pos := vzero\<rparr> # idle_object # replicate 62 idle_object"
    unfolding s1_def hx421_object_spawn_def sp0 using s0 by (simp_all add: demo_object_def)
  have sp1: "spawn_slot s1 = (Some 1, s1\<lparr>sc_obj := demo_object\<lparr>ob_pos := vzero\<rparr> # demo_object\<lparr>ob_pos := vzero\<rparr> #
      replicate 62 idle_object\<rparr>)"
    using s1(3) by (simp add: spawn_slot_def) (simp add: idle_object_def demo_object_def)
  have d: "duo_scene = snd (hx421_object_spawn s1 0)" unfolding duo_scene_def s1_def s0_def ..
  show "sc_mesh duo_scene ! 0 = duo_mesh"
    "sc_obj duo_scene = demo_object\<lparr>ob_pos := vzero\<rparr> # demo_object\<lparr>ob_pos := vzero\<rparr> # replicate 62 idle_object"
    unfolding d hx421_object_spawn_def sp1 using s1 by (simp_all add: demo_object_def)
qed

lemma upt3: "[0..<3] = [0, 1, 2]"
  by code_simp
definition duo_frame :: obb_frame where
  "duo_frame = \<lparr>of_R = [32768, 0, 0, 0, 32768, 0, 0, 0, 32768],
     of_absR = [32784, 16, 16, 16, 32784, 16, 16, 16, 32784], of_t = [0, 0, 0]\<rparr>"
lemma duo_setup: "obb_setup vzero mat_identity vzero mat_identity = duo_frame"
  by (simp add: obb_setup_def duo_frame_def mat_row_def mat_identity_def qm15_def qabs_def dot_q15_q16_def asr_def
      vzero_def upt3)

lemma duo_frame_sel: "of_R duo_frame = [32768, 0, 0, 0, 32768, 0, 0, 0, 32768]"
  "of_absR duo_frame = [32784, 16, 16, 16, 32784, 16, 16, 16, 32784]" "of_t duo_frame = [0, 0, 0]"
  by (simp_all add: duo_frame_def)

lemma duo_half_at: "vec_at duo_half i = 65536"
  by (simp add: duo_half_def vec_at_def)

lemma duo_num: "qm15 65536 32784 = 65568" "qm15 65536 16 = 32" "qm15 0 x = 0" "qabs 0 = 0"
  "i32 65632 = 65632" "i32 131168 = 131168" "i32 65600 = 65600" "i32 131200 = 131200" "i32 0 = 0" "i32 64 = 64" "i32 128 = 128"
  by (simp_all add: qm15_def qabs_def asr_def i32_def)

lemma duo_faces: "face_axes duo_frame duo_half duo_half =
  [((False, 0, 1), 131168), ((False, 1, 1), 131168), ((False, 2, 1), 131168),
   ((True, 0, 1), 131168), ((True, 1, 1), 131168), ((True, 2, 1), 131168)]"
  unfolding face_axes_def upt3 face_a_def face_b_def Let_def duo_frame_sel duo_half_at
  by (simp add: duo_num)

lemma duo_edges:
  "\<forall>p \<in> set (List.product [0..<3] [0..<3]). \<not> edge_gap duo_frame duo_half duo_half p"
  unfolding edge_gap_def upt3 Let_def duo_frame_sel duo_half_at
  by (simp add: duo_num)
lemma duo_boxes:
  "hx421_obb_test (box_centre (demo_object\<lparr>ob_pos := vzero\<rparr>) duo_mesh) mat_identity (ms_half duo_mesh)
     (box_centre (demo_object\<lparr>ob_pos := vzero\<rparr>) duo_mesh) mat_identity (ms_half duo_mesh) \<noteq> None"
proof -
  have c: "box_centre (demo_object\<lparr>ob_pos := vzero\<rparr>) duo_mesh = vzero"
    by (simp add: box_centre_def demo_object_def duo_mesh_def demo_mesh_def rot_apply_def mat_identity_def asr_def vzero_def)
  have h: "ms_half duo_mesh = duo_half" by (simp add: duo_mesh_def)
  have b: "(\<exists>p \<in> set (List.product [0..<3] [0..<3]). edge_gap duo_frame duo_half duo_half p) = False" using duo_edges by blast
  show ?thesis unfolding c h hx421_obb_test_def duo_setup Let_def duo_faces b by simp
qed

theorem contact_pipeline_witness:
  "\<exists>c \<in> set (cl_c (hx421_narrowphase duo_scene (hx421_midphase duo_scene (hx421_broadphase duo_scene HX421_SCAN_TOPLEFT)))).
     1 \<le> length (ct_normals c) \<and> ct_a c < ct_b c"
proof -
  let ?s = "duo_scene" and ?o = "HX421_SCAN_TOPLEFT"
  let ?b = "hx421_broadphase ?s ?o"
  have o: "sc_obj ?s ! 0 = demo_object\<lparr>ob_pos := vzero\<rparr>" "sc_obj ?s ! 1 = demo_object\<lparr>ob_pos := vzero\<rparr>"
    by (simp_all add: duo_scene_sel(2))
  have sph: "hx421_sphere_test vzero (ms_radius duo_mesh) vzero (ms_radius duo_mesh) \<noteq> None"
    unfolding duo_mesh_def by (simp add: hx421_sphere_test_def demo_mesh_def vzero_def asr_def hx421_sqrt_q16_def)
  have "ob_kind (demo_object\<lparr>ob_pos := vzero\<rparr>) = HX421_BODY_MESH" "ob_mesh (demo_object\<lparr>ob_pos := vzero\<rparr>) = 0"
    by (simp_all add: demo_object_def)
  then have pc: "pair_contact ?s ?o 0 1 \<noteq> None"
    using sph unfolding pair_contact_def o Let_def by (auto simp: duo_scene_sel(1))
  have "accepts (demo_object\<lparr>ob_pos := vzero\<rparr>) (demo_object\<lparr>ob_pos := vzero\<rparr>)" by code_simp
  moreover have "live (demo_object\<lparr>ob_pos := vzero\<rparr>)" by (simp add: live_def demo_object_def)
  ultimately have "passes ?s (0, 1) \<and> same_kind ?s (0, 1)"
    unfolding passes_def same_kind_def fst_conv snd_conv prod.case o by blast
  then have "overlaps ?s ?o object_pairs \<noteq> []"
    using pc set_object_pairs by (auto simp: overlaps_def tested_def map_filter_def filter_empty_conv)
  then obtain c where c: "c \<in> set (cl_c ?b)"
    using broad_fold [OF length_object_pairs, of ?s ?o] by (cases "overlaps ?s ?o object_pairs") (auto simp: hx421_broadphase_def)
  note bc = broad_contact [OF c]
  have "ob_active (sc_obj ?s ! ct_b c)" using bc(3) by (simp add: passes_def live_def pair_of_def)
  then have "ct_b c < 2"
    using bc(2) by (cases "ct_b c < 2") (auto simp: duo_scene_sel(2) nth_Cons' idle_object_def split: if_splits)
  then have ab: "ct_a c = 0" "ct_b c = 1" using bc(1) by auto
  have "mid_contact ?s c \<noteq> None"
    using duo_boxes bc(4) unfolding mid_contact_def ab o Let_def
    by (simp add: duo_scene_sel(1) demo_object_def split: option.splits)
  then obtain c1 where "mid_contact ?s c = Some c1" by blast
  then have "narrow_contact ?s c1 \<in> set (cl_c (hx421_narrowphase ?s (hx421_midphase ?s ?b)))"
    using c by (auto simp: hx421_narrowphase_def hx421_midphase_def map_filter_def intro!: image_eqI [where x = c])
  moreover have "ct_kind (narrow_contact ?s c1) = HX421_BODY_MESH"
    using mid_contact_spec(2) [OF \<open>mid_contact ?s c = Some c1\<close>] bc(4) by (simp add: narrow_contact_spec ab o demo_object_def)
  ultimately show ?thesis using contact_pipeline [OF duo_scene_reach, of ?o] unfolding Let_def by force
qed

end
