(* ===== verification/Collide_Response.thy ===== *)
theory Collide_Response
  imports Collide_Spec "HOL-Library.Multiset"
begin

text \<open>
  The two ends of a deflection: the set of planes that \<^verbatim>\<open>hx421_mesh_fit_planes\<close> derives for
  a mesh (which faces it represents, how the planes are ranked and cut), and the velocity that
  \<^verbatim>\<open>hx421_resolve\<close> returns for a list of contact normals.
\<close>

section \<open>Plane sets\<close>

text \<open>Two planes that the merge takes for one: the same direction and the same offset.\<close>

definition merges :: "plane \<Rightarrow> plane \<Rightarrow> bool" where
  "merges p q \<longleftrightarrow> 65100 \<le> dot16 (pl_n p) (pl_n q) \<and>
     (let dd = i32 (pl_d p - pl_d q) in (if dd < 0 then i32 (- dd) else dd) \<le> 1024)"

lemma merge_at_None_iff: "merge_at nrm d ps = None \<longleftrightarrow> (\<forall>p \<in> set ps. \<not> merges (fst p) \<lparr>pl_n = nrm, pl_d = d\<rparr>)"
  by (induction ps) (auto simp: merges_def Let_def not_le)

lemma merge_at_Some:
  assumes "merge_at nrm d ps = Some k"
  shows "k < length ps"
  using assms by (induction ps arbitrary: k) (auto simp: Let_def split: if_splits)

lemma merges_sym: "merges p q \<longleftrightarrow> merges q p"
proof -
  have dot: "dot16 (pl_n p) (pl_n q) = dot16 (pl_n q) (pl_n p)"
    by (simp add: dot16_def mult.commute)
  have flip: "(if i32 x < 0 then i32 (- i32 x) else i32 x) = (if i32 (- x) < 0 then i32 (- i32 (- x)) else i32 (- x))" for x
  proof -
    have "(y - 2147483648) mod 4294967296 = (y + 2147483648) mod 4294967296" for y :: int
      using mod_add_self2 [of "y - 2147483648" 4294967296] by (simp add: add.commute)
    then have z: "i32 (- x) = i32 (- i32 x)" by (simp add: i32_def mod_simps)
    have y: "- 2147483648 \<le> i32 x" "i32 x \<le> 2147483647" by (simp_all add: i32_def)
    show ?thesis
    proof (cases "i32 x = - 2147483648")
      case True
      moreover have "i32 2147483648 = - 2147483648" by (simp add: i32_def)
      ultimately show ?thesis by (simp add: z)
    next
      case False
      then have "i32 (- i32 x) = - i32 x" using y by (intro i32_id) auto
      then show ?thesis using y by (auto simp: z)
    qed
  qed
  show ?thesis unfolding merges_def Let_def dot
    using flip [of "pl_d p - pl_d q"] by (simp add: minus_diff_eq)
qed

text \<open>The usable faces: the direction, the plane and the doubled area of a triangle.\<close>

definition face_plane :: "vec list \<Rightarrow> nat list \<Rightarrow> nat \<Rightarrow> (plane \<times> int) option" where
  "face_plane verts faces f =
     (let v0 = verts ! (faces ! (f * 3)); v1 = verts ! (faces ! (f * 3 + 1)); v2 = verts ! (faces ! (f * 3 + 2));
          cr = cross16 (vsub3 v1 v0) (vsub3 v2 v0)
      in map_option (\<lambda>n. (\<lparr>pl_n = n, pl_d = dot16 n v0\<rparr>, len16 cr)) (normalize16 cr))"

lemma fit_face_cases:
  obtains (skip) "face_plane verts faces f = None" "fit_face verts faces ps f = ps"
  | (merge) p a k where "face_plane verts faces f = Some (p, a)" "k < length ps" "merge_at (pl_n p) (pl_d p) ps = Some k"
      "fit_face verts faces ps f = ps[k := (fst (ps ! k), snd (ps ! k) + a)]"
  | (new) p a where "face_plane verts faces f = Some (p, a)" "\<forall>q \<in> set ps. \<not> merges (fst q) p" "length ps < 12"
      "fit_face verts faces ps f = ps @ [(p, a)]"
  | (full) p a where "face_plane verts faces f = Some (p, a)" "\<forall>q \<in> set ps. \<not> merges (fst q) p" "12 \<le> length ps"
      "fit_face verts faces ps f = ps"
proof (cases "face_plane verts faces f")
  case None
  then show thesis by (intro that(1)) (auto simp: fit_face_def face_plane_def Let_def split: option.splits)
next
  case (Some pa)
  obtain p a where pa: "pa = (p, a)" by (cases pa)
  have s: "fit_face verts faces ps f =
      (case merge_at (pl_n p) (pl_d p) ps of
         Some k \<Rightarrow> ps[k := (fst (ps ! k), snd (ps ! k) + a)]
       | None \<Rightarrow> if length ps < 12 then ps @ [(p, a)] else ps)"
    using Some by (auto simp: pa fit_face_def face_plane_def Let_def HX421_MAX_PLANES_def split: option.splits)
  show thesis
  proof (cases "merge_at (pl_n p) (pl_d p) ps")
    case None
    moreover have "\<lparr>pl_n = pl_n p, pl_d = pl_d p\<rparr> = p" by (cases p) simp
    ultimately have "\<forall>q \<in> set ps. \<not> merges (fst q) p" by (simp add: merge_at_None_iff)
    then show thesis using that(3,4) Some None by (cases "length ps < 12") (auto simp: s pa)
  next
    case (Some k)
    then show thesis using that(2) \<open>face_plane verts faces f = Some pa\<close> merge_at_Some [OF Some] by (auto simp: s pa)
  qed
qed

text \<open>What the collection of planes keeps: at most twelve, none of which merges with another.\<close>

definition apart :: "plane list \<Rightarrow> bool" where
  "apart ps \<longleftrightarrow> (\<forall>i j. i < length ps \<longrightarrow> j < length ps \<longrightarrow> i \<noteq> j \<longrightarrow> \<not> merges (ps ! i) (ps ! j))"

lemma apart_swap:
  assumes "apart ps" and "i < length ps" and "j < length ps"
  shows "apart (ps[i := ps ! j, j := ps ! i])"
  using assms unfolding apart_def by (auto simp: nth_list_update)

lemma apart_take: "apart ps \<Longrightarrow> apart (take n ps)"
  by (simp add: apart_def)

text \<open>
  The founders among the first \<open>n\<close> faces: going through the usable faces in their order, a face founds a
  plane when it merges with no earlier founder's and fewer than twelve planes are there.  A face
  belongs to the plane it founds, and else to the first earlier founder it merges with.
\<close>

definition usable :: "vec list \<Rightarrow> nat list \<Rightarrow> nat \<Rightarrow> bool" where
  "usable verts faces f \<longleftrightarrow> face_plane verts faces f \<noteq> None"

definition plane_of :: "vec list \<Rightarrow> nat list \<Rightarrow> nat \<Rightarrow> plane" where
  "plane_of verts faces f = (case face_plane verts faces f of Some (p, a) \<Rightarrow> p | None \<Rightarrow> \<lparr>pl_n = vzero, pl_d = 0\<rparr>)"

definition area_of :: "vec list \<Rightarrow> nat list \<Rightarrow> nat \<Rightarrow> int" where
  "area_of verts faces f = (case face_plane verts faces f of Some (p, a) \<Rightarrow> a | None \<Rightarrow> 0)"

definition founders :: "vec list \<Rightarrow> nat list \<Rightarrow> nat \<Rightarrow> nat list \<Rightarrow> bool" where
  "founders verts faces n gs \<longleftrightarrow> sorted_wrt (<) gs \<and> (\<forall>g \<in> set gs. g < n \<and> usable verts faces g) \<and> length gs \<le> 12 \<and>
     (\<forall>f < n. usable verts faces f \<longrightarrow>
        (f \<in> set gs \<longleftrightarrow> (\<forall>g \<in> set gs. g < f \<longrightarrow> \<not> merges (plane_of verts faces g) (plane_of verts faces f)) \<and>
           length (filter (\<lambda>g. g < f) gs) < 12))"

definition belongs :: "vec list \<Rightarrow> nat list \<Rightarrow> nat list \<Rightarrow> nat \<Rightarrow> nat \<Rightarrow> bool" where
  "belongs verts faces gs f g \<longleftrightarrow> f = g \<or>
     g < f \<and> merges (plane_of verts faces g) (plane_of verts faces f) \<and>
     (\<forall>h \<in> set gs. h < g \<longrightarrow> \<not> merges (plane_of verts faces h) (plane_of verts faces f))"

definition plane_area :: "vec list \<Rightarrow> nat list \<Rightarrow> nat \<Rightarrow> nat list \<Rightarrow> nat \<Rightarrow> int" where
  "plane_area verts faces n gs g =
     sum_list (map (area_of verts faces) (filter (\<lambda>f. usable verts faces f \<and> belongs verts faces gs f g) [0..<n]))"

lemma merge_at_first:
  "merge_at (pl_n p) (pl_d p) ps = Some k \<Longrightarrow> merges (fst (ps ! k)) p \<and> (\<forall>i < k. \<not> merges (fst (ps ! i)) p)"
proof (induction ps arbitrary: k)
  case (Cons q ps)
  have hd: "merges (fst q) p \<longleftrightarrow> k = 0"
    using Cons.prems by (auto simp: merges_def Let_def not_less split: if_splits)
  show ?case
  proof (cases k)
    case 0
    then show ?thesis using hd by simp
  next
    case (Suc l)
    then have "merge_at (pl_n p) (pl_d p) ps = Some l" using Cons.prems by (auto simp: Let_def split: if_splits)
    from Cons.IH [OF this] show ?thesis using Suc hd by (auto simp: less_Suc_eq_0_disj)
  qed
qed simp

text \<open>The planes found so far are those of the founders, each with the area of the faces that belong to it.\<close>

definition gathered :: "vec list \<Rightarrow> nat list \<Rightarrow> nat \<Rightarrow> nat list \<Rightarrow> (plane \<times> int) list \<Rightarrow> bool" where
  "gathered verts faces n gs ps \<longleftrightarrow> founders verts faces n gs \<and>
     ps = map (\<lambda>g. (plane_of verts faces g, plane_area verts faces n gs g)) gs"

lemma foundersD:
  assumes "founders verts faces n gs" and "f < n" and "usable verts faces f"
  shows "f \<in> set gs \<longleftrightarrow> (\<forall>g \<in> set gs. g < f \<longrightarrow> \<not> merges (plane_of verts faces g) (plane_of verts faces f)) \<and>
    length (filter (\<lambda>g. g < f) gs) < 12"
  using assms by (simp add: founders_def)

lemma founders_same:
  assumes "founders verts faces n gs"
    and "usable verts faces n \<Longrightarrow> (\<exists>g \<in> set gs. merges (plane_of verts faces g) (plane_of verts faces n)) \<or> 12 \<le> length gs"
  shows "founders verts faces (Suc n) gs"
proof -
  have lt: "\<forall>g \<in> set gs. g < n" using assms(1) by (simp add: founders_def)
  then have "filter (\<lambda>g. g < n) gs = gs" by (simp add: filter_id_conv)
  then have "n \<notin> set gs \<and> (usable verts faces n \<longrightarrow>
      \<not> ((\<forall>g \<in> set gs. g < n \<longrightarrow> \<not> merges (plane_of verts faces g) (plane_of verts faces n)) \<and> length (filter (\<lambda>g. g < n) gs) < 12))"
    using assms(2) lt by fastforce
  then show ?thesis using assms(1) unfolding founders_def by (auto simp: less_Suc_eq)
qed

lemma founders_new:
  assumes "founders verts faces n gs" and "usable verts faces n" and "length gs < 12"
    and "\<forall>g \<in> set gs. \<not> merges (plane_of verts faces g) (plane_of verts faces n)"
  shows "founders verts faces (Suc n) (gs @ [n])"
proof -
  have lt: "\<forall>g \<in> set gs. g < n" using assms(1) by (simp add: founders_def)
  then have "filter (\<lambda>g. g < n) gs = gs" by (simp add: filter_id_conv)
  then have room: "length (filter (\<lambda>g. g < n) (gs @ [n])) < 12" using assms(3) by simp
  have "f \<in> set (gs @ [n]) \<longleftrightarrow>
      (\<forall>g \<in> set (gs @ [n]). g < f \<longrightarrow> \<not> merges (plane_of verts faces g) (plane_of verts faces f)) \<and>
      length (filter (\<lambda>g. g < f) (gs @ [n])) < 12" if f: "f < Suc n" "usable verts faces f" for f
  proof (cases "f = n")
    case True
    then show ?thesis using assms(4) room by simp
  next
    case False
    then have "f < n" using f(1) by simp
    then show ?thesis using foundersD [OF assms(1) _ f(2)] by simp
  qed
  moreover have "sorted_wrt (<) (gs @ [n])" "length (gs @ [n]) \<le> 12" "\<forall>g \<in> set (gs @ [n]). g < Suc n \<and> usable verts faces g"
    using assms(1-3) lt by (auto simp: founders_def sorted_wrt_append)
  ultimately show ?thesis unfolding founders_def by blast
qed

lemma plane_area_Suc:
  "plane_area verts faces (Suc n) gs g =
     plane_area verts faces n gs g + (if usable verts faces n \<and> belongs verts faces gs n g then area_of verts faces n else 0)"
  by (simp add: plane_area_def)

lemma belongs_snoc:
  assumes "g < n"
  shows "belongs verts faces (gs @ [n]) f g = belongs verts faces gs f g"
  using assms by (auto simp: belongs_def)

lemma plane_area_founder:
  "plane_area verts faces n (gs @ [n]) n = 0"
  by (auto simp: plane_area_def belongs_def filter_empty_conv)

lemma fit_face_gathered:
  assumes "gathered verts faces n gs ps"
  shows "\<exists>gs'. gathered verts faces (Suc n) gs' (fit_face verts faces ps n)"
proof -
  let ?pl = "plane_of verts faces" and ?ar = "plane_area verts faces"
  have fo: "founders verts faces n gs" and ps: "ps = map (\<lambda>g. (?pl g, ?ar n gs g)) gs"
    using assms by (simp_all add: gathered_def)
  have lt: "g < n" if "g \<in> set gs" for g using fo that by (simp add: founders_def)
  have less: "gs ! i < gs ! j" if "i < j" "j < length gs" for i j
    using fo that by (simp add: founders_def sorted_wrt_nth_less)
  show ?thesis
  proof (cases rule: fit_face_cases [of verts faces n ps])
    case skip
    then have "\<not> usable verts faces n" by (simp add: usable_def)
    then have "gathered verts faces (Suc n) gs ps"
      using founders_same [OF fo] ps by (simp add: gathered_def plane_area_Suc)
    then show ?thesis using skip by metis
  next
    case (merge p a k)
    have n: "usable verts faces n" "?pl n = p" "area_of verts faces n = a"
      using merge(1) by (simp_all add: usable_def plane_of_def area_of_def)
    have k: "k < length gs" using merge(2) ps by simp
    note m = merge_at_first [OF merge(3)]
    have first: "merges (?pl (gs ! k)) p" "\<And>i. i < k \<Longrightarrow> \<not> merges (?pl (gs ! i)) p" using m k ps by auto
    have own: "belongs verts faces gs n (gs ! i) \<longleftrightarrow> i = k" if i: "i < length gs" for i
    proof (cases i k rule: linorder_cases)
      case less
      then show ?thesis using first(2) lt [of "gs ! i"] i by (auto simp: belongs_def n)
    next
      case equal
      have "\<not> merges (?pl h) p" if h: "h \<in> set gs" "h < gs ! k" for h
      proof -
        obtain j where j: "j < length gs" "h = gs ! j" using h(1) by (auto simp: in_set_conv_nth)
        have "j < k"
        proof (rule ccontr)
          assume "\<not> j < k"
          then show False using h(2) j \<open>\<And>i j. i < j \<Longrightarrow> j < length gs \<Longrightarrow> gs ! i < gs ! j\<close> [of k j] by (cases "j = k") auto
        qed
        then show ?thesis using first(2) j(2) by simp
      qed
      then show ?thesis using equal first(1) lt [of "gs ! k"] k by (auto simp: belongs_def n)
    next
      case greater
      then have "gs ! k < gs ! i" using i \<open>\<And>i j. i < j \<Longrightarrow> j < length gs \<Longrightarrow> gs ! i < gs ! j\<close> by blast
      then show ?thesis using greater first(1) lt [of "gs ! i"] i k by (auto simp: belongs_def n)
    qed
    have "fit_face verts faces ps n = map (\<lambda>g. (?pl g, ?ar (Suc n) gs g)) gs"
      unfolding merge(4)
    proof (rule nth_equalityI)
      fix i assume "i < length (ps[k := (fst (ps ! k), snd (ps ! k) + a)])"
      then have "i < length gs" using ps by simp
      then show "ps[k := (fst (ps ! k), snd (ps ! k) + a)] ! i = map (\<lambda>g. (?pl g, ?ar (Suc n) gs g)) gs ! i"
        using own [of i] k n by (simp add: ps plane_area_Suc nth_list_update)
    qed (simp add: ps)
    moreover have "founders verts faces (Suc n) gs"
      using founders_same [OF fo] first(1) k n(2) by (metis nth_mem)
    ultimately show ?thesis unfolding gathered_def by blast
  next
    case (new p a)
    have n: "usable verts faces n" "?pl n = p" "area_of verts faces n = a"
      using new(1) by (simp_all add: usable_def plane_of_def area_of_def)
    have apart: "\<forall>g \<in> set gs. \<not> merges (?pl g) p" using new(2) by (auto simp: ps)
    have old: "?ar (Suc n) (gs @ [n]) g = ?ar n gs g" if "g \<in> set gs" for g
    proof -
      have "\<not> belongs verts faces gs n g" using apart that lt [OF that] by (auto simp: belongs_def n)
      then show ?thesis using belongs_snoc [OF lt [OF that]] by (simp add: plane_area_def)
    qed
    have "?ar (Suc n) (gs @ [n]) n = a" by (simp add: plane_area_Suc plane_area_founder n belongs_def)
    then have "ps @ [(p, a)] = map (\<lambda>g. (?pl g, ?ar (Suc n) (gs @ [n]) g)) (gs @ [n])"
      using old by (simp add: ps n)
    moreover have "founders verts faces (Suc n) (gs @ [n])"
      using new(3) apart by (intro founders_new [OF fo n(1)]) (simp_all add: ps n)
    ultimately show ?thesis unfolding gathered_def new(4) by blast
  next
    case (full p a)
    have n: "usable verts faces n" "?pl n = p" using full(1) by (simp_all add: usable_def plane_of_def)
    have "\<not> belongs verts faces gs n g" if "g \<in> set gs" for g
      using full(2) that lt [OF that] by (auto simp: ps belongs_def n)
    then have "ps = map (\<lambda>g. (?pl g, ?ar (Suc n) gs g)) gs" by (simp add: ps plane_area_Suc)
    moreover have "founders verts faces (Suc n) gs" using full(3) by (intro founders_same [OF fo]) (simp add: ps)
    ultimately show ?thesis unfolding gathered_def full(4) by blast
  qed
qed

lemma fit_faces_gathered: "\<exists>gs. gathered verts faces n gs (foldl (fit_face verts faces) [] [0..<n])"
proof (induction n)
  case 0
  show ?case by (intro exI [of _ "[]"]) (simp add: gathered_def founders_def)
next
  case (Suc n)
  then show ?case using fit_face_gathered by fastforce
qed

lemma founders_apart:
  assumes "founders verts faces n gs"
  shows "apart (map (plane_of verts faces) gs)"
proof -
  have *: "\<not> merges (plane_of verts faces (gs ! i)) (plane_of verts faces (gs ! j))" if "i < j" "j < length gs" for i j
  proof -
    have "sorted_wrt (<) gs" using assms by (simp add: founders_def)
    then have "gs ! i < gs ! j" using that by (rule sorted_wrt_nth_less)
    moreover have "gs ! i \<in> set gs" "gs ! j \<in> set gs" using that by auto
    ultimately have g: "gs ! i < gs ! j" "gs ! i \<in> set gs" "gs ! j \<in> set gs" .
    have "gs ! j < n \<and> usable verts faces (gs ! j)" using assms g(3) by (simp add: founders_def)
    then have "\<forall>h \<in> set gs. h < gs ! j \<longrightarrow> \<not> merges (plane_of verts faces h) (plane_of verts faces (gs ! j))"
      using foundersD [OF assms] g(3) by blast
    then show ?thesis using g(1,2) by blast
  qed
  then show ?thesis unfolding apart_def by (metis length_map linorder_neqE_nat merges_sym nth_map)
qed

section \<open>The ranking\<close>

lemma largest_from_aux:
  fixes f :: "nat \<Rightarrow> int"
  shows "foldl (\<lambda>best j. if f best < f j then j else best) b js \<in> insert b (set js) \<and>
    (\<forall>j \<in> insert b (set js). f j \<le> f (foldl (\<lambda>best j. if f best < f j then j else best) b js))"
proof (induction js arbitrary: b)
  case Nil
  then show ?case by simp
next
  case (Cons a js)
  show ?case using Cons [of "if f b < f a then a else b"] by (auto split: if_splits)
qed

lemma largest_from_spec:
  assumes "i < length ps"
  shows "i \<le> largest_from ps i" and "largest_from ps i < length ps"
    and "\<And>j. i \<le> j \<Longrightarrow> j < length ps \<Longrightarrow> snd (ps ! j) \<le> snd (ps ! largest_from ps i)"
proof -
  have a: "largest_from ps i \<in> insert i (set [i + 1..<length ps])"
    "\<forall>j \<in> insert i (set [i + 1..<length ps]). snd (ps ! j) \<le> snd (ps ! largest_from ps i)"
    using largest_from_aux [of "\<lambda>j. snd (ps ! j)" i "[i + 1..<length ps]"] unfolding largest_from_def by auto
  show "i \<le> largest_from ps i" "largest_from ps i < length ps" using a(1) assms by auto
  show "snd (ps ! j) \<le> snd (ps ! largest_from ps i)" if "i \<le> j" "j < length ps" for j
    using a(2) that by (cases "i = j") auto
qed

lemma rank_step_mset: "i < length ps \<Longrightarrow> mset (rank_step ps i) = mset ps"
  using largest_from_spec(2) [of i ps] by (simp add: rank_step_def Let_def mset_swap)

lemma rank_step_length: "length (rank_step ps i) = length ps"
  by (simp add: rank_step_def Let_def)

text \<open>The first \<open>i\<close> places hold their final planes.\<close>

definition ranked :: "nat \<Rightarrow> (plane \<times> int) list \<Rightarrow> bool" where
  "ranked i ps \<longleftrightarrow> (\<forall>a b. a < i \<longrightarrow> a < b \<longrightarrow> b < length ps \<longrightarrow> snd (ps ! b) \<le> snd (ps ! a))"

lemma rank_step_ranked:
  assumes "i < length ps" and "ranked i ps"
  shows "ranked (Suc i) (rank_step ps i)"
  unfolding ranked_def
proof (intro allI impI)
  fix a b assume a: "a < Suc i" "a < b" "b < length (rank_step ps i)"
  let ?m = "largest_from ps i"
  note l = largest_from_spec [OF assms(1)]
  have b: "b < length ps" using a(3) by (simp add: rank_step_length)
  have r: "rank_step ps i ! x = (if x = i then ps ! ?m else if x = ?m then ps ! i else ps ! x)" if "x < length ps" for x
    using that l(1,2) assms(1) by (auto simp: rank_step_def Let_def nth_list_update)
  show "snd (rank_step ps i ! b) \<le> snd (rank_step ps i ! a)"
  proof (cases "a = i")
    case True
    then show ?thesis using r [of a] r [of b] a b l(3) by auto
  next
    case False
    then have ai: "a < i" using a(1) by simp
    then have "snd (ps ! c) \<le> snd (ps ! a)" if "a < c" "c < length ps" for c
      using assms(2) that by (simp add: ranked_def)
    then show ?thesis using r [of a] r [of b] ai a b l(1,2) assms(1) by auto
  qed
qed

lemma rank_step_apart:
  assumes "i < length ps" and "apart (map fst ps)"
  shows "apart (map fst (rank_step ps i))"
  using apart_swap [OF assms(2), of i "largest_from ps i"] largest_from_spec(2) [OF assms(1)] assms
  by (simp add: rank_step_def Let_def map_update)

lemma rank_all:
  assumes "k \<le> length ps" and "apart (map fst ps)"
  defines "qs \<equiv> foldl rank_step ps [0..<k]"
  shows "length qs = length ps \<and> ranked k qs \<and> mset qs = mset ps \<and> apart (map fst qs)"
  using assms(1) unfolding qs_def
proof (induction k)
  case 0
  then show ?case using assms(2) by (simp add: ranked_def)
next
  case (Suc k)
  then show ?case by (simp add: rank_step_ranked rank_step_mset rank_step_length rank_step_apart)
qed

lemma ranked_sorted: "ranked (length ps) ps \<Longrightarrow> sorted_wrt (\<lambda>p q. snd q \<le> snd p) ps"
  by (auto simp: ranked_def sorted_wrt_iff_nth_less)

text \<open>
  C32: The plane set fitted to a mesh holds the largest planes of its faces: of the faces that have a
  direction, in their order, each founds a plane unless it merges with one founded before or twelve
  are there, and otherwise counts for the first founder it merges with (one that comes too late
  counts for none); a permutation of the founders' planes in descending order of the doubled areas
  of exactly the faces that count for them is cut to the capacity asked for (twelve at most), no two
  planes in the set merge, and nothing but the set and its size changes in the mesh.
\<close>
theorem mesh_planes_ranked:
  assumes "ms_verts m = Some verts" and "ms_faces m = Some faces" and "0 < cap"
  shows "\<exists>gs qs. founders verts faces (ms_fcount m) gs \<and>
    mset qs = mset (map (\<lambda>g. (plane_of verts faces g, plane_area verts faces (ms_fcount m) gs g)) gs) \<and>
    sorted_wrt (\<lambda>p q. snd q \<le> snd p) qs \<and> apart (map fst (take cap qs)) \<and>
    (let n = min (min cap 12) (length gs) in
     hx421_mesh_fit_planes m cap = (n, m\<lparr>ms_planes := map fst (take n qs), ms_pcount := n\<rparr>))"
proof -
  define found where "found = foldl (fit_face verts faces) [] [0..<ms_fcount m]"
  define qs where "qs = foldl rank_step found [0..<length found]"
  obtain gs where gs: "founders verts faces (ms_fcount m) gs"
    "found = map (\<lambda>g. (plane_of verts faces g, plane_area verts faces (ms_fcount m) gs g)) gs"
    using fit_faces_gathered [of verts faces "ms_fcount m"] unfolding found_def gathered_def by blast
  have "apart (map fst found)" using founders_apart [OF gs(1)] by (simp add: gs(2) comp_def)
  then have "length qs = length found \<and> ranked (length found) qs \<and> mset qs = mset found \<and> apart (map fst qs)"
    unfolding qs_def by (intro rank_all) auto
  then have q: "length qs = length found" "ranked (length qs) qs" "mset qs = mset found" "apart (map fst qs)" by simp_all
  define n where "n = min (min cap 12) (length gs)"
  have "hx421_mesh_fit_planes m cap = (n, m\<lparr>ms_planes := map fst (take n qs), ms_pcount := n\<rparr>)"
    using assms q(1) gs(2) unfolding hx421_mesh_fit_planes_def assms(1,2) option.case prod.case found_def [symmetric] Let_def
      qs_def [symmetric]
    by (simp add: HX421_MAX_PLANES_def n_def min_def)
  moreover have "apart (map fst (take cap qs))" using apart_take [OF q(4), of cap] by (simp add: take_map)
  ultimately show ?thesis using gs(1) q(2) q(3) [unfolded gs(2)] ranked_sorted unfolding n_def Let_def by blast
qed

definition tri_mesh :: mesh where
  "tri_mesh = \<lparr>ms_verts = Some [\<lparr>vx = 0, vy = 0, vz = 0\<rparr>, \<lparr>vx = 65536, vy = 0, vz = 0\<rparr>, \<lparr>vx = 0, vy = 65536, vz = 0\<rparr>],
     ms_vcount = 3, ms_faces = Some [0, 1, 2], ms_colors = None, ms_fcount = 1, ms_radius = 0, ms_half = vzero,
     ms_centre = vzero, ms_planes = [], ms_pcount = 0\<rparr>"

theorem mesh_planes_ranked_witness:
  "\<exists>n \<le> 5. \<exists>qs :: (plane \<times> int) list. hx421_mesh_fit_planes tri_mesh 5 = (n, tri_mesh\<lparr>ms_planes := map fst (take n qs), ms_pcount := n\<rparr>) \<and>
     sorted_wrt (\<lambda>p q. snd q \<le> snd p) qs"
proof -
  have "ms_verts tri_mesh = Some [\<lparr>vx = 0, vy = 0, vz = 0\<rparr>, \<lparr>vx = 65536, vy = 0, vz = 0\<rparr>, \<lparr>vx = 0, vy = 65536, vz = 0\<rparr>]"
    "ms_faces tri_mesh = Some [0, 1, 2]" by (simp_all add: tri_mesh_def)
  from mesh_planes_ranked [OF this zero_less_numeral [of "num.Bit1 (num.Bit0 num.One)"]]
  show ?thesis
    unfolding Let_def
  proof (elim exE conjE)
    fix gs :: "nat list" and qs :: "(plane \<times> int) list"
    assume "sorted_wrt (\<lambda>p q. snd q \<le> snd p) qs"
      "hx421_mesh_fit_planes tri_mesh 5 = (min (min 5 12) (length gs),
        tri_mesh\<lparr>ms_planes := map fst (take (min (min 5 12) (length gs)) qs), ms_pcount := min (min 5 12) (length gs)\<rparr>)"
    then show ?thesis by (intro exI [of _ "min (min 5 12) (length gs)"] conjI exI [of _ qs]) simp_all
  qed
qed

section \<open>Response off axis-aligned walls\<close>

text \<open>The unit normal along component \<open>c\<close>, and the one a velocity runs against there.\<close>

definition axis_normal :: "nat \<Rightarrow> int \<Rightarrow> vec" where
  "axis_normal c sg = (if c = 0 then \<lparr>vx = sg * 65536, vy = 0, vz = 0\<rparr>
     else if c = 1 then \<lparr>vx = 0, vy = sg * 65536, vz = 0\<rparr> else \<lparr>vx = 0, vy = 0, vz = sg * 65536\<rparr>)"

definition wall :: "vec \<Rightarrow> nat \<Rightarrow> vec" where
  "wall v c = axis_normal c (if vec_at v c < 0 then 1 else - 1)"

definition hits :: "vec list \<Rightarrow> vec \<Rightarrow> nat \<Rightarrow> bool" where
  "hits ns v c \<longleftrightarrow> vec_at v c \<noteq> 0 \<and> wall v c \<in> set ns"

lemma len16_axis:
  assumes "sg = 1 \<or> sg = - 1"
  shows "len16 (axis_normal c sg) = 65536"
proof -
  have "hx421_sqrt_q16 65536 = 65536"
  proof -
    let ?r = "hx421_sqrt_q16 65536"
    have r: "0 \<le> ?r" "?r * ?r \<le> 65536 * 65536" "65536 * 65536 < (?r + 1) * (?r + 1)"
      using sqrt_q16_floor [of 65536] by auto
    have "?r < 65537"
    proof (rule ccontr)
      assume "\<not> ?r < 65537"
      then have "65537 * 65537 \<le> ?r * ?r" by (intro mult_mono) auto
      then show False using r(2) by simp
    qed
    moreover have "65535 < ?r"
    proof (rule ccontr)
      assume "\<not> 65535 < ?r"
      then have "(?r + 1) * (?r + 1) \<le> 65536 * 65536" using r(1) by (intro mult_mono) auto
      then show False using r(3) by simp
    qed
    ultimately show ?thesis by simp
  qed
  then show ?thesis using assms by (auto simp: len16_def axis_normal_def asr_def)
qed

lemma normalize_axis:
  assumes "sg = 1 \<or> sg = - 1"
  shows "normalize16 (axis_normal c sg) = Some (axis_normal c sg)"
  using assms by (auto simp: normalize16_def len16_axis Let_def) (auto simp: axis_normal_def cdiv_def i32_def)

lemma normalize_wall: "normalize16 (wall v c) = Some (wall v c)"
  unfolding wall_def by (intro normalize_axis) auto

lemma dot_axis:
  assumes "\<bar>vec_at v c\<bar> < 2 ^ 30" and "c < 3" and "sg = 1 \<or> sg = - 1"
  shows "dot16 v (axis_normal c sg) = sg * vec_at v c"
proof -
  have e: "i32 (asr (i64 (x * (sg * 65536))) 16) = sg * x" if "\<bar>x\<bar> < 2 ^ 30" for x
  proof -
    have "x * (sg * 65536) = sg * x * 65536" by simp
    moreover have "i64 (sg * x * 65536) = sg * x * 65536" "i32 (sg * x) = sg * x"
      using that assms(3) by (auto intro!: i64_id i32_id)
    ultimately show ?thesis by (simp only: asr_def) simp
  qed
  consider "c = 0" | "c = 1" | "c = 2" using assms(2) by linarith
  then show ?thesis using assms(1)
    by cases (simp_all only: dot16_def axis_normal_def vec_at_def, simp_all add: e)
qed

lemma dot_walls:
  assumes "c < 3" and "d < 3"
  shows "dot16 (wall v c) (wall v d) = (if c = d then 65536 else 0)"
proof -
  have "c = 0 \<or> c = 1 \<or> c = 2" "d = 0 \<or> d = 1 \<or> d = 2" using assms by auto
  then show ?thesis
    by (elim disjE) (simp_all add: dot16_def wall_def axis_normal_def asr_def i64_def i32_def)
qed

lemma axis_normal_eq_iff:
  assumes "c < 3" and "d < 3" and "sg = 1 \<or> sg = - 1" and "sh = 1 \<or> sh = - 1"
  shows "axis_normal c sg = axis_normal d sh \<longleftrightarrow> c = d \<and> sg = sh"
proof -
  have "c = 0 \<or> c = 1 \<or> c = 2" "d = 0 \<or> d = 1 \<or> d = 2" using assms by auto
  then show ?thesis using assms(3,4) by (elim disjE) (simp_all add: axis_normal_def)
qed

lemma wall_eq_iff: "c < 3 \<Longrightarrow> d < 3 \<Longrightarrow> wall v c = wall v d \<longleftrightarrow> c = d"
  unfolding wall_def by (subst axis_normal_eq_iff) auto

text \<open>A normal along an axis is approached exactly when it is the wall of its component.\<close>

lemma approached_iff:
  assumes "\<bar>vec_at v c\<bar> < 2 ^ 30" and "c < 3" and "sg = 1 \<or> sg = - 1"
  shows "dot16 v (axis_normal c sg) < 0 \<longleftrightarrow> vec_at v c \<noteq> 0 \<and> axis_normal c sg = wall v c"
  using assms(3) by (auto simp: dot_axis [OF assms] wall_def axis_normal_eq_iff assms(2))

definition axis_normals :: "vec set" where
  "axis_normals = {axis_normal c sg | c sg. c < 3 \<and> (sg = 1 \<or> sg = - 1)}"

lemma axis_normals_mem: "c < 3 \<Longrightarrow> sg = 1 \<or> sg = - 1 \<Longrightarrow> axis_normal c sg \<in> axis_normals"
  unfolding axis_normals_def by blast

lemma hits_Cons: "hits (n # ns) v c \<longleftrightarrow> vec_at v c \<noteq> 0 \<and> n = wall v c \<or> hits ns v c"
  by (auto simp: hits_def)

lemma keep_walls:
  assumes "set ns \<subseteq> axis_normals" and "\<forall>c<3. \<bar>vec_at v c\<bar> < 2 ^ 30"
    and "distinct cs" and "set cs \<subseteq> {..<3}"
  shows "\<exists>cs'. keep_normals v ns (map (wall v) cs) = map (wall v) cs' \<and> distinct cs' \<and>
    set cs' = set cs \<union> {c. c < 3 \<and> hits ns v c}"
  using assms(1,3,4)
proof (induction ns arbitrary: cs)
  case Nil
  then show ?case by (intro exI [of _ cs]) (simp add: hits_def)
next
  case (Cons n ns)
  obtain c sg where n: "n = axis_normal c sg" "c < 3" "sg = 1 \<or> sg = - 1"
    using Cons.prems(1) by (auto simp: axis_normals_def)
  have b: "\<bar>vec_at v c\<bar> < 2 ^ 30" using assms(2) n(2) by simp
  have "card (set cs) \<le> card {..<3 :: nat}" using Cons.prems(3) by (intro card_mono) auto
  then have len: "length cs < 4" using Cons.prems(2) by (simp add: distinct_card)
  have ns: "set ns \<subseteq> axis_normals" using Cons.prems(1) by simp
  show ?case
  proof (cases "vec_at v c \<noteq> 0 \<and> n = wall v c")
    case False
    then have "\<not> dot16 v n < 0" using approached_iff [OF b n(2,3)] by (simp add: n(1))
    then have "keep_normals v (n # ns) (map (wall v) cs) = keep_normals v ns (map (wall v) cs)"
      using len by (simp add: n(1) normalize_axis [OF n(3)] HX421_MAX_NORMALS_def)
    moreover have "hits (n # ns) v d \<longleftrightarrow> hits ns v d" if "d < 3" for d
    proof -
      have "\<not> (vec_at v d \<noteq> 0 \<and> n = wall v d)"
        using False that axis_normal_eq_iff [OF n(2) that n(3)] by (auto simp: n(1) wall_def split: if_splits)
      then show ?thesis unfolding hits_Cons by blast
    qed
    ultimately show ?thesis using Cons.IH [OF ns Cons.prems(2,3)] by (auto cong: conj_cong)
  next
    case True
    then have ap: "dot16 v n < 0" using approached_iff [OF b n(2,3)] by (simp add: n(1))
    have dup: "(\<exists>k \<in> set (map (wall v) cs). 63303 < dot16 k n) \<longleftrightarrow> c \<in> set cs"
    proof -
      have "dot16 (wall v d) n = (if d = c then 65536 else 0)" if "d \<in> set cs" for d
        using that Cons.prems(3) n(2) conjunct2 [OF True] dot_walls [of d c v] by auto
      then show ?thesis by auto
    qed
    have hc: "hits (n # ns) v d \<longleftrightarrow> d = c \<or> hits ns v d" if "d < 3" for d
      using True that n(2) by (auto simp: hits_Cons wall_eq_iff)
    show ?thesis
    proof (cases "c \<in> set cs")
      case dupl: True
      then have "keep_normals v (n # ns) (map (wall v) cs) = keep_normals v ns (map (wall v) cs)"
        using len ap dup by (simp add: n(1) normalize_axis [OF n(3)] HX421_MAX_NORMALS_def)
      then show ?thesis using Cons.IH [OF ns Cons.prems(2,3)] hc dupl n(2) by (auto cong: conj_cong)
    next
      case new: False
      then have "keep_normals v (n # ns) (map (wall v) cs) = keep_normals v ns (map (wall v) (cs @ [c]))"
        using len ap dup True by (simp add: normalize_wall HX421_MAX_NORMALS_def del: set_map)
      moreover have "distinct (cs @ [c])" "set (cs @ [c]) \<subseteq> {..<3}" using new Cons.prems(2,3) n(2) by auto
      ultimately show ?thesis using Cons.IH [OF ns, of "cs @ [c]"] hc n(2) by (auto cong: conj_cong)
    qed
  qed
qed


lemma vec_at_eqI:
  fixes a b :: vec
  assumes "\<And>c. c < 3 \<Longrightarrow> vec_at a c = vec_at b c"
  shows "a = b"
  using assms [of 0] assms [of 1] assms [of 2] by (simp add: vec_at_def)

lemma vec_at_vsub: "c < 3 \<Longrightarrow> vec_at (vsub_wrap r q) c = i32 (vec_at r c - vec_at q c)"
  by (simp add: vsub_wrap_def vec_at_def)

lemma vec_at_scale_wall:
  assumes "c < 3" and "d < 3" and "\<bar>s\<bar> < 2 ^ 31"
  shows "vec_at (scale16 (wall v c) s) d = (if d = c then (if vec_at v c < 0 then s else - s) else 0)"
proof -
  have "c = 0 \<or> c = 1 \<or> c = 2" "d = 0 \<or> d = 1 \<or> d = 2" using assms by auto
  moreover have "i32 s = s" "i32 (- s) = - s" using assms(3) by (auto intro!: i32_id)
  ultimately show ?thesis
    by (elim disjE) (simp_all add: wall_def axis_normal_def scale16_def vec_at_def asr_def)
qed

lemma vec_at_wall_bound:
  assumes "c < 3" and "d < 3"
  shows "\<bar>vec_at (wall v c) d\<bar> \<le> 65536"
proof -
  have "c = 0 \<or> c = 1 \<or> c = 2" "d = 0 \<or> d = 1 \<or> d = 2" using assms by auto
  then show ?thesis by (elim disjE) (simp_all add: wall_def axis_normal_def vec_at_def)
qed

lemma vsub_other_wall:
  assumes "c < 3" and "d < 3" and "c \<noteq> d"
  shows "vsub_wrap (wall v c) (scale16 (wall v d) (dot16 (wall v c) (wall v d))) = wall v c"
proof (rule vec_at_eqI)
  fix e :: nat assume e: "e < 3"
  have "i32 (vec_at (wall v c) x) = vec_at (wall v c) x" if "x < 3" for x
    using vec_at_wall_bound [OF assms(1) that, of v] by (intro i32_id) auto
  then show "vec_at (vsub_wrap (wall v c) (scale16 (wall v d) (dot16 (wall v c) (wall v d)))) e = vec_at (wall v c) e"
    using e assms by (simp add: vec_at_vsub dot_walls vec_at_scale_wall)
qed

lemma orthogonal_walls:
  assumes "distinct cs" and "set cs \<subseteq> {..<3}"
  shows "orthogonalise (map (wall v) cs) = map (wall v) cs"
  using assms
proof (induction cs rule: rev_induct)
  case Nil
  show ?case by (simp add: orthogonalise_def)
next
  case (snoc c cs)
  have "foldl (\<lambda>e q. vsub_wrap e (scale16 q (dot16 e q))) (wall v c) (map (wall v) ds) = wall v c"
    if "set ds \<subseteq> {..<3} - {c}" for ds
    using that snoc.prems(2) by (induction ds) (auto simp: vsub_other_wall)
  then have "foldl (\<lambda>e q. vsub_wrap e (scale16 q (dot16 e q))) (wall v c) (map (wall v) cs) = wall v c"
    using snoc.prems by auto
  then show ?case using snoc by (simp add: orthogonalise_def normalize_wall)
qed

lemma reflect_walls:
  assumes "k = 1 \<or> k = 2" and "\<forall>c<3. \<bar>vec_at v c\<bar> < 2 ^ 30" and "distinct cs" and "set cs \<subseteq> {..<3}"
    and "\<forall>c<3. \<bar>vec_at r c\<bar> < 2 ^ 30" and "\<forall>c \<in> set cs. vec_at r c = vec_at v c" and "d < 3"
  shows "vec_at (foldl (\<lambda>r q. vsub_wrap r (scale16 q (i32 (dot16 v q * k)))) r (map (wall v) cs)) d =
    (if d \<in> set cs then vec_at v d - k * vec_at v d else vec_at r d)"
  using assms(3-6)
proof (induction cs arbitrary: r)
  case Nil
  then show ?case by simp
next
  case (Cons c cs)
  let ?r = "vsub_wrap r (scale16 (wall v c) (i32 (dot16 v (wall v c) * k)))"
  have c: "c < 3" "\<bar>vec_at v c\<bar> < 2 ^ 30" using Cons.prems(2) assms(2) by auto
  have dot: "dot16 v (wall v c) = (if vec_at v c < 0 then 1 else - 1) * vec_at v c"
    unfolding wall_def using c by (intro dot_axis) auto
  have s: "i32 (dot16 v (wall v c) * k) = (if vec_at v c < 0 then 1 else - 1) * vec_at v c * k"
    unfolding dot using assms(1) c(2) by (intro i32_id) auto
  have at: "vec_at ?r e = (if e = c then vec_at v c - k * vec_at v c else vec_at r e)" if "e < 3" for e
  proof -
    have "vec_at (scale16 (wall v c) (i32 (dot16 v (wall v c) * k))) e = (if e = c then k * vec_at v c else 0)"
      unfolding s using assms(1) c that by (subst vec_at_scale_wall) auto
    moreover have "\<bar>vec_at r e\<bar> < 2 ^ 30" using Cons.prems(3) that by simp
    ultimately show ?thesis using assms(1) c(2) Cons.prems(4) that by (auto simp: vec_at_vsub intro!: i32_id)
  qed
  have "vec_at (foldl (\<lambda>r q. vsub_wrap r (scale16 q (i32 (dot16 v q * k)))) ?r (map (wall v) cs)) d =
    (if d \<in> set cs then vec_at v d - k * vec_at v d else vec_at ?r d)"
  proof (rule Cons.IH)
    show "\<forall>e<3. \<bar>vec_at ?r e\<bar> < 2 ^ 30" using at assms(1) c(2) Cons.prems(3) by auto
    have "e < 3" "e \<noteq> c" if "e \<in> set cs" for e using that Cons.prems(1,2) by auto
    then show "\<forall>e \<in> set cs. vec_at ?r e = vec_at v e" using at Cons.prems(4) by simp
  qed (use Cons.prems in auto)
  then show ?case using at [OF assms(7)] Cons.prems(1) by auto
qed

text \<open>The reflection on each component: turned round, stopped, or left alone.\<close>

definition respond :: "response \<Rightarrow> vec list \<Rightarrow> vec \<Rightarrow> nat \<Rightarrow> int" where
  "respond mode ns v c =
     (if hits ns v c then (case mode of HX421_RESPONSE_BOUNCE \<Rightarrow> - vec_at v c | HX421_RESPONSE_SLIDE \<Rightarrow> 0)
      else vec_at v c)"

text \<open>
  C31: Against walls along the axes the response is exact, for any list of such normals: a
  velocity component that runs into a wall is turned round by a bounce and stopped by a slide,
  every other component is left as it is, and a velocity that runs into walls along all three
  axes is a wedge, which is reported and stops the object.
\<close>
theorem resolve_axis_walls:
  assumes "set ns \<subseteq> axis_normals" and "\<forall>c<3. \<bar>vec_at v c\<bar> < 2 ^ 30"
  shows "hx421_resolve ns v mode =
    (if \<forall>c<3. hits ns v c then (False, vzero)
     else (True, \<lparr>vx = respond mode ns v 0, vy = respond mode ns v 1, vz = respond mode ns v 2\<rparr>))"
proof -
  obtain cs where cs: "keep_normals v ns [] = map (wall v) cs" "distinct cs" "set cs = {c. c < 3 \<and> hits ns v c}"
    using keep_walls [OF assms, of "[]"] by auto
  have sub: "set cs \<subseteq> {..<3}" using cs(3) by auto
  note ortho = orthogonal_walls [OF cs(2) sub, of v]
  define k :: int where "k = (if mode = HX421_RESPONSE_BOUNCE then 2 else 1)"
  have k: "k = 1 \<or> k = 2" by (simp add: k_def)
  have card: "length cs = card {c. c < 3 \<and> hits ns v c}" using cs(2,3) by (metis distinct_card)
  have "3 \<le> length cs \<longleftrightarrow> (\<forall>c<3. hits ns v c)"
  proof
    assume "3 \<le> length cs"
    then have "card {..<3 :: nat} \<le> card {c. c < 3 \<and> hits ns v c}" by (simp add: card)
    then have "{c. c < 3 \<and> hits ns v c} = {..<3}" by (intro card_seteq) auto
    then show "\<forall>c<3. hits ns v c" by auto
  next
    assume "\<forall>c<3. hits ns v c"
    then have "{c. c < 3 \<and> hits ns v c} = {..<3}" by auto
    then show "3 \<le> length cs" by (simp add: card)
  qed
  moreover have "foldl (\<lambda>r q. vsub_wrap r (scale16 q (i32 (dot16 v q * k)))) v (map (wall v) cs) =
      \<lparr>vx = respond mode ns v 0, vy = respond mode ns v 1, vz = respond mode ns v 2\<rparr>" (is "?l = ?r")
  proof (rule vec_at_eqI)
    fix c :: nat assume c: "c < 3"
    have "vec_at ?l c = (if hits ns v c then vec_at v c - k * vec_at v c else vec_at v c)"
      using reflect_walls [OF k assms(2) cs(2) sub assms(2) _ c] cs(3) c by simp
    also have "\<dots> = respond mode ns v c" by (cases mode) (auto simp: respond_def k_def)
    also have "\<dots> = vec_at ?r c" using c by (auto simp: vec_at_def less_Suc_eq numeral_eq_Suc)
    finally show "vec_at ?l c = vec_at ?r c" .
  qed
  ultimately show ?thesis
    unfolding hx421_resolve_def cs(1) Let_def k_def [symmetric] ortho length_map
    by (cases "cs = []") (auto simp: vec_at_def [abs_def])
qed

theorem resolve_axis_walls_witness:
  "hx421_resolve [axis_normal 0 1, axis_normal 0 1, axis_normal 1 (- 1)] \<lparr>vx = - 5, vy = - 7, vz = 9\<rparr> HX421_RESPONSE_BOUNCE =
     (True, \<lparr>vx = 5, vy = - 7, vz = 9\<rparr>)"
proof -
  let ?ns = "[axis_normal 0 1, axis_normal 0 1, axis_normal 1 (- 1)]" and ?v = "\<lparr>vx = - 5, vy = - 7, vz = 9\<rparr> :: vec"
  have ns: "set ?ns \<subseteq> axis_normals" by (simp add: axis_normals_mem)
  have v: "\<forall>c<3. \<bar>vec_at ?v c\<bar> < 2 ^ 30" by (simp add: vec_at_def)
  have h: "hits ?ns ?v 0" "\<not> hits ?ns ?v 1" "\<not> hits ?ns ?v 2"
    by (simp_all add: hits_def wall_def vec_at_def axis_normal_def)
  have "respond HX421_RESPONSE_BOUNCE ?ns ?v 0 = 5" "respond HX421_RESPONSE_BOUNCE ?ns ?v 1 = - 7"
    "respond HX421_RESPONSE_BOUNCE ?ns ?v 2 = 9"
    unfolding respond_def using h by (simp_all add: vec_at_def)
  moreover have "\<not> (\<forall>c<3. hits ?ns ?v c)" using h(2) by (meson one_less_numeral_iff semiring_norm(77))
  ultimately show ?thesis using resolve_axis_walls [OF ns v, of HX421_RESPONSE_BOUNCE] by simp
qed

text \<open>A velocity that approaches none of the normals is kept.\<close>

lemma keep_separating:
  assumes "\<forall>n \<in> set ns. \<forall>u. normalize16 n = Some u \<longrightarrow> 0 \<le> dot16 v u"
  shows "keep_normals v ns keep = keep"
  using assms by (induction ns) (auto split: option.splits)

lemma resolve_separating:
  assumes "\<forall>n \<in> set ns. \<forall>u. normalize16 n = Some u \<longrightarrow> 0 \<le> dot16 v u"
  shows "hx421_resolve ns v mode = (True, v)"
  by (simp add: hx421_resolve_def keep_separating [OF assms])

end
