(* ===== verification/Metatile.thy ===== *)
theory Metatile
  imports HXBase
begin

unbundle bit_operations_syntax

text \<open>
  \<^verbatim>\<open>runtime/hx421_metatile.c\<close>: the expansion of a map of metatile indices into tilemap entries,
  a column, a row or a rectangle at a time, and the transposed copy of the map that makes a
  column sequential.  A pointer that may be \<^verbatim>\<open>NULL\<close> is an option; tile coordinates are C
  \<^verbatim>\<open>int\<close>s; an output array is a list and the result its new contents.  The second half of the
  theory is the mathematical map that all paths read.
\<close>

section \<open>Layers\<close>

record map_layer =
  ml_map_rows :: "nat list option"
  ml_map_cols :: "nat list option"
  ml_map_w :: nat
  ml_map_h :: nat
  ml_defs :: "nat list option"
  ml_def_count :: nat
  ml_mt_side :: nat
  ml_oob_entry :: nat
  ml_wrap :: bool

definition mt_shift :: "nat \<Rightarrow> nat" where
  "mt_shift side = (if side = 2 then 1 else if side = 4 then 2 else if side = 8 then 3 else 0)"

definition hx421_metatile_layer_valid :: "map_layer \<Rightarrow> bool" where
  "hx421_metatile_layer_valid L \<longleftrightarrow>
     (if ml_map_rows L = None \<or> ml_defs L = None then False
      else if ml_map_w L = 0 \<or> ml_map_h L = 0 \<or> ml_def_count L = 0 then False
      else if mt_shift (ml_mt_side L) = 0 then False
      else True)"

text \<open>The C remainder, which has the sign of the dividend.\<close>

definition crem :: "int \<Rightarrow> int \<Rightarrow> int" where "crem a b = a - cdiv a b * b"

text \<open>The cell of a map that is not \<^verbatim>\<open>NULL\<close>.\<close>

definition cell :: "nat list option \<Rightarrow> int \<Rightarrow> nat" where "cell m i = the m ! nat i"

definition mt_lookup :: "map_layer \<Rightarrow> int \<Rightarrow> int \<Rightarrow> nat \<Rightarrow> bool \<Rightarrow> nat" where
  "mt_lookup L tx ty shift prefer_cols =
     (let mtx = asr tx shift; mty = asr ty shift; w = int (ml_map_w L); h = int (ml_map_h L);
          mtx' = (if ml_wrap L then crem (crem mtx w + w) w else mtx);
          mty' = (if ml_wrap L then crem (crem mty h + h) h else mty)
      in if \<not> ml_wrap L \<and> (mtx < 0 \<or> mty < 0 \<or> w \<le> mtx \<or> h \<le> mty) then ml_oob_entry L
         else let mt = (if prefer_cols \<and> ml_map_cols L \<noteq> None then cell (ml_map_cols L) (mtx' * h + mty')
                        else cell (ml_map_rows L) (mty' * w + mtx'))
              in if ml_def_count L \<le> mt then ml_oob_entry L
                 else let side = int (ml_mt_side L); sx = tx AND (side - 1); sy = ty AND (side - 1)
                      in cell (ml_defs L) (int mt * side * side + sy * side + sx))"

section \<open>Strips and rectangles\<close>

definition hx421_metatile_column :: "map_layer \<Rightarrow> int \<Rightarrow> int \<Rightarrow> nat \<Rightarrow> nat list \<Rightarrow> nat list" where
  "hx421_metatile_column L tx ty0 count out =
     (if count = 0 then out
      else if \<not> hx421_metatile_layer_valid L then out
      else let shift = mt_shift (ml_mt_side L) in
           foldl (\<lambda>out i. out[i := mt_lookup L tx (i32 (ty0 + int i)) shift True]) out [0..<count])"

definition hx421_metatile_row :: "map_layer \<Rightarrow> int \<Rightarrow> int \<Rightarrow> nat \<Rightarrow> nat list \<Rightarrow> nat list" where
  "hx421_metatile_row L ty tx0 count out =
     (if count = 0 then out
      else if \<not> hx421_metatile_layer_valid L then out
      else let shift = mt_shift (ml_mt_side L) in
           foldl (\<lambda>out i. out[i := mt_lookup L (i32 (tx0 + int i)) ty shift False]) out [0..<count])"

definition rect_row :: "map_layer \<Rightarrow> int \<Rightarrow> int \<Rightarrow> nat \<Rightarrow> nat \<Rightarrow> nat list \<Rightarrow> nat \<Rightarrow> nat list" where
  "rect_row L tx0 ty0 w stride out y =
     foldl (\<lambda>out x. out[y * stride + x := mt_lookup L (i32 (tx0 + int x)) (i32 (ty0 + int y))
                          (mt_shift (ml_mt_side L)) False]) out [0..<w]"

definition hx421_metatile_rect :: "map_layer \<Rightarrow> int \<Rightarrow> int \<Rightarrow> nat \<Rightarrow> nat \<Rightarrow> nat list \<Rightarrow> nat \<Rightarrow> nat list" where
  "hx421_metatile_rect L tx0 ty0 w h out stride =
     (if w = 0 \<or> h = 0 then out
      else if \<not> hx421_metatile_layer_valid L then out
      else foldl (rect_row L tx0 ty0 w stride) out [0..<h])"

definition hx421_metatile_transpose :: "nat list \<Rightarrow> nat \<Rightarrow> nat \<Rightarrow> nat list \<Rightarrow> nat list" where
  "hx421_metatile_transpose src_rows map_w map_h dst_cols =
     foldl (\<lambda>dst y. foldl (\<lambda>dst x. dst[x * map_h + y := src_rows ! (y * map_w + x)]) dst [0..<map_w])
       dst_cols [0..<map_h]"

section \<open>The map that the strips show\<close>

text \<open>
  The entry at a tile coordinate: the map tiles the plane when it wraps, and is surrounded by
  the substitute entry otherwise.
\<close>

definition tile_at :: "map_layer \<Rightarrow> nat list \<Rightarrow> nat list \<Rightarrow> int \<Rightarrow> int \<Rightarrow> nat" where
  "tile_at L rows defs tx ty =
     (let n = int (ml_mt_side L); w = int (ml_map_w L); h = int (ml_map_h L);
          mt = rows ! nat ((ty div n mod h) * w + tx div n mod w)
      in if \<not> ml_wrap L \<and> \<not> (0 \<le> tx \<and> tx < w * n \<and> 0 \<le> ty \<and> ty < h * n) then ml_oob_entry L
         else if ml_def_count L \<le> mt then ml_oob_entry L
         else defs ! nat (int mt * n * n + (ty mod n) * n + tx mod n))"

text \<open>A layer over a row-major map, with or without the transposed copy.\<close>

definition layer_over :: "map_layer \<Rightarrow> nat list \<Rightarrow> nat list \<Rightarrow> bool" where
  "layer_over L rows defs \<longleftrightarrow> hx421_metatile_layer_valid L \<and>
     ml_map_rows L = Some rows \<and> length rows = ml_map_w L * ml_map_h L \<and>
     ml_defs L = Some defs \<and> length defs = ml_def_count L * ml_mt_side L * ml_mt_side L \<and>
     (\<forall>cols. ml_map_cols L = Some cols \<longrightarrow>
        (\<exists>dst. length dst = length rows \<and> cols = hx421_metatile_transpose rows (ml_map_w L) (ml_map_h L) dst))"

lemma crem_wrap: "0 < w \<Longrightarrow> crem (crem a w + w) w = a mod w"
proof -
  assume w: "0 < w"
  have r: "crem x w = (if 0 \<le> x then x mod w else - ((- x) mod w))" for x
    using w by (auto simp: crem_def cdiv_def sgn_if minus_div_mult_eq_mod [symmetric] algebra_simps)
  have b: "0 \<le> (- a) mod w" "(- a) mod w < w" using w by simp_all
  show ?thesis
  proof (cases "0 \<le> a")
    case True
    then show ?thesis using w by (simp add: r)
  next
    case False
    then have "crem (crem a w + w) w = (w - (- a) mod w) mod w" using b by (simp add: r)
    also have "\<dots> = a mod w" by (simp add: mod_minus_eq)
    finally show ?thesis .
  qed
qed

lemma side_cases:
  assumes "hx421_metatile_layer_valid L"
  obtains k where "0 < k" "k \<le> 3" "ml_mt_side L = 2 ^ k" "mt_shift (ml_mt_side L) = k"
proof -
  have "ml_mt_side L = 2 \<or> ml_mt_side L = 4 \<or> ml_mt_side L = 8"
    using assms by (auto simp: hx421_metatile_layer_valid_def mt_shift_def split: if_splits)
  then show thesis using that [of 1] that [of 2] that [of 3] by (auto simp: mt_shift_def)
qed

lemma foldl_length:
  assumes "\<And>xs y. length (F xs y) = length xs"
  shows "length (foldl F xs ys) = length xs"
  by (induction ys arbitrary: xs) (auto simp: assms)

text \<open>The transposed copy.\<close>

lemma transpose_at:
  assumes "length dst = w * h" and "x < w" and "y < h"
  shows "hx421_metatile_transpose rows w h dst ! (x * h + y) = rows ! (y * w + x)"
proof -
  let ?row = "\<lambda>dst y. foldl (\<lambda>dst x. dst[x * h + y := rows ! (y * w + x)]) dst [0..<w]"
  have len: "length (foldl ?row dst ys) = length dst" for ys
    by (rule foldl_length) (rule foldl_store_length)
  have i: "x * h + y < w * h" if "x < w" "y < h" for x y
    using that mult_le_mono1 [of "Suc x" w h] by simp
  have eq: "x' * h + y' = x * h + y \<longleftrightarrow> x' = x \<and> y' = y" if "y' < h" "y < h" for x' y' x y
    using that by (metis add.commute mod_mult_self1 mod_less div_mult_self1 div_less add.left_neutral
        less_nat_zero_code)
  have "foldl ?row dst [0..<k] ! (x * h + y) = rows ! (y * w + x)" if "y < k" "k \<le> h" for k
    using that
  proof (induction k)
    case (Suc k)
    let ?d = "foldl ?row dst [0..<k]"
    have l: "length ?d = w * h" by (simp add: len assms(1))
    show ?case
    proof (cases "y = k")
      case True
      have "inj_on (\<lambda>x. x * h + y) {..<w}" using assms(3) by (auto simp: inj_on_def)
      then have "?row ?d y ! (x * h + y) = rows ! (y * w + x)"
        by (rule foldl_store_at) (use assms i l in auto)
      then show ?thesis using True by simp
    next
      case False
      have "x * h + y \<notin> (\<lambda>x. x * h + k) ` set [0..<w]"
        using False Suc.prems(2) assms(3) eq by (auto simp: image_iff)
      then have "?row ?d k ! (x * h + y) = ?d ! (x * h + y)" by (rule foldl_store_other)
      then show ?thesis using Suc False by simp
    qed
  qed simp
  then show ?thesis using assms(3) by (simp add: hx421_metatile_transpose_def)
qed

text \<open>The lookup reads the map, on either path.\<close>

lemma mt_lookup_eq:
  assumes "layer_over L rows defs"
  shows "mt_lookup L tx ty (mt_shift (ml_mt_side L)) pc = tile_at L rows defs tx ty"
proof -
  have v: "hx421_metatile_layer_valid L" and rows: "ml_map_rows L = Some rows" "length rows = ml_map_w L * ml_map_h L"
    and defs: "ml_defs L = Some defs" using assms by (simp_all add: layer_over_def)
  obtain k where k: "ml_mt_side L = 2 ^ k" "mt_shift (ml_mt_side L) = k" using side_cases [OF v] by metis
  have w: "0 < int (ml_map_w L)" "0 < int (ml_map_h L)"
    using v by (auto simp: hx421_metatile_layer_valid_def split: if_splits)
  define W where "W = int (ml_map_w L)"
  define H where "H = int (ml_map_h L)"
  define N where "N = int (ml_mt_side L)"
  have N: "N = 2 ^ k" "0 < N" by (simp_all add: N_def k(1))
  have sub: "t AND (N - 1) = t mod N" for t by (simp add: N(1) take_bit_eq_mask [symmetric] mask_eq_exp_minus_1 [symmetric] flip: take_bit_eq_mod)
  have sh: "asr t (mt_shift (ml_mt_side L)) = t div N" for t by (simp only: asr_def k(2) N(1))
  have out: "t div N < 0 \<longleftrightarrow> t < 0" "X \<le> t div N \<longleftrightarrow> X * N \<le> t" for t X
  proof -
    show "t div N < 0 \<longleftrightarrow> t < 0" using N(2) by (simp add: pos_imp_zdiv_neg_iff)
    have "X \<le> t div N" if "X * N \<le> t" using zdiv_mono1 [OF that N(2)] N(2) by simp
    moreover have "X * N \<le> t" if "X \<le> t div N"
    proof -
      have "X * N \<le> t div N * N" using that N(2) by (intro mult_right_mono) auto
      also have "\<dots> \<le> t" using div_mult_mod_eq [of t N] pos_mod_sign [OF N(2), of t] by linarith
      finally show ?thesis .
    qed
    ultimately show "X \<le> t div N \<longleftrightarrow> X * N \<le> t" by blast
  qed
  have fetch: "cell (ml_map_rows L) (b * W + a) = rows ! nat (b * W + a)"
    "ml_map_cols L \<noteq> None \<Longrightarrow> cell (ml_map_cols L) (a * H + b) = rows ! nat (b * W + a)"
    if "0 \<le> a" "a < W" "0 \<le> b" "b < H" for a b
  proof -
    show "cell (ml_map_rows L) (b * W + a) = rows ! nat (b * W + a)" by (simp add: cell_def rows)
    assume "ml_map_cols L \<noteq> None"
    then obtain dst where dst: "length dst = length rows"
      "ml_map_cols L = Some (hx421_metatile_transpose rows (ml_map_w L) (ml_map_h L) dst)"
      using assms by (auto simp: layer_over_def)
    have n: "nat (a * H + b) = nat a * ml_map_h L + nat b" "nat (b * W + a) = nat b * ml_map_w L + nat a"
      using that by (simp_all add: H_def W_def nat_add_distrib nat_mult_distrib)
    show "cell (ml_map_cols L) (a * H + b) = rows ! nat (b * W + a)"
      unfolding cell_def dst(2) option.sel n using that dst(1) rows(2)
      by (intro transpose_at) (simp_all add: W_def H_def nat_less_iff)
  qed
  show ?thesis
  proof (cases "\<not> ml_wrap L \<and> \<not> (0 \<le> tx \<and> tx < W * N \<and> 0 \<le> ty \<and> ty < H * N)")
    case True
    then have "\<not> ml_wrap L \<and> (tx div N < 0 \<or> ty div N < 0 \<or> W \<le> tx div N \<or> H \<le> ty div N)"
      using out by auto
    then show ?thesis using True unfolding mt_lookup_def tile_at_def Let_def sh W_def [symmetric] H_def [symmetric] N_def [symmetric]
      by (simp only: if_True simp_thms)
  next
    case False
    have in': "\<not> (\<not> ml_wrap L \<and> (tx div N < 0 \<or> ty div N < 0 \<or> W \<le> tx div N \<or> H \<le> ty div N))"
      using False out by auto
    have wr: "(if ml_wrap L then crem (crem (t div N) X + X) X else t div N) = t div N mod X"
      if "0 < X" "ml_wrap L \<or> 0 \<le> t div N \<and> t div N < X" for t X
      using that by (auto simp: crem_wrap)
    have X: "(if ml_wrap L then crem (crem (tx div N) W + W) W else tx div N) = tx div N mod W"
      "(if ml_wrap L then crem (crem (ty div N) H + H) H else ty div N) = ty div N mod H"
    proof -
      have p: "0 < W" "0 < H" using w by (simp_all add: W_def H_def)
      have "ml_wrap L \<or> 0 \<le> tx div N \<and> tx div N < W" "ml_wrap L \<or> 0 \<le> ty div N \<and> ty div N < H"
        using in' by linarith+
      then show "(if ml_wrap L then crem (crem (tx div N) W + W) W else tx div N) = tx div N mod W"
        "(if ml_wrap L then crem (crem (ty div N) H + H) H else ty div N) = ty div N mod H"
        using wr p by blast+
    qed
    have b: "0 \<le> tx div N mod W" "tx div N mod W < W" "0 \<le> ty div N mod H" "ty div N mod H < H"
      using w by (simp_all add: W_def H_def)
    have f: "(if pc \<and> ml_map_cols L \<noteq> None then cell (ml_map_cols L) (tx div N mod W * H + ty div N mod H)
        else cell (ml_map_rows L) (ty div N mod H * W + tx div N mod W)) = rows ! nat (ty div N mod H * W + tx div N mod W)"
      using fetch [OF b] by auto
    show ?thesis
      unfolding mt_lookup_def tile_at_def Let_def sh W_def [symmetric] H_def [symmetric] N_def [symmetric] X f sub
        if_not_P [OF in'] if_not_P [OF False]
      by (simp only: cell_def defs option.sel)
  qed
qed

section \<open>Properties\<close>

lemma rect_row_blit:
  assumes "layer_over L rows defs" and "y * stride + w \<le> length out"
    and "\<And>x. x < w \<Longrightarrow> i32 (tx0 + int x) = tx0 + int x" and "i32 (ty0 + int y) = ty0 + int y"
  shows "rect_row L tx0 ty0 w stride out y =
    blit out (y * stride) (map (\<lambda>x. tile_at L rows defs (tx0 + int x) (ty0 + int y)) [0..<w])"
proof -
  have e: "map (\<lambda>x. tile_at L rows defs (i32 (tx0 + int x)) (i32 (ty0 + int y))) [0..<w] =
      map (\<lambda>x. tile_at L rows defs (tx0 + int x) (ty0 + int y)) [0..<w]"
    using assms(3,4) by simp
  show ?thesis unfolding rect_row_def mt_lookup_eq [OF assms(1)] foldl_store_run [OF assms(2)] e ..
qed

lemma rect_rows:
  assumes "layer_over L rows defs" and "w \<le> stride" and "h \<le> H" and "(H - 1) * stride + w \<le> length out"
    and "\<And>x. x < w \<Longrightarrow> i32 (tx0 + int x) = tx0 + int x" and "\<And>y. y < h \<Longrightarrow> i32 (ty0 + int y) = ty0 + int y"
  defines "r \<equiv> foldl (rect_row L tx0 ty0 w stride) out [0..<h]"
  shows "length r = length out \<and>
    (\<forall>k < length out. r ! k = (if k mod stride < w \<and> k div stride < h
       then tile_at L rows defs (tx0 + int (k mod stride)) (ty0 + int (k div stride)) else out ! k))"
  using assms(3,6) unfolding r_def
proof (induction h)
  case 0
  then show ?case by simp
next
  case (Suc h)
  let ?r = "foldl (rect_row L tx0 ty0 w stride) out [0..<h]"
  let ?row = "map (\<lambda>x. tile_at L rows defs (tx0 + int x) (ty0 + int h)) [0..<w]"
  have ih: "length ?r = length out" "\<And>k. k < length out \<Longrightarrow> ?r ! k = (if k mod stride < w \<and> k div stride < h
       then tile_at L rows defs (tx0 + int (k mod stride)) (ty0 + int (k div stride)) else out ! k)"
    using Suc by auto
  have "h * stride \<le> (H - 1) * stride" using Suc.prems(1) by (intro mult_le_mono1) simp
  then have fit: "h * stride + w \<le> length out" using assms(4) by linarith
  have step: "foldl (rect_row L tx0 ty0 w stride) out [0..<Suc h] = blit ?r (h * stride) ?row"
    using rect_row_blit [OF assms(1), of h stride w ?r tx0 ty0] fit ih(1) assms(5) Suc.prems(2) by simp
  have at: "blit ?r (h * stride) ?row ! k = (if k mod stride < w \<and> k div stride < Suc h
       then tile_at L rows defs (tx0 + int (k mod stride)) (ty0 + int (k div stride)) else out ! k)" if k: "k < length out" for k
  proof (cases "h * stride \<le> k \<and> k < h * stride + w")
    case True
    then obtain x where x: "k = h * stride + x" "x < w" by (metis add_less_cancel_left le_iff_add)
    then have "k mod stride = x" "k div stride = h" using assms(2) by auto
    then show ?thesis using True k fit ih(1) x by (simp add: nth_blit)
  next
    case False
    then have "\<not> (k mod stride < w \<and> k div stride = h)" by (metis add_less_cancel_left div_mult_mod_eq le_add1)
    then show ?thesis using False k fit ih by (auto simp: nth_blit less_Suc_eq)
  qed
  show ?case unfolding step using at fit ih(1) by simp
qed

text \<open>
  C33: Whatever strip is asked for, and whether or not the transposed copy of the map is
  present, the entries delivered are those of the map: a column, a row and a rectangle show the
  map tile for tile (wrapped round, or surrounded by the substitute entry), and the rectangle
  leaves the rest of the destination as it was.
\<close>
theorem metatile_strips_exact:
  assumes "layer_over L rows defs"
    and "n \<le> length out" and "- 2147483648 \<le> ty" and "ty + int n \<le> 2147483648"
    and "0 < h" and "w \<le> stride" and "(h - 1) * stride + w \<le> length screen"
    and "- 2147483648 \<le> tx" and "tx + int w \<le> 2147483648" and "ty + int h \<le> 2147483648"
    and "tx + int n \<le> 2147483648"
  shows "hx421_metatile_column L tx ty n out = blit out 0 (map (\<lambda>i. tile_at L rows defs tx (ty + int i)) [0..<n]) \<and>
    hx421_metatile_row L ty tx n out = blit out 0 (map (\<lambda>i. tile_at L rows defs (tx + int i) ty) [0..<n]) \<and>
    (let r = hx421_metatile_rect L tx ty w h screen stride in length r = length screen \<and>
       (\<forall>k < length screen. r ! k = (if k mod stride < w \<and> k div stride < h
          then tile_at L rows defs (tx + int (k mod stride)) (ty + int (k div stride)) else screen ! k)))"
proof (intro conjI)
  have v: "hx421_metatile_layer_valid L" using assms(1) by (simp add: layer_over_def)
  have e: "map (\<lambda>i. tile_at L rows defs tx (i32 (ty + int i))) [0..<n] = map (\<lambda>i. tile_at L rows defs tx (ty + int i)) [0..<n]"
    "map (\<lambda>i. tile_at L rows defs (i32 (tx + int i)) ty) [0..<n] = map (\<lambda>i. tile_at L rows defs (tx + int i) ty) [0..<n]"
    using assms(3,4,8,11) by simp_all
  have run: "foldl (\<lambda>xs i. xs[i := g i]) out [0..<n] = blit out 0 (map g [0..<n])" for g
    using foldl_store_run [of 0 n out g] assms(2) by simp
  show "hx421_metatile_column L tx ty n out = blit out 0 (map (\<lambda>i. tile_at L rows defs tx (ty + int i)) [0..<n])"
    "hx421_metatile_row L ty tx n out = blit out 0 (map (\<lambda>i. tile_at L rows defs (tx + int i) ty) [0..<n])"
    unfolding hx421_metatile_column_def hx421_metatile_row_def Let_def mt_lookup_eq [OF assms(1)] run e
    using v by simp_all
  have "length (foldl (rect_row L tx ty w stride) screen [0..<h]) = length screen \<and>
      (\<forall>k < length screen. foldl (rect_row L tx ty w stride) screen [0..<h] ! k = (if k mod stride < w \<and> k div stride < h
          then tile_at L rows defs (tx + int (k mod stride)) (ty + int (k div stride)) else screen ! k))"
    using assms by (intro rect_rows) auto
  then show "let r = hx421_metatile_rect L tx ty w h screen stride in length r = length screen \<and>
       (\<forall>k < length screen. r ! k = (if k mod stride < w \<and> k div stride < h
          then tile_at L rows defs (tx + int (k mod stride)) (ty + int (k div stride)) else screen ! k))"
    using v assms(5) by (cases "w = 0") (simp_all add: hx421_metatile_rect_def)
qed

text \<open>A map of 2 by 1 metatiles that wraps, with its transposed copy.\<close>

definition small_layer :: map_layer where
  "small_layer = \<lparr>ml_map_rows = Some [1, 0], ml_map_cols = Some (hx421_metatile_transpose [1, 0] 2 1 [9, 9]),
     ml_map_w = 2, ml_map_h = 1, ml_defs = Some [10, 11, 12, 13, 20, 21, 22, 23], ml_def_count = 2, ml_mt_side = 2,
     ml_oob_entry = 5, ml_wrap = True\<rparr>"

theorem metatile_strips_exact_witness:
  "hx421_metatile_column small_layer (- 1) (- 3) 4 [0, 0, 0, 0, 7] = [13, 11, 13, 11, 7]"
proof -
  have "layer_over small_layer [1, 0] [10, 11, 12, 13, 20, 21, 22, 23]"
    unfolding layer_over_def
    by (auto simp: small_layer_def hx421_metatile_layer_valid_def mt_shift_def intro!: exI [of _ "[9, 9]"])
  from metatile_strips_exact [OF this, of 4 "[0, 0, 0, 0, 7]" "- 3" 1 0 0 "[]" "- 1"]
  have "hx421_metatile_column small_layer (- 1) (- 3) 4 [0, 0, 0, 0, 7] =
    blit [0, 0, 0, 0, 7] 0 (map (\<lambda>i. tile_at small_layer [1, 0] [10, 11, 12, 13, 20, 21, 22, 23] (- 1) (- 3 + int i)) [0..<4])"
    by simp
  also have "\<dots> = [13, 11, 13, 11, 7]" by code_simp
  finally show ?thesis .
qed

end
