(* ===== verification/Stream_Sources.thy ===== *)
theory Stream_Sources
  imports Music_Player Audio_Pool Ring_Stream
begin

unbundle bit_operations_syntax

text \<open>
  The three sources that feed a music player through its stream callback:
  \<^verbatim>\<open>engine/audio/audio_pool_stream.c\<close> (objects of the pool), \<^verbatim>\<open>engine/audio/audio_file_stream.c\<close>
  (a WAV file read through the reader of the platform) and the push ring.  Each is a value of
  type \<^typ>\<open>'u stream_fn\<close>: it delivers the number of frames, the bytes it stored at the
  destination, and the new state of the source.  The platform's reader is not part of this
  program: its five entries are a record of functions over a file system of their own.
\<close>

section \<open>The pool as a source\<close>

record pool_stream =
  ps_stream_id :: "int list"
  ps_handle :: "obj_handle list"
  ps_bytes_per_frame :: nat
  ps_promote_stereo :: bool

fun fmt_bpf :: "mixer_src \<Rightarrow> nat" where
  "fmt_bpf MIXER_SRC_PCM16_MONO = 2"
| "fmt_bpf MIXER_SRC_PCM8S_MONO = 1"
| "fmt_bpf MIXER_SRC_PCM8U_MONO = 1"
| "fmt_bpf MIXER_SRC_PCM16_STEREO = 4"
| "fmt_bpf MIXER_SRC_PCM8S_STEREO = 2"
| "fmt_bpf MIXER_SRC_PCM8U_STEREO = 2"

definition audio_pool_stream_init :: "mixer_src \<Rightarrow> pool_stream option" where
  "audio_pool_stream_init format =
     (let bpf = fmt_bpf format in
      if bpf = 0 then None
      else Some \<lparr>ps_stream_id = [MUSIC_STREAM_NONE, MUSIC_STREAM_NONE], ps_handle = [0, 0],
                 ps_bytes_per_frame = bpf, ps_promote_stereo = False\<rparr>)"

definition audio_pool_stream_set_promote_stereo :: "pool_stream \<Rightarrow> bool \<Rightarrow> pool_stream" where
  "audio_pool_stream_set_promote_stereo ctx on = ctx\<lparr>ps_promote_stereo := on\<rparr>"

text \<open>The slot that a stream is bound to.\<close>

definition bound_slot :: "pool_stream \<Rightarrow> int \<Rightarrow> nat option" where
  "bound_slot ctx sid =
     find (\<lambda>i. ps_stream_id ctx ! i = sid \<and> ps_stream_id ctx ! i \<noteq> MUSIC_STREAM_NONE) [0, 1]"

definition audio_pool_stream_bind :: "pool_stream \<Rightarrow> int \<Rightarrow> obj_handle \<Rightarrow> bool \<times> pool_stream" where
  "audio_pool_stream_bind ctx sid h =
     (case bound_slot ctx sid of
        Some i \<Rightarrow>
          if h = 0
          then (True, ctx\<lparr>ps_stream_id := (ps_stream_id ctx)[i := MUSIC_STREAM_NONE], ps_handle := (ps_handle ctx)[i := 0]\<rparr>)
          else (True, ctx\<lparr>ps_handle := (ps_handle ctx)[i := h]\<rparr>)
      | None \<Rightarrow>
          if h = 0 then (True, ctx)
          else case find (\<lambda>i. ps_stream_id ctx ! i = MUSIC_STREAM_NONE) [0, 1] of
                 Some i \<Rightarrow> (True, ctx\<lparr>ps_stream_id := (ps_stream_id ctx)[i := sid], ps_handle := (ps_handle ctx)[i := h]\<rparr>)
               | None \<Rightarrow> (False, ctx))"

definition lookup_stream :: "pool_stream \<Rightarrow> int \<Rightarrow> obj_handle" where
  "lookup_stream ctx sid = (case bound_slot ctx sid of Some i \<Rightarrow> ps_handle ctx ! i | None \<Rightarrow> 0)"

text \<open>One sample of the expansion in place, from the last to the first.\<close>

definition promote_step :: "byte list \<Rightarrow> nat \<Rightarrow> byte list" where
  "promote_step d i = (let m = seg (i * 2) 2 d in blit (blit d (i * 2 * 2) m) ((i * 2 + 1) * 2) m)"

definition promote_in_place :: "nat \<Rightarrow> byte list \<Rightarrow> byte list" where
  "promote_in_place frames d = foldl promote_step d (rev [0..<frames])"

text \<open>
  The read.  The destination of a promoted read has room for twice the samples; what lies behind
  the samples read is overwritten, here it is zero.
\<close>

definition audio_pool_stream_read :: "(pool_stream \<times> audio_pool) stream_fn" where
  "audio_pool_stream_read u sid requested off =
     (case u of (ctx, p) \<Rightarrow>
        let bpf = ps_bytes_per_frame ctx; h = lookup_stream ctx sid in
        if bpf = 0 then (0, [], u)
        else if h = 0 then (0, [], u)
        else case audio_pool_read p h (u32 (off * bpf)) (u32 (requested * bpf)) of
               (r, bytes) \<Rightarrow>
                 if r \<noteq> AUDIO_POOL_OK then (0, [], u)
                 else let frames = length bytes div bpf in
                      if ps_promote_stereo ctx
                      then (frames, promote_in_place frames (bytes @ replicate (4 * frames - length bytes) 0), u)
                      else (frames, bytes, u))"

section \<open>A file as a source\<close>

record ('f, 'h) file_reader =
  rd_open :: "'f \<Rightarrow> string \<Rightarrow> 'h option \<times> 'f"
  rd_read :: "'f \<Rightarrow> 'h \<Rightarrow> nat \<Rightarrow> byte list \<times> 'f"
  rd_seek :: "'f \<Rightarrow> 'h \<Rightarrow> nat \<Rightarrow> bool \<times> 'f"
  rd_close :: "'f \<Rightarrow> 'h \<Rightarrow> 'f"

record 'h file_stream =
  fc_fh :: "'h option"
  fc_data_offset :: nat
  fc_data_bytes :: nat
  fc_channels :: nat
  fc_bits :: nat
  fc_sample_rate :: nat
  fc_src_frame_bytes :: nat

definition HEADER_PROBE :: nat where "HEADER_PROBE = 4096"
definition AUDIO_FILE_STREAM_SCRATCH :: nat where "AUDIO_FILE_STREAM_SCRATCH = 4096"

definition file_stream_zero :: "'h file_stream" where
  "file_stream_zero = \<lparr>fc_fh = None, fc_data_offset = 0, fc_data_bytes = 0, fc_channels = 0, fc_bits = 0,
     fc_sample_rate = 0, fc_src_frame_bytes = 0\<rparr>"

text \<open>
  \<^term>\<open>None\<close> when the parser does not return.  A parse that succeeds has found the data, so the
  branch without data is not reached.
\<close>

definition audio_file_stream_open ::
    "('f, 'h) file_reader \<Rightarrow> string \<Rightarrow> 'f \<Rightarrow> (bool \<times> 'h file_stream \<times> 'f) option" where
  "audio_file_stream_open rd path fs0 =
     (case rd_open rd fs0 path of
        (None, fs1) \<Rightarrow> Some (False, file_stream_zero, fs1)
      | (Some fh, fs1) \<Rightarrow>
          let ctx = file_stream_zero\<lparr>fc_fh := Some fh\<rparr>;
              fail = (\<lambda>ctx fs. Some (False, ctx\<lparr>fc_fh := None\<rparr>, rd_close rd fs fh))
          in case rd_seek rd fs1 fh 0 of
               (False, fs2) \<Rightarrow> fail ctx fs2
             | (True, fs2) \<Rightarrow>
                 (case rd_read rd fs2 fh HEADER_PROBE of
                    (hdr, fs3) \<Rightarrow>
                      let n = length hdr in
                      if n < 12 then fail ctx fs3
                      else case wav_parse 64 hdr of
                        None \<Rightarrow> None
                      | Some (r, info) \<Rightarrow>
                          if r \<noteq> WAV_OK then fail ctx fs3
                          else case wi_data info of
                            None \<Rightarrow> fail ctx fs3
                          | Some (_, data_off) \<Rightarrow>
                              if data_off < 8 \<or> n < data_off then fail ctx fs3
                              else let ctx = ctx\<lparr>fc_data_offset := data_off, fc_data_bytes := rd_u32le hdr (data_off - 4),
                                         fc_channels := wi_channels info, fc_bits := wi_bits info,
                                         fc_sample_rate := wi_sample_rate info,
                                         fc_src_frame_bytes := wi_channels info * (wi_bits info div 8)\<rparr>
                                   in if fc_src_frame_bytes ctx = 0 then fail ctx fs3 else Some (True, ctx, fs3)))"

text \<open>Interleaved stereo samples as the bytes of the destination.\<close>

definition stereo_bytes :: "(int \<times> int) list \<Rightarrow> byte list" where
  "stereo_bytes fs = concat (map (\<lambda>(l, r). put_s16le l @ put_s16le r) fs)"

text \<open>The chunk that a pass has read, as the parser would describe it.\<close>

definition chunk_info :: "'h file_stream \<Rightarrow> byte list \<Rightarrow> nat \<Rightarrow> wav_info" where
  "chunk_info ctx b got_frames = \<lparr>wi_format = 1, wi_channels = fc_channels ctx, wi_sample_rate = fc_sample_rate ctx,
     wi_bits = fc_bits ctx, wi_data = Some (b, 0), wi_data_bytes = got_frames * fc_src_frame_bytes ctx\<rparr>"

text \<open>
  A pass of the loop over the chunks, on the frames produced, the current frame, the bytes stored
  and the file system, and whether there is another one.
\<close>

definition file_chunk :: "('f, 'h) file_reader \<Rightarrow> 'h file_stream \<Rightarrow> 'h \<Rightarrow> nat \<Rightarrow> nat \<Rightarrow> nat \<times> nat \<times> byte list \<times> 'f \<Rightarrow>
    bool \<times> nat \<times> nat \<times> byte list \<times> 'f" where
  "file_chunk rd ctx fh nframes requested s =
     (case s of (produced, cur, out, fs) \<Rightarrow>
        if produced < requested \<and> cur < nframes
        then let fb = fc_src_frame_bytes ctx;
                 want = min (min (sub32 (u32 requested) produced) (AUDIO_FILE_STREAM_SCRATCH div fb)) (nframes - cur)
             in case rd_read rd fs fh (u32 (want * fb)) of
                  (b, fs1) \<Rightarrow>
                    let got_frames = length b div fb in
                    if got_frames = 0 then (False, produced, cur, out, fs1)
                    else let conv = wav_to_stereo_pcm16 (chunk_info ctx b got_frames) got_frames
                         in (want \<le> got_frames, u32 (produced + length conv), u32 (cur + got_frames),
                             out @ stereo_bytes conv, fs1)
        else (False, s))"

text \<open>
  Every pass but the last produces a frame, so the number of frames requested is enough fuel.
\<close>

fun file_chunks :: "nat \<Rightarrow> ('f, 'h) file_reader \<Rightarrow> 'h file_stream \<Rightarrow> 'h \<Rightarrow> nat \<Rightarrow> nat \<Rightarrow> nat \<times> nat \<times> byte list \<times> 'f \<Rightarrow>
    nat \<times> nat \<times> byte list \<times> 'f" where
  "file_chunks 0 rd ctx fh nframes requested s = s"
| "file_chunks (Suc k) rd ctx fh nframes requested s =
     (case file_chunk rd ctx fh nframes requested s of
        (again, s1) \<Rightarrow> if again then file_chunks k rd ctx fh nframes requested s1 else s1)"

definition audio_file_stream_read :: "('f, 'h) file_reader \<Rightarrow> ('h file_stream \<times> 'f) stream_fn" where
  "audio_file_stream_read rd u sid requested off =
     (case u of (ctx, fs) \<Rightarrow>
        (case fc_fh ctx of
           None \<Rightarrow> (0, [], u)
         | Some fh \<Rightarrow>
             if fc_src_frame_bytes ctx = 0 then (0, [], u)
             else let fb = fc_src_frame_bytes ctx; nframes = fc_data_bytes ctx div fb in
                  if nframes \<le> off then (0, [], u)
                  else let cur = u32 off in
                       case rd_seek rd fs fh (u32 (fc_data_offset ctx + cur * fb)) of
                         (False, fs1) \<Rightarrow> (0, [], (ctx, fs1))
                       | (True, fs1) \<Rightarrow>
                           (case file_chunks requested rd ctx fh nframes requested (0, cur, [], fs1) of
                              (produced, _, out, fs2) \<Rightarrow> (produced, out, (ctx, fs2)))))"

definition audio_file_stream_close :: "('f, 'h) file_reader \<Rightarrow> 'h file_stream \<times> 'f \<Rightarrow> 'h file_stream \<times> 'f" where
  "audio_file_stream_close rd u =
     (case u of (ctx, fs) \<Rightarrow>
        (case fc_fh ctx of None \<Rightarrow> u | Some fh \<Rightarrow> (ctx\<lparr>fc_fh := None\<rparr>, rd_close rd fs fh)))"

section \<open>The ring as a source\<close>

text \<open>The ring ignores the stream and the offset; its frames go to the destination interleaved.\<close>

definition ring_stream_source :: "ring_stream stream_fn" where
  "ring_stream_source s sid requested off =
     (case audio_ring_stream_read s requested of (frames, s1) \<Rightarrow> (length frames, stereo_bytes frames, s1))"

end
