(* ===== verification/Stream_Spec.thy ===== *)
theory Stream_Spec
  imports Stream_Sources Music_Props Audio_Pool_Props Wav_Spec
begin

unbundle bit_operations_syntax

text \<open>
  What the stream sources deliver: the contract that the music player relies on (an interface,
  with its interpretation on the ring and its proof for a file), the bytes of a pool object, mono
  or expanded in place, and the frames of a file, in particular of a file that the WAV writer of
  this program made.
\<close>

section \<open>The interface between a source and the player\<close>

locale stream_source =
  fixes source :: "'u stream_fn" and bpf :: nat
  assumes frames_bounded: "fst (source u sid n off) \<le> n"
    and bytes_match: "length (fst (snd (source u sid n off))) = fst (source u sid n off) * bpf"
begin

lemma contract: "stream_ok source bpf"
  by (simp add: stream_ok_def frames_bounded bytes_match)

lemma update_keeps_player: "music_inv mp \<Longrightarrow> mp_bytes_per_frame mp = bpf \<Longrightarrow> music_inv (fst (music_update source (mp, mx, u)))"
  using music_update_ok [of mp source mx u] contract by simp

lemma update_keeps_format: "music_inv mp \<Longrightarrow> mp_bytes_per_frame mp = bpf \<Longrightarrow>
    mp_bytes_per_frame (fst (music_update source (mp, mx, u))) = bpf"
  using update_bpf [of mp source mx u] contract by simp

end

lemma length_stereo_bytes [simp]: "length (stereo_bytes fs) = 4 * length fs"
  by (induction fs) (auto simp: stereo_bytes_def)

lemma length_ring_read: "length (fst (audio_ring_stream_read s n)) \<le> n"
  by (auto simp: audio_ring_stream_read_def read_frames_def Let_def)

interpretation ring: stream_source ring_stream_source 4
proof unfold_locales
  fix u :: ring_stream and sid n off
  show "fst (ring_stream_source u sid n off) \<le> n"
    using length_ring_read [of u n] by (simp add: ring_stream_source_def case_prod_beta)
  show "length (fst (snd (ring_stream_source u sid n off))) = fst (ring_stream_source u sid n off) * 4"
    by (simp add: ring_stream_source_def split: prod.splits)
qed

text \<open>A file keeps the contract if the reader of the platform never stores more than it is asked for.\<close>

definition reader_bounded :: "('f, 'h) file_reader \<Rightarrow> bool" where
  "reader_bounded rd \<longleftrightarrow> (\<forall>fs fh n. length (fst (rd_read rd fs fh n)) \<le> n)"

lemma length_stereo_chunk:
  "0 < fc_src_frame_bytes ctx \<Longrightarrow> length (wav_to_stereo_pcm16 (chunk_info ctx b g) g) \<le> g"
  by (simp add: wav_to_stereo_pcm16_def chunk_info_def Let_def)

lemma sub32_small: "b \<le> a \<Longrightarrow> a < 4294967296 \<Longrightarrow> sub32 a b = a - b"
proof -
  assume a: "b \<le> a" "a < 4294967296"
  then obtain c where c: "a = b + c" using le_Suc_ex by blast
  then have "c < 4294967296" "b + c + 4294967296 - b = c + 4294967296" using a by simp_all
  then show "sub32 a b = a - b" using c by (simp add: sub32_def u32_def)
qed

lemma file_chunk_bounded:
  assumes "reader_bounded rd" and "0 < fc_src_frame_bytes ctx"
    and "produced \<le> u32 n" and "length out = 4 * produced"
    and "file_chunk rd ctx fh nframes n (produced, cur, out, fs) = (again, produced', cur', out', fs')"
  shows "produced' \<le> u32 n \<and> length out' = 4 * produced'"
proof -
  let ?fb = "fc_src_frame_bytes ctx"
  let ?want = "min (min (sub32 (u32 n) produced) (AUDIO_FILE_STREAM_SCRATCH div ?fb)) (nframes - cur)"
  obtain b fs1 where r: "rd_read rd fs fh (u32 (?want * ?fb)) = (b, fs1)" by fastforce
  let ?g = "length b div ?fb"
  let ?conv = "wav_to_stereo_pcm16 (chunk_info ctx b ?g) ?g"
  have "length b \<le> u32 (?want * ?fb)" using assms(1) r unfolding reader_bounded_def by (metis fst_conv)
  also have "\<dots> \<le> ?want * ?fb" by (simp add: u32_def)
  finally have "?g \<le> ?want * ?fb div ?fb" by (rule div_le_mono)
  then have "length ?conv \<le> ?want" using length_stereo_chunk [OF assms(2), of b ?g] assms(2) by simp
  moreover have "sub32 (u32 n) produced = u32 n - produced" using assms(3) by (intro sub32_small) simp_all
  ultimately have p: "produced + length ?conv \<le> u32 n" using assms(3) by linarith
  then have "u32 (produced + length ?conv) = produced + length ?conv" using u32_less [of n] by (intro u32_id) linarith
  then show ?thesis
  proof (cases "produced < n \<and> cur < nframes \<and> ?g \<noteq> 0")
    case True
    then have "file_chunk rd ctx fh nframes n (produced, cur, out, fs) =
        (?want \<le> ?g, u32 (produced + length ?conv), u32 (cur + ?g), out @ stereo_bytes ?conv, fs1)"
      unfolding file_chunk_def Let_def prod.case r by simp
    then show ?thesis using assms(4,5) p \<open>u32 (produced + length ?conv) = produced + length ?conv\<close> by simp
  next
    case False
    then have "\<exists>cur1 f2. file_chunk rd ctx fh nframes n (produced, cur, out, fs) = (False, produced, cur1, out, f2)"
      unfolding file_chunk_def Let_def prod.case r by simp
    then show ?thesis using assms(3-5) by auto
  qed
qed

lemma file_chunks_bounded:
  assumes "reader_bounded rd" and "0 < fc_src_frame_bytes ctx"
    and "produced \<le> u32 n" and "length out = 4 * produced"
    and "file_chunks k rd ctx fh nframes n (produced, cur, out, fs) = (produced', cur', out', fs')"
  shows "produced' \<le> u32 n \<and> length out' = 4 * produced'"
  using assms(3-5)
proof (induction k arbitrary: produced cur out fs)
  case (Suc k)
  obtain again p1 c1 o1 f1 where s: "file_chunk rd ctx fh nframes n (produced, cur, out, fs) = (again, p1, c1, o1, f1)"
    by (metis prod_cases5)
  note b = file_chunk_bounded [OF assms(1,2) Suc.prems(1,2) s]
  show ?case using Suc.IH [of p1 o1 c1 f1] b Suc.prems(3) s by (auto split: if_splits)
qed simp

lemma file_stream_source:
  assumes "reader_bounded rd"
  shows "stream_source (audio_file_stream_read rd) 4"
proof -
  have "fst (audio_file_stream_read rd u sid n off) \<le> n \<and>
      length (fst (snd (audio_file_stream_read rd u sid n off))) = fst (audio_file_stream_read rd u sid n off) * 4"
    for u sid n off
  proof (cases "\<exists>ctx fs fh fs1. u = (ctx, fs) \<and> fc_fh ctx = Some fh \<and> fc_src_frame_bytes ctx \<noteq> 0 \<and>
      off < fc_data_bytes ctx div fc_src_frame_bytes ctx \<and>
      rd_seek rd fs fh (u32 (fc_data_offset ctx + u32 off * fc_src_frame_bytes ctx)) = (True, fs1)")
    case True
    then obtain ctx fs fh fs1 where u: "u = (ctx, fs)" "fc_fh ctx = Some fh" "fc_src_frame_bytes ctx \<noteq> 0"
      "off < fc_data_bytes ctx div fc_src_frame_bytes ctx"
      "rd_seek rd fs fh (u32 (fc_data_offset ctx + u32 off * fc_src_frame_bytes ctx)) = (True, fs1)" by blast
    obtain p c out fs2 where c: "file_chunks n rd ctx fh (fc_data_bytes ctx div fc_src_frame_bytes ctx) n (0, u32 off, [], fs1) =
        (p, c, out, fs2)" by (metis prod_cases4)
    have "p \<le> u32 n \<and> length out = 4 * p"
      using file_chunks_bounded [OF assms _ _ _ c] u(3) by simp
    moreover have "u32 n \<le> n" by (simp add: u32_def)
    ultimately show ?thesis using u c by (simp add: audio_file_stream_read_def Let_def)
  next
    case False
    then have "fst (audio_file_stream_read rd u sid n off) = 0 \<and> fst (snd (audio_file_stream_read rd u sid n off)) = []"
      by (cases u) (auto simp: audio_file_stream_read_def Let_def split: option.splits prod.splits bool.splits)
    then show ?thesis by simp
  qed
  then show ?thesis by unfold_locales auto
qed

section \<open>Objects of the pool\<close>

text \<open>The expansion in place reads every sample before it overwrites it.\<close>

lemma promote_step_at:
  assumes "4 * (n + 1) \<le> length d" and "i < length d"
  shows "promote_step d n ! i = (if 4 * n \<le> i \<and> i < 4 * n + 4 then d ! (2 * n + (i - 4 * n) mod 2) else d ! i)"
proof -
  define m where "m = seg (n * 2) 2 d"
  have lm: "length m = 2" using assms(1) by (simp add: m_def)
  have m: "m ! k = d ! (2 * n + k)" if "k < 2" for k
    using that assms(1) by (simp add: m_def nth_seg mult.commute)
  define d1 where "d1 = blit d (4 * n) m"
  have l1: "length d1 = length d" using assms(1) lm by (simp add: d1_def)
  have a1: "d1 ! i = (if 4 * n \<le> i \<and> i < 4 * n + 2 then m ! (i - 4 * n) else d ! i)"
    unfolding d1_def using nth_blit [of "4 * n" m d i] assms lm by simp
  have "promote_step d n = blit d1 (4 * n + 2) m"
    by (simp add: promote_step_def Let_def d1_def m_def mult.commute)
  then have a2: "promote_step d n ! i = (if 4 * n + 2 \<le> i \<and> i < 4 * n + 2 + 2 then m ! (i - (4 * n + 2)) else d1 ! i)"
    using nth_blit [of "4 * n + 2" m d1 i] assms lm l1 by simp
  consider "i < 4 * n" | "i = 4 * n" | "i = 4 * n + 1" | "i = 4 * n + 2" | "i = 4 * n + 3" | "4 * n + 4 \<le> i"
    by linarith
  then show ?thesis by cases (use a1 a2 m [of 0] m [of 1] in simp_all)
qed

lemma length_promote_step: "4 * (n + 1) \<le> length d \<Longrightarrow> length (promote_step d n) = length d"
  by (simp add: promote_step_def Let_def)

lemma half_index: "i < 4 * n \<Longrightarrow> 2 * (i div 4) + i mod 2 < 2 * (n :: nat)"
proof -
  assume "i < 4 * n"
  then have "i div 4 < n" by (simp add: less_mult_imp_div_less mult.commute)
  moreover have "i mod 2 < 2" by simp
  ultimately show ?thesis by linarith
qed

lemma promote_in_place_at:
  assumes "4 * n \<le> length d"
  shows "length (promote_in_place n d) = length d \<and>
    (\<forall>i < length d. promote_in_place n d ! i = (if i < 4 * n then d ! (2 * (i div 4) + i mod 2) else d ! i))"
  using assms
proof (induction n arbitrary: d)
  case 0
  then show ?case by (simp add: promote_in_place_def)
next
  case (Suc n)
  let ?d = "promote_step d n"
  have len: "length ?d = length d" using length_promote_step [of n d] Suc.prems by simp
  have step: "promote_in_place (Suc n) d = promote_in_place n ?d" by (simp add: promote_in_place_def)
  have ih: "length (promote_in_place n ?d) = length ?d"
    "\<And>i. i < length ?d \<Longrightarrow> promote_in_place n ?d ! i = (if i < 4 * n then ?d ! (2 * (i div 4) + i mod 2) else ?d ! i)"
    using Suc.IH [of ?d] Suc.prems len by auto
  have at: "?d ! i = (if 4 * n \<le> i \<and> i < 4 * n + 4 then d ! (2 * n + (i - 4 * n) mod 2) else d ! i)" if "i < length d" for i
    using promote_step_at [of n d i] Suc.prems that by simp
  have "promote_in_place n ?d ! i = (if i < 4 * Suc n then d ! (2 * (i div 4) + i mod 2) else d ! i)" if i: "i < length d" for i
  proof -
    consider "i < 4 * n" | "4 * n \<le> i" "i < 4 * n + 4" | "4 * n + 4 \<le> i" by linarith
    then show ?thesis
    proof cases
      case 1
      then have j: "2 * (i div 4) + i mod 2 < 4 * n" using half_index [of i n] by simp
      moreover have "2 * (i div 4) + i mod 2 < length d" by (rule less_le_trans [OF j]) (use Suc.prems in simp)
      ultimately have "?d ! (2 * (i div 4) + i mod 2) = d ! (2 * (i div 4) + i mod 2)" using at by simp
      then show ?thesis using 1 ih(2) [of i] i len by simp
    next
      case 2
      obtain r where r: "i = 4 * n + r" "r < 4" using 2 le_Suc_ex by (metis add_less_cancel_left)
      have "(4 * n + r) mod 2 = r mod 2" by presburger
      then have "i div 4 = n" "(i - 4 * n) mod 2 = i mod 2" using r by simp_all
      moreover have "promote_in_place n ?d ! i = ?d ! i" using 2 ih(2) [of i] i len by simp
      moreover have "?d ! i = d ! (2 * n + (i - 4 * n) mod 2)" using 2 at [OF i] by simp
      ultimately show ?thesis using 2 by simp
    next
      case 3
      then show ?thesis using ih(2) [of i] at [OF i] i len by simp
    qed
  qed
  then show ?case using step ih(1) len by simp
qed

text \<open>Every two-byte sample twice.\<close>

definition doubled :: "nat \<Rightarrow> byte list \<Rightarrow> byte list" where
  "doubled k b = map (\<lambda>i. b ! (2 * (i div 4) + i mod 2)) [0..<4 * k]"

lemma promote_doubles:
  assumes "length b = 2 * k" and "length rest = 2 * k"
  shows "promote_in_place k (b @ rest) = doubled k b"
proof (rule nth_equalityI)
  have p: "length (promote_in_place k (b @ rest)) = 4 * k"
    "\<And>i. i < 4 * k \<Longrightarrow> promote_in_place k (b @ rest) ! i = (b @ rest) ! (2 * (i div 4) + i mod 2)"
    using promote_in_place_at [of k "b @ rest"] assms by simp_all
  then show "length (promote_in_place k (b @ rest)) = length (doubled k b)" by (simp add: doubled_def)
  fix i assume "i < length (promote_in_place k (b @ rest))"
  then have i: "i < 4 * k" by (simp add: p(1))
  then have "2 * (i div 4) + i mod 2 < 2 * k" by (rule half_index)
  then show "promote_in_place k (b @ rest) ! i = doubled k b ! i"
    using p(2) [OF i] i assms by (simp add: doubled_def nth_append)
qed

text \<open>
  A player that streams an object of the pool gets its frames: the callback delivers as many
  of the requested frames as the object has from the offset on, with the bytes of the object, or
  with every mono sample on both channels when the source promotes, and changes nothing.
\<close>
theorem pool_stream_serves_object:
  assumes "pool_ok p" and "audio_pool_handle_valid p h" and "lookup_stream ctx sid = h" and "h \<noteq> 0"
    and "ps_bytes_per_frame ctx = fb" and "0 < fb" and "fb dvd audio_pool_object_size p h"
    and "ps_promote_stereo ctx \<longrightarrow> fb = 2" and "off * fb < 4294967296" and "n * fb < 4294967296"
  shows "let k = min n (audio_pool_object_size p h div fb - off); src = seg (off * fb) (k * fb) (object_bytes p h) in
    audio_pool_stream_read (ctx, p) sid n off = (k, if ps_promote_stereo ctx then doubled k src else src, (ctx, p))"
proof -
  obtain ch where inv: "pool_inv p ch" using assms(1) by (auto simp: pool_ok_def)
  obtain s where s: "resolve p h = Some s" using assms(2) by (auto simp: audio_pool_handle_valid_def)
  define S where "S = audio_pool_object_size p h div fb"
  have S: "audio_pool_object_size p h = S * fb" using assms(7) by (simp add: S_def)
  define k where "k = min n (S - off)"
  have len: "length (object_bytes p h) = S * fb" using object_bytes_chain(2) [OF inv s] S by simp
  have kb: "min (n * fb) (S * fb - off * fb) = k * fb" by (simp add: k_def min_mult_distrib_right nat_mult_min_left diff_mult_distrib)
  have rd: "audio_pool_read p h (off * fb) (n * fb) = (AUDIO_POOL_OK, seg (off * fb) (k * fb) (object_bytes p h))"
  proof -
    have "seg (off * fb) (n * fb) (object_bytes p h) = seg (off * fb) (k * fb) (object_bytes p h)"
      using kb len by (metis length_drop min.commute seg_def take_all_iff take_take length_seg nat_le_linear)
    then show ?thesis unfolding audio_pool_read_chain [OF inv s] object_bytes_chain(1) [OF inv s] by simp
  qed
  define src where "src = seg (off * fb) (k * fb) (object_bytes p h)"
  have l: "length src = k * fb" using kb len by (simp add: src_def)
  have "audio_pool_stream_read (ctx, p) sid n off = (k, if ps_promote_stereo ctx then doubled k src else src, (ctx, p))"
  proof (cases "ps_promote_stereo ctx")
    case True
    then have "fb = 2" using assms(8) by simp
    then have "length src = 2 * k" "length (replicate (4 * k - length src) (0 :: byte)) = 2 * k" using l by simp_all
    from promote_doubles [OF this] show ?thesis
      using True assms(3-6,9,10) rd [folded src_def] l \<open>fb = 2\<close> by (simp add: audio_pool_stream_read_def Let_def)
  next
    case False
    then show ?thesis using assms(3-6,9,10) rd [folded src_def] l by (simp add: audio_pool_stream_read_def Let_def)
  qed
  then show ?thesis unfolding Let_def S_def [symmetric] k_def [symmetric] src_def [symmetric] .
qed

section \<open>Files\<close>

text \<open>
  What a reader promises of a file with the contents \<open>F\<close>: opening it succeeds at position 0, seeking
  inside it succeeds, and reading delivers the bytes at the position, as many as there are.  \<open>P\<close>
  relates the state of the file system to a handle and its position.
\<close>

definition reader_serves ::
    "('f, 'h) file_reader \<Rightarrow> string \<Rightarrow> byte list \<Rightarrow> ('f \<Rightarrow> 'h \<Rightarrow> nat \<Rightarrow> bool) \<Rightarrow> bool" where
  "reader_serves rd path F P \<longleftrightarrow>
     (\<forall>fs. \<exists>fh fs1. rd_open rd fs path = (Some fh, fs1) \<and> P fs1 fh 0) \<and>
     (\<forall>fs fh p q. P fs fh p \<longrightarrow> q \<le> length F \<longrightarrow> (\<exists>fs1. rd_seek rd fs fh q = (True, fs1) \<and> P fs1 fh q)) \<and>
     (\<forall>fs fh p n. P fs fh p \<longrightarrow>
        (\<exists>fs1. rd_read rd fs fh n = (seg p n F, fs1) \<and> P fs1 fh (min (p + n) (length F))))"

lemma reader_servesD:
  assumes "reader_serves rd path F P"
  shows "\<exists>fh fs1. rd_open rd fs path = (Some fh, fs1) \<and> P fs1 fh 0"
    and "P fs fh p \<Longrightarrow> q \<le> length F \<Longrightarrow> \<exists>fs1. rd_seek rd fs fh q = (True, fs1) \<and> P fs1 fh q"
    and "P fs fh p \<Longrightarrow> \<exists>fs1. rd_read rd fs fh n = (seg p n F, fs1) \<and> P fs1 fh (min (p + n) (length F))"
  using assms unfolding reader_serves_def by blast+

text \<open>The data of an open source lie in the file.\<close>

definition data_in_file :: "'h file_stream \<Rightarrow> byte list \<Rightarrow> bool" where
  "data_in_file ctx F \<longleftrightarrow> fc_channels ctx \<in> {1, 2} \<and> fc_bits ctx \<in> {8, 16} \<and>
     fc_src_frame_bytes ctx = fc_channels ctx * (fc_bits ctx div 8) \<and>
     fc_data_offset ctx + fc_data_bytes ctx \<le> length F \<and> length F < 4294967296"

lemma sample_seg:
  assumes "p + 2 \<le> n" and "base + n \<le> length F"
  shows "sample16 (seg base n F) p = sample16 F (base + p)"
  using assms by (simp add: sample16_def rd_u16le_def nth_seg)

lemma stereo_frame_chunk:
  assumes "data_in_file ctx F" and "i < g" and "base + g * fc_src_frame_bytes ctx \<le> length F"
  shows "stereo_frame (chunk_info ctx b k) (seg base (g * fc_src_frame_bytes ctx) F) 0 i =
    stereo_frame (chunk_info ctx F 0) F base i"
proof -
  let ?fb = "fc_src_frame_bytes ctx"
  have fbs: "frame_bytes (chunk_info ctx b k) = ?fb" "frame_bytes (chunk_info ctx F 0) = ?fb"
    using assms(1) by (auto simp: frame_bytes_def chunk_info_def data_in_file_def)
  have i: "i * ?fb + ?fb \<le> g * ?fb" using assms(2) slot_in_bounds by simp
  have s16: "sample16 (seg base (g * ?fb) F) (i * ?fb + o') = sample16 F (base + i * ?fb + o')" if "o' + 2 \<le> ?fb" for o'
    using sample_seg [of "i * ?fb + o'" "g * ?fb" base F] that i assms(3) by (simp add: add.assoc)
  have s8: "sample8 (seg base (g * ?fb) F) (i * ?fb + o') = sample8 F (base + i * ?fb + o')" if "o' + 1 \<le> ?fb" for o'
    using that i assms(3) by (simp add: sample8_def nth_seg add.assoc)
  have c: "fc_channels ctx = 1 \<or> fc_channels ctx = 2" "fc_bits ctx = 8 \<or> fc_bits ctx = 16"
    "?fb = fc_channels ctx * (fc_bits ctx div 8)" using assms(1) by (auto simp: data_in_file_def)
  show ?thesis
    unfolding stereo_frame_def Let_def fbs using c s16 [of 0] s16 [of 2] s8 [of 0] s8 [of 1]
    by (elim disjE) (simp_all add: chunk_info_def)
qed

lemma stereo_frame_shift:
  assumes "data_in_file ctx F"
  shows "stereo_frame (chunk_info ctx F 0) F (base + c * fc_src_frame_bytes ctx) i = stereo_frame (chunk_info ctx F 0) F base (c + i)"
proof -
  have "frame_bytes (chunk_info ctx F 0) = fc_src_frame_bytes ctx"
    using assms by (auto simp: frame_bytes_def chunk_info_def data_in_file_def)
  then show ?thesis by (simp add: stereo_frame_def Let_def add_mult_distrib add.assoc)
qed

text \<open>The frames of the file from \<open>cur\<close> on.\<close>

definition file_frames :: "'h file_stream \<Rightarrow> byte list \<Rightarrow> nat \<Rightarrow> nat \<Rightarrow> (int \<times> int) list" where
  "file_frames ctx F cur n = map (stereo_frame (chunk_info ctx F 0) F (fc_data_offset ctx)) [cur..<cur + n]"

lemma file_frames_add: "file_frames ctx F cur (n + m) = file_frames ctx F cur n @ file_frames ctx F (cur + n) m"
proof -
  have "[cur..<cur + (n + m)] = [cur..<cur + n] @ [cur + n..<cur + n + m]"
    using upt_add_eq_append [of cur "cur + n" m] by (simp add: add.assoc)
  then show ?thesis by (simp add: file_frames_def)
qed

lemma stereo_bytes_append: "stereo_bytes (xs @ ys) = stereo_bytes xs @ stereo_bytes ys"
  by (simp add: stereo_bytes_def)

lemma file_chunk_exact:
  assumes "reader_serves rd path F P" and "data_in_file ctx F" and "P fs fh (fc_data_offset ctx + cur * fc_src_frame_bytes ctx)"
    and "nframes = fc_data_bytes ctx div fc_src_frame_bytes ctx" and "cur < nframes" and "produced < n" and "n < 4294967296"
  shows "\<exists>w fs1. 0 < w \<and> produced + w \<le> n \<and> cur + w \<le> nframes \<and>
    P fs1 fh (fc_data_offset ctx + (cur + w) * fc_src_frame_bytes ctx) \<and>
    file_chunk rd ctx fh nframes n (produced, cur, out, fs) =
      (True, produced + w, cur + w, out @ stereo_bytes (file_frames ctx F cur w), fs1)"
proof -
  let ?fb = "fc_src_frame_bytes ctx" and ?D = "fc_data_offset ctx"
  have fb: "1 \<le> ?fb" "?fb \<le> 4" using assms(2) by (auto simp: data_in_file_def)
  define w where "w = min (min (n - produced) (4096 div ?fb)) (nframes - cur)"
  have "4096 div 4 \<le> 4096 div ?fb" using fb by (intro div_le_mono2) auto
  then have w: "0 < w" "produced + w \<le> n" "cur + w \<le> nframes" "w \<le> 4096 div ?fb"
    using assms(5,6) by (auto simp: w_def)
  have "w * ?fb \<le> 4096" using w(4) fb by (metis div_times_less_eq_dividend dual_order.trans mult_le_mono1)
  then have wf: "u32 (w * ?fb) = w * ?fb" by simp
  have "(cur + w) * ?fb \<le> nframes * ?fb" using w(3) by (intro mult_le_mono1)
  also have "\<dots> \<le> fc_data_bytes ctx" using assms(4) by simp
  finally have inside: "?D + (cur + w) * ?fb \<le> length F" using assms(2) by (simp add: data_in_file_def)
  obtain fs1 where r: "rd_read rd fs fh (w * ?fb) = (seg (?D + cur * ?fb) (w * ?fb) F, fs1)"
    "P fs1 fh (min (?D + cur * ?fb + w * ?fb) (length F))"
    using reader_servesD(3) [OF assms(1,3)] by blast
  have len: "length (seg (?D + cur * ?fb) (w * ?fb) F) = w * ?fb" using inside by (simp add: add_mult_distrib)
  let ?b = "seg (?D + cur * ?fb) (w * ?fb) F"
  have g: "length ?b div ?fb = w" unfolding len using fb by simp
  have "wav_to_stereo_pcm16 (chunk_info ctx ?b w) w = map (stereo_frame (chunk_info ctx ?b w) ?b 0) [0..<w]"
  proof -
    have "frame_bytes (chunk_info ctx ?b w) = ?fb"
      using assms(2) by (auto simp: frame_bytes_def chunk_info_def data_in_file_def)
    then show ?thesis using fb by (simp add: wav_to_stereo_pcm16_def chunk_info_def Let_def)
  qed
  also have "\<dots> = map (\<lambda>i. stereo_frame (chunk_info ctx F 0) F ?D (cur + i)) [0..<w]"
    using inside stereo_frame_chunk [OF assms(2), of _ w "?D + cur * ?fb"] stereo_frame_shift [OF assms(2)]
    by (simp add: add_mult_distrib)
  also have "\<dots> = file_frames ctx F cur w"
    unfolding file_frames_def by (rule nth_equalityI) simp_all
  finally have conv: "wav_to_stereo_pcm16 (chunk_info ctx ?b w) w = file_frames ctx F cur w" .
  have lw: "length (file_frames ctx F cur w) = w" by (simp add: file_frames_def)
  have "nframes \<le> length F"
    using assms(2,4) by (auto simp: data_in_file_def intro: order_trans [OF div_le_dividend])
  then have u: "u32 (produced + w) = produced + w" "u32 (cur + w) = cur + w"
    using w(2,3) assms(2,7) by (auto simp: data_in_file_def intro!: u32_id)
  have sub: "sub32 (u32 n) produced = n - produced" using sub32_small [of produced n] assms(6,7) by simp
  have "file_chunk rd ctx fh nframes n (produced, cur, out, fs) =
      (True, produced + w, cur + w, out @ stereo_bytes (file_frames ctx F cur w), fs1)"
    using assms(5,6) w(1) unfolding file_chunk_def prod.case Let_def sub AUDIO_FILE_STREAM_SCRATCH_def w_def [symmetric] wf r(1) g conv
    by (simp add: u lw)
  moreover have "P fs1 fh (?D + (cur + w) * ?fb)" using r(2) inside by (simp add: add_mult_distrib add.assoc)
  ultimately show ?thesis using w by blast
qed

lemma file_chunks_exact:
  assumes "reader_serves rd path F P" and "data_in_file ctx F" and "P fs fh (fc_data_offset ctx + cur * fc_src_frame_bytes ctx)"
    and "nframes = fc_data_bytes ctx div fc_src_frame_bytes ctx" and "cur \<le> nframes" and "produced \<le> n" and "n < 4294967296"
    and "n - produced \<le> k"
  defines "m \<equiv> min (n - produced) (nframes - cur)"
  shows "\<exists>fs1 p1. P fs1 fh p1 \<and> file_chunks k rd ctx fh nframes n (produced, cur, out, fs) =
    (produced + m, cur + m, out @ stereo_bytes (file_frames ctx F cur m), fs1)"
  using assms(3,5,6,8) unfolding m_def
proof (induction k arbitrary: produced cur out fs)
  case 0
  then show ?case by (auto simp: file_frames_def stereo_bytes_def)
next
  case (Suc k)
  show ?case
  proof (cases "cur < nframes \<and> produced < n")
    case False
    then have "min (n - produced) (nframes - cur) = 0" by auto
    moreover have "file_chunk rd ctx fh nframes n (produced, cur, out, fs) = (False, produced, cur, out, fs)"
      using False by (auto simp: file_chunk_def)
    ultimately show ?thesis using Suc.prems(1) by (auto simp: file_frames_def stereo_bytes_def)
  next
    case True
    obtain w fs1 where w: "0 < w" "produced + w \<le> n" "cur + w \<le> nframes"
      "P fs1 fh (fc_data_offset ctx + (cur + w) * fc_src_frame_bytes ctx)"
      "file_chunk rd ctx fh nframes n (produced, cur, out, fs) =
        (True, produced + w, cur + w, out @ stereo_bytes (file_frames ctx F cur w), fs1)"
      using file_chunk_exact [OF assms(1,2) Suc.prems(1) assms(4) _ _ assms(7), of produced out] True by blast
    define m' where "m' = min (n - (produced + w)) (nframes - (cur + w))"
    have m: "min (n - produced) (nframes - cur) = w + m'" using w(2,3) by (simp add: m'_def)
    obtain fs2 p2 where "P fs2 fh p2" "file_chunks k rd ctx fh nframes n
        (produced + w, cur + w, out @ stereo_bytes (file_frames ctx F cur w), fs1) =
      (produced + w + m', cur + w + m', (out @ stereo_bytes (file_frames ctx F cur w)) @
         stereo_bytes (file_frames ctx F (cur + w) m'), fs2)"
    proof -
      have "n - (produced + w) \<le> k" using Suc.prems(4) w(1) by linarith
      from Suc.IH [OF w(4,3,2) this, of "out @ stereo_bytes (file_frames ctx F cur w)"] that
      show thesis unfolding m'_def by blast
    qed
    then show ?thesis using w(5) unfolding m by (auto simp: file_frames_add stereo_bytes_append add.assoc)
  qed
qed

text \<open>What a read delivers.\<close>

lemma file_stream_exact:
  fixes off :: nat
  assumes "reader_serves rd path F P" and "data_in_file ctx F" and "fc_fh ctx = Some fh" and "P fs fh p"
    and "n < 4294967296"
  defines "k \<equiv> min n (fc_data_bytes ctx div fc_src_frame_bytes ctx - off)"
  shows "\<exists>fs1 p1. P fs1 fh p1 \<and> audio_file_stream_read rd (ctx, fs) sid n off =
    (k, stereo_bytes (file_frames ctx F off k), (ctx, fs1))"
proof -
  let ?fb = "fc_src_frame_bytes ctx" and ?D = "fc_data_offset ctx"
  define nf where "nf = fc_data_bytes ctx div ?fb"
  have fb: "?fb \<noteq> 0" using assms(2) by (auto simp: data_in_file_def)
  show ?thesis
  proof (cases "nf \<le> off")
    case True
    then have "k = 0" by (simp add: k_def nf_def)
    then show ?thesis using True assms(3,4) fb
      by (auto simp: audio_file_stream_read_def file_frames_def stereo_bytes_def nf_def Let_def)
  next
    case False
    have "off * ?fb \<le> nf * ?fb" using False by (intro mult_le_mono1) simp
    also have "\<dots> \<le> fc_data_bytes ctx" by (simp add: nf_def)
    finally have inside: "?D + off * ?fb \<le> length F" using assms(2) by (simp add: data_in_file_def)
    have "nf \<le> fc_data_bytes ctx" by (simp add: nf_def)
    then have off: "u32 off = off" "u32 (?D + off * ?fb) = ?D + off * ?fb"
      using False inside assms(2) by (auto simp: data_in_file_def intro!: u32_id)
    obtain fs1 where s: "rd_seek rd fs fh (?D + off * ?fb) = (True, fs1)" "P fs1 fh (?D + off * ?fb)"
      using reader_servesD(2) [OF assms(1,4) inside] by blast
    obtain fs2 p2 where "P fs2 fh p2" "file_chunks n rd ctx fh nf n (0, off, [], fs1) =
        (0 + k, off + k, [] @ stereo_bytes (file_frames ctx F off k), fs2)"
      using file_chunks_exact [OF assms(1,2) s(2) nf_def, of 0 n n "[]"] False assms(5)
      by (auto simp: k_def nf_def)
    then show ?thesis using False assms(3) fb off s(1)
      by (auto simp: audio_file_stream_read_def Let_def nf_def [symmetric])
  qed
qed

text \<open>A recording of this program: the file that the WAV writer leaves after its close.\<close>

definition recording :: "nat \<Rightarrow> (int \<times> int) list list \<Rightarrow> byte list" where
  "recording rate gss = wc_file (wav_close (foldl write_all (wav_open rate) gss))"

lemma recording_eq:
  assumes "4 * length (concat gss) + 8 < 4294967296"
  shows "recording rate gss = wav_header rate (4 * length (concat gss)) @ pcm_bytes (concat gss)"
proof -
  have "written rate ([] @ concat gss) (foldl write_all (wav_open rate) gss)"
    by (rule write_many_written [OF wav_open_written])
  then show ?thesis using wav_close_file [of rate "concat gss"] assms by (simp add: recording_def)
qed

lemma open_recording:
  assumes "reader_serves rd path (recording rate gss) P" and "rate < 4294967296"
    and "4 * length (concat gss) + 8 < 4294967296"
  shows "\<exists>ctx fh fs1 p. audio_file_stream_open rd path fs0 = Some (True, ctx, fs1) \<and> P fs1 fh p \<and>
    fc_fh ctx = Some fh \<and> fc_data_offset ctx = 44 \<and> fc_data_bytes ctx = 4 * length (concat gss) \<and>
    fc_channels ctx = 2 \<and> fc_bits ctx = 16 \<and> fc_src_frame_bytes ctx = 4"
proof -
  define fr where "fr = concat gss"
  define F where "F = recording rate gss"
  have F: "F = wav_header rate (4 * length fr) @ pcm_bytes fr"
    using recording_eq [OF assms(3)] by (simp add: F_def fr_def)
  note rs = reader_servesD [OF assms(1) [folded F_def]]
  obtain fh fs1 where o: "rd_open rd fs0 path = (Some fh, fs1)" "P fs1 fh 0" using rs(1) by blast
  obtain fs2 where s: "rd_seek rd fs1 fh 0 = (True, fs2)" "P fs2 fh 0" using rs(2) [OF o(2), of 0] by auto
  obtain fs3 where r: "rd_read rd fs2 fh HEADER_PROBE = (seg 0 HEADER_PROBE F, fs3)"
    "P fs3 fh (min (0 + HEADER_PROBE) (length F))" using rs(3) [OF s(2)] by blast
  define hdr where "hdr = seg 0 HEADER_PROBE F"
  have hdr: "hdr = wav_header rate (4 * length fr) @ take 4052 (pcm_bytes fr)"
    by (simp add: hdr_def seg_def F HEADER_PROBE_def)
  have len: "44 \<le> length hdr" by (simp add: hdr)
  have parse: "wav_parse 64 hdr = Some (WAV_OK, \<lparr>wi_format = 1, wi_channels = 2, wi_sample_rate = rate,
      wi_bits = 16, wi_data = Some (hdr, 44), wi_data_bytes = length (take 4052 (pcm_bytes fr))\<rparr>)"
    unfolding hdr using assms(2,3) by (intro wav_parse_written) (auto simp: fr_def)
  have rd40: "rd_u32le hdr 40 = 4 * length fr"
    using header_fields(10) [OF assms(2), of "4 * length fr" "take 4052 (pcm_bytes fr)"] assms(3) by (simp add: hdr fr_def)
  show ?thesis
    unfolding fr_def [symmetric]
    using o s r len parse rd40 hdr_def
    by (auto simp: audio_file_stream_open_def Let_def file_stream_zero_def intro!: exI)
qed

text \<open>
  C34: A recording that the WAV writer of this program made can be streamed: opening it succeeds,
  and a read of \<open>n\<close> frames from the offset \<open>off\<close> delivers exactly the frames recorded there, as many
  as are left, in the format of the mixer, and leaves the file open for the next read.
\<close>
theorem file_stream_plays_recording:
  assumes "reader_serves rd path (recording rate gss) P" and "rate < 4294967296"
    and "4 * length (concat gss) + 52 < 4294967296" and "n < 4294967296"
    and "\<forall>(l, r) \<in> set (concat gss). - 32768 \<le> l \<and> l \<le> 32767 \<and> - 32768 \<le> r \<and> r \<le> 32767"
  shows "\<exists>ctx fh fs1 p. audio_file_stream_open rd path fs0 = Some (True, ctx, fs1) \<and> P fs1 fh p \<and>
    (\<forall>fs p. P fs fh p \<longrightarrow> (\<exists>fs2 p2. P fs2 fh p2 \<and>
       audio_file_stream_read rd (ctx, fs) sid n off =
         (min n (length (concat gss) - off), stereo_bytes (take n (drop off (concat gss))), (ctx, fs2))))"
proof -
  define fr where "fr = concat gss"
  define F where "F = recording rate gss"
  have small: "4 * length fr + 8 < 4294967296" using assms(3) by (simp add: fr_def)
  have F: "F = wav_header rate (4 * length fr) @ pcm_bytes fr"
    using recording_eq [of gss rate] small by (simp add: F_def fr_def)
  obtain ctx fh fs1 p where c: "audio_file_stream_open rd path fs0 = Some (True, ctx, fs1)" "P fs1 fh p"
    "fc_fh ctx = Some fh" "fc_data_offset ctx = 44" "fc_data_bytes ctx = 4 * length fr"
    "fc_channels ctx = 2" "fc_bits ctx = 16" "fc_src_frame_bytes ctx = 4"
    using open_recording [OF assms(1,2), of fs0] small unfolding fr_def by blast
  have inside: "data_in_file ctx F" using c assms(3) by (simp add: data_in_file_def F fr_def)
  have frame: "stereo_frame (chunk_info ctx F 0) F 44 i = fr ! i" if i: "i < length fr" for i
  proof -
    have "stereo_frame (chunk_info ctx F 0) F 44 i = (sample16 F (44 + 4 * i), sample16 F (44 + 4 * i + 2))"
      using c by (simp add: stereo_frame_def frame_bytes_def chunk_info_def Let_def mult.commute)
    also have "\<dots> = fr ! i"
      using pcm_sample [OF i, of "wav_header rate (4 * length fr)"] assms(5) by (simp add: F fr_def)
    finally show ?thesis .
  qed
  have "file_frames ctx F off (min n (length fr - off)) = take n (drop off fr)"
    unfolding file_frames_def c(4) using frame by (intro nth_equalityI) auto
  then have "\<exists>fs2 p2. P fs2 fh p2 \<and> audio_file_stream_read rd (ctx, fs) sid n off =
      (min n (length fr - off), stereo_bytes (take n (drop off fr)), (ctx, fs2))" if "P fs fh p" for fs p
    using file_stream_exact [OF assms(1) [folded F_def] inside c(3) that assms(4), of sid off] c by simp
  then show ?thesis using c(1,2) unfolding fr_def by blast
qed

text \<open>A reader over one file in memory; its state is the position.\<close>

definition mem_reader :: "byte list \<Rightarrow> (nat, unit) file_reader" where
  "mem_reader F = \<lparr>rd_open = \<lambda>_ _. (Some (), 0), rd_read = \<lambda>p _ n. (seg p n F, min (p + n) (length F)),
     rd_seek = \<lambda>p _ q. (q \<le> length F, if q \<le> length F then q else p), rd_close = \<lambda>p _. p\<rparr>"

lemma mem_reader_serves: "reader_serves (mem_reader F) path F (\<lambda>fs _ p. fs = p)"
  by (simp add: reader_serves_def mem_reader_def)

theorem file_stream_plays_recording_witness:
  "\<exists>ctx fs1 fs2. audio_file_stream_open (mem_reader (recording 48000 [[(1, - 2)], [(3, 4)]])) [] 0 = Some (True, ctx, fs1) \<and>
     audio_file_stream_read (mem_reader (recording 48000 [[(1, - 2)], [(3, 4)]])) (ctx, fs1) 0 5 1 =
       (1, stereo_bytes [(3, 4)], (ctx, fs2))"
  using file_stream_plays_recording [OF mem_reader_serves, of 48000 "[[(1, - 2)], [(3, 4)]]" 5 "[]" 0 0 1] by auto

theorem pool_stream_serves_object_witness:
  "fst (audio_pool_stream_read (\<lparr>ps_stream_id = [3, MUSIC_STREAM_NONE], ps_handle = [small_handle, 0],
     ps_bytes_per_frame = 1, ps_promote_stereo = False\<rparr>, small_pool1) 3 9 2) = 3"
proof -
  let ?ctx = "\<lparr>ps_stream_id = [3, MUSIC_STREAM_NONE], ps_handle = [small_handle, 0],
     ps_bytes_per_frame = 1, ps_promote_stereo = False\<rparr>"
  have "lookup_stream ?ctx 3 = small_handle"
    by (simp add: lookup_stream_def bound_slot_def MUSIC_STREAM_NONE_def)
  moreover have "small_handle \<noteq> 0"
    using small_valid by (auto simp: audio_pool_handle_valid_def resolve_def unpack_handle_def)
  ultimately show ?thesis
    using pool_stream_serves_object [OF small_pool1_ok small_valid, of ?ctx 3 1 2 9] by (simp add: small_size Let_def)
qed

end
