(* ===== verification/Audio_Fft.thy ===== *)
theory Audio_Fft
  imports HXBase
begin

unbundle bit_operations_syntax

text \<open>
  \<^verbatim>\<open>engine/audio/audio_fft.c\<close> and \<^verbatim>\<open>engine/audio/audio_fft_kernel.c\<close>: the band meter over the mixed
  output and its fixed-point radix-2 kernel.  The static work buffers of the code are values: the
  kernel loads every entry before it reads it.  Counts and sums are natural numbers, reduced
  where the code stores them; samples are integers.
\<close>

section \<open>The kernel\<close>

definition AUDIO_FFT_SIZE :: nat where "AUDIO_FFT_SIZE = 256"
definition AUDIO_FFT_BANDS :: nat where "AUDIO_FFT_BANDS = 16"

definition qsin :: "nat \<Rightarrow> int" where
  "qsin turn0 =
     (let turn = turn0 AND 0x7FFF;
          q = drop_bit 13 turn AND 3;
          x = turn AND 0x1FFF;
          xx = (if q = 1 \<or> q = 3 then 8192 - x else x);
          xx = (if 8191 < xx then 8191 else xx);
          t1 = int xx * 4;
          t2 = asr (t1 * t1) 15;
          t3 = asr (t2 * t1) 15;
          t5 = asr (t3 * t2) 15;
          s = asr (51472 * t1 - 21073 * t3 + 2382 * t5) 15;
          s = (if 32767 < s then 32767 else s);
          s = (if s < - 32767 then - 32767 else s);
          s = (if 2 \<le> q then - s else s)
      in i16 s)"

definition qcos :: "nat \<Rightarrow> int" where "qcos turn = qsin (u32 (turn + 8192))"

fun bitrev :: "nat \<Rightarrow> nat \<Rightarrow> nat \<Rightarrow> nat" where
  "bitrev x 0 r = r"
| "bitrev x (Suc bits) r = bitrev (drop_bit 1 x) bits (u32 (push_bit 1 r) OR (x AND 1))"

text \<open>The tables, as functions of the index: the window and the twiddle factors.\<close>

definition win :: "nat \<Rightarrow> int" where
  "win i = (let c = qcos (i * 32768 div (AUDIO_FFT_SIZE - 1));
                w = 16384 - asr c 1;
                w = (if w < 0 then 0 else w);
                w = (if 32767 < w then 32767 else w)
            in i16 w)"

definition tw_re :: "nat \<Rightarrow> int" where "tw_re k = qcos (k * 32768 div AUDIO_FFT_SIZE)"
definition tw_im :: "nat \<Rightarrow> int" where "tw_im k = i16 (- qsin (k * 32768 div AUDIO_FFT_SIZE))"

definition build_tables :: "int list \<times> int list \<times> int list" where
  "build_tables = (map win [0..<AUDIO_FFT_SIZE], map tw_re [0..<AUDIO_FFT_SIZE], map tw_im [0..<AUDIO_FFT_SIZE])"

type_synonym spectrum = "int list \<times> int list"

definition butterfly :: "int \<Rightarrow> int \<Rightarrow> nat \<Rightarrow> nat \<Rightarrow> spectrum \<Rightarrow> spectrum" where
  "butterfly wr wi a b s =
     (case s of (re, im) \<Rightarrow>
        let vr = i32 (asr (re ! b * wr - im ! b * wi) 15);
            vi = i32 (asr (re ! b * wi + im ! b * wr) 15);
            ur = re ! a; ui = im ! a
        in (re[a := asr (i32 (ur + vr)) 1, b := asr (i32 (ur - vr)) 1],
            im[a := asr (i32 (ui + vi)) 1, b := asr (i32 (ui - vi)) 1]))"

definition fft_block :: "int list \<Rightarrow> int list \<Rightarrow> nat \<Rightarrow> nat \<Rightarrow> spectrum \<Rightarrow> nat \<Rightarrow> spectrum" where
  "fft_block twr twi n len s i =
     (let stride = n div len in
      foldl (\<lambda>s k. butterfly (twr ! (k * stride)) (twi ! (k * stride)) (i + k) (i + k + len div 2) s) s [0..<len div 2])"

definition fft_stage :: "int list \<Rightarrow> int list \<Rightarrow> nat \<Rightarrow> nat \<Rightarrow> spectrum \<Rightarrow> spectrum" where
  "fft_stage twr twi n len s = foldl (fft_block twr twi n len) s (map (\<lambda>q. q * len) [0..<(n + len - 1) div len])"

function fft_stages :: "int list \<Rightarrow> int list \<Rightarrow> nat \<Rightarrow> nat \<Rightarrow> spectrum \<Rightarrow> spectrum" where
  "fft_stages twr twi n len s =
     (if 0 < len \<and> len \<le> n then fft_stages twr twi n (2 * len) (fft_stage twr twi n len s) else s)"
  by pat_completeness auto
termination by (relation "measure (\<lambda>(twr, twi, n, len, s). n + 1 - len)") auto

declare fft_stages.simps [simp del]

definition fft_load :: "int list \<Rightarrow> int list \<Rightarrow> nat \<Rightarrow> int list" where
  "fft_load w inp n =
     foldl (\<lambda>re i. re[bitrev i 8 0 := asr (inp ! i * w ! i) 15]) (replicate n 0) [0..<n]"

definition mag2 :: "spectrum \<Rightarrow> nat \<Rightarrow> nat" where
  "mag2 s i = (case s of (re, im) \<Rightarrow>
     let m = re ! i * re ! i + im ! i * im ! i in nat (if 0xFFFFFFFF < m then 0xFFFFFFFF else m))"

definition audio_fft_kernel_mag :: "int list \<Rightarrow> nat list" where
  "audio_fft_kernel_mag inp =
     (let n = AUDIO_FFT_SIZE; (w, twr, twi) = build_tables;
          s = fft_stages twr twi n 2 (fft_load w inp n, replicate n 0)
      in map (mag2 s) [0..<n div 2])"

section \<open>The meter\<close>

record audio_fft =
  ff_enabled :: bool
  ff_sample_rate :: nat
  ff_window :: "int list"
  ff_write_pos :: nat
  ff_since_update :: nat
  ff_bands :: "nat list"
  ff_band_lo :: "nat list"
  ff_band_hi :: "nat list"

function ilog2_u32 :: "nat \<Rightarrow> nat" where
  "ilog2_u32 x = (if 1 < x then Suc (ilog2_u32 (drop_bit 1 x)) else 0)"
  by pat_completeness auto
termination by (relation "measure id") (auto simp: drop_bit_eq_div)

declare ilog2_u32.simps [simp del]

definition pow2_frac :: "nat list" where
  "pow2_frac = [65536, 71468, 77936, 84990, 92682, 101070, 110218, 120194, 131072]"

text \<open>The edge \<open>b\<close> of the bands over the usable bins.\<close>

definition band_edge :: "nat \<Rightarrow> nat" where
  "band_edge b =
     (let usable = AUDIO_FFT_SIZE div 2; frst = 1; lst = usable - 1;
          ip = ilog2_u32 (lst div frst);
          base = push_bit ip frst;
          frac_q16 = (if 0 < base then (lst - base) * 65536 div base else 0);
          total_oct_q16 = push_bit 16 ip + frac_q16;
          e_q16 = total_oct_q16 * b div AUDIO_FFT_BANDS;
          ipart = drop_bit 16 e_q16;
          fpart = e_q16 AND 0xFFFF;
          sg = drop_bit 16 (fpart * 8);
          segpos = fpart * 8 AND 0xFFFF;
          lo2 = pow2_frac ! sg; hi2 = pow2_frac ! (sg + 1);
          p2 = lo2 + drop_bit 16 ((hi2 - lo2) * segpos);
          edge = drop_bit 16 (frst * push_bit ipart 1 * p2);
          edge = (if edge < frst then frst else edge)
      in if lst < edge then lst else edge)"

definition audio_fft_init :: "nat \<Rightarrow> audio_fft" where
  "audio_fft_init sample_rate =
     (let lo = map band_edge [0..<AUDIO_FFT_BANDS];
          hi = map (\<lambda>b. band_edge (b + 1)) [0..<AUDIO_FFT_BANDS]
      in \<lparr>ff_enabled = False, ff_sample_rate = (if sample_rate \<noteq> 0 then sample_rate else 44100),
          ff_window = replicate AUDIO_FFT_SIZE 0, ff_write_pos = 0, ff_since_update = 0,
          ff_bands = replicate AUDIO_FFT_BANDS 0, ff_band_lo = lo,
          ff_band_hi = map (\<lambda>b. if hi ! b < lo ! b then lo ! b else hi ! b) [0..<AUDIO_FFT_BANDS]\<rparr>)"

definition audio_fft_set_enabled :: "audio_fft \<Rightarrow> bool \<Rightarrow> audio_fft" where
  "audio_fft_set_enabled f enabled =
     (let f1 = (if enabled \<and> \<not> ff_enabled f
                then f\<lparr>ff_write_pos := 0, ff_since_update := 0, ff_window := replicate AUDIO_FFT_SIZE 0,
                       ff_bands := replicate AUDIO_FFT_BANDS 0\<rparr>
                else f)
      in f1\<lparr>ff_enabled := enabled\<rparr>)"

definition capture_frame :: "audio_fft \<Rightarrow> int \<times> int \<Rightarrow> audio_fft" where
  "capture_frame f lr =
     (case lr of (l, r) \<Rightarrow>
        f\<lparr>ff_window := (ff_window f)[ff_write_pos f := i16 (cdiv (l + r) 2)],
          ff_write_pos := u32 (ff_write_pos f + 1) mod AUDIO_FFT_SIZE\<rparr>)"

definition audio_fft_capture :: "audio_fft \<Rightarrow> (int \<times> int) list \<Rightarrow> audio_fft" where
  "audio_fft_capture f frames =
     (if \<not> ff_enabled f then f
      else let n = length frames; f1 = foldl capture_frame f frames
           in f1\<lparr>ff_since_update := (if ff_since_update f1 < 4294967295 - n then ff_since_update f1 + n else 4294967295)\<rparr>)"

definition linearize :: "audio_fft \<Rightarrow> int list" where
  "linearize f = map (\<lambda>i. ff_window f ! ((ff_write_pos f + i) mod AUDIO_FFT_SIZE)) [0..<AUDIO_FFT_SIZE]"

definition band_level :: "nat list \<Rightarrow> nat \<Rightarrow> nat \<Rightarrow> nat" where
  "band_level mag lo hi =
     (let total_mag = sum_list (map (\<lambda>k. mag ! k) [lo..<hi + 1]);
          width = (if lo \<le> hi then hi - lo + 1 else 1);
          avg = u32 (u64 total_mag div width);
          lg = ilog2_u32 (u32 (avg + 1));
          level = lg * 8
      in if 255 < level then 255 else level)"

definition audio_fft_update :: "audio_fft \<Rightarrow> bool \<times> audio_fft" where
  "audio_fft_update f =
     (if \<not> ff_enabled f then (False, f)
      else if ff_since_update f < AUDIO_FFT_SIZE then (False, f)
      else let mag = audio_fft_kernel_mag (linearize f)
           in (True, f\<lparr>ff_since_update := 0,
                 ff_bands := map (\<lambda>b. band_level mag (ff_band_lo f ! b) (ff_band_hi f ! b)) [0..<AUDIO_FFT_BANDS]\<rparr>))"

definition audio_fft_get_bands :: "audio_fft \<Rightarrow> nat \<Rightarrow> nat list" where
  "audio_fft_get_bands f max_bands =
     (if \<not> ff_enabled f then []
      else take (if max_bands < AUDIO_FFT_BANDS then max_bands else AUDIO_FFT_BANDS) (ff_bands f))"

end
