(* ===== verification/Audio_Fft_Norm.thy ===== *)
theory Audio_Fft_Norm
  imports Audio_Fft Complex_Main
begin

unbundle bit_operations_syntax

text \<open>
  The fixed-point kernel of the band meter neither overflows nor saturates.  The bound is the
  triangle inequality for the modulus of a bin: a twiddle factor of the table has modulus at most
  1.0003, so that a butterfly on bins of modulus at most \<open>M\<close> leaves bins of modulus at most
  \<open>growth M\<close>, its roundings included, and eight stages take 32768 to less than 32824.
\<close>

section \<open>Twiddle factors\<close>

text \<open>The quarter wave, on the argument scaled to 15 bits.\<close>

definition quarter :: "int \<Rightarrow> int" where
  "quarter t1 =
     (let t2 = t1 * t1 div 32768; t3 = t2 * t1 div 32768; t5 = t3 * t2 div 32768;
          s = (51472 * t1 - 21073 * t3 + 2382 * t5) div 32768
      in max (- 32767) (min 32767 s))"

lemma quarter_range: "- 32767 \<le> quarter t \<and> quarter t \<le> 32767"
  by (simp add: quarter_def Let_def)

text \<open>The polynomial and the clamp of the code, on the scaled argument.\<close>

definition qpoly :: "int \<Rightarrow> int" where
  "qpoly t1 = (let t2 = asr (t1 * t1) 15; t3 = asr (t2 * t1) 15; t5 = asr (t3 * t2) 15
               in asr (51472 * t1 - 21073 * t3 + 2382 * t5) 15)"

definition clamp15 :: "int \<Rightarrow> int" where
  "clamp15 s = (let s = (if 32767 < s then 32767 else s) in if s < - 32767 then - 32767 else s)"

lemma clamp15_qpoly: "clamp15 (qpoly t) = quarter t"
proof -
  have "qpoly t = (let t2 = t * t div 32768; t3 = t2 * t div 32768; t5 = t3 * t2 div 32768
      in (51472 * t - 21073 * t3 + 2382 * t5) div 32768)" unfolding qpoly_def asr_def by simp
  moreover have "clamp15 s = max (- 32767) (min 32767 s)" for s by (auto simp: clamp15_def Let_def)
  ultimately show ?thesis unfolding quarter_def Let_def by (simp only:)
qed

lemma qsin_fold:
  "qsin n =
     (let q = drop_bit 13 (n AND 0x7FFF) AND 3; x = (n AND 0x7FFF) AND 0x1FFF;
          xx = (if q = 1 \<or> q = 3 then 8192 - x else x); y = (if 8191 < xx then 8191 else xx);
          s = clamp15 (qpoly (int y * 4))
      in i16 (if 2 \<le> q then - s else s))"
  by (simp only: qsin_def Let_def qpoly_def clamp15_def)

lemma qsin_quarter:
  assumes "x < 8192"
  shows "qsin (8192 * q + x) =
    (if q mod 4 < 2 then 1 else - 1) * quarter (4 * int (if odd q then min 8191 (8192 - x) else x))"
proof -
  have m: "n AND 0x7FFF = n mod 32768" "n AND 0x1FFF = n mod 8192" "n AND 3 = n mod 4" for n :: nat
    using take_bit_eq_mask [of 15 n] take_bit_eq_mask [of 13 n] take_bit_eq_mask [of 2 n]
    by (simp_all add: take_bit_eq_mod mask_eq_exp_minus_1)
  have e: "8192 * q + x = 32768 * (q div 4) + (8192 * (q mod 4) + x)" using div_mult_mod_eq [of q 4] by linarith
  have "q mod 4 < 4" by simp
  then have "8192 * (q mod 4) + x < 32768" using assms by linarith
  then have "(8192 * q + x) mod 32768 = 8192 * (q mod 4) + x" unfolding e by simp
  then have t: "(8192 * q + x) AND 0x7FFF = 8192 * (q mod 4) + x" by (simp only: m)
  have d: "drop_bit 13 (8192 * (q mod 4) + x) AND 3 = q mod 4"
    using assms by (simp add: drop_bit_eq_div m)
  have d': "(8192 * (q mod 4) + x) AND 0x1FFF = x" using assms by (simp add: m)
  have odd: "odd q \<longleftrightarrow> q mod 4 = 1 \<or> q mod 4 = 3" by presburger
  define y where "y = (if odd q then min 8191 (8192 - x) else x)"
  have y: "(if 8191 < (if q mod 4 = 1 \<or> q mod 4 = 3 then 8192 - x else x) then 8191
      else if q mod 4 = 1 \<or> q mod 4 = 3 then 8192 - x else x) = y"
    using assms by (auto simp: y_def odd)
  have "qsin (8192 * q + x) = i16 (if 2 \<le> q mod 4 then - quarter (int y * 4) else quarter (int y * 4))"
    unfolding qsin_fold t d d' Let_def y clamp15_qpoly by (rule refl)
  also have "\<dots> = (if q mod 4 < 2 then 1 else - 1) * quarter (int y * 4)"
    using quarter_range [of "int y * 4"] by (auto intro!: i16_id)
  finally show ?thesis unfolding y_def by (simp only: mult.commute [of 4])
qed

lemma quarter_table:
  "list_all (\<lambda>t. quarter t * quarter t + quarter (min 32764 (32768 - t)) * quarter (min 32764 (32768 - t)) \<le> 1074341824)
     [0, 512, 1024, 1536, 2048, 2560, 3072, 3584, 4096, 4608, 5120, 5632, 6144, 6656, 7168, 7680, 8192, 8704, 9216, 9728, 10240, 10752, 11264, 11776, 12288, 12800, 13312, 13824, 14336, 14848, 15360, 15872, 16384]"
  by code_simp

lemma quarter_circle:
  assumes "m < 64"
  shows "quarter (512 * int m) * quarter (512 * int m) +
    quarter (min 32764 (32768 - 512 * int m)) * quarter (min 32764 (32768 - 512 * int m)) \<le> 1074341824"
proof -
  have at: "quarter (512 * int k) * quarter (512 * int k) +
      quarter (min 32764 (32768 - 512 * int k)) * quarter (min 32764 (32768 - 512 * int k)) \<le> 1074341824" if "k \<le> 32" for k
  proof -
    have "512 * int k \<in> set (map (\<lambda>k. 512 * k) [0..32])" using that by auto
    also have "map (\<lambda>k. 512 * k) [0..32] = [0, 512, 1024, 1536, 2048, 2560, 3072, 3584, 4096, 4608, 5120, 5632, 6144, 6656, 7168, 7680, 8192, 8704, 9216, 9728, 10240, 10752, 11264, 11776, 12288, 12800, 13312, 13824, 14336, 14848, 15360, 15872, 16384]" by code_simp
    finally show ?thesis using quarter_table unfolding list_all_iff by (rule bspec [rotated])
  qed
  show ?thesis
  proof (cases "m \<le> 32")
    case True
    then show ?thesis by (rule at)
  next
    case False
    then have "min 32764 (32768 - 512 * int m) = 512 * int (64 - m)"
      "min 32764 (32768 - 512 * int (64 - m)) = 512 * int m" using assms by auto
    then show ?thesis using at [of "64 - m"] False by (simp add: add.commute)
  qed
qed

lemma twiddle_modulus:
  assumes "k < 256"
  shows "tw_re k * tw_re k + tw_im k * tw_im k \<le> 1074341824"
proof -
  define q where "q = k div 64"
  define m where "m = k mod 64"
  have k: "k = 64 * q + m" "m < 64" "q < 4" using assms by (auto simp: q_def m_def)
  have t: "k * 32768 div 256 = 8192 * q + 128 * m" by (simp add: k(1))
  have t': "u32 (8192 * q + 128 * m + 8192) = 8192 * (q + 1) + 128 * m" using k(2,3) by (subst u32_id) auto
  have re: "tw_re k = (if (q + 1) mod 4 < 2 then 1 else - 1) *
      quarter (4 * int (if odd (q + 1) then min 8191 (8192 - 128 * m) else 128 * m))"
    unfolding tw_re_def qcos_def AUDIO_FFT_SIZE_def t t' using k(2) by (intro qsin_quarter) simp
  have "qsin (8192 * q + 128 * m) = (if q mod 4 < 2 then 1 else - 1) *
      quarter (4 * int (if odd q then min 8191 (8192 - 128 * m) else 128 * m))"
    using k(2) by (intro qsin_quarter) simp
  moreover have "i16 (- qsin (8192 * q + 128 * m)) = - qsin (8192 * q + 128 * m)"
    using quarter_range [of "4 * int (if odd q then min 8191 (8192 - 128 * m) else 128 * m)"] calculation
    by (intro i16_id) (auto split: if_splits)
  ultimately have im: "tw_im k * tw_im k = quarter (4 * int (if odd q then min 8191 (8192 - 128 * m) else 128 * m)) *
      quarter (4 * int (if odd q then min 8191 (8192 - 128 * m) else 128 * m))"
    unfolding tw_im_def AUDIO_FFT_SIZE_def t by simp
  have arg: "4 * int (128 * m) = 512 * int m" "4 * int (min 8191 (8192 - 128 * m)) = min 32764 (32768 - 512 * int m)"
    using k(2) by auto
  show ?thesis
    using quarter_circle [OF k(2)] unfolding im re by (cases "odd q") (simp_all add: arg)
qed

section \<open>One butterfly\<close>

definition bin :: "spectrum \<Rightarrow> nat \<Rightarrow> complex" where
  "bin s i = Complex (of_int (fst s ! i)) (of_int (snd s ! i))"

definition growth :: "real \<Rightarrow> real" where "growth M = 1.00015 * M + 2"

lemma floor_error:
  fixes x :: int
  assumes "0 < d"
  shows "\<bar>of_int (x div d) - of_int x / of_int d :: real\<bar> \<le> 1"
proof -
  have "of_int (x div d) = (of_int \<lfloor>of_int x / of_int d :: real\<rfloor> :: real)" by (simp add: floor_divide_of_int_eq)
  then show ?thesis by linarith
qed

lemma twiddle_norm:
  assumes "wr * wr + wi * wi \<le> 1074341824"
  shows "cmod (Complex (of_int wr) (of_int wi)) \<le> 1.0003 * 32768"
proof -
  have "of_int (wr * wr + wi * wi) \<le> (1074341824 :: real)" using assms by linarith
  also have "\<dots> \<le> (1.0003 * 32768)\<^sup>2" by (simp add: power2_eq_square)
  finally have "(of_int wr)\<^sup>2 + (of_int wi)\<^sup>2 \<le> (1.0003 * 32768 :: real)\<^sup>2" by (simp add: power2_eq_square)
  then show ?thesis unfolding cmod_def complex.sel by (rule real_le_lsqrt [rotated]) simp
qed

text \<open>The product with a twiddle factor, as it is rounded.\<close>

lemma rounded_product:
  assumes "cmod (Complex (of_int x) (of_int y)) \<le> M" and "wr * wr + wi * wi \<le> 1074341824"
  defines "vr \<equiv> (x * wr - y * wi) div 32768" and "vi \<equiv> (x * wi + y * wr) div 32768"
  shows "cmod (Complex (of_int vr) (of_int vi)) \<le> 1.0003 * M + 2"
proof -
  let ?z = "Complex (of_int x) (of_int y)" and ?w = "Complex (of_int wr) (of_int wi)"
  let ?v = "Complex (of_int vr) (of_int vi)" and ?e = "?z * ?w / 32768"
  have M: "0 \<le> M" using assms(1) norm_ge_zero order_trans by blast
  have re: "Re ?e = of_int (x * wr - y * wi) / 32768" "Im ?e = of_int (x * wi + y * wr) / 32768"
    by (simp_all add: Re_divide_numeral Im_divide_numeral)
  have "cmod (?v - ?e) \<le> \<bar>Re (?v - ?e)\<bar> + \<bar>Im (?v - ?e)\<bar>" by (rule cmod_le)
  also have "\<dots> \<le> 2"
    using floor_error [of 32768 "x * wr - y * wi"] floor_error [of 32768 "x * wi + y * wr"]
    unfolding minus_complex.sel re vr_def vi_def complex.sel by simp
  finally have d: "cmod (?v - ?e) \<le> 2" .
  have "cmod ?e = cmod ?z * cmod ?w / 32768" by (simp add: norm_mult norm_divide)
  also have "\<dots> \<le> M * (1.0003 * 32768) / 32768"
    using assms(1) twiddle_norm [OF assms(2)] M by (intro divide_right_mono mult_mono) auto
  finally have "cmod ?e \<le> 1.0003 * M" by simp
  moreover have "cmod ?v \<le> cmod (?v - ?e) + cmod ?e"
    using norm_triangle_ineq [of "?v - ?e" ?e] by (simp only: diff_add_cancel)
  ultimately show ?thesis using d by linarith
qed

text \<open>The halved sum and difference, as they are rounded.\<close>

lemma rounded_half:
  assumes "cmod (Complex (of_int x) (of_int y)) \<le> A" and "cmod (Complex (of_int p) (of_int q)) \<le> B"
  shows "cmod (Complex (of_int ((x + p) div 2)) (of_int ((y + q) div 2))) \<le> (A + B) / 2 + 1"
proof -
  let ?s = "Complex (of_int (x + p)) (of_int (y + q))" and ?h = "Complex (of_int ((x + p) div 2)) (of_int ((y + q) div 2))"
  have half: "\<bar>of_int (n div 2) - of_int n / 2 :: real\<bar> \<le> 1 / 2" for n :: int
  proof -
    have "n = 2 * (n div 2) \<or> n = 2 * (n div 2) + 1" by presburger
    then have "of_int n = 2 * (of_int (n div 2) :: real) \<or> of_int n = 2 * (of_int (n div 2) :: real) + 1"
      by (metis of_int_1 of_int_add of_int_mult of_int_numeral)
    then show ?thesis by auto
  qed
  have "cmod (?h - ?s / 2) \<le> \<bar>Re (?h - ?s / 2)\<bar> + \<bar>Im (?h - ?s / 2)\<bar>" by (rule cmod_le)
  also have "\<dots> \<le> 1" using half [of "x + p"] half [of "y + q"]
    unfolding minus_complex.sel complex.sel Re_divide_numeral Im_divide_numeral by linarith
  finally have d: "cmod (?h - ?s / 2) \<le> 1" .
  have "?s = Complex (of_int x) (of_int y) + Complex (of_int p) (of_int q)" by (simp add: complex_eq_iff)
  then have "cmod ?s \<le> A + B" using norm_triangle_ineq assms add_mono order_trans by metis
  then have "cmod (?s / 2) \<le> (A + B) / 2" by (simp add: norm_divide)
  moreover have "cmod ?h \<le> cmod (?h - ?s / 2) + cmod (?s / 2)"
    using norm_triangle_ineq [of "?h - ?s / 2" "?s / 2"] by (simp only: diff_add_cancel)
  ultimately show ?thesis using d by linarith
qed

lemma bin_component:
  assumes "cmod (Complex (of_int x) (of_int y)) \<le> M"
  shows "\<bar>of_int x\<bar> \<le> M" and "\<bar>of_int y\<bar> \<le> M"
  using abs_Re_le_cmod [of "Complex (of_int x) (of_int y)"] abs_Im_le_cmod [of "Complex (of_int x) (of_int y)"] assms
  by simp_all

text \<open>
  A butterfly on two bins of modulus at most \<open>M\<close> does not overflow its 32 bits and leaves moduli of
  at most \<open>growth M\<close>; the other bins stay.
\<close>

lemma butterfly_bound:
  assumes len: "length (fst s) = n" "length (snd s) = n" and ab: "a < n" "b < n" "a \<noteq> b"
    and w: "wr * wr + wi * wi \<le> 1074341824" and M: "M \<le> 40000"
    and na: "cmod (bin s a) \<le> M" and nb: "cmod (bin s b) \<le> M"
  defines "s' \<equiv> butterfly wr wi a b s"
  shows "length (fst s') = n \<and> length (snd s') = n \<and> (\<forall>i. i \<noteq> a \<longrightarrow> i \<noteq> b \<longrightarrow> bin s' i = bin s i) \<and>
    cmod (bin s' a) \<le> growth M \<and> cmod (bin s' b) \<le> growth M"
proof -
  obtain re im where s: "s = (re, im)" by (cases s)
  define pr where "pr = (re ! b * wr - im ! b * wi) div 32768"
  define pi where "pi = (re ! b * wi + im ! b * wr) div 32768"
  have b: "cmod (Complex (of_int (re ! b)) (of_int (im ! b))) \<le> M"
    and a: "cmod (Complex (of_int (re ! a)) (of_int (im ! a))) \<le> M" using na nb by (simp_all add: bin_def s)
  have p: "cmod (Complex (of_int pr) (of_int pi)) \<le> 1.0003 * M + 2"
    unfolding pr_def pi_def by (rule rounded_product [OF b w])
  have r: "\<bar>x\<bar> \<le> 50000" if "\<bar>of_int x\<bar> \<le> B" "B \<le> (50000 :: real)" for x B using that by linarith
  have rng: "\<bar>pr\<bar> \<le> 50000" "\<bar>pi\<bar> \<le> 50000" "\<bar>re ! a\<bar> \<le> 50000" "\<bar>im ! a\<bar> \<le> 50000"
    using bin_component [OF p] bin_component [OF a] M by (auto intro: r)
  have i: "i32 pr = pr" "i32 pi = pi" "i32 (re ! a + pr) = re ! a + pr" "i32 (re ! a - pr) = re ! a + - pr"
    "i32 (im ! a + pi) = im ! a + pi" "i32 (im ! a - pi) = im ! a + - pi"
    using rng by (simp_all add: i32_id)
  have d: "asr x 15 = x div 32768" "asr x 1 = x div 2" for x :: int by (simp_all add: asr_def)
  have out: "s' = (re[a := (re ! a + pr) div 2, b := (re ! a + - pr) div 2],
      im[a := (im ! a + pi) div 2, b := (im ! a + - pi) div 2])"
    unfolding s'_def butterfly_def s prod.case d pr_def [symmetric] pi_def [symmetric] Let_def i by (rule refl)
  have neg: "cmod (Complex (of_int (- pr)) (of_int (- pi))) \<le> 1.0003 * M + 2"
    using p by (simp add: cmod_def)
  have g: "(M + (1.0003 * M + 2)) / 2 + 1 = growth M" by (simp add: growth_def field_simps)
  show ?thesis
    using rounded_half [OF a p] rounded_half [OF a neg] ab len unfolding g out bin_def s
    by simp
qed

section \<open>Stages\<close>

definition bins_below :: "real \<Rightarrow> spectrum \<Rightarrow> bool" where
  "bins_below M s \<longleftrightarrow> length (fst s) = 256 \<and> length (snd s) = 256 \<and> (\<forall>i<256. cmod (bin s i) \<le> M)"

lemma growth_above: "0 \<le> M \<Longrightarrow> M \<le> growth M" by (simp add: growth_def)

text \<open>The butterflies of a block, which touch pairwise different bins.\<close>

lemma butterflies_bound:
  assumes "bins_below (growth M) s" and "M \<le> 40000" and "\<forall>k \<in> set ks. k + i + h < 256 \<and> k < h"
    and "\<forall>k \<in> set ks. cmod (bin s (i + k)) \<le> M \<and> cmod (bin s (i + k + h)) \<le> M" and "distinct ks"
    and "\<forall>k. f k * f k + g k * g k \<le> 1074341824"
  defines "s' \<equiv> foldl (\<lambda>s k. butterfly (f k) (g k) (i + k) (i + k + h) s) s ks"
  shows "bins_below (growth M) s' \<and> (\<forall>j. j < i \<or> i + 2 * h \<le> j \<longrightarrow> bin s' j = bin s j)"
  using assms(1,3-5) unfolding s'_def
proof (induction ks arbitrary: s)
  case (Cons k ks)
  let ?t = "butterfly (f k) (g k) (i + k) (i + k + h) s"
  have k: "k + i + h < 256" "k < h" and m: "cmod (bin s (i + k)) \<le> M" "cmod (bin s (i + k + h)) \<le> M"
    using Cons.prems by simp_all
  have t: "length (fst ?t) = 256 \<and> length (snd ?t) = 256 \<and>
      (\<forall>j. j \<noteq> i + k \<longrightarrow> j \<noteq> i + k + h \<longrightarrow> bin ?t j = bin s j) \<and>
      cmod (bin ?t (i + k)) \<le> growth M \<and> cmod (bin ?t (i + k + h)) \<le> growth M"
    using k m Cons.prems(1) assms(2,6) by (intro butterfly_bound) (auto simp: bins_below_def)
  have "cmod (bin ?t j) \<le> growth M" if "j < 256" for j
    using t that Cons.prems(1) by (cases "j = i + k \<or> j = i + k + h") (auto simp: bins_below_def)
  then have 1: "bins_below (growth M) ?t" using t by (simp add: bins_below_def)
  have "cmod (bin ?t (i + l)) \<le> M \<and> cmod (bin ?t (i + l + h)) \<le> M" if l: "l \<in> set ks" for l
  proof -
    have "l \<noteq> k" "l < h" using l Cons.prems by auto
    then have "bin ?t (i + l) = bin s (i + l)" "bin ?t (i + l + h) = bin s (i + l + h)" using t k by auto
    then show ?thesis using l Cons.prems(3) by simp
  qed
  then have "bins_below (growth M) (foldl (\<lambda>s k. butterfly (f k) (g k) (i + k) (i + k + h) s) ?t ks) \<and>
      (\<forall>j. j < i \<or> i + 2 * h \<le> j \<longrightarrow> bin (foldl (\<lambda>s k. butterfly (f k) (g k) (i + k) (i + k + h) s) ?t ks) j = bin ?t j)"
    using Cons.prems 1 by (intro Cons.IH) auto
  then show ?case using t k by auto
qed simp

lemma fft_block_bound:
  assumes "bins_below (growth M) s" and "M \<le> 40000" and "i + len \<le> 256" and "even len" and "len dvd 256"
    and "\<forall>j. i \<le> j \<longrightarrow> j < i + len \<longrightarrow> cmod (bin s j) \<le> M"
  defines "s' \<equiv> fft_block (map tw_re [0..<256]) (map tw_im [0..<256]) 256 len s i"
  shows "bins_below (growth M) s' \<and> (\<forall>j. j < i \<or> i + len \<le> j \<longrightarrow> bin s' j = bin s j)"
proof -
  obtain h where h: "len = 2 * h" using assms(4) by blast
  have st: "k * (256 div len) < 256" if "k < h" for k
  proof -
    have e: "len * (256 div len) = 256" using assms(5) by simp
    have "0 < 256 div len" by (rule Nat.gr0I) (use e in simp)
    then have "k * (256 div len) < len * (256 div len)" using that h by (intro mult_less_mono1) simp_all
    then show ?thesis unfolding e .
  qed
  define f where "f k = (if k < h then tw_re (k * (256 div len)) else 0)" for k
  define g where "g k = (if k < h then tw_im (k * (256 div len)) else 0)" for k
  have fg: "\<forall>k. f k * f k + g k * g k \<le> 1074341824" using twiddle_modulus st by (simp add: f_def g_def)
  have "s' = foldl (\<lambda>s k. butterfly (f k) (g k) (i + k) (i + k + h) s) s [0..<h]"
    unfolding s'_def fft_block_def Let_def h using st
    by (intro foldl_cong) (auto simp: f_def g_def h)
  moreover have "\<forall>k \<in> set [0..<h]. k + i + h < 256 \<and> k < h" using assms(3) h by auto
  moreover have "\<forall>k \<in> set [0..<h]. cmod (bin s (i + k)) \<le> M \<and> cmod (bin s (i + k + h)) \<le> M"
    using assms(6) h by auto
  ultimately show ?thesis
    using butterflies_bound [OF assms(1,2) _ _ distinct_upt fg, of 0 h i h] h by simp
qed

lemma fft_stage_bound:
  assumes "bins_below M s" and "0 \<le> M" and "M \<le> 40000" and "even len" and "len dvd 256"
  shows "bins_below (growth M) (fft_stage (map tw_re [0..<256]) (map tw_im [0..<256]) 256 len s)"
proof -
  let ?B = "fft_block (map tw_re [0..<256]) (map tw_im [0..<256]) 256 len"
  obtain c where c: "256 = len * c" using assms(5) by (rule dvdE)
  have c0: "0 < len" "0 < c" using c by (auto intro: Nat.gr0I)
  have blocks: "(256 + len - 1) div len = c"
  proof -
    have "256 + len - 1 = (len - 1) + len * c" using c c0 by linarith
    moreover have "(len - 1 + len * c) div len = c + (len - 1) div len" using c0 by (intro div_mult_self2) simp
    ultimately show ?thesis using c0 by simp
  qed
  have "q \<le> c \<Longrightarrow> bins_below (growth M) (foldl ?B s (map (\<lambda>q. q * len) [0..<q])) \<and>
      (\<forall>j. q * len \<le> j \<longrightarrow> bin (foldl ?B s (map (\<lambda>q. q * len) [0..<q])) j = bin s j)" for q
  proof (induction q)
    case 0
    then show ?case using assms(1) growth_above [OF assms(2)] by (auto simp: bins_below_def intro: order_trans)
  next
    case (Suc q)
    let ?s = "foldl ?B s (map (\<lambda>q. q * len) [0..<q])"
    have "Suc q * len \<le> c * len" using Suc.prems by (rule mult_le_mono1)
    then have fits: "q * len + len \<le> 256" using c by (simp add: mult.commute add.commute)
    have "cmod (bin ?s j) \<le> M" if "q * len \<le> j" "j < q * len + len" for j
      using Suc that fits assms(1) by (auto simp: bins_below_def)
    then have "bins_below (growth M) (?B ?s (q * len)) \<and>
        (\<forall>j. j < q * len \<or> q * len + len \<le> j \<longrightarrow> bin (?B ?s (q * len)) j = bin ?s j)"
      using Suc fits assms by (intro fft_block_bound) auto
    then show ?case using Suc by (simp add: add.commute)
  qed
  from this [OF order_refl] show ?thesis unfolding fft_stage_def blocks by simp
qed

lemma bins_below_mono: "bins_below M s \<Longrightarrow> M \<le> M' \<Longrightarrow> bins_below M' s"
  by (auto simp: bins_below_def intro: order_trans)

lemma fft_stages_bound:
  assumes "bins_below 32768 s"
  shows "bins_below 32824 (fft_stages (map tw_re [0..<256]) (map tw_im [0..<256]) 256 2 s)"
proof -
  note step = fft_stage_bound [THEN bins_below_mono]
  let ?F = "\<lambda>len. fft_stage (map tw_re [0..<256]) (map tw_im [0..<256]) 256 len"
  have "bins_below 32775 (?F 2 s)" by (rule step [OF assms]) (simp_all add: growth_def)
  then have "bins_below 32782 (?F 4 (?F 2 s))" by (rule step) (simp_all add: growth_def)
  then have "bins_below 32789 (?F 8 (?F 4 (?F 2 s)))" by (rule step) (simp_all add: growth_def)
  then have "bins_below 32796 (?F 16 (?F 8 (?F 4 (?F 2 s))))" by (rule step) (simp_all add: growth_def)
  then have "bins_below 32803 (?F 32 (?F 16 (?F 8 (?F 4 (?F 2 s)))))" by (rule step) (simp_all add: growth_def)
  then have "bins_below 32810 (?F 64 (?F 32 (?F 16 (?F 8 (?F 4 (?F 2 s))))))" by (rule step) (simp_all add: growth_def)
  then have "bins_below 32817 (?F 128 (?F 64 (?F 32 (?F 16 (?F 8 (?F 4 (?F 2 s)))))))" by (rule step) (simp_all add: growth_def)
  then have "bins_below 32824 (?F 256 (?F 128 (?F 64 (?F 32 (?F 16 (?F 8 (?F 4 (?F 2 s))))))))" by (rule step) (simp_all add: growth_def)
  then show ?thesis by (simp add: fft_stages.simps)
qed

text \<open>The loaded spectrum is real and keeps the range of the samples.\<close>

lemma win_range: "0 \<le> win i \<and> win i \<le> 32767"
proof -
  have "i16 (if 32767 < (if w < 0 then 0 else w) then 32767 else if w < 0 then 0 else w) =
      (if 32767 < (if w < 0 then 0 else w) then 32767 else if w < 0 then 0 else w)" for w :: int
    by (rule i16_id) auto
  then show ?thesis unfolding win_def Let_def by auto
qed

lemma windowed_sample:
  assumes "- 32768 \<le> x" "x \<le> 32767"
  shows "\<bar>asr (x * win i) 15\<bar> \<le> 32768"
proof -
  have "- 32768 * 32767 \<le> x * win i"
  proof -
    have "- 32768 * 32767 \<le> - 32768 * win i" using win_range [of i] by simp
    also have "\<dots> \<le> x * win i" using assms win_range [of i] by (intro mult_right_mono) auto
    finally show ?thesis .
  qed
  moreover have "x * win i \<le> 32767 * 32767" using assms win_range [of i] by (intro mult_mono) auto
  ultimately have "- 32768 \<le> x * win i div 32768 \<and> x * win i div 32768 \<le> 32768"
    using zdiv_mono1 [of "- 1073741824" "x * win i" 32768] zdiv_mono1 [of "x * win i" 1073741824 32768] by simp
  then have "\<bar>x * win i div 32768\<bar> \<le> 32768" unfolding abs_le_iff by linarith
  then show ?thesis by (simp add: asr_def)
qed

lemma fft_load_range:
  assumes "length inp = 256" and "\<forall>x \<in> set inp. - 32768 \<le> x \<and> x \<le> 32767"
  defines "re \<equiv> fft_load (map win [0..<256]) inp 256"
  shows "length re = 256 \<and> (\<forall>i<256. \<bar>re ! i\<bar> \<le> 32768)"
proof -
  define B where "B = {x :: int. \<bar>x\<bar> \<le> 32768}"
  have step: "set (r[j := x]) \<subseteq> B" if "set r \<subseteq> B" "x \<in> B" for r :: "int list" and j x
    using set_update_subset_insert [of r j x] that by blast
  have "set is \<subseteq> {..<256} \<Longrightarrow> set r \<subseteq> B \<Longrightarrow>
      set (foldl (\<lambda>re i. re[bitrev i 8 0 := asr (inp ! i * map win [0..<256] ! i) 15]) r is) \<subseteq> B" for r "is"
  proof (induction "is" arbitrary: r)
    case (Cons i "is")
    have "asr (inp ! i * map win [0..<256] ! i) 15 \<in> B"
      using Cons.prems assms windowed_sample [of "inp ! i" i] by (simp add: B_def)
    then have "set (r[bitrev i 8 0 := asr (inp ! i * map win [0..<256] ! i) 15]) \<subseteq> B" by (rule step [OF Cons.prems(2)])
    then show ?case using Cons.IH Cons.prems(1) by simp
  qed simp
  moreover have "set [0..<256] \<subseteq> {..<256 :: nat}" "set (replicate 256 0) \<subseteq> B" by (auto simp: B_def)
  ultimately have "set re \<subseteq> B" unfolding re_def fft_load_def by blast
  moreover have "length (foldl (\<lambda>re i. re[f i := g i]) r is) = length r" for f and g :: "nat \<Rightarrow> int" and r "is"
    by (induction "is" arbitrary: r) auto
  then have "length re = 256" unfolding re_def fft_load_def by simp
  ultimately show ?thesis by (auto simp: B_def subset_iff)
qed

definition fft_bins :: "int list \<Rightarrow> spectrum" where
  "fft_bins inp = fft_stages (map tw_re [0..<256]) (map tw_im [0..<256]) 256 2
     (fft_load (map win [0..<256]) inp 256, replicate 256 0)"

lemma kernel_bins:
  assumes "length inp = 256" and "\<forall>x \<in> set inp. - 32768 \<le> x \<and> x \<le> 32767"
  shows "bins_below 32824 (fft_bins inp)"
  unfolding fft_bins_def
proof (rule fft_stages_bound)
  let ?re = "fft_load (map win [0..<256]) inp 256"
  have "cmod (bin (?re, replicate 256 0) i) = \<bar>of_int (?re ! i)\<bar>" if "i < 256" for i
    using that by (simp add: bin_def cmod_def)
  moreover have "\<bar>of_int (?re ! i)\<bar> \<le> (32768 :: real)" if "i < 256" for i
    using fft_load_range [OF assms] that by (metis of_int_abs of_int_le_iff of_int_numeral)
  ultimately show "bins_below 32768 (?re, replicate 256 0)"
    using fft_load_range [OF assms] by (simp add: bins_below_def)
qed

text \<open>The squared magnitudes, which are far from the saturation limit.\<close>

lemma kernel_mag:
  assumes "length inp = 256" and "\<forall>x \<in> set inp. - 32768 \<le> x \<and> x \<le> 32767" and "k < 128"
  shows "int (audio_fft_kernel_mag inp ! k) = (fst (fft_bins inp) ! k)\<^sup>2 + (snd (fft_bins inp) ! k)\<^sup>2"
    and "audio_fft_kernel_mag inp ! k < 2 ^ 31"
proof -
  obtain re im where s: "fft_bins inp = (re, im)" by (cases "fft_bins inp")
  define m where "m = re ! k * re ! k + im ! k * im ! k"
  have "cmod (bin (re, im) k) \<le> 32824" using kernel_bins [OF assms(1,2)] assms(3) by (simp add: bins_below_def s)
  then have "(cmod (bin (re, im) k))\<^sup>2 \<le> 32824\<^sup>2" by (intro power_mono) auto
  moreover have "(cmod (bin (re, im) k))\<^sup>2 = of_int m"
  proof -
    have "(cmod (bin (re, im) k))\<^sup>2 = (of_int (re ! k))\<^sup>2 + (of_int (im ! k))\<^sup>2"
      by (simp only: bin_def cmod_power2 complex.sel fst_conv snd_conv)
    also have "\<dots> = of_int m" by (simp add: m_def power2_eq_square)
    finally show ?thesis .
  qed
  ultimately have "of_int m \<le> (1077414976 :: real)" by simp
  then have m: "m \<le> 1077414976" by linarith
  have p: "0 \<le> m" unfolding m_def by (simp add: sum_squares_ge_zero)
  have k: "audio_fft_kernel_mag inp ! k = nat m"
    using assms(3) m unfolding audio_fft_kernel_mag_def build_tables_def AUDIO_FFT_SIZE_def Let_def prod.case
      fft_bins_def [symmetric] by (simp add: s mag2_def m_def Let_def)
  show "int (audio_fft_kernel_mag inp ! k) = (fst (fft_bins inp) ! k)\<^sup>2 + (snd (fft_bins inp) ! k)\<^sup>2"
    using p by (simp add: k s m_def power2_eq_square)
  show "audio_fft_kernel_mag inp ! k < 2 ^ 31" using m by (simp add: k)
qed

end
