(* ===== verification/Audio_Fft_Spec.thy ===== *)
theory Audio_Fft_Spec
  imports Audio_Fft_Norm
begin

unbundle bit_operations_syntax

text \<open>
  The band meter: the capture window always holds the latest samples of the mono mix, and a level is
  the logarithm of the mean power of its band.
\<close>

section \<open>The capture window\<close>

definition mono_mix :: "int \<times> int \<Rightarrow> int" where "mono_mix lr = i16 (cdiv (fst lr + snd lr) 2)"

definition window_ok :: "audio_fft \<Rightarrow> bool" where
  "window_ok f \<longleftrightarrow> length (ff_window f) = 256 \<and> ff_write_pos f < 256 \<and> (\<forall>x \<in> set (ff_window f). - 32768 \<le> x \<and> x \<le> 32767)"

lemma capture_frame_window:
  assumes "window_ok f"
  shows "window_ok (capture_frame f lr)" and "linearize (capture_frame f lr) = tl (linearize f) @ [mono_mix lr]"
proof -
  let ?w = "ff_window f" and ?p = "ff_write_pos f"
  have p: "?p < 256" and len: "length ?w = 256" using assms by (simp_all add: window_ok_def)
  have sel: "ff_window (capture_frame f lr) = ?w[?p := mono_mix lr]" "ff_write_pos (capture_frame f lr) = (?p + 1) mod 256"
    using p by (simp_all add: capture_frame_def mono_mix_def AUDIO_FFT_SIZE_def case_prod_beta)
  have "- 32768 \<le> mono_mix lr \<and> mono_mix lr \<le> 32767" using i16_range by (simp add: mono_mix_def)
  moreover have "set (?w[?p := mono_mix lr]) \<subseteq> insert (mono_mix lr) (set ?w)" by (rule set_update_subset_insert)
  ultimately show "window_ok (capture_frame f lr)"
    using assms unfolding window_ok_def sel by auto
  show "linearize (capture_frame f lr) = tl (linearize f) @ [mono_mix lr]"
  proof (rule nth_equalityI)
    show "length (linearize (capture_frame f lr)) = length (tl (linearize f) @ [mono_mix lr])"
      by (simp add: linearize_def AUDIO_FFT_SIZE_def)
    fix i assume "i < length (linearize (capture_frame f lr))"
    then have i: "i < 256" by (simp add: linearize_def AUDIO_FFT_SIZE_def)
    have idx: "((?p + 1) mod 256 + i) mod 256 = (?p + (i + 1)) mod 256" by (simp add: mod_simps ac_simps)
    have "linearize (capture_frame f lr) ! i = ?w[?p := mono_mix lr] ! (((?p + 1) mod 256 + i) mod 256)"
      using i unfolding linearize_def sel AUDIO_FFT_SIZE_def by simp
    note l = this [unfolded idx]
    show "linearize (capture_frame f lr) ! i = (tl (linearize f) @ [mono_mix lr]) ! i"
    proof (cases "i = 255")
      case True
      then have "(?p + (i + 1)) mod 256 = ?p" using p by simp
      then show ?thesis unfolding l using True p len by (simp add: nth_append linearize_def AUDIO_FFT_SIZE_def)
    next
      case False
      then have i': "i + 1 < 256" using i by simp
      have "(?p + (i + 1)) mod 256 \<noteq> ?p"
      proof
        assume "(?p + (i + 1)) mod 256 = ?p"
        then have "(?p + (i + 1)) mod 256 = (?p + 0) mod 256" using p by simp
        from mod_add_inj [OF i' _ this] show False by simp
      qed
      then have "linearize (capture_frame f lr) ! i = ?w ! ((?p + (i + 1)) mod 256)" unfolding l by simp
      also have "\<dots> = tl (linearize f) ! i" using i' by (simp add: linearize_def AUDIO_FFT_SIZE_def nth_tl)
      finally show ?thesis using i' by (simp add: nth_append linearize_def AUDIO_FFT_SIZE_def)
    qed
  qed
qed

lemma capture_enabled: "ff_enabled (foldl capture_frame f fs) = ff_enabled f"
  by (induction fs arbitrary: f) (auto simp: capture_frame_def case_prod_beta)

lemma captures_window:
  assumes "window_ok f"
  shows "window_ok (foldl capture_frame f fs)"
    and "linearize (foldl capture_frame f fs) = drop (length fs) (linearize f @ map mono_mix fs)"
proof -
  have "window_ok (foldl capture_frame f fs) \<and>
      linearize (foldl capture_frame f fs) = drop (length fs) (linearize f @ map mono_mix fs)"
    using assms
  proof (induction fs arbitrary: f)
    case (Cons lr fs)
    have "linearize f \<noteq> []" by (simp add: linearize_def AUDIO_FFT_SIZE_def)
    then show ?case
      using Cons.IH [OF capture_frame_window(1) [OF Cons.prems]] capture_frame_window(2) [OF Cons.prems]
      by (cases "linearize f") simp_all
  qed simp
  then show "window_ok (foldl capture_frame f fs)"
    and "linearize (foldl capture_frame f fs) = drop (length fs) (linearize f @ map mono_mix fs)" by auto
qed

text \<open>
  The capture is a sliding window: whatever is rendered while the meter is on, the samples
  that the next transform sees, oldest first, are the last 256 of the mono mix so far, a call of
  any length included, and while it is off nothing is touched.
\<close>
theorem fft_window_slides:
  assumes "window_ok f"
  shows "window_ok (audio_fft_capture f fs) \<and>
    (if ff_enabled f then linearize (audio_fft_capture f fs) = drop (length fs) (linearize f @ map mono_mix fs)
     else audio_fft_capture f fs = f)"
proof (cases "ff_enabled f")
  case True
  define g where "g = foldl capture_frame f fs"
  have c: "audio_fft_capture f fs = g\<lparr>ff_since_update := (if ff_since_update g < 4294967295 - length fs
      then ff_since_update g + length fs else 4294967295)\<rparr>"
    using True by (simp add: audio_fft_capture_def g_def Let_def)
  have "window_ok (g\<lparr>ff_since_update := k\<rparr>) = window_ok g" "linearize (g\<lparr>ff_since_update := k\<rparr>) = linearize g" for k
    by (simp_all add: window_ok_def linearize_def)
  then show ?thesis using captures_window [OF assms, of fs] True unfolding c g_def by simp
qed (use assms in \<open>simp add: audio_fft_capture_def\<close>)

lemma init_window: "window_ok (audio_fft_init rate)" "window_ok f \<Longrightarrow> window_ok (audio_fft_set_enabled f on)"
  by (auto simp: window_ok_def audio_fft_init_def audio_fft_set_enabled_def AUDIO_FFT_SIZE_def Let_def)

theorem fft_window_slides_witness:
  "linearize (audio_fft_capture (audio_fft_set_enabled (audio_fft_init 44100) True) [(2, 4), (- 3, 0)]) =
     replicate 254 0 @ [3, - 1]"
proof -
  let ?f = "audio_fft_set_enabled (audio_fft_init 44100) True"
  have e: "ff_enabled ?f" by (simp add: audio_fft_set_enabled_def)
  have "linearize ?f = map (\<lambda>i. replicate 256 0 ! ((0 + i) mod 256)) [0..<256]"
    by (simp add: linearize_def audio_fft_set_enabled_def audio_fft_init_def AUDIO_FFT_SIZE_def Let_def)
  also have "\<dots> = replicate 256 0" by (rule nth_equalityI) simp_all
  finally have "linearize ?f = replicate 256 0" .
  moreover have "mono_mix (2, 4) = 3" "mono_mix (- 3, 0) = - 1" by (simp_all add: mono_mix_def cdiv_def)
  ultimately show ?thesis
    using fft_window_slides [OF init_window(2) [OF init_window(1)], of 44100 True "[(2, 4), (- 3, 0)]"] e by simp
qed

section \<open>The levels\<close>

lemma ilog2_u32_bounds: "1 \<le> x \<Longrightarrow> 2 ^ ilog2_u32 x \<le> x \<and> x < 2 ^ (ilog2_u32 x + 1)"
proof (induction x rule: ilog2_u32.induct)
  case (1 x)
  show ?case
  proof (cases "1 < x")
    case True
    then have "2 ^ ilog2_u32 (x div 2) \<le> x div 2 \<and> x div 2 < 2 ^ (ilog2_u32 (x div 2) + 1)"
      using 1 by (simp add: drop_bit_eq_div)
    then show ?thesis using True by (subst (1 2) ilog2_u32.simps) (auto simp: drop_bit_eq_div)
  next
    case False
    then show ?thesis using 1 by (subst (1 2) ilog2_u32.simps) simp
  qed
qed

definition band_mean :: "nat list \<Rightarrow> nat \<Rightarrow> nat \<Rightarrow> nat" where
  "band_mean mag lo hi = (\<Sum>k \<in> {lo..hi}. mag ! k) div (hi + 1 - lo)"

lemma band_level_exact:
  assumes "lo \<le> hi" "hi < 128" and "\<forall>k<128. mag ! k < 2 ^ 31"
  defines "l \<equiv> band_level mag lo hi"
  shows "8 dvd l \<and> l \<le> 248 \<and> 2 ^ (l div 8) \<le> band_mean mag lo hi + 1 \<and> band_mean mag lo hi + 1 < 2 ^ (l div 8 + 1)"
proof -
  have sum: "sum_list (map (\<lambda>k. mag ! k) [lo..<hi + 1]) = (\<Sum>k \<in> {lo..hi}. mag ! k)"
  proof -
    have "set [lo..<hi + 1] = {lo..hi}" by auto
    then show ?thesis by (simp only: interv_sum_list_conv_sum_set_nat)
  qed
  have w: "(\<Sum>k \<in> {lo..hi}. mag ! k) \<le> (hi + 1 - lo) * (2 ^ 31 - 1)"
  proof -
    have "mag ! k \<le> 2 ^ 31 - 1" if "k \<in> {lo..hi}" for k
    proof -
      have "mag ! k < 2 ^ 31" using that assms by simp
      then show ?thesis by linarith
    qed
    then have "(\<Sum>k \<in> {lo..hi}. mag ! k) \<le> of_nat (card {lo..hi}) * (2 ^ 31 - 1)" by (rule sum_bounded_above)
    then show ?thesis by simp
  qed
  also have "\<dots> \<le> 128 * (2 ^ 31 - 1)" using assms by (intro mult_le_mono1) simp
  finally have u: "u64 (\<Sum>k \<in> {lo..hi}. mag ! k) = (\<Sum>k \<in> {lo..hi}. mag ! k)" by (simp add: u64_def)
  have m: "band_mean mag lo hi \<le> 2 ^ 31 - 1"
    using div_le_mono [OF w, of "hi + 1 - lo"] assms(1) by (simp add: band_mean_def)
  then have i: "u32 (band_mean mag lo hi) = band_mean mag lo hi" "u32 (band_mean mag lo hi + 1) = band_mean mag lo hi + 1"
    by (simp_all add: u32_id)
  have mm: "(\<Sum>k \<in> {lo..hi}. mag ! k) div (if lo \<le> hi then hi - lo + 1 else 1) = band_mean mag lo hi"
    using assms(1) by (simp add: band_mean_def Suc_diff_le)
  define n where "n = ilog2_u32 (band_mean mag lo hi + 1)"
  have n: "2 ^ n \<le> band_mean mag lo hi + 1" "band_mean mag lo hi + 1 < 2 ^ (n + 1)"
    using ilog2_u32_bounds [of "band_mean mag lo hi + 1"] by (simp_all add: n_def)
  have "(2 :: nat) ^ n \<le> 2 ^ 31" using n(1) m by simp
  then have "n \<le> 31" by (subst (asm) power_increasing_iff) simp_all
  moreover have "l = (if 255 < n * 8 then 255 else n * 8)"
    unfolding l_def band_level_def Let_def sum u mm i n_def by (rule refl)
  ultimately have "l = n * 8" by simp
  then show ?thesis using n \<open>n \<le> 31\<close> by simp
qed

text \<open>Ranges of bins inside the spectrum; those of the initialisation are, at every rate.\<close>

definition bands_ok :: "audio_fft \<Rightarrow> bool" where
  "bands_ok f \<longleftrightarrow> (\<forall>b<16. ff_band_lo f ! b \<le> ff_band_hi f ! b \<and> ff_band_hi f ! b < 128)"

lemma band_edge_inside: "band_edge b \<le> 127"
  by (simp add: band_edge_def Let_def AUDIO_FFT_SIZE_def)

lemma init_bands:
  "bands_ok (audio_fft_init rate)" "bands_ok f \<Longrightarrow> bands_ok (audio_fft_set_enabled f on)"
  "bands_ok f \<Longrightarrow> bands_ok (audio_fft_capture f fs)"
proof -
  have "band_edge b < 128" for b using band_edge_inside [of b] by linarith
  then show "bands_ok (audio_fft_init rate)"
    by (auto simp: bands_ok_def audio_fft_init_def Let_def AUDIO_FFT_BANDS_def)
  show "bands_ok f \<Longrightarrow> bands_ok (audio_fft_set_enabled f on)"
    by (simp add: bands_ok_def audio_fft_set_enabled_def Let_def)
  have "ff_band_lo (foldl capture_frame f fs) = ff_band_lo f \<and> ff_band_hi (foldl capture_frame f fs) = ff_band_hi f" for f
    by (induction fs arbitrary: f) (auto simp: capture_frame_def case_prod_beta)
  then show "bands_ok f \<Longrightarrow> bands_ok (audio_fft_capture f fs)"
    by (simp add: bands_ok_def audio_fft_capture_def Let_def)
qed

text \<open>The mean power of the bins of a band.\<close>

definition band_power :: "spectrum \<Rightarrow> nat \<Rightarrow> nat \<Rightarrow> int" where
  "band_power s lo hi = (\<Sum>k \<in> {lo..hi}. (fst s ! k)\<^sup>2 + (snd s ! k)\<^sup>2) div int (hi + 1 - lo)"

text \<open>
  C40: A level is exact: neither the 32-bit butterflies, nor the squared magnitudes, nor the
  sums of a band overflow or saturate on any window, and the level of a band is eight times the
  integer logarithm of one more than the mean power of its bins, so never above 248.
\<close>
theorem fft_levels_exact:
  assumes "window_ok f" and "bands_ok f" and "ff_enabled f" and "256 \<le> ff_since_update f" and "b < 16"
  shows "let (due, f') = audio_fft_update f; s = fft_bins (linearize f); l = ff_bands f' ! b;
             pw = band_power s (ff_band_lo f ! b) (ff_band_hi f ! b)
         in due \<and> ff_since_update f' = 0 \<and> (\<forall>k<256. cmod (bin s k) \<le> 32824) \<and>
            8 dvd l \<and> l \<le> 248 \<and> 2 ^ (l div 8) \<le> pw + 1 \<and> pw + 1 < 2 ^ (l div 8 + 1)"
proof -
  let ?w = "linearize f" and ?lo = "ff_band_lo f ! b" and ?hi = "ff_band_hi f ! b"
  let ?mag = "audio_fft_kernel_mag ?w"
  have len: "length ?w = 256" by (simp add: linearize_def AUDIO_FFT_SIZE_def)
  have rng: "\<forall>x \<in> set ?w. - 32768 \<le> x \<and> x \<le> 32767"
    using assms(1) by (auto simp: linearize_def AUDIO_FFT_SIZE_def window_ok_def)
  note mag = kernel_mag [OF len rng]
  have band: "?lo \<le> ?hi" "?hi < 128" using assms(2,5) by (simp_all add: bands_ok_def)
  have u: "audio_fft_update f = (True, f\<lparr>ff_since_update := 0,
      ff_bands := map (\<lambda>b. band_level ?mag (ff_band_lo f ! b) (ff_band_hi f ! b)) [0..<16]\<rparr>)"
    using assms(3,4) by (simp add: audio_fft_update_def AUDIO_FFT_SIZE_def AUDIO_FFT_BANDS_def Let_def)
  have "int (\<Sum>k \<in> {?lo..?hi}. ?mag ! k) =
      (\<Sum>k \<in> {?lo..?hi}. (fst (fft_bins ?w) ! k)\<^sup>2 + (snd (fft_bins ?w) ! k)\<^sup>2)"
    using mag(1) band by (simp only: int_sum) (intro sum.cong, auto)
  then have pw: "band_power (fft_bins ?w) ?lo ?hi = int (band_mean ?mag ?lo ?hi)"
    by (simp add: band_power_def band_mean_def zdiv_int)
  have "int (2 ^ k) \<le> int (band_mean ?mag ?lo ?hi + 1) \<longleftrightarrow> 2 ^ k \<le> band_mean ?mag ?lo ?hi + 1"
    "int (band_mean ?mag ?lo ?hi + 1) < int (2 ^ k) \<longleftrightarrow> band_mean ?mag ?lo ?hi + 1 < 2 ^ k" for k
    by (simp_all only: of_nat_le_iff of_nat_less_iff)
  then have pows: "2 ^ k \<le> int (band_mean ?mag ?lo ?hi) + 1 \<longleftrightarrow> 2 ^ k \<le> band_mean ?mag ?lo ?hi + 1"
    "int (band_mean ?mag ?lo ?hi) + 1 < 2 ^ k \<longleftrightarrow> band_mean ?mag ?lo ?hi + 1 < 2 ^ k" for k
    by (simp_all only: of_nat_add of_nat_1 of_nat_power of_nat_numeral)
  show ?thesis
    using band_level_exact [OF band, of ?mag] mag(2) kernel_bins [OF len rng] assms(5)
    unfolding u Let_def prod.case pw pows by (simp add: bins_below_def)
qed

theorem fft_levels_exact_witness:
  "let f = audio_fft_capture (audio_fft_set_enabled (audio_fft_init 44100) True) (replicate 256 (100, - 100))
   in fst (audio_fft_update f) \<and> ff_bands (snd (audio_fft_update f)) ! 3 \<le> 248"
proof -
  let ?g = "audio_fft_set_enabled (audio_fft_init 44100) True"
  let ?f = "audio_fft_capture ?g (replicate 256 (100, - 100))"
  have g: "window_ok ?g" "bands_ok ?g" "ff_enabled ?g" "ff_since_update ?g = 0"
    by (rule init_window(2) [OF init_window(1)], rule init_bands(2) [OF init_bands(1)])
      (simp_all add: audio_fft_set_enabled_def Let_def audio_fft_init_def)
  have since: "ff_since_update (foldl capture_frame h fs) = ff_since_update h" for h fs
    by (induction fs arbitrary: h) (auto simp: capture_frame_def case_prod_beta)
  have "window_ok ?f"
    using captures_window(1) [OF g(1)] g(3) by (simp add: audio_fft_capture_def Let_def window_ok_def)
  moreover have "ff_enabled ?f \<and> 256 \<le> ff_since_update ?f"
    using g by (simp add: audio_fft_capture_def Let_def capture_enabled since)
  ultimately show ?thesis
    using fft_levels_exact [of ?f 3] init_bands(3) [OF g(2)] by (simp add: Let_def case_prod_beta)
qed

end
