(* ===== verification/Service.thy ===== *)
theory Service
  imports Audio_Arbiter Stream_Sources Audio_Fft
begin

unbundle bit_operations_syntax

text \<open>
  \<^verbatim>\<open>engine/service.c\<close>: the owner of the engine, which wires the pool, the arbiter, the mixer, the
  music players and the band meter into one unit.  The struct of the code is split in two: what
  the callbacks of the arbiter's sink reach is the context of the arbiter (\<open>service_ctx\<close>), and
  the rest is \<open>service\<close>.  The pool is the arbiter's; the start callback reads it, so the sink is
  a function of the pool as it is when the callback runs.  The staging buffers of a slot move
  into its player while there is one.  The platform's file reader is a parameter \<open>rd\<close>, and so
  is every outcome of the allocator.
\<close>

section \<open>Constants and state\<close>

definition AUDIO_POOL_BLOCK_SIZE :: nat where "AUDIO_POOL_BLOCK_SIZE = 8192"
definition AUDIO_POOL_MAX_OBJECTS :: nat where "AUDIO_POOL_MAX_OBJECTS = 256"
definition AUDIO_ARBITER_MAX_TRACKS :: nat where "AUDIO_ARBITER_MAX_TRACKS = 16"
definition AUDIO_RING_STREAM_FRAMES :: nat where "AUDIO_RING_STREAM_FRAMES = 32768"
definition HXA_DEFAULT_RATE :: nat where "HXA_DEFAULT_RATE = 44100"
definition HXA_DEFAULT_TRACKS :: nat where "HXA_DEFAULT_TRACKS = 8"
definition HXA_DEFAULT_POOL :: nat where "HXA_DEFAULT_POOL = 4 * 1024 * 1024"
definition HXA_MUSIC_STREAM_FRAMES :: nat where "HXA_MUSIC_STREAM_FRAMES = 8192"
definition HXA_MUSIC_HEAD_FRAMES :: nat where "HXA_MUSIC_HEAD_FRAMES = 1024"
definition HXA_FMV_STREAM_FRAMES :: nat where "HXA_FMV_STREAM_FRAMES = 2048"
definition HXA_FMV_CHANNEL_FILL :: nat where "HXA_FMV_CHANNEL_FILL = 2048"
definition HXA_SFX_EXPAND_FRAMES :: nat where "HXA_SFX_EXPAND_FRAMES = 512"

datatype music_source = HXA_SRC_NONE | HXA_SRC_FILE | HXA_SRC_RING

record 'h music_slot =
  ms_in_use :: bool
  ms_track :: nat
  ms_source :: music_source
  ms_player :: "music_player option"
  ms_file :: "'h file_stream"
  ms_streaming_buf :: "byte list"
  ms_intro_head :: "byte list"
  ms_loop_head :: "byte list"

text \<open>
  \<open>sv_has_reader\<close> says that the entries of the reader are not \<^verbatim>\<open>NULL\<close>; \<open>sv_fs\<close> is the reader's own
  state; \<open>sv_hung\<close> records that a call made by a callback never returned.
\<close>

record ('f, 'h) service_ctx =
  sv_mixer :: audio_mixer
  sv_sample_rate :: nat
  sv_track_count :: nat
  sv_slots :: "'h music_slot list"
  sv_ring :: ring_stream
  sv_ring_rate :: nat
  sv_ll_stream :: nat
  sv_ll_chanfill :: nat
  sv_pend_source :: music_source
  sv_pend_path :: "string option"
  sv_pend_rate :: nat
  sv_has_reader :: bool
  sv_fs :: 'f
  sv_hung :: bool

record ('f, 'h) service =
  hx_arbiter :: "('f, 'h) service_ctx audio_arbiter"
  hx_fft :: audio_fft
  hx_total_output :: nat

section \<open>Music slots\<close>

definition slot_free :: "('f, 'h) service_ctx \<Rightarrow> nat option" where
  "slot_free s = find (\<lambda>i. \<not> ms_in_use (sv_slots s ! i)) [0..<sv_track_count s]"

definition slot_for_track :: "('f, 'h) service_ctx \<Rightarrow> nat \<Rightarrow> nat option" where
  "slot_for_track s track =
     find (\<lambda>i. ms_in_use (sv_slots s ! i) \<and> ms_track (sv_slots s ! i) = track) [0..<sv_track_count s]"

definition at_slot :: "('f, 'h) service_ctx \<Rightarrow> nat \<Rightarrow> 'h music_slot \<Rightarrow> ('f, 'h) service_ctx" where
  "at_slot s i ms = s\<lparr>sv_slots := (sv_slots s)[i := ms]\<rparr>"

definition voice_config :: "('f, 'h) service_ctx \<Rightarrow> nat \<Rightarrow> bool \<Rightarrow> bool \<Rightarrow> music_config" where
  "voice_config s track loop low_latency =
     \<lparr>mc_mixer_channel = track, mc_format = MIXER_SRC_PCM16_STEREO, mc_intro_stream_id = 0,
      mc_loop_stream_id = (if loop then 1 else MUSIC_STREAM_NONE),
      mc_streaming_buffer_samples = (if low_latency then sv_ll_stream s else HXA_MUSIC_STREAM_FRAMES),
      mc_max_channel_fill = (if low_latency then sv_ll_chanfill s else 0),
      mc_has_intro_head = True, mc_intro_head_samples = HXA_MUSIC_HEAD_FRAMES,
      mc_has_loop_head = True, mc_loop_head_samples = HXA_MUSIC_HEAD_FRAMES\<rparr>"

text \<open>The player takes the part of the staging buffer that its configuration declares.\<close>

definition start_music ::
    "('f, 'h) service_ctx \<Rightarrow> 'h music_slot \<Rightarrow> nat \<Rightarrow> 'u stream_fn \<Rightarrow> 'u \<Rightarrow> bool \<Rightarrow> voice_params \<Rightarrow> bool \<Rightarrow> bool \<Rightarrow>
     bool \<times> 'h music_slot \<times> audio_mixer \<times> 'u" where
  "start_music s ms track stream_fn u loop p low_latency alloc_ok =
     (let mx = mixer_set_pan (mixer_set_volume (sv_mixer s) track (i16 (vp_gain p))) track (i16 (vp_pan p));
          mx = mixer_channel_reset (mixer_set_source_rate mx track 0) track;
          cfg = voice_config s track loop low_latency
      in case music_create_with_allocator cfg (take (4 * mc_streaming_buffer_samples cfg) (ms_streaming_buf ms))
                (ms_intro_head ms) (ms_loop_head ms) alloc_ok of
           None \<Rightarrow> (False, ms\<lparr>ms_player := None\<rparr>, mx, u)
         | Some mp \<Rightarrow>
             (case music_prime_intro stream_fn mp u of (_, mp1, u1) \<Rightarrow>
                (case (if loop then music_prime_loop stream_fn mp1 u1 else (True, mp1, u1)) of (_, mp2, u2) \<Rightarrow>
                   (case music_play mp2 mx of (mp3, mx1) \<Rightarrow>
                      (True, ms\<lparr>ms_track := track, ms_in_use := True, ms_player := Some mp3\<rparr>, mx1, u2)))))"

section \<open>The sink\<close>

text \<open>Mono samples doubled to stereo frames, and their feed to the channel in pieces.\<close>

definition expand :: "byte list \<Rightarrow> nat \<Rightarrow> nat \<Rightarrow> byte list" where
  "expand b from n = stereo_bytes (map (\<lambda>i. (sample16 b (2 * (from + i)), sample16 b (2 * (from + i)))) [0..<n])"

function feed_chunk :: "nat \<Rightarrow> byte list \<Rightarrow> nat \<Rightarrow> nat \<Rightarrow> audio_mixer \<Rightarrow> audio_mixer" where
  "feed_chunk track b mono_n fed mx =
     (if fed < mono_n
      then let sub = (if HXA_SFX_EXPAND_FRAMES < mono_n - fed then HXA_SFX_EXPAND_FRAMES else mono_n - fed)
           in feed_chunk track b mono_n (fed + sub) (snd (mixer_write_channel mx track (expand b fed sub) sub))
      else mx)"
  by pat_completeness auto
termination
  by (relation "measure (\<lambda>(track, b, mono_n, fed, mx). mono_n - fed)") (auto simp: HXA_SFX_EXPAND_FRAMES_def)

declare feed_chunk.simps [simp del]

function feed_object :: "audio_pool \<Rightarrow> obj_handle \<Rightarrow> nat \<Rightarrow> nat \<Rightarrow> nat \<Rightarrow> audio_mixer \<Rightarrow> audio_mixer" where
  "feed_object p object track sz off mx =
     (if off < sz
      then let want = (if AUDIO_POOL_BLOCK_SIZE < sz - off then AUDIO_POOL_BLOCK_SIZE else sz - off);
               r = fst (audio_pool_read p object off want); b = snd (audio_pool_read p object off want)
           in if r \<noteq> AUDIO_POOL_OK \<or> length b = 0 then mx
              else feed_object p object track sz (off + length b) (feed_chunk track b (length b div 2) 0 mx)
      else mx)"
  by pat_completeness auto
termination
  by (relation "measure (\<lambda>(p, object, track, sz, off, mx). sz - off)") (auto intro!: diff_less_mono2)

declare feed_object.simps [simp del]

definition start_file ::
    "('f, 'h) file_reader \<Rightarrow> bool \<Rightarrow> ('f, 'h) service_ctx \<Rightarrow> nat \<Rightarrow> nat \<Rightarrow> voice_params \<Rightarrow> bool \<times> ('f, 'h) service_ctx" where
  "start_file rd alloc_ok s i track p =
     (case sv_pend_path s of
        None \<Rightarrow> (False, s)
      | Some path \<Rightarrow>
          if \<not> sv_has_reader s then (False, s)
          else case audio_file_stream_open rd path (sv_fs s) of
            None \<Rightarrow> (False, s\<lparr>sv_hung := True\<rparr>)
          | Some (ok, fc, fs1) \<Rightarrow>
              let ms = (sv_slots s ! i)\<lparr>ms_file := fc\<rparr>; s1 = s\<lparr>sv_fs := fs1\<rparr> in
              if \<not> ok then (False, at_slot s1 i ms)
              else (case start_music s1 (ms\<lparr>ms_source := HXA_SRC_FILE\<rparr>) track (audio_file_stream_read rd) (fc, fs1)
                           True p False alloc_ok of
                      (started, ms1, mx, (fc1, fs2)) \<Rightarrow>
                        if started then (True, (at_slot s1 i (ms1\<lparr>ms_file := fc1\<rparr>))\<lparr>sv_mixer := mx, sv_fs := fs2\<rparr>)
                        else (case audio_file_stream_close rd (fc1, fs2) of (fc2, fs3) \<Rightarrow>
                                (False, (at_slot s1 i (ms1\<lparr>ms_file := fc2, ms_source := HXA_SRC_NONE\<rparr>))
                                   \<lparr>sv_mixer := mx, sv_fs := fs3\<rparr>))))"

definition start_ring ::
    "bool \<Rightarrow> ('f, 'h) service_ctx \<Rightarrow> nat \<Rightarrow> nat \<Rightarrow> voice_params \<Rightarrow> bool \<times> ('f, 'h) service_ctx" where
  "start_ring alloc_ok s i track p =
     (let ms = (sv_slots s ! i)\<lparr>ms_source := HXA_SRC_RING\<rparr> in
      case start_music s ms track ring_stream_source (audio_ring_stream_reset (sv_ring s)) False p True alloc_ok of
        (started, ms1, mx, ring1) \<Rightarrow>
          if \<not> started then (False, (at_slot s i (ms1\<lparr>ms_source := HXA_SRC_NONE\<rparr>))\<lparr>sv_mixer := mx, sv_ring := ring1\<rparr>)
          else (True, (at_slot s i ms1)\<lparr>sv_ring := ring1,
                  sv_mixer := (if sv_ring_rate s \<noteq> 0 \<and> sv_ring_rate s \<noteq> sv_sample_rate s
                               then mixer_set_source_rate mx track (sv_ring_rate s) else mx)\<rparr>))"

definition start_sfx ::
    "audio_pool \<Rightarrow> ('f, 'h) service_ctx \<Rightarrow> nat \<Rightarrow> obj_handle \<Rightarrow> voice_params \<Rightarrow> bool \<times> ('f, 'h) service_ctx" where
  "start_sfx pool s track object p =
     (let sz = audio_pool_object_size pool object in
      if sz = 0 then (False, s)
      else let mx = mixer_set_pan (mixer_set_volume (sv_mixer s) track (i16 (vp_gain p))) track (i16 (vp_pan p));
               mx = mixer_set_source_rate mx track (audio_pool_object_sample_rate pool object);
               mx = feed_object pool object track sz 0 (mixer_channel_reset mx track)
           in (True, s\<lparr>sv_mixer := mixer_channel_start mx track\<rparr>))"

definition svc_sink_start ::
    "('f, 'h) file_reader \<Rightarrow> audio_pool \<Rightarrow> bool \<Rightarrow> ('f, 'h) service_ctx \<Rightarrow> nat \<Rightarrow> voice_kind \<Rightarrow> obj_handle \<Rightarrow> voice_params \<Rightarrow>
     bool \<times> ('f, 'h) service_ctx" where
  "svc_sink_start rd pool alloc_ok s track kind object p =
     (if kind = AUDIO_VOICE_MUSIC
      then case slot_free s of
             None \<Rightarrow> (False, s)
           | Some i \<Rightarrow>
               if sv_pend_source s = HXA_SRC_FILE then start_file rd alloc_ok s i track p
               else if sv_pend_source s = HXA_SRC_RING then start_ring alloc_ok s i track p
               else (False, s)
      else start_sfx pool s track object p)"

text \<open>A player that is destroyed leaves its staging buffers to the slot.\<close>

definition return_buffers :: "music_player \<Rightarrow> 'h music_slot \<Rightarrow> 'h music_slot" where
  "return_buffers mp ms =
     ms\<lparr>ms_player := None, ms_streaming_buf := blit (ms_streaming_buf ms) 0 (mp_streaming_buffer mp),
        ms_intro_head := mp_intro_head mp, ms_loop_head := mp_loop_head mp\<rparr>"

definition svc_sink_stop :: "('f, 'h) file_reader \<Rightarrow> ('f, 'h) service_ctx \<Rightarrow> nat \<Rightarrow> ('f, 'h) service_ctx" where
  "svc_sink_stop rd s track =
     (let s2 =
        (case slot_for_track s track of
           None \<Rightarrow> s
         | Some i \<Rightarrow>
             let ms = sv_slots s ! i;
                 (ms1, mx1) = (case ms_player ms of
                                 None \<Rightarrow> (ms, sv_mixer s)
                               | Some mp \<Rightarrow> (return_buffers mp ms, music_destroy mp (sv_mixer s)));
                 (fc1, fs1) = (if ms_source ms1 = HXA_SRC_FILE then audio_file_stream_close rd (ms_file ms1, sv_fs s)
                               else (ms_file ms1, sv_fs s))
             in (at_slot s i (ms1\<lparr>ms_file := fc1, ms_source := HXA_SRC_NONE, ms_in_use := False\<rparr>))
                  \<lparr>sv_mixer := mx1, sv_fs := fs1\<rparr>)
      in s2\<lparr>sv_mixer := mixer_channel_reset (mixer_channel_stop (sv_mixer s2) track) track\<rparr>)"

definition svc_sink_is_done :: "('f, 'h) service_ctx \<Rightarrow> nat \<Rightarrow> bool \<times> ('f, 'h) service_ctx" where
  "svc_sink_is_done s track = (mixer_channel_buffered (sv_mixer s) track = 0, s)"

definition svc_sink :: "('f, 'h) file_reader \<Rightarrow> audio_pool \<Rightarrow> bool \<Rightarrow> ('f, 'h) service_ctx arbiter_sink" where
  "svc_sink rd pool alloc_ok =
     \<lparr>sk_start = svc_sink_start rd pool alloc_ok, sk_stop = svc_sink_stop rd, sk_is_done = Some svc_sink_is_done\<rparr>"

section \<open>Creation\<close>

record hxa_config =
  hc_sample_rate :: nat
  hc_track_count :: nat
  hc_pool_bytes :: nat
  hc_headroom_bits :: nat
  hc_has_reader :: bool

text \<open>
  What the allocator answers while the service is built: the struct, the sound memory, the tables
  of the pool, the channel descriptions, the mixer's requests, the slots, and the three staging
  buffers of every slot.
\<close>

record service_memory =
  sm_struct :: bool
  sm_region :: "nat \<Rightarrow> byte list option"
  sm_pool :: bool
  sm_configs :: bool
  sm_mixer :: mixer_alloc
  sm_slots :: bool
  sm_staging :: "nat \<Rightarrow> byte list option \<times> byte list option \<times> byte list option"

definition default_config :: hxa_config where
  "default_config = \<lparr>hc_sample_rate = 0, hc_track_count = 0, hc_pool_bytes = 0, hc_headroom_bits = 0,
     hc_has_reader = False\<rparr>"

definition channel_config :: mixer_config where
  "channel_config = \<lparr>cc_format = MIXER_SRC_PCM16_STEREO, cc_buffer_samples = 32768, cc_volume = Q15_ONE,
     cc_source_rate = 0, cc_pan = 0, cc_loop = False, cc_interp = MIXER_INTERP_CUBIC\<rparr>"

definition output_format :: mixer_out_format where
  "output_format = \<lparr>of_bits = 16, of_signed = True, of_storage_bits = 16, of_channels = 2\<rparr>"

definition sync_config :: "nat \<Rightarrow> mixer_sync_config" where
  "sync_config rate = \<lparr>sc_ticks_per_second = rate, sc_smoothing = cdiv Q15_ONE 128, sc_max_correction = cdiv Q15_ONE 50\<rparr>"

definition empty_slot :: "byte list \<Rightarrow> byte list \<Rightarrow> byte list \<Rightarrow> 'h music_slot" where
  "empty_slot sbuf ihead lhead = \<lparr>ms_in_use = False, ms_track = 0, ms_source = HXA_SRC_NONE, ms_player = None,
     ms_file = file_stream_zero, ms_streaming_buf = sbuf, ms_intro_head = ihead, ms_loop_head = lhead\<rparr>"

definition empty_ring :: ring_stream where
  "empty_ring = audio_ring_stream_reset \<lparr>rs_buf = replicate AUDIO_RING_STREAM_FRAMES (0, 0), rs_w = 0, rs_r = 0,
     rs_eof = False, rs_underruns = 0, rs_overflows = 0, rs_external_clock = 0\<rparr>"

text \<open>The loop over the staging buffers; it fails at the first one that is missing.\<close>

fun stage_slots :: "(nat \<Rightarrow> byte list option \<times> byte list option \<times> byte list option) \<Rightarrow> nat list \<Rightarrow> 'h music_slot list option" where
  "stage_slots m [] = Some []"
| "stage_slots m (i # is) =
     (case m i of
        (Some a, Some b, Some c) \<Rightarrow>
          (case stage_slots m is of None \<Rightarrow> None | Some ss \<Rightarrow> Some (empty_slot a b c # ss))
      | _ \<Rightarrow> None)"

text \<open>The last stretch, once the mixer exists; its failures destroy the mixer.\<close>

definition finish_create ::
    "hxa_config \<Rightarrow> service_memory \<Rightarrow> nat \<Rightarrow> nat \<Rightarrow> audio_pool \<Rightarrow> audio_mixer \<Rightarrow> 'f \<Rightarrow> mixer_heap \<Rightarrow>
     ('f, 'h) service option \<times> mixer_heap" where
  "finish_create c mem rate tracks pool mx fs h =
     (let ctx = \<lparr>sv_mixer = mx, sv_sample_rate = rate, sv_track_count = tracks, sv_slots = [], sv_ring = empty_ring,
                 sv_ring_rate = 0, sv_ll_stream = HXA_FMV_STREAM_FRAMES, sv_ll_chanfill = HXA_FMV_CHANNEL_FILL,
                 sv_pend_source = HXA_SRC_NONE, sv_pend_path = None, sv_pend_rate = 0,
                 sv_has_reader = hc_has_reader c, sv_fs = fs, sv_hung = False\<rparr>
      in case audio_arbiter_init AUDIO_ARBITER_MAX_TRACKS tracks pool ctx of
           None \<Rightarrow> (None, mixer_destroy mx h)
         | Some arb \<Rightarrow>
             if \<not> sm_slots mem then (None, mixer_destroy mx h)
             else case stage_slots (sm_staging mem) [0..<tracks] of
                    None \<Rightarrow> (None, mixer_destroy mx h)
                  | Some ss \<Rightarrow>
                      (Some \<lparr>hx_arbiter = arb\<lparr>aa_ctx := ctx\<lparr>sv_slots := ss\<rparr>\<rparr>, hx_fft = audio_fft_init rate,
                             hx_total_output = 0\<rparr>, h))"

definition hxa_create ::
    "hxa_config option \<Rightarrow> service_memory \<Rightarrow> 'f \<Rightarrow> mixer_heap \<Rightarrow> ('f, 'h) service option \<times> mixer_heap" where
  "hxa_create cfg mem fs h =
     (let c = (case cfg of None \<Rightarrow> default_config | Some c \<Rightarrow> c);
          rate = (if hc_sample_rate c \<noteq> 0 then hc_sample_rate c else HXA_DEFAULT_RATE);
          tracks = (if hc_track_count c \<noteq> 0 then hc_track_count c else HXA_DEFAULT_TRACKS);
          tracks = (if AUDIO_ARBITER_MAX_TRACKS < tracks then AUDIO_ARBITER_MAX_TRACKS else tracks);
          pool_bytes = (if hc_pool_bytes c \<noteq> 0 then hc_pool_bytes c else HXA_DEFAULT_POOL)
      in if \<not> sm_struct mem then (None, h)
         else case sm_region mem pool_bytes of
           None \<Rightarrow> (None, h)
         | Some region \<Rightarrow>
             (case audio_pool_init AUDIO_POOL_BLOCK_SIZE AUDIO_POOL_MAX_OBJECTS region (sm_pool mem) of
                (_, None) \<Rightarrow> (None, h)
              | (_, Some pool) \<Rightarrow>
                  if \<not> sm_configs mem then (None, h)
                  else case mixer_create_with_sync (sm_mixer mem) (replicate tracks channel_config) (i32 (int rate))
                              output_format (hc_headroom_bits c) (Some (sync_config rate)) None h of
                    (None, h1) \<Rightarrow> (None, h1)
                  | (Some mx, h1) \<Rightarrow> finish_create c mem rate tracks pool mx fs h1))"

text \<open>What is left of the outside world when the service is destroyed.\<close>

definition hxa_destroy :: "('f, 'h) service \<Rightarrow> mixer_heap \<Rightarrow> 'f \<times> mixer_heap" where
  "hxa_destroy s h =
     (let ctx = aa_ctx (hx_arbiter s);
          mx = foldl (\<lambda>mx i. case ms_player (sv_slots ctx ! i) of None \<Rightarrow> mx | Some mp \<Rightarrow> music_destroy mp mx)
                 (sv_mixer ctx) [0..<sv_track_count ctx]
      in (sv_fs ctx, mixer_destroy mx h))"

section \<open>Loading\<close>

text \<open>
  The loop that reads a whole file; \<open>grow\<close> tells whether a buffer of a given size can be had.  It
  need not end (a reader may deliver for ever), so it is a partial function: \<^term>\<open>None\<close> when it
  does not return, \<^term>\<open>Some None\<close> when the buffer was lost.
\<close>

partial_function (option) slurp_loop ::
    "('f, 'h) file_reader \<Rightarrow> (nat \<Rightarrow> bool) \<Rightarrow> 'h \<Rightarrow> nat \<Rightarrow> byte list \<Rightarrow> 'f \<Rightarrow> (byte list option \<times> 'f) option" where
  "slurp_loop rd grow fh cap buf fs =
     (if length buf = cap \<and> \<not> grow (cap * 2) then Some (None, fs)
      else let cap1 = (if length buf = cap then cap * 2 else cap);
               want = u32 (cap1 - length buf);
               b = fst (rd_read rd fs fh want); fs1 = snd (rd_read rd fs fh want)
           in if length b < want then Some (Some (buf @ b), fs1)
              else slurp_loop rd grow fh cap1 (buf @ b) fs1)"

definition slurp_file ::
    "('f, 'h) file_reader \<Rightarrow> bool \<Rightarrow> (nat \<Rightarrow> bool) \<Rightarrow> string \<Rightarrow> ('f, 'h) service_ctx \<Rightarrow>
     (byte list option \<times> ('f, 'h) service_ctx) option" where
  "slurp_file rd first_ok grow path s =
     (if \<not> sv_has_reader s then Some (None, s)
      else case rd_open rd (sv_fs s) path of
        (None, fs1) \<Rightarrow> Some (None, s\<lparr>sv_fs := fs1\<rparr>)
      | (Some fh, fs1) \<Rightarrow>
          if \<not> first_ok then Some (None, s\<lparr>sv_fs := rd_close rd fs1 fh\<rparr>)
          else case slurp_loop rd grow fh 65536 [] fs1 of
            None \<Rightarrow> None
          | Some (buf, fs2) \<Rightarrow> Some (buf, s\<lparr>sv_fs := rd_close rd fs2 fh\<rparr>))"

text \<open>The staging of samples in the pool, which both loaders end with.\<close>

definition stage_pcm :: "audio_pool \<Rightarrow> byte list \<Rightarrow> nat \<Rightarrow> obj_handle \<times> audio_pool" where
  "stage_pcm p data rate =
     (case audio_pool_alloc_with_rate p (u32 (length data)) 0 rate of
        (r, h, p1) \<Rightarrow>
          if r \<noteq> AUDIO_POOL_OK then (0, p1)
          else (h, snd (snd (audio_pool_write p1 h 0 (take (u32 (length data)) data)))))"

definition hxa_load_sfx_pcm :: "('f, 'h) service \<Rightarrow> byte list \<Rightarrow> nat \<Rightarrow> obj_handle \<times> ('f, 'h) service" where
  "hxa_load_sfx_pcm s data rate =
     (if length data = 0 then (0, s)
      else case stage_pcm (aa_pool (hx_arbiter s)) data rate of
        (h, p) \<Rightarrow> (h, s\<lparr>hx_arbiter := (hx_arbiter s)\<lparr>aa_pool := p\<rparr>\<rparr>))"

definition mono_bytes :: "int list \<Rightarrow> byte list" where "mono_bytes ms = concat (map put_s16le ms)"

definition hxa_load_sfx_wav ::
    "('f, 'h) file_reader \<Rightarrow> bool \<Rightarrow> (nat \<Rightarrow> bool) \<Rightarrow> bool \<Rightarrow> ('f, 'h) service \<Rightarrow> string \<Rightarrow>
     (obj_handle \<times> ('f, 'h) service) option" where
  "hxa_load_sfx_wav rd first_ok grow mono_ok s path =
     (case slurp_file rd first_ok grow path (aa_ctx (hx_arbiter s)) of
        None \<Rightarrow> None
      | Some (buf, ctx) \<Rightarrow>
          let s1 = s\<lparr>hx_arbiter := (hx_arbiter s)\<lparr>aa_ctx := ctx\<rparr>\<rparr> in
          (case buf of
             None \<Rightarrow> Some (0, s1)
           | Some file \<Rightarrow>
               (case wav_parse 64 file of
                  None \<Rightarrow> None
                | Some (r, info) \<Rightarrow>
                    if r \<noteq> WAV_OK then Some (0, s1)
                    else let src_frames = wi_data_bytes info div (wi_channels info * (wi_bits info div 8)) in
                         if src_frames = 0 then Some (0, s1)
                         else if \<not> mono_ok then Some (0, s1)
                         else let mono = wav_to_mono_pcm16 info src_frames in
                              if length mono = 0 then Some (0, s1)
                              else case stage_pcm (aa_pool (hx_arbiter s1)) (mono_bytes mono) (wi_sample_rate info) of
                                (h, p) \<Rightarrow> Some (h, s1\<lparr>hx_arbiter := (hx_arbiter s1)\<lparr>aa_pool := p\<rparr>\<rparr>))))"

section \<open>Playback\<close>

definition in_ctx :: "(('f, 'h) service_ctx \<Rightarrow> ('f, 'h) service_ctx) \<Rightarrow> ('f, 'h) service \<Rightarrow> ('f, 'h) service" where
  "in_ctx f s = s\<lparr>hx_arbiter := (hx_arbiter s)\<lparr>aa_ctx := f (aa_ctx (hx_arbiter s))\<rparr>\<rparr>"

text \<open>The start callback runs after the arbiter has taken its reference, so it sees that pool.\<close>

definition hxa_trigger_sfx ::
    "('f, 'h) file_reader \<Rightarrow> ('f, 'h) service \<Rightarrow> obj_handle \<Rightarrow> int \<Rightarrow> int \<Rightarrow> voice_handle \<times> ('f, 'h) service" where
  "hxa_trigger_sfx rd s obj gain pan =
     (let sk = svc_sink rd (snd (audio_pool_ref (aa_pool (hx_arbiter s)) obj)) True
      in case audio_arbiter_play sk (hx_arbiter s) obj AUDIO_VOICE_SFX
                (Some \<lparr>vp_gain = gain, vp_pan = pan, vp_priority = 0, vp_loop = 0\<rparr>) 0 of
           (_, v, a) \<Rightarrow> (v, s\<lparr>hx_arbiter := a\<rparr>))"

definition play_external ::
    "('f, 'h) file_reader \<Rightarrow> bool \<Rightarrow> ('f, 'h) service \<Rightarrow> int \<Rightarrow> int \<Rightarrow> voice_handle \<times> ('f, 'h) service" where
  "play_external rd alloc_ok s gain pan =
     (case audio_arbiter_play_external (svc_sink rd (aa_pool (hx_arbiter s)) alloc_ok) (hx_arbiter s)
             (Some \<lparr>vp_gain = gain, vp_pan = pan, vp_priority = 0, vp_loop = 0\<rparr>) 0 of
        (_, v, a) \<Rightarrow> (v, s\<lparr>hx_arbiter := a\<rparr>))"

text \<open>\<^term>\<open>None\<close> when opening the file does not return.\<close>

definition hxa_play_stream_wav ::
    "('f, 'h) file_reader \<Rightarrow> bool \<Rightarrow> ('f, 'h) service \<Rightarrow> string \<Rightarrow> (voice_handle \<times> ('f, 'h) service) option" where
  "hxa_play_stream_wav rd alloc_ok s path =
     (let s1 = in_ctx (\<lambda>c. c\<lparr>sv_pend_source := HXA_SRC_FILE, sv_pend_path := Some path\<rparr>) s
      in case play_external rd alloc_ok s1 Q15_ONE 0 of
           (v, s2) \<Rightarrow>
             if sv_hung (aa_ctx (hx_arbiter s2)) then None
             else Some (v, in_ctx (\<lambda>c. c\<lparr>sv_pend_source := HXA_SRC_NONE, sv_pend_path := None\<rparr>) s2))"

definition hxa_stop_voice :: "('f, 'h) file_reader \<Rightarrow> ('f, 'h) service \<Rightarrow> voice_handle \<Rightarrow> ('f, 'h) service" where
  "hxa_stop_voice rd s voice =
     s\<lparr>hx_arbiter := snd (audio_arbiter_stop (svc_sink rd (aa_pool (hx_arbiter s)) True) (hx_arbiter s) voice)\<rparr>"

definition hxa_open_pcm_stream ::
    "('f, 'h) file_reader \<Rightarrow> bool \<Rightarrow> ('f, 'h) service \<Rightarrow> nat \<Rightarrow> int \<Rightarrow> int \<Rightarrow> voice_handle \<times> ('f, 'h) service" where
  "hxa_open_pcm_stream rd alloc_ok s rate gain pan =
     (let s1 = in_ctx (\<lambda>c. let r = (if rate \<noteq> 0 then rate else sv_sample_rate c)
                            in c\<lparr>sv_ring_rate := r, sv_pend_source := HXA_SRC_RING, sv_pend_rate := r\<rparr>) s
      in case play_external rd alloc_ok s1 gain pan of
           (v, s2) \<Rightarrow> (v, in_ctx (\<lambda>c. c\<lparr>sv_pend_source := HXA_SRC_NONE, sv_pend_rate := 0\<rparr>) s2))"

definition hxa_feed_pcm :: "('f, 'h) service \<Rightarrow> (int \<times> int) list \<Rightarrow> nat \<times> ('f, 'h) service" where
  "hxa_feed_pcm s stereo =
     (case audio_ring_stream_push (sv_ring (aa_ctx (hx_arbiter s))) stereo of
        (n, r) \<Rightarrow> (n, in_ctx (\<lambda>c. c\<lparr>sv_ring := r\<rparr>) s))"

definition hxa_set_lowlat :: "('f, 'h) service \<Rightarrow> nat \<Rightarrow> nat \<Rightarrow> ('f, 'h) service" where
  "hxa_set_lowlat s stream_frames channel_fill =
     (let sf = (if stream_frames = 0 then HXA_FMV_STREAM_FRAMES else stream_frames);
          sf = (if HXA_MUSIC_STREAM_FRAMES < sf then HXA_MUSIC_STREAM_FRAMES else sf);
          cf = (if channel_fill = 0 then HXA_FMV_CHANNEL_FILL else channel_fill)
      in in_ctx (\<lambda>c. c\<lparr>sv_ll_stream := sf, sv_ll_chanfill := cf\<rparr>) s)"

definition hxa_flush_pcm :: "('f, 'h) service \<Rightarrow> ('f, 'h) service" where
  "hxa_flush_pcm s = in_ctx (\<lambda>c. c\<lparr>sv_ring := audio_ring_stream_reset (sv_ring c)\<rparr>) s"

definition hxa_ring_stats :: "('f, 'h) service option \<Rightarrow> nat \<times> nat \<times> nat" where
  "hxa_ring_stats s =
     (case s of
        None \<Rightarrow> (0, 0, 0)
      | Some s \<Rightarrow> let r = sv_ring (aa_ctx (hx_arbiter s))
                  in (rs_underruns r, rs_overflows r, u32 (audio_ring_stream_avail r)))"

section \<open>Rendering\<close>

text \<open>The pump of a slot: its player is updated from the source that it was made for.\<close>

definition update_slot :: "('f, 'h) file_reader \<Rightarrow> ('f, 'h) service_ctx \<Rightarrow> nat \<Rightarrow> ('f, 'h) service_ctx" where
  "update_slot rd s i =
     (let ms = sv_slots s ! i in
      case ms_player ms of
        None \<Rightarrow> s
      | Some mp \<Rightarrow>
          if \<not> ms_in_use ms then s
          else if ms_source ms = HXA_SRC_FILE
          then (case music_update (audio_file_stream_read rd) (mp, sv_mixer s, (ms_file ms, sv_fs s)) of
                  (mp1, mx1, (fc1, fs1)) \<Rightarrow>
                    (at_slot s i (ms\<lparr>ms_player := Some mp1, ms_file := fc1\<rparr>))\<lparr>sv_mixer := mx1, sv_fs := fs1\<rparr>)
          else if ms_source ms = HXA_SRC_RING
          then (case music_update ring_stream_source (mp, sv_mixer s, sv_ring s) of
                  (mp1, mx1, ring1) \<Rightarrow>
                    (at_slot s i (ms\<lparr>ms_player := Some mp1\<rparr>))\<lparr>sv_mixer := mx1, sv_ring := ring1\<rparr>)
          else s)"

text \<open>The output as the signed stereo frames that the meter captures.\<close>

fun out_frames :: "nat list \<Rightarrow> (int \<times> int) list" where
  "out_frames (l # r # out) = (i16 (int l), i16 (int r)) # out_frames out"
| "out_frames _ = []"

definition hxa_render :: "('f, 'h) file_reader \<Rightarrow> ('f, 'h) service \<Rightarrow> nat \<Rightarrow> nat list \<times> ('f, 'h) service" where
  "hxa_render rd s frames =
     (let s1 = in_ctx (\<lambda>c. foldl (update_slot rd) c [0..<sv_track_count c]) s;
          a = snd (audio_arbiter_reap (svc_sink rd (aa_pool (hx_arbiter s1)) True) (hx_arbiter s1))
      in case mixer_render (sv_mixer (aa_ctx a)) frames of
           (out, mx) \<Rightarrow>
             (out, s1\<lparr>hx_arbiter := a\<lparr>aa_ctx := (aa_ctx a)\<lparr>sv_mixer := mx\<rparr>\<rparr>,
                      hx_total_output := u64 (hx_total_output s1 + frames),
                      hx_fft := audio_fft_capture (hx_fft s1) (out_frames out)\<rparr>))"

definition hxa_observe_sync :: "('f, 'h) service \<Rightarrow> nat \<Rightarrow> nat \<Rightarrow> int \<times> ('f, 'h) service" where
  "hxa_observe_sync s internal external =
     (case mixer_observe_sync (sv_mixer (aa_ctx (hx_arbiter s))) internal external of
        (ppm, mx) \<Rightarrow> (ppm, in_ctx (\<lambda>c. c\<lparr>sv_mixer := mx\<rparr>) s))"

definition hxa_set_drift_ppm :: "('f, 'h) service \<Rightarrow> int \<Rightarrow> ('f, 'h) service" where
  "hxa_set_drift_ppm s ppm = in_ctx (\<lambda>c. c\<lparr>sv_mixer := mixer_set_drift_ppm (sv_mixer c) ppm\<rparr>) s"

definition hxa_fft_set_enabled :: "('f, 'h) service \<Rightarrow> bool \<Rightarrow> ('f, 'h) service" where
  "hxa_fft_set_enabled s on = s\<lparr>hx_fft := audio_fft_set_enabled (hx_fft s) on\<rparr>"

definition hxa_fft_bands :: "('f, 'h) service \<Rightarrow> nat \<Rightarrow> nat list \<times> ('f, 'h) service" where
  "hxa_fft_bands s n =
     (let f = snd (audio_fft_update (hx_fft s))
      in (take n (audio_fft_get_bands f AUDIO_FFT_BANDS), s\<lparr>hx_fft := f\<rparr>))"

definition hxa_mixer :: "('f, 'h) service option \<Rightarrow> audio_mixer option" where
  "hxa_mixer s = map_option (\<lambda>s. sv_mixer (aa_ctx (hx_arbiter s))) s"

definition hxa_pool :: "('f, 'h) service option \<Rightarrow> audio_pool option" where
  "hxa_pool s = map_option (\<lambda>s. aa_pool (hx_arbiter s)) s"

end
