(* ===== verification/Arbiter_Client.thy ===== *)
theory Arbiter_Client
  imports Audio_Arbiter_Spec
begin

text \<open>
  The interface between the arbiter and the sink that it drives: a sink keeps a relation
  between its own state and the kinds of the voices on the tracks, and then every operation of
  the arbiter keeps it.
\<close>

definition kinds :: "'c audio_arbiter \<Rightarrow> nat \<Rightarrow> voice_kind option" where
  "kinds a t = (if t < length (aa_tracks a) \<and> tk_active (aa_tracks a ! t) then Some (tk_kind (aa_tracks a ! t)) else None)"

lemma kinds_claim:
  assumes "t < length (aa_tracks a)"
  shows "kinds (snd (claim_track a t object k vm)) = (kinds a)(t := Some k)"
  using assms by (auto simp: kinds_def claim_track_def Let_def fun_eq_iff)

lemma kinds_stop:
  assumes "t < length (aa_tracks a)" and "tk_active (aa_tracks a ! t)"
  shows "kinds (stop_track sk a t) = (kinds a)(t := None)"
  using assms by (auto simp: kinds_def stop_track_def track_zero_def Let_def fun_eq_iff)

lemma kinds_sel [simp]: "kinds (a\<lparr>aa_ctx := c\<rparr>) = kinds a" "kinds (a\<lparr>aa_pool := p\<rparr>) = kinds a"
  by (simp_all add: kinds_def fun_eq_iff)

lemma ctx_claim [simp]:
  "aa_ctx (snd (claim_track a t object k vm)) = aa_ctx a"
  "aa_track_count (snd (claim_track a t object k vm)) = aa_track_count a"
  by (simp_all add: claim_track_def Let_def)

lemma ctx_stop:
  assumes "tk_active (aa_tracks a ! t)"
  shows "aa_ctx (stop_track sk a t) = sk_stop sk (aa_ctx a) t"
  using assms by (simp add: stop_track_def Let_def)

locale sink_contract =
  fixes sk :: "'c arbiter_sink" and rel :: "'c \<Rightarrow> (nat \<Rightarrow> voice_kind option) \<Rightarrow> bool" and n :: nat
  assumes start: "rel c T \<Longrightarrow> t < n \<Longrightarrow> T t = None \<Longrightarrow> sk_start sk c t k object p = (started, c') \<Longrightarrow>
      rel c' (if started then T(t := Some k) else T)"
    and stop: "rel c T \<Longrightarrow> t < n \<Longrightarrow> T t \<noteq> None \<Longrightarrow> rel (sk_stop sk c t) (T(t := None))"
    and done_keeps: "sk_is_done sk = Some d \<Longrightarrow> rel c T \<Longrightarrow> rel (snd (d c t)) T"
begin

definition linked :: "'c audio_arbiter \<Rightarrow> bool" where
  "linked a \<longleftrightarrow> arb_inv a \<and> aa_track_count a = n \<and> rel (aa_ctx a) (kinds a)"

lemma free_track_idle:
  assumes "linked a" and "find_free_track a < aa_track_count a"
  shows "find_free_track a < n" and "find_free_track a < length (aa_tracks a)" and "kinds a (find_free_track a) = None"
proof -
  have inv: "arb_inv a" and n: "aa_track_count a = n" using assms(1) by (simp_all add: linked_def)
  then have le: "n \<le> length (aa_tracks a)" by (auto simp: arb_inv_def)
  show "find_free_track a < n" using assms(2) n by simp
  then show "find_free_track a < length (aa_tracks a)" using le by linarith
  show "kinds a (find_free_track a) = None" using find_free_track_cases(2) [OF inv assms(2)] by (simp add: kinds_def)
qed

lemma play_links:
  assumes l: "linked a" and lim: "pool_refs (aa_pool a) object < 2147483647"
    and p: "audio_arbiter_play sk a object k params vm = (r, v, a')"
  shows "linked a'"
proof -
  have inv: "arb_inv a" and n: "aa_track_count a = n" and rel: "rel (aa_ctx a) (kinds a)"
    using l by (simp_all add: linked_def)
  let ?t = "find_free_track a" and ?q = "case params of Some q \<Rightarrow> q | None \<Rightarrow> default_params"
  obtain b c where sk: "sk_start sk (aa_ctx a) ?t k object ?q = (b, c)" by fastforce
  have "aa_track_count a' = n \<and> rel (aa_ctx a') (kinds a')"
  proof (cases "aa_track_count a \<le> ?t")
    case True
    then show ?thesis using p n rel by (auto simp: audio_arbiter_play_def Let_def split: if_splits)
  next
    case False
    then have "?t < aa_track_count a" by simp
    note free = free_track_idle [OF l this]
    note c = start [OF rel free(1,3) sk]
    obtain r1 q where q: "audio_pool_ref (aa_pool a) object = (r1, q)" by fastforce
    show ?thesis
    proof (cases "audio_pool_handle_valid (aa_pool a) object \<and> r1 = AUDIO_POOL_OK")
      case False
      then show ?thesis using p n rel q by (auto simp: audio_arbiter_play_def Let_def split: if_splits)
    next
      case True
      let ?a2 = "a\<lparr>aa_pool := q, aa_ctx := c\<rparr>"
      have e: "(r, v, a') = (if b then (AUDIO_ARB_OK, claim_track ?a2 ?t object k vm)
          else (AUDIO_ARB_REJECTED, 0, ?a2\<lparr>aa_pool := snd (snd (audio_pool_unref q object))\<rparr>))"
        using p True \<open>\<not> aa_track_count a \<le> ?t\<close> q sk by (cases b) (auto simp: audio_arbiter_play_def Let_def)
      then show ?thesis
      proof (cases b)
        case True
        then have "a' = snd (claim_track ?a2 ?t object k vm)" using e by (auto dest: arg_cong [where f = snd])
        then show ?thesis using kinds_claim [of ?t ?a2 object k vm] free(2) c True n by simp
      next
        case False
        then have "a' = ?a2\<lparr>aa_pool := snd (snd (audio_pool_unref q object))\<rparr>" using e by simp
        then show ?thesis using c False n by simp
      qed
    qed
  qed
  moreover have "arb_inv a'" by (rule audio_arbiter_play_spec(1) [OF inv lim p])
  ultimately show ?thesis by (simp add: linked_def)
qed

lemma play_external_links:
  assumes l: "linked a" and p: "audio_arbiter_play_external sk a params vm = (r, v, a')"
  shows "linked a'"
proof -
  have inv: "arb_inv a" and n: "aa_track_count a = n" and rel: "rel (aa_ctx a) (kinds a)"
    using l by (simp_all add: linked_def)
  let ?t = "find_free_track a" and ?q = "case params of Some q \<Rightarrow> q | None \<Rightarrow> default_params"
  obtain b c where sk: "sk_start sk (aa_ctx a) ?t AUDIO_VOICE_MUSIC 0 ?q = (b, c)" by fastforce
  have "aa_track_count a' = n \<and> rel (aa_ctx a') (kinds a')"
  proof (cases "aa_track_count a \<le> ?t")
    case True
    then show ?thesis using p n rel by (auto simp: audio_arbiter_play_external_def Let_def)
  next
    case False
    then have "?t < aa_track_count a" by simp
    note free = free_track_idle [OF l this]
    note c = start [OF rel free(1,3) sk]
    let ?a1 = "a\<lparr>aa_ctx := c\<rparr>"
    have e: "(r, v, a') = (if b then (AUDIO_ARB_OK, claim_track ?a1 ?t 0 AUDIO_VOICE_MUSIC vm) else (AUDIO_ARB_REJECTED, 0, ?a1))"
      using p False sk by (cases b) (auto simp: audio_arbiter_play_external_def Let_def)
    show ?thesis
    proof (cases b)
      case True
      then have "a' = snd (claim_track ?a1 ?t 0 AUDIO_VOICE_MUSIC vm)" using e by (auto dest: arg_cong [where f = snd])
      then show ?thesis using kinds_claim [of ?t ?a1 0 AUDIO_VOICE_MUSIC vm] free(2) c True n by simp
    next
      case False
      then show ?thesis using e c n by simp
    qed
  qed
  moreover have "arb_inv a'" using audio_arbiter_play_external_spec [OF inv p] by simp
  ultimately show ?thesis by (simp add: linked_def)
qed

lemma stop_track_links:
  assumes l: "linked a" and t: "t < length (aa_tracks a)"
  shows "linked (stop_track sk a t)"
proof -
  have inv: "arb_inv a" and n: "aa_track_count a = n" and rel: "rel (aa_ctx a) (kinds a)"
    using l by (simp_all add: linked_def)
  show ?thesis
  proof (cases "tk_active (aa_tracks a ! t)")
    case False
    then show ?thesis using l by (simp add: stop_track_def)
  next
    case True
    then have "t < n" using inv t n by (auto simp: arb_inv_def)
    moreover have "kinds a t \<noteq> None" using True t by (simp add: kinds_def)
    ultimately have "rel (aa_ctx (stop_track sk a t)) (kinds (stop_track sk a t))"
      unfolding ctx_stop [OF True] kinds_stop [OF t True] by (rule stop [OF rel])
    then show ?thesis using stop_track_spec(1,5) [OF inv t] n by (simp add: linked_def)
  qed
qed

lemma stop_links:
  assumes "linked a"
  shows "linked (snd (audio_arbiter_stop sk a v))"
proof (cases "resolve_voice a v")
  case None
  then show ?thesis using assms by (simp add: audio_arbiter_stop_def split: option.split)
next
  case (Some t)
  then obtain g where g: "unpack_voice v = Some (t, g)" "t < aa_track_count a" by (auto simp: resolve_voice_Some)
  then have "t < length (aa_tracks a)" using assms by (auto simp: linked_def arb_inv_def)
  then show ?thesis using stop_track_links [OF assms] g(1) Some by (simp add: audio_arbiter_stop_def)
qed

lemma reap_from_links:
  assumes "linked a" and "\<forall>t \<in> set ts. t < length (aa_tracks a)" and "sk_is_done sk = Some d"
  shows "linked (snd (reap_from sk d ts (k, a)))"
  using assms(1,2)
proof (induction ts arbitrary: k a)
  case (Cons t ts)
  obtain b c where d: "d (aa_ctx a) t = (b, c)" by fastforce
  let ?a1 = "a\<lparr>aa_ctx := c\<rparr>"
  have "rel c (kinds a)" using done_keeps [OF assms(3), of "aa_ctx a" "kinds a" t] Cons.prems(1) d by (simp add: linked_def)
  then have a1: "linked ?a1" using Cons.prems(1) by (simp add: linked_def arb_inv_ctx)
  have t: "t < length (aa_tracks ?a1)" "\<forall>i \<in> set ts. i < length (aa_tracks ?a1)" using Cons.prems(2) by auto
  have len: "length (aa_tracks (stop_track sk ?a1 t)) = length (aa_tracks ?a1)" by (simp add: stop_track_def Let_def)
  note s = stop_track_links [OF a1 t(1)]
  show ?case
    using Cons.IH [of a k] Cons.IH [OF a1 t(2), of k] Cons.IH [OF s, of "k + 1"] Cons.prems t(2) len
    by (simp add: d Let_def)
qed simp

lemma reap_links:
  assumes "linked a"
  shows "linked (snd (audio_arbiter_reap sk a))"
proof (cases "sk_is_done sk")
  case None
  then show ?thesis using assms by (simp add: audio_arbiter_reap_def)
next
  case (Some d)
  have "\<forall>t \<in> set [0..<aa_track_count a]. t < length (aa_tracks a)" using assms by (auto simp: linked_def arb_inv_def)
  from reap_from_links [OF assms this Some] show ?thesis by (simp add: audio_arbiter_reap_def Some)
qed

end

end
