(* ===== verification/Service_Mixer.thy ===== *)
theory Service_Mixer
  imports Service Stream_Spec Arbiter_Client Audio_Fft_Spec
begin

text \<open>
  What the service keeps of its mixer: the invariant of the mixer, and the shape that it was
  created with (a stereo channel of 32768 frames per track, 16-bit stereo output).  Every
  operation of the mixer and of a player on the mixer keeps it.
\<close>

section \<open>The shape of a mixer\<close>

definition channel_shape :: "mixer_channel \<Rightarrow> mixer_src \<times> nat" where
  "channel_shape c = (ch_format c, rb_capacity (ch_rb c))"

definition mixer_shape :: "audio_mixer \<Rightarrow> (mixer_src \<times> nat) list \<times> mixer_out_format" where
  "mixer_shape m = (map channel_shape (mx_channels m), mx_out_format m)"

lemma shape_at:
  assumes "\<And>c. channel_shape (f c) = channel_shape c"
  shows "mixer_shape (at_channel m i f) = mixer_shape m"
proof (cases "i < length (mx_channels m)")
  case True
  then show ?thesis by (simp add: mixer_shape_def at_channel_def map_update assms list_update_same_conv)
next
  case False
  then have "(mx_channels m)[i := f (mx_channels m ! i)] = mx_channels m" by (intro list_update_beyond) simp
  then show ?thesis by (simp add: mixer_shape_def at_channel_def)
qed

lemma rb_capacity_keep [simp]:
  "rb_capacity (rb_push rb e) = rb_capacity rb" "rb_capacity (rb_reset rb) = rb_capacity rb"
  "rb_capacity (snd (rb_pop rb)) = rb_capacity rb"
  by (simp_all add: rb_push_def rb_reset_def rb_pop_def Let_def split: if_splits)

lemma push_frames_capacity [simp]: "rb_capacity (push_frames fb n b rb) = rb_capacity rb"
  by (induction fb n b rb rule: push_frames.induct) simp_all

lemma pop_frames_capacity [simp]: "rb_capacity (pop_frames n rb) = rb_capacity rb"
  by (induction n arbitrary: rb) simp_all

lemma channel_shape_sel [simp]:
  "channel_shape (c\<lparr>ch_tap_l := x\<rparr>) = channel_shape c" "channel_shape (c\<lparr>ch_tap_r := x\<rparr>) = channel_shape c"
  "channel_shape (c\<lparr>ch_phase := k\<rparr>) = channel_shape c" "channel_shape (c\<lparr>ch_tap_primed := b\<rparr>) = channel_shape c"
  "channel_shape (c\<lparr>ch_loop_read_pos := k\<rparr>) = channel_shape c" "channel_shape (c\<lparr>ch_volume := v\<rparr>) = channel_shape c"
  "channel_shape (c\<lparr>ch_pan := v\<rparr>) = channel_shape c" "channel_shape (c\<lparr>ch_pan_gain_l := v\<rparr>) = channel_shape c"
  "channel_shape (c\<lparr>ch_pan_gain_r := v\<rparr>) = channel_shape c" "channel_shape (c\<lparr>ch_needs_resample := b\<rparr>) = channel_shape c"
  "channel_shape (c\<lparr>ch_base_step := k\<rparr>) = channel_shape c" "channel_shape (c\<lparr>ch_step := k\<rparr>) = channel_shape c"
  "channel_shape (c\<lparr>ch_active := b\<rparr>) = channel_shape c" "channel_shape (c\<lparr>ch_rb := r\<rparr>) = (ch_format c, rb_capacity r)"
  by (simp_all add: channel_shape_def)

lemma load_taps_shape [simp]: "channel_shape (load_taps cur from_t n c) = channel_shape c"
proof -
  have "channel_shape (foldl (\<lambda>c t. load_tap c t (tap_offset t cur)) c ts) = channel_shape c" for ts
    by (induction ts arbitrary: c) (simp_all add: load_tap_def Let_def case_prod_beta)
  then show ?thesis by (simp add: load_taps_def)
qed

lemma advance_tap_window_shape [simp]: "channel_shape (advance_tap_window c k) = channel_shape c"
  by (auto simp: advance_tap_window_def Let_def channel_shape_def [of c])

lemma produce_shape:
  assumes "produce_channel_sample c = (got, l, r, c')"
  shows "channel_shape c' = channel_shape c"
proof -
  have prime: "channel_shape (prime_tap_window c) = channel_shape c" by (simp add: prime_tap_window_def Let_def)
  have adv: "channel_shape (advance_phase d) = channel_shape d" for d by (simp add: advance_phase_def Let_def)
  have pop: "channel_shape (snd (snd (snd (pop_source_frame_q15 c)))) = channel_shape c"
    
    by (cases "fst (rb_pop (ch_rb c))"; cases "convert_bytes_to_q15 (ch_format c) (the (fst (rb_pop (ch_rb c))))")
      (simp_all add: pop_source_frame_q15_def channel_shape_def case_prod_beta)
  have "channel_shape (snd (snd (snd (produce_channel_sample c)))) = channel_shape c"
    unfolding produce_channel_sample_def Let_def by (simp add: prime adv pop)
  then show ?thesis using assms by simp
qed

lemma mix_channels_shape:
  assumes "mix_channels cs al ar = (l, r, cs')"
  shows "map channel_shape cs' = map channel_shape cs"
  using assms
proof (induction cs arbitrary: al ar l r cs')
  case (Cons c cs)
  obtain got x y c1 where p: "produce_channel_sample c = (got, x, y, c1)" by (metis prod_cases4)
  note c1 = produce_shape [OF p]
  consider (silent) ds where "cs' = c # ds" "mix_channels cs al ar = (l, r, ds)"
    | (skipped) ds where "cs' = c1 # ds" "mix_channels cs al ar = (l, r, ds)"
    | (mixed) ds al' ar' where "cs' = c1 # ds" "mix_channels cs al' ar' = (l, r, ds)"
    using Cons.prems p by (auto split: prod.splits if_splits)
  then show ?case using Cons.IH c1 by cases auto
qed simp

lemma mixer_render_shape: "mixer_shape (snd (mixer_render m n)) = mixer_shape m"
proof (induction n arbitrary: m)
  case (Suc n)
  obtain al ar cs where mix: "mix_channels (mx_channels m) 0 0 = (al, ar, cs)" by (metis prod_cases3)
  have "mixer_shape (snd (mixer_render_frame m)) = mixer_shape m"
    unfolding mixer_render_frame_def mix by (simp add: Let_def mixer_shape_def mix_channels_shape [OF mix])
  then show ?case using Suc.IH by (simp add: mixer_render_Suc)
qed simp

section \<open>The mixer of the service\<close>

definition mix_ok :: "nat \<Rightarrow> audio_mixer \<Rightarrow> bool" where
  "mix_ok n m \<longleftrightarrow> mixer_inv m \<and> mixer_shape m = (replicate n (MIXER_SRC_PCM16_STEREO, 32768), output_format)"

lemma mix_ok_channels:
  assumes "mix_ok n m"
  shows "length (mx_channels m) = n" and "i < n \<Longrightarrow> ch_format (mx_channels m ! i) = MIXER_SRC_PCM16_STEREO"
    and "i < n \<Longrightarrow> rb_capacity (ch_rb (mx_channels m ! i)) = 32768" and "mx_out_format m = output_format"
proof -
  have e: "map channel_shape (mx_channels m) = replicate n (MIXER_SRC_PCM16_STEREO, 32768)" "mx_out_format m = output_format"
    using assms by (simp_all add: mix_ok_def mixer_shape_def)
  show len: "length (mx_channels m) = n" using arg_cong [OF e(1), of length] by simp
  show "mx_out_format m = output_format" by (rule e(2))
  have "i < n \<Longrightarrow> channel_shape (mx_channels m ! i) = (MIXER_SRC_PCM16_STEREO, 32768)"
    using arg_cong [OF e(1), of "\<lambda>xs. xs ! i"] len by simp
  then show "i < n \<Longrightarrow> ch_format (mx_channels m ! i) = MIXER_SRC_PCM16_STEREO"
    and "i < n \<Longrightarrow> rb_capacity (ch_rb (mx_channels m ! i)) = 32768" by (auto simp: channel_shape_def)
qed

lemma mix_ok_control:
  assumes "mix_ok n m"
  shows "mix_ok n (mixer_set_volume m i v)" "mix_ok n (mixer_set_pan m i v)" "mix_ok n (mixer_set_source_rate m i k)"
    "mix_ok n (mixer_channel_start m i)" "mix_ok n (mixer_channel_stop m i)" "mix_ok n (mixer_channel_reset m i)"
proof -
  have s: "mixer_shape m = (replicate n (MIXER_SRC_PCM16_STEREO, 32768), output_format)" and i: "mixer_inv m"
    using assms by (simp_all add: mix_ok_def)
  note mixer_control_inv [OF i]
  moreover have "mixer_shape (mixer_set_volume m i v) = mixer_shape m" "mixer_shape (mixer_set_pan m i v) = mixer_shape m"
    "mixer_shape (mixer_set_source_rate m i k) = mixer_shape m" "mixer_shape (mixer_channel_start m i) = mixer_shape m"
    "mixer_shape (mixer_channel_stop m i) = mixer_shape m" "mixer_shape (mixer_channel_reset m i) = mixer_shape m"
    unfolding mixer_set_volume_def mixer_set_pan_def mixer_set_source_rate_def mixer_channel_start_def
      mixer_channel_stop_def mixer_channel_reset_def Let_def case_prod_beta
    by (simp_all add: shape_at channel_shape_def)
  ultimately show "mix_ok n (mixer_set_volume m i v)" "mix_ok n (mixer_set_pan m i v)" "mix_ok n (mixer_set_source_rate m i k)"
    "mix_ok n (mixer_channel_start m i)" "mix_ok n (mixer_channel_stop m i)" "mix_ok n (mixer_channel_reset m i)"
    using s by (simp_all add: mix_ok_def)
qed

lemma mix_ok_write:
  assumes "mix_ok n m" and "4 * k \<le> length b"
  shows "mix_ok n (snd (mixer_write_channel m i b k))"
proof -
  have "mixer_shape (snd (mixer_write_channel m i b k)) = mixer_shape m"
    by (simp add: mixer_write_channel_def shape_at channel_shape_def)
  moreover have "mixer_inv (snd (mixer_write_channel m i b k))"
  proof (rule mixer_write_inv)
    show "mixer_inv m" using assms(1) by (simp add: mix_ok_def)
    have "source_bytes_per_frame f \<le> 4" for f by (cases f) (simp_all add: source_bytes_per_frame_def)
    then have "k * source_bytes_per_frame (ch_format (mx_channels m ! i)) \<le> k * 4" by (rule mult_le_mono2)
    then show "k * source_bytes_per_frame (ch_format (mx_channels m ! i)) \<le> length b" using assms(2) by linarith
  qed
  ultimately show ?thesis using assms(1) by (simp add: mix_ok_def)
qed

lemma mix_ok_render:
  assumes "mix_ok n m"
  shows "mix_ok n (snd (mixer_render m k))"
  using assms mixer_render_ok [of m k] mixer_render_shape [of m k] by (simp add: mix_ok_def)

lemma mix_ok_sync:
  assumes "mix_ok n m"
  shows "mix_ok n (snd (mixer_observe_sync m x y))" and "mix_ok n (mixer_set_drift_ppm m ppm)"
proof -
  have st: "channel_shape (channel_step acc c) = channel_shape c" for acc c by (simp add: channel_step_def Let_def)
  have sc: "mixer_shape (set_correction q acc) = mixer_shape q" for q acc
    by (simp add: set_correction_def update_channel_steps_def mixer_shape_def st comp_def Let_def)
  have up: "mixer_shape (q\<lparr>mx_sync_last_internal := a, mx_sync_last_external := b\<rparr>) = mixer_shape q"
    "mixer_shape (q\<lparr>mx_sync_last_internal := a, mx_sync_last_external := b, mx_sync_have_last_obs := h\<rparr>) = mixer_shape q"
    for q a b h by (simp_all add: mixer_shape_def)
  have "mixer_shape (snd (mixer_observe_sync m x y)) = mixer_shape m"
    unfolding mixer_observe_sync_def Let_def by (simp add: sc up)
  then show "mix_ok n (snd (mixer_observe_sync m x y))" using assms mixer_observe_inv [of m x y] by (simp add: mix_ok_def)
  have "mixer_shape (mixer_set_drift_ppm m ppm) = mixer_shape m" by (simp add: mixer_set_drift_ppm_def sc)
  then show "mix_ok n (mixer_set_drift_ppm m ppm)" using assms mixer_drift_inv [of m ppm] by (simp add: mix_ok_def)
qed

section \<open>Players on the mixer\<close>

text \<open>The configuration of a voice of the service on channel \<open>t\<close>.\<close>

definition voice_cfg :: "nat \<Rightarrow> music_config \<Rightarrow> bool" where
  "voice_cfg t cfg \<longleftrightarrow> mc_mixer_channel cfg = t \<and> mc_format cfg = MIXER_SRC_PCM16_STEREO \<and>
     mc_has_intro_head cfg \<and> mc_intro_head_samples cfg = 1024 \<and> mc_has_loop_head cfg \<and>
     mc_loop_head_samples cfg = 1024 \<and> mc_streaming_buffer_samples cfg \<le> 8192"

definition voice_ok :: "nat \<Rightarrow> music_player \<Rightarrow> bool" where
  "voice_ok t mp \<longleftrightarrow> music_inv mp \<and> voice_cfg t (mp_cfg mp)"

lemma voice_ok_bpf: "voice_ok t mp \<Longrightarrow> mp_bytes_per_frame mp = 4"
  by (simp add: voice_ok_def voice_cfg_def music_inv_def player_ok_def source_bytes_per_frame_def)

lemma voice_ok_buffers:
  assumes "voice_ok t mp"
  shows "length (mp_streaming_buffer mp) \<le> 32768" "length (mp_intro_head mp) = 4096" "length (mp_loop_head mp) = 4096"
  using assms voice_ok_bpf [OF assms] by (simp_all add: voice_ok_def voice_cfg_def music_inv_def player_ok_def)

lemma pump_stream_mix:
  assumes "player_ok mp" and "mp_bytes_per_frame mp = 4" and "mc_mixer_channel (mp_cfg mp) < n" and "mix_ok n mx"
  shows "mix_ok n (snd (snd (pump_stream room d mp mx)))"
proof -
  let ?k = "min (mp_streaming_count mp) (room - d)" and ?r = "mp_streaming_read_pos mp"
  let ?src = "drop (?r * mp_bytes_per_frame mp) (mp_streaming_buffer mp)"
  have len: "length (mp_streaming_buffer mp) = mc_streaming_buffer_samples (mp_cfg mp) * 4"
    and le: "?r + mp_streaming_count mp \<le> mc_streaming_buffer_samples (mp_cfg mp)"
    using assms(1,2) by (simp_all add: player_ok_def)
  have "4 * ?k \<le> length ?src" using le by (simp add: assms(2) len)
  then have "mix_ok n (snd (mixer_write_channel mx (mc_mixer_channel (mp_cfg mp)) ?src ?k))"
    by (rule mix_ok_write [OF assms(4)])
  moreover have "mc_mixer_channel (mp_cfg mp) < length (mx_channels mx)"
    using assms(3) mix_ok_channels(1) [OF assms(4)] by simp
  from pump_stream_once [OF this] have "snd (snd (pump_stream room d mp mx)) =
      snd (mixer_write_channel mx (mc_mixer_channel (mp_cfg mp)) ?src ?k)" by simp
  ultimately show ?thesis by simp
qed

lemma pump_to_mixer_mix:
  assumes "player_ok mp" and "mp_bytes_per_frame mp = 4" and "mc_mixer_channel (mp_cfg mp) < n" and "mix_ok n mx"
  shows "mix_ok n (snd (snd (pump_to_mixer mp mx room)))"
proof (cases "0 < mp_pinned_remaining mp")
  case False
  then show ?thesis using pump_stream_mix [OF assms] by (simp add: pump_to_mixer_def)
next
  case True
  let ?c = "mc_mixer_channel (mp_cfg mp)"
  define k where "k = min (mp_pinned_remaining mp) room"
  let ?src = "drop ((current_pinned_size mp - mp_pinned_remaining mp) * mp_bytes_per_frame mp) (current_pinned_buffer mp)"
  note b = pinned_in_bounds [OF assms(1) True]
  have c: "?c < length (mx_channels mx)" using assms(3) mix_ok_channels(1) [OF assms(4)] by simp
  have "4 * k \<le> length ?src" using b by (simp add: assms(2) k_def)
  then have mx1: "mix_ok n (snd (mixer_write_channel mx ?c ?src k))" by (rule mix_ok_write [OF assms(4)])
  let ?mp1 = "mp\<lparr>mp_pinned_remaining := mp_pinned_remaining mp - k\<rparr>"
  have e: "pump_to_mixer mp mx room = pump_stream room k ?mp1 (snd (mixer_write_channel mx ?c ?src k))"
    using True push_to_mixer_all [OF c, of ?src k] by (simp add: pump_to_mixer_def Let_def push_to_mixer_def case_prod_beta k_def [symmetric])
  have "player_ok ?mp1" using assms(1) by (auto simp: player_ok_def)
  then show ?thesis unfolding e using assms(2,3) mx1 by (intro pump_stream_mix) simp_all
qed

lemma music_stop_mix: "mix_ok n mx \<Longrightarrow> mix_ok n (snd (music_stop mp mx))"
  by (simp add: music_stop_def mix_ok_control)

lemma update_passes_mix:
  assumes "music_inv mp" and "mp_segment mp \<noteq> SEG_NONE" and "mp_state mp \<noteq> MUSIC_PAUSED"
    and "stream_ok f 4" and "mp_bytes_per_frame mp = 4" and "mc_mixer_channel (mp_cfg mp) < n" and "mix_ok n mx"
  shows "mix_ok n (fst (snd (update_passes k f target (mp, mx, u))))"
  using assms
proof (induction k arbitrary: mp mx u)
  case (Suc k)
  have ok: "player_ok mp" and st: "state_ok (mp_state mp) (mp_segment mp)"
    using Suc.prems(1) by (simp_all add: music_inv_def)
  obtain z mp1 u1 where r: "refill_pass f mp u = (z, mp1, u1)" by (metis prod_cases3)
  have "stream_ok f (mp_bytes_per_frame mp)" using Suc.prems(4,5) by simp
  note mp1 = refill_pass_ok [OF ok this r]
  obtain j mp2 mx2 where q: "pump_to_mixer mp1 mx target = (j, mp2, mx2)" by (metis prod_cases3)
  have "player_ok mp1" using mp1 by simp
  note mp2 = pump_to_mixer_ok [OF this q]
  have mx2: "mix_ok n mx2" using pump_to_mixer_mix [of mp1 n mx target] mp1 Suc.prems q by simp
  have enter: "mp_segment (enter_segment mp2 SEG_LOOP) = SEG_LOOP"
    "mp_cfg (enter_segment mp2 SEG_LOOP) = mp_cfg mp2" "mp_state (enter_segment mp2 SEG_LOOP) = mp_state mp2"
    "mp_bytes_per_frame (enter_segment mp2 SEG_LOOP) = mp_bytes_per_frame mp2"
    by (simp_all add: enter_segment_def)
  have loop: "mix_ok n (fst (snd (update_passes k f target ((enter_segment mp2 SEG_LOOP)\<lparr>mp_state := MUSIC_PLAYING_LOOP\<rparr>, mx2, u1))))"
  proof (rule Suc.IH)
    show "music_inv ((enter_segment mp2 SEG_LOOP)\<lparr>mp_state := MUSIC_PLAYING_LOOP\<rparr>)"
      using mp2 by (intro music_inv_enter_loop) simp
  qed (use enter mp1 mp2 Suc.prems mx2 in simp_all)
  moreover have "mix_ok n (fst (snd (update_passes k f target (enter_segment mp2 SEG_LOOP, mx2, u1))))"
    if "mp_segment mp2 = SEG_LOOP"
  proof (rule Suc.IH)
    have "mp_state mp2 = MUSIC_PLAYING_LOOP" using that mp1 mp2 st Suc.prems(3) by (cases "mp_state mp") auto
    then show "music_inv (enter_segment mp2 SEG_LOOP)" using mp2 enter by (simp add: music_inv_def player_ok_enter)
  qed (use enter mp1 mp2 Suc.prems mx2 in simp_all)
  ultimately show ?case using mx2 music_stop_mix [OF mx2, of mp2] by (simp add: r q case_prod_beta)
qed simp

lemma music_update_cfg:
  assumes "music_inv mp" and "stream_ok f (mp_bytes_per_frame mp)"
  shows "mp_cfg (fst (music_update f (mp, mx, u))) = mp_cfg mp"
proof (cases "mp_state mp = MUSIC_PLAYING_INTRO \<or> mp_state mp = MUSIC_PLAYING_LOOP")
  case True
  then have "mp_segment mp \<noteq> SEG_NONE" "mp_state mp \<noteq> MUSIC_PAUSED"
    using assms(1) by (auto simp: music_inv_def)
  from update_passes_ok [OF assms(1) this assms(2)] True show ?thesis by (simp add: update_plays)
next
  case False
  then show ?thesis by (simp add: music_update_def)
qed

lemma voice_update:
  assumes "voice_ok t mp" and "stream_source f 4" and "t < n" and "mix_ok n mx"
    and "music_update f (mp, mx, u) = (mp', mx', u')"
  shows "voice_ok t mp'" and "mix_ok n mx'"
proof -
  note bpf = voice_ok_bpf [OF assms(1)]
  have inv: "music_inv mp" and cfg: "voice_cfg t (mp_cfg mp)" using assms(1) by (simp_all add: voice_ok_def)
  have f: "stream_ok f 4" by (rule stream_source.contract [OF assms(2)])
  then have f': "stream_ok f (mp_bytes_per_frame mp)" using bpf by simp
  show "voice_ok t mp'"
    using music_update_ok [OF inv f', of mx u] music_update_cfg [OF inv f', of mx u] cfg assms(5) by (simp add: voice_ok_def)
  show "mix_ok n mx'"
  proof (cases "mp_state mp = MUSIC_PLAYING_INTRO \<or> mp_state mp = MUSIC_PLAYING_LOOP")
    case True
    then have "mp_segment mp \<noteq> SEG_NONE" "mp_state mp \<noteq> MUSIC_PAUSED" using inv by (auto simp: music_inv_def)
    moreover have "mc_mixer_channel (mp_cfg mp) < n" using cfg assms(3) by (simp add: voice_cfg_def)
    ultimately have "mix_ok n (fst (snd (update_passes 2 f (update_target mp mx) (mp, mx, u))))"
      by (intro update_passes_mix [OF inv _ _ f bpf _ assms(4)])
    then show ?thesis using True assms(4,5) by (auto simp: music_update_def Let_def split: if_splits)
  next
    case False
    then show ?thesis using assms(4,5) by (simp add: music_update_def)
  qed
qed

end
