(* ===== verification/Service_Inv.thy ===== *)
theory Service_Inv
  imports Service_Mixer
begin

text \<open>
  The invariant of the service: its music slots match the music voices of the arbiter, every slot
  in use has a well-formed player on the channel of its track, and the mixer keeps its shape.
  The sink of the service is an instance of the arbiter's client interface.
\<close>

section \<open>Slots\<close>

definition slot_ok :: "'h music_slot \<Rightarrow> bool" where
  "slot_ok ms \<longleftrightarrow> length (ms_streaming_buf ms) = 32768 \<and> length (ms_intro_head ms) = 4096 \<and>
     length (ms_loop_head ms) = 4096 \<and> ms_in_use ms = (ms_player ms \<noteq> None) \<and>
     (\<forall>mp. ms_player ms = Some mp \<longrightarrow> voice_ok (ms_track ms) mp \<and> ms_source ms \<noteq> HXA_SRC_NONE)"

definition slots_match :: "nat \<Rightarrow> 'h music_slot list \<Rightarrow> (nat \<Rightarrow> voice_kind option) \<Rightarrow> bool" where
  "slots_match n ss T \<longleftrightarrow>
     (\<forall>i<n. ms_in_use (ss ! i) \<longrightarrow> ms_track (ss ! i) < n \<and> T (ms_track (ss ! i)) = Some AUDIO_VOICE_MUSIC) \<and>
     (\<forall>i<n. \<forall>j<n. ms_in_use (ss ! i) \<longrightarrow> ms_in_use (ss ! j) \<longrightarrow> ms_track (ss ! i) = ms_track (ss ! j) \<longrightarrow> i = j) \<and>
     (\<forall>t<n. T t = Some AUDIO_VOICE_MUSIC \<longrightarrow> (\<exists>i<n. ms_in_use (ss ! i) \<and> ms_track (ss ! i) = t))"

definition svc_rel :: "('f, 'h) file_reader \<Rightarrow> nat \<Rightarrow> ('f, 'h) service_ctx \<Rightarrow> (nat \<Rightarrow> voice_kind option) \<Rightarrow> bool" where
  "svc_rel rd n c T \<longleftrightarrow> (reader_bounded rd \<longrightarrow>
     sv_track_count c = n \<and> length (sv_slots c) = n \<and> mix_ok n (sv_mixer c) \<and> sv_ll_stream c \<le> 8192 \<and>
     (\<forall>i<n. slot_ok (sv_slots c ! i)) \<and> slots_match n (sv_slots c) T)"

lemma slots_matchD:
  assumes "slots_match n ss T"
  shows "i < n \<Longrightarrow> ms_in_use (ss ! i) \<Longrightarrow> ms_track (ss ! i) < n \<and> T (ms_track (ss ! i)) = Some AUDIO_VOICE_MUSIC"
    and "i < n \<Longrightarrow> j < n \<Longrightarrow> ms_in_use (ss ! i) \<Longrightarrow> ms_in_use (ss ! j) \<Longrightarrow> ms_track (ss ! i) = ms_track (ss ! j) \<Longrightarrow> i = j"
    and "t < n \<Longrightarrow> T t = Some AUDIO_VOICE_MUSIC \<Longrightarrow> \<exists>i<n. ms_in_use (ss ! i) \<and> ms_track (ss ! i) = t"
  using assms unfolding slots_match_def by blast+

lemma slots_match_idle:
  assumes "slots_match n ss T" and "length ss = n" and "i < n" and "\<not> ms_in_use (ss ! i)" and "\<not> ms_in_use ms"
  shows "slots_match n (ss[i := ms]) T"
proof -
  have "ms_in_use (ss[i := ms] ! j) \<longleftrightarrow> ms_in_use (ss ! j)" "ms_in_use (ss ! j) \<Longrightarrow> ss[i := ms] ! j = ss ! j" if "j < n" for j
    using assms that by (auto simp: nth_list_update)
  then show ?thesis using assms(1) unfolding slots_match_def by metis
qed

lemma slots_match_start:
  assumes m: "slots_match n ss T" and len: "length ss = n" and i: "i < n" and "\<not> ms_in_use (ss ! i)"
    and ms: "ms_in_use ms" "ms_track ms = t" and t: "t < n" "T t = None"
  shows "slots_match n (ss[i := ms]) (T(t := Some AUDIO_VOICE_MUSIC))"
proof -
  have other: "ms_track (ss ! j) \<noteq> t" if "j < n" "ms_in_use (ss ! j)" for j
    using m that t(2) by (force simp: slots_match_def)
  have at: "ss[i := ms] ! j = (if j = i then ms else ss ! j)" if "j < n" for j using that len by (simp add: nth_list_update)
  show ?thesis unfolding slots_match_def
  proof (intro conjI allI impI)
    fix j assume "j < n" "ms_in_use (ss[i := ms] ! j)"
    then show "ms_track (ss[i := ms] ! j) < n"
      "(T(t := Some AUDIO_VOICE_MUSIC)) (ms_track (ss[i := ms] ! j)) = Some AUDIO_VOICE_MUSIC"
      using m ms t by (auto simp: at slots_match_def)
  next
    fix j k assume "j < n" "k < n" "ms_in_use (ss[i := ms] ! j)" "ms_in_use (ss[i := ms] ! k)"
      "ms_track (ss[i := ms] ! j) = ms_track (ss[i := ms] ! k)"
    then show "j = k"
      using ms(2) other [of j] other [of k] slots_matchD(2) [OF m, of j k] by (cases "j = i"; cases "k = i") (simp_all add: at)
  next
    fix u assume u: "u < n" "(T(t := Some AUDIO_VOICE_MUSIC)) u = Some AUDIO_VOICE_MUSIC"
    show "\<exists>j<n. ms_in_use (ss[i := ms] ! j) \<and> ms_track (ss[i := ms] ! j) = u"
    proof (cases "u = t")
      case True
      then show ?thesis using i ms at by (intro exI [of _ i]) simp
    next
      case False
      then obtain j where "j < n" "ms_in_use (ss ! j)" "ms_track (ss ! j) = u" using m u by (auto simp: slots_match_def)
      then show ?thesis using assms(4) at by (intro exI [of _ j]) auto
    qed
  qed
qed

lemma slots_match_sfx:
  assumes "slots_match n ss T" and "T t = None"
  shows "slots_match n ss (T(t := Some AUDIO_VOICE_SFX))"
  using assms by (force simp: slots_match_def)

lemma slots_match_stop:
  assumes "slots_match n ss T" and "length ss = n" and "i < n" and "ms_in_use (ss ! i)" "ms_track (ss ! i) = t"
    and "\<not> ms_in_use ms"
  shows "slots_match n (ss[i := ms]) (T(t := None))"
proof -
  have at: "ss[i := ms] ! j = (if j = i then ms else ss ! j)" if "j < n" for j using that assms(2) by (simp add: nth_list_update)
  have other: "ms_track (ss ! j) \<noteq> t" if "j < n" "j \<noteq> i" "ms_in_use (ss ! j)" for j
    using assms(1,3-5) that by (auto simp: slots_match_def)
  show ?thesis unfolding slots_match_def
  proof (intro conjI allI impI)
    fix j assume "j < n" "ms_in_use (ss[i := ms] ! j)"
    then show "ms_track (ss[i := ms] ! j) < n" "(T(t := None)) (ms_track (ss[i := ms] ! j)) = Some AUDIO_VOICE_MUSIC"
      using assms(6) slots_matchD(1) [OF assms(1), of j] other [of j] by (simp_all add: at split: if_splits)
  next
    fix j k assume "j < n" "k < n" "ms_in_use (ss[i := ms] ! j)" "ms_in_use (ss[i := ms] ! k)"
      "ms_track (ss[i := ms] ! j) = ms_track (ss[i := ms] ! k)"
    then show "j = k"
      using assms(6) slots_matchD(2) [OF assms(1), of j k] by (cases "j = i"; cases "k = i") (simp_all add: at)
  next
    fix u assume u: "u < n" "(T(t := None)) u = Some AUDIO_VOICE_MUSIC"
    then have "u \<noteq> t" "T u = Some AUDIO_VOICE_MUSIC" by (auto split: if_splits)
    then obtain j where "j < n" "ms_in_use (ss ! j)" "ms_track (ss ! j) = u" using slots_matchD(3) [OF assms(1) u(1)] by blast
    then show "\<exists>j<n. ms_in_use (ss[i := ms] ! j) \<and> ms_track (ss[i := ms] ! j) = u"
      using \<open>u \<noteq> t\<close> assms(5) at by (intro exI [of _ j]) auto
  qed
qed

lemma slots_match_none:
  assumes "slots_match n ss T" and "\<forall>i<n. \<not> (ms_in_use (ss ! i) \<and> ms_track (ss ! i) = t)"
  shows "slots_match n ss (T(t := None))"
  using assms by (auto simp: slots_match_def)

section \<open>Starting a voice\<close>

lemma prime_cfg:
  "mp_cfg (fst (snd (music_prime_intro f mp u))) = mp_cfg mp" "mp_cfg (fst (snd (music_prime_loop f mp u))) = mp_cfg mp"
  by (simp_all add: music_prime_intro_def music_prime_loop_def split: prod.splits)

lemma voice_prime:
  assumes "voice_ok t mp" and "stream_source f 4"
  shows "voice_ok t (fst (snd (music_prime_intro f mp u)))" and "voice_ok t (fst (snd (music_prime_loop f mp u)))"
proof -
  have "stream_ok f (mp_bytes_per_frame mp)"
    using stream_source.contract [OF assms(2)] voice_ok_bpf [OF assms(1)] by simp
  then show "voice_ok t (fst (snd (music_prime_intro f mp u)))" and "voice_ok t (fst (snd (music_prime_loop f mp u)))"
    using assms(1) by (simp_all add: voice_ok_def music_prime_ok prime_cfg)
qed

lemma voice_play:
  assumes "voice_ok t mp" and "mix_ok n mx"
  shows "voice_ok t (fst (music_play mp mx))" and "mix_ok n (snd (music_play mp mx))"
proof -
  have "mp_cfg (fst (music_play mp mx)) = mp_cfg mp"
    by (simp add: music_play_def music_resume_def enter_segment_def Let_def)
  then show "voice_ok t (fst (music_play mp mx))"
    using assms(1) music_control_ok(1) by (simp add: voice_ok_def)
  show "mix_ok n (snd (music_play mp mx))"
    using assms(2) by (simp add: music_play_def music_resume_def mix_ok_control Let_def)
qed

lemma start_music_ok:
  assumes mx: "mix_ok n (sv_mixer s)" and ms: "slot_ok ms" "\<not> ms_in_use ms" and ll: "sv_ll_stream s \<le> 8192"
    and f: "stream_source f 4" and src: "ms_source ms \<noteq> HXA_SRC_NONE"
    and st: "start_music s ms t f u loop p low ok = (b, ms', mx', u')"
  shows "mix_ok n mx'" and "b \<Longrightarrow> slot_ok ms' \<and> ms_in_use ms' \<and> ms_track ms' = t"
    and "\<not> b \<Longrightarrow> ms' = ms\<lparr>ms_player := None\<rparr>"
proof -
  let ?m = "mixer_channel_reset (mixer_set_source_rate (mixer_set_pan (mixer_set_volume (sv_mixer s) t
    (i16 (vp_gain p))) t (i16 (vp_pan p))) t 0) t"
  let ?cfg = "voice_config s t loop low"
  let ?new = "music_create_with_allocator ?cfg (take (4 * mc_streaming_buffer_samples ?cfg) (ms_streaming_buf ms))
    (ms_intro_head ms) (ms_loop_head ms) ok"
  have m: "mix_ok n ?m" using mx by (simp add: mix_ok_control)
  have cfg: "voice_cfg t ?cfg"
    using ll by (simp add: voice_cfg_def voice_config_def HXA_MUSIC_STREAM_FRAMES_def HXA_MUSIC_HEAD_FRAMES_def)
  have "mix_ok n mx' \<and> (b \<longrightarrow> slot_ok ms' \<and> ms_in_use ms' \<and> ms_track ms' = t) \<and> (\<not> b \<longrightarrow> ms' = ms\<lparr>ms_player := None\<rparr>)"
  proof (cases ?new)
    case None
    then show ?thesis using st m by (simp add: start_music_def Let_def)
  next
    case (Some mp)
    have "music_inv mp"
      using cfg ms(1) by (intro music_created_ok [OF Some]) (simp_all add: voice_cfg_def slot_ok_def source_bytes_per_frame_def)
    moreover have "mp_cfg mp = ?cfg" using Some by (auto simp: music_create_with_allocator_def split: if_splits)
    ultimately have v: "voice_ok t mp" using cfg by (simp add: voice_ok_def)
    obtain x1 mp1 u1 where 1: "music_prime_intro f mp u = (x1, mp1, u1)" by (metis prod_cases3)
    obtain x2 mp2 u2 where 2: "(if loop then music_prime_loop f mp1 u1 else (True, mp1, u1)) = (x2, mp2, u2)" by (metis prod_cases3)
    obtain mp3 mx3 where 3: "music_play mp2 ?m = (mp3, mx3)" by fastforce
    have v1: "voice_ok t mp1" using voice_prime(1) [OF v f, of u] 1 by simp
    then have "voice_ok t mp2" using voice_prime(2) [OF v1 f, of u1] 2 by (auto split: if_splits)
    from voice_play [OF this m] have "voice_ok t mp3" "mix_ok n mx3" by (simp_all add: 3)
    moreover have "b \<and> ms' = ms\<lparr>ms_track := t, ms_in_use := True, ms_player := Some mp3\<rparr> \<and> mx' = mx3"
      using st unfolding start_music_def Let_def Some 1 prod.case option.case 2 3 by simp
    ultimately show ?thesis using ms(1) src by (simp add: slot_ok_def)
  qed
  then show "mix_ok n mx'" and "b \<Longrightarrow> slot_ok ms' \<and> ms_in_use ms' \<and> ms_track ms' = t"
    and "\<not> b \<Longrightarrow> ms' = ms\<lparr>ms_player := None\<rparr>" by blast+
qed

lemma length_expand [simp]: "length (expand b from k) = 4 * k"
  by (simp add: expand_def)

lemma feed_chunk_mix: "mix_ok n mx \<Longrightarrow> mix_ok n (feed_chunk t b k d mx)"
proof (induction t b k d mx rule: feed_chunk.induct)
  case (1 t b k d mx)
  show ?case
  proof (cases "d < k")
    case True
    then show ?thesis using 1 by (subst feed_chunk.simps) (simp add: Let_def mix_ok_write)
  next
    case False
    then show ?thesis using 1 by (subst feed_chunk.simps) simp
  qed
qed

lemma feed_object_mix: "mix_ok n mx \<Longrightarrow> mix_ok n (feed_object p h t sz off mx)"
proof (induction p h t sz off mx rule: feed_object.induct)
  case (1 p h t sz off mx)
  show ?case
  proof (cases "off < sz")
    case True
    then show ?thesis using 1 by (subst feed_object.simps) (simp add: Let_def feed_chunk_mix)
  next
    case False
    then show ?thesis using 1 by (subst feed_object.simps) simp
  qed
qed

section \<open>The contract of the sink\<close>

lemma all_slots_update:
  "\<forall>j<n. P (xs ! j) \<Longrightarrow> P x \<Longrightarrow> length xs = n \<Longrightarrow> \<forall>j<n. P (xs[i := x] ! j)"
  by (metis length_list_update nth_list_update_eq nth_list_update_neq)

lemma find_free_slot:
  assumes "slot_free s = Some i"
  shows "i < sv_track_count s" and "\<not> ms_in_use (sv_slots s ! i)"
  using assms unfolding slot_free_def find_Some_iff by auto

lemma find_voice_slot:
  "slot_for_track s t = Some i \<Longrightarrow> i < sv_track_count s \<and> ms_in_use (sv_slots s ! i) \<and> ms_track (sv_slots s ! i) = t"
  "slot_for_track s t = None \<Longrightarrow> \<forall>i < sv_track_count s. \<not> (ms_in_use (sv_slots s ! i) \<and> ms_track (sv_slots s ! i) = t)"
  unfolding slot_for_track_def find_Some_iff find_None_iff by auto

lemma at_slot_sel [simp]:
  "sv_slots (at_slot s i ms) = (sv_slots s)[i := ms]" "sv_track_count (at_slot s i ms) = sv_track_count s"
  "sv_mixer (at_slot s i ms) = sv_mixer s" "sv_ll_stream (at_slot s i ms) = sv_ll_stream s"
  "sv_ring (at_slot s i ms) = sv_ring s" "sv_fs (at_slot s i ms) = sv_fs s"
  by (simp_all add: at_slot_def)

lemma slot_ok_fields [simp]:
  "slot_ok (ms\<lparr>ms_file := fc\<rparr>) = slot_ok ms"
  "\<not> ms_in_use ms \<Longrightarrow> slot_ok ms \<Longrightarrow> slot_ok (ms\<lparr>ms_source := x\<rparr>)"
  "\<not> ms_in_use ms \<Longrightarrow> slot_ok ms \<Longrightarrow> slot_ok (ms\<lparr>ms_player := None\<rparr>)"
  by (auto simp: slot_ok_def)

text \<open>The relation after a voice was started in a slot, or after a start that failed.\<close>

lemma svc_rel_slot:
  assumes rel: "svc_rel rd n s T" and rb: "reader_bounded rd" and i: "i < n" "\<not> ms_in_use (sv_slots s ! i)"
    and t: "t < n" "T t = None" and ms: "slot_ok ms" "ms_in_use ms = b" "b \<Longrightarrow> ms_track ms = t" and mx: "mix_ok n mx"
    and s': "sv_slots s' = (sv_slots s)[i := ms]" "sv_mixer s' = mx" "sv_track_count s' = sv_track_count s"
      "sv_ll_stream s' = sv_ll_stream s"
  shows "svc_rel rd n s' (if b then T(t := Some AUDIO_VOICE_MUSIC) else T)"
proof -
  have r: "sv_track_count s = n" "length (sv_slots s) = n" "sv_ll_stream s \<le> 8192" "\<forall>j<n. slot_ok (sv_slots s ! j)"
    "slots_match n (sv_slots s) T" using rel rb by (simp_all add: svc_rel_def)
  have "slots_match n ((sv_slots s)[i := ms]) (if b then T(t := Some AUDIO_VOICE_MUSIC) else T)"
    using slots_match_start [OF r(5,2) i _ _ t] slots_match_idle [OF r(5,2) i] ms(2,3) by (cases b) simp_all
  moreover have "\<forall>j<n. slot_ok ((sv_slots s)[i := ms] ! j)" by (rule all_slots_update [OF r(4) ms(1) r(2)])
  ultimately show ?thesis using r(1-3) mx by (simp add: svc_rel_def s')
qed

lemma start_file_closed:
  "sv_pend_path s = None \<Longrightarrow> start_file rd ok s i t p = (False, s)"
  "sv_pend_path s = Some path \<Longrightarrow> \<not> sv_has_reader s \<Longrightarrow> start_file rd ok s i t p = (False, s)"
  "sv_pend_path s = Some path \<Longrightarrow> sv_has_reader s \<Longrightarrow> audio_file_stream_open rd path (sv_fs s) = None \<Longrightarrow>
     start_file rd ok s i t p = (False, s\<lparr>sv_hung := True\<rparr>)"
  by (simp_all only: start_file_def option.case if_True if_False not_True_eq_False not_False_eq_True)

lemma sink_start_music:
  "slot_free s = None \<Longrightarrow> svc_sink_start rd pool ok s t AUDIO_VOICE_MUSIC h p = (False, s)"
  "slot_free s = Some i \<Longrightarrow> svc_sink_start rd pool ok s t AUDIO_VOICE_MUSIC h p =
     (if sv_pend_source s = HXA_SRC_FILE then start_file rd ok s i t p
      else if sv_pend_source s = HXA_SRC_RING then start_ring ok s i t p else (False, s))"
  by (simp_all only: svc_sink_start_def option.case if_True simp_thms)

lemma start_file_keeps:
  assumes rel: "svc_rel rd n s T" and rb: "reader_bounded rd" and i: "i < n" "\<not> ms_in_use (sv_slots s ! i)"
    and t: "t < n" "T t = None" and st: "start_file rd ok s i t p = (b, s')"
  shows "svc_rel rd n s' (if b then T(t := Some AUDIO_VOICE_MUSIC) else T)"
proof -
  let ?ms = "sv_slots s ! i"
  have r: "mix_ok n (sv_mixer s)" "sv_ll_stream s \<le> 8192" "slot_ok ?ms" "length (sv_slots s) = n"
    using rel rb i by (simp_all add: svc_rel_def)
  note slot = svc_rel_slot [OF rel rb i t]
  have none: ?thesis if "\<not> b" "s' = s \<or> s' = s\<lparr>sv_hung := True\<rparr>" using that rel by (auto simp: svc_rel_def)
  show ?thesis
  proof (cases "sv_pend_path s = None \<or> \<not> sv_has_reader s \<or> audio_file_stream_open rd (the (sv_pend_path s)) (sv_fs s) = None")
    case True
    then consider "sv_pend_path s = None" | path where "sv_pend_path s = Some path" "\<not> sv_has_reader s"
      | path where "sv_pend_path s = Some path" "sv_has_reader s" "audio_file_stream_open rd path (sv_fs s) = None"
      by (cases "sv_pend_path s") auto
    then have "start_file rd ok s i t p = (False, s) \<or> start_file rd ok s i t p = (False, s\<lparr>sv_hung := True\<rparr>)"
    proof cases
      case 1
      then show ?thesis using start_file_closed(1) by blast
    next
      case 2
      then show ?thesis using start_file_closed(2) by blast
    next
      case 3
      then show ?thesis using start_file_closed(3) by blast
    qed
    then have "\<not> b" "s' = s \<or> s' = s\<lparr>sv_hung := True\<rparr>" unfolding st by auto
    then show ?thesis by (rule none)
  next
    case False
    then obtain path op fc fs1 where opened: "sv_pend_path s = Some path" "sv_has_reader s"
      "audio_file_stream_open rd path (sv_fs s) = Some (op, fc, fs1)" by auto
    let ?ms1 = "?ms\<lparr>ms_file := fc\<rparr>" and ?s1 = "s\<lparr>sv_fs := fs1\<rparr>"
    let ?ms2 = "?ms1\<lparr>ms_source := HXA_SRC_FILE\<rparr>"
    show ?thesis
    proof (cases op)
      case False
      then have "b = False" "s' = at_slot ?s1 i ?ms1" using st opened by (simp_all add: start_file_def Let_def)
      then show ?thesis using r i by (intro slot [of ?ms1 _ "sv_mixer s"]) simp_all
    next
      case True
      obtain sb ms3 mx fc1 fs2 where st2: "start_music ?s1 ?ms2 t (audio_file_stream_read rd) (fc, fs1) True p False ok =
          (sb, ms3, mx, (fc1, fs2))" by (metis prod_cases5)
      obtain fc2 fs3 where cl: "audio_file_stream_close rd (fc1, fs2) = (fc2, fs3)" by fastforce
      have "mix_ok n (sv_mixer ?s1)" "slot_ok ?ms2" "\<not> ms_in_use ?ms2" "sv_ll_stream ?s1 \<le> 8192" "ms_source ?ms2 \<noteq> HXA_SRC_NONE"
        using r i by simp_all
      note m = start_music_ok [OF this(1-4) file_stream_source [OF rb] this(5) st2]
      have "b = sb \<and> s' = (if sb then (at_slot ?s1 i (ms3\<lparr>ms_file := fc1\<rparr>))\<lparr>sv_mixer := mx, sv_fs := fs2\<rparr>
          else (at_slot ?s1 i (ms3\<lparr>ms_file := fc2, ms_source := HXA_SRC_NONE\<rparr>))\<lparr>sv_mixer := mx, sv_fs := fs3\<rparr>)"
        using st opened True st2 cl by (auto simp: start_file_def Let_def)
      then have s': "b = sb" "s' = (if sb then (at_slot ?s1 i (ms3\<lparr>ms_file := fc1\<rparr>))\<lparr>sv_mixer := mx, sv_fs := fs2\<rparr>
          else (at_slot ?s1 i (ms3\<lparr>ms_file := fc2, ms_source := HXA_SRC_NONE\<rparr>))\<lparr>sv_mixer := mx, sv_fs := fs3\<rparr>)" by simp_all
      show ?thesis
      proof (cases sb)
        case True
        then show ?thesis using s' m by (intro slot [OF _ _ _ m(1), where ms = "ms3\<lparr>ms_file := fc1\<rparr>"]) simp_all
      next
        case False
        then show ?thesis using s' m r(3) i
          by (intro slot [OF _ _ _ m(1), where ms = "ms3\<lparr>ms_file := fc2, ms_source := HXA_SRC_NONE\<rparr>"]) simp_all
      qed
    qed
  qed
qed

lemma start_ring_keeps:
  assumes rel: "svc_rel rd n s T" and rb: "reader_bounded rd" and i: "i < n" "\<not> ms_in_use (sv_slots s ! i)"
    and t: "t < n" "T t = None" and st: "start_ring ok s i t p = (b, s')"
  shows "svc_rel rd n s' (if b then T(t := Some AUDIO_VOICE_MUSIC) else T)"
proof -
  let ?ms = "(sv_slots s ! i)\<lparr>ms_source := HXA_SRC_RING\<rparr>"
  have r: "mix_ok n (sv_mixer s)" "sv_ll_stream s \<le> 8192" "slot_ok (sv_slots s ! i)"
    using rel rb i by (simp_all add: svc_rel_def)
  note slot = svc_rel_slot [OF rel rb i t]
  obtain sb ms1 mx ring1 where st2: "start_music s ?ms t ring_stream_source (audio_ring_stream_reset (sv_ring s)) False p True ok =
      (sb, ms1, mx, ring1)" by (metis prod_cases4)
  have "slot_ok ?ms" "\<not> ms_in_use ?ms" "ms_source ?ms \<noteq> HXA_SRC_NONE" using r i by simp_all
  note m = start_music_ok [OF r(1) this(1,2) r(2) ring.stream_source_axioms this(3) st2]
  let ?mx = "if sv_ring_rate s \<noteq> 0 \<and> sv_ring_rate s \<noteq> sv_sample_rate s then mixer_set_source_rate mx t (sv_ring_rate s) else mx"
  have "b = sb \<and> s' = (if sb then (at_slot s i ms1)\<lparr>sv_ring := ring1, sv_mixer := ?mx\<rparr>
      else (at_slot s i (ms1\<lparr>ms_source := HXA_SRC_NONE\<rparr>))\<lparr>sv_mixer := mx, sv_ring := ring1\<rparr>)"
    using st st2 by (auto simp: start_ring_def Let_def)
  then have s': "b = sb" "s' = (if sb then (at_slot s i ms1)\<lparr>sv_ring := ring1, sv_mixer := ?mx\<rparr>
      else (at_slot s i (ms1\<lparr>ms_source := HXA_SRC_NONE\<rparr>))\<lparr>sv_mixer := mx, sv_ring := ring1\<rparr>)" by simp_all
  have mx: "mix_ok n ?mx" using m(1) by (simp add: mix_ok_control)
  show ?thesis
  proof (cases sb)
    case True
    then show ?thesis using s' m by (intro slot [OF _ _ _ mx, where ms = ms1]) (simp_all del: if_split)
  next
    case False
    then show ?thesis
      using s' m r(3) i by (intro slot [OF _ _ _ m(1), where ms = "ms1\<lparr>ms_source := HXA_SRC_NONE\<rparr>"]) simp_all
  qed
qed

lemma start_sfx_keeps:
  assumes rel: "svc_rel rd n s T" and t: "t < n" "T t = None" and st: "start_sfx pool s t h p = (b, s')"
  shows "svc_rel rd n s' (if b then T(t := Some AUDIO_VOICE_SFX) else T)"
proof (cases "audio_pool_object_size pool h = 0")
  case True
  then show ?thesis using st rel by (simp add: start_sfx_def)
next
  case False
  let ?m = "mixer_set_source_rate (mixer_set_pan (mixer_set_volume (sv_mixer s) t (i16 (vp_gain p))) t (i16 (vp_pan p))) t
    (audio_pool_object_sample_rate pool h)"
  let ?m1 = "mixer_channel_start (feed_object pool h t (audio_pool_object_size pool h) 0 (mixer_channel_reset ?m t)) t"
  have s': "b" "s' = s\<lparr>sv_mixer := ?m1\<rparr>" using st False by (simp_all add: start_sfx_def Let_def)
  have "mix_ok n ?m1" if "mix_ok n (sv_mixer s)" using that by (intro mix_ok_control feed_object_mix)
  moreover have "slots_match n ss (T(t := Some AUDIO_VOICE_SFX))" if "slots_match n ss T" for ss :: "'b music_slot list"
    by (rule slots_match_sfx [OF that t(2)])
  ultimately show ?thesis using rel s' by (simp add: svc_rel_def)
qed

lemma sink_start_keeps:
  assumes "svc_rel rd n s T" and t: "t < n" "T t = None" and st: "svc_sink_start rd pool ok s t k h p = (b, s')"
  shows "svc_rel rd n s' (if b then T(t := Some k) else T)"
proof (cases "reader_bounded rd")
  case False
  then show ?thesis by (simp add: svc_rel_def)
next
  case rb: True
  have r: "sv_track_count s = n" "mix_ok n (sv_mixer s)" "slots_match n (sv_slots s) T"
    using assms(1) rb by (simp_all add: svc_rel_def)
  show ?thesis
  proof (cases k)
    case AUDIO_VOICE_MUSIC
    consider (none) "b = False" "s' = s"
      | (fromfile) i where "slot_free s = Some i" "start_file rd ok s i t p = (b, s')"
      | (fromring) i where "slot_free s = Some i" "start_ring ok s i t p = (b, s')"
      using st AUDIO_VOICE_MUSIC sink_start_music [where s = s and rd = rd and pool = pool and ok = ok and t = t and h = h and p = p]
      by (cases "slot_free s"; cases "sv_pend_source s") simp_all
    then show ?thesis
    proof cases
      case none
      then show ?thesis using assms(1) by simp
    next
      case fromfile
      then show ?thesis using start_file_keeps [OF assms(1) rb _ _ t fromfile(2)] find_free_slot [OF fromfile(1)] r AUDIO_VOICE_MUSIC by (cases b) simp_all
    next
      case fromring
      then show ?thesis using start_ring_keeps [OF assms(1) rb _ _ t fromring(2)] find_free_slot [OF fromring(1)] r AUDIO_VOICE_MUSIC by (cases b) simp_all
    qed
  next
    case AUDIO_VOICE_SFX
    then have "start_sfx pool s t h p = (b, s')" using st by (simp add: svc_sink_start_def)
    then show ?thesis
      using start_sfx_keeps [OF assms(1) t, of pool h p b s'] AUDIO_VOICE_SFX by (cases b) simp_all
  qed
qed

lemma sink_stop_keeps:
  assumes rel: "svc_rel rd n s T" and t: "t < n"
  shows "svc_rel rd n (svc_sink_stop rd s t) (T(t := None))"
proof (cases "reader_bounded rd")
  case False
  then show ?thesis by (simp add: svc_rel_def)
next
  case rb: True
  have r: "sv_track_count s = n" "length (sv_slots s) = n" "mix_ok n (sv_mixer s)" "sv_ll_stream s \<le> 8192"
    "\<forall>i<n. slot_ok (sv_slots s ! i)" "slots_match n (sv_slots s) T" using rel rb by (simp_all add: svc_rel_def)
  show ?thesis
  proof (cases "slot_for_track s t")
    case None
    then show ?thesis using slots_match_none [OF r(6)] find_voice_slot(2) [OF None] r
      by (simp add: svc_sink_stop_def svc_rel_def mix_ok_control)
  next
    case (Some i)
    note i = find_voice_slot(1) [OF Some, unfolded r(1)]
    let ?ms = "sv_slots s ! i"
    have sl: "slot_ok ?ms" using r(5) i by simp
    obtain mp where mp: "ms_player ?ms = Some mp" "voice_ok (ms_track ?ms) mp" using sl i by (auto simp: slot_ok_def)
    obtain fc1 fs1 where f: "(if ms_source (return_buffers mp ?ms) = HXA_SRC_FILE
        then audio_file_stream_close rd (ms_file (return_buffers mp ?ms), sv_fs s)
        else (ms_file (return_buffers mp ?ms), sv_fs s)) = (fc1, fs1)" by fastforce
    let ?ms1 = "(return_buffers mp ?ms)\<lparr>ms_file := fc1, ms_source := HXA_SRC_NONE, ms_in_use := False\<rparr>"
    have st: "svc_sink_stop rd s t = ((at_slot s i ?ms1)\<lparr>sv_mixer := music_destroy mp (sv_mixer s), sv_fs := fs1\<rparr>)
        \<lparr>sv_mixer := mixer_channel_reset (mixer_channel_stop (music_destroy mp (sv_mixer s)) t) t\<rparr>"
      unfolding svc_sink_stop_def Let_def Some option.case mp(1) prod.case f by simp
    have "slot_ok ?ms1" using sl voice_ok_buffers [OF mp(2)] by (simp add: slot_ok_def return_buffers_def)
    then have "\<forall>j<n. slot_ok ((sv_slots s)[i := ?ms1] ! j)" by (rule all_slots_update [OF r(5) _ r(2)])
    moreover have "slots_match n ((sv_slots s)[i := ?ms1]) (T(t := None))"
      using i by (intro slots_match_stop [OF r(6,2)]) simp_all
    moreover have "mix_ok n (music_destroy mp (sv_mixer s))" using r(3) by (simp add: music_destroy_def mix_ok_control)
    ultimately show ?thesis unfolding st using r by (simp add: svc_rel_def mix_ok_control)
  qed
qed

interpretation svc: sink_contract "svc_sink rd pool ok" "svc_rel rd n" n for rd pool ok n
proof unfold_locales
  show "svc_rel rd n c T \<Longrightarrow> t < n \<Longrightarrow> T t = None \<Longrightarrow> sk_start (svc_sink rd pool ok) c t k object p = (started, c') \<Longrightarrow>
      svc_rel rd n c' (if started then T(t := Some k) else T)" for c T t k object p started c'
    by (rule sink_start_keeps) (simp_all add: svc_sink_def)
  show "svc_rel rd n c T \<Longrightarrow> t < n \<Longrightarrow> T t \<noteq> None \<Longrightarrow> svc_rel rd n (sk_stop (svc_sink rd pool ok) c t) (T(t := None))"
    for c T t by (simp add: svc_sink_def sink_stop_keeps)
  show "sk_is_done (svc_sink rd pool ok) = Some d \<Longrightarrow> svc_rel rd n c T \<Longrightarrow> svc_rel rd n (snd (d c t)) T" for d c T t
    by (auto simp: svc_sink_def svc_sink_is_done_def)
qed

end
