(* ===== verification/Service_Load.thy ===== *)
theory Service_Load
  imports Service_Inv
begin

text \<open>
  Samples on their way into the mixer: what staging them does to the pool, and what feeding an
  object to a channel leaves in the channel.
\<close>

section \<open>Staging in the pool\<close>

lemma set_rate_keeps:
  fixes r :: nat
  assumes inv: "pool_inv p ch" and s: "s < length (ap_objects p)"
  defines "q \<equiv> p\<lparr>ap_objects := (ap_objects p)[s := (ap_objects p ! s)\<lparr>ob_sample_rate := r\<rparr>]\<rparr>"
  shows "pool_inv q ch" and "resolve q h = resolve p h" and "pool_refs q h = pool_refs p h"
    and "audio_pool_object_size q h = audio_pool_object_size p h" and "object_bytes q h = object_bytes p h"
proof -
  have at: "ap_objects q ! t = (if t = s then (ap_objects p ! s)\<lparr>ob_sample_rate := r\<rparr> else ap_objects p ! t)"
    for t using s by (simp add: q_def nth_list_update)
  have len: "length (ap_objects q) = length (ap_objects p)" by (simp add: q_def)
  have heads: "pool_heads q = pool_heads p" unfolding q_def by (rule pool_heads_update) simp_all
  have fields: "ob_in_use (ap_objects q ! t) = ob_in_use (ap_objects p ! t)" "object_ok q bs t = object_ok p bs t"
    "ob_size (ap_objects q ! t) = ob_size (ap_objects p ! t)" "ob_refcount (ap_objects q ! t) = ob_refcount (ap_objects p ! t)"
    for t bs by (simp_all add: at object_ok_def Let_def) (simp_all add: q_def)
  have "pool_core q ch (pool_heads q)" using inv unfolding heads by (simp add: q_def pool_inv_def)
  moreover have "ap_block_size q = ap_block_size p" "ap_region q = ap_region p" "ap_region_size q = ap_region_size p"
    "ap_block_count q = ap_block_count p" "ap_generations q = ap_generations p" by (simp_all add: q_def)
  ultimately show q: "pool_inv q ch" using inv unfolding pool_inv_def len fields by simp
  show res: "resolve q h = resolve p h" unfolding q_def using s by (intro resolve_update) simp_all
  show "pool_refs q h = pool_refs p h" by (simp add: pool_refs_def res fields split: option.split)
  show "audio_pool_object_size q h = audio_pool_object_size p h" by (simp add: audio_pool_object_size_def res fields split: option.split)
  show "object_bytes q h = object_bytes p h"
  proof (cases "resolve p h")
    case None
    then show ?thesis by (simp add: object_bytes_def audio_pool_read_def res)
  next
    case (Some t)
    then show ?thesis
      using object_bytes_chain(1) [OF q, of h t] object_bytes_chain(1) [OF inv, of h t] res
        chain_bytes_region [of q p] by (simp add: fields) (simp add: q_def)
  qed
qed

lemma alloc_with_rate_ok:
  assumes p: "pool_ok p" and sz: "sz + ap_block_size p \<le> 4294967296"
    and al: "audio_pool_alloc_with_rate p sz vm rate = (r, h, q)"
  shows "r \<noteq> AUDIO_POOL_OK \<Longrightarrow> q = p" and "r = AUDIO_POOL_OK \<Longrightarrow> pool_ok q" and "r = AUDIO_POOL_OK \<Longrightarrow> pool_refs p h = 0"
    and "r = AUDIO_POOL_OK \<Longrightarrow> pool_refs q h' = (if h' = h then 1 else pool_refs p h')"
    and "r = AUDIO_POOL_OK \<Longrightarrow> audio_pool_object_size q h = sz"
    and "r = AUDIO_POOL_OK \<Longrightarrow> ap_block_size q = ap_block_size p"
proof -
  obtain ch where inv: "pool_inv p ch" using p by (auto simp: pool_ok_def)
  obtain r1 h1 q1 where a: "audio_pool_alloc p sz vm = (r1, h1, q1)" by (metis prod_cases3)
  show "r \<noteq> AUDIO_POOL_OK \<Longrightarrow> q = p"
    using al a audio_pool_alloc_errors(2) [OF inv, of sz vm]
    by (auto simp: audio_pool_alloc_with_rate_def split: if_splits option.splits)
  have ok: "pool_ok q \<and> pool_refs p h = 0 \<and> pool_refs q h' = (if h' = h then 1 else pool_refs p h') \<and>
      audio_pool_object_size q h = sz \<and> ap_block_size q = ap_block_size p" if "r = AUDIO_POOL_OK"
  proof -
    have "r1 = AUDIO_POOL_OK" using al a that by (auto simp: audio_pool_alloc_with_rate_def split: if_splits)
    note n = audio_pool_alloc_ok [OF inv sz a [unfolded this]]
    obtain bs where n7: "pool_inv q1 (ch(find_free_slot p := bs))" "resolve q1 h1 = Some (find_free_slot p)" using n(7) by blast
    have s: "find_free_slot p < length (ap_objects q1)" by (rule resolve_object(1) [OF n7])
    have "h = h1 \<and> (q = q1 \<or> q = q1\<lparr>ap_objects := (ap_objects q1)[find_free_slot p :=
        (ap_objects q1 ! find_free_slot p)\<lparr>ob_sample_rate := rate\<rparr>]\<rparr>)"
      using al a that \<open>r1 = AUDIO_POOL_OK\<close> n7(2) unfolding audio_pool_alloc_with_rate_def
      by (auto simp: resolve_Some split: option.splits if_splits)
    then show ?thesis
      using n(1,2,9) n(3) [of h'] n(4) set_rate_keeps [OF n7(1) s] by (auto simp: pool_ok_def)
  qed
  show "r = AUDIO_POOL_OK \<Longrightarrow> pool_ok q" and "r = AUDIO_POOL_OK \<Longrightarrow> pool_refs p h = 0"
    and "r = AUDIO_POOL_OK \<Longrightarrow> pool_refs q h' = (if h' = h then 1 else pool_refs p h')"
    and "r = AUDIO_POOL_OK \<Longrightarrow> audio_pool_object_size q h = sz"
    and "r = AUDIO_POOL_OK \<Longrightarrow> ap_block_size q = ap_block_size p" using ok by blast+
qed

lemma write_block_size: "ap_block_size (snd (snd (audio_pool_write p h off src))) = ap_block_size p"
proof -
  have "ap_block_size (snd (write_loop n p b i xs)) = ap_block_size p" for n b i xs
    by (induction n arbitrary: p b i xs) (simp_all add: Let_def split_beta)
  then show ?thesis by (simp add: audio_pool_write_def Let_def split: option.split prod.split)
qed

lemma stage_pcm_ok:
  assumes p: "pool_ok p" and sz: "u32 (length data) + ap_block_size p \<le> 4294967296" and st: "stage_pcm p data rate = (h, q)"
  shows "pool_ok q" and "h = 0 \<Longrightarrow> q = p" and "ap_block_size q = ap_block_size p"
    and "h \<noteq> 0 \<Longrightarrow> pool_refs p h = 0"
    and "h \<noteq> 0 \<Longrightarrow> pool_refs q h' = (if h' = h then 1 else pool_refs p h')"
    and "h \<noteq> 0 \<Longrightarrow> object_bytes q h = take (u32 (length data)) data"
proof -
  obtain r h1 p1 where a: "audio_pool_alloc_with_rate p (u32 (length data)) 0 rate = (r, h1, p1)" by (metis prod_cases3)
  note al = alloc_with_rate_ok [OF p sz a]
  have "pool_ok q \<and> (h = 0 \<longrightarrow> q = p) \<and> ap_block_size q = ap_block_size p \<and>
    (h \<noteq> 0 \<longrightarrow> pool_refs p h = 0 \<and> pool_refs q h' = (if h' = h then 1 else pool_refs p h') \<and>
       object_bytes q h = take (u32 (length data)) data)"
  proof (cases "r = AUDIO_POOL_OK")
    case False
    then show ?thesis using st a al(1) p by (auto simp: stage_pcm_def)
  next
    case True
    let ?d = "take (u32 (length data)) data"
    have hq: "h = h1" "q = snd (snd (audio_pool_write p1 h 0 ?d))" using st a True by (auto simp: stage_pcm_def)
    have "pool_refs p1 h1 = 1" using al(4) [OF True, of h1] by simp
    then have h0: "h \<noteq> 0" using pool_refs_zero [of p1] hq(1) by auto
    obtain ch where inv: "pool_inv p1 ch" using al(2) [OF True] by (auto simp: pool_ok_def)
    have "audio_pool_handle_valid p1 h" using \<open>pool_refs p1 h1 = 1\<close> hq(1) prc.valid_iff [OF al(2) [OF True]] by simp
    then obtain s where s: "resolve p1 h = Some s" by (auto simp: audio_pool_handle_valid_def)
    obtain k where w: "audio_pool_write p1 h 0 ?d = (AUDIO_POOL_OK, k, q)" "k = min (length ?d) (audio_pool_object_size p1 h)"
      "object_bytes q h = blit (object_bytes p1 h) 0 (take k ?d)"
      using audio_pool_write_spec [OF inv s, of 0 ?d] hq(2) by auto
    have len: "length (object_bytes p1 h) = u32 (length data)"
      using object_bytes_chain(2) [OF inv s] al(5) [OF True] hq(1) by simp
    have "u32 (length data) \<le> length data" by (simp add: u32_def)
    then have "length ?d = u32 (length data)" by simp
    moreover from this have "k = u32 (length data)" using w(2) al(5) [OF True] hq(1) by simp
    ultimately have "object_bytes q h = ?d" using w(3) len by (simp add: blit_def)
    then show ?thesis
      using write_keeps_refs [OF inv, of h 0 ?d] al(3) [OF True] al(4) [OF True, of h'] h0 hq
        write_block_size [of p1 h 0 ?d] al(6) [OF True] by simp
  qed
  then show "pool_ok q" and "h = 0 \<Longrightarrow> q = p" and "ap_block_size q = ap_block_size p"
    and "h \<noteq> 0 \<Longrightarrow> pool_refs p h = 0"
    and "h \<noteq> 0 \<Longrightarrow> pool_refs q h' = (if h' = h then 1 else pool_refs p h')"
    and "h \<noteq> 0 \<Longrightarrow> object_bytes q h = take (u32 (length data)) data" by blast+
qed

section \<open>Feeding a channel\<close>

text \<open>A mono sample on both channels, and the frames of a whole object.\<close>

definition both_sides :: "byte list \<Rightarrow> nat \<Rightarrow> byte list" where
  "both_sides b i = seg (2 * i) 2 b @ seg (2 * i) 2 b"

definition sfx_frames :: "byte list \<Rightarrow> byte list list" where
  "sfx_frames b = map (both_sides b) [0..<length b div 2]"

definition newest :: "nat \<Rightarrow> 'a list \<Rightarrow> 'a list" where "newest n xs = drop (length xs - n) xs"

lemma newest_newest: "newest n (newest n xs @ ys) = newest n (xs @ ys)"
  by (cases "length xs \<le> n") (simp_all add: newest_def add.commute)

lemma sample_bytes:
  assumes "p + 2 \<le> length b"
  shows "put_s16le (sample16 b p) = seg p 2 b"
proof -
  have "seg p 2 b = [b ! p, b ! (p + 1)]"
    using assms by (intro nth_equalityI) (auto simp: nth_seg less_Suc_eq numeral_2_eq_2)
  moreover have "put_s16le (sample16 b p) = [b ! p, b ! (p + 1)]"
  proof -
    let ?x = "b ! p" and ?y = "b ! (p + 1)"
    have u: "unat ?x < 256" "unat ?y < 256" using unsigned_less [of ?x] unsigned_less [of ?y] by simp_all
    have "i16 (int (rd_u16le b p)) mod 65536 = int (unat ?x + 256 * unat ?y) mod 65536"
      by (simp add: i16_def rd_u16le_def mod_simps)
    also have "\<dots> = int (unat ?x + 256 * unat ?y)" using u by (intro mod_pos_pos_trivial) linarith+
    finally have "i16 (int (rd_u16le b p)) mod 65536 = int (unat ?x + 256 * unat ?y)" .
    moreover have "256 * w = 0" for w :: byte
    proof -
      have "(256 :: byte) = 0" by simp
      then show ?thesis by (simp only: mult_zero_left)
    qed
    ultimately show ?thesis
      using u by (simp add: put_s16le_def sample16_def put_u16le_def nat_add_distrib nat_mult_distrib)
  qed
  ultimately show ?thesis by simp
qed

lemma frames_concat:
  assumes "\<forall>x \<in> set xs. length x = fb"
  shows "frames_of fb 0 (length xs) (concat xs) = xs"
  using assms
proof (induction xs)
  case (Cons x xs)
  have "frames_of fb 0 (length (x # xs)) (concat (x # xs)) =
      frames_of fb 0 1 (x @ concat xs) @ frames_of fb 1 (length xs) (x @ concat xs)"
    using frames_of_append [of fb 0 1 "length xs" "x @ concat xs"] by simp
  also have "frames_of fb 0 1 (x @ concat xs) = [x]" using Cons.prems by (simp add: frames_of_def seg_def)
  also have "frames_of fb 1 (length xs) (x @ concat xs) = frames_of fb 0 (length xs) (concat xs)"
    using frames_of_drop [of fb "length xs" 1 "x @ concat xs"] Cons.prems by simp
  finally show ?case using Cons by simp
qed (simp add: frames_of_def)

lemma expand_frames:
  assumes "2 * (from + k) \<le> length b"
  shows "frames_of 4 0 k (expand b from k) = map (both_sides b) [from..<from + k]"
proof -
  have e: "expand b from k = concat (map (\<lambda>i. both_sides b (from + i)) [0..<k])"
    unfolding expand_def stereo_bytes_def map_map comp_def prod.case
    using assms by (intro arg_cong [where f = concat] map_cong) (auto simp: both_sides_def sample_bytes)
  have l: "length (both_sides b (from + i)) = 4" if "i < k" for i
    using that assms by (simp add: both_sides_def)
  have "frames_of 4 0 k (expand b from k) = map (\<lambda>i. both_sides b (from + i)) [0..<k]"
    using frames_concat [of "map (\<lambda>i. both_sides b (from + i)) [0..<k]" 4] l unfolding e by auto
  also have "\<dots> = map (both_sides b) [from..<from + k]"
    by (rule nth_equalityI) simp_all
  finally show ?thesis .
qed

text \<open>A channel that takes stereo frames, with its capacity and contents.\<close>

definition holds_frames :: "audio_mixer \<Rightarrow> nat \<Rightarrow> byte list list \<Rightarrow> bool" where
  "holds_frames mx t fs \<longleftrightarrow> channel_ready mx t 4 \<and> channel_cap mx t = 32768 \<and> channel_items mx t = newest 32768 fs"

lemma holds_write:
  assumes "holds_frames mx t fs" and "4 * k \<le> length b"
  shows "holds_frames (snd (mixer_write_channel mx t b k)) t (fs @ frames_of 4 0 k b)"
proof -
  have "k * 4 \<le> length b" using assms(2) by simp
  note w = write_channel_items [OF _ this, of mx t]
  have "channel_items (snd (mixer_write_channel mx t b k)) t = newest 32768 (newest 32768 fs @ frames_of 4 0 k b)"
    using w(3) assms(1) by (simp add: holds_frames_def newest_def)
  then show ?thesis using w(1,2) assms(1) by (simp add: holds_frames_def newest_newest)
qed

lemma feed_chunk_frames:
  assumes "holds_frames mx t fs" and "d \<le> k" and "2 * k \<le> length b"
  shows "holds_frames (feed_chunk t b k d mx) t (fs @ map (both_sides b) [d..<k])"
  using assms
proof (induction t b k d mx arbitrary: fs rule: feed_chunk.induct)
  case (1 t b k d mx)
  show ?case
  proof (cases "d < k")
    case False
    then show ?thesis using 1(2,3) by (subst feed_chunk.simps) simp
  next
    case True
    define j where "j = (if HXA_SFX_EXPAND_FRAMES < k - d then HXA_SFX_EXPAND_FRAMES else k - d)"
    have j: "d + j \<le> k" using True by (auto simp: j_def)
    then have b: "2 * (d + j) \<le> length b" by (intro order_trans [OF mult_le_mono2 1(4)])
    have "holds_frames (snd (mixer_write_channel mx t (expand b d j) j)) t (fs @ map (both_sides b) [d..<d + j])"
      using holds_write [OF 1(2), of j "expand b d j"] expand_frames [OF b] by simp
    from 1(1) [OF True j_def this j 1(4)] have
      "holds_frames (feed_chunk t b k (d + j) (snd (mixer_write_channel mx t (expand b d j) j))) t
        (fs @ map (both_sides b) [d..<d + j] @ map (both_sides b) [d + j..<k])" by simp
    moreover have "[d..<d + j] @ [d + j..<k] = [d..<k]" using j upt_add_eq_append [of d "d + j" "k - (d + j)"] by simp
    then have "map (both_sides b) [d..<d + j] @ map (both_sides b) [d + j..<k] = map (both_sides b) [d..<k]"
      by (simp flip: map_append)
    ultimately show ?thesis using True by (subst feed_chunk.simps) (simp add: Let_def j_def [symmetric])
  qed
qed

lemma both_sides_seg: "2 * i + 2 \<le> w \<Longrightarrow> both_sides (seg (2 * o') w B) i = both_sides B (o' + i)"
  by (simp add: both_sides_def seg_seg distrib_left add.commute)

lemma feed_object_frames:
  assumes inv: "pool_inv p ch" and s: "resolve p h = Some s" and sz: "sz = audio_pool_object_size p h" "even sz"
    and fs: "holds_frames mx t fs" and off: "even off" "off \<le> sz"
  shows "holds_frames (feed_object p h t sz off mx) t (fs @ map (both_sides (object_bytes p h)) [off div 2..<sz div 2])"
  using fs off
proof (induction "sz - off" arbitrary: off mx fs rule: less_induct)
  case less
  let ?B = "object_bytes p h"
  have len: "length ?B = sz" using object_bytes_chain(2) [OF inv s] sz(1) by simp
  show ?case
  proof (cases "off < sz")
    case False
    then show ?thesis using less.prems by (subst feed_object.simps) simp
  next
    case True
    define w where "w = (if AUDIO_POOL_BLOCK_SIZE < sz - off then AUDIO_POOL_BLOCK_SIZE else sz - off)"
    have w: "0 < w" "off + w \<le> sz" "even w" using True sz(2) less.prems(2) by (auto simp: w_def AUDIO_POOL_BLOCK_SIZE_def)
    define b where "b = seg off w ?B"
    have rd: "audio_pool_read p h off w = (AUDIO_POOL_OK, b)"
      unfolding audio_pool_read_chain [OF inv s] b_def object_bytes_chain(1) [OF inv s] ..
    have lb: "length b = w" using w(2) len by (simp add: b_def)
    then have nb: "b \<noteq> []" using w(1) by auto
    have "holds_frames (feed_chunk t b (w div 2) 0 mx) t (fs @ map (both_sides b) [0..<w div 2])"
      using less.prems(1) lb by (intro feed_chunk_frames) simp_all
    moreover have "map (both_sides b) [0..<w div 2] = map (both_sides ?B) [off div 2..<(off + w) div 2]"
    proof (rule nth_equalityI)
      show "length (map (both_sides b) [0..<w div 2]) = length (map (both_sides ?B) [off div 2..<(off + w) div 2])"
        using less.prems(2) w(3) by (auto elim!: evenE)
      fix i assume "i < length (map (both_sides b) [0..<w div 2])"
      then have i: "i < w div 2" by simp
      then have "2 * i + 2 \<le> w" by linarith
      from both_sides_seg [OF this, of "off div 2" ?B] less.prems(2) i
      show "map (both_sides b) [0..<w div 2] ! i = map (both_sides ?B) [off div 2..<(off + w) div 2] ! i"
        by (simp add: b_def)
    qed
    ultimately have "holds_frames (feed_object p h t sz (off + w) (feed_chunk t b (w div 2) 0 mx)) t
        ((fs @ map (both_sides ?B) [off div 2..<(off + w) div 2]) @ map (both_sides ?B) [(off + w) div 2..<sz div 2])"
      using w less.prems(2) by (intro less.hyps) simp_all
    moreover have "[off div 2..<(off + w) div 2] @ [(off + w) div 2..<sz div 2] = [off div 2..<sz div 2]"
    proof -
      have "off div 2 \<le> (off + w) div 2" "(off + w) div 2 \<le> sz div 2" using w(2) by (auto intro: div_le_mono)
      then show ?thesis using upt_add_eq_append [of "off div 2" "(off + w) div 2" "sz div 2 - (off + w) div 2"] by simp
    qed
    then have "map (both_sides ?B) [off div 2..<(off + w) div 2] @ map (both_sides ?B) [(off + w) div 2..<sz div 2] =
        map (both_sides ?B) [off div 2..<sz div 2]" by (simp flip: map_append)
    moreover have "feed_object p h t sz off mx = feed_object p h t sz (off + w) (feed_chunk t b (w div 2) 0 mx)"
      using True w(1) by (subst feed_object.simps) (simp add: Let_def w_def [symmetric] rd lb nb)
    ultimately show ?thesis by simp
  qed
qed

end
