(* ===== verification/Service_Spec.thy ===== *)
theory Service_Spec
  imports Service_Load
begin

text \<open>
  The states that the service reaches from its creation, the invariant that they keep, and the
  properties of the whole engine.
\<close>

section \<open>The block size never changes\<close>

lemma free_chain_size [simp]: "ap_block_size (free_chain p b) = ap_block_size p"
proof (induction p b rule: free_chain.induct)
  case (1 p b)
  have "ap_block_size (free_one_block p b) = ap_block_size p" by (simp add: free_one_block_def Let_def)
  then show ?case using 1 by (subst free_chain.simps) (simp add: Let_def)
qed

lemma unref_size [simp]: "ap_block_size (snd (snd (audio_pool_unref p h))) = ap_block_size p"
proof -
  have "ap_block_size (snd (drop_ref p s)) = ap_block_size p" for s
    by (simp add: drop_ref_def free_object_def Let_def) (simp add: add_refcount_def)
  then show ?thesis by (simp add: audio_pool_unref_def split: option.split prod.split)
qed

lemma ref_size [simp]: "ap_block_size (snd (audio_pool_ref p h)) = ap_block_size p"
  by (simp add: audio_pool_ref_def add_refcount_def split: option.split)

lemma stop_track_size [simp]: "ap_block_size (aa_pool (stop_track sk a t)) = ap_block_size (aa_pool a)"
  by (simp add: stop_track_def Let_def)

lemma play_size:
  assumes "audio_arbiter_play sk a object k params vm = (r, v, a')"
  shows "ap_block_size (aa_pool a') = ap_block_size (aa_pool a)"
proof -
  obtain r1 q where q: "audio_pool_ref (aa_pool a) object = (r1, q)" by fastforce
  have "ap_block_size q = ap_block_size (aa_pool a)" using ref_size [of "aa_pool a" object] q by simp
  then show ?thesis
    using assms by (auto simp: audio_arbiter_play_def claim_track_def Let_def q split: if_splits prod.splits)
qed

lemma play_external_size:
  assumes "audio_arbiter_play_external sk a params vm = (r, v, a')"
  shows "ap_block_size (aa_pool a') = ap_block_size (aa_pool a)"
  using assms by (auto simp: audio_arbiter_play_external_def claim_track_def Let_def split: if_splits prod.splits)

lemma stop_size: "ap_block_size (aa_pool (snd (audio_arbiter_stop sk a v))) = ap_block_size (aa_pool a)"
  by (simp add: audio_arbiter_stop_def split: option.split prod.split)

lemma reap_size: "ap_block_size (aa_pool (snd (audio_arbiter_reap sk a))) = ap_block_size (aa_pool a)"
proof -
  have "ap_block_size (aa_pool (snd (reap_from sk d ts (k, a)))) = ap_block_size (aa_pool a)" for d ts k a
    by (induction ts arbitrary: k a) (simp_all add: Let_def case_prod_beta)
  then show ?thesis by (simp add: audio_arbiter_reap_def split: option.split)
qed

section \<open>The invariant\<close>

definition service_ok :: "('f, 'h) file_reader \<Rightarrow> nat \<Rightarrow> ('f, 'h) service \<Rightarrow> bool" where
  "service_ok rd n s \<longleftrightarrow> svc.linked rd n (hx_arbiter s) \<and> ap_block_size (aa_pool (hx_arbiter s)) = 8192 \<and>
     (\<forall>h. h \<noteq> 0 \<longrightarrow> held (hx_arbiter s) h \<le> 1) \<and> length (aa_tracks (hx_arbiter s)) = 16 \<and>
     window_ok (hx_fft s) \<and> bands_ok (hx_fft s)"

lemma linked_arb_inv: "svc.linked rd n a \<Longrightarrow> arb_inv a"
  by (simp add: sink_contract.linked_def [OF svc.sink_contract_axioms])

lemma voices_le: "voices a h \<le> length (aa_tracks a)"
  by (simp add: voices_def)

lemma refs_small:
  assumes "service_ok rd n s"
  shows "pool_refs (aa_pool (hx_arbiter s)) h < 2147483647"
proof (cases "h = 0")
  case False
  then have "held (hx_arbiter s) h \<le> 1" "length (aa_tracks (hx_arbiter s)) = 16" using assms by (simp_all add: service_ok_def)
  then show ?thesis using voices_le [of "hx_arbiter s" h] by (simp add: held_def)
qed (simp add: pool_refs_zero)

lemma in_ctx_ok:
  assumes "service_ok rd n s" and "\<And>c T. svc_rel rd n c T \<Longrightarrow> svc_rel rd n (f c) T"
  shows "service_ok rd n (in_ctx f s)"
  using assms unfolding service_ok_def in_ctx_def
  by (simp add: sink_contract.linked_def [OF svc.sink_contract_axioms] arb_inv_ctx)

lemma svc_rel_fields [simp]:
  "svc_rel rd n (c\<lparr>sv_pend_source := x\<rparr>) T = svc_rel rd n c T" "svc_rel rd n (c\<lparr>sv_pend_path := y\<rparr>) T = svc_rel rd n c T"
  "svc_rel rd n (c\<lparr>sv_pend_rate := k\<rparr>) T = svc_rel rd n c T" "svc_rel rd n (c\<lparr>sv_ring := r\<rparr>) T = svc_rel rd n c T"
  "svc_rel rd n (c\<lparr>sv_ring_rate := k\<rparr>) T = svc_rel rd n c T" "svc_rel rd n (c\<lparr>sv_fs := fs\<rparr>) T = svc_rel rd n c T"
  "svc_rel rd n (c\<lparr>sv_ll_chanfill := k\<rparr>) T = svc_rel rd n c T"
  by (simp_all add: svc_rel_def)

lemma arbiter_step_ok:
  assumes ok: "service_ok rd n s" and l: "svc.linked rd n a" and "ap_block_size (aa_pool a) = ap_block_size (aa_pool (hx_arbiter s))"
    and "\<And>h. h \<noteq> 0 \<Longrightarrow> held a h = held (hx_arbiter s) h" and "length (aa_tracks a) = length (aa_tracks (hx_arbiter s))"
  shows "service_ok rd n (s\<lparr>hx_arbiter := a\<rparr>)"
  using assms by (simp add: service_ok_def)

lemma claim_tracks_length [simp]: "length (aa_tracks (snd (claim_track a t h k vm))) = length (aa_tracks a)"
  by (simp add: claim_track_def Let_def)

lemma trigger_ok:
  assumes ok: "service_ok rd n s" and t: "hxa_trigger_sfx rd s obj gain pan = (v, s')"
  shows "service_ok rd n s'"
proof -
  let ?sk = "svc_sink rd (snd (audio_pool_ref (aa_pool (hx_arbiter s)) obj)) True"
  obtain r a where p: "audio_arbiter_play ?sk (hx_arbiter s) obj AUDIO_VOICE_SFX
      (Some \<lparr>vp_gain = gain, vp_pan = pan, vp_priority = 0, vp_loop = 0\<rparr>) 0 = (r, v, a)" "s' = s\<lparr>hx_arbiter := a\<rparr>"
    using t by (auto simp: hxa_trigger_sfx_def Let_def split: prod.splits)
  have l: "svc.linked rd n (hx_arbiter s)" using ok by (simp add: service_ok_def)
  have "length (aa_tracks a) = length (aa_tracks (hx_arbiter s))"
    using p(1) by (auto simp: audio_arbiter_play_def claim_track_def Let_def split: if_splits prod.splits)
  then show ?thesis unfolding p(2)
    using svc.play_links [OF l refs_small [OF ok] p(1)] play_size [OF p(1)]
      audio_arbiter_play_spec(2) [OF linked_arb_inv [OF l] refs_small [OF ok] p(1)]
    by (intro arbiter_step_ok [OF ok]) simp_all
qed

lemma play_external_ok:
  assumes ok: "service_ok rd n s" and t: "play_external rd alloc_ok s gain pan = (v, s')"
  shows "service_ok rd n s'"
proof -
  let ?sk = "svc_sink rd (aa_pool (hx_arbiter s)) alloc_ok"
  obtain r a where p: "audio_arbiter_play_external ?sk (hx_arbiter s)
      (Some \<lparr>vp_gain = gain, vp_pan = pan, vp_priority = 0, vp_loop = 0\<rparr>) 0 = (r, v, a)" "s' = s\<lparr>hx_arbiter := a\<rparr>"
    using t by (auto simp: play_external_def split: prod.splits)
  have l: "svc.linked rd n (hx_arbiter s)" using ok by (simp add: service_ok_def)
  have "length (aa_tracks a) = length (aa_tracks (hx_arbiter s))"
    using p(1) by (auto simp: audio_arbiter_play_external_def claim_track_def Let_def split: if_splits prod.splits)
  then show ?thesis unfolding p(2)
    using svc.play_external_links [OF l p(1)] play_external_size [OF p(1)]
      audio_arbiter_play_external_spec [OF linked_arb_inv [OF l] p(1)]
    by (intro arbiter_step_ok [OF ok]) simp_all
qed

lemma play_stream_ok:
  assumes ok: "service_ok rd n s" and t: "hxa_play_stream_wav rd alloc_ok s path = Some (v, s')"
  shows "service_ok rd n s'"
proof -
  let ?s1 = "in_ctx (\<lambda>c. c\<lparr>sv_pend_source := HXA_SRC_FILE, sv_pend_path := Some path\<rparr>) s"
  obtain v1 s2 where p: "play_external rd alloc_ok ?s1 Q15_ONE 0 = (v1, s2)" by fastforce
  have "service_ok rd n ?s1" by (rule in_ctx_ok [OF ok]) simp
  then have "service_ok rd n s2" by (rule play_external_ok [OF _ p])
  moreover have "s' = in_ctx (\<lambda>c. c\<lparr>sv_pend_source := HXA_SRC_NONE, sv_pend_path := None\<rparr>) s2"
    using t p by (auto simp: hxa_play_stream_wav_def Let_def split: if_splits)
  ultimately show ?thesis by (auto intro: in_ctx_ok)
qed

lemma open_pcm_ok:
  assumes ok: "service_ok rd n s" and t: "hxa_open_pcm_stream rd alloc_ok s rate gain pan = (v, s')"
  shows "service_ok rd n s'"
proof -
  let ?s1 = "in_ctx (\<lambda>c. let r = (if rate \<noteq> 0 then rate else sv_sample_rate c)
                            in c\<lparr>sv_ring_rate := r, sv_pend_source := HXA_SRC_RING, sv_pend_rate := r\<rparr>) s"
  obtain v1 s2 where p: "play_external rd alloc_ok ?s1 gain pan = (v1, s2)" by fastforce
  have "service_ok rd n ?s1" by (rule in_ctx_ok [OF ok]) (simp add: Let_def)
  then have "service_ok rd n s2" by (rule play_external_ok [OF _ p])
  moreover have "s' = in_ctx (\<lambda>c. c\<lparr>sv_pend_source := HXA_SRC_NONE, sv_pend_rate := 0\<rparr>) s2"
    using t p by (simp add: hxa_open_pcm_stream_def)
  ultimately show ?thesis by (auto intro: in_ctx_ok)
qed

lemma stop_voice_ok:
  assumes ok: "service_ok rd n s"
  shows "service_ok rd n (hxa_stop_voice rd s v)"
proof -
  let ?sk = "svc_sink rd (aa_pool (hx_arbiter s)) True"
  have l: "svc.linked rd n (hx_arbiter s)" using ok by (simp add: service_ok_def)
  obtain r a where a: "audio_arbiter_stop ?sk (hx_arbiter s) v = (r, a)" by fastforce
  have "length (aa_tracks a) = length (aa_tracks (hx_arbiter s))"
    using a by (auto simp: audio_arbiter_stop_def stop_track_def Let_def split: option.splits prod.splits if_splits)
  then show ?thesis unfolding hxa_stop_voice_def a snd_conv
    using svc.stop_links [OF l, where v = v and pool = "aa_pool (hx_arbiter s)" and ok = True] stop_size [of ?sk "hx_arbiter s" v] a
      audio_arbiter_stop_spec(2) [OF linked_arb_inv [OF l] a]
    by (intro arbiter_step_ok [OF ok]) simp_all
qed

lemma lowlat_ok:
  assumes "service_ok rd n s"
  shows "service_ok rd n (hxa_set_lowlat s k f)"
  unfolding hxa_set_lowlat_def Let_def
  by (rule in_ctx_ok [OF assms]) (simp add: svc_rel_def HXA_MUSIC_STREAM_FRAMES_def HXA_FMV_STREAM_FRAMES_def)

section \<open>Rendering\<close>

lemma slots_match_players:
  assumes "slots_match n ss T" and "length ss = n" and "ms_in_use ms = ms_in_use (ss ! i)" "ms_track ms = ms_track (ss ! i)"
  shows "slots_match n (ss[i := ms]) T"
proof -
  have "ms_in_use (ss[i := ms] ! j) = ms_in_use (ss ! j) \<and> ms_track (ss[i := ms] ! j) = ms_track (ss ! j)" if "j < n" for j
    using assms(2-4) that by (cases "j = i") simp_all
  then show ?thesis using assms(1) unfolding slots_match_def by metis
qed

lemma update_slot_keeps:
  assumes rel: "svc_rel rd n s T" and i: "i < n"
  shows "svc_rel rd n (update_slot rd s i) T"
proof (cases "reader_bounded rd \<and> ms_in_use (sv_slots s ! i) \<and> ms_player (sv_slots s ! i) \<noteq> None \<and> ms_source (sv_slots s ! i) \<noteq> HXA_SRC_NONE")
  case False
  moreover have "ms_source ms \<noteq> HXA_SRC_FILE \<Longrightarrow> ms_source ms \<noteq> HXA_SRC_RING \<Longrightarrow> ms_source ms = HXA_SRC_NONE"
    for ms :: "'b music_slot" by (cases "ms_source ms") simp_all
  ultimately show ?thesis
    using rel by (auto simp: update_slot_def Let_def svc_rel_def split: option.split)
next
  case True
  let ?ms = "sv_slots s ! i"
  have rb: "reader_bounded rd" using True by simp
  have r: "sv_track_count s = n" "length (sv_slots s) = n" "mix_ok n (sv_mixer s)" "sv_ll_stream s \<le> 8192"
    "\<forall>i<n. slot_ok (sv_slots s ! i)" "slots_match n (sv_slots s) T" using rel rb by (simp_all add: svc_rel_def)
  obtain mp where mp: "ms_player ?ms = Some mp" using True by auto
  have sl: "slot_ok ?ms" "ms_in_use ?ms" using r(5) i True by simp_all
  have v: "voice_ok (ms_track ?ms) mp" using sl mp by (simp add: slot_ok_def)
  have t: "ms_track ?ms < n" using slots_matchD(1) [OF r(6) i] sl(2) by simp
  have keep: "svc_rel rd n s' T" if "sv_slots s' = (sv_slots s)[i := ms]" "sv_mixer s' = mx" "sv_track_count s' = sv_track_count s"
      "sv_ll_stream s' = sv_ll_stream s" "slot_ok ms" "ms_in_use ms = ms_in_use ?ms" "ms_track ms = ms_track ?ms" "mix_ok n mx"
    for s' ms mx
    using r that slots_match_players [OF r(6,2) that(6,7)] all_slots_update [OF r(5) that(5) r(2)] by (simp add: svc_rel_def)
  show ?thesis
  proof (cases "ms_source ?ms")
    case HXA_SRC_NONE
    then show ?thesis using True by simp
  next
    case HXA_SRC_FILE
    obtain mp1 mx1 fc1 fs1 where u: "music_update (audio_file_stream_read rd) (mp, sv_mixer s, (ms_file ?ms, sv_fs s)) =
        (mp1, mx1, (fc1, fs1))" by (metis prod_cases4)
    note w = voice_update [OF v file_stream_source [OF rb] t r(3) u]
    have e: "update_slot rd s i = (at_slot s i (?ms\<lparr>ms_player := Some mp1, ms_file := fc1\<rparr>))\<lparr>sv_mixer := mx1, sv_fs := fs1\<rparr>"
      using HXA_SRC_FILE sl(2) mp u by (simp add: update_slot_def Let_def)
    show ?thesis unfolding e
      using w sl HXA_SRC_FILE by (intro keep [of _ "?ms\<lparr>ms_player := Some mp1, ms_file := fc1\<rparr>" mx1]) (simp_all add: slot_ok_def)
  next
    case HXA_SRC_RING
    obtain mp1 mx1 ring1 where u: "music_update ring_stream_source (mp, sv_mixer s, sv_ring s) = (mp1, mx1, ring1)"
      by (metis prod_cases3)
    note w = voice_update [OF v ring.stream_source_axioms t r(3) u]
    have e: "update_slot rd s i = (at_slot s i (?ms\<lparr>ms_player := Some mp1\<rparr>))\<lparr>sv_mixer := mx1, sv_ring := ring1\<rparr>"
      using HXA_SRC_RING sl(2) mp u by (simp add: update_slot_def Let_def)
    show ?thesis unfolding e
      using w sl HXA_SRC_RING by (intro keep [of _ "?ms\<lparr>ms_player := Some mp1\<rparr>" mx1]) (simp_all add: slot_ok_def)
  qed
qed

lemma update_slots_keep:
  assumes "svc_rel rd n s T"
  shows "svc_rel rd n (foldl (update_slot rd) s [0..<sv_track_count s]) T"
proof (cases "reader_bounded rd")
  case False
  then show ?thesis by (simp add: svc_rel_def)
next
  case True
  then have "sv_track_count s = n" using assms by (simp add: svc_rel_def)
  moreover have "set is \<subseteq> {..<n} \<Longrightarrow> svc_rel rd n c T \<Longrightarrow> svc_rel rd n (foldl (update_slot rd) c is) T" for c "is"
    by (induction "is" arbitrary: c) (simp_all add: update_slot_keeps)
  moreover have "set [0..<n] \<subseteq> {..<n}" by auto
  ultimately show ?thesis using assms by metis
qed

lemma set_mixer_keeps:
  assumes "svc_rel rd n c T" and "reader_bounded rd \<Longrightarrow> mix_ok n (sv_mixer c) \<Longrightarrow> mix_ok n mx"
  shows "svc_rel rd n (c\<lparr>sv_mixer := mx\<rparr>) T"
  using assms by (simp add: svc_rel_def)

lemma reap_length: "length (aa_tracks (snd (audio_arbiter_reap sk a))) = length (aa_tracks a)"
proof -
  have "length (aa_tracks (snd (reap_from sk d ts (k, a)))) = length (aa_tracks a)" for d ts k a
  proof (induction ts arbitrary: k a)
    case (Cons t ts)
    have "length (aa_tracks (stop_track sk b t)) = length (aa_tracks b)" for b by (simp add: stop_track_def Let_def)
    then show ?case using Cons by (simp add: Let_def case_prod_beta)
  qed simp
  then show ?thesis by (simp add: audio_arbiter_reap_def split: option.split)
qed

lemma reap_held:
  assumes "arb_inv a" and "h \<noteq> 0"
  shows "held (snd (audio_arbiter_reap sk a)) h = held a h"
proof (cases "sk_is_done sk")
  case None
  then show ?thesis by (simp add: audio_arbiter_reap_def)
next
  case (Some d)
  have "\<forall>t \<in> set [0..<aa_track_count a]. t < length (aa_tracks a)" using assms(1) by (auto simp: arb_inv_def)
  from reap_from_spec [OF assms(1) this, of sk d 0] assms(2) show ?thesis by (simp add: audio_arbiter_reap_def Some)
qed

text \<open>The state after the players were pumped and the finished voices reaped.\<close>

definition before_mix :: "('f, 'h) file_reader \<Rightarrow> ('f, 'h) service \<Rightarrow> ('f, 'h) service" where
  "before_mix rd s =
     (let s1 = in_ctx (\<lambda>c. foldl (update_slot rd) c [0..<sv_track_count c]) s
      in s1\<lparr>hx_arbiter := snd (audio_arbiter_reap (svc_sink rd (aa_pool (hx_arbiter s1)) True) (hx_arbiter s1))\<rparr>)"

lemma render_eq:
  "hxa_render rd s k =
     (let s2 = before_mix rd s; mx = sv_mixer (aa_ctx (hx_arbiter s2))
      in (fst (mixer_render mx k),
          (in_ctx (\<lambda>c. c\<lparr>sv_mixer := snd (mixer_render mx k)\<rparr>) s2)
            \<lparr>hx_total_output := u64 (hx_total_output s + k),
             hx_fft := audio_fft_capture (hx_fft s) (out_frames (fst (mixer_render mx k)))\<rparr>))"
  by (simp add: hxa_render_def before_mix_def Let_def in_ctx_def case_prod_beta)

lemma before_mix_ok:
  assumes ok: "service_ok rd n s"
  shows "service_ok rd n (before_mix rd s)"
proof -
  let ?s1 = "in_ctx (\<lambda>c. foldl (update_slot rd) c [0..<sv_track_count c]) s"
  have ok1: "service_ok rd n ?s1" by (rule in_ctx_ok [OF ok update_slots_keep])
  then have l: "svc.linked rd n (hx_arbiter ?s1)" by (simp add: service_ok_def)
  show ?thesis unfolding before_mix_def Let_def
    using svc.reap_links [OF l] reap_size reap_length reap_held [OF linked_arb_inv [OF l]]
    by (intro arbiter_step_ok [OF ok1]) simp_all
qed

lemma render_ok:
  assumes ok: "service_ok rd n s"
  shows "service_ok rd n (snd (hxa_render rd s k))"
proof -
  let ?s2 = "before_mix rd s"
  let ?mx = "sv_mixer (aa_ctx (hx_arbiter ?s2))"
  have ok2: "service_ok rd n ?s2" by (rule before_mix_ok [OF ok])
  have "svc_rel rd n (aa_ctx (hx_arbiter ?s2)) (kinds (hx_arbiter ?s2))"
    using ok2 by (simp add: service_ok_def sink_contract.linked_def [OF svc.sink_contract_axioms])
  then have "svc_rel rd n ((aa_ctx (hx_arbiter ?s2))\<lparr>sv_mixer := snd (mixer_render ?mx k)\<rparr>) (kinds (hx_arbiter ?s2))"
    by (rule set_mixer_keeps) (rule mix_ok_render)
  then have "service_ok rd n (in_ctx (\<lambda>c. c\<lparr>sv_mixer := snd (mixer_render ?mx k)\<rparr>) ?s2)"
    using ok2 unfolding service_ok_def in_ctx_def
    by (simp add: sink_contract.linked_def [OF svc.sink_contract_axioms] arb_inv_ctx)
  moreover have "window_ok (audio_fft_capture (hx_fft s) fs) \<and> bands_ok (audio_fft_capture (hx_fft s) fs)" for fs
  proof -
    have w: "window_ok (hx_fft s)" "bands_ok (hx_fft s)" using ok by (simp_all add: service_ok_def)
    have "window_ok (f\<lparr>ff_since_update := x\<rparr>) = window_ok f" for f x by (simp add: window_ok_def)
    then have "window_ok (audio_fft_capture (hx_fft s) fs)"
      using captures_window(1) [OF w(1), of fs] w(1) by (simp add: audio_fft_capture_def Let_def)
    then show ?thesis using init_bands(3) [OF w(2)] by blast
  qed
  ultimately show ?thesis unfolding render_eq Let_def by (simp add: service_ok_def)
qed

section \<open>Loading\<close>

text \<open>Staging an object adds the reference of the one who loaded it, and only that.\<close>

lemma staged_held:
  assumes inv: "arb_inv a" and sz: "u32 (length data) + ap_block_size (aa_pool a) \<le> 4294967296"
    and st: "stage_pcm (aa_pool a) data rate = (h, p)" and h': "h' \<noteq> 0"
  shows "held (a\<lparr>aa_pool := p\<rparr>) h' = (if h \<noteq> 0 \<and> h' = h then 1 else held a h')"
proof -
  note m = stage_pcm_ok [OF arb_inv_pool_ok [OF inv] sz st]
  have refs: "pool_refs p h' = (if h \<noteq> 0 \<and> h' = h then 1 else pool_refs (aa_pool a) h')" for h'
    using m(2) m(5) [of h'] by (cases "h = 0") auto
  show ?thesis
  proof (cases "h' = h")
    case True
    have "0 \<le> held a h" using inv h' True by (simp add: arb_inv_def)
    then have "voices a h = 0" using m(4) h' True by (simp add: held_def)
    then show ?thesis using refs [of h] h' True by (simp add: held_def voices_def)
  next
    case False
    then show ?thesis using refs [of h'] by (simp add: held_def voices_def)
  qed
qed

lemma stage_ok:
  assumes ok: "service_ok rd n s" and st: "stage_pcm (aa_pool (hx_arbiter s)) data rate = (h, p)"
    and sz: "u32 (length data) + 8192 \<le> 4294967296"
  shows "service_ok rd n (s\<lparr>hx_arbiter := (hx_arbiter s)\<lparr>aa_pool := p\<rparr>\<rparr>)"
proof -
  let ?a = "hx_arbiter s"
  have l: "svc.linked rd n ?a" and bs: "ap_block_size (aa_pool ?a) = 8192" using ok by (simp_all add: service_ok_def)
  have inv: "arb_inv ?a" by (rule linked_arb_inv [OF l])
  have "u32 (length data) + ap_block_size (aa_pool ?a) \<le> 4294967296" using sz bs by simp
  note m = stage_pcm_ok [OF arb_inv_pool_ok [OF inv] this st]
  have held: "held (?a\<lparr>aa_pool := p\<rparr>) h' = (if h \<noteq> 0 \<and> h' = h then 1 else held ?a h')" if "h' \<noteq> 0" for h'
    using sz bs that by (intro staged_held [OF inv _ st]) simp_all
  have "0 \<le> held ?a h'" if "h' \<noteq> 0" for h' using inv that by (simp add: arb_inv_def)
  then have "arb_inv (?a\<lparr>aa_pool := p\<rparr>)" using inv m(1) held unfolding arb_inv_def by simp
  then have "svc.linked rd n (?a\<lparr>aa_pool := p\<rparr>)"
    using l by (simp add: sink_contract.linked_def [OF svc.sink_contract_axioms])
  then show ?thesis using ok held m(3) by (simp add: service_ok_def)
qed

lemma load_pcm_ok:
  assumes ok: "service_ok rd n s" and st: "hxa_load_sfx_pcm s data rate = (h, s')" and sz: "length data + 8192 \<le> 4294967296"
  shows "service_ok rd n s'"
proof (cases "length data = 0")
  case True
  then show ?thesis using st ok by (simp add: hxa_load_sfx_pcm_def)
next
  case False
  obtain p where p: "stage_pcm (aa_pool (hx_arbiter s)) data rate = (h, p)" "s' = s\<lparr>hx_arbiter := (hx_arbiter s)\<lparr>aa_pool := p\<rparr>\<rparr>"
    using st False by (auto simp: hxa_load_sfx_pcm_def split: prod.splits)
  have "u32 (length data) + 8192 \<le> 4294967296" using sz by simp
  then show ?thesis unfolding p(2) by (rule stage_ok [OF ok p(1)])
qed

lemma slurp_ctx:
  assumes "slurp_file rd first_ok grow path c = Some (buf, c')"
  shows "\<exists>fs. c' = c\<lparr>sv_fs := fs\<rparr>"
proof -
  have "c' = c \<or> (\<exists>fs. c' = c\<lparr>sv_fs := fs\<rparr>)"
    using assms by (auto simp: slurp_file_def split: if_splits option.splits prod.splits)
  moreover have "\<exists>fs. c = c\<lparr>sv_fs := fs\<rparr>" by (rule exI [of _ "sv_fs c"]) simp
  ultimately show ?thesis by blast
qed

lemma parsed_data_inside:
  assumes "wav_parse 64 buf = Some (WAV_OK, info)"
  shows "wi_data_bytes info \<le> length buf"
proof -
  obtain hf hd where w: "wav_loop 64 buf 12 (wav_info_zero, False, False) = Some (info, hf, hd)" "hd"
    using assms by (auto simp: wav_parse_def split: if_splits option.splits)
  from wav_loop_inside [OF w(1)] w(2) show ?thesis by (auto simp: data_inside_def)
qed

lemma length_mono_bytes: "length (mono_bytes ms) = 2 * length ms"
  by (induction ms) (simp_all add: mono_bytes_def)

text \<open>Loading a file either stages nothing, or the decoded samples of the file.\<close>

lemma load_wav_cases:
  assumes ld: "hxa_load_sfx_wav rd first_ok grow mono_ok s path = Some (h, s')"
    and sz: "\<forall>raw c. slurp_file rd first_ok grow path (aa_ctx (hx_arbiter s)) = Some (Some raw, c) \<longrightarrow> length raw < 2147479552"
  shows "\<exists>fs. h = 0 \<and> s' = in_ctx (\<lambda>c. c\<lparr>sv_fs := fs\<rparr>) s \<or>
      (\<exists>data rate p. length data + 8192 \<le> 4294967296 \<and> stage_pcm (aa_pool (hx_arbiter s)) data rate = (h, p) \<and>
         s' = (in_ctx (\<lambda>c. c\<lparr>sv_fs := fs\<rparr>) s)\<lparr>hx_arbiter := (hx_arbiter (in_ctx (\<lambda>c. c\<lparr>sv_fs := fs\<rparr>) s))\<lparr>aa_pool := p\<rparr>\<rparr>)"
proof -
  obtain buf c where sl: "slurp_file rd first_ok grow path (aa_ctx (hx_arbiter s)) = Some (buf, c)"
    using ld by (auto simp: hxa_load_sfx_wav_def split: option.splits)
  obtain fs where c: "c = (aa_ctx (hx_arbiter s))\<lparr>sv_fs := fs\<rparr>" using slurp_ctx [OF sl] by blast
  let ?s1 = "in_ctx (\<lambda>c. c\<lparr>sv_fs := fs\<rparr>) s"
  have e: "s\<lparr>hx_arbiter := (hx_arbiter s)\<lparr>aa_ctx := c\<rparr>\<rparr> = ?s1" by (simp add: in_ctx_def c)
  have pool: "aa_pool (hx_arbiter ?s1) = aa_pool (hx_arbiter s)" by (simp add: in_ctx_def)
  show ?thesis
  proof (cases "h = 0 \<and> s' = ?s1")
    case True
    then show ?thesis by blast
  next
    case False
    obtain raw where f: "buf = Some raw" using ld False by (auto simp: hxa_load_sfx_wav_def sl Let_def e split: option.splits)
    obtain info where i: "wav_parse 64 raw = Some (WAV_OK, info)"
      using ld False by (auto simp: hxa_load_sfx_wav_def sl f Let_def e split: option.splits prod.splits if_splits)
    define k where "k = wi_data_bytes info div (wi_channels info * (wi_bits info div 8))"
    define mono where "mono = wav_to_mono_pcm16 info k"
    obtain g p where gp: "stage_pcm (aa_pool (hx_arbiter ?s1)) (mono_bytes mono) (wi_sample_rate info) = (g, p)" by fastforce
    have "(h, s') = (0, ?s1) \<or> (h, s') = (g, ?s1\<lparr>hx_arbiter := (hx_arbiter ?s1)\<lparr>aa_pool := p\<rparr>\<rparr>)"
      using ld unfolding hxa_load_sfx_wav_def sl option.case prod.case Let_def e f i
        k_def [symmetric] mono_def [symmetric] gp by (simp split: if_splits)
    then have p: "stage_pcm (aa_pool (hx_arbiter s)) (mono_bytes mono) (wi_sample_rate info) = (h, p)"
      "s' = ?s1\<lparr>hx_arbiter := (hx_arbiter ?s1)\<lparr>aa_pool := p\<rparr>\<rparr>" using False gp pool by auto
    have "length mono \<le> k" by (simp add: mono_def wav_to_mono_pcm16_def Let_def split: option.split prod.split)
    also have "k \<le> wi_data_bytes info" by (simp add: k_def)
    also have "\<dots> \<le> length raw" by (rule parsed_data_inside [OF i])
    also have "\<dots> < 2147479552" using sz sl f by blast
    finally have "length (mono_bytes mono) + 8192 \<le> 4294967296" by (simp add: length_mono_bytes)
    then show ?thesis using p by blast
  qed
qed

lemma load_wav_ok:
  assumes ok: "service_ok rd n s" and ld: "hxa_load_sfx_wav rd first_ok grow mono_ok s path = Some (h, s')"
    and sz: "\<And>raw c. slurp_file rd first_ok grow path (aa_ctx (hx_arbiter s)) = Some (Some raw, c) \<Longrightarrow> length raw < 2147479552"
  shows "service_ok rd n s'"
proof -
  obtain fs where c: "s' = in_ctx (\<lambda>c. c\<lparr>sv_fs := fs\<rparr>) s \<or>
      (\<exists>data rate p. length data + 8192 \<le> 4294967296 \<and> stage_pcm (aa_pool (hx_arbiter s)) data rate = (h, p) \<and>
         s' = (in_ctx (\<lambda>c. c\<lparr>sv_fs := fs\<rparr>) s)\<lparr>hx_arbiter := (hx_arbiter (in_ctx (\<lambda>c. c\<lparr>sv_fs := fs\<rparr>) s))\<lparr>aa_pool := p\<rparr>\<rparr>)"
    using load_wav_cases [OF ld] sz by blast
  let ?s1 = "in_ctx (\<lambda>c. c\<lparr>sv_fs := fs\<rparr>) s"
  have s1: "service_ok rd n ?s1" by (rule in_ctx_ok [OF ok]) simp
  have "service_ok rd n (?s1\<lparr>hx_arbiter := (hx_arbiter ?s1)\<lparr>aa_pool := p\<rparr>\<rparr>)"
    if d: "length data + 8192 \<le> 4294967296" "stage_pcm (aa_pool (hx_arbiter s)) data rate = (h, p)" for data rate p
  proof -
    have "stage_pcm (aa_pool (hx_arbiter ?s1)) data rate = (h, p)" using d(2) by (simp add: in_ctx_def)
    moreover have "u32 (length data) + 8192 \<le> 4294967296" using d(1) by simp
    ultimately show ?thesis using stage_ok [OF s1, of data rate h p] by simp
  qed
  then show ?thesis using c s1 by blast
qed

end
