(* ===== verification/Service_Reach.thy ===== *)
theory Service_Reach
  imports Service_Spec
begin

text \<open>
  Creation of the service, the states that it reaches through its entry points, and the
  invariants of those states.
\<close>

section \<open>The remaining entry points\<close>

lemma feed_ok:
  assumes ok: "service_ok rd n s" and f: "hxa_feed_pcm s fs = (k, s')"
  shows "service_ok rd n s'"
proof -
  obtain r where "s' = in_ctx (\<lambda>c. c\<lparr>sv_ring := r\<rparr>) s" using f by (auto simp: hxa_feed_pcm_def split: prod.splits)
  then show ?thesis by (simp add: in_ctx_ok [OF ok])
qed

lemma flush_ok: "service_ok rd n s \<Longrightarrow> service_ok rd n (hxa_flush_pcm s)"
  unfolding hxa_flush_pcm_def by (erule in_ctx_ok) simp

lemma ctx_mixer_ok:
  assumes ok: "service_ok rd n s" and mx: "mix_ok n (sv_mixer (aa_ctx (hx_arbiter s))) \<Longrightarrow> mix_ok n m"
  shows "service_ok rd n (in_ctx (\<lambda>c. c\<lparr>sv_mixer := m\<rparr>) s)"
proof -
  have "svc_rel rd n (aa_ctx (hx_arbiter s)) (kinds (hx_arbiter s))"
    using ok by (simp add: service_ok_def sink_contract.linked_def [OF svc.sink_contract_axioms])
  then have "svc_rel rd n ((aa_ctx (hx_arbiter s))\<lparr>sv_mixer := m\<rparr>) (kinds (hx_arbiter s))"
    using mx by (rule set_mixer_keeps)
  then show ?thesis using ok unfolding service_ok_def in_ctx_def
    by (simp add: sink_contract.linked_def [OF svc.sink_contract_axioms] arb_inv_ctx)
qed

lemma observe_ok:
  assumes ok: "service_ok rd n s" and f: "hxa_observe_sync s x y = (ppm, s')"
  shows "service_ok rd n s'"
proof -
  have "s' = in_ctx (\<lambda>c. c\<lparr>sv_mixer := snd (mixer_observe_sync (sv_mixer (aa_ctx (hx_arbiter s))) x y)\<rparr>) s"
    using f by (auto simp: hxa_observe_sync_def split: prod.splits)
  then show ?thesis using ctx_mixer_ok [OF ok mix_ok_sync(1)] by simp
qed

lemma drift_ok:
  assumes "service_ok rd n s"
  shows "service_ok rd n (hxa_set_drift_ppm s ppm)"
proof -
  have "hxa_set_drift_ppm s ppm =
      in_ctx (\<lambda>c. c\<lparr>sv_mixer := mixer_set_drift_ppm (sv_mixer (aa_ctx (hx_arbiter s))) ppm\<rparr>) s"
    by (simp add: hxa_set_drift_ppm_def in_ctx_def)
  then show ?thesis using ctx_mixer_ok [OF assms mix_ok_sync(2)] by simp
qed

lemma fft_enabled_ok: "service_ok rd n s \<Longrightarrow> service_ok rd n (hxa_fft_set_enabled s on)"
  by (simp add: service_ok_def hxa_fft_set_enabled_def init_window(2) init_bands(2))

lemma fft_bands_ok:
  assumes "service_ok rd n s"
  shows "service_ok rd n (snd (hxa_fft_bands s k))"
proof -
  have "window_ok (snd (audio_fft_update f)) = window_ok f" "bands_ok (snd (audio_fft_update f)) = bands_ok f" for f
    by (simp_all add: audio_fft_update_def window_ok_def bands_ok_def Let_def)
  then show ?thesis using assms by (simp add: service_ok_def hxa_fft_bands_def Let_def)
qed

section \<open>Creation\<close>

text \<open>An allocator that gives blocks of the size asked for.\<close>

definition memory_sized :: "service_memory \<Rightarrow> bool" where
  "memory_sized mem \<longleftrightarrow> (\<forall>k r. sm_region mem k = Some r \<longrightarrow> length r = k) \<and> alloc_sized (sm_mixer mem) \<and>
     (\<forall>i a b c. sm_staging mem i = (Some a, Some b, Some c) \<longrightarrow> length a = 32768 \<and> length b = 4096 \<and> length c = 4096)"

lemma create_channels_shape:
  assumes "create_channels al sync rate (replicate k channel_config) bufs chans h = (Some (bufs', chans'), h')"
  shows "map channel_shape chans' = map channel_shape chans @ replicate k (MIXER_SRC_PCM16_STEREO, 32768)"
  using assms
proof (induction k arbitrary: bufs chans h)
  case (Suc k)
  have "channel_shape (channel_init channel_config b sync rate) = (MIXER_SRC_PCM16_STEREO, 32768)" for b
    by (simp add: channel_shape_def channel_init_def channel_config_def rb_init_def case_prod_beta Let_def)
  then show ?case
    using Suc.prems Suc.IH by (auto simp: Let_def split: option.splits prod.splits)
qed simp

lemma created_mixer_ok:
  assumes c: "mixer_create_with_sync al (replicate k channel_config) rate output_format hr (Some sy) None h = (Some m, h')"
    and "alloc_sized al" and k: "0 < k"
  shows "mix_ok k m"
proof -
  have i: "mixer_create_internal al (replicate k channel_config) rate output_format hr (Some sy) None h = (Some m, h')"
    using c by (simp add: mixer_create_with_sync_def)
  have "mixer_inv m" by (rule mixer_created_inv [OF i]) (use assms(2) in \<open>simp_all add: channel_config_def\<close>)
  moreover have "mixer_shape m = (replicate k (MIXER_SRC_PCM16_STEREO, 32768), output_format)"
  proof -
    obtain sh off lo hi where p: "compute_output_params output_format = Some (sh, off, lo, hi)"
      using i by (cases "compute_output_params output_format") (auto simp: mixer_create_internal_def Let_def)
    obtain b1 b2 b3 h3 h4 bufs chans where cc: "create_channels al True rate (replicate k channel_config) [] [] h3 = (Some (bufs, chans), h4)"
      "m = (mixer_zero b1 rate output_format hr sh off lo hi (Some sy))\<lparr>mx_channels_block := Some b2, mx_buffers_block := Some b3,
             mx_channel_buffers := bufs, mx_channels := chans\<rparr>"
      using i k by (auto simp: mixer_create_internal_def Let_def p split: if_splits option.splits prod.splits)
    then show ?thesis using create_channels_shape [OF cc(1)] by (simp add: mixer_shape_def mixer_zero_def)
  qed
  ultimately show ?thesis by (simp add: mix_ok_def)
qed

lemma stage_slots_ok:
  assumes "stage_slots m ks = Some ss"
    and "\<forall>i a b c. m i = (Some a, Some b, Some c) \<longrightarrow> length a = 32768 \<and> length b = 4096 \<and> length c = 4096"
  shows "length ss = length ks \<and> (\<forall>ms \<in> set ss. slot_ok ms \<and> \<not> ms_in_use ms)"
  using assms(1)
proof (induction ks arbitrary: ss)
  case (Cons k ks)
  obtain a b c rest where "m k = (Some a, Some b, Some c)" "stage_slots m ks = Some rest" "ss = empty_slot a b c # rest"
    using Cons.prems by (auto split: option.splits prod.splits)
  then show ?case using Cons.IH assms(2) by (auto simp: empty_slot_def slot_ok_def)
qed simp

lemma finish_create_ok:
  assumes c: "finish_create cfg mem rate k pool mx fs h = (Some s, h')" and mem: "memory_sized mem"
    and k: "0 < k" "k \<le> 16" and mx: "mix_ok k mx" and pool: "pool_ok pool" "\<And>h. pool_refs pool h = 0"
    and bs: "ap_block_size pool = 8192"
  shows "service_ok rd k s \<and> (\<forall>h. held (hx_arbiter s) h = 0)"
proof -
  let ?ctx = "\<lparr>sv_mixer = mx, sv_sample_rate = rate, sv_track_count = k, sv_slots = [], sv_ring = empty_ring,
                 sv_ring_rate = 0, sv_ll_stream = HXA_FMV_STREAM_FRAMES, sv_ll_chanfill = HXA_FMV_CHANNEL_FILL,
                 sv_pend_source = HXA_SRC_NONE, sv_pend_path = None, sv_pend_rate = 0,
                 sv_has_reader = hc_has_reader cfg, sv_fs = fs, sv_hung = False\<rparr>"
  obtain arb ss where a: "audio_arbiter_init AUDIO_ARBITER_MAX_TRACKS k pool ?ctx = Some arb"
    and ss: "stage_slots (sm_staging mem) [0..<k] = Some ss"
    and s: "s = \<lparr>hx_arbiter = arb\<lparr>aa_ctx := ?ctx\<lparr>sv_slots := ss\<rparr>\<rparr>, hx_fft = audio_fft_init rate, hx_total_output = 0\<rparr>"
    using c by (auto simp: finish_create_def Let_def split: option.splits if_splits)
  have arb: "arb = \<lparr>aa_pool = pool, aa_ctx = ?ctx, aa_tracks = replicate 16 track_zero, aa_generations = replicate 16 1,
             aa_track_count = k, aa_active_count = 0\<rparr>"
    using a k by (simp add: audio_arbiter_init_def AUDIO_ARBITER_MAX_TRACKS_def split: if_splits)
  have st: "length ss = k" "\<forall>i<k. slot_ok (ss ! i) \<and> \<not> ms_in_use (ss ! i)"
    using stage_slots_ok [OF ss] mem by (auto simp: memory_sized_def)
  have z: "\<not> tk_active track_zero" by (simp add: track_zero_def)
  let ?a = "arb\<lparr>aa_ctx := ?ctx\<lparr>sv_slots := ss\<rparr>\<rparr>"
  have "voices ?a h = 0" for h using z by (simp add: voices_def arb plays_def)
  then have held: "held ?a h = 0" for h using pool(2) by (simp add: held_def arb)
  have inv: "arb_inv ?a"
    using held pool(1) k z unfolding arb_inv_def by (simp add: arb)
  have "kinds ?a = (\<lambda>_. None)" using z by (simp add: kinds_def arb fun_eq_iff)
  then have "svc_rel rd k (aa_ctx ?a) (kinds ?a)"
    using st mx by (simp add: svc_rel_def slots_match_def HXA_FMV_STREAM_FRAMES_def)
  then have "svc.linked rd k ?a"
    using inv by (simp add: sink_contract.linked_def [OF svc.sink_contract_axioms] arb)
  then show ?thesis using held bs by (simp add: service_ok_def s arb init_window(1) init_bands(1))
qed

lemma create_ok:
  assumes c: "hxa_create cfg mem fs h = (Some s, h')" and mem: "memory_sized mem"
    and cap: "\<And>c. cfg = Some c \<Longrightarrow> hc_pool_bytes c < 4294967296"
  shows "\<exists>n. service_ok rd n s \<and> (\<forall>h. held (hx_arbiter s) h = 0)"
proof -
  define c0 where "c0 = (case cfg of None \<Rightarrow> default_config | Some c \<Rightarrow> c)"
  define rate where "rate = (if hc_sample_rate c0 \<noteq> 0 then hc_sample_rate c0 else HXA_DEFAULT_RATE)"
  define t0 where "t0 = (if hc_track_count c0 \<noteq> 0 then hc_track_count c0 else HXA_DEFAULT_TRACKS)"
  define k where "k = (if AUDIO_ARBITER_MAX_TRACKS < t0 then AUDIO_ARBITER_MAX_TRACKS else t0)"
  define pb where "pb = (if hc_pool_bytes c0 \<noteq> 0 then hc_pool_bytes c0 else HXA_DEFAULT_POOL)"
  have k: "0 < k" "k \<le> 16" by (auto simp: k_def t0_def AUDIO_ARBITER_MAX_TRACKS_def HXA_DEFAULT_TRACKS_def)
  have pb: "pb < 4294967296" using cap by (auto simp: pb_def c0_def default_config_def HXA_DEFAULT_POOL_def split: option.splits)
  note c1 = c [unfolded hxa_create_def Let_def c0_def [symmetric], folded rate_def t0_def pb_def, folded k_def]
  obtain region where r: "sm_region mem pb = Some region" using c1 by (auto split: if_splits option.splits)
  obtain x pool where p: "audio_pool_init AUDIO_POOL_BLOCK_SIZE AUDIO_POOL_MAX_OBJECTS region (sm_pool mem) = (x, Some pool)"
    using c1 r by (auto split: if_splits option.splits prod.splits)
  obtain mx h1 where m: "mixer_create_with_sync (sm_mixer mem) (replicate k channel_config) (i32 (int rate)) output_format
      (hc_headroom_bits c0) (Some (sync_config rate)) None h = (Some mx, h1)"
    and f: "finish_create c0 mem rate k pool mx fs h1 = (Some s, h')"
    using c1 r p by (auto split: if_splits option.splits prod.splits)
  have x: "x = AUDIO_POOL_OK" using p by (auto simp: audio_pool_init_def Let_def split: if_splits)
  have "length region div AUDIO_POOL_BLOCK_SIZE < NO_BLOCK"
    using r mem pb by (auto simp: memory_sized_def AUDIO_POOL_BLOCK_SIZE_def)
  note i = audio_pool_init_inv [OF p [unfolded x] _ _ this]
  have "pool_ok pool" using i(1) by (auto simp: pool_ok_def AUDIO_POOL_BLOCK_SIZE_def AUDIO_POOL_MAX_OBJECTS_def)
  moreover have "pool_refs pool h = 0" for h
    using i(3) by (simp add: pool_refs_def AUDIO_POOL_BLOCK_SIZE_def AUDIO_POOL_MAX_OBJECTS_def)
  moreover have "ap_block_size pool = 8192"
    using p by (auto simp: audio_pool_init_def Let_def AUDIO_POOL_BLOCK_SIZE_def split: if_splits)
  moreover have "mix_ok k mx" using created_mixer_ok [OF m] mem k by (simp add: memory_sized_def)
  ultimately show ?thesis using finish_create_ok [OF f mem k] by blast
qed

section \<open>Reachable services\<close>

text \<open>
  A step is one call of an entry point; the loaders are given data that a 32-bit size can describe.
\<close>

inductive svc_step :: "('f, 'h) file_reader \<Rightarrow> ('f, 'h) service \<Rightarrow> ('f, 'h) service \<Rightarrow> bool" for rd where
  load_pcm: "length data + 8192 \<le> 4294967296 \<Longrightarrow> hxa_load_sfx_pcm s data rate = (h, s') \<Longrightarrow> svc_step rd s s'"
| load_wav: "hxa_load_sfx_wav rd first_ok grow mono_ok s path = Some (h, s') \<Longrightarrow>
    (\<And>raw c. slurp_file rd first_ok grow path (aa_ctx (hx_arbiter s)) = Some (Some raw, c) \<Longrightarrow> length raw < 2147479552) \<Longrightarrow>
    svc_step rd s s'"
| trigger: "hxa_trigger_sfx rd s obj gain pan = (v, s') \<Longrightarrow> svc_step rd s s'"
| play_wav: "hxa_play_stream_wav rd alloc_ok s path = Some (v, s') \<Longrightarrow> svc_step rd s s'"
| stop_voice: "svc_step rd s (hxa_stop_voice rd s v)"
| open_pcm: "hxa_open_pcm_stream rd alloc_ok s rate gain pan = (v, s') \<Longrightarrow> svc_step rd s s'"
| feed_pcm: "hxa_feed_pcm s fs = (k, s') \<Longrightarrow> svc_step rd s s'"
| lowlat: "svc_step rd s (hxa_set_lowlat s k f)"
| flush: "svc_step rd s (hxa_flush_pcm s)"
| render: "hxa_render rd s k = (out, s') \<Longrightarrow> svc_step rd s s'"
| observe: "hxa_observe_sync s x y = (ppm, s') \<Longrightarrow> svc_step rd s s'"
| drift: "svc_step rd s (hxa_set_drift_ppm s ppm)"
| fft_enabled: "svc_step rd s (hxa_fft_set_enabled s on)"
| fft_bands: "hxa_fft_bands s k = (levels, s') \<Longrightarrow> svc_step rd s s'"

inductive svc_reach :: "('f, 'h) file_reader \<Rightarrow> ('f, 'h) service \<Rightarrow> bool" for rd where
  created: "hxa_create cfg mem fs h = (Some s, h') \<Longrightarrow> memory_sized mem \<Longrightarrow>
    (\<And>c. cfg = Some c \<Longrightarrow> hc_pool_bytes c < 4294967296) \<Longrightarrow> svc_reach rd s"
| step: "svc_reach rd s \<Longrightarrow> svc_step rd s s' \<Longrightarrow> svc_reach rd s'"

lemma svc_step_ok:
  assumes "svc_step rd s s'" and "service_ok rd n s"
  shows "service_ok rd n s'"
  using assms(1)
proof cases
  case load_wav
  then show ?thesis using load_wav_ok [OF assms(2)] by blast
next
  case render
  then show ?thesis using render_ok [OF assms(2)] by (metis snd_conv)
next
  case fft_bands
  then show ?thesis using fft_bands_ok [OF assms(2)] by (metis snd_conv)
qed (use assms(2) in \<open>blast intro: load_pcm_ok trigger_ok play_stream_ok stop_voice_ok open_pcm_ok feed_ok lowlat_ok
      flush_ok observe_ok drift_ok fft_enabled_ok\<close>)+

lemma svc_reach_ok: "svc_reach rd s \<Longrightarrow> \<exists>n. service_ok rd n s"
proof (induction rule: svc_reach.induct)
  case (created cfg mem fs h s h')
  then have "\<exists>n. service_ok rd n s \<and> (\<forall>h. held (hx_arbiter s) h = 0)" by (intro create_ok [of cfg mem fs h s h'])
  then show ?case by blast
next
  case step
  then show ?case by (blast intro: svc_step_ok)
qed

end
