(* ===== verification/Service_Sound.thy ===== *)
theory Service_Sound
  imports Service_Reach
begin

text \<open>
  A loaded sound keeps its bytes through every call of the service, and triggering it puts
  exactly those bytes in the channel of the new voice.
\<close>

section \<open>References and the bytes of objects\<close>

lemma unref_bytes:
  assumes ok: "pool_ok p" and v: "audio_pool_handle_valid (snd (snd (audio_pool_unref p g))) h"
  shows "object_bytes (snd (snd (audio_pool_unref p g))) h = object_bytes p h"
proof -
  obtain ch where inv: "pool_inv p ch" using ok by (auto simp: pool_ok_def)
  show ?thesis
  proof (cases "resolve p g")
    case None
    then show ?thesis by (simp add: audio_pool_unref_def split: option.split)
  next
    case (Some s)
    then obtain k where "unpack_handle g = Some (s, k)" by (auto simp: resolve_Some)
    then have "snd (snd (audio_pool_unref p g)) = snd (drop_ref p s)"
      using Some by (simp add: audio_pool_unref_def split: prod.split)
    then show ?thesis using drop_ref_bytes [OF inv Some] v by simp
  qed
qed

lemma ref_bytes:
  assumes ok: "pool_ok p" and lim: "pool_refs p g < 2147483647"
  shows "object_bytes (snd (audio_pool_ref p g)) h = object_bytes p h"
proof -
  obtain ch where inv: "pool_inv p ch" using ok by (auto simp: pool_ok_def)
  let ?q = "snd (audio_pool_ref p g)"
  have q: "pool_inv ?q ch" by (rule audio_pool_ref_inv [OF inv lim])
  show ?thesis
  proof (cases "resolve p g")
    case None
    then show ?thesis by (simp add: audio_pool_ref_def)
  next
    case (Some s)
    have e: "?q = add_refcount p s 1" by (simp add: audio_pool_ref_def Some)
    have s: "s < length (ap_objects p)" by (rule resolve_object(1) [OF inv Some])
    have res: "resolve ?q h = resolve p h" unfolding e add_refcount_def using s by (intro resolve_update) simp_all
    have at: "ob_size (ap_objects ?q ! t) = ob_size (ap_objects p ! t)" for t
      unfolding e using s by (cases "t = s") (simp_all add: add_refcount_def)
    have reg: "ap_region ?q = ap_region p" "ap_block_size ?q = ap_block_size p" by (simp_all add: e add_refcount_def)
    show ?thesis
    proof (cases "resolve p h")
      case None
      then show ?thesis using res by (simp add: object_bytes_def audio_pool_read_def)
    next
      case (Some t)
      then show ?thesis
        using object_bytes_chain(1) [OF q, of h t] object_bytes_chain(1) [OF inv Some] res
          chain_bytes_region [OF reg] at by simp
    qed
  qed
qed

lemma stage_keeps_bytes:
  assumes ok: "pool_ok p" and sz: "u32 (length data) + ap_block_size p \<le> 4294967296"
    and st: "stage_pcm p data rate = (h, q)" and v: "audio_pool_handle_valid p g"
  shows "object_bytes q g = object_bytes p g"
proof -
  obtain ch where inv: "pool_inv p ch" using ok by (auto simp: pool_ok_def)
  obtain t where t: "resolve p g = Some t" using v by (auto simp: audio_pool_handle_valid_def)
  obtain r h1 p1 where a: "audio_pool_alloc_with_rate p (u32 (length data)) 0 rate = (r, h1, p1)" by (metis prod_cases3)
  note al = alloc_with_rate_ok [OF ok sz a]
  show ?thesis
  proof (cases "r = AUDIO_POOL_OK")
    case False
    then show ?thesis using st a al(1) by (auto simp: stage_pcm_def)
  next
    case True
    obtain r2 p2 where a2: "audio_pool_alloc p (u32 (length data)) 0 = (r2, h1, p2)"
      using a True by (auto simp: audio_pool_alloc_with_rate_def split: prod.splits if_splits option.splits)
    have r2: "r2 = AUDIO_POOL_OK" using a a2 True by (auto simp: audio_pool_alloc_with_rate_def split: if_splits)
    note n = audio_pool_alloc_ok [OF inv sz a2 [unfolded r2]]
    obtain bs where n7: "pool_inv p2 (ch(find_free_slot p := bs))" "resolve p2 h1 = Some (find_free_slot p)" using n(7) by blast
    have s: "find_free_slot p < length (ap_objects p2)" by (rule resolve_object(1) [OF n7])
    have p1: "p1 = p2 \<or> p1 = p2\<lparr>ap_objects := (ap_objects p2)[find_free_slot p :=
        (ap_objects p2 ! find_free_slot p)\<lparr>ob_sample_rate := rate\<rparr>]\<rparr>"
      using a a2 r2 n7(2) unfolding audio_pool_alloc_with_rate_def
      by (auto simp: resolve_Some split: option.splits if_splits)
    have g: "resolve p2 g = Some t" using n(6) [OF t] by blast
    have gh: "g \<noteq> h1" using n(2) t pool_refs_resolve(1) [OF inv t] by auto
    have b1: "object_bytes p1 g = object_bytes p g" "resolve p1 g = Some t" "resolve p1 h1 = Some (find_free_slot p)"
        "pool_inv p1 (ch(find_free_slot p := bs))"
      using p1 set_rate_keeps [OF n7(1) s, of rate] g n7 alloc_keeps_bytes(2) [OF inv sz a2 [unfolded r2] t] by auto
    have "q = snd (snd (audio_pool_write p1 h1 0 (take (u32 (length data)) data)))"
      using st a True by (auto simp: stage_pcm_def)
    then show ?thesis
      using audio_pool_write_spec [OF b1(4,3), of 0 "take (u32 (length data)) data"] b1(1,2) gh by force
  qed
qed

section \<open>A sound that stays\<close>

definition sound :: "'c audio_arbiter \<Rightarrow> obj_handle \<Rightarrow> byte list \<Rightarrow> bool" where
  "sound a h b \<longleftrightarrow> h \<noteq> 0 \<and> held a h = 1 \<and> object_bytes (aa_pool a) h = b"

lemma sound_valid:
  assumes "arb_inv a" and "sound a h b"
  shows "audio_pool_handle_valid (aa_pool a) h" and "0 < pool_refs (aa_pool a) h"
proof -
  show "0 < pool_refs (aa_pool a) h" using assms(2) by (simp add: sound_def held_def)
  then show "audio_pool_handle_valid (aa_pool a) h" using prc.valid_iff [OF arb_inv_pool_ok [OF assms(1)]] by simp
qed

lemma sound_ctx [simp]: "sound (a\<lparr>aa_ctx := c\<rparr>) h b = sound a h b"
  by (simp add: sound_def held_def voices_def)

lemma held_valid:
  assumes "arb_inv a" and "held a h = 1" and "h \<noteq> 0"
  shows "audio_pool_handle_valid (aa_pool a) h"
proof -
  have "0 < pool_refs (aa_pool a) h" using assms(2) by (simp add: held_def)
  then show ?thesis using prc.valid_iff [OF arb_inv_pool_ok [OF assms(1)]] by simp
qed

lemma stop_track_sound:
  assumes inv: "arb_inv a" and t: "t < length (aa_tracks a)" and s: "sound a h b"
  shows "sound (stop_track sk a t) h b"
proof -
  have h: "h \<noteq> 0" "held a h = 1" "object_bytes (aa_pool a) h = b" using s by (simp_all add: sound_def)
  note st = stop_track_spec(1,2) [OF inv t]
  have held: "held (stop_track sk a t) h = 1" using st(2) h by simp
  have v: "audio_pool_handle_valid (aa_pool (stop_track sk a t)) h" by (rule held_valid [OF st(1) held h(1)])
  have "aa_pool (stop_track sk a t) = aa_pool a \<or>
      aa_pool (stop_track sk a t) = snd (snd (audio_pool_unref (aa_pool a) (tk_object (aa_tracks a ! t))))"
    by (simp add: stop_track_def Let_def)
  then have "object_bytes (aa_pool (stop_track sk a t)) h = b"
    using unref_bytes [OF arb_inv_pool_ok [OF inv]] v h(3) by auto
  then show ?thesis using h(1) held by (simp add: sound_def)
qed

lemma stop_sound:
  assumes inv: "arb_inv a" and s: "sound a h b"
  shows "sound (snd (audio_arbiter_stop sk a v)) h b"
proof (cases "resolve_voice a v")
  case None
  then show ?thesis using s by (simp add: audio_arbiter_stop_def split: option.split)
next
  case (Some t)
  then obtain g where g: "unpack_voice v = Some (t, g)" "t < aa_track_count a" by (auto simp: resolve_voice_Some)
  then have "t < length (aa_tracks a)" using inv by (auto simp: arb_inv_def)
  then show ?thesis using stop_track_sound [OF inv _ s] g(1) Some by (simp add: audio_arbiter_stop_def)
qed

lemma reap_from_sound:
  assumes "arb_inv a" and "\<forall>t \<in> set ts. t < length (aa_tracks a)" and "sound a h b"
  shows "sound (snd (reap_from sk d ts (k, a))) h b"
  using assms
proof (induction ts arbitrary: k a)
  case (Cons t ts)
  obtain x c where d: "d (aa_ctx a) t = (x, c)" by fastforce
  let ?a1 = "a\<lparr>aa_ctx := c\<rparr>"
  have a1: "arb_inv ?a1" "sound ?a1 h b" using Cons.prems(1,3) by (simp_all add: arb_inv_ctx)
  have t: "t < length (aa_tracks ?a1)" "\<forall>i \<in> set ts. i < length (aa_tracks ?a1)" using Cons.prems(2) by auto
  have len: "length (aa_tracks (stop_track sk ?a1 t)) = length (aa_tracks ?a1)" by (simp add: stop_track_def Let_def)
  show ?case
    using Cons.IH [of a k] Cons.IH [OF a1(1) t(2) a1(2), of k] Cons.prems(1,3) t(2)
      Cons.IH [OF stop_track_spec(1) [OF a1(1) t(1), of sk] _ stop_track_sound [OF a1(1) t(1) a1(2)], of "k + 1"] len
    by (simp add: d Let_def)
qed simp

lemma reap_sound:
  assumes inv: "arb_inv a" and s: "sound a h b"
  shows "sound (snd (audio_arbiter_reap sk a)) h b"
proof -
  have "\<forall>t \<in> set [0..<aa_track_count a]. t < length (aa_tracks a)" using inv by (auto simp: arb_inv_def)
  from reap_from_sound [OF inv this s] s show ?thesis by (simp add: audio_arbiter_reap_def split: option.split)
qed

lemma claim_pool [simp]: "aa_pool (snd (claim_track a t obj k vm)) = aa_pool a"
  by (simp add: claim_track_def Let_def)

lemma play_external_sound:
  assumes inv: "arb_inv a" and s: "sound a h b" and p: "audio_arbiter_play_external sk a params vm = (r, v, a')"
  shows "sound a' h b"
proof -
  have "aa_pool a' = aa_pool a"
    using p by (auto simp: audio_arbiter_play_external_def claim_track_def Let_def split: if_splits prod.splits)
  then show ?thesis using s audio_arbiter_play_external_spec [OF inv p] by (simp add: sound_def)
qed

lemma play_sound:
  assumes inv: "arb_inv a" and s: "sound a h b" and lim: "pool_refs (aa_pool a) object < 2147483647"
    and p: "audio_arbiter_play sk a object k params vm = (r, v, a')"
  shows "sound a' h b"
proof -
  have h: "h \<noteq> 0" "held a h = 1" "object_bytes (aa_pool a) h = b" using s by (simp_all add: sound_def)
  note sp = audio_arbiter_play_spec(1,2) [OF inv lim p]
  have held: "held a' h = 1" using sp(2) h by simp
  have v: "audio_pool_handle_valid (aa_pool a') h" by (rule held_valid [OF sp(1) held h(1)])
  note pok = arb_inv_pool_ok [OF inv]
  obtain r1 q where q: "audio_pool_ref (aa_pool a) object = (r1, q)" by fastforce
  have qok: "pool_ok q" using prc.ok_ref [OF pok lim] q by simp
  have qb: "object_bytes q h = b" using ref_bytes [OF pok lim, of h] q h(3) by simp
  have "aa_pool a' = aa_pool a \<or> aa_pool a' = q \<or> aa_pool a' = snd (snd (audio_pool_unref q object))"
    using p q by (auto simp: audio_arbiter_play_def claim_track_def Let_def split: if_splits prod.splits)
  then have "object_bytes (aa_pool a') h = b" using h(3) qb unref_bytes [OF qok] v by auto
  then show ?thesis using h(1) held by (simp add: sound_def)
qed

section \<open>References\<close>

text \<open>
  The calls but for the two that load: none of them changes the references held beside those of the
  voices.
\<close>

inductive svc_play :: "('f, 'h) file_reader \<Rightarrow> ('f, 'h) service \<Rightarrow> ('f, 'h) service \<Rightarrow> bool" for rd where
  trigger: "hxa_trigger_sfx rd s obj gain pan = (v, s') \<Longrightarrow> svc_play rd s s'"
| play_wav: "hxa_play_stream_wav rd alloc_ok s path = Some (v, s') \<Longrightarrow> svc_play rd s s'"
| stop_voice: "svc_play rd s (hxa_stop_voice rd s v)"
| open_pcm: "hxa_open_pcm_stream rd alloc_ok s rate gain pan = (v, s') \<Longrightarrow> svc_play rd s s'"
| feed_pcm: "hxa_feed_pcm s fs = (k, s') \<Longrightarrow> svc_play rd s s'"
| lowlat: "svc_play rd s (hxa_set_lowlat s k f)"
| flush: "svc_play rd s (hxa_flush_pcm s)"
| render: "hxa_render rd s k = (out, s') \<Longrightarrow> svc_play rd s s'"
| observe: "hxa_observe_sync s x y = (ppm, s') \<Longrightarrow> svc_play rd s s'"
| drift: "svc_play rd s (hxa_set_drift_ppm s ppm)"
| fft_enabled: "svc_play rd s (hxa_fft_set_enabled s on)"
| fft_bands: "hxa_fft_bands s k = (levels, s') \<Longrightarrow> svc_play rd s s'"

lemma svc_play_step: "svc_play rd s s' \<Longrightarrow> svc_step rd s s'"
  by (induction rule: svc_play.induct) (blast intro: svc_step.intros)+

abbreviation svc_held :: "('f, 'h) service \<Rightarrow> obj_handle \<Rightarrow> int" where
  "svc_held s \<equiv> held (hx_arbiter s)"

lemma held_ctx [simp]: "held (a\<lparr>aa_ctx := c\<rparr>) h = held a h"
  by (simp add: held_def voices_def)

lemma held_in_ctx [simp]: "svc_held (in_ctx f s) h = svc_held s h"
  by (simp add: in_ctx_def)

lemma external_held:
  assumes ok: "service_ok rd n s" and t: "play_external rd alloc_ok s gain pan = (v, s')" and h: "h \<noteq> 0"
  shows "svc_held s' h = svc_held s h"
proof -
  obtain sk r a where p: "audio_arbiter_play_external sk (hx_arbiter s)
      (Some \<lparr>vp_gain = gain, vp_pan = pan, vp_priority = 0, vp_loop = 0\<rparr>) 0 = (r, v, a)" "s' = s\<lparr>hx_arbiter := a\<rparr>"
    using t by (auto simp: play_external_def split: prod.splits)
  have "arb_inv (hx_arbiter s)" using ok linked_arb_inv by (auto simp: service_ok_def)
  from audio_arbiter_play_external_spec [OF this p(1)] show ?thesis using h by (simp add: p(2))
qed

lemma svc_play_held:
  assumes "svc_play rd s s'" and ok: "service_ok rd n s" and h: "h \<noteq> 0"
  shows "svc_held s' h = svc_held s h"
  using assms(1)
proof cases
  case (trigger obj gain pan v)
  obtain sk r a where p: "audio_arbiter_play sk (hx_arbiter s) obj AUDIO_VOICE_SFX
      (Some \<lparr>vp_gain = gain, vp_pan = pan, vp_priority = 0, vp_loop = 0\<rparr>) 0 = (r, v, a)" "s' = s\<lparr>hx_arbiter := a\<rparr>"
    using trigger by (auto simp: hxa_trigger_sfx_def Let_def split: prod.splits)
  have "arb_inv (hx_arbiter s)" using ok linked_arb_inv by (auto simp: service_ok_def)
  from audio_arbiter_play_spec(2) [OF this refs_small [OF ok] p(1) h] show ?thesis by (simp add: p(2))
next
  case (play_wav alloc_ok path v)
  let ?s1 = "in_ctx (\<lambda>c. c\<lparr>sv_pend_source := HXA_SRC_FILE, sv_pend_path := Some path\<rparr>) s"
  obtain v1 s2 where p: "play_external rd alloc_ok ?s1 Q15_ONE 0 = (v1, s2)" by fastforce
  have "service_ok rd n ?s1" by (rule in_ctx_ok [OF ok]) simp
  from external_held [OF this p h] show ?thesis using play_wav p by (auto simp: hxa_play_stream_wav_def Let_def split: if_splits)
next
  case (stop_voice v)
  have "arb_inv (hx_arbiter s)" using ok linked_arb_inv by (auto simp: service_ok_def)
  moreover obtain r a where a: "audio_arbiter_stop (svc_sink rd (aa_pool (hx_arbiter s)) True) (hx_arbiter s) v = (r, a)" by fastforce
  ultimately have "held a h = svc_held s h" using audio_arbiter_stop_spec(2) h by blast
  then show ?thesis unfolding stop_voice hxa_stop_voice_def a by simp
next
  case (open_pcm alloc_ok rate gain pan v)
  let ?s1 = "in_ctx (\<lambda>c. let r = (if rate \<noteq> 0 then rate else sv_sample_rate c)
                            in c\<lparr>sv_ring_rate := r, sv_pend_source := HXA_SRC_RING, sv_pend_rate := r\<rparr>) s"
  obtain v1 s2 where p: "play_external rd alloc_ok ?s1 gain pan = (v1, s2)" by fastforce
  have "service_ok rd n ?s1" by (rule in_ctx_ok [OF ok]) (simp add: Let_def)
  from external_held [OF this p h] have "svc_held s2 h = svc_held s h" by simp
  moreover have "s' = in_ctx (\<lambda>c. c\<lparr>sv_pend_source := HXA_SRC_NONE, sv_pend_rate := 0\<rparr>) s2"
    using open_pcm p by (simp add: hxa_open_pcm_stream_def)
  ultimately show ?thesis by simp
next
  case (render k out)
  let ?s1 = "in_ctx (\<lambda>c. foldl (update_slot rd) c [0..<sv_track_count c]) s"
  have "service_ok rd n ?s1" by (rule in_ctx_ok [OF ok update_slots_keep])
  then have "arb_inv (hx_arbiter ?s1)" using linked_arb_inv by (auto simp: service_ok_def)
  then have "svc_held (before_mix rd s) h = svc_held s h"
    unfolding before_mix_def Let_def by (simp add: reap_held [OF _ h])
  moreover have "svc_held s' h = svc_held (before_mix rd s) h"
    using arg_cong [OF render, of snd] unfolding render_eq Let_def snd_conv by auto
  ultimately show ?thesis by simp
qed (auto simp: hxa_feed_pcm_def hxa_set_lowlat_def hxa_flush_pcm_def hxa_observe_sync_def hxa_set_drift_ppm_def
      hxa_fft_set_enabled_def hxa_fft_bands_def Let_def split: prod.splits)

lemma load_pcm_held:
  assumes ok: "service_ok rd n s" and sz: "length data + 8192 \<le> 4294967296"
    and ld: "hxa_load_sfx_pcm s data rate = (g, s')" and h: "h \<noteq> 0"
  shows "svc_held s' h = (if g \<noteq> 0 \<and> h = g then 1 else svc_held s h)"
proof (cases "length data = 0")
  case True
  then show ?thesis using ld by (simp add: hxa_load_sfx_pcm_def)
next
  case False
  obtain p where p: "stage_pcm (aa_pool (hx_arbiter s)) data rate = (g, p)" "s' = s\<lparr>hx_arbiter := (hx_arbiter s)\<lparr>aa_pool := p\<rparr>\<rparr>"
    using ld False by (auto simp: hxa_load_sfx_pcm_def split: prod.splits)
  have "arb_inv (hx_arbiter s)" "ap_block_size (aa_pool (hx_arbiter s)) = 8192"
    using ok linked_arb_inv by (auto simp: service_ok_def)
  moreover have "u32 (length data) = length data" using sz by (intro u32_id) simp
  ultimately show ?thesis using staged_held [OF _ _ p(1) h] sz p(2) by simp
qed

lemma load_wav_held:
  assumes ok: "service_ok rd n s"
    and ld: "hxa_load_sfx_wav rd first_ok grow mono_ok s path = Some (g, s')"
    and sz: "\<And>raw c. slurp_file rd first_ok grow path (aa_ctx (hx_arbiter s)) = Some (Some raw, c) \<Longrightarrow> length raw < 2147479552"
    and h: "h \<noteq> 0"
  shows "svc_held s' h = (if g \<noteq> 0 \<and> h = g then 1 else svc_held s h)"
proof -
  obtain fs where "g = 0 \<and> s' = in_ctx (\<lambda>c. c\<lparr>sv_fs := fs\<rparr>) s \<or>
      (\<exists>data rate p. length data + 8192 \<le> 4294967296 \<and> stage_pcm (aa_pool (hx_arbiter s)) data rate = (g, p) \<and>
         s' = (in_ctx (\<lambda>c. c\<lparr>sv_fs := fs\<rparr>) s)\<lparr>hx_arbiter := (hx_arbiter (in_ctx (\<lambda>c. c\<lparr>sv_fs := fs\<rparr>) s))\<lparr>aa_pool := p\<rparr>\<rparr>)"
    using load_wav_cases [OF ld] sz by blast
  then show ?thesis
  proof (elim disjE exE conjE)
    assume "g = 0" "s' = in_ctx (\<lambda>c. c\<lparr>sv_fs := fs\<rparr>) s"
    then show ?thesis by simp
  next
    fix data rate p
    let ?s1 = "in_ctx (\<lambda>c. c\<lparr>sv_fs := fs\<rparr>) s"
    assume d: "length data + 8192 \<le> 4294967296" "stage_pcm (aa_pool (hx_arbiter s)) data rate = (g, p)"
      "s' = ?s1\<lparr>hx_arbiter := (hx_arbiter ?s1)\<lparr>aa_pool := p\<rparr>\<rparr>"
    have s1: "service_ok rd n ?s1" by (rule in_ctx_ok [OF ok]) simp
    have "arb_inv (hx_arbiter ?s1)" "ap_block_size (aa_pool (hx_arbiter ?s1)) = 8192"
      using s1 linked_arb_inv by (auto simp: service_ok_def)
    moreover have "u32 (length data) = length data" using d(1) by (intro u32_id) simp
    moreover have "stage_pcm (aa_pool (hx_arbiter ?s1)) data rate = (g, p)" using d(2) by (simp add: in_ctx_def)
    ultimately show ?thesis using staged_held [of "hx_arbiter ?s1" data rate g p h] d(1,3) h by simp
  qed
qed

text \<open>
  The histories of a service: besides its state, the set of the handles that a load has answered
  with since it was created.
\<close>

inductive svc_history :: "('f, 'h) file_reader \<Rightarrow> ('f, 'h) service \<Rightarrow> obj_handle set \<Rightarrow> bool" for rd where
  created: "hxa_create cfg mem fs h = (Some s, h') \<Longrightarrow> memory_sized mem \<Longrightarrow>
    (\<And>c. cfg = Some c \<Longrightarrow> hc_pool_bytes c < 4294967296) \<Longrightarrow> svc_history rd s {}"
| load_pcm: "svc_history rd s L \<Longrightarrow> length data + 8192 \<le> 4294967296 \<Longrightarrow> hxa_load_sfx_pcm s data rate = (h, s') \<Longrightarrow>
    svc_history rd s' (insert h L)"
| load_wav: "svc_history rd s L \<Longrightarrow> hxa_load_sfx_wav rd first_ok grow mono_ok s path = Some (h, s') \<Longrightarrow>
    (\<And>raw c. slurp_file rd first_ok grow path (aa_ctx (hx_arbiter s)) = Some (Some raw, c) \<Longrightarrow> length raw < 2147479552) \<Longrightarrow>
    svc_history rd s' (insert h L)"
| other: "svc_history rd s L \<Longrightarrow> svc_play rd s s' \<Longrightarrow> svc_history rd s' L"

lemma svc_history_held:
  assumes "svc_history rd s L"
  shows "(\<exists>n. service_ok rd n s) \<and> (\<forall>h. h \<noteq> 0 \<longrightarrow> svc_held s h = (if h \<in> L then 1 else 0))"
  using assms
proof (induction rule: svc_history.induct)
  case (created cfg mem fs h s h')
  then have "\<exists>n. service_ok rd n s \<and> (\<forall>h. held (hx_arbiter s) h = 0)" by (intro create_ok [of cfg mem fs h s h'])
  then show ?case by simp
next
  case (load_pcm s L data rate h s')
  then obtain n where ok: "service_ok rd n s" by blast
  show ?case using load_pcm_ok [OF ok load_pcm.hyps(3,2)] load_pcm_held [OF ok load_pcm.hyps(2,3)] load_pcm.IH by auto
next
  case (load_wav s L first_ok grow mono_ok path h s')
  then obtain n where ok: "service_ok rd n s" by blast
  have "service_ok rd n s'" by (rule load_wav_ok [OF ok load_wav.hyps(2)]) (rule load_wav.hyps(3))
  moreover have "svc_held s' h' = (if h \<noteq> 0 \<and> h' = h then 1 else svc_held s h')" if "h' \<noteq> 0" for h'
    by (rule load_wav_held [OF ok load_wav.hyps(2) _ that]) (rule load_wav.hyps(3))
  ultimately show ?case using load_wav.IH by auto
next
  case (other s L s')
  then obtain n where ok: "service_ok rd n s" by blast
  show ?case using svc_step_ok [OF svc_play_step [OF other.hyps(2)] ok] svc_play_held [OF other.hyps(2) ok] other.IH by auto
qed

text \<open>Every reachable service has a history.\<close>

lemma svc_reach_history: "svc_reach rd s \<Longrightarrow> \<exists>L. svc_history rd s L"
proof (induction rule: svc_reach.induct)
  case created
  then show ?case by (blast intro: svc_history.created)
next
  case (step s s')
  then obtain L where L: "svc_history rd s L" by blast
  from step.hyps(2) show ?case
    by cases (blast intro: svc_history.intros svc_play.intros L)+
qed

section \<open>Every entry point keeps it\<close>

abbreviation svc_sound :: "('f, 'h) service \<Rightarrow> obj_handle \<Rightarrow> byte list \<Rightarrow> bool" where
  "svc_sound s \<equiv> sound (hx_arbiter s)"

lemma sound_in_ctx [simp]: "svc_sound (in_ctx f s) h b = svc_sound s h b"
  by (simp add: in_ctx_def)

lemma stage_sound:
  assumes inv: "arb_inv a" and s: "sound a h b" and sz: "u32 (length data) + ap_block_size (aa_pool a) \<le> 4294967296"
    and st: "stage_pcm (aa_pool a) data rate = (g, p)"
  shows "sound (a\<lparr>aa_pool := p\<rparr>) h b"
proof -
  note pok = arb_inv_pool_ok [OF inv]
  note m = stage_pcm_ok [OF pok sz st]
  have v: "audio_pool_handle_valid (aa_pool a) h" "0 < pool_refs (aa_pool a) h" by (rule sound_valid [OF inv s])+
  have "pool_refs p h = pool_refs (aa_pool a) h"
  proof (cases "g = 0")
    case True
    then show ?thesis using m(2) by simp
  next
    case False
    then show ?thesis using m(4) m(5) [of h] v(2) by auto
  qed
  then show ?thesis using s stage_keeps_bytes [OF pok sz st v(1)] by (simp add: sound_def held_def voices_def)
qed

lemma load_pcm_sound:
  assumes ok: "service_ok rd n s" and s: "svc_sound s h b" and sz: "length data + 8192 \<le> 4294967296"
    and ld: "hxa_load_sfx_pcm s data rate = (g, s')"
  shows "svc_sound s' h b"
proof (cases "length data = 0")
  case True
  then show ?thesis using ld s by (simp add: hxa_load_sfx_pcm_def)
next
  case False
  obtain p where p: "stage_pcm (aa_pool (hx_arbiter s)) data rate = (g, p)" "s' = s\<lparr>hx_arbiter := (hx_arbiter s)\<lparr>aa_pool := p\<rparr>\<rparr>"
    using ld False by (auto simp: hxa_load_sfx_pcm_def split: prod.splits)
  have "arb_inv (hx_arbiter s)" "ap_block_size (aa_pool (hx_arbiter s)) = 8192"
    using ok linked_arb_inv by (auto simp: service_ok_def)
  moreover have "u32 (length data) = length data" using sz by (intro u32_id) simp
  ultimately show ?thesis using stage_sound [OF _ s _ p(1)] sz p(2) by simp
qed

lemma load_wav_sound:
  assumes ok: "service_ok rd n s" and s: "svc_sound s h b"
    and ld: "hxa_load_sfx_wav rd first_ok grow mono_ok s path = Some (g, s')"
    and sz: "\<And>raw c. slurp_file rd first_ok grow path (aa_ctx (hx_arbiter s)) = Some (Some raw, c) \<Longrightarrow> length raw < 2147479552"
  shows "svc_sound s' h b"
proof -
  obtain fs where "s' = in_ctx (\<lambda>c. c\<lparr>sv_fs := fs\<rparr>) s \<or>
      (\<exists>data rate p. length data + 8192 \<le> 4294967296 \<and> stage_pcm (aa_pool (hx_arbiter s)) data rate = (g, p) \<and>
         s' = (in_ctx (\<lambda>c. c\<lparr>sv_fs := fs\<rparr>) s)\<lparr>hx_arbiter := (hx_arbiter (in_ctx (\<lambda>c. c\<lparr>sv_fs := fs\<rparr>) s))\<lparr>aa_pool := p\<rparr>\<rparr>)"
    using load_wav_cases [OF ld] sz by blast
  then show ?thesis
  proof (elim disjE exE conjE)
    assume "s' = in_ctx (\<lambda>c. c\<lparr>sv_fs := fs\<rparr>) s"
    then show ?thesis using s by simp
  next
    fix data rate p
    let ?s1 = "in_ctx (\<lambda>c. c\<lparr>sv_fs := fs\<rparr>) s"
    assume d: "length data + 8192 \<le> 4294967296" "stage_pcm (aa_pool (hx_arbiter s)) data rate = (g, p)"
      "s' = ?s1\<lparr>hx_arbiter := (hx_arbiter ?s1)\<lparr>aa_pool := p\<rparr>\<rparr>"
    have s1: "service_ok rd n ?s1" by (rule in_ctx_ok [OF ok]) simp
    have "arb_inv (hx_arbiter ?s1)" "ap_block_size (aa_pool (hx_arbiter ?s1)) = 8192"
      using s1 linked_arb_inv by (auto simp: service_ok_def)
    moreover have "u32 (length data) = length data" using d(1) by (intro u32_id) simp
    moreover have "stage_pcm (aa_pool (hx_arbiter ?s1)) data rate = (g, p)" using d(2) by (simp add: in_ctx_def)
    moreover have "svc_sound ?s1 h b" using s by simp
    ultimately show ?thesis using stage_sound [of "hx_arbiter ?s1" h b data rate g p] d(1,3) by simp
  qed
qed

lemma trigger_sound:
  assumes ok: "service_ok rd n s" and s: "svc_sound s h b" and t: "hxa_trigger_sfx rd s obj gain pan = (v, s')"
  shows "svc_sound s' h b"
proof -
  obtain sk r a where p: "audio_arbiter_play sk (hx_arbiter s) obj AUDIO_VOICE_SFX
      (Some \<lparr>vp_gain = gain, vp_pan = pan, vp_priority = 0, vp_loop = 0\<rparr>) 0 = (r, v, a)" "s' = s\<lparr>hx_arbiter := a\<rparr>"
    using t by (auto simp: hxa_trigger_sfx_def Let_def split: prod.splits)
  have "arb_inv (hx_arbiter s)" using ok linked_arb_inv by (auto simp: service_ok_def)
  from play_sound [OF this s refs_small [OF ok] p(1)] show ?thesis by (simp add: p(2))
qed

lemma external_sound:
  assumes ok: "service_ok rd n s" and s: "svc_sound s h b" and t: "play_external rd alloc_ok s gain pan = (v, s')"
  shows "svc_sound s' h b"
proof -
  obtain sk r a where p: "audio_arbiter_play_external sk (hx_arbiter s)
      (Some \<lparr>vp_gain = gain, vp_pan = pan, vp_priority = 0, vp_loop = 0\<rparr>) 0 = (r, v, a)" "s' = s\<lparr>hx_arbiter := a\<rparr>"
    using t by (auto simp: play_external_def split: prod.splits)
  have "arb_inv (hx_arbiter s)" using ok linked_arb_inv by (auto simp: service_ok_def)
  from play_external_sound [OF this s p(1)] show ?thesis by (simp add: p(2))
qed

lemma stream_sound:
  assumes ok: "service_ok rd n s" and s: "svc_sound s h b"
  shows "hxa_play_stream_wav rd alloc_ok s path = Some (v, s') \<Longrightarrow> svc_sound s' h b"
    and "hxa_open_pcm_stream rd alloc_ok s rate gain pan = (v, s') \<Longrightarrow> svc_sound s' h b"
proof -
  assume t: "hxa_play_stream_wav rd alloc_ok s path = Some (v, s')"
  let ?s1 = "in_ctx (\<lambda>c. c\<lparr>sv_pend_source := HXA_SRC_FILE, sv_pend_path := Some path\<rparr>) s"
  obtain v1 s2 where p: "play_external rd alloc_ok ?s1 Q15_ONE 0 = (v1, s2)" by fastforce
  have "service_ok rd n ?s1" by (rule in_ctx_ok [OF ok]) simp
  from external_sound [OF this _ p] s have "svc_sound s2 h b" by simp
  then show "svc_sound s' h b" using t p by (auto simp: hxa_play_stream_wav_def Let_def split: if_splits)
next
  assume t: "hxa_open_pcm_stream rd alloc_ok s rate gain pan = (v, s')"
  let ?s1 = "in_ctx (\<lambda>c. let r = (if rate \<noteq> 0 then rate else sv_sample_rate c)
                            in c\<lparr>sv_ring_rate := r, sv_pend_source := HXA_SRC_RING, sv_pend_rate := r\<rparr>) s"
  obtain v1 s2 where p: "play_external rd alloc_ok ?s1 gain pan = (v1, s2)" by fastforce
  have "service_ok rd n ?s1" by (rule in_ctx_ok [OF ok]) (simp add: Let_def)
  from external_sound [OF this _ p] s have "svc_sound s2 h b" by simp
  moreover have "s' = in_ctx (\<lambda>c. c\<lparr>sv_pend_source := HXA_SRC_NONE, sv_pend_rate := 0\<rparr>) s2"
    using t p by (simp add: hxa_open_pcm_stream_def)
  ultimately show "svc_sound s' h b" by simp
qed

lemma render_sound:
  assumes ok: "service_ok rd n s" and s: "svc_sound s h b"
  shows "svc_sound (snd (hxa_render rd s k)) h b"
proof -
  let ?s1 = "in_ctx (\<lambda>c. foldl (update_slot rd) c [0..<sv_track_count c]) s"
  have "service_ok rd n ?s1" by (rule in_ctx_ok [OF ok update_slots_keep])
  then have "arb_inv (hx_arbiter ?s1)" using linked_arb_inv by (auto simp: service_ok_def)
  moreover have "svc_sound ?s1 h b" using s by simp
  ultimately have "svc_sound (before_mix rd s) h b" by (simp add: before_mix_def Let_def reap_sound)
  then show ?thesis unfolding render_eq Let_def snd_conv by simp
qed

lemma svc_step_sound:
  assumes "svc_step rd s s'" and ok: "service_ok rd n s" and s: "svc_sound s h b"
  shows "svc_sound s' h b"
  using assms(1)
proof cases
  case load_pcm
  then show ?thesis using load_pcm_sound [OF ok s] by blast
next
  case load_wav
  then show ?thesis using load_wav_sound [OF ok s] by blast
next
  case trigger
  then show ?thesis using trigger_sound [OF ok s] by blast
next
  case play_wav
  then show ?thesis using stream_sound(1) [OF ok s] by blast
next
  case (stop_voice v)
  have "arb_inv (hx_arbiter s)" using ok linked_arb_inv by (auto simp: service_ok_def)
  then show ?thesis using stop_sound [OF _ s] by (simp add: stop_voice hxa_stop_voice_def)
next
  case open_pcm
  then show ?thesis using stream_sound(2) [OF ok s] by blast
next
  case render
  then show ?thesis using render_sound [OF ok s] by (metis snd_conv)
qed (use s in \<open>auto simp: hxa_feed_pcm_def hxa_set_lowlat_def hxa_flush_pcm_def hxa_observe_sync_def hxa_set_drift_ppm_def
      hxa_fft_set_enabled_def hxa_fft_bands_def Let_def split: prod.splits\<close>)

lemma svc_steps_sound:
  assumes "(svc_step rd)\<^sup>*\<^sup>* s s'" and "service_ok rd n s" and "svc_sound s h b"
  shows "service_ok rd n s' \<and> svc_sound s' h b"
  using assms by (induction rule: rtranclp_induct) (blast intro: svc_step_ok svc_step_sound)+

end
