(* ===== verification/Service_Props.thy ===== *)
theory Service_Props
  imports Service_Sound
begin

text \<open>
  What a started sound effect leaves in the mixer, the streams that cannot start, and the examples
  of the service.
\<close>

section \<open>Starting a sound effect\<close>

lemma reset_holds_nothing:
  assumes "mix_ok n m" and "t < n"
  shows "holds_frames (mixer_channel_reset m t) t []"
proof -
  have ok: "mix_ok n (mixer_channel_reset m t)" using assms(1) by (rule mix_ok_control)
  then have "mixer_inv (mixer_channel_reset m t)" by (simp add: mix_ok_def)
  moreover have "channel_items (mixer_channel_reset m t) t = []"
    using mix_ok_channels(1) [OF assms(1)] assms(2) by (simp add: channel_items_def mixer_channel_reset_def at_channel_def)
  ultimately show ?thesis
    using mix_ok_channels(1-3) [OF ok] assms(2)
    by (simp add: holds_frames_def channel_ready_def channel_cap_def newest_def source_bytes_per_frame_def)
qed

lemma start_channel_items: "channel_items (mixer_channel_start m t) t = channel_items m t"
  by (cases "t < length (mx_channels m)") (simp_all add: channel_items_def mixer_channel_start_def at_channel_def)

lemma start_sfx_items:
  assumes mx: "mix_ok n (sv_mixer c)" and t: "t < n" and p: "pool_ok p" "audio_pool_handle_valid p h"
    and ev: "even (audio_pool_object_size p h)" and st: "start_sfx p c t h q = (True, c')"
  shows "channel_items (sv_mixer c') t = newest 32768 (sfx_frames (object_bytes p h))"
proof -
  let ?sz = "audio_pool_object_size p h"
  obtain ch where inv: "pool_inv p ch" using p(1) by (auto simp: pool_ok_def)
  obtain s where s: "resolve p h = Some s" using p(2) by (auto simp: audio_pool_handle_valid_def)
  let ?m = "mixer_set_source_rate (mixer_set_pan (mixer_set_volume (sv_mixer c) t (i16 (vp_gain q))) t (i16 (vp_pan q))) t
    (audio_pool_object_sample_rate p h)"
  have "mix_ok n ?m" using mx by (simp add: mix_ok_control)
  from feed_object_frames [OF inv s refl ev reset_holds_nothing [OF this t], of 0]
  have "holds_frames (feed_object p h t ?sz 0 (mixer_channel_reset ?m t)) t (map (both_sides (object_bytes p h)) [0..<?sz div 2])"
    by simp
  moreover have "c' = c\<lparr>sv_mixer := mixer_channel_start (feed_object p h t ?sz 0 (mixer_channel_reset ?m t)) t\<rparr>"
    using st by (auto simp: start_sfx_def Let_def split: if_splits)
  ultimately show ?thesis
    using object_bytes_chain(2) [OF inv s] by (simp add: holds_frames_def sfx_frames_def start_channel_items)
qed

lemma trigger_items:
  assumes ok: "service_ok rd n s" and rb: "reader_bounded rd" and t: "hxa_trigger_sfx rd s h gain pan = (v, s')" and v: "v \<noteq> 0"
    and ev: "even (length (object_bytes (aa_pool (hx_arbiter s)) h))"
  shows "\<exists>t. resolve_voice (hx_arbiter s') v = Some t \<and>
    channel_items (sv_mixer (aa_ctx (hx_arbiter s'))) t = newest 32768 (sfx_frames (object_bytes (aa_pool (hx_arbiter s)) h))"
proof -
  let ?a = "hx_arbiter s" and ?prm = "\<lparr>vp_gain = gain, vp_pan = pan, vp_priority = 0, vp_loop = 0\<rparr>"
  let ?t = "find_free_track (hx_arbiter s)"
  obtain r1 p where p: "audio_pool_ref (aa_pool ?a) h = (r1, p)" by fastforce
  obtain b c where st: "svc_sink_start rd p True (aa_ctx ?a) ?t AUDIO_VOICE_SFX h ?prm = (b, c)" by fastforce
  obtain r a where pl: "audio_arbiter_play (svc_sink rd p True) ?a h AUDIO_VOICE_SFX (Some ?prm) 0 = (r, v, a)" "s' = s\<lparr>hx_arbiter := a\<rparr>"
    using t p by (auto simp: hxa_trigger_sfx_def Let_def split: prod.splits)
  have go: "audio_pool_handle_valid (aa_pool ?a) h" "?t < aa_track_count ?a" "b"
    and cl: "claim_track (?a\<lparr>aa_pool := p, aa_ctx := c\<rparr>) ?t h AUDIO_VOICE_SFX 0 = (v, a)"
    using pl(1) p st v by (auto simp: audio_arbiter_play_def svc_sink_def Let_def split: if_splits prod.splits)
  have l: "svc.linked rd n ?a" using ok by (simp add: service_ok_def)
  note inv = linked_arb_inv [OF l]
  have n: "aa_track_count ?a = n" "svc_rel rd n (aa_ctx ?a) (kinds ?a)"
    using l by (simp_all add: sink_contract.linked_def [OF svc.sink_contract_axioms])
  have mx: "mix_ok n (sv_mixer (aa_ctx ?a))" using n(2) rb by (simp add: svc_rel_def)
  note pok = arb_inv_pool_ok [OF inv] and lim = refs_small [OF ok, of h]
  have pp: "pool_ok p" "audio_pool_handle_valid p h" "object_bytes p h = object_bytes (aa_pool ?a) h"
    using prc.ok_ref [OF pok lim] prc.ref_keeps_valid [OF pok go(1) lim go(1)] ref_bytes [OF pok lim, of h] p by simp_all
  obtain ch x where "pool_inv p ch" "resolve p h = Some x" using pp by (auto simp: pool_ok_def audio_pool_handle_valid_def)
  then have ev': "even (audio_pool_object_size p h)" using object_bytes_chain(2) pp(3) ev by metis
  have "start_sfx p (aa_ctx ?a) ?t h ?prm = (True, c)" using st go(3) by (simp add: svc_sink_start_def)
  from start_sfx_items [OF mx _ pp(1,2) ev' this] go(2) n(1)
  have items: "channel_items (sv_mixer c) ?t = newest 32768 (sfx_frames (object_bytes (aa_pool ?a) h))" by (simp add: pp(3))
  have t: "?t < length (aa_tracks ?a)" "?t < 65535" using inv go(2) by (auto simp: arb_inv_def)
  have "resolve_voice a v = Some ?t"
    using cl t go(2) by (auto simp: claim_track_def Let_def resolve_voice_Some pack_voice_eq unpack_voice_eq unpack_pack)
  moreover have "aa_ctx a = c" using cl by (auto simp: claim_track_def Let_def)
  ultimately show ?thesis using items pl(2) by auto
qed

lemma loaded_sound:
  assumes ok: "service_ok rd n s" and ld: "hxa_load_sfx_pcm s data rate = (h, s')" and h: "h \<noteq> 0"
    and sz: "length data + 8192 \<le> 4294967296"
  shows "svc_sound s' h data"
proof -
  let ?a = "hx_arbiter s"
  have l: "arb_inv ?a" "ap_block_size (aa_pool ?a) = 8192" using ok linked_arb_inv by (auto simp: service_ok_def)
  have u: "u32 (length data) = length data" using sz by (intro u32_id) simp
  obtain p where p: "stage_pcm (aa_pool ?a) data rate = (h, p)" "s' = s\<lparr>hx_arbiter := ?a\<lparr>aa_pool := p\<rparr>\<rparr>"
    using ld h by (auto simp: hxa_load_sfx_pcm_def split: prod.splits if_splits)
  have "u32 (length data) + ap_block_size (aa_pool ?a) \<le> 4294967296" using sz u l(2) by simp
  note m = stage_pcm_ok [OF arb_inv_pool_ok [OF l(1)] this p(1)]
  have "0 \<le> held ?a h" using l(1) h by (simp add: arb_inv_def)
  then have "voices ?a h = 0" using m(4) [OF h] by (simp add: held_def)
  then show ?thesis using m(5) [OF h, of h] m(6) [OF h] h p(2) u by (simp add: sound_def held_def voices_def)
qed

text \<open>
  C1: A sound that was loaded plays as it was loaded: after any calls of the service, triggering
  its handle gives a voice whose mixer channel holds, in order and on both sides, exactly the mono
  samples that were loaded - or the newest 32768 of them, since a channel holds no more.
\<close>

theorem loaded_sfx_plays:
  assumes "svc_reach rd s" and "reader_bounded rd" and "even (length data)" and "length data + 8192 \<le> 4294967296"
    and "hxa_load_sfx_pcm s data rate = (h, s1)" and "h \<noteq> 0" and "(svc_step rd)\<^sup>*\<^sup>* s1 s2"
    and "hxa_trigger_sfx rd s2 h gain pan = (v, s3)" and "v \<noteq> 0"
  shows "\<exists>t. resolve_voice (hx_arbiter s3) v = Some t \<and>
    channel_items (sv_mixer (aa_ctx (hx_arbiter s3))) t = newest 32768 (sfx_frames data)"
proof -
  obtain n where ok: "service_ok rd n s" using svc_reach_ok [OF assms(1)] by blast
  have s2: "service_ok rd n s2" "svc_sound s2 h data"
    using svc_steps_sound [OF assms(7) load_pcm_ok [OF ok assms(5,4)] loaded_sound [OF ok assms(5,6,4)]] by simp_all
  then show ?thesis using trigger_items [OF s2(1) assms(2,8,9)] assms(3) by (simp add: sound_def)
qed

section \<open>Streams that cannot start\<close>

lemma short_ring_fails:
  assumes "sv_ll_stream c < 1024"
  shows "fst (start_ring alloc_ok c i t p) = False"
proof -
  have "\<not> validate_config (voice_config c t False True)"
    using assms by (simp add: validate_config_def voice_config_def HXA_MUSIC_HEAD_FRAMES_def)
  then have "fst (start_music c ms t f u False p True alloc_ok) = False" for ms and f :: "'u stream_fn" and u
    by (simp add: start_music_def Let_def music_create_with_allocator_def)
  then show ?thesis by (simp add: start_ring_def Let_def case_prod_beta)
qed

text \<open>
  A low-latency stream depth of 1 to 1023 frames is accepted and stored, but with it no push
  stream can be opened: the pinned head of 1024 frames does not fit the staging buffer, the
  player is refused, and the call answers with the null voice.
\<close>

theorem lowlat_below_head_rejects:
  assumes "0 < k" and "k < 1024"
  shows "fst (hxa_open_pcm_stream rd alloc_ok (hxa_set_lowlat s k fill) rate gain pan) = 0"
proof -
  define s1 where "s1 = in_ctx (\<lambda>c. let r = (if rate \<noteq> 0 then rate else sv_sample_rate c)
                            in c\<lparr>sv_ring_rate := r, sv_pend_source := HXA_SRC_RING, sv_pend_rate := r\<rparr>) (hxa_set_lowlat s k fill)"
  have c: "sv_ll_stream (aa_ctx (hx_arbiter s1)) < 1024" "sv_pend_source (aa_ctx (hx_arbiter s1)) = HXA_SRC_RING"
    using assms by (simp_all add: s1_def hxa_set_lowlat_def in_ctx_def Let_def HXA_MUSIC_STREAM_FRAMES_def)
  have "fst (svc_sink_start rd q alloc_ok (aa_ctx (hx_arbiter s1)) t AUDIO_VOICE_MUSIC 0 p) = False" for q t p
    using short_ring_fails [OF c(1)] c(2) by (simp add: svc_sink_start_def split: option.split)
  then have "fst (play_external rd alloc_ok s1 gain pan) = 0"
    by (simp add: play_external_def audio_arbiter_play_external_def svc_sink_def Let_def case_prod_beta)
  then show ?thesis by (simp add: hxa_open_pcm_stream_def s1_def case_prod_beta)
qed

section \<open>Voices, slots and references\<close>

text \<open>A slot whose player is well-formed, has a source, and writes to the channel of track \<open>t\<close>.\<close>

definition drives :: "('f, 'h) service_ctx \<Rightarrow> nat \<Rightarrow> nat \<Rightarrow> bool" where
  "drives c i t \<longleftrightarrow> i < sv_track_count c \<and> ms_in_use (sv_slots c ! i) \<and> ms_track (sv_slots c ! i) = t \<and>
     ms_source (sv_slots c ! i) \<noteq> HXA_SRC_NONE \<and>
     (\<exists>mp. ms_player (sv_slots c ! i) = Some mp \<and> music_inv mp \<and> mc_mixer_channel (mp_cfg mp) = t)"

text \<open>
  C2: In every state that the service reaches, with a reader that keeps to the sizes asked for, a
  track of the arbiter plays music exactly when one slot is in use for it, and that slot is unique
  and holds a well-formed player with a source on the mixer channel of the track.
\<close>

theorem service_voices_have_players:
  assumes "svc_reach rd s" and "reader_bounded rd" and "t < aa_track_count (hx_arbiter s)"
  shows "kinds (hx_arbiter s) t = Some AUDIO_VOICE_MUSIC \<longleftrightarrow> (\<exists>!i. drives (aa_ctx (hx_arbiter s)) i t)"
proof -
  obtain n where ok: "service_ok rd n s" using svc_reach_ok [OF assms(1)] by blast
  let ?c = "aa_ctx (hx_arbiter s)" and ?T = "kinds (hx_arbiter s)"
  have n: "aa_track_count (hx_arbiter s) = n" and rel: "svc_rel rd n ?c ?T"
    using ok by (simp_all add: service_ok_def sink_contract.linked_def [OF svc.sink_contract_axioms])
  have r: "sv_track_count ?c = n" "\<forall>i<n. slot_ok (sv_slots ?c ! i)" "slots_match n (sv_slots ?c) ?T"
    using rel assms(2) by (simp_all add: svc_rel_def)
  have d: "drives ?c i t \<longleftrightarrow> i < n \<and> ms_in_use (sv_slots ?c ! i) \<and> ms_track (sv_slots ?c ! i) = t" for i
    using r(1,2) by (auto simp: drives_def slot_ok_def voice_ok_def voice_cfg_def)
  show ?thesis
  proof
    assume "?T t = Some AUDIO_VOICE_MUSIC"
    then obtain i where "drives ?c i t" using slots_matchD(3) [OF r(3), of t] assms(3) n d by auto
    moreover have "j = i" if "drives ?c j t" "drives ?c i t" for i j
      using slots_matchD(2) [OF r(3), of j i] that d by simp
    ultimately show "\<exists>!i. drives ?c i t" by blast
  next
    assume "\<exists>!i. drives ?c i t"
    then obtain i where "drives ?c i t" by blast
    then show "?T t = Some AUDIO_VOICE_MUSIC" using slots_matchD(1) [OF r(3), of i] d by auto
  qed
qed

text \<open>
  C3: References balance: in every state of the service, whatever was called since it was created,
  the reference count of a handle is the number of voices that play it, plus one exactly when a
  load answered with it; so no voice plays a freed object and no reference leaks.
\<close>

theorem service_references_balance:
  assumes "svc_history rd s L" and "h \<noteq> 0"
  shows "pool_refs (aa_pool (hx_arbiter s)) h = int (voices (hx_arbiter s) h) + (if h \<in> L then 1 else 0)"
  using svc_history_held [OF assms(1)] assms(2) by (auto simp: held_def algebra_simps)

section \<open>A small service\<close>

text \<open>One track, two blocks of sound memory, and a reader that has no files: the inputs of the examples.\<close>

definition quiet_reader :: "(unit, unit) file_reader" where
  "quiet_reader = \<lparr>rd_open = \<lambda>f p. (None, f), rd_read = \<lambda>f h n. ([], f), rd_seek = \<lambda>f h n. (False, f), rd_close = \<lambda>f h. f\<rparr>"

definition small_config :: hxa_config where
  "small_config = \<lparr>hc_sample_rate = 44100, hc_track_count = 1, hc_pool_bytes = 16384, hc_headroom_bits = 0, hc_has_reader = False\<rparr>"

definition small_memory :: service_memory where
  "small_memory = \<lparr>sm_struct = True, sm_region = \<lambda>k. Some (replicate k 0), sm_pool = True, sm_configs = True,
     sm_mixer = \<lambda>n r. (case r of Sample_Buffer k \<Rightarrow> Some (replicate k 0) | _ \<Rightarrow> Some []), sm_slots = True,
     sm_staging = \<lambda>i. (Some (replicate 32768 0), Some (replicate 4096 0), Some (replicate 4096 0))\<rparr>"

definition no_blocks :: mixer_heap where "no_blocks = \<lparr>mh_next = 0, mh_live = [], mh_bad_free = False\<rparr>"

definition small_service :: "(unit, unit) service" where
  "small_service = the (fst (hxa_create (Some small_config) small_memory () no_blocks))"

lemma quiet_bounded: "reader_bounded quiet_reader"
  by (simp add: reader_bounded_def quiet_reader_def)

lemma small_memory_sized: "memory_sized small_memory"
  by (auto simp: memory_sized_def small_memory_def alloc_sized_def)

lemma small_sel:
  "hc_sample_rate small_config = 44100" "hc_track_count small_config = 1" "hc_pool_bytes small_config = 16384"
  "hc_headroom_bits small_config = 0" "hc_has_reader small_config = False"
  "sm_struct small_memory" "sm_region small_memory k = Some (replicate k 0)" "sm_pool small_memory" "sm_configs small_memory"
  "sm_slots small_memory" "sm_staging small_memory i = (Some (replicate 32768 0), Some (replicate 4096 0), Some (replicate 4096 0))"
  "sm_mixer small_memory j (Sample_Buffer k) = Some (replicate k 0)" "sm_mixer small_memory j Mixer_Struct = Some []"
  "sm_mixer small_memory j (Channel_Array k) = Some []" "sm_mixer small_memory j (Buffer_Array k) = Some []"
  by (simp_all add: small_config_def small_memory_def)

lemma small_mixer:
  "\<exists>mx h1. mixer_create_with_sync (sm_mixer small_memory) [channel_config] (i32 44100) output_format 0
      (Some (sync_config 44100)) None no_blocks = (Some mx, h1)"
proof -
  obtain sh off lo hi where x: "compute_output_params output_format = Some (sh, off, lo, hi)"
    by (simp add: compute_output_params_def output_format_def Let_def)
  show ?thesis
    by (simp add: mixer_create_with_sync_def mixer_create_internal_def heap_alloc_def Let_def small_sel x
        sync_config_def cdiv_def Q15_ONE_def)
qed

lemma small_created:
  "\<exists>pool (c :: (unit, unit) service_ctx) h'. audio_pool_init AUDIO_POOL_BLOCK_SIZE AUDIO_POOL_MAX_OBJECTS (replicate 16384 0) True = (AUDIO_POOL_OK, Some pool) \<and>
     sv_ll_stream c = 2048 \<and> slot_free c = Some 0 \<and>
     hxa_create (Some small_config) small_memory () no_blocks =
       (Some \<lparr>hx_arbiter = \<lparr>aa_pool = pool, aa_ctx = c, aa_tracks = replicate 16 track_zero, aa_generations = replicate 16 1,
           aa_track_count = 1, aa_active_count = 0\<rparr>, hx_fft = audio_fft_init 44100, hx_total_output = 0\<rparr>, h')"
proof -
  obtain pool where p: "audio_pool_init AUDIO_POOL_BLOCK_SIZE AUDIO_POOL_MAX_OBJECTS (replicate 16384 0) True = (AUDIO_POOL_OK, Some pool)"
    by (simp add: audio_pool_init_def Let_def AUDIO_POOL_BLOCK_SIZE_def)
  obtain mx h1 where m: "mixer_create_with_sync (sm_mixer small_memory) [channel_config] (i32 44100) output_format 0
      (Some (sync_config 44100)) None no_blocks = (Some mx, h1)" using small_mixer by blast
  have "hxa_create (Some small_config) small_memory () no_blocks = finish_create small_config small_memory 44100 1 pool mx () h1"
    by (simp add: hxa_create_def Let_def small_sel p m [simplified] AUDIO_ARBITER_MAX_TRACKS_def)
  moreover have "\<exists>c :: (unit, unit) service_ctx. sv_ll_stream c = 2048 \<and> slot_free c = Some 0 \<and>
      finish_create small_config small_memory 44100 1 pool mx () h1 =
       (Some \<lparr>hx_arbiter = \<lparr>aa_pool = pool, aa_ctx = c, aa_tracks = replicate 16 track_zero, aa_generations = replicate 16 1,
           aa_track_count = 1, aa_active_count = 0\<rparr>, hx_fft = audio_fft_init 44100, hx_total_output = 0\<rparr>, h1)"
    by (simp add: finish_create_def audio_arbiter_init_def Let_def AUDIO_ARBITER_MAX_TRACKS_def small_sel
         HXA_FMV_STREAM_FRAMES_def slot_free_def empty_slot_def)
  ultimately show ?thesis using p by metis
qed

lemma small_service_sel:
  "aa_tracks (hx_arbiter small_service) = replicate 16 track_zero" "aa_generations (hx_arbiter small_service) = replicate 16 1"
  "aa_track_count (hx_arbiter small_service) = 1" "sv_ll_stream (aa_ctx (hx_arbiter small_service)) = 2048"
  "slot_free (aa_ctx (hx_arbiter small_service)) = Some 0"
  "audio_pool_init AUDIO_POOL_BLOCK_SIZE AUDIO_POOL_MAX_OBJECTS (replicate 16384 0) True =
     (AUDIO_POOL_OK, Some (aa_pool (hx_arbiter small_service)))"
  and small_reach: "svc_reach quiet_reader small_service" and small_begin: "svc_history quiet_reader small_service {}"
proof -
  obtain pool and c :: "(unit, unit) service_ctx" and h' where c: "audio_pool_init AUDIO_POOL_BLOCK_SIZE AUDIO_POOL_MAX_OBJECTS (replicate 16384 0) True = (AUDIO_POOL_OK, Some pool)"
     "sv_ll_stream c = 2048" "slot_free c = Some 0"
     "hxa_create (Some small_config) small_memory () no_blocks =
       (Some \<lparr>hx_arbiter = \<lparr>aa_pool = pool, aa_ctx = c, aa_tracks = replicate 16 track_zero, aa_generations = replicate 16 1,
           aa_track_count = 1, aa_active_count = 0\<rparr>, hx_fft = audio_fft_init 44100, hx_total_output = 0\<rparr>, h')"
    using small_created by blast
  then have s: "small_service = \<lparr>hx_arbiter = \<lparr>aa_pool = pool, aa_ctx = c, aa_tracks = replicate 16 track_zero,
      aa_generations = replicate 16 1, aa_track_count = 1, aa_active_count = 0\<rparr>, hx_fft = audio_fft_init 44100, hx_total_output = 0\<rparr>"
    by (simp add: small_service_def)
  show "aa_tracks (hx_arbiter small_service) = replicate 16 track_zero" "aa_generations (hx_arbiter small_service) = replicate 16 1"
    "aa_track_count (hx_arbiter small_service) = 1" "sv_ll_stream (aa_ctx (hx_arbiter small_service)) = 2048"
    "slot_free (aa_ctx (hx_arbiter small_service)) = Some 0"
    "audio_pool_init AUDIO_POOL_BLOCK_SIZE AUDIO_POOL_MAX_OBJECTS (replicate 16384 0) True =
       (AUDIO_POOL_OK, Some (aa_pool (hx_arbiter small_service)))"
    using c by (simp_all add: s)
  show "svc_reach quiet_reader small_service"
    by (rule svc_reach.created [OF c(4) [folded s] small_memory_sized]) (auto simp: small_sel)
  show "svc_history quiet_reader small_service {}"
    by (rule svc_history.created [OF c(4) [folded s] small_memory_sized]) (auto simp: small_sel)
qed

lemma idle_track:
  assumes "aa_tracks a = replicate 16 track_zero" and "aa_track_count a = 1"
  shows "find_free_track a = 0"
  using assms by (simp add: find_free_track_def track_zero_def)

lemma pack_voice_nonzero: "t < 65535 \<Longrightarrow> pack_voice t g \<noteq> 0"
  using unpack_pack [of t g] by (auto simp: pack_voice_eq unpack_handle_def)

section \<open>A sound in the small service\<close>

definition small_sfx :: obj_handle where "small_sfx = fst (hxa_load_sfx_pcm small_service [52, 18] 22050)"
definition small_loaded :: "(unit, unit) service" where
  "small_loaded = snd (hxa_load_sfx_pcm small_service [52, 18] 22050)"

lemma small_load: "hxa_load_sfx_pcm small_service [52, 18] 22050 = (small_sfx, small_loaded)"
  by (simp add: small_sfx_def small_loaded_def)

lemma small_sfx_nonzero: "small_sfx \<noteq> 0"
proof -
  let ?p = "aa_pool (hx_arbiter small_service)"
  note i = audio_pool_init_inv [OF small_service_sel(6)]
  have inv: "pool_inv ?p (\<lambda>_. [])" and free: "ap_free_blocks ?p = 2"
    using i(1,2) by (simp_all add: AUDIO_POOL_BLOCK_SIZE_def AUDIO_POOL_MAX_OBJECTS_def)
  have obj: "ap_objects ?p = replicate 256 object_zero" "ap_block_size ?p = 8192"
    using arg_cong [OF small_service_sel(6), of "\<lambda>x. ap_objects (the (snd x))"] arg_cong [OF small_service_sel(6), of "\<lambda>x. ap_block_size (the (snd x))"]
    by (simp_all add: audio_pool_init_def Let_def AUDIO_POOL_MAX_OBJECTS_def AUDIO_POOL_BLOCK_SIZE_def)
  have "blocks_needed ?p 2 = 1" by (simp add: blocks_needed_def obj)
  moreover have "\<not> (\<forall>s < length (ap_objects ?p). ob_in_use (ap_objects ?p ! s))"
    by (auto simp: obj object_zero_def intro!: exI [of _ 0])
  ultimately have "fst (audio_pool_alloc ?p 2 0) = AUDIO_POOL_OK"
    unfolding audio_pool_alloc_errors(1) [OF inv] by (simp add: free)
  then obtain h q where a: "audio_pool_alloc ?p 2 0 = (AUDIO_POOL_OK, h, q)" by (metis prod_cases3 fst_conv)
  have "2 + ap_block_size ?p \<le> 4294967296" by (simp add: obj)
  from audio_pool_alloc_ok(3) [OF inv this a, of h] have "h \<noteq> 0" using pool_refs_zero [of q] by auto
  moreover have "small_sfx = h"
    using a [unfolded numeral_2_eq_2] by (auto simp: small_sfx_def hxa_load_sfx_pcm_def stage_pcm_def audio_pool_alloc_with_rate_def u32_def
        split: prod.splits option.splits)
  ultimately show ?thesis by simp
qed

lemma small_ok: "\<exists>n. service_ok quiet_reader n small_service"
  by (rule svc_reach_ok [OF small_reach])

lemma small_loaded_sel:
  "aa_tracks (hx_arbiter small_loaded) = replicate 16 track_zero" "aa_track_count (hx_arbiter small_loaded) = 1"
  by (simp_all add: small_loaded_def hxa_load_sfx_pcm_def case_prod_beta small_service_sel)

lemma small_loaded_reach: "svc_reach quiet_reader small_loaded"
  by (rule svc_reach.step [OF small_reach svc_step.load_pcm [OF _ small_load]]) simp

text \<open>Triggering it starts the voice of the first track.\<close>

lemma small_trigger: "fst (hxa_trigger_sfx quiet_reader small_loaded small_sfx 32767 0) \<noteq> 0"
proof -
  let ?a = "hx_arbiter small_loaded"
  obtain n where ok: "service_ok quiet_reader n small_service" using small_ok by blast
  have ok2: "service_ok quiet_reader n small_loaded" by (rule load_pcm_ok [OF ok small_load]) simp
  have snd: "svc_sound small_loaded small_sfx [52, 18]" by (rule loaded_sound [OF ok small_load small_sfx_nonzero]) simp
  have inv: "arb_inv ?a" using ok2 linked_arb_inv by (auto simp: service_ok_def)
  note v = sound_valid(1) [OF inv snd] and pok = arb_inv_pool_ok [OF inv] and lim = refs_small [OF ok2, of small_sfx]
  obtain r p where p: "audio_pool_ref (aa_pool ?a) small_sfx = (r, p)" by fastforce
  have r: "r = AUDIO_POOL_OK" using p v by (auto simp: audio_pool_ref_def audio_pool_handle_valid_def)
  have pp: "pool_ok p" "audio_pool_handle_valid p small_sfx" "object_bytes p small_sfx = [52, 18]"
    using prc.ok_ref [OF pok lim] prc.ref_keeps_valid [OF pok v lim v] ref_bytes [OF pok lim, of small_sfx] p snd
    by (simp_all add: sound_def)
  obtain ch x where "pool_inv p ch" "resolve p small_sfx = Some x" using pp by (auto simp: pool_ok_def audio_pool_handle_valid_def)
  then have "audio_pool_object_size p small_sfx = 2" using object_bytes_chain(2) [of p ch small_sfx x] pp(3) by simp
  then have "fst (svc_sink_start quiet_reader p True c t AUDIO_VOICE_SFX small_sfx q)" for c t q
    by (simp add: svc_sink_start_def start_sfx_def Let_def)
  then show ?thesis
    using v p r by (simp add: hxa_trigger_sfx_def audio_arbiter_play_def svc_sink_def claim_track_def Let_def case_prod_beta
        idle_track [OF small_loaded_sel] small_loaded_sel(2) pack_voice_nonzero)
qed

lemma small_history: "svc_history quiet_reader small_loaded {small_sfx}"
  by (rule svc_history.load_pcm [OF small_begin _ small_load]) simp

theorem service_references_balance_witness:
  "pool_refs (aa_pool (hx_arbiter small_loaded)) small_sfx = int (voices (hx_arbiter small_loaded) small_sfx) + 1"
  using service_references_balance [OF small_history small_sfx_nonzero] by simp

theorem loaded_sfx_plays_witness:
  "\<exists>v s3 t. hxa_trigger_sfx quiet_reader small_loaded small_sfx 32767 0 = (v, s3) \<and> resolve_voice (hx_arbiter s3) v = Some t \<and>
     channel_items (sv_mixer (aa_ctx (hx_arbiter s3))) t = [[52, 18, 52, 18]]"
proof -
  obtain v s3 where t: "hxa_trigger_sfx quiet_reader small_loaded small_sfx 32767 0 = (v, s3)" by fastforce
  have v: "v \<noteq> 0" using small_trigger t by simp
  have "even (length [52, 18 :: byte])" "length [52, 18 :: byte] + 8192 \<le> 4294967296" by simp_all
  from loaded_sfx_plays [OF small_reach quiet_bounded this small_load small_sfx_nonzero rtranclp.rtrancl_refl t v]
  have "\<exists>t. resolve_voice (hx_arbiter s3) v = Some t \<and>
      channel_items (sv_mixer (aa_ctx (hx_arbiter s3))) t = newest 32768 (sfx_frames [52, 18])" .
  moreover have "newest 32768 (sfx_frames [52, 18]) = [[52, 18, 52, 18 :: byte]]"
    by (simp add: newest_def sfx_frames_def both_sides_def seg_def)
  ultimately show ?thesis using t by auto
qed

section \<open>A stream in the small service\<close>

definition small_stream :: "(unit, unit) service" where
  "small_stream = snd (hxa_open_pcm_stream quiet_reader True small_service 0 32767 0)"

lemma long_ring_starts:
  assumes "1024 \<le> sv_ll_stream c"
  shows "fst (start_ring True c i t p)"
proof -
  have "validate_config (voice_config c t False True)"
    using assms by (simp add: validate_config_def voice_config_def HXA_MUSIC_HEAD_FRAMES_def MUSIC_STREAM_NONE_def)
  then show ?thesis
    by (simp add: start_ring_def start_music_def Let_def music_create_with_allocator_def case_prod_beta)
qed

lemma small_stream_reach: "svc_reach quiet_reader small_stream"
  by (rule svc_reach.step [OF small_reach svc_step.open_pcm [where v = "fst (hxa_open_pcm_stream quiet_reader True small_service 0 32767 0)"]])
    (simp add: small_stream_def)

lemma small_stream_music: "kinds (hx_arbiter small_stream) 0 = Some AUDIO_VOICE_MUSIC" "aa_track_count (hx_arbiter small_stream) = 1"
proof -
  define s1 where "s1 = in_ctx (\<lambda>c. let r = (if (0 :: nat) \<noteq> 0 then 0 else sv_sample_rate c)
                            in c\<lparr>sv_ring_rate := r, sv_pend_source := HXA_SRC_RING, sv_pend_rate := r\<rparr>) small_service"
  have c: "sv_ll_stream (aa_ctx (hx_arbiter s1)) = 2048" "sv_pend_source (aa_ctx (hx_arbiter s1)) = HXA_SRC_RING"
    "slot_free (aa_ctx (hx_arbiter s1)) = Some 0" "aa_tracks (hx_arbiter s1) = replicate 16 track_zero"
    "aa_track_count (hx_arbiter s1) = 1"
    using small_service_sel by (simp_all add: s1_def in_ctx_def Let_def slot_free_def)
  have st: "fst (svc_sink_start quiet_reader q True (aa_ctx (hx_arbiter s1)) t AUDIO_VOICE_MUSIC 0 p)" for q t p
    using long_ring_starts [of "aa_ctx (hx_arbiter s1)"] c by (simp add: svc_sink_start_def)
  have e: "small_stream = in_ctx (\<lambda>c. c\<lparr>sv_pend_source := HXA_SRC_NONE, sv_pend_rate := 0\<rparr>) (snd (play_external quiet_reader True s1 32767 0))"
    by (simp add: small_stream_def hxa_open_pcm_stream_def s1_def case_prod_beta Let_def)
  show "kinds (hx_arbiter small_stream) 0 = Some AUDIO_VOICE_MUSIC" "aa_track_count (hx_arbiter small_stream) = 1"
    unfolding e using st c
    by (simp_all add: in_ctx_def play_external_def audio_arbiter_play_external_def svc_sink_def Let_def case_prod_beta
        idle_track [OF c(4,5)] kinds_claim)
qed

theorem service_voices_have_players_witness: "\<exists>!i. drives (aa_ctx (hx_arbiter small_stream)) i 0"
  using service_voices_have_players [OF small_stream_reach quiet_bounded, of 0] small_stream_music by simp

theorem lowlat_below_head_rejects_witness:
  "fst (hxa_open_pcm_stream quiet_reader True (hxa_set_lowlat small_service 512 0) 0 32767 0) = 0"
  by (rule lowlat_below_head_rejects) simp_all

end
