(* ===== verification/Sd_Stream.thy ===== *)
theory Sd_Stream
  imports HXBase
begin

text \<open>
  \<^verbatim>\<open>firmware/audio/hx421_stream.c\<close>: the arbiter that keeps the rings in PSRAM filled from the SD card.
  The two platform seams are a record of functions over the platform's own state \<open>'p\<close>; the offload
  tells whether it was accepted.  Stream numbers of the entry points are C ints, the sizes are
  naturals with the 32-bit wrap-around written out.
\<close>

section \<open>State\<close>

definition HX421_STREAM_MAX :: nat where "HX421_STREAM_MAX = 4"
definition FRAME :: nat where "FRAME = 4"

record 'p stream_plat =
  pl_offload :: "'p \<Rightarrow> nat \<Rightarrow> nat \<Rightarrow> nat \<Rightarrow> nat \<Rightarrow> bool \<times> 'p"
  pl_read_ptr :: "('p \<Rightarrow> nat \<Rightarrow> nat) option"

record sd_stream =
  sd_psram_base :: nat
  sd_ring_size :: nat
  sd_data_off :: nat
  sd_data_bytes :: nat
  sd_prime_bytes :: nat
  sd_write_pos :: nat
  sd_file_pos :: nat
  sd_active :: bool
  sd_looping :: bool
  sd_primed :: bool
  sd_prio :: nat

record stream_arb =
  sa_str :: "sd_stream list"
  sa_chunk :: nat
  sa_low_wm :: nat
  sa_high_wm :: nat
  sa_rr :: nat

text \<open>The mask \<^verbatim>\<open>~(FRAME - 1)\<close>.\<close>

definition frame_floor :: "nat \<Rightarrow> nat" where "frame_floor n = n - n mod FRAME"

definition at_stream :: "stream_arb \<Rightarrow> nat \<Rightarrow> (sd_stream \<Rightarrow> sd_stream) \<Rightarrow> stream_arb" where
  "at_stream a s f = a\<lparr>sa_str := (sa_str a)[s := f (sa_str a ! s)]\<rparr>"

section \<open>Levels\<close>

definition fill_of :: "'p stream_plat \<Rightarrow> 'p \<Rightarrow> stream_arb \<Rightarrow> nat \<Rightarrow> nat" where
  "fill_of pl p a s =
     (let st = sa_str a ! s;
          rp = (case pl_read_ptr pl of None \<Rightarrow> 0 | Some f \<Rightarrow> f p s);
          rp = (if sd_ring_size st \<le> rp then rp mod sd_ring_size st else rp)
      in u32 (sd_write_pos st + sd_ring_size st + 4294967296 - rp) mod sd_ring_size st)"

definition hx421_stream_fill :: "'p stream_plat \<Rightarrow> 'p \<Rightarrow> stream_arb \<Rightarrow> int \<Rightarrow> nat" where
  "hx421_stream_fill pl p a s =
     (if s < 0 \<or> int HX421_STREAM_MAX \<le> s \<or> \<not> sd_active (sa_str a ! nat s) then 0 else fill_of pl p a (nat s))"

definition target_of :: "stream_arb \<Rightarrow> nat \<Rightarrow> nat" where
  "target_of a s =
     (let rs = sd_ring_size (sa_str a ! s);
          t = (if sa_chunk a < rs then rs - sa_chunk a else if FRAME < rs then rs - FRAME else 0)
      in if sa_high_wm a \<noteq> 0 \<and> sa_high_wm a < t then sa_high_wm a else t)"

section \<open>Starting and stopping\<close>

definition hx421_stream_arb_init :: "stream_arb \<Rightarrow> nat \<Rightarrow> nat \<Rightarrow> nat \<Rightarrow> stream_arb" where
  "hx421_stream_arb_init a chunk low_wm high_wm =
     (let c = (if chunk \<noteq> 0 then frame_floor chunk else 4096);
          c = (if c < FRAME then FRAME else c)
      in a\<lparr>sa_str := map (\<lambda>st. st\<lparr>sd_active := False\<rparr>) (sa_str a), sa_chunk := c,
           sa_low_wm := low_wm, sa_high_wm := high_wm, sa_rr := 0\<rparr>)"

definition hx421_stream_start ::
    "stream_arb \<Rightarrow> int \<Rightarrow> nat \<Rightarrow> nat \<Rightarrow> nat \<Rightarrow> nat \<Rightarrow> bool \<Rightarrow> nat \<Rightarrow> int \<Rightarrow> int \<times> stream_arb" where
  "hx421_stream_start a s psram_base ring_size data_off data_bytes looping prime_bytes prio =
     (if s < 0 \<or> int HX421_STREAM_MAX \<le> s then (- 1, a)
      else if ring_size < u32 (2 * sa_chunk a) \<or> ring_size mod FRAME \<noteq> 0 then (- 2, a)
      else if data_bytes < FRAME then (- 3, a)
      else (0, at_stream a (nat s) (\<lambda>st. st\<lparr>sd_psram_base := psram_base, sd_ring_size := ring_size, sd_data_off := data_off,
                  sd_data_bytes := frame_floor data_bytes, sd_prime_bytes := frame_floor prime_bytes,
                  sd_write_pos := 0, sd_file_pos := 0, sd_looping := looping, sd_primed := False,
                  sd_prio := (if prio < 0 then 0 else if 3 < prio then 3 else nat prio), sd_active := True\<rparr>)))"

definition hx421_stream_stop :: "stream_arb \<Rightarrow> int \<Rightarrow> stream_arb" where
  "hx421_stream_stop a s =
     (if 0 \<le> s \<and> s < int HX421_STREAM_MAX then at_stream a (nat s) (\<lambda>st. st\<lparr>sd_active := False\<rparr>) else a)"

definition hx421_stream_ready :: "stream_arb \<Rightarrow> int \<Rightarrow> bool" where
  "hx421_stream_ready a s =
     (if s < 0 \<or> int HX421_STREAM_MAX \<le> s then False else sd_active (sa_str a ! nat s) \<and> sd_primed (sa_str a ! nat s))"

section \<open>The service\<close>

text \<open>The scan for the stream with the greatest weighted deficit.\<close>

definition needs_data :: "'p stream_plat \<Rightarrow> 'p \<Rightarrow> stream_arb \<Rightarrow> nat \<Rightarrow> bool" where
  "needs_data pl p a i =
     (let st = sa_str a ! i in
      if \<not> sd_active st then False
      else if \<not> sd_looping st \<and> sd_data_bytes st \<le> sd_file_pos st then False
      else \<not> target_of a i \<le> fill_of pl p a i)"

fun pick_stream :: "'p stream_plat \<Rightarrow> 'p \<Rightarrow> stream_arb \<Rightarrow> nat list \<Rightarrow> nat option \<times> nat \<Rightarrow> nat option" where
  "pick_stream pl p a [] (best, best_score) = best"
| "pick_stream pl p a (i # is) (best, best_score) =
     (if \<not> needs_data pl p a i then pick_stream pl p a is (best, best_score)
      else let score = u32 ((target_of a i - fill_of pl p a i) * (sd_prio (sa_str a ! i) + 1))
           in if best = None \<or> best_score < score then pick_stream pl p a is (Some i, score)
              else pick_stream pl p a is (best, best_score))"

definition run_length :: "'p stream_plat \<Rightarrow> 'p \<Rightarrow> stream_arb \<Rightarrow> nat \<Rightarrow> nat" where
  "run_length pl p a s =
     (let st = sa_str a ! s;
          r = min (sa_chunk a) (target_of a s - fill_of pl p a s);
          r = min r (sd_ring_size st - sd_write_pos st);
          r = min r (sd_data_bytes st - sd_file_pos st)
      in frame_floor r)"

text \<open>The bookkeeping after an accepted offload of \<open>run\<close> bytes.\<close>

definition advance_stream :: "nat \<Rightarrow> sd_stream \<Rightarrow> sd_stream" where
  "advance_stream run st =
     (let w = u32 (sd_write_pos st + run);
          w = (if sd_ring_size st \<le> w then w - sd_ring_size st else w);
          f = u32 (sd_file_pos st + run);
          f = (if sd_data_bytes st \<le> f \<and> sd_looping st then 0 else f)
      in st\<lparr>sd_write_pos := w, sd_file_pos := f\<rparr>)"

definition mark_primed :: "'p stream_plat \<Rightarrow> 'p \<Rightarrow> stream_arb \<Rightarrow> nat \<Rightarrow> stream_arb" where
  "mark_primed pl p a s =
     (let st = sa_str a ! s in
      if sd_primed st then a
      else let head = (if sd_prime_bytes st \<noteq> 0 then sd_prime_bytes st else target_of a s);
               head = (if target_of a s < head then target_of a s else head)
           in if head \<le> fill_of pl p a s then at_stream a s (\<lambda>st. st\<lparr>sd_primed := True\<rparr>) else a)"

definition hx421_stream_service :: "'p stream_plat \<Rightarrow> stream_arb \<Rightarrow> 'p \<Rightarrow> bool \<times> stream_arb \<times> 'p" where
  "hx421_stream_service pl a p =
     (case pick_stream pl p a [0..<HX421_STREAM_MAX] (None, 0) of
        None \<Rightarrow> (False, a, p)
      | Some s \<Rightarrow>
          let a1 = (if sd_data_bytes (sa_str a ! s) \<le> sd_file_pos (sa_str a ! s)
                    then at_stream a s (\<lambda>st. st\<lparr>sd_file_pos := 0\<rparr>) else a);
              st = sa_str a1 ! s;
              run = run_length pl p a1 s
          in if run = 0 then (False, a1, p)
             else case pl_offload pl p s (u32 (sd_psram_base st + sd_write_pos st))
                         (u32 (sd_data_off st + sd_file_pos st)) run of
               (ok, p1) \<Rightarrow>
                 if \<not> ok then (False, a1, p1)
                 else let a2 = mark_primed pl p1 (at_stream a1 s (advance_stream run)) s
                      in (True, a2\<lparr>sa_rr := (s + 1) mod HX421_STREAM_MAX\<rparr>, p1))"

section \<open>Well-formed arbiters\<close>

definition sd_ok :: "nat \<Rightarrow> sd_stream \<Rightarrow> bool" where
  "sd_ok chunk st \<longleftrightarrow> 2 * chunk \<le> sd_ring_size st \<and> sd_ring_size st \<le> 1073741824 \<and> sd_ring_size st mod 4 = 0 \<and>
     sd_psram_base st + sd_ring_size st \<le> 4294967296 \<and> sd_data_off st + sd_data_bytes st < 4294967296 \<and>
     0 < sd_data_bytes st \<and> sd_data_bytes st mod 4 = 0 \<and> sd_write_pos st < sd_ring_size st \<and> sd_write_pos st mod 4 = 0 \<and>
     sd_file_pos st \<le> sd_data_bytes st \<and> sd_file_pos st mod 4 = 0 \<and> sd_prime_bytes st mod 4 = 0"

definition arb_wf :: "stream_arb \<Rightarrow> bool" where
  "arb_wf a \<longleftrightarrow> length (sa_str a) = 4 \<and> 4 \<le> sa_chunk a \<and> sa_chunk a < 2147483648 \<and> sa_chunk a mod 4 = 0 \<and> sa_high_wm a mod 4 = 0 \<and>
     (\<forall>s<4. sd_active (sa_str a ! s) \<longrightarrow> sd_ok (sa_chunk a) (sa_str a ! s))"

lemma frame_floor_mult: "frame_floor n mod 4 = 0" "frame_floor n \<le> n" "n mod 4 = 0 \<Longrightarrow> frame_floor n = n"
  by (simp_all add: frame_floor_def FRAME_def minus_mod_eq_mult_div)

lemma frame_floor_ge: "4 \<le> n \<Longrightarrow> 4 \<le> frame_floor n"
  by (simp add: frame_floor_def FRAME_def minus_mod_eq_mult_div)

lemma at_stream_sel [simp]:
  "sa_chunk (at_stream a s f) = sa_chunk a" "sa_high_wm (at_stream a s f) = sa_high_wm a"
  "length (sa_str (at_stream a s f)) = length (sa_str a)"
  "s < length (sa_str a) \<Longrightarrow> sa_str (at_stream a s f) ! t = (if t = s then f (sa_str a ! s) else sa_str a ! t)"
  by (simp_all add: at_stream_def nth_list_update)

lemma wf_at_stream:
  assumes "arb_wf a" and "s < 4" and "sd_active (f (sa_str a ! s)) \<Longrightarrow> sd_ok (sa_chunk a) (f (sa_str a ! s))"
  shows "arb_wf (at_stream a s f)"
  using assms by (auto simp: arb_wf_def)

lemma fill_less:
  assumes "sd_ok c (sa_str a ! s)" and "4 \<le> c"
  shows "fill_of pl p a s < sd_ring_size (sa_str a ! s)"
proof -
  have "0 < sd_ring_size (sa_str a ! s)" using assms by (simp add: sd_ok_def)
  then show ?thesis by (simp add: fill_of_def Let_def)
qed

lemma target_le:
  assumes "sd_ok (sa_chunk a) (sa_str a ! s)" and "4 \<le> sa_chunk a"
  shows "target_of a s + sa_chunk a \<le> sd_ring_size (sa_str a ! s)" and "0 < target_of a s"
  using assms by (auto simp: target_of_def sd_ok_def Let_def)

end
