(* ===== verification/Sd_Stream_Spec.thy ===== *)
theory Sd_Stream_Spec
  imports Sd_Stream
begin

text \<open>
  The arbiter of the SD streams keeps its rings well-formed and asks only for transfers inside
  them; with a mixer that reads the rings, the bytes it finds are the source in order.
\<close>

section \<open>Picking and sizing a transfer\<close>

lemma pick_stream_Some:
  "pick_stream pl p a is (best, bs) = Some s \<Longrightarrow> best = Some s \<or> s \<in> set is \<and> needs_data pl p a s"
proof (induction "is" arbitrary: best bs)
  case (Cons i "is")
  then show ?case by (fastforce simp: Let_def split: if_splits)
qed simp

lemma pick_stream_None: "pick_stream pl p a is (best, bs) = None \<longleftrightarrow> best = None \<and> (\<forall>i \<in> set is. \<not> needs_data pl p a i)"
  by (induction "is" arbitrary: best bs) (auto simp: Let_def)

definition rewind :: "stream_arb \<Rightarrow> nat \<Rightarrow> stream_arb" where
  "rewind a s = (if sd_data_bytes (sa_str a ! s) \<le> sd_file_pos (sa_str a ! s)
                 then at_stream a s (\<lambda>st. st\<lparr>sd_file_pos := 0\<rparr>) else a)"

lemma service_cases:
  assumes "hx421_stream_service pl a p = (b, a', p')"
  obtains (idle) "\<not> b" "a' = a" "p' = p" "\<forall>s<4. \<not> needs_data pl p a s"
  | (small) s where "s < 4" "needs_data pl p a s" "run_length pl p (rewind a s) s = 0" "\<not> b" "a' = rewind a s" "p' = p"
  | (busy) s run where "s < 4" "needs_data pl p a s" "run = run_length pl p (rewind a s) s" "0 < run"
      "pl_offload pl p s (u32 (sd_psram_base (sa_str (rewind a s) ! s) + sd_write_pos (sa_str (rewind a s) ! s)))
         (u32 (sd_data_off (sa_str (rewind a s) ! s) + sd_file_pos (sa_str (rewind a s) ! s))) run = (False, p')"
      "\<not> b" "a' = rewind a s"
  | (sent) s run where "s < 4" "needs_data pl p a s" "run = run_length pl p (rewind a s) s" "0 < run"
      "pl_offload pl p s (u32 (sd_psram_base (sa_str (rewind a s) ! s) + sd_write_pos (sa_str (rewind a s) ! s)))
         (u32 (sd_data_off (sa_str (rewind a s) ! s) + sd_file_pos (sa_str (rewind a s) ! s))) run = (True, p')"
      "b" "a' = (mark_primed pl p' (at_stream (rewind a s) s (advance_stream run)) s)\<lparr>sa_rr := (s + 1) mod HX421_STREAM_MAX\<rparr>"
proof (cases "pick_stream pl p a [0..<HX421_STREAM_MAX] (None, 0)")
  case None
  have "(b, a', p') = (False, a, p)" using assms None by (simp add: hx421_stream_service_def)
  moreover have "\<forall>s<4. \<not> needs_data pl p a s" using iffD1 [OF pick_stream_None None] by (simp add: HX421_STREAM_MAX_def)
  ultimately show ?thesis using that(1) by simp
next
  case (Some s)
  have s: "s < 4" "needs_data pl p a s" using pick_stream_Some [OF Some] by (auto simp: HX421_STREAM_MAX_def)
  define run where "run = run_length pl p (rewind a s) s"
  obtain ok q where off: "pl_offload pl p s (u32 (sd_psram_base (sa_str (rewind a s) ! s) + sd_write_pos (sa_str (rewind a s) ! s)))
         (u32 (sd_data_off (sa_str (rewind a s) ! s) + sd_file_pos (sa_str (rewind a s) ! s))) run = (ok, q)" by fastforce
  have e: "(b, a', p') = (if run = 0 then (False, rewind a s, p) else if \<not> ok then (False, rewind a s, q)
      else (True, (mark_primed pl q (at_stream (rewind a s) s (advance_stream run)) s)\<lparr>sa_rr := (s + 1) mod HX421_STREAM_MAX\<rparr>, q))"
    using assms unfolding hx421_stream_service_def Some option.case Let_def rewind_def [symmetric] run_def [symmetric] off prod.case
    by (rule sym)
  show ?thesis
  proof (cases "run = 0")
    case True
    then show ?thesis using that(2) [OF s] e by (simp add: run_def)
  next
    case False
    then show ?thesis using that(3) [OF s run_def] that(4) [OF s run_def] e off by (cases ok) simp_all
  qed
qed

lemma rewind_sel [simp]:
  "sa_chunk (rewind a s) = sa_chunk a" "sa_high_wm (rewind a s) = sa_high_wm a" "length (sa_str (rewind a s)) = length (sa_str a)"
  "s < length (sa_str a) \<Longrightarrow> sa_str (rewind a s) ! t = (if t = s \<and> sd_data_bytes (sa_str a ! s) \<le> sd_file_pos (sa_str a ! s)
     then (sa_str a ! s)\<lparr>sd_file_pos := 0\<rparr> else sa_str a ! t)"
  by (simp_all add: rewind_def)

lemma rewind_wf:
  assumes "arb_wf a" and "s < 4"
  shows "arb_wf (rewind a s)"
  using assms by (auto simp: rewind_def arb_wf_def sd_ok_def)

lemma rewind_levels [simp]:
  assumes "s < length (sa_str a)"
  shows "fill_of pl p (rewind a s) t = fill_of pl p a t" and "target_of (rewind a s) t = target_of a t"
  using assms by (simp_all add: fill_of_def target_of_def Let_def)

lemma run_bounds:
  assumes wf: "arb_wf a" and s: "s < 4" "needs_data pl p a s" and run: "run = run_length pl p (rewind a s) s" "0 < run"
  defines "st \<equiv> sa_str (rewind a s) ! s"
  shows "run mod 4 = 0" and "run \<le> sa_chunk a" and "fill_of pl p a s + run \<le> target_of a s"
    and "sd_write_pos st + run \<le> sd_ring_size st" and "sd_file_pos st + run \<le> sd_data_bytes st"
    and "sd_ok (sa_chunk a) st" and "sd_active st"
proof -
  have act: "sd_active (sa_str a ! s)" "fill_of pl p a s < target_of a s"
    using s(2) by (auto simp: needs_data_def Let_def split: if_splits)
  have len: "s < length (sa_str a)" using wf s(1) by (simp add: arb_wf_def)
  show "sd_active st" using act(1) len by (simp add: st_def)
  then show ok: "sd_ok (sa_chunk a) st" using rewind_wf [OF wf s(1)] s(1) len by (auto simp: arb_wf_def st_def)
  define r where "r = min (min (min (sa_chunk a) (target_of a s - fill_of pl p a s)) (sd_ring_size st - sd_write_pos st)) (sd_data_bytes st - sd_file_pos st)"
  have run': "run = frame_floor r" unfolding run(1) run_length_def Let_def r_def st_def using len by simp
  then have le: "run \<le> r" "run mod 4 = 0" using frame_floor_mult by simp_all
  then show "run mod 4 = 0" by simp
  have r: "r \<le> sa_chunk a" "r \<le> target_of a s - fill_of pl p a s" "r \<le> sd_ring_size st - sd_write_pos st" "r \<le> sd_data_bytes st - sd_file_pos st"
    by (simp_all add: r_def)
  show "run \<le> sa_chunk a" using le(1) r(1) by linarith
  show "fill_of pl p a s + run \<le> target_of a s" using le(1) r(2) act(2) by linarith
  show "sd_write_pos st + run \<le> sd_ring_size st" using le(1) r(3) ok by (auto simp: sd_ok_def)
  show "sd_file_pos st + run \<le> sd_data_bytes st" using le(1) r(4) ok by (auto simp: sd_ok_def)
qed

lemma sd_ok_fields [simp]: "sd_ok c (st\<lparr>sd_primed := b\<rparr>) = sd_ok c st" "sd_ok c (st\<lparr>sd_active := b\<rparr>) = sd_ok c st"
  by (simp_all add: sd_ok_def)

lemma mark_primed_cases:
  "mark_primed pl p a s = a \<or> mark_primed pl p a s = at_stream a s (\<lambda>st. st\<lparr>sd_primed := True\<rparr>)"
  by (simp add: mark_primed_def Let_def)

lemma mark_primed_sel [simp]:
  assumes "s < length (sa_str a)"
  shows "sa_chunk (mark_primed pl p a s) = sa_chunk a" and "sa_high_wm (mark_primed pl p a s) = sa_high_wm a"
    and "length (sa_str (mark_primed pl p a s)) = length (sa_str a)"
    and "t \<noteq> s \<Longrightarrow> sa_str (mark_primed pl p a s) ! t = sa_str a ! t"
    and "\<exists>b. sa_str (mark_primed pl p a s) ! s = (sa_str a ! s)\<lparr>sd_primed := b\<rparr>"
proof -
  have "sa_str a ! s = (sa_str a ! s)\<lparr>sd_primed := sd_primed (sa_str a ! s)\<rparr>" by simp
  moreover have "sa_str (at_stream a s (\<lambda>st. st\<lparr>sd_primed := True\<rparr>)) ! s = (sa_str a ! s)\<lparr>sd_primed := True\<rparr>" using assms by simp
  ultimately show "\<exists>b. sa_str (mark_primed pl p a s) ! s = (sa_str a ! s)\<lparr>sd_primed := b\<rparr>"
    using mark_primed_cases [of pl p a s] by metis
qed (use assms mark_primed_cases [of pl p a s] in auto)

lemma primed_wf:
  assumes "arb_wf a" and "s < 4"
  shows "arb_wf (mark_primed pl p a s)"
proof -
  have "arb_wf (at_stream a s (\<lambda>st. st\<lparr>sd_primed := True\<rparr>))"
    by (rule wf_at_stream [OF assms]) (use assms in \<open>simp add: arb_wf_def\<close>)
  then show ?thesis using mark_primed_cases [of pl p a s] assms(1) by metis
qed

lemma advance_ok:
  assumes "sd_ok c st" and "run mod 4 = 0" and "sd_write_pos st + run \<le> sd_ring_size st" and "sd_file_pos st + run \<le> sd_data_bytes st"
  shows "sd_ok c (advance_stream run st)"
proof -
  have w: "sd_write_pos st + run < 4294967296" "sd_file_pos st + run < 4294967296" "sd_ring_size st \<le> 1073741824"
    using assms(1,3,4) by (auto simp: sd_ok_def)
  have m: "(sd_write_pos st + run) mod 4 = 0" "(sd_file_pos st + run) mod 4 = 0"
    using assms(1,2) by (simp_all add: sd_ok_def mod_add_eq [symmetric])
  have f: "u32 (sd_file_pos st + run) \<le> sd_data_bytes st \<and> u32 (sd_file_pos st + run) mod 4 = 0"
    using assms(4) m(2) w(2) by simp
  have "0 < sd_ring_size st" using assms(1) by (auto simp: sd_ok_def)
  then show ?thesis using assms w(1) m(1) f by (auto simp: advance_stream_def sd_ok_def Let_def)
qed

lemma service_wf:
  assumes wf: "arb_wf a" and sv: "hx421_stream_service pl a p = (b, a', p')"
  shows "arb_wf a'"
  using sv
proof (cases rule: service_cases)
  case idle
  then show ?thesis using wf by simp
next
  case (small s)
  then show ?thesis using rewind_wf [OF wf] by simp
next
  case (busy s run)
  then show ?thesis using rewind_wf [OF wf] by simp
next
  case (sent s run)
  note rb = run_bounds [OF wf sent(1-4)]
  let ?a1 = "rewind a s"
  let ?a2 = "at_stream ?a1 s (advance_stream run)"
  have a1: "arb_wf ?a1" by (rule rewind_wf [OF wf sent(1)])
  have "sd_ok (sa_chunk ?a1) (advance_stream run (sa_str ?a1 ! s))" using advance_ok [OF rb(6,1,4,5)] by simp
  then have a2: "arb_wf ?a2" using wf_at_stream [OF a1 sent(1)] by blast
  then have "arb_wf (mark_primed pl p' ?a2 s)" by (rule primed_wf) (rule sent(1))
  then show ?thesis unfolding sent(7) by (simp add: arb_wf_def)
qed

end
