(* ===== verification/Sd_World.thy ===== *)
theory Sd_World
  imports Sd_Stream_Spec
begin

text \<open>
  The arbiter with its surroundings: a memory that accepted transfers write at once, a source of
  bytes for every stream, and a mixer that reads the rings.  The bytes between the reader and the
  writer of a ring are the next bytes of the source, in order.
\<close>

section \<open>The surroundings\<close>

text \<open>
  \<open>src s i\<close> is byte \<open>i\<close> of the file of stream \<open>s\<close>; \<open>sw_read w s\<close> counts the bytes that the mixer has
  read of stream \<open>s\<close> since it was started.  A busy platform accepts nothing.
\<close>

record sd_world =
  sw_arb :: stream_arb
  sw_mem :: "nat \<Rightarrow> byte"
  sw_read :: "nat \<Rightarrow> nat"

definition world_plat ::
    "(nat \<Rightarrow> nat \<Rightarrow> byte) \<Rightarrow> bool \<Rightarrow> stream_arb \<Rightarrow> (nat \<Rightarrow> nat) \<Rightarrow> (nat \<Rightarrow> byte) stream_plat" where
  "world_plat src busy a rd =
     \<lparr>pl_offload = (\<lambda>m s addr src_off len.
        if busy then (False, m)
        else (True, \<lambda>x. if addr \<le> x \<and> x < addr + len then src s (src_off + (x - addr)) else m x)),
      pl_read_ptr = Some (\<lambda>m s. rd s mod sd_ring_size (sa_str a ! s))\<rparr>"

definition unread :: "sd_world \<Rightarrow> nat \<Rightarrow> nat" where
  "unread w s = fill_of (world_plat (\<lambda>_ _. 0) True (sw_arb w) (sw_read w)) (sw_mem w) (sw_arb w) s"

definition apart :: "nat \<Rightarrow> nat \<Rightarrow> sd_stream \<Rightarrow> bool" where
  "apart base ring st \<longleftrightarrow> base + ring \<le> sd_psram_base st \<or> sd_psram_base st + sd_ring_size st \<le> base"

text \<open>
  Streams are started on rings apart from the others, with the mixer at the start of the ring; the
  mixer reads what there is.
\<close>

inductive sd_step :: "(nat \<Rightarrow> nat \<Rightarrow> byte) \<Rightarrow> sd_world \<Rightarrow> sd_world \<Rightarrow> bool" for src where
  start: "hx421_stream_start (sw_arb w) s base ring off bytes loop prime prio = (0, a') \<Longrightarrow>
    ring \<le> 1073741824 \<Longrightarrow> base + ring \<le> 4294967296 \<Longrightarrow> off + bytes < 4294967296 \<Longrightarrow>
    (\<forall>t<4. t \<noteq> nat s \<longrightarrow> sd_active (sa_str (sw_arb w) ! t) \<longrightarrow> apart base ring (sa_str (sw_arb w) ! t)) \<Longrightarrow>
    sd_step src w (w\<lparr>sw_arb := a', sw_read := (sw_read w)(nat s := 0)\<rparr>)"
| stop: "sd_step src w (w\<lparr>sw_arb := hx421_stream_stop (sw_arb w) s\<rparr>)"
| service: "hx421_stream_service (world_plat src busy (sw_arb w) (sw_read w)) (sw_arb w) (sw_mem w) = (b, a', m') \<Longrightarrow>
    sd_step src w (w\<lparr>sw_arb := a', sw_mem := m'\<rparr>)"
| mix: "s < 4 \<Longrightarrow> sd_active (sa_str (sw_arb w) ! s) \<Longrightarrow> n \<le> unread w s \<Longrightarrow> n mod 4 = 0 \<Longrightarrow>
    sd_step src w (w\<lparr>sw_read := (sw_read w)(s := sw_read w s + n)\<rparr>)"

inductive sd_reach :: "(nat \<Rightarrow> nat \<Rightarrow> byte) \<Rightarrow> sd_world \<Rightarrow> bool" for src where
  init: "length (sa_str a) = 4 \<Longrightarrow> chunk < 2147483648 \<Longrightarrow> high mod 4 = 0 \<Longrightarrow>
    sd_reach src \<lparr>sw_arb = hx421_stream_arb_init a chunk low high, sw_mem = m, sw_read = (\<lambda>_. 0)\<rparr>"
| step: "sd_reach src w \<Longrightarrow> sd_step src w w' \<Longrightarrow> sd_reach src w'"

section \<open>Positions in a ring\<close>

lemma ring_distance:
  fixes R d g :: nat
  assumes "d < g"
  shows "((R + d) mod g + g - R mod g) mod g = d"
proof -
  define r where "r = R mod g"
  have r: "r < g" using assms by (simp add: r_def)
  have "(R + d) mod g = (r + d) mod g" by (simp add: r_def mod_simps)
  also have "\<dots> = (if r + d < g then r + d else r + d - g)"
    using r assms by (simp add: le_mod_geq)
  finally show ?thesis using r assms by (auto simp: r_def [symmetric])
qed

lemma ring_distinct:
  fixes j k g :: nat
  assumes "j < k" and "k - j < g"
  shows "j mod g \<noteq> k mod g"
proof
  assume "j mod g = k mod g"
  then have "g dvd k - j" using assms(1) by (metis mod_eq_dvd_iff_nat less_imp_le)
  then show False using assms by (auto dest: dvd_imp_le)
qed

lemma world_fill:
  assumes ok: "sd_ok c (sa_str a ! s)" and "4 \<le> c" and w: "sd_write_pos (sa_str a ! s) = (rd s + d) mod sd_ring_size (sa_str a ! s)"
    and d: "d < sd_ring_size (sa_str a ! s)" and same: "sd_ring_size (sa_str a0 ! s) = sd_ring_size (sa_str a ! s)"
  shows "fill_of (world_plat src busy a0 rd) m a s = d"
proof -
  let ?g = "sd_ring_size (sa_str a ! s)" and ?w = "sd_write_pos (sa_str a ! s)"
  have g: "0 < ?g" "?g \<le> 1073741824" using ok assms(2) by (auto simp: sd_ok_def)
  have r: "rd s mod ?g < ?g" "?w < ?g" using g by (simp_all add: w)
  have "?w + ?g + 4294967296 - rd s mod ?g = (?w + ?g - rd s mod ?g) + 2 ^ 32" using r(1) by (simp del: mod_less_divisor)
  then have "u32 (?w + ?g + 4294967296 - rd s mod ?g) = (?w + ?g - rd s mod ?g) mod 2 ^ 32"
    unfolding u32_def by (simp only: mod_add_self2)
  also have "\<dots> = ?w + ?g - rd s mod ?g" using r g by simp
  finally have "u32 (?w + ?g + 4294967296 - rd s mod ?g) mod ?g = d" using ring_distance [OF d, of "rd s"] by (simp add: w)
  then show ?thesis using r by (simp add: fill_of_def world_plat_def Let_def same)
qed

section \<open>The invariant\<close>

definition carries :: "(nat \<Rightarrow> byte) \<Rightarrow> (nat \<Rightarrow> byte) \<Rightarrow> nat \<Rightarrow> sd_stream \<Rightarrow> nat \<Rightarrow> bool" where
  "carries f m R st d \<longleftrightarrow> d < sd_ring_size st \<and> sd_write_pos st = (R + d) mod sd_ring_size st \<and>
     (if sd_looping st then sd_file_pos st mod sd_data_bytes st = (R + d) mod sd_data_bytes st else sd_file_pos st = R + d) \<and>
     (\<forall>j. R \<le> j \<longrightarrow> j < R + d \<longrightarrow>
        m (sd_psram_base st + j mod sd_ring_size st) = f (sd_data_off st + j mod sd_data_bytes st))"

definition world_ok :: "(nat \<Rightarrow> nat \<Rightarrow> byte) \<Rightarrow> sd_world \<Rightarrow> bool" where
  "world_ok src w \<longleftrightarrow> arb_wf (sw_arb w) \<and>
     (\<forall>s<4. \<forall>t<4. s \<noteq> t \<longrightarrow> sd_active (sa_str (sw_arb w) ! s) \<longrightarrow> sd_active (sa_str (sw_arb w) ! t) \<longrightarrow>
        apart (sd_psram_base (sa_str (sw_arb w) ! s)) (sd_ring_size (sa_str (sw_arb w) ! s)) (sa_str (sw_arb w) ! t)) \<and>
     (\<forall>s<4. sd_active (sa_str (sw_arb w) ! s) \<longrightarrow> (\<exists>d. carries (src s) (sw_mem w) (sw_read w s) (sa_str (sw_arb w) ! s) d))"

lemma carries_primed [simp]: "carries f m R (st\<lparr>sd_primed := b\<rparr>) d = carries f m R st d"
  by (simp add: carries_def)

lemma carries_unread:
  assumes "arb_wf a" and "s < 4" and "sd_active (sa_str a ! s)" and "carries f m (rd s) (sa_str a ! s) d"
  shows "fill_of (world_plat src busy a rd) m' a s = d"
  using assms by (intro world_fill [where c = "sa_chunk a"]) (auto simp: arb_wf_def carries_def)

lemma carries_rewind:
  assumes "carries f m R st d" and "sd_looping st" and "sd_data_bytes st \<le> sd_file_pos st" and "sd_ok c st"
  shows "carries f m R (st\<lparr>sd_file_pos := 0\<rparr>) d"
  using assms by (auto simp: carries_def sd_ok_def)

text \<open>A transfer of \<open>run\<close> bytes to the writer's position.\<close>

lemma carries_sent:
  assumes ok: "sd_ok c st" "4 \<le> c" and ca: "carries f m R st d" and run: "0 < run" "d + run < sd_ring_size st"
    and fit: "sd_write_pos st + run \<le> sd_ring_size st" "sd_file_pos st + run \<le> sd_data_bytes st"
  shows "carries f (\<lambda>x. if sd_psram_base st + sd_write_pos st \<le> x \<and> x < sd_psram_base st + sd_write_pos st + run
      then f (sd_data_off st + sd_file_pos st + (x - (sd_psram_base st + sd_write_pos st))) else m x) R (advance_stream run st) (d + run)"
proof -
  let ?g = "sd_ring_size st" and ?w = "sd_write_pos st" and ?b = "sd_data_bytes st" and ?p = "sd_file_pos st"
  let ?m = "\<lambda>x. if sd_psram_base st + ?w \<le> x \<and> x < sd_psram_base st + ?w + run
      then f (sd_data_off st + ?p + (x - (sd_psram_base st + ?w))) else m x"
  have g: "0 < ?g" "?g \<le> 1073741824" "0 < ?b" "?b < 4294967296" using ok by (auto simp: sd_ok_def)
  have c: "d < ?g" "?w = (R + d) mod ?g" "\<forall>j. R \<le> j \<longrightarrow> j < R + d \<longrightarrow> m (sd_psram_base st + j mod ?g) = f (sd_data_off st + j mod ?b)"
    and fp: "?p mod ?b = (R + d) mod ?b" "\<not> sd_looping st \<Longrightarrow> ?p = R + d"
    using ca by (auto simp: carries_def split: if_splits)
  have at: "(R + d + i) mod ?g = ?w + i" if "i < run" for i
  proof -
    have "(R + d + i) mod ?g = (?w + i) mod ?g" by (simp add: c(2) mod_simps)
    then show ?thesis using that fit(1) by simp
  qed
  have src: "(R + d + i) mod ?b = ?p + i" if "i < run" for i
  proof -
    have "(R + d + i) mod ?b = (?p mod ?b + i) mod ?b" unfolding fp(1) by (simp add: mod_simps)
    also have "\<dots> = (?p + i) mod ?b" by (simp add: mod_simps)
    finally show ?thesis using that fit(2) by simp
  qed
  have bytes: "?m (sd_psram_base st + j mod ?g) = f (sd_data_off st + j mod ?b)" if j: "R \<le> j" "j < R + (d + run)" for j
  proof (cases "j < R + d")
    case True
    have "j mod ?g \<noteq> (R + d + i) mod ?g" if "i < run" for i
      by (rule ring_distinct) (use True j run(2) that in simp_all)
    then have "\<not> (?w \<le> j mod ?g \<and> j mod ?g < ?w + run)"
      using at by (metis add_diff_inverse_nat less_diff_conv2 linorder_not_less nat_add_left_cancel_less)
    then show ?thesis using c(3) j(1) True by auto
  next
    case False
    define i where "i = j - (R + d)"
    have i: "j = R + d + i" "i < run" using False j by (simp_all add: i_def)
    then show ?thesis using at [OF i(2)] src [OF i(2)] by (simp add: add.assoc)
  qed
  have u: "u32 (?w + run) = ?w + run" "u32 (?p + run) = ?p + run" using fit g by simp_all
  have w: "(if ?g \<le> ?w + run then ?w + run - ?g else ?w + run) = (R + (d + run)) mod ?g"
  proof -
    have "(R + (d + run)) mod ?g = (?w + run) mod ?g" by (simp add: c(2) mod_simps add.assoc)
    then show ?thesis using fit(1) g(1) by (auto simp: le_mod_geq)
  qed
  have p: "(?p + run) mod ?b = (R + (d + run)) mod ?b"
  proof -
    have "(R + (d + run)) mod ?b = ((R + d) mod ?b + run) mod ?b" by (simp add: mod_simps add.assoc)
    then show ?thesis unfolding fp(1) [symmetric] by (simp add: mod_simps)
  qed
  have full: "?b \<le> ?p + run \<Longrightarrow> (?p + run) mod ?b = 0" using fit(2) by (simp add: le_antisym)
  let ?st = "advance_stream run st"
  have sel: "sd_ring_size ?st = ?g" "sd_data_bytes ?st = ?b" "sd_psram_base ?st = sd_psram_base st" "sd_data_off ?st = sd_data_off st"
    "sd_looping ?st = sd_looping st" "sd_write_pos ?st = (R + (d + run)) mod ?g"
    "sd_file_pos ?st = (if ?b \<le> ?p + run \<and> sd_looping st then 0 else ?p + run)"
    using w by (simp_all add: advance_stream_def Let_def u)
  have "if sd_looping st then sd_file_pos ?st mod ?b = (R + (d + run)) mod ?b else sd_file_pos ?st = R + (d + run)"
    using p full fp(2) by (simp add: sel(7))
  then show ?thesis unfolding carries_def sel(1-6) using bytes run(2) by blast
qed

section \<open>Every step keeps the invariant\<close>

lemma world_okI:
  assumes "arb_wf (sw_arb w)"
    and "\<And>s t. s < 4 \<Longrightarrow> t < 4 \<Longrightarrow> s \<noteq> t \<Longrightarrow> sd_active (sa_str (sw_arb w) ! s) \<Longrightarrow> sd_active (sa_str (sw_arb w) ! t) \<Longrightarrow>
        apart (sd_psram_base (sa_str (sw_arb w) ! s)) (sd_ring_size (sa_str (sw_arb w) ! s)) (sa_str (sw_arb w) ! t)"
    and "\<And>s. s < 4 \<Longrightarrow> sd_active (sa_str (sw_arb w) ! s) \<Longrightarrow> \<exists>d. carries (src s) (sw_mem w) (sw_read w s) (sa_str (sw_arb w) ! s) d"
  shows "world_ok src w"
  using assms by (simp add: world_ok_def)

lemma world_okD:
  assumes "world_ok src w"
  shows "arb_wf (sw_arb w)"
    and "s < 4 \<Longrightarrow> t < 4 \<Longrightarrow> s \<noteq> t \<Longrightarrow> sd_active (sa_str (sw_arb w) ! s) \<Longrightarrow> sd_active (sa_str (sw_arb w) ! t) \<Longrightarrow>
        apart (sd_psram_base (sa_str (sw_arb w) ! s)) (sd_ring_size (sa_str (sw_arb w) ! s)) (sa_str (sw_arb w) ! t)"
    and "s < 4 \<Longrightarrow> sd_active (sa_str (sw_arb w) ! s) \<Longrightarrow> \<exists>d. carries (src s) (sw_mem w) (sw_read w s) (sa_str (sw_arb w) ! s) d"
  using assms unfolding world_ok_def by blast+

text \<open>A new descriptor on the same ring, and a memory changed in that ring only.\<close>

lemma world_update:
  assumes ok: "world_ok src w" and s: "s < 4" and a': "arb_wf a'"
    and oth: "\<And>t. t \<noteq> s \<Longrightarrow> sa_str a' ! t = sa_str (sw_arb w) ! t"
    and ring: "sd_psram_base (sa_str a' ! s) = sd_psram_base (sa_str (sw_arb w) ! s)"
      "sd_ring_size (sa_str a' ! s) = sd_ring_size (sa_str (sw_arb w) ! s)"
      "sd_active (sa_str a' ! s) = sd_active (sa_str (sw_arb w) ! s)"
    and ca: "sd_active (sa_str a' ! s) \<Longrightarrow> \<exists>d. carries (src s) m' (sw_read w s) (sa_str a' ! s) d"
    and mem: "\<And>x. m' x \<noteq> sw_mem w x \<Longrightarrow> sd_active (sa_str (sw_arb w) ! s) \<and> sd_psram_base (sa_str (sw_arb w) ! s) \<le> x \<and>
        x < sd_psram_base (sa_str (sw_arb w) ! s) + sd_ring_size (sa_str (sw_arb w) ! s)"
  shows "world_ok src (w\<lparr>sw_arb := a', sw_mem := m'\<rparr>)"
proof (rule world_okI)
  let ?a = "sw_arb w"
  show "arb_wf (sw_arb (w\<lparr>sw_arb := a', sw_mem := m'\<rparr>))" using a' by simp
  fix t assume t: "t < 4" "sd_active (sa_str (sw_arb (w\<lparr>sw_arb := a', sw_mem := m'\<rparr>)) ! t)"
  show "\<exists>d. carries (src t) (sw_mem (w\<lparr>sw_arb := a', sw_mem := m'\<rparr>)) (sw_read (w\<lparr>sw_arb := a', sw_mem := m'\<rparr>) t)
      (sa_str (sw_arb (w\<lparr>sw_arb := a', sw_mem := m'\<rparr>)) ! t) d"
  proof (cases "t = s")
    case True
    then show ?thesis using ca t(2) by simp
  next
    case False
    then have at: "sd_active (sa_str ?a ! t)" using t(2) oth by simp
    then obtain d where d: "carries (src t) (sw_mem w) (sw_read w t) (sa_str ?a ! t) d" using world_okD(3) [OF ok t(1)] by blast
    have "0 < sd_ring_size (sa_str ?a ! t)" using d by (simp add: carries_def)
    then have j: "j mod sd_ring_size (sa_str ?a ! t) < sd_ring_size (sa_str ?a ! t)" for j by simp
    have same: "m' (sd_psram_base (sa_str ?a ! t) + j mod sd_ring_size (sa_str ?a ! t)) =
        sw_mem w (sd_psram_base (sa_str ?a ! t) + j mod sd_ring_size (sa_str ?a ! t))" for j
    proof (rule ccontr)
      assume "m' (sd_psram_base (sa_str ?a ! t) + j mod sd_ring_size (sa_str ?a ! t)) \<noteq>
        sw_mem w (sd_psram_base (sa_str ?a ! t) + j mod sd_ring_size (sa_str ?a ! t))"
      note m = mem [OF this]
      then have "apart (sd_psram_base (sa_str ?a ! s)) (sd_ring_size (sa_str ?a ! s)) (sa_str ?a ! t)"
        using world_okD(2) [OF ok s t(1)] False at by simp
      then show False using m j [of j] by (auto simp: apart_def)
    qed
    have "carries (src t) m' (sw_read w t) (sa_str ?a ! t) d" using d unfolding carries_def same .
    then show ?thesis using oth [OF False] by auto
  qed
next
  fix t u assume tu: "t < 4" "u < 4" "t \<noteq> u" "sd_active (sa_str (sw_arb (w\<lparr>sw_arb := a', sw_mem := m'\<rparr>)) ! t)"
    "sd_active (sa_str (sw_arb (w\<lparr>sw_arb := a', sw_mem := m'\<rparr>)) ! u)"
  have f: "sd_psram_base (sa_str a' ! v) = sd_psram_base (sa_str (sw_arb w) ! v)" "sd_ring_size (sa_str a' ! v) = sd_ring_size (sa_str (sw_arb w) ! v)"
    "sd_active (sa_str a' ! v) = sd_active (sa_str (sw_arb w) ! v)" for v
    using oth [of v] ring by (cases "v = s"; simp)+
  show "apart (sd_psram_base (sa_str (sw_arb (w\<lparr>sw_arb := a', sw_mem := m'\<rparr>)) ! t)) (sd_ring_size (sa_str (sw_arb (w\<lparr>sw_arb := a', sw_mem := m'\<rparr>)) ! t))
      (sa_str (sw_arb (w\<lparr>sw_arb := a', sw_mem := m'\<rparr>)) ! u)"
    using world_okD(2) [OF ok tu(1-3)] tu(4,5) by (simp add: apart_def f)
qed

lemma rewind_carries:
  assumes ok: "world_ok src w" and s: "s < 4" "needs_data pl p (sw_arb w) s"
  shows "\<exists>d. carries (src s) (sw_mem w) (sw_read w s) (sa_str (rewind (sw_arb w) s) ! s) d"
    and "sd_psram_base (sa_str (rewind (sw_arb w) s) ! s) = sd_psram_base (sa_str (sw_arb w) ! s)"
    and "sd_ring_size (sa_str (rewind (sw_arb w) s) ! s) = sd_ring_size (sa_str (sw_arb w) ! s)"
    and "sd_active (sa_str (rewind (sw_arb w) s) ! s)" and "sd_active (sa_str (sw_arb w) ! s)"
    and "t \<noteq> s \<Longrightarrow> sa_str (rewind (sw_arb w) s) ! t = sa_str (sw_arb w) ! t"
proof -
  let ?a = "sw_arb w"
  have wf: "arb_wf ?a" by (rule world_okD(1) [OF ok])
  have len: "s < length (sa_str ?a)" using wf s(1) by (simp add: arb_wf_def)
  have act: "sd_active (sa_str ?a ! s)" and loop: "sd_data_bytes (sa_str ?a ! s) \<le> sd_file_pos (sa_str ?a ! s) \<Longrightarrow> sd_looping (sa_str ?a ! s)"
    using s(2) by (auto simp: needs_data_def Let_def split: if_splits)
  show "sd_active (sa_str ?a ! s)" by (rule act)
  show "sd_psram_base (sa_str (rewind ?a s) ! s) = sd_psram_base (sa_str ?a ! s)"
    "sd_ring_size (sa_str (rewind ?a s) ! s) = sd_ring_size (sa_str ?a ! s)" "sd_active (sa_str (rewind ?a s) ! s)"
    "t \<noteq> s \<Longrightarrow> sa_str (rewind ?a s) ! t = sa_str ?a ! t"
    using len act by simp_all
  obtain d where d: "carries (src s) (sw_mem w) (sw_read w s) (sa_str ?a ! s) d" using world_okD(3) [OF ok s(1) act] by blast
  have "sd_ok (sa_chunk ?a) (sa_str ?a ! s)" using wf s(1) act by (simp add: arb_wf_def)
  then show "\<exists>d. carries (src s) (sw_mem w) (sw_read w s) (sa_str (rewind ?a s) ! s) d"
    using d carries_rewind [OF d loop] len by auto
qed

text \<open>The fill at which a stream becomes ready.\<close>

definition head_of :: "stream_arb \<Rightarrow> nat \<Rightarrow> nat" where
  "head_of a s = (let head = (if sd_prime_bytes (sa_str a ! s) \<noteq> 0 then sd_prime_bytes (sa_str a ! s) else target_of a s)
                  in if target_of a s < head then target_of a s else head)"

lemma levels_shape:
  assumes "sd_ring_size (sa_str a' ! s) = sd_ring_size (sa_str a ! s)" and "sd_prime_bytes (sa_str a' ! s) = sd_prime_bytes (sa_str a ! s)"
    and "sa_chunk a' = sa_chunk a" and "sa_high_wm a' = sa_high_wm a"
  shows "target_of a' s = target_of a s" and "head_of a' s = head_of a s"
  using assms by (simp_all add: target_of_def head_of_def Let_def)

lemma mark_primed_at:
  assumes "s < length (sa_str a)"
  shows "sa_str (mark_primed pl p a s) ! s =
    (sa_str a ! s)\<lparr>sd_primed := sd_primed (sa_str a ! s) \<or> head_of a s \<le> fill_of pl p a s\<rparr>"
proof -
  have "mark_primed pl p a s = (if sd_primed (sa_str a ! s) \<or> \<not> head_of a s \<le> fill_of pl p a s then a
      else at_stream a s (\<lambda>st. st\<lparr>sd_primed := True\<rparr>))"
    by (simp add: mark_primed_def head_of_def Let_def)
  then show ?thesis using assms by simp
qed

text \<open>The stream that was served, after its transfer was accepted.\<close>

lemma sent_effect:
  fixes w :: sd_world
  assumes ok: "world_ok src w" and s: "s < 4" "needs_data pl (sw_mem w) (sw_arb w) s"
    and run: "run = run_length pl (sw_mem w) (rewind (sw_arb w) s) s" "0 < run"
    and off: "pl_offload pl (sw_mem w) s (u32 (sd_psram_base (sa_str (rewind (sw_arb w) s) ! s) + sd_write_pos (sa_str (rewind (sw_arb w) s) ! s)))
         (u32 (sd_data_off (sa_str (rewind (sw_arb w) s) ! s) + sd_file_pos (sa_str (rewind (sw_arb w) s) ! s))) run = (True, m')"
    and a': "a' = (mark_primed pl m' (at_stream (rewind (sw_arb w) s) s (advance_stream run)) s)\<lparr>sa_rr := r\<rparr>"
    and wf': "arb_wf a'" and pl: "pl = world_plat src bz (sw_arb w) (sw_read w)"
  shows "\<exists>d. carries (src s) (sw_mem w) (sw_read w s) (sa_str (sw_arb w) ! s) d \<and> d + run \<le> target_of (sw_arb w) s \<and>
      carries (src s) m' (sw_read w s) (sa_str a' ! s) (d + run) \<and>
      sa_str a' ! s = (advance_stream run (sa_str (rewind (sw_arb w) s) ! s))
        \<lparr>sd_primed := sd_primed (sa_str (sw_arb w) ! s) \<or> head_of (sw_arb w) s \<le> d + run\<rparr>"
    and "t \<noteq> s \<Longrightarrow> sa_str a' ! t = sa_str (sw_arb w) ! t"
    and "sa_chunk a' = sa_chunk (sw_arb w)" and "sa_high_wm a' = sa_high_wm (sw_arb w)" and "run mod 4 = 0"
    and "world_ok src (w\<lparr>sw_arb := a', sw_mem := m'\<rparr>)"
proof -
  let ?a = "sw_arb w"
  let ?a1 = "rewind ?a s"
  let ?st = "sa_str ?a1 ! s" and ?a2 = "at_stream ?a1 s (advance_stream run)"
  have wf: "arb_wf ?a" by (rule world_okD(1) [OF ok])
  note rb = run_bounds [OF wf s run] and rw = rewind_carries [OF ok s]
  show "run mod 4 = 0" by (rule rb(1))
  have len0: "s < length (sa_str ?a)" using wf s(1) by (simp add: arb_wf_def)
  then have len: "s < length (sa_str ?a1)" by simp
  then have len2: "s < length (sa_str ?a2)" by simp
  obtain d where d: "carries (src s) (sw_mem w) (sw_read w s) ?st d" using rw(1) by blast
  obtain d0 where d0: "carries (src s) (sw_mem w) (sw_read w s) (sa_str ?a ! s) d0" using world_okD(3) [OF ok s(1) rw(5)] by blast
  have c4: "4 \<le> sa_chunk ?a" using wf by (simp add: arb_wf_def)
  have "fill_of pl (sw_mem w) ?a1 s = d" unfolding pl
    by (rule world_fill [OF rb(6) c4]) (use d rw(3) in \<open>simp_all add: carries_def\<close>)
  then have fill: "fill_of pl (sw_mem w) ?a s = d" using len0 by simp
  have d0d: "d0 = d" using carries_unread [where rd = "sw_read w", OF wf s(1) rw(5) d0] fill unfolding pl by simp
  have "sd_ok (sa_chunk ?a1) (sa_str ?a1 ! s)" "4 \<le> sa_chunk ?a1" using rb(6) c4 by simp_all
  from target_le(1) [OF this] len0 have "target_of ?a s + sa_chunk ?a \<le> sd_ring_size ?st" by simp
  then have room: "d + run < sd_ring_size ?st" using rb(3) fill c4 by linarith
  have addr: "u32 (sd_psram_base ?st + sd_write_pos ?st) = sd_psram_base ?st + sd_write_pos ?st"
    "u32 (sd_data_off ?st + sd_file_pos ?st) = sd_data_off ?st + sd_file_pos ?st"
    using rb(6) by (auto simp: sd_ok_def intro!: u32_id)
  have m': "m' = (\<lambda>x. if sd_psram_base ?st + sd_write_pos ?st \<le> x \<and> x < sd_psram_base ?st + sd_write_pos ?st + run
      then src s (sd_data_off ?st + sd_file_pos ?st + (x - (sd_psram_base ?st + sd_write_pos ?st))) else sw_mem w x)"
    using off unfolding addr pl by (simp add: world_plat_def split: if_splits)
  have ca: "carries (src s) m' (sw_read w s) (advance_stream run ?st) (d + run)"
    unfolding m' by (rule carries_sent [OF rb(6) c4 d run(2) room rb(4,5)])
  have at2: "sa_str ?a2 ! s = advance_stream run ?st" using len by simp
  have adv: "sd_psram_base ((advance_stream run x)\<lparr>sd_primed := pr\<rparr>) = sd_psram_base x"
      "sd_ring_size ((advance_stream run x)\<lparr>sd_primed := pr\<rparr>) = sd_ring_size x"
      "sd_active ((advance_stream run x)\<lparr>sd_primed := pr\<rparr>) = sd_active x"
      "sd_prime_bytes (advance_stream run x) = sd_prime_bytes x" "sd_primed (advance_stream run x) = sd_primed x"
      "sd_ring_size (advance_stream run x) = sd_ring_size x" for x pr by (simp_all add: advance_stream_def Let_def)
  have keep: "sd_prime_bytes ?st = sd_prime_bytes (sa_str ?a ! s)" "sd_primed ?st = sd_primed (sa_str ?a ! s)"
    "sd_ring_size ?st = sd_ring_size (sa_str ?a ! s)" using len0 by simp_all
  have okadv: "sd_ok (sa_chunk ?a) (advance_stream run ?st)" by (rule advance_ok [OF rb(6,1,4,5)])
  have "head_of ?a2 s = head_of ?a s"
    by (rule levels_shape(2)) (simp_all add: at2 adv keep)
  moreover have "fill_of pl m' ?a2 s = d + run" unfolding pl
  proof (rule world_fill [OF _ c4])
    show "sd_ok (sa_chunk ?a) (sa_str ?a2 ! s)" using okadv at2 by simp
    show "sd_write_pos (sa_str ?a2 ! s) = (sw_read w s + (d + run)) mod sd_ring_size (sa_str ?a2 ! s)"
      "d + run < sd_ring_size (sa_str ?a2 ! s)" using ca unfolding at2 carries_def by blast+
    show "sd_ring_size (sa_str ?a ! s) = sd_ring_size (sa_str ?a2 ! s)" by (simp add: at2 adv keep)
  qed
  ultimately have a's: "sa_str a' ! s = (advance_stream run ?st)\<lparr>sd_primed := sd_primed (sa_str ?a ! s) \<or> head_of ?a s \<le> d + run\<rparr>"
    using mark_primed_at [OF len2, of pl m'] unfolding a' at2 by (simp add: adv keep)
  have "carries (src s) m' (sw_read w s) (sa_str a' ! s) (d + run)" using ca unfolding a's carries_primed .
  moreover have "d + run \<le> target_of ?a s" using rb(3) fill by simp
  ultimately show "\<exists>d. carries (src s) (sw_mem w) (sw_read w s) (sa_str ?a ! s) d \<and> d + run \<le> target_of ?a s \<and>
      carries (src s) m' (sw_read w s) (sa_str a' ! s) (d + run) \<and>
      sa_str a' ! s = (advance_stream run ?st)\<lparr>sd_primed := sd_primed (sa_str ?a ! s) \<or> head_of ?a s \<le> d + run\<rparr>"
    using a's d0 unfolding d0d by blast
  have a't: "sa_str a' ! t = sa_str ?a ! t" if "t \<noteq> s" for t
    using mark_primed_sel(4) [OF len2 that, of pl m'] len0 that unfolding a' by simp
  then show "t \<noteq> s \<Longrightarrow> sa_str a' ! t = sa_str (sw_arb w) ! t" .
  show "sa_chunk a' = sa_chunk ?a" "sa_high_wm a' = sa_high_wm ?a"
    using mark_primed_sel(1,2) [OF len2, of pl m'] by (simp_all add: a')
  show "world_ok src (w\<lparr>sw_arb := a', sw_mem := m'\<rparr>)"
  proof (rule world_update [OF ok s(1) wf' a't])
    show "sd_psram_base (sa_str a' ! s) = sd_psram_base (sa_str (sw_arb w) ! s)"
      "sd_ring_size (sa_str a' ! s) = sd_ring_size (sa_str (sw_arb w) ! s)"
      "sd_active (sa_str a' ! s) = sd_active (sa_str (sw_arb w) ! s)"
      by (simp_all only: a's adv rw(2-5))
    show "\<exists>d. carries (src s) m' (sw_read w s) (sa_str a' ! s) d" using ca unfolding a's carries_primed by blast
    show "sd_active (sa_str (sw_arb w) ! s) \<and> sd_psram_base (sa_str (sw_arb w) ! s) \<le> x \<and>
        x < sd_psram_base (sa_str (sw_arb w) ! s) + sd_ring_size (sa_str (sw_arb w) ! s)" if "m' x \<noteq> sw_mem w x" for x
      using that rw(2,3,5) rb(4) unfolding m' by (auto split: if_splits)
  qed
qed

lemma quiet_effect:
  assumes sv: "hx421_stream_service (world_plat src bz (sw_arb w) (sw_read w)) (sw_arb w) (sw_mem w) = (False, a', m')"
  defines "pl \<equiv> world_plat src bz (sw_arb w) (sw_read w)"
  shows "m' = sw_mem w" and "(a' = sw_arb w \<and> (\<forall>s<4. \<not> needs_data pl (sw_mem w) (sw_arb w) s)) \<or>
    (\<exists>s<4. needs_data pl (sw_mem w) (sw_arb w) s \<and> a' = rewind (sw_arb w) s \<and> (bz \<or> run_length pl (sw_mem w) (rewind (sw_arb w) s) s = 0))"
proof -
  have "m' = sw_mem w \<and> ((a' = sw_arb w \<and> (\<forall>s<4. \<not> needs_data pl (sw_mem w) (sw_arb w) s)) \<or>
    (\<exists>s<4. needs_data pl (sw_mem w) (sw_arb w) s \<and> a' = rewind (sw_arb w) s \<and> (bz \<or> run_length pl (sw_mem w) (rewind (sw_arb w) s) s = 0)))"
    using sv unfolding pl_def [symmetric]
  proof (cases rule: service_cases)
    case idle
    then show ?thesis by simp
  next
    case (small s)
    then show ?thesis by blast
  next
    case (busy s run)
    then have "m' = sw_mem w" "bz" by (simp_all add: pl_def world_plat_def split: if_splits)
    then show ?thesis using busy by blast
  qed simp
  then show "m' = sw_mem w" and "(a' = sw_arb w \<and> (\<forall>s<4. \<not> needs_data pl (sw_mem w) (sw_arb w) s)) \<or>
    (\<exists>s<4. needs_data pl (sw_mem w) (sw_arb w) s \<and> a' = rewind (sw_arb w) s \<and> (bz \<or> run_length pl (sw_mem w) (rewind (sw_arb w) s) s = 0))" by blast+
qed

lemma service_world:
  assumes ok: "world_ok src w"
    and sv: "hx421_stream_service (world_plat src bz (sw_arb w) (sw_read w)) (sw_arb w) (sw_mem w) = (b, a', m')"
  shows "world_ok src (w\<lparr>sw_arb := a', sw_mem := m'\<rparr>)"
proof (cases b)
  case False
  have "hx421_stream_service (world_plat src bz (sw_arb w) (sw_read w)) (sw_arb w) (sw_mem w) = (False, a', m')" using sv False by simp
  note q = quiet_effect [OF this]
  have wf': "arb_wf a'" by (rule service_wf [OF world_okD(1) [OF ok] sv])
  show ?thesis
  proof (cases "a' = sw_arb w")
    case True
    then show ?thesis using ok q(1) by simp
  next
    case False
    then obtain s where s: "s < 4" "needs_data (world_plat src bz (sw_arb w) (sw_read w)) (sw_mem w) (sw_arb w) s" "a' = rewind (sw_arb w) s"
      using q(2) by blast
    then show ?thesis using rewind_carries [OF ok s(1,2)] wf' q(1) by (intro world_update [OF ok s(1)]) simp_all
  qed
next
  case True
  have wf': "arb_wf a'" by (rule service_wf [OF world_okD(1) [OF ok] sv])
  from sv show ?thesis
  proof (cases rule: service_cases)
    case (sent s run)
    show ?thesis by (rule sent_effect(6) [OF ok sent(1-5,7) wf' refl])
  qed (use True in simp_all)
qed

end
