(* ===== verification/Sd_Props.thy ===== *)
theory Sd_Props
  imports Sd_World
begin

text \<open>
  The reachable states of the SD streams, what the mixer reads from them, and when a stream
  becomes ready.
\<close>

section \<open>The other steps\<close>

lemma start_world:
  assumes ok: "world_ok src w" and st: "hx421_stream_start (sw_arb w) s base ring off bytes loop prime prio = (0, a')"
    and sz: "ring \<le> 1073741824" "base + ring \<le> 4294967296" "off + bytes < 4294967296"
    and ap: "\<forall>t<4. t \<noteq> nat s \<longrightarrow> sd_active (sa_str (sw_arb w) ! t) \<longrightarrow> apart base ring (sa_str (sw_arb w) ! t)"
  shows "world_ok src (w\<lparr>sw_arb := a', sw_read := (sw_read w)(nat s := 0)\<rparr>)"
proof -
  let ?a = "sw_arb w" and ?s = "nat s"
  have wf: "arb_wf ?a" by (rule world_okD(1) [OF ok])
  define new where "new = (sa_str ?a ! ?s)\<lparr>sd_psram_base := base, sd_ring_size := ring, sd_data_off := off,
      sd_data_bytes := frame_floor bytes, sd_prime_bytes := frame_floor prime, sd_write_pos := 0, sd_file_pos := 0, sd_looping := loop,
      sd_primed := False, sd_prio := (if prio < 0 then 0 else if 3 < prio then 3 else nat prio), sd_active := True\<rparr>"
  have s: "?s < 4" and req: "u32 (2 * sa_chunk ?a) \<le> ring" "ring mod 4 = 0" "4 \<le> bytes" and a': "a' = at_stream ?a ?s (\<lambda>_. new)"
    using st unfolding at_stream_def by (auto simp: hx421_stream_start_def HX421_STREAM_MAX_def FRAME_def new_def at_stream_def split: if_splits)
  have ring: "2 * sa_chunk ?a \<le> ring" "0 < ring" using req(1) wf by (auto simp: arb_wf_def)
  have b: "4 \<le> frame_floor bytes" "frame_floor bytes mod 4 = 0" "frame_floor bytes \<le> bytes" "frame_floor prime mod 4 = 0"
    using req(3) frame_floor_mult frame_floor_ge by simp_all
  have "sd_ok (sa_chunk ?a) new" using ring req(2) sz b by (simp add: new_def sd_ok_def)
  then have wf': "arb_wf a'" unfolding a' by (intro wf_at_stream [OF wf s]) simp
  have len: "?s < length (sa_str ?a)" using wf s by (simp add: arb_wf_def)
  have at: "sa_str a' ! t = (if t = ?s then new else sa_str ?a ! t)" for t unfolding a' using len by simp
  show ?thesis
  proof (rule world_okI)
    show "arb_wf (sw_arb (w\<lparr>sw_arb := a', sw_read := (sw_read w)(?s := 0)\<rparr>))" using wf' by simp
    fix t assume t: "t < 4" "sd_active (sa_str (sw_arb (w\<lparr>sw_arb := a', sw_read := (sw_read w)(?s := 0)\<rparr>)) ! t)"
    have "carries (src ?s) (sw_mem w) 0 new 0" using ring by (simp add: carries_def new_def)
    then show "\<exists>d. carries (src t) (sw_mem (w\<lparr>sw_arb := a', sw_read := (sw_read w)(?s := 0)\<rparr>))
        (sw_read (w\<lparr>sw_arb := a', sw_read := (sw_read w)(?s := 0)\<rparr>) t) (sa_str (sw_arb (w\<lparr>sw_arb := a', sw_read := (sw_read w)(?s := 0)\<rparr>)) ! t) d"
      using world_okD(3) [OF ok t(1)] t(2) by (cases "t = ?s") (auto simp: at)
  next
    fix t u assume tu: "t < 4" "u < 4" "t \<noteq> u" "sd_active (sa_str (sw_arb (w\<lparr>sw_arb := a', sw_read := (sw_read w)(?s := 0)\<rparr>)) ! t)"
      "sd_active (sa_str (sw_arb (w\<lparr>sw_arb := a', sw_read := (sw_read w)(?s := 0)\<rparr>)) ! u)"
    have n: "sd_psram_base new = base" "sd_ring_size new = ring" by (simp_all add: new_def)
    consider "t = ?s" "u \<noteq> ?s" | "t \<noteq> ?s" "u = ?s" | "t \<noteq> ?s" "u \<noteq> ?s" using tu(3) by blast
    then show "apart (sd_psram_base (sa_str (sw_arb (w\<lparr>sw_arb := a', sw_read := (sw_read w)(?s := 0)\<rparr>)) ! t))
        (sd_ring_size (sa_str (sw_arb (w\<lparr>sw_arb := a', sw_read := (sw_read w)(?s := 0)\<rparr>)) ! t))
        (sa_str (sw_arb (w\<lparr>sw_arb := a', sw_read := (sw_read w)(?s := 0)\<rparr>)) ! u)"
    proof cases
      case 1
      then show ?thesis using ap tu by (simp add: at n)
    next
      case 2
      then have "apart base ring (sa_str ?a ! t)" using ap tu by (simp add: at)
      then show ?thesis using 2 by (auto simp: at n apart_def)
    next
      case 3
      then show ?thesis using world_okD(2) [OF ok tu(1-3)] tu(4,5) by (simp add: at)
    qed
  qed
qed

lemma stop_world:
  assumes ok: "world_ok src w"
  shows "world_ok src (w\<lparr>sw_arb := hx421_stream_stop (sw_arb w) s\<rparr>)"
proof (cases "0 \<le> s \<and> s < 4")
  case False
  then have "hx421_stream_stop (sw_arb w) s = sw_arb w" by (auto simp: hx421_stream_stop_def HX421_STREAM_MAX_def)
  then show ?thesis using ok by simp
next
  case True
  let ?a = "sw_arb w"
  let ?a' = "at_stream ?a (nat s) (\<lambda>st. st\<lparr>sd_active := False\<rparr>)"
  have wf: "arb_wf ?a" by (rule world_okD(1) [OF ok])
  have "nat s < 4" using True by linarith
  then have wf': "arb_wf ?a'" by (intro wf_at_stream [OF wf]) simp_all
  have len: "nat s < length (sa_str ?a)" using wf True by (auto simp: arb_wf_def)
  have at: "sa_str ?a' ! t = (if t = nat s then (sa_str ?a ! nat s)\<lparr>sd_active := False\<rparr> else sa_str ?a ! t)" for t using len by simp
  have "world_ok src (w\<lparr>sw_arb := ?a'\<rparr>)"
    by (rule world_okI) (use wf' world_okD [OF ok] in \<open>auto simp: at split: if_splits\<close>)
  then show ?thesis using True by (simp add: hx421_stream_stop_def HX421_STREAM_MAX_def)
qed

lemma mix_world:
  assumes ok: "world_ok src w" and s: "s < 4" "sd_active (sa_str (sw_arb w) ! s)" and n: "n \<le> unread w s"
  shows "world_ok src (w\<lparr>sw_read := (sw_read w)(s := sw_read w s + n)\<rparr>)"
proof (rule world_okI)
  let ?w = "w\<lparr>sw_read := (sw_read w)(s := sw_read w s + n)\<rparr>"
  show "arb_wf (sw_arb ?w)" using world_okD(1) [OF ok] by simp
  show "apart (sd_psram_base (sa_str (sw_arb ?w) ! t)) (sd_ring_size (sa_str (sw_arb ?w) ! t)) (sa_str (sw_arb ?w) ! u)"
    if "t < 4" "u < 4" "t \<noteq> u" "sd_active (sa_str (sw_arb ?w) ! t)" "sd_active (sa_str (sw_arb ?w) ! u)" for t u
    using world_okD(2) [OF ok that(1-3)] that(4,5) by simp
  fix t assume t: "t < 4" "sd_active (sa_str (sw_arb ?w) ! t)"
  show "\<exists>d. carries (src t) (sw_mem ?w) (sw_read ?w t) (sa_str (sw_arb ?w) ! t) d"
  proof (cases "t = s")
    case False
    then show ?thesis using world_okD(3) [OF ok t(1)] t(2) by simp
  next
    case True
    obtain d where d: "carries (src s) (sw_mem w) (sw_read w s) (sa_str (sw_arb w) ! s) d" using world_okD(3) [OF ok s] by blast
    have "unread w s = d" unfolding unread_def by (rule carries_unread [where rd = "sw_read w", OF world_okD(1) [OF ok] s d])
    then have "carries (src s) (sw_mem w) (sw_read w s + n) (sa_str (sw_arb w) ! s) (d - n)"
      using d n by (auto simp: carries_def)
    then show ?thesis using True by auto
  qed
qed

lemma init_world:
  assumes "length (sa_str a) = 4" and "chunk < 2147483648" and "high mod 4 = 0"
  shows "world_ok src \<lparr>sw_arb = hx421_stream_arb_init a chunk low high, sw_mem = m, sw_read = (\<lambda>_. 0)\<rparr>"
proof (rule world_okI)
  let ?a = "hx421_stream_arb_init a chunk low high"
  have inact: "\<not> sd_active (sa_str ?a ! s)" if "s < 4" for s using assms(1) that by (simp add: hx421_stream_arb_init_def Let_def)
  have c: "frame_floor chunk \<le> chunk" "frame_floor chunk mod 4 = 0" using frame_floor_mult by simp_all
  show "arb_wf (sw_arb \<lparr>sw_arb = ?a, sw_mem = m, sw_read = (\<lambda>_. 0)\<rparr>)"
    using inact assms c by (simp add: arb_wf_def hx421_stream_arb_init_def Let_def FRAME_def)
qed (use assms(1) in \<open>simp_all add: hx421_stream_arb_init_def Let_def\<close>)

lemma sd_step_ok: "sd_step src w w' \<Longrightarrow> world_ok src w \<Longrightarrow> world_ok src w'"
proof (induction rule: sd_step.induct)
  case (start w s base ring off bytes loop prime prio a')
  then show ?case by (intro start_world)
qed (auto intro: stop_world service_world mix_world)

lemma sd_reach_ok: "sd_reach src w \<Longrightarrow> world_ok src w"
  by (induction rule: sd_reach.induct) (auto intro: init_world sd_step_ok)

section \<open>A small world\<close>

text \<open>One call of the service on a platform that is not busy.\<close>

definition serve :: "(nat \<Rightarrow> nat \<Rightarrow> byte) \<Rightarrow> sd_world \<Rightarrow> sd_world" where
  "serve src w = (case hx421_stream_service (world_plat src False (sw_arb w) (sw_read w)) (sw_arb w) (sw_mem w) of
     (b, a, m) \<Rightarrow> w\<lparr>sw_arb := a, sw_mem := m\<rparr>)"

lemma serve_step: "sd_step src w (serve src w)"
proof -
  obtain b a m where sv: "hx421_stream_service (world_plat src False (sw_arb w) (sw_read w)) (sw_arb w) (sw_mem w) = (b, a, m)"
    by (metis prod_cases3)
  show ?thesis using sd_step.service [OF sv] by (simp add: serve_def sv)
qed

text \<open>One stream of four bytes on a ring of sixteen, primed with eight.\<close>

definition no_stream :: sd_stream where
  "no_stream = \<lparr>sd_psram_base = 0, sd_ring_size = 0, sd_data_off = 0, sd_data_bytes = 0, sd_prime_bytes = 0, sd_write_pos = 0,
     sd_file_pos = 0, sd_active = False, sd_looping = False, sd_primed = False, sd_prio = 0\<rparr>"

definition no_arb :: stream_arb where
  "no_arb = \<lparr>sa_str = [no_stream, no_stream, no_stream, no_stream], sa_chunk = 0, sa_low_wm = 0, sa_high_wm = 0, sa_rr = 0\<rparr>"

definition small_start :: "bool \<Rightarrow> int \<times> stream_arb" where
  "small_start loop = hx421_stream_start (hx421_stream_arb_init no_arb 4 0 0) 0 0 16 0 4 loop 8 0"

definition small_world :: "bool \<Rightarrow> sd_world" where
  "small_world loop = \<lparr>sw_arb = snd (small_start loop), sw_mem = (\<lambda>_. 0), sw_read = (\<lambda>_. 0)\<rparr>"

lemmas small_defs = small_start_def hx421_stream_start_def hx421_stream_arb_init_def no_arb_def no_stream_def
  HX421_STREAM_MAX_def FRAME_def frame_floor_def at_stream_def u32_def

lemma small_arb: "small_start loop = (0, \<lparr>sa_str = [\<lparr>sd_psram_base = 0, sd_ring_size = 16, sd_data_off = 0, sd_data_bytes = 4,
     sd_prime_bytes = 8, sd_write_pos = 0, sd_file_pos = 0, sd_active = True, sd_looping = loop, sd_primed = False, sd_prio = 0\<rparr>,
     no_stream, no_stream, no_stream], sa_chunk = 4, sa_low_wm = 0, sa_high_wm = 0, sa_rr = 0\<rparr>)"
  by (simp add: small_defs)

lemma init_idle: "t < length (sa_str a) \<Longrightarrow> \<not> sd_active (sa_str (hx421_stream_arb_init a c l h) ! t)"
  by (simp add: hx421_stream_arb_init_def Let_def)

lemma small_reach: "sd_reach src (small_world loop)"
proof -
  let ?a = "hx421_stream_arb_init no_arb 4 0 0"
  let ?w = "\<lparr>sw_arb = ?a, sw_mem = (\<lambda>_. 0), sw_read = (\<lambda>_. 0)\<rparr>"
  have r: "sd_reach src ?w" by (rule sd_reach.init) (simp_all add: no_arb_def)
  have st: "hx421_stream_start (sw_arb ?w) 0 0 16 0 4 loop 8 0 = (0, snd (small_start loop))"
    using small_arb [of loop] by (simp add: small_start_def)
  have "sd_step src ?w (?w\<lparr>sw_arb := snd (small_start loop), sw_read := (sw_read ?w)(nat 0 := 0)\<rparr>)"
    by (rule sd_step.start [OF st]) (use init_idle [of _ no_arb 4 0 0] in \<open>simp_all add: no_arb_def\<close>)
  then have "sd_step src ?w (small_world loop)" by (simp add: small_world_def fun_upd_idem)
  then show ?thesis by (rule sd_reach.step [OF r])
qed

text \<open>Its first transfer: four bytes, after which the looping source is at its start again.\<close>

definition small_sent :: stream_arb where
  "small_sent = \<lparr>sa_str = [\<lparr>sd_psram_base = 0, sd_ring_size = 16, sd_data_off = 0, sd_data_bytes = 4,
     sd_prime_bytes = 8, sd_write_pos = 4, sd_file_pos = 0, sd_active = True, sd_looping = True, sd_primed = False, sd_prio = 0\<rparr>,
     no_stream, no_stream, no_stream], sa_chunk = 4, sa_low_wm = 0, sa_high_wm = 0, sa_rr = 1\<rparr>"

lemma small_served:
  fixes src :: "nat \<Rightarrow> nat \<Rightarrow> byte"
  defines "w \<equiv> serve src (small_world True)"
  shows "sw_arb w = small_sent" and "sw_read w = (\<lambda>_. 0)"
proof -
  let ?a = "snd (small_start True)"
  let ?pl = "world_plat src False ?a (\<lambda>_. 0)"
  let ?a1 = "at_stream ?a 0 (advance_stream 4)"
  define m :: "nat \<Rightarrow> byte" where "m = (\<lambda>_. 0)"
  define m' where "m' = snd (pl_offload ?pl m 0 0 0 4)"
  have sw: "small_world True = \<lparr>sw_arb = ?a, sw_mem = m, sw_read = (\<lambda>_. 0)\<rparr>" by (simp add: small_world_def m_def)
  have tg: "target_of ?a 0 = 12" "target_of ?a1 0 = 12"
    by (simp_all add: small_arb target_of_def FRAME_def advance_stream_def at_stream_def Let_def)
  have fl: "fill_of ?pl q ?a 0 = 0" "fill_of ?pl q ?a1 0 = 4" for q
    by (simp_all add: fill_of_def world_plat_def small_arb u32_def advance_stream_def at_stream_def Let_def)
  have nd: "needs_data ?pl m ?a 0" using tg(1) fl(1) by (simp add: needs_data_def small_arb Let_def)
  have idle: "\<not> needs_data ?pl m ?a i" if "i \<in> {1, 2, 3}" for i
    using that by (auto simp: needs_data_def small_arb no_stream_def Let_def)
  have pick: "pick_stream ?pl m ?a [0..<HX421_STREAM_MAX] (None, 0) = Some 0"
    using nd idle by (simp add: HX421_STREAM_MAX_def upt_conv_Cons Let_def)
  have r: "run_length ?pl m ?a 0 = 4"
    unfolding run_length_def Let_def tg fl by (simp add: small_arb frame_floor_def FRAME_def)
  have off: "pl_offload ?pl m 0 0 0 4 = (True, m')" by (simp add: m'_def world_plat_def)
  have mk: "mark_primed ?pl m' ?a1 0 = ?a1"
    unfolding mark_primed_def Let_def tg fl by (simp add: small_arb advance_stream_def at_stream_def u32_def Let_def)
  have z: "sd_data_bytes (sa_str ?a ! 0) = 4" "sd_file_pos (sa_str ?a ! 0) = 0" "sd_psram_base (sa_str ?a ! 0) = 0"
    "sd_write_pos (sa_str ?a ! 0) = 0" "sd_data_off (sa_str ?a ! 0) = 0" by (simp_all add: small_arb)
  have "hx421_stream_service ?pl ?a m = (True, ?a1\<lparr>sa_rr := 1\<rparr>, m')"
    unfolding hx421_stream_service_def pick option.case Let_def z using r off mk by (simp add: z HX421_STREAM_MAX_def u32_def)
  moreover have "?a1\<lparr>sa_rr := 1\<rparr> = small_sent"
    by (simp add: small_arb small_sent_def advance_stream_def at_stream_def u32_def Let_def)
  ultimately have sv: "hx421_stream_service ?pl ?a m = (True, small_sent, m')" by simp
  show "sw_arb w = small_sent" "sw_read w = (\<lambda>_. 0)" unfolding w_def serve_def sw using sv by simp_all
qed

section \<open>What the mixer hears\<close>



section \<open>Becoming ready\<close>

lemma head_bounds:
  assumes "arb_wf a" and "s < 4" and "sd_active (sa_str a ! s)"
  shows "0 < head_of a s" and "head_of a s \<le> target_of a s"
  using assms target_le(2) [of a s] by (auto simp: head_of_def arb_wf_def Let_def)

lemma unread_eq:
  assumes "world_ok src w" and "s < 4" and "sd_active (sa_str (sw_arb w) ! s)"
    and "carries f m (sw_read w s) (sa_str (sw_arb w) ! s) d"
  shows "unread w s = d" and "fill_of (world_plat src' bz (sw_arb w) (sw_read w)) m' (sw_arb w) s = d"
  unfolding unread_def by (rule carries_unread [where rd = "sw_read w", OF world_okD(1) [OF assms(1)] assms(2-4)])+

lemma unread_cong:
  assumes "sd_ring_size (sa_str (sw_arb v) ! t) = sd_ring_size (sa_str (sw_arb w) ! t)"
    and "sd_write_pos (sa_str (sw_arb v) ! t) = sd_write_pos (sa_str (sw_arb w) ! t)" and "sw_read v t = sw_read w t"
  shows "unread v t = unread w t"
  using assms by (simp add: unread_def fill_of_def world_plat_def Let_def)

definition ready_ok :: "sd_world \<Rightarrow> bool" where
  "ready_ok w \<longleftrightarrow> (\<forall>s<4. sd_active (sa_str (sw_arb w) ! s) \<longrightarrow>
     (\<not> sd_primed (sa_str (sw_arb w) ! s) \<longrightarrow> unread w s < head_of (sw_arb w) s) \<and>
     (\<not> sd_looping (sa_str (sw_arb w) ! s) \<and> sd_data_bytes (sa_str (sw_arb w) ! s) < head_of (sw_arb w) s \<longrightarrow>
        \<not> sd_primed (sa_str (sw_arb w) ! s)))"

text \<open>A step that leaves a stream alone, apart from the position in its file.\<close>

lemma ready_keep:
  assumes "ready_ok w" and "t < 4" and "sd_active (sa_str (sw_arb w) ! t)"
    and st: "\<exists>p. sa_str (sw_arb v) ! t = (sa_str (sw_arb w) ! t)\<lparr>sd_file_pos := p\<rparr>"
    and c: "sa_chunk (sw_arb v) = sa_chunk (sw_arb w)" "sa_high_wm (sw_arb v) = sa_high_wm (sw_arb w)"
    and "unread v t \<le> unread w t"
  shows "(\<not> sd_primed (sa_str (sw_arb v) ! t) \<longrightarrow> unread v t < head_of (sw_arb v) t) \<and>
     (\<not> sd_looping (sa_str (sw_arb v) ! t) \<and> sd_data_bytes (sa_str (sw_arb v) ! t) < head_of (sw_arb v) t \<longrightarrow>
        \<not> sd_primed (sa_str (sw_arb v) ! t))"
proof -
  have "head_of (sw_arb v) t = head_of (sw_arb w) t" by (rule levels_shape(2) [OF _ _ c]) (use st in auto)
  then show ?thesis using assms by (auto simp: ready_ok_def)
qed

lemma same_file: "\<exists>p. st = st\<lparr>sd_file_pos := p\<rparr>"
  by (rule exI [of _ "sd_file_pos st"]) simp

lemma service_ready:
  assumes ok: "world_ok src w" and r: "ready_ok w"
    and sv: "hx421_stream_service (world_plat src bz (sw_arb w) (sw_read w)) (sw_arb w) (sw_mem w) = (b, a', m')"
  shows "ready_ok (w\<lparr>sw_arb := a', sw_mem := m'\<rparr>)"
proof (cases b)
  case False
  then have "hx421_stream_service (world_plat src bz (sw_arb w) (sw_read w)) (sw_arb w) (sw_mem w) = (False, a', m')" using sv by simp
  note q = quiet_effect [OF this]
  have wf: "arb_wf (sw_arb w)" by (rule world_okD(1) [OF ok])
  have st: "\<exists>p. sa_str a' ! t = (sa_str (sw_arb w) ! t)\<lparr>sd_file_pos := p\<rparr>" "sa_chunk a' = sa_chunk (sw_arb w)" "sa_high_wm a' = sa_high_wm (sw_arb w)" for t
    using q(2) same_file [of "sa_str (sw_arb w) ! t"] wf by (auto simp: arb_wf_def)
  show ?thesis unfolding ready_ok_def
  proof (intro allI impI)
    fix t :: nat assume t: "t < 4" "sd_active (sa_str (sw_arb (w\<lparr>sw_arb := a', sw_mem := m'\<rparr>)) ! t)"
    obtain p where p: "sa_str a' ! t = (sa_str (sw_arb w) ! t)\<lparr>sd_file_pos := p\<rparr>" using st(1) by blast
    have "unread (w\<lparr>sw_arb := a', sw_mem := m'\<rparr>) t = unread w t" by (rule unread_cong) (simp_all add: p)
    then show "(\<not> sd_primed (sa_str (sw_arb (w\<lparr>sw_arb := a', sw_mem := m'\<rparr>)) ! t) \<longrightarrow>
          unread (w\<lparr>sw_arb := a', sw_mem := m'\<rparr>) t < head_of (sw_arb (w\<lparr>sw_arb := a', sw_mem := m'\<rparr>)) t) \<and>
        (\<not> sd_looping (sa_str (sw_arb (w\<lparr>sw_arb := a', sw_mem := m'\<rparr>)) ! t) \<and>
         sd_data_bytes (sa_str (sw_arb (w\<lparr>sw_arb := a', sw_mem := m'\<rparr>)) ! t) < head_of (sw_arb (w\<lparr>sw_arb := a', sw_mem := m'\<rparr>)) t \<longrightarrow>
         \<not> sd_primed (sa_str (sw_arb (w\<lparr>sw_arb := a', sw_mem := m'\<rparr>)) ! t))"
      using t p st by (intro ready_keep [OF r t(1)]) auto
  qed
next
  case True
  let ?v = "w\<lparr>sw_arb := a', sw_mem := m'\<rparr>"
  have wf': "arb_wf a'" by (rule service_wf [OF world_okD(1) [OF ok] sv])
  from sv show ?thesis
  proof (cases rule: service_cases)
    case (sent s run)
    note e = sent_effect [OF ok sent(1-5,7) wf' refl]
    obtain d where d: "carries (src s) (sw_mem w) (sw_read w s) (sa_str (sw_arb w) ! s) d" "d + run \<le> target_of (sw_arb w) s"
      "carries (src s) m' (sw_read w s) (sa_str a' ! s) (d + run)"
      "sa_str a' ! s = (advance_stream run (sa_str (rewind (sw_arb w) s) ! s))
        \<lparr>sd_primed := sd_primed (sa_str (sw_arb w) ! s) \<or> head_of (sw_arb w) s \<le> d + run\<rparr>" using e(1) by blast
    have len: "s < length (sa_str (sw_arb w))" using world_okD(1) [OF ok] sent(1) by (simp add: arb_wf_def)
    have adv: "sd_ring_size (sa_str a' ! s) = sd_ring_size (sa_str (sw_arb w) ! s)" "sd_prime_bytes (sa_str a' ! s) = sd_prime_bytes (sa_str (sw_arb w) ! s)"
      "sd_data_bytes (sa_str a' ! s) = sd_data_bytes (sa_str (sw_arb w) ! s)" "sd_looping (sa_str a' ! s) = sd_looping (sa_str (sw_arb w) ! s)"
      "sd_active (sa_str a' ! s) = sd_active (sa_str (sw_arb w) ! s)"
      "sd_primed (sa_str a' ! s) = (sd_primed (sa_str (sw_arb w) ! s) \<or> head_of (sw_arb w) s \<le> d + run)"
      unfolding d(4) using len by (simp_all add: advance_stream_def Let_def)
    have head: "head_of a' s = head_of (sw_arb w) s" by (rule levels_shape(2) [OF adv(1,2) e(3,4)])
    show ?thesis unfolding ready_ok_def
    proof (intro allI impI)
      fix t :: nat assume t: "t < 4" "sd_active (sa_str (sw_arb ?v) ! t)"
      show "(\<not> sd_primed (sa_str (sw_arb ?v) ! t) \<longrightarrow> unread ?v t < head_of (sw_arb ?v) t) \<and>
        (\<not> sd_looping (sa_str (sw_arb ?v) ! t) \<and> sd_data_bytes (sa_str (sw_arb ?v) ! t) < head_of (sw_arb ?v) t \<longrightarrow>
         \<not> sd_primed (sa_str (sw_arb ?v) ! t))"
      proof (cases "t = s")
        case False
        have "unread ?v t = unread w t" by (rule unread_cong) (simp_all add: e(2) [OF False])
        then show ?thesis using t e(2) [OF False] e(3,4) same_file by (intro ready_keep [OF r t(1)]) auto
      next
        case True
        have act: "sd_active (sa_str (sw_arb w) ! s)" using t(2) True adv(5) by simp
        have un: "unread ?v s = d + run" by (rule unread_eq(1) [OF e(6) sent(1)]) (use t(2) True d(3) in simp_all)
        have prev: "\<not> sd_looping (sa_str (sw_arb w) ! s) \<and> sd_data_bytes (sa_str (sw_arb w) ! s) < head_of (sw_arb w) s \<Longrightarrow>
            \<not> sd_primed (sa_str (sw_arb w) ! s)" using r sent(1) act by (simp add: ready_ok_def)
        have "sd_ok (sa_chunk a') (sa_str a' ! s)" using wf' sent(1) t(2) True by (simp add: arb_wf_def)
        then have le: "sd_file_pos (sa_str a' ! s) \<le> sd_data_bytes (sa_str (sw_arb w) ! s)" by (simp add: sd_ok_def adv(3))
        have "d + run \<le> sd_data_bytes (sa_str (sw_arb w) ! s)" if "\<not> sd_looping (sa_str (sw_arb w) ! s)"
          using d(3) that le by (simp add: carries_def adv(4))
        then show ?thesis using True prev un head by (auto simp: adv)
      qed
    qed
  qed (use True in simp_all)
qed

lemma ready_step:
  assumes "sd_step src w w'" and ok: "world_ok src w" and r: "ready_ok w"
  shows "ready_ok w'"
  using assms(1)
proof cases
  case (service bz b a' m')
  then show ?thesis using service_ready [OF ok r] by blast
next
  case (start s base ring off bytes loop prime prio a')
  have ok': "world_ok src w'" unfolding start(1) by (rule start_world [OF ok start(2-6)])
  have s: "nat s < 4" and a': "a' = at_stream (sw_arb w) (nat s) (\<lambda>st. st\<lparr>sd_psram_base := base, sd_ring_size := ring, sd_data_off := off,
      sd_data_bytes := frame_floor bytes, sd_prime_bytes := frame_floor prime, sd_write_pos := 0, sd_file_pos := 0, sd_looping := loop,
      sd_primed := False, sd_prio := (if prio < 0 then 0 else if 3 < prio then 3 else nat prio), sd_active := True\<rparr>)"
    using start(2) by (auto simp: hx421_stream_start_def HX421_STREAM_MAX_def split: if_splits)
  have len: "nat s < length (sa_str (sw_arb w))" using world_okD(1) [OF ok] s by (simp add: arb_wf_def)
  have w': "sw_arb w' = a'" "sw_read w' = (sw_read w)(nat s := 0)" by (simp_all add: start(1))
  have c: "sa_chunk a' = sa_chunk (sw_arb w)" "sa_high_wm a' = sa_high_wm (sw_arb w)" by (simp_all add: a')
  have oth: "sa_str a' ! t = sa_str (sw_arb w) ! t" if "t \<noteq> nat s" for t using that len by (simp add: a')
  have new: "sd_write_pos (sa_str a' ! nat s) = 0" "\<not> sd_primed (sa_str a' ! nat s)" "sd_active (sa_str a' ! nat s)"
    using len by (simp_all add: a')
  show ?thesis unfolding ready_ok_def
  proof (intro allI impI)
    fix t :: nat assume t: "t < 4" "sd_active (sa_str (sw_arb w') ! t)"
    show "(\<not> sd_primed (sa_str (sw_arb w') ! t) \<longrightarrow> unread w' t < head_of (sw_arb w') t) \<and>
      (\<not> sd_looping (sa_str (sw_arb w') ! t) \<and> sd_data_bytes (sa_str (sw_arb w') ! t) < head_of (sw_arb w') t \<longrightarrow>
       \<not> sd_primed (sa_str (sw_arb w') ! t))"
    proof (cases "t = nat s")
      case False
      then have "unread w' t = unread w t" by (intro unread_cong) (simp_all add: w' oth)
      then show ?thesis using t False oth [OF False] c same_file by (intro ready_keep [OF r t(1)]) (auto simp: w')
    next
      case True
      obtain d where d: "carries (src t) (sw_mem w') (sw_read w' t) (sa_str (sw_arb w') ! t) d" using world_okD(3) [OF ok' t] by blast
      have un: "unread w' t = d" by (rule unread_eq(1) [OF ok' t d])
      have "d < sd_ring_size (sa_str a' ! t)" "d mod sd_ring_size (sa_str a' ! t) = 0"
        using d new(1) True by (simp_all add: carries_def w')
      then have "d = 0" by simp
      then show ?thesis using un head_bounds(1) [OF world_okD(1) [OF ok'] t] True new(2) by (simp add: w')
    qed
  qed
next
  case (stop s)
  show ?thesis
  proof (cases "0 \<le> s \<and> s < 4")
    case False
    then have "sw_arb w' = sw_arb w" by (auto simp: stop hx421_stream_stop_def HX421_STREAM_MAX_def)
    then show ?thesis using r stop by simp
  next
    case True
    have len: "nat s < length (sa_str (sw_arb w))" using world_okD(1) [OF ok] True by (auto simp: arb_wf_def)
    have w': "sw_arb w' = at_stream (sw_arb w) (nat s) (\<lambda>st. st\<lparr>sd_active := False\<rparr>)" "sw_read w' = sw_read w"
      using True by (simp_all add: stop hx421_stream_stop_def HX421_STREAM_MAX_def)
    show ?thesis unfolding ready_ok_def
    proof (intro allI impI)
      fix t :: nat assume t: "t < 4" "sd_active (sa_str (sw_arb w') ! t)"
      then have "t \<noteq> nat s" using len by (auto simp: w')
      then have at: "sa_str (sw_arb w') ! t = sa_str (sw_arb w) ! t" using len by (simp add: w')
      have "unread w' t = unread w t" by (rule unread_cong) (simp_all add: at w'(2))
      then show "(\<not> sd_primed (sa_str (sw_arb w') ! t) \<longrightarrow> unread w' t < head_of (sw_arb w') t) \<and>
        (\<not> sd_looping (sa_str (sw_arb w') ! t) \<and> sd_data_bytes (sa_str (sw_arb w') ! t) < head_of (sw_arb w') t \<longrightarrow>
         \<not> sd_primed (sa_str (sw_arb w') ! t))"
        using t at same_file by (intro ready_keep [OF r t(1)]) (auto simp: w'(1))
    qed
  qed
next
  case (mix s n)
  have ok': "world_ok src w'" unfolding mix(1) by (rule mix_world [OF ok mix(2-4)])
  have w': "sw_arb w' = sw_arb w" "sw_mem w' = sw_mem w" "sw_read w' = (sw_read w)(s := sw_read w s + n)" by (simp_all add: mix(1))
  show ?thesis unfolding ready_ok_def
  proof (intro allI impI)
    fix t :: nat assume t: "t < 4" "sd_active (sa_str (sw_arb w') ! t)"
    have "unread w' t \<le> unread w t"
    proof (cases "t = s")
      case False
      have "unread w' t = unread w t" by (rule unread_cong) (simp_all add: w' False)
      then show ?thesis by simp
    next
      case True
      obtain d where d: "carries (src s) (sw_mem w) (sw_read w s) (sa_str (sw_arb w) ! s) d" using world_okD(3) [OF ok mix(2,3)] by blast
      have un: "unread w s = d" by (rule unread_eq(1) [OF ok mix(2,3) d])
      have "carries (src s) (sw_mem w') (sw_read w' s) (sa_str (sw_arb w') ! s) (d - n)"
        using d mix(4) un by (auto simp: carries_def w')
      then have "unread w' s = d - n" by (intro unread_eq(1) [OF ok' mix(2)]) (simp_all add: w' mix(3))
      then show ?thesis using un True by simp
    qed
    then show "(\<not> sd_primed (sa_str (sw_arb w') ! t) \<longrightarrow> unread w' t < head_of (sw_arb w') t) \<and>
      (\<not> sd_looping (sa_str (sw_arb w') ! t) \<and> sd_data_bytes (sa_str (sw_arb w') ! t) < head_of (sw_arb w') t \<longrightarrow>
       \<not> sd_primed (sa_str (sw_arb w') ! t))"
      using t same_file by (intro ready_keep [OF r t(1)]) (auto simp: w')
  qed
qed

lemma sd_reach_ready:
  assumes "sd_reach src w"
  shows "ready_ok w \<and> (\<forall>s. sw_read w s mod 4 = 0)"
  using assms
proof (induction rule: sd_reach.induct)
  case (init a chunk high low m)
  then show ?case by (auto simp: ready_ok_def hx421_stream_arb_init_def Let_def)
next
  case (step w w')
  have "\<forall>s. sw_read w' s mod 4 = 0" using step(2,3) by cases (auto simp: mod_add_eq [symmetric])
  then show ?case using ready_step [OF step(2) sd_reach_ok [OF step(1)]] step(3) by blast
qed

text \<open>
  A one-shot sound that is shorter than the head it is primed with never becomes ready,
  whatever is served: the ring never holds as much as the head asks for, so the mixer channel is
  never enabled and the sound is never heard.
\<close>

theorem short_oneshot_never_ready:
  assumes "sd_reach src w" and "s < 4" and "\<not> sd_looping (sa_str (sw_arb w) ! s)"
    and "sd_data_bytes (sa_str (sw_arb w) ! s) < sd_prime_bytes (sa_str (sw_arb w) ! s)"
    and "sd_prime_bytes (sa_str (sw_arb w) ! s) \<le> target_of (sw_arb w) s"
  shows "\<not> hx421_stream_ready (sw_arb w) (int s)"
  using sd_reach_ready [OF assms(1)] assms(2-)
  by (auto simp: hx421_stream_ready_def ready_ok_def head_of_def Let_def split: if_splits)

theorem short_oneshot_never_ready_witness: "\<not> hx421_stream_ready (sw_arb (small_world False)) (int 0)"
  by (rule short_oneshot_never_ready [where src = "\<lambda>_ _. 0", OF small_reach])
    (simp_all add: small_world_def small_arb target_of_def FRAME_def)

section \<open>Priming ends\<close>

text \<open>What the rings still lack.\<close>

definition lacking :: "sd_world \<Rightarrow> nat" where
  "lacking w = (\<Sum>s<4. if sd_active (sa_str (sw_arb w) ! s) then target_of (sw_arb w) s - unread w s else 0)"

lemma target_aligned:
  assumes "arb_wf a" and "s < 4" and "sd_active (sa_str a ! s)"
  shows "target_of a s mod 4 = 0"
proof -
  have "sd_ok (sa_chunk a) (sa_str a ! s)" "sa_chunk a mod 4 = 0" "sa_high_wm a mod 4 = 0" "4 \<le> sa_chunk a"
    using assms by (simp_all add: arb_wf_def)
  moreover have "(x - y) mod 4 = 0" if "x mod 4 = 0" "y mod 4 = 0" for x y :: nat
    using that by (simp add: mod_eq_0_iff_dvd)
  ultimately show ?thesis by (auto simp: target_of_def sd_ok_def FRAME_def Let_def)
qed

lemma unread_aligned:
  assumes ok: "world_ok src w" and s: "s < 4" "sd_active (sa_str (sw_arb w) ! s)" and r: "sw_read w s mod 4 = 0"
  shows "unread w s mod 4 = 0"
proof -
  obtain d where d: "carries (src s) (sw_mem w) (sw_read w s) (sa_str (sw_arb w) ! s) d" using world_okD(3) [OF ok s] by blast
  have o: "sd_ok (sa_chunk (sw_arb w)) (sa_str (sw_arb w) ! s)" using world_okD(1) [OF ok] s by (simp add: arb_wf_def)
  let ?g = "sd_ring_size (sa_str (sw_arb w) ! s)"
  have "4 dvd ?g" "4 dvd (sw_read w s + d) mod ?g" using o d by (auto simp: sd_ok_def carries_def mod_eq_0_iff_dvd)
  then have "4 dvd sw_read w s + d" by (simp add: dvd_mod_iff)
  then have "4 dvd d" using r by (simp add: mod_eq_0_iff_dvd dvd_add_right_iff)
  then show ?thesis using unread_eq(1) [OF ok s d] by simp
qed

lemma multiple_gap: "(x :: nat) mod 4 = 0 \<Longrightarrow> y mod 4 = 0 \<Longrightarrow> x < y \<Longrightarrow> 4 \<le> y - x"
  by (metis dvd_diff_nat dvd_imp_le mod_eq_0_iff_dvd zero_less_diff)

lemma run_positive:
  assumes ok: "world_ok src w" and r: "sw_read w s mod 4 = 0"
    and s: "s < 4" "needs_data (world_plat src bz (sw_arb w) (sw_read w)) (sw_mem w) (sw_arb w) s"
  shows "run_length (world_plat src bz (sw_arb w) (sw_read w)) (sw_mem w) (rewind (sw_arb w) s) s \<noteq> 0"
proof -
  let ?pl = "world_plat src bz (sw_arb w) (sw_read w)" and ?a = "sw_arb w"
  have wf: "arb_wf ?a" by (rule world_okD(1) [OF ok])
  have act: "sd_active (sa_str ?a ! s)" "fill_of ?pl (sw_mem w) ?a s < target_of ?a s"
    using s(2) by (auto simp: needs_data_def Let_def split: if_splits)
  obtain d where d: "carries (src s) (sw_mem w) (sw_read w s) (sa_str ?a ! s) d" using world_okD(3) [OF ok s(1) act(1)] by blast
  have fill: "fill_of ?pl (sw_mem w) ?a s = unread w s" using unread_eq [OF ok s(1) act(1) d] by simp
  have len: "s < length (sa_str ?a)" using wf s(1) by (simp add: arb_wf_def)
  let ?st = "sa_str (rewind ?a s) ! s"
  have o: "sd_ok (sa_chunk ?a) ?st" using rewind_wf [OF wf s(1)] s(1) act(1) len by (auto simp: arb_wf_def)
  have "4 \<le> sa_chunk ?a" using wf by (simp add: arb_wf_def)
  moreover have "4 \<le> target_of ?a s - unread w s"
    using multiple_gap [OF unread_aligned [OF ok s(1) act(1) r] target_aligned [OF wf s(1) act(1)]] act(2) fill by simp
  moreover have "4 \<le> sd_ring_size ?st - sd_write_pos ?st" using o by (intro multiple_gap) (auto simp: sd_ok_def)
  moreover have "4 \<le> sd_data_bytes ?st - sd_file_pos ?st"
  proof -
    have "sd_file_pos ?st < sd_data_bytes ?st" using o len by (auto simp: sd_ok_def)
    then show ?thesis using o by (intro multiple_gap) (auto simp: sd_ok_def)
  qed
  ultimately have "4 \<le> run_length ?pl (sw_mem w) (rewind ?a s) s"
    unfolding run_length_def Let_def using len fill by (intro frame_floor_ge) simp
  then show ?thesis by simp
qed

lemma serve_progress:
  assumes ok: "world_ok src w" and r: "\<forall>s. sw_read w s mod 4 = 0"
    and s0: "s0 < 4" "needs_data (world_plat src False (sw_arb w) (sw_read w)) (sw_mem w) (sw_arb w) s0"
  shows "lacking (serve src w) < lacking w"
    and "t < 4 \<Longrightarrow> sd_active (sa_str (sw_arb (serve src w)) ! t) = sd_active (sa_str (sw_arb w) ! t) \<and>
        sd_looping (sa_str (sw_arb (serve src w)) ! t) = sd_looping (sa_str (sw_arb w) ! t)"
proof -
  let ?pl = "world_plat src False (sw_arb w) (sw_read w)" and ?a = "sw_arb w"
  obtain b a' m' where sv: "hx421_stream_service ?pl ?a (sw_mem w) = (b, a', m')" by (metis prod_cases3)
  let ?v = "w\<lparr>sw_arb := a', sw_mem := m'\<rparr>"
  have v: "serve src w = ?v" by (simp add: serve_def sv)
  have wf: "arb_wf ?a" by (rule world_okD(1) [OF ok])
  have wf': "arb_wf a'" by (rule service_wf [OF wf sv])
  have b
  proof (rule ccontr)
    assume "\<not> b"
    then have "hx421_stream_service ?pl ?a (sw_mem w) = (False, a', m')" using sv by simp
    note q = quiet_effect(2) [OF this]
    from q show False
    proof (elim disjE conjE exE)
      assume "\<forall>s<4. \<not> needs_data ?pl (sw_mem w) ?a s"
      then show False using s0 by blast
    next
      fix s assume s: "s < 4" "needs_data ?pl (sw_mem w) ?a s" "run_length ?pl (sw_mem w) (rewind ?a s) s = 0"
      have "sw_read w s mod 4 = 0" using r by simp
      from run_positive [OF ok this s(1,2)] s(3) show False by (rule notE)
    qed simp
  qed
  from sv have "lacking ?v < lacking w \<and> (\<forall>t<4. sd_active (sa_str a' ! t) = sd_active (sa_str ?a ! t) \<and> sd_looping (sa_str a' ! t) = sd_looping (sa_str ?a ! t))"
  proof (cases rule: service_cases)
    case (sent s run)
    note e = sent_effect [OF ok sent(1-5,7) wf' refl]
    obtain d where d: "carries (src s) (sw_mem w) (sw_read w s) (sa_str ?a ! s) d" "d + run \<le> target_of ?a s"
      "carries (src s) m' (sw_read w s) (sa_str a' ! s) (d + run)"
      "sa_str a' ! s = (advance_stream run (sa_str (rewind ?a s) ! s))\<lparr>sd_primed := sd_primed (sa_str ?a ! s) \<or> head_of ?a s \<le> d + run\<rparr>"
      using e(1) by blast
    have len: "s < length (sa_str ?a)" using wf sent(1) by (simp add: arb_wf_def)
    have act: "sd_active (sa_str ?a ! s)" using sent(2) by (auto simp: needs_data_def Let_def split: if_splits)
    have adv: "sd_ring_size (sa_str a' ! s) = sd_ring_size (sa_str ?a ! s)" "sd_prime_bytes (sa_str a' ! s) = sd_prime_bytes (sa_str ?a ! s)"
      "sd_looping (sa_str a' ! s) = sd_looping (sa_str ?a ! s)" "sd_active (sa_str a' ! s)"
      unfolding d(4) using len act by (simp_all add: advance_stream_def Let_def)
    have un: "unread w s = d" by (rule unread_eq(1) [OF ok sent(1) act d(1)])
    have un': "unread ?v s = d + run" by (rule unread_eq(1) [OF e(6) sent(1)]) (use adv(4) d(3) in simp_all)
    have tg: "target_of a' t = target_of ?a t" for t
      using levels_shape(1) [OF adv(1,2) e(3,4)] levels_shape(1) [of a' t ?a] e(2-4) by (cases "t = s") simp_all
    have oth: "unread ?v t = unread w t" if "t \<noteq> s" for t by (rule unread_cong) (simp_all add: e(2) [OF that])
    let ?f = "\<lambda>w t. if sd_active (sa_str (sw_arb w) ! t) then target_of (sw_arb w) t - unread w t else 0"
    have "(\<Sum>t<4. ?f ?v t) < (\<Sum>t<4. ?f w t)"
    proof (rule sum_strict_mono_ex1)
      have "?f ?v t \<le> ?f w t" for t
        using oth [of t] e(2) [of t] tg [of t] un un' adv(4) act by (cases "t = s") simp_all
      then show "\<forall>t\<in>{..<4}. ?f ?v t \<le> ?f w t" by blast
      show "\<exists>t\<in>{..<4}. ?f ?v t < ?f w t"
        using un un' adv(4) act tg d(2) sent(1,4) by (intro bexI [of _ s]) auto
    qed simp
    then have "lacking ?v < lacking w" unfolding lacking_def .
    moreover have "sd_active (sa_str a' ! t) = sd_active (sa_str ?a ! t) \<and> sd_looping (sa_str a' ! t) = sd_looping (sa_str ?a ! t)" for t
      using e(2) [of t] adv act by (cases "t = s") simp_all
    ultimately show ?thesis by blast
  qed (use \<open>b\<close> in simp_all)
  then show "lacking (serve src w) < lacking w"
    and "t < 4 \<Longrightarrow> sd_active (sa_str (sw_arb (serve src w)) ! t) = sd_active (sa_str (sw_arb w) ! t) \<and>
        sd_looping (sa_str (sw_arb (serve src w)) ! t) = sd_looping (sa_str (sw_arb w) ! t)" by (simp_all add: v)
qed

lemma full_is_ready:
  assumes ok: "world_ok src w" and r: "ready_ok w" and s: "s < 4" "sd_active (sa_str (sw_arb w) ! s)" "sd_looping (sa_str (sw_arb w) ! s)"
    and n: "\<not> needs_data (world_plat src False (sw_arb w) (sw_read w)) (sw_mem w) (sw_arb w) s"
  shows "hx421_stream_ready (sw_arb w) (int s)"
proof -
  obtain d where d: "carries (src s) (sw_mem w) (sw_read w s) (sa_str (sw_arb w) ! s) d" using world_okD(3) [OF ok s(1,2)] by blast
  have "target_of (sw_arb w) s \<le> unread w s"
    using n s unread_eq [OF ok s(1,2) d] by (auto simp: needs_data_def Let_def)
  then have "head_of (sw_arb w) s \<le> unread w s" using head_bounds(2) [OF world_okD(1) [OF ok] s(1,2)] by simp
  then have "sd_primed (sa_str (sw_arb w) ! s)" using r s unfolding ready_ok_def by (meson not_less)
  then show ?thesis using s by (simp add: hx421_stream_ready_def HX421_STREAM_MAX_def)
qed



end
