(* ===== verification/Rle.thy ===== *)
theory Rle
  imports HXBase
begin

text \<open>
  \<^verbatim>\<open>tools/hx421_rlepack.c\<close>: the packer of FPGA bitstreams, which decodes its own output before it
  writes it.  The unread rest of the input is a list; the loop that emits a run is the list it
  emits.  A read past the end of the input has no defined result, \<^term>\<open>None\<close>.
\<close>

unbundle bit_operations_syntax

section \<open>The encoder\<close>

definition RLE_RUN :: byte where "RLE_RUN = 0x5B"
definition RLE_RUNLONG :: byte where "RLE_RUNLONG = 0x77"
definition RLE_ESC :: byte where "RLE_ESC = 0x9B"
definition LEN_THRESH :: nat where "LEN_THRESH = 3"

fun count_run :: "byte \<Rightarrow> byte list \<Rightarrow> nat \<Rightarrow> nat" where
  "count_run d [] run = run"
| "count_run d (x # xs) run = (if x = d \<and> run < 65535 then count_run d xs (run + 1) else run)"

function rle_encode :: "byte list \<Rightarrow> byte list" where
  "rle_encode [] = []"
| "rle_encode (d # ds) =
     (let run = count_run d ds 1 in
      if LEN_THRESH < run
      then (if run < 256 then [RLE_RUN, d, of_nat run]
            else [RLE_RUNLONG, d, of_nat (run AND 0xFF), of_nat (drop_bit 8 run)]) @ rle_encode (drop (run - 1) ds)
      else (if d = RLE_RUN \<or> d = RLE_RUNLONG \<or> d = RLE_ESC then [RLE_ESC, d] else [d]) @ rle_encode ds)"
  by pat_completeness auto
termination by (relation "measure length") auto

declare rle_encode.simps(2) [simp del]

section \<open>The decoder\<close>

text \<open>
  The first byte and \<open>filled\<close> repeats, cut at the capacity; the flag says that the capacity was
  hit.  The loop counts \<open>k\<close> up to \<open>filled\<close> in 32 bits, so the count \<open>2\<^sup>3\<^sup>2 - 1\<close> ends at the
  capacity only.
\<close>

definition emit_run :: "nat \<Rightarrow> byte list \<Rightarrow> byte \<Rightarrow> nat \<Rightarrow> bool \<times> byte list" where
  "emit_run cap out d filled =
     (if filled = 4294967295 \<or> cap < length out + (filled + 1)
      then (True, out @ replicate (cap - length out) d)
      else (False, out @ replicate (filled + 1) d))"

function rle_decode :: "nat \<Rightarrow> byte list \<Rightarrow> byte list \<Rightarrow> byte list option" where
  "rle_decode cap out [] = Some out"
| "rle_decode cap out (b # bs) =
     (if b = RLE_RUN
      then (case bs of
              [] \<Rightarrow> Some out
            | [_] \<Rightarrow> None
            | d # n # rest \<Rightarrow>
                (case emit_run cap out d (u32 (unat n + 4294967295)) of
                   (hit, out1) \<Rightarrow> if hit then Some out1 else rle_decode cap out1 rest))
      else if b = RLE_RUNLONG
      then (case bs of
              d # lo # hi # rest \<Rightarrow>
                (case emit_run cap out d (u32 ((unat lo OR push_bit 8 (unat hi)) + 4294967295)) of
                   (hit, out1) \<Rightarrow> if hit then Some out1 else rle_decode cap out1 rest)
            | _ \<Rightarrow> None)
      else if b = RLE_ESC
      then (case bs of
              [] \<Rightarrow> None
            | d # rest \<Rightarrow>
                (case emit_run cap out d 0 of
                   (hit, out1) \<Rightarrow> if hit then Some out1 else rle_decode cap out1 rest))
      else (case emit_run cap out b 0 of
              (hit, out1) \<Rightarrow> if hit then Some out1 else rle_decode cap out1 bs))"
  by pat_completeness auto
termination by (relation "measure (\<lambda>(cap, out, bs). length bs)") auto

declare rle_decode.simps(2) [simp del]

section \<open>The packer\<close>

text \<open>
  What \<^verbatim>\<open>main\<close> does once the file is read: the error of an empty file, a failed allocation or the
  refusal, and otherwise the bytes it writes.
\<close>

datatype pack_error = PACK_EMPTY | PACK_NO_MEMORY | PACK_MISMATCH | PACK_UNDEFINED

definition rle_pack :: "bool \<Rightarrow> byte list \<Rightarrow> pack_error + byte list" where
  "rle_pack malloc_ok raw =
     (if length raw = 0 then Inl PACK_EMPTY
      else if \<not> malloc_ok then Inl PACK_NO_MEMORY
      else let enc = rle_encode raw in
           case rle_decode (length raw + 16) [] enc of
             None \<Rightarrow> Inl PACK_UNDEFINED
           | Some dec \<Rightarrow> if length dec \<noteq> length raw \<or> dec \<noteq> raw then Inl PACK_MISMATCH else Inr enc)"

section \<open>Runs\<close>

lemma count_run_bounds: "run \<le> 65535 \<Longrightarrow> run \<le> count_run d ds run \<and> count_run d ds run \<le> 65535"
proof (induction d ds run rule: count_run.induct)
  case (2 d x xs run)
  then show ?case by (cases "x = d \<and> run < 65535") auto
qed simp

lemma count_run_repeats:
  assumes "run \<le> 65535"
  shows "ds = replicate (count_run d ds run - run) d @ drop (count_run d ds run - run) ds"
  using assms
proof (induction d ds run rule: count_run.induct)
  case (2 d x xs run)
  show ?case
  proof (cases "x = d \<and> run < 65535")
    case True
    define k where "k = count_run d xs (run + 1) - (run + 1)"
    have "xs = replicate k d @ drop k xs" using 2 True by (simp add: k_def)
    moreover have "count_run d xs (run + 1) - run = Suc k"
      using count_run_bounds [of "run + 1" d xs] True by (simp add: k_def Suc_diff_Suc)
    ultimately show ?thesis using True by simp
  next
    case False
    then have "count_run d (x # xs) run = run" by auto
    then show ?thesis by (simp only: diff_self_eq_0 replicate_0 drop_0 append_Nil)
  qed
qed simp

lemma run_split:
  obtains k where "count_run d ds 1 = Suc k" and "k < 65535" and "d # ds = replicate (Suc k) d @ drop k ds"
proof -
  have b: "1 \<le> count_run d ds 1" "count_run d ds 1 \<le> 65535" using count_run_bounds [of 1 d ds] by simp_all
  obtain k where k: "count_run d ds 1 = Suc k" using b(1) by (cases "count_run d ds 1") simp_all
  have "count_run d ds 1 - 1 = k" using k by simp
  moreover have "(1 :: nat) \<le> 65535" by simp
  ultimately have "ds = replicate k d @ drop k ds" by (metis count_run_repeats)
  then have "d # ds = replicate (Suc k) d @ drop k ds" by (metis append_Cons replicate_Suc)
  then show ?thesis by (rule that [OF k, rotated]) (use b k in linarith)
qed

section \<open>Reading back what was written\<close>

text \<open>What an encoding of \<open>n\<close> equal bytes does to the decoder.\<close>

lemma decode_run:
  assumes "0 < n" and "n < 256" and "length out + n \<le> cap"
  shows "rle_decode cap out (RLE_RUN # d # of_nat n # rest) = rle_decode cap (out @ replicate n d) rest"
proof -
  have "unat (of_nat n :: byte) = n" using assms(2) by (simp add: unat_of_nat)
  moreover have "u32 (n + 4294967295) = n - 1"
  proof -
    have "n + 4294967295 = (n - 1) + 2 ^ 32" using assms(1) by simp
    then have "u32 (n + 4294967295) = (n - 1) mod 2 ^ 32" unfolding u32_def by (simp only: mod_add_self2)
    then show ?thesis using assms(2) by simp
  qed
  ultimately have "emit_run cap out d (u32 (unat (of_nat n :: byte) + 4294967295)) = (False, out @ replicate n d)"
    using assms by (simp add: emit_run_def)
  then show ?thesis by (simp add: rle_decode.simps(2))
qed

lemma decode_long_run:
  assumes "256 \<le> n" and "n \<le> 65535" and "length out + n \<le> cap"
  shows "rle_decode cap out (RLE_RUNLONG # d # of_nat (n AND 0xFF) # of_nat (drop_bit 8 n) # rest) =
    rle_decode cap (out @ replicate n d) rest"
proof -
  have "n AND 0xFF = n mod 256" using take_bit_eq_mask [of 8 n] by (simp add: take_bit_eq_mod mask_eq_exp_minus_1)
  then have lo: "unat (of_nat (n AND 0xFF) :: byte) = n mod 256" by (simp add: unat_of_nat)
  have hi: "unat (of_nat (drop_bit 8 n) :: byte) = n div 256"
    using assms(2) by (simp add: unat_of_nat drop_bit_eq_div)
  have "n mod 256 OR push_bit 8 (n div 256) = n"
    using or_low [of "n mod 256" 8 "n div 256"] by (simp add: or.commute push_bit_eq_mult)
  moreover have "u32 (n + 4294967295) = n - 1"
  proof -
    have "n + 4294967295 = (n - 1) + 2 ^ 32" using assms(1) by simp
    then have "u32 (n + 4294967295) = (n - 1) mod 2 ^ 32" unfolding u32_def by (simp only: mod_add_self2)
    then show ?thesis using assms(2) by simp
  qed
  ultimately have "emit_run cap out d (u32 ((unat (of_nat (n AND 0xFF) :: byte) OR push_bit 8 (unat (of_nat (drop_bit 8 n) :: byte))) +
      4294967295)) = (False, out @ replicate n d)"
    using assms by (simp add: lo hi emit_run_def)
  moreover have "RLE_RUNLONG \<noteq> RLE_RUN" by (simp add: RLE_RUNLONG_def RLE_RUN_def)
  ultimately show ?thesis by (simp add: rle_decode.simps(2))
qed

lemma decode_literal:
  assumes "length out < cap"
  shows "rle_decode cap out ((if d = RLE_RUN \<or> d = RLE_RUNLONG \<or> d = RLE_ESC then [RLE_ESC, d] else [d]) @ rest) =
    rle_decode cap (out @ [d]) rest"
proof -
  have "RLE_ESC \<noteq> RLE_RUN" "RLE_ESC \<noteq> RLE_RUNLONG" by (simp_all add: RLE_RUNLONG_def RLE_RUN_def RLE_ESC_def)
  then show ?thesis using assms by (auto simp: rle_decode.simps(2) emit_run_def)
qed

lemma rle_decode_encode:
  "length out + length raw \<le> cap \<Longrightarrow> rle_decode cap out (rle_encode raw) = Some (out @ raw)"
proof (induction raw arbitrary: out rule: rle_encode.induct)
  case (2 d ds)
  obtain k where k: "count_run d ds 1 = Suc k" "k < 65535" "d # ds = replicate (Suc k) d @ drop k ds" by (rule run_split)
  show ?case
  proof (cases "LEN_THRESH < count_run d ds 1")
    case True
    let ?out = "out @ replicate (Suc k) d"
    have len: "Suc (length ds) = Suc k + length (drop k ds)" using arg_cong [OF k(3), of length] by simp
    have "length ?out + length (drop k ds) \<le> cap" using "2.prems" len unfolding length_append length_replicate length_Cons by linarith
    then have "rle_decode cap ?out (rle_encode (drop k ds)) = Some (?out @ drop k ds)"
      by (rule "2.IH"(1) [OF refl True, of ?out, unfolded k(1) diff_Suc_1])
    then have rest: "rle_decode cap ?out (rle_encode (drop k ds)) = Some (out @ d # ds)"
      unfolding append_assoc k(3) [symmetric] .
    have cap: "length out + Suc k \<le> cap" using "2.prems" len unfolding length_append length_replicate length_Cons by linarith
    show ?thesis
    proof (cases "Suc k < 256")
      case True
      from decode_run [OF _ this cap, of d "rle_encode (drop k ds)"] rest show ?thesis
        using True \<open>LEN_THRESH < count_run d ds 1\<close> k(1) by (simp add: rle_encode.simps(2) Let_def)
    next
      case False
      then have "256 \<le> Suc k" "Suc k \<le> 65535" using k(2) by simp_all
      from decode_long_run [OF this cap, of d "rle_encode (drop k ds)"] rest show ?thesis
        using False \<open>LEN_THRESH < count_run d ds 1\<close> k(1) by (simp add: rle_encode.simps(2) Let_def)
    qed
  next
    case False
    have "length out < cap" using "2.prems" by simp
    from decode_literal [OF this, of d "rle_encode ds"] "2.IH"(2) [OF refl False, of "out @ [d]"] "2.prems" False
    show ?thesis by (simp add: rle_encode.simps(2) Let_def)
  qed
qed simp

lemma rle_encode_length: "length (rle_encode raw) \<le> 2 * length raw"
proof (induction raw rule: rle_encode.induct)
  case (2 d ds)
  obtain k where k: "count_run d ds 1 = Suc k" "k < 65535" "d # ds = replicate (Suc k) d @ drop k ds" by (rule run_split)
  show ?case
  proof (cases "LEN_THRESH < count_run d ds 1")
    case True
    have "Suc (length ds) = Suc k + length (drop k ds)" using arg_cong [OF k(3), of length] by simp
    moreover have "length (rle_encode (drop k ds)) \<le> 2 * length (drop k ds)" using "2.IH"(1) [OF refl True] k(1) by simp
    ultimately show ?thesis using True k(1) by (simp add: rle_encode.simps(2) Let_def LEN_THRESH_def)
  next
    case False
    then show ?thesis using "2.IH"(2) [OF refl False] by (auto simp: rle_encode.simps(2) Let_def)
  qed
qed simp

text \<open>
  C39: The packer never refuses a bitstream: for every non-empty input its own decoder reads the
  packed bytes back without leaving them, the comparison succeeds, and what is written is at most
  two bytes per byte of input, the size of the buffer that was allocated.
\<close>

theorem rle_pack_never_refuses:
  assumes "raw \<noteq> []"
  shows "\<exists>enc. rle_pack True raw = Inr enc \<and> rle_decode (length raw) [] enc = Some raw \<and> length enc \<le> 2 * length raw"
  using assms rle_decode_encode [of "[]" raw] rle_encode_length [of raw] by (auto simp: rle_pack_def Let_def)

theorem rle_pack_never_refuses_witness:
  "rle_pack True [7, 7, 7, 7, 7, 0x5B] = Inr [0x5B, 7, 5, 0x9B, 0x5B] \<and>
   (\<exists>enc. rle_pack True [7, 7, 7, 7, 7, 0x5B] = Inr enc \<and> rle_decode (length [7, 7, 7, 7, 7, 0x5B :: byte]) [] enc = Some [7, 7, 7, 7, 7, 0x5B])"
proof -
  have "rle_encode [7, 7, 7, 7, 7, 0x5B] = [0x5B, 7, 5, 0x9B, 0x5B]"
    by (simp add: rle_encode.simps(2) LEN_THRESH_def RLE_RUN_def RLE_RUNLONG_def RLE_ESC_def Let_def)
  then show ?thesis using rle_pack_never_refuses [of "[7, 7, 7, 7, 7, 0x5B]"] by (auto simp: rle_pack_def Let_def split: option.splits if_splits)
qed

text \<open>A run header that is cut after its data byte is read past the end of the input.\<close>

lemma truncated_run_overreads: "rle_decode cap [] [RLE_RUN, d] = None"
  by (simp add: rle_decode.simps(2))

end
