(* ===== verification/Media.thy ===== *)
theory Media
  imports Sd_World
begin

text \<open>
  \<^verbatim>\<open>firmware/media/hx421_media.c\<close>: the media service, which turns the commands of the console's mailbox
  into calls of the stream arbiter.  The seams of the platform are a record of functions over the
  platform's own state \<open>'p\<close>, a seam that may be NULL is an option.  The C structure keeps a copy of
  the platform, here it is an argument.
\<close>

section \<open>State\<close>

record media_cmd =
  mc_op :: nat
  mc_slot :: nat
  mc_asset :: nat
  mc_flags :: nat
  mc_prio :: nat
  mc_gain :: nat
  mc_pan :: nat
  mc_arg :: nat

definition HX421_MEDIA_NOP :: nat where "HX421_MEDIA_NOP = 0"
definition HX421_MEDIA_PLAY :: nat where "HX421_MEDIA_PLAY = 1"
definition HX421_MEDIA_STOP :: nat where "HX421_MEDIA_STOP = 2"
definition HX421_MEDIA_SEEK :: nat where "HX421_MEDIA_SEEK = 3"
definition HX421_MEDIA_GAIN :: nat where "HX421_MEDIA_GAIN = 4"
definition HX421_MEDIA_STOP_ALL :: nat where "HX421_MEDIA_STOP_ALL = 5"

record 'p media_plat =
  mp_offload :: "'p \<Rightarrow> nat \<Rightarrow> nat \<Rightarrow> nat \<Rightarrow> nat \<Rightarrow> bool \<times> 'p"
  mp_read_ptr :: "('p \<Rightarrow> nat \<Rightarrow> nat) option"
  mp_asset_open :: "('p \<Rightarrow> nat \<Rightarrow> nat \<Rightarrow> (nat \<times> nat) option \<times> 'p) option"
  mp_asset_close :: "('p \<Rightarrow> nat \<Rightarrow> nat \<Rightarrow> 'p) option"
  mp_mixer_ctl :: "('p \<Rightarrow> nat \<Rightarrow> bool \<Rightarrow> nat \<Rightarrow> nat \<Rightarrow> 'p) option"
  mp_cmd_poll :: "('p \<Rightarrow> media_cmd option \<times> 'p) option"

record media_slot_cfg =
  sc_psram_base :: nat
  sc_ring_size :: nat
  sc_prime_bytes :: nat

record media_cfg =
  cf_slot :: "media_slot_cfg list"
  cf_chunk :: nat

record media_slot =
  ml_active :: bool
  ml_enabled :: bool
  ml_asset :: nat
  ml_gain :: nat
  ml_pan :: nat

record media =
  me_cfg :: media_cfg
  me_arb :: stream_arb
  me_s :: "media_slot list"

definition at_media :: "media \<Rightarrow> nat \<Rightarrow> (media_slot \<Rightarrow> media_slot) \<Rightarrow> media" where
  "at_media m s f = m\<lparr>me_s := (me_s m)[s := f (me_s m ! s)]\<rparr>"

section \<open>Operations\<close>

definition arb_plat_from :: "'p media_plat \<Rightarrow> 'p stream_plat" where
  "arb_plat_from pl = \<lparr>pl_offload = mp_offload pl, pl_read_ptr = mp_read_ptr pl\<rparr>"

definition hx421_media_init :: "media \<Rightarrow> media_cfg \<Rightarrow> media" where
  "hx421_media_init m cfg =
     \<lparr>me_cfg = cfg, me_arb = hx421_stream_arb_init (me_arb m) (cf_chunk cfg) 0 0,
      me_s = map (\<lambda>sl. \<lparr>ml_active = False, ml_enabled = False, ml_asset = 0, ml_gain = 0, ml_pan = 128\<rparr>) (me_s m)\<rparr>"

definition hx421_media_ready :: "media \<Rightarrow> int \<Rightarrow> bool" where
  "hx421_media_ready m s =
     (if s < 0 \<or> int HX421_STREAM_MAX \<le> s then False else ml_active (me_s m ! nat s) \<and> hx421_stream_ready (me_arb m) s)"

text \<open>Muting a channel, closing an asset: nothing where the seam is missing.\<close>

definition mixer_ctl :: "'p media_plat \<Rightarrow> 'p \<Rightarrow> nat \<Rightarrow> bool \<Rightarrow> nat \<Rightarrow> nat \<Rightarrow> 'p" where
  "mixer_ctl pl p s enable gain pan = (case mp_mixer_ctl pl of None \<Rightarrow> p | Some f \<Rightarrow> f p s enable gain pan)"

definition asset_close :: "'p media_plat \<Rightarrow> 'p \<Rightarrow> nat \<Rightarrow> nat \<Rightarrow> 'p" where
  "asset_close pl p s asset = (case mp_asset_close pl of None \<Rightarrow> p | Some f \<Rightarrow> f p s asset)"

definition slot_stop :: "'p media_plat \<Rightarrow> nat \<Rightarrow> media \<Rightarrow> 'p \<Rightarrow> media \<times> 'p" where
  "slot_stop pl s m p =
     (if HX421_STREAM_MAX \<le> s \<or> \<not> ml_active (me_s m ! s) then (m, p)
      else let sl = me_s m ! s;
               m1 = m\<lparr>me_arb := hx421_stream_stop (me_arb m) (int s)\<rparr>;
               p1 = (if ml_enabled sl then mixer_ctl pl p s False 0 (ml_pan sl) else p);
               p2 = asset_close pl p1 s (ml_asset sl)
           in (at_media m1 s (\<lambda>sl. sl\<lparr>ml_active := False, ml_enabled := False\<rparr>), p2))"

definition cmd_play :: "'p media_plat \<Rightarrow> media_cmd \<Rightarrow> media \<Rightarrow> 'p \<Rightarrow> int \<times> media \<times> 'p" where
  "cmd_play pl c m p =
     (let s = mc_slot c in
      if HX421_STREAM_MAX \<le> s then (- 1, m, p)
      else let sc = cf_slot (me_cfg m) ! s in
      if sc_ring_size sc = 0 then (- 2, m, p)
      else case slot_stop pl s m p of (m1, p1) \<Rightarrow>
        (case (case mp_asset_open pl of None \<Rightarrow> (None, p1) | Some f \<Rightarrow> f p1 s (mc_asset c)) of
           (None, p2) \<Rightarrow> (- 3, m1, p2)
         | (Some (off, bytes), p2) \<Rightarrow>
             (case hx421_stream_start (me_arb m1) (int s) (sc_psram_base sc) (sc_ring_size sc) off bytes
                     (mc_flags c AND 1 \<noteq> 0) (sc_prime_bytes sc) (int (mc_prio c)) of
                (rc, a) \<Rightarrow>
                  if rc \<noteq> 0 then (- 4, m1\<lparr>me_arb := a\<rparr>, asset_close pl p2 s (mc_asset c))
                  else (0, at_media (m1\<lparr>me_arb := a\<rparr>) s (\<lambda>sl. sl\<lparr>ml_active := True, ml_enabled := False,
                              ml_asset := mc_asset c, ml_gain := mc_gain c, ml_pan := mc_pan c\<rparr>), p2))))"

definition cmd_seek :: "'p media_plat \<Rightarrow> media_cmd \<Rightarrow> media \<Rightarrow> 'p \<Rightarrow> int \<times> media \<times> 'p" where
  "cmd_seek pl c m p =
     (let s = mc_slot c in
      if HX421_STREAM_MAX \<le> s \<or> \<not> ml_active (me_s m ! s) then (- 1, m, p)
      else let off = frame_floor (mc_arg c);
               off = (if sd_data_bytes (sa_str (me_arb m) ! s) \<le> off then 0 else off);
               m1 = m\<lparr>me_arb := at_stream (me_arb m) s
                        (\<lambda>st. st\<lparr>sd_file_pos := off, sd_write_pos := 0, sd_primed := False\<rparr>)\<rparr>;
               sl = me_s m ! s;
               p1 = (if ml_enabled sl then mixer_ctl pl p s False 0 (ml_pan sl) else p)
           in (0, at_media m1 s (\<lambda>sl. sl\<lparr>ml_enabled := False\<rparr>), p1))"

definition cmd_gain :: "'p media_plat \<Rightarrow> media_cmd \<Rightarrow> media \<Rightarrow> 'p \<Rightarrow> int \<times> media \<times> 'p" where
  "cmd_gain pl c m p =
     (let s = mc_slot c in
      if HX421_STREAM_MAX \<le> s \<or> \<not> ml_active (me_s m ! s) then (- 1, m, p)
      else (0, at_media m s (\<lambda>sl. sl\<lparr>ml_gain := mc_gain c, ml_pan := mc_pan c\<rparr>),
            if ml_enabled (me_s m ! s) then mixer_ctl pl p s True (mc_gain c) (mc_pan c) else p))"

fun stop_slots :: "'p media_plat \<Rightarrow> nat list \<Rightarrow> media \<Rightarrow> 'p \<Rightarrow> media \<times> 'p" where
  "stop_slots pl [] m p = (m, p)"
| "stop_slots pl (i # is) m p = (case slot_stop pl i m p of (m1, p1) \<Rightarrow> stop_slots pl is m1 p1)"

definition hx421_media_apply :: "'p media_plat \<Rightarrow> media_cmd \<Rightarrow> media \<Rightarrow> 'p \<Rightarrow> int \<times> media \<times> 'p" where
  "hx421_media_apply pl c m p =
     (if mc_op c = HX421_MEDIA_NOP then (0, m, p)
      else if mc_op c = HX421_MEDIA_PLAY then cmd_play pl c m p
      else if mc_op c = HX421_MEDIA_STOP
      then (if HX421_STREAM_MAX \<le> mc_slot c then (- 1, m, p) else (0, slot_stop pl (mc_slot c) m p))
      else if mc_op c = HX421_MEDIA_SEEK then cmd_seek pl c m p
      else if mc_op c = HX421_MEDIA_GAIN then cmd_gain pl c m p
      else if mc_op c = HX421_MEDIA_STOP_ALL then (0, stop_slots pl [0..<HX421_STREAM_MAX] m p)
      else (- 5, m, p))"

section \<open>The service\<close>

text \<open>The loop that drains the mailbox; the first argument is what \<open>guard\<close> leaves.\<close>

fun drain_cmds :: "nat \<Rightarrow> 'p media_plat \<Rightarrow> media \<Rightarrow> 'p \<Rightarrow> bool \<times> media \<times> 'p" where
  "drain_cmds 0 pl m p = (False, m, p)"
| "drain_cmds (Suc k) pl m p =
     (case (case mp_cmd_poll pl of None \<Rightarrow> (None, p) | Some f \<Rightarrow> f p) of
        (None, p1) \<Rightarrow> (False, m, p1)
      | (Some c, p1) \<Rightarrow>
          (case hx421_media_apply pl c m p1 of
             (_, m2, p2) \<Rightarrow> (case drain_cmds k pl m2 p2 of (_, m3, p3) \<Rightarrow> (True, m3, p3))))"

fun enable_primed :: "'p media_plat \<Rightarrow> nat list \<Rightarrow> media \<Rightarrow> 'p \<Rightarrow> bool \<times> media \<times> 'p" where
  "enable_primed pl [] m p = (False, m, p)"
| "enable_primed pl (i # is) m p =
     (let sl = me_s m ! i in
      if ml_active sl \<and> \<not> ml_enabled sl \<and> hx421_stream_ready (me_arb m) (int i)
      then (case enable_primed pl is (at_media m i (\<lambda>sl. sl\<lparr>ml_enabled := True\<rparr>))
                   (mixer_ctl pl p i True (ml_gain sl) (ml_pan sl)) of (_, m1, p1) \<Rightarrow> (True, m1, p1))
      else enable_primed pl is m p)"

definition hx421_media_service :: "'p media_plat \<Rightarrow> media \<Rightarrow> 'p \<Rightarrow> bool \<times> media \<times> 'p" where
  "hx421_media_service pl m p =
     (case drain_cmds (2 * HX421_STREAM_MAX + 4) pl m p of
        (did1, m1, p1) \<Rightarrow>
          (case enable_primed pl [0..<HX421_STREAM_MAX] m1 p1 of
             (did2, m2, p2) \<Rightarrow>
               (case hx421_stream_service (arb_plat_from pl) (me_arb m2) p2 of
                  (did3, a, p3) \<Rightarrow> (did1 \<or> did2 \<or> did3, m2\<lparr>me_arb := a\<rparr>, p3))))"

end
