(* ===== verification/Media_Spec.thy ===== *)
theory Media_Spec
  imports Media
begin

text \<open>
  What the media service promises to its platform: it opens and closes assets in pairs, mutes a
  channel before its asset is closed, enables only primed streams and transfers only into the ring
  configured for the slot.
\<close>

text \<open>The stream that \<^const>\<open>hx421_stream_start\<close> writes.\<close>

definition started :: "nat \<Rightarrow> nat \<Rightarrow> nat \<Rightarrow> nat \<Rightarrow> bool \<Rightarrow> nat \<Rightarrow> int \<Rightarrow> sd_stream \<Rightarrow> sd_stream" where
  "started base ring off bytes loop prime prio st =
     st\<lparr>sd_psram_base := base, sd_ring_size := ring, sd_data_off := off, sd_data_bytes := frame_floor bytes,
        sd_prime_bytes := frame_floor prime, sd_write_pos := 0, sd_file_pos := 0, sd_looping := loop, sd_primed := False,
        sd_prio := (if prio < 0 then 0 else if 3 < prio then 3 else nat prio), sd_active := True\<rparr>"

lemma start_at:
  assumes "hx421_stream_start a s base ring off bytes loop prime prio = (rc, a')" and "rc = 0"
  shows "a' = at_stream a (nat s) (started base ring off bytes loop prime prio)" and "nat s < 4"
    and "u32 (2 * sa_chunk a) \<le> ring" and "ring mod 4 = 0" and "4 \<le> bytes"
  using assms by (auto simp: hx421_stream_start_def started_def HX421_STREAM_MAX_def FRAME_def at_stream_def split: if_splits)

lemma start_fails:
  "hx421_stream_start a s base ring off bytes loop prime prio = (rc, a') \<Longrightarrow> rc \<noteq> 0 \<Longrightarrow> a' = a"
  by (auto simp: hx421_stream_start_def split: if_splits)

lemma started_sel [simp]:
  "sd_active (started base ring off bytes loop prime prio st)" "\<not> sd_primed (started base ring off bytes loop prime prio st)"
  "sd_psram_base (started base ring off bytes loop prime prio st) = base" "sd_ring_size (started base ring off bytes loop prime prio st) = ring"
  by (simp_all add: started_def)

text \<open>What one call of the arbiter's service leaves alone, and the transfer it asks for.\<close>

lemma rewind_at:
  assumes "length (sa_str a) = 4" and "s < 4"
  shows "\<exists>q. sa_str (rewind a s) ! t = (sa_str a ! t)\<lparr>sd_file_pos := q\<rparr>"
proof -
  have "sa_str a ! t = (sa_str a ! t)\<lparr>sd_file_pos := sd_file_pos (sa_str a ! t)\<rparr>" by simp
  moreover have "sa_str (rewind a s) ! t = (sa_str a ! t)\<lparr>sd_file_pos := 0\<rparr> \<or> sa_str (rewind a s) ! t = sa_str a ! t"
    using assms by simp
  ultimately show ?thesis by metis
qed

lemma service_keeps:
  assumes len: "length (sa_str a) = 4" and sv: "hx421_stream_service pl a p = (b, a', p')"
  shows "length (sa_str a') = 4" and "sa_chunk a' = sa_chunk a" and "sd_active (sa_str a' ! t) = sd_active (sa_str a ! t)"
    and "sd_primed (sa_str a ! t) \<Longrightarrow> sd_primed (sa_str a' ! t)"
    and "sd_psram_base (sa_str a' ! t) = sd_psram_base (sa_str a ! t)" and "sd_ring_size (sa_str a' ! t) = sd_ring_size (sa_str a ! t)"
proof -
  have "length (sa_str a') = 4 \<and> sa_chunk a' = sa_chunk a \<and> sd_active (sa_str a' ! t) = sd_active (sa_str a ! t) \<and>
      (sd_primed (sa_str a ! t) \<longrightarrow> sd_primed (sa_str a' ! t)) \<and>
      sd_psram_base (sa_str a' ! t) = sd_psram_base (sa_str a ! t) \<and> sd_ring_size (sa_str a' ! t) = sd_ring_size (sa_str a ! t)"
    using sv
  proof (cases rule: service_cases)
    case (sent s run)
    let ?a2 = "at_stream (rewind a s) s (advance_stream run)"
    have l2: "s < length (sa_str ?a2)" using len sent(1) by simp
    obtain q where q: "sa_str (rewind a s) ! t = (sa_str a ! t)\<lparr>sd_file_pos := q\<rparr>" using rewind_at [OF len sent(1)] by blast
    have str: "sa_str a' = sa_str (mark_primed pl p' ?a2 s)" "sa_chunk a' = sa_chunk (mark_primed pl p' ?a2 s)" by (simp_all add: sent(7))
    have l: "length (sa_str a') = 4" "sa_chunk a' = sa_chunk a"
      using mark_primed_sel(1,3) [OF l2, of pl p'] len by (simp_all add: str)
    show ?thesis
    proof (cases "t = s")
      case False
      have "sa_str a' ! t = sa_str ?a2 ! t" unfolding str by (rule mark_primed_sel(4) [OF l2 False])
      also have "\<dots> = sa_str (rewind a s) ! t" using len sent(1) False by simp
      finally show ?thesis using l q by simp
    next
      case True
      have "sa_str ?a2 ! s = advance_stream run (sa_str (rewind a s) ! s)" using len sent(1) by simp
      then have "sa_str a' ! t = (advance_stream run ((sa_str a ! t)\<lparr>sd_file_pos := q\<rparr>))
          \<lparr>sd_primed := sd_primed (advance_stream run ((sa_str a ! t)\<lparr>sd_file_pos := q\<rparr>)) \<or> head_of ?a2 s \<le> fill_of pl p' ?a2 s\<rparr>"
        using q unfolding str mark_primed_at [OF l2] True by metis
      then show ?thesis using l by (simp add: advance_stream_def Let_def)
    qed
  next
    case (small s)
    then show ?thesis using rewind_at [OF len small(1), of t] len by auto
  next
    case (busy s run)
    then show ?thesis using rewind_at [OF len busy(1), of t] len by auto
  qed (use len in simp)
  then show "length (sa_str a') = 4" and "sa_chunk a' = sa_chunk a" and "sd_active (sa_str a' ! t) = sd_active (sa_str a ! t)"
    and "sd_primed (sa_str a ! t) \<Longrightarrow> sd_primed (sa_str a' ! t)"
    and "sd_psram_base (sa_str a' ! t) = sd_psram_base (sa_str a ! t)" and "sd_ring_size (sa_str a' ! t) = sd_ring_size (sa_str a ! t)"
    by blast+
qed

definition inside :: "nat \<Rightarrow> nat \<Rightarrow> nat \<Rightarrow> nat \<Rightarrow> bool" where
  "inside base ring addr n \<longleftrightarrow> base \<le> addr \<and> addr + n \<le> base + ring"

lemma service_transfer:
  assumes sv: "hx421_stream_service pl a p = (b, a', p')"
  shows "p' = p \<or> (\<exists>s addr off n bo. pl_offload pl p s addr off n = (bo, p') \<and>
    (arb_wf a \<longrightarrow> s < 4 \<and> sd_active (sa_str a ! s) \<and> inside (sd_psram_base (sa_str a ! s)) (sd_ring_size (sa_str a ! s)) addr n))"
proof -
  have in_ring: "s < 4 \<and> sd_active (sa_str a ! s) \<and> inside (sd_psram_base (sa_str a ! s)) (sd_ring_size (sa_str a ! s))
      (u32 (sd_psram_base (sa_str (rewind a s) ! s) + sd_write_pos (sa_str (rewind a s) ! s))) run"
    if s: "s < 4" "needs_data pl p a s" "run = run_length pl p (rewind a s) s" "0 < run" and wf: "arb_wf a" for s run
  proof -
    note rb = run_bounds [OF wf s]
    have len: "length (sa_str a) = 4" using wf by (simp add: arb_wf_def)
    obtain q where q: "sa_str (rewind a s) ! s = (sa_str a ! s)\<lparr>sd_file_pos := q\<rparr>" using rewind_at [OF len s(1)] by blast
    have "u32 (sd_psram_base (sa_str a ! s) + sd_write_pos (sa_str a ! s)) = sd_psram_base (sa_str a ! s) + sd_write_pos (sa_str a ! s)"
      using rb(6) by (auto simp: sd_ok_def q intro!: u32_id)
    moreover have "sd_active (sa_str a ! s)" using s(2) by (auto simp: needs_data_def Let_def split: if_splits)
    ultimately show ?thesis using s(1) rb(4) by (simp add: q inside_def)
  qed
  from sv show ?thesis
  proof (cases rule: service_cases)
    case (busy s run)
    then show ?thesis using in_ring [OF busy(1-4)] by blast
  next
    case (sent s run)
    then show ?thesis using in_ring [OF sent(1-4)] by blast
  qed simp_all
qed

section \<open>The contract of the seams\<close>

text \<open>
  \<open>opened p s\<close> is the asset that slot \<open>s\<close> has open, \<open>sounding p s\<close> tells whether its channel is
  enabled, and \<open>fair p\<close> that no call so far broke the rules: an asset is opened on an empty slot
  only, closed only while it is open and its channel mute, and a channel is controlled only while
  its slot has an asset.
\<close>

locale media_seams =
  fixes pl :: "'p media_plat" and opened :: "'p \<Rightarrow> nat \<Rightarrow> nat option" and sounding :: "'p \<Rightarrow> nat \<Rightarrow> bool" and fair :: "'p \<Rightarrow> bool"
  assumes open_asset: "mp_asset_open pl = Some f \<Longrightarrow> fair p \<Longrightarrow> opened p s = None \<Longrightarrow> f p s aid = (r, p') \<Longrightarrow>
      fair p' \<and> sounding p' = sounding p \<and> opened p' = (if r = None then opened p else (opened p)(s := Some aid))"
    and close_asset: "fair p \<Longrightarrow> opened p s = Some aid \<Longrightarrow> \<not> sounding p s \<Longrightarrow>
      fair (asset_close pl p s aid) \<and> sounding (asset_close pl p s aid) = sounding p \<and> opened (asset_close pl p s aid) = (opened p)(s := None)"
    and control: "fair p \<Longrightarrow> opened p s \<noteq> None \<Longrightarrow>
      fair (mixer_ctl pl p s en g pn) \<and> sounding (mixer_ctl pl p s en g pn) = (sounding p)(s := en) \<and> opened (mixer_ctl pl p s en g pn) = opened p"
    and transfer: "mp_offload pl p s a off n = (b, p') \<Longrightarrow> fair p' = fair p \<and> sounding p' = sounding p \<and> opened p' = opened p"
    and poll: "mp_cmd_poll pl = Some h \<Longrightarrow> h p = (c, p') \<Longrightarrow> fair p' = fair p \<and> sounding p' = sounding p \<and> opened p' = opened p"
begin

definition slot_sync :: "sd_stream \<Rightarrow> media_slot \<Rightarrow> 'p \<Rightarrow> nat \<Rightarrow> bool" where
  "slot_sync st sl p s \<longleftrightarrow> sd_active st = ml_active sl \<and> opened p s = (if ml_active sl then Some (ml_asset sl) else None) \<and>
     sounding p s = ml_enabled sl \<and> (ml_enabled sl \<longrightarrow> ml_active sl \<and> sd_primed st)"

definition sync :: "media \<Rightarrow> 'p \<Rightarrow> bool" where
  "sync m p \<longleftrightarrow> fair p \<and> length (me_s m) = 4 \<and> length (sa_str (me_arb m)) = 4 \<and>
     (\<forall>s<4. slot_sync (sa_str (me_arb m) ! s) (me_s m ! s) p s)"

lemma syncD: "sync m p \<Longrightarrow> s < 4 \<Longrightarrow> slot_sync (sa_str (me_arb m) ! s) (me_s m ! s) p s"
  and sync_fair: "sync m p \<Longrightarrow> fair p" and sync_len: "sync m p \<Longrightarrow> length (me_s m) = 4 \<and> length (sa_str (me_arb m)) = 4"
  by (simp_all add: sync_def)

lemma sync_at:
  assumes "sync m p" and "s < 4" and "fair p'" and "length (me_s m') = 4" and "length (sa_str (me_arb m')) = 4"
    and "\<And>t. t \<noteq> s \<Longrightarrow> sa_str (me_arb m') ! t = sa_str (me_arb m) ! t \<and> me_s m' ! t = me_s m ! t \<and>
           opened p' t = opened p t \<and> sounding p' t = sounding p t"
    and "slot_sync (sa_str (me_arb m') ! s) (me_s m' ! s) p' s"
  shows "sync m' p'"
  unfolding sync_def
proof (intro conjI allI impI)
  fix t :: nat assume "t < 4"
  then show "slot_sync (sa_str (me_arb m') ! t) (me_s m' ! t) p' t"
    using syncD [OF assms(1)] assms(6) [of t] assms(7) by (cases "t = s") (auto simp: slot_sync_def)
qed (use assms in simp_all)

lemma slot_stop_sync:
  assumes ok: "sync m p" and st: "slot_stop pl s m p = (m', p')"
  shows "sync m' p'" and "s < 4 \<Longrightarrow> \<not> ml_active (me_s m' ! s)"
proof -
  have "sync m' p' \<and> (s < 4 \<longrightarrow> \<not> ml_active (me_s m' ! s))"
  proof (cases "s < 4 \<and> ml_active (me_s m ! s)")
    case False
    then have "m' = m" "p' = p" using st by (auto simp: slot_stop_def HX421_STREAM_MAX_def split: if_splits)
    then show ?thesis using ok False by simp
  next
    case True
    let ?sl = "me_s m ! s"
    define p1 where "p1 = (if ml_enabled ?sl then mixer_ctl pl p s False 0 (ml_pan ?sl) else p)"
    have e: "m' = at_media (m\<lparr>me_arb := hx421_stream_stop (me_arb m) (int s)\<rparr>) s (\<lambda>sl. sl\<lparr>ml_active := False, ml_enabled := False\<rparr>)"
      "p' = asset_close pl p1 s (ml_asset ?sl)"
      using st True by (simp_all add: slot_stop_def HX421_STREAM_MAX_def Let_def p1_def)
    have sy: "slot_sync (sa_str (me_arb m) ! s) ?sl p s" using syncD [OF ok] True by blast
    then have op: "opened p s = Some (ml_asset ?sl)" using True by (simp add: slot_sync_def)
    have "fair p1 \<and> opened p1 = opened p \<and> sounding p1 = (sounding p)(s := False)"
      using control [OF sync_fair [OF ok]] op sync_fair [OF ok] sy by (auto simp: p1_def slot_sync_def fun_eq_iff)
    then have p': "fair p' \<and> sounding p' = (sounding p)(s := False) \<and> opened p' = (opened p)(s := None)"
      using close_asset [of p1 s] op unfolding e(2) by simp
    have "sync m' p'"
      by (rule sync_at [OF ok conjunct1 [OF True]]) (use True p' sync_len [OF ok] in
        \<open>simp_all add: e(1) at_media_def hx421_stream_stop_def HX421_STREAM_MAX_def slot_sync_def\<close>)
    then show ?thesis using True sync_len [OF ok] by (simp add: e(1) at_media_def)
  qed
  then show "sync m' p'" and "s < 4 \<Longrightarrow> \<not> ml_active (me_s m' ! s)" by blast+
qed

lemma stop_slots_sync: "sync m p \<Longrightarrow> stop_slots pl is m p = (m', p') \<Longrightarrow> sync m' p'"
proof (induction "is" arbitrary: m p)
  case (Cons i "is")
  obtain m1 p1 where s: "slot_stop pl i m p = (m1, p1)" by fastforce
  show ?case using Cons.IH [OF slot_stop_sync(1) [OF Cons.prems(1) s]] Cons.prems(2) s by simp
qed simp

lemma cmd_play_sync:
  assumes ok: "sync m p" and pl: "cmd_play pl c m p = (rc, m', p')"
  shows "sync m' p'"
proof (cases "mc_slot c < 4 \<and> sc_ring_size (cf_slot (me_cfg m) ! mc_slot c) \<noteq> 0")
  case False
  then show ?thesis using pl ok by (auto simp: cmd_play_def Let_def HX421_STREAM_MAX_def split: if_splits)
next
  case slot: True
  let ?s = "mc_slot c" and ?sc = "cf_slot (me_cfg m) ! mc_slot c"
  obtain m1 p1 where s: "slot_stop pl ?s m p = (m1, p1)" by fastforce
  note ok1 = slot_stop_sync(1) [OF ok s] and idle = slot_stop_sync(2) [OF ok s]
  have sy: "slot_sync (sa_str (me_arb m1) ! ?s) (me_s m1 ! ?s) p1 ?s" using syncD [OF ok1] slot by blast
  then have free: "opened p1 ?s = None" "\<not> sounding p1 ?s" "\<not> sd_active (sa_str (me_arb m1) ! ?s)"
    using idle slot by (auto simp: slot_sync_def)
  obtain r p2 where o: "(case mp_asset_open pl of None \<Rightarrow> (None, p1) | Some f \<Rightarrow> f p1 ?s (mc_asset c)) = (r, p2)" by fastforce
  have p2: "fair p2 \<and> sounding p2 = sounding p1 \<and> opened p2 = (if r = None then opened p1 else (opened p1)(?s := Some (mc_asset c)))"
    using o open_asset [OF _ sync_fair [OF ok1] free(1)] sync_fair [OF ok1] by (cases "mp_asset_open pl") auto
  show ?thesis
  proof (cases r)
    case None
    then have e: "m' = m1" "p' = p2" using pl slot s o by (simp_all add: cmd_play_def Let_def HX421_STREAM_MAX_def)
    show ?thesis by (rule sync_at [OF ok1 conjunct1 [OF slot]]) (use slot p2 None sy sync_len [OF ok1] in \<open>simp_all add: e slot_sync_def\<close>)
  next
    case (Some ob)
    obtain off bytes where ob: "ob = (off, bytes)" by fastforce
    obtain q a where st: "hx421_stream_start (me_arb m1) (int ?s) (sc_psram_base ?sc) (sc_ring_size ?sc) off bytes
        (mc_flags c AND 1 \<noteq> 0) (sc_prime_bytes ?sc) (int (mc_prio c)) = (q, a)" by fastforce
    show ?thesis
    proof (cases "q = 0")
      case False
      then have e: "m' = m1\<lparr>me_arb := a\<rparr>" "p' = asset_close pl p2 ?s (mc_asset c)"
        using pl slot s o Some ob st by (simp_all add: cmd_play_def Let_def HX421_STREAM_MAX_def)
      have a: "a = me_arb m1" by (rule start_fails [OF st False])
      have "fair p' \<and> sounding p' = sounding p1 \<and> opened p' = (opened p1)(?s := None)"
        using close_asset [of p2 ?s "mc_asset c"] p2 Some free(2) unfolding e(2) by simp
      then show ?thesis
        by (intro sync_at [OF ok1 conjunct1 [OF slot]]) (use sy free sync_len [OF ok1] in \<open>simp_all add: e(1) a slot_sync_def split: if_splits\<close>)
    next
      case True
      then have e: "m' = at_media (m1\<lparr>me_arb := a\<rparr>) ?s (\<lambda>sl. sl\<lparr>ml_active := True, ml_enabled := False,
          ml_asset := mc_asset c, ml_gain := mc_gain c, ml_pan := mc_pan c\<rparr>)" "p' = p2"
        using pl slot s o Some ob st by (simp_all add: cmd_play_def Let_def HX421_STREAM_MAX_def)
      have "a = at_stream (me_arb m1) ?s (started (sc_psram_base ?sc) (sc_ring_size ?sc) off bytes
          (mc_flags c AND 1 \<noteq> 0) (sc_prime_bytes ?sc) (int (mc_prio c)))" using start_at(1) [OF st True] by simp
      then have a': "length (sa_str a) = 4" "t \<noteq> ?s \<Longrightarrow> sa_str a ! t = sa_str (me_arb m1) ! t" "sd_active (sa_str a ! ?s)" for t
        using sync_len [OF ok1] slot by auto
      show ?thesis
        by (rule sync_at [OF ok1 conjunct1 [OF slot]]) (use slot p2 Some a' free sync_len [OF ok1] in \<open>simp_all add: e at_media_def slot_sync_def\<close>)
    qed
  qed
qed

lemma cmd_seek_sync:
  assumes ok: "sync m p" and sk: "cmd_seek pl c m p = (rc, m', p')"
  shows "sync m' p'"
proof (cases "mc_slot c < 4 \<and> ml_active (me_s m ! mc_slot c)")
  case False
  then show ?thesis using sk ok by (auto simp: cmd_seek_def Let_def HX421_STREAM_MAX_def split: if_splits)
next
  case True
  let ?s = "mc_slot c"
  obtain off where e: "m' = at_media (m\<lparr>me_arb := at_stream (me_arb m) ?s (\<lambda>st. st\<lparr>sd_file_pos := off, sd_write_pos := 0, sd_primed := False\<rparr>)\<rparr>)
      ?s (\<lambda>sl. sl\<lparr>ml_enabled := False\<rparr>)" "p' = (if ml_enabled (me_s m ! ?s) then mixer_ctl pl p ?s False 0 (ml_pan (me_s m ! ?s)) else p)"
    using sk True by (auto simp: cmd_seek_def Let_def HX421_STREAM_MAX_def)
  have sy: "slot_sync (sa_str (me_arb m) ! ?s) (me_s m ! ?s) p ?s" using syncD [OF ok] True by blast
  then have op: "opened p ?s \<noteq> None" using True by (simp add: slot_sync_def)
  have p': "fair p' \<and> opened p' = opened p \<and> sounding p' = (sounding p)(?s := False)"
    using control [OF sync_fair [OF ok] op] sync_fair [OF ok] sy by (auto simp: e(2) slot_sync_def fun_eq_iff)
  show ?thesis
    by (rule sync_at [OF ok conjunct1 [OF True]]) (use True p' sy sync_len [OF ok] in \<open>simp_all add: e(1) at_media_def slot_sync_def\<close>)
qed

lemma cmd_gain_sync:
  assumes ok: "sync m p" and gn: "cmd_gain pl c m p = (rc, m', p')"
  shows "sync m' p'"
proof (cases "mc_slot c < 4 \<and> ml_active (me_s m ! mc_slot c)")
  case False
  then show ?thesis using gn ok by (auto simp: cmd_gain_def Let_def HX421_STREAM_MAX_def split: if_splits)
next
  case True
  let ?s = "mc_slot c"
  have e: "m' = at_media m ?s (\<lambda>sl. sl\<lparr>ml_gain := mc_gain c, ml_pan := mc_pan c\<rparr>)"
    "p' = (if ml_enabled (me_s m ! ?s) then mixer_ctl pl p ?s True (mc_gain c) (mc_pan c) else p)"
    using gn True by (auto simp: cmd_gain_def Let_def HX421_STREAM_MAX_def)
  have sy: "slot_sync (sa_str (me_arb m) ! ?s) (me_s m ! ?s) p ?s" using syncD [OF ok] True by blast
  then have op: "opened p ?s \<noteq> None" using True by (simp add: slot_sync_def)
  have p': "fair p' \<and> opened p' = opened p \<and> sounding p' = sounding p"
    using control [OF sync_fair [OF ok] op] sync_fair [OF ok] sy by (auto simp: e(2) slot_sync_def fun_eq_iff)
  show ?thesis
    by (rule sync_at [OF ok conjunct1 [OF True]]) (use True p' sy sync_len [OF ok] in \<open>simp_all add: e(1) at_media_def slot_sync_def\<close>)
qed

lemma apply_sync:
  assumes ok: "sync m p" and ap: "hx421_media_apply pl c m p = (rc, m', p')"
  shows "sync m' p'"
proof -
  have "slot_stop pl (mc_slot c) m p = (m', p') \<or> cmd_play pl c m p = (rc, m', p') \<or> cmd_seek pl c m p = (rc, m', p') \<or>
      cmd_gain pl c m p = (rc, m', p') \<or> stop_slots pl [0..<HX421_STREAM_MAX] m p = (m', p') \<or> m' = m \<and> p' = p"
    using ap by (auto simp: hx421_media_apply_def split: if_splits)
  then show ?thesis
    using slot_stop_sync(1) [OF ok] cmd_play_sync [OF ok] cmd_seek_sync [OF ok] cmd_gain_sync [OF ok] stop_slots_sync [OF ok] ok by blast
qed

lemma sync_same: "sync m p \<Longrightarrow> fair p' = fair p \<Longrightarrow> sounding p' = sounding p \<Longrightarrow> opened p' = opened p \<Longrightarrow> sync m p'"
  by (simp add: sync_def slot_sync_def)

lemma drain_sync: "sync m p \<Longrightarrow> drain_cmds k pl m p = (b, m', p') \<Longrightarrow> sync m' p'"
proof (induction k arbitrary: b m p m' p')
  case (Suc k)
  obtain c p1 where c: "(case mp_cmd_poll pl of None \<Rightarrow> (None, p) | Some f \<Rightarrow> f p) = (c, p1)" by fastforce
  have "fair p1 = fair p \<and> sounding p1 = sounding p \<and> opened p1 = opened p" using c poll [of _ p c p1] by (cases "mp_cmd_poll pl") auto
  then have ok1: "sync m p1" using sync_same [OF Suc.prems(1)] by blast
  show ?case
  proof (cases c)
    case None
    then show ?thesis using Suc.prems(2) c ok1 by simp
  next
    case (Some cc)
    obtain rc m2 p2 where a: "hx421_media_apply pl cc m p1 = (rc, m2, p2)" by (metis prod_cases3)
    obtain b3 m3 p3 where d: "drain_cmds k pl m2 p2 = (b3, m3, p3)" by (metis prod_cases3)
    have "m' = m3" "p' = p3" using Suc.prems(2) c Some a d by simp_all
    then show ?thesis using Suc.IH [OF apply_sync [OF ok1 a] d] by simp
  qed
qed simp

lemma enable_sync: "sync m p \<Longrightarrow> \<forall>i \<in> set is. i < 4 \<Longrightarrow> enable_primed pl is m p = (b, m', p') \<Longrightarrow> sync m' p'"
proof (induction "is" arbitrary: b m p m' p')
  case (Cons i "is")
  let ?sl = "me_s m ! i"
  show ?case
  proof (cases "ml_active ?sl \<and> \<not> ml_enabled ?sl \<and> hx421_stream_ready (me_arb m) (int i)")
    case False
    then show ?thesis using Cons.IH [OF Cons.prems(1)] Cons.prems(2,3) by (auto simp: Let_def)
  next
    case True
    let ?m1 = "at_media m i (\<lambda>sl. sl\<lparr>ml_enabled := True\<rparr>)" and ?p1 = "mixer_ctl pl p i True (ml_gain ?sl) (ml_pan ?sl)"
    have i: "i < 4" using Cons.prems(2) by simp
    have sy: "slot_sync (sa_str (me_arb m) ! i) ?sl p i" by (rule syncD [OF Cons.prems(1) i])
    then have "opened p i \<noteq> None" using True by (simp add: slot_sync_def)
    note p1 = control [OF sync_fair [OF Cons.prems(1)] this, of True "ml_gain ?sl" "ml_pan ?sl"]
    have prim: "sd_primed (sa_str (me_arb m) ! i)" using True i by (simp add: hx421_stream_ready_def HX421_STREAM_MAX_def)
    have ok1: "sync ?m1 ?p1"
      by (rule sync_at [OF Cons.prems(1) i]) (use True i prim p1 sy sync_len [OF Cons.prems(1)] in \<open>simp_all add: at_media_def slot_sync_def\<close>)
    obtain b2 m2 p2 where e: "enable_primed pl is ?m1 ?p1 = (b2, m2, p2)" by (metis prod_cases3)
    have "m' = m2" "p' = p2" using Cons.prems(3) True e by (simp_all add: Let_def)
    then show ?thesis using Cons.IH [OF ok1 _ e, simplified] Cons.prems(2) by simp
  qed
qed simp

lemma service_sync:
  assumes ok: "sync m p" and sv: "hx421_media_service pl m p = (b, m', p')"
  shows "sync m' p'"
proof -
  obtain b1 m1 p1 where d: "drain_cmds (2 * HX421_STREAM_MAX + 4) pl m p = (b1, m1, p1)" by (metis prod_cases3)
  obtain b2 m2 p2 where e: "enable_primed pl [0..<HX421_STREAM_MAX] m1 p1 = (b2, m2, p2)" by (metis prod_cases3)
  obtain b3 a p3 where s: "hx421_stream_service (arb_plat_from pl) (me_arb m2) p2 = (b3, a, p3)" by (metis prod_cases3)
  have ok2: "sync m2 p2"
    by (rule enable_sync [OF drain_sync [OF ok d] _ e]) (simp add: HX421_STREAM_MAX_def)
  have m': "m' = m2\<lparr>me_arb := a\<rparr>" "p' = p3" using sv d e s by (simp_all add: hx421_media_service_def)
  have "fair p3 = fair p2 \<and> sounding p3 = sounding p2 \<and> opened p3 = opened p2"
    using service_transfer [OF s] transfer by (auto simp: arb_plat_from_def)
  then have "sync m2 p3" using sync_same [OF ok2] by blast
  then show ?thesis unfolding m' sync_def slot_sync_def
    using service_keeps [OF conjunct2 [OF sync_len [OF ok2]] s] by simp
qed

lemma init_sync:
  assumes "length (me_s m) = 4" and "length (sa_str (me_arb m)) = 4" and "fair p" and "opened p = (\<lambda>_. None)" and "sounding p = (\<lambda>_. False)"
  shows "sync (hx421_media_init m cfg) p"
  using assms by (simp add: sync_def slot_sync_def hx421_media_init_def hx421_stream_arb_init_def Let_def)

end

section \<open>A platform with a ledger\<close>

text \<open>
  Any platform with a record of the calls it got: the assets that are open, the channels that are
  enabled, the transfers and whether the calls kept the rules.
\<close>

record 'p ledger =
  lg_plat :: 'p
  lg_open :: "nat \<Rightarrow> nat option"
  lg_on :: "nat \<Rightarrow> bool"
  lg_moved :: "(nat \<times> nat \<times> nat) list"
  lg_fair :: bool

definition ledger_plat :: "'p media_plat \<Rightarrow> 'p ledger media_plat" where
  "ledger_plat pl =
     \<lparr>mp_offload = (\<lambda>l s addr off n. case mp_offload pl (lg_plat l) s addr off n of
        (b, p) \<Rightarrow> (b, l\<lparr>lg_plat := p, lg_moved := (s, addr, n) # lg_moved l\<rparr>)),
      mp_read_ptr = map_option (\<lambda>f l s. f (lg_plat l) s) (mp_read_ptr pl),
      mp_asset_open = map_option (\<lambda>f l s i. case f (lg_plat l) s i of
        (r, p) \<Rightarrow> (r, l\<lparr>lg_plat := p, lg_open := (if r = None then lg_open l else (lg_open l)(s := Some i)),
                      lg_fair := lg_fair l \<and> lg_open l s = None\<rparr>)) (mp_asset_open pl),
      mp_asset_close = Some (\<lambda>l s i. l\<lparr>lg_plat := asset_close pl (lg_plat l) s i, lg_open := (lg_open l)(s := None),
        lg_fair := lg_fair l \<and> lg_open l s = Some i \<and> \<not> lg_on l s\<rparr>),
      mp_mixer_ctl = Some (\<lambda>l s en g pn. l\<lparr>lg_plat := mixer_ctl pl (lg_plat l) s en g pn, lg_on := (lg_on l)(s := en),
        lg_fair := lg_fair l \<and> lg_open l s \<noteq> None\<rparr>),
      mp_cmd_poll = map_option (\<lambda>f l. case f (lg_plat l) of (c, p) \<Rightarrow> (c, l\<lparr>lg_plat := p\<rparr>)) (mp_cmd_poll pl)\<rparr>"

definition new_ledger :: "'p \<Rightarrow> 'p ledger" where
  "new_ledger p = \<lparr>lg_plat = p, lg_open = (\<lambda>_. None), lg_on = (\<lambda>_. False), lg_moved = [], lg_fair = True\<rparr>"

interpretation lg: media_seams "ledger_plat pl" lg_open lg_on lg_fair for pl :: "'p media_plat"
proof unfold_locales
  show "lg_fair p' \<and> lg_on p' = lg_on p \<and> lg_open p' = (if r = None then lg_open p else (lg_open p)(s := Some i))"
    if "mp_asset_open (ledger_plat pl) = Some f" "lg_fair p" "lg_open p s = None" "f p s i = (r, p')"
    for f :: "'p ledger \<Rightarrow> nat \<Rightarrow> nat \<Rightarrow> (nat \<times> nat) option \<times> 'p ledger" and p s i r p'
    using that by (auto simp: ledger_plat_def split: prod.splits)
qed (auto simp: ledger_plat_def asset_close_def mixer_ctl_def split: prod.splits)

end
