(* ===== verification/Media_Props.thy ===== *)
theory Media_Props
  imports Media_Spec
begin

text \<open>
  The runs of the media service: the contract with the platform holds in all of them, and a seek
  can leave a stream silent.
\<close>

section \<open>Only the service transfers\<close>

locale quiet_seams =
  fixes pl :: "'p media_plat" and obs :: "'p \<Rightarrow> 'o"
  assumes open_obs: "mp_asset_open pl = Some f \<Longrightarrow> f p s i = (r, p') \<Longrightarrow> obs p' = obs p"
    and close_obs: "obs (asset_close pl p s i) = obs p"
    and control_obs: "obs (mixer_ctl pl p s en g pn) = obs p"
    and poll_obs: "mp_cmd_poll pl = Some h \<Longrightarrow> h p = (c, p') \<Longrightarrow> obs p' = obs p"
begin

lemma slot_stop_obs: "slot_stop pl s m p = (m', p') \<Longrightarrow> obs p' = obs p"
  by (auto simp: slot_stop_def Let_def close_obs control_obs split: if_splits)

lemma stop_slots_obs: "stop_slots pl is m p = (m', p') \<Longrightarrow> obs p' = obs p"
  by (induction "is" arbitrary: m p) (auto split: prod.splits dest: slot_stop_obs)

lemma cmd_play_obs: "cmd_play pl c m p = (rc, m', p') \<Longrightarrow> obs p' = obs p"
  by (auto simp: cmd_play_def Let_def close_obs split: if_splits prod.splits option.splits dest!: slot_stop_obs dest: open_obs)

lemma apply_obs:
  assumes "hx421_media_apply pl c m p = (rc, m', p')"
  shows "obs p' = obs p"
proof -
  have "slot_stop pl (mc_slot c) m p = (m', p') \<or> cmd_play pl c m p = (rc, m', p') \<or> cmd_seek pl c m p = (rc, m', p') \<or>
      cmd_gain pl c m p = (rc, m', p') \<or> stop_slots pl [0..<HX421_STREAM_MAX] m p = (m', p') \<or> p' = p"
    using assms by (auto simp: hx421_media_apply_def split: if_splits)
  moreover have "obs p' = obs p" if "cmd_seek pl c m p = (rc, m', p')"
    using that by (auto simp: cmd_seek_def Let_def control_obs split: if_splits)
  moreover have "obs p' = obs p" if "cmd_gain pl c m p = (rc, m', p')"
    using that by (auto simp: cmd_gain_def Let_def control_obs split: if_splits)
  ultimately show ?thesis using slot_stop_obs cmd_play_obs stop_slots_obs by metis
qed

lemma drain_obs: "drain_cmds k pl m p = (b, m', p') \<Longrightarrow> obs p' = obs p"
proof (induction k arbitrary: b m p m' p')
  case (Suc k)
  obtain c p1 where c: "(case mp_cmd_poll pl of None \<Rightarrow> (None, p) | Some f \<Rightarrow> f p) = (c, p1)" by fastforce
  have o1: "obs p1 = obs p" using c poll_obs [of _ p c p1] by (cases "mp_cmd_poll pl") auto
  show ?case
  proof (cases c)
    case None
    then show ?thesis using Suc.prems c o1 by simp
  next
    case (Some cc)
    obtain rc m2 p2 where a: "hx421_media_apply pl cc m p1 = (rc, m2, p2)" by (metis prod_cases3)
    obtain b3 m3 p3 where d: "drain_cmds k pl m2 p2 = (b3, m3, p3)" by (metis prod_cases3)
    have "p' = p3" using Suc.prems c Some a d by simp
    then show ?thesis using Suc.IH [OF d] apply_obs [OF a] o1 by simp
  qed
qed simp

lemma enable_obs: "enable_primed pl is m p = (b, m', p') \<Longrightarrow> obs p' = obs p"
proof (induction "is" arbitrary: b m p m' p')
  case (Cons i "is")
  obtain b2 m2 p2 where e: "enable_primed pl is (at_media m i (\<lambda>sl. sl\<lparr>ml_enabled := True\<rparr>))
      (mixer_ctl pl p i True (ml_gain (me_s m ! i)) (ml_pan (me_s m ! i))) = (b2, m2, p2)" by (metis prod_cases3)
  show ?case using Cons.IH [OF e] Cons.IH Cons.prems e by (auto simp: Let_def control_obs split: if_splits)
qed simp

end

interpretation mv: quiet_seams "ledger_plat pl" lg_moved for pl :: "'p media_plat"
  by unfold_locales (auto simp: ledger_plat_def asset_close_def mixer_ctl_def split: prod.splits)

section \<open>The rings of the slots\<close>

definition cfg_ok :: "media_cfg \<Rightarrow> bool" where
  "cfg_ok cfg \<longleftrightarrow> cf_chunk cfg < 2147483648 \<and>
     (\<forall>s<4. sc_ring_size (cf_slot cfg ! s) \<le> 1073741824 \<and> sc_psram_base (cf_slot cfg ! s) + sc_ring_size (cf_slot cfg ! s) \<le> 4294967296)"

text \<open>The files of the platform end below 4 GiB.\<close>

definition extents_ok :: "'p media_plat \<Rightarrow> bool" where
  "extents_ok pl \<longleftrightarrow> (\<forall>f p s i off bytes p'. mp_asset_open pl = Some f \<longrightarrow> f p s i = (Some (off, bytes), p') \<longrightarrow> off + bytes < 4294967296)"

definition rings :: "media_cfg \<Rightarrow> media \<Rightarrow> bool" where
  "rings cfg m \<longleftrightarrow> me_cfg m = cfg \<and> arb_wf (me_arb m) \<and> (\<forall>s<4. sd_active (sa_str (me_arb m) ! s) \<longrightarrow>
     sd_psram_base (sa_str (me_arb m) ! s) = sc_psram_base (cf_slot cfg ! s) \<and> sd_ring_size (sa_str (me_arb m) ! s) = sc_ring_size (cf_slot cfg ! s))"

lemma rings_at:
  assumes "rings cfg m" and "me_cfg m' = cfg" and "me_arb m' = at_stream (me_arb m) s f" and "s < 4"
    and "sd_active (f (sa_str (me_arb m) ! s)) \<Longrightarrow> sd_ok (sa_chunk (me_arb m)) (f (sa_str (me_arb m) ! s)) \<and>
      sd_psram_base (f (sa_str (me_arb m) ! s)) = sc_psram_base (cf_slot cfg ! s) \<and>
      sd_ring_size (f (sa_str (me_arb m) ! s)) = sc_ring_size (cf_slot cfg ! s)"
  shows "rings cfg m'"
proof -
  have wf: "arb_wf (me_arb m)" using assms(1) by (simp add: rings_def)
  then have "arb_wf (at_stream (me_arb m) s f)" using assms(4,5) by (intro wf_at_stream) auto
  moreover have "s < length (sa_str (me_arb m))" using wf assms(4) by (simp add: arb_wf_def)
  ultimately show ?thesis using assms by (auto simp: rings_def)
qed

lemma rings_same: "rings cfg m \<Longrightarrow> me_cfg m' = me_cfg m \<Longrightarrow> me_arb m' = me_arb m \<Longrightarrow> rings cfg m'"
  by (simp add: rings_def)

lemma at_media_sel [simp]: "me_cfg (at_media m s f) = me_cfg m" "me_arb (at_media m s f) = me_arb m"
  by (simp_all add: at_media_def)

lemma slot_stop_rings:
  assumes "rings cfg m" and "slot_stop pl s m p = (m', p')"
  shows "rings cfg m'"
proof (cases "s < 4 \<and> ml_active (me_s m ! s)")
  case False
  then have "m' = m" using assms(2) by (auto simp: slot_stop_def HX421_STREAM_MAX_def split: if_splits)
  then show ?thesis using assms(1) by simp
next
  case True
  then have "me_arb m' = at_stream (me_arb m) s (\<lambda>st. st\<lparr>sd_active := False\<rparr>)" "me_cfg m' = me_cfg m"
    using assms(2) by (auto simp: slot_stop_def HX421_STREAM_MAX_def hx421_stream_stop_def Let_def split: if_splits)
  then show ?thesis using True assms(1) by (intro rings_at [OF assms(1), where s = s]) (auto simp: rings_def)
qed

lemma stop_slots_rings: "rings cfg m \<Longrightarrow> stop_slots pl is m p = (m', p') \<Longrightarrow> rings cfg m'"
proof (induction "is" arbitrary: m p)
  case (Cons i "is")
  obtain m1 p1 where s: "slot_stop pl i m p = (m1, p1)" by fastforce
  show ?case using Cons.IH [OF slot_stop_rings [OF Cons.prems(1) s]] Cons.prems(2) s by simp
qed simp

lemma started_ok:
  assumes "arb_wf a" and "u32 (2 * sa_chunk a) \<le> ring" and "ring mod 4 = 0" and "4 \<le> bytes"
    and "ring \<le> 1073741824" and "base + ring \<le> 4294967296" and "off + bytes < 4294967296"
  shows "sd_ok (sa_chunk a) (started base ring off bytes loop prime prio st)"
proof -
  have "2 * sa_chunk a \<le> ring" "0 < ring" using assms(1,2) by (auto simp: arb_wf_def)
  moreover have "4 \<le> frame_floor bytes" "frame_floor bytes \<le> bytes" using assms(4) frame_floor_mult frame_floor_ge by simp_all
  moreover have "off + frame_floor bytes < 4294967296" using assms(7) frame_floor_mult(2) [of bytes] by linarith
  ultimately show ?thesis using assms frame_floor_mult by (simp add: started_def sd_ok_def)
qed

lemma cmd_play_rings:
  assumes ok: "rings cfg m" "cfg_ok cfg" "extents_ok pl" and pl: "cmd_play pl c m p = (rc, m', p')"
  shows "rings cfg m'"
proof (cases "mc_slot c < 4 \<and> sc_ring_size (cf_slot (me_cfg m) ! mc_slot c) \<noteq> 0")
  case False
  then show ?thesis using pl ok by (auto simp: cmd_play_def Let_def HX421_STREAM_MAX_def split: if_splits)
next
  case slot: True
  let ?s = "mc_slot c" and ?sc = "cf_slot (me_cfg m) ! mc_slot c"
  obtain m1 p1 where s: "slot_stop pl ?s m p = (m1, p1)" by fastforce
  have ok1: "rings cfg m1" by (rule slot_stop_rings [OF ok(1) s])
  obtain r p2 where o: "(case mp_asset_open pl of None \<Rightarrow> (None, p1) | Some f \<Rightarrow> f p1 ?s (mc_asset c)) = (r, p2)" by fastforce
  show ?thesis
  proof (cases r)
    case None
    then show ?thesis using pl slot s o ok1 by (simp add: cmd_play_def Let_def HX421_STREAM_MAX_def)
  next
    case (Some ob)
    obtain off bytes where ob: "ob = (off, bytes)" by fastforce
    obtain q a where st: "hx421_stream_start (me_arb m1) (int ?s) (sc_psram_base ?sc) (sc_ring_size ?sc) off bytes
        (mc_flags c AND 1 \<noteq> 0) (sc_prime_bytes ?sc) (int (mc_prio c)) = (q, a)" by fastforce
    show ?thesis
    proof (cases "q = 0")
      case False
      then show ?thesis using pl slot s o Some ob st ok1 start_fails [OF st False]
        by (simp add: cmd_play_def Let_def HX421_STREAM_MAX_def rings_same [OF ok1])
    next
      case True
      have e: "me_arb m' = a" "me_cfg m' = me_cfg m1"
        using pl slot s o Some ob st True by (auto simp: cmd_play_def Let_def HX421_STREAM_MAX_def)
      have "off + bytes < 4294967296" using ok(3) o unfolding Some ob extents_ok_def by (cases "mp_asset_open pl") (simp_all, blast)
      moreover have "sc_ring_size ?sc \<le> 1073741824" "sc_psram_base ?sc + sc_ring_size ?sc \<le> 4294967296" "me_cfg m = cfg" "me_cfg m1 = cfg"
        using ok(1,2) ok1 slot by (auto simp: cfg_ok_def rings_def)
      moreover have "arb_wf (me_arb m1)" using ok1 by (simp add: rings_def)
      ultimately show ?thesis using start_at [OF st True] slot e
        by (intro rings_at [OF ok1, where s = ?s]) (auto intro!: started_ok)
    qed
  qed
qed

lemma apply_rings:
  assumes ok: "rings cfg m" "cfg_ok cfg" "extents_ok pl" and ap: "hx421_media_apply pl c m p = (rc, m', p')"
  shows "rings cfg m'"
proof -
  consider "slot_stop pl (mc_slot c) m p = (m', p')" | "cmd_play pl c m p = (rc, m', p')" | "cmd_seek pl c m p = (rc, m', p')"
    | "cmd_gain pl c m p = (rc, m', p')" | "stop_slots pl [0..<HX421_STREAM_MAX] m p = (m', p')" | "m' = m"
    using ap by (auto simp: hx421_media_apply_def split: if_splits)
  then show ?thesis
  proof cases
    case 3
    let ?s = "mc_slot c"
    show ?thesis
    proof (cases "?s < 4 \<and> ml_active (me_s m ! ?s)")
      case False
      then show ?thesis using 3 ok(1) by (auto simp: cmd_seek_def Let_def HX421_STREAM_MAX_def split: if_splits)
    next
      case True
      define off where "off = (if sd_data_bytes (sa_str (me_arb m) ! ?s) \<le> frame_floor (mc_arg c) then 0 else frame_floor (mc_arg c))"
      have e: "me_arb m' = at_stream (me_arb m) ?s (\<lambda>st. st\<lparr>sd_file_pos := off, sd_write_pos := 0, sd_primed := False\<rparr>)" "me_cfg m' = me_cfg m"
        using 3 True by (auto simp: cmd_seek_def Let_def HX421_STREAM_MAX_def off_def)
      have "off mod 4 = 0" "off \<le> sd_data_bytes (sa_str (me_arb m) ! ?s)" using frame_floor_mult(1) by (auto simp: off_def)
      moreover have "arb_wf (me_arb m)" "me_cfg m = cfg" using ok(1) by (simp_all add: rings_def)
      ultimately show ?thesis using ok(1) True
        by (intro rings_at [OF ok(1) _ e(1)]) (auto simp: e(2) rings_def arb_wf_def sd_ok_def)
    qed
  next
    case 4
    then show ?thesis by (intro rings_same [OF ok(1)]) (auto simp: cmd_gain_def Let_def split: if_splits)
  next
    case 1
    then show ?thesis by (rule slot_stop_rings [OF ok(1)])
  next
    case 2
    then show ?thesis by (rule cmd_play_rings [OF ok])
  next
    case 5
    then show ?thesis by (rule stop_slots_rings [OF ok(1)])
  qed (use ok in simp)
qed

lemma drain_rings: "rings cfg m \<Longrightarrow> cfg_ok cfg \<Longrightarrow> extents_ok pl \<Longrightarrow> drain_cmds k pl m p = (b, m', p') \<Longrightarrow> rings cfg m'"
proof (induction k arbitrary: b m p m' p')
  case (Suc k)
  obtain c p1 where c: "(case mp_cmd_poll pl of None \<Rightarrow> (None, p) | Some f \<Rightarrow> f p) = (c, p1)" by fastforce
  show ?case
  proof (cases c)
    case None
    then show ?thesis using Suc.prems c by simp
  next
    case (Some cc)
    obtain rc m2 p2 where a: "hx421_media_apply pl cc m p1 = (rc, m2, p2)" by (metis prod_cases3)
    obtain b3 m3 p3 where d: "drain_cmds k pl m2 p2 = (b3, m3, p3)" by (metis prod_cases3)
    have "m' = m3" using Suc.prems c Some a d by simp
    then show ?thesis using Suc.IH [OF apply_rings [OF Suc.prems(1-3) a] Suc.prems(2,3) d] by simp
  qed
qed simp

lemma enable_arb: "enable_primed pl is m p = (b, m', p') \<Longrightarrow> me_arb m' = me_arb m \<and> me_cfg m' = me_cfg m"
proof (induction "is" arbitrary: b m p m' p')
  case (Cons i "is")
  obtain b2 m2 p2 where e: "enable_primed pl is (at_media m i (\<lambda>sl. sl\<lparr>ml_enabled := True\<rparr>))
      (mixer_ctl pl p i True (ml_gain (me_s m ! i)) (ml_pan (me_s m ! i))) = (b2, m2, p2)" by (metis prod_cases3)
  show ?case using Cons.IH [OF e] Cons.IH Cons.prems e by (auto simp: Let_def split: if_splits)
qed simp

section \<open>Runs\<close>

inductive media_reach :: "'p media_plat \<Rightarrow> media_cfg \<Rightarrow> 'p \<Rightarrow> media \<Rightarrow> 'p \<Rightarrow> bool" for pl cfg p0 where
  init: "length (me_s m) = 4 \<Longrightarrow> length (sa_str (me_arb m)) = 4 \<Longrightarrow> media_reach pl cfg p0 (hx421_media_init m cfg) p0"
| apply_cmd: "media_reach pl cfg p0 m p \<Longrightarrow> hx421_media_apply pl c m p = (rc, m', p') \<Longrightarrow> media_reach pl cfg p0 m' p'"
| service: "media_reach pl cfg p0 m p \<Longrightarrow> hx421_media_service pl m p = (b, m', p') \<Longrightarrow> media_reach pl cfg p0 m' p'"

lemma init_rings:
  assumes "cfg_ok cfg" and "length (sa_str (me_arb m)) = 4"
  shows "rings cfg (hx421_media_init m cfg)"
proof -
  have "frame_floor (cf_chunk cfg) \<le> cf_chunk cfg" "frame_floor (cf_chunk cfg) mod 4 = 0" by (rule frame_floor_mult)+
  then have "arb_wf (hx421_stream_arb_init (me_arb m) (cf_chunk cfg) 0 0)"
    using assms by (auto simp: arb_wf_def hx421_stream_arb_init_def cfg_ok_def FRAME_def Let_def)
  then show ?thesis using assms by (simp add: rings_def hx421_media_init_def hx421_stream_arb_init_def Let_def)
qed

lemma ledger_extents:
  assumes "extents_ok pl"
  shows "extents_ok (ledger_plat pl)"
  unfolding extents_ok_def
proof (intro allI impI)
  fix f p s i off bytes p'
  assume o: "mp_asset_open (ledger_plat pl) = Some f" "f p s i = (Some (off, bytes), p')"
  then obtain g where g: "mp_asset_open pl = Some g" by (auto simp: ledger_plat_def)
  then have "fst (g (lg_plat p) s i) = Some (off, bytes)" using o by (auto simp: ledger_plat_def split: prod.splits)
  then have "g (lg_plat p) s i = (Some (off, bytes), snd (g (lg_plat p) s i))" by (simp add: prod_eq_iff)
  then show "off + bytes < 4294967296" using assms g unfolding extents_ok_def by blast
qed

definition moves_inside :: "media_cfg \<Rightarrow> (nat \<times> nat \<times> nat) list \<Rightarrow> bool" where
  "moves_inside cfg xs \<longleftrightarrow> (\<forall>(s, addr, n) \<in> set xs. s < 4 \<and> inside (sc_psram_base (cf_slot cfg ! s)) (sc_ring_size (cf_slot cfg ! s)) addr n)"

lemma media_service_rings:
  assumes ok: "rings cfg m" "cfg_ok cfg" "extents_ok pl" and mv: "moves_inside cfg (lg_moved l)"
    and sv: "hx421_media_service (ledger_plat pl) m l = (b, m', l')"
  shows "rings cfg m' \<and> moves_inside cfg (lg_moved l')"
proof -
  let ?pl = "ledger_plat pl"
  obtain b1 m1 p1 where d: "drain_cmds (2 * HX421_STREAM_MAX + 4) ?pl m l = (b1, m1, p1)" by (metis prod_cases3)
  obtain b2 m2 p2 where e: "enable_primed ?pl [0..<HX421_STREAM_MAX] m1 p1 = (b2, m2, p2)" by (metis prod_cases3)
  obtain b3 a p3 where s: "hx421_stream_service (arb_plat_from ?pl) (me_arb m2) p2 = (b3, a, p3)" by (metis prod_cases3)
  have e': "m' = m2\<lparr>me_arb := a\<rparr>" "l' = p3" using sv d e s by (simp_all add: hx421_media_service_def)
  have r2: "rings cfg m2"
    by (rule rings_same [OF drain_rings [OF ok(1,2) ledger_extents [OF ok(3)] d]]) (use enable_arb [OF e] in simp_all)
  then have wf2: "arb_wf (me_arb m2)" "length (sa_str (me_arb m2)) = 4" by (simp_all add: rings_def arb_wf_def)
  have "rings cfg m'"
    using r2 service_wf [OF wf2(1) s] service_keeps [OF wf2(2) s] by (simp add: e' rings_def)
  moreover have mv2: "moves_inside cfg (lg_moved p2)" using mv mv.drain_obs [OF d] mv.enable_obs [OF e] by simp
  have "moves_inside cfg (lg_moved p3)"
    using service_transfer [OF s]
  proof (elim disjE exE conjE)
    fix t addr off n bo
    assume o: "pl_offload (arb_plat_from ?pl) p2 t addr off n = (bo, p3)"
      and i: "arb_wf (me_arb m2) \<longrightarrow> t < 4 \<and> sd_active (sa_str (me_arb m2) ! t) \<and>
        inside (sd_psram_base (sa_str (me_arb m2) ! t)) (sd_ring_size (sa_str (me_arb m2) ! t)) addr n"
    have "lg_moved p3 = (t, addr, n) # lg_moved p2" using o by (auto simp: arb_plat_from_def ledger_plat_def split: prod.splits)
    moreover have "t < 4 \<and> inside (sc_psram_base (cf_slot cfg ! t)) (sc_ring_size (cf_slot cfg ! t)) addr n"
      using i wf2(1) r2 by (auto simp: rings_def)
    ultimately show ?thesis using mv2 by (simp add: moves_inside_def)
  qed (use mv2 in simp)
  ultimately show ?thesis by (simp add: e'(2))
qed

lemma media_reach_ok:
  assumes "cfg_ok cfg" and "extents_ok pl" and "media_reach (ledger_plat pl) cfg (new_ledger p0) m l"
  shows "lg.sync m l \<and> rings cfg m \<and> moves_inside cfg (lg_moved l)"
  using assms(3)
proof (induction rule: media_reach.induct)
  case (init m)
  have "lg.sync (hx421_media_init m cfg) (new_ledger p0)" by (rule lg.init_sync) (simp_all add: init new_ledger_def)
  moreover have "moves_inside cfg (lg_moved (new_ledger p0))" by (simp add: moves_inside_def new_ledger_def)
  ultimately show ?case using init_rings [OF assms(1) init(2)] by blast
next
  case (apply_cmd m p c rc m' p')
  then show ?case
    using lg.apply_sync [of m p pl c rc m' p'] apply_rings [OF _ assms(1) ledger_extents [OF assms(2)]] mv.apply_obs by metis
next
  case (service m p b m' p')
  then show ?case using lg.service_sync [of m p pl b m' p'] media_service_rings [OF _ assms(1,2)] by blast
qed

section \<open>A small platform\<close>

definition small_media_plat :: "unit media_plat" where
  "small_media_plat = \<lparr>mp_offload = (\<lambda>p _ _ _ _. (True, p)), mp_read_ptr = Some (\<lambda>_ _. 4),
     mp_asset_open = Some (\<lambda>p _ _. (Some (44, 64), p)), mp_asset_close = Some (\<lambda>p _ _. p),
     mp_mixer_ctl = Some (\<lambda>p _ _ _ _. p), mp_cmd_poll = None\<rparr>"

definition small_media_cfg :: media_cfg where
  "small_media_cfg = (let sc = \<lparr>sc_psram_base = 0, sc_ring_size = 16, sc_prime_bytes = 8\<rparr>
     in \<lparr>cf_slot = [sc, sc, sc, sc], cf_chunk = 4\<rparr>)"

definition small_media :: media where
  "small_media = (let st = \<lparr>sd_psram_base = 0, sd_ring_size = 0, sd_data_off = 0, sd_data_bytes = 0, sd_prime_bytes = 0,
       sd_write_pos = 0, sd_file_pos = 0, sd_active = False, sd_looping = False, sd_primed = False, sd_prio = 0\<rparr>;
       sl = \<lparr>ml_active = False, ml_enabled = False, ml_asset = 0, ml_gain = 0, ml_pan = 128\<rparr>
     in \<lparr>me_cfg = small_media_cfg,
         me_arb = \<lparr>sa_str = [st, st, st, st], sa_chunk = 0, sa_low_wm = 0, sa_high_wm = 0, sa_rr = 0\<rparr>,
         me_s = [sl, sl, sl, sl]\<rparr>)"

definition small_cmd :: "nat \<Rightarrow> media_cmd" where
  "small_cmd op = \<lparr>mc_op = op, mc_slot = 1, mc_asset = 7, mc_flags = 1, mc_prio = 0, mc_gain = 255, mc_pan = 128, mc_arg = 0\<rparr>"

definition small_playing :: "media \<times> unit ledger" where
  "small_playing = snd (hx421_media_apply (ledger_plat small_media_plat) (small_cmd HX421_MEDIA_PLAY)
     (hx421_media_init small_media small_media_cfg) (new_ledger ()))"

lemma all_below_four: "(\<forall>s < 4::nat. P s) \<longleftrightarrow> P 0 \<and> P 1 \<and> P 2 \<and> P 3"
  by (auto simp: numeral_eq_Suc less_Suc_eq)

lemma small_media_ok: "cfg_ok small_media_cfg" "extents_ok small_media_plat"
  by (simp_all add: Let_def cfg_ok_def all_below_four small_media_cfg_def extents_ok_def small_media_plat_def)

lemma small_playing_reach: "media_reach (ledger_plat small_media_plat) small_media_cfg (new_ledger ()) (fst small_playing) (snd small_playing)"
proof -
  obtain rc m l where a: "hx421_media_apply (ledger_plat small_media_plat) (small_cmd HX421_MEDIA_PLAY)
     (hx421_media_init small_media small_media_cfg) (new_ledger ()) = (rc, m, l)" by (metis prod_cases3)
  have "media_reach (ledger_plat small_media_plat) small_media_cfg (new_ledger ()) (hx421_media_init small_media small_media_cfg) (new_ledger ())"
    by (rule media_reach.init) (simp_all add: small_media_def Let_def)
  from media_reach.apply_cmd [OF this a] show ?thesis by (simp add: small_playing_def a)
qed

lemma small_init: "hx421_media_init small_media small_media_cfg = small_media\<lparr>me_arb := (me_arb small_media)\<lparr>sa_chunk := 4\<rparr>\<rparr>"
  by (simp add: hx421_media_init_def small_media_def small_media_cfg_def hx421_stream_arb_init_def frame_floor_def FRAME_def Let_def)

lemma small_playing_sel:
  "ml_active (me_s (fst small_playing) ! 1)" "ml_asset (me_s (fst small_playing) ! 1) = 7"
  "sd_active (sa_str (me_arb (fst small_playing)) ! 1)" "sa_chunk (me_arb (fst small_playing)) = 4" "length (me_s (fst small_playing)) = 4"
  unfolding small_playing_def small_init
  by (simp_all add: Let_def hx421_media_apply_def small_cmd_def HX421_MEDIA_PLAY_def HX421_MEDIA_NOP_def
      cmd_play_def slot_stop_def HX421_STREAM_MAX_def ledger_plat_def small_media_plat_def small_media_def small_media_cfg_def
      hx421_stream_start_def FRAME_def u32_def at_media_def at_stream_def)

section \<open>The contract with the platform\<close>

text \<open>
  C7: Whatever commands arrive and however often the service runs, on any platform: every asset is
  opened on a free slot and closed exactly once, after its channel was muted, so the open assets are
  those of the active slots; a channel is enabled only while its stream is ready; and every transfer
  stays inside the ring configured for its slot.
\<close>

theorem media_keeps_contract:
  assumes "cfg_ok cfg" and "extents_ok pl" and "media_reach (ledger_plat pl) cfg (new_ledger p0) m l" and "s < 4"
  shows "lg_fair l \<and> lg_open l s = (if ml_active (me_s m ! s) then Some (ml_asset (me_s m ! s)) else None) \<and>
    (lg_on l s \<longrightarrow> hx421_media_ready m (int s)) \<and>
    (\<forall>(t, addr, n) \<in> set (lg_moved l). t < 4 \<and> sc_psram_base (cf_slot cfg ! t) \<le> addr \<and>
       addr + n \<le> sc_psram_base (cf_slot cfg ! t) + sc_ring_size (cf_slot cfg ! t))"
proof -
  note r = media_reach_ok [OF assms(1-3)]
  then have sy: "lg.slot_sync (sa_str (me_arb m) ! s) (me_s m ! s) l s" and f: "lg_fair l"
    using lg.syncD [of m l s] lg.sync_fair [of m l] assms(4) by blast+
  have "lg_on l s \<longrightarrow> hx421_media_ready m (int s)"
    using sy assms(4) by (auto simp: lg.slot_sync_def hx421_media_ready_def hx421_stream_ready_def HX421_STREAM_MAX_def)
  then show ?thesis using sy f r by (auto simp: lg.slot_sync_def moves_inside_def inside_def)
qed

theorem media_keeps_contract_witness: "lg_fair (snd small_playing) \<and> lg_open (snd small_playing) 1 = Some 7"
  using media_keeps_contract [OF small_media_ok small_playing_reach, of 1] small_playing_sel by simp

section \<open>Seeking\<close>

text \<open>
  A ring whose write position is back at its start while the reader is a little past it: the stale
  bytes count as filled, so nothing is loaded, and without a transfer the stream is never marked.
\<close>

definition starved :: "stream_arb \<Rightarrow> nat \<Rightarrow> nat \<Rightarrow> bool" where
  "starved a s rp \<longleftrightarrow> arb_wf a \<and> sd_active (sa_str a ! s) \<and> sd_write_pos (sa_str a ! s) = 0 \<and> \<not> sd_primed (sa_str a ! s) \<and>
     0 < rp \<and> rp \<le> sa_chunk a"

lemma u32_wrap: "x < 4294967296 \<Longrightarrow> u32 (x + 4294967296) = x"
  by (simp add: u32_def)

lemma starved_full:
  assumes st: "starved a s rp" and "s < 4" and rd: "pl_read_ptr pl = Some f" "f p s = rp"
  shows "\<not> needs_data pl p a s"
proof -
  have o: "sd_ok (sa_chunk a) (sa_str a ! s)" and c: "4 \<le> sa_chunk a" and r: "0 < rp" "rp \<le> sa_chunk a" "sd_write_pos (sa_str a ! s) = 0"
    using st assms(2) by (simp_all add: starved_def arb_wf_def)
  have g: "rp < sd_ring_size (sa_str a ! s)" "sd_ring_size (sa_str a ! s) \<le> 1073741824" using o c r by (auto simp: sd_ok_def)
  have "u32 (sd_ring_size (sa_str a ! s) + 4294967296 - rp) = sd_ring_size (sa_str a ! s) - rp"
  proof -
    have e: "sd_ring_size (sa_str a ! s) + 4294967296 - rp = (sd_ring_size (sa_str a ! s) - rp) + 4294967296" using g by simp
    show ?thesis unfolding e by (rule u32_wrap) (use g in linarith)
  qed
  then have "fill_of pl p a s = sd_ring_size (sa_str a ! s) - rp" using g r rd by (simp add: fill_of_def Let_def)
  moreover have "target_of a s + rp \<le> sd_ring_size (sa_str a ! s)" using target_le(1) [OF o c] r(2) by linarith
  ultimately show ?thesis by (auto simp: needs_data_def Let_def)
qed

lemma starved_service:
  assumes st: "starved a s rp" and s: "s < 4" and rd: "pl_read_ptr pl = Some f" "f p s = rp"
    and sv: "hx421_stream_service pl a p = (b, a', p')"
  shows "starved a' s rp \<and> sa_str a' ! s = sa_str a ! s"
proof -
  have wf: "arb_wf a" and len: "length (sa_str a) = 4" using st by (simp_all add: starved_def arb_wf_def)
  have "sa_str a' ! s = sa_str a ! s"
    using sv
  proof (cases rule: service_cases)
    case (small t)
    then have "s \<noteq> t" using starved_full [OF st s rd] by auto
    then show ?thesis using small len by simp
  next
    case (busy t run)
    then have "s \<noteq> t" using starved_full [OF st s rd] by auto
    then show ?thesis using busy len by simp
  next
    case (sent t run)
    then have t: "s \<noteq> t" using starved_full [OF st s rd] by auto
    have "t < length (sa_str (at_stream (rewind a t) t (advance_stream run)))" using len sent(1) by simp
    from mark_primed_sel(4) [OF this t, of pl p'] show ?thesis using t len sent(1) unfolding sent(7) by simp
  qed simp
  then show ?thesis using st service_wf [OF wf sv] service_keeps(2) [OF len sv] by (simp add: starved_def)
qed

definition media_tick :: "'p media_plat \<Rightarrow> media \<times> 'p \<Rightarrow> media \<times> 'p" where
  "media_tick pl mp = snd (hx421_media_service pl (fst mp) (snd mp))"

lemma starved_tick:
  assumes st: "starved (me_arb m) s rp" and s: "s < 4" and np: "mp_cmd_poll pl = None"
    and rd: "mp_read_ptr pl = Some f" "\<forall>q. f q s = rp"
  shows "starved (me_arb (fst (media_tick pl (m, p)))) s rp \<and>
    sa_str (me_arb (fst (media_tick pl (m, p)))) ! s = sa_str (me_arb m) ! s"
proof -
  have d: "drain_cmds k pl m p = (False, m, p)" for k by (cases k) (simp_all add: np)
  obtain b2 m2 p2 where e: "enable_primed pl [0..<HX421_STREAM_MAX] m p = (b2, m2, p2)" by (metis prod_cases3)
  obtain b3 a p3 where sv: "hx421_stream_service (arb_plat_from pl) (me_arb m2) p2 = (b3, a, p3)" by (metis prod_cases3)
  have m2: "me_arb m2 = me_arb m" using enable_arb [OF e] by simp
  then have "starved (me_arb m2) s rp" using st by simp
  then have "starved a s rp \<and> sa_str a ! s = sa_str (me_arb m2) ! s"
    by (rule starved_service [where f = f, OF _ s _ _ sv]) (use rd in \<open>simp_all add: arb_plat_from_def\<close>)
  then show ?thesis by (simp add: media_tick_def hx421_media_service_def d e m2 sv [unfolded m2])
qed



end
