(* ===== verification/Loader.thy ===== *)
theory Loader
  imports Wav_Spec
begin

text \<open>
  \<^verbatim>\<open>firmware/dev/hx421_loader.c\<close>, which places a game image in its region, and
  \<^verbatim>\<open>tools/hx421_mkhxg.c\<close>, which writes the files it reads.  A file and the region are lists of bytes;
  the header is read from its little-endian fields.  The jump into the placed image is not modelled.
\<close>

section \<open>The loader\<close>

definition HX421_GAME_MAGIC :: nat where "HX421_GAME_MAGIC = 0x31475848"
definition HX421_ABI_MAJOR :: nat where "HX421_ABI_MAJOR = 1"

datatype load_result = HX421_LOAD_OK | HX421_LOAD_SHORT | HX421_LOAD_BAD_MAGIC | HX421_LOAD_ABI
  | HX421_LOAD_BAD_ENTRY | HX421_LOAD_TOO_BIG

record game_header =
  gh_magic :: nat
  gh_abi_major :: nat
  gh_entry_off :: nat
  gh_load_size :: nat
  gh_bss_size :: nat

text \<open>The header is eight fields of four bytes, the last three are reserved.\<close>

definition header_size :: nat where "header_size = 32"

definition header_at :: "byte list \<Rightarrow> game_header" where
  "header_at f = \<lparr>gh_magic = rd_u32le f 0, gh_abi_major = rd_u32le f 4, gh_entry_off = rd_u32le f 8,
     gh_load_size = rd_u32le f 12, gh_bss_size = rd_u32le f 16\<rparr>"

definition hx421_loader_check :: "byte list \<Rightarrow> nat \<Rightarrow> nat \<Rightarrow> load_result \<times> game_header option" where
  "hx421_loader_check f region_size reserve_stack =
     (if length f < header_size then (HX421_LOAD_SHORT, None)
      else let h = header_at f in
      if gh_magic h \<noteq> HX421_GAME_MAGIC then (HX421_LOAD_BAD_MAGIC, None)
      else if gh_abi_major h \<noteq> HX421_ABI_MAJOR then (HX421_LOAD_ABI, None)
      else if length f - header_size < gh_load_size h then (HX421_LOAD_SHORT, None)
      else if gh_load_size h = 0 \<or> gh_load_size h \<le> gh_entry_off h then (HX421_LOAD_BAD_ENTRY, None)
      else if region_size < gh_load_size h then (HX421_LOAD_TOO_BIG, None)
      else if region_size - gh_load_size h < gh_bss_size h then (HX421_LOAD_TOO_BIG, None)
      else if region_size - gh_load_size h - gh_bss_size h < reserve_stack then (HX421_LOAD_TOO_BIG, None)
      else (HX421_LOAD_OK, Some h))"

text \<open>The two loops that copy the image and clear what follows it.\<close>

definition copy_image :: "byte list \<Rightarrow> byte list \<Rightarrow> nat \<Rightarrow> byte list" where
  "copy_image dst img n = foldl (\<lambda>d i. d[i := img ! i]) dst [0..<n]"

definition zero_bss :: "byte list \<Rightarrow> nat \<Rightarrow> nat \<Rightarrow> byte list" where
  "zero_bss dst load_size n = foldl (\<lambda>d i. d[load_size + i := 0]) dst [0..<n]"

definition hx421_loader_place ::
    "byte list \<Rightarrow> nat \<Rightarrow> nat \<Rightarrow> byte list \<Rightarrow> load_result \<times> byte list \<times> nat option" where
  "hx421_loader_place region region_size reserve_stack f =
     (case hx421_loader_check f region_size reserve_stack of
        (r, None) \<Rightarrow> (r, region, None)
      | (r, Some h) \<Rightarrow>
          let img = drop header_size f;
              dst = copy_image region img (gh_load_size h);
              dst = zero_bss dst (gh_load_size h) (gh_bss_size h)
          in (HX421_LOAD_OK, dst, Some (gh_entry_off h)))"

section \<open>The streaming loader\<close>

text \<open>
  The read function of the caller over its own state \<open>'c\<close>: the bytes it delivers, none at the end
  of the file.
\<close>

type_synonym 'c read_fn = "'c \<Rightarrow> nat \<Rightarrow> byte list \<times> 'c"

function read_full :: "'c read_fn \<Rightarrow> 'c \<Rightarrow> nat \<Rightarrow> byte list \<times> 'c" where
  "read_full rd c need =
     (if need = 0 then ([], c)
      else case rd c need of
        (bs, c1) \<Rightarrow> if bs = [] then ([], c1)
                    else (case read_full rd c1 (need - length bs) of (rest, c2) \<Rightarrow> (bs @ rest, c2)))"
  by pat_completeness auto
termination by (relation "measure (\<lambda>(rd, c, need). need)") auto

declare read_full.simps [simp del]

definition hx421_loader_place_stream ::
    "byte list \<Rightarrow> nat \<Rightarrow> nat \<Rightarrow> 'c read_fn \<Rightarrow> 'c \<Rightarrow> (load_result \<times> byte list \<times> nat option) \<times> 'c" where
  "hx421_loader_place_stream region region_size reserve_stack rd c =
     (case read_full rd c header_size of
        (hb, c1) \<Rightarrow>
          if length hb \<noteq> header_size then ((HX421_LOAD_SHORT, region, None), c1)
          else let h = header_at hb in
          if gh_magic h \<noteq> HX421_GAME_MAGIC then ((HX421_LOAD_BAD_MAGIC, region, None), c1)
          else if gh_abi_major h \<noteq> HX421_ABI_MAJOR then ((HX421_LOAD_ABI, region, None), c1)
          else if gh_load_size h = 0 \<or> gh_load_size h \<le> gh_entry_off h then ((HX421_LOAD_BAD_ENTRY, region, None), c1)
          else if region_size < gh_load_size h then ((HX421_LOAD_TOO_BIG, region, None), c1)
          else if region_size - gh_load_size h < gh_bss_size h then ((HX421_LOAD_TOO_BIG, region, None), c1)
          else if region_size - gh_load_size h - gh_bss_size h < reserve_stack then ((HX421_LOAD_TOO_BIG, region, None), c1)
          else (case read_full rd c1 (gh_load_size h) of
                  (img, c2) \<Rightarrow>
                    let dst = blit region 0 img in
                    if length img \<noteq> gh_load_size h then ((HX421_LOAD_SHORT, dst, None), c2)
                    else ((HX421_LOAD_OK, zero_bss dst (gh_load_size h) (gh_bss_size h), Some (gh_entry_off h)), c2)))"

section \<open>The packer\<close>

datatype mkhxg_error = MKHXG_EMPTY | MKHXG_BAD_ENTRY

definition mkhxg :: "byte list \<Rightarrow> nat \<Rightarrow> nat \<Rightarrow> mkhxg_error + byte list" where
  "mkhxg raw entry_off bss_size =
     (if length raw = 0 then Inl MKHXG_EMPTY
      else if u32 (length raw) \<le> entry_off then Inl MKHXG_BAD_ENTRY
      else Inr (put_u32le HX421_GAME_MAGIC @ put_u32le HX421_ABI_MAJOR @ put_u32le entry_off @ put_u32le (u32 (length raw)) @
                put_u32le bss_size @ put_u32le 0 @ put_u32le 0 @ put_u32le 0 @ raw))"

section \<open>Placing an image\<close>

text \<open>What a valid file puts into the region.\<close>

definition fits :: "byte list \<Rightarrow> nat \<Rightarrow> nat \<Rightarrow> bool" where
  "fits f region_size reserve_stack \<longleftrightarrow> header_size \<le> length f \<and> gh_magic (header_at f) = HX421_GAME_MAGIC \<and>
     gh_abi_major (header_at f) = HX421_ABI_MAJOR \<and> header_size + gh_load_size (header_at f) \<le> length f \<and>
     gh_entry_off (header_at f) < gh_load_size (header_at f) \<and>
     gh_load_size (header_at f) + gh_bss_size (header_at f) + reserve_stack \<le> region_size"

definition placed :: "byte list \<Rightarrow> byte list \<Rightarrow> byte list" where
  "placed f region =
     (let h = header_at f in take (gh_load_size h) (drop header_size f) @ replicate (gh_bss_size h) 0 @
        drop (gh_load_size h + gh_bss_size h) region)"

lemma check_OK: "hx421_loader_check f region_size reserve = (HX421_LOAD_OK, r) \<longleftrightarrow> fits f region_size reserve \<and> r = Some (header_at f)"
  by (auto simp: hx421_loader_check_def fits_def Let_def)

lemma check_error: "hx421_loader_check f region_size reserve = (e, r) \<Longrightarrow> e \<noteq> HX421_LOAD_OK \<Longrightarrow> r = None"
  by (auto simp: hx421_loader_check_def Let_def split: if_splits)

lemma copy_image_blit:
  assumes "n \<le> length dst" and "n \<le> length img"
  shows "copy_image dst img n = blit dst 0 (take n img)"
proof -
  have "copy_image dst img n = foldl (\<lambda>xs i. xs[0 + i := img ! i]) dst [0..<n]" by (simp add: copy_image_def)
  also have "\<dots> = blit dst 0 (map (\<lambda>i. img ! i) [0..<n])" by (rule foldl_store_run) (use assms in simp)
  also have "map (\<lambda>i. img ! i) [0..<n] = take n img" by (rule nth_equalityI) (use assms in simp_all)
  finally show ?thesis .
qed

lemma zero_bss_blit:
  assumes "l + n \<le> length dst"
  shows "zero_bss dst l n = blit dst l (replicate n 0)"
  unfolding zero_bss_def foldl_store_run [OF assms] by (simp add: map_replicate_const)

lemma placed_blits:
  assumes "gh_load_size (header_at f) + gh_bss_size (header_at f) \<le> length region"
    and "gh_load_size (header_at f) \<le> length (drop header_size f)"
  shows "blit (blit region 0 (take (gh_load_size (header_at f)) (drop header_size f))) (gh_load_size (header_at f))
      (replicate (gh_bss_size (header_at f)) 0) = placed f region"
  using assms by (simp add: blit_def placed_def Let_def min_def)

lemma length_placed:
  "gh_load_size (header_at f) + gh_bss_size (header_at f) \<le> length region \<Longrightarrow> header_size + gh_load_size (header_at f) \<le> length f \<Longrightarrow>
   length (placed f region) = length region"
  by (auto simp: placed_def Let_def min_def)

lemma place_cases:
  assumes "length region = region_size"
  shows "fits f region_size reserve \<Longrightarrow>
      hx421_loader_place region region_size reserve f = (HX421_LOAD_OK, placed f region, Some (gh_entry_off (header_at f)))"
    and "\<not> fits f region_size reserve \<Longrightarrow>
      \<exists>e. e \<noteq> HX421_LOAD_OK \<and> hx421_loader_place region region_size reserve f = (e, region, None)"
proof -
  let ?h = "header_at f"
  obtain e r where c: "hx421_loader_check f region_size reserve = (e, r)" by fastforce
  show "hx421_loader_place region region_size reserve f = (HX421_LOAD_OK, placed f region, Some (gh_entry_off ?h))"
    if ok: "fits f region_size reserve"
  proof -
    have fit: "gh_load_size ?h + gh_bss_size ?h \<le> length region" "gh_load_size ?h \<le> length (drop header_size f)"
      using ok assms by (auto simp: fits_def)
    have "copy_image region (drop header_size f) (gh_load_size ?h) = blit region 0 (take (gh_load_size ?h) (drop header_size f))"
      using fit by (intro copy_image_blit) simp_all
    moreover have "zero_bss (blit region 0 (take (gh_load_size ?h) (drop header_size f))) (gh_load_size ?h) (gh_bss_size ?h) = placed f region"
      using fit placed_blits [OF fit] by (subst zero_bss_blit) simp_all
    moreover have "hx421_loader_check f region_size reserve = (HX421_LOAD_OK, Some ?h)" using check_OK ok by blast
    ultimately show ?thesis by (simp add: hx421_loader_place_def Let_def)
  qed
  assume no: "\<not> fits f region_size reserve"
  then have e: "e \<noteq> HX421_LOAD_OK" using c check_OK by blast
  then have "r = None" by (rule check_error [OF c])
  then show "\<exists>e. e \<noteq> HX421_LOAD_OK \<and> hx421_loader_place region region_size reserve f = (e, region, None)"
    using e c by (simp add: hx421_loader_place_def)
qed

section \<open>Streaming\<close>

text \<open>
  A reader over a file: it delivers the next bytes, at most as many as asked for, and none only at
  the end.  How it cuts the file into reads is its own choice.
\<close>

definition byte_source :: "'c read_fn \<Rightarrow> ('c \<Rightarrow> byte list) \<Rightarrow> bool" where
  "byte_source rd rest \<longleftrightarrow> (\<forall>c n bs c'. 0 < n \<longrightarrow> rd c n = (bs, c') \<longrightarrow> bs = take (length bs) (rest c) \<and> length bs \<le> n \<and>
     rest c' = drop (length bs) (rest c) \<and> (bs = [] \<longrightarrow> rest c = []))"

lemma read_full_source:
  assumes "byte_source rd rest"
  shows "read_full rd c n = (xs, c') \<Longrightarrow> xs = take n (rest c) \<and> rest c' = drop n (rest c)"
  using assms
proof (induction rd c n arbitrary: xs c' rule: read_full.induct)
  case (1 rd c need)
  show ?case
  proof (cases "need = 0")
    case True
    then show ?thesis using "1.prems" by (simp add: read_full.simps)
  next
    case False
    obtain bs c1 where b: "rd c need = (bs, c1)" by fastforce
    have s: "bs = take (length bs) (rest c)" "length bs \<le> need" "rest c1 = drop (length bs) (rest c)" "bs = [] \<longrightarrow> rest c = []"
      using "1.prems"(2) False b by (auto simp: byte_source_def)
    show ?thesis
    proof (cases "bs = []")
      case True
      then have "xs = []" "c' = c1" using "1.prems"(1) False b by (simp_all add: read_full.simps [of rd c need])
      then show ?thesis using True s by simp
    next
      case bs: False
      obtain ys c2 where r: "read_full rd c1 (need - length bs) = (ys, c2)" by fastforce
      have e: "xs = bs @ ys" "c' = c2" using "1.prems"(1) False b bs r by (simp_all add: read_full.simps [of rd c need])
      have y: "ys = take (need - length bs) (rest c1)" "rest c2 = drop (need - length bs) (rest c1)"
        using "1.IH" [OF False b [symmetric] bs r "1.prems"(2)] by blast+
      have "take need (rest c) = take (length bs) (rest c) @ take (need - length bs) (drop (length bs) (rest c))"
        using s(2) by (simp add: take_add [symmetric])
      then show ?thesis using e y s by simp
    qed
  qed
qed

lemma header_at_take: "header_size \<le> length f \<Longrightarrow> header_at (take header_size f) = header_at f"
  by (simp add: header_at_def rd_u32le_def header_size_def)

lemma stream_cases:
  assumes src: "byte_source rd rest" and len: "length region = region_size"
  shows "fits (rest c) region_size reserve \<Longrightarrow> fst (hx421_loader_place_stream region region_size reserve rd c) =
      (HX421_LOAD_OK, placed (rest c) region, Some (gh_entry_off (header_at (rest c))))"
    and "\<not> fits (rest c) region_size reserve \<Longrightarrow> \<exists>e d. e \<noteq> HX421_LOAD_OK \<and> length d = length region \<and> (e \<noteq> HX421_LOAD_SHORT \<longrightarrow> d = region) \<and>
      fst (hx421_loader_place_stream region region_size reserve rd c) = (e, d, None)"
proof -
  let ?f = "rest c"
  let ?h = "header_at ?f"
  obtain hb c1 where r1: "read_full rd c header_size = (hb, c1)" by fastforce
  have h1: "hb = take header_size ?f" "rest c1 = drop header_size ?f" using read_full_source [OF src r1] by simp_all
  obtain img c2 where r2: "read_full rd c1 (gh_load_size ?h) = (img, c2)" by fastforce
  have h2: "img = take (gh_load_size ?h) (drop header_size ?f)" using read_full_source [OF src r2] h1 by simp
  let ?ok = "header_size \<le> length ?f \<and> gh_magic ?h = HX421_GAME_MAGIC \<and> gh_abi_major ?h = HX421_ABI_MAJOR \<and>
     gh_entry_off ?h < gh_load_size ?h \<and> gh_load_size ?h + gh_bss_size ?h + reserve \<le> region_size"
  have run: "fst (hx421_loader_place_stream region region_size reserve rd c) =
      (if length img \<noteq> gh_load_size ?h then (HX421_LOAD_SHORT, blit region 0 img, None)
       else (HX421_LOAD_OK, zero_bss (blit region 0 img) (gh_load_size ?h) (gh_bss_size ?h), Some (gh_entry_off ?h)))"
    if ok: ?ok
  proof -
    have "length hb = header_size" "header_at hb = ?h" using ok h1 header_at_take by simp_all
    then show ?thesis using ok r1 r2 by (auto simp: hx421_loader_place_stream_def Let_def)
  qed
  have stop: "\<exists>e. e \<noteq> HX421_LOAD_OK \<and> fst (hx421_loader_place_stream region region_size reserve rd c) = (e, region, None)" if "\<not> ?ok"
  proof (cases "header_size \<le> length ?f")
    case False
    then show ?thesis using r1 h1 by (simp add: hx421_loader_place_stream_def)
  next
    case True
    then have "length hb = header_size" "header_at hb = ?h" using h1 header_at_take by simp_all
    then show ?thesis using that True r1 by (auto simp: hx421_loader_place_stream_def Let_def)
  qed
  show "fst (hx421_loader_place_stream region region_size reserve rd c) = (HX421_LOAD_OK, placed ?f region, Some (gh_entry_off ?h))"
    if ok: "fits ?f region_size reserve"
  proof -
    have fit: "gh_load_size ?h + gh_bss_size ?h \<le> length region" "gh_load_size ?h \<le> length (drop header_size ?f)"
      using ok len by (auto simp: fits_def)
    have "zero_bss (blit region 0 img) (gh_load_size ?h) (gh_bss_size ?h) = placed ?f region"
      using fit placed_blits [OF fit] unfolding h2 by (subst zero_bss_blit) simp_all
    moreover have "length img = gh_load_size ?h" using fit h2 by simp
    ultimately show ?thesis using run ok by (auto simp: fits_def)
  qed
  assume no: "\<not> fits ?f region_size reserve"
  show "\<exists>e d. e \<noteq> HX421_LOAD_OK \<and> length d = length region \<and> (e \<noteq> HX421_LOAD_SHORT \<longrightarrow> d = region) \<and>
      fst (hx421_loader_place_stream region region_size reserve rd c) = (e, d, None)"
  proof (cases ?ok)
    case True
    then have "length img \<noteq> gh_load_size ?h" using no h2 by (auto simp: fits_def)
    moreover have "length (blit region 0 img) = length region" using True h2 len by (intro length_blit) auto
    ultimately show ?thesis using run [OF True] by simp
  qed (use stop in fastforce)
qed

section \<open>The file that the packer writes\<close>

lemma mkhxg_header:
  assumes "mkhxg raw entry bss = Inr f" and "length raw < 4294967296" and "bss < 4294967296"
  shows "header_at f = \<lparr>gh_magic = HX421_GAME_MAGIC, gh_abi_major = HX421_ABI_MAJOR, gh_entry_off = entry,
      gh_load_size = length raw, gh_bss_size = bss\<rparr>"
    and "drop header_size f = raw" and "length f = header_size + length raw" and "entry < length raw"
proof -
  let ?m = "put_u32le HX421_GAME_MAGIC" and ?a = "put_u32le HX421_ABI_MAJOR" and ?e = "put_u32le entry"
    and ?n = "put_u32le (length raw)" and ?b = "put_u32le bss" and ?z = "put_u32le 0 @ put_u32le 0 @ put_u32le 0 @ raw"
  have e: "entry < length raw" and f: "f = ?m @ ?a @ ?e @ ?n @ ?b @ ?z"
    using assms by (auto simp: mkhxg_def split: if_splits)
  show "entry < length raw" by (rule e)
  show "drop header_size f = raw" "length f = header_size + length raw" by (simp_all add: f header_size_def)
  have v: "HX421_GAME_MAGIC < 4294967296" "HX421_ABI_MAJOR < 4294967296" "entry < 4294967296"
    using e assms(2) by (simp_all add: HX421_GAME_MAGIC_def HX421_ABI_MAJOR_def)
  have "rd_u32le f 0 = HX421_GAME_MAGIC" using rd_u32_at [of "[]" 0 HX421_GAME_MAGIC] v(1) by (simp add: f)
  moreover have "rd_u32le f 4 = HX421_ABI_MAJOR" using rd_u32_at [of ?m 4 HX421_ABI_MAJOR "?e @ ?n @ ?b @ ?z"] v(2) by (simp add: f)
  moreover have "rd_u32le f 8 = entry" using rd_u32_at [of "?m @ ?a" 8 entry "?n @ ?b @ ?z"] v(3) by (simp add: f)
  moreover have "rd_u32le f 12 = length raw" using rd_u32_at [of "?m @ ?a @ ?e" 12 "length raw" "?b @ ?z"] assms(2) by (simp add: f)
  moreover have "rd_u32le f 16 = bss" using rd_u32_at [of "?m @ ?a @ ?e @ ?n" 16 bss ?z] assms(3) by (simp add: f)
  ultimately show "header_at f = \<lparr>gh_magic = HX421_GAME_MAGIC, gh_abi_major = HX421_ABI_MAJOR, gh_entry_off = entry,
      gh_load_size = length raw, gh_bss_size = bss\<rparr>" by (simp add: header_at_def)
qed

lemma packed_fits:
  assumes "mkhxg raw entry bss = Inr f" and "length raw < 4294967296" and "bss < 4294967296"
    and "length raw + bss + reserve \<le> region_size"
  shows "fits f region_size reserve" and "placed f region = raw @ replicate bss 0 @ drop (length raw + bss) region"
    and "gh_entry_off (header_at f) = entry"
  using mkhxg_header [OF assms(1-3)] assms(4) by (simp_all add: fits_def placed_def Let_def)

text \<open>A reader that delivers a file in reads of at most \<open>k + 1\<close> bytes.\<close>

definition chunk_reader :: "nat \<Rightarrow> byte list read_fn" where
  "chunk_reader k xs n = (take (min n (Suc k)) xs, drop (min n (Suc k)) xs)"

lemma chunk_reader_source: "byte_source (chunk_reader k) (\<lambda>xs. xs)"
  by (auto simp: byte_source_def chunk_reader_def min_def)

definition small_game :: "byte list" where
  "small_game = put_u32le HX421_GAME_MAGIC @ put_u32le HX421_ABI_MAJOR @ put_u32le 1 @ put_u32le 3 @ put_u32le 2 @
     put_u32le 0 @ put_u32le 0 @ put_u32le 0 @ [7, 8, 9]"

lemma small_game_packed: "mkhxg [7, 8, 9] 1 2 = Inr small_game"
  by (simp add: mkhxg_def small_game_def numeral_3_eq_3)

text \<open>
  C37: A packed game loads: the file that the packer writes for an image is accepted by both loaders
  whenever the image, its cleared memory and the reserved stack fit the region, whatever sizes the
  reader delivers; the region then starts with the image and its zeros, the rest is untouched, and
  the entry is the one given to the packer.
\<close>

theorem packed_game_loads:
  assumes "mkhxg raw entry bss = Inr f" and "length raw < 4294967296" and "bss < 4294967296"
    and "length raw + bss + reserve \<le> length region" and "byte_source rd rest" and "rest c = f"
  shows "hx421_loader_place region (length region) reserve f =
      (HX421_LOAD_OK, raw @ replicate bss 0 @ drop (length raw + bss) region, Some entry) \<and>
    fst (hx421_loader_place_stream region (length region) reserve rd c) =
      (HX421_LOAD_OK, raw @ replicate bss 0 @ drop (length raw + bss) region, Some entry)"
  using place_cases(1) [OF refl packed_fits(1) [OF assms(1-4)]] stream_cases(1) [OF assms(5) refl, of c region reserve]
    packed_fits [OF assms(1-4)] assms(6) by simp_all

theorem packed_game_loads_witness:
  "fst (hx421_loader_place_stream (replicate 16 1) 16 4 (chunk_reader 4) small_game) =
     (HX421_LOAD_OK, [7, 8, 9, 0, 0, 1, 1, 1, 1, 1, 1, 1, 1, 1, 1, 1], Some 1)"
proof -
  have "fst (hx421_loader_place_stream (replicate 16 1) (length (replicate 16 (1 :: byte))) 4 (chunk_reader 4) small_game) =
      (HX421_LOAD_OK, [7, 8, 9] @ replicate 2 0 @ drop (length [7, 8, 9 :: byte] + 2) (replicate 16 1), Some 1)"
    by (rule conjunct2 [OF packed_game_loads [OF small_game_packed _ _ _ chunk_reader_source refl]]) simp_all
  then show ?thesis by (simp add: numeral_eq_Suc)
qed

text \<open>
  The loader of the device agrees with the loader of a whole file, for any reader of the same
  file: both accept the same files and then leave the same region and entry; a file that is refused
  for its header leaves the region untouched, and in no case is a byte outside the region written.
\<close>

theorem stream_loader_agrees:
  assumes "byte_source rd rest"
  shows "let whole = hx421_loader_place region (length region) reserve (rest c);
      streamed = fst (hx421_loader_place_stream region (length region) reserve rd c)
    in (fst whole = HX421_LOAD_OK \<longrightarrow> streamed = whole) \<and> (fst whole \<noteq> HX421_LOAD_OK \<longrightarrow> fst streamed \<noteq> HX421_LOAD_OK) \<and>
    (fst streamed \<notin> {HX421_LOAD_OK, HX421_LOAD_SHORT} \<longrightarrow> fst (snd streamed) = region) \<and>
    length (fst (snd streamed)) = length region \<and> length (fst (snd whole)) = length region"
proof (cases "fits (rest c) (length region) reserve")
  case True
  have "length (placed (rest c) region) = length region" using True by (intro length_placed) (auto simp: fits_def)
  then show ?thesis unfolding Let_def
    using place_cases(1) [OF refl True] stream_cases(1) [OF assms(1) refl True] by simp
next
  case False
  then show ?thesis unfolding Let_def
    using place_cases(2) [OF refl False] stream_cases(2) [OF assms(1) refl False] by auto
qed

theorem stream_loader_agrees_witness:
  "fst (fst (hx421_loader_place_stream [1, 2, 3, 4] 4 0 (chunk_reader 0) small_game)) \<noteq> HX421_LOAD_OK"
proof -
  let ?r = "[1, 2, 3, 4 :: byte]"
  have "\<not> fits small_game (length ?r) 0" using mkhxg_header [OF small_game_packed] by (simp add: fits_def)
  from place_cases(2) [OF refl this] have "fst (hx421_loader_place ?r (length ?r) 0 small_game) \<noteq> HX421_LOAD_OK" by auto
  moreover have "length ?r = 4" by simp
  ultimately show ?thesis using stream_loader_agrees [OF chunk_reader_source, of ?r 0 small_game 0] unfolding Let_def by metis
qed

end
