(* ===== verification/Sysimpl.thy ===== *)
theory Sysimpl
  imports HXBase "HOL-Library.Multiset"
begin

text \<open>
  \<^verbatim>\<open>firmware/dev/hx421_sysimpl.c\<close>: what a loaded game can reach of the firmware, its arena, its file
  sandbox and its four file slots.  A block of the arena is its offset, NULL is \<^term>\<open>None\<close>; a C string
  is the list of its characters.  The one instance that the table slots reach through a static
  pointer is an argument, and the services of the firmware are functions over their own state \<open>'p\<close>.
\<close>

section \<open>State\<close>

definition HX421_SANDBOX_MAX :: nat where "HX421_SANDBOX_MAX = 96"
definition HX421_MAX_OPEN :: nat where "HX421_MAX_OPEN = 4"
definition NO_BLOCK :: nat where "NO_BLOCK = 0xFFFFFFFF"

record sysimpl =
  si_arena_size :: nat
  si_arena_top :: nat
  si_arena_last :: nat
  si_arena_peak :: nat
  si_prefix :: string
  si_slot :: "int list"

record 'p fw_backend =
  fb_fopen :: "'p \<Rightarrow> string \<Rightarrow> nat \<Rightarrow> int \<times> 'p"
  fb_fread :: "'p \<Rightarrow> int \<Rightarrow> nat \<Rightarrow> byte list \<times> 'p"
  fb_fwrite :: "'p \<Rightarrow> int \<Rightarrow> byte list \<Rightarrow> nat \<times> 'p"
  fb_fseek :: "'p \<Rightarrow> int \<Rightarrow> nat \<Rightarrow> nat \<times> 'p"
  fb_fclose :: "'p \<Rightarrow> int \<Rightarrow> 'p"

section \<open>The arena\<close>

definition hx421_arena_init :: "sysimpl \<Rightarrow> nat \<Rightarrow> sysimpl" where
  "hx421_arena_init s sz = s\<lparr>si_arena_size := sz, si_arena_top := 0, si_arena_last := NO_BLOCK, si_arena_peak := 0\<rparr>"

text \<open>The size rounded up to four bytes, in 32 bits.\<close>

definition arena_round :: "nat \<Rightarrow> nat" where
  "arena_round n = (let n = u32 (n + 3) - u32 (n + 3) mod 4 in if n = 0 then 4 else n)"

definition hx421_arena_alloc :: "sysimpl \<Rightarrow> nat \<Rightarrow> nat option \<times> sysimpl" where
  "hx421_arena_alloc s n =
     (let n = arena_round n in
      if si_arena_size s - si_arena_top s < n then (None, s)
      else let top = u32 (si_arena_top s + n);
               s1 = s\<lparr>si_arena_last := si_arena_top s, si_arena_top := top\<rparr>
           in (Some (si_arena_top s), if si_arena_peak s < top then s1\<lparr>si_arena_peak := top\<rparr> else s1))"

definition hx421_arena_free :: "sysimpl \<Rightarrow> nat option \<Rightarrow> sysimpl" where
  "hx421_arena_free s p =
     (case p of
        None \<Rightarrow> s
      | Some off \<Rightarrow> if off = si_arena_last s
                    then s\<lparr>si_arena_top := si_arena_last s, si_arena_last := NO_BLOCK\<rparr> else s)"

section \<open>The path sandbox\<close>

definition is_sep :: "char \<Rightarrow> bool" where "is_sep c \<longleftrightarrow> c = CHR ''/'' \<or> c = CHR 0x5C"

text \<open>The scan for a \<^verbatim>\<open>..\<close> component; the flag says that the next character starts a component.\<close>

fun dotdot :: "bool \<Rightarrow> string \<Rightarrow> bool" where
  "dotdot start [] = False"
| "dotdot start (c # cs) =
     (if c = CHR ''.'' \<and> start \<and> (case cs of [] \<Rightarrow> False | d # ds \<Rightarrow> d = CHR ''.'' \<and> (case ds of [] \<Rightarrow> True | e # _ \<Rightarrow> is_sep e))
      then True else dotdot (is_sep c) cs)"

definition hx421_sandbox_path :: "nat \<Rightarrow> string \<Rightarrow> string \<Rightarrow> string option" where
  "hx421_sandbox_path cap prefix rel =
     (if rel \<noteq> [] \<and> is_sep (rel ! 0) then None
      else if dotdot True rel then None
      else if cap < length prefix + 1 + length rel + 1 then None
      else Some (prefix @ (if prefix \<noteq> [] \<and> prefix ! (length prefix - 1) \<noteq> CHR ''/'' then ''/'' else []) @ rel))"

section \<open>The file slots\<close>

definition slot_find_free :: "sysimpl \<Rightarrow> nat option" where
  "slot_find_free s = List.find (\<lambda>i. si_slot s ! i < 0) [0..<HX421_MAX_OPEN]"

definition s_open :: "'p fw_backend \<Rightarrow> string \<Rightarrow> nat \<Rightarrow> sysimpl \<Rightarrow> 'p \<Rightarrow> int \<times> sysimpl \<times> 'p" where
  "s_open fb path mode s p =
     (case slot_find_free s of
        None \<Rightarrow> (- 1, s, p)
      | Some i \<Rightarrow>
          (case hx421_sandbox_path HX421_SANDBOX_MAX (si_prefix s) path of
             None \<Rightarrow> (- 1, s, p)
           | Some full \<Rightarrow>
               (case fb_fopen fb p full mode of
                  (h, p1) \<Rightarrow> if h < 0 then (- 1, s, p1) else (int i, s\<lparr>si_slot := (si_slot s)[i := h]\<rparr>, p1))))"

definition slot_ok :: "sysimpl \<Rightarrow> int \<Rightarrow> bool" where
  "slot_ok s sh \<longleftrightarrow> 0 \<le> sh \<and> sh < int HX421_MAX_OPEN \<and> 0 \<le> si_slot s ! nat sh"

definition s_read :: "'p fw_backend \<Rightarrow> int \<Rightarrow> nat \<Rightarrow> sysimpl \<Rightarrow> 'p \<Rightarrow> byte list \<times> 'p" where
  "s_read fb sh n s p = (if slot_ok s sh then fb_fread fb p (si_slot s ! nat sh) n else ([], p))"

definition s_write :: "'p fw_backend \<Rightarrow> int \<Rightarrow> byte list \<Rightarrow> sysimpl \<Rightarrow> 'p \<Rightarrow> nat \<times> 'p" where
  "s_write fb sh bs s p = (if slot_ok s sh then fb_fwrite fb p (si_slot s ! nat sh) bs else (0, p))"

definition s_seek :: "'p fw_backend \<Rightarrow> int \<Rightarrow> nat \<Rightarrow> sysimpl \<Rightarrow> 'p \<Rightarrow> nat \<times> 'p" where
  "s_seek fb sh off s p = (if slot_ok s sh then fb_fseek fb p (si_slot s ! nat sh) off else (4294967295, p))"

definition s_close :: "'p fw_backend \<Rightarrow> int \<Rightarrow> sysimpl \<Rightarrow> 'p \<Rightarrow> sysimpl \<times> 'p" where
  "s_close fb sh s p =
     (if \<not> slot_ok s sh then (s, p)
      else (s\<lparr>si_slot := (si_slot s)[nat sh := - 1]\<rparr>, fb_fclose fb p (si_slot s ! nat sh)))"

text \<open>The state in which a game starts.\<close>

definition hx421_sys_build :: "sysimpl \<Rightarrow> nat \<Rightarrow> string \<Rightarrow> sysimpl" where
  "hx421_sys_build s arena_size prefix =
     (hx421_arena_init s arena_size)\<lparr>si_prefix := take (HX421_SANDBOX_MAX - 1) prefix, si_slot := replicate HX421_MAX_OPEN (- 1)\<rparr>"

section \<open>Paths and what they name\<close>

text \<open>The components of a path, and where a file system ends up that follows them.\<close>

fun components :: "string \<Rightarrow> string list" where
  "components [] = [[]]"
| "components (c # cs) = (if is_sep c then [] # components cs else (c # hd (components cs)) # tl (components cs))"

fun walk :: "string list \<Rightarrow> string list \<Rightarrow> string list" where
  "walk dir [] = dir"
| "walk dir (c # cs) = walk (if c = [] \<or> c = ''.'' then dir else if c = ''..'' then butlast dir else dir @ [c]) cs"

lemma components_nonempty [simp]: "components cs \<noteq> []"
  by (cases cs) auto

lemma walk_append: "walk dir (xs @ ys) = walk (walk dir xs) ys"
  by (induction xs arbitrary: dir) auto

lemma walk_without_dotdot: "''..'' \<notin> set cs \<Longrightarrow> \<exists>tail. walk dir cs = dir @ tail"
proof (induction cs arbitrary: dir)
  case (Cons c cs)
  have "\<exists>tail. walk (dir @ [c]) cs = (dir @ [c]) @ tail" "\<exists>tail. walk dir cs = dir @ tail"
    using Cons.IH Cons.prems by (metis list.set_intros(2))+
  then show ?case using Cons.prems by auto
qed simp

lemma components_sep: "is_sep x \<Longrightarrow> components (cs @ x # ds) = components cs @ components ds"
  by (induction cs) (auto simp: hd_append)

lemma components_start: "hd (components cs) = [] \<longleftrightarrow> cs = [] \<or> is_sep (hd cs)"
  by (cases cs) auto

lemma dotdot_components:
  "dotdot True cs \<longleftrightarrow> ''..'' \<in> set (components cs)" "dotdot False cs \<longleftrightarrow> ''..'' \<in> set (tl (components cs))"
proof (induction cs)
  case (Cons c cs)
  show "dotdot False (c # cs) \<longleftrightarrow> ''..'' \<in> set (tl (components (c # cs)))" using Cons by auto
  show "dotdot True (c # cs) \<longleftrightarrow> ''..'' \<in> set (components (c # cs))"
  proof (cases "is_sep c")
    case True
    then have "c \<noteq> CHR ''.''" by (auto simp: is_sep_def)
    then show ?thesis using True Cons by simp
  next
    case False
    have hd1: "hd (components cs) = ''.'' \<longleftrightarrow> (case cs of [] \<Rightarrow> False | d # ds \<Rightarrow> d = CHR ''.'' \<and> (case ds of [] \<Rightarrow> True | e # _ \<Rightarrow> is_sep e))"
    proof (cases cs)
      case (Cons d ds)
      have "\<not> is_sep (CHR ''.'')" by (simp add: is_sep_def)
      then show ?thesis using Cons components_start [of ds] by (auto split: list.splits)
    qed simp
    have "dotdot True (c # cs) \<longleftrightarrow> c = CHR ''.'' \<and> hd (components cs) = ''.'' \<or> dotdot False cs"
      using False by (auto simp: hd1)
    then show ?thesis using False Cons by auto
  qed
qed simp_all

section \<open>A game stays in its sandbox\<close>

definition below :: "string \<Rightarrow> string \<Rightarrow> bool" where
  "below prefix path \<longleftrightarrow> (\<exists>tail. walk [] (components path) = walk [] (components prefix) @ tail)"

lemma sandbox_below:
  assumes "hx421_sandbox_path cap prefix rel = Some out"
  shows "below prefix out" and "length out < cap"
proof -
  have rel: "''..'' \<notin> set (components rel)" and
    out: "out = prefix @ (if prefix \<noteq> [] \<and> prefix ! (length prefix - 1) \<noteq> CHR ''/'' then ''/'' else []) @ rel"
    "length prefix + 1 + length rel + 1 \<le> cap"
    using assms by (auto simp: hx421_sandbox_path_def dotdot_components split: if_splits)
  show "length out < cap" using out by auto
  have w: "\<exists>tail. walk dir (components rel) = dir @ tail" for dir by (rule walk_without_dotdot [OF rel])
  have sep: "is_sep (CHR ''/'')" by (simp add: is_sep_def)
  show "below prefix out"
  proof (cases "prefix = []")
    case True
    then show ?thesis using w [of "[]"] out by (simp add: below_def)
  next
    case ne: False
    show ?thesis
    proof (cases "last prefix = CHR ''/''")
      case False
      then have "out = prefix @ CHR ''/'' # rel" using ne out by (simp add: last_conv_nth)
      then show ?thesis using w by (simp add: below_def components_sep [OF sep] walk_append)
    next
      case True
      define q where "q = butlast prefix"
      have p: "prefix = q @ CHR ''/'' # []" using append_butlast_last_id [OF ne] True by (simp add: q_def)
      then have "out = q @ CHR ''/'' # rel" using ne out True by (simp add: last_conv_nth)
      moreover have "walk [] (components prefix) = walk [] (components q)" unfolding p components_sep [OF sep] walk_append by simp
      ultimately show ?thesis using w by (simp add: below_def components_sep [OF sep] walk_append)
    qed
  qed
qed

text \<open>
  Any firmware services, with a record of the handles that are open, the paths that were opened and
  whether every call was made on an open handle.
\<close>

record 'p files =
  fl_plat :: 'p
  fl_open :: "int multiset"
  fl_paths :: "string list"
  fl_fair :: bool

definition files_backend :: "'p fw_backend \<Rightarrow> 'p files fw_backend" where
  "files_backend fb =
     \<lparr>fb_fopen = (\<lambda>l path mode. case fb_fopen fb (fl_plat l) path mode of
        (h, p) \<Rightarrow> (h, l\<lparr>fl_plat := p, fl_open := (if h < 0 then fl_open l else add_mset h (fl_open l)), fl_paths := path # fl_paths l\<rparr>)),
      fb_fread = (\<lambda>l h n. case fb_fread fb (fl_plat l) h n of (bs, p) \<Rightarrow> (bs, l\<lparr>fl_plat := p, fl_fair := fl_fair l \<and> h \<in># fl_open l\<rparr>)),
      fb_fwrite = (\<lambda>l h bs. case fb_fwrite fb (fl_plat l) h bs of (n, p) \<Rightarrow> (n, l\<lparr>fl_plat := p, fl_fair := fl_fair l \<and> h \<in># fl_open l\<rparr>)),
      fb_fseek = (\<lambda>l h off. case fb_fseek fb (fl_plat l) h off of (n, p) \<Rightarrow> (n, l\<lparr>fl_plat := p, fl_fair := fl_fair l \<and> h \<in># fl_open l\<rparr>)),
      fb_fclose = (\<lambda>l h. l\<lparr>fl_plat := fb_fclose fb (fl_plat l) h, fl_fair := fl_fair l \<and> h \<in># fl_open l, fl_open := fl_open l - {#h#}\<rparr>)\<rparr>"

inductive game_call :: "'p fw_backend \<Rightarrow> sysimpl \<times> 'p \<Rightarrow> sysimpl \<times> 'p \<Rightarrow> bool" for fb where
  opens: "s_open fb path mode s p = (r, s', p') \<Longrightarrow> game_call fb (s, p) (s', p')"
| reads: "s_read fb sh n s p = (bs, p') \<Longrightarrow> game_call fb (s, p) (s, p')"
| writes: "s_write fb sh bs s p = (n, p') \<Longrightarrow> game_call fb (s, p) (s, p')"
| seeks: "s_seek fb sh off s p = (n, p') \<Longrightarrow> game_call fb (s, p) (s, p')"
| closes: "s_close fb sh s p = (s', p') \<Longrightarrow> game_call fb (s, p) (s', p')"
| allocs: "hx421_arena_alloc s n = (b, s') \<Longrightarrow> game_call fb (s, p) (s', p)"
| frees: "game_call fb (s, p) (hx421_arena_free s b, p)"

definition open_handles :: "sysimpl \<Rightarrow> int multiset" where "open_handles s = mset (filter (\<lambda>h. 0 \<le> h) (si_slot s))"

definition files_ok :: "string \<Rightarrow> sysimpl \<Rightarrow> 'p files \<Rightarrow> bool" where
  "files_ok prefix s l \<longleftrightarrow> fl_fair l \<and> length (si_slot s) = 4 \<and> si_prefix s = prefix \<and> fl_open l = open_handles s \<and> (\<forall>path \<in> set (fl_paths l). below prefix path)"

lemma held_update:
  assumes "i < length xs"
  shows "mset (filter P (xs[i := h])) + (if P (xs ! i) then {#xs ! i#} else {#}) = mset (filter P xs) + (if P h then {#h#} else {#})"
proof -
  have "mset (filter P xs) = mset (filter P (take i xs @ xs ! i # drop (Suc i) xs))"
    using id_take_nth_drop [OF assms] by simp
  also have "\<dots> = mset (filter P (take i xs)) + mset (filter P (drop (Suc i) xs)) + (if P (xs ! i) then {#xs ! i#} else {#})" by simp
  finally have e: "mset (filter P xs) = mset (filter P (take i xs)) + mset (filter P (drop (Suc i) xs)) + (if P (xs ! i) then {#xs ! i#} else {#})" .
  show ?thesis unfolding e upd_conv_take_nth_drop [OF assms] by simp
qed

lemma slot_held: "length (si_slot s) = 4 \<Longrightarrow> slot_ok s sh \<Longrightarrow> si_slot s ! nat sh \<in># open_handles s"
  by (auto simp: slot_ok_def open_handles_def HX421_MAX_OPEN_def)

lemma find_free: "slot_find_free s = Some i \<Longrightarrow> i < 4 \<and> si_slot s ! i < 0"
  by (auto simp: slot_find_free_def find_Some_iff HX421_MAX_OPEN_def)

lemma arena_fields [simp]:
  "si_slot (snd (hx421_arena_alloc s n)) = si_slot s" "si_prefix (snd (hx421_arena_alloc s n)) = si_prefix s"
  "si_slot (hx421_arena_free s b) = si_slot s" "si_prefix (hx421_arena_free s b) = si_prefix s"
  by (simp_all add: hx421_arena_alloc_def hx421_arena_free_def Let_def split: option.split)

lemma call_files_ok:
  assumes "game_call (files_backend fb) (s, l) (s', l')" and ok: "files_ok prefix s l"
  shows "files_ok prefix s' l'"
  using assms(1)
proof cases
  case (opens path mode r)
  show ?thesis
  proof (cases "slot_find_free s")
    case None
    then show ?thesis using opens ok by (simp add: s_open_def)
  next
    case (Some i)
    note f = find_free [OF Some]
    show ?thesis
    proof (cases "hx421_sandbox_path HX421_SANDBOX_MAX (si_prefix s) path")
      case None
      then show ?thesis using Some opens ok by (simp add: s_open_def)
    next
      case full: (Some full)
      have b: "below prefix full" using sandbox_below(1) [OF full] ok by (simp add: files_ok_def)
      obtain h p where o: "fb_fopen fb (fl_plat l) full mode = (h, p)" by fastforce
      have "mset (filter (\<lambda>h. 0 \<le> h) ((si_slot s)[i := h])) = add_mset h (open_handles s)" if "0 \<le> h"
        using held_update [of i "si_slot s" "\<lambda>h. 0 \<le> h" h] f ok that by (simp add: open_handles_def files_ok_def)
      then show ?thesis using opens ok Some full o b
        by (cases "h < 0") (auto simp: s_open_def files_backend_def files_ok_def open_handles_def)
    qed
  qed
next
  case (closes sh)
  show ?thesis
  proof (cases "slot_ok s sh")
    case False
    then show ?thesis using closes ok by (simp add: s_close_def)
  next
    case True
    let ?h = "si_slot s ! nat sh"
    have len: "nat sh < length (si_slot s)" "0 \<le> ?h" using True ok by (auto simp: slot_ok_def files_ok_def HX421_MAX_OPEN_def)
    have "?h \<in># open_handles s" using slot_held [OF _ True] ok by (simp add: files_ok_def)
    moreover have "add_mset ?h (open_handles (s\<lparr>si_slot := (si_slot s)[nat sh := - 1]\<rparr>)) = open_handles s"
      using held_update [OF len(1), of "\<lambda>h. 0 \<le> h" "- 1"] len(2) by (simp add: open_handles_def)
    then have "open_handles (s\<lparr>si_slot := (si_slot s)[nat sh := - 1]\<rparr>) = open_handles s - {#?h#}" by (metis add_mset_remove_trivial)
    ultimately show ?thesis using closes ok True by (auto simp: s_close_def files_backend_def files_ok_def)
  qed
next
  case (reads sh n bs)
  then show ?thesis using ok slot_held [of s sh] by (auto simp: s_read_def files_backend_def files_ok_def split: if_splits prod.splits)
next
  case (writes sh bs n)
  then show ?thesis using ok slot_held [of s sh] by (auto simp: s_write_def files_backend_def files_ok_def split: if_splits prod.splits)
next
  case (seeks sh off n)
  then show ?thesis using ok slot_held [of s sh] by (auto simp: s_seek_def files_backend_def files_ok_def split: if_splits prod.splits)
next
  case (allocs n b)
  then have "si_slot s' = si_slot s" "si_prefix s' = si_prefix s" "l' = l" using allocs arena_fields(1,2) [of s n] by simp_all
  then show ?thesis using ok by (simp add: files_ok_def open_handles_def)
next
  case (frees b)
  then show ?thesis using ok by (simp add: files_ok_def open_handles_def)
qed

text \<open>All the calls of a game that was started on a prefix.\<close>

definition new_files :: "'p \<Rightarrow> 'p files" where
  "new_files p = \<lparr>fl_plat = p, fl_open = {#}, fl_paths = [], fl_fair = True\<rparr>"

definition game_calls :: "'p fw_backend \<Rightarrow> sysimpl \<times> 'p \<Rightarrow> sysimpl \<times> 'p \<Rightarrow> bool" where
  "game_calls fb = (game_call fb)\<^sup>*\<^sup>*"

lemma build_files_ok: "files_ok (take 95 prefix) (hx421_sys_build s n prefix) (new_files p)"
  by (simp add: files_ok_def hx421_sys_build_def new_files_def HX421_SANDBOX_MAX_def HX421_MAX_OPEN_def open_handles_def hx421_arena_init_def)

lemma calls_files_ok:
  assumes "game_calls (files_backend fb) (s, l) (s', l')" and "files_ok prefix s l"
  shows "files_ok prefix s' l'"
proof -
  have "(game_call (files_backend fb))\<^sup>*\<^sup>* x y \<Longrightarrow> files_ok prefix (fst x) (snd x) \<Longrightarrow> files_ok prefix (fst y) (snd y)" for x y
  proof (induction rule: rtranclp_induct)
    case (step y z)
    then show ?case using call_files_ok [of fb "fst y" "snd y" "fst z" "snd z" prefix] by simp
  qed simp
  from this [of "(s, l)" "(s', l')"] show ?thesis using assms by (simp add: game_calls_def)
qed

text \<open>A firmware whose files all have handle 5.\<close>

definition one_file :: "unit fw_backend" where
  "one_file = \<lparr>fb_fopen = (\<lambda>p _ _. (5, p)), fb_fread = (\<lambda>p _ _. ([], p)), fb_fwrite = (\<lambda>p _ _. (0, p)),
     fb_fseek = (\<lambda>p _ _. (0, p)), fb_fclose = (\<lambda>p _. p)\<rparr>"

definition blank_impl :: sysimpl where
  "blank_impl = \<lparr>si_arena_size = 0, si_arena_top = 0, si_arena_last = 0, si_arena_peak = 0, si_prefix = [], si_slot = []\<rparr>"

text \<open>
  C8: A game is confined to its files: whatever sequence of file and memory calls it makes, with
  whatever paths and handles, every path that reaches the file system names a file below the game's
  prefix (following the path never leaves the directory of the prefix), every read, write, seek and
  close reaches a file that the game has open, and no more than four are open at once.
\<close>

theorem game_files_confined:
  assumes "game_calls (files_backend fb) (hx421_sys_build s0 n prefix, new_files p) (s, l)"
  shows "fl_fair l \<and> size (fl_open l) \<le> 4 \<and> fl_open l = mset (filter (\<lambda>h. 0 \<le> h) (si_slot s)) \<and>
    (\<forall>path \<in> set (fl_paths l). \<exists>tail. walk [] (components path) = walk [] (components (take 95 prefix)) @ tail)"
proof -
  have ok: "files_ok (take 95 prefix) s l" by (rule calls_files_ok [OF assms build_files_ok])
  moreover have "size (open_handles s) \<le> length (si_slot s)" by (simp add: open_handles_def del: mset_filter)
  ultimately show ?thesis by (simp add: files_ok_def below_def open_handles_def)
qed

theorem game_files_confined_witness:
  "\<exists>s l. game_calls (files_backend one_file) (hx421_sys_build blank_impl 64 ''/g'', new_files ()) (s, l) \<and>
     fl_paths l = [''/g/a''] \<and> size (fl_open l) \<le> 4"
proof -
  let ?s = "hx421_sys_build blank_impl 64 ''/g''"
  obtain r s l where o: "s_open (files_backend one_file) ''a'' 1 ?s (new_files ()) = (r, s, l)" by (metis prod_cases3)
  have "slot_find_free ?s = Some 0" by (simp add: slot_find_free_def hx421_sys_build_def HX421_MAX_OPEN_def upt_conv_Cons)
  then have l: "fl_paths l = [''/g/a'']"
    using o by (auto simp: s_open_def hx421_sandbox_path_def HX421_SANDBOX_MAX_def is_sep_def hx421_sys_build_def files_backend_def one_file_def new_files_def)
  have c: "game_calls (files_backend one_file) (?s, new_files ()) (s, l)"
    unfolding game_calls_def by (rule r_into_rtranclp) (rule game_call.opens [OF o])
  show ?thesis using game_files_confined [OF c] c l by blast
qed

section \<open>The blocks of the arena\<close>

text \<open>The blocks that a game holds: those it was given and has not freed, with the sizes it asked for.\<close>

inductive arena_run :: "sysimpl \<Rightarrow> (nat \<times> nat) list \<Rightarrow> bool" where
  init: "sz < 4294967296 \<Longrightarrow> arena_run (hx421_arena_init s sz) []"
| alloc: "arena_run s bs \<Longrightarrow> n + 3 < 4294967296 \<Longrightarrow> hx421_arena_alloc s n = (Some off, s') \<Longrightarrow> arena_run s' ((off, n) # bs)"
| full: "arena_run s bs \<Longrightarrow> hx421_arena_alloc s n = (None, s') \<Longrightarrow> arena_run s' bs"
| free: "arena_run s bs \<Longrightarrow> b \<in> set bs \<Longrightarrow> arena_run (hx421_arena_free s (Some (fst b))) (remove1 b bs)"

lemma round_ok:
  assumes "n + 3 < 4294967296"
  shows "n \<le> arena_round n" and "arena_round n mod 4 = 0" and "0 < arena_round n" and "arena_round n < 4294967296"
proof -
  have "u32 (n + 3) = n + 3" using assms by simp
  then show "n \<le> arena_round n" "arena_round n mod 4 = 0" "0 < arena_round n" "arena_round n < 4294967296"
    using assms by (auto simp: arena_round_def Let_def minus_mod_eq_mult_div)
qed

definition block_end :: "nat \<times> nat \<Rightarrow> nat" where "block_end b = fst b + arena_round (snd b)"

definition arena_ok :: "sysimpl \<Rightarrow> (nat \<times> nat) list \<Rightarrow> bool" where
  "arena_ok s bs \<longleftrightarrow> si_arena_size s < 4294967296 \<and> si_arena_top s \<le> si_arena_size s \<and> si_arena_top s mod 4 = 0 \<and>
     (si_arena_last s \<noteq> NO_BLOCK \<longrightarrow> si_arena_last s mod 4 = 0 \<and> si_arena_last s \<le> si_arena_top s) \<and> distinct (map fst bs) \<and>
     (\<forall>b \<in> set bs. snd b + 3 < 4294967296 \<and> fst b mod 4 = 0 \<and> block_end b \<le> si_arena_top s \<and>
        (si_arena_last s \<noteq> NO_BLOCK \<longrightarrow> fst b = si_arena_last s \<or> block_end b \<le> si_arena_last s)) \<and>
     (\<forall>b \<in> set bs. \<forall>c \<in> set bs. fst b < fst c \<longrightarrow> block_end b \<le> fst c)"

lemma arena_ok_apart: "arena_ok s bs \<Longrightarrow> b \<in> set bs \<Longrightarrow> c \<in> set bs \<Longrightarrow> fst b < fst c \<Longrightarrow> block_end b \<le> fst c"
  unfolding arena_ok_def by blast

lemma arena_run_ok: "arena_run s bs \<Longrightarrow> arena_ok s bs"
proof (induction rule: arena_run.induct)
  case (init sz s)
  then show ?case by (simp add: arena_ok_def hx421_arena_init_def)
next
  case (alloc s bs n off s')
  let ?r = "arena_round n"
  have ok: "arena_ok s bs" by (rule alloc.IH)
  have r: "?r mod 4 = 0" "0 < ?r" using round_ok [OF alloc.hyps(2)] by simp_all
  have fit: "?r \<le> si_arena_size s - si_arena_top s" "off = si_arena_top s" "si_arena_last s' = off" "si_arena_size s' = si_arena_size s"
    "si_arena_top s' = u32 (si_arena_top s + ?r)"
    using alloc.hyps(3) by (auto simp: hx421_arena_alloc_def Let_def split: if_splits)
  then have top: "si_arena_top s' = off + ?r" "off + ?r \<le> si_arena_size s" using ok r by (auto simp: arena_ok_def)
  have m: "off mod 4 = 0" "(off + ?r) mod 4 = 0" using ok r fit by (auto simp: arena_ok_def mod_add_eq [symmetric])
  have end_le: "block_end b \<le> off" "fst b < block_end b" if "b \<in> set bs" for b
    using ok that fit round_ok(3) [of "snd b"] by (auto simp: arena_ok_def block_end_def)
  have new: "block_end (off, n) = off + ?r" by (simp add: block_end_def)
  have "off \<noteq> NO_BLOCK" using m by (auto simp: NO_BLOCK_def)
  have d: "off \<notin> fst ` set bs" using end_le by fastforce
  have "\<forall>b \<in> set bs. block_end b \<le> off + ?r" using end_le(1) by (simp add: trans_le_add1)
  moreover have "\<forall>b \<in> set bs. snd b + 3 < 4294967296 \<and> fst b mod 4 = 0" "distinct (map fst bs)"
    "\<forall>b \<in> set bs. \<forall>c \<in> set bs. fst b < fst c \<longrightarrow> block_end b \<le> fst c" "si_arena_size s < 4294967296"
    using ok by (simp_all add: arena_ok_def)
  moreover have "\<forall>c \<in> set bs. \<not> off < fst c" using end_le by fastforce
  ultimately show ?case unfolding arena_ok_def using top m fit(3,4) d end_le(1) alloc.hyps(2) new by simp
next
  case (full s bs n s')
  then show ?case by (auto simp: hx421_arena_alloc_def Let_def split: if_splits)
next
  case (free s bs b)
  have ok: "arena_ok s bs" by (rule free.IH)
  have d: "distinct (map fst bs)" using ok by (simp add: arena_ok_def)
  have sub: "set (remove1 b bs) \<subseteq> set bs" "distinct (map fst (remove1 b bs))"
    using d by (simp_all add: set_remove1_subset distinct_map inj_on_def distinct_remove1)
  have ne: "fst c \<noteq> fst b" if "c \<in> set (remove1 b bs)" for c
    using that d free.hyps(2) by (metis distinct_map distinct_remove1 inj_onD in_set_remove1 notin_set_remove1 set_remove1_eq DiffD2 singletonI)
  have "fst b mod 4 = 0" using ok free.hyps(2) by (auto simp: arena_ok_def)
  then have nb: "fst b \<noteq> NO_BLOCK" by (auto simp: NO_BLOCK_def)
  show ?case
  proof (cases "fst b = si_arena_last s")
    case False
    then have "hx421_arena_free s (Some (fst b)) = s" by (simp add: hx421_arena_free_def)
    then show ?thesis using ok sub by (auto simp: arena_ok_def)
  next
    case True
    have "hx421_arena_free s (Some (fst b)) = s\<lparr>si_arena_top := si_arena_last s, si_arena_last := NO_BLOCK\<rparr>"
      using True by (simp add: hx421_arena_free_def)
    moreover have "\<forall>c \<in> set (remove1 b bs). block_end c \<le> si_arena_last s"
    proof
      fix c assume c: "c \<in> set (remove1 b bs)"
      then have "c \<in> set bs" "fst c \<noteq> si_arena_last s" using sub(1) ne [OF c] True by auto
      then show "block_end c \<le> si_arena_last s" using ok True nb unfolding arena_ok_def by metis
    qed
    moreover have "\<forall>c \<in> set (remove1 b bs). snd c + 3 < 4294967296 \<and> fst c mod 4 = 0" using ok sub(1) unfolding arena_ok_def by blast
    moreover have "\<forall>c \<in> set (remove1 b bs). \<forall>e \<in> set (remove1 b bs). fst c < fst e \<longrightarrow> block_end c \<le> fst e"
      using ok sub(1) unfolding arena_ok_def by blast
    moreover have "si_arena_size s < 4294967296" "si_arena_last s \<le> si_arena_size s" "si_arena_last s mod 4 = 0"
      using ok True nb by (auto simp: arena_ok_def)
    ultimately show ?thesis using sub(2) by (simp add: arena_ok_def)
  qed
qed

definition blank_arena :: sysimpl where "blank_arena = hx421_arena_init blank_impl 64"

text \<open>
  The blocks of the arena are apart: as long as a game asks for sizes that do not wrap when they
  are rounded and frees only blocks it holds, in any order, the blocks it holds are aligned, inside
  the arena and disjoint, reclaimed memory included.
\<close>

theorem arena_blocks_disjoint:
  assumes "arena_run s bs" and "(o1, n1) \<in> set bs" and "(o2, n2) \<in> set bs"
  shows "o1 mod 4 = 0 \<and> o1 + n1 \<le> si_arena_size s \<and> (o1 = o2 \<longrightarrow> n1 = n2) \<and> (o1 \<noteq> o2 \<longrightarrow> o1 + n1 \<le> o2 \<or> o2 + n2 \<le> o1)"
proof -
  have ok: "arena_ok s bs" by (rule arena_run_ok [OF assms(1)])
  have r: "n1 \<le> arena_round n1" "n2 \<le> arena_round n2" using ok assms(2,3) round_ok(1) by (auto simp: arena_ok_def)
  have d: "distinct (map fst bs)" using ok by (simp add: arena_ok_def)
  have a: "o1 mod 4 = 0" "block_end (o1, n1) \<le> si_arena_top s" "si_arena_top s \<le> si_arena_size s"
    using ok assms(2) by (auto simp: arena_ok_def)
  have "o1 < o2 \<Longrightarrow> block_end (o1, n1) \<le> o2" "o2 < o1 \<Longrightarrow> block_end (o2, n2) \<le> o1"
    using arena_ok_apart [OF ok assms(2,3)] arena_ok_apart [OF ok assms(3,2)] by simp_all
  moreover have "o1 = o2 \<Longrightarrow> n1 = n2" using eq_key_imp_eq_value [OF d] assms(2,3) by blast
  ultimately show ?thesis using a r by (cases o1 o2 rule: linorder_cases) (simp_all add: block_end_def)
qed

theorem arena_blocks_disjoint_witness:
  "\<exists>s. arena_run s [(8, 3), (0, 5)] \<and> (0::nat) + 5 \<le> si_arena_size s \<and> ((0::nat) + 5 \<le> 8 \<or> 8 + 3 \<le> (0::nat))"
proof -
  obtain r1 s1 where a1: "hx421_arena_alloc blank_arena 5 = (r1, s1)" by fastforce
  then have r1: "r1 = Some 0" "si_arena_top s1 = 8" "si_arena_size s1 = 64"
    by (auto simp: blank_arena_def hx421_arena_init_def hx421_arena_alloc_def arena_round_def u32_def Let_def blank_impl_def)
  obtain r2 s2 where a2: "hx421_arena_alloc s1 3 = (r2, s2)" by fastforce
  then have r2: "r2 = Some 8" using r1 by (auto simp: hx421_arena_alloc_def arena_round_def u32_def Let_def)
  have "arena_run blank_arena []" unfolding blank_arena_def by (rule arena_run.init) simp
  then have "arena_run s1 [(0, 5)]" using a1 r1(1) arena_run.alloc [of blank_arena "[]" 5 0 s1] by simp
  then have run: "arena_run s2 [(8, 3), (0, 5)]" using a2 r2 arena_run.alloc [of s1 "[(0, 5)]" 3 8 s2] by simp
  have "0 + 5 \<le> si_arena_size s2 \<and> (0 + 5 \<le> (8::nat) \<or> 8 + 3 \<le> (0::nat))"
    using arena_blocks_disjoint [OF run, of 0 5 8 3] by simp
  then show ?thesis using run by blast
qed

text \<open>A size within three bytes of \<open>2\<^sup>3\<^sup>2\<close> is rounded to zero and gets a block of four bytes.\<close>

lemma arena_size_wraps:
  assumes "4294967293 \<le> n" and "n < 4294967296" and "4 \<le> si_arena_size s - si_arena_top s"
  shows "fst (hx421_arena_alloc s n) = Some (si_arena_top s)"
proof -
  have "u32 (n + 3) = n + 3 - 4294967296" using assms(1,2) by (simp add: u32_def mod_if)
  then have "u32 (n + 3) < 4" using assms(2) by simp
  then have "arena_round n = 4" by (simp add: arena_round_def)
  then show ?thesis using assms(3) by (simp add: hx421_arena_alloc_def Let_def)
qed

end
