(* ===== verification/Terminal.thy ===== *)
theory Terminal
  imports Ring_Stream Wav "HOL-Library.Sublist"
begin

text \<open>
  \<^verbatim>\<open>firmware/dev/hx421_term.c\<close>: the terminal of the developer mode, a ring of output bytes that drops
  what does not fit and a line editor that hands finished lines to a command handler.  The sink and
  the handler are functions over the host's own state \<open>'p\<close>; what the C library's formatter produces
  is an argument of \<open>hx421_term_printf\<close>.
\<close>

section \<open>State\<close>

definition HX421_TERM_TX_SIZE :: nat where "HX421_TERM_TX_SIZE = 1024"
definition HX421_TERM_TX_MASK :: nat where "HX421_TERM_TX_MASK = 1023"
definition HX421_TERM_LINE_MAX :: nat where "HX421_TERM_LINE_MAX = 128"
definition HX421_TERM_MAX_ARGS :: nat where "HX421_TERM_MAX_ARGS = 8"

record terminal =
  tm_tx :: "byte list"
  tm_head :: nat
  tm_tail :: nat
  tm_dropped :: nat
  tm_line :: "byte list"
  tm_line_len :: nat
  tm_echo :: bool

definition hx421_term_init :: terminal where
  "hx421_term_init = \<lparr>tm_tx = replicate HX421_TERM_TX_SIZE 0, tm_head = 0, tm_tail = 0, tm_dropped = 0,
     tm_line = replicate HX421_TERM_LINE_MAX 0, tm_line_len = 0, tm_echo = True\<rparr>"

section \<open>Output\<close>

definition tx_used :: "terminal \<Rightarrow> nat" where "tx_used t = sub32 (tm_head t) (tm_tail t)"

fun hx421_term_write :: "terminal \<Rightarrow> byte list \<Rightarrow> terminal" where
  "hx421_term_write t [] = t"
| "hx421_term_write t (b # bs) =
     (if HX421_TERM_TX_SIZE \<le> tx_used t then t\<lparr>tm_dropped := u32 (tm_dropped t + length (b # bs))\<rparr>
      else hx421_term_write (t\<lparr>tm_tx := (tm_tx t)[tm_head t AND HX421_TERM_TX_MASK := b], tm_head := u32 (tm_head t + 1)\<rparr>) bs)"

definition hx421_term_puts :: "terminal \<Rightarrow> string \<Rightarrow> terminal" where
  "hx421_term_puts t s = hx421_term_write t (ascii s)"

text \<open>The formatter fails, or produces text of which the buffer of 256 bytes keeps at most 255.\<close>

definition hx421_term_printf :: "terminal \<Rightarrow> byte list option \<Rightarrow> int \<times> terminal" where
  "hx421_term_printf t out =
     (case out of None \<Rightarrow> (- 1, t)
      | Some text \<Rightarrow> (int (length text), hx421_term_write t (take (if length text < 256 then length text else 255) text)))"

definition hx421_term_pending :: "terminal \<Rightarrow> nat" where "hx421_term_pending t = tx_used t"

type_synonym 'p term_sink = "'p \<Rightarrow> byte list \<Rightarrow> nat \<times> 'p"

text \<open>
  The loop of the drain; every turn that goes on has sent at least one byte, so as many turns as
  there are pending bytes are enough.
\<close>

fun drain_loop :: "nat \<Rightarrow> 'p term_sink \<Rightarrow> nat \<Rightarrow> terminal \<Rightarrow> 'p \<Rightarrow> nat \<times> terminal \<times> 'p" where
  "drain_loop 0 sink sent t p = (sent, t, p)"
| "drain_loop (Suc k) sink sent t p =
     (if tx_used t = 0 then (sent, t, p)
      else let tail = tm_tail t AND HX421_TERM_TX_MASK;
               run = HX421_TERM_TX_SIZE - tail;
               run = (if tx_used t < run then tx_used t else run)
           in case sink p (seg tail run (tm_tx t)) of
                (took, p1) \<Rightarrow>
                  let t1 = t\<lparr>tm_tail := u32 (tm_tail t + took)\<rparr>
                  in if took < run then (u32 (sent + took), t1, p1) else drain_loop k sink (u32 (sent + took)) t1 p1)"

definition hx421_term_drain :: "'p term_sink \<Rightarrow> terminal \<Rightarrow> 'p \<Rightarrow> nat \<times> terminal \<times> 'p" where
  "hx421_term_drain sink t p = drain_loop (tx_used t) sink 0 t p"

section \<open>Lines\<close>

text \<open>
  The words of a line.  A word ends at the blank after it, which is overwritten when the next word is
  looked for; the last word that fits is not cut and keeps the rest of the line.
\<close>

definition blank :: "byte \<Rightarrow> bool" where "blank c \<longleftrightarrow> c = 32 \<or> c = 9"

fun split_args :: "nat \<Rightarrow> byte list \<Rightarrow> byte list list" where
  "split_args 0 cs = []"
| "split_args (Suc k) cs =
     (case dropWhile blank cs of
        [] \<Rightarrow> []
      | d # ds \<Rightarrow> if k = 0 then [d # ds]
                  else takeWhile (Not \<circ> blank) (d # ds) # split_args k (dropWhile (Not \<circ> blank) (d # ds)))"

type_synonym 'p term_cmd = "byte list list \<Rightarrow> terminal \<Rightarrow> 'p \<Rightarrow> terminal \<times> 'p"

text \<open>The line up to its terminating zero.\<close>

definition dispatch :: "'p term_cmd \<Rightarrow> terminal \<Rightarrow> 'p \<Rightarrow> terminal \<times> 'p" where
  "dispatch on_cmd t p =
     (let argv = split_args HX421_TERM_MAX_ARGS (takeWhile (\<lambda>c. c \<noteq> 0) (tm_line t))
      in if argv \<noteq> [] then on_cmd argv t p else (t, p))"

definition hx421_term_prompt :: "terminal \<Rightarrow> terminal" where
  "hx421_term_prompt t = hx421_term_puts t ''hx421> ''"

definition echo :: "byte list \<Rightarrow> terminal \<Rightarrow> terminal" where
  "echo bs t = (if tm_echo t then hx421_term_write t bs else t)"

fun kill_line :: "nat \<Rightarrow> terminal \<Rightarrow> terminal" where
  "kill_line 0 t = t"
| "kill_line (Suc n) t = kill_line n (echo [8, 32, 8] (t\<lparr>tm_line_len := n\<rparr>))"

definition hx421_term_rx :: "'p term_cmd \<Rightarrow> byte \<Rightarrow> terminal \<Rightarrow> 'p \<Rightarrow> terminal \<times> 'p" where
  "hx421_term_rx on_cmd c t p =
     (if c = 13 \<or> c = 10 then
        let t1 = echo [13, 10] t;
            t2 = t1\<lparr>tm_line := (tm_line t1)[tm_line_len t1 := 0]\<rparr>
        in case (if tm_line_len t2 \<noteq> 0 then dispatch on_cmd t2 p else (t2, p)) of
             (t3, p3) \<Rightarrow> (hx421_term_prompt (t3\<lparr>tm_line_len := 0\<rparr>), p3)
      else if c = 8 \<or> c = 127 then
        (if tm_line_len t \<noteq> 0 then (echo [8, 32, 8] (t\<lparr>tm_line_len := tm_line_len t - 1\<rparr>), p) else (t, p))
      else if c = 21 then (kill_line (tm_line_len t) t, p)
      else if 32 \<le> c \<and> tm_line_len t < HX421_TERM_LINE_MAX - 1 then
        (echo [c] (t\<lparr>tm_line := (tm_line t)[tm_line_len t := c], tm_line_len := tm_line_len t + 1\<rparr>), p)
      else (t, p))"

section \<open>Escape sequences\<close>

text \<open>The formatted text of the helpers; \<open>dec\<close> is the formatter's decimal conversion.\<close>

definition hx421_term_color :: "(nat \<Rightarrow> string) \<Rightarrow> terminal \<Rightarrow> nat \<Rightarrow> nat \<Rightarrow> terminal" where
  "hx421_term_color dec t fg bg =
     snd (hx421_term_printf t (Some (27 # ascii (''[38;5;'' @ dec fg @ ''m'') @ 27 # ascii (''[48;5;'' @ dec bg @ ''m''))))"

definition hx421_term_reset_attr :: "terminal \<Rightarrow> terminal" where
  "hx421_term_reset_attr t = hx421_term_write t (27 # ascii ''[0m'')"

definition hx421_term_clear :: "terminal \<Rightarrow> terminal" where
  "hx421_term_clear t = hx421_term_write t (27 # ascii ''[2J'' @ 27 # ascii ''[H'')"

definition hx421_term_gotoxy :: "(nat \<Rightarrow> string) \<Rightarrow> terminal \<Rightarrow> nat \<Rightarrow> nat \<Rightarrow> terminal" where
  "hx421_term_gotoxy dec t col row = snd (hx421_term_printf t (Some (27 # ascii (''['' @ dec row @ '';'' @ dec col @ ''H''))))"

section \<open>The ring of output bytes\<close>

definition tx_ok :: "terminal \<Rightarrow> bool" where
  "tx_ok t \<longleftrightarrow> length (tm_tx t) = 1024 \<and> tm_head t < 4294967296 \<and> tm_tail t < 4294967296 \<and> tx_used t \<le> 1024"

definition tx_list :: "terminal \<Rightarrow> byte list" where
  "tx_list t = map (\<lambda>i. tm_tx t ! ((tm_tail t + i) mod 1024)) [0..<tx_used t]"

lemma length_tx_list [simp]: "length (tx_list t) = tx_used t"
  by (simp add: tx_list_def)

lemma tx_index: "x AND HX421_TERM_TX_MASK = x mod 1024"
proof -
  have m: "(1023 :: nat) = mask 10" by (simp add: mask_eq_exp_minus_1)
  have "x AND 1023 = x mod 2 ^ 10" unfolding m take_bit_eq_mask [symmetric] by (rule take_bit_eq_mod)
  then show ?thesis by (simp add: HX421_TERM_TX_MASK_def)
qed

lemma tx_list_holds: "tx_ok t \<Longrightarrow> holds (tm_tx t) (tm_tail t) (tx_list t)"
  by (simp add: holds_def tx_ok_def tx_list_def)

lemma tx_list_unique:
  "tx_ok t \<Longrightarrow> holds (tm_tx t) (tm_tail t) xs \<Longrightarrow> length xs = tx_used t \<Longrightarrow> tx_list t = xs"
  using holds_unique [OF tx_list_holds] by simp

lemma head_mod:
  assumes "tx_ok t"
  shows "tm_head t mod 1024 = (tm_tail t + tx_used t) mod 1024"
proof -
  have d: "(1024 :: nat) dvd 4294967296" by simp
  have "tx_used t mod 1024 = (tm_head t + 4294967296 - tm_tail t) mod 1024"
    unfolding tx_used_def sub32_def u32_def by (simp add: mod_mod_cancel d)
  then have "(tm_tail t + tx_used t) mod 1024 = (tm_tail t + (tm_head t + 4294967296 - tm_tail t)) mod 1024" by (metis mod_add_right_eq)
  also have "tm_tail t + (tm_head t + 4294967296 - tm_tail t) = tm_head t + 4294967296" using assms by (simp add: tx_ok_def)
  also have "(tm_head t + 4294967296) mod 1024 = tm_head t mod 1024" using mod_mult_self2 [of "tm_head t" 1024 4194304] by simp
  finally show ?thesis by simp
qed

lemma write_step:
  fixes b :: byte
  assumes ok: "tx_ok t" and room: "tx_used t < 1024"
  defines "t' \<equiv> t\<lparr>tm_tx := (tm_tx t)[tm_head t AND HX421_TERM_TX_MASK := b], tm_head := u32 (tm_head t + 1)\<rparr>"
  shows "tx_ok t'" and "tx_list t' = tx_list t @ [b]"
proof -
  have used: "tx_used t' = tx_used t + 1"
    using ok room sub32_advance [of "tm_head t" "tm_tail t" 1] by (simp add: t'_def tx_ok_def tx_used_def)
  then show ok': "tx_ok t'" using ok room by (simp add: t'_def tx_ok_def)
  have len: "length (tm_tx t) = 1024" using ok by (simp add: tx_ok_def)
  have "holds ((tm_tx t)[(tm_tail t + length (tx_list t)) mod length (tm_tx t) := b]) (tm_tail t) (tx_list t @ [b])"
    by (rule holds_snoc [OF tx_list_holds [OF ok]]) (use len room in simp)
  then have "holds (tm_tx t') (tm_tail t') (tx_list t @ [b])" using head_mod [OF ok] len by (simp add: t'_def tx_index)
  then show "tx_list t' = tx_list t @ [b]" by (rule tx_list_unique [OF ok']) (simp add: used)
qed

text \<open>What a write keeps, and what it drops.\<close>

lemma write_spec:
  assumes "tx_ok t"
  shows "tx_ok (hx421_term_write t bs) \<and> tx_list (hx421_term_write t bs) = tx_list t @ take (1024 - tx_used t) bs \<and>
    u32 (tm_dropped (hx421_term_write t bs)) = u32 (tm_dropped t + (length bs - (1024 - tx_used t)))"
  using assms
proof (induction bs arbitrary: t)
  case (Cons b bs)
  let ?t = "t\<lparr>tm_tx := (tm_tx t)[tm_head t AND HX421_TERM_TX_MASK := b], tm_head := u32 (tm_head t + 1)\<rparr>"
  show ?case
  proof (cases "tx_used t < 1024")
    case True
    note w = write_step [OF Cons.prems True, of b]
    have "length (tx_list ?t) = length (tx_list t @ [b])" using w(2) by (rule arg_cong)
    then have used: "tx_used ?t = tx_used t + 1" by simp
    have e: "hx421_term_write t (b # bs) = hx421_term_write ?t bs" using True by (simp add: HX421_TERM_TX_SIZE_def)
    have k: "1024 - tx_used t = Suc (1024 - tx_used ?t)" using True used by simp
    show ?thesis using Cons.IH [OF w(1)] w(2) unfolding e k by simp
  next
    case False
    then have "hx421_term_write t (b # bs) = t\<lparr>tm_dropped := u32 (tm_dropped t + length (b # bs))\<rparr>" by (simp add: HX421_TERM_TX_SIZE_def)
    then show ?thesis using False Cons.prems by (simp add: tx_ok_def tx_used_def tx_list_def)
  qed
qed simp

lemma write_fields [simp]:
  "tm_line (hx421_term_write t bs) = tm_line t" "tm_line_len (hx421_term_write t bs) = tm_line_len t" "tm_echo (hx421_term_write t bs) = tm_echo t"
  by (induction t bs rule: hx421_term_write.induct) simp_all

section \<open>Draining\<close>

text \<open>A sink that keeps what it takes; it takes at most what it is offered.\<close>

definition honest :: "'p term_sink \<Rightarrow> bool" where
  "honest sink \<longleftrightarrow> (\<forall>p bs. fst (sink p bs) \<le> length bs)"

definition taking :: "'p term_sink \<Rightarrow> ('p \<times> byte list) term_sink" where
  "taking sink pl bs = (case sink (fst pl) bs of (k, p) \<Rightarrow> (k, (p, snd pl @ take k bs)))"

lemma drop_step:
  assumes ok: "tx_ok t" and k: "k \<le> tx_used t"
  shows "tx_ok (t\<lparr>tm_tail := u32 (tm_tail t + k)\<rparr>) \<and> tx_list (t\<lparr>tm_tail := u32 (tm_tail t + k)\<rparr>) = drop k (tx_list t)"
proof -
  let ?t = "t\<lparr>tm_tail := u32 (tm_tail t + k)\<rparr>"
  have used: "tx_used ?t = tx_used t - k" using ok k by (simp add: tx_used_def sub32_consume tx_ok_def)
  then have ok': "tx_ok ?t" using ok by (auto simp: tx_ok_def)
  have m: "u32 (tm_tail t + k) mod 1024 = (tm_tail t + k) mod 1024" by (simp add: u32_def mod_mod_cancel)
  have "tx_list ?t = drop k (tx_list t)"
  proof (rule nth_equalityI)
    show "length (tx_list ?t) = length (drop k (tx_list t))" using used by simp
    fix i assume "i < length (tx_list ?t)"
    then have i: "i < tx_used t - k" using used by simp
    have "(u32 (tm_tail t + k) + i) mod 1024 = (tm_tail t + (k + i)) mod 1024" using m by (metis mod_add_left_eq add.assoc)
    moreover have "k + i < tx_used t" using i by simp
    ultimately show "tx_list ?t ! i = drop k (tx_list t) ! i" using i used by (simp add: tx_list_def)
  qed
  then show ?thesis using ok' by blast
qed

lemma run_is_prefix:
  fixes t :: terminal
  assumes ok: "tx_ok t"
  defines "tail \<equiv> tm_tail t AND HX421_TERM_TX_MASK"
  defines "run \<equiv> min (tx_used t) (HX421_TERM_TX_SIZE - tail)"
  shows "seg tail run (tm_tx t) = take run (tx_list t)" and "run \<le> tx_used t" and "0 < tx_used t \<Longrightarrow> 0 < run"
proof -
  have tail: "tail = tm_tail t mod 1024" by (simp add: tail_def tx_index)
  have len: "length (tm_tx t) = 1024" using ok by (simp add: tx_ok_def)
  have b: "tail + run \<le> 1024" by (auto simp: run_def HX421_TERM_TX_SIZE_def tail)
  show "run \<le> tx_used t" by (simp add: run_def)
  have "tail < 1024" by (simp add: tail)
  then show "0 < tx_used t \<Longrightarrow> 0 < run" by (simp add: run_def HX421_TERM_TX_SIZE_def)
  show "seg tail run (tm_tx t) = take run (tx_list t)"
  proof (rule nth_equalityI)
    show "length (seg tail run (tm_tx t)) = length (take run (tx_list t))" using b len by (simp add: run_def)
    fix i assume "i < length (seg tail run (tm_tx t))"
    then have i: "i < run" by simp
    have "(tm_tail t + i) mod 1024 = tail + i" using i b by (simp add: tail mod_add_left_eq [symmetric, of "tm_tail t"])
    then show "seg tail run (tm_tx t) ! i = take run (tx_list t) ! i"
      using i b len by (simp add: nth_seg tx_list_def run_def)
  qed
qed

text \<open>
  What a drain may do with the pending bytes \<open>q\<close>: it offers the sink portions from the front, and goes
  on as long as the sink takes all it is offered, until nothing is pending.
\<close>

inductive sends :: "'p term_sink \<Rightarrow> byte list \<Rightarrow> 'p \<Rightarrow> nat \<Rightarrow> 'p \<Rightarrow> bool" for sink where
  nothing_left: "sends sink [] p 0 p"
| refused: "0 < m \<Longrightarrow> m \<le> length q \<Longrightarrow> sink p (take m q) = (j, p1) \<Longrightarrow> j < m \<Longrightarrow> sends sink q p j p1"
| accepted: "0 < m \<Longrightarrow> m \<le> length q \<Longrightarrow> sink p (take m q) = (m, p1) \<Longrightarrow> sends sink (drop m q) p1 k p2 \<Longrightarrow>
    sends sink q p (m + k) p2"

lemma drain_loop_spec:
  assumes "honest sink" and "tx_ok t" and "tx_used t \<le> k"
    and "drain_loop k (taking sink) sent t (p, out) = (sent', t', p', out')"
  shows "\<exists>n. tx_ok t' \<and> n \<le> tx_used t \<and> sends sink (tx_list t) p n p' \<and> out' = out @ take n (tx_list t) \<and> tx_list t' = drop n (tx_list t)"
  using assms(2-4)
proof (induction k arbitrary: sent t p out)
  case 0
  then have "tx_list t = []" by (simp add: tx_list_def)
  then show ?case using 0 by (intro exI [of _ 0]) (auto intro: nothing_left)
next
  case (Suc k)
  show ?case
  proof (cases "tx_used t = 0")
    case True
    then have "tx_list t = []" by (simp add: tx_list_def)
    then show ?thesis using True Suc.prems by (intro exI [of _ 0]) (auto intro: nothing_left)
  next
    case False
    let ?tail = "tm_tail t AND HX421_TERM_TX_MASK"
    define run where "run = min (tx_used t) (HX421_TERM_TX_SIZE - ?tail)"
    note r = run_is_prefix [OF Suc.prems(1), folded run_def]
    have run': "(if tx_used t < HX421_TERM_TX_SIZE - ?tail then tx_used t else HX421_TERM_TX_SIZE - ?tail) = run" by (simp add: run_def)
    obtain took p1 where s: "sink p (take run (tx_list t)) = (took, p1)" by fastforce
    have "took \<le> length (take run (tx_list t))" using assms(1) s unfolding honest_def by (metis fst_conv)
    then have took: "took \<le> run" "took \<le> tx_used t" using r(2) by simp_all
    have tk: "taking sink (p, out) (seg ?tail run (tm_tx t)) = (took, (p1, out @ take took (tx_list t)))"
      using s took r(1) by (simp add: taking_def min_def)
    let ?t1 = "t\<lparr>tm_tail := u32 (tm_tail t + took)\<rparr>"
    note d = drop_step [OF Suc.prems(1) took(2)]
    have e: "drain_loop (Suc k) (taking sink) sent t (p, out) =
        (if took < run then (u32 (sent + took), ?t1, (p1, out @ take took (tx_list t)))
         else drain_loop k (taking sink) (u32 (sent + took)) ?t1 (p1, out @ take took (tx_list t)))"
      using False by (simp add: run' tk Let_def del: split_paired_All)
    show ?thesis
    proof (cases "took < run")
      case True
      then have "sends sink (tx_list t) p took p1" using r False s by (intro refused [of run]) simp_all
      moreover have "t' = ?t1" "p' = p1" "out' = out @ take took (tx_list t)" using Suc.prems(3) e True by simp_all
      ultimately show ?thesis using d took by (intro exI [of _ took]) simp
    next
      case stay: False
      then have full: "took = run" using took by simp
      from stay have "drain_loop k (taking sink) (u32 (sent + took)) ?t1 (p1, out @ take took (tx_list t)) = (sent', t', p', out')"
        using Suc.prems(3) e by simp
      moreover have used: "tx_used ?t1 = tx_used t - run"
      proof -
        have "length (tx_list ?t1) = length (drop took (tx_list t))" using d by simp
        then show ?thesis by (simp add: full)
      qed
      moreover have "tx_used ?t1 \<le> k" unfolding used using Suc.prems(2) r(3) False by linarith
      ultimately obtain n where n: "tx_ok t'" "n \<le> tx_used t - run" "sends sink (tx_list ?t1) p1 n p'"
        "out' = (out @ take took (tx_list t)) @ take n (tx_list ?t1)" "tx_list t' = drop n (tx_list ?t1)"
        using Suc.IH [OF conjunct1 [OF d]] by (metis (no_types))
      have list1: "tx_list ?t1 = drop run (tx_list t)" using d full by simp
      have "sends sink (tx_list t) p (run + n) p'"
        using r False s full n(3) unfolding list1 by (intro accepted [of run]) simp_all
      moreover have "run + n \<le> tx_used t" using n(2) r(2) by simp
      moreover have "out' = out @ take (run + n) (tx_list t)" using n(4) unfolding list1 by (simp add: full take_add)
      moreover have "tx_list t' = drop (run + n) (tx_list t)" using n(5) unfolding list1 by (simp add: add.commute)
      ultimately show ?thesis using n(1) by blast
    qed
  qed
qed

lemma drain_loop_dropped: "drain_loop k sink sent t p = (sent', t', p') \<Longrightarrow> tm_dropped t' = tm_dropped t"
proof (induction k arbitrary: sent t p)
  case (Suc k)
  then show ?case by (fastforce simp: Let_def split: if_splits prod.splits)
qed simp

text \<open>What the host does with the terminal: it prints and it drains.\<close>

datatype term_op = Print "byte list" | Drain

fun term_run :: "'p term_sink \<Rightarrow> term_op list \<Rightarrow> terminal \<Rightarrow> 'p \<Rightarrow> terminal \<times> 'p" where
  "term_run sink [] t p = (t, p)"
| "term_run sink (Print bs # ops) t p = term_run sink ops (hx421_term_write t bs) p"
| "term_run sink (Drain # ops) t p = (case hx421_term_drain sink t p of (_, t1, p1) \<Rightarrow> term_run sink ops t1 p1)"

fun printed :: "term_op list \<Rightarrow> byte list" where
  "printed [] = []"
| "printed (Print bs # ops) = bs @ printed ops"
| "printed (Drain # ops) = printed ops"

text \<open>
  The queue the terminal stands for, of at most 1024 pending bytes \<open>q\<close> besides the bytes \<open>out\<close> that were
  sent and the number \<open>lost\<close> of bytes that were not kept.
\<close>

inductive queue_run :: "'p term_sink \<Rightarrow> term_op list \<Rightarrow> byte list \<Rightarrow> byte list \<Rightarrow> nat \<Rightarrow> 'p \<Rightarrow>
    byte list \<Rightarrow> byte list \<Rightarrow> nat \<Rightarrow> 'p \<Rightarrow> bool" for sink where
  done_all: "queue_run sink [] q out lost p q out lost p"
| prints: "queue_run sink ops (q @ take (1024 - length q) bs) out (lost + (length bs - (1024 - length q))) p q' out' lost' p' \<Longrightarrow>
    queue_run sink (Print bs # ops) q out lost p q' out' lost' p'"
| drains: "sends sink q p k p1 \<Longrightarrow> queue_run sink ops (drop k q) (out @ take k q) lost p1 q' out' lost' p' \<Longrightarrow>
    queue_run sink (Drain # ops) q out lost p q' out' lost' p'"

definition counts :: "terminal \<Rightarrow> nat \<Rightarrow> bool" where
  "counts t lost \<longleftrightarrow> tm_dropped t = u32 lost"

lemma u32_add_cong: "u32 x = u32 y \<Longrightarrow> u32 (x + z) = u32 (y + z)"
  unfolding u32_def by (metis mod_add_left_eq)

lemma write_dropped: "tm_dropped t < 4294967296 \<Longrightarrow> tm_dropped (hx421_term_write t bs) < 4294967296"
  by (induction t bs rule: hx421_term_write.induct) (simp_all add: u32_def)

lemma write_counts:
  assumes "tx_ok t" and "counts t lost"
  shows "counts (hx421_term_write t bs) (lost + (length bs - (1024 - tx_used t)))"
proof -
  have "tm_dropped t = u32 lost" using assms(2) by (simp add: counts_def)
  then have "u32 (tm_dropped t + n) = u32 (lost + n)" for n by (intro u32_add_cong) (simp add: u32_def)
  moreover have "tm_dropped (hx421_term_write t bs) < 4294967296"
    using assms(2) by (intro write_dropped) (simp add: counts_def)
  then have "u32 (tm_dropped (hx421_term_write t bs)) = tm_dropped (hx421_term_write t bs)" by (simp add: u32_def)
  ultimately show ?thesis using write_spec [OF assms(1), of bs] by (simp add: counts_def)
qed

lemma term_run_queue:
  assumes "honest sink"
  shows "tx_ok t \<Longrightarrow> counts t lost \<Longrightarrow> term_run (taking sink) ops t (p, out) = (t', p', out') \<Longrightarrow>
    \<exists>lost'. queue_run sink ops (tx_list t) out lost p (tx_list t') out' lost' p' \<and> tx_ok t' \<and> counts t' lost'"
proof (induction ops arbitrary: t p out lost)
  case Nil
  then show ?case by (auto intro: done_all)
next
  case (Cons oper ops)
  show ?case
  proof (cases oper)
    case (Print bs)
    note w = write_spec [OF Cons.prems(1), of bs]
    obtain lost' where "queue_run sink ops (tx_list (hx421_term_write t bs)) out (lost + (length bs - (1024 - tx_used t))) p
        (tx_list t') out' lost' p'" "tx_ok t'" "counts t' lost'"
      using Cons.IH [OF _ write_counts [OF Cons.prems(1,2)], of bs p out] w Cons.prems(3) Print by auto
    then have "queue_run sink (Print bs # ops) (tx_list t) out lost p (tx_list t') out' lost' p'"
      using w by (intro prints) simp
    then show ?thesis using \<open>tx_ok t'\<close> \<open>counts t' lost'\<close> Print by blast
  next
    case Drain
    obtain k t1 p1 out1 where d: "hx421_term_drain (taking sink) t (p, out) = (k, t1, p1, out1)" by (metis prod_cases4)
    have "counts t1 lost" using drain_loop_dropped [OF d [unfolded hx421_term_drain_def]] Cons.prems(2) by (simp add: counts_def)
    moreover obtain n where n: "tx_ok t1" "sends sink (tx_list t) p n p1" "out1 = out @ take n (tx_list t)" "tx_list t1 = drop n (tx_list t)"
      using drain_loop_spec [OF assms Cons.prems(1) order_refl d [unfolded hx421_term_drain_def]] by blast
    moreover have "term_run (taking sink) ops t1 (p1, out1) = (t', p', out')" using Cons.prems(3) d Drain by simp
    ultimately obtain lost' where "queue_run sink ops (tx_list t1) out1 lost p1 (tx_list t') out' lost' p'" "tx_ok t'" "counts t' lost'"
      using Cons.IH by blast
    then show ?thesis using n Drain by (auto intro: drains)
  qed
qed

lemma init_state: "tx_ok hx421_term_init \<and> tx_list hx421_term_init = [] \<and> counts hx421_term_init 0"
  by (simp add: counts_def tx_ok_def tx_list_def tx_used_def hx421_term_init_def sub32_def u32_def HX421_TERM_TX_SIZE_def)

text \<open>
  C35: The terminal's output is exactly a queue of 1024 bytes: a print appends the bytes there is room
  for and drops the rest, and a drain hands the sink the pending bytes from the front, stopping only
  when none is left or when a call of the sink took less than it was offered.  Whatever is printed,
  however often it is drained and however little the sink takes, the bytes the sink got, the pending
  bytes and the count of the dropped ones (modulo \<open>2\<^sup>3\<^sup>2\<close>) are those of this queue.
\<close>

theorem term_output_in_order:
  assumes "honest sink" and "term_run (taking sink) ops hx421_term_init (p, []) = (t, p', out)"
  shows "\<exists>lost. queue_run sink ops [] [] 0 p (tx_list t) out lost p' \<and>
    tm_dropped t = lost mod 4294967296 \<and> hx421_term_pending t = length (tx_list t) \<and> length (tx_list t) \<le> 1024"
proof -
  obtain lost where "queue_run sink ops (tx_list hx421_term_init) [] 0 p (tx_list t) out lost p'" "tx_ok t" "counts t lost"
    using term_run_queue [OF assms(1) _ _ assms(2)] init_state by blast
  then show ?thesis using init_state by (auto simp: counts_def u32_def tx_ok_def hx421_term_pending_def)
qed

theorem term_output_in_order_witness:
  "\<exists>t q out. term_run (taking (\<lambda>p bs. (0, p))) [Print [1, 2], Drain] hx421_term_init ((), []) = (t, q, out) \<and>
     length (tx_list t) \<le> 1024"
proof -
  obtain t q out where r: "term_run (taking (\<lambda>p bs. (0, p))) [Print [1, 2], Drain] hx421_term_init ((), []) = (t, q, out)"
    by (metis prod_cases3)
  have "honest (\<lambda>p bs. (0, p))" by (simp add: honest_def)
  from term_output_in_order [OF this r] show ?thesis using r by blast
qed

section \<open>The line editor\<close>

text \<open>What a typed byte does to the line on screen, and the lines that a stream of bytes finishes.\<close>

definition edit :: "byte list \<Rightarrow> byte \<Rightarrow> byte list" where
  "edit line c = (if c = 8 \<or> c = 127 then butlast line else if c = 21 then []
     else if 32 \<le> c \<and> length line < 127 then line @ [c] else line)"

fun finished :: "byte list \<Rightarrow> byte list \<Rightarrow> byte list list" where
  "finished line [] = []"
| "finished line (c # cs) = (if c = 13 \<or> c = 10 then line # finished [] cs else finished (edit line c) cs)"

text \<open>
  The words of a line, when at most \<open>k\<close> are wanted: blanks (spaces and tabs) separate the words, and the
  \<open>k\<close>-th word is whatever is left of the line after the blanks before it.
\<close>

inductive argv_of :: "nat \<Rightarrow> byte list \<Rightarrow> byte list list \<Rightarrow> bool" where
  no_word: "set bs \<subseteq> {32, 9} \<Longrightarrow> argv_of k bs []"
| last_word: "set bs \<subseteq> {32, 9} \<Longrightarrow> c \<notin> {32, 9} \<Longrightarrow> argv_of 1 (bs @ c # cs) [c # cs]"
| next_word: "set bs \<subseteq> {32, 9} \<Longrightarrow> word \<noteq> [] \<Longrightarrow> set word \<inter> {32, 9} = {} \<Longrightarrow> sep \<in> {32, 9} \<Longrightarrow>
    argv_of (Suc k) (sep # line) ws \<Longrightarrow> argv_of (Suc (Suc k)) (bs @ word @ sep # line) (word # ws)"
| only_word: "set bs \<subseteq> {32, 9} \<Longrightarrow> word \<noteq> [] \<Longrightarrow> set word \<inter> {32, 9} = {} \<Longrightarrow> argv_of (Suc (Suc k)) (bs @ word) [word]"

lemma split_args_words: "argv_of (Suc k) line (split_args (Suc k) line)"
proof (induction k arbitrary: line)
  case 0
  let ?bs = "takeWhile blank line"
  have bs: "set ?bs \<subseteq> {32, 9}" by (auto simp: blank_def dest: set_takeWhileD)
  have l: "line = ?bs @ dropWhile blank line" by simp
  show ?case
  proof (cases "dropWhile blank line")
    case Nil
    then have "line = ?bs" using l by (metis append_Nil2)
    then have "argv_of (Suc 0) line []" using no_word [OF bs] by metis
    then show ?thesis by (simp only: split_args.simps Nil list.case)
  next
    case (Cons c cs)
    then have "\<not> blank c" by (simp add: dropWhile_eq_Cons_conv)
    then have "argv_of 1 (?bs @ c # cs) [c # cs]" using bs by (intro last_word) (simp_all add: blank_def)
    then show ?thesis using Cons l by simp
  qed
next
  case (Suc k)
  let ?bs = "takeWhile blank line"
  have bs: "set ?bs \<subseteq> {32, 9}" by (auto simp: blank_def dest: set_takeWhileD)
  have l: "line = ?bs @ dropWhile blank line" by simp
  show ?case
  proof (cases "dropWhile blank line")
    case Nil
    then have "line = ?bs" using l by (metis append_Nil2)
    then have "argv_of (Suc (Suc k)) line []" using no_word [OF bs] by metis
    then show ?thesis by (simp only: split_args.simps Nil list.case)
  next
    case (Cons c cs)
    let ?w = "takeWhile (Not \<circ> blank) (c # cs)" and ?r = "dropWhile (Not \<circ> blank) (c # cs)"
    have "\<not> blank c" using Cons by (simp add: dropWhile_eq_Cons_conv)
    then have w: "?w \<noteq> []" "set ?w \<inter> {32, 9} = {}" by (auto simp: blank_def dest: set_takeWhileD)
    have line: "line = ?bs @ ?w @ ?r" using l Cons by (metis takeWhile_dropWhile_id)
    have s: "split_args (Suc (Suc k)) line = ?w # split_args (Suc k) ?r" using Cons by simp
    show ?thesis
    proof (cases ?r)
      case Nil
      then have "argv_of (Suc (Suc k)) line [?w]" using only_word [OF bs w] line by (metis append_Nil2)
      then show ?thesis unfolding s Nil by simp
    next
      case r: (Cons sep rest)
      have "?r \<noteq> []" unfolding r by simp
      from hd_dropWhile [OF this] have "sep \<in> {32, 9}" unfolding r by (auto simp: blank_def)
      moreover have "argv_of (Suc k) (sep # rest) (split_args (Suc k) ?r)" using Suc [of ?r] r by simp
      ultimately have "argv_of (Suc (Suc k)) (?bs @ ?w @ sep # rest) (?w # split_args (Suc k) ?r)"
        by (intro next_word bs w)
      then show ?thesis unfolding s using line r by simp
    qed
  qed
qed

lemma split_args_none: "split_args (Suc k) line = [] \<longleftrightarrow> set line \<subseteq> {32, 9}"
proof -
  have "split_args (Suc k) line = [] \<longleftrightarrow> dropWhile blank line = []" by (cases "dropWhile blank line") (simp_all del: dropWhile_eq_Nil_conv)
  then show ?thesis by (auto simp: blank_def)
qed

text \<open>A handler that answers with some text and notes the command.\<close>

definition noting :: "(byte list list \<Rightarrow> byte list) \<Rightarrow> byte list list list term_cmd" where
  "noting reply args t p = (hx421_term_write t (reply args), p @ [args])"

definition line_ok :: "terminal \<Rightarrow> byte list \<Rightarrow> bool" where
  "line_ok t line \<longleftrightarrow> length (tm_line t) = 128 \<and> tm_line_len t = length line \<and> length line \<le> 127 \<and> 0 \<notin> set line \<and> take (length line) (tm_line t) = line"

lemma echo_fields [simp]: "tm_line (echo bs t) = tm_line t" "tm_line_len (echo bs t) = tm_line_len t"
  by (simp_all add: echo_def)

lemma kill_line_fields: "tm_line (kill_line n t) = tm_line t" "tm_line_len (kill_line n t) = (if n = 0 then tm_line_len t else 0)"
  by (induction n arbitrary: t) simp_all

lemma line_ok_cong: "tm_line t = tm_line t' \<Longrightarrow> tm_line_len t = tm_line_len t' \<Longrightarrow> line_ok t line = line_ok t' line"
  by (simp add: line_ok_def)

lemma rx_edit:
  assumes ok: "line_ok t line" and c: "c \<noteq> 13" "c \<noteq> 10"
  shows "line_ok (fst (hx421_term_rx cmd c t p)) (edit line c)" and "snd (hx421_term_rx cmd c t p) = p"
proof -
  have len: "tm_line_len t = length line" "length (tm_line t) = 128" "length line \<le> 127" "0 \<notin> set line" "take (length line) (tm_line t) = line"
    using ok by (simp_all add: line_ok_def)
  show "snd (hx421_term_rx cmd c t p) = p" using c by (simp add: hx421_term_rx_def)
  consider "c = 8 \<or> c = 127" | "c = 21" | "c \<notin> {8, 127, 21}" by blast
  then show "line_ok (fst (hx421_term_rx cmd c t p)) (edit line c)"
  proof cases
    case 1
    show ?thesis
    proof (cases line rule: rev_cases)
      case Nil
      then show ?thesis using 1 c ok len by (simp add: hx421_term_rx_def edit_def)
    next
      case (snoc xs x)
      have "take (length xs) (tm_line t) = xs" using len(5) snoc by (metis append_eq_conv_conj length_append_singleton take_Suc take_butlast butlast_snoc lessI less_or_eq_imp_le take_take min.absorb1 length_take)
      then show ?thesis using 1 c len snoc by (auto simp: hx421_term_rx_def edit_def line_ok_def)
    qed
  next
    case 2
    then show ?thesis using len by (simp add: hx421_term_rx_def edit_def line_ok_def kill_line_fields)
  next
    case 3
    show ?thesis
    proof (cases "32 \<le> c \<and> length line < 127")
      case True
      then have "c \<noteq> 0" by auto
      have "take (Suc (length line)) ((tm_line t)[length line := c]) = line @ [c]"
        using len True by (simp add: take_Suc_conv_app_nth)
      then show ?thesis using 3 c len True \<open>c \<noteq> 0\<close> by (simp add: hx421_term_rx_def edit_def line_ok_def HX421_TERM_LINE_MAX_def)
    next
      case False
      then have "hx421_term_rx cmd c t p = (t, p)" using 3 c len by (auto simp: hx421_term_rx_def HX421_TERM_LINE_MAX_def)
      then show ?thesis using 3 False ok by (auto simp: edit_def)
    qed
  qed
qed

lemma line_string:
  assumes "line_ok t line"
  shows "takeWhile (\<lambda>c. c \<noteq> 0) ((tm_line t)[length line := 0]) = line"
proof -
  have len: "length (tm_line t) = 128" "length line \<le> 127" "0 \<notin> set line" "take (length line) (tm_line t) = line"
    using assms by (simp_all add: line_ok_def)
  then have "(tm_line t)[length line := 0] = line @ 0 # drop (Suc (length line)) (tm_line t)" by (simp add: upd_conv_take_nth_drop)
  moreover have "\<forall>c \<in> set line. c \<noteq> 0" using len(3) by blast
  ultimately show ?thesis by (simp add: takeWhile_append2)
qed

lemma rx_return:
  assumes ok: "line_ok t line" and c: "c = 13 \<or> c = 10"
  shows "line_ok (fst (hx421_term_rx (noting reply) c t p)) []"
    and "snd (hx421_term_rx (noting reply) c t p) = p @ (if split_args 8 line = [] then [] else [split_args 8 line])"
proof -
  have len: "tm_line_len t = length line" "length (tm_line t) = 128" using ok by (simp_all add: line_ok_def)
  show "line_ok (fst (hx421_term_rx (noting reply) c t p)) []"
    using c len by (auto simp: hx421_term_rx_def line_ok_def hx421_term_prompt_def hx421_term_puts_def dispatch_def noting_def Let_def split: prod.splits if_splits)
  show "snd (hx421_term_rx (noting reply) c t p) = p @ (if split_args 8 line = [] then [] else [split_args 8 line])"
  proof (cases "line = []")
    case True
    then show ?thesis using c len by (auto simp: hx421_term_rx_def numeral_eq_Suc)
  next
    case False
    let ?t = "(echo [13, 10] t)\<lparr>tm_line := (tm_line t)[length line := 0]\<rparr>"
    have "dispatch (noting reply) ?t p = (if split_args 8 line = [] then (?t, p) else noting reply (split_args 8 line) ?t p)"
      by (simp add: dispatch_def line_string [OF ok] HX421_TERM_MAX_ARGS_def)
    then show ?thesis using c len False by (auto simp: hx421_term_rx_def noting_def Let_def)
  qed
qed

fun rx_run :: "'p term_cmd \<Rightarrow> byte list \<Rightarrow> terminal \<Rightarrow> 'p \<Rightarrow> terminal \<times> 'p" where
  "rx_run cmd [] t p = (t, p)"
| "rx_run cmd (c # cs) t p = (case hx421_term_rx cmd c t p of (t1, p1) \<Rightarrow> rx_run cmd cs t1 p1)"

lemma rx_run_ok:
  "line_ok t line \<Longrightarrow> snd (rx_run (noting reply) cs t p) = p @ map (split_args 8) (filter (\<lambda>l. split_args 8 l \<noteq> []) (finished line cs)) \<and> (\<exists>line'. line_ok (fst (rx_run (noting reply) cs t p)) line')"
proof (induction cs arbitrary: t line p)
  case (Cons c cs)
  obtain t1 p1 where r: "hx421_term_rx (noting reply) c t p = (t1, p1)" by fastforce
  show ?case
  proof (cases "c = 13 \<or> c = 10")
    case True
    have "line_ok t1 []" "p1 = p @ (if split_args 8 line = [] then [] else [split_args 8 line])"
      using rx_return [OF Cons.prems True, of reply p] r by simp_all
    then show ?thesis using Cons.IH [of t1 "[]" p1] r True by auto
  next
    case False
    then have "line_ok t1 (edit line c)" "p1 = p" using rx_edit [OF Cons.prems, of c "noting reply" p] r by auto
    then show ?thesis using Cons.IH [of t1 "edit line c" p1] r False by auto
  qed
qed auto


text \<open>The eighth word takes the rest of the line with it.\<close>

lemma eighth_word_uncut: "split_args 1 ([97] @ 32 # rest) = [97 # 32 # rest]"
  by (simp add: blank_def)

end
