(* ===== verification/Stream_Wav.thy ===== *)
theory Stream_Wav
  imports Wav_Spec
begin

text \<open>
  \<^verbatim>\<open>firmware/audio/hx421_wav.c\<close>: the header of a WAV file whose samples are to be streamed, read from
  the first block of the file by the parser of the engine, with the 32-bit \<^verbatim>\<open>size_t\<close> of the
  microcontroller.  The structure is filled only on success;
  \<^term>\<open>None\<close> as the whole answer means that the parser does not return.
\<close>

section \<open>The header\<close>

record stream_wav_info =
  sw_channels :: nat
  sw_bits :: nat
  sw_sample_rate :: nat
  sw_data_off :: nat
  sw_data_bytes :: nat

datatype stream_wav_result = HX421_WAV_OK | HX421_WAV_ERR_PARSE | HX421_WAV_ERR_HDR_SPAN

text \<open>The parser reports success only after it has seen the data chunk, so the pointer is set then.\<close>

definition hx421_wav_parse_header :: "byte list \<Rightarrow> (stream_wav_result \<times> stream_wav_info option) option" where
  "hx421_wav_parse_header hdr =
     (case wav_parse 32 hdr of
        None \<Rightarrow> None
      | Some (r, wi) \<Rightarrow>
          Some (if r \<noteq> WAV_OK then (if r = WAV_ERR_NO_DATA then HX421_WAV_ERR_HDR_SPAN else HX421_WAV_ERR_PARSE, None)
                else (HX421_WAV_OK,
                      Some \<lparr>sw_channels = wi_channels wi, sw_bits = wi_bits wi, sw_sample_rate = wi_sample_rate wi,
                            sw_data_off = (case wi_data wi of Some (_, off) \<Rightarrow> u32 off | None \<Rightarrow> 0),
                            sw_data_bytes = wi_data_bytes wi\<rparr>)))"

definition hx421_wav_is_streamable :: "stream_wav_info \<Rightarrow> bool" where
  "hx421_wav_is_streamable info \<longleftrightarrow> sw_bits info = 16 \<and> sw_channels info = 2"

section \<open>What a block of the file tells\<close>

text \<open>
  The length that the header of a streamed file yields is not the length of its samples but the
  part of them inside the block that was read: for every file of the writer, cut after any number of
  bytes from the end of its header on, the format and the place of the samples are right and the file
  counts as streamable, but the length is what the block holds after the 44 bytes of the header.
\<close>

theorem stream_header_cuts_data:
  assumes "rate < 4294967296" and "4 * length (concat gss) + 52 < 4294967296"
    and "44 \<le> n" and "n \<le> 44 + 4 * length (concat gss)"
  shows "\<exists>info. hx421_wav_parse_header (take n (wc_file (wav_close (foldl write_all (wav_open rate) gss)))) = Some (HX421_WAV_OK, Some info) \<and>
    hx421_wav_is_streamable info \<and> sw_sample_rate info = rate \<and> sw_data_off info = 44 \<and> sw_data_bytes info = n - 44"
proof -
  let ?fs = "concat gss"
  define ds where "ds = take (n - 44) (pcm_bytes ?fs)"
  have "written rate ([] @ ?fs) (foldl write_all (wav_open rate) gss)" by (rule write_many_written [OF wav_open_written])
  then have "wc_file (wav_close (foldl write_all (wav_open rate) gss)) = wav_header rate (4 * length ?fs) @ pcm_bytes ?fs"
    using wav_close_file [of rate ?fs] assms(2) by simp
  then have t: "take n (wc_file (wav_close (foldl write_all (wav_open rate) gss))) = wav_header rate (4 * length ?fs) @ ds"
    using assms(3) by (simp add: ds_def)
  have "length ds \<le> 4 * length ?fs" "8 + 4 * length ?fs < 4294967296" "even (4 * length ?fs)" "52 + 4 * length ?fs < 2 ^ 32"
    using assms(2) by (simp_all add: ds_def)
  from wav_parse_written [OF assms(1) this] have p: "wav_parse 32 (wav_header rate (4 * length ?fs) @ ds) =
      Some (WAV_OK, \<lparr>wi_format = 1, wi_channels = 2, wi_sample_rate = rate, wi_bits = 16,
        wi_data = Some (wav_header rate (4 * length ?fs) @ ds, 44), wi_data_bytes = length ds\<rparr>)" .
  have "length ds = n - 44" using assms(4) by (simp add: ds_def)
  then show ?thesis unfolding t hx421_wav_parse_header_def p by (simp add: hx421_wav_is_streamable_def)
qed

theorem stream_header_cuts_data_witness:
  "\<exists>info. hx421_wav_parse_header (take 48 (wc_file (wav_close (foldl write_all (wav_open 44100) [[(1, - 2), (3, 4)], [(5, 6)]])))) =
     Some (HX421_WAV_OK, Some info) \<and> sw_data_bytes info = 4"
  using stream_header_cuts_data [of 44100 "[[(1, - 2), (3, 4)], [(5, 6)]]" 48] by auto

end
