(* ===== verification/Command.thy ===== *)
theory Command
  imports Service_Props
begin

text \<open>
  \<^verbatim>\<open>engine/hx421_cmd.c\<close>: the command mailbox of the console, served over the model of the sound service.
  The window is a function from offsets to bytes.  What the allocator answers is a record of its
  outcomes; \<^term>\<open>None\<close> stands for a call that does not return or for a path without an end in the
  window, which the code would read past it.
\<close>

section \<open>The mailbox\<close>

definition HX421_CMD_CMD :: nat where "HX421_CMD_CMD = 0x7000"
definition HX421_CMD_ARG :: nat where "HX421_CMD_ARG = 0x7001"
definition HX421_CMD_GAIN :: nat where "HX421_CMD_GAIN = 0x7002"
definition HX421_CMD_PAN :: nat where "HX421_CMD_PAN = 0x7003"
definition HX421_CMD_PATH :: nat where "HX421_CMD_PATH = 0x7010"
definition HX421_CMD_DOORBELL :: nat where "HX421_CMD_DOORBELL = 0x70FF"
definition HX421_CMD_FFT :: nat where "HX421_CMD_FFT = 0x7900"
definition HX421_CMD_FFT_N :: nat where "HX421_CMD_FFT_N = 16"
definition HX421_CMD_STATUS :: nat where "HX421_CMD_STATUS = 0x7910"
definition HX421_CMD_RESULT :: nat where "HX421_CMD_RESULT = 0x7911"
definition HX421_CMD_SFX_SLOTS :: nat where "HX421_CMD_SFX_SLOTS = 8"

definition HX421_OP_LOAD_SFX :: byte where "HX421_OP_LOAD_SFX = 1"
definition HX421_OP_PRIME_STREAM :: byte where "HX421_OP_PRIME_STREAM = 2"
definition HX421_OP_TRIGGER_SFX :: byte where "HX421_OP_TRIGGER_SFX = 3"
definition HX421_OP_STOP_MUSIC :: byte where "HX421_OP_STOP_MUSIC = 4"
definition HX421_OP_STOP_ALL :: byte where "HX421_OP_STOP_ALL = 5"

type_synonym cmd_window = "nat \<Rightarrow> byte"

record mailbox =
  cm_sfx :: "obj_handle list"
  cm_nsfx :: nat
  cm_music :: voice_handle

record malloc_outcomes =
  mo_first :: bool
  mo_grow :: "nat \<Rightarrow> bool"
  mo_mono :: bool
  mo_voice :: bool

definition hx421_cmd_init :: mailbox where
  "hx421_cmd_init = \<lparr>cm_sfx = replicate HX421_CMD_SFX_SLOTS 0, cm_nsfx = 0, cm_music = 0\<rparr>"

definition q15_gain :: "byte \<Rightarrow> int" where "q15_gain b = cdiv (int (unat b) * 32767) 255"
definition q15_pan :: "byte \<Rightarrow> int" where "q15_pan b = cdiv ((int (unat b) - 128) * 32767) 128"

text \<open>The string at an offset of the 64 KB window.\<close>

definition path_at :: "cmd_window \<Rightarrow> nat \<Rightarrow> string option" where
  "path_at wd off =
     (let bs = map wd [off..<65536]; s = takeWhile (\<lambda>b. b \<noteq> 0) bs
      in if length s = length bs then None else Some (map (\<lambda>b. char_of (unat b)) s))"

section \<open>Commands\<close>

definition load_op ::
    "('f, 'h) file_reader \<Rightarrow> malloc_outcomes \<Rightarrow> mailbox \<Rightarrow> ('f, 'h) service \<Rightarrow> cmd_window \<Rightarrow> (mailbox \<times> ('f, 'h) service \<times> cmd_window) option" where
  "load_op rd mo c s wd =
     (case path_at wd HX421_CMD_PATH of
        None \<Rightarrow> None
      | Some path \<Rightarrow>
          (case hxa_load_sfx_wav rd (mo_first mo) (mo_grow mo) (mo_mono mo) s path of
             None \<Rightarrow> None
           | Some (h, s1) \<Rightarrow>
               if h \<noteq> 0 \<and> cm_nsfx c < HX421_CMD_SFX_SLOTS
               then Some (c\<lparr>cm_sfx := (cm_sfx c)[cm_nsfx c := h], cm_nsfx := cm_nsfx c + 1\<rparr>, s1,
                          wd(HX421_CMD_STATUS := of_nat (cm_nsfx c)))
               else Some (c, s1, wd(HX421_CMD_RESULT := 1))))"

definition stop_music :: "('f, 'h) file_reader \<Rightarrow> mailbox \<Rightarrow> ('f, 'h) service \<Rightarrow> ('f, 'h) service" where
  "stop_music rd c s = (if cm_music c \<noteq> 0 then hxa_stop_voice rd s (cm_music c) else s)"

definition prime_op ::
    "('f, 'h) file_reader \<Rightarrow> malloc_outcomes \<Rightarrow> mailbox \<Rightarrow> ('f, 'h) service \<Rightarrow> cmd_window \<Rightarrow> (mailbox \<times> ('f, 'h) service \<times> cmd_window) option" where
  "prime_op rd mo c s wd =
     (case path_at wd HX421_CMD_PATH of
        None \<Rightarrow> None
      | Some path \<Rightarrow>
          (case hxa_play_stream_wav rd (mo_voice mo) (stop_music rd c s) path of
             None \<Rightarrow> None
           | Some (v, s1) \<Rightarrow> Some (c\<lparr>cm_music := v\<rparr>, s1, if v = 0 then wd(HX421_CMD_RESULT := 1) else wd)))"

definition trigger_op ::
    "('f, 'h) file_reader \<Rightarrow> byte \<Rightarrow> mailbox \<Rightarrow> ('f, 'h) service \<Rightarrow> cmd_window \<Rightarrow> mailbox \<times> ('f, 'h) service \<times> cmd_window" where
  "trigger_op rd arg c s wd =
     (if unat arg < cm_nsfx c \<and> cm_sfx c ! unat arg \<noteq> 0
      then (c, snd (hxa_trigger_sfx rd s (cm_sfx c ! unat arg) (q15_gain (wd HX421_CMD_GAIN)) (q15_pan (wd HX421_CMD_PAN))), wd)
      else (c, s, wd(HX421_CMD_RESULT := 1)))"

definition hx421_cmd_poll ::
    "('f, 'h) file_reader \<Rightarrow> malloc_outcomes \<Rightarrow> mailbox \<Rightarrow> ('f, 'h) service \<Rightarrow> cmd_window \<Rightarrow>
     (bool \<times> mailbox \<times> ('f, 'h) service \<times> cmd_window) option" where
  "hx421_cmd_poll rd mo c s wd =
     (if wd HX421_CMD_DOORBELL = 0 then Some (False, c, s, wd)
      else let opc = wd HX421_CMD_CMD;
               arg = wd HX421_CMD_ARG;
               wd1 = wd(HX421_CMD_RESULT := 0)
           in case (if opc = HX421_OP_LOAD_SFX then load_op rd mo c s wd1
                    else if opc = HX421_OP_PRIME_STREAM then prime_op rd mo c s wd1
                    else if opc = HX421_OP_TRIGGER_SFX then Some (trigger_op rd arg c s wd1)
                    else if opc = HX421_OP_STOP_MUSIC then Some (c\<lparr>cm_music := 0\<rparr>, stop_music rd c s, wd1)
                    else if opc = HX421_OP_STOP_ALL then Some (c\<lparr>cm_music := 0\<rparr>, stop_music rd c s, wd1)
                    else Some (c, s, wd1(HX421_CMD_RESULT := 2))) of
                None \<Rightarrow> None
              | Some (c1, s1, wd2) \<Rightarrow> Some (True, c1, s1, wd2(HX421_CMD_DOORBELL := 0)))"

definition hx421_cmd_publish_fft :: "('f, 'h) service \<Rightarrow> cmd_window \<Rightarrow> ('f, 'h) service \<times> cmd_window" where
  "hx421_cmd_publish_fft s wd =
     (case hxa_fft_bands s HX421_CMD_FFT_N of
        (bands, s1) \<Rightarrow>
          (s1, foldl (\<lambda>w i. w(HX421_CMD_FFT + i := if i < length bands then of_nat (if 255 < bands ! i then 255 else bands ! i) else 0))
                 wd [0..<HX421_CMD_FFT_N]))"

section \<open>The sounds of the slots\<close>

text \<open>What loading a WAV file puts into the pool, and the sound of the file that a path names now.\<close>

definition file_sfx :: "byte list \<Rightarrow> byte list" where
  "file_sfx raw =
     (case wav_parse 64 raw of
        Some (_, info) \<Rightarrow> mono_bytes (wav_to_mono_pcm16 info (wi_data_bytes info div (wi_channels info * (wi_bits info div 8))))
      | None \<Rightarrow> [])"

definition file_at :: "('f, 'h) file_reader \<Rightarrow> malloc_outcomes \<Rightarrow> ('f, 'h) service \<Rightarrow> string \<Rightarrow> byte list option" where
  "file_at rd mo s path =
     (case slurp_file rd (mo_first mo) (mo_grow mo) path (aa_ctx (hx_arbiter s)) of Some (Some raw, _) \<Rightarrow> Some raw | _ \<Rightarrow> None)"

definition small_files :: "('f, 'h) file_reader \<Rightarrow> malloc_outcomes \<Rightarrow> ('f, 'h) service \<Rightarrow> bool" where
  "small_files rd mo s \<longleftrightarrow> (\<forall>path raw. file_at rd mo s path = Some raw \<longrightarrow> length raw < 2147479552)"

lemma loaded_wav:
  assumes ok: "service_ok rd n s" and ld: "hxa_load_sfx_wav rd (mo_first mo) (mo_grow mo) (mo_mono mo) s path = Some (h, s')" and h: "h \<noteq> 0"
    and sz: "small_files rd mo s"
  shows "\<exists>raw. file_at rd mo s path = Some raw \<and> svc_sound s' h (file_sfx raw) \<and> even (length (file_sfx raw))"
proof -
  obtain buf c where sl: "slurp_file rd (mo_first mo) (mo_grow mo) path (aa_ctx (hx_arbiter s)) = Some (buf, c)"
    using ld by (auto simp: hxa_load_sfx_wav_def split: option.splits)
  obtain fs where c: "c = (aa_ctx (hx_arbiter s))\<lparr>sv_fs := fs\<rparr>" using slurp_ctx [OF sl] by blast
  let ?s1 = "in_ctx (\<lambda>c. c\<lparr>sv_fs := fs\<rparr>) s"
  have e: "s\<lparr>hx_arbiter := (hx_arbiter s)\<lparr>aa_ctx := c\<rparr>\<rparr> = ?s1" by (simp add: in_ctx_def c)
  obtain raw where f: "buf = Some raw" using ld h by (auto simp: hxa_load_sfx_wav_def sl Let_def split: option.splits)
  obtain info where i: "wav_parse 64 raw = Some (WAV_OK, info)"
    using ld h by (auto simp: hxa_load_sfx_wav_def sl f Let_def split: option.splits prod.splits if_splits)
  define k where "k = wi_data_bytes info div (wi_channels info * (wi_bits info div 8))"
  define mono where "mono = wav_to_mono_pcm16 info k"
  obtain g p where gp: "stage_pcm (aa_pool (hx_arbiter ?s1)) (mono_bytes mono) (wi_sample_rate info) = (g, p)" by fastforce
  have "g = h \<and> s' = ?s1\<lparr>hx_arbiter := (hx_arbiter ?s1)\<lparr>aa_pool := p\<rparr>\<rparr> \<and> length mono \<noteq> 0"
    using ld h unfolding hxa_load_sfx_wav_def sl option.case prod.case Let_def e f i
      k_def [symmetric] mono_def [symmetric] gp by (simp split: if_splits)
  then have g: "g = h" "s' = ?s1\<lparr>hx_arbiter := (hx_arbiter ?s1)\<lparr>aa_pool := p\<rparr>\<rparr>" "length mono \<noteq> 0" by blast+
  have raw: "file_at rd mo s path = Some raw" by (simp add: file_at_def sl f)
  have "length mono \<le> k" by (simp add: mono_def wav_to_mono_pcm16_def Let_def split: option.split prod.split)
  also have "k \<le> wi_data_bytes info" by (simp add: k_def)
  also have "\<dots> \<le> length raw" by (rule parsed_data_inside [OF i])
  also have "\<dots> < 2147479552" using sz raw by (simp add: small_files_def)
  finally have len: "length (mono_bytes mono) + 8192 \<le> 4294967296" by (simp add: length_mono_bytes)
  have ok1: "service_ok rd n ?s1" by (rule in_ctx_ok [OF ok]) simp
  have "hxa_load_sfx_pcm ?s1 (mono_bytes mono) (wi_sample_rate info) = (h, s')"
    using gp g by (simp add: hxa_load_sfx_pcm_def length_mono_bytes)
  from loaded_sound [OF ok1 this h len] have "svc_sound s' h (mono_bytes mono)" .
  moreover have "file_sfx raw = mono_bytes mono" by (simp add: file_sfx_def i k_def mono_def)
  ultimately show ?thesis using raw by (simp add: length_mono_bytes)
qed

text \<open>
  The mailbox at work between other calls of the service; the list notes for every slot the sound of
  the file that was loaded into it.
\<close>

inductive cmd_reach :: "('f, 'h) file_reader \<Rightarrow> mailbox \<Rightarrow> ('f, 'h) service \<Rightarrow> byte list list \<Rightarrow> bool" for rd where
  init: "svc_reach rd s \<Longrightarrow> cmd_reach rd hx421_cmd_init s []"
| host: "cmd_reach rd c s snds \<Longrightarrow> svc_step rd s s' \<Longrightarrow> cmd_reach rd c s' snds"
| poll: "cmd_reach rd c s snds \<Longrightarrow> small_files rd mo s \<Longrightarrow> hx421_cmd_poll rd mo c s wd = Some (b, c', s', wd') \<Longrightarrow>
    cmd_reach rd c' s' (if cm_nsfx c' = cm_nsfx c then snds
      else snds @ [file_sfx (the (file_at rd mo s (the (path_at (wd(HX421_CMD_RESULT := 0)) HX421_CMD_PATH))))])"

definition cmd_ok :: "('f, 'h) file_reader \<Rightarrow> mailbox \<Rightarrow> ('f, 'h) service \<Rightarrow> byte list list \<Rightarrow> bool" where
  "cmd_ok rd c s snds \<longleftrightarrow> (\<exists>n. service_ok rd n s) \<and> length (cm_sfx c) = 8 \<and> cm_nsfx c \<le> 8 \<and> length snds = cm_nsfx c \<and>
     (\<forall>i < cm_nsfx c. svc_sound s (cm_sfx c ! i) (snds ! i) \<and> even (length (snds ! i)))"

lemma svc_steps_ok: "(svc_step rd)\<^sup>*\<^sup>* s s' \<Longrightarrow> service_ok rd n s \<Longrightarrow> service_ok rd n s'"
  by (induction rule: rtranclp_induct) (blast intro: svc_step_ok)+

lemma stop_music_steps: "(svc_step rd)\<^sup>*\<^sup>* s (stop_music rd c s)"
  unfolding stop_music_def by (simp add: r_into_rtranclp svc_step.stop_voice)

lemma load_steps:
  assumes "hxa_load_sfx_wav rd (mo_first mo) (mo_grow mo) (mo_mono mo) s path = Some (h, s')" and "small_files rd mo s"
  shows "(svc_step rd)\<^sup>*\<^sup>* s s'"
proof -
  have "length raw < 2147479552"
    if "slurp_file rd (mo_first mo) (mo_grow mo) path (aa_ctx (hx_arbiter s)) = Some (Some raw, c)" for raw c
    using assms(2) that unfolding small_files_def file_at_def by (metis (no_types, lifting) option.simps(5) case_prod_conv)
  then show ?thesis using svc_step.load_wav [OF assms(1)] by blast
qed

text \<open>A command leaves the slots alone, or it fills the next one with a file's sound.\<close>

lemma poll_cases:
  assumes pl: "hx421_cmd_poll rd mo c s wd = Some (b, c', s', wd')" and sz: "small_files rd mo s"
  obtains (keep) "(svc_step rd)\<^sup>*\<^sup>* s s'" "cm_sfx c' = cm_sfx c" "cm_nsfx c' = cm_nsfx c"
    | (load) path h where "path_at (wd(HX421_CMD_RESULT := 0)) HX421_CMD_PATH = Some path"
      "hxa_load_sfx_wav rd (mo_first mo) (mo_grow mo) (mo_mono mo) s path = Some (h, s')" "h \<noteq> 0" "cm_nsfx c < 8"
      "c' = c\<lparr>cm_sfx := (cm_sfx c)[cm_nsfx c := h], cm_nsfx := cm_nsfx c + 1\<rparr>"
proof (cases "wd HX421_CMD_DOORBELL = 0")
  case True
  then show ?thesis using pl by (intro keep) (simp_all add: hx421_cmd_poll_def)
next
  case False
  let ?w = "wd(HX421_CMD_RESULT := 0)" and ?opc = "wd HX421_CMD_CMD"
  have ops: "HX421_OP_LOAD_SFX \<noteq> HX421_OP_PRIME_STREAM"
    by (simp add: HX421_OP_LOAD_SFX_def HX421_OP_PRIME_STREAM_def)
  obtain wd2 where cs: "?opc = HX421_OP_LOAD_SFX \<and> load_op rd mo c s ?w = Some (c', s', wd2) \<or>
      ?opc = HX421_OP_PRIME_STREAM \<and> prime_op rd mo c s ?w = Some (c', s', wd2) \<or>
      trigger_op rd (wd HX421_CMD_ARG) c s ?w = (c', s', wd2) \<or>
      c' = c\<lparr>cm_music := 0\<rparr> \<and> s' = stop_music rd c s \<or> c' = c \<and> s' = s"
    using pl False by (auto simp: hx421_cmd_poll_def Let_def split: option.splits if_splits prod.splits)
  then show ?thesis
  proof (elim disjE conjE)
    assume l: "load_op rd mo c s ?w = Some (c', s', wd2)"
    then obtain path h s1 where p: "path_at ?w HX421_CMD_PATH = Some path"
      "hxa_load_sfx_wav rd (mo_first mo) (mo_grow mo) (mo_mono mo) s path = Some (h, s1)"
      by (auto simp: load_op_def split: option.splits)
    show ?thesis
    proof (cases "h \<noteq> 0 \<and> cm_nsfx c < 8")
      case True
      then show ?thesis using l p by (intro load [OF p(1)]) (auto simp: load_op_def HX421_CMD_SFX_SLOTS_def)
    next
      case False
      then have "c' = c" "s' = s1" using l p by (auto simp: load_op_def HX421_CMD_SFX_SLOTS_def)
      then show ?thesis using load_steps [OF p(2) sz] by (intro keep) simp_all
    qed
  next
    assume "prime_op rd mo c s ?w = Some (c', s', wd2)"
    then obtain path v where p: "hxa_play_stream_wav rd (mo_voice mo) (stop_music rd c s) path = Some (v, s')" "c' = c\<lparr>cm_music := v\<rparr>"
      by (auto simp: prime_op_def split: option.splits)
    show ?thesis by (rule keep) (use stop_music_steps svc_step.play_wav [OF p(1)] p(2) in \<open>auto intro: rtranclp.rtrancl_into_rtrancl\<close>)
  next
    assume t: "trigger_op rd (wd HX421_CMD_ARG) c s ?w = (c', s', wd2)"
    have "svc_step rd s (snd (hxa_trigger_sfx rd s h g q))" for h g q
      using svc_step.trigger [of rd s h g q] by (metis prod.collapse)
    then have "(svc_step rd)\<^sup>*\<^sup>* s s'" using t by (auto simp: trigger_op_def split: if_splits intro: r_into_rtranclp)
    then show ?thesis using t by (intro keep) (auto simp: trigger_op_def split: if_splits)
  next
    assume "c' = c\<lparr>cm_music := 0\<rparr>" "s' = stop_music rd c s"
    then show ?thesis using stop_music_steps by (intro keep) simp_all
  next
    assume "c' = c" "s' = s"
    then show ?thesis by (intro keep) simp_all
  qed
qed

lemma cmd_reach_ok: "cmd_reach rd c s snds \<Longrightarrow> cmd_ok rd c s snds"
proof (induction rule: cmd_reach.induct)
  case (init s)
  then show ?case using svc_reach_ok by (auto simp: cmd_ok_def hx421_cmd_init_def HX421_CMD_SFX_SLOTS_def)
next
  case (host c s snds s')
  then obtain n where n: "service_ok rd n s" by (auto simp: cmd_ok_def)
  have "svc_sound s' h b" if "svc_sound s h b" for h b by (rule svc_step_sound [OF host.hyps(2) n that])
  then show ?case using host.IH svc_step_ok [OF host.hyps(2) n] by (auto simp: cmd_ok_def)
next
  case (poll c s snds mo wd b c' s' wd')
  then obtain n where n: "service_ok rd n s" by (auto simp: cmd_ok_def)
  have len: "length (cm_sfx c) = 8" "cm_nsfx c \<le> 8" "length snds = cm_nsfx c"
    and old: "\<And>i. i < cm_nsfx c \<Longrightarrow> svc_sound s (cm_sfx c ! i) (snds ! i) \<and> even (length (snds ! i))"
    using poll.IH by (auto simp: cmd_ok_def)
  from poll.hyps(3,2) show ?case
  proof (cases rule: poll_cases)
    case keep
    have "svc_sound s' h b" if "svc_sound s h b" for h b using svc_steps_sound [OF keep(1) n that] by simp
    then show ?thesis using svc_steps_ok [OF keep(1) n] len old keep(2,3) unfolding cmd_ok_def by auto
  next
    case (load path h)
    obtain raw where raw: "file_at rd mo s path = Some raw" "svc_sound s' h (file_sfx raw)" "even (length (file_sfx raw))"
      using loaded_wav [OF n load(2,3) poll.hyps(2)] by blast
    have st: "(svc_step rd)\<^sup>*\<^sup>* s s'" by (rule load_steps [OF load(2) poll.hyps(2)])
    have "svc_sound s' h b" if "svc_sound s h b" for h b using svc_steps_sound [OF st n that] by simp
    then have "svc_sound s' ((cm_sfx c)[cm_nsfx c := h] ! i) ((snds @ [file_sfx raw]) ! i) \<and> even (length ((snds @ [file_sfx raw]) ! i))"
      if "i < cm_nsfx c + 1" for i
      using that old [of i] raw load(4) len by (cases "i = cm_nsfx c") (simp_all add: nth_append)
    then show ?thesis using svc_steps_ok [OF st n] len load raw unfolding cmd_ok_def by auto
  qed
qed

text \<open>With a full table the sound is loaded all the same: an error is reported, and the pool keeps the object.\<close>

lemma full_table_keeps_object:
  assumes "service_ok rd n s" and "small_files rd mo s" and "HX421_CMD_SFX_SLOTS \<le> cm_nsfx c" and "path_at wd HX421_CMD_PATH = Some path"
    and "hxa_load_sfx_wav rd (mo_first mo) (mo_grow mo) (mo_mono mo) s path = Some (h, s1)" and "h \<noteq> 0"
  shows "load_op rd mo c s wd = Some (c, s1, wd(HX421_CMD_RESULT := 1)) \<and> (\<exists>raw. file_at rd mo s path = Some raw \<and> svc_sound s1 h (file_sfx raw))"
  using loaded_wav [OF assms(1,5,6,2)] assms(3-5) by (auto simp: load_op_def)

text \<open>
  C4: A slot plays its file: after any commands and other calls of the service, triggering a slot
  of the mailbox is acknowledged without an error and asks the service for the sound of exactly the
  file that was loaded into this slot; when the service grants a voice, its channel holds the mono
  samples of that file, or the newest 32768 of them.
\<close>

theorem slot_plays_its_file:
  assumes "cmd_reach rd c s snds" and "reader_bounded rd" and "wd HX421_CMD_DOORBELL \<noteq> 0" and "wd HX421_CMD_CMD = HX421_OP_TRIGGER_SFX"
    and "unat (wd HX421_CMD_ARG) < cm_nsfx c"
    and "hxa_trigger_sfx rd s (cm_sfx c ! unat (wd HX421_CMD_ARG)) (q15_gain (wd HX421_CMD_GAIN)) (q15_pan (wd HX421_CMD_PAN)) = (v, s3)"
  shows "hx421_cmd_poll rd mo c s wd = Some (True, c, s3, wd(HX421_CMD_RESULT := 0, HX421_CMD_DOORBELL := 0)) \<and>
    (v \<noteq> 0 \<longrightarrow> (\<exists>t. resolve_voice (hx_arbiter s3) v = Some t \<and>
       channel_items (sv_mixer (aa_ctx (hx_arbiter s3))) t = newest 32768 (sfx_frames (snds ! unat (wd HX421_CMD_ARG)))))"
proof -
  let ?i = "unat (wd HX421_CMD_ARG)"
  have ok: "cmd_ok rd c s snds" by (rule cmd_reach_ok [OF assms(1)])
  then obtain n where n: "service_ok rd n s" and snd: "svc_sound s (cm_sfx c ! ?i) (snds ! ?i)" "even (length (snds ! ?i))"
    using assms(5) by (auto simp: cmd_ok_def)
  have "v \<noteq> 0 \<Longrightarrow> \<exists>t. resolve_voice (hx_arbiter s3) v = Some t \<and>
      channel_items (sv_mixer (aa_ctx (hx_arbiter s3))) t = newest 32768 (sfx_frames (snds ! ?i))"
    using trigger_items [OF n assms(2,6)] snd by (simp add: sound_def)
  moreover have "cm_sfx c ! ?i \<noteq> 0" using snd(1) by (simp add: sound_def)
  moreover have "HX421_CMD_DOORBELL \<noteq> HX421_CMD_RESULT" "HX421_CMD_GAIN \<noteq> HX421_CMD_RESULT" "HX421_CMD_PAN \<noteq> HX421_CMD_RESULT"
    by (simp_all add: HX421_CMD_DOORBELL_def HX421_CMD_RESULT_def HX421_CMD_GAIN_def HX421_CMD_PAN_def)
  ultimately show ?thesis
    using assms(3-6) by (simp add: hx421_cmd_poll_def trigger_op_def Let_def HX421_OP_TRIGGER_SFX_def HX421_OP_LOAD_SFX_def HX421_OP_PRIME_STREAM_def)
qed

section \<open>A slot of the small service\<close>

text \<open>A reader whose every file is one stereo frame at 22050 Hz, and the small service with it.\<close>

definition one_frame_wav :: "byte list" where "one_frame_wav = wav_header 22050 4 @ [52, 18, 52, 18]"

definition wav_reader :: "(unit, unit) file_reader" where
  "wav_reader = \<lparr>rd_open = \<lambda>f p. (Some (), f), rd_read = \<lambda>f h n. (take n one_frame_wav, f), rd_seek = \<lambda>f h n. (True, f),
     rd_close = \<lambda>f h. f\<rparr>"

definition wav_service :: "(unit, unit) service" where "wav_service = in_ctx (\<lambda>c. c\<lparr>sv_has_reader := True\<rparr>) small_service"

definition load_window :: cmd_window where "load_window = (\<lambda>_. 0)(HX421_CMD_DOORBELL := 1, HX421_CMD_CMD := HX421_OP_LOAD_SFX)"
definition trigger_window :: cmd_window where "trigger_window = (\<lambda>_. 0)(HX421_CMD_DOORBELL := 1, HX421_CMD_CMD := HX421_OP_TRIGGER_SFX)"

definition all_memory :: malloc_outcomes where
  "all_memory = \<lparr>mo_first = True, mo_grow = \<lambda>_. True, mo_mono = True, mo_voice = True\<rparr>"

lemma wav_reader_bounded: "reader_bounded wav_reader"
  by (simp add: reader_bounded_def wav_reader_def)

lemma finished_with_reader:
  "finish_create (cfg\<lparr>hc_has_reader := b\<rparr>) mem rate n pool mx fs h =
     map_prod (map_option (in_ctx (\<lambda>c. c\<lparr>sv_has_reader := b\<rparr>))) (\<lambda>x. x) (finish_create cfg mem rate n pool mx fs h)"
  by (simp add: finish_create_def audio_arbiter_init_def in_ctx_def Let_def split: option.split)

lemma created_with_reader:
  fixes cfg mem fs h b
  defines "F \<equiv> map_prod (map_option (in_ctx (\<lambda>c. c\<lparr>sv_has_reader := b\<rparr>))) (\<lambda>x. x)"
  shows "hxa_create (Some (cfg\<lparr>hc_has_reader := b\<rparr>)) mem fs h = F (hxa_create (Some cfg) mem fs h)"
proof -
  have none: "F (None, h1) = (None, h1)" for h1 by (simp add: F_def)
  have fin: "finish_create (cfg\<lparr>hc_has_reader := b\<rparr>) mem r n pool mx fs h1 = F (finish_create cfg mem r n pool mx fs h1)" for r n pool mx h1
    by (simp add: F_def finished_with_reader)
  have sel: "hc_sample_rate (cfg\<lparr>hc_has_reader := b\<rparr>) = hc_sample_rate cfg" "hc_track_count (cfg\<lparr>hc_has_reader := b\<rparr>) = hc_track_count cfg"
    "hc_pool_bytes (cfg\<lparr>hc_has_reader := b\<rparr>) = hc_pool_bytes cfg" "hc_headroom_bits (cfg\<lparr>hc_has_reader := b\<rparr>) = hc_headroom_bits cfg"
    by simp_all
  show ?thesis
    unfolding hxa_create_def option.case Let_def
    by (simp only: sel fin if_distrib [where f = F] option.case_distrib [where h = F] prod.case_distrib [where h = F] none)
qed

lemma wav_service_reach: "svc_reach wav_reader wav_service"
proof -
  obtain h' where "hxa_create (Some small_config) small_memory () no_blocks = (Some small_service, h')"
    using small_created by (auto simp: small_service_def)
  then have "hxa_create (Some (small_config\<lparr>hc_has_reader := True\<rparr>)) small_memory () no_blocks = (Some wav_service, h')"
    by (simp add: created_with_reader [where b = True] wav_service_def)
  then show ?thesis by (rule svc_reach.created [OF _ small_memory_sized]) (auto simp: small_sel)
qed

lemma one_frame_length: "length one_frame_wav = 48"
  by (simp add: one_frame_wav_def)

lemma wav_slurp: "sv_has_reader c \<Longrightarrow> slurp_file wav_reader True g path c = Some (Some one_frame_wav, c)"
  by (simp add: slurp_file_def wav_reader_def one_frame_length u32_def slurp_loop.simps [of _ _ _ 65536])

lemma one_frame_parses:
  "\<exists>info. wav_parse 64 one_frame_wav = Some (WAV_OK, info) \<and> wi_sample_rate info = 22050 \<and> wi_data_bytes info = 4 \<and>
     wi_channels info = 2 \<and> wi_bits info = 16 \<and> wav_to_mono_pcm16 info 1 = [4660]"
proof -
  define info where "info = \<lparr>wi_format = 1, wi_channels = 2, wi_sample_rate = 22050, wi_bits = 16,
    wi_data = Some (one_frame_wav, 44), wi_data_bytes = 4\<rparr>"
  have "wav_parse 64 one_frame_wav = Some (WAV_OK, info)"
    using wav_parse_written [of 22050 "[52, 18, 52, 18]" 4 64] by (simp add: one_frame_wav_def info_def)
  moreover have "one_frame_wav ! (44 + i) = [52, 18, 52, 18] ! i" for i
    by (simp add: one_frame_wav_def nth_append)
  then have d: "one_frame_wav ! 44 = 52" "one_frame_wav ! 45 = 18" "one_frame_wav ! 46 = 52" "one_frame_wav ! 47 = 18"
    by (metis add_0_right nth_Cons_0, simp_all add: one_frame_wav_def nth_append)
  have "[0..<2] = [0, 1 :: nat]" by (simp add: upt_conv_Cons)
  then have "wav_to_mono_pcm16 info 1 = [4660]"
    by (simp add: wav_to_mono_pcm16_def info_def frame_bytes_def mono_frame_def sample16_def rd_u16le_def d Let_def i16_def cdiv_def)
  ultimately show ?thesis by (intro exI [of _ info]) (simp add: info_def)
qed

lemma wav_load:
  "hxa_load_sfx_wav wav_reader True g True wav_service path = Some (small_sfx, in_ctx (\<lambda>c. c\<lparr>sv_has_reader := True\<rparr>) small_loaded)"
proof -
  obtain info where i: "wav_parse 64 one_frame_wav = Some (WAV_OK, info)" "wi_sample_rate info = 22050" "wi_data_bytes info = 4"
     "wi_channels info = 2" "wi_bits info = 16" "wav_to_mono_pcm16 info (Suc 0) = [4660]" using one_frame_parses by auto
  have "mono_bytes [4660] = [52, 18]" by (simp add: mono_bytes_def put_s16le_def put_u16le_def)
  moreover have "sv_has_reader (aa_ctx (hx_arbiter wav_service))" by (simp add: wav_service_def in_ctx_def)
  ultimately show ?thesis
    by (simp add: hxa_load_sfx_wav_def wav_slurp i small_sfx_def small_loaded_def hxa_load_sfx_pcm_def wav_service_def in_ctx_def
        Let_def split: prod.split)
qed

lemma wav_file: "sv_has_reader (aa_ctx (hx_arbiter s)) \<Longrightarrow> file_at wav_reader all_memory s path = Some one_frame_wav"
  by (simp add: file_at_def wav_slurp all_memory_def)

lemma wav_file_sfx: "file_sfx one_frame_wav = [52, 18]"
  using one_frame_parses by (auto simp: file_sfx_def mono_bytes_def put_s16le_def put_u16le_def)

definition one_slot :: mailbox where "one_slot = hx421_cmd_init\<lparr>cm_sfx := [small_sfx, 0, 0, 0, 0, 0, 0, 0], cm_nsfx := 1\<rparr>"
definition slot_service :: "(unit, unit) service" where "slot_service = in_ctx (\<lambda>c. c\<lparr>sv_has_reader := True\<rparr>) small_loaded"

lemma one_slot_reach: "cmd_reach wav_reader one_slot slot_service [[52, 18]]"
proof -
  have has: "sv_has_reader (aa_ctx (hx_arbiter wav_service))" by (simp add: wav_service_def in_ctx_def)
  have "path_at w k = Some []" if "w k = 0" "k < 65536" for w k
    using that by (simp add: path_at_def upt_conv_Cons Let_def)
  then have pa: "path_at (load_window(HX421_CMD_RESULT := 0)) HX421_CMD_PATH = Some []"
    by (simp add: load_window_def HX421_CMD_PATH_def HX421_CMD_DOORBELL_def HX421_CMD_CMD_def)
  have "replicate 8 0 = [0, 0, 0, 0, 0, 0, 0, 0 :: obj_handle]" by (simp add: numeral_eq_Suc)
  then have "\<exists>wd'. hx421_cmd_poll wav_reader all_memory hx421_cmd_init wav_service load_window = Some (True, one_slot, slot_service, wd')"
    using pa small_sfx_nonzero
    by (simp add: hx421_cmd_poll_def load_op_def wav_load all_memory_def load_window_def one_slot_def slot_service_def hx421_cmd_init_def
        HX421_CMD_DOORBELL_def HX421_CMD_CMD_def HX421_CMD_RESULT_def HX421_CMD_SFX_SLOTS_def Let_def)
  then obtain wd' where pl: "hx421_cmd_poll wav_reader all_memory hx421_cmd_init wav_service load_window = Some (True, one_slot, slot_service, wd')" ..
  have "small_files wav_reader all_memory wav_service"
    using wav_file [OF has] by (simp add: small_files_def one_frame_length)
  from cmd_reach.poll [OF cmd_reach.init [OF wav_service_reach] this pl] show ?thesis
    by (simp add: one_slot_def hx421_cmd_init_def wav_file [OF has] wav_file_sfx)
qed

theorem slot_plays_its_file_witness:
  "\<exists>s3. hx421_cmd_poll wav_reader all_memory one_slot slot_service trigger_window =
     Some (True, one_slot, s3, trigger_window(HX421_CMD_RESULT := 0, HX421_CMD_DOORBELL := 0))"
proof -
  obtain v s3 where t: "hxa_trigger_sfx wav_reader slot_service (cm_sfx one_slot ! unat (trigger_window HX421_CMD_ARG))
      (q15_gain (trigger_window HX421_CMD_GAIN)) (q15_pan (trigger_window HX421_CMD_PAN)) = (v, s3)" by fastforce
  have "trigger_window HX421_CMD_DOORBELL \<noteq> 0" "trigger_window HX421_CMD_CMD = HX421_OP_TRIGGER_SFX"
    "unat (trigger_window HX421_CMD_ARG) < cm_nsfx one_slot"
    by (simp_all add: trigger_window_def one_slot_def HX421_CMD_DOORBELL_def HX421_CMD_CMD_def HX421_CMD_ARG_def)
  from slot_plays_its_file [OF one_slot_reach wav_reader_bounded this t] show ?thesis by blast
qed

end
