(* ===== verification/Spec2Isabelle.thy ===== *)
theory Spec2Isabelle
  imports Containers_Props Audio_Pool_Props Audio_Arbiter_Spec Ring_Stream Wav_Spec Fixed_Point_Spec Mixer_Props Music_Props Sprite_Mask_Spec Raster_Spec Scene3d_Spec Collide_Response Metatile Stream_Spec Audio_Fft_Spec Service_Props Sd_Props Rle Media_Props Loader Sysimpl Terminal Stream_Wav Command
begin

text \<open>
  A verification library of the HX-421 sound engine.
\<close>

end
